(* ===== verification/Zend_Prelude.thy ===== *)
theory Zend_Prelude
  imports Main "HOL-Library.Word" "HOL-Library.Monad_Syntax"
begin

text \<open>
  Shared vocabulary of the development.

  \<^item> The machine model: LP64 with a signed \<^verbatim>\<open>char\<close>, so \<^verbatim>\<open>ulong\<close> is a 64-bit word,
    \<^verbatim>\<open>uint\<close> a 32-bit word and a byte an 8-bit word.
  \<^item> The status codes \<^verbatim>\<open>SUCCESS\<close> and \<^verbatim>\<open>FAILURE\<close> of \<^verbatim>\<open>zend_types.h\<close>.
  \<^item> Heap cells: a heap is a partial map from addresses to structures; reading or
    writing an address outside its domain is a memory fault, the value \<open>None\<close> of the
    \<open>option\<close> monad in which every pointer-manipulating operation of the engine is written.
  \<^item> Neighbours in a list (\<open>nxt_of\<close>, \<open>prv_of\<close>, \<open>first_of\<close>, \<open>last_of\<close>), with which the
    linked structures of the engine are specified.
\<close>

named_theorems zsimps \<open>unfoldings of the models' small operations\<close>
named_theorems heap_simps \<open>reading a heap after a write\<close>

type_synonym ulong = "64 word"
type_synonym uint = "32 word"
type_synonym byte = "8 word"
type_synonym ptr = nat

datatype zresult = SUCCESS | FAILURE

section \<open>Heap cells\<close>

definition modify :: "'p \<Rightarrow> ('b \<Rightarrow> 'b) \<Rightarrow> ('p \<rightharpoonup> 'b) \<Rightarrow> ('p \<rightharpoonup> 'b)" where
  "modify p f hp = hp(p := map_option f (hp p))"

definition poke :: "'p \<Rightarrow> ('b \<Rightarrow> 'b) \<Rightarrow> ('p \<rightharpoonup> 'b) \<Rightarrow> ('p \<rightharpoonup> 'b) option" where
  "poke p f hp = (case hp p of None \<Rightarrow> None | Some b \<Rightarrow> Some (hp(p \<mapsto> f b)))"

definition fld :: "('b \<Rightarrow> 'c) \<Rightarrow> ('p \<rightharpoonup> 'b) \<Rightarrow> 'p \<Rightarrow> 'c option" where
  "fld sel hp p = map_option sel (hp p)"

lemma poke_eq: "poke p f hp = (if p \<in> dom hp then Some (modify p f hp) else None)"
  by (auto simp: poke_def modify_def split: option.splits)

lemma poke_ok [simp]: "p \<in> dom hp \<Longrightarrow> poke p f hp = Some (modify p f hp)"
  by (simp add: poke_eq)

lemma dom_modify [simp, heap_simps]: "dom (modify p f hp) = dom hp"
  by (auto simp: modify_def split: if_splits)

lemma modify_other [simp]: "q \<noteq> p \<Longrightarrow> modify p f hp q = hp q"
  by (simp add: modify_def)

lemma fld_modify [heap_simps]:
  "fld sel (modify p f hp) q = (if q = p then fld (sel \<circ> f) hp q else fld sel hp q)"
  by (simp add: fld_def modify_def option.map_comp)

lemma fld_modify_other [simp]: "(\<And>b. sel (f b) = sel b) \<Longrightarrow> fld sel (modify p f hp) = fld sel hp"
  by (rule ext) (simp add: fld_def modify_def option.map_comp comp_def)

lemma fld_modify_set [simp]:
  "(\<And>b. sel (f b) = v) \<Longrightarrow> p \<in> dom hp \<Longrightarrow> fld sel (modify p f hp) = (fld sel hp)(p \<mapsto> v)"
  by (rule ext) (auto simp: fld_def modify_def)

lemma fld_Some [simp]: "hp p = Some b \<Longrightarrow> fld sel hp p = Some (sel b)"
  by (simp add: fld_def)

lemma fld_None_iff [simp]: "fld sel hp p = None \<longleftrightarrow> p \<notin> dom hp"
  by (auto simp: fld_def)

lemma fld_upd [simp]: "fld sel (hp(p \<mapsto> b)) = (fld sel hp)(p \<mapsto> sel b)"
  by (rule ext) (simp add: fld_def)

lemma fld_clear [simp]: "fld sel (hp(p := None)) = (fld sel hp)(p := None)"
  by (rule ext) (simp add: fld_def)

section \<open>Neighbours in a list\<close>

definition first_of :: "'a list \<Rightarrow> 'a option" where
  "first_of xs = (case xs of [] \<Rightarrow> None | x # _ \<Rightarrow> Some x)"

definition last_of :: "'a list \<Rightarrow> 'a option" where
  "last_of xs = (if xs = [] then None else Some (last xs))"

fun nxt_of :: "'a list \<Rightarrow> 'a \<Rightarrow> 'a option" where
  "nxt_of (a # b # xs) x = (if x = a then Some b else nxt_of (b # xs) x)"
| "nxt_of _ x = None"

fun prv_of :: "'a list \<Rightarrow> 'a \<Rightarrow> 'a option" where
  "prv_of (a # b # xs) x = (if x = b then Some a else prv_of (b # xs) x)"
| "prv_of _ x = None"

lemma first_of_simps [simp]: "first_of [] = None" "first_of (x # xs) = Some x"
  by (simp_all add: first_of_def)

lemma last_of_simps [simp]:
  "last_of [] = None" "last_of (xs @ [x]) = Some x" "xs \<noteq> [] \<Longrightarrow> last_of (x # xs) = last_of xs"
  "last_of [x] = Some x"
  by (simp_all add: last_of_def)

lemma first_of_None [simp]: "first_of xs = None \<longleftrightarrow> xs = []"
  by (simp add: first_of_def split: list.splits)

lemma last_of_None [simp]: "last_of xs = None \<longleftrightarrow> xs = []"
  by (simp add: last_of_def)

lemma first_of_Some: "first_of xs = Some x \<longleftrightarrow> (\<exists>ys. xs = x # ys)"
  by (auto simp: first_of_def split: list.splits)

lemma last_of_Some: "last_of xs = Some x \<longleftrightarrow> (\<exists>ys. xs = ys @ [x])"
  by (cases xs rule: rev_cases) (auto simp: last_of_def)

lemma first_of_in [dest]: "first_of xs = Some x \<Longrightarrow> x \<in> set xs"
  by (auto simp: first_of_Some)

lemma last_of_in [dest]: "last_of xs = Some x \<Longrightarrow> x \<in> set xs"
  by (auto simp: last_of_Some)

lemma first_of_append: "first_of (xs @ ys) = (if xs = [] then first_of ys else first_of xs)"
  by (cases xs) auto

lemma last_of_append: "last_of (xs @ ys) = (if ys = [] then last_of xs else last_of ys)"
  by (simp add: last_of_def)

lemma first_of_rev [simp]: "first_of (rev xs) = last_of xs"
  by (cases xs rule: rev_cases) auto

lemma nxt_of_notin [simp]: "x \<notin> set xs \<Longrightarrow> nxt_of xs x = None"
  by (induction xs x rule: nxt_of.induct) auto

lemma prv_of_notin [simp]: "x \<notin> set xs \<Longrightarrow> prv_of xs x = None"
  by (induction xs x rule: prv_of.induct) auto

lemma nxt_of_Cons:
  "nxt_of (a # xs) x = (if x = a \<and> xs \<noteq> [] then first_of xs else nxt_of xs x)"
  by (cases xs) auto

lemma prv_of_Cons:
  "prv_of (a # xs) x = (if first_of xs = Some x then Some a else prv_of xs x)"
  by (cases xs) auto

lemma nxt_of_append:
  "distinct (xs @ ys) \<Longrightarrow>
   nxt_of (xs @ ys) x =
     (if x \<in> set ys then nxt_of ys x else if last_of xs = Some x then first_of ys else nxt_of xs x)"
proof (induction xs)
  case (Cons a xs)
  show ?case
  proof (cases "xs = []")
    case True
    with Cons.prems show ?thesis by (cases ys) auto
  next
    case False
    then have "first_of (xs @ ys) = first_of xs" "last_of (a # xs) = last_of xs"
      by (simp_all add: first_of_append)
    moreover have "x = a \<Longrightarrow> last_of xs \<noteq> Some x"
      using Cons.prems by (auto simp: last_of_def split: if_splits)
    ultimately show ?thesis
      using Cons False by (auto simp: nxt_of_Cons)
  qed
qed simp

lemma prv_of_append:
  "distinct (xs @ ys) \<Longrightarrow>
   prv_of (xs @ ys) x =
     (if x \<in> set xs then prv_of xs x
      else if xs \<noteq> [] \<and> first_of ys = Some x then last_of xs else prv_of ys x)"
proof (induction xs)
  case (Cons a xs)
  show ?case
  proof (cases "xs = []")
    case True
    with Cons.prems show ?thesis by (cases ys) (auto simp: prv_of_Cons)
  next
    case False
    then obtain b zs where xs: "xs = b # zs" by (cases xs) auto
    have "x = a \<Longrightarrow> prv_of ((b # zs) @ ys) x = None \<and> prv_of (b # zs) x = None"
      using Cons.prems xs by auto
    with Cons xs show ?thesis by (auto simp: prv_of_Cons)
  qed
qed simp

lemma nxt_of_in: "nxt_of xs x = Some y \<Longrightarrow> x \<in> set xs \<and> y \<in> set xs"
  by (induction xs x rule: nxt_of.induct) (auto split: if_splits)

lemma prv_of_in: "prv_of xs x = Some y \<Longrightarrow> x \<in> set xs \<and> y \<in> set xs"
  by (induction xs x rule: prv_of.induct) (auto split: if_splits)

lemma nxt_of_split [simp]:
  "distinct (xs @ p # ys) \<Longrightarrow> nxt_of (xs @ p # ys) p = first_of ys"
  by (subst nxt_of_append) (auto simp: nxt_of_Cons)

lemma prv_of_split [simp]:
  "distinct (xs @ p # ys) \<Longrightarrow> prv_of (xs @ p # ys) p = last_of xs"
  by (subst prv_of_append) (auto simp: prv_of_Cons first_of_def split: list.splits)

lemma nxt_of_rev: "distinct xs \<Longrightarrow> nxt_of (rev xs) x = prv_of xs x"
proof (induction xs)
  case (Cons a xs)
  then show ?case
    by (cases xs) (auto simp: nxt_of_append prv_of_Cons)
qed simp

lemma prv_of_rev: "distinct xs \<Longrightarrow> prv_of (rev xs) x = nxt_of xs x"
  using nxt_of_rev [of "rev xs" x] by simp

lemma remove1_mid [simp]: "p \<notin> set xs \<Longrightarrow> remove1 p (xs @ p # ys) = xs @ ys"
  by (simp add: remove1_append)

lemma distinct_remove1_set [simp]: "distinct xs \<Longrightarrow> set (remove1 p xs) = set xs - {p}"
  by (rule set_remove1_eq)

lemma length_filter_remove1:
  "distinct xs \<Longrightarrow> p \<in> set xs \<Longrightarrow>
   int (length (filter P (remove1 p xs))) = int (length (filter P xs)) - (if P p then 1 else 0)"
  by (induction xs) auto

end
