(* ===== verification/Zend_Dll.thy ===== *)
theory Zend_Dll
  imports Zend_Prelude
begin

text \<open>
  Doubly linked lists, as the engine threads them through its heap structures.

  \<open>linked nx pv xs\<close> says that the two link fields, given as partial maps from addresses
  to the contents of the field, link exactly the addresses \<open>xs\<close>, in this order and
  terminated by null pointers at both ends. It is used for the elements of a
  \<^verbatim>\<open>zend_llist\<close> and for both lists every hash bucket is a member of: the collision
  chain of its slot and the global list in insertion order.

  \<open>walk\<close> is the shape of all loops over such lists: read the successor, run the body,
  stop if it says so, go on with the successor. \<open>walk_rule\<close> is its total-correctness
  rule: the loop returns (no fault, no divergence) and its result satisfies the
  postcondition.
\<close>

definition linked :: "('p \<rightharpoonup> 'p option) \<Rightarrow> ('p \<rightharpoonup> 'p option) \<Rightarrow> 'p list \<Rightarrow> bool" where
  "linked nx pv xs \<longleftrightarrow>
     distinct xs \<and> (\<forall>p\<in>set xs. nx p = Some (nxt_of xs p) \<and> pv p = Some (prv_of xs p))"

definition upd_opt :: "'p option \<Rightarrow> 'v \<Rightarrow> ('p \<rightharpoonup> 'v) \<Rightarrow> ('p \<rightharpoonup> 'v)" where
  "upd_opt k v m = (case k of None \<Rightarrow> m | Some p \<Rightarrow> m(p \<mapsto> v))"

lemma upd_opt_simps [simp]: "upd_opt None v m = m" "upd_opt (Some p) v m = m(p \<mapsto> v)"
  by (simp_all add: upd_opt_def)

lemma upd_opt_apply: "upd_opt k v m p = (if k = Some p then Some v else m p)"
  by (cases k) auto

lemma linked_distinct [dest]: "linked nx pv xs \<Longrightarrow> distinct xs"
  by (simp add: linked_def)

lemma linked_Nil [simp]: "linked nx pv []"
  by (simp add: linked_def)

lemma linkedD:
  assumes "linked nx pv xs" "p \<in> set xs"
  shows "nx p = Some (nxt_of xs p)" "pv p = Some (prv_of xs p)"
  using assms by (auto simp: linked_def)

lemma linked_split:
  assumes "linked nx pv (xs @ p # ys)"
  shows "nx p = Some (first_of ys)" "pv p = Some (last_of xs)"
  using assms by (auto simp: linked_def)

lemma linked_cong:
  "(\<And>p. p \<in> set xs \<Longrightarrow> nx' p = nx p \<and> pv' p = pv p) \<Longrightarrow> linked nx' pv' xs = linked nx pv xs"
  by (simp add: linked_def)

text \<open>Taking one element out: its neighbours are joined, all other links stay.\<close>

lemma linked_unlink:
  assumes "linked nx pv (xs @ p # ys)"
  shows "linked (upd_opt (last_of xs) (first_of ys) nx) (upd_opt (first_of ys) (last_of xs) pv) (xs @ ys)"
proof -
  have d: "distinct (xs @ p # ys)" using assms by blast
  have d': "distinct (xs @ ys)" using d by auto
  have l: "nx q = Some (nxt_of (xs @ p # ys) q)" "pv q = Some (prv_of (xs @ p # ys) q)"
    if "q \<in> set (xs @ ys)" for q
    using assms that by (auto simp: linked_def)
  have n: "nxt_of (xs @ ys) q = (if last_of xs = Some q then first_of ys else nxt_of (xs @ p # ys) q)"
    if "q \<in> set (xs @ ys)" for q
    using d d' that by (auto simp: nxt_of_append nxt_of_Cons)
  have v: "prv_of (xs @ ys) q = (if first_of ys = Some q then last_of xs else prv_of (xs @ p # ys) q)"
    if "q \<in> set (xs @ ys)" for q
  proof (cases "q \<in> set xs")
    case True
    then have "first_of ys \<noteq> Some q" using d' by auto
    then show ?thesis using True d d' prv_of_append [of xs ys q] prv_of_append [of xs "p # ys" q] by simp
  next
    case False
    then show ?thesis
      using d d' that prv_of_append [of xs ys q] prv_of_append [of xs "p # ys" q]
      by (cases ys) (auto simp: prv_of_Cons)
  qed
  show ?thesis
    unfolding linked_def using d' l n v by (auto simp: upd_opt_apply)
qed

text \<open>Putting a new element between two neighbours.\<close>

lemma linked_insert:
  assumes "linked nx pv (xs @ ys)" and "p \<notin> set (xs @ ys)"
  shows "linked (upd_opt (last_of xs) (Some p) (nx(p \<mapsto> first_of ys)))
                (upd_opt (first_of ys) (Some p) (pv(p \<mapsto> last_of xs))) (xs @ p # ys)"
proof -
  have d': "distinct (xs @ ys)" using assms by blast
  have d: "distinct (xs @ p # ys)" using d' assms(2) by auto
  have l: "nx q = Some (nxt_of (xs @ ys) q)" "pv q = Some (prv_of (xs @ ys) q)"
    if "q \<in> set (xs @ ys)" for q
    using assms that by (auto simp: linked_def)
  have n: "nxt_of (xs @ p # ys) q = (if last_of xs = Some q then Some p else nxt_of (xs @ ys) q)"
    if "q \<in> set (xs @ ys)" for q
    using d d' that by (auto simp: nxt_of_append nxt_of_Cons)
  have v: "prv_of (xs @ p # ys) q = (if first_of ys = Some q then Some p else prv_of (xs @ ys) q)"
    if "q \<in> set (xs @ ys)" for q
    using d d' that
    by (auto simp: prv_of_append prv_of_Cons)
  have p: "last_of xs \<noteq> Some p" "first_of ys \<noteq> Some p"
    using assms(2) by auto
  show ?thesis
    unfolding linked_def using d l n v p by (auto simp: upd_opt_apply)
qed

section \<open>Walking a list\<close>

partial_function (option) walk ::
  "('s \<Rightarrow> 'p \<Rightarrow> 'p option option) \<Rightarrow> ('p \<Rightarrow> 's \<Rightarrow> ('s \<times> bool) option) \<Rightarrow>
   'p option \<Rightarrow> 's \<Rightarrow> 's option" where
  "walk nx body p s =
     (case p of
        None \<Rightarrow> Some s
      | Some a \<Rightarrow>
          Option.bind (nx s a) (\<lambda>n.
          Option.bind (body a s) (\<lambda>(s', stop).
            if stop then Some s' else walk nx body n s')))"

declare walk.simps [code]

lemma walk_None [simp]: "walk nx body None s = Some s"
  by (simp add: walk.simps)

lemma walk_Some:
  "walk nx body (Some a) s =
     Option.bind (nx s a) (\<lambda>n. Option.bind (body a s) (\<lambda>(s', stop).
       if stop then Some s' else walk nx body n s'))"
  by (subst walk.simps) simp

lemma walk_rule:
  assumes step: "\<And>a xs s. I (a # xs) s \<Longrightarrow>
      nx s a = Some (first_of xs) \<and>
      (\<exists>s' stop. body a s = Some (s', stop) \<and> (if stop then Q s' else I xs s'))"
    and final: "\<And>s. I [] s \<Longrightarrow> Q s"
    and "I xs s"
  shows "\<exists>s'. walk nx body (first_of xs) s = Some s' \<and> Q s'"
  using \<open>I xs s\<close>
proof (induction xs arbitrary: s)
  case Nil
  then show ?case using final by simp
next
  case (Cons a xs)
  then obtain s' stop where "nx s a = Some (first_of xs)" "body a s = Some (s', stop)"
      "if stop then Q s' else I xs s'"
    using step by blast
  then show ?case using Cons.IH [of s'] by (cases stop) (auto simp: walk_Some)
qed

text \<open>The loop seen as a fold, when the body neither stops early nor touches the links.\<close>

lemma walk_fold:
  assumes "\<And>a xs s. J (a # xs) s \<Longrightarrow>
      nx s a = Some (first_of xs) \<and> body a s = Some (f a s, False) \<and> J xs (f a s)"
    and "J xs s"
  shows "walk nx body (first_of xs) s = Some (fold f xs s)"
  using \<open>J xs s\<close>
proof (induction xs arbitrary: s)
  case (Cons a xs)
  then show ?case using assms(1) [OF Cons.prems] by (simp add: walk_Some)
qed simp

text \<open>
  Searching: the loop stops at the first address whose cell satisfies the test. The heap
  is not changed by the loop.
\<close>

definition cell_search :: "('p \<rightharpoonup> 'b) \<Rightarrow> ('b \<Rightarrow> 'p option) \<Rightarrow> ('p \<Rightarrow> 'b \<Rightarrow> bool) \<Rightarrow> 'p option \<Rightarrow> 'p option option" where
  "cell_search hp nx test p =
     walk (\<lambda>_ a. fld nx hp a)
       (\<lambda>a s. map_option (\<lambda>b. if test a b then (Some a, True) else (s, False)) (hp a)) p None"

lemma cell_search_linked:
  assumes "linked (fld nx hp) pv xs"
  shows "cell_search hp nx test (first_of xs) = Some (find (\<lambda>a. \<exists>b. hp a = Some b \<and> test a b) xs)"
proof -
  have "walk (\<lambda>_ a. fld nx hp a)
         (\<lambda>a s. map_option (\<lambda>b. if test a b then (Some a, True) else (s, False)) (hp a)) (first_of ys) None
      = Some (find (\<lambda>a. \<exists>b. hp a = Some b \<and> test a b) ys)"
    if "xs = zs @ ys" for ys zs
    using that
  proof (induction ys arbitrary: zs)
    case (Cons a ys)
    from assms Cons.prems have n: "fld nx hp a = Some (first_of ys)"
      by (auto dest: linked_split)
    then obtain b where "hp a = Some b" by (auto simp: fld_def)
    with n Cons.IH [of "zs @ [a]"] Cons.prems show ?case
      by (auto simp: walk_Some)
  qed simp
  from this [of "[]" xs] show ?thesis by (simp add: cell_search_def)
qed

section \<open>Loops that choose their next element themselves\<close>

text \<open>
  The body returns the new state and the element to go on with (null: the loop is over).
  This is the form of the loops that read the successor after a callback has run.
\<close>

partial_function (option) iterate ::
  "('p \<Rightarrow> 's \<Rightarrow> ('s \<times> 'p option) option) \<Rightarrow> 'p option \<Rightarrow> 's \<Rightarrow> 's option" where
  "iterate body p s =
     (case p of
        None \<Rightarrow> Some s
      | Some a \<Rightarrow> Option.bind (body a s) (\<lambda>(s', n). iterate body n s'))"

declare iterate.simps [code]

lemma iterate_None [simp]: "iterate body None s = Some s"
  by (simp add: iterate.simps)

lemma iterate_Some: "iterate body (Some a) s = Option.bind (body a s) (\<lambda>(s', n). iterate body n s')"
  by (subst iterate.simps) simp

lemma iterate_rule:
  assumes step: "\<And>a xs s. I (a # xs) s \<Longrightarrow>
      \<exists>s' n. body a s = Some (s', n) \<and> ((n = None \<and> Q s') \<or> (n = first_of xs \<and> I xs s'))"
    and final: "\<And>s. I [] s \<Longrightarrow> Q s"
    and "I xs s"
  shows "\<exists>s'. iterate body (first_of xs) s = Some s' \<and> Q s'"
  using \<open>I xs s\<close>
proof (induction xs arbitrary: s)
  case Nil
  then show ?case using final by simp
next
  case (Cons a xs)
  obtain s' n where b: "body a s = Some (s', n)" "(n = None \<and> Q s') \<or> (n = first_of xs \<and> I xs s')"
    using step [OF Cons.prems] by blast
  then show ?case using Cons.IH [of s'] by (auto simp: iterate_Some)
qed

lemma iterate_preserves:
  assumes r: "iterate body p s = Some s'" and step: "\<And>a s s' n. body a s = Some (s', n) \<Longrightarrow> Q s \<Longrightarrow> Q s'" and "Q s"
  shows "Q s'"
proof -
  have "(\<forall>a s s' n. body a s = Some (s', n) \<longrightarrow> Q s \<longrightarrow> Q s') \<longrightarrow> Q s \<longrightarrow> Q s'"
  proof (rule iterate.raw_induct [of "\<lambda>body p s s'. (\<forall>a s s' n. body a s = Some (s', n) \<longrightarrow> Q s \<longrightarrow> Q s') \<longrightarrow> Q s \<longrightarrow> Q s'", OF _ r], intro impI)
    fix it :: "('b \<Rightarrow> 'a \<Rightarrow> ('a \<times> 'b option) option) \<Rightarrow> 'b option \<Rightarrow> 'a \<Rightarrow> 'a option" and b p s s'
    assume ih: "\<And>b p s s'. it b p s = Some s' \<Longrightarrow> (\<forall>a s s' n. b a s = Some (s', n) \<longrightarrow> Q s \<longrightarrow> Q s') \<longrightarrow> Q s \<longrightarrow> Q s'"
      and e: "(case p of None \<Rightarrow> Some s | Some a \<Rightarrow> Option.bind (b a s) (\<lambda>(s', n). it b n s')) = Some s'"
      and st: "\<forall>a s s' n. b a s = Some (s', n) \<longrightarrow> Q s \<longrightarrow> Q s'" and q: "Q s"
    show "Q s'"
    proof (cases p)
      case None
      then show ?thesis using e q by simp
    next
      case (Some a)
      obtain s1 n where b: "b a s = Some (s1, n)" "it b n s1 = Some s'" using e Some by (auto split: bind_splits)
      then show ?thesis using ih [OF b(2)] st q by blast
    qed
  qed
  then show ?thesis using step \<open>Q s\<close> by blast
qed

end
