(* ===== verification/Zend_HashFunc.thy ===== *)
theory Zend_HashFunc
  imports Zend_Prelude
begin

text \<open>
  Keys of hash tables: the string hash \<^verbatim>\<open>zend_inline_hash_func\<close> and the recognition of
  integer-like string keys (\<^verbatim>\<open>ZEND_HANDLE_NUMERIC_EX\<close>), both of \<^verbatim>\<open>Zend/zend_hash.h\<close>.

  A key is the list of its bytes; as in the code its length includes the terminating NUL.
  The unrolled hash loop is shown equal to the plain times-33 fold, and the recogniser to
  accept exactly the canonical decimal notations of 64-bit signed integers.
\<close>

section \<open>The hash function\<close>

definition hash_step :: "ulong \<Rightarrow> byte \<Rightarrow> ulong" where
  "hash_step hash c = (push_bit 5 hash + hash) + scast c"

text \<open>The main loop takes eight bytes at a time, the \<^verbatim>\<open>switch\<close> the remaining at most seven.\<close>

fun hash_unrolled :: "ulong \<Rightarrow> byte list \<Rightarrow> ulong" where
  "hash_unrolled hash (c1 # c2 # c3 # c4 # c5 # c6 # c7 # c8 # cs) =
     hash_unrolled (hash_step (hash_step (hash_step (hash_step (hash_step (hash_step (hash_step
       (hash_step hash c1) c2) c3) c4) c5) c6) c7) c8) cs"
| "hash_unrolled hash [c1, c2, c3, c4, c5, c6, c7] =
     hash_step (hash_step (hash_step (hash_step (hash_step (hash_step (hash_step hash c1) c2) c3) c4) c5) c6) c7"
| "hash_unrolled hash [c1, c2, c3, c4, c5, c6] =
     hash_step (hash_step (hash_step (hash_step (hash_step (hash_step hash c1) c2) c3) c4) c5) c6"
| "hash_unrolled hash [c1, c2, c3, c4, c5] =
     hash_step (hash_step (hash_step (hash_step (hash_step hash c1) c2) c3) c4) c5"
| "hash_unrolled hash [c1, c2, c3, c4] = hash_step (hash_step (hash_step (hash_step hash c1) c2) c3) c4"
| "hash_unrolled hash [c1, c2, c3] = hash_step (hash_step (hash_step hash c1) c2) c3"
| "hash_unrolled hash [c1, c2] = hash_step (hash_step hash c1) c2"
| "hash_unrolled hash [c1] = hash_step hash c1"
| "hash_unrolled hash [] = hash"

definition zend_inline_hash_func :: "byte list \<Rightarrow> ulong" where
  "zend_inline_hash_func arKey = hash_unrolled 5381 arKey"

definition zend_hash_func :: "byte list \<Rightarrow> ulong" where
  "zend_hash_func arKey = zend_inline_hash_func arKey"

section \<open>Integer-like string keys\<close>

definition LONG_MAX :: ulong where
  "LONG_MAX = 9223372036854775807"

definition MAX_LENGTH_OF_LONG :: nat where
  "MAX_LENGTH_OF_LONG = 20"

text \<open>Strings of the engine are followed by a NUL byte, also beyond their stated length.\<close>

definition char_at :: "byte list \<Rightarrow> nat \<Rightarrow> byte" where
  "char_at key i = (if i < length key then key ! i else 0)"

definition is_digit :: "byte \<Rightarrow> bool" where
  "is_digit c \<longleftrightarrow> 48 \<le> c \<and> c \<le> 57"

function numeric_loop :: "byte list \<Rightarrow> nat \<Rightarrow> nat \<Rightarrow> ulong \<Rightarrow> nat \<times> ulong" where
  "numeric_loop key end' tmp idx =
     (let tmp = Suc tmp in
      if tmp \<noteq> end' \<and> is_digit (char_at key tmp)
      then numeric_loop key end' tmp (idx * 10 + ucast (char_at key tmp - 48))
      else (tmp, idx))"
  by pat_completeness auto
termination
  by (relation "measure (\<lambda>(key, _, tmp, _). length key - tmp)")
    (auto simp: char_at_def is_digit_def split: if_splits)

declare numeric_loop.simps [simp del]

definition ZEND_HANDLE_NUMERIC_EX :: "byte list \<Rightarrow> ulong option" where
  "ZEND_HANDLE_NUMERIC_EX key =
     (let tmp = (if char_at key 0 = 45 then 1 else 0) in
      if is_digit (char_at key tmp) then
        let end' = length key - 1 in
        if char_at key end' \<noteq> 0 \<or> char_at key tmp = 48 \<and> length key > 2 \<or>
           end' - tmp > MAX_LENGTH_OF_LONG - 1
        then None
        else
          let (tmp, idx) = numeric_loop key end' tmp (ucast (char_at key tmp - 48)) in
          if tmp = end' then
            if char_at key 0 = 45
            then (if idx - 1 > LONG_MAX then None else Some (0 - idx))
            else (if idx > LONG_MAX then None else Some idx)
          else None
      else None)"

section \<open>The unrolled loop is the plain loop\<close>

lemma hash_unrolled_fold: "hash_unrolled hash cs = fold (\<lambda>c hash. hash_step hash c) cs hash"
  by (induction hash cs rule: hash_unrolled.induct) simp_all

lemma hash_step_times33: "hash_step hash c = hash * 33 + scast c"
  by (simp add: hash_step_def push_bit_eq_mult)

lemma zend_hash_fold: "zend_inline_hash_func key = fold (\<lambda>c hash. hash * 33 + scast c) key 5381"
  by (simp add: zend_inline_hash_func_def hash_unrolled_fold hash_step_times33)

section \<open>Decimal notation\<close>

definition digit :: "nat \<Rightarrow> byte" where
  "digit k = of_nat (48 + k)"

fun dec_digits :: "nat \<Rightarrow> byte list" where
  "dec_digits n = (if n < 10 then [digit n] else dec_digits (n div 10) @ [digit (n mod 10)])"

declare dec_digits.simps [simp del]

definition dec_long :: "int \<Rightarrow> byte list" where
  "dec_long i = (if i < 0 then 45 # dec_digits (nat (- i)) else dec_digits (nat i))"

definition dval :: "byte list \<Rightarrow> nat" where
  "dval ds = fold (\<lambda>d a. a * 10 + (unat d - 48)) ds 0"

lemma is_digit_unat: "is_digit c \<longleftrightarrow> 48 \<le> unat c \<and> unat c \<le> 57"
  by (simp add: is_digit_def word_le_nat_alt)

lemma dval_snoc [simp]: "dval (ds @ [d]) = dval ds * 10 + (unat d - 48)"
  by (simp add: dval_def)

lemma dval_Nil [simp]: "dval [] = 0"
  by (simp add: dval_def)

lemma unat_digit [simp]: "k < 10 \<Longrightarrow> unat (digit k) = 48 + k"
  unfolding digit_def unat_of_nat by simp

lemma is_digit_digit [simp]: "k < 10 \<Longrightarrow> is_digit (digit k)"
  by (simp add: is_digit_unat)

lemma digit_of_unat: "is_digit d \<Longrightarrow> digit (unat d - 48) = d"
  by (auto simp: word_unat_eq_iff is_digit_unat)

lemma dval_dec_digits [simp]: "dval (dec_digits n) = n"
proof (induction n rule: dec_digits.induct)
  case (1 n)
  then show ?case
    using dval_snoc [of "[]" "digit n"] by (auto simp: dec_digits.simps [of n])
qed

lemma dec_digits_are_digits: "\<forall>d\<in>set (dec_digits n). is_digit d"
proof (induction n rule: dec_digits.induct)
  case (1 n)
  then show ?case by (auto simp: dec_digits.simps [of n])
qed

lemma digit_eq_48 [simp]: "k < 10 \<Longrightarrow> digit k = 48 \<longleftrightarrow> k = 0"
  using unat_digit [of k] by (auto simp: digit_def)

lemma dec_digits_hd: "dec_digits n \<noteq> [] \<and> (hd (dec_digits n) = 48 \<longrightarrow> n = 0)"
proof (induction n rule: dec_digits.induct)
  case (1 n)
  then show ?case by (auto simp: dec_digits.simps [of n])
qed

text \<open>Canonical digit strings: no leading zero, except for zero itself.\<close>

definition canonical :: "byte list \<Rightarrow> bool" where
  "canonical ds \<longleftrightarrow> ds \<noteq> [] \<and> (\<forall>d\<in>set ds. is_digit d) \<and> (hd ds = 48 \<longrightarrow> length ds = 1)"

lemma dval_Cons: "\<forall>e\<in>set ds. is_digit e \<Longrightarrow> unat d - 48 \<le> dval (d # ds)"
proof (induction ds rule: rev_induct)
  case Nil
  then show ?case using dval_snoc [of "[]" d] by simp
next
  case (snoc e ds)
  then have "unat d - 48 \<le> dval (d # ds)" by simp
  then show ?case using dval_snoc [of "d # ds" e] by simp
qed

lemma dval_pos:
  assumes "canonical ds" "1 < length ds"
  shows "0 < dval ds"
proof -
  obtain d es where ds: "ds = d # es" using assms by (cases ds) auto
  then have "is_digit d" "d \<noteq> 48" using assms by (auto simp: canonical_def)
  then have "48 < unat d" by (auto simp: is_digit_unat word_unat_eq_iff)
  moreover have "unat d - 48 \<le> dval ds" unfolding ds
    using assms ds by (intro dval_Cons) (simp add: canonical_def)
  ultimately show ?thesis by simp
qed

lemma dec_digits_dval: "canonical ds \<Longrightarrow> dec_digits (dval ds) = ds"
proof (induction ds rule: rev_induct)
  case (snoc d ds)
  have d: "is_digit d" "unat d - 48 < 10" using snoc.prems by (auto simp: canonical_def is_digit_unat)
  show ?case
  proof (cases "ds = []")
    case True
    with d show ?thesis
      using dval_snoc [of "[]" d] by (simp add: dec_digits.simps [of "unat d - 48"] digit_of_unat)
  next
    case False
    with snoc.prems have c: "canonical ds" by (auto simp: canonical_def hd_append)
    have "0 < dval ds"
    proof (cases "length ds = 1")
      case True
      then obtain e where "ds = [e]" by (cases ds) auto
      with snoc.prems have "48 < unat e" by (auto simp: canonical_def is_digit_unat word_unat_eq_iff)
      with \<open>ds = [e]\<close> show ?thesis using dval_snoc [of "[]" e] by simp
    qed (use c False dval_pos in \<open>cases ds; auto\<close>)
    then have "\<not> dval ds * 10 + (unat d - 48) < 10" by simp
    with snoc.IH [OF c] d show ?thesis
      by (simp add: dec_digits.simps [of "dval ds * 10 + (unat d - 48)"] digit_of_unat)
  qed
qed (simp add: canonical_def)

lemma length_dec_digits: "n < 10 ^ k \<Longrightarrow> 0 < k \<Longrightarrow> length (dec_digits n) \<le> k"
proof (induction k arbitrary: n)
  case (Suc k)
  show ?case
  proof (cases "n < 10")
    case False
    then have "0 < k" using Suc.prems by (cases k) auto
    moreover have "n div 10 < 10 ^ k" using Suc.prems by (simp add: less_mult_imp_div_less mult.commute)
    ultimately show ?thesis using Suc.IH [of "n div 10"] False by (simp add: dec_digits.simps [of n])
  qed (simp add: dec_digits.simps [of n])
qed simp

lemma dval_bound: "\<forall>d\<in>set ds. is_digit d \<Longrightarrow> dval ds < 10 ^ length ds"
proof (induction ds rule: rev_induct)
  case (snoc d ds)
  then have "dval ds + 1 \<le> 10 ^ length ds" "unat d - 48 \<le> 9" by (auto simp: is_digit_unat)
  then have "dval ds * 10 + (unat d - 48) < 10 * 10 ^ length ds" by linarith
  then show ?case by simp
qed simp

lemma canonical_dec_digits: "canonical (dec_digits n)"
  using dec_digits_are_digits [of n] dec_digits_hd [of n]
  by (auto simp: canonical_def dec_digits.simps [of 0])

section \<open>What the recogniser accepts\<close>

lemma ucast_of_unat: "(ucast (c :: byte) :: ulong) = of_nat (unat c)"
  by (simp add: unsigned_ucast_eq word_unat_eq_iff unat_of_nat)


lemma numeric_loop_eq:
  assumes "tmp < end'" "end' < length key"
  shows "numeric_loop key end' tmp idx =
    (let ds = takeWhile is_digit (drop (Suc tmp) (take end' key))
     in (Suc tmp + length ds, fold (\<lambda>d a. a * 10 + ucast (d - 48)) ds idx))"
  using assms
proof (induction key end' tmp idx rule: numeric_loop.induct)
  case (1 key end' tmp idx)
  show ?case
  proof (cases "Suc tmp < end'")
    case True
    let ?c = "char_at key (Suc tmp)"
    have c: "?c = key ! Suc tmp" using True "1.prems" by (simp add: char_at_def)
    have dr: "drop (Suc tmp) (take end' key) = ?c # drop (Suc (Suc tmp)) (take end' key)"
      using True "1.prems" c by (simp add: Cons_nth_drop_Suc [symmetric])
    show ?thesis
    proof (cases "is_digit ?c")
      case digit: True
      have "numeric_loop key end' tmp idx = numeric_loop key end' (Suc tmp) (idx * 10 + ucast (?c - 48))"
        using True digit by (simp add: numeric_loop.simps [of key end' tmp idx] Let_def)
      with "1.IH" [OF refl] True digit "1.prems" dr show ?thesis by (simp add: Let_def)
    next
      case False
      then show ?thesis using dr by (simp add: numeric_loop.simps [of key end' tmp idx] Let_def)
    qed
  next
    case False
    then have "Suc tmp = end'" using "1.prems" by simp
    then show ?thesis by (simp add: numeric_loop.simps [of key end' tmp idx] Let_def)
  qed
qed

lemma fold_digits_word:
  "\<forall>d\<in>set ds. is_digit d \<Longrightarrow>
   fold (\<lambda>d a. a * 10 + ucast (d - 48)) ds (of_nat n :: ulong) =
   of_nat (fold (\<lambda>d a. a * 10 + (unat d - 48)) ds n)"
proof (induction ds arbitrary: n)
  case (Cons d ds)
  have "unat (d - 48) = unat d - 48"
    using Cons.prems by (auto simp: is_digit_def unat_sub)
  then have "(ucast (d - 48) :: ulong) = of_nat (unat d - 48)"
    by (metis of_nat_unat ucast_of_unat)
  then have "(of_nat n :: ulong) * 10 + ucast (d - 48) = of_nat (n * 10 + (unat d - 48))" by simp
  then show ?case using Cons.IH [of "n * 10 + (unat d - 48)"] Cons.prems by simp
qed simp

lemma numeric_loop_body:
  assumes "is_digit d"
  shows "numeric_loop (pre @ d # ds @ [0]) (length pre + Suc (length ds)) (length pre) (ucast (d - 48)) =
    (Suc (length pre + length (takeWhile is_digit ds)), of_nat (dval (d # takeWhile is_digit ds)))"
proof -
  let ?ds = "takeWhile is_digit ds"
  have "\<forall>e\<in>set (d # ?ds). is_digit e" using assms set_takeWhileD by fastforce
  from fold_digits_word [OF this, of 0]
  have "fold (\<lambda>d a. a * 10 + ucast (d - 48)) ?ds (ucast (d - 48) :: ulong) = of_nat (dval (d # ?ds))"
    by (simp add: dval_def)
  then show ?thesis by (simp add: numeric_loop_eq Let_def)
qed

lemma takeWhile_all: "length (takeWhile P xs) = length xs \<longleftrightarrow> (\<forall>x\<in>set xs. P x)"
  by (induction xs) auto

lemma dval_small:
  assumes "\<forall>e\<in>set ds. is_digit e" "length ds \<le> 19"
  shows "unat (of_nat (dval ds) :: ulong) = dval ds"
proof -
  have "dval ds < 10 ^ length ds" using assms by (simp add: dval_bound)
  also have "\<dots> \<le> 10 ^ 19" using assms(2) by (intro power_increasing) auto
  finally show ?thesis by (simp add: unat_of_nat)
qed

lemma unat_LONG_MAX [simp]: "unat LONG_MAX = 2 ^ 63 - 1"
  by (simp add: LONG_MAX_def)

lemma not_digit_45 [simp]: "\<not> is_digit 45"
  by (simp add: is_digit_def)

lemma numeric_nonneg:
  assumes d: "is_digit d"
  shows "ZEND_HANDLE_NUMERIC_EX (d # ds @ [0]) =
    (if (d = 48 \<longrightarrow> ds = []) \<and> length ds < 19 \<and> (\<forall>e\<in>set ds. is_digit e) \<and> dval (d # ds) < 2 ^ 63
     then Some (of_nat (dval (d # ds))) else None)"
proof -
  have "d \<noteq> 45" using d by auto
  have l: "numeric_loop (d # ds @ [0]) (Suc (length ds)) 0 (ucast (d - 48)) =
      (Suc (length (takeWhile is_digit ds)), of_nat (dval (d # takeWhile is_digit ds)))"
    using numeric_loop_body [OF d, of "[]" ds] by simp
  have m: "of_nat (dval (d # ds)) > LONG_MAX \<longleftrightarrow> \<not> dval (d # ds) < 2 ^ 63"
    if "\<forall>e\<in>set ds. is_digit e" "length ds < 19"
    using that d dval_small [of "d # ds"] by (auto simp: word_less_nat_alt)
  show ?thesis
    using d \<open>d \<noteq> 45\<close> m takeWhile_all [of is_digit ds]
    by (auto simp: ZEND_HANDLE_NUMERIC_EX_def Let_def char_at_def l MAX_LENGTH_OF_LONG_def nth_append
        takeWhile_eq_all_conv [THEN iffD2])
qed

lemma numeric_neg:
  assumes d: "is_digit d"
  shows "ZEND_HANDLE_NUMERIC_EX (45 # d # ds @ [0]) =
    (if d \<noteq> 48 \<and> length ds < 19 \<and> (\<forall>e\<in>set ds. is_digit e) \<and> dval (d # ds) \<le> 2 ^ 63
     then Some (- of_nat (dval (d # ds))) else None)"
proof -
  have l: "numeric_loop (45 # d # ds @ [0]) (Suc (Suc (length ds))) 1 (ucast (d - 48)) =
      (Suc (Suc (length (takeWhile is_digit ds))), of_nat (dval (d # takeWhile is_digit ds)))"
    using numeric_loop_body [OF d, of "[45]" ds] by simp
  have m: "of_nat (dval (d # ds)) - 1 > LONG_MAX \<longleftrightarrow> \<not> dval (d # ds) \<le> 2 ^ 63"
    if "\<forall>e\<in>set ds. is_digit e" "length ds < 19" "d \<noteq> 48"
  proof -
    have "48 < unat d" using d that by (auto simp: is_digit_unat word_unat_eq_iff)
    then have "0 < dval (d # ds)" using dval_Cons [of ds d] that by simp
    moreover have u: "unat (of_nat (dval (d # ds)) :: ulong) = dval (d # ds)"
      using that d by (intro dval_small) auto
    ultimately have "(1 :: ulong) \<le> of_nat (dval (d # ds))" by (simp add: word_le_nat_alt)
    then have "unat (of_nat (dval (d # ds)) - 1 :: ulong) = dval (d # ds) - 1"
      using u by (simp add: unat_sub)
    then show ?thesis by (auto simp: word_less_nat_alt)
  qed
  show ?thesis
    using d m takeWhile_all [of is_digit ds]
    by (auto simp: ZEND_HANDLE_NUMERIC_EX_def Let_def char_at_def l [simplified] MAX_LENGTH_OF_LONG_def nth_append
        takeWhile_eq_all_conv [THEN iffD2])
qed

lemma numeric_shape:
  assumes "ZEND_HANDLE_NUMERIC_EX key = Some w"
  obtains d ds where "is_digit d" "key = d # ds @ [0]" | d ds where "is_digit d" "key = 45 # d # ds @ [0]"
proof -
  define tmp where "tmp = (if char_at key 0 = 45 then 1 else 0 :: nat)"
  have dig: "is_digit (char_at key tmp)" and z: "char_at key (length key - 1) = 0"
    using assms by (auto simp: ZEND_HANDLE_NUMERIC_EX_def Let_def tmp_def split: if_splits)
  have "tmp < length key" using dig by (auto simp: char_at_def is_digit_def split: if_splits)
  then have "key \<noteq> []" by auto
  then have b: "key = butlast key @ [0]" using z
    by (metis append_butlast_last_id char_at_def diff_less last_conv_nth length_greater_0_conv zero_less_one)
  show thesis
  proof (cases "char_at key 0 = 45")
    case False
    then have "is_digit (hd key)" using dig \<open>key \<noteq> []\<close> by (simp add: tmp_def char_at_def hd_conv_nth)
    moreover from this have "butlast key \<noteq> []" using b by (auto simp: is_digit_def)
    ultimately obtain a as where "butlast key = a # as" by (cases "butlast key") auto
    then have "key = a # as @ [0]" using b by simp
    with \<open>is_digit (hd key)\<close> show ?thesis using that(1) by simp
  next
    case True
    then have l: "1 < length key" using \<open>tmp < length key\<close> by (simp add: tmp_def)
    then obtain c d es where k: "key = c # d # es" by (cases key rule: remdups_adj.cases) auto
    then have "is_digit d" "c = 45" using dig True by (auto simp: tmp_def char_at_def)
    moreover from this have "es \<noteq> []" using b k by (auto simp: is_digit_def split: if_splits)
    ultimately show ?thesis using that(2) [of d "butlast es"] b k by auto
  qed
qed

lemma sint_of_nat_ulong: "n < 2 ^ 63 \<Longrightarrow> sint (of_nat n :: ulong) = int n"
  by (simp add: signed_of_nat signed_take_bit_int_eq_self)

lemma sint_minus_of_nat_ulong: "n \<le> 2 ^ 63 \<Longrightarrow> sint (- of_nat n :: ulong) = - int n"
proof -
  assume "n \<le> 2 ^ 63"
  then have "signed_take_bit 63 (- int n) = - int n" by (intro signed_take_bit_int_eq_self) auto
  moreover have "sint (word_of_int (- int n) :: ulong) = signed_take_bit 63 (- int n)"
    by (simp only: sint_sbintrunc') simp
  ultimately show ?thesis by simp
qed

lemma dec_long_of_body:
  assumes "canonical (d # ds)" "dval (d # ds) < 2 ^ 63"
  shows "dec_long (sint (of_nat (dval (d # ds)) :: ulong)) = d # ds"
  using assms by (simp add: sint_of_nat_ulong dec_long_def dec_digits_dval)

lemma dec_long_of_neg_body:
  assumes "canonical (d # ds)" "d \<noteq> 48" "dval (d # ds) \<le> 2 ^ 63"
  shows "dec_long (sint (- of_nat (dval (d # ds)) :: ulong)) = 45 # d # ds"
proof -
  have "is_digit d" "\<forall>e\<in>set ds. is_digit e" using assms(1) by (auto simp: canonical_def)
  then have "48 < unat d" using assms(2) by (auto simp: is_digit_unat word_unat_eq_iff)
  then have "0 < dval (d # ds)" using dval_Cons [of ds d] \<open>\<forall>e\<in>set ds. is_digit e\<close> by simp
  then show ?thesis
    using assms by (simp add: sint_minus_of_nat_ulong dec_long_def dec_digits_dval)
qed

lemma numeric_sound:
  assumes "ZEND_HANDLE_NUMERIC_EX key = Some w"
  shows "key = dec_long (sint w) @ [0]"
  using assms
proof (rule numeric_shape)
  fix d ds
  assume d: "is_digit d" and key: "key = d # ds @ [0]"
  then have "canonical (d # ds)" "dval (d # ds) < 2 ^ 63" "w = of_nat (dval (d # ds))"
    using assms numeric_nonneg [OF d, of ds] by (auto simp: canonical_def split: if_splits)
  with key show ?thesis using dec_long_of_body by simp
next
  fix d ds
  assume d: "is_digit d" and key: "key = 45 # d # ds @ [0]"
  then have "canonical (d # ds)" "d \<noteq> 48" "dval (d # ds) \<le> 2 ^ 63" "w = - of_nat (dval (d # ds))"
    using assms numeric_neg [OF d, of ds] by (auto simp: canonical_def split: if_splits)
  with key show ?thesis using dec_long_of_neg_body by simp
qed

lemma numeric_complete: "ZEND_HANDLE_NUMERIC_EX (dec_long (sint (w :: ulong)) @ [0]) = Some w"
proof -
  define i where "i = sint w"
  have w: "w = word_of_int i" by (simp add: i_def)
  have r: "- (2 ^ 63) \<le> i" "i < 2 ^ 63"
    using sint_ge [of w] sint_lt [of w] by (simp_all add: i_def)
  obtain d ds where ds: "dec_digits (nat \<bar>i\<bar>) = d # ds"
    using dec_digits_hd [of "nat \<bar>i\<bar>"] by (cases "dec_digits (nat \<bar>i\<bar>)") auto
  have dv: "dval (d # ds) = nat \<bar>i\<bar>" using ds dval_dec_digits by metis
  have c: "canonical (d # ds)" using canonical_dec_digits ds by metis
  have z: "d = 48 \<Longrightarrow> i = 0" using dec_digits_hd [of "nat \<bar>i\<bar>"] ds by simp
  have "nat \<bar>i\<bar> < 10 ^ 19" using r by simp
  then have l: "length ds < 19" using length_dec_digits [of "nat \<bar>i\<bar>" 19] ds by simp
  have d: "is_digit d" "\<forall>e\<in>set ds. is_digit e" "d = 48 \<longrightarrow> ds = []" using c by (auto simp: canonical_def)
  show ?thesis
  proof (cases "i < 0")
    case True
    then have "dec_long i = 45 # d # ds" using ds by (simp add: dec_long_def)
    moreover have "dval (d # ds) \<le> 2 ^ 63" using dv r True by simp
    moreover have "- of_nat (dval (d # ds)) = w" using dv True w by simp
    ultimately show ?thesis using numeric_neg [OF d(1), of ds] d l z True by (auto simp: i_def)
  next
    case False
    then have "dec_long i = d # ds" using ds by (simp add: dec_long_def)
    moreover have "dval (d # ds) < 2 ^ 63" using dv r False by simp
    moreover have "of_nat (dval (d # ds)) = w" using dv False w by simp
    ultimately show ?thesis using numeric_nonneg [OF d(1), of ds] d l by (simp add: i_def)
  qed
qed

section \<open>Properties\<close>

text \<open>
  The hash of a key, computed by a loop unrolled eight times and a final \<^verbatim>\<open>switch\<close>,
  is the fold of \<open>hash * 33 + c\<close> over all its bytes (modulo \<open>2 ^ 64\<close>, bytes sign-extended),
  whatever the length of the key.
\<close>

theorem zend_inline_hash_func_times33:
  "zend_inline_hash_func key = fold (\<lambda>c hash. hash * 33 + scast c) key 5381"
  by (rule zend_hash_fold)

text \<open>
  C22: a string key is treated as the integer key \<open>w\<close> exactly when its bytes are the
  canonical decimal notation of the 64-bit signed integer \<open>w\<close> followed by the terminating
  NUL. So no numeral with leading zeros, no \<^verbatim>\<open>-0\<close> and no numeral out of the range
  of \<^verbatim>\<open>long\<close> is converted, every canonical one is, \<^verbatim>\<open>LONG_MIN\<close> and \<^verbatim>\<open>LONG_MAX\<close>
  included, and the accumulator never wraps around undetected.
\<close>

theorem handle_numeric_iff_canonical:
  "ZEND_HANDLE_NUMERIC_EX key = Some w \<longleftrightarrow> key = dec_long (sint w) @ [0]"
  using numeric_sound numeric_complete by blast

end
