(* ===== verification/Zend_Hash.thy ===== *)
theory Zend_Hash
  imports Zend_Dll Zend_HashFunc
begin

text \<open>
  The hash table of the engine (\<^verbatim>\<open>Zend/zend_hash.c\<close>, \<^verbatim>\<open>Zend/zend_hash.h\<close>): data model,
  insertion, lookup, deletion, growth.

  Every bucket is a heap cell and a member of two doubly linked lists: the collision chain of
  its slot (\<open>pNext\<close>, \<open>pLast\<close>) and the list of all buckets in insertion order
  (\<open>pListNext\<close>, \<open>pListLast\<close>). A \<open>HashTable\<close> of the model is the C structure together with
  the heap cells it owns and two ghost components: the log of the data the destructor was
  called on, and the number of data blocks allocated outside the buckets.

  Operations are written in the \<open>option\<close> monad: \<open>None\<close> is a memory fault (a null or freed
  pointer followed, an array index out of range, an uninitialised slot read) or a loop that
  never ends. Addresses of new buckets are arguments: the allocator is not modelled, only
  that it returns an address that is not in use. The build is one without \<^verbatim>\<open>ZEND_DEBUG\<close>, where \<^verbatim>\<open>ZEND_ASSERT\<close> is empty. Lengths of keys
  are natural numbers.

  The invariant is \<open>table ht L kvs\<close>: the buckets are the addresses \<open>L\<close>, in list order, and
  hold the association list \<open>kvs\<close>. The theorems say that each operation returns (never
  faults), keeps the invariant and acts on \<open>kvs\<close> as an insertion-ordered map does.
\<close>

unbundle bit_operations_syntax

section \<open>Data\<close>

text \<open>
  Key pointers. Key strings are never modified while a table refers to them, so a pointer is
  modelled together with the characters it points to; \<open>Interned\<close> pointers lie in the
  interned string area, \<open>InBucket\<close> ones point behind the bucket structure itself, and
  \<open>Foreign\<close> ones anywhere else.
\<close>

datatype key_ptr =
    NULLKEY
  | Interned nat "byte list"
  | InBucket ptr "byte list"
  | Foreign nat "byte list"

fun chars :: "key_ptr \<Rightarrow> byte list" where
  "chars NULLKEY = []"
| "chars (Interned _ s) = s"
| "chars (InBucket _ s) = s"
| "chars (Foreign _ s) = s"

fun IS_INTERNED :: "key_ptr \<Rightarrow> bool" where
  "IS_INTERNED (Interned _ _) = True"
| "IS_INTERNED _ = False"

definition memcmp_eq :: "nat \<Rightarrow> key_ptr \<Rightarrow> key_ptr \<Rightarrow> bool" where
  "memcmp_eq n a b \<longleftrightarrow> take n (chars a) = take n (chars b)"

text \<open>The data of a bucket: in the bucket (\<^verbatim>\<open>pData == &pDataPtr\<close>) or in a block of its own.\<close>

datatype 'v zdata = InPtr 'v | OutOfLine 'v

fun zval_of :: "'v zdata \<Rightarrow> 'v" where
  "zval_of (InPtr v) = v"
| "zval_of (OutOfLine v) = v"

fun out_of_line :: "'v zdata \<Rightarrow> bool" where
  "out_of_line (InPtr _) = False"
| "out_of_line (OutOfLine _) = True"

record 'v bucket =
  bkt_h :: ulong
  nKeyLength :: nat
  pData :: "'v zdata"
  pListNext :: "ptr option"
  pListLast :: "ptr option"
  pNext :: "ptr option"
  pLast :: "ptr option"
  arKey :: key_ptr

text \<open>
  \<open>arBuckets\<close> is the array of slots; a slot that was allocated but never written is \<open>None\<close>,
  and so is, by \<open>slot_get\<close>, one outside the array.
\<close>

record 'v HashTable =
  nTableSize :: uint
  nTableMask :: uint
  nNumOfElements :: uint
  nNextFreeElement :: ulong
  pInternalPointer :: "ptr option"
  pListHead :: "ptr option"
  pListTail :: "ptr option"
  arBuckets :: "ptr option option list"
  pDestructor :: bool
  persistent :: bool
  nApplyCount :: byte
  bApplyProtection :: bool
  cells :: "ptr \<rightharpoonup> 'v bucket"
  destroyed :: "'v list"
  dataBlocks :: int

datatype hash_flag = HASH_UPDATE | HASH_ADD | HASH_NEXT_INSERT

datatype del_flag = HASH_DEL_KEY | HASH_DEL_INDEX | HASH_DEL_KEY_QUICK

section \<open>Reading and writing\<close>

definition hpoke :: "ptr \<Rightarrow> ('v bucket \<Rightarrow> 'v bucket) \<Rightarrow> 'v HashTable \<Rightarrow> 'v HashTable option" where
  "hpoke p f ht = map_option (\<lambda>c. ht\<lparr>cells := c\<rparr>) (poke p f (cells ht))"

definition slot_get :: "'v HashTable \<Rightarrow> nat \<Rightarrow> ptr option option" where
  "slot_get ht i = (if i < length (arBuckets ht) then arBuckets ht ! i else None)"

definition slot_put :: "nat \<Rightarrow> ptr option \<Rightarrow> 'v HashTable \<Rightarrow> 'v HashTable option" where
  "slot_put i q ht =
     (if i < length (arBuckets ht) then Some (ht\<lparr>arBuckets := (arBuckets ht)[i := Some q]\<rparr>) else None)"

definition slot_index :: "uint \<Rightarrow> ulong \<Rightarrow> nat" where
  "slot_index msk h = unat (h AND ucast msk)"

definition sizeof_ptr :: nat where
  "sizeof_ptr = 8"

section \<open>Linking and unlinking buckets\<close>

definition CONNECT_TO_BUCKET_DLLIST :: "ptr \<Rightarrow> ptr option \<Rightarrow> 'v HashTable \<Rightarrow> 'v HashTable option" where
  "CONNECT_TO_BUCKET_DLLIST element list_head ht =
     do { ht \<leftarrow> hpoke element (\<lambda>b. b\<lparr>pNext := list_head, pLast := None\<rparr>) ht;
          (case list_head of
             None \<Rightarrow> Some ht
           | Some n \<Rightarrow> hpoke n (\<lambda>b. b\<lparr>pLast := Some element\<rparr>) ht) }"

definition CONNECT_TO_GLOBAL_DLLIST_EX ::
  "ptr \<Rightarrow> ptr option \<Rightarrow> ptr option \<Rightarrow> 'v HashTable \<Rightarrow> 'v HashTable option" where
  "CONNECT_TO_GLOBAL_DLLIST_EX element last' next' ht =
     do { ht \<leftarrow> hpoke element (\<lambda>b. b\<lparr>pListLast := last', pListNext := next'\<rparr>) ht;
          ht \<leftarrow> (case last' of
                  Some l \<Rightarrow> hpoke l (\<lambda>b. b\<lparr>pListNext := Some element\<rparr>) ht
                | None \<Rightarrow> Some (ht\<lparr>pListHead := Some element\<rparr>));
          (case next' of
             Some n \<Rightarrow> hpoke n (\<lambda>b. b\<lparr>pListLast := Some element\<rparr>) ht
           | None \<Rightarrow> Some (ht\<lparr>pListTail := Some element\<rparr>)) }"

definition CONNECT_TO_GLOBAL_DLLIST :: "ptr \<Rightarrow> 'v HashTable \<Rightarrow> 'v HashTable option" where
  "CONNECT_TO_GLOBAL_DLLIST element ht =
     do { ht \<leftarrow> CONNECT_TO_GLOBAL_DLLIST_EX element (pListTail ht) None ht;
          Some (if pInternalPointer ht = None then ht\<lparr>pInternalPointer := Some element\<rparr> else ht) }"

definition call_dtor :: "'v \<Rightarrow> 'v HashTable \<Rightarrow> 'v HashTable" where
  "call_dtor v ht = (if pDestructor ht then ht\<lparr>destroyed := destroyed ht @ [v]\<rparr> else ht)"

definition free_data :: "'v zdata \<Rightarrow> 'v HashTable \<Rightarrow> 'v HashTable" where
  "free_data d ht = (if out_of_line d then ht\<lparr>dataBlocks := dataBlocks ht - 1\<rparr> else ht)"

definition UPDATE_DATA :: "ptr \<Rightarrow> 'v \<Rightarrow> nat \<Rightarrow> 'v HashTable \<Rightarrow> 'v HashTable option" where
  "UPDATE_DATA p v nDataSize ht =
     do { b \<leftarrow> cells ht p;
          if nDataSize = sizeof_ptr
          then hpoke p (\<lambda>b. b\<lparr>pData := InPtr v\<rparr>) (free_data (pData b) ht)
          else hpoke p (\<lambda>b. b\<lparr>pData := OutOfLine v\<rparr>)
                 (if out_of_line (pData b) then ht else ht\<lparr>dataBlocks := dataBlocks ht + 1\<rparr>) }"

text \<open>\<open>INIT_DATA\<close> is used on a new bucket only.\<close>

definition INIT_DATA :: "ptr \<Rightarrow> 'v \<Rightarrow> nat \<Rightarrow> 'v HashTable \<Rightarrow> 'v HashTable option" where
  "INIT_DATA p v nDataSize ht =
     (if nDataSize = sizeof_ptr
      then hpoke p (\<lambda>b. b\<lparr>pData := InPtr v\<rparr>) ht
      else hpoke p (\<lambda>b. b\<lparr>pData := OutOfLine v\<rparr>) (ht\<lparr>dataBlocks := dataBlocks ht + 1\<rparr>))"

definition CHECK_INIT :: "'v HashTable \<Rightarrow> 'v HashTable" where
  "CHECK_INIT ht =
     (if nTableMask ht = 0
      then ht\<lparr>arBuckets := replicate (unat (nTableSize ht)) (Some None), nTableMask := nTableSize ht - 1\<rparr>
      else ht)"

definition chain_unlink :: "ptr \<Rightarrow> 'v HashTable \<Rightarrow> 'v HashTable option" where
  "chain_unlink p ht =
     do { b \<leftarrow> cells ht p;
          ht \<leftarrow> (case pLast b of
                  Some l \<Rightarrow> hpoke l (\<lambda>c. c\<lparr>pNext := pNext b\<rparr>) ht
                | None \<Rightarrow> slot_put (slot_index (nTableMask ht) (bkt_h b)) (pNext b) ht);
          (case pNext b of
             Some n \<Rightarrow> hpoke n (\<lambda>c. c\<lparr>pLast := pLast b\<rparr>) ht
           | None \<Rightarrow> Some ht) }"

definition glist_unlink :: "ptr \<Rightarrow> 'v HashTable \<Rightarrow> 'v HashTable option" where
  "glist_unlink p ht =
     do { b \<leftarrow> cells ht p;
          ht \<leftarrow> (case pListLast b of
                  Some l \<Rightarrow> hpoke l (\<lambda>c. c\<lparr>pListNext := pListNext b\<rparr>) ht
                | None \<Rightarrow> Some (ht\<lparr>pListHead := pListNext b\<rparr>));
          ht \<leftarrow> (case pListNext b of
                  Some n \<Rightarrow> hpoke n (\<lambda>c. c\<lparr>pListLast := pListLast b\<rparr>) ht
                | None \<Rightarrow> Some (ht\<lparr>pListTail := pListLast b\<rparr>));
          Some (if pInternalPointer ht = Some p then ht\<lparr>pInternalPointer := pListNext b\<rparr> else ht) }"

definition release_bucket :: "ptr \<Rightarrow> 'v HashTable \<Rightarrow> 'v HashTable option" where
  "release_bucket p ht =
     do { b \<leftarrow> cells ht p;
          let ht = call_dtor (zval_of (pData b)) ht;
          let ht = free_data (pData b) ht;
          Some (ht\<lparr>cells := (cells ht)(p := None)\<rparr>) }"

definition i_zend_hash_bucket_delete :: "ptr \<Rightarrow> 'v HashTable \<Rightarrow> 'v HashTable option" where
  "i_zend_hash_bucket_delete p ht =
     do { ht \<leftarrow> chain_unlink p ht;
          ht \<leftarrow> glist_unlink p ht;
          release_bucket p (ht\<lparr>nNumOfElements := nNumOfElements ht - 1\<rparr>) }"

definition zend_hash_bucket_delete :: "ptr \<Rightarrow> 'v HashTable \<Rightarrow> 'v HashTable option" where
  "zend_hash_bucket_delete p ht = i_zend_hash_bucket_delete p ht"

section \<open>Initialisation\<close>

partial_function (option) table_shift :: "uint \<Rightarrow> nat \<Rightarrow> nat option" where
  "table_shift nSize i = (if push_bit i 1 < nSize then table_shift nSize (Suc i) else Some i)"

declare table_shift.simps [code]

definition zend_hash_init :: "'v HashTable \<Rightarrow> uint \<Rightarrow> bool \<Rightarrow> bool \<Rightarrow> (zresult \<times> 'v HashTable) option" where
  "zend_hash_init ht nSize dtor persist =
     do { ht \<leftarrow> (if nSize \<ge> 0x80000000 then Some (ht\<lparr>nTableSize := 0x80000000\<rparr>)
                 else map_option (\<lambda>i. ht\<lparr>nTableSize := push_bit i 1\<rparr>) (table_shift nSize 3));
          Some (SUCCESS, ht\<lparr>nTableMask := 0, pDestructor := dtor, arBuckets := [Some None],
            pListHead := None, pListTail := None, nNumOfElements := 0, nNextFreeElement := 0,
            pInternalPointer := None, persistent := persist, nApplyCount := 0,
            bApplyProtection := True, cells := Map.empty, destroyed := [], dataBlocks := 0\<rparr>) }"

definition zend_hash_init_ex ::
  "'v HashTable \<Rightarrow> uint \<Rightarrow> bool \<Rightarrow> bool \<Rightarrow> bool \<Rightarrow> (zresult \<times> 'v HashTable) option" where
  "zend_hash_init_ex ht nSize dtor persist applyProtection =
     do { (retval, ht) \<leftarrow> zend_hash_init ht nSize dtor persist;
          Some (retval, ht\<lparr>bApplyProtection := applyProtection\<rparr>) }"

definition zend_hash_set_apply_protection :: "'v HashTable \<Rightarrow> bool \<Rightarrow> 'v HashTable" where
  "zend_hash_set_apply_protection ht applyProtection = ht\<lparr>bApplyProtection := applyProtection\<rparr>"

section \<open>Growing\<close>

definition rehash_bucket :: "ptr \<Rightarrow> 'v HashTable \<Rightarrow> 'v HashTable option" where
  "rehash_bucket p ht =
     do { b \<leftarrow> cells ht p;
          let nIndex = slot_index (nTableMask ht) (bkt_h b);
          list_head \<leftarrow> slot_get ht nIndex;
          ht \<leftarrow> CONNECT_TO_BUCKET_DLLIST p list_head ht;
          slot_put nIndex (Some p) ht }"

definition clear_slots :: "'v HashTable \<Rightarrow> 'v HashTable option" where
  "clear_slots ht =
     (if unat (nTableSize ht) \<le> length (arBuckets ht)
      then Some (ht\<lparr>arBuckets := replicate (unat (nTableSize ht)) (Some None) @
                     drop (unat (nTableSize ht)) (arBuckets ht)\<rparr>)
      else None)"

definition zend_hash_rehash :: "'v HashTable \<Rightarrow> (zresult \<times> 'v HashTable) option" where
  "zend_hash_rehash ht =
     (if nNumOfElements ht = 0 then Some (SUCCESS, ht)
      else do { ht \<leftarrow> clear_slots ht;
                ht \<leftarrow> iterate (\<lambda>p ht. do { ht \<leftarrow> rehash_bucket p ht;
                                            b \<leftarrow> cells ht p;
                                            Some (ht, pListNext b) })
                     (pListHead ht) ht;
                Some (SUCCESS, ht) })"

definition zend_hash_do_resize :: "'v HashTable \<Rightarrow> 'v HashTable option" where
  "zend_hash_do_resize ht =
     (if push_bit 1 (nTableSize ht) > 0
      then do { let t = take (unat (push_bit 1 (nTableSize ht)))
                          (arBuckets ht @ replicate (unat (push_bit 1 (nTableSize ht))) None);
                let ht = ht\<lparr>arBuckets := t, nTableSize := push_bit 1 (nTableSize ht)\<rparr>;
                let ht = ht\<lparr>nTableMask := nTableSize ht - 1\<rparr>;
                (_, ht) \<leftarrow> zend_hash_rehash ht;
                Some ht }
      else Some ht)"

definition ZEND_HASH_IF_FULL_DO_RESIZE :: "'v HashTable \<Rightarrow> 'v HashTable option" where
  "ZEND_HASH_IF_FULL_DO_RESIZE ht =
     (if nNumOfElements ht > nTableSize ht then zend_hash_do_resize ht else Some ht)"

section \<open>Insertion\<close>

definition key_match :: "key_ptr \<Rightarrow> nat \<Rightarrow> ulong \<Rightarrow> 'v bucket \<Rightarrow> bool" where
  "key_match key len h p \<longleftrightarrow>
     arKey p = key \<or> (bkt_h p = h \<and> nKeyLength p = len \<and> memcmp_eq len (arKey p) key)"

definition index_match :: "ulong \<Rightarrow> 'v bucket \<Rightarrow> bool" where
  "index_match h p \<longleftrightarrow> nKeyLength p = 0 \<and> bkt_h p = h"

text \<open>The search loop over a collision chain, common to all operations.\<close>

definition chain_search :: "'v HashTable \<Rightarrow> nat \<Rightarrow> ('v bucket \<Rightarrow> bool) \<Rightarrow> ptr option option" where
  "chain_search ht nIndex test =
     do { head \<leftarrow> slot_get ht nIndex; cell_search (cells ht) pNext (\<lambda>_. test) head }"

definition replace_data :: "ptr \<Rightarrow> 'v \<Rightarrow> nat \<Rightarrow> 'v HashTable \<Rightarrow> (zresult \<times> ptr option \<times> 'v HashTable) option" where
  "replace_data p v nDataSize ht =
     do { b \<leftarrow> cells ht p;
          let ht = call_dtor (zval_of (pData b)) ht;
          ht \<leftarrow> UPDATE_DATA p v nDataSize ht;
          Some (SUCCESS, Some p, ht) }"

definition pemalloc_bucket :: "ptr \<Rightarrow> ulong \<Rightarrow> key_ptr \<Rightarrow> nat \<Rightarrow> 'v \<Rightarrow> 'v HashTable \<Rightarrow> 'v HashTable" where
  "pemalloc_bucket p h key len junk ht =
     ht\<lparr>cells := (cells ht)(p \<mapsto> \<lparr>bkt_h = h, nKeyLength = len, pData = InPtr junk,
         pListNext = None, pListLast = None, pNext = None, pLast = None, arKey = key\<rparr>)\<rparr>"

text \<open>The key of a new bucket: interned strings are shared, others copied behind the bucket.\<close>

definition own_key :: "ptr \<Rightarrow> key_ptr \<Rightarrow> nat \<Rightarrow> key_ptr" where
  "own_key p key len = (if IS_INTERNED key then key else InBucket p (take len (chars key)))"

definition zend_hash_add_or_update ::
  "ptr \<Rightarrow> 'v HashTable \<Rightarrow> key_ptr \<Rightarrow> nat \<Rightarrow> 'v \<Rightarrow> nat \<Rightarrow> hash_flag \<Rightarrow>
   (zresult \<times> ptr option \<times> 'v HashTable) option" where
  "zend_hash_add_or_update new ht key len v nDataSize flag =
     do { let ht = CHECK_INIT ht;
          let h = zend_inline_hash_func (take len (chars key));
          let nIndex = slot_index (nTableMask ht) h;
          found \<leftarrow> chain_search ht nIndex (key_match key len h);
          (case found of
             Some p \<Rightarrow> if flag = HASH_ADD then Some (FAILURE, None, ht) else replace_data p v nDataSize ht
           | None \<Rightarrow>
               do { let ht = pemalloc_bucket new h (own_key new key len) len v ht;
                    ht \<leftarrow> INIT_DATA new v nDataSize ht;
                    list_head \<leftarrow> slot_get ht nIndex;
                    ht \<leftarrow> CONNECT_TO_BUCKET_DLLIST new list_head ht;
                    ht \<leftarrow> CONNECT_TO_GLOBAL_DLLIST new ht;
                    ht \<leftarrow> slot_put nIndex (Some new) ht;
                    ht \<leftarrow> ZEND_HASH_IF_FULL_DO_RESIZE (ht\<lparr>nNumOfElements := nNumOfElements ht + 1\<rparr>);
                    Some (SUCCESS, Some new, ht) }) }"

definition zend_hash_quick_add_or_update ::
  "ptr \<Rightarrow> 'v HashTable \<Rightarrow> key_ptr \<Rightarrow> nat \<Rightarrow> ulong \<Rightarrow> 'v \<Rightarrow> nat \<Rightarrow> hash_flag \<Rightarrow>
   (zresult \<times> ptr option \<times> 'v HashTable) option" where
  "zend_hash_quick_add_or_update new ht key len h v nDataSize flag =
     do { let ht = CHECK_INIT ht;
          let nIndex = slot_index (nTableMask ht) h;
          found \<leftarrow> chain_search ht nIndex (key_match key len h);
          (case found of
             Some p \<Rightarrow> if flag = HASH_ADD then Some (FAILURE, None, ht) else replace_data p v nDataSize ht
           | None \<Rightarrow>
               do { let ht = pemalloc_bucket new h (own_key new key len) len v ht;
                    ht \<leftarrow> INIT_DATA new v nDataSize ht;
                    list_head \<leftarrow> slot_get ht nIndex;
                    ht \<leftarrow> CONNECT_TO_BUCKET_DLLIST new list_head ht;
                    ht \<leftarrow> slot_put nIndex (Some new) ht;
                    ht \<leftarrow> CONNECT_TO_GLOBAL_DLLIST new ht;
                    ht \<leftarrow> ZEND_HASH_IF_FULL_DO_RESIZE (ht\<lparr>nNumOfElements := nNumOfElements ht + 1\<rparr>);
                    Some (SUCCESS, Some new, ht) }) }"

text \<open>\<open>dummy\<close> is the pointer value \<^verbatim>\<open>(void *) 1\<close>.\<close>

definition zend_hash_add_empty_element ::
  "ptr \<Rightarrow> 'v \<Rightarrow> 'v HashTable \<Rightarrow> key_ptr \<Rightarrow> nat \<Rightarrow> (zresult \<times> 'v HashTable) option" where
  "zend_hash_add_empty_element new dummy ht key len =
     map_option (\<lambda>(r, _, ht). (r, ht)) (zend_hash_add_or_update new ht key len dummy sizeof_ptr HASH_ADD)"

definition note_index :: "ulong \<Rightarrow> 'v HashTable \<Rightarrow> 'v HashTable" where
  "note_index h ht =
     (if nNextFreeElement ht \<le>s h
      then ht\<lparr>nNextFreeElement := (if h < LONG_MAX then h + 1 else LONG_MAX)\<rparr> else ht)"

definition zend_hash_index_update_or_next_insert ::
  "ptr \<Rightarrow> 'v HashTable \<Rightarrow> ulong \<Rightarrow> 'v \<Rightarrow> nat \<Rightarrow> hash_flag \<Rightarrow>
   (zresult \<times> ptr option \<times> 'v HashTable) option" where
  "zend_hash_index_update_or_next_insert new ht h v nDataSize flag =
     do { let ht = CHECK_INIT ht;
          let h = (if flag = HASH_NEXT_INSERT then nNextFreeElement ht else h);
          let nIndex = slot_index (nTableMask ht) h;
          found \<leftarrow> chain_search ht nIndex (index_match h);
          (case found of
             Some p \<Rightarrow> if flag = HASH_NEXT_INSERT \<or> flag = HASH_ADD then Some (FAILURE, None, ht)
                       else replace_data p v nDataSize ht
           | None \<Rightarrow>
               do { let ht = pemalloc_bucket new h NULLKEY 0 v ht;
                    ht \<leftarrow> INIT_DATA new v nDataSize ht;
                    list_head \<leftarrow> slot_get ht nIndex;
                    ht \<leftarrow> CONNECT_TO_BUCKET_DLLIST new list_head ht;
                    ht \<leftarrow> slot_put nIndex (Some new) ht;
                    ht \<leftarrow> CONNECT_TO_GLOBAL_DLLIST new ht;
                    let ht = note_index h ht;
                    ht \<leftarrow> ZEND_HASH_IF_FULL_DO_RESIZE (ht\<lparr>nNumOfElements := nNumOfElements ht + 1\<rparr>);
                    Some (SUCCESS, Some new, ht) }) }"

section \<open>Renumbering\<close>

definition reindex_body ::
  "bool \<Rightarrow> ptr \<Rightarrow> 'v HashTable \<times> ulong \<Rightarrow> (('v HashTable \<times> ulong) \<times> ptr option) option" where
  "reindex_body only_integer_keys p = (\<lambda>(ht, offset).
     do { b \<leftarrow> cells ht p;
          (ht, offset) \<leftarrow>
            (if \<not> only_integer_keys \<or> nKeyLength b = 0
             then do { ht \<leftarrow> hpoke p (\<lambda>b. b\<lparr>bkt_h := offset, nKeyLength := 0\<rparr>) ht;
                       Some (ht, offset + 1) }
             else Some (ht, offset));
          ht \<leftarrow> rehash_bucket p ht;
          b \<leftarrow> cells ht p;
          Some ((ht, offset), pListNext b) })"

definition zend_hash_reindex :: "'v HashTable \<Rightarrow> bool \<Rightarrow> 'v HashTable option" where
  "zend_hash_reindex ht only_integer_keys =
     (if nNumOfElements ht = 0 then Some (ht\<lparr>nNextFreeElement := 0\<rparr>)
      else do { ht \<leftarrow> clear_slots ht;
                (ht, offset) \<leftarrow> iterate (reindex_body only_integer_keys) (pListHead ht) (ht, 0);
                Some (ht\<lparr>nNextFreeElement := offset\<rparr>) })"

section \<open>Deletion and lookup\<close>

definition del_match :: "key_ptr \<Rightarrow> nat \<Rightarrow> ulong \<Rightarrow> 'v bucket \<Rightarrow> bool" where
  "del_match key len h p \<longleftrightarrow>
     bkt_h p = h \<and> nKeyLength p = len \<and> (nKeyLength p = 0 \<or> memcmp_eq len (arKey p) key)"

definition zend_hash_del_key_or_index ::
  "'v HashTable \<Rightarrow> key_ptr \<Rightarrow> nat \<Rightarrow> ulong \<Rightarrow> del_flag \<Rightarrow> (zresult \<times> 'v HashTable) option" where
  "zend_hash_del_key_or_index ht key len h flag =
     do { let h = (if flag = HASH_DEL_KEY then zend_inline_hash_func (take len (chars key)) else h);
          found \<leftarrow> chain_search ht (slot_index (nTableMask ht) h) (del_match key len h);
          (case found of
             Some p \<Rightarrow> map_option (Pair SUCCESS) (i_zend_hash_bucket_delete p ht)
           | None \<Rightarrow> Some (FAILURE, ht)) }"

definition zend_hash_quick_find ::
  "'v HashTable \<Rightarrow> key_ptr \<Rightarrow> nat \<Rightarrow> ulong \<Rightarrow> (zresult \<times> ptr option) option" where
  "zend_hash_quick_find ht key len h =
     map_option (\<lambda>found. case found of Some p \<Rightarrow> (SUCCESS, Some p) | None \<Rightarrow> (FAILURE, None))
       (chain_search ht (slot_index (nTableMask ht) h) (key_match key len h))"

definition zend_hash_find :: "'v HashTable \<Rightarrow> key_ptr \<Rightarrow> nat \<Rightarrow> (zresult \<times> ptr option) option" where
  "zend_hash_find ht key len =
     do { let h = zend_inline_hash_func (take len (chars key));
          found \<leftarrow> chain_search ht (slot_index (nTableMask ht) h) (key_match key len h);
          Some (case found of Some p \<Rightarrow> (SUCCESS, Some p) | None \<Rightarrow> (FAILURE, None)) }"

definition zend_hash_exists :: "'v HashTable \<Rightarrow> key_ptr \<Rightarrow> nat \<Rightarrow> bool option" where
  "zend_hash_exists ht key len =
     do { let h = zend_inline_hash_func (take len (chars key));
          found \<leftarrow> chain_search ht (slot_index (nTableMask ht) h) (key_match key len h);
          Some (found \<noteq> None) }"

definition zend_hash_quick_exists :: "'v HashTable \<Rightarrow> key_ptr \<Rightarrow> nat \<Rightarrow> ulong \<Rightarrow> bool option" where
  "zend_hash_quick_exists ht key len h =
     map_option (\<lambda>found. found \<noteq> None)
       (chain_search ht (slot_index (nTableMask ht) h) (key_match key len h))"

definition zend_hash_index_find :: "'v HashTable \<Rightarrow> ulong \<Rightarrow> (zresult \<times> ptr option) option" where
  "zend_hash_index_find ht h =
     map_option (\<lambda>found. case found of Some p \<Rightarrow> (SUCCESS, Some p) | None \<Rightarrow> (FAILURE, None))
       (chain_search ht (slot_index (nTableMask ht) h) (index_match h))"

definition zend_hash_index_exists :: "'v HashTable \<Rightarrow> ulong \<Rightarrow> bool option" where
  "zend_hash_index_exists ht h =
     map_option (\<lambda>found. found \<noteq> None)
       (chain_search ht (slot_index (nTableMask ht) h) (index_match h))"

definition zend_hash_num_elements :: "'v HashTable \<Rightarrow> uint" where
  "zend_hash_num_elements ht = nNumOfElements ht"

definition zend_hash_next_free_element :: "'v HashTable \<Rightarrow> ulong" where
  "zend_hash_next_free_element ht = nNextFreeElement ht"

end
