(* ===== verification/Zend_Hash_Inv.thy ===== *)
theory Zend_Hash_Inv
  imports Zend_Hash
begin

text \<open>
  The invariant of hash tables and the effect of the primitive steps on its parts: linking a
  bucket into and out of a collision chain (\<open>slot_chains\<close>) and into and out of the global list
  (\<open>glist\<close>).
\<close>

section \<open>The parts of the invariant\<close>

datatype hkey = IntKey ulong | StrKey "byte list"

definition bkey :: "'v bucket \<Rightarrow> hkey" where
  "bkey b = (if nKeyLength b = 0 then IntKey (bkt_h b) else StrKey (chars (arKey b)))"

definition bentry :: "'v bucket \<Rightarrow> hkey \<times> 'v" where
  "bentry b = (bkey b, zval_of (pData b))"

text \<open>The part of a bucket that linking and unlinking never touches.\<close>

definition binfo :: "'v bucket \<Rightarrow> ulong \<times> nat \<times> key_ptr \<times> 'v zdata" where
  "binfo b = (bkt_h b, nKeyLength b, arKey b, pData b)"

definition bucket_ok :: "ptr \<Rightarrow> 'v bucket \<Rightarrow> bool" where
  "bucket_ok p b \<longleftrightarrow>
     (if nKeyLength b = 0 then arKey b = NULLKEY
      else length (chars (arKey b)) = nKeyLength b \<and> bkt_h b = zend_inline_hash_func (chars (arKey b)) \<and>
        (IS_INTERNED (arKey b) \<or> arKey b = InBucket p (chars (arKey b))))"

definition slot_of :: "uint \<Rightarrow> (ptr \<rightharpoonup> 'v bucket) \<Rightarrow> ptr \<rightharpoonup> nat" where
  "slot_of m c = fld (\<lambda>b. slot_index m (bkt_h b)) c"

text \<open>The chain of slot \<open>i\<close> is \<open>C i\<close>, and the buckets \<open>S\<close> are distributed over the chains by slot.\<close>

definition chain_lists ::
  "uint \<Rightarrow> ptr option option list \<Rightarrow> (ptr \<rightharpoonup> 'v bucket) \<Rightarrow> ptr set \<Rightarrow> (nat \<Rightarrow> ptr list) \<Rightarrow> bool" where
  "chain_lists m ar c S C \<longleftrightarrow>
     length ar = Suc (unat m) \<and> S \<subseteq> dom c \<and>
     (\<forall>i\<le>unat m. ar ! i = Some (first_of (C i)) \<and> linked (fld pNext c) (fld pLast c) (C i) \<and>
        set (C i) = {p \<in> S. slot_of m c p = Some i})"

definition slot_chains :: "uint \<Rightarrow> ptr option option list \<Rightarrow> (ptr \<rightharpoonup> 'v bucket) \<Rightarrow> ptr set \<Rightarrow> bool" where
  "slot_chains m ar c S \<longleftrightarrow> (\<exists>C. chain_lists m ar c S C)"

definition glist :: "'v HashTable \<Rightarrow> ptr list \<Rightarrow> bool" where
  "glist ht L \<longleftrightarrow>
     linked (fld pListNext (cells ht)) (fld pListLast (cells ht)) L \<and>
     pListHead ht = first_of L \<and> pListTail ht = last_of L"

definition sized :: "'v HashTable \<Rightarrow> bool" where
  "sized ht \<longleftrightarrow> (\<exists>k. 3 \<le> k \<and> k \<le> 31 \<and> nTableSize ht = 2 ^ k) \<and>
     (nTableMask ht = 0 \<and> cells ht = Map.empty \<or> nTableMask ht = nTableSize ht - 1)"

definition blocks :: "(ptr \<rightharpoonup> 'v bucket) \<Rightarrow> ptr list \<Rightarrow> int" where
  "blocks c L = int (length (filter (\<lambda>p. fld (\<lambda>b. out_of_line (pData b)) c p = Some True) L))"

text \<open>Every integer key is below the next free index, unless that has reached \<open>LONG_MAX\<close>.\<close>

definition next_free_ok :: "ulong \<Rightarrow> (hkey \<times> 'v) list \<Rightarrow> bool" where
  "next_free_ok n kvs \<longleftrightarrow>
     0 \<le>s n \<and> (\<forall>h. IntKey h \<in> fst ` set kvs \<longrightarrow> h <s n \<or> (n = LONG_MAX \<and> h = LONG_MAX))"

definition wf_list :: "'v HashTable \<Rightarrow> ptr list \<Rightarrow> bool" where
  "wf_list ht L \<longleftrightarrow>
     glist ht L \<and> set L = dom (cells ht) \<and> nNumOfElements ht = of_nat (length L) \<and>
     length L < 2 ^ 32 \<and> set_option (pInternalPointer ht) \<subseteq> set L \<and>
     dataBlocks ht = blocks (cells ht) L"

text \<open>
  \<open>stored ht L kvs\<close>: the buckets are \<open>L\<close>, in this order, and hold the entries \<open>kvs\<close>, and both
  lists of buckets, the array of slots and the counters agree with that. \<open>table\<close> adds what
  \<open>nNextFreeElement\<close> promises.
\<close>

definition stored :: "'v HashTable \<Rightarrow> ptr list \<Rightarrow> (hkey \<times> 'v) list \<Rightarrow> bool" where
  "stored ht L kvs \<longleftrightarrow>
     wf_list ht L \<and> sized ht \<and> slot_chains (nTableMask ht) (arBuckets ht) (cells ht) (set L) \<and>
     (\<forall>p b. cells ht p = Some b \<longrightarrow> bucket_ok p b) \<and>
     map (fld bentry (cells ht)) L = map Some kvs \<and> distinct (map fst kvs)"

definition table :: "'v HashTable \<Rightarrow> ptr list \<Rightarrow> (hkey \<times> 'v) list \<Rightarrow> bool" where
  "table ht L kvs \<longleftrightarrow> stored ht L kvs \<and> next_free_ok (nNextFreeElement ht) kvs"

section \<open>Slots\<close>

lemma slot_index_le [simp]: "slot_index m h \<le> unat m"
proof -
  have "unat (h AND ucast m :: ulong) \<le> unat (ucast m :: ulong)"
    by (simp add: word_le_nat_alt [symmetric] word_and_le1)
  also have "\<dots> = unat m"
    using unsigned_less [of m, where ?'a = nat] by (simp add: unsigned_ucast_eq take_bit_nat_eq_self_iff)
  finally show ?thesis by (simp add: slot_index_def)
qed

lemma hpoke_ok [simp]: "p \<in> dom (cells ht) \<Longrightarrow> hpoke p f ht = Some (ht\<lparr>cells := modify p f (cells ht)\<rparr>)"
  by (simp add: hpoke_def)

lemma slot_put_ok [simp]:
  "i < length (arBuckets ht) \<Longrightarrow> slot_put i q ht = Some (ht\<lparr>arBuckets := (arBuckets ht)[i := Some q]\<rparr>)"
  by (simp add: slot_put_def)

lemma ht_unchanged:
  "arBuckets ht = ar \<Longrightarrow> ht\<lparr>arBuckets := ar\<rparr> = ht"
  "pListHead ht = x \<Longrightarrow> ht\<lparr>pListHead := x\<rparr> = ht"
  "pListTail ht = x \<Longrightarrow> ht\<lparr>pListTail := x\<rparr> = ht"
  "pInternalPointer ht = x \<Longrightarrow> ht\<lparr>pInternalPointer := x\<rparr> = ht"
  by auto

section \<open>Collision chains\<close>

lemma slot_of_Some [simp]: "c p = Some b \<Longrightarrow> slot_of m c p = Some (slot_index m (bkt_h b))"
  by (simp add: slot_of_def)

lemma slot_of_h: "slot_of m c p = map_option (slot_index m) (fld bkt_h c p)"
  by (simp add: slot_of_def fld_def option.map_comp comp_def)

lemma slot_of_le: "slot_of m c p = Some i \<Longrightarrow> i \<le> unat m"
  by (auto simp: slot_of_h)

lemma chain_listsD:
  assumes "chain_lists m ar c S C"
  shows "length ar = Suc (unat m)" "S \<subseteq> dom c"
    and "i \<le> unat m \<Longrightarrow> ar ! i = Some (first_of (C i))"
    and "i \<le> unat m \<Longrightarrow> linked (fld pNext c) (fld pLast c) (C i)"
    and "i \<le> unat m \<Longrightarrow> set (C i) = {p \<in> S. slot_of m c p = Some i}"
  using assms by (auto simp: chain_lists_def)

lemma chain_listsI:
  assumes "length ar = Suc (unat m)" "S \<subseteq> dom c"
    and "\<And>i. i \<le> unat m \<Longrightarrow> ar ! i = Some (first_of (C i))"
    and "\<And>i. i \<le> unat m \<Longrightarrow> linked (fld pNext c) (fld pLast c) (C i)"
    and "\<And>i. i \<le> unat m \<Longrightarrow> set (C i) = {p \<in> S. slot_of m c p = Some i}"
  shows "chain_lists m ar c S C"
  unfolding chain_lists_def using assms by auto

lemma chain_lists_cong:
  assumes cl: "chain_lists m ar c S C"
    and eq: "\<And>p. p \<in> S \<Longrightarrow> fld pNext c' p = fld pNext c p \<and> fld pLast c' p = fld pLast c p \<and>
          fld bkt_h c' p = fld bkt_h c p"
  shows "chain_lists m ar c' S C"
proof (rule chain_listsI)
  show "S \<subseteq> dom c'" using chain_listsD(2) [OF cl] eq by (metis fld_None_iff subset_iff)
  have s: "slot_of m c' p = slot_of m c p" if "p \<in> S" for p
    using eq [OF that] by (simp add: slot_of_h)
  fix i assume i: "i \<le> unat m"
  show "set (C i) = {p \<in> S. slot_of m c' p = Some i}" using chain_listsD(5) [OF cl i] s by auto
  have "linked (fld pNext c') (fld pLast c') (C i) = linked (fld pNext c) (fld pLast c) (C i)"
    using chain_listsD(5) [OF cl i] eq by (intro linked_cong) auto
  then show "linked (fld pNext c') (fld pLast c') (C i)" using chain_listsD(4) [OF cl i] by simp
qed (use chain_listsD [OF cl] in auto)

lemma chains_cong:
  assumes "slot_chains m ar c S"
    and "\<And>p. p \<in> S \<Longrightarrow> fld pNext c' p = fld pNext c p \<and> fld pLast c' p = fld pLast c p \<and>
          fld bkt_h c' p = fld bkt_h c p"
  shows "slot_chains m ar c' S"
proof -
  obtain C where "chain_lists m ar c S C" using assms(1) by (auto simp: slot_chains_def)
  then have "chain_lists m ar c' S C" using assms(2) by (rule chain_lists_cong)
  then show ?thesis by (auto simp: slot_chains_def)
qed

lemma chains_dom: "slot_chains m ar c S \<Longrightarrow> S \<subseteq> dom c" "slot_chains m ar c S \<Longrightarrow> length ar = Suc (unat m)"
  by (auto simp: slot_chains_def chain_lists_def)

lemma chains_Nil: "slot_chains m (replicate (Suc (unat m)) (Some None)) c {}"
  unfolding slot_chains_def by (rule exI [of _ "\<lambda>_. []"]) (auto simp: chain_lists_def simp del: replicate_Suc)

text \<open>Searching a chain.\<close>

lemma chain_search_ok:
  assumes "slot_chains (nTableMask ht) (arBuckets ht) (cells ht) S" "i \<le> unat (nTableMask ht)"
  shows "\<exists>r. chain_search ht i test = Some r \<and>
    (\<forall>p. r = Some p \<longrightarrow> p \<in> S \<and> (\<exists>b. cells ht p = Some b \<and> test b)) \<and>
    (r = None \<longrightarrow> (\<forall>p b. p \<in> S \<longrightarrow> slot_of (nTableMask ht) (cells ht) p = Some i \<longrightarrow> cells ht p = Some b \<longrightarrow> \<not> test b))"
proof -
  obtain C where C: "chain_lists (nTableMask ht) (arBuckets ht) (cells ht) S C"
    using assms(1) by (auto simp: slot_chains_def)
  let ?t = "\<lambda>a. \<exists>b. cells ht a = Some b \<and> test b"
  have "slot_get ht i = Some (first_of (C i))"
    using chain_listsD(1,3) [OF C] assms(2) by (simp add: slot_get_def)
  then have "chain_search ht i test = Some (find ?t (C i))"
    using cell_search_linked [OF chain_listsD(4) [OF C assms(2)]] by (simp add: chain_search_def)
  moreover have "find ?t (C i) = Some p \<Longrightarrow> p \<in> set (C i) \<and> ?t p" for p
    by (auto simp: find_Some_iff)
  moreover have "find ?t (C i) = None \<Longrightarrow> p \<in> set (C i) \<Longrightarrow> \<not> ?t p" for p
    by (auto simp: find_None_iff)
  ultimately show ?thesis using chain_listsD(5) [OF C assms(2)] by blast
qed

text \<open>Putting a bucket at the head of its chain.\<close>

definition connect_cells :: "ptr \<Rightarrow> ptr option \<Rightarrow> (ptr \<rightharpoonup> 'v bucket) \<Rightarrow> (ptr \<rightharpoonup> 'v bucket)" where
  "connect_cells p hd0 c =
     (let c = modify p (\<lambda>b. b\<lparr>pNext := hd0, pLast := None\<rparr>) c in
      case hd0 of None \<Rightarrow> c | Some n \<Rightarrow> modify n (\<lambda>b. b\<lparr>pLast := Some p\<rparr>) c)"

lemma dom_connect_cells [simp]: "dom (connect_cells p hd0 c) = dom c"
  by (simp add: connect_cells_def Let_def split: option.splits)

lemma fld_connect_cells_other [simp]:
  assumes "\<And>b x y. sel (b\<lparr>pNext := x, pLast := y\<rparr>) = sel b" "\<And>b y. sel (b\<lparr>pLast := y\<rparr>) = sel b"
  shows "fld sel (connect_cells p hd0 c) = fld sel c"
  using assms by (simp add: connect_cells_def Let_def split: option.splits)

lemma CONNECT_TO_BUCKET_DLLIST_eq:
  assumes "p \<in> dom (cells ht)" "set_option hd0 \<subseteq> dom (cells ht)"
  shows "CONNECT_TO_BUCKET_DLLIST p hd0 ht = Some (ht\<lparr>cells := connect_cells p hd0 (cells ht)\<rparr>)"
  using assms by (auto simp: CONNECT_TO_BUCKET_DLLIST_def connect_cells_def Let_def simp del: domIff split: option.splits)

lemma fld_connect_cells:
  assumes "p \<in> dom c" "set_option hd0 \<subseteq> dom c"
  shows "fld pNext (connect_cells p hd0 c) = (fld pNext c)(p \<mapsto> hd0)"
    and "hd0 \<noteq> Some p \<Longrightarrow> fld pLast (connect_cells p hd0 c) = upd_opt hd0 (Some p) ((fld pLast c)(p \<mapsto> None))"
  using assms by (cases hd0; simp add: connect_cells_def Let_def del: domIff)+

lemma chain_lists_push:
  assumes cl: "chain_lists m ar c S C" and p: "p \<in> dom c" "p \<notin> S" and i: "slot_of m c p = Some i"
  shows "chain_lists m (ar[i := Some (Some p)]) (connect_cells p (first_of (C i)) c) (insert p S) (C(i := p # C i))"
proof -
  define c' where "c' = connect_cells p (first_of (C i)) c"
  have im: "i \<le> unat m" using i by (rule slot_of_le)
  note l = chain_listsD(4,5) [OF cl] and len = chain_listsD(1) [OF cl]
  have fS: "q \<in> S \<and> slot_of m c q = Some i" if "first_of (C i) = Some q" for q
    using first_of_in [OF that] l(2) [OF im] by simp
  have sub: "set_option (first_of (C i)) \<subseteq> dom c" "first_of (C i) \<noteq> Some p"
    using fS chain_listsD(2) [OF cl] p(2) by blast+
  have f: "fld pNext c' = (fld pNext c)(p \<mapsto> first_of (C i))"
      "fld pLast c' = upd_opt (first_of (C i)) (Some p) ((fld pLast c)(p \<mapsto> None))"
    unfolding c'_def using fld_connect_cells [OF p(1) sub(1)] sub(2) by blast+
  have s: "slot_of m c' = slot_of m c" "dom c' = dom c"
    by (simp_all add: slot_of_def c'_def)
  have "chain_lists m (ar[i := Some (Some p)]) c' (insert p S) (C(i := p # C i))"
  proof (rule chain_listsI)
    show "length (ar[i := Some (Some p)]) = Suc (unat m)" using len by simp
    show "insert p S \<subseteq> dom c'" using chain_listsD(2) [OF cl] p s(2) by simp
    fix j assume j: "j \<le> unat m"
    show "ar[i := Some (Some p)] ! j = Some (first_of ((C(i := p # C i)) j))"
      using chain_listsD(3) [OF cl j] im j len by (simp add: nth_list_update)
    show "set ((C(i := p # C i)) j) = {q \<in> insert p S. slot_of m c' q = Some j}"
    proof (rule set_eqI)
      fix q
      have "q \<in> set (C j) \<longleftrightarrow> q \<in> S \<and> slot_of m c q = Some j" using l(2) [OF j] by simp
      then show "q \<in> set ((C(i := p # C i)) j) \<longleftrightarrow> q \<in> {q \<in> insert p S. slot_of m c' q = Some j}"
        using i s p(2) by (cases "q = p"; cases "j = i") simp_all
    qed
    show "linked (fld pNext c') (fld pLast c') ((C(i := p # C i)) j)"
    proof (cases "j = i")
      case True
      have "p \<notin> set ([] @ C i)" using l(2) [OF im] p by simp
      from linked_insert [OF _ this] l(1) [OF im]
      show ?thesis unfolding f True fun_upd_same by simp
    next
      case False
      have "q \<noteq> p \<and> first_of (C i) \<noteq> Some q" if "q \<in> set (C j)" for q
      proof -
        have "q \<in> S" "slot_of m c q = Some j" using that l(2) [OF j] by simp_all
        then show ?thesis using fS [of q] p(2) False by auto
      qed
      then have "linked (fld pNext c') (fld pLast c') (C j) = linked (fld pNext c) (fld pLast c) (C j)"
        unfolding f by (intro linked_cong) (simp add: upd_opt_apply)
      then show ?thesis using False l(1) [OF j] by simp
    qed
  qed
  then show ?thesis by (simp only: c'_def)
qed

text \<open>What linking keeps: the contents of the buckets and the other list.\<close>

definition same_info :: "(ptr \<rightharpoonup> 'v bucket) \<Rightarrow> (ptr \<rightharpoonup> 'v bucket) \<Rightarrow> bool" where
  "same_info c c' \<longleftrightarrow> fld binfo c' = fld binfo c"

definition same_list :: "(ptr \<rightharpoonup> 'v bucket) \<Rightarrow> (ptr \<rightharpoonup> 'v bucket) \<Rightarrow> bool" where
  "same_list c c' \<longleftrightarrow> same_info c c' \<and> fld pListNext c' = fld pListNext c \<and> fld pListLast c' = fld pListLast c"

definition same_chain :: "(ptr \<rightharpoonup> 'v bucket) \<Rightarrow> (ptr \<rightharpoonup> 'v bucket) \<Rightarrow> bool" where
  "same_chain c c' \<longleftrightarrow> same_info c c' \<and> fld pNext c' = fld pNext c \<and> fld pLast c' = fld pLast c"

lemma fld_via:
  assumes "fld f c' = fld f c" "\<And>b. sel b = g (f b)"
  shows "fld sel c' = fld sel c"
proof
  fix p
  have "sel = g \<circ> f" using assms(2) by auto
  then have "fld sel c' p = map_option g (fld f c' p)" "fld sel c p = map_option g (fld f c p)"
    by (simp_all add: fld_def option.map_comp)
  then show "fld sel c' p = fld sel c p" by (simp add: assms(1))
qed

lemma fld_eq_dom: "fld f c' = fld f c \<Longrightarrow> dom c' = dom c"
  by (metis (no_types, lifting) domIff fld_None_iff set_eqI)

lemma same_infoD:
  assumes "same_info c c'"
  shows "fld bkt_h c' = fld bkt_h c" "fld bkey c' = fld bkey c" "fld bentry c' = fld bentry c"
    and "fld (\<lambda>b. out_of_line (pData b)) c' = fld (\<lambda>b. out_of_line (pData b)) c" "dom c' = dom c"
    and "fld nKeyLength c' = fld nKeyLength c" "fld arKey c' = fld arKey c" "fld pData c' = fld pData c"
proof -
  have b: "fld binfo c' = fld binfo c" using assms by (simp add: same_info_def)
  show h: "fld bkt_h c' = fld bkt_h c"
    by (rule fld_via [OF b, where g = fst]) (simp add: binfo_def)
  show n: "fld nKeyLength c' = fld nKeyLength c"
    by (rule fld_via [OF b, where g = "\<lambda>(h, n, k, d). n"]) (simp add: binfo_def)
  show k: "fld arKey c' = fld arKey c"
    by (rule fld_via [OF b, where g = "\<lambda>(h, n, k, d). k"]) (simp add: binfo_def)
  show d: "fld pData c' = fld pData c"
    by (rule fld_via [OF b, where g = "\<lambda>(h, n, k, d). d"]) (simp add: binfo_def)
  show "fld (\<lambda>b. out_of_line (pData b)) c' = fld (\<lambda>b. out_of_line (pData b)) c"
    by (rule fld_via [OF d]) simp
  show "fld bkey c' = fld bkey c"
    by (rule fld_via [OF b, where g = "\<lambda>(h, n, k, d). if n = 0 then IntKey h else StrKey (chars k)"])
      (simp add: binfo_def bkey_def)
  show "fld bentry c' = fld bentry c"
    by (rule fld_via [OF b, where g = "\<lambda>(h, n, k, d). (if n = 0 then IntKey h else StrKey (chars k), zval_of d)"])
      (simp add: binfo_def bkey_def bentry_def)
  show "dom c' = dom c" using b by (rule fld_eq_dom)
qed

lemma same_info_ok:
  assumes "same_info c c'" "\<forall>p b. c p = Some b \<longrightarrow> bucket_ok p b"
  shows "\<forall>p b. c' p = Some b \<longrightarrow> bucket_ok p b"
proof (intro allI impI)
  fix p b assume b: "c' p = Some b"
  have "fld binfo c' p = fld binfo c p" using assms(1) by (simp add: same_info_def)
  with b obtain b0 where b0: "c p = Some b0" "binfo b0 = binfo b" by (cases "c p") (auto simp: fld_def)
  then have "bucket_ok p b0" using assms(2) by blast
  with b0(2) show "bucket_ok p b" by (auto simp: bucket_ok_def binfo_def split: if_splits)
qed

lemma same_list_info: "same_list c c' \<Longrightarrow> same_info c c'"
  and same_chain_info: "same_chain c c' \<Longrightarrow> same_info c c'"
  by (simp_all add: same_list_def same_chain_def)

lemma same_list_refl [simp]: "same_list c c" "same_chain c c" "same_info c c"
  by (simp_all add: same_list_def same_chain_def same_info_def)

lemma same_list_trans: "same_list c c' \<Longrightarrow> same_list c' c'' \<Longrightarrow> same_list c c''"
  by (simp add: same_list_def same_info_def)

lemma same_list_connect [simp]: "same_list c (connect_cells p hd0 c)"
  by (simp add: same_list_def same_info_def binfo_def)

lemma chains_same_chain: "slot_chains m ar c S \<Longrightarrow> same_chain c c' \<Longrightarrow> slot_chains m ar c' S"
  by (rule chains_cong) (auto simp: same_chain_def dest: same_infoD(1))

lemma glist_same_list:
  "glist ht L \<Longrightarrow> same_list (cells ht) (cells ht') \<Longrightarrow> pListHead ht' = pListHead ht \<Longrightarrow>
   pListTail ht' = pListTail ht \<Longrightarrow> glist ht' L"
  by (simp add: glist_def same_list_def)

lemma rehash_bucket_lists:
  assumes C: "chain_lists (nTableMask ht) (arBuckets ht) (cells ht) S C" and p: "p \<in> dom (cells ht)" "p \<notin> S"
    and i: "slot_of (nTableMask ht) (cells ht) p = Some i"
  obtains c' where "rehash_bucket p ht = Some (ht\<lparr>cells := c', arBuckets := (arBuckets ht)[i := Some (Some p)]\<rparr>)"
    and "chain_lists (nTableMask ht) ((arBuckets ht)[i := Some (Some p)]) c' (insert p S) (C(i := p # C i))" "same_list (cells ht) c'"
proof -
  let ?m = "nTableMask ht" and ?ar = "arBuckets ht" and ?c = "cells ht"
  obtain b where b: "?c p = Some b" using p(1) by blast
  have ib: "slot_index ?m (bkt_h b) = i" "i \<le> unat ?m" using i b slot_index_le [of ?m "bkt_h b"] by simp_all
  have g: "slot_get ht i = Some (first_of (C i))" "i < length ?ar"
    using chain_listsD(1,3) [OF C] ib by (simp_all add: slot_get_def)
  have "set_option (first_of (C i)) \<subseteq> dom ?c"
    using chain_listsD(2) [OF C] chain_listsD(5) [OF C ib(2)] by (auto dest!: first_of_in)
  then have "rehash_bucket p ht = Some (ht\<lparr>cells := connect_cells p (first_of (C i)) ?c, arBuckets := ?ar[i := Some (Some p)]\<rparr>)"
    using b g p(1) by (simp add: rehash_bucket_def Let_def ib(1) CONNECT_TO_BUCKET_DLLIST_eq del: domIff)
  then show thesis using that [of "connect_cells p (first_of (C i)) ?c"] chain_lists_push [OF C p i] same_list_connect by blast
qed

lemma rehash_bucket_ok:
  assumes "slot_chains (nTableMask ht) (arBuckets ht) (cells ht) S" "p \<in> dom (cells ht)" "p \<notin> S"
  obtains c' ar' where "rehash_bucket p ht = Some (ht\<lparr>cells := c', arBuckets := ar'\<rparr>)"
    and "slot_chains (nTableMask ht) ar' c' (insert p S)" "same_list (cells ht) c'"
proof -
  obtain C where C: "chain_lists (nTableMask ht) (arBuckets ht) (cells ht) S C" using assms(1) by (auto simp: slot_chains_def)
  obtain i where i: "slot_of (nTableMask ht) (cells ht) p = Some i" using assms(2) by (auto simp del: domIff simp: dom_def)
  show thesis by (rule rehash_bucket_lists [OF C assms(2,3) i]) (use that in \<open>auto simp: slot_chains_def\<close>)
qed

text \<open>Chains in which the buckets stand in the reverse order of a list.\<close>

definition aged :: "uint \<Rightarrow> ptr option option list \<Rightarrow> (ptr \<rightharpoonup> 'v bucket) \<Rightarrow> ptr list \<Rightarrow> bool" where
  "aged m ar c L \<longleftrightarrow> chain_lists m ar c (set L) (\<lambda>i. rev (filter (\<lambda>p. slot_of m c p = Some i) L))"

lemma aged_chains: "aged m ar c L \<Longrightarrow> slot_chains m ar c (set L)"
  by (auto simp: aged_def slot_chains_def)

lemma aged_Nil: "aged m (replicate (Suc (unat m)) (Some None)) c []"
  by (auto simp: aged_def chain_lists_def simp del: replicate_Suc)

lemma chain_lists_fun_cong: "(\<And>i. i \<le> unat m \<Longrightarrow> C' i = C i) \<Longrightarrow> chain_lists m ar c S C' = chain_lists m ar c S C"
  by (auto simp: chain_lists_def)

lemma aged_cong:
  assumes a: "aged m ar c L"
    and eq: "\<And>p. p \<in> set L \<Longrightarrow> fld pNext c' p = fld pNext c p \<and> fld pLast c' p = fld pLast c p \<and> fld bkt_h c' p = fld bkt_h c p"
  shows "aged m ar c' L"
proof -
  have "filter (\<lambda>q. slot_of m c' q = Some i) L = filter (\<lambda>q. slot_of m c q = Some i) L" for i
    using eq by (auto simp: slot_of_h intro: filter_cong)
  moreover have "chain_lists m ar c' (set L) (\<lambda>i. rev (filter (\<lambda>q. slot_of m c q = Some i) L))"
    by (rule chain_lists_cong [OF a [unfolded aged_def] eq])
  ultimately show ?thesis by (simp add: aged_def)
qed

lemma aged_same_chain: "aged m ar c L \<Longrightarrow> same_chain c c' \<Longrightarrow> aged m ar c' L"
  by (rule aged_cong) (auto simp: same_chain_def dest: same_infoD(1))

lemma rehash_bucket_aged:
  assumes a: "aged (nTableMask ht) (arBuckets ht) (cells ht) L" and p: "p \<in> dom (cells ht)" "p \<notin> set L"
  obtains c' ar' where "rehash_bucket p ht = Some (ht\<lparr>cells := c', arBuckets := ar'\<rparr>)"
    and "aged (nTableMask ht) ar' c' (L @ [p])" "same_list (cells ht) c'"
proof -
  let ?m = "nTableMask ht"
  obtain b where b: "cells ht p = Some b" using p(1) by blast
  let ?i = "slot_index ?m (bkt_h b)" and ?C = "\<lambda>i. rev (filter (\<lambda>q. slot_of ?m (cells ht) q = Some i) L)"
  obtain c' where c': "rehash_bucket p ht = Some (ht\<lparr>cells := c', arBuckets := (arBuckets ht)[?i := Some (Some p)]\<rparr>)"
    "chain_lists ?m ((arBuckets ht)[?i := Some (Some p)]) c' (insert p (set L)) (?C(?i := p # ?C ?i))" "same_list (cells ht) c'"
    by (rule rehash_bucket_lists [OF a [unfolded aged_def] p]) (use b in simp)
  have s: "slot_of ?m c' = slot_of ?m (cells ht)" using same_infoD(1) [OF same_list_info [OF c'(3)]] by (simp add: slot_of_h fun_eq_iff)
  have "?C(?i := p # ?C ?i) = (\<lambda>i. rev (filter (\<lambda>q. slot_of ?m c' q = Some i) (L @ [p])))" using b by (auto simp: s fun_eq_iff)
  then have "aged ?m ((arBuckets ht)[?i := Some (Some p)]) c' (L @ [p])" using c'(2) by (simp add: aged_def)
  then show thesis using that c'(1,3) by blast
qed

text \<open>Taking a bucket out of its chain.\<close>

definition unlink_cells :: "ptr option \<Rightarrow> ptr option \<Rightarrow> (ptr \<rightharpoonup> 'v bucket) \<Rightarrow> (ptr \<rightharpoonup> 'v bucket)" where
  "unlink_cells l n c =
     (let c = (case l of Some a \<Rightarrow> modify a (\<lambda>b. b\<lparr>pNext := n\<rparr>) c | None \<Rightarrow> c)
      in case n of Some a \<Rightarrow> modify a (\<lambda>b. b\<lparr>pLast := l\<rparr>) c | None \<Rightarrow> c)"

lemma fld_unlink_cells:
  assumes "set_option l \<subseteq> dom c" "set_option n \<subseteq> dom c"
  shows "fld pNext (unlink_cells l n c) = upd_opt l n (fld pNext c)"
    and "fld pLast (unlink_cells l n c) = upd_opt n l (fld pLast c)"
  using assms by (cases l; cases n; simp add: unlink_cells_def Let_def del: domIff)+

lemma same_list_unlink [simp]: "same_list c (unlink_cells l n c)"
  by (simp add: same_list_def same_info_def binfo_def unlink_cells_def Let_def split: option.splits)

lemma chain_unlink_eq:
  assumes "cells ht p = Some b" "set_option (pLast b) \<subseteq> dom (cells ht)" "set_option (pNext b) \<subseteq> dom (cells ht)"
    and "slot_index (nTableMask ht) (bkt_h b) < length (arBuckets ht)"
  shows "chain_unlink p ht = Some (ht\<lparr>cells := unlink_cells (pLast b) (pNext b) (cells ht),
      arBuckets := (if pLast b = None
        then (arBuckets ht)[slot_index (nTableMask ht) (bkt_h b) := Some (pNext b)] else arBuckets ht)\<rparr>)"
  using assms
  by (cases "pLast b"; cases "pNext b")
    (simp_all add: chain_unlink_def unlink_cells_def ht_unchanged del: domIff)

lemma chain_lists_pop:
  assumes cl: "chain_lists m ar c S C" and i: "i \<le> unat m" and Ci: "C i = xs @ p # ys"
    and ar': "ar' = (if xs = [] then ar[i := Some (first_of ys)] else ar)"
  shows "chain_lists m ar' (unlink_cells (last_of xs) (first_of ys) c) (S - {p}) (C(i := xs @ ys))"
proof -
  define c' where "c' = unlink_cells (last_of xs) (first_of ys) c"
  note l = chain_listsD(4,5) [OF cl] and len = chain_listsD(1) [OF cl]
  have li: "linked (fld pNext c) (fld pLast c) (xs @ p # ys)" "set (xs @ p # ys) = {q \<in> S. slot_of m c q = Some i}"
    using l [OF i] Ci by simp_all
  have d: "distinct (xs @ p # ys)" using li(1) by blast
  have nb: "q \<in> S \<and> slot_of m c q = Some i" if "last_of xs = Some q \<or> first_of ys = Some q" for q
    using that li(2) by (auto dest!: last_of_in first_of_in)
  have sub: "set_option (last_of xs) \<subseteq> dom c" "set_option (first_of ys) \<subseteq> dom c"
    using nb chain_listsD(2) [OF cl] by fastforce+
  note f = fld_unlink_cells [OF sub, folded c'_def]
  have "same_list c c'" by (simp add: c'_def)
  then have s: "slot_of m c' = slot_of m c" "dom c' = dom c"
    using same_infoD(1,5) [OF same_list_info [of c c']] by (simp_all add: slot_of_h fun_eq_iff)
  have "chain_lists m ar' c' (S - {p}) (C(i := xs @ ys))"
  proof (rule chain_listsI)
    show "length ar' = Suc (unat m)" using len ar' by simp
    show "S - {p} \<subseteq> dom c'" using chain_listsD(2) [OF cl] s(2) by auto
    fix j assume j: "j \<le> unat m"
    show "ar' ! j = Some (first_of ((C(i := xs @ ys)) j))"
      using chain_listsD(3) [OF cl j] len j Ci by (auto simp: ar' nth_list_update first_of_append)
    show "set ((C(i := xs @ ys)) j) = {q \<in> S - {p}. slot_of m c' q = Some j}"
    proof (cases "j = i")
      case True
      have "set (xs @ ys) = set (xs @ p # ys) - {p}" using d by auto
      then show ?thesis unfolding li(2) s True by auto
    next
      case False
      have "p \<in> set (xs @ p # ys)" by simp
      then have "slot_of m c p = Some i" unfolding li(2) by simp
      then show ?thesis using False l(2) [OF j] s by auto
    qed
    show "linked (fld pNext c') (fld pLast c') ((C(i := xs @ ys)) j)"
    proof (cases "j = i")
      case True
      then show ?thesis using linked_unlink [OF li(1)] by (simp add: f)
    next
      case False
      have "last_of xs \<noteq> Some q \<and> first_of ys \<noteq> Some q" if "q \<in> set (C j)" for q
        using that nb [of q] l(2) [OF j] False by auto
      then have "linked (fld pNext c') (fld pLast c') (C j) = linked (fld pNext c) (fld pLast c) (C j)"
        unfolding f by (intro linked_cong) (simp add: upd_opt_apply)
      then show ?thesis using False l(1) [OF j] by simp
    qed
  qed
  then show ?thesis by (simp only: c'_def)
qed

lemma chain_unlink_ok:
  assumes "slot_chains (nTableMask ht) (arBuckets ht) (cells ht) S" "p \<in> S"
  obtains c' ar' where "chain_unlink p ht = Some (ht\<lparr>cells := c', arBuckets := ar'\<rparr>)"
    and "slot_chains (nTableMask ht) ar' c' (S - {p})" "same_list (cells ht) c'"
proof -
  let ?m = "nTableMask ht" and ?ar = "arBuckets ht" and ?c = "cells ht"
  obtain C where C: "chain_lists ?m ?ar ?c S C" using assms(1) by (auto simp: slot_chains_def)
  have "p \<in> dom ?c" using chain_listsD(2) [OF C] assms(2) by blast
  then obtain b where b: "?c p = Some b" by blast
  define i where "i = slot_index ?m (bkt_h b)"
  have i: "slot_of ?m ?c p = Some i" "i \<le> unat ?m" using b by (simp_all add: i_def)
  have "p \<in> set (C i)" using chain_listsD(5) [OF C i(2)] i assms(2) by simp
  then obtain xs ys where Ci: "C i = xs @ p # ys" by (meson split_list)
  have li: "linked (fld pNext ?c) (fld pLast ?c) (xs @ p # ys)" "set (xs @ p # ys) \<subseteq> dom ?c"
    using chain_listsD(4,5) [OF C i(2)] chain_listsD(2) [OF C] Ci by auto
  have n: "pNext b = first_of ys" "pLast b = last_of xs" using b linked_split [OF li(1)] by simp_all
  have sub: "set_option (last_of xs) \<subseteq> dom ?c" "set_option (first_of ys) \<subseteq> dom ?c"
    using li(2) by (auto dest!: last_of_in first_of_in)
  have len: "i < length ?ar" using chain_listsD(1) [OF C] i(2) by simp
  define ar' where "ar' = (if xs = [] then ?ar[i := Some (first_of ys)] else ?ar)"
  have "chain_unlink p ht = Some (ht\<lparr>cells := unlink_cells (last_of xs) (first_of ys) ?c, arBuckets := ar'\<rparr>)"
    using chain_unlink_eq [OF b] sub len unfolding n i_def [symmetric] ar'_def by simp
  then show thesis
    using that chain_lists_pop [OF C i(2) Ci ar'_def] same_list_unlink unfolding slot_chains_def by blast
qed

section \<open>The global list\<close>

definition glist_join :: "ptr option \<Rightarrow> ptr option \<Rightarrow> (ptr \<rightharpoonup> 'v bucket) \<Rightarrow> (ptr \<rightharpoonup> 'v bucket)" where
  "glist_join l n c =
     (let c = (case l of Some a \<Rightarrow> modify a (\<lambda>b. b\<lparr>pListNext := n\<rparr>) c | None \<Rightarrow> c)
      in case n of Some a \<Rightarrow> modify a (\<lambda>b. b\<lparr>pListLast := l\<rparr>) c | None \<Rightarrow> c)"

lemma fld_glist_join:
  assumes "set_option l \<subseteq> dom c" "set_option n \<subseteq> dom c"
  shows "fld pListNext (glist_join l n c) = upd_opt l n (fld pListNext c)"
    and "fld pListLast (glist_join l n c) = upd_opt n l (fld pListLast c)"
  using assms by (cases l; cases n; simp add: glist_join_def Let_def del: domIff)+

lemma same_chain_join [simp]: "same_chain c (glist_join l n c)"
  by (simp add: same_chain_def same_info_def binfo_def glist_join_def Let_def split: option.splits)

lemma glist_unlink_eq:
  assumes "cells ht p = Some b" "set_option (pListLast b) \<subseteq> dom (cells ht)" "set_option (pListNext b) \<subseteq> dom (cells ht)"
  shows "glist_unlink p ht = Some (ht\<lparr>cells := glist_join (pListLast b) (pListNext b) (cells ht),
      pListHead := (if pListLast b = None then pListNext b else pListHead ht),
      pListTail := (if pListNext b = None then pListLast b else pListTail ht),
      pInternalPointer := (if pInternalPointer ht = Some p then pListNext b else pInternalPointer ht)\<rparr>)"
  using assms
  by (cases "pListLast b"; cases "pListNext b")
    (simp_all add: glist_unlink_def glist_join_def ht_unchanged del: domIff)

lemma glist_unlink_ok:
  assumes "glist ht (xs @ p # ys)" "set (xs @ p # ys) \<subseteq> dom (cells ht)"
  obtains c' where
    "glist_unlink p ht = Some (ht\<lparr>cells := c', pListHead := first_of (xs @ ys), pListTail := last_of (xs @ ys),
        pInternalPointer := (if pInternalPointer ht = Some p then first_of ys else pInternalPointer ht)\<rparr>)"
    and "linked (fld pListNext c') (fld pListLast c') (xs @ ys)" "same_chain (cells ht) c'"
proof -
  let ?c = "cells ht"
  have li: "linked (fld pListNext ?c) (fld pListLast ?c) (xs @ p # ys)"
    and ht: "pListHead ht = first_of (xs @ p # ys)" "pListTail ht = last_of (xs @ p # ys)"
    using assms(1) by (simp_all add: glist_def)
  have "p \<in> dom ?c" using assms(2) by simp
  then obtain b where b: "?c p = Some b" by blast
  have n: "pListNext b = first_of ys" "pListLast b = last_of xs" using b linked_split [OF li] by simp_all
  have sub: "set_option (last_of xs) \<subseteq> dom ?c" "set_option (first_of ys) \<subseteq> dom ?c"
    using assms(2) by (auto dest!: last_of_in first_of_in)
  have "linked (fld pListNext (glist_join (last_of xs) (first_of ys) ?c))
      (fld pListLast (glist_join (last_of xs) (first_of ys) ?c)) (xs @ ys)"
    using linked_unlink [OF li] fld_glist_join [OF sub] by simp
  moreover have e: "(if last_of xs = None then first_of ys else pListHead ht) = first_of (xs @ ys)"
      "(if first_of ys = None then last_of xs else pListTail ht) = last_of (xs @ ys)"
    unfolding ht by (cases xs; simp add: first_of_append) (cases ys; simp add: last_of_append)
  ultimately show thesis
    using that [of "glist_join (last_of xs) (first_of ys) ?c"] glist_unlink_eq [OF b] sub same_chain_join
    unfolding n e by blast
qed

definition glist_link :: "ptr \<Rightarrow> ptr option \<Rightarrow> ptr option \<Rightarrow> (ptr \<rightharpoonup> 'v bucket) \<Rightarrow> (ptr \<rightharpoonup> 'v bucket)" where
  "glist_link p l n c =
     (let c = modify p (\<lambda>b. b\<lparr>pListLast := l, pListNext := n\<rparr>) c;
          c = (case l of Some a \<Rightarrow> modify a (\<lambda>b. b\<lparr>pListNext := Some p\<rparr>) c | None \<Rightarrow> c)
      in case n of Some a \<Rightarrow> modify a (\<lambda>b. b\<lparr>pListLast := Some p\<rparr>) c | None \<Rightarrow> c)"

lemma fld_glist_link:
  assumes "p \<in> dom c" "set_option l \<subseteq> dom c" "set_option n \<subseteq> dom c"
  shows "fld pListNext (glist_link p l n c) = upd_opt l (Some p) ((fld pListNext c)(p \<mapsto> n))"
    and "fld pListLast (glist_link p l n c) = upd_opt n (Some p) ((fld pListLast c)(p \<mapsto> l))"
  using assms by (cases l; cases n; simp add: glist_link_def Let_def del: domIff)+

lemma same_chain_link [simp]: "same_chain c (glist_link p l n c)"
  by (simp add: same_chain_def same_info_def binfo_def glist_link_def Let_def split: option.splits)

lemma CONNECT_TO_GLOBAL_DLLIST_EX_eq:
  assumes "p \<in> dom (cells ht)" "set_option l \<subseteq> dom (cells ht)" "set_option n \<subseteq> dom (cells ht)"
  shows "CONNECT_TO_GLOBAL_DLLIST_EX p l n ht = Some (ht\<lparr>cells := glist_link p l n (cells ht),
      pListHead := (if l = None then Some p else pListHead ht),
      pListTail := (if n = None then Some p else pListTail ht)\<rparr>)"
  using assms
  by (cases l; cases n)
    (simp_all add: CONNECT_TO_GLOBAL_DLLIST_EX_def glist_link_def ht_unchanged del: domIff)

lemma CONNECT_TO_GLOBAL_DLLIST_EX_ok:
  assumes "glist ht (xs @ ys)" "set (xs @ ys) \<subseteq> dom (cells ht)" "p \<in> dom (cells ht)" "p \<notin> set (xs @ ys)"
  obtains c' where
    "CONNECT_TO_GLOBAL_DLLIST_EX p (last_of xs) (first_of ys) ht =
       Some (ht\<lparr>cells := c', pListHead := first_of (xs @ p # ys), pListTail := last_of (xs @ p # ys)\<rparr>)"
    and "linked (fld pListNext c') (fld pListLast c') (xs @ p # ys)" "same_chain (cells ht) c'"
proof -
  let ?c = "cells ht"
  have li: "linked (fld pListNext ?c) (fld pListLast ?c) (xs @ ys)"
    and ht: "pListHead ht = first_of (xs @ ys)" "pListTail ht = last_of (xs @ ys)"
    using assms(1) by (simp_all add: glist_def)
  have sub: "set_option (last_of xs) \<subseteq> dom ?c" "set_option (first_of ys) \<subseteq> dom ?c"
    using assms(2) by (auto dest!: last_of_in first_of_in)
  have e: "(if last_of xs = None then Some p else pListHead ht) = first_of (xs @ p # ys)"
      "(if first_of ys = None then Some p else pListTail ht) = last_of (xs @ p # ys)"
    unfolding ht by (cases xs; simp add: first_of_append) (cases ys; simp add: last_of_append)
  have "linked (fld pListNext (glist_link p (last_of xs) (first_of ys) ?c))
      (fld pListLast (glist_link p (last_of xs) (first_of ys) ?c)) (xs @ p # ys)"
    using linked_insert [OF li assms(4)] fld_glist_link [OF assms(3) sub] by simp
  then show thesis
    using that [of "glist_link p (last_of xs) (first_of ys) ?c"]
      CONNECT_TO_GLOBAL_DLLIST_EX_eq [OF assms(3) sub] same_chain_link unfolding e by blast
qed

end
