(* ===== verification/Zend_Hash_Steps.thy ===== *)
theory Zend_Hash_Steps
  imports Zend_Hash_Inv "HOL-Library.AList"
begin

text \<open>
  The steps of the hash table operations, with their effect on the whole invariant
  \<open>stored\<close>: removing a bucket, growing the array of slots, looking a key up, replacing the data
  of a bucket, linking a new bucket. Each lemma says that the step returns and how the list
  of buckets \<open>L\<close> and the entries \<open>kvs\<close> change.
\<close>

section \<open>Reading the invariant\<close>

lemma hpoke_Some [simp]:
  "cells ht p = Some b \<Longrightarrow> hpoke p f ht = Some (ht\<lparr>cells := (cells ht)(p \<mapsto> f b)\<rparr>)"
  by (simp add: hpoke_def poke_def)

lemma modify_Some: "c p = Some b \<Longrightarrow> modify p f c = c(p \<mapsto> f b)"
  by (simp add: modify_def)

lemma storedD:
  assumes "stored ht L kvs"
  shows "wf_list ht L" "sized ht" "slot_chains (nTableMask ht) (arBuckets ht) (cells ht) (set L)"
    and "\<forall>p b. cells ht p = Some b \<longrightarrow> bucket_ok p b"
    and "map (fld bentry (cells ht)) L = map Some kvs" "distinct (map fst kvs)"
  using assms by (auto simp: stored_def)

lemma tableD: "table ht L kvs \<Longrightarrow> stored ht L kvs" "table ht L kvs \<Longrightarrow> next_free_ok (nNextFreeElement ht) kvs"
  by (simp_all add: table_def)

lemma stored_cong:
  assumes "stored ht L kvs" "cells ht' = cells ht" "arBuckets ht' = arBuckets ht"
    and "nTableMask ht' = nTableMask ht" "nTableSize ht' = nTableSize ht"
    and "pListHead ht' = pListHead ht" "pListTail ht' = pListTail ht" "nNumOfElements ht' = nNumOfElements ht"
    and "dataBlocks ht' = dataBlocks ht" "set_option (pInternalPointer ht') \<subseteq> set L"
  shows "stored ht' L kvs"
  using assms(1,10) unfolding stored_def wf_list_def glist_def sized_def assms(2-9) by blast

lemma wf_listD:
  assumes "wf_list ht L"
  shows "glist ht L" "set L = dom (cells ht)" "nNumOfElements ht = of_nat (length L)" "length L < 2 ^ 32"
    and "set_option (pInternalPointer ht) \<subseteq> set L" "dataBlocks ht = blocks (cells ht) L" "distinct L"
  using assms by (auto simp: wf_list_def glist_def)

lemma wf_list_cong:
  assumes "wf_list ht L" "cells ht' = cells ht" "pListHead ht' = pListHead ht" "pListTail ht' = pListTail ht"
    and "nNumOfElements ht' = nNumOfElements ht" "dataBlocks ht' = dataBlocks ht" "pInternalPointer ht' = pInternalPointer ht"
  shows "wf_list ht' L"
  using assms(1) unfolding wf_list_def glist_def assms(2-) by blast

lemma stored_distinct: "stored ht L kvs \<Longrightarrow> distinct L"
  using storedD(1) wf_listD(7) by blast

lemma stored_length: "stored ht L kvs \<Longrightarrow> length kvs = length L"
  using storedD(5) by (metis length_map)

text \<open>A bucket and its entry stand at the same position.\<close>

lemma entries_split:
  assumes "map (fld bentry c) (xs @ p # ys) = map Some kvs"
  obtains kxs b kys where "kvs = kxs @ bentry b # kys" "c p = Some b"
    and "map (fld bentry c) xs = map Some kxs" "map (fld bentry c) ys = map Some kys"
proof -
  have "map Some kvs = map (fld bentry c) xs @ fld bentry c p # map (fld bentry c) ys"
    using assms by simp
  then obtain kxs r where kvs: "kvs = kxs @ r" "map (fld bentry c) xs = map Some kxs"
      "fld bentry c p # map (fld bentry c) ys = map Some r"
    by (subst (asm) map_eq_append_conv) auto
  then obtain e kys where "r = e # kys" "Some e = fld bentry c p" "map (fld bentry c) ys = map Some kys"
    by (cases r) auto
  moreover obtain b where "c p = Some b" "e = bentry b"
    using \<open>Some e = fld bentry c p\<close> by (cases "c p") (auto simp: fld_def)
  ultimately show thesis using kvs that by blast
qed

lemma entries_member:
  assumes "map (fld bentry c) L = map Some kvs" "p \<in> set L"
  obtains b where "c p = Some b" "bentry b \<in> set kvs"
proof -
  obtain xs ys where "L = xs @ p # ys" using assms(2) by (meson split_list)
  with assms(1) show thesis using that by (metis entries_split in_set_conv_decomp)
qed

section \<open>Removing a bucket\<close>

definition settings :: "'v HashTable \<Rightarrow> bool \<times> bool \<times> byte \<times> bool" where
  "settings ht = (pDestructor ht, persistent ht, nApplyCount ht, bApplyProtection ht)"

text \<open>The data handed to the destructor, when the table has one.\<close>

definition dtor_log :: "'v HashTable \<Rightarrow> 'v list \<Rightarrow> 'v list" where
  "dtor_log ht vs = (if pDestructor ht then destroyed ht @ vs else destroyed ht)"

lemma blocks_remove:
  assumes "distinct (xs @ p # ys)" "c p = Some b"
  shows "blocks (c(p := None)) (xs @ ys) = blocks c (xs @ p # ys) - (if out_of_line (pData b) then 1 else 0)"
proof -
  have "filter (\<lambda>q. fld (\<lambda>b. out_of_line (pData b)) (c(p := None)) q = Some True) zs =
      filter (\<lambda>q. fld (\<lambda>b. out_of_line (pData b)) c q = Some True) zs" if "p \<notin> set zs" for zs
    using that by (auto intro!: filter_cong)
  with assms show ?thesis by (simp add: blocks_def)
qed

lemma blocks_same: "same_info c c' \<Longrightarrow> blocks c' L = blocks c L"
  by (simp add: blocks_def same_infoD(4))

lemma next_free_ok_subset:
  "next_free_ok n kvs \<Longrightarrow> fst ` set kvs' \<subseteq> fst ` set kvs \<Longrightarrow> next_free_ok n kvs'"
  unfolding next_free_ok_def by blast

lemma of_nat_pred: "(of_nat (Suc n) :: uint) - 1 = of_nat n"
  by simp

lemma bucket_delete_ok:
  assumes t: "stored ht (xs @ p # ys) (kxs @ (k, v) # kys)" and len: "length kxs = length xs"
  obtains ht' where "i_zend_hash_bucket_delete p ht = Some ht'"
    and "stored ht' (xs @ ys) (kxs @ kys)" "settings ht' = settings ht"
    and "destroyed ht' = dtor_log ht [v]" "nNextFreeElement ht' = nNextFreeElement ht"
    and "pInternalPointer ht' = (if pInternalPointer ht = Some p then first_of ys else pInternalPointer ht)"
    and "nTableMask ht' = nTableMask ht"
proof -
  let ?L = "xs @ p # ys"
  note w = wf_listD [OF storedD(1) [OF t]]
  obtain c1 ar1 where u: "chain_unlink p ht = Some (ht\<lparr>cells := c1, arBuckets := ar1\<rparr>)"
    and ch1: "slot_chains (nTableMask ht) ar1 c1 (set ?L - {p})" and s1: "same_list (cells ht) c1"
    by (rule chain_unlink_ok [OF storedD(3) [OF t], of p]) simp
  let ?h1 = "ht\<lparr>cells := c1, arBuckets := ar1\<rparr>"
  have d1: "dom c1 = dom (cells ht)" using s1 by (intro same_infoD(5) same_list_info)
  have g1: "glist ?h1 ?L" by (rule glist_same_list [OF w(1)]) (use s1 in simp_all)
  obtain c2 where g: "glist_unlink p ?h1 = Some (?h1\<lparr>cells := c2, pListHead := first_of (xs @ ys), pListTail := last_of (xs @ ys),
        pInternalPointer := (if pInternalPointer ?h1 = Some p then first_of ys else pInternalPointer ?h1)\<rparr>)"
    and li2: "linked (fld pListNext c2) (fld pListLast c2) (xs @ ys)" and s2: "same_chain c1 c2"
    by (rule glist_unlink_ok [OF g1]) (use w(2) d1 in simp_all)
  have i2: "same_info (cells ht) c2"
    using s1 s2 by (simp add: same_list_def same_chain_def same_info_def)
  note inf = same_infoD [OF i2]
  obtain b where b: "c2 p = Some b" using w(2) inf(5) by auto
  have e: "map (fld bentry c2) xs = map Some kxs" "map (fld bentry c2) ys = map Some kys" "bentry b = (k, v)"
    using storedD(5) [OF t, folded inf(3)] len fld_Some [of c2 p b bentry, OF b]
    by (auto simp: append_eq_append_conv)
  let ?c = "c2(p := None)"
  let ?h = "ht\<lparr>cells := ?c, arBuckets := ar1, pListHead := first_of (xs @ ys), pListTail := last_of (xs @ ys),
      pInternalPointer := (if pInternalPointer ht = Some p then first_of ys else pInternalPointer ht),
      nNumOfElements := nNumOfElements ht - 1, destroyed := dtor_log ht [v],
      dataBlocks := dataBlocks ht - (if out_of_line (pData b) then 1 else 0)\<rparr>"
  have v: "zval_of (pData b) = v" using e(3) by (simp add: bentry_def)
  have del: "i_zend_hash_bucket_delete p ht = Some ?h"
    using u g b by (simp add: i_zend_hash_bucket_delete_def release_bucket_def Let_def call_dtor_def free_data_def
        dtor_log_def v)
  have notin: "p \<notin> set xs" "p \<notin> set ys" "set xs \<inter> set ys = {}" "distinct xs" "distinct ys" using w(7) by auto
  have fc: "map (fld sel ?c) zs = map (fld sel c2) zs" if "p \<notin> set zs" for zs and sel :: "'a bucket \<Rightarrow> 'b"
    using that by (auto simp: map_eq_conv)
  have "linked (fld pListNext ?c) (fld pListLast ?c) (xs @ ys)"
    using li2 notin by (subst linked_cong [where nx = "fld pListNext c2" and pv = "fld pListLast c2"]) auto
  moreover have "set (xs @ ys) = dom ?c" using w(2) inf(5) notin by auto
  moreover have "dataBlocks ?h = blocks ?c (xs @ ys)"
    using blocks_remove [of xs p ys c2 b, OF w(7) b] blocks_same [OF i2] w(6) by simp
  moreover have "set_option (pInternalPointer ?h) \<subseteq> set (xs @ ys)"
    using w(5) by (auto dest!: first_of_in)
  ultimately have wf: "wf_list ?h (xs @ ys)"
    using w(3,4) by (auto simp: wf_list_def glist_def)
  have ch: "slot_chains (nTableMask ht) ar1 ?c (set (xs @ ys))"
  proof (rule chains_cong [where c = c2])
    have "set ?L - {p} = set (xs @ ys)" using notin by auto
    then show "slot_chains (nTableMask ht) ar1 c2 (set (xs @ ys))" using chains_same_chain [OF ch1 s2] by simp
  qed (use notin in auto)
  have "stored ?h (xs @ ys) (kxs @ kys)"
    unfolding stored_def using wf ch storedD(2,6) [OF t] same_info_ok [OF i2 storedD(4) [OF t]] e fc notin b inf(5)
    by (auto simp: sized_def)
  then show thesis using that del by (simp add: settings_def)
qed

section \<open>Growing\<close>

lemma rehash_loop_ok:
  assumes "glist ht L" "set L \<subseteq> dom (cells ht)" "aged (nTableMask ht) (arBuckets ht) (cells ht) []"
  obtains c' ar' where
    "iterate (\<lambda>p ht. do { ht \<leftarrow> rehash_bucket p ht; b \<leftarrow> cells ht p; Some (ht, pListNext b) }) (pListHead ht) ht
       = Some (ht\<lparr>cells := c', arBuckets := ar'\<rparr>)"
    and "aged (nTableMask ht) ar' c' L" "same_list (cells ht) c'"
proof -
  let ?body = "\<lambda>p ht. do { ht \<leftarrow> rehash_bucket p ht; b \<leftarrow> cells ht p; Some (ht, pListNext b) }"
  define I where "I xs s \<longleftrightarrow> (\<exists>zs c' ar'. L = zs @ xs \<and> s = ht\<lparr>cells := c', arBuckets := ar'\<rparr> \<and>
      aged (nTableMask ht) ar' c' zs \<and> same_list (cells ht) c')" for xs s
  have li: "linked (fld pListNext (cells ht)) (fld pListLast (cells ht)) L" "pListHead ht = first_of L"
    using assms(1) by (simp_all add: glist_def)
  have "\<exists>s'. iterate ?body (first_of L) ht = Some s' \<and> I [] s'"
  proof (rule iterate_rule [where I = I])
    show "I L ht" unfolding I_def
      by (rule exI [of _ "[]"], rule exI [of _ "cells ht"], rule exI [of _ "arBuckets ht"]) (use assms(3) in simp)
    fix a xs and s :: "'a HashTable" assume "I (a # xs) s"
    then obtain zs c' ar' where z: "L = zs @ a # xs" "s = ht\<lparr>cells := c', arBuckets := ar'\<rparr>"
      "aged (nTableMask ht) ar' c' zs" "same_list (cells ht) c'" unfolding I_def by blast
    have ad: "a \<in> dom c'" "a \<notin> set zs"
      using z(1,4) assms(2) linked_distinct [OF li(1)] same_infoD(5) [OF same_list_info [OF z(4)]] by auto
    obtain c'' ar'' where r: "rehash_bucket a s = Some (s\<lparr>cells := c'', arBuckets := ar''\<rparr>)"
      "aged (nTableMask s) ar'' c'' (zs @ [a])" "same_list (cells s) c''"
      by (rule rehash_bucket_aged [of s zs a]) (use z(2,3) ad in simp_all)
    have sl: "same_list (cells ht) c''" using z(2,4) r(3) same_list_trans by auto
    then have "fld pListNext c'' a = Some (first_of xs)"
      using linked_split(1) li(1) z(1) unfolding same_list_def by metis
    then obtain b where b: "c'' a = Some b" "pListNext b = first_of xs" by (auto simp: fld_def)
    have "I xs (s\<lparr>cells := c'', arBuckets := ar''\<rparr>)" unfolding I_def
      by (rule exI [of _ "zs @ [a]"], rule exI [of _ c''], rule exI [of _ ar'']) (use z r(2) sl in simp)
    then show "\<exists>s' n. ?body a s = Some (s', n) \<and> (n = None \<and> I [] s' \<or> n = first_of xs \<and> I xs s')"
      using r(1) b by simp
  qed simp
  then show thesis using that li(2) unfolding I_def by auto
qed

lemma unat_pow2: "k < 32 \<Longrightarrow> unat ((2 :: uint) ^ k) = 2 ^ k"
proof -
  assume "k < 32"
  then have "(2 :: nat) ^ k < 2 ^ 32" by (intro power_strict_increasing) auto
  moreover have "((2 :: uint) ^ k) = of_nat (2 ^ k)" by simp
  ultimately show ?thesis by (simp only: unat_of_nat) simp
qed

lemma sizedD:
  assumes "sized ht"
  shows "8 \<le> unat (nTableSize ht)" "Suc (unat (nTableSize ht - 1)) = unat (nTableSize ht)"
    and "nTableSize ht - 1 \<noteq> 0"
proof -
  obtain k where k: "3 \<le> k" "k \<le> 31" "nTableSize ht = 2 ^ k" using assms by (auto simp: sized_def)
  then have u: "unat (nTableSize ht) = 2 ^ k" by (simp add: unat_pow2)
  have "(2 :: nat) ^ 3 \<le> 2 ^ k" using k(1) by (intro power_increasing) auto
  then show e: "8 \<le> unat (nTableSize ht)" using u by simp
  then have "(1 :: uint) \<le> nTableSize ht" by (simp add: word_le_nat_alt)
  then have "unat (nTableSize ht - 1) = unat (nTableSize ht) - 1" by (simp add: unat_sub)
  then show "Suc (unat (nTableSize ht - 1)) = unat (nTableSize ht)" "nTableSize ht - 1 \<noteq> 0"
    using e by (auto simp: unat_eq_0 [symmetric])
qed

lemma sized_double:
  assumes "sized ht" "push_bit 1 (nTableSize ht) > 0"
  shows "\<exists>k. 3 \<le> k \<and> k \<le> 31 \<and> push_bit 1 (nTableSize ht) = 2 ^ k"
    and "unat (push_bit 1 (nTableSize ht)) = 2 * unat (nTableSize ht)"
proof -
  obtain k where k: "3 \<le> k" "k \<le> 31" "nTableSize ht = 2 ^ k" using assms by (auto simp: sized_def)
  then have p: "push_bit 1 (nTableSize ht) = 2 ^ Suc k" by (simp add: push_bit_eq_mult)
  have "k \<noteq> 31"
  proof
    assume "k = 31"
    then have "push_bit 1 (nTableSize ht) = 0" using p by simp
    then show False using assms(2) by simp
  qed
  then have "Suc k \<le> 31" using k by simp
  then show "\<exists>k. 3 \<le> k \<and> k \<le> 31 \<and> push_bit 1 (nTableSize ht) = 2 ^ k" using p k(1) by (intro exI [of _ "Suc k"]) simp
  show "unat (push_bit 1 (nTableSize ht)) = 2 * unat (nTableSize ht)"
    using p k \<open>Suc k \<le> 31\<close> unat_pow2 [of k] unat_pow2 [of "Suc k"]
    by (simp add: mult.commute)
qed

text \<open>What growing and linking leave alone.\<close>

definition outer :: "'v HashTable \<Rightarrow> (bool \<times> bool \<times> byte \<times> bool) \<times> 'v list \<times> ulong \<times> ptr option" where
  "outer ht = (settings ht, destroyed ht, nNextFreeElement ht, pInternalPointer ht)"

lemma stored_rebuild:
  assumes st: "stored ht L kvs" and sz: "sized ht'" and sl: "same_list (cells ht) (cells ht')"
    and ch: "slot_chains (nTableMask ht') (arBuckets ht') (cells ht') (set L)"
    and eq: "pListHead ht' = pListHead ht" "pListTail ht' = pListTail ht" "nNumOfElements ht' = nNumOfElements ht"
      "pInternalPointer ht' = pInternalPointer ht" "dataBlocks ht' = dataBlocks ht"
  shows "stored ht' L kvs"
proof -
  note w = wf_listD [OF storedD(1) [OF st]] and i = same_list_info [OF sl]
  have "glist ht' L" using w(1) sl eq(1,2) by (rule glist_same_list)
  then have "wf_list ht' L"
    unfolding wf_list_def eq using w(2-6) same_infoD(5) [OF i] blocks_same [OF i] by simp
  moreover have "map (fld bentry (cells ht')) L = map Some kvs" using storedD(5) [OF st] same_infoD(3) [OF i] by simp
  ultimately show ?thesis
    unfolding stored_def using sz ch storedD(6) [OF st] same_info_ok [OF i storedD(4) [OF st]] by blast
qed

lemma rehash_ok:
  assumes st: "wf_list ht L" and sz: "unat (nTableSize ht) = length (arBuckets ht)"
      "Suc (unat (nTableMask ht)) = unat (nTableSize ht)" and ne: "nNumOfElements ht \<noteq> 0"
  obtains c' ar' where "zend_hash_rehash ht = Some (SUCCESS, ht\<lparr>cells := c', arBuckets := ar'\<rparr>)"
    and "aged (nTableMask ht) ar' c' L" "same_list (cells ht) c'"
proof -
  note w = wf_listD [OF st]
  let ?h = "ht\<lparr>arBuckets := replicate (unat (nTableSize ht)) (Some None)\<rparr>"
  have c: "clear_slots ht = Some ?h" using sz by (simp add: clear_slots_def)
  have g: "glist ?h L" using w(1) by (simp add: glist_def)
  have n: "aged (nTableMask ht) (arBuckets ?h) (cells ?h) []"
    using aged_Nil [of "nTableMask ht" "cells ht"] sz(2) by simp
  obtain c' ar' where "iterate (\<lambda>p ht. do { ht \<leftarrow> rehash_bucket p ht; b \<leftarrow> cells ht p; Some (ht, pListNext b) })
        (pListHead ?h) ?h = Some (?h\<lparr>cells := c', arBuckets := ar'\<rparr>)"
      "aged (nTableMask ?h) ar' c' L" "same_list (cells ?h) c'"
    by (rule rehash_loop_ok [OF g]) (use w(2) n in simp_all)
  then show thesis using that [of ar' c'] ne c by (simp add: zend_hash_rehash_def)
qed

lemma resize_aged:
  assumes st: "stored ht L kvs" and m: "nTableMask ht \<noteq> 0"
  obtains ht' where "ZEND_HASH_IF_FULL_DO_RESIZE ht = Some ht'" "stored ht' L kvs" "nTableMask ht' \<noteq> 0" "outer ht' = outer ht"
    "same_list (cells ht) (cells ht')" "ht' = ht \<or> aged (nTableMask ht') (arBuckets ht') (cells ht') L"
proof (cases "nNumOfElements ht > nTableSize ht \<and> push_bit 1 (nTableSize ht) > 0")
  case False
  then have "ZEND_HASH_IF_FULL_DO_RESIZE ht = Some ht"
    by (auto simp: ZEND_HASH_IF_FULL_DO_RESIZE_def zend_hash_do_resize_def)
  then show thesis using that st m same_list_refl by blast
next
  case True
  let ?n = "push_bit 1 (nTableSize ht)"
  define t where "t = take (unat ?n) (arBuckets ht @ replicate (unat ?n) None)"
  let ?h = "ht\<lparr>arBuckets := t, nTableSize := ?n, nTableMask := ?n - 1\<rparr>"
  have sz: "sized ?h" using sized_double(1) [OF storedD(2) [OF st]] True by (simp add: sized_def)
  note s = sizedD [OF sz, simplified]
  have w: "wf_list ?h L" by (rule wf_list_cong [OF storedD(1) [OF st]]) simp_all
  obtain c' ar' where r: "zend_hash_rehash ?h = Some (SUCCESS, ?h\<lparr>cells := c', arBuckets := ar'\<rparr>)"
      "aged (nTableMask ?h) ar' c' L" "same_list (cells ?h) c'"
    by (rule rehash_ok [OF w]) (use s True in \<open>auto simp: t_def\<close>)
  have "ZEND_HASH_IF_FULL_DO_RESIZE ht = Some (?h\<lparr>cells := c', arBuckets := ar'\<rparr>)"
    using r(1) True by (simp add: ZEND_HASH_IF_FULL_DO_RESIZE_def zend_hash_do_resize_def Let_def t_def)
  moreover have "stored (?h\<lparr>cells := c', arBuckets := ar'\<rparr>) L kvs"
    by (rule stored_rebuild [OF st]) (use sz r aged_chains [OF r(2)] in \<open>simp_all add: sized_def\<close>)
  ultimately show thesis using that s(3) r(2,3) by (simp add: outer_def settings_def)
qed

lemma resize_ok:
  assumes st: "stored ht L kvs" and m: "nTableMask ht \<noteq> 0"
  obtains ht' where "ZEND_HASH_IF_FULL_DO_RESIZE ht = Some ht'" "stored ht' L kvs" "nTableMask ht' \<noteq> 0" "outer ht' = outer ht"
  by (rule resize_aged [OF assms])


lemma CHECK_INIT_ok:
  assumes "stored ht L kvs"
  shows "stored (CHECK_INIT ht) L kvs" "nTableMask (CHECK_INIT ht) \<noteq> 0" "outer (CHECK_INIT ht) = outer ht"
    and "cells (CHECK_INIT ht) = cells ht"
proof -
  note sz = storedD(2) [OF assms] note s = sizedD [OF sz]
  show "nTableMask (CHECK_INIT ht) \<noteq> 0" using s(3) by (simp add: CHECK_INIT_def)
  show "outer (CHECK_INIT ht) = outer ht" "cells (CHECK_INIT ht) = cells ht"
    by (simp_all add: CHECK_INIT_def outer_def settings_def)
  show "stored (CHECK_INIT ht) L kvs"
  proof (cases "nTableMask ht = 0")
    case True
    then have "L = []" using sz s(3) wf_listD(2) [OF storedD(1) [OF assms]] by (auto simp: sized_def)
    have "slot_chains (nTableSize ht - 1) (replicate (unat (nTableSize ht)) (Some None)) (cells ht) {}"
      using chains_Nil [of "nTableSize ht - 1" "cells ht"] s(2) by simp
    then show ?thesis
      by (intro stored_rebuild [OF assms]) (use True sz \<open>L = []\<close> in \<open>simp_all add: CHECK_INIT_def sized_def\<close>)
  qed (use assms in \<open>simp add: CHECK_INIT_def\<close>)
qed

section \<open>Lookup\<close>

definition key_hash :: "hkey \<Rightarrow> ulong" where
  "key_hash k = (case k of IntKey h \<Rightarrow> h | StrKey s \<Rightarrow> zend_inline_hash_func s)"

definition ptr_of :: "'v HashTable \<Rightarrow> ptr list \<Rightarrow> hkey \<Rightarrow> ptr option" where
  "ptr_of ht L k = find (\<lambda>p. fld bkey (cells ht) p = Some k) L"

text \<open>A string argument: \<open>len\<close> is its length, which includes the terminating NUL and so is positive.\<close>

definition str_arg :: "key_ptr \<Rightarrow> nat \<Rightarrow> bool" where
  "str_arg key len \<longleftrightarrow> len = length (chars key) \<and> 0 < len"

lemma bucket_ok_hash: "bucket_ok p b \<Longrightarrow> bkt_h b = key_hash (bkey b)"
  by (auto simp: bucket_ok_def bkey_def key_hash_def split: if_splits)

lemma key_match_iff:
  assumes "bucket_ok p b" "str_arg key len"
  shows "key_match key len (zend_inline_hash_func (chars key)) b \<longleftrightarrow> bkey b = StrKey (chars key)"
  using assms by (auto simp: key_match_def memcmp_eq_def bkey_def bucket_ok_def str_arg_def split: if_splits)

lemma index_match_iff: "index_match h b \<longleftrightarrow> bkey b = IntKey h"
  by (auto simp: index_match_def bkey_def)

lemma del_match_str_iff:
  assumes "bucket_ok p b" "str_arg key len"
  shows "del_match key len (zend_inline_hash_func (chars key)) b \<longleftrightarrow> bkey b = StrKey (chars key)"
  using assms by (auto simp: del_match_def memcmp_eq_def bkey_def bucket_ok_def str_arg_def split: if_splits)

lemma del_match_int_iff: "del_match key 0 h b \<longleftrightarrow> bkey b = IntKey h"
  by (auto simp: del_match_def bkey_def)

lemma fld_bkey_entries:
  assumes "map (fld bentry c) L = map Some kvs"
  shows "map (fld bkey c) L = map (Some \<circ> fst) kvs"
proof -
  have "fld bkey c p = map_option fst (fld bentry c p)" for p
    by (simp add: fld_def option.map_comp comp_def bentry_def)
  then have "map (fld bkey c) L = map (map_option fst) (map (fld bentry c) L)" by simp
  also have "\<dots> = map (Some \<circ> fst) kvs" unfolding assms by simp
  finally show ?thesis .
qed

lemma ptr_of_None:
  assumes "stored ht L kvs"
  shows "ptr_of ht L k = None \<longleftrightarrow> k \<notin> fst ` set kvs"
proof -
  have "Some k \<in> fld bkey (cells ht) ` set L \<longleftrightarrow> Some k \<in> (Some \<circ> fst) ` set kvs"
    using fld_bkey_entries [OF storedD(5) [OF assms]] by (metis set_map)
  then show ?thesis unfolding ptr_of_def find_None_iff by force
qed

lemma ptr_of_Some:
  assumes "stored ht L kvs" "ptr_of ht L k = Some p"
  obtains xs ys kxs v kys where "L = xs @ p # ys" "kvs = kxs @ (k, v) # kys" "length kxs = length xs"
    and "k \<notin> fst ` set kxs" "k \<notin> fst ` set kys"
proof -
  have p: "p \<in> set L" "fld bkey (cells ht) p = Some k"
    using assms(2) by (auto simp: ptr_of_def find_Some_iff)
  then obtain xs ys where L: "L = xs @ p # ys" by (meson split_list)
  obtain kxs b kys where k: "kvs = kxs @ bentry b # kys" "cells ht p = Some b"
      "map (fld bentry (cells ht)) xs = map Some kxs"
    using entries_split storedD(5) [OF assms(1)] unfolding L by metis
  then have "fst (bentry b) = k" using p(2) by (simp add: bentry_def)
  moreover have "length kxs = length xs" using k(3) by (metis length_map)
  moreover have "fst (bentry b) \<notin> fst ` set kxs" "fst (bentry b) \<notin> fst ` set kys"
    using storedD(6) [OF assms(1)] k(1) by auto
  ultimately show thesis using that [of xs ys kxs "snd (bentry b)" kys] L k(1) by (metis prod.collapse)
qed

lemma ptr_of_unique:
  assumes st: "stored ht L kvs" and p: "p \<in> set L" "fld bkey (cells ht) p = Some k"
  shows "ptr_of ht L k = Some p"
proof -
  have "ptr_of ht L k \<noteq> None" using p by (auto simp: ptr_of_def find_None_iff)
  then obtain q where q: "ptr_of ht L k = Some q" by blast
  then have q': "q \<in> set L" "fld bkey (cells ht) q = Some k" by (auto simp: ptr_of_def find_Some_iff)
  have "distinct (map (fld bkey (cells ht)) L)"
    using storedD(6) [OF st] unfolding fld_bkey_entries [OF storedD(5) [OF st]]
    by (metis (no_types, lifting) distinct_map inj_Some inj_on_subset list.map_comp subset_UNIV)
  then have "inj_on (fld bkey (cells ht)) (set L)" by (simp add: distinct_map)
  then have "p = q" using p q' by (metis inj_onD)
  with q show ?thesis by simp
qed

lemma lookup_ok:
  assumes st: "stored ht L kvs"
    and test: "\<And>p b. cells ht p = Some b \<Longrightarrow> bucket_ok p b \<Longrightarrow> test b \<longleftrightarrow> bkey b = k"
  shows "chain_search ht (slot_index (nTableMask ht) (key_hash k)) test = Some (ptr_of ht L k)"
proof -
  let ?i = "slot_index (nTableMask ht) (key_hash k)"
  obtain r where r: "chain_search ht ?i test = Some r"
    and s: "\<forall>p. r = Some p \<longrightarrow> p \<in> set L \<and> (\<exists>b. cells ht p = Some b \<and> test b)"
    and n: "r = None \<longrightarrow> (\<forall>p b. p \<in> set L \<longrightarrow> slot_of (nTableMask ht) (cells ht) p = Some ?i \<longrightarrow>
      cells ht p = Some b \<longrightarrow> \<not> test b)"
    using chain_search_ok [OF storedD(3) [OF st] slot_index_le, of "key_hash k" test] by blast
  show ?thesis
  proof (cases r)
    case None
    have "fld bkey (cells ht) p \<noteq> Some k" if p: "p \<in> set L" for p
    proof
      assume "fld bkey (cells ht) p = Some k"
      then obtain b where b: "cells ht p = Some b" "bkey b = k" by (auto simp: fld_def)
      have ok: "bucket_ok p b" using storedD(4) [OF st] b by blast
      then have "slot_of (nTableMask ht) (cells ht) p = Some ?i" using b bucket_ok_hash [OF ok] by simp
      then show False using n None p b test ok by blast
    qed
    then have "ptr_of ht L k = None" by (auto simp: ptr_of_def find_None_iff)
    then show ?thesis using r None by simp
  next
    case (Some p)
    then obtain b where b: "p \<in> set L" "cells ht p = Some b" "test b" using s by blast
    then have "bkey b = k" using test storedD(4) [OF st] by blast
    then have "ptr_of ht L k = Some p" using ptr_of_unique [OF st b(1)] b(2) by simp
    then show ?thesis using r Some by simp
  qed
qed

section \<open>Replacing data and linking a new bucket\<close>

lemma blocks_update:
  assumes "distinct (xs @ p # ys)" "c p = Some b"
  shows "blocks (modify p (\<lambda>b. b\<lparr>pData := d\<rparr>) c) (xs @ p # ys) =
    blocks c (xs @ p # ys) - (if out_of_line (pData b) then 1 else 0) + (if out_of_line d then 1 else 0)"
proof -
  let ?c = "modify p (\<lambda>b. b\<lparr>pData := d\<rparr>) c" and ?o = "\<lambda>b. out_of_line (pData b)"
  have f: "fld ?o ?c = (fld ?o c)(p \<mapsto> out_of_line d)" using assms(2) by (intro fld_modify_set) auto
  have "filter (\<lambda>q. fld ?o ?c q = Some True) zs = filter (\<lambda>q. fld ?o c q = Some True) zs" if "p \<notin> set zs" for zs
    unfolding f using that by (auto intro!: filter_cong)
  with assms f show ?thesis by (simp add: blocks_def)
qed

lemma set_data_ok:
  assumes st: "stored ht (xs @ p # ys) (kxs @ (k, v0) # kys)" and len: "length kxs = length xs"
    and b: "cells ht p = Some b"
  shows "stored (ht\<lparr>cells := modify p (\<lambda>b. b\<lparr>pData := d\<rparr>) (cells ht),
      dataBlocks := dataBlocks ht - (if out_of_line (pData b) then 1 else 0) + (if out_of_line d then 1 else 0)\<rparr>)
    (xs @ p # ys) (kxs @ (k, zval_of d) # kys)" (is "stored ?h ?L ?kvs")
proof -
  note w = wf_listD [OF storedD(1) [OF st]]
  let ?c = "modify p (\<lambda>b. b\<lparr>pData := d\<rparr>) (cells ht)"
  have p: "p \<in> dom (cells ht)" "p \<notin> set xs" "p \<notin> set ys" using b w(7) by auto
  have e: "map (fld bentry (cells ht)) xs = map Some kxs" "map (fld bentry (cells ht)) ys = map Some kys" "bentry b = (k, v0)"
    using storedD(5) [OF st] len fld_Some [of "cells ht" p b bentry, OF b] by (auto simp: append_eq_append_conv)
  have "fld bentry ?c = (fld bentry (cells ht))(p \<mapsto> (k, zval_of d))"
    using b e(3) by (auto simp: fld_def modify_def bentry_def bkey_def fun_eq_iff)
  then have "map (fld bentry ?c) ?L = map Some ?kvs" using e p by (simp add: map_eq_conv [symmetric] map_fun_upd)
  moreover have "wf_list ?h ?L"
    unfolding wf_list_def using w(1-6) blocks_update [of xs p ys "cells ht" b d, OF w(7) b] by (simp add: glist_def)
  moreover have "\<forall>q c. ?c q = Some c \<longrightarrow> bucket_ok q c"
    using storedD(4) [OF st] b by (auto simp: modify_def bucket_ok_def)
  moreover have "slot_chains (nTableMask ht) (arBuckets ht) ?c (set ?L)"
    by (rule chains_cong [OF storedD(3) [OF st]]) simp
  moreover have "sized ?h" using storedD(2) [OF st] b by (auto simp: sized_def)
  ultimately show ?thesis unfolding stored_def using storedD(6) [OF st] by simp
qed

lemma replace_data_ok:
  assumes st: "stored ht (xs @ p # ys) (kxs @ (k, v0) # kys)" and len: "length kxs = length xs"
  obtains ht' where "replace_data p v nDataSize ht = Some (SUCCESS, Some p, ht')"
    and "stored ht' (xs @ p # ys) (kxs @ (k, v) # kys)" "settings ht' = settings ht"
    and "destroyed ht' = dtor_log ht [v0]" "nNextFreeElement ht' = nNextFreeElement ht"
    and "pInternalPointer ht' = pInternalPointer ht" "nTableMask ht' = nTableMask ht"
proof -
  have "p \<in> dom (cells ht)" using wf_listD(2) [OF storedD(1) [OF st]] by auto
  then obtain b where b: "cells ht p = Some b" by blast
  have v0: "zval_of (pData b) = v0"
    using storedD(5) [OF st] len fld_Some [of "cells ht" p b bentry, OF b] by (auto simp: append_eq_append_conv bentry_def)
  define d where "d = (if nDataSize = sizeof_ptr then InPtr v else OutOfLine v)"
  define h where "h = ht\<lparr>cells := modify p (\<lambda>b. b\<lparr>pData := d\<rparr>) (cells ht),
      dataBlocks := dataBlocks ht - (if out_of_line (pData b) then 1 else 0) + (if out_of_line d then 1 else 0)\<rparr>"
  have "stored h (xs @ p # ys) (kxs @ (k, v) # kys)"
    using set_data_ok [OF st len b, of d] by (simp add: h_def d_def split: if_splits)
  then have s: "stored (h\<lparr>destroyed := dtor_log ht [v0]\<rparr>) (xs @ p # ys) (kxs @ (k, v) # kys)"
    by (rule stored_cong) (use wf_listD(5) [OF storedD(1) [OF st]] in \<open>simp_all add: h_def\<close>)
  have "replace_data p v nDataSize ht = Some (SUCCESS, Some p, h\<lparr>destroyed := dtor_log ht [v0]\<rparr>)"
    using b v0 by (auto simp: replace_data_def UPDATE_DATA_def Let_def call_dtor_def free_data_def dtor_log_def
        h_def d_def modify_Some)
  then show thesis using that s by (simp add: h_def settings_def)
qed

lemma blocks_snoc:
  assumes "p \<notin> set L"
  shows "blocks (c(p \<mapsto> b)) (L @ [p]) = blocks c L + (if out_of_line (pData b) then 1 else 0)"
proof -
  have "filter (\<lambda>q. fld (\<lambda>b. out_of_line (pData b)) (c(p \<mapsto> b)) q = Some True) L =
      filter (\<lambda>q. fld (\<lambda>b. out_of_line (pData b)) c q = Some True) L"
    using assms by (auto intro!: filter_cong)
  then show ?thesis by (simp add: blocks_def)
qed

lemma map_fld_fresh [simp]: "p \<notin> set L \<Longrightarrow> map ((fld sel c)(p \<mapsto> x)) L = map (fld sel c) L"
  by (auto simp: map_eq_conv)

text \<open>A new bucket \<open>b\<close> at address \<open>p\<close> is put into its chain and at the end of the global list.\<close>

lemma link_bucket_ok:
  assumes st: "stored ht L kvs" and m: "nTableMask ht \<noteq> 0" and p: "p \<notin> dom (cells ht)"
    and ok: "bucket_ok p b" and new: "bkey b \<notin> fst ` set kvs" and room: "Suc (length L) < 2 ^ 32"
    and h1: "h1 = ht\<lparr>cells := (cells ht)(p \<mapsto> b), dataBlocks := dataBlocks ht + (if out_of_line (pData b) then 1 else 0)\<rparr>"
  obtains ht' where "do { ht \<leftarrow> rehash_bucket p h1; CONNECT_TO_GLOBAL_DLLIST p ht } = Some ht'"
    and "stored (ht'\<lparr>nNumOfElements := nNumOfElements ht' + 1\<rparr>) (L @ [p]) (kvs @ [bentry b])"
    and "outer ht' = outer (ht\<lparr>pInternalPointer := (if pInternalPointer ht = None then Some p else pInternalPointer ht)\<rparr>)"
    and "nTableMask ht' \<noteq> 0"
proof -
  note w = wf_listD [OF storedD(1) [OF st]]
  let ?c = "(cells ht)(p \<mapsto> b)"
  have pL: "p \<notin> set L" using p w(2) by simp
  have "slot_chains (nTableMask ht) (arBuckets ht) ?c (set L)"
    by (rule chains_cong [OF storedD(3) [OF st]]) (use pL in auto)
  then have ch1: "slot_chains (nTableMask h1) (arBuckets h1) (cells h1) (set L)" by (simp add: h1)
  obtain c2 ar where r: "rehash_bucket p h1 = Some (h1\<lparr>cells := c2, arBuckets := ar\<rparr>)"
      and ch: "slot_chains (nTableMask h1) ar c2 (insert p (set L))" and s2: "same_list (cells h1) c2"
    by (rule rehash_bucket_ok [OF ch1, of p]) (use pL in \<open>simp_all add: h1\<close>)
  let ?h2 = "h1\<lparr>cells := c2, arBuckets := ar\<rparr>"
  have d2: "dom c2 = insert p (set L)" using same_infoD(5) [OF same_list_info [OF s2]] w(2) by (simp add: h1)
  have "linked (fld pListNext ?c) (fld pListLast ?c) L"
    using w(1) pL by (subst linked_cong [where nx = "fld pListNext (cells ht)" and pv = "fld pListLast (cells ht)"])
      (auto simp: glist_def)
  then have g2: "glist ?h2 (L @ [])"
    using s2 w(1) by (simp add: glist_def same_list_def h1)
  obtain c3 where g: "CONNECT_TO_GLOBAL_DLLIST_EX p (last_of L) (first_of []) ?h2 =
       Some (?h2\<lparr>cells := c3, pListHead := first_of (L @ p # []), pListTail := last_of (L @ p # [])\<rparr>)"
      and li: "linked (fld pListNext c3) (fld pListLast c3) (L @ p # [])" and s3: "same_chain (cells ?h2) c3"
    by (rule CONNECT_TO_GLOBAL_DLLIST_EX_ok [OF g2]) (use d2 pL in auto)
  have i3: "same_info ?c c3" using s2 s3 by (simp add: same_list_def same_chain_def same_info_def h1)
  define h3 where "h3 = h1\<lparr>cells := c3, arBuckets := ar, pListHead := first_of (L @ [p]), pListTail := Some p,
      pInternalPointer := (if pInternalPointer ht = None then Some p else pInternalPointer ht)\<rparr>"
  have eq: "do { ht \<leftarrow> rehash_bucket p h1; CONNECT_TO_GLOBAL_DLLIST p ht } = Some h3"
    using r g w(1) by (auto simp: CONNECT_TO_GLOBAL_DLLIST_def glist_def h1 h3_def ht_unchanged)
  have d3: "dom c3 = insert p (set L)" using same_infoD(5) [OF i3] w(2) by simp
  have "wf_list (h3\<lparr>nNumOfElements := nNumOfElements h3 + 1\<rparr>) (L @ [p])"
    unfolding wf_list_def glist_def
    using li d3 w(3,5,6) room by (auto simp: h3_def h1 blocks_same [OF i3] blocks_snoc [OF pL])
  moreover have "map (fld bentry c3) (L @ [p]) = map Some (kvs @ [bentry b])"
    unfolding same_infoD(3) [OF i3] using storedD(5) [OF st] pL by simp
  moreover have "slot_chains (nTableMask ht) ar c3 (set (L @ [p]))"
    using chains_same_chain [OF ch] s3 by (simp add: h1)
  moreover have "\<forall>q c. ?c q = Some c \<longrightarrow> bucket_ok q c" using storedD(4) [OF st] ok by simp
  then have "\<forall>q c. c3 q = Some c \<longrightarrow> bucket_ok q c" by (rule same_info_ok [OF i3])
  moreover have "distinct (map fst (kvs @ [bentry b]))"
    using storedD(6) [OF st] new by (simp add: bentry_def)
  moreover have "sized (h3\<lparr>nNumOfElements := nNumOfElements h3 + 1\<rparr>)"
    using storedD(2) [OF st] m by (auto simp: sized_def h3_def h1)
  ultimately have "stored (h3\<lparr>nNumOfElements := nNumOfElements h3 + 1\<rparr>) (L @ [p]) (kvs @ [bentry b])"
    unfolding stored_def by (simp add: h3_def h1)
  moreover have "outer h3 = outer (ht\<lparr>pInternalPointer := (if pInternalPointer ht = None then Some p else pInternalPointer ht)\<rparr>)"
      "nTableMask h3 \<noteq> 0"
    using m by (simp_all add: outer_def settings_def h3_def h1)
  ultimately show thesis using that eq by blast
qed

section \<open>The insertion functions\<close>

lemma slot_put_CONNECT_commute:
  "do { ht \<leftarrow> CONNECT_TO_GLOBAL_DLLIST p ht; slot_put i q ht } =
   do { ht \<leftarrow> slot_put i q ht; CONNECT_TO_GLOBAL_DLLIST p ht }"
proof (cases "cells ht p")
  case (Some b)
  then show ?thesis
    by (cases "pListTail ht"; cases "((cells ht)(p \<mapsto> b\<lparr>pListLast := pListTail ht, pListNext := None\<rparr>)) (the (pListTail ht))")
      (auto simp: CONNECT_TO_GLOBAL_DLLIST_def CONNECT_TO_GLOBAL_DLLIST_EX_def slot_put_def hpoke_def poke_def)
qed (auto simp: CONNECT_TO_GLOBAL_DLLIST_def CONNECT_TO_GLOBAL_DLLIST_EX_def slot_put_def hpoke_def poke_def)

definition data_of :: "'v \<Rightarrow> nat \<Rightarrow> 'v zdata" where
  "data_of v nDataSize = (if nDataSize = sizeof_ptr then InPtr v else OutOfLine v)"

definition new_bucket :: "ulong \<Rightarrow> key_ptr \<Rightarrow> nat \<Rightarrow> 'v zdata \<Rightarrow> 'v bucket" where
  "new_bucket h key len d = \<lparr>bkt_h = h, nKeyLength = len, pData = d,
     pListNext = None, pListLast = None, pNext = None, pLast = None, arKey = key\<rparr>"

definition with_bucket :: "ptr \<Rightarrow> 'v bucket \<Rightarrow> 'v HashTable \<Rightarrow> 'v HashTable" where
  "with_bucket p b ht = ht\<lparr>cells := (cells ht)(p \<mapsto> b),
     dataBlocks := dataBlocks ht + (if out_of_line (pData b) then 1 else 0)\<rparr>"

lemma zval_of_data_of [simp]: "zval_of (data_of v n) = v"
  by (simp add: data_of_def)

lemma INIT_DATA_new:
  "INIT_DATA p v nDataSize (pemalloc_bucket p h key len junk ht) =
   Some (with_bucket p (new_bucket h key len (data_of v nDataSize)) ht)"
  by (auto simp: INIT_DATA_def pemalloc_bucket_def with_bucket_def new_bucket_def data_of_def hpoke_def poke_def)

text \<open>The common tail of the insertion functions; \<open>N\<close> is what happens to \<open>nNextFreeElement\<close>.\<close>

definition insert_tail :: "(ulong \<Rightarrow> ulong) \<Rightarrow> ptr \<Rightarrow> 'v HashTable \<Rightarrow> (zresult \<times> ptr option \<times> 'v HashTable) option" where
  "insert_tail N p ht =
     do { ht \<leftarrow> do { ht \<leftarrow> rehash_bucket p ht; CONNECT_TO_GLOBAL_DLLIST p ht };
          ht \<leftarrow> ZEND_HASH_IF_FULL_DO_RESIZE (ht\<lparr>nNextFreeElement := N (nNextFreeElement ht),
            nNumOfElements := nNumOfElements ht + 1\<rparr>);
          Some (SUCCESS, Some p, ht) }"

lemma insert_tail_ok:
  assumes st: "stored ht L kvs" and m: "nTableMask ht \<noteq> 0" and p: "p \<notin> dom (cells ht)"
    and ok: "bucket_ok p b" and new: "bkey b \<notin> fst ` set kvs" and room: "Suc (length L) < 2 ^ 32"
  obtains ht' where "insert_tail N p (with_bucket p b ht) = Some (SUCCESS, Some p, ht')"
    and "stored ht' (L @ [p]) (kvs @ [bentry b])" "settings ht' = settings ht" "destroyed ht' = destroyed ht"
    and "nNextFreeElement ht' = N (nNextFreeElement ht)"
    and "pInternalPointer ht' = (if pInternalPointer ht = None then Some p else pInternalPointer ht)"
proof -
  obtain h2 where l: "do { ht \<leftarrow> rehash_bucket p (with_bucket p b ht); CONNECT_TO_GLOBAL_DLLIST p ht } = Some h2"
      and st2: "stored (h2\<lparr>nNumOfElements := nNumOfElements h2 + 1\<rparr>) (L @ [p]) (kvs @ [bentry b])"
      and o2: "outer h2 = outer (ht\<lparr>pInternalPointer := (if pInternalPointer ht = None then Some p else pInternalPointer ht)\<rparr>)"
      and m2: "nTableMask h2 \<noteq> 0"
    by (rule link_bucket_ok [OF st m p ok new room with_bucket_def])
  let ?h = "h2\<lparr>nNextFreeElement := N (nNextFreeElement h2), nNumOfElements := nNumOfElements h2 + 1\<rparr>"
  have sth: "stored ?h (L @ [p]) (kvs @ [bentry b])"
    by (rule stored_cong [OF st2]) (use wf_listD(5) [OF storedD(1) [OF st2]] in simp_all)
  obtain h3 where h3: "ZEND_HASH_IF_FULL_DO_RESIZE ?h = Some h3" "stored h3 (L @ [p]) (kvs @ [bentry b])" "outer h3 = outer ?h"
    by (rule resize_ok [OF sth]) (use m2 in simp_all)
  have "insert_tail N p (with_bucket p b ht) = Some (SUCCESS, Some p, h3)"
    unfolding insert_tail_def l using h3(1) by simp
  then show thesis using that h3(2,3) o2 by (simp add: outer_def settings_def)
qed

lemma with_new_bucket:
  "cells (with_bucket p (new_bucket h k len d) ht) p = Some (new_bucket h k len d)"
  "bkt_h (new_bucket h k len d) = h" "nTableMask (with_bucket p b ht) = nTableMask ht"
  by (simp_all add: with_bucket_def new_bucket_def)

lemma quick_add_or_update_eq:
  "zend_hash_quick_add_or_update new ht key len h v nDataSize flag =
     do { let ht = CHECK_INIT ht;
          found \<leftarrow> chain_search ht (slot_index (nTableMask ht) h) (key_match key len h);
          (case found of
             Some p \<Rightarrow> if flag = HASH_ADD then Some (FAILURE, None, ht) else replace_data p v nDataSize ht
           | None \<Rightarrow> insert_tail id new (with_bucket new (new_bucket h (own_key new key len) len (data_of v nDataSize)) ht)) }"
  unfolding zend_hash_quick_add_or_update_def insert_tail_def rehash_bucket_def Let_def
  by (simp add: INIT_DATA_new with_new_bucket bind_assoc cong: option.case_cong)

text \<open>The two functions for string keys differ in the order of two steps that commute.\<close>

lemma add_or_update_quick:
  "zend_hash_add_or_update new ht key len v nDataSize flag =
   zend_hash_quick_add_or_update new ht key len (zend_inline_hash_func (take len (chars key))) v nDataSize flag"
proof -
  have swap: "Option.bind (CONNECT_TO_GLOBAL_DLLIST p h) (\<lambda>h. Option.bind (slot_put i q h) f) =
      Option.bind (slot_put i q h) (\<lambda>h. Option.bind (CONNECT_TO_GLOBAL_DLLIST p h) f)"
    for p i q and h :: "'a HashTable" and f :: "'a HashTable \<Rightarrow> (zresult \<times> ptr option \<times> 'a HashTable) option"
    using arg_cong [OF slot_put_CONNECT_commute [of p h i q], of "\<lambda>m. Option.bind m f"]
    by (simp only: bind_assoc)
  show ?thesis
    unfolding zend_hash_add_or_update_def zend_hash_quick_add_or_update_def Let_def swap ..
qed

definition bump :: "ulong \<Rightarrow> ulong \<Rightarrow> ulong" where
  "bump h n = (if n \<le>s h then if h < LONG_MAX then h + 1 else LONG_MAX else n)"

lemma note_index_eq: "note_index h ht = ht\<lparr>nNextFreeElement := bump h (nNextFreeElement ht)\<rparr>"
  by (simp add: note_index_def bump_def)

lemma index_update_or_next_insert_eq:
  "zend_hash_index_update_or_next_insert new ht h v nDataSize flag =
     do { let ht = CHECK_INIT ht;
          let h = (if flag = HASH_NEXT_INSERT then nNextFreeElement ht else h);
          found \<leftarrow> chain_search ht (slot_index (nTableMask ht) h) (index_match h);
          (case found of
             Some p \<Rightarrow> if flag = HASH_NEXT_INSERT \<or> flag = HASH_ADD then Some (FAILURE, None, ht)
                       else replace_data p v nDataSize ht
           | None \<Rightarrow> insert_tail (bump h) new (with_bucket new (new_bucket h NULLKEY 0 (data_of v nDataSize)) ht)) }"
  unfolding zend_hash_index_update_or_next_insert_def insert_tail_def rehash_bucket_def Let_def
  by (simp add: INIT_DATA_new with_new_bucket note_index_eq bind_assoc cong: option.case_cong)

end
