(* ===== verification/Zend_Store.thy ===== *)
theory Zend_Store
  imports Zend_Prelude "HOL-Library.AList"
begin

text \<open>
  The contract of an insertion-ordered map kept in memory: what the engine relies on when it
  stores, fetches and removes entries of a table, whichever family of functions it goes through
  (string keys, integer keys, symbol tables). A table \<open>holds\<close> an association list with
  distinct keys; storing keeps the position of an existing key and appends a new one.
\<close>

section \<open>Association lists\<close>

lemma update_split:
  "k \<notin> fst ` set kxs \<Longrightarrow> AList.update k v (kxs @ (k, v0) # kys) = kxs @ (k, v) # kys"
  by (induction kxs) auto

lemma update_new: "k \<notin> fst ` set kvs \<Longrightarrow> AList.update k v kvs = kvs @ [(k, v)]"
  by (induction kvs) auto

lemma delete_split:
  "k \<notin> fst ` set kxs \<Longrightarrow> k \<notin> fst ` set kys \<Longrightarrow> AList.delete k (kxs @ (k, v0) # kys) = kxs @ kys"
  by (induction kxs) (force simp: AList.delete_eq filter_id_conv)+

lemma delete_absent: "k \<notin> fst ` set kvs \<Longrightarrow> AList.delete k kvs = kvs"
  by (force simp: AList.delete_eq filter_id_conv)

lemma map_of_split: "k \<notin> fst ` set kxs \<Longrightarrow> map_of (kxs @ (k, v) # kys) k = Some v"
  by (induction kxs) auto

lemma fst_update: "fst ` set (AList.update k v kvs) = insert k (fst ` set kvs)"
  by (induction kvs) auto

lemma map_of_delete: "map_of (AList.delete k kvs) k' = (if k = k' then None else map_of kvs k')"
  by (simp add: AList.delete_conv')

lemma length_update_le: "length (AList.update k v kvs) \<le> Suc (length kvs)"
  by (induction kvs) auto

section \<open>The contract\<close>

text \<open>Storing a list of entries, each with the address of the bucket that it may need.\<close>

fun store_list :: "(ptr \<Rightarrow> 't \<Rightarrow> 'a \<Rightarrow> 'v \<Rightarrow> 't option) \<Rightarrow> (ptr \<times> 'a \<times> 'v) list \<Rightarrow> 't \<Rightarrow> 't option" where
  "store_list store [] t = Some t"
| "store_list store ((p, a, v) # xs) t = Option.bind (store p t a v) (store_list store xs)"

locale map_store =
  fixes holds :: "'t \<Rightarrow> ('k \<times> 'v) list \<Rightarrow> bool"
    and fresh :: "'t \<Rightarrow> ptr \<Rightarrow> bool"
    and valid :: "'a \<Rightarrow> bool"
    and key :: "'a \<Rightarrow> 'k"
    and store :: "ptr \<Rightarrow> 't \<Rightarrow> 'a \<Rightarrow> 'v \<Rightarrow> 't option"
    and remove :: "'t \<Rightarrow> 'a \<Rightarrow> 't option"
    and fetch :: "'t \<Rightarrow> 'a \<Rightarrow> 'v option option"
  assumes keys_distinct: "holds t kvs \<Longrightarrow> distinct (map fst kvs)"
    and fetch_ok: "holds t kvs \<Longrightarrow> valid a \<Longrightarrow> fetch t a = Some (map_of kvs (key a))"
    and store_ok: "holds t kvs \<Longrightarrow> valid a \<Longrightarrow> fresh t p \<Longrightarrow> Suc (length kvs) < 2 ^ 32 \<Longrightarrow>
      \<exists>t'. store p t a v = Some t' \<and> holds t' (AList.update (key a) v kvs) \<and>
        (\<forall>q. q \<noteq> p \<longrightarrow> fresh t q \<longrightarrow> fresh t' q)"
    and remove_ok: "holds t kvs \<Longrightarrow> valid a \<Longrightarrow>
      \<exists>t'. remove t a = Some t' \<and> holds t' (AList.delete (key a) kvs) \<and> (\<forall>q. fresh t q \<longrightarrow> fresh t' q)"
begin

lemma fetch_after_store:
  assumes "holds t kvs" "valid a" "fresh t p" "Suc (length kvs) < 2 ^ 32" "valid a'"
  shows "\<exists>t'. store p t a v = Some t' \<and> fetch t' a' = (if key a' = key a then Some (Some v) else fetch t a')"
proof -
  obtain t' where t': "store p t a v = Some t'" "holds t' (AList.update (key a) v kvs)"
    using store_ok [OF assms(1-4)] by blast
  then have "fetch t' a' = Some (map_of (AList.update (key a) v kvs) (key a'))" using fetch_ok assms(5) by blast
  moreover have "fetch t a' = Some (map_of kvs (key a'))" using fetch_ok assms(1,5) by blast
  ultimately show ?thesis using t'(1) by (simp add: AList.update_conv')
qed

lemma fetch_after_remove:
  assumes "holds t kvs" "valid a" "valid a'"
  shows "\<exists>t'. remove t a = Some t' \<and> fetch t' a' = (if key a' = key a then Some None else fetch t a')"
proof -
  obtain t' where t': "remove t a = Some t'" "holds t' (AList.delete (key a) kvs)"
    using remove_ok [OF assms(1,2)] by blast
  then have "fetch t' a' = Some (map_of (AList.delete (key a) kvs) (key a'))" using fetch_ok assms(3) by blast
  moreover have "fetch t a' = Some (map_of kvs (key a'))" using fetch_ok assms(1,3) by blast
  ultimately show ?thesis using t'(1) by (simp add: map_of_delete)
qed

lemma store_list_ok:
  assumes "holds t kvs" "distinct (map fst xs)" "\<forall>(p, a, v)\<in>set xs. fresh t p \<and> valid a"
    and "length kvs + length xs < 2 ^ 32"
  shows "\<exists>t'. store_list store xs t = Some t' \<and>
    holds t' (fold (\<lambda>(p, a, v). AList.update (key a) v) xs kvs)"
  using assms
proof (induction xs arbitrary: t kvs)
  case (Cons x xs)
  obtain p a v where x: "x = (p, a, v)" by (cases x)
  then obtain t' where t': "store p t a v = Some t'" "holds t' (AList.update (key a) v kvs)"
      "\<forall>q. q \<noteq> p \<longrightarrow> fresh t q \<longrightarrow> fresh t' q"
    using store_ok [OF Cons.prems(1), of a p v] Cons.prems(3,4) by auto
  have "\<forall>(q, b, w)\<in>set xs. fresh t' q \<and> valid b"
    using Cons.prems(2,3) t'(3) x by (force simp: image_iff)
  moreover have "length (AList.update (key a) v kvs) + length xs < 2 ^ 32"
    using Cons.prems(4) length_update_le [of "key a" v kvs] by simp
  ultimately show ?case using Cons.IH [OF t'(2)] Cons.prems(2) t'(1) x by simp
qed simp

end

end
