(* ===== verification/Zend_Hash_Map.thy ===== *)
theory Zend_Hash_Map
  imports Zend_Hash_Steps Zend_Store
begin

text \<open>
  The hash table as an insertion-ordered map: what the functions of \<^verbatim>\<open>zend_hash.c\<close> for
  initialisation, insertion, lookup and deletion do to the association list that a
  table holds. The string-key functions and the integer-key functions are
  interpretations of the contract \<open>map_store\<close>.
\<close>

section \<open>Abstract operations\<close>

lemma stored_dom: "stored ht L kvs \<Longrightarrow> dom (cells ht) = set L"
  using storedD(1) wf_listD(2) by metis

text \<open>
  Adding or updating one key: \<open>put flag k v kvs\<close> is the status and the new entries. An existing key
  keeps its position; \<open>HASH_ADD\<close> never replaces data.
\<close>

definition put :: "hash_flag \<Rightarrow> hkey \<Rightarrow> 'v \<Rightarrow> (hkey \<times> 'v) list \<Rightarrow> zresult \<times> (hkey \<times> 'v) list" where
  "put flag k v kvs =
     (if k \<in> fst ` set kvs \<and> flag \<noteq> HASH_UPDATE then (FAILURE, kvs) else (SUCCESS, AList.update k v kvs))"

text \<open>The data the destructor sees.\<close>

definition replaced :: "hash_flag \<Rightarrow> hkey \<Rightarrow> (hkey \<times> 'v) list \<Rightarrow> 'v list" where
  "replaced flag k kvs =
     (case map_of kvs k of None \<Rightarrow> [] | Some v \<Rightarrow> if flag = HASH_UPDATE then [v] else [])"

text \<open>What an insertion returns and does to the table.\<close>

definition inserted ::
  "'v HashTable \<Rightarrow> ptr list \<Rightarrow> (hkey \<times> 'v) list \<Rightarrow> hash_flag \<Rightarrow> ptr \<Rightarrow> hkey \<Rightarrow> 'v \<Rightarrow> (ulong \<Rightarrow> ulong) \<Rightarrow>
   zresult \<times> ptr option \<times> 'v HashTable \<Rightarrow> bool" where
  "inserted ht L kvs flag new k v N = (\<lambda>(r, pDest, ht').
     (let L' = (if k \<in> fst ` set kvs then L else L @ [new])
      in r = fst (put flag k v kvs) \<and> stored ht' L' (snd (put flag k v kvs)) \<and>
         settings ht' = settings ht \<and> destroyed ht' = dtor_log ht (replaced flag k kvs) \<and>
         pDest = (if r = SUCCESS then ptr_of ht' L' k else None) \<and>
         nNextFreeElement ht' = (if k \<in> fst ` set kvs then nNextFreeElement ht else N (nNextFreeElement ht)) \<and>
         pInternalPointer ht' =
           (if k \<notin> fst ` set kvs \<and> pInternalPointer ht = None then Some new else pInternalPointer ht)))"

lemma ptr_of_at:
  assumes "stored ht (xs @ p # ys) (kxs @ (k, v) # kys)" "length kxs = length xs"
  shows "ptr_of ht (xs @ p # ys) k = Some p"
proof (rule ptr_of_unique [OF assms(1)])
  have "p \<in> dom (cells ht)" using wf_listD(2) [OF storedD(1) [OF assms(1)]] by auto
  then obtain b where b: "cells ht p = Some b" by blast
  then show "fld bkey (cells ht) p = Some k"
    using storedD(5) [OF assms(1)] assms(2) fld_Some [of "cells ht" p b bentry, OF b]
    by (auto simp: append_eq_append_conv bentry_def)
qed simp

lemma inserted_found:
  assumes st: "stored ht L kvs" and f: "ptr_of ht L k = Some p" and flag: "flag = HASH_UPDATE"
  shows "\<exists>res. replace_data p v nDataSize ht = Some res \<and> inserted ht L kvs flag new k v N res"
proof -
  obtain xs ys kxs v0 kys where s: "L = xs @ p # ys" "kvs = kxs @ (k, v0) # kys" "length kxs = length xs"
      "k \<notin> fst ` set kxs" "k \<notin> fst ` set kys"
    by (rule ptr_of_Some [OF st f])
  obtain ht' where r: "replace_data p v nDataSize ht = Some (SUCCESS, Some p, ht')"
      "stored ht' (xs @ p # ys) (kxs @ (k, v) # kys)" "settings ht' = settings ht"
      "destroyed ht' = dtor_log ht [v0]" "nNextFreeElement ht' = nNextFreeElement ht"
      "pInternalPointer ht' = pInternalPointer ht"
    by (rule replace_data_ok [OF st [unfolded s(1,2)] s(3)])
  have rp: "replaced flag k kvs = [v0]" unfolding replaced_def s(2) map_of_split [OF s(4)] using flag by simp
  have "inserted ht L kvs flag new k v N (SUCCESS, Some p, ht')"
    unfolding inserted_def Let_def put_def rp
    using r ptr_of_at [OF r(2) s(3)] by (simp add: s flag update_split)
  with r(1) show ?thesis by blast
qed

lemma inserted_new:
  assumes st: "stored ht L kvs" and m: "nTableMask ht \<noteq> 0" and p: "new \<notin> dom (cells ht)"
    and ok: "bucket_ok new b" and b: "bentry b = (k, v)" and n: "ptr_of ht L k = None" and room: "Suc (length L) < 2 ^ 32"
  shows "\<exists>res. insert_tail N new (with_bucket new b ht) = Some res \<and> inserted ht L kvs flag new k v N res"
proof -
  have k: "k \<notin> fst ` set kvs" "bkey b = k" using n ptr_of_None [OF st] b by (auto simp: bentry_def)
  obtain ht' where r: "insert_tail N new (with_bucket new b ht) = Some (SUCCESS, Some new, ht')"
      "stored ht' (L @ [new]) (kvs @ [(k, v)])" "settings ht' = settings ht" "destroyed ht' = destroyed ht"
      "nNextFreeElement ht' = N (nNextFreeElement ht)"
      "pInternalPointer ht' = (if pInternalPointer ht = None then Some new else pInternalPointer ht)"
    by (rule insert_tail_ok [OF st m p ok _ room, where N = N]) (use k b in simp_all)
  have "map_of kvs k = None" using k(1) by (simp add: map_of_eq_None_iff)
  moreover have "ptr_of ht' (L @ [new]) k = Some new"
    by (rule ptr_of_at [where kys = "[]", OF r(2)]) (use stored_length [OF st] in simp)
  ultimately have "inserted ht L kvs flag new k v N (SUCCESS, Some new, ht')"
    unfolding inserted_def Let_def put_def replaced_def
    using r(2-) k(1) by (simp add: update_new dtor_log_def)
  with r(1) show ?thesis by blast
qed

lemma inserted_refused:
  assumes st: "stored ht L kvs" and "ptr_of ht L k = Some p" and flag: "flag \<noteq> HASH_UPDATE"
  shows "inserted ht L kvs flag new k v N (FAILURE, None, ht)"
proof -
  have "k \<in> fst ` set kvs" using assms(2) ptr_of_None [OF st, of k] by auto
  then show ?thesis unfolding inserted_def Let_def put_def replaced_def
    using st flag by (auto simp: dtor_log_def split: option.splits)
qed

section \<open>The insertion functions\<close>

lemma str_arg_take: "str_arg key len \<Longrightarrow> take len (chars key) = chars key"
  by (simp add: str_arg_def)

lemma new_str_bucket:
  assumes "str_arg key len"
  shows "bucket_ok new (new_bucket (zend_inline_hash_func (chars key)) (own_key new key len) len d)"
    and "bentry (new_bucket (zend_inline_hash_func (chars key)) (own_key new key len) len d) =
      (StrKey (chars key), zval_of d)"
  using assms by (cases key; auto simp: bucket_ok_def new_bucket_def own_key_def str_arg_def bentry_def bkey_def)+

lemma new_int_bucket:
  "bucket_ok new (new_bucket h NULLKEY 0 d)" "bentry (new_bucket h NULLKEY 0 d) = (IntKey h, zval_of d)"
  by (simp_all add: bucket_ok_def new_bucket_def bentry_def bkey_def)

lemma inserted_CHECK_INIT:
  assumes "stored ht L kvs"
  shows "inserted (CHECK_INIT ht) L kvs flag new k v N = inserted ht L kvs flag new k v N"
  using CHECK_INIT_ok(3) [OF assms]
  by (auto simp: inserted_def outer_def settings_def dtor_log_def fun_eq_iff Let_def)

lemma quick_add_or_update_ok:
  assumes st: "stored ht L kvs" and arg: "str_arg key len" and p: "new \<notin> dom (cells ht)"
    and room: "Suc (length L) < 2 ^ 32" and flag: "flag = HASH_UPDATE \<or> flag = HASH_ADD"
  shows "\<exists>res. zend_hash_quick_add_or_update new ht key len (zend_inline_hash_func (chars key)) v nDataSize flag = Some res \<and>
    inserted ht L kvs flag new (StrKey (chars key)) v id res"
proof -
  let ?ht = "CHECK_INIT ht" and ?h = "zend_inline_hash_func (chars key)" and ?k = "StrKey (chars key)"
  note c = CHECK_INIT_ok [OF st]
  have "chain_search ?ht (slot_index (nTableMask ?ht) (key_hash ?k)) (key_match key len ?h) = Some (ptr_of ?ht L ?k)"
    by (rule lookup_ok [OF c(1)]) (rule key_match_iff [OF _ arg])
  then have f: "chain_search ?ht (slot_index (nTableMask ?ht) ?h) (key_match key len ?h) = Some (ptr_of ?ht L ?k)"
    by (simp add: key_hash_def)
  show ?thesis
  proof (cases "ptr_of ?ht L ?k")
    case None
    have "\<exists>res. insert_tail id new (with_bucket new (new_bucket ?h (own_key new key len) len (data_of v nDataSize)) ?ht) = Some res \<and>
        inserted ?ht L kvs flag new ?k v id res"
      by (rule inserted_new [OF c(1,2) _ new_str_bucket(1) [OF arg] _ None room]) (use p c(4) in \<open>simp_all add: new_str_bucket(2) [OF arg]\<close>)
    then show ?thesis unfolding quick_add_or_update_eq Let_def f inserted_CHECK_INIT [OF st] using None by simp
  next
    case (Some q)
    show ?thesis
    proof (cases "flag = HASH_UPDATE")
      case True
      then show ?thesis
        using inserted_found [OF c(1) Some True, of v nDataSize new id] Some f
        unfolding quick_add_or_update_eq Let_def inserted_CHECK_INIT [OF st] by simp
    next
      case False
      then show ?thesis
        using inserted_refused [OF c(1) Some False, of new v id] Some f flag
        unfolding quick_add_or_update_eq Let_def inserted_CHECK_INIT [OF st] by simp
    qed
  qed
qed

lemma add_or_update_ok:
  assumes st: "stored ht L kvs" and arg: "str_arg key len" and p: "new \<notin> dom (cells ht)"
    and room: "Suc (length L) < 2 ^ 32" and flag: "flag = HASH_UPDATE \<or> flag = HASH_ADD"
  shows "\<exists>res. zend_hash_add_or_update new ht key len v nDataSize flag = Some res \<and>
    inserted ht L kvs flag new (StrKey (chars key)) v id res"
  using quick_add_or_update_ok [OF assms] unfolding add_or_update_quick str_arg_take [OF arg] .

text \<open>\<open>HASH_NEXT_INSERT\<close> uses the next free index in place of \<open>h\<close>.\<close>

definition index_arg :: "'v HashTable \<Rightarrow> hash_flag \<Rightarrow> ulong \<Rightarrow> ulong" where
  "index_arg ht flag h = (if flag = HASH_NEXT_INSERT then nNextFreeElement ht else h)"

lemma index_update_or_next_insert_ok:
  assumes st: "stored ht L kvs" and p: "new \<notin> dom (cells ht)" and room: "Suc (length L) < 2 ^ 32"
  shows "\<exists>res. zend_hash_index_update_or_next_insert new ht h v nDataSize flag = Some res \<and>
    inserted ht L kvs flag new (IntKey (index_arg ht flag h)) v (bump (index_arg ht flag h)) res"
proof -
  let ?ht = "CHECK_INIT ht" and ?h = "index_arg ht flag h"
  let ?k = "IntKey ?h"
  note c = CHECK_INIT_ok [OF st]
  have h: "(if flag = HASH_NEXT_INSERT then nNextFreeElement ?ht else h) = ?h"
    using c(3) by (simp add: index_arg_def outer_def)
  have "chain_search ?ht (slot_index (nTableMask ?ht) (key_hash ?k)) (index_match ?h) = Some (ptr_of ?ht L ?k)"
    by (rule lookup_ok [OF c(1)]) (rule index_match_iff)
  then have f: "chain_search ?ht (slot_index (nTableMask ?ht) ?h) (index_match ?h) = Some (ptr_of ?ht L ?k)"
    by (simp add: key_hash_def)
  show ?thesis
  proof (cases "ptr_of ?ht L ?k")
    case None
    have "\<exists>res. insert_tail (bump ?h) new (with_bucket new (new_bucket ?h NULLKEY 0 (data_of v nDataSize)) ?ht) = Some res \<and>
        inserted ?ht L kvs flag new ?k v (bump ?h) res"
      by (rule inserted_new [OF c(1,2) _ new_int_bucket(1) _ None room]) (use p c(4) in \<open>simp_all add: new_int_bucket(2)\<close>)
    then show ?thesis unfolding index_update_or_next_insert_eq Let_def h f inserted_CHECK_INIT [OF st] using None by simp
  next
    case (Some q)
    show ?thesis
    proof (cases "flag = HASH_UPDATE")
      case True
      then show ?thesis
        using inserted_found [OF c(1) Some True, of v nDataSize new "bump ?h"] Some f
        unfolding index_update_or_next_insert_eq Let_def h inserted_CHECK_INIT [OF st] by simp
    next
      case False
      then have "flag = HASH_NEXT_INSERT \<or> flag = HASH_ADD" by (cases flag) auto
      then show ?thesis
        using inserted_refused [OF c(1) Some False, of new v "bump ?h"] Some f
        unfolding index_update_or_next_insert_eq Let_def h inserted_CHECK_INIT [OF st] by simp
    qed
  qed
qed

section \<open>The next free index\<close>

lemma sint_LONG_MAX [simp]: "sint LONG_MAX = 2 ^ 63 - 1"
  by (simp add: LONG_MAX_def)

lemma sint_ulong_bounds: "- (2 ^ 63) \<le> sint (h :: ulong)" "sint (h :: ulong) \<le> 2 ^ 63 - 1"
  using sint_ge [of h] sint_lt [of h] by simp_all

lemma sint_Suc:
  fixes h :: ulong
  assumes "0 \<le> sint h" "h < LONG_MAX"
  shows "sint (h + 1) = sint h + 1"
proof -
  obtain n where n: "h = of_nat n" "n < 2 ^ 63 - 1"
    using assms(2) by (intro that [of "unat h"]) (simp_all add: word_less_nat_alt)
  then have "sint (of_nat (Suc n) :: ulong) = int (Suc n)" by (intro sint_of_nat_ulong) simp
  moreover have "sint h = int n" using n by (simp add: sint_of_nat_ulong)
  ultimately show ?thesis using n(1) by (simp add: add.commute)
qed

lemma not_less_LONG_MAX:
  fixes h :: ulong
  assumes "0 \<le> sint h" "\<not> h < LONG_MAX"
  shows "sint h = 2 ^ 63 - 1"
proof -
  have "take_bit 64 (sint h) = sint h"
    using assms(1) sint_ulong_bounds(2) [of h] by (intro take_bit_int_eq_self) auto
  then have "uint h = sint h" by (simp add: uint_sint)
  moreover have "uint LONG_MAX \<le> uint h" using assms(2) by (simp add: word_less_def)
  ultimately show ?thesis using sint_ulong_bounds(2) [of h] by (simp add: LONG_MAX_def)
qed

lemma sint_bump:
  assumes "0 \<le> sint n"
  shows "sint (bump h n) = max (sint n) (min (sint h + 1) (2 ^ 63 - 1))"
proof (cases "sint n \<le> sint h")
  case True
  then have "0 \<le> sint h" using assms by simp
  show ?thesis
  proof (cases "h < LONG_MAX")
    case lt: True
    have "sint h + 1 \<le> 2 ^ 63 - 1" using sint_Suc [OF \<open>0 \<le> sint h\<close> lt] sint_ulong_bounds(2) [of "h + 1"] by simp
    then show ?thesis using True lt sint_Suc [OF \<open>0 \<le> sint h\<close> lt] by (simp add: bump_def word_sle_eq)
  next
    case False
    then show ?thesis using True not_less_LONG_MAX [OF \<open>0 \<le> sint h\<close> False]
      by (simp add: bump_def word_sle_eq)
  qed
next
  case False
  then show ?thesis by (simp add: bump_def word_sle_eq)
qed

lemma next_free_ok_iff:
  "next_free_ok n kvs \<longleftrightarrow> 0 \<le> sint n \<and> (\<forall>h. IntKey h \<in> fst ` set kvs \<longrightarrow> sint h < sint n \<or> sint n = 2 ^ 63 - 1)"
proof -
  have "h <s n \<or> n = LONG_MAX \<and> h = LONG_MAX \<longleftrightarrow> sint h < sint n \<or> sint n = 2 ^ 63 - 1" for h
  proof -
    have "n = LONG_MAX \<longleftrightarrow> sint n = 2 ^ 63 - 1" "h = LONG_MAX \<longleftrightarrow> sint h = 2 ^ 63 - 1"
      using sint_LONG_MAX by (metis signed_word_eqI)+
    then show ?thesis using sint_ulong_bounds(2) [of h] by (auto simp: word_sless_alt)
  qed
  then show ?thesis by (simp add: next_free_ok_def word_sle_eq)
qed

lemma put_keys: "fst ` set (snd (put flag k v kvs)) = insert k (fst ` set kvs)"
  by (auto simp: put_def fst_update)

text \<open>An insertion keeps the whole invariant.\<close>

lemma inserted_str_table:
  assumes "table ht L kvs" "inserted ht L kvs flag new (StrKey s) v id (r, pDest, ht')"
  shows "table ht' (if StrKey s \<in> fst ` set kvs then L else L @ [new]) (snd (put flag (StrKey s) v kvs))"
  using assms unfolding table_def inserted_def next_free_ok_iff put_keys by (auto simp: Let_def)

lemma inserted_int_table:
  assumes "table ht L kvs" "inserted ht L kvs flag new (IntKey h) v (bump h) (r, pDest, ht')"
  shows "table ht' (if IntKey h \<in> fst ` set kvs then L else L @ [new]) (snd (put flag (IntKey h) v kvs))"
proof -
  have n: "0 \<le> sint (nNextFreeElement ht)"
    "\<And>g. IntKey g \<in> fst ` set kvs \<Longrightarrow> sint g < sint (nNextFreeElement ht) \<or> sint (nNextFreeElement ht) = 2 ^ 63 - 1"
    using tableD(2) [OF assms(1)] by (auto simp: next_free_ok_iff)
  have b: "sint (bump h (nNextFreeElement ht)) = max (sint (nNextFreeElement ht)) (min (sint h + 1) (2 ^ 63 - 1))"
    by (rule sint_bump [OF n(1)])
  have "next_free_ok (nNextFreeElement ht') (snd (put flag (IntKey h) v kvs))"
  proof (cases "IntKey h \<in> fst ` set kvs")
    case True
    then show ?thesis using assms unfolding table_def inserted_def next_free_ok_iff put_keys
      by (auto simp: Let_def)
  next
    case False
    then have e: "nNextFreeElement ht' = bump h (nNextFreeElement ht)" using assms(2) by (simp add: inserted_def Let_def)
    let ?n = "sint (nNextFreeElement ht)" and ?M = "2 ^ 63 - 1 :: int"
    have "0 \<le> max ?n (min (sint h + 1) ?M)" using n(1) by simp
    moreover have "sint g < max ?n (min (sint h + 1) ?M) \<or> max ?n (min (sint h + 1) ?M) = ?M"
      if "IntKey g \<in> insert (IntKey h) (fst ` set kvs)" for g
      using that n(2) [of g] sint_ulong_bounds(2) [of h] sint_ulong_bounds(2) [of "nNextFreeElement ht"]
      by (cases "g = h") (auto simp: max_def min_def)
    ultimately show ?thesis unfolding next_free_ok_iff put_keys e b by blast
  qed
  then show ?thesis using assms(2) by (simp add: table_def inserted_def Let_def)
qed

section \<open>Lookup and deletion\<close>

text \<open>The data a returned bucket holds.\<close>

definition data_at :: "'v HashTable \<Rightarrow> ptr \<Rightarrow> 'v option" where
  "data_at ht p = fld (\<lambda>b. zval_of (pData b)) (cells ht) p"

text \<open>What a lookup has to return for a key: status and bucket.\<close>

definition looked_up :: "'v HashTable \<Rightarrow> ptr list \<Rightarrow> hkey \<Rightarrow> zresult \<times> ptr option" where
  "looked_up ht L k = (case ptr_of ht L k of Some p \<Rightarrow> (SUCCESS, Some p) | None \<Rightarrow> (FAILURE, None))"

lemma data_at_ptr_of:
  assumes st: "stored ht L kvs" and p: "ptr_of ht L k = Some p"
  shows "data_at ht p = map_of kvs k"
proof -
  obtain xs ys kxs v kys where s: "L = xs @ p # ys" "kvs = kxs @ (k, v) # kys" "length kxs = length xs" "k \<notin> fst ` set kxs"
    by (rule ptr_of_Some [OF st p])
  have "p \<in> dom (cells ht)" using wf_listD(2) [OF storedD(1) [OF st]] s(1) by auto
  then obtain b where b: "cells ht p = Some b" by blast
  then have "bentry b = (k, v)"
    using storedD(5) [OF st] s(1,2,3) fld_Some [of "cells ht" p b bentry, OF b] by (auto simp: append_eq_append_conv)
  then show ?thesis using b s(2) map_of_split [OF s(4)] by (simp add: data_at_def bentry_def)
qed

lemma quick_find_ok:
  assumes st: "stored ht L kvs" and arg: "str_arg key len"
  shows "zend_hash_quick_find ht key len (zend_inline_hash_func (chars key)) = Some (looked_up ht L (StrKey (chars key)))"
    and "zend_hash_find ht key len = Some (looked_up ht L (StrKey (chars key)))"
    and "zend_hash_quick_exists ht key len (zend_inline_hash_func (chars key)) = Some (StrKey (chars key) \<in> fst ` set kvs)"
    and "zend_hash_exists ht key len = Some (StrKey (chars key) \<in> fst ` set kvs)"
proof -
  let ?k = "StrKey (chars key)"
  have "chain_search ht (slot_index (nTableMask ht) (key_hash ?k)) (key_match key len (zend_inline_hash_func (chars key))) =
      Some (ptr_of ht L ?k)"
    by (rule lookup_ok [OF st]) (rule key_match_iff [OF _ arg])
  then have f: "chain_search ht (slot_index (nTableMask ht) (zend_inline_hash_func (chars key)))
      (key_match key len (zend_inline_hash_func (chars key))) = Some (ptr_of ht L ?k)"
    by (simp add: key_hash_def)
  show "zend_hash_quick_find ht key len (zend_inline_hash_func (chars key)) = Some (looked_up ht L ?k)"
    "zend_hash_find ht key len = Some (looked_up ht L ?k)"
    unfolding zend_hash_quick_find_def zend_hash_find_def Let_def str_arg_take [OF arg] f looked_up_def by simp_all
  show "zend_hash_quick_exists ht key len (zend_inline_hash_func (chars key)) = Some (?k \<in> fst ` set kvs)"
    "zend_hash_exists ht key len = Some (?k \<in> fst ` set kvs)"
    unfolding zend_hash_quick_exists_def zend_hash_exists_def Let_def str_arg_take [OF arg] f
    using ptr_of_None [OF st, of ?k] by auto
qed

lemma index_find_ok:
  assumes st: "stored ht L kvs"
  shows "zend_hash_index_find ht h = Some (looked_up ht L (IntKey h))"
    and "zend_hash_index_exists ht h = Some (IntKey h \<in> fst ` set kvs)"
proof -
  have "chain_search ht (slot_index (nTableMask ht) (key_hash (IntKey h))) (index_match h) = Some (ptr_of ht L (IntKey h))"
    by (rule lookup_ok [OF st]) (rule index_match_iff)
  then have f: "chain_search ht (slot_index (nTableMask ht) h) (index_match h) = Some (ptr_of ht L (IntKey h))"
    by (simp add: key_hash_def)
  show "zend_hash_index_find ht h = Some (looked_up ht L (IntKey h))"
    unfolding zend_hash_index_find_def f looked_up_def by simp
  show "zend_hash_index_exists ht h = Some (IntKey h \<in> fst ` set kvs)"
    unfolding zend_hash_index_exists_def f using ptr_of_None [OF st, of "IntKey h"] by auto
qed

text \<open>The key that the arguments of a deletion denote.\<close>

definition del_key :: "key_ptr \<Rightarrow> nat \<Rightarrow> ulong \<Rightarrow> del_flag \<Rightarrow> hkey \<Rightarrow> bool" where
  "del_key key len h flag k \<longleftrightarrow>
     (case flag of
        HASH_DEL_KEY \<Rightarrow> str_arg key len \<and> k = StrKey (chars key)
      | HASH_DEL_INDEX \<Rightarrow> len = 0 \<and> k = IntKey h
      | HASH_DEL_KEY_QUICK \<Rightarrow> str_arg key len \<and> h = zend_inline_hash_func (chars key) \<and> k = StrKey (chars key))"

lemma deleted_ok:
  assumes st: "stored ht L kvs" and p: "ptr_of ht L k = Some p"
  obtains ht' v where "i_zend_hash_bucket_delete p ht = Some ht'" "stored ht' (remove1 p L) (AList.delete k kvs)"
    and "map_of kvs k = Some v" "settings ht' = settings ht" "destroyed ht' = dtor_log ht [v]"
    and "nNextFreeElement ht' = nNextFreeElement ht"
    and "pInternalPointer ht' = (if pInternalPointer ht = Some p then nxt_of L p else pInternalPointer ht)"
proof -
  obtain xs ys kxs v kys where s: "L = xs @ p # ys" "kvs = kxs @ (k, v) # kys" "length kxs = length xs"
      "k \<notin> fst ` set kxs" "k \<notin> fst ` set kys"
    by (rule ptr_of_Some [OF st p])
  have d: "distinct (xs @ p # ys)" using stored_distinct [OF st] s(1) by simp
  then have r: "remove1 p L = xs @ ys" "nxt_of L p = first_of ys" unfolding s(1) by auto
  obtain ht' where "i_zend_hash_bucket_delete p ht = Some ht'" "stored ht' (xs @ ys) (kxs @ kys)" "settings ht' = settings ht"
      "destroyed ht' = dtor_log ht [v]" "nNextFreeElement ht' = nNextFreeElement ht"
      "pInternalPointer ht' = (if pInternalPointer ht = Some p then first_of ys else pInternalPointer ht)"
    by (rule bucket_delete_ok [OF st [unfolded s(1,2)] s(3)])
  then show thesis using that r delete_split [OF s(4,5)] map_of_split [OF s(4)] unfolding s(2) by metis
qed

lemma del_key_or_index_ok:
  assumes st: "stored ht L kvs" and k: "del_key key len h flag k"
  shows "k \<notin> fst ` set kvs \<Longrightarrow> zend_hash_del_key_or_index ht key len h flag = Some (FAILURE, ht)"
    and "ptr_of ht L k = Some p \<Longrightarrow>
      zend_hash_del_key_or_index ht key len h flag = map_option (Pair SUCCESS) (i_zend_hash_bucket_delete p ht)"
proof -
  define g where "g = (if flag = HASH_DEL_KEY then zend_inline_hash_func (take len (chars key)) else h)"
  have g: "g = key_hash k"
    using k by (cases flag) (auto simp: g_def del_key_def key_hash_def str_arg_take)
  have f: "chain_search ht (slot_index (nTableMask ht) g) (del_match key len g) = Some (ptr_of ht L k)"
  proof (unfold g, rule lookup_ok [OF st])
    fix p b assume "cells ht p = Some b" and ok: "bucket_ok p b"
    show "del_match key len (key_hash k) b \<longleftrightarrow> bkey b = k"
      using k del_match_str_iff [OF ok, of key len] del_match_int_iff [of key h b]
      by (cases flag) (auto simp: del_key_def key_hash_def)
  qed
  have e: "zend_hash_del_key_or_index ht key len h flag =
      (case ptr_of ht L k of Some p \<Rightarrow> map_option (Pair SUCCESS) (i_zend_hash_bucket_delete p ht) | None \<Rightarrow> Some (FAILURE, ht))"
    unfolding zend_hash_del_key_or_index_def Let_def g_def [symmetric] f by simp
  show "k \<notin> fst ` set kvs \<Longrightarrow> zend_hash_del_key_or_index ht key len h flag = Some (FAILURE, ht)"
    using e ptr_of_None [OF st, of k] by simp
  show "ptr_of ht L k = Some p \<Longrightarrow>
      zend_hash_del_key_or_index ht key len h flag = map_option (Pair SUCCESS) (i_zend_hash_bucket_delete p ht)"
    using e by simp
qed

section \<open>Initialisation\<close>

lemma table_shift_ok:
  assumes "nSize \<le> 2 ^ 31" "i \<le> 31"
  shows "\<exists>j. table_shift nSize i = Some j \<and> i \<le> j \<and> j \<le> 31 \<and> nSize \<le> 2 ^ j \<and> (\<forall>l. i \<le> l \<longrightarrow> l < j \<longrightarrow> 2 ^ l < nSize)"
  using assms(2)
proof (induction "31 - i" arbitrary: i)
  case 0
  then have "i = 31" by simp
  then show ?case using assms(1) by (subst table_shift.simps) (auto simp: push_bit_eq_mult)
next
  case (Suc n)
  show ?case
  proof (cases "(2 :: uint) ^ i < nSize")
    case True
    then obtain j where "table_shift nSize (Suc i) = Some j" "Suc i \<le> j" "j \<le> 31" "nSize \<le> 2 ^ j"
        "\<forall>l. Suc i \<le> l \<longrightarrow> l < j \<longrightarrow> 2 ^ l < nSize"
      using Suc.hyps(1) [of "Suc i"] Suc.hyps(2) by fastforce
    moreover from this True have "\<forall>l. i \<le> l \<longrightarrow> l < j \<longrightarrow> 2 ^ l < nSize" by (metis Suc_leI le_neq_implies_less)
    ultimately show ?thesis using True by (subst table_shift.simps) (auto simp: push_bit_eq_mult)
  next
    case False
    then show ?thesis using Suc.prems by (subst table_shift.simps) (auto simp: push_bit_eq_mult)
  qed
qed

lemma empty_table:
  assumes "nTableSize ht = 2 ^ k" "3 \<le> k" "k \<le> 31" "nTableMask ht = 0" "arBuckets ht = [Some None]"
    and "cells ht = Map.empty" "pListHead ht = None" "pListTail ht = None" "nNumOfElements ht = 0"
    and "nNextFreeElement ht = 0" "pInternalPointer ht = None" "dataBlocks ht = 0"
  shows "table ht [] []"
  using assms chains_Nil [of 0 "cells ht"]
  by (auto simp: table_def stored_def wf_list_def glist_def sized_def blocks_def next_free_ok_def)

lemma init_ok:
  obtains k ht' where "zend_hash_init ht nSize dtor persist = Some (SUCCESS, ht')" "table ht' [] []"
    and "nTableSize ht' = 2 ^ k" "3 \<le> k" "k \<le> 31" "nSize \<le> 2 ^ k \<or> k = 31" "\<forall>l. 3 \<le> l \<longrightarrow> l < k \<longrightarrow> 2 ^ l < nSize"
    and "settings ht' = (dtor, persist, 0, True)" "destroyed ht' = []"
proof -
  define fin where "fin = (\<lambda>h :: 'a HashTable. h\<lparr>nTableMask := 0, pDestructor := dtor, arBuckets := [Some None],
            pListHead := None, pListTail := None, nNumOfElements := 0, nNextFreeElement := 0,
            pInternalPointer := None, persistent := persist, nApplyCount := 0,
            bApplyProtection := True, cells := Map.empty, destroyed := [], dataBlocks := 0\<rparr>)"
  obtain k where k: "3 \<le> k" "k \<le> 31" "nSize \<le> 2 ^ k \<or> k = 31" "\<forall>l. 3 \<le> l \<longrightarrow> l < k \<longrightarrow> 2 ^ l < nSize"
      and i: "zend_hash_init ht nSize dtor persist = Some (SUCCESS, fin (ht\<lparr>nTableSize := 2 ^ k\<rparr>))"
  proof (cases "nSize \<ge> 0x80000000")
    case True
    have "2 ^ l < nSize" if "l < 31" for l
    proof -
      have "(2 :: nat) ^ l < 2 ^ 31" using that by (intro power_strict_increasing) auto
      then show ?thesis using True that unat_pow2 [of l] by (simp add: word_less_nat_alt word_le_nat_alt)
    qed
    then show thesis using that [of 31] True by (simp add: zend_hash_init_def fin_def)
  next
    case False
    then have "nSize \<le> 2 ^ 31" by simp
    then obtain j where "table_shift nSize 3 = Some j" "3 \<le> j" "j \<le> 31" "nSize \<le> 2 ^ j" "\<forall>l. 3 \<le> l \<longrightarrow> l < j \<longrightarrow> 2 ^ l < nSize"
      using table_shift_ok [of nSize 3] by auto
    then show thesis using that [of j] False by (simp add: zend_hash_init_def fin_def push_bit_eq_mult)
  qed
  have "table (fin (ht\<lparr>nTableSize := 2 ^ k\<rparr>)) [] []"
    by (rule empty_table [where k = k]) (use k in \<open>simp_all add: fin_def\<close>)
  then show thesis using that [OF i, of k] k by (simp add: fin_def settings_def)
qed

section \<open>The contract \<open>map_store\<close>\<close>

definition hash_holds :: "'v HashTable \<Rightarrow> (hkey \<times> 'v) list \<Rightarrow> bool" where
  "hash_holds ht kvs \<longleftrightarrow> (\<exists>L. table ht L kvs)"

definition hash_fresh :: "'v HashTable \<Rightarrow> ptr \<Rightarrow> bool" where
  "hash_fresh ht p \<longleftrightarrow> p \<notin> dom (cells ht)"

definition is_str :: "key_ptr \<Rightarrow> bool" where
  "is_str key \<longleftrightarrow> chars key \<noteq> []"

definition str_key :: "key_ptr \<Rightarrow> hkey" where
  "str_key key = StrKey (chars key)"

text \<open>The client's view: \<open>zend_hash_update\<close>, \<open>zend_hash_del\<close>, \<open>zend_hash_find\<close> and their integer-key
  counterparts, with the data looked up in place of its address.\<close>

definition str_store :: "nat \<Rightarrow> ptr \<Rightarrow> 'v HashTable \<Rightarrow> key_ptr \<Rightarrow> 'v \<Rightarrow> 'v HashTable option" where
  "str_store nDataSize new ht key v =
     map_option (\<lambda>(_, _, ht). ht) (zend_hash_add_or_update new ht key (length (chars key)) v nDataSize HASH_UPDATE)"

definition str_remove :: "'v HashTable \<Rightarrow> key_ptr \<Rightarrow> 'v HashTable option" where
  "str_remove ht key = map_option snd (zend_hash_del_key_or_index ht key (length (chars key)) 0 HASH_DEL_KEY)"

definition find_data :: "'v HashTable \<Rightarrow> (zresult \<times> ptr option) option \<Rightarrow> 'v option option" where
  "find_data ht res = map_option (\<lambda>(_, p). Option.bind p (data_at ht)) res"

definition str_fetch :: "'v HashTable \<Rightarrow> key_ptr \<Rightarrow> 'v option option" where
  "str_fetch ht key = find_data ht (zend_hash_find ht key (length (chars key)))"

definition int_store :: "nat \<Rightarrow> ptr \<Rightarrow> 'v HashTable \<Rightarrow> ulong \<Rightarrow> 'v \<Rightarrow> 'v HashTable option" where
  "int_store nDataSize new ht h v =
     map_option (\<lambda>(_, _, ht). ht) (zend_hash_index_update_or_next_insert new ht h v nDataSize HASH_UPDATE)"

definition int_remove :: "'v HashTable \<Rightarrow> ulong \<Rightarrow> 'v HashTable option" where
  "int_remove ht h = map_option snd (zend_hash_del_key_or_index ht NULLKEY 0 h HASH_DEL_INDEX)"

definition int_fetch :: "'v HashTable \<Rightarrow> ulong \<Rightarrow> 'v option option" where
  "int_fetch ht h = find_data ht (zend_hash_index_find ht h)"

lemma find_data_looked_up:
  assumes "table ht L kvs"
  shows "find_data ht (Some (looked_up ht L k)) = Some (map_of kvs k)"
proof (cases "ptr_of ht L k")
  case None
  then have "map_of kvs k = None"
    using ptr_of_None [OF tableD(1) [OF assms], of k] by (simp add: map_of_eq_None_iff)
  then show ?thesis using None by (simp add: find_data_def looked_up_def)
next
  case (Some p)
  then show ?thesis using data_at_ptr_of [OF tableD(1) [OF assms] Some] by (simp add: find_data_def looked_up_def)
qed

lemma inserted_fresh:
  assumes "inserted ht L kvs flag new k v N (r, pDest, ht')" "stored ht L kvs" "q \<noteq> new" "hash_fresh ht q"
  shows "hash_fresh ht' q"
proof -
  have "q \<notin> set L" using assms(4) wf_listD(2) [OF storedD(1) [OF assms(2)]] by (simp add: hash_fresh_def)
  moreover have "stored ht' (if k \<in> fst ` set kvs then L else L @ [new]) (snd (put flag k v kvs))"
    using assms(1) by (simp add: inserted_def Let_def)
  then have "dom (cells ht') = set (if k \<in> fst ` set kvs then L else L @ [new])"
    by (intro wf_listD(2) [symmetric] storedD(1))
  ultimately show ?thesis using assms(3) unfolding hash_fresh_def by simp
qed

lemma put_UPDATE [simp]: "put HASH_UPDATE k v kvs = (SUCCESS, AList.update k v kvs)"
  by (simp add: put_def)

lemma removed_ok:
  assumes t: "table ht L kvs" and k: "del_key key len h flag k"
  shows "\<exists>r ht'. zend_hash_del_key_or_index ht key len h flag = Some (r, ht') \<and>
    hash_holds ht' (AList.delete k kvs) \<and> (\<forall>q. hash_fresh ht q \<longrightarrow> hash_fresh ht' q)"
proof (cases "ptr_of ht L k")
  case None
  then have n: "k \<notin> fst ` set kvs" using ptr_of_None [OF tableD(1) [OF t]] by simp
  then show ?thesis
    using del_key_or_index_ok(1) [OF tableD(1) [OF t] k n] delete_absent [OF n] t by (auto simp: hash_holds_def)
next
  case (Some p)
  obtain ht' v where d: "i_zend_hash_bucket_delete p ht = Some ht'" "stored ht' (remove1 p L) (AList.delete k kvs)"
      "nNextFreeElement ht' = nNextFreeElement ht"
    by (rule deleted_ok [OF tableD(1) [OF t] Some])
  have "next_free_ok (nNextFreeElement ht) (AList.delete k kvs)"
    using tableD(2) [OF t] by (rule next_free_ok_subset) (use AList.delete_keys [of k kvs] in \<open>auto simp: AList.delete_eq\<close>)
  then have "hash_holds ht' (AList.delete k kvs)" using d(2,3) by (auto simp: hash_holds_def table_def)
  moreover have "dom (cells ht') \<subseteq> dom (cells ht)"
    using wf_listD(2) [OF storedD(1) [OF d(2)]] wf_listD(2) [OF storedD(1) [OF tableD(1) [OF t]]]
      set_remove1_subset [of p L] by auto
  ultimately show ?thesis
    using del_key_or_index_ok(2) [OF tableD(1) [OF t] k Some] d(1) by (auto simp: hash_fresh_def)
qed

interpretation hash_str: map_store hash_holds hash_fresh is_str str_key "str_store nDataSize" str_remove str_fetch
  for nDataSize :: nat
proof unfold_locales
  fix t :: "'v HashTable" and kvs
  assume "hash_holds t kvs"
  then show "distinct (map fst kvs)" by (auto simp: hash_holds_def dest: tableD(1) storedD(6))
next
  fix t :: "'v HashTable" and kvs a
  assume "hash_holds t kvs" and a: "is_str a"
  then obtain L where t: "table t L kvs" by (auto simp: hash_holds_def)
  have "str_arg a (length (chars a))" using a by (simp add: str_arg_def is_str_def)
  then show "str_fetch t a = Some (map_of kvs (str_key a))"
    using quick_find_ok(2) [OF tableD(1) [OF t]] find_data_looked_up [OF t]
    by (simp add: str_fetch_def str_key_def)
next
  fix t :: "'v HashTable" and kvs a p v
  assume "hash_holds t kvs" and a: "is_str a" and p: "hash_fresh t p" and len: "Suc (length kvs) < 2 ^ 32"
  then obtain L where t: "table t L kvs" by (auto simp: hash_holds_def)
  have arg: "str_arg a (length (chars a))" using a by (simp add: str_arg_def is_str_def)
  obtain r d ht' where i: "zend_hash_add_or_update p t a (length (chars a)) v nDataSize HASH_UPDATE = Some (r, d, ht')"
      "inserted t L kvs HASH_UPDATE p (StrKey (chars a)) v id (r, d, ht')"
    using add_or_update_ok [OF tableD(1) [OF t] arg, of p HASH_UPDATE v nDataSize] p len
      stored_length [OF tableD(1) [OF t]] by (auto simp: hash_fresh_def)
  have "hash_holds ht' (AList.update (StrKey (chars a)) v kvs)"
    using inserted_str_table [OF t i(2)] unfolding hash_holds_def put_UPDATE snd_conv by blast
  then show "\<exists>t'. str_store nDataSize p t a v = Some t' \<and> hash_holds t' (AList.update (str_key a) v kvs) \<and>
      (\<forall>q. q \<noteq> p \<longrightarrow> hash_fresh t q \<longrightarrow> hash_fresh t' q)"
    using i inserted_fresh [OF i(2) tableD(1) [OF t]] by (auto simp: str_store_def str_key_def)
next
  fix t :: "'v HashTable" and kvs a
  assume "hash_holds t kvs" and a: "is_str a"
  then obtain L where t: "table t L kvs" by (auto simp: hash_holds_def)
  have "del_key a (length (chars a)) 0 HASH_DEL_KEY (StrKey (chars a))"
    using a by (simp add: del_key_def str_arg_def is_str_def)
  from removed_ok [OF t this]
  show "\<exists>t'. str_remove t a = Some t' \<and> hash_holds t' (AList.delete (str_key a) kvs) \<and>
      (\<forall>q. hash_fresh t q \<longrightarrow> hash_fresh t' q)"
    by (auto simp: str_remove_def str_key_def)
qed

interpretation hash_int: map_store hash_holds hash_fresh "\<lambda>_. True" IntKey "int_store nDataSize" int_remove int_fetch
  for nDataSize :: nat
proof unfold_locales
  fix t :: "'v HashTable" and kvs a
  assume "hash_holds t kvs"
  then obtain L where t: "table t L kvs" by (auto simp: hash_holds_def)
  show "distinct (map fst kvs)" using storedD(6) [OF tableD(1) [OF t]] .
  show "int_fetch t a = Some (map_of kvs (IntKey a))"
    using index_find_ok(1) [OF tableD(1) [OF t]] find_data_looked_up [OF t] by (simp add: int_fetch_def)
  have "del_key NULLKEY 0 a HASH_DEL_INDEX (IntKey a)" by (simp add: del_key_def)
  from removed_ok [OF t this]
  show "\<exists>t'. int_remove t a = Some t' \<and> hash_holds t' (AList.delete (IntKey a) kvs) \<and>
      (\<forall>q. hash_fresh t q \<longrightarrow> hash_fresh t' q)"
    by (auto simp: int_remove_def)
next
  fix t :: "'v HashTable" and kvs a p v
  assume "hash_holds t kvs" and p: "hash_fresh t p" and len: "Suc (length kvs) < 2 ^ 32"
  then obtain L where t: "table t L kvs" by (auto simp: hash_holds_def)
  obtain r d ht' where i: "zend_hash_index_update_or_next_insert p t a v nDataSize HASH_UPDATE = Some (r, d, ht')"
      "inserted t L kvs HASH_UPDATE p (IntKey a) v (bump a) (r, d, ht')"
    using index_update_or_next_insert_ok [OF tableD(1) [OF t], of p a v nDataSize HASH_UPDATE] p len
      stored_length [OF tableD(1) [OF t]] by (auto simp: hash_fresh_def index_arg_def)
  have "hash_holds ht' (AList.update (IntKey a) v kvs)"
    using inserted_int_table [OF t i(2)] unfolding hash_holds_def put_UPDATE snd_conv by blast
  then show "\<exists>t'. int_store nDataSize p t a v = Some t' \<and> hash_holds t' (AList.update (IntKey a) v kvs) \<and>
      (\<forall>q. q \<noteq> p \<longrightarrow> hash_fresh t q \<longrightarrow> hash_fresh t' q)"
    using i inserted_fresh [OF i(2) tableD(1) [OF t]] by (auto simp: int_store_def)
qed

section \<open>A sample table\<close>

definition empty_ht :: "nat HashTable" where
  "empty_ht = \<lparr>nTableSize = 8, nTableMask = 0, nNumOfElements = 0, nNextFreeElement = 0, pInternalPointer = None,
     pListHead = None, pListTail = None, arBuckets = [Some None], pDestructor = True, persistent = False,
     nApplyCount = 0, bApplyProtection = True, cells = Map.empty, destroyed = [], dataBlocks = 0\<rparr>"

lemma empty_ht_table: "table empty_ht [] []"
  by (rule empty_table [where k = 3]) (simp_all add: empty_ht_def)

text \<open>The table \<^verbatim>\<open>["a" => 5, 7 => 6]\<close>, its buckets at addresses 1 and 2.\<close>

definition sample_key :: key_ptr where
  "sample_key = Foreign 0 [97, 0]"

definition ht_of :: "(zresult \<times> ptr option \<times> 'v HashTable) option \<Rightarrow> 'v HashTable" where
  "ht_of res = snd (snd (the res))"

definition sample_ht :: "nat HashTable" where
  "sample_ht = ht_of (zend_hash_index_update_or_next_insert 2
     (ht_of (zend_hash_add_or_update 1 empty_ht sample_key 2 5 8 HASH_UPDATE)) 7 6 16 HASH_UPDATE)"

lemma sample_str_arg [simp]: "str_arg sample_key 2" "chars sample_key = [97, 0]"
  by (simp_all add: str_arg_def sample_key_def)

lemma sample_table:
  "table sample_ht [1, 2] [(StrKey [97, 0], 5), (IntKey 7, 6)]" "settings sample_ht = (True, False, 0, True)"
  "destroyed sample_ht = []" "nNextFreeElement sample_ht = 8" "pInternalPointer sample_ht = Some 1"
proof -
  define h1 where "h1 = ht_of (zend_hash_add_or_update 1 empty_ht sample_key 2 5 8 HASH_UPDATE)"
  obtain r1 where "zend_hash_add_or_update 1 empty_ht sample_key 2 5 8 HASH_UPDATE = Some r1"
      "inserted empty_ht [] [] HASH_UPDATE 1 (StrKey [97, 0]) 5 id r1"
    using add_or_update_ok [OF tableD(1) [OF empty_ht_table] sample_str_arg(1), of 1 HASH_UPDATE 5 8]
    by (auto simp: empty_ht_def)
  then have i1: "inserted empty_ht [] [] HASH_UPDATE 1 (StrKey [97, 0]) 5 id (fst r1, fst (snd r1), h1)"
    by (simp add: h1_def ht_of_def)
  have t1: "table h1 [1] [(StrKey [97, 0], 5)]" using inserted_str_table [OF empty_ht_table i1] by simp
  have s1: "settings h1 = (True, False, 0, True)" "destroyed h1 = []" "nNextFreeElement h1 = 0" "pInternalPointer h1 = Some 1"
    using i1 by (auto simp: inserted_def Let_def empty_ht_def settings_def dtor_log_def replaced_def)
  have d1: "2 \<notin> dom (cells h1)" unfolding stored_dom [OF tableD(1) [OF t1]] by simp
  obtain r2 where "zend_hash_index_update_or_next_insert 2 h1 7 6 16 HASH_UPDATE = Some r2"
      "inserted h1 [1] [(StrKey [97, 0], 5)] HASH_UPDATE 2 (IntKey 7) 6 (bump 7) r2"
    using index_update_or_next_insert_ok [OF tableD(1) [OF t1] d1, of 7 6 16 HASH_UPDATE] by (auto simp: index_arg_def)
  then have i2: "inserted h1 [1] [(StrKey [97, 0], 5)] HASH_UPDATE 2 (IntKey 7) 6 (bump 7) (fst r2, fst (snd r2), sample_ht)"
    by (simp add: sample_ht_def ht_of_def h1_def)
  show "table sample_ht [1, 2] [(StrKey [97, 0], 5), (IntKey 7, 6)]" using inserted_int_table [OF t1 i2] by simp
  show "settings sample_ht = (True, False, 0, True)" "destroyed sample_ht = []" "nNextFreeElement sample_ht = 8"
    "pInternalPointer sample_ht = Some 1"
    using i2 s1 by (auto simp: inserted_def Let_def dtor_log_def replaced_def bump_def LONG_MAX_def word_sle_eq)
qed

section \<open>Properties\<close>

lemma inserted_dest:
  assumes "inserted ht L kvs flag new k v N (r, pDest, ht')" "r = SUCCESS"
  shows "\<exists>p. pDest = Some p \<and> data_at ht' p = Some v"
proof -
  let ?L = "if k \<in> fst ` set kvs then L else L @ [new]"
  have s: "put flag k v kvs = (SUCCESS, AList.update k v kvs)" "stored ht' ?L (snd (put flag k v kvs))"
      "pDest = ptr_of ht' ?L k"
    using assms by (simp_all add: inserted_def Let_def put_def split: if_splits)
  have "k \<in> fst ` set (AList.update k v kvs)" by (simp add: fst_update)
  then obtain p where p: "ptr_of ht' ?L k = Some p" using ptr_of_None [OF s(2), of k] s(1) by auto
  have "data_at ht' p = map_of (AList.update k v kvs) k" using data_at_ptr_of [OF s(2) p] s(1) by simp
  then show ?thesis using s(3) p by (simp add: AList.update_conv')
qed

text \<open>
  C2: \<^verbatim>\<open>zend_hash_add\<close> and \<^verbatim>\<open>zend_hash_update\<close> on a table that holds \<open>kvs\<close>. The call returns (no fault,
  no endless loop, also when the table has to grow) and the table then holds \<open>put flag k v kvs\<close>:
  a new key goes to the end, an existing key keeps its position and gets the new data
  (\<open>HASH_UPDATE\<close>) or refuses the call and keeps everything (\<open>HASH_ADD\<close>). The destructor has been
  called exactly on the data that was replaced, all other settings are unchanged, and on
  success \<^verbatim>\<open>*pDest\<close> designates the data just stored.
\<close>

theorem hash_add_or_update_spec:
  assumes "table ht L kvs" "str_arg key len" "new \<notin> dom (cells ht)" "Suc (length L) < 2 ^ 32"
    and "flag = HASH_UPDATE \<or> flag = HASH_ADD"
  shows "\<exists>pDest ht'.
    zend_hash_add_or_update new ht key len v nDataSize flag =
      Some (fst (put flag (StrKey (chars key)) v kvs), pDest, ht') \<and>
    table ht' (if StrKey (chars key) \<in> fst ` set kvs then L else L @ [new]) (snd (put flag (StrKey (chars key)) v kvs)) \<and>
    destroyed ht' = dtor_log ht (replaced flag (StrKey (chars key)) kvs) \<and> settings ht' = settings ht \<and>
    (fst (put flag (StrKey (chars key)) v kvs) = SUCCESS \<longrightarrow> (\<exists>p. pDest = Some p \<and> data_at ht' p = Some v))"
proof -
  obtain r pDest ht' where i: "zend_hash_add_or_update new ht key len v nDataSize flag = Some (r, pDest, ht')"
      "inserted ht L kvs flag new (StrKey (chars key)) v id (r, pDest, ht')"
    using add_or_update_ok [OF tableD(1) [OF assms(1)] assms(2-5), of v nDataSize] by auto
  have r: "r = fst (put flag (StrKey (chars key)) v kvs)" "settings ht' = settings ht"
      "destroyed ht' = dtor_log ht (replaced flag (StrKey (chars key)) kvs)"
    using i(2) by (simp_all add: inserted_def Let_def)
  show ?thesis
    using i(1) inserted_str_table [OF assms(1) i(2)] r inserted_dest [OF i(2)]
    by (intro exI [of _ pDest] exI [of _ ht']) simp
qed

theorem hash_add_or_update_spec_witness:
  "\<exists>p ht'. zend_hash_add_or_update 3 sample_ht sample_key 2 9 16 HASH_UPDATE = Some (SUCCESS, Some p, ht') \<and>
    table ht' [1, 2] [(StrKey [97, 0], 9), (IntKey 7, 6)] \<and> destroyed ht' = [5] \<and> data_at ht' p = Some 9"
proof -
  have "3 \<notin> dom (cells sample_ht)" unfolding stored_dom [OF tableD(1) [OF sample_table(1)]] by simp
  from hash_add_or_update_spec [OF sample_table(1) sample_str_arg(1) this, of HASH_UPDATE 9 16]
  obtain p ht' where h: "zend_hash_add_or_update 3 sample_ht sample_key 2 9 16 HASH_UPDATE = Some (SUCCESS, Some p, ht')"
      "table ht' [1, 2] [(StrKey [97, 0], 9), (IntKey 7, 6)]" "destroyed ht' = dtor_log sample_ht [5]" "data_at ht' p = Some 9"
    by (auto simp: replaced_def)
  have "destroyed ht' = [5]" using h(3) sample_table(2,3) by (simp add: dtor_log_def settings_def)
  with h show ?thesis by blast
qed

text \<open>
  C9: the integer-key functions \<^verbatim>\<open>zend_hash_index_update\<close> and \<^verbatim>\<open>zend_hash_next_index_insert\<close> do the
  same for the key \<open>h\<close>, respectively for the next free index. That index is afterwards the
  signed maximum of its old value and \<open>h + 1\<close>, and saturates at \<^verbatim>\<open>LONG_MAX\<close> instead of wrapping.
\<close>

theorem hash_index_insert_spec:
  assumes "table ht L kvs" "new \<notin> dom (cells ht)" "Suc (length L) < 2 ^ 32"
    and "g = (if flag = HASH_NEXT_INSERT then nNextFreeElement ht else h)"
  shows "\<exists>pDest ht'.
    zend_hash_index_update_or_next_insert new ht h v nDataSize flag = Some (fst (put flag (IntKey g) v kvs), pDest, ht') \<and>
    table ht' (if IntKey g \<in> fst ` set kvs then L else L @ [new]) (snd (put flag (IntKey g) v kvs)) \<and>
    destroyed ht' = dtor_log ht (replaced flag (IntKey g) kvs) \<and> settings ht' = settings ht \<and>
    (fst (put flag (IntKey g) v kvs) = SUCCESS \<longrightarrow> (\<exists>p. pDest = Some p \<and> data_at ht' p = Some v)) \<and>
    sint (nNextFreeElement ht') =
      (if IntKey g \<in> fst ` set kvs then sint (nNextFreeElement ht)
       else max (sint (nNextFreeElement ht)) (min (sint g + 1) (2 ^ 63 - 1)))"
proof -
  have g: "index_arg ht flag h = g" by (simp add: index_arg_def assms(4))
  obtain r pDest ht' where i: "zend_hash_index_update_or_next_insert new ht h v nDataSize flag = Some (r, pDest, ht')"
      "inserted ht L kvs flag new (IntKey g) v (bump g) (r, pDest, ht')"
    using index_update_or_next_insert_ok [OF tableD(1) [OF assms(1)] assms(2,3), of h v nDataSize flag] g by auto
  have n: "0 \<le> sint (nNextFreeElement ht)" using tableD(2) [OF assms(1)] by (simp add: next_free_ok_iff)
  have r: "r = fst (put flag (IntKey g) v kvs)" "settings ht' = settings ht"
      "destroyed ht' = dtor_log ht (replaced flag (IntKey g) kvs)"
      "nNextFreeElement ht' = (if IntKey g \<in> fst ` set kvs then nNextFreeElement ht else bump g (nNextFreeElement ht))"
    using i(2) by (simp_all add: inserted_def Let_def)
  show ?thesis
    using i(1) inserted_int_table [OF assms(1) i(2)] r inserted_dest [OF i(2)] sint_bump [OF n, of g]
    by (intro exI [of _ pDest] exI [of _ ht']) simp
qed

theorem hash_index_insert_spec_witness:
  "\<exists>pDest ht'. zend_hash_index_update_or_next_insert 3 sample_ht 0 4 8 HASH_NEXT_INSERT = Some (SUCCESS, pDest, ht') \<and>
    table ht' [1, 2, 3] [(StrKey [97, 0], 5), (IntKey 7, 6), (IntKey 8, 4)] \<and> sint (nNextFreeElement ht') = 9"
proof -
  have "3 \<notin> dom (cells sample_ht)" unfolding stored_dom [OF tableD(1) [OF sample_table(1)]] by simp
  from hash_index_insert_spec [OF sample_table(1) this, of 8 HASH_NEXT_INSERT 0 4 8] show ?thesis
    by (auto simp: sample_table(4) put_def)
qed

text \<open>
  C10: appending with \<^verbatim>\<open>zend_hash_next_index_insert\<close> fails exactly when the key \<^verbatim>\<open>LONG_MAX\<close> is in use; in
  every other state it succeeds and adds an entry under a key that is not in the table and is
  greater than every integer key in it.
\<close>

theorem hash_next_index_insert_fails_iff:
  assumes "table ht L kvs" "new \<notin> dom (cells ht)" "Suc (length L) < 2 ^ 32"
  shows "\<exists>r pDest ht'. zend_hash_index_update_or_next_insert new ht h v nDataSize HASH_NEXT_INSERT = Some (r, pDest, ht') \<and>
    (r = FAILURE \<longleftrightarrow> IntKey LONG_MAX \<in> fst ` set kvs) \<and>
    (r = SUCCESS \<longrightarrow> table ht' (L @ [new]) (kvs @ [(IntKey (nNextFreeElement ht), v)]) \<and>
       (\<forall>g. IntKey g \<in> fst ` set kvs \<longrightarrow> g <s nNextFreeElement ht))"
proof -
  let ?n = "nNextFreeElement ht"
  have n: "next_free_ok ?n kvs" by (rule tableD(2) [OF assms(1)])
  have e: "IntKey ?n \<in> fst ` set kvs \<longleftrightarrow> IntKey LONG_MAX \<in> fst ` set kvs"
  proof
    assume "IntKey ?n \<in> fst ` set kvs"
    then have "?n <s ?n \<or> ?n = LONG_MAX" using n by (auto simp: next_free_ok_def)
    then show "IntKey LONG_MAX \<in> fst ` set kvs" using \<open>IntKey ?n \<in> fst ` set kvs\<close> by (simp add: word_sless_alt)
  next
    assume m: "IntKey LONG_MAX \<in> fst ` set kvs"
    then have "LONG_MAX <s ?n \<or> ?n = LONG_MAX" using n by (auto simp: next_free_ok_def)
    then have "?n = LONG_MAX" using sint_ulong_bounds(2) [of ?n] by (auto simp: word_sless_alt)
    with m show "IntKey ?n \<in> fst ` set kvs" by simp
  qed
  obtain r pDest ht' where i: "zend_hash_index_update_or_next_insert new ht h v nDataSize HASH_NEXT_INSERT = Some (r, pDest, ht')"
      "inserted ht L kvs HASH_NEXT_INSERT new (IntKey ?n) v (bump ?n) (r, pDest, ht')"
    using index_update_or_next_insert_ok [OF tableD(1) [OF assms(1)] assms(2,3), of h v nDataSize HASH_NEXT_INSERT]
    by (auto simp: index_arg_def)
  have r: "r = (if IntKey ?n \<in> fst ` set kvs then FAILURE else SUCCESS)"
    using i(2) by (simp add: inserted_def Let_def put_def)
  have "table ht' (L @ [new]) (kvs @ [(IntKey ?n, v)]) \<and> (\<forall>g. IntKey g \<in> fst ` set kvs \<longrightarrow> g <s ?n)" if "r = SUCCESS"
  proof -
    have "IntKey ?n \<notin> fst ` set kvs" using that r by (auto split: if_splits)
    then show ?thesis
      using inserted_int_table [OF assms(1) i(2)] n e by (auto simp: put_def update_new next_free_ok_def)
  qed
  then show ?thesis using i(1) r e by (intro exI [of _ r] exI [of _ pDest] exI [of _ ht']) simp
qed

theorem hash_next_index_insert_fails_iff_witness:
  "\<exists>r pDest ht'. zend_hash_index_update_or_next_insert 3 sample_ht 0 4 8 HASH_NEXT_INSERT = Some (r, pDest, ht') \<and>
    r \<noteq> FAILURE \<and> IntKey LONG_MAX \<notin> fst ` set [(StrKey [97, 0], 5 :: nat), (IntKey 7, 6)]"
proof -
  have "3 \<notin> dom (cells sample_ht)" unfolding stored_dom [OF tableD(1) [OF sample_table(1)]] by simp
  from hash_next_index_insert_fails_iff [OF sample_table(1) this, of 0 4 8] show ?thesis
    by (auto simp: LONG_MAX_def)
qed

text \<open>
  C4: lookups by string and by integer key. \<^verbatim>\<open>zend_hash_find\<close> and \<^verbatim>\<open>zend_hash_quick_find\<close> (given the
  right hash) return \<^verbatim>\<open>SUCCESS\<close> and a bucket with the data stored under the key, or \<^verbatim>\<open>FAILURE\<close> if
  the table does not hold the key; \<^verbatim>\<open>zend_hash_exists\<close> and \<^verbatim>\<open>zend_hash_quick_exists\<close> agree with that; the
  integer-key functions find exactly the integer keys, never a string key with the same hash.
\<close>

theorem hash_find_spec:
  assumes "table ht L kvs" "str_arg key len"
  shows "find_data ht (zend_hash_find ht key len) = Some (map_of kvs (StrKey (chars key))) \<and>
    zend_hash_quick_find ht key len (zend_inline_hash_func (chars key)) = zend_hash_find ht key len \<and>
    map_option fst (zend_hash_find ht key len) =
      Some (if StrKey (chars key) \<in> fst ` set kvs then SUCCESS else FAILURE) \<and>
    zend_hash_exists ht key len = Some (StrKey (chars key) \<in> fst ` set kvs) \<and>
    zend_hash_quick_exists ht key len (zend_inline_hash_func (chars key)) = zend_hash_exists ht key len \<and>
    find_data ht (zend_hash_index_find ht h) = Some (map_of kvs (IntKey h)) \<and>
    map_option fst (zend_hash_index_find ht h) = Some (if IntKey h \<in> fst ` set kvs then SUCCESS else FAILURE) \<and>
    zend_hash_index_exists ht h = Some (IntKey h \<in> fst ` set kvs)"
proof -
  note st = tableD(1) [OF assms(1)]
  have "fst (looked_up ht L k) = (if k \<in> fst ` set kvs then SUCCESS else FAILURE)" for k
    using ptr_of_None [OF st, of k] by (auto simp: looked_up_def split: option.splits)
  then show ?thesis
    using quick_find_ok [OF st assms(2)] index_find_ok [OF st, of h] find_data_looked_up [OF assms(1)] by simp
qed

theorem hash_find_spec_witness:
  "find_data sample_ht (zend_hash_find sample_ht sample_key 2) = Some (Some 5) \<and>
   find_data sample_ht (zend_hash_index_find sample_ht 7) = Some (Some 6) \<and> zend_hash_index_exists sample_ht 8 = Some False"
proof -
  note f = hash_find_spec [OF sample_table(1) sample_str_arg(1)]
  have "find_data sample_ht (zend_hash_find sample_ht sample_key 2) = Some (map_of [(StrKey [97, 0], 5), (IntKey 7, 6)] (StrKey [97, 0]))"
      "find_data sample_ht (zend_hash_index_find sample_ht 7) = Some (map_of [(StrKey [97, 0], 5), (IntKey 7, 6)] (IntKey 7))"
      "zend_hash_index_exists sample_ht 8 = Some (IntKey 8 \<in> fst ` set [(StrKey [97, 0], 5 :: nat), (IntKey 7, 6)])"
    using f [of 7] f [of 8] unfolding sample_str_arg(2) by blast+
  then show ?thesis by simp
qed

text \<open>
  C3: deletion by string key, by string key with its hash given, and by integer key. If the key is
  absent, the call fails and nothing changes. Otherwise exactly that entry disappears, the
  others keep their order, the destructor is called once, on the data removed, the bucket is
  freed, and the internal pointer moves to the next bucket if it stood on the deleted one.
\<close>

theorem hash_del_spec:
  assumes "table ht L kvs" "del_key key len h flag k"
  shows "(k \<notin> fst ` set kvs \<longrightarrow> zend_hash_del_key_or_index ht key len h flag = Some (FAILURE, ht)) \<and>
    (\<forall>v. map_of kvs k = Some v \<longrightarrow> (\<exists>ht' p. zend_hash_del_key_or_index ht key len h flag = Some (SUCCESS, ht') \<and>
      ptr_of ht L k = Some p \<and> table ht' (remove1 p L) (AList.delete k kvs) \<and> p \<notin> dom (cells ht') \<and>
      destroyed ht' = dtor_log ht [v] \<and> settings ht' = settings ht \<and>
      pInternalPointer ht' = (if pInternalPointer ht = Some p then nxt_of L p else pInternalPointer ht)))"
proof -
  note st = tableD(1) [OF assms(1)]
  have "\<exists>ht' p. zend_hash_del_key_or_index ht key len h flag = Some (SUCCESS, ht') \<and>
      ptr_of ht L k = Some p \<and> table ht' (remove1 p L) (AList.delete k kvs) \<and> p \<notin> dom (cells ht') \<and>
      destroyed ht' = dtor_log ht [v] \<and> settings ht' = settings ht \<and>
      pInternalPointer ht' = (if pInternalPointer ht = Some p then nxt_of L p else pInternalPointer ht)"
    if v: "map_of kvs k = Some v" for v
  proof -
    have "k \<in> fst ` set kvs" using v by (force dest: map_of_SomeD)
    then obtain p where p: "ptr_of ht L k = Some p" using ptr_of_None [OF st, of k] by auto
    obtain ht' w where d: "i_zend_hash_bucket_delete p ht = Some ht'" "stored ht' (remove1 p L) (AList.delete k kvs)"
        "map_of kvs k = Some w" "settings ht' = settings ht" "destroyed ht' = dtor_log ht [w]"
        "nNextFreeElement ht' = nNextFreeElement ht"
        "pInternalPointer ht' = (if pInternalPointer ht = Some p then nxt_of L p else pInternalPointer ht)"
      by (rule deleted_ok [OF st p])
    have "next_free_ok (nNextFreeElement ht) (AList.delete k kvs)"
      using tableD(2) [OF assms(1)] by (rule next_free_ok_subset) (auto simp: AList.delete_eq)
    then have "table ht' (remove1 p L) (AList.delete k kvs)" using d(2,6) by (simp add: table_def)
    moreover have "p \<notin> dom (cells ht')" using stored_dom [OF d(2)] stored_distinct [OF st] by simp
    ultimately show ?thesis
      using del_key_or_index_ok(2) [OF st assms(2) p] d v p by (intro exI [of _ ht'] exI [of _ p]) simp
  qed
  then show ?thesis using del_key_or_index_ok(1) [OF st assms(2)] by blast
qed

theorem hash_del_spec_witness:
  "\<exists>ht' p. zend_hash_del_key_or_index sample_ht sample_key 2 0 HASH_DEL_KEY = Some (SUCCESS, ht') \<and>
     table ht' (remove1 p [1, 2]) [(IntKey 7, 6)] \<and> p \<notin> dom (cells ht')"
proof -
  have "del_key sample_key 2 0 HASH_DEL_KEY (StrKey [97, 0])" by (simp add: del_key_def)
  from hash_del_spec [OF sample_table(1) this] show ?thesis by fastforce
qed

text \<open>
  \<^verbatim>\<open>_zend_hash_init\<close> ends, succeeds and gives an empty table without an array of slots, whose
  future size is the least power of two from 8 on that reaches the requested size, capped at
  \<open>2 ^ 31\<close>.
\<close>

theorem hash_init_spec:
  "\<exists>k ht'. zend_hash_init ht nSize dtor persist = Some (SUCCESS, ht') \<and> table ht' [] [] \<and>
    nTableSize ht' = 2 ^ k \<and> 3 \<le> k \<and> k \<le> 31 \<and> (nSize \<le> 2 ^ k \<or> k = 31) \<and> \<not> (\<exists>l\<ge>3. l < k \<and> nSize \<le> 2 ^ l) \<and>
    settings ht' = (dtor, persist, 0, True)"
proof -
  obtain k ht' where i: "zend_hash_init ht nSize dtor persist = Some (SUCCESS, ht')" "table ht' [] []"
      "nTableSize ht' = 2 ^ k" "3 \<le> k" "k \<le> 31" "nSize \<le> 2 ^ k \<or> k = 31" "\<forall>l. 3 \<le> l \<longrightarrow> l < k \<longrightarrow> 2 ^ l < nSize"
      "settings ht' = (dtor, persist, 0, True)"
    by (rule init_ok)
  show ?thesis by (intro exI [of _ k] exI [of _ ht']) (use i in \<open>auto simp: not_le\<close>)
qed

text \<open>
  C1: a table filled from empty by any sequence of \<^verbatim>\<open>zend_hash_update\<close> calls (with pairwise distinct
  addresses for the new buckets, and fewer than \<open>2 ^ 32\<close> of them) never faults, and
  afterwards \<^verbatim>\<open>zend_hash_find\<close> returns for every key the data of the last update of it, whatever
  collisions and however many resizes happened in between.
\<close>

theorem hash_last_update_wins:
  assumes "hash_holds ht []" "distinct (map fst xs)" "length xs < 2 ^ 32"
    and "\<forall>(p, key, v)\<in>set xs. hash_fresh ht p \<and> is_str key"
  shows "\<exists>ht'. store_list (str_store nDataSize) xs ht = Some ht' \<and>
    (\<forall>key. is_str key \<longrightarrow>
       str_fetch ht' key = Some (map_of (rev (map (\<lambda>(p, key, v). (str_key key, v)) xs)) (str_key key)))"
proof -
  obtain ht' where h: "store_list (str_store nDataSize) xs ht = Some ht'"
      "hash_holds ht' (fold (\<lambda>(p, a, v). AList.update (str_key a) v) xs [])"
    using hash_str.store_list_ok [OF assms(1,2,4), of nDataSize] assms(3) by auto
  have "map_of (fold (\<lambda>(p, a, v). AList.update (str_key a) v) xs kvs) k =
      map_of (rev (map (\<lambda>(p, a, v). (str_key a, v)) xs) @ kvs) k" for k and kvs :: "(hkey \<times> 'a) list"
    by (induction xs arbitrary: kvs) (auto simp: AList.update_conv' map_add_def split: option.splits)
  from this [of "[]"] show ?thesis
    by (intro exI [of _ ht'] conjI allI impI) (simp_all add: hash_str.fetch_ok [OF h(2)] h(1))
qed

theorem hash_last_update_wins_witness:
  "\<exists>ht'. store_list (str_store 8) [(1, sample_key, 3), (2, Foreign 1 [98, 0], 4), (3, sample_key, 5)] empty_ht = Some ht' \<and>
    str_fetch ht' sample_key = Some (Some (5 :: nat))"
proof -
  let ?xs = "[(1, sample_key, 3), (2, Foreign 1 [98, 0], 4), (3, sample_key, 5 :: nat)]"
  have "hash_holds empty_ht []" using empty_ht_table by (auto simp: hash_holds_def)
  moreover have "is_str sample_key" by (simp add: is_str_def)
  moreover have "\<forall>(p, key, v)\<in>set ?xs. hash_fresh empty_ht p \<and> is_str key"
    by (simp add: hash_fresh_def empty_ht_def is_str_def)
  ultimately show ?thesis
    using hash_last_update_wins [of empty_ht ?xs 8] by (auto simp: str_key_def)
qed

end
