(* ===== verification/Zend_Hash_Iter.thy ===== *)
theory Zend_Hash_Iter
  imports Zend_Hash_Map
begin

text \<open>
  Operations of \<^verbatim>\<open>zend_hash.c\<close> that run over a whole table: destroying and cleaning, applying a
  callback (which may delete the current element and stop the loop), copying and merging, and
  the cursor functions.

  A callback gets the data it may modify and threads a state of its own; it does not
  change the table other than through its return code. The address the allocator
  returns for a new bucket of a table is a parameter \<open>malloc\<close> of the copying functions.
\<close>

section \<open>Destroying\<close>

definition release_loop :: "ptr option \<Rightarrow> 'v HashTable \<Rightarrow> 'v HashTable option" where
  "release_loop p ht =
     walk (\<lambda>ht p. fld pListNext (cells ht) p)
       (\<lambda>q ht. map_option (\<lambda>ht. (ht, False)) (release_bucket q ht)) p ht"

definition free_slots :: "'v HashTable \<Rightarrow> 'v HashTable" where
  "free_slots ht = (if nTableMask ht \<noteq> 0 then ht\<lparr>arBuckets := []\<rparr> else ht)"

definition zend_hash_destroy :: "'v HashTable \<Rightarrow> 'v HashTable option" where
  "zend_hash_destroy ht = map_option free_slots (release_loop (pListHead ht) ht)"

definition zend_hash_clean :: "'v HashTable \<Rightarrow> 'v HashTable option" where
  "zend_hash_clean ht =
     do { let p = pListHead ht;
          ht \<leftarrow> (if nTableMask ht \<noteq> 0 then clear_slots ht else Some ht);
          let ht = ht\<lparr>pListHead := None, pListTail := None, nNumOfElements := 0, nNextFreeElement := 0,
                     pInternalPointer := None\<rparr>;
          release_loop p ht }"

definition zend_hash_graceful_destroy :: "'v HashTable \<Rightarrow> 'v HashTable option" where
  "zend_hash_graceful_destroy ht =
     map_option free_slots
       (iterate (\<lambda>p ht. do { ht \<leftarrow> zend_hash_bucket_delete p ht; Some (ht, pListHead ht) }) (pListHead ht) ht)"

definition zend_hash_graceful_reverse_destroy :: "'v HashTable \<Rightarrow> 'v HashTable option" where
  "zend_hash_graceful_reverse_destroy ht =
     map_option free_slots
       (iterate (\<lambda>p ht. do { ht \<leftarrow> zend_hash_bucket_delete p ht; Some (ht, pListTail ht) }) (pListTail ht) ht)"

section \<open>Applying a callback\<close>

text \<open>Return codes of callbacks; the bits combine. The protected functions return \<open>Inl\<close> when they bail out with
  the fatal error \<^verbatim>\<open>Nesting level too deep\<close>.\<close>

definition ZEND_HASH_APPLY_REMOVE :: uint where
  "ZEND_HASH_APPLY_REMOVE = 1"

definition ZEND_HASH_APPLY_STOP :: uint where
  "ZEND_HASH_APPLY_STOP = 2"

definition HASH_PROTECT_RECURSION :: "'v HashTable \<Rightarrow> 'v HashTable + 'v HashTable" where
  "HASH_PROTECT_RECURSION ht =
     (if bApplyProtection ht
      then (if nApplyCount ht \<ge> 3 then Inl (ht\<lparr>nApplyCount := nApplyCount ht + 1\<rparr>)
            else Inr (ht\<lparr>nApplyCount := nApplyCount ht + 1\<rparr>))
      else Inr ht)"

definition HASH_UNPROTECT_RECURSION :: "'v HashTable \<Rightarrow> 'v HashTable" where
  "HASH_UNPROTECT_RECURSION ht = (if bApplyProtection ht then ht\<lparr>nApplyCount := nApplyCount ht - 1\<rparr> else ht)"

definition apply_body ::
  "('v bucket \<Rightarrow> ptr option) \<Rightarrow> ('v bucket \<Rightarrow> 's \<Rightarrow> uint \<times> 'v \<times> 's) \<Rightarrow> ptr \<Rightarrow> 'v HashTable \<times> 's \<Rightarrow>
   (('v HashTable \<times> 's) \<times> ptr option) option" where
  "apply_body succ apply_func p = (\<lambda>(ht, s).
     do { b \<leftarrow> cells ht p;
          let (result, v, s) = apply_func b s;
          ht \<leftarrow> hpoke p (\<lambda>b. b\<lparr>pData := map_zdata (\<lambda>_. v) (pData b)\<rparr>) ht;
          b \<leftarrow> cells ht p;
          let p_next = succ b;
          ht \<leftarrow> (if result AND ZEND_HASH_APPLY_REMOVE \<noteq> 0 then zend_hash_bucket_delete p ht else Some ht);
          Some ((ht, s), if result AND ZEND_HASH_APPLY_STOP \<noteq> 0 then None else p_next) })"

definition zend_hash_apply ::
  "'v HashTable \<Rightarrow> ('v \<Rightarrow> 's \<Rightarrow> uint \<times> 'v \<times> 's) \<Rightarrow> 's \<Rightarrow> ('v HashTable + 'v HashTable \<times> 's) option" where
  "zend_hash_apply ht apply_func s =
     (case HASH_PROTECT_RECURSION ht of
        Inl ht \<Rightarrow> Some (Inl ht)
      | Inr ht \<Rightarrow>
          do { (ht, s) \<leftarrow> iterate (apply_body pListNext (\<lambda>b. apply_func (zval_of (pData b)))) (pListHead ht) (ht, s);
               Some (Inr (HASH_UNPROTECT_RECURSION ht, s)) })"

definition zend_hash_apply_with_argument ::
  "'v HashTable \<Rightarrow> ('v \<Rightarrow> 'arg \<Rightarrow> 's \<Rightarrow> uint \<times> 'v \<times> 's) \<Rightarrow> 'arg \<Rightarrow> 's \<Rightarrow> ('v HashTable + 'v HashTable \<times> 's) option" where
  "zend_hash_apply_with_argument ht apply_func argument s =
     (case HASH_PROTECT_RECURSION ht of
        Inl ht \<Rightarrow> Some (Inl ht)
      | Inr ht \<Rightarrow>
          do { (ht, s) \<leftarrow> iterate (apply_body pListNext (\<lambda>b. apply_func (zval_of (pData b)) argument)) (pListHead ht) (ht, s);
               Some (Inr (HASH_UNPROTECT_RECURSION ht, s)) })"

type_synonym hash_key = "key_ptr \<times> nat \<times> ulong"

definition hash_key_of :: "'v bucket \<Rightarrow> hash_key" where
  "hash_key_of p = (arKey p, nKeyLength p, bkt_h p)"

definition zend_hash_apply_with_arguments ::
  "'v HashTable \<Rightarrow> ('v \<Rightarrow> nat \<Rightarrow> 'arg list \<Rightarrow> hash_key \<Rightarrow> 's \<Rightarrow> uint \<times> 'v \<times> 's) \<Rightarrow> 'arg list \<Rightarrow> 's \<Rightarrow>
   ('v HashTable + 'v HashTable \<times> 's) option" where
  "zend_hash_apply_with_arguments ht apply_func args s =
     (case HASH_PROTECT_RECURSION ht of
        Inl ht \<Rightarrow> Some (Inl ht)
      | Inr ht \<Rightarrow>
          do { (ht, s) \<leftarrow> iterate
                 (apply_body pListNext (\<lambda>b. apply_func (zval_of (pData b)) (length args) args (hash_key_of b)))
                 (pListHead ht) (ht, s);
               Some (Inr (HASH_UNPROTECT_RECURSION ht, s)) })"

definition zend_hash_reverse_apply ::
  "'v HashTable \<Rightarrow> ('v \<Rightarrow> 's \<Rightarrow> uint \<times> 'v \<times> 's) \<Rightarrow> 's \<Rightarrow> ('v HashTable + 'v HashTable \<times> 's) option" where
  "zend_hash_reverse_apply ht apply_func s =
     (case HASH_PROTECT_RECURSION ht of
        Inl ht \<Rightarrow> Some (Inl ht)
      | Inr ht \<Rightarrow>
          do { (ht, s) \<leftarrow> iterate (apply_body pListLast (\<lambda>b. apply_func (zval_of (pData b)))) (pListTail ht) (ht, s);
               Some (Inr (HASH_UNPROTECT_RECURSION ht, s)) })"

section \<open>Copying and merging\<close>

text \<open>The copy constructor changes the entry just stored in place.\<close>

definition call_ctor :: "('v \<Rightarrow> 'v) option \<Rightarrow> ptr option \<Rightarrow> 'v HashTable \<Rightarrow> 'v HashTable option" where
  "call_ctor pCopyConstructor new_entry ht =
     (case pCopyConstructor of
        None \<Rightarrow> Some ht
      | Some f \<Rightarrow> (case new_entry of
                    None \<Rightarrow> None
                  | Some q \<Rightarrow> hpoke q (\<lambda>b. b\<lparr>pData := map_zdata f (pData b)\<rparr>) ht))"

definition zend_hash_copy ::
  "('v HashTable \<Rightarrow> ptr) \<Rightarrow> 'v HashTable \<Rightarrow> 'v HashTable \<Rightarrow> ('v \<Rightarrow> 'v) option \<Rightarrow> nat \<Rightarrow> 'v HashTable option" where
  "zend_hash_copy malloc target source pCopyConstructor size' =
     do { let setTargetPointer = (pInternalPointer target = None);
          target \<leftarrow> walk (\<lambda>_ p. fld pListNext (cells source) p)
            (\<lambda>p target. do {
               b \<leftarrow> cells source p;
               let target = (if setTargetPointer \<and> pInternalPointer source = Some p
                             then target\<lparr>pInternalPointer := None\<rparr> else target);
               (r, new_entry, target) \<leftarrow>
                 (if nKeyLength b \<noteq> 0
                  then zend_hash_quick_add_or_update (malloc target) target (arKey b) (nKeyLength b) (bkt_h b)
                         (zval_of (pData b)) size' HASH_UPDATE
                  else zend_hash_index_update_or_next_insert (malloc target) target (bkt_h b)
                         (zval_of (pData b)) size' HASH_UPDATE);
               target \<leftarrow> call_ctor pCopyConstructor new_entry target;
               Some (target, False) })
            (pListHead source) target;
          Some (if pInternalPointer target = None then target\<lparr>pInternalPointer := pListHead target\<rparr> else target) }"

definition zend_hash_merge ::
  "('v HashTable \<Rightarrow> ptr) \<Rightarrow> 'v HashTable \<Rightarrow> 'v HashTable \<Rightarrow> ('v \<Rightarrow> 'v) option \<Rightarrow> nat \<Rightarrow> bool \<Rightarrow> 'v HashTable option" where
  "zend_hash_merge malloc target source pCopyConstructor size' overwrite =
     do { let mode = (if overwrite then HASH_UPDATE else HASH_ADD);
          target \<leftarrow> walk (\<lambda>_ p. fld pListNext (cells source) p)
            (\<lambda>p target. do {
               b \<leftarrow> cells source p;
               target \<leftarrow>
                 (if nKeyLength b > 0
                  then do { (r, t, target) \<leftarrow> zend_hash_quick_add_or_update (malloc target) target (arKey b) (nKeyLength b)
                              (bkt_h b) (zval_of (pData b)) size' mode;
                            if r = SUCCESS then call_ctor pCopyConstructor t target else Some target }
                  else do { go \<leftarrow> (if mode = HASH_UPDATE then Some True
                                  else map_option Not (zend_hash_index_exists target (bkt_h b)));
                            if go
                            then do { (r, t, target) \<leftarrow> zend_hash_index_update_or_next_insert (malloc target) target
                                        (bkt_h b) (zval_of (pData b)) size' HASH_UPDATE;
                                      if r = SUCCESS then call_ctor pCopyConstructor t target else Some target }
                            else Some target });
               Some (target, False) })
            (pListHead source) target;
          Some (target\<lparr>pInternalPointer := pListHead target\<rparr>) }"

definition zend_hash_replace_checker_wrapper ::
  "'v HashTable \<Rightarrow> 'v \<Rightarrow> 'v bucket \<Rightarrow> 'arg \<Rightarrow> ('v HashTable \<Rightarrow> 'v \<Rightarrow> hash_key \<Rightarrow> 'arg \<Rightarrow> bool) \<Rightarrow> bool" where
  "zend_hash_replace_checker_wrapper target source_data p pParam merge_checker_func =
     merge_checker_func target source_data (hash_key_of p) pParam"

definition zend_hash_merge_ex ::
  "('v HashTable \<Rightarrow> ptr) \<Rightarrow> 'v HashTable \<Rightarrow> 'v HashTable \<Rightarrow> ('v \<Rightarrow> 'v) option \<Rightarrow> nat \<Rightarrow>
   ('v HashTable \<Rightarrow> 'v \<Rightarrow> hash_key \<Rightarrow> 'arg \<Rightarrow> bool) \<Rightarrow> 'arg \<Rightarrow> 'v HashTable option" where
  "zend_hash_merge_ex malloc target source pCopyConstructor size' pMergeSource pParam =
     do { target \<leftarrow> walk (\<lambda>_ p. fld pListNext (cells source) p)
            (\<lambda>p target. do {
               b \<leftarrow> cells source p;
               target \<leftarrow>
                 (if zend_hash_replace_checker_wrapper target (zval_of (pData b)) b pParam pMergeSource
                  then do { (r, t, target) \<leftarrow> zend_hash_quick_add_or_update (malloc target) target (arKey b) (nKeyLength b)
                              (bkt_h b) (zval_of (pData b)) size' HASH_UPDATE;
                            if r = SUCCESS then call_ctor pCopyConstructor t target else Some target }
                  else Some target);
               Some (target, False) })
            (pListHead source) target;
          Some (target\<lparr>pInternalPointer := pListHead target\<rparr>) }"

section \<open>Cursors\<close>

text \<open>A cursor argument is a position of the caller's (\<open>Some pos\<close>) or the internal pointer of the table (\<open>None\<close>,
  the null pointer of the C functions).\<close>

record HashPointer =
  hp_pos :: "ptr option"
  hp_h :: ulong

definition zend_hash_get_pointer :: "'v HashTable \<Rightarrow> (bool \<times> HashPointer) option" where
  "zend_hash_get_pointer ht =
     (case pInternalPointer ht of
        Some p \<Rightarrow> map_option (\<lambda>b. (True, \<lparr>hp_pos = Some p, hp_h = bkt_h b\<rparr>)) (cells ht p)
      | None \<Rightarrow> Some (False, \<lparr>hp_pos = None, hp_h = 0\<rparr>))"

definition zend_hash_set_pointer :: "'v HashTable \<Rightarrow> HashPointer \<Rightarrow> (bool \<times> 'v HashTable) option" where
  "zend_hash_set_pointer ht ptr' =
     (case hp_pos ptr' of
        None \<Rightarrow> Some (True, ht\<lparr>pInternalPointer := None\<rparr>)
      | Some pos \<Rightarrow>
          if pInternalPointer ht \<noteq> Some pos
          then do { head \<leftarrow> slot_get ht (slot_index (nTableMask ht) (hp_h ptr'));
                    found \<leftarrow> cell_search (cells ht) pNext (\<lambda>p _. p = pos) head;
                    Some (case found of
                            Some p \<Rightarrow> (True, ht\<lparr>pInternalPointer := Some p\<rparr>)
                          | None \<Rightarrow> (False, ht)) }
          else Some (True, ht))"

definition current :: "'v HashTable \<Rightarrow> ptr option option \<Rightarrow> ptr option" where
  "current ht pos = (case pos of Some p \<Rightarrow> p | None \<Rightarrow> pInternalPointer ht)"

definition set_current :: "ptr option \<Rightarrow> 'v HashTable \<Rightarrow> ptr option option \<Rightarrow> 'v HashTable \<times> ptr option option" where
  "set_current p ht pos =
     (case pos of Some _ \<Rightarrow> (ht, Some p) | None \<Rightarrow> (ht\<lparr>pInternalPointer := p\<rparr>, None))"

definition zend_hash_internal_pointer_reset_ex ::
  "'v HashTable \<Rightarrow> ptr option option \<Rightarrow> 'v HashTable \<times> ptr option option" where
  "zend_hash_internal_pointer_reset_ex ht pos = set_current (pListHead ht) ht pos"

definition zend_hash_internal_pointer_end_ex ::
  "'v HashTable \<Rightarrow> ptr option option \<Rightarrow> 'v HashTable \<times> ptr option option" where
  "zend_hash_internal_pointer_end_ex ht pos = set_current (pListTail ht) ht pos"

definition zend_hash_move_forward_ex ::
  "'v HashTable \<Rightarrow> ptr option option \<Rightarrow> (zresult \<times> 'v HashTable \<times> ptr option option) option" where
  "zend_hash_move_forward_ex ht pos =
     (case current ht pos of
        Some p \<Rightarrow> do { b \<leftarrow> cells ht p; Some (SUCCESS, set_current (pListNext b) ht pos) }
      | None \<Rightarrow> Some (FAILURE, ht, pos))"

definition zend_hash_move_backwards_ex ::
  "'v HashTable \<Rightarrow> ptr option option \<Rightarrow> (zresult \<times> 'v HashTable \<times> ptr option option) option" where
  "zend_hash_move_backwards_ex ht pos =
     (case current ht pos of
        Some p \<Rightarrow> do { b \<leftarrow> cells ht p; Some (SUCCESS, set_current (pListLast b) ht pos) }
      | None \<Rightarrow> Some (FAILURE, ht, pos))"

datatype key_result =
    HASH_KEY_IS_STRING key_ptr nat
  | HASH_KEY_IS_LONG ulong
  | HASH_KEY_NON_EXISTENT

text \<open>With \<open>duplicate\<close> the caller gets a copy of the string (at the address \<open>dup\<close>, NUL-terminated by
  \<^verbatim>\<open>estrndup\<close>), otherwise the pointer of the bucket.\<close>

definition estrndup :: "nat \<Rightarrow> key_ptr \<Rightarrow> nat \<Rightarrow> key_ptr" where
  "estrndup dup key n = Foreign dup (take n (chars key) @ [0])"

definition zend_hash_get_current_key_ex ::
  "nat \<Rightarrow> 'v HashTable \<Rightarrow> bool \<Rightarrow> ptr option option \<Rightarrow> key_result option" where
  "zend_hash_get_current_key_ex dup ht duplicate pos =
     (case current ht pos of
        Some p \<Rightarrow>
          do { b \<leftarrow> cells ht p;
               Some (if nKeyLength b \<noteq> 0
                     then HASH_KEY_IS_STRING
                            (if duplicate then estrndup dup (arKey b) (nKeyLength b - 1) else arKey b) (nKeyLength b)
                     else HASH_KEY_IS_LONG (bkt_h b)) }
      | None \<Rightarrow> Some HASH_KEY_NON_EXISTENT)"

datatype key_zval = IS_NULL | IS_STRING key_ptr nat | IS_LONG ulong

definition zend_hash_get_current_key_zval_ex :: "nat \<Rightarrow> 'v HashTable \<Rightarrow> ptr option option \<Rightarrow> key_zval option" where
  "zend_hash_get_current_key_zval_ex dup ht pos =
     (case current ht pos of
        None \<Rightarrow> Some IS_NULL
      | Some p \<Rightarrow>
          do { b \<leftarrow> cells ht p;
               Some (if nKeyLength b \<noteq> 0
                     then IS_STRING (if IS_INTERNED (arKey b) then arKey b else estrndup dup (arKey b) (nKeyLength b - 1))
                            (nKeyLength b - 1)
                     else IS_LONG (bkt_h b)) })"

datatype key_type = KEY_IS_STRING | KEY_IS_LONG | KEY_NON_EXISTENT

definition zend_hash_get_current_key_type_ex :: "'v HashTable \<Rightarrow> ptr option option \<Rightarrow> key_type option" where
  "zend_hash_get_current_key_type_ex ht pos =
     (case current ht pos of
        Some p \<Rightarrow> map_option (\<lambda>b. if nKeyLength b \<noteq> 0 then KEY_IS_STRING else KEY_IS_LONG) (cells ht p)
      | None \<Rightarrow> Some KEY_NON_EXISTENT)"

definition zend_hash_get_current_data_ex :: "'v HashTable \<Rightarrow> ptr option option \<Rightarrow> (zresult \<times> 'v option) option" where
  "zend_hash_get_current_data_ex ht pos =
     (case current ht pos of
        Some p \<Rightarrow> map_option (\<lambda>b. (SUCCESS, Some (zval_of (pData b)))) (cells ht p)
      | None \<Rightarrow> Some (FAILURE, None))"

section \<open>Destroying releases everything\<close>

definition next_linked :: "(ptr \<rightharpoonup> ptr option) \<Rightarrow> ptr list \<Rightarrow> bool" where
  "next_linked nx xs \<longleftrightarrow> distinct xs \<and> (\<forall>p\<in>set xs. nx p = Some (nxt_of xs p))"

lemma linked_next: "linked nx pv xs \<Longrightarrow> next_linked nx xs"
  by (auto simp: linked_def next_linked_def)

lemma next_linked_Cons:
  assumes "next_linked nx (a # xs)"
  shows "nx a = Some (first_of xs)" "next_linked nx xs"
proof -
  have d: "distinct (a # xs)" using assms by (simp add: next_linked_def)
  show "nx a = Some (first_of xs)" using assms by (cases xs) (auto simp: next_linked_def nxt_of_Cons)
  show "next_linked nx xs" using assms d by (auto simp: next_linked_def nxt_of_Cons)
qed

lemma next_linked_cong:
  "next_linked nx xs \<Longrightarrow> (\<And>p. p \<in> set xs \<Longrightarrow> nx' p = nx p) \<Longrightarrow> next_linked nx' xs"
  by (simp add: next_linked_def)

lemma release_loop_ok:
  assumes "next_linked (fld pListNext (cells ht)) L" "set L = dom (cells ht)"
    and "map (fld bentry (cells ht)) L = map Some kvs" "dataBlocks ht = blocks (cells ht) L"
  shows "release_loop (first_of L) ht =
    Some (ht\<lparr>cells := Map.empty, destroyed := dtor_log ht (map snd kvs), dataBlocks := 0\<rparr>)"
  using assms
proof (induction L arbitrary: ht kvs)
  case Nil
  then have "cells ht = Map.empty" "kvs = []" "dataBlocks ht = 0" by (auto simp: blocks_def)
  then show ?case by (simp add: release_loop_def dtor_log_def)
next
  case (Cons a L)
  note n = next_linked_Cons [OF Cons.prems(1)]
  have aL: "a \<notin> set L" using Cons.prems(1) by (simp add: next_linked_def)
  obtain b kvs' where b: "cells ht a = Some b" "kvs = bentry b # kvs'" "map (fld bentry (cells ht)) L = map Some kvs'"
  proof -
    have "a \<in> dom (cells ht)" using Cons.prems(2) by auto
    then obtain b where b: "cells ht a = Some b" by blast
    moreover from b obtain kvs' where "kvs = bentry b # kvs'" "map (fld bentry (cells ht)) L = map Some kvs'"
      using Cons.prems(3) fld_Some [of "cells ht" a b bentry, OF b] by (cases kvs) auto
    ultimately show thesis using that by blast
  qed
  define h where "h = free_data (pData b) (call_dtor (zval_of (pData b)) ht)\<lparr>cells := (cells ht)(a := None)\<rparr>"
  have r: "release_bucket a ht = Some h"
    using b(1) by (simp add: release_bucket_def Let_def h_def call_dtor_def free_data_def)
  have c: "cells h = (cells ht)(a := None)" by (simp add: h_def)
  have d: "distinct ([] @ a # L)" using aL Cons.prems(1) by (simp add: next_linked_def)
  have "release_loop (first_of L) h = Some (h\<lparr>cells := Map.empty, destroyed := dtor_log h (map snd kvs'), dataBlocks := 0\<rparr>)"
  proof (rule Cons.IH)
    show "next_linked (fld pListNext (cells h)) L" using n(2) by (rule next_linked_cong) (use aL in \<open>auto simp: c\<close>)
    show "set L = dom (cells h)" using Cons.prems(2) aL by (auto simp: c)
    show "map (fld bentry (cells h)) L = map Some kvs'" using b(3) aL by (auto simp: c map_eq_conv)
    show "dataBlocks h = blocks (cells h) L"
      using blocks_remove [of "[]" a L "cells ht" b, OF d b(1)] Cons.prems(4)
      by (simp add: c) (simp add: h_def call_dtor_def free_data_def)
  qed
  moreover have "release_loop (first_of (a # L)) ht = release_loop (first_of L) h"
    using n(1) r by (simp add: release_loop_def walk_Some)
  ultimately show ?case
    using b(2) by (auto simp: h_def call_dtor_def free_data_def dtor_log_def bentry_def)
qed

lemma stored_release:
  assumes "stored ht L kvs"
  shows "next_linked (fld pListNext (cells ht)) L" "set L = dom (cells ht)"
    "map (fld bentry (cells ht)) L = map Some kvs" "dataBlocks ht = blocks (cells ht) L" "pListHead ht = first_of L"
  using assms by (auto simp: stored_def wf_list_def glist_def intro: linked_next simp del: domIff)

section \<open>One step of an apply loop\<close>

lemma glist_links:
  assumes "stored ht (xs @ p # ys) kvs" "cells ht p = Some b"
  shows "pListNext b = first_of ys" "pListLast b = last_of xs"
proof -
  have "linked (fld pListNext (cells ht)) (fld pListLast (cells ht)) (xs @ p # ys)"
    using wf_listD(1) [OF storedD(1) [OF assms(1)]] by (simp add: glist_def)
  from linked_split [OF this] show "pListNext b = first_of ys" "pListLast b = last_of xs" using assms(2) by simp_all
qed

lemma out_of_line_map [simp]: "out_of_line (map_zdata f d) = out_of_line d"
  by (cases d) auto

lemma zval_of_map [simp]: "zval_of (map_zdata f d) = f (zval_of d)"
  by (cases d) auto

lemma change_data_ok:
  assumes st: "stored ht (xs @ p # ys) (kxs @ (k, v) # kys)" and len: "length kxs = length xs"
  obtains b ht' where "cells ht p = Some b" "bentry b = (k, v)" "cells ht' p = Some (b\<lparr>pData := map_zdata f (pData b)\<rparr>)"
    and "hpoke p (\<lambda>b. b\<lparr>pData := map_zdata f (pData b)\<rparr>) ht = Some ht'"
    and "stored ht' (xs @ p # ys) (kxs @ (k, f v) # kys)" "outer ht' = outer ht"
proof -
  have "p \<in> dom (cells ht)" using stored_dom [OF st] by auto
  then obtain b where b: "cells ht p = Some b" by blast
  have e: "bentry b = (k, v)"
    using storedD(5) [OF st] len fld_Some [of "cells ht" p b bentry, OF b] by (auto simp: append_eq_append_conv)
  let ?c = "modify p (\<lambda>c. c\<lparr>pData := map_zdata f (pData b)\<rparr>) (cells ht)"
  have "stored (ht\<lparr>cells := ?c, dataBlocks := dataBlocks ht\<rparr>) (xs @ p # ys) (kxs @ (k, f v) # kys)"
    using set_data_ok [OF st len b, of "map_zdata f (pData b)"] e by (simp add: bentry_def)
  then have "stored (ht\<lparr>cells := (cells ht)(p \<mapsto> b\<lparr>pData := map_zdata f (pData b)\<rparr>)\<rparr>) (xs @ p # ys) (kxs @ (k, f v) # kys)"
    using b by (simp add: modify_Some)
  then show thesis
    by (intro that [OF b e, of "ht\<lparr>cells := (cells ht)(p \<mapsto> b\<lparr>pData := map_zdata f (pData b)\<rparr>)\<rparr>"])
      (use b in \<open>simp_all add: outer_def settings_def\<close>)
qed

text \<open>What an apply loop does to the entries: the kept ones, the data removed, the callback's state.\<close>

fun apply_list ::
  "(hkey \<times> 'v \<Rightarrow> 's \<Rightarrow> uint \<times> 'v \<times> 's) \<Rightarrow> (hkey \<times> 'v) list \<Rightarrow> 's \<Rightarrow> (hkey \<times> 'v) list \<times> 'v list \<times> 's" where
  "apply_list g [] s = ([], [], s)"
| "apply_list g ((k, v) # kvs) s =
     (let (result, v', s) = g (k, v) s;
          remove = (result AND ZEND_HASH_APPLY_REMOVE \<noteq> 0);
          kept = (if remove then [] else [(k, v')]);
          gone = (if remove then [v'] else [])
      in if result AND ZEND_HASH_APPLY_STOP \<noteq> 0 then (kept @ kvs, gone, s)
         else let (kvs, gone', s) = apply_list g kvs s in (kept @ kvs, gone @ gone', s))"

definition kept_settings :: "'v HashTable \<Rightarrow> 'v HashTable \<Rightarrow> 'v list \<Rightarrow> bool" where
  "kept_settings ht ht' gone \<longleftrightarrow> settings ht' = settings ht \<and> nNextFreeElement ht' = nNextFreeElement ht \<and>
     destroyed ht' = dtor_log ht gone"

lemma kept_settings_trans:
  "kept_settings ht ht1 a \<Longrightarrow> kept_settings ht1 ht2 b \<Longrightarrow> kept_settings ht ht2 (a @ b)"
  by (auto simp: kept_settings_def settings_def dtor_log_def)

lemma apply_step:
  assumes st: "stored ht (xs @ p # ys) (kxs @ (k, v) # kys)" and len: "length kxs = length xs"
    and f: "\<forall>b s p. bucket_ok p b \<longrightarrow> f b s = g (bentry b) s"
    and g: "g (k, v) s = (result, v', s')" and remove: "remove \<longleftrightarrow> result AND ZEND_HASH_APPLY_REMOVE \<noteq> 0"
    and dir: "\<And>b. pListNext b = first_of ys \<Longrightarrow> pListLast b = last_of xs \<Longrightarrow> succ b = nx"
    and stop: "stop \<longleftrightarrow> result AND ZEND_HASH_APPLY_STOP \<noteq> 0"
  obtains ht' where "apply_body succ f p (ht, s) = Some ((ht', s'), if stop then None else nx)"
    and "stored ht' (xs @ (if remove then [] else [p]) @ ys) (kxs @ (if remove then [] else [(k, v')]) @ kys)"
    and "kept_settings ht ht' (if remove then [v'] else [])"
proof -
  obtain b h1 where b: "cells ht p = Some b" "bentry b = (k, v)" "cells h1 p = Some (b\<lparr>pData := map_zdata (\<lambda>_. v') (pData b)\<rparr>)"
    and poke: "hpoke p (\<lambda>b. b\<lparr>pData := map_zdata (\<lambda>_. v') (pData b)\<rparr>) ht = Some h1"
    and st1: "stored h1 (xs @ p # ys) (kxs @ (k, v') # kys)" and o1: "outer h1 = outer ht"
    by (rule change_data_ok [OF st len, where f = "\<lambda>_. v'"])
  have "bucket_ok p b" using storedD(4) [OF st] b(1) by blast
  then have r: "f b s = (result, v', s')" using f b(2) g by metis
  have n: "succ (b\<lparr>pData := map_zdata (\<lambda>_. v') (pData b)\<rparr>) = nx" by (rule dir [OF glist_links [OF st1 b(3)]])
  show thesis
  proof (cases remove)
    case True
    obtain h2 where d: "i_zend_hash_bucket_delete p h1 = Some h2" "stored h2 (xs @ ys) (kxs @ kys)" "settings h2 = settings h1"
        "destroyed h2 = dtor_log h1 [v']" "nNextFreeElement h2 = nNextFreeElement h1"
      by (rule bucket_delete_ok [OF st1 len])
    have eq: "apply_body succ f p (ht, s) = Some ((h2, s'), if stop then None else nx)"
      unfolding apply_body_def using b(1,3) r poke d(1) True remove n stop
      by (simp add: zend_hash_bucket_delete_def Let_def del: hpoke_Some)
    have "kept_settings ht h2 [v']"
      using d(3-5) o1 by (simp add: kept_settings_def outer_def settings_def dtor_log_def)
    show thesis by (rule that [OF eq]) (use True d(2) \<open>kept_settings ht h2 [v']\<close> in simp_all)
  next
    case False
    have eq: "apply_body succ f p (ht, s) = Some ((h1, s'), if stop then None else nx)"
      unfolding apply_body_def using b(1,3) r poke False remove n stop by (simp add: Let_def del: hpoke_Some)
    have "kept_settings ht h1 []"
      using o1 by (simp add: kept_settings_def outer_def settings_def dtor_log_def)
    show thesis by (rule that [OF eq]) (use False st1 \<open>kept_settings ht h1 []\<close> in simp_all)
  qed
qed

lemma apply_forward:
  assumes "stored ht (xs @ ys) (kxs @ kys)" "length kxs = length xs" "length kys = length ys"
    and f: "\<forall>b s p. bucket_ok p b \<longrightarrow> f b s = g (bentry b) s" and "apply_list g kys s = (kys', gone, s')"
  shows "\<exists>ht' L'. iterate (apply_body pListNext f) (first_of ys) (ht, s) = Some (ht', s') \<and>
    stored ht' (xs @ L') (kxs @ kys') \<and> set L' \<subseteq> set ys \<and> kept_settings ht ht' gone"
  using assms(1-3,5)
proof (induction ys arbitrary: ht xs kxs kys s kys' gone)
  case Nil
  then show ?case by (auto simp: kept_settings_def dtor_log_def intro!: exI [of _ "[]"])
next
  case (Cons p ys)
  obtain k v kr where kys: "kys = (k, v) # kr" using Cons.prems(3) by (cases kys) auto
  obtain result v' s1 where g: "g (k, v) s = (result, v', s1)" by (cases "g (k, v) s") auto
  define remove where "remove = (result AND ZEND_HASH_APPLY_REMOVE \<noteq> 0)"
  define stop where "stop = (result AND ZEND_HASH_APPLY_STOP \<noteq> 0)"
  obtain h1 where s1: "apply_body pListNext f p (ht, s) = Some ((h1, s1), if stop then None else first_of ys)"
      and st1: "stored h1 (xs @ (if remove then [] else [p]) @ ys) (kxs @ (if remove then [] else [(k, v')]) @ kr)"
      and k1: "kept_settings ht h1 (if remove then [v'] else [])"
    by (rule apply_step [OF Cons.prems(1) [unfolded kys] Cons.prems(2) f g remove_def _ stop_def,
        where succ = pListNext and nx = "first_of ys"]) auto
  show ?case
  proof (cases stop)
    case True
    then show ?thesis using s1 st1 k1 Cons.prems(4) g
      by (auto simp: kys Let_def iterate_Some stop_def remove_def split: if_splits
          intro!: exI [of _ h1] exI [of _ "(if remove then [] else [p]) @ ys"])
  next
    case False
    let ?xs = "xs @ (if remove then [] else [p])" and ?kxs = "kxs @ (if remove then [] else [(k, v')])"
    obtain kr' gone' where a: "apply_list g kr s1 = (kr', gone', s')"
        "kys' = (if remove then [] else [(k, v')]) @ kr'" "gone = (if remove then [v'] else []) @ gone'"
      using Cons.prems(4) g False by (auto simp: kys Let_def stop_def remove_def split: prod.splits if_splits)
    have "stored h1 (?xs @ ys) (?kxs @ kr)" "length ?kxs = length ?xs" "length kr = length ys"
      using st1 Cons.prems(2,3) kys by simp_all
    from Cons.IH [OF this a(1)] obtain ht' L' where h: "iterate (apply_body pListNext f) (first_of ys) (h1, s1) = Some (ht', s')"
        "stored ht' (?xs @ L') (?kxs @ kr')" "set L' \<subseteq> set ys" "kept_settings h1 ht' gone'" by blast
    have "iterate (apply_body pListNext f) (first_of (p # ys)) (ht, s) = Some (ht', s')"
      using s1 h(1) False by (simp add: iterate_Some)
    moreover have "kept_settings ht ht' gone" unfolding a(3) by (rule kept_settings_trans [OF k1 h(4)])
    ultimately show ?thesis using h(2,3) a(2)
      by (intro exI [of _ ht'] exI [of _ "(if remove then [] else [p]) @ L'"]) auto
  qed
qed

lemma apply_reverse:
  assumes "stored ht (xs @ ys) (kxs @ kys)" "length kxs = length xs" "length kys = length ys"
    and f: "\<forall>b s p. bucket_ok p b \<longrightarrow> f b s = g (bentry b) s" and "apply_list g (rev kxs) s = (kxs', gone, s')"
  shows "\<exists>ht' L'. iterate (apply_body pListLast f) (last_of xs) (ht, s) = Some (ht', s') \<and>
    stored ht' (L' @ ys) (rev kxs' @ kys) \<and> set L' \<subseteq> set xs \<and> kept_settings ht ht' gone"
  using assms(1-3,5)
proof (induction xs arbitrary: ht ys kxs kys s kxs' gone rule: rev_induct)
  case Nil
  then show ?case by (auto simp: kept_settings_def dtor_log_def intro!: exI [of _ "[]"])
next
  case (snoc p xs)
  obtain k v kr where kxs: "kxs = kr @ [(k, v)]" using snoc.prems(2) by (cases kxs rule: rev_cases) auto
  have len: "length kr = length xs" using snoc.prems(2) kxs by simp
  have st: "stored ht (xs @ p # ys) (kr @ (k, v) # kys)" using snoc.prems(1) kxs by simp
  obtain result v' s1 where g: "g (k, v) s = (result, v', s1)" by (cases "g (k, v) s") auto
  define remove where "remove = (result AND ZEND_HASH_APPLY_REMOVE \<noteq> 0)"
  define stop where "stop = (result AND ZEND_HASH_APPLY_STOP \<noteq> 0)"
  obtain h1 where s1: "apply_body pListLast f p (ht, s) = Some ((h1, s1), if stop then None else last_of xs)"
      and st1: "stored h1 (xs @ (if remove then [] else [p]) @ ys) (kr @ (if remove then [] else [(k, v')]) @ kys)"
      and k1: "kept_settings ht h1 (if remove then [v'] else [])"
    by (rule apply_step [OF st len f g remove_def _ stop_def, where succ = pListLast and nx = "last_of xs"]) auto
  have first: "iterate (apply_body pListLast f) (last_of (xs @ [p])) (ht, s) =
      (if stop then Some (h1, s1) else iterate (apply_body pListLast f) (last_of xs) (h1, s1))"
    using s1 by (simp add: iterate_Some)
  show ?case
  proof (cases stop)
    case True
    then have e: "kxs' = (if remove then [] else [(k, v')]) @ rev kr" "gone = (if remove then [v'] else [])" "s' = s1"
      using snoc.prems(4) g by (auto simp: kxs Let_def stop_def remove_def split: if_splits)
    show ?thesis
      by (rule exI [of _ h1], rule exI [of _ "xs @ (if remove then [] else [p])"])
        (use first True st1 k1 e in auto)
  next
    case False
    let ?ys = "(if remove then [] else [p]) @ ys" and ?kys = "(if remove then [] else [(k, v')]) @ kys"
    obtain kr' gone' where a: "apply_list g (rev kr) s1 = (kr', gone', s')"
        "kxs' = (if remove then [] else [(k, v')]) @ kr'" "gone = (if remove then [v'] else []) @ gone'"
      using snoc.prems(4) g False by (auto simp: kxs Let_def stop_def remove_def split: prod.splits if_splits)
    have "stored h1 (xs @ ?ys) (kr @ ?kys)" "length ?kys = length ?ys" using st1 snoc.prems(3) by simp_all
    from snoc.IH [OF this(1) len this(2) a(1)] obtain ht' L'
      where h: "iterate (apply_body pListLast f) (last_of xs) (h1, s1) = Some (ht', s')"
        "stored ht' (L' @ ?ys) (rev kr' @ ?kys)" "set L' \<subseteq> set xs" "kept_settings h1 ht' gone'" by blast
    have "kept_settings ht ht' gone" unfolding a(3) by (rule kept_settings_trans [OF k1 h(4)])
    then show ?thesis
      by (intro exI [of _ ht'] exI [of _ "L' @ (if remove then [] else [p])"])
        (use first False h a(2) in auto)
  qed
qed

lemma apply_list_keys: "fst ` set (fst (apply_list g kvs s)) \<subseteq> fst ` set kvs"
proof (induction g kvs s rule: apply_list.induct)
  case (2 g k v kvs s)
  obtain result v' s1 where g: "g (k, v) s = (result, v', s1)" by (cases "g (k, v) s") auto
  show ?case
  proof (cases "result AND ZEND_HASH_APPLY_STOP \<noteq> 0")
    case True
    then show ?thesis using g by (auto simp: Let_def)
  next
    case False
    obtain a b c where r: "apply_list g kvs s1 = (a, b, c)" by (cases "apply_list g kvs s1") auto
    then have "fst ` set a \<subseteq> fst ` set kvs" using "2.IH" [OF g [symmetric] refl refl refl refl] False by (simp add: g)
    then show ?thesis using False g r by (auto simp: Let_def)
  qed
qed simp

lemma protect_cases:
  assumes "table ht L kvs"
  shows "bApplyProtection ht \<Longrightarrow> nApplyCount ht \<ge> 3 \<Longrightarrow>
      HASH_PROTECT_RECURSION ht = Inl (ht\<lparr>nApplyCount := nApplyCount ht + 1\<rparr>)"
    and "\<not> (bApplyProtection ht \<and> nApplyCount ht \<ge> 3) \<Longrightarrow>
      \<exists>h. HASH_PROTECT_RECURSION ht = Inr h \<and> table h L kvs \<and> pListHead h = pListHead ht \<and> pListTail h = pListTail ht \<and>
        (\<forall>h' L' kvs' gone. table h' L' kvs' \<longrightarrow> kept_settings h h' gone \<longrightarrow>
           table (HASH_UNPROTECT_RECURSION h') L' kvs' \<and> kept_settings ht (HASH_UNPROTECT_RECURSION h') gone)"
proof -
  show "bApplyProtection ht \<Longrightarrow> nApplyCount ht \<ge> 3 \<Longrightarrow>
      HASH_PROTECT_RECURSION ht = Inl (ht\<lparr>nApplyCount := nApplyCount ht + 1\<rparr>)"
    by (simp add: HASH_PROTECT_RECURSION_def)
  assume n: "\<not> (bApplyProtection ht \<and> nApplyCount ht \<ge> 3)"
  define h where "h = (if bApplyProtection ht then ht\<lparr>nApplyCount := nApplyCount ht + 1\<rparr> else ht)"
  have tc: "table (ht'\<lparr>nApplyCount := n\<rparr>) L' kvs'" if "table ht' L' kvs'" for ht' :: "'a HashTable" and n L' kvs'
  proof -
    have "stored (ht'\<lparr>nApplyCount := n\<rparr>) L' kvs'"
      by (rule stored_cong [OF tableD(1) [OF that]]) (use wf_listD(5) [OF storedD(1) [OF tableD(1) [OF that]]] in simp_all)
    then show ?thesis using tableD(2) [OF that] by (simp add: table_def)
  qed
  have "table (HASH_UNPROTECT_RECURSION h') L' kvs' \<and> kept_settings ht (HASH_UNPROTECT_RECURSION h') gone"
    if "table h' L' kvs'" "kept_settings h h' gone" for h' L' kvs' gone
    using that tc [OF that(1)]
    by (auto simp: HASH_UNPROTECT_RECURSION_def h_def kept_settings_def settings_def dtor_log_def split: if_splits)
  moreover have "HASH_PROTECT_RECURSION ht = Inr h" using n by (simp add: HASH_PROTECT_RECURSION_def h_def)
  moreover have "table h L kvs" using tc [OF assms] assms by (simp add: h_def)
  ultimately show "\<exists>h. HASH_PROTECT_RECURSION ht = Inr h \<and> table h L kvs \<and> pListHead h = pListHead ht \<and> pListTail h = pListTail ht \<and>
        (\<forall>h' L' kvs' gone. table h' L' kvs' \<longrightarrow> kept_settings h h' gone \<longrightarrow>
           table (HASH_UNPROTECT_RECURSION h') L' kvs' \<and> kept_settings ht (HASH_UNPROTECT_RECURSION h') gone)"
    by (intro exI [of _ h]) (simp add: h_def)
qed

section \<open>The apply functions\<close>

definition too_deep :: "'v HashTable \<Rightarrow> bool" where
  "too_deep ht \<longleftrightarrow> bApplyProtection ht \<and> nApplyCount ht \<ge> 3"

lemma apply_protected:
  assumes t: "table ht L kvs" and d: "\<not> too_deep ht"
    and loop: "\<And>h. table h L kvs \<Longrightarrow> start h = start ht \<Longrightarrow>
      \<exists>h' L'. loop (start h) (h, s) = Some (h', s') \<and> stored h' L' kvs' \<and> set L' \<subseteq> set L \<and> kept_settings h h' gone"
    and start: "start = pListHead \<or> start = pListTail" and keys: "fst ` set kvs' \<subseteq> fst ` set kvs"
  shows "\<exists>ht' L'. (case HASH_PROTECT_RECURSION ht of Inl ht \<Rightarrow> Some (Inl ht)
      | Inr ht \<Rightarrow> do { (ht, s) \<leftarrow> loop (start ht) (ht, s); Some (Inr (HASH_UNPROTECT_RECURSION ht, s)) }) = Some (Inr (ht', s')) \<and>
    table ht' L' kvs' \<and> set L' \<subseteq> set L \<and> kept_settings ht ht' gone"
proof -
  obtain h where h: "HASH_PROTECT_RECURSION ht = Inr h" "table h L kvs" "pListHead h = pListHead ht" "pListTail h = pListTail ht"
      and u: "\<forall>h' L' kvs' gone. table h' L' kvs' \<longrightarrow> kept_settings h h' gone \<longrightarrow>
           table (HASH_UNPROTECT_RECURSION h') L' kvs' \<and> kept_settings ht (HASH_UNPROTECT_RECURSION h') gone"
    using protect_cases(2) [OF t] d unfolding too_deep_def by metis
  have "start h = start ht" using start h(3,4) by auto
  then obtain h' L' where l: "loop (start h) (h, s) = Some (h', s')" "stored h' L' kvs'" "set L' \<subseteq> set L" "kept_settings h h' gone"
    using loop [OF h(2)] by blast
  have "next_free_ok (nNextFreeElement h') kvs'"
    using next_free_ok_subset [OF tableD(2) [OF h(2)] keys] l(4) by (simp add: kept_settings_def)
  then have "table h' L' kvs'" using l(2) by (simp add: table_def)
  then have "table (HASH_UNPROTECT_RECURSION h') L' kvs' \<and> kept_settings ht (HASH_UNPROTECT_RECURSION h') gone"
    using u l(4) by blast
  then show ?thesis using h(1) l(1,3) by (intro exI [of _ "HASH_UNPROTECT_RECURSION h'"] exI [of _ L']) simp
qed

lemma apply_forward_ok:
  assumes t: "table ht L kvs" and d: "\<not> too_deep ht"
    and f: "\<forall>b s p. bucket_ok p b \<longrightarrow> f b s = g (bentry b) s" and a: "apply_list g kvs s = (kvs', gone, s')"
  shows "\<exists>ht' L'. (case HASH_PROTECT_RECURSION ht of Inl ht \<Rightarrow> Some (Inl ht)
      | Inr ht \<Rightarrow> do { (ht, s) \<leftarrow> iterate (apply_body pListNext f) (pListHead ht) (ht, s);
                       Some (Inr (HASH_UNPROTECT_RECURSION ht, s)) }) = Some (Inr (ht', s')) \<and>
    table ht' L' kvs' \<and> set L' \<subseteq> set L \<and> kept_settings ht ht' gone"
proof (rule apply_protected [OF t d, where start = pListHead])
  fix h :: "'a HashTable" assume h: "table h L kvs"
  have "pListHead h = first_of L" using wf_listD(1) [OF storedD(1) [OF tableD(1) [OF h]]] by (simp add: glist_def)
  then show "\<exists>h' L'. iterate (apply_body pListNext f) (pListHead h) (h, s) = Some (h', s') \<and> stored h' L' kvs' \<and>
      set L' \<subseteq> set L \<and> kept_settings h h' gone"
    using apply_forward [of h "[]" L "[]" kvs f g s kvs' gone s'] tableD(1) [OF h] stored_length [OF tableD(1) [OF h]] f a by simp
qed (use apply_list_keys [of g kvs s] a in auto)

lemma apply_reverse_ok:
  assumes t: "table ht L kvs" and d: "\<not> too_deep ht"
    and f: "\<forall>b s p. bucket_ok p b \<longrightarrow> f b s = g (bentry b) s" and a: "apply_list g (rev kvs) s = (kvs', gone, s')"
  shows "\<exists>ht' L'. (case HASH_PROTECT_RECURSION ht of Inl ht \<Rightarrow> Some (Inl ht)
      | Inr ht \<Rightarrow> do { (ht, s) \<leftarrow> iterate (apply_body pListLast f) (pListTail ht) (ht, s);
                       Some (Inr (HASH_UNPROTECT_RECURSION ht, s)) }) = Some (Inr (ht', s')) \<and>
    table ht' L' (rev kvs') \<and> set L' \<subseteq> set L \<and> kept_settings ht ht' gone"
proof (rule apply_protected [OF t d, where start = pListTail])
  fix h :: "'a HashTable" assume h: "table h L kvs"
  have "pListTail h = last_of L" using wf_listD(1) [OF storedD(1) [OF tableD(1) [OF h]]] by (simp add: glist_def)
  then show "\<exists>h' L'. iterate (apply_body pListLast f) (pListTail h) (h, s) = Some (h', s') \<and> stored h' L' (rev kvs') \<and>
      set L' \<subseteq> set L \<and> kept_settings h h' gone"
    using apply_reverse [of h L "[]" kvs "[]" f g s kvs' gone s'] tableD(1) [OF h] stored_length [OF tableD(1) [OF h]] f a by simp
qed (use apply_list_keys [of g "rev kvs" s] a in auto)

text \<open>A callback with arguments gets the key of the entry: it reads the characters behind the key pointer, the length and the hash.\<close>

definition key_view :: "hkey \<Rightarrow> byte list \<times> nat \<times> ulong" where
  "key_view k = (case k of IntKey i \<Rightarrow> ([], 0, i) | StrKey cs \<Rightarrow> (cs, length cs, zend_inline_hash_func cs))"

definition key_reader ::
  "('v \<Rightarrow> nat \<Rightarrow> 'arg list \<Rightarrow> byte list \<times> nat \<times> ulong \<Rightarrow> 's \<Rightarrow> uint \<times> 'v \<times> 's) \<Rightarrow>
   'v \<Rightarrow> nat \<Rightarrow> 'arg list \<Rightarrow> hash_key \<Rightarrow> 's \<Rightarrow> uint \<times> 'v \<times> 's" where
  "key_reader func v n args = (\<lambda>(key, len, h). func v n args (chars key, len, h))"

lemma key_view_bucket: "bucket_ok p b \<Longrightarrow> key_reader func v n args (hash_key_of b) = func v n args (key_view (bkey b))"
  by (auto simp: key_reader_def hash_key_of_def key_view_def bkey_def bucket_ok_def)

section \<open>Graceful destruction\<close>

lemma graceful_forward:
  assumes "stored ht L kvs"
  shows "\<exists>ht'. iterate (\<lambda>p ht. do { ht \<leftarrow> zend_hash_bucket_delete p ht; Some (ht, pListHead ht) }) (first_of L) ht = Some ht' \<and>
    stored ht' [] [] \<and> kept_settings ht ht' (map snd kvs)"
  using assms
proof (induction L arbitrary: ht kvs)
  case Nil
  then show ?case using stored_length [OF Nil] by (auto simp: kept_settings_def dtor_log_def)
next
  case (Cons p L)
  obtain k v kr where kvs: "kvs = (k, v) # kr" using stored_length [OF Cons.prems] by (cases kvs) auto
  have st: "stored ht ([] @ p # L) ([] @ (k, v) # kr)" using Cons.prems kvs by simp
  obtain h1 where d: "i_zend_hash_bucket_delete p ht = Some h1" "stored h1 ([] @ L) ([] @ kr)" "settings h1 = settings ht"
      "destroyed h1 = dtor_log ht [v]" "nNextFreeElement h1 = nNextFreeElement ht"
    by (rule bucket_delete_ok [OF st]) simp_all
  have "pListHead h1 = first_of L" using wf_listD(1) [OF storedD(1) [OF d(2)]] by (simp add: glist_def)
  then show ?case
    using Cons.IH [of h1 kr] d kept_settings_trans [of ht h1 "[v]"]
    by (auto simp: iterate_Some zend_hash_bucket_delete_def kvs kept_settings_def)
qed

lemma graceful_backward:
  assumes "stored ht L kvs"
  shows "\<exists>ht'. iterate (\<lambda>p ht. do { ht \<leftarrow> zend_hash_bucket_delete p ht; Some (ht, pListTail ht) }) (last_of L) ht = Some ht' \<and>
    stored ht' [] [] \<and> kept_settings ht ht' (rev (map snd kvs))"
  using assms
proof (induction L arbitrary: ht kvs rule: rev_induct)
  case Nil
  then show ?case using stored_length [OF Nil] by (auto simp: kept_settings_def dtor_log_def)
next
  case (snoc p L)
  obtain k v kr where kvs: "kvs = kr @ [(k, v)]" using stored_length [OF snoc.prems] by (cases kvs rule: rev_cases) auto
  have len: "length kr = length L" using stored_length [OF snoc.prems] kvs by simp
  have st: "stored ht (L @ p # []) (kr @ (k, v) # [])" using snoc.prems kvs by simp
  obtain h1 where d: "i_zend_hash_bucket_delete p ht = Some h1" "stored h1 (L @ []) (kr @ [])" "settings h1 = settings ht"
      "destroyed h1 = dtor_log ht [v]" "nNextFreeElement h1 = nNextFreeElement ht"
    by (rule bucket_delete_ok [OF st len])
  have "pListTail h1 = last_of L" using wf_listD(1) [OF storedD(1) [OF d(2)]] by (simp add: glist_def)
  then show ?case
    using snoc.IH [of h1 kr] d kept_settings_trans [of ht h1 "[v]"]
    by (auto simp: iterate_Some zend_hash_bucket_delete_def kvs kept_settings_def)
qed

section \<open>Copying and merging\<close>

text \<open>What is relied on of the allocator: a new bucket of a finite table is not one of its buckets.\<close>

definition malloc_ok :: "('v HashTable \<Rightarrow> ptr) \<Rightarrow> bool" where
  "malloc_ok malloc \<longleftrightarrow> (\<forall>ht. finite (dom (cells ht)) \<longrightarrow> malloc ht \<notin> dom (cells ht))"

definition ctor_of :: "('v \<Rightarrow> 'v) option \<Rightarrow> 'v \<Rightarrow> 'v" where
  "ctor_of pCopyConstructor = (case pCopyConstructor of None \<Rightarrow> id | Some f \<Rightarrow> f)"

definition same_but_ip :: "'v HashTable \<Rightarrow> 'v HashTable \<Rightarrow> bool" where
  "same_but_ip ht ht' \<longleftrightarrow> (\<exists>x. ht' = ht\<lparr>pInternalPointer := x\<rparr>)"

lemma table_set_ip:
  assumes "table ht L kvs" "set_option x \<subseteq> set L"
  shows "table (ht\<lparr>pInternalPointer := x\<rparr>) L kvs"
proof -
  have "stored (ht\<lparr>pInternalPointer := x\<rparr>) L kvs"
    by (rule stored_cong [OF tableD(1) [OF assms(1)]]) (use assms(2) in simp_all)
  then show ?thesis using tableD(2) [OF assms(1)] by (simp add: table_def)
qed

lemma table_head: "table ht L kvs \<Longrightarrow> pListHead ht = first_of L"
  by (auto dest!: tableD(1) storedD(1) wf_listD(1) simp: glist_def)

lemma malloc_fresh:
  assumes "malloc_ok malloc" "table ht L kvs"
  shows "malloc ht \<notin> dom (cells ht)"
  using assms(1) stored_dom [OF tableD(1) [OF assms(2)]] unfolding malloc_ok_def by (metis List.finite_set)

text \<open>The copy constructor on the entry just stored.\<close>

lemma call_ctor_ok:
  assumes t: "table ht L kvs" and p: "ptr_of ht L k = Some p"
  shows "\<exists>ht'. call_ctor c (Some p) ht = Some ht' \<and>
    (\<forall>v. map_of kvs k = Some v \<longrightarrow> table ht' L (AList.update k (ctor_of c v) kvs)) \<and> outer ht' = outer ht"
proof (cases c)
  case None
  have "AList.update k v kvs = kvs" if "map_of kvs k = Some v" for v
    using that by (induction kvs) (auto split: if_splits)
  then show ?thesis using None t by (auto simp: call_ctor_def ctor_of_def)
next
  case (Some f)
  obtain xs ys kxs v kys where s: "L = xs @ p # ys" "kvs = kxs @ (k, v) # kys" "length kxs = length xs"
      "k \<notin> fst ` set kxs" "k \<notin> fst ` set kys"
    by (rule ptr_of_Some [OF tableD(1) [OF t] p])
  obtain ht' where h: "hpoke p (\<lambda>b. b\<lparr>pData := map_zdata f (pData b)\<rparr>) ht = Some ht'"
      "stored ht' (xs @ p # ys) (kxs @ (k, f v) # kys)" "outer ht' = outer ht"
    by (rule change_data_ok [OF tableD(1) [OF t, unfolded s(1,2)] s(3), where f = f])
  have "next_free_ok (nNextFreeElement ht) (kxs @ (k, f v) # kys)"
    by (rule next_free_ok_subset [OF tableD(2) [OF t]]) (auto simp: s(2))
  then have "table ht' L (AList.update k (f v) kvs)"
    using h(2,3) s update_split [OF s(4)] by (simp add: table_def outer_def)
  then show ?thesis using h Some map_of_split [OF s(4)] s(2) by (auto simp: call_ctor_def ctor_of_def)
qed

lemma update_twice: "AList.update k w (AList.update k v kvs) = AList.update k w kvs"
  by (induction kvs) auto

lemma inserted_ptr_of:
  assumes "inserted ht L kvs flag new k v N (r, pDest, ht')" "r = SUCCESS"
  shows "\<exists>p. pDest = Some p \<and> ptr_of ht' (if k \<in> fst ` set kvs then L else L @ [new]) k = Some p"
proof -
  let ?L = "if k \<in> fst ` set kvs then L else L @ [new]"
  have s: "stored ht' ?L (snd (put flag k v kvs))" "pDest = ptr_of ht' ?L k"
    using assms by (simp_all add: inserted_def Let_def)
  have "k \<in> fst ` set (snd (put flag k v kvs))" by (simp add: put_keys)
  then show ?thesis using ptr_of_None [OF s(1), of k] s(2) by auto
qed

text \<open>Storing a copy of one bucket of the source, in either mode.\<close>

definition copy_entry ::
  "('v HashTable \<Rightarrow> ptr) \<Rightarrow> ('v \<Rightarrow> 'v) option \<Rightarrow> nat \<Rightarrow> hash_flag \<Rightarrow> 'v bucket \<Rightarrow> 'v HashTable \<Rightarrow> 'v HashTable option" where
  "copy_entry malloc c size' flag b target =
     do { (r, new_entry, target) \<leftarrow>
            (if nKeyLength b \<noteq> 0
             then zend_hash_quick_add_or_update (malloc target) target (arKey b) (nKeyLength b) (bkt_h b) (zval_of (pData b)) size' flag
             else zend_hash_index_update_or_next_insert (malloc target) target (bkt_h b) (zval_of (pData b)) size' flag);
          if r = SUCCESS then call_ctor c new_entry target else Some target }"

lemma insert_entry_ok:
  assumes t: "table ht L kvs" and m: "malloc_ok malloc" and b: "bucket_ok q b" "bentry b = (k, v)"
    and room: "Suc (length kvs) < 2 ^ 32" and flag: "flag = HASH_UPDATE \<or> flag = HASH_ADD"
  shows "\<exists>r pDest ht'. (if nKeyLength b \<noteq> 0
      then zend_hash_quick_add_or_update (malloc ht) ht (arKey b) (nKeyLength b) (bkt_h b) (zval_of (pData b)) size' flag
      else zend_hash_index_update_or_next_insert (malloc ht) ht (bkt_h b) (zval_of (pData b)) size' flag) = Some (r, pDest, ht') \<and>
    table ht' (if k \<in> fst ` set kvs then L else L @ [malloc ht]) (snd (put flag k v kvs)) \<and>
    (\<exists>N. inserted ht L kvs flag (malloc ht) k v N (r, pDest, ht'))"
proof (cases "nKeyLength b = 0")
  case False
  then have k: "k = StrKey (chars (arKey b))" "zval_of (pData b) = v" using b(2) by (auto simp: bentry_def bkey_def)
  have arg: "str_arg (arKey b) (nKeyLength b)" "bkt_h b = zend_inline_hash_func (chars (arKey b))"
    using b(1) False by (auto simp: bucket_ok_def str_arg_def)
  obtain r pDest ht' where i: "zend_hash_quick_add_or_update (malloc ht) ht (arKey b) (nKeyLength b) (bkt_h b) v size' flag = Some (r, pDest, ht')"
      "inserted ht L kvs flag (malloc ht) (StrKey (chars (arKey b))) v id (r, pDest, ht')"
    using quick_add_or_update_ok [OF tableD(1) [OF t] arg(1) malloc_fresh [OF m t], of flag v size'] room flag
      stored_length [OF tableD(1) [OF t]] arg(2) by auto
  then show ?thesis using False inserted_str_table [OF t i(2)] k by auto
next
  case True
  then have k: "k = IntKey (bkt_h b)" "zval_of (pData b) = v" using b(2) by (auto simp: bentry_def bkey_def)
  obtain r pDest ht' where i: "zend_hash_index_update_or_next_insert (malloc ht) ht (bkt_h b) v size' flag = Some (r, pDest, ht')"
      "inserted ht L kvs flag (malloc ht) (IntKey (bkt_h b)) v (bump (bkt_h b)) (r, pDest, ht')"
    using index_update_or_next_insert_ok [OF tableD(1) [OF t] malloc_fresh [OF m t], of "bkt_h b" v size' flag] room flag
      stored_length [OF tableD(1) [OF t]] by (auto simp: index_arg_def)
  then show ?thesis using True inserted_int_table [OF t i(2)] k by auto
qed

definition merge_put :: "hash_flag \<Rightarrow> ('v \<Rightarrow> 'v) \<Rightarrow> hkey \<times> 'v \<Rightarrow> (hkey \<times> 'v) list \<Rightarrow> (hkey \<times> 'v) list" where
  "merge_put flag f e kvs = snd (put flag (fst e) (f (snd e)) kvs)"

lemma copy_entry_ok:
  assumes t: "table ht L kvs" and m: "malloc_ok malloc" and b: "bucket_ok q b"
    and room: "Suc (length kvs) < 2 ^ 32" and flag: "flag = HASH_UPDATE \<or> flag = HASH_ADD"
  shows "\<exists>ht' L'. copy_entry malloc c size' flag b ht = Some ht' \<and> table ht' L' (merge_put flag (ctor_of c) (bentry b) kvs) \<and>
    settings ht' = settings ht"
proof -
  obtain k v where e: "bentry b = (k, v)" by (cases "bentry b")
  let ?L = "if k \<in> fst ` set kvs then L else L @ [malloc ht]"
  obtain r pDest h1 N where i: "(if nKeyLength b \<noteq> 0
      then zend_hash_quick_add_or_update (malloc ht) ht (arKey b) (nKeyLength b) (bkt_h b) (zval_of (pData b)) size' flag
      else zend_hash_index_update_or_next_insert (malloc ht) ht (bkt_h b) (zval_of (pData b)) size' flag) = Some (r, pDest, h1)"
      "table h1 ?L (snd (put flag k v kvs))" "inserted ht L kvs flag (malloc ht) k v N (r, pDest, h1)"
    using insert_entry_ok [OF t m b e room flag] by blast
  have s1: "settings h1 = settings ht" "r = fst (put flag k v kvs)" using i(3) by (simp_all add: inserted_def Let_def)
  show ?thesis
  proof (cases "r = SUCCESS")
    case True
    then have p: "put flag k v kvs = (SUCCESS, AList.update k v kvs)" "put flag k (ctor_of c v) kvs = (SUCCESS, AList.update k (ctor_of c v) kvs)"
      using s1(2) by (auto simp: put_def split: if_splits)
    obtain q' where q': "pDest = Some q'" "ptr_of h1 ?L k = Some q'" using inserted_ptr_of [OF i(3) True] by blast
    obtain h2 where h2: "call_ctor c (Some q') h1 = Some h2" "outer h2 = outer h1"
        "table h2 ?L (AList.update k (ctor_of c v) (AList.update k v kvs))"
      using call_ctor_ok [OF i(2) q'(2), of c] p(1) by (auto simp: AList.update_conv')
    then show ?thesis using i(1) True q'(1) s1(1) p(2)
      by (intro exI [of _ h2] exI [of _ ?L]) (simp add: copy_entry_def merge_put_def e update_twice outer_def)
  next
    case False
    then have "snd (put flag k v kvs) = kvs" "snd (put flag k (ctor_of c v) kvs) = kvs"
      using s1(2) by (auto simp: put_def split: if_splits)
    then show ?thesis using i(1,2) False s1(1)
      by (intro exI [of _ h1] exI [of _ ?L]) (simp add: copy_entry_def merge_put_def e)
  qed
qed

lemma length_merge_put: "length (merge_put flag f e kvs) \<le> Suc (length kvs)"
  using length_update_le by (auto simp: merge_put_def put_def)

text \<open>The loop over the source.\<close>

lemma source_walk:
  assumes src: "stored source Ls es"
    and step: "\<And>p b t L kvs. cells source p = Some b \<Longrightarrow> bucket_ok p b \<Longrightarrow> table t L kvs \<Longrightarrow> Suc (length kvs) < 2 ^ 32 \<Longrightarrow>
      \<exists>t' L'. body p b t = Some t' \<and> table t' L' (merge_put flag f (bentry b) kvs) \<and> settings t' = settings t"
    and t: "table t L kvs" and room: "length kvs + length es < 2 ^ 32"
  shows "\<exists>t' L'. walk (\<lambda>_ p. fld pListNext (cells source) p)
      (\<lambda>p t. do { b \<leftarrow> cells source p; t \<leftarrow> body p b t; Some (t, False) }) (pListHead source) t = Some t' \<and>
    table t' L' (fold (merge_put flag f) es kvs) \<and> settings t' = settings t"
proof -
  have "\<exists>t' L'. walk (\<lambda>_ p. fld pListNext (cells source) p)
      (\<lambda>p t. do { b \<leftarrow> cells source p; t \<leftarrow> body p b t; Some (t, False) }) (first_of ys) t = Some t' \<and>
    table t' L' (fold (merge_put flag f) es' kvs) \<and> settings t' = settings t"
    if "next_linked (fld pListNext (cells source)) ys" "map (fld bentry (cells source)) ys = map Some es'"
      "table t L kvs" "length kvs + length es' < 2 ^ 32" for ys es' t L kvs
    using that
  proof (induction ys arbitrary: es' t L kvs)
    case (Cons p ys)
    obtain e es'' where es': "es' = e # es''" "fld bentry (cells source) p = Some e"
        "map (fld bentry (cells source)) ys = map Some es''"
      using Cons.prems(2) by (cases es') auto
    then obtain b where b: "cells source p = Some b" "bentry b = e" by (auto simp: fld_def)
    have ok: "bucket_ok p b" using storedD(4) [OF src] b(1) by blast
    obtain t1 L1 where t1: "body p b t = Some t1" "table t1 L1 (merge_put flag f e kvs)" "settings t1 = settings t"
      using step [OF b(1) ok Cons.prems(3)] Cons.prems(4) es'(1) b(2) by auto
    note n = next_linked_Cons [OF Cons.prems(1)]
    have "length (merge_put flag f e kvs) + length es'' < 2 ^ 32"
      using length_merge_put [of flag f e kvs] Cons.prems(4) es'(1) by simp
    from Cons.IH [OF n(2) es'(3) t1(2) this] t1(1,3) b n(1) es'(1) show ?case by (auto simp: walk_Some)
  qed auto
  from this [OF stored_release(1) [OF src] storedD(5) [OF src] t room] show ?thesis
    using stored_release(5) [OF src] by simp
qed

lemma copy_step:
  assumes "table t L kvs" "malloc_ok malloc" "bucket_ok q b" "Suc (length kvs) < 2 ^ 32"
  shows "do { (r, new_entry, target) \<leftarrow>
            (if nKeyLength b \<noteq> 0
             then zend_hash_quick_add_or_update (malloc t) t (arKey b) (nKeyLength b) (bkt_h b) (zval_of (pData b)) size' HASH_UPDATE
             else zend_hash_index_update_or_next_insert (malloc t) t (bkt_h b) (zval_of (pData b)) size' HASH_UPDATE);
          call_ctor c new_entry target } = copy_entry malloc c size' HASH_UPDATE b t"
proof -
  obtain k v where e: "bentry b = (k, v)" by (cases "bentry b")
  obtain pDest ht' where i: "(if nKeyLength b \<noteq> 0
      then zend_hash_quick_add_or_update (malloc t) t (arKey b) (nKeyLength b) (bkt_h b) (zval_of (pData b)) size' HASH_UPDATE
      else zend_hash_index_update_or_next_insert (malloc t) t (bkt_h b) (zval_of (pData b)) size' HASH_UPDATE) = Some (SUCCESS, pDest, ht')"
    using insert_entry_ok [OF assms(1-3) e assms(4), of HASH_UPDATE size'] by (auto simp: inserted_def Let_def)
  show ?thesis unfolding copy_entry_def i by simp
qed

lemma hash_copy_ok:
  assumes src: "stored source Ls es" and t: "table target L kvs" and m: "malloc_ok malloc"
    and room: "length kvs + length es < 2 ^ 32"
  shows "\<exists>t' L'. zend_hash_copy malloc target source c size' = Some t' \<and>
    table t' L' (fold (merge_put HASH_UPDATE (ctor_of c)) es kvs) \<and> settings t' = settings target"
proof -
  define set' where "set' = (pInternalPointer target = None)"
  define adj where "adj p t = (if set' \<and> pInternalPointer source = Some p then t\<lparr>pInternalPointer := None\<rparr> else t)"
    for p and t :: "'a HashTable"
  have adj: "table (adj p t) L kvs" "settings (adj p t) = settings t" if "table t L kvs" for p t L kvs
    using table_set_ip [OF that, of None] that by (simp_all add: adj_def settings_def)
  let ?body = "\<lambda>p (b :: 'a bucket) t. do { (r, new_entry, target) \<leftarrow>
        (if nKeyLength b \<noteq> 0
         then zend_hash_quick_add_or_update (malloc (adj p t)) (adj p t) (arKey b) (nKeyLength b) (bkt_h b) (zval_of (pData b)) size' HASH_UPDATE
         else zend_hash_index_update_or_next_insert (malloc (adj p t)) (adj p t) (bkt_h b) (zval_of (pData b)) size' HASH_UPDATE);
      call_ctor c new_entry target }"
  have "\<exists>t' L'. walk (\<lambda>_ p. fld pListNext (cells source) p)
      (\<lambda>p t. do { b \<leftarrow> cells source p; t \<leftarrow> ?body p b t; Some (t, False) }) (pListHead source) target = Some t' \<and>
    table t' L' (fold (merge_put HASH_UPDATE (ctor_of c)) es kvs) \<and> settings t' = settings target"
  proof (rule source_walk [OF src _ t room])
    fix p and b :: "'a bucket" and t :: "'a HashTable" and L kvs
    assume b: "bucket_ok p b" and t: "table t L kvs" and r: "Suc (length kvs) < 2 ^ 32"
    note a = adj [OF t, of p]
    show "\<exists>t' L'. ?body p b t = Some t' \<and> table t' L' (merge_put HASH_UPDATE (ctor_of c) (bentry b) kvs) \<and> settings t' = settings t"
      using copy_entry_ok [OF a(1) m b r, of HASH_UPDATE c size'] a(2) unfolding copy_step [OF a(1) m b r] by simp
  qed
  then obtain t' L' where w: "walk (\<lambda>_ p. fld pListNext (cells source) p)
      (\<lambda>p t. do { b \<leftarrow> cells source p; t \<leftarrow> ?body p b t; Some (t, False) }) (pListHead source) target = Some t'"
    "table t' L' (fold (merge_put HASH_UPDATE (ctor_of c)) es kvs)" "settings t' = settings target" by blast
  define t'' where "t'' = (if pInternalPointer t' = None then t'\<lparr>pInternalPointer := pListHead t'\<rparr> else t')"
  have "zend_hash_copy malloc target source c size' = Some t''"
    unfolding zend_hash_copy_def Let_def set'_def [symmetric] adj_def [symmetric]
    using w(1) by (simp add: bind_assoc case_prod_beta' t''_def)
  moreover have "table t'' L' (fold (merge_put HASH_UPDATE (ctor_of c)) es kvs)" "settings t'' = settings target"
    using w(2,3) table_set_ip [OF w(2), of "pListHead t'"] table_head [OF w(2)] first_of_in
    by (auto simp: t''_def settings_def)
  ultimately show ?thesis by blast
qed

lemma merge_put_ADD:
  "merge_put HASH_ADD f e kvs = (if fst e \<in> fst ` set kvs then kvs else merge_put HASH_UPDATE f e kvs)"
  by (simp add: merge_put_def put_def)

lemma hash_merge_ok:
  assumes src: "stored source Ls es" and t: "table target L kvs" and m: "malloc_ok malloc"
    and room: "length kvs + length es < 2 ^ 32"
  shows "\<exists>t' L'. zend_hash_merge malloc target source c size' overwrite = Some t' \<and>
    table t' L' (fold (merge_put (if overwrite then HASH_UPDATE else HASH_ADD) (ctor_of c)) es kvs) \<and>
    settings t' = settings target \<and> pInternalPointer t' = first_of L'"
proof -
  define mode where "mode = (if overwrite then HASH_UPDATE else HASH_ADD)"
  have mode: "mode = HASH_UPDATE \<or> mode = HASH_ADD" by (simp add: mode_def)
  let ?body = "\<lambda>(p :: ptr) (b :: 'a bucket) t.
      if nKeyLength b > 0
      then do { (r, e, t) \<leftarrow> zend_hash_quick_add_or_update (malloc t) t (arKey b) (nKeyLength b) (bkt_h b) (zval_of (pData b)) size' mode;
                if r = SUCCESS then call_ctor c e t else Some t }
      else do { go \<leftarrow> (if mode = HASH_UPDATE then Some True else map_option Not (zend_hash_index_exists t (bkt_h b)));
                if go
                then do { (r, e, t) \<leftarrow> zend_hash_index_update_or_next_insert (malloc t) t (bkt_h b) (zval_of (pData b)) size' HASH_UPDATE;
                          if r = SUCCESS then call_ctor c e t else Some t }
                else Some t }"
  have "\<exists>t' L'. walk (\<lambda>_ p. fld pListNext (cells source) p)
      (\<lambda>p t. do { b \<leftarrow> cells source p; t \<leftarrow> ?body p b t; Some (t, False) }) (pListHead source) target = Some t' \<and>
    table t' L' (fold (merge_put mode (ctor_of c)) es kvs) \<and> settings t' = settings target"
  proof (rule source_walk [OF src _ t room])
    fix p and b :: "'a bucket" and t :: "'a HashTable" and L kvs
    assume b: "bucket_ok p b" and t: "table t L kvs" and r: "Suc (length kvs) < 2 ^ 32"
    show "\<exists>t' L'. ?body p b t = Some t' \<and> table t' L' (merge_put mode (ctor_of c) (bentry b) kvs) \<and> settings t' = settings t"
    proof (cases "nKeyLength b = 0")
      case False
      then have "?body p b t = copy_entry malloc c size' mode b t" by (simp add: copy_entry_def)
      then show ?thesis using copy_entry_ok [OF t m b r mode] by simp
    next
      case True
      have k: "fst (bentry b) = IntKey (bkt_h b)" using True by (simp add: bentry_def bkey_def)
      show ?thesis
      proof (cases "mode = HASH_ADD \<and> IntKey (bkt_h b) \<in> fst ` set kvs")
        case exists: True
        then have "?body p b t = Some t" using True index_find_ok(2) [OF tableD(1) [OF t]] by simp
        then show ?thesis using exists t k by (auto simp: merge_put_ADD)
      next
        case False
        then have "?body p b t = copy_entry malloc c size' HASH_UPDATE b t"
          using True mode index_find_ok(2) [OF tableD(1) [OF t]] by (auto simp: copy_entry_def)
        moreover have "merge_put mode (ctor_of c) (bentry b) kvs = merge_put HASH_UPDATE (ctor_of c) (bentry b) kvs"
          using False mode k by (auto simp: merge_put_ADD)
        ultimately show ?thesis using copy_entry_ok [OF t m b r, of HASH_UPDATE c size'] by simp
      qed
    qed
  qed
  then obtain t' L' where w: "walk (\<lambda>_ p. fld pListNext (cells source) p)
      (\<lambda>p t. do { b \<leftarrow> cells source p; t \<leftarrow> ?body p b t; Some (t, False) }) (pListHead source) target = Some t'"
    "table t' L' (fold (merge_put mode (ctor_of c)) es kvs)" "settings t' = settings target" by blast
  have "zend_hash_merge malloc target source c size' overwrite = Some (t'\<lparr>pInternalPointer := pListHead t'\<rparr>)"
    unfolding zend_hash_merge_def Let_def mode_def [symmetric] using w(1) by simp
  moreover have "table (t'\<lparr>pInternalPointer := pListHead t'\<rparr>) L' (fold (merge_put mode (ctor_of c)) es kvs)"
    by (rule table_set_ip [OF w(2)]) (use table_head [OF w(2)] first_of_in in auto)
  ultimately show ?thesis using w(3) table_head [OF w(2)] unfolding mode_def [symmetric]
    by (intro exI [of _ "t'\<lparr>pInternalPointer := pListHead t'\<rparr>"] exI [of _ L']) (simp add: settings_def)
qed

section \<open>Cursors\<close>

lemma entry_at:
  assumes t: "table ht L kvs" and i: "i < length L"
  obtains b where "cells ht (L ! i) = Some b" "bentry b = kvs ! i" "bucket_ok (L ! i) b"
    and "pListNext b = (if Suc i < length L then Some (L ! Suc i) else None)"
    and "pListLast b = (if i = 0 then None else Some (L ! (i - 1)))"
proof -
  note st = tableD(1) [OF t]
  have L: "L = take i L @ (L ! i) # drop (Suc i) L" using i by (simp add: id_take_nth_drop)
  have "L ! i \<in> dom (cells ht)" using stored_dom [OF st] i by simp
  then obtain b where b: "cells ht (L ! i) = Some b" by blast
  have "map (fld bentry (cells ht)) L ! i = map Some kvs ! i" using storedD(5) [OF st] by simp
  then have "bentry b = kvs ! i" using b i stored_length [OF st] by simp
  moreover have "bucket_ok (L ! i) b" using storedD(4) [OF st] b by blast
  moreover have "pListNext b = first_of (drop (Suc i) L)" "pListLast b = last_of (take i L)"
    using glist_links [of ht "take i L" "L ! i" "drop (Suc i) L" kvs b] st L b by simp_all
  moreover have "first_of (drop (Suc i) L) = (if Suc i < length L then Some (L ! Suc i) else None)"
    by (auto simp: first_of_def Cons_nth_drop_Suc [symmetric] split: list.splits)
  moreover have "last_of (take i L) = (if i = 0 then None else Some (L ! (i - 1)))"
    using i by (cases i) (auto simp: take_Suc_conv_app_nth)
  ultimately show thesis using that b by simp
qed

definition key_result_of :: "'v bucket \<Rightarrow> key_result" where
  "key_result_of b = (if nKeyLength b = 0 then HASH_KEY_IS_LONG (bkt_h b) else HASH_KEY_IS_STRING (arKey b) (nKeyLength b))"

fun key_of_result :: "key_result \<Rightarrow> hkey option" where
  "key_of_result (HASH_KEY_IS_STRING key len) = Some (StrKey (take len (chars key)))"
| "key_of_result (HASH_KEY_IS_LONG h) = Some (IntKey h)"
| "key_of_result HASH_KEY_NON_EXISTENT = None"

lemma set_pointer_search:
  assumes t: "table ht L kvs"
  shows "do { head \<leftarrow> slot_get ht (slot_index (nTableMask ht) h); cell_search (cells ht) pNext (\<lambda>p _. p = pos) head } =
    Some (if pos \<in> set L \<and> slot_of (nTableMask ht) (cells ht) pos = Some (slot_index (nTableMask ht) h) then Some pos else None)"
proof -
  obtain C where C: "chain_lists (nTableMask ht) (arBuckets ht) (cells ht) (set L) C"
    using storedD(3) [OF tableD(1) [OF t]] by (auto simp: slot_chains_def)
  let ?i = "slot_index (nTableMask ht) h"
  have g: "slot_get ht ?i = Some (first_of (C ?i))"
    using chain_listsD(1,3) [OF C] slot_index_le [of "nTableMask ht" h] by (simp add: slot_get_def le_imp_less_Suc)
  have f: "find (\<lambda>a. \<exists>b. cells ht a = Some b \<and> a = pos) xs = (if pos \<in> set xs then Some pos else None)"
    if "set xs \<subseteq> dom (cells ht)" for xs
    using that by (induction xs) auto
  have "set (C ?i) \<subseteq> dom (cells ht)" using chain_listsD(2) [OF C] chain_listsD(5) [OF C slot_index_le] by auto
  from f [OF this] show ?thesis
    using g cell_search_linked [OF chain_listsD(4) [OF C slot_index_le], where test = "\<lambda>p _. p = pos"]
      chain_listsD(5) [OF C slot_index_le] by simp
qed

section \<open>Properties\<close>

text \<open>
  C11: \<^verbatim>\<open>zend_hash_apply\<close> visits the entries in order until the callback asks to stop, removes
  exactly those it marks, keeps the others, with the data the callback left in them, in
  their order, and calls the destructor on the removed data only. The result is
  that of the list function \<open>apply_list\<close>. \<^verbatim>\<open>zend_hash_reverse_apply\<close> does the same from the end,
  \<^verbatim>\<open>zend_hash_apply_with_argument\<close> hands its argument on to the callback, and \<^verbatim>\<open>zend_hash_apply_with_arguments\<close>
  its arguments, their number and the key of the entry (its characters, length and hash). If the table is already being
  traversed three times, all four bail out before anything is visited.
\<close>

theorem hash_apply_spec:
  assumes "table ht L kvs"
  shows "(too_deep ht \<longrightarrow>
      zend_hash_apply ht func s = Some (Inl (ht\<lparr>nApplyCount := nApplyCount ht + 1\<rparr>)) \<and>
      zend_hash_apply_with_argument ht func2 arg s = Some (Inl (ht\<lparr>nApplyCount := nApplyCount ht + 1\<rparr>)) \<and>
      zend_hash_apply_with_arguments ht (key_reader func3) args s = Some (Inl (ht\<lparr>nApplyCount := nApplyCount ht + 1\<rparr>)) \<and>
      zend_hash_reverse_apply ht func s = Some (Inl (ht\<lparr>nApplyCount := nApplyCount ht + 1\<rparr>))) \<and>
    (\<not> too_deep ht \<longrightarrow>
      (\<forall>kvs' gone s'. apply_list (\<lambda>(k, v). func v) kvs s = (kvs', gone, s') \<longrightarrow>
        (\<exists>ht' L'. zend_hash_apply ht func s = Some (Inr (ht', s')) \<and> table ht' L' kvs' \<and> kept_settings ht ht' gone)) \<and>
      (\<forall>kvs' gone s'. apply_list (\<lambda>(k, v). func2 v arg) kvs s = (kvs', gone, s') \<longrightarrow>
        (\<exists>ht' L'. zend_hash_apply_with_argument ht func2 arg s = Some (Inr (ht', s')) \<and> table ht' L' kvs' \<and> kept_settings ht ht' gone)) \<and>
      (\<forall>kvs' gone s'. apply_list (\<lambda>(k, v). func3 v (length args) args (key_view k)) kvs s = (kvs', gone, s') \<longrightarrow>
        (\<exists>ht' L'. zend_hash_apply_with_arguments ht (key_reader func3) args s = Some (Inr (ht', s')) \<and> table ht' L' kvs' \<and> kept_settings ht ht' gone)) \<and>
      (\<forall>kvs' gone s'. apply_list (\<lambda>(k, v). func v) (rev kvs) s = (kvs', gone, s') \<longrightarrow>
        (\<exists>ht' L'. zend_hash_reverse_apply ht func s = Some (Inr (ht', s')) \<and> table ht' L' (rev kvs') \<and> kept_settings ht ht' gone)))"
proof -
  have f1: "\<forall>b s p. bucket_ok p b \<longrightarrow> func (zval_of (pData b)) s = (\<lambda>(k, v). func v) (bentry b) s"
    and f2: "\<forall>b s p. bucket_ok p b \<longrightarrow> func2 (zval_of (pData b)) arg s = (\<lambda>(k, v). func2 v arg) (bentry b) s"
    by (simp_all add: bentry_def)
  have f3: "\<forall>b s p. bucket_ok p b \<longrightarrow> key_reader func3 (zval_of (pData b)) (length args) args (hash_key_of b) s =
      (\<lambda>(k, v). func3 v (length args) args (key_view k)) (bentry b) s"
    by (intro allI impI) (simp only: key_view_bucket bentry_def prod.case)
  note deep = protect_cases(1) [OF assms]
  note fw1 = apply_forward_ok [OF assms _ f1, folded zend_hash_apply_def]
    and fw2 = apply_forward_ok [OF assms _ f2, folded zend_hash_apply_with_argument_def]
    and fw3 = apply_forward_ok [OF assms _ f3, folded zend_hash_apply_with_arguments_def]
    and bw = apply_reverse_ok [OF assms _ f1, folded zend_hash_reverse_apply_def]
  show ?thesis (is "(?d \<longrightarrow> ?deep) \<and> (\<not> ?d \<longrightarrow> ?a \<and> ?b \<and> ?c \<and> ?e)")
  proof (intro conjI impI)
    assume d: ?d
    show "zend_hash_apply ht func s = Some (Inl (ht\<lparr>nApplyCount := nApplyCount ht + 1\<rparr>))"
      "zend_hash_apply_with_argument ht func2 arg s = Some (Inl (ht\<lparr>nApplyCount := nApplyCount ht + 1\<rparr>))"
      "zend_hash_apply_with_arguments ht (key_reader func3) args s = Some (Inl (ht\<lparr>nApplyCount := nApplyCount ht + 1\<rparr>))"
      "zend_hash_reverse_apply ht func s = Some (Inl (ht\<lparr>nApplyCount := nApplyCount ht + 1\<rparr>))"
      using d deep by (simp_all add: too_deep_def zend_hash_apply_def zend_hash_apply_with_argument_def zend_hash_apply_with_arguments_def
          zend_hash_reverse_apply_def)
  next
    assume d: "\<not> ?d"
    show ?a using fw1 [OF d] by blast
    show ?b using fw2 [OF d] by blast
    show ?c using fw3 [OF d] by blast
    show ?e using bw [OF d] by blast
  qed
qed

theorem hash_apply_spec_witness:
  "(\<exists>ht' L'. zend_hash_apply sample_ht (\<lambda>v (n :: nat). (if v = 5 then 1 else 0, v + 1, n + v)) 0 = Some (Inr (ht', 11)) \<and>
     table ht' L' [(IntKey 7, 7)] \<and> destroyed ht' = [6]) \<and>
   (\<exists>ht' L'. zend_hash_apply_with_arguments sample_ht (key_reader (\<lambda>v m (as :: nat list) (cs, len, h) n. (2, v + m, n + len))) [1, 2, 3] (0 :: nat) =
       Some (Inr (ht', 2)) \<and> table ht' L' [(StrKey [97, 0], 8), (IntKey 7, 6)])"
proof -
  let ?f = "\<lambda>v (n :: nat). (if v = 5 then 1 else 0 :: uint, v + 1, n + v)"
  let ?g = "\<lambda>v m (as :: nat list) (cs :: byte list, len, h :: ulong) n. (2 :: uint, v + m, n + len)"
  have d: "\<not> too_deep sample_ht" using sample_table(2) by (simp add: too_deep_def settings_def)
  have a: "apply_list (\<lambda>(k, v). ?f v) [(StrKey [97, 0], 5), (IntKey 7, 6)] 0 = ([(IntKey 7, 7)], [6], 11)"
    by (simp add: ZEND_HASH_APPLY_REMOVE_def ZEND_HASH_APPLY_STOP_def)
  have b: "apply_list (\<lambda>(k, v). ?g v (length [1, 2, 3 :: nat]) [1, 2, 3] (key_view k)) [(StrKey [97, 0], 5), (IntKey 7, 6)] 0 =
      ([(StrKey [97, 0], 8), (IntKey 7, 6)], [], 2 :: nat)"
    by (simp add: ZEND_HASH_APPLY_REMOVE_def ZEND_HASH_APPLY_STOP_def key_view_def)
  obtain ht' L' where "zend_hash_apply sample_ht ?f 0 = Some (Inr (ht', 11))" "table ht' L' [(IntKey 7, 7)]"
      "kept_settings sample_ht ht' [6]"
    using hash_apply_spec [OF sample_table(1), where func = ?f and s = 0 and ?func2.0 = "\<lambda>v a s. (0, v, s)" and arg = "()" and ?func3.0 = "\<lambda>v m as k n. (0, v, n)" and args = "[()]"] d a by blast
  moreover obtain h2 L2 where "zend_hash_apply_with_arguments sample_ht (key_reader ?g) [1, 2, 3] (0 :: nat) = Some (Inr (h2, 2))"
      "table h2 L2 [(StrKey [97, 0], 8), (IntKey 7, 6)]"
    using hash_apply_spec [OF sample_table(1), where ?func3.0 = ?g and args = "[1, 2, 3]" and s = "0 :: nat" and func = "\<lambda>v n. (0, v, n)" and ?func2.0 = "\<lambda>v a s. (0, v, s)" and arg = "()"] d b by blast
  ultimately show ?thesis using sample_table(2,3) by (auto simp: kept_settings_def dtor_log_def settings_def)
qed

text \<open>
  C13: all four ways to empty a table release everything exactly once. \<^verbatim>\<open>zend_hash_destroy\<close>,
  \<^verbatim>\<open>zend_hash_clean\<close> and \<^verbatim>\<open>zend_hash_graceful_destroy\<close> call the destructor on all data in insertion order,
  \<^verbatim>\<open>zend_hash_graceful_reverse_destroy\<close> in the reverse order; no bucket and no data block is left
  allocated. After \<^verbatim>\<open>zend_hash_clean\<close> the table is a well-formed empty table again.
\<close>

theorem hash_destroy_spec:
  assumes "table ht L kvs"
  shows "(\<exists>ht'. zend_hash_destroy ht = Some ht' \<and> cells ht' = Map.empty \<and> dataBlocks ht' = 0 \<and>
      destroyed ht' = dtor_log ht (map snd kvs)) \<and>
    (\<exists>ht'. zend_hash_clean ht = Some ht' \<and> table ht' [] [] \<and> cells ht' = Map.empty \<and> dataBlocks ht' = 0 \<and>
      destroyed ht' = dtor_log ht (map snd kvs)) \<and>
    (\<exists>ht'. zend_hash_graceful_destroy ht = Some ht' \<and> cells ht' = Map.empty \<and> dataBlocks ht' = 0 \<and>
      destroyed ht' = dtor_log ht (map snd kvs)) \<and>
    (\<exists>ht'. zend_hash_graceful_reverse_destroy ht = Some ht' \<and> cells ht' = Map.empty \<and> dataBlocks ht' = 0 \<and>
      destroyed ht' = dtor_log ht (rev (map snd kvs)))"
proof -
  note st = tableD(1) [OF assms] note r = stored_release [OF st]
  have fs: "cells (free_slots h) = cells h" "dataBlocks (free_slots h) = dataBlocks h" "destroyed (free_slots h) = destroyed h"
    for h :: "'a HashTable" by (simp_all add: free_slots_def)
  have d: "\<exists>ht'. zend_hash_destroy ht = Some ht' \<and> cells ht' = Map.empty \<and> dataBlocks ht' = 0 \<and>
      destroyed ht' = dtor_log ht (map snd kvs)"
    using release_loop_ok [OF r(1-4)] r(5) by (simp add: zend_hash_destroy_def fs)
  have e: "cells h = Map.empty \<and> dataBlocks h = 0" if "stored h [] []" for h :: "'a HashTable"
    using that by (auto simp: stored_def wf_list_def blocks_def)
  have g: "\<exists>ht'. zend_hash_graceful_destroy ht = Some ht' \<and> cells ht' = Map.empty \<and> dataBlocks ht' = 0 \<and>
      destroyed ht' = dtor_log ht (map snd kvs)"
    using graceful_forward [OF st] e r(5) by (fastforce simp: zend_hash_graceful_destroy_def fs kept_settings_def)
  have tl: "pListTail ht = last_of L" using wf_listD(1) [OF storedD(1) [OF st]] by (simp add: glist_def)
  have b: "\<exists>ht'. zend_hash_graceful_reverse_destroy ht = Some ht' \<and> cells ht' = Map.empty \<and> dataBlocks ht' = 0 \<and>
      destroyed ht' = dtor_log ht (rev (map snd kvs))"
    using graceful_backward [OF st] e tl by (fastforce simp: zend_hash_graceful_reverse_destroy_def fs kept_settings_def)
  have "\<exists>ht'. zend_hash_clean ht = Some ht' \<and> table ht' [] [] \<and> cells ht' = Map.empty \<and> dataBlocks ht' = 0 \<and>
      destroyed ht' = dtor_log ht (map snd kvs)"
  proof -
    note sz = storedD(2) [OF st] note szD = sizedD [OF sz]
    define ar where "ar = (if nTableMask ht \<noteq> 0 then replicate (Suc (unat (nTableMask ht))) (Some None) else arBuckets ht)"
    define h where "h = ht\<lparr>arBuckets := ar, pListHead := None, pListTail := None, nNumOfElements := 0, nNextFreeElement := 0,
        pInternalPointer := None\<rparr>"
    have len: "length (arBuckets ht) = Suc (unat (nTableMask ht))" using chains_dom(2) [OF storedD(3) [OF st]] .
    have m: "nTableMask ht \<noteq> 0 \<Longrightarrow> Suc (unat (nTableMask ht)) = unat (nTableSize ht)"
      using sz szD(2) by (auto simp: sized_def)
    have c: "zend_hash_clean ht = release_loop (first_of L) h"
      using r(5) len m by (auto simp: zend_hash_clean_def Let_def clear_slots_def h_def ar_def ht_unchanged)
    have "release_loop (first_of L) h = Some (h\<lparr>cells := Map.empty, destroyed := dtor_log h (map snd kvs), dataBlocks := 0\<rparr>)"
      by (rule release_loop_ok) (use r in \<open>simp_all add: h_def\<close>)
    moreover have ch: "slot_chains (nTableMask ht) ar Map.empty {}"
    proof (cases "nTableMask ht = 0")
      case True
      then have "L = []" using sz szD(3) r(2) by (auto simp: sized_def)
      then show ?thesis
        using storedD(3) [OF st] True chains_cong [of "nTableMask ht" "arBuckets ht" "cells ht" "{}" Map.empty] by (simp add: ar_def)
    qed (simp add: ar_def chains_Nil del: replicate_Suc)
    have "table (h\<lparr>cells := Map.empty, destroyed := dtor_log h (map snd kvs), dataBlocks := 0\<rparr>) [] []"
      using ch sz by (auto simp: h_def table_def stored_def wf_list_def glist_def sized_def blocks_def next_free_ok_def)
    ultimately show ?thesis using c by (simp add: h_def dtor_log_def)
  qed
  then show ?thesis using d g b by blast
qed

theorem hash_destroy_spec_witness:
  "(\<exists>ht'. zend_hash_graceful_reverse_destroy sample_ht = Some ht' \<and> cells ht' = Map.empty \<and> destroyed ht' = [6, 5]) \<and>
   (\<exists>ht'. zend_hash_clean sample_ht = Some ht' \<and> table ht' [] [] \<and> destroyed ht' = [5, 6])"
  using hash_destroy_spec [OF sample_table(1)] sample_table(2,3) by (auto simp: dtor_log_def settings_def)

text \<open>
  C12: copying and merging. Given an allocator that returns unused addresses and room for all
  entries, \<^verbatim>\<open>zend_hash_copy\<close> stores every entry of the source, passed through the copy constructor, into
  the target, in source order, replacing entries with the same key; \<^verbatim>\<open>zend_hash_merge\<close> does so
  when told to overwrite and otherwise only adds the keys the target does not have, and resets
  the internal pointer to the first element. The target stays well-formed.
\<close>

theorem hash_copy_merge_spec:
  assumes "table source Ls es" "table target L kvs" "malloc_ok malloc" "length kvs + length es < 2 ^ 32"
  shows "(\<exists>t' L'. zend_hash_copy malloc target source c size' = Some t' \<and>
      table t' L' (fold (merge_put HASH_UPDATE (ctor_of c)) es kvs) \<and> settings t' = settings target) \<and>
    (\<exists>t' L'. zend_hash_merge malloc target source c size' overwrite = Some t' \<and>
      table t' L' (fold (merge_put (if overwrite then HASH_UPDATE else HASH_ADD) (ctor_of c)) es kvs) \<and>
      settings t' = settings target \<and> pInternalPointer t' = first_of L')"
  using hash_copy_ok [OF tableD(1) [OF assms(1)] assms(2-4)] hash_merge_ok [OF tableD(1) [OF assms(1)] assms(2-4)] by blast

definition sample_malloc :: "'v HashTable \<Rightarrow> ptr" where
  "sample_malloc ht = Suc (Max (insert 0 (dom (cells ht))))"

lemma sample_malloc_ok: "malloc_ok sample_malloc"
proof -
  have "Suc (Max (insert 0 S)) \<notin> S" if "finite S" for S :: "nat set"
    using Max_ge [of "insert 0 S"] that by (metis Suc_n_not_le_n finite_insert insertI2)
  then show ?thesis by (simp add: malloc_ok_def sample_malloc_def)
qed

theorem hash_copy_merge_spec_witness:
  "(\<exists>t' L'. zend_hash_copy sample_malloc empty_ht sample_ht (Some Suc) 8 = Some t' \<and>
     table t' L' [(StrKey [97, 0], 6), (IntKey 7, 7)]) \<and>
   (\<exists>t' L'. zend_hash_merge sample_malloc sample_ht sample_ht (Some Suc) 8 False = Some t' \<and>
     table t' L' [(StrKey [97, 0], 5), (IntKey 7, 6)])"
proof -
  have "\<exists>t' L'. zend_hash_copy sample_malloc empty_ht sample_ht (Some Suc) 8 = Some t' \<and>
      table t' L' (fold (merge_put HASH_UPDATE (ctor_of (Some Suc))) [(StrKey [97, 0], 5), (IntKey 7, 6)] [])"
    using hash_copy_merge_spec [OF sample_table(1) empty_ht_table sample_malloc_ok, of "Some Suc" 8 True] by auto
  moreover have "\<exists>t' L'. zend_hash_merge sample_malloc sample_ht sample_ht (Some Suc) 8 False = Some t' \<and>
      table t' L' (fold (merge_put HASH_ADD (ctor_of (Some Suc))) [(StrKey [97, 0], 5), (IntKey 7, 6)] [(StrKey [97, 0], 5), (IntKey 7, 6)])"
    using hash_copy_merge_spec [OF sample_table(1) sample_table(1) sample_malloc_ok, of "Some Suc" 8 False] by auto
  ultimately show ?thesis by (simp add: merge_put_def put_def ctor_of_def)
qed

text \<open>
  C14: iterating with a cursor. A cursor on the \<open>i\<close>-th bucket reads the key and the data of the \<open>i\<close>-th
  entry, moves forward to the next and backwards to the previous bucket and off the table at
  either end; reset and end go to the first and the last bucket; a cursor off the table
  reads nothing and fails to move. So resetting and moving forward \<open>n\<close> times visits all
  entries in insertion order, whether the position is the caller's or the table's own.
\<close>

theorem hash_cursor_spec:
  assumes "table ht L kvs" "i < length L"
  shows "\<exists>r. zend_hash_get_current_key_ex dup ht False (Some (Some (L ! i))) = Some r \<and> key_of_result r = Some (fst (kvs ! i)) \<and>
    zend_hash_get_current_data_ex ht (Some (Some (L ! i))) = Some (SUCCESS, Some (snd (kvs ! i))) \<and>
    zend_hash_move_forward_ex ht (Some (Some (L ! i))) =
      Some (SUCCESS, ht, Some (if Suc i < length L then Some (L ! Suc i) else None)) \<and>
    zend_hash_move_backwards_ex ht (Some (Some (L ! i))) =
      Some (SUCCESS, ht, Some (if i = 0 then None else Some (L ! (i - 1)))) \<and>
    zend_hash_internal_pointer_reset_ex ht (Some pos) = (ht, Some (Some (L ! 0))) \<and>
    zend_hash_internal_pointer_end_ex ht (Some pos) = (ht, Some (Some (L ! (length L - 1)))) \<and>
    zend_hash_move_forward_ex ht (Some None) = Some (FAILURE, ht, Some None) \<and>
    zend_hash_get_current_data_ex ht (Some None) = Some (FAILURE, None) \<and>
    zend_hash_move_forward_ex (ht\<lparr>pInternalPointer := Some (L ! i)\<rparr>) None =
      Some (SUCCESS, ht\<lparr>pInternalPointer := (if Suc i < length L then Some (L ! Suc i) else None)\<rparr>, None)"
proof -
  obtain b where b: "cells ht (L ! i) = Some b" "bentry b = kvs ! i" "bucket_ok (L ! i) b"
      "pListNext b = (if Suc i < length L then Some (L ! Suc i) else None)"
      "pListLast b = (if i = 0 then None else Some (L ! (i - 1)))"
    by (rule entry_at [OF assms])
  have k: "key_of_result (key_result_of b) = Some (fst (kvs ! i))" "snd (kvs ! i) = zval_of (pData b)"
    using b(3) b(2) [symmetric] by (auto simp: key_result_of_def bentry_def bkey_def bucket_ok_def)
  have g: "pListHead ht = first_of L" "pListTail ht = last_of L"
    using wf_listD(1) [OF storedD(1) [OF tableD(1) [OF assms(1)]]] by (simp_all add: glist_def)
  have "L \<noteq> []" using assms(2) by auto
  then have "first_of L = Some (L ! 0)" "last_of L = Some (L ! (length L - 1))"
    by (auto simp: first_of_def last_of_def last_conv_nth split: list.splits)
  then show ?thesis
    by (intro exI [of _ "key_result_of b"])
      (use b(1,4,5) k g in \<open>simp add: zend_hash_get_current_key_ex_def zend_hash_get_current_data_ex_def
        zend_hash_move_forward_ex_def zend_hash_move_backwards_ex_def zend_hash_internal_pointer_reset_ex_def
        zend_hash_internal_pointer_end_ex_def current_def set_current_def key_result_of_def\<close>)
qed

theorem hash_cursor_spec_witness:
  "zend_hash_get_current_data_ex sample_ht (Some (Some 1)) = Some (SUCCESS, Some 5) \<and>
   zend_hash_move_forward_ex sample_ht (Some (Some 1)) = Some (SUCCESS, sample_ht, Some (Some 2)) \<and>
   zend_hash_move_forward_ex sample_ht (Some (Some 2)) = Some (SUCCESS, sample_ht, Some None)"
  using hash_cursor_spec [OF sample_table(1), of 0 0 None] hash_cursor_spec [OF sample_table(1), of 1 0 None] by auto

text \<open>
  saving and restoring the internal pointer, as \<^verbatim>\<open>foreach\<close> does. A pointer saved with
  \<^verbatim>\<open>zend_hash_get_pointer\<close> is restored by \<^verbatim>\<open>zend_hash_set_pointer\<close> in every later state of the table in
  which the bucket still exists under its hash, whatever was inserted, deleted or resized in
  between; if the bucket has been deleted meanwhile, the call reports failure and changes nothing, and never
  follows the stale address.
\<close>

theorem hash_pointer_roundtrip:
  assumes "table ht L kvs" "table ht2 L2 kvs2"
  shows "\<exists>ok ptr'. zend_hash_get_pointer ht = Some (ok, ptr') \<and> hp_pos ptr' = pInternalPointer ht \<and>
    (pInternalPointer ht = None \<longrightarrow> zend_hash_set_pointer ht2 ptr' = Some (True, ht2\<lparr>pInternalPointer := None\<rparr>)) \<and>
    (\<forall>p. pInternalPointer ht = Some p \<longrightarrow>
       (p \<in> set L2 \<and> fld bkt_h (cells ht2) p = fld bkt_h (cells ht) p \<longrightarrow>
          zend_hash_set_pointer ht2 ptr' = Some (True, ht2\<lparr>pInternalPointer := Some p\<rparr>)) \<and>
       (p \<notin> set L2 \<longrightarrow> zend_hash_set_pointer ht2 ptr' = Some (False, ht2)))"
proof (cases "pInternalPointer ht")
  case None
  then show ?thesis
    by (intro exI [of _ False] exI [of _ "\<lparr>hp_pos = None, hp_h = 0\<rparr>"])
      (simp add: zend_hash_get_pointer_def zend_hash_set_pointer_def)
next
  case (Some p)
  have "p \<in> dom (cells ht)"
    using wf_listD(5) [OF storedD(1) [OF tableD(1) [OF assms(1)]]] stored_dom [OF tableD(1) [OF assms(1)]] Some by simp
  then obtain b where b: "cells ht p = Some b" by blast
  let ?ptr = "\<lparr>hp_pos = Some p, hp_h = bkt_h b\<rparr>"
  have ip2: "pInternalPointer ht2 = Some p \<Longrightarrow> p \<in> set L2"
    using wf_listD(5) [OF storedD(1) [OF tableD(1) [OF assms(2)]]] by auto
  note s = set_pointer_search [OF assms(2), of "bkt_h b" p]
  have "p \<in> set L2 \<Longrightarrow> fld bkt_h (cells ht2) p = fld bkt_h (cells ht) p \<Longrightarrow>
      zend_hash_set_pointer ht2 ?ptr = Some (True, ht2\<lparr>pInternalPointer := Some p\<rparr>)"
    using s b by (cases "pInternalPointer ht2 = Some p")
      (auto simp: zend_hash_set_pointer_def ht_unchanged slot_of_h bind_eq_Some_conv)
  moreover have "p \<notin> set L2 \<Longrightarrow> zend_hash_set_pointer ht2 ?ptr = Some (False, ht2)"
    using s ip2 by (auto simp: zend_hash_set_pointer_def bind_eq_Some_conv)
  ultimately show ?thesis using Some b by (auto simp: zend_hash_get_pointer_def)
qed

theorem hash_pointer_roundtrip_witness:
  "\<exists>ok ptr'. zend_hash_get_pointer sample_ht = Some (ok, ptr') \<and>
     zend_hash_set_pointer sample_ht ptr' = Some (True, sample_ht) \<and>
     zend_hash_set_pointer empty_ht ptr' = Some (False, empty_ht)"
proof -
  note a = hash_pointer_roundtrip [OF sample_table(1) sample_table(1)]
  note b = hash_pointer_roundtrip [OF sample_table(1) empty_ht_table]
  obtain ok ptr' where p: "zend_hash_get_pointer sample_ht = Some (ok, ptr')" using a by blast
  then have "zend_hash_set_pointer sample_ht ptr' = Some (True, sample_ht\<lparr>pInternalPointer := Some 1\<rparr>)"
      "zend_hash_set_pointer empty_ht ptr' = Some (False, empty_ht)"
    using a b sample_table(5) by auto
  with p show ?thesis using ht_unchanged(4) [OF sample_table(5)] by auto
qed

end
