(* ===== verification/Zend_Qsort.thy ===== *)
theory Zend_Qsort
  imports Zend_Prelude "HOL-Library.Multiset"
begin

text \<open>
  The in-place, non-recursive quicksort of \<^verbatim>\<open>Zend/zend_qsort.c\<close>.

  An array is a list; a pointer into it is the index of the element it points at, an
  \<open>int\<close>, since \<^verbatim>\<open>end\<close> runs one element before the array. Reads and swaps out of range
  and pushes beyond the \<^verbatim>\<open>QSORT_STACK_SIZE\<close> entries of the two explicit stacks are
  faults (\<open>None\<close>), and the loops are \<open>partial_function (option)\<close>, so that returning at
  all is part of what is proved: for every comparison function the sort returns a
  permutation of its input (no fault, no divergence), and for one that answers like a
  total preorder the result is sorted.
\<close>

section \<open>Model\<close>

definition QSORT_STACK_SIZE :: int where
  "QSORT_STACK_SIZE = 64"

definition aget :: "'a list \<Rightarrow> int \<Rightarrow> 'a option" where
  "aget xs i = (if 0 \<le> i \<and> i < int (length xs) then Some (xs ! nat i) else None)"

definition aset :: "'a list \<Rightarrow> int \<Rightarrow> 'a \<Rightarrow> 'a list option" where
  "aset xs i v = (if 0 \<le> i \<and> i < int (length xs) then Some (xs[nat i := v]) else None)"

definition zend_qsort_swap :: "'a list \<Rightarrow> int \<Rightarrow> int \<Rightarrow> 'a list option" where
  "zend_qsort_swap xs a b =
     do { x \<leftarrow> aget xs a; y \<leftarrow> aget xs b; xs \<leftarrow> aset xs a y; aset xs b x }"

partial_function (option) seg1_loop ::
  "('a \<Rightarrow> 'a \<Rightarrow> int) \<Rightarrow> 'a list \<Rightarrow> int \<Rightarrow> int \<Rightarrow> int \<Rightarrow> int option" where
  "seg1_loop compare xs begin seg1 seg2 =
     (if seg1 < seg2 then
        do { x \<leftarrow> aget xs begin; y \<leftarrow> aget xs seg1;
             if compare x y > 0 then seg1_loop compare xs begin (seg1 + 1) seg2 else Some seg1 }
      else Some seg1)"

partial_function (option) seg2_loop ::
  "('a \<Rightarrow> 'a \<Rightarrow> int) \<Rightarrow> 'a list \<Rightarrow> int \<Rightarrow> int \<Rightarrow> int \<Rightarrow> int option" where
  "seg2_loop compare xs begin seg1 seg2 =
     (if seg2 \<ge> seg1 then
        do { y \<leftarrow> aget xs seg2; x \<leftarrow> aget xs begin;
             if compare y x > 0 then seg2_loop compare xs begin seg1 (seg2 - 1) else Some seg2 }
      else Some seg2)"

partial_function (option) partition_loop ::
  "('a \<Rightarrow> 'a \<Rightarrow> int) \<Rightarrow> int \<Rightarrow> 'a list \<Rightarrow> int \<Rightarrow> int \<Rightarrow> ('a list \<times> int) option" where
  "partition_loop compare begin xs seg1 seg2 =
     do { seg1 \<leftarrow> seg1_loop compare xs begin seg1 seg2;
          seg2 \<leftarrow> seg2_loop compare xs begin seg1 seg2;
          if seg1 \<ge> seg2 then Some (xs, seg2)
          else do { xs \<leftarrow> zend_qsort_swap xs seg1 seg2;
                    partition_loop compare begin xs (seg1 + 1) (seg2 - 1) } }"

text \<open>
  The body of \<^verbatim>\<open>while (begin < end)\<close> up to the last swap: move the middle element to
  the front, partition around it, put it between the two parts. \<^verbatim>\<open>offset\<close> is a 32-bit
  unsigned number of bytes, hence the \<open>mod\<close>.
\<close>

definition partition_step ::
  "nat \<Rightarrow> ('a \<Rightarrow> 'a \<Rightarrow> int) \<Rightarrow> 'a list \<Rightarrow> int \<Rightarrow> int \<Rightarrow> ('a list \<times> int) option" where
  "partition_step siz compare xs begin end' =
     do { let offset = ((end' - begin) * int siz div 2) mod 2 ^ 32;
          xs \<leftarrow> zend_qsort_swap xs begin (begin + (offset - offset mod int siz) div int siz);
          (xs, seg2) \<leftarrow> partition_loop compare begin xs (begin + 1) end';
          xs \<leftarrow> zend_qsort_swap xs begin seg2;
          Some (xs, seg2) }"

record 'a qs_state =
  qs_array :: "'a list"
  begin_stack :: "int list"
  end_stack :: "int list"
  loop :: int

definition qs_push :: "int \<Rightarrow> int \<Rightarrow> 'a qs_state \<Rightarrow> 'a qs_state option" where
  "qs_push b e s =
     do { bs \<leftarrow> aset (begin_stack s) (loop s) b;
          es \<leftarrow> aset (end_stack s) (loop s) e;
          Some (s\<lparr>begin_stack := bs, end_stack := es, loop := loop s + 1\<rparr>) }"

partial_function (option) segment_loop ::
  "nat \<Rightarrow> ('a \<Rightarrow> 'a \<Rightarrow> int) \<Rightarrow> int \<Rightarrow> int \<Rightarrow> 'a qs_state \<Rightarrow> 'a qs_state option" where
  "segment_loop siz compare begin end' s =
     (if begin < end' then
        do { (xs, seg2p) \<leftarrow> partition_step siz compare (qs_array s) begin end';
             let s = s\<lparr>qs_array := xs\<rparr>;
             if seg2p - begin \<le> end' - seg2p then
               do { s \<leftarrow> (if seg2p + 1 < end' then qs_push (seg2p + 1) end' s else Some s);
                    segment_loop siz compare begin (seg2p - 1) s }
             else
               do { s \<leftarrow> (if seg2p - 1 > begin then qs_push begin (seg2p - 1) s else Some s);
                    segment_loop siz compare (seg2p + 1) end' s } }
      else Some s)"

partial_function (option) stack_loop ::
  "nat \<Rightarrow> ('a \<Rightarrow> 'a \<Rightarrow> int) \<Rightarrow> 'a qs_state \<Rightarrow> 'a qs_state option" where
  "stack_loop siz compare s =
     (if loop s \<ge> 0 then
        do { b \<leftarrow> aget (begin_stack s) (loop s);
             e \<leftarrow> aget (end_stack s) (loop s);
             s \<leftarrow> segment_loop siz compare b e s;
             stack_loop siz compare (s\<lparr>loop := loop s - 1\<rparr>) }
      else Some s)"

text \<open>
  The stacks are local arrays and start uninitialised: their contents \<open>junk\<close> are
  arbitrary but for the entries the code has written.
\<close>

definition zend_qsort_r ::
  "int list \<times> int list \<Rightarrow> nat \<Rightarrow> ('a \<Rightarrow> 'a \<Rightarrow> int) \<Rightarrow> 'a list \<Rightarrow> 'a list option" where
  "zend_qsort_r junk siz compare xs =
     do { bs \<leftarrow> aset (fst junk) 0 0;
          es \<leftarrow> aset (snd junk) 0 (int (length xs) - 1);
          s \<leftarrow> stack_loop siz compare \<lparr>qs_array = xs, begin_stack = bs, end_stack = es, loop = 0\<rparr>;
          Some (qs_array s) }"

definition zend_qsort ::
  "int list \<times> int list \<Rightarrow> nat \<Rightarrow> ('a \<Rightarrow> 'a \<Rightarrow> int) \<Rightarrow> 'a list \<Rightarrow> 'a list option" where
  "zend_qsort junk siz compare xs = zend_qsort_r junk siz compare xs"

section \<open>Arrays and swaps\<close>

lemma aget_Some [simp]: "0 \<le> i \<Longrightarrow> i < int (length xs) \<Longrightarrow> aget xs i = Some (xs ! nat i)"
  by (simp add: aget_def)

lemma aset_Some [simp]: "0 \<le> i \<Longrightarrow> i < int (length xs) \<Longrightarrow> aset xs i v = Some (xs[nat i := v])"
  by (simp add: aset_def)

definition swapped :: "'a list \<Rightarrow> int \<Rightarrow> int \<Rightarrow> 'a list" where
  "swapped xs a b = xs[nat a := xs ! nat b, nat b := xs ! nat a]"

lemma zend_qsort_swap_eq:
  assumes "0 \<le> a" "a < int (length xs)" "0 \<le> b" "b < int (length xs)"
  shows "zend_qsort_swap xs a b = Some (swapped xs a b)"
  using assms by (simp add: zend_qsort_swap_def swapped_def)

lemma length_swapped [simp]: "length (swapped xs a b) = length xs"
  by (simp add: swapped_def)

lemma mset_swapped:
  assumes "0 \<le> a" "a < int (length xs)" "0 \<le> b" "b < int (length xs)"
  shows "mset (swapped xs a b) = mset xs"
  unfolding swapped_def by (rule mset_swap) (use assms in auto)

lemma nth_swapped:
  assumes "0 \<le> a" "a < int (length xs)" "0 \<le> b" "b < int (length xs)" "0 \<le> i" "i < int (length xs)"
  shows "swapped xs a b ! nat i =
    (if i = b then xs ! nat a else if i = a then xs ! nat b else xs ! nat i)"
  using assms by (auto simp: swapped_def nth_list_update eq_nat_nat_iff)


section \<open>Permutations inside a segment\<close>

definition seg_perm :: "int \<Rightarrow> int \<Rightarrow> 'a list \<Rightarrow> 'a list \<Rightarrow> bool" where
  "seg_perm b e xs ys \<longleftrightarrow> mset ys = mset xs \<and>
     (\<forall>i. 0 \<le> i \<and> i < int (length xs) \<and> \<not> (b \<le> i \<and> i \<le> e) \<longrightarrow> ys ! nat i = xs ! nat i) \<and>
     (\<forall>j. b \<le> j \<and> j \<le> e \<longrightarrow> (\<exists>j'. b \<le> j' \<and> j' \<le> e \<and> ys ! nat j = xs ! nat j'))"

lemma seg_perm_refl [simp]: "seg_perm b e xs xs"
  by (auto simp: seg_perm_def)

lemma seg_perm_length: "seg_perm b e xs ys \<Longrightarrow> length ys = length xs"
  by (metis seg_perm_def size_mset)

lemma seg_perm_trans [trans]:
  assumes p: "seg_perm b e xs ys" and q: "seg_perm b e ys zs" shows "seg_perm b e xs zs"
proof -
  have [simp]: "length ys = length xs" using p by (rule seg_perm_length)
  have "\<exists>j''. b \<le> j'' \<and> j'' \<le> e \<and> zs ! nat j = xs ! nat j''" if "b \<le> j" "j \<le> e" for j
  proof -
    from q that obtain j' where j': "b \<le> j'" "j' \<le> e" "zs ! nat j = ys ! nat j'"
      by (meson seg_perm_def)
    from p j'(1,2) obtain j'' where "b \<le> j''" "j'' \<le> e" "ys ! nat j' = xs ! nat j''"
      by (meson seg_perm_def)
    with j'(3) show ?thesis by auto
  qed
  then show ?thesis using p q unfolding seg_perm_def by simp
qed

lemma seg_perm_swapped:
  assumes "0 \<le> b" "e < int (length xs)" "b \<le> i" "i \<le> e" "b \<le> j" "j \<le> e"
  shows "seg_perm b e xs (swapped xs i j)"
  unfolding seg_perm_def
proof (intro conjI allI impI)
  show "mset (swapped xs i j) = mset xs"
    using assms by (intro mset_swapped) auto
next
  fix k assume "0 \<le> k \<and> k < int (length xs) \<and> \<not> (b \<le> k \<and> k \<le> e)"
  with assms show "swapped xs i j ! nat k = xs ! nat k"
    by (subst nth_swapped) auto
next
  fix k assume "b \<le> k \<and> k \<le> e"
  with assms show "\<exists>k'. b \<le> k' \<and> k' \<le> e \<and> swapped xs i j ! nat k = xs ! nat k'"
    by (intro exI [of _ "if k = j then i else if k = i then j else k"]) (auto simp: nth_swapped)
qed

section \<open>The comparison function and the order it answers\<close>

text \<open>
  What the sort relies on: a transitive relation that every answer of the comparison
  function respects. The full relation is one, for every comparison function; where the
  answers are those of a total preorder, the preorder itself is one.
\<close>

locale qsort_order =
  fixes compare :: "'a \<Rightarrow> 'a \<Rightarrow> int" and le :: "'a \<Rightarrow> 'a \<Rightarrow> bool"
  assumes not_greater: "compare x y \<le> 0 \<Longrightarrow> le x y"
    and greater: "compare x y > 0 \<Longrightarrow> le y x"
    and le_trans: "le x y \<Longrightarrow> le y z \<Longrightarrow> le x z"
begin

lemma seg1_loop_spec:
  assumes "0 \<le> b" "b < int (length xs)" "0 \<le> s1" "s2 \<le> int (length xs)" "s1 \<le> s2 + 1"
  shows "\<exists>r. seg1_loop compare xs b s1 s2 = Some r \<and> s1 \<le> r \<and> r \<le> max s1 s2 \<and>
     (\<forall>i. s1 \<le> i \<and> i < r \<longrightarrow> le (xs ! nat i) (xs ! nat b)) \<and>
     (r < s2 \<longrightarrow> le (xs ! nat b) (xs ! nat r))"
  using assms
proof (induction "nat (s2 - s1 + 1)" arbitrary: s1 rule: less_induct)
  case less
  show ?case
  proof (cases "s1 < s2 \<and> compare (xs ! nat b) (xs ! nat s1) > 0")
    case True
    then obtain r where r: "seg1_loop compare xs b (s1 + 1) s2 = Some r" "s1 + 1 \<le> r"
        "r \<le> max (s1 + 1) s2" "\<forall>i. s1 + 1 \<le> i \<and> i < r \<longrightarrow> le (xs ! nat i) (xs ! nat b)"
        "r < s2 \<longrightarrow> le (xs ! nat b) (xs ! nat r)"
      using less.hyps [of "s1 + 1"] less.prems by auto
    have "le (xs ! nat i) (xs ! nat b)" if "s1 \<le> i" "i < r" for i
      using that r(4) True greater by (cases "i = s1") auto
    with r True less.prems show ?thesis
      by (intro exI [of _ r]) (auto simp: seg1_loop.simps [of compare xs b s1 s2])
  next
    case False
    with less.prems show ?thesis
      by (intro exI [of _ s1]) (auto simp: seg1_loop.simps [of compare xs b s1 s2] not_greater)
  qed
qed

lemma seg2_loop_spec:
  assumes "0 \<le> b" "b < int (length xs)" "0 \<le> s1" "s2 < int (length xs)" "s1 \<le> s2 + 1"
  shows "\<exists>r. seg2_loop compare xs b s1 s2 = Some r \<and> s1 - 1 \<le> r \<and> r \<le> s2 \<and>
     (\<forall>i. r < i \<and> i \<le> s2 \<longrightarrow> le (xs ! nat b) (xs ! nat i)) \<and>
     (s1 \<le> r \<longrightarrow> le (xs ! nat r) (xs ! nat b))"
  using assms
proof (induction "nat (s2 - s1 + 1)" arbitrary: s2 rule: less_induct)
  case less
  show ?case
  proof (cases "s1 \<le> s2 \<and> compare (xs ! nat s2) (xs ! nat b) > 0")
    case True
    then obtain r where r: "seg2_loop compare xs b s1 (s2 - 1) = Some r" "s1 - 1 \<le> r"
        "r \<le> s2 - 1" "\<forall>i. r < i \<and> i \<le> s2 - 1 \<longrightarrow> le (xs ! nat b) (xs ! nat i)"
        "s1 \<le> r \<longrightarrow> le (xs ! nat r) (xs ! nat b)"
      using less.hyps [of "s2 - 1"] less.prems by auto
    have "le (xs ! nat b) (xs ! nat i)" if "r < i" "i \<le> s2" for i
      using that r(4) True greater by (cases "i = s2") auto
    with r True less.prems show ?thesis
      by (intro exI [of _ r]) (auto simp: seg2_loop.simps [of compare xs b s1 s2])
  next
    case False
    with less.prems show ?thesis
      by (intro exI [of _ s2]) (auto simp: seg2_loop.simps [of compare xs b s1 s2] not_greater)
  qed
qed

text \<open>What partitioning the segment from \<open>b\<close> to \<open>e\<close> around the value at \<open>b\<close> achieves.\<close>

definition parted :: "int \<Rightarrow> int \<Rightarrow> 'a list \<Rightarrow> 'a list \<Rightarrow> int \<Rightarrow> bool" where
  "parted b e xs ys m \<longleftrightarrow> seg_perm b e xs ys \<and> b \<le> m \<and> m \<le> e \<and> ys ! nat b = xs ! nat b \<and>
     (\<forall>i. b < i \<and> i \<le> m \<longrightarrow> le (ys ! nat i) (ys ! nat b)) \<and>
     (\<forall>i. m < i \<and> i \<le> e \<longrightarrow> le (ys ! nat b) (ys ! nat i))"

lemma partition_loop_spec:
  assumes "0 \<le> b" "b < s1" "s1 \<le> s2 + 1" "s2 \<le> e" "e < int (length xs)"
    and "\<forall>i. b < i \<and> i < s1 \<longrightarrow> le (xs ! nat i) (xs ! nat b)"
    and "\<forall>i. s2 < i \<and> i \<le> e \<longrightarrow> le (xs ! nat b) (xs ! nat i)"
  shows "\<exists>ys m. partition_loop compare b xs s1 s2 = Some (ys, m) \<and> parted b e xs ys m"
  using assms
proof (induction "nat (s2 - s1 + 1)" arbitrary: xs s1 s2 rule: less_induct)
  case less
  let ?v = "xs ! nat b"
  obtain t1 where t1: "seg1_loop compare xs b s1 s2 = Some t1" "s1 \<le> t1" "t1 \<le> max s1 s2"
      "\<forall>i. s1 \<le> i \<and> i < t1 \<longrightarrow> le (xs ! nat i) ?v" "t1 < s2 \<longrightarrow> le ?v (xs ! nat t1)"
    using seg1_loop_spec [of b xs s1 s2] less.prems by auto
  have t1': "t1 \<le> s2 + 1" using t1(3) less.prems by (simp add: max_def split: if_splits)
  obtain t2 where t2: "seg2_loop compare xs b t1 s2 = Some t2" "t1 - 1 \<le> t2" "t2 \<le> s2"
      "\<forall>i. t2 < i \<and> i \<le> s2 \<longrightarrow> le ?v (xs ! nat i)" "t1 \<le> t2 \<longrightarrow> le (xs ! nat t2) ?v"
    using seg2_loop_spec [of b xs t1 s2] less.prems(1-5) t1(2) t1' by auto
  have low: "le (xs ! nat i) ?v" if "b < i" "i < t1" for i
    using that less.prems t1 by (cases "i < s1") auto
  have high: "le ?v (xs ! nat i)" if "t2 < i" "i \<le> e" for i
    using that less.prems t2 by (cases "i \<le> s2") auto
  show ?case
  proof (cases "t1 \<ge> t2")
    case True
    have "le (xs ! nat i) ?v" if "b < i" "i \<le> t2" for i
    proof (cases "i < t1")
      case False
      then have "i = t2" "t1 \<le> t2" using that True by auto
      then show ?thesis using t2(5) by simp
    qed (use that low in blast)
    then have "parted b e xs xs t2"
      using high t1 t2 less.prems unfolding parted_def by simp
    then show ?thesis
      using True t1(1) t2(1) by (auto simp: partition_loop.simps [of compare b xs s1 s2])
  next
    case False
    let ?zs = "swapped xs t1 t2"
    have b: "0 \<le> t1" "t1 < int (length xs)" "0 \<le> t2" "t2 < int (length xs)" "t1 < t2" "b < t1" "t2 \<le> e"
      using t1 t2 False less.prems by auto
    have nth: "?zs ! nat i = (if i = t2 then xs ! nat t1 else if i = t1 then xs ! nat t2 else xs ! nat i)"
      if "b \<le> i" "i \<le> e" for i
      using that b less.prems by (intro nth_swapped) auto
    have v: "?zs ! nat b = ?v"
      using nth [of b] b by auto
    have "\<exists>ys m. partition_loop compare b ?zs (t1 + 1) (t2 - 1) = Some (ys, m) \<and> parted b e ?zs ys m"
    proof (rule less.hyps)
      show "nat (t2 - 1 - (t1 + 1) + 1) < nat (s2 - s1 + 1)" using t1 t2 b by auto
      show "0 \<le> b" "b < t1 + 1" "t1 + 1 \<le> t2 - 1 + 1" "t2 - 1 \<le> e" "e < int (length ?zs)"
        using less.prems b by auto
      show "\<forall>i. b < i \<and> i < t1 + 1 \<longrightarrow> le (?zs ! nat i) (?zs ! nat b)"
        using nth low t2 b v by auto
      show "\<forall>i. t2 - 1 < i \<and> i \<le> e \<longrightarrow> le (?zs ! nat b) (?zs ! nat i)"
        using nth high t1 t2 b v by auto
    qed
    then obtain ys m where r: "partition_loop compare b ?zs (t1 + 1) (t2 - 1) = Some (ys, m)"
        "parted b e ?zs ys m" by blast
    have "seg_perm b e xs ?zs"
      using b less.prems by (intro seg_perm_swapped) auto
    with r(2) v have "parted b e xs ys m"
      unfolding parted_def by (auto intro: seg_perm_trans)
    with r(1) False t1(1) t2(1) b show ?thesis
      by (auto simp: partition_loop.simps [of compare b xs s1 s2] zend_qsort_swap_eq)
  qed
qed

text \<open>The pivot in its final place.\<close>

definition split_at :: "int \<Rightarrow> int \<Rightarrow> 'a list \<Rightarrow> 'a list \<Rightarrow> int \<Rightarrow> bool" where
  "split_at b e xs ys m \<longleftrightarrow> seg_perm b e xs ys \<and> b \<le> m \<and> m \<le> e \<and>
     (\<forall>i. b \<le> i \<and> i < m \<longrightarrow> le (ys ! nat i) (ys ! nat m)) \<and>
     (\<forall>i. m < i \<and> i \<le> e \<longrightarrow> le (ys ! nat m) (ys ! nat i))"

lemma mid_bounds:
  fixes b e :: int assumes "b < e" "0 < siz"
  defines "off \<equiv> ((e - b) * int siz div 2) mod 2 ^ 32"
  shows "b \<le> b + (off - off mod int siz) div int siz" "b + (off - off mod int siz) div int siz \<le> e"
proof -
  have off0: "0 \<le> off" by (simp add: off_def)
  have eq: "(off - off mod int siz) div int siz = off div int siz"
    by (metis minus_mod_eq_mult_div nonzero_mult_div_cancel_left assms(2) of_nat_0_less_iff less_numeral_extra(3))
  have "off \<le> (e - b) * int siz div 2"
    unfolding off_def by (rule zmod_le_nonneg_dividend) (use assms in auto)
  also have "\<dots> \<le> (e - b) * int siz"
    using mult_nonneg_nonneg [of "e - b" "int siz"] assms by linarith
  finally have "off div int siz \<le> (e - b) * int siz div int siz"
    using assms by (intro zdiv_mono1) auto
  then have "off div int siz \<le> e - b" using assms by simp
  moreover have "0 \<le> off div int siz" using off0 assms by (simp add: pos_imp_zdiv_nonneg_iff)
  ultimately show "b \<le> b + (off - off mod int siz) div int siz" "b + (off - off mod int siz) div int siz \<le> e"
    using eq by auto
qed

lemma partition_step_spec:
  assumes "0 \<le> b" "b < e" "e < int (length xs)" "0 < siz"
  shows "\<exists>ys m. partition_step siz compare xs b e = Some (ys, m) \<and> split_at b e xs ys m"
proof -
  define off where "off = ((e - b) * int siz div 2) mod 2 ^ 32"
  define mid where "mid = b + (off - off mod int siz) div int siz"
  have mid: "b \<le> mid" "mid \<le> e"
    using mid_bounds [OF assms(2,4)] by (simp_all add: mid_def off_def)
  let ?x1 = "swapped xs b mid"
  have p1: "seg_perm b e xs ?x1" using assms mid by (intro seg_perm_swapped) auto
  have "\<exists>ys m. partition_loop compare b ?x1 (b + 1) e = Some (ys, m) \<and> parted b e ?x1 ys m"
    by (rule partition_loop_spec) (use assms in auto)
  then obtain x2 m where x2: "partition_loop compare b ?x1 (b + 1) e = Some (x2, m)" "parted b e ?x1 x2 m"
    by blast
  have m: "b \<le> m" "m \<le> e" and p2: "seg_perm b e ?x1 x2"
    and low: "\<And>i. b < i \<Longrightarrow> i \<le> m \<Longrightarrow> le (x2 ! nat i) (x2 ! nat b)"
    and high: "\<And>i. m < i \<Longrightarrow> i \<le> e \<Longrightarrow> le (x2 ! nat b) (x2 ! nat i)"
    using x2(2) unfolding parted_def by auto
  have len: "length x2 = length xs" using p2 by (simp add: seg_perm_length)
  let ?x3 = "swapped x2 b m"
  have p3: "seg_perm b e x2 ?x3" using assms m len by (intro seg_perm_swapped) auto
  have nth: "?x3 ! nat i = (if i = m then x2 ! nat b else if i = b then x2 ! nat m else x2 ! nat i)"
    if "b \<le> i" "i \<le> e" for i
    using that assms m len by (intro nth_swapped) auto
  have "le (?x3 ! nat i) (?x3 ! nat m)" if "b \<le> i" "i < m" for i
    using that low [of i] low [of m] nth [of i] nth [of m] m by (auto split: if_splits)
  moreover have "le (?x3 ! nat m) (?x3 ! nat i)" if "m < i" "i \<le> e" for i
    using that high [of i] nth [of i] nth [of m] m by auto
  moreover have "seg_perm b e xs ?x3" using p1 p2 p3 by (blast intro: seg_perm_trans)
  ultimately have "split_at b e xs ?x3 m" using m unfolding split_at_def by blast
  moreover have "partition_step siz compare xs b e = Some (?x3, m)"
    unfolding partition_step_def Let_def off_def [symmetric] mid_def [symmetric]
    using assms mid m len x2(1) by (simp add: zend_qsort_swap_eq)
  ultimately show ?thesis by blast
qed

section \<open>Segments still to be sorted\<close>

definition ordered_but :: "'a list \<Rightarrow> (int \<times> int) list \<Rightarrow> bool" where
  "ordered_but xs segs \<longleftrightarrow> (\<forall>i j. 0 \<le> i \<and> i < j \<and> j < int (length xs) \<longrightarrow>
     (\<exists>(b, e) \<in> set segs. b \<le> i \<and> j \<le> e) \<or> le (xs ! nat i) (xs ! nat j))"

lemma ordered_but_drop: "ordered_but xs ((b, e) # segs) \<Longrightarrow> e \<le> b \<Longrightarrow> ordered_but xs segs"
  unfolding ordered_but_def by (metis (mono_tags, lifting) case_prod_conv dual_order.strict_trans1
      leD order.trans set_ConsD)

lemma ordered_but_mono: "ordered_but xs segs \<Longrightarrow> set segs \<subseteq> set segs' \<Longrightarrow> ordered_but xs segs'"
  unfolding ordered_but_def by blast

lemma ordered_but_Nil: "ordered_but xs [] \<Longrightarrow> sorted_wrt le xs"
  unfolding ordered_but_def sorted_wrt_iff_nth_less by (metis empty_iff empty_set nat_int
      of_nat_0_le_iff of_nat_less_iff)

lemma ordered_but_split:
  assumes ord: "ordered_but xs ((b, e) # segs)" and split: "split_at b e xs ys m"
    and dis: "\<forall>(b', e') \<in> set segs. e < b' \<or> e' < b" and rng: "0 \<le> b" "e < int (length xs)"
  shows "ordered_but ys ((b, m - 1) # (m + 1, e) # segs)"
  unfolding ordered_but_def
proof (intro allI impI)
  fix i j assume ij: "0 \<le> i \<and> i < j \<and> j < int (length ys)"
  have perm: "seg_perm b e xs ys" and m: "b \<le> m" "m \<le> e"
    and low: "\<And>k. b \<le> k \<Longrightarrow> k < m \<Longrightarrow> le (ys ! nat k) (ys ! nat m)"
    and high: "\<And>k. m < k \<Longrightarrow> k \<le> e \<Longrightarrow> le (ys ! nat m) (ys ! nat k)"
    using split unfolding split_at_def by auto
  have len: "length ys = length xs" using perm by (rule seg_perm_length)
  obtain i' where i': "ys ! nat i = xs ! nat i'" "b \<le> i \<and> i \<le> e \<and> b \<le> i' \<and> i' \<le> e \<or> \<not> (b \<le> i \<and> i \<le> e) \<and> i' = i"
    using perm ij len unfolding seg_perm_def by (metis order.strict_trans)
  obtain j' where j': "ys ! nat j = xs ! nat j'" "b \<le> j \<and> j \<le> e \<and> b \<le> j' \<and> j' \<le> e \<or> \<not> (b \<le> j \<and> j \<le> e) \<and> j' = j"
    using perm ij len unfolding seg_perm_def by (metis order.strict_trans1 order_less_imp_le)
  show "(\<exists>(b', e')\<in>set ((b, m - 1) # (m + 1, e) # segs). b' \<le> i \<and> j \<le> e') \<or> le (ys ! nat i) (ys ! nat j)"
  proof (cases "b \<le> i \<and> j \<le> e")
    case True
    consider "j < m" | "m < i" | "i < m" "m < j" | "i = m" | "j = m" by linarith
    then show ?thesis
    proof cases
      case 3
      then show ?thesis using le_trans low high True by blast
    qed (use True ij low high in \<open>auto simp: m\<close>)
  next
    case False
    have i'j': "i' < j'" "0 \<le> i'" "j' < int (length xs)" "\<not> (b \<le> i' \<and> j' \<le> e)"
      using i' j' False ij rng len by auto
    then consider b' e' where "(b', e') \<in> set segs" "b' \<le> i'" "j' \<le> e'" | "le (xs ! nat i') (xs ! nat j')"
      using ord unfolding ordered_but_def by fastforce
    then show ?thesis
    proof cases
      case 1
      with dis have "e < b' \<or> e' < b" by auto
      with 1 i' j' i'j' have "i' = i" "j' = j" by auto
      with 1 show ?thesis by auto
    qed (use i' j' in simp)
  qed
qed

section \<open>The explicit stack\<close>

definition pending :: "'a qs_state \<Rightarrow> (int \<times> int) list" where
  "pending s = map (\<lambda>k. (begin_stack s ! k, end_stack s ! k)) [0..<nat (loop s)]"

definition seg_weight :: "int \<times> int \<Rightarrow> nat" where
  "seg_weight = (\<lambda>(b, e). nat (2 * (e - b + 1) + 1))"

definition total_weight :: "(int \<times> int) list \<Rightarrow> nat" where
  "total_weight segs = sum_list (map seg_weight segs)"

text \<open>
  The segment at stack position \<open>k\<close> holds at most \<open>n / 2 ^ k\<close> elements: the smaller part is
  always sorted first. Hence the stacks never overflow.
\<close>

definition seg_ok :: "nat \<Rightarrow> nat \<Rightarrow> int \<times> int \<Rightarrow> bool" where
  "seg_ok n k = (\<lambda>(b, e). 0 \<le> b \<and> e < int n \<and> b \<le> e + 1 \<and> (e - b + 1) * 2 ^ k \<le> int n)"

definition stack_inv :: "nat \<Rightarrow> 'a qs_state \<Rightarrow> bool" where
  "stack_inv n s \<longleftrightarrow> length (qs_array s) = n \<and>
     length (begin_stack s) = nat QSORT_STACK_SIZE \<and> length (end_stack s) = nat QSORT_STACK_SIZE \<and>
     0 \<le> loop s \<and> loop s < QSORT_STACK_SIZE \<and> (\<forall>k < nat (loop s). seg_ok n k (pending s ! k))"

definition apart :: "(int \<times> int) list \<Rightarrow> bool" where
  "apart = sorted_wrt (\<lambda>(b, e) (b', e'). e < b' \<or> e' < b)"

definition qs_inv :: "nat \<Rightarrow> int \<times> int \<Rightarrow> 'a qs_state \<Rightarrow> bool" where
  "qs_inv n cur s \<longleftrightarrow> stack_inv n s \<and> seg_ok n (nat (loop s)) cur \<and>
     apart (cur # pending s) \<and> ordered_but (qs_array s) (cur # pending s)"

definition qs_done :: "nat \<Rightarrow> 'a qs_state \<Rightarrow> bool" where
  "qs_done n s \<longleftrightarrow> stack_inv n s \<and> apart (pending s) \<and> ordered_but (qs_array s) (pending s)"

lemma pending_simps [simp]:
  "length (pending s) = nat (loop s)"
  "pending (s\<lparr>qs_array := xs\<rparr>) = pending s"
  "total_weight (x # segs) = seg_weight x + total_weight segs"
  by (simp_all add: pending_def total_weight_def)

lemma qs_push_eq:
  assumes "0 \<le> loop s" "loop s < QSORT_STACK_SIZE"
    "length (begin_stack s) = nat QSORT_STACK_SIZE" "length (end_stack s) = nat QSORT_STACK_SIZE"
  obtains s' where "qs_push b e s = Some s'" "pending s' = pending s @ [(b, e)]"
    "qs_array s' = qs_array s" "loop s' = loop s + 1"
    "length (begin_stack s') = nat QSORT_STACK_SIZE" "length (end_stack s') = nat QSORT_STACK_SIZE"
proof -
  let ?k = "nat (loop s)"
  let ?s' = "s\<lparr>begin_stack := (begin_stack s)[?k := b], end_stack := (end_stack s)[?k := e], loop := loop s + 1\<rparr>"
  have "nat (loop s + 1) = Suc ?k" using assms by auto
  then have "pending ?s' = pending s @ [(b, e)]"
    using assms by (auto simp: pending_def QSORT_STACK_SIZE_def)
  moreover have "qs_push b e s = Some ?s'"
    using assms by (simp add: qs_push_def)
  ultimately show ?thesis using that [of ?s'] assms by simp
qed

lemma apart_snoc: "apart (x # segs @ [c]) \<longleftrightarrow> apart (x # c # segs)"
  by (cases c; cases x) (auto simp: apart_def sorted_wrt_append)

lemma pow_room: "x * 2 ^ k \<le> int n \<Longrightarrow> 3 \<le> x \<Longrightarrow> n < 2 ^ 64 \<Longrightarrow> k < (63::nat)"
proof (rule ccontr)
  assume a: "x * 2 ^ k \<le> int n" "3 \<le> x" "n < 2 ^ 64" "\<not> k < 63"
  then have "(2::int) ^ 63 \<le> 2 ^ k" by (intro power_increasing) auto
  with a(2) have "3 * (2::int) ^ 63 \<le> x * 2 ^ k" by (intro mult_mono) auto
  also have "int n < 2 ^ 64" using a(3) by simp
  then have "x * 2 ^ k < 2 ^ 64" using a(1) by linarith
  finally show False by simp
qed

lemma qs_step:
  assumes inv: "qs_inv n (b, e) s" and n: "n < 2 ^ 64"
    and sizes: "le' - lb' \<le> re - rb" "(le' - lb' + 1) + (re - rb + 1) = e - b"
    and rng: "b \<le> lb'" "le' \<le> e" "b \<le> rb" "re \<le> e" "lb' \<le> le' + 1" "rb \<le> re + 1"
    and apart: "apart ((lb', le') # (rb, re) # pending s)"
    and ord: "ordered_but ys ((lb', le') # (rb, re) # pending s)" and len: "length ys = n"
  obtains s' where
    "(if rb < re then qs_push rb re (s\<lparr>qs_array := ys\<rparr>) else Some (s\<lparr>qs_array := ys\<rparr>)) = Some s'"
    "qs_inv n (lb', le') s'" "qs_array s' = ys"
    "total_weight ((lb', le') # pending s') < total_weight ((b, e) # pending s)"
proof -
  let ?s = "s\<lparr>qs_array := ys\<rparr>" and ?k = "nat (loop s)"
  have st: "stack_inv n s" and ok: "seg_ok n ?k (b, e)" using inv by (auto simp: qs_inv_def)
  have b: "0 \<le> b" "e < int n" "(e - b + 1) * 2 ^ ?k \<le> int n" using ok by (auto simp: seg_ok_def)
  have small: "seg_ok n (j + ?k) (lb', le')" if "(le' - lb' + 1) * 2 ^ j \<le> e - b + 1" for j
  proof -
    have "(le' - lb' + 1) * 2 ^ j * 2 ^ ?k \<le> (e - b + 1) * 2 ^ ?k"
      using that by (intro mult_right_mono) auto
    then have "(le' - lb' + 1) * 2 ^ (j + ?k) \<le> int n"
      using b(3) unfolding power_add mult.assoc by (rule order_trans)
    then show ?thesis using b rng by (auto simp: seg_ok_def)
  qed
  have w: "seg_weight (lb', le') + seg_weight (rb, re) < seg_weight (b, e)"
    using sizes rng by (auto simp: seg_weight_def nat_add_distrib [symmetric])
  show ?thesis
  proof (cases "rb < re")
    case True
    have "3 \<le> e - b + 1" using True sizes rng by linarith
    then have k: "?k < 63" using pow_room [OF b(3) _ n] by blast
    have "0 \<le> loop ?s" "loop ?s < QSORT_STACK_SIZE"
      "length (begin_stack ?s) = nat QSORT_STACK_SIZE" "length (end_stack ?s) = nat QSORT_STACK_SIZE"
      using st by (auto simp: stack_inv_def)
    then obtain s' where s': "qs_push rb re ?s = Some s'" "pending s' = pending ?s @ [(rb, re)]"
        "qs_array s' = qs_array ?s" "loop s' = loop ?s + 1"
        "length (begin_stack s') = nat QSORT_STACK_SIZE" "length (end_stack s') = nat QSORT_STACK_SIZE"
      by (rule qs_push_eq)
    have lk: "nat (loop s') = Suc ?k" using s'(4) st by (auto simp: stack_inv_def)
    have "(re - rb + 1) * 2 ^ ?k \<le> (e - b + 1) * 2 ^ ?k"
      using rng by (intro mult_right_mono) auto
    then have "(re - rb + 1) * 2 ^ ?k \<le> int n" using b(3) by (rule order_trans)
    then have "seg_ok n ?k (rb, re)" using b rng by (auto simp: seg_ok_def)
    then have "\<forall>k < Suc ?k. seg_ok n k (pending s' ! k)"
      using st s'(2) by (auto simp: stack_inv_def nth_append less_Suc_eq)
    then have "stack_inv n s'"
      using st s' lk len k by (auto simp: stack_inv_def QSORT_STACK_SIZE_def)
    moreover have "seg_ok n (Suc ?k) (lb', le')"
      using small [of 1] sizes by simp
    moreover have "apart ((lb', le') # pending s')" using apart s'(2) by (simp add: apart_snoc)
    moreover have "ordered_but ys ((lb', le') # pending s')"
      by (rule ordered_but_mono [OF ord]) (auto simp: s'(2))
    ultimately have "qs_inv n (lb', le') s'" using s' lk by (simp add: qs_inv_def)
    moreover have "total_weight (pending s') = seg_weight (rb, re) + total_weight (pending s)"
      using s'(2) by (simp add: total_weight_def)
    ultimately show ?thesis using that [of s'] s' True w by simp
  next
    case False
    have "stack_inv n ?s" using st len by (simp add: stack_inv_def)
    moreover have "seg_ok n ?k (lb', le')"
      using small [of 0] sizes rng by simp
    moreover have "apart ((lb', le') # pending s)" using apart by (simp add: apart_def)
    moreover have "ordered_but ys ((lb', le') # pending s)"
    proof -
      have "ordered_but ys ((rb, re) # (lb', le') # pending s)"
        by (rule ordered_but_mono [OF ord]) auto
      then show ?thesis by (rule ordered_but_drop) (use False in simp)
    qed
    ultimately have "qs_inv n (lb', le') ?s" by (simp add: qs_inv_def)
    moreover have "seg_weight (lb', le') < seg_weight (b, e)" using w by simp
    ultimately show ?thesis using that [of ?s] False by simp
  qed
qed

lemma segment_loop_spec:
  assumes "qs_inv n (b, e) s" "n < 2 ^ 64" "0 < siz"
  shows "\<exists>s'. segment_loop siz compare b e s = Some s' \<and> mset (qs_array s') = mset (qs_array s) \<and>
     qs_done n s' \<and> total_weight (pending s') < total_weight ((b, e) # pending s)"
  using assms(1)
proof (induction "total_weight ((b, e) # pending s)" arbitrary: b e s rule: less_induct)
  case less
  show ?case
  proof (cases "b < e")
    case False
    have "b \<le> e + 1" using less.prems by (auto simp: qs_inv_def seg_ok_def)
    then have "0 < seg_weight (b, e)" by (simp add: seg_weight_def)
    moreover have "qs_done n s"
      using less.prems False ordered_but_drop [of "qs_array s" b e "pending s"]
      by (auto simp: qs_inv_def qs_done_def apart_def)
    ultimately show ?thesis using False by (simp add: segment_loop.simps [of siz compare b e s])
  next
    case True
    have rng: "0 \<le> b" "e < int n" and len: "length (qs_array s) = n"
      and ap: "apart ((b, e) # pending s)" and ord: "ordered_but (qs_array s) ((b, e) # pending s)"
      using less.prems by (auto simp: qs_inv_def seg_ok_def stack_inv_def)
    obtain ys m where part: "partition_step siz compare (qs_array s) b e = Some (ys, m)"
        and sp: "split_at b e (qs_array s) ys m"
      using partition_step_spec [of b e "qs_array s" siz] rng True len assms(3) by auto
    have m: "b \<le> m" "m \<le> e" and perm: "mset ys = mset (qs_array s)"
      using sp by (auto simp: split_at_def seg_perm_def)
    then have len': "length ys = n" using len by (metis size_mset)
    have dis: "\<forall>(b', e') \<in> set (pending s). e < b' \<or> e' < b" using ap by (auto simp: apart_def)
    have ord': "ordered_but ys ((b, m - 1) # (m + 1, e) # pending s)"
      using ordered_but_split [OF ord sp dis] rng len by simp
    then have ord'': "ordered_but ys ((m + 1, e) # (b, m - 1) # pending s)"
      by (rule ordered_but_mono) auto
    have ap': "apart ((b, m - 1) # (m + 1, e) # pending s)" "apart ((m + 1, e) # (b, m - 1) # pending s)"
      using ap m by (auto simp: apart_def)
    note IH = less.hyps
    let ?s = "s\<lparr>qs_array := ys\<rparr>"
    show ?thesis
    proof (cases "m - b \<le> e - m")
      case small_left: True
      obtain s' where s': "(if m + 1 < e then qs_push (m + 1) e ?s else Some ?s) = Some s'"
          "qs_inv n (b, m - 1) s'" "qs_array s' = ys"
          "total_weight ((b, m - 1) # pending s') < total_weight ((b, e) # pending s)"
        by (rule qs_step [OF less.prems assms(2), of "m - 1" b e "m + 1" ys])
          (use small_left m ord' ap' len' True in auto)
      from IH [OF s'(4,2)] s'(1,3,4) perm part True small_left show ?thesis
        by (auto simp: segment_loop.simps [of siz compare b e s] Let_def)
    next
      case small_right: False
      obtain s' where s': "(if b < m - 1 then qs_push b (m - 1) ?s else Some ?s) = Some s'"
          "qs_inv n (m + 1, e) s'" "qs_array s' = ys"
          "total_weight ((m + 1, e) # pending s') < total_weight ((b, e) # pending s)"
        by (rule qs_step [OF less.prems assms(2), of e "m + 1" "m - 1" b ys])
          (use small_right m ord'' ap' len' True in auto)
      from IH [OF s'(4,2)] s'(1,3,4) perm part True small_right show ?thesis
        by (auto simp: segment_loop.simps [of siz compare b e s] Let_def)
    qed
  qed
qed

lemma qs_done_pop:
  assumes "qs_done n s" "0 < loop s"
  obtains b e where "aget (begin_stack s) (loop s - 1) = Some b" "aget (end_stack s) (loop s - 1) = Some e"
    "qs_inv n (b, e) (s\<lparr>loop := loop s - 1\<rparr>)"
    "total_weight ((b, e) # pending (s\<lparr>loop := loop s - 1\<rparr>)) = total_weight (pending s)"
proof -
  let ?s = "s\<lparr>loop := loop s - 1\<rparr>" and ?k = "nat (loop s - 1)"
  let ?b = "begin_stack s ! ?k" and ?e = "end_stack s ! ?k"
  have st: "stack_inv n s" and ap: "apart (pending s)" and ord: "ordered_but (qs_array s) (pending s)"
    using assms by (auto simp: qs_done_def)
  have k: "nat (loop s) = Suc ?k" using assms(2) by simp
  then have p: "pending s = pending ?s @ [(?b, ?e)]" by (simp add: pending_def)
  have all: "seg_ok n j (pending s ! j)" if "j < Suc ?k" for j
    using st k that by (simp add: stack_inv_def)
  have "seg_ok n ?k (?b, ?e)" using all [of ?k] p by (simp add: nth_append)
  moreover have "\<forall>j < ?k. seg_ok n j (pending ?s ! j)"
  proof (intro allI impI)
    fix j assume "j < ?k"
    then show "seg_ok n j (pending ?s ! j)" using all [of j] by (simp add: p nth_append)
  qed
  moreover have "apart ((?b, ?e) # pending ?s)"
    using ap p by (auto simp: apart_def sorted_wrt_append)
  moreover have "ordered_but (qs_array s) ((?b, ?e) # pending ?s)"
    by (rule ordered_but_mono [OF ord]) (auto simp: p)
  ultimately have "qs_inv n (?b, ?e) ?s"
    using st assms(2) by (auto simp: qs_inv_def stack_inv_def)
  moreover have "aget (begin_stack s) (loop s - 1) = Some ?b" "aget (end_stack s) (loop s - 1) = Some ?e"
    using st assms(2) by (auto simp: stack_inv_def QSORT_STACK_SIZE_def)
  ultimately show ?thesis using that p by (simp add: total_weight_def)
qed

lemma stack_loop_spec:
  assumes "n < 2 ^ 64" "0 < siz" "qs_done n s"
  shows "\<exists>s'. stack_loop siz compare (s\<lparr>loop := loop s - 1\<rparr>) = Some s' \<and>
     mset (qs_array s') = mset (qs_array s) \<and> sorted_wrt le (qs_array s')"
  using assms(3)
proof (induction "total_weight (pending s)" arbitrary: s rule: less_induct)
  case less
  let ?s = "s\<lparr>loop := loop s - 1\<rparr>"
  show ?case
  proof (cases "0 < loop s")
    case True
    obtain b e where be: "aget (begin_stack s) (loop s - 1) = Some b" "aget (end_stack s) (loop s - 1) = Some e"
      "qs_inv n (b, e) ?s" "total_weight ((b, e) # pending ?s) = total_weight (pending s)"
      by (rule qs_done_pop [OF less.prems True])
    obtain s' where s': "segment_loop siz compare b e ?s = Some s'" "mset (qs_array s') = mset (qs_array ?s)"
      "qs_done n s'" "total_weight (pending s') < total_weight ((b, e) # pending ?s)"
      using segment_loop_spec [OF be(3) assms(1,2)] by blast
    from less.hyps [of s'] s' be True show ?thesis
      by (auto simp: stack_loop.simps [of siz compare ?s])
  next
    case False
    then have "loop s = 0" using less.prems by (auto simp: qs_done_def stack_inv_def)
    then have "pending s = []" by (simp add: pending_def)
    with less.prems have "sorted_wrt le (qs_array s)"
      by (simp add: qs_done_def ordered_but_Nil)
    with \<open>loop s = 0\<close> show ?thesis by (subst stack_loop.simps) simp
  qed
qed

theorem zend_qsort_r_correct:
  assumes "length xs < 2 ^ 64" "0 < siz"
    and "length (fst junk) = nat QSORT_STACK_SIZE" "length (snd junk) = nat QSORT_STACK_SIZE"
  shows "\<exists>ys. zend_qsort_r junk siz compare xs = Some ys \<and> mset ys = mset xs \<and> sorted_wrt le ys"
proof -
  let ?n = "length xs"
  let ?s = "\<lparr>qs_array = xs, begin_stack = (fst junk)[0 := 0], end_stack = (snd junk)[0 := int ?n - 1], loop = 1\<rparr>"
  have p: "pending ?s = [(0, int ?n - 1)]"
    using assms by (simp add: pending_def QSORT_STACK_SIZE_def)
  have "qs_done ?n ?s"
    using assms p
    by (auto simp: qs_done_def stack_inv_def seg_ok_def apart_def ordered_but_def QSORT_STACK_SIZE_def)
  from stack_loop_spec [OF assms(1,2) this] show ?thesis
    using assms(3,4) by (auto simp: zend_qsort_r_def QSORT_STACK_SIZE_def)
qed

end

text \<open>Every comparison function is compatible with the full relation.\<close>

interpretation any_compare: qsort_order compare "\<lambda>_ _. True" for compare :: "'a \<Rightarrow> 'a \<Rightarrow> int"
  by unfold_locales auto

text \<open>A comparison function that answers like a total preorder.\<close>

definition total_preorder :: "('a \<Rightarrow> 'a \<Rightarrow> int) \<Rightarrow> bool" where
  "total_preorder compare \<longleftrightarrow>
     (\<forall>x y. compare x y > 0 \<longrightarrow> compare y x \<le> 0) \<and>
     (\<forall>x y z. compare x y \<le> 0 \<longrightarrow> compare y z \<le> 0 \<longrightarrow> compare x z \<le> 0)"

lemma total_preorder_qsort_order:
  "total_preorder compare \<Longrightarrow> qsort_order compare (\<lambda>x y. compare x y \<le> 0)"
  by unfold_locales (auto simp: total_preorder_def)

lemmas zend_qsort_total = any_compare.zend_qsort_r_correct
lemmas zend_qsort_ordered = qsort_order.zend_qsort_r_correct [OF total_preorder_qsort_order]

section \<open>Properties\<close>

text \<open>
  C24: for every comparison function, even an inconsistent one, and whatever the
  uninitialised stacks hold, sorting an array of fewer than \<open>2 ^ 64\<close> elements returns
  (every loop ends, no access is out of bounds, the 64-entry stacks do not overflow) and
  the result is a permutation of the input.
\<close>

theorem zend_qsort_permutes:
  assumes "length xs < 2 ^ 64" and "0 < siz"
    and "length (fst junk) = nat QSORT_STACK_SIZE" and "length (snd junk) = nat QSORT_STACK_SIZE"
  shows "\<exists>ys. zend_qsort junk siz compare xs = Some ys \<and> mset ys = mset xs"
  using zend_qsort_total [OF assms] by (auto simp: zend_qsort_def)

theorem zend_qsort_permutes_witness:
  "\<exists>ys. zend_qsort (replicate 64 7, replicate 64 9) 8 (\<lambda>x y. 1) [3, 1, 2 :: int] = Some ys \<and>
     mset ys = mset [3, 1, 2]"
  by (rule zend_qsort_permutes) (simp_all add: QSORT_STACK_SIZE_def)

text \<open>
  C23: if the comparison function answers like a total preorder, the array that
  \<^verbatim>\<open>zend_qsort\<close> leaves behind is a sorted permutation of its input.
\<close>

theorem zend_qsort_sorts:
  assumes "total_preorder compare" and "length xs < 2 ^ 64" and "0 < siz"
    and "length (fst junk) = nat QSORT_STACK_SIZE" and "length (snd junk) = nat QSORT_STACK_SIZE"
  shows "\<exists>ys. zend_qsort junk siz compare xs = Some ys \<and> mset ys = mset xs \<and>
     sorted_wrt (\<lambda>x y. compare x y \<le> 0) ys"
  using zend_qsort_ordered [OF assms] by (auto simp: zend_qsort_def)

theorem zend_qsort_sorts_witness:
  "\<exists>ys. zend_qsort (replicate 64 7, replicate 64 9) 8 (\<lambda>x y. x - y) [3, 1, 2 :: int] = Some ys \<and>
     mset ys = mset [3, 1, 2] \<and> sorted_wrt (\<lambda>x y. x - y \<le> 0) ys"
  by (rule zend_qsort_sorts) (simp_all add: QSORT_STACK_SIZE_def total_preorder_def)

end
