(* ===== verification/Zend_Llist.thy ===== *)
theory Zend_Llist
  imports Zend_Dll Zend_Qsort
begin

text \<open>
  The doubly linked lists of \<^verbatim>\<open>Zend/zend_llist.c\<close>.

  A list is the structure \<^verbatim>\<open>zend_llist\<close> together with the heap cells its elements occupy
  (\<open>l_cells\<close>) and, for the specification, the data its destructor has been called with
  (\<open>l_destroyed\<close>, in call order). The addresses the allocator returns are arguments of the
  operations that allocate. \<open>llist_holds l ds\<close> is the contract: the links are sound in
  both directions, the counter is right, no cell is leaked and the data are \<open>ds\<close>, front to
  back. Callbacks thread a state \<open>'s\<close> and may change the element's data in place.
\<close>

section \<open>Model\<close>

record 'd zend_llist_element =
  le_next :: "ptr option"
  le_prev :: "ptr option"
  le_data :: 'd

record 'd zend_llist =
  l_head :: "ptr option"
  l_tail :: "ptr option"
  l_count :: nat
  l_size :: nat
  l_dtor :: bool
  l_persistent :: bool
  traverse_ptr :: "ptr option"
  l_cells :: "ptr \<rightharpoonup> 'd zend_llist_element"
  l_destroyed :: "'d list"

text \<open>\<^verbatim>\<open>zend_llist_init\<close> does not touch \<^verbatim>\<open>traverse_ptr\<close>: the structure it initialises is an argument.\<close>

definition zend_llist_init :: "'d zend_llist \<Rightarrow> nat \<Rightarrow> bool \<Rightarrow> bool \<Rightarrow> 'd zend_llist" where
  "zend_llist_init l sz dtor persistent =
     l\<lparr>l_head := None, l_tail := None, l_count := 0, l_size := sz, l_dtor := dtor,
       l_persistent := persistent, l_cells := Map.empty, l_destroyed := []\<rparr>"

definition lpoke :: "ptr \<Rightarrow> ('d zend_llist_element \<Rightarrow> 'd zend_llist_element) \<Rightarrow>
    'd zend_llist \<Rightarrow> 'd zend_llist option" where
  "lpoke p f l = map_option (\<lambda>c. l\<lparr>l_cells := c\<rparr>) (poke p f (l_cells l))"

definition zend_llist_add_element :: "ptr \<Rightarrow> 'd zend_llist \<Rightarrow> 'd \<Rightarrow> 'd zend_llist option" where
  "zend_llist_add_element tmp l element =
     do { l \<leftarrow> Some (l\<lparr>l_cells := (l_cells l)
                (tmp \<mapsto> \<lparr>le_next = None, le_prev = l_tail l, le_data = element\<rparr>)\<rparr>);
          l \<leftarrow> (case l_tail l of
                Some t \<Rightarrow> lpoke t (le_next_update (\<lambda>_. Some tmp)) l
              | None \<Rightarrow> Some (l\<lparr>l_head := Some tmp\<rparr>));
          Some (l\<lparr>l_tail := Some tmp, l_count := l_count l + 1\<rparr>) }"

definition zend_llist_prepend_element :: "ptr \<Rightarrow> 'd zend_llist \<Rightarrow> 'd \<Rightarrow> 'd zend_llist option" where
  "zend_llist_prepend_element tmp l element =
     do { l \<leftarrow> Some (l\<lparr>l_cells := (l_cells l)
                (tmp \<mapsto> \<lparr>le_next = l_head l, le_prev = None, le_data = element\<rparr>)\<rparr>);
          l \<leftarrow> (case l_head l of
                Some t \<Rightarrow> lpoke t (le_prev_update (\<lambda>_. Some tmp)) l
              | None \<Rightarrow> Some (l\<lparr>l_tail := Some tmp\<rparr>));
          Some (l\<lparr>l_head := Some tmp, l_count := l_count l + 1\<rparr>) }"

definition llist_dtor :: "'d \<Rightarrow> 'd zend_llist \<Rightarrow> 'd zend_llist" where
  "llist_dtor d l = (if l_dtor l then l\<lparr>l_destroyed := l_destroyed l @ [d]\<rparr> else l)"

definition llist_free :: "ptr \<Rightarrow> 'd zend_llist \<Rightarrow> 'd zend_llist" where
  "llist_free p l = l\<lparr>l_cells := (l_cells l)(p := None)\<rparr>"

definition DEL_LLIST_ELEMENT :: "ptr \<Rightarrow> 'd zend_llist \<Rightarrow> 'd zend_llist option" where
  "DEL_LLIST_ELEMENT current l =
     do { c \<leftarrow> l_cells l current;
          l \<leftarrow> (case le_prev c of
                Some p \<Rightarrow> lpoke p (le_next_update (\<lambda>_. le_next c)) l
              | None \<Rightarrow> Some (l\<lparr>l_head := le_next c\<rparr>));
          l \<leftarrow> (case le_next c of
                Some n \<Rightarrow> lpoke n (le_prev_update (\<lambda>_. le_prev c)) l
              | None \<Rightarrow> Some (l\<lparr>l_tail := le_prev c\<rparr>));
          let l = llist_free current (llist_dtor (le_data c) l);
          Some (l\<lparr>l_count := l_count l - 1\<rparr>) }"

abbreviation llist_next :: "'d zend_llist \<Rightarrow> ptr \<Rightarrow> ptr option option" where
  "llist_next l p \<equiv> fld le_next (l_cells l) p"

definition zend_llist_del_element ::
  "'d zend_llist \<Rightarrow> 'e \<Rightarrow> ('d \<Rightarrow> 'e \<Rightarrow> bool) \<Rightarrow> 'd zend_llist option" where
  "zend_llist_del_element l element compare =
     walk llist_next
       (\<lambda>current l. do { c \<leftarrow> l_cells l current;
          if compare (le_data c) element
          then map_option (\<lambda>l. (l, True)) (DEL_LLIST_ELEMENT current l)
          else Some (l, False) })
       (l_head l) l"

definition zend_llist_destroy :: "'d zend_llist \<Rightarrow> 'd zend_llist option" where
  "zend_llist_destroy l =
     do { l \<leftarrow> walk llist_next
            (\<lambda>current l. do { c \<leftarrow> l_cells l current;
               Some (llist_free current (llist_dtor (le_data c) l), False) })
            (l_head l) l;
          Some (l\<lparr>l_count := 0\<rparr>) }"

definition zend_llist_clean :: "'d zend_llist \<Rightarrow> 'd zend_llist option" where
  "zend_llist_clean l =
     do { l \<leftarrow> zend_llist_destroy l; Some (l\<lparr>l_head := None, l_tail := None\<rparr>) }"

text \<open>
  \<^verbatim>\<open>zend_llist_remove_tail\<close> returns the address of the data inside the element it has just
  freed; the model returns that element's address.
\<close>

definition zend_llist_remove_tail :: "'d zend_llist \<Rightarrow> ('d zend_llist \<times> ptr option) option" where
  "zend_llist_remove_tail l =
     (case l_tail l of
        Some old_tail \<Rightarrow>
          do { c \<leftarrow> l_cells l old_tail;
               l \<leftarrow> (case le_prev c of
                     Some p \<Rightarrow> lpoke p (le_next_update (\<lambda>_. None)) l
                   | None \<Rightarrow> Some (l\<lparr>l_head := None\<rparr>));
               let l = l\<lparr>l_tail := le_prev c\<rparr>;
               let l = llist_free old_tail (llist_dtor (le_data c) l);
               Some (l\<lparr>l_count := l_count l - 1\<rparr>, Some old_tail) }
      | None \<Rightarrow> Some (l, None))"

definition zend_llist_copy ::
  "ptr list \<Rightarrow> 'd zend_llist \<Rightarrow> 'd zend_llist \<Rightarrow> 'd zend_llist option" where
  "zend_llist_copy tmps dst src =
     do { (dst, _) \<leftarrow> walk (\<lambda>_ p. fld le_next (l_cells src) p)
            (\<lambda>p (dst, tmps). do { c \<leftarrow> l_cells src p;
               (case tmps of
                  [] \<Rightarrow> None
                | tmp # tmps \<Rightarrow>
                    do { dst \<leftarrow> zend_llist_add_element tmp dst (le_data c);
                         Some ((dst, tmps), False) }) })
            (l_head src)
            (zend_llist_init dst (l_size src) (l_dtor src) (l_persistent src), tmps);
          Some dst }"

definition zend_llist_apply_with_del ::
  "('d \<Rightarrow> 's \<Rightarrow> bool \<times> 'd \<times> 's) \<Rightarrow> 'd zend_llist \<Rightarrow> 's \<Rightarrow> ('d zend_llist \<times> 's) option" where
  "zend_llist_apply_with_del func l s =
     walk (\<lambda>(l, s) p. llist_next l p)
       (\<lambda>element (l, s). do { c \<leftarrow> l_cells l element;
          let (del, d, s) = func (le_data c) s;
          l \<leftarrow> lpoke element (le_data_update (\<lambda>_. d)) l;
          l \<leftarrow> (if del then DEL_LLIST_ELEMENT element l else Some l);
          Some ((l, s), False) })
       (l_head l) (l, s)"

definition zend_llist_apply ::
  "('d \<Rightarrow> 's \<Rightarrow> 'd \<times> 's) \<Rightarrow> 'd zend_llist \<Rightarrow> 's \<Rightarrow> ('d zend_llist \<times> 's) option" where
  "zend_llist_apply func l s =
     walk (\<lambda>(l, s) p. llist_next l p)
       (\<lambda>element (l, s). do { c \<leftarrow> l_cells l element;
          let (d, s) = func (le_data c) s;
          l \<leftarrow> lpoke element (le_data_update (\<lambda>_. d)) l;
          Some ((l, s), False) })
       (l_head l) (l, s)"

definition zend_llist_apply_with_argument ::
  "('d \<Rightarrow> 'arg \<Rightarrow> 's \<Rightarrow> 'd \<times> 's) \<Rightarrow> 'arg \<Rightarrow> 'd zend_llist \<Rightarrow> 's \<Rightarrow> ('d zend_llist \<times> 's) option" where
  "zend_llist_apply_with_argument func arg l s =
     walk (\<lambda>(l, s) p. llist_next l p)
       (\<lambda>element (l, s). do { c \<leftarrow> l_cells l element;
          let (d, s) = func (le_data c) arg s;
          l \<leftarrow> lpoke element (le_data_update (\<lambda>_. d)) l;
          Some ((l, s), False) })
       (l_head l) (l, s)"

definition zend_llist_apply_with_arguments ::
  "('d \<Rightarrow> nat \<Rightarrow> 'arg list \<Rightarrow> 's \<Rightarrow> 'd \<times> 's) \<Rightarrow> 'arg list \<Rightarrow> 'd zend_llist \<Rightarrow> 's \<Rightarrow>
   ('d zend_llist \<times> 's) option" where
  "zend_llist_apply_with_arguments func args l s =
     walk (\<lambda>(l, s) p. llist_next l p)
       (\<lambda>element (l, s). do { c \<leftarrow> l_cells l element;
          let (d, s) = func (le_data c) (length args) args s;
          l \<leftarrow> lpoke element (le_data_update (\<lambda>_. d)) l;
          Some ((l, s), False) })
       (l_head l) (l, s)"

text \<open>
  Sorting collects the element addresses in a buffer of \<^verbatim>\<open>count\<close> entries (any other number
  of elements would overrun it or leave entries unset: a fault), sorts the buffer and
  relinks the elements in its order.
\<close>

fun llist_relink :: "ptr list \<Rightarrow> 'd zend_llist \<Rightarrow> 'd zend_llist option" where
  "llist_relink (a # b # elements) l =
     do { l \<leftarrow> lpoke b (le_prev_update (\<lambda>_. Some a)) l;
          l \<leftarrow> lpoke a (le_next_update (\<lambda>_. Some b)) l;
          llist_relink (b # elements) l }"
| "llist_relink [a] l =
     do { l \<leftarrow> lpoke a (le_next_update (\<lambda>_. None)) l; Some (l\<lparr>l_tail := Some a\<rparr>) }"
| "llist_relink [] l = Some l"

text \<open>
  The comparison function gets addresses of elements and reads them. The buffer holds
  addresses of live elements only, so the answers for dead addresses are never asked for;
  they are filled in so that the order stays total.
\<close>

definition cell_compare :: "('b \<Rightarrow> 'b \<Rightarrow> int) \<Rightarrow> (ptr \<rightharpoonup> 'b) \<Rightarrow> ptr \<Rightarrow> ptr \<Rightarrow> int" where
  "cell_compare comp_func cells p q =
     (case (cells p, cells q) of
        (Some a, Some b) \<Rightarrow> comp_func a b
      | (None, Some _) \<Rightarrow> -1 | (Some _, None) \<Rightarrow> 1 | (None, None) \<Rightarrow> 0)"

definition zend_llist_sort ::
  "int list \<times> int list \<Rightarrow> ('d zend_llist_element \<Rightarrow> 'd zend_llist_element \<Rightarrow> int) \<Rightarrow>
   'd zend_llist \<Rightarrow> 'd zend_llist option" where
  "zend_llist_sort junk comp_func l =
     (if l_count l \<le> 0 then Some l
      else do { elements \<leftarrow> walk (\<lambda>_ p. llist_next l p) (\<lambda>p es. Some (es @ [p], False)) (l_head l) [];
                if length elements \<noteq> l_count l then None
                else do { elements \<leftarrow> zend_qsort junk 8 (cell_compare comp_func (l_cells l)) elements;
                          (case elements of
                             [] \<Rightarrow> None
                           | e0 # _ \<Rightarrow>
                               do { l \<leftarrow> Some (l\<lparr>l_head := Some e0\<rparr>);
                                    l \<leftarrow> lpoke e0 (le_prev_update (\<lambda>_. None)) l;
                                    llist_relink elements l }) } })"

definition zend_llist_count :: "'d zend_llist \<Rightarrow> nat" where
  "zend_llist_count l = l_count l"

text \<open>
  The external iterators. \<open>pos\<close> is the caller's position, or \<open>None\<close> when the caller passes
  no position and the list's own \<^verbatim>\<open>traverse_ptr\<close> is used; the new position is returned the
  same way. The data of the element reached, or \<open>None\<close> for a null pointer, come last.
\<close>

definition llist_at :: "'d zend_llist \<Rightarrow> ptr option \<Rightarrow> 'd option option" where
  "llist_at l current =
     (case current of None \<Rightarrow> Some None
      | Some p \<Rightarrow> map_option (\<lambda>c. Some (le_data c)) (l_cells l p))"

definition llist_store_pos :: "'d zend_llist \<Rightarrow> ptr option option \<Rightarrow> ptr option \<Rightarrow>
    'd zend_llist \<times> ptr option option" where
  "llist_store_pos l pos current =
     (case pos of None \<Rightarrow> (l\<lparr>traverse_ptr := current\<rparr>, None) | Some _ \<Rightarrow> (l, Some current))"

definition llist_load_pos :: "'d zend_llist \<Rightarrow> ptr option option \<Rightarrow> ptr option" where
  "llist_load_pos l pos = (case pos of None \<Rightarrow> traverse_ptr l | Some p \<Rightarrow> p)"

definition zend_llist_get_first_ex ::
  "'d zend_llist \<Rightarrow> ptr option option \<Rightarrow> (('d zend_llist \<times> ptr option option) \<times> 'd option) option" where
  "zend_llist_get_first_ex l pos =
     do { d \<leftarrow> llist_at l (l_head l); Some (llist_store_pos l pos (l_head l), d) }"

definition zend_llist_get_last_ex ::
  "'d zend_llist \<Rightarrow> ptr option option \<Rightarrow> (('d zend_llist \<times> ptr option option) \<times> 'd option) option" where
  "zend_llist_get_last_ex l pos =
     do { d \<leftarrow> llist_at l (l_tail l); Some (llist_store_pos l pos (l_tail l), d) }"

definition zend_llist_get_next_ex ::
  "'d zend_llist \<Rightarrow> ptr option option \<Rightarrow> (('d zend_llist \<times> ptr option option) \<times> 'd option) option" where
  "zend_llist_get_next_ex l pos =
     (case llist_load_pos l pos of
        None \<Rightarrow> Some ((l, pos), None)
      | Some p \<Rightarrow> do { c \<leftarrow> l_cells l p; d \<leftarrow> llist_at l (le_next c);
                       Some (llist_store_pos l pos (le_next c), d) })"

definition zend_llist_get_prev_ex ::
  "'d zend_llist \<Rightarrow> ptr option option \<Rightarrow> (('d zend_llist \<times> ptr option option) \<times> 'd option) option" where
  "zend_llist_get_prev_ex l pos =
     (case llist_load_pos l pos of
        None \<Rightarrow> Some ((l, pos), None)
      | Some p \<Rightarrow> do { c \<leftarrow> l_cells l p; d \<leftarrow> llist_at l (le_prev c);
                       Some (llist_store_pos l pos (le_prev c), d) })"

section \<open>Contract\<close>

definition llist_repr :: "'d zend_llist \<Rightarrow> ptr list \<Rightarrow> 'd list \<Rightarrow> bool" where
  "llist_repr l xs ds \<longleftrightarrow>
     linked (fld le_next (l_cells l)) (fld le_prev (l_cells l)) xs \<and> dom (l_cells l) = set xs \<and>
     l_head l = first_of xs \<and> l_tail l = last_of xs \<and> l_count l = length xs \<and>
     map (fld le_data (l_cells l)) xs = map Some ds"

definition llist_holds :: "'d zend_llist \<Rightarrow> 'd list \<Rightarrow> bool" where
  "llist_holds l ds \<longleftrightarrow> (\<exists>xs. llist_repr l xs ds)"

lemma llist_holds_init: "llist_holds (zend_llist_init l sz dtor persistent) []"
  by (simp add: llist_holds_def llist_repr_def zend_llist_init_def)

lemma llist_repr_length: "llist_repr l xs ds \<Longrightarrow> length ds = length xs"
  by (metis length_map llist_repr_def)

lemma llist_holds_count: "llist_holds l ds \<Longrightarrow> zend_llist_count l = length ds"
  using llist_repr_length by (fastforce simp: llist_holds_def llist_repr_def zend_llist_count_def)

lemma map_fld_cong:
  "(\<And>p. p \<in> set xs \<Longrightarrow> f p = g p) \<Longrightarrow> map g xs = map Some ds \<Longrightarrow> map f xs = map Some ds"
  by (metis map_cong)

lemma map_fld_upd [simp]: "p \<notin> set xs \<Longrightarrow> map (m(p := v)) xs = map m xs"
  by simp

lemma lpoke_ok: "p \<in> dom (l_cells l) \<Longrightarrow> lpoke p f l = Some (l\<lparr>l_cells := modify p f (l_cells l)\<rparr>)"
  by (simp add: lpoke_def)

lemma zend_llist_add_element_repr:
  assumes r: "llist_repr l xs ds" and tmp: "tmp \<notin> dom (l_cells l)"
  obtains l' where "zend_llist_add_element tmp l d = Some l'" "llist_repr l' (xs @ [tmp]) (ds @ [d])"
    "l_destroyed l' = l_destroyed l" "l_dtor l' = l_dtor l" "dom (l_cells l') = insert tmp (dom (l_cells l))"
proof -
  have lk: "linked (fld le_next (l_cells l)) (fld le_prev (l_cells l)) xs" using r by (simp add: llist_repr_def)
  have dom: "dom (l_cells l) = set xs" using r by (simp add: llist_repr_def)
  note ins = linked_insert [of _ _ xs "[]" tmp, simplified, OF lk]
  let ?c = "(l_cells l)(tmp \<mapsto> \<lparr>le_next = None, le_prev = l_tail l, le_data = d\<rparr>)"
  show ?thesis
  proof (cases xs rule: rev_cases)
    case Nil
    show ?thesis
      by (rule that [of "l\<lparr>l_cells := ?c, l_head := Some tmp, l_tail := Some tmp, l_count := l_count l + 1\<rparr>"])
        (use Nil r tmp ins in \<open>auto simp: zend_llist_add_element_def llist_repr_def\<close>)
  next
    case (snoc ys t)
    then have t: "t \<in> dom (l_cells l)" "t \<noteq> tmp" "l_tail l = Some t" "last_of xs = Some t" "xs \<noteq> []"
      using dom tmp r by (auto simp: llist_repr_def)
    let ?l' = "l\<lparr>l_cells := modify t (le_next_update (\<lambda>_. Some tmp)) ?c,
                 l_tail := Some tmp, l_count := l_count l + 1\<rparr>"
    have "zend_llist_add_element tmp l d = Some ?l'"
      using t by (simp add: zend_llist_add_element_def lpoke_ok)
    moreover have "llist_repr ?l' (xs @ [tmp]) (ds @ [d])"
      using t tmp r ins dom by (simp add: llist_repr_def first_of_append)
    ultimately show ?thesis using that t by simp
  qed
qed

lemma zend_llist_prepend_element_repr:
  assumes r: "llist_repr l xs ds" and tmp: "tmp \<notin> dom (l_cells l)"
  obtains l' where "zend_llist_prepend_element tmp l d = Some l'" "llist_repr l' (tmp # xs) (d # ds)"
    "l_destroyed l' = l_destroyed l" "l_dtor l' = l_dtor l" "dom (l_cells l') = insert tmp (dom (l_cells l))"
proof -
  have lk: "linked (fld le_next (l_cells l)) (fld le_prev (l_cells l)) xs" using r by (simp add: llist_repr_def)
  have dom: "dom (l_cells l) = set xs" using r by (simp add: llist_repr_def)
  note ins = linked_insert [of _ _ "[]" xs tmp, simplified, OF lk]
  let ?c = "(l_cells l)(tmp \<mapsto> \<lparr>le_next = l_head l, le_prev = None, le_data = d\<rparr>)"
  show ?thesis
  proof (cases xs)
    case Nil
    show ?thesis
      by (rule that [of "l\<lparr>l_cells := ?c, l_tail := Some tmp, l_head := Some tmp, l_count := l_count l + 1\<rparr>"])
        (use Nil r tmp ins in \<open>auto simp: zend_llist_prepend_element_def llist_repr_def\<close>)
  next
    case (Cons t ys)
    then have t: "t \<in> dom (l_cells l)" "t \<noteq> tmp" "l_head l = Some t" "first_of xs = Some t" "xs \<noteq> []"
      using dom tmp r by (auto simp: llist_repr_def)
    let ?l' = "l\<lparr>l_cells := modify t (le_prev_update (\<lambda>_. Some tmp)) ?c,
                 l_head := Some tmp, l_count := l_count l + 1\<rparr>"
    have "zend_llist_prepend_element tmp l d = Some ?l'"
      using t by (simp add: zend_llist_prepend_element_def lpoke_ok)
    moreover have "llist_repr ?l' (tmp # xs) (d # ds)"
      using t tmp r ins dom by (simp add: llist_repr_def)
    ultimately show ?thesis using that t by simp
  qed
qed

lemma llist_free_dtor_simps [simp]:
  "l_cells (llist_free p (llist_dtor d l)) = (l_cells l)(p := None)"
  "l_head (llist_free p (llist_dtor d l)) = l_head l"
  "l_tail (llist_free p (llist_dtor d l)) = l_tail l"
  "l_count (llist_free p (llist_dtor d l)) = l_count l"
  "l_dtor (llist_free p (llist_dtor d l)) = l_dtor l"
  "l_destroyed (llist_free p (llist_dtor d l)) = l_destroyed l @ (if l_dtor l then [d] else [])"
  by (simp_all add: llist_free_def llist_dtor_def)

lemma DEL_LLIST_ELEMENT_repr:
  assumes r: "llist_repr l (xs @ p # ys) (ds @ d # es)" and len: "length ds = length xs"
  obtains l' where "DEL_LLIST_ELEMENT p l = Some l'" "llist_repr l' (xs @ ys) (ds @ es)"
    "l_destroyed l' = l_destroyed l @ (if l_dtor l then [d] else [])" "l_dtor l' = l_dtor l"
proof -
  let ?c = "l_cells l"
  have lk: "linked (fld le_next ?c) (fld le_prev ?c) (xs @ p # ys)" and dom: "dom ?c = set (xs @ p # ys)"
    and data: "map (fld le_data ?c) (xs @ p # ys) = map Some (ds @ d # es)"
    using r by (auto simp: llist_repr_def)
  from lk have dist: "distinct (xs @ p # ys)" by blast
  obtain c where c: "?c p = Some c" using dom by force
  have cn: "le_next c = first_of ys" "le_prev c = last_of xs"
    using linked_split [OF lk] c by auto
  have dt: "map (fld le_data ?c) xs = map Some ds" "le_data c = d" "map (fld le_data ?c) ys = map Some es"
    using data len c by (auto simp: append_eq_append_conv)
  have nb: "\<And>q. last_of xs = Some q \<Longrightarrow> q \<in> dom ?c" "\<And>q. first_of ys = Some q \<Longrightarrow> q \<in> dom ?c"
    using dom by auto
  define l1 where "l1 = (case last_of xs of None \<Rightarrow> l\<lparr>l_head := first_of ys\<rparr>
     | Some q \<Rightarrow> l\<lparr>l_cells := modify q (le_next_update (\<lambda>_. first_of ys)) ?c\<rparr>)"
  define l2 where "l2 = (case first_of ys of None \<Rightarrow> l1\<lparr>l_tail := last_of xs\<rparr>
     | Some n \<Rightarrow> l1\<lparr>l_cells := modify n (le_prev_update (\<lambda>_. last_of xs)) (l_cells l1)\<rparr>)"
  have f1: "fld le_next (l_cells l1) = upd_opt (last_of xs) (first_of ys) (fld le_next ?c)"
    "fld le_prev (l_cells l1) = fld le_prev ?c" "fld le_data (l_cells l1) = fld le_data ?c"
    "dom (l_cells l1) = dom ?c" "l_head l1 = first_of (xs @ ys)" "l_tail l1 = l_tail l" "l_count l1 = l_count l"
    "l_dtor l1 = l_dtor l" "l_destroyed l1 = l_destroyed l"
    using r dom by (auto simp: l1_def llist_repr_def first_of_append split: option.splits)
  have f2: "fld le_next (l_cells l2) = upd_opt (last_of xs) (first_of ys) (fld le_next ?c)"
    "fld le_prev (l_cells l2) = upd_opt (first_of ys) (last_of xs) (fld le_prev ?c)"
    "fld le_data (l_cells l2) = fld le_data ?c"
    "dom (l_cells l2) = dom ?c" "l_head l2 = first_of (xs @ ys)" "l_tail l2 = last_of (xs @ ys)" "l_count l2 = l_count l"
    "l_dtor l2 = l_dtor l" "l_destroyed l2 = l_destroyed l"
    using r dom f1 by (auto simp: l2_def llist_repr_def last_of_append split: option.splits)
  have "linked (fld le_next (l_cells l2)) (fld le_prev (l_cells l2)) (xs @ ys)"
    unfolding f2 by (rule linked_unlink [OF lk])
  then have lk': "linked ((fld le_next (l_cells l2))(p := None)) ((fld le_prev (l_cells l2))(p := None)) (xs @ ys)"
    using dist by (subst linked_cong) auto
  let ?l' = "(llist_free p (llist_dtor d l2))\<lparr>l_count := l_count l2 - 1\<rparr>"
  have "DEL_LLIST_ELEMENT p l = Some ?l'"
    using c cn dt(2) f1(4) nb unfolding l2_def l1_def
    by (auto simp: DEL_LLIST_ELEMENT_def lpoke_ok Let_def simp del: domIff split: option.splits)
  moreover have "llist_repr ?l' (xs @ ys) (ds @ es)"
    using lk' dist dom dt r by (auto simp: llist_repr_def f2)
  ultimately show ?thesis using that f2(8,9) by simp
qed

section \<open>Containers that can be appended to\<close>

text \<open>
  The interface the copying loops use: an operation that appends one element, given an
  address for it that is not in use, and keeps the container's contract.
\<close>

locale appendable =
  fixes holds :: "'l \<Rightarrow> 'd list \<Rightarrow> bool" and used :: "'l \<Rightarrow> 'p set"
    and add :: "'p \<Rightarrow> 'l \<Rightarrow> 'd \<Rightarrow> 'l option"
  assumes add_holds: "holds l ds \<Longrightarrow> p \<notin> used l \<Longrightarrow>
    \<exists>l'. add p l d = Some l' \<and> holds l' (ds @ [d]) \<and> used l' = insert p (used l)"
begin

text \<open>Appending the data of a linked list, element by element.\<close>

lemma append_walk:
  assumes src: "linked (fld nx cells) pv xs" "map (fld dat cells) xs = map Some es"
    and dst: "holds l ds" and ps: "distinct ps" "set ps \<inter> used l = {}" "length xs \<le> length ps"
  shows "\<exists>l' ps'. walk (\<lambda>_ p. fld nx cells p)
      (\<lambda>p (l, ps). do { c \<leftarrow> cells p;
         (case ps of [] \<Rightarrow> None | q # ps \<Rightarrow> do { l \<leftarrow> add q l (dat c); Some ((l, ps), False) }) })
      (first_of xs) (l, ps) = Some (l', ps') \<and> holds l' (ds @ es)"
proof -
  define I where "I = (\<lambda>rest (l', ps'). \<exists>pre fin todo. xs = pre @ rest \<and> es = fin @ todo \<and>
     map (fld dat cells) rest = map Some todo \<and> holds l' (ds @ fin) \<and> distinct ps' \<and>
     set ps' \<inter> used l' = {} \<and> length rest \<le> length ps')"
  have "\<exists>s'. walk (\<lambda>_ p. fld nx cells p)
      (\<lambda>p (l, ps). do { c \<leftarrow> cells p;
         (case ps of [] \<Rightarrow> None | q # ps \<Rightarrow> do { l \<leftarrow> add q l (dat c); Some ((l, ps), False) }) })
      (first_of xs) (l, ps) = Some s' \<and> (case s' of (l', ps') \<Rightarrow> holds l' (ds @ es))"
  proof (rule walk_rule [where I = I])
    fix a rest s assume "I (a # rest) s"
    then obtain l' ps' pre fin todo where s: "s = (l', ps')" and xs: "xs = pre @ a # rest"
      and es: "es = fin @ todo" and t: "map (fld dat cells) (a # rest) = map Some todo"
      and h: "holds l' (ds @ fin)" and p: "distinct ps'" "set ps' \<inter> used l' = {}" "length (a # rest) \<le> length ps'"
      unfolding I_def by auto
    obtain q qs where qs: "ps' = q # qs" using p(3) by (cases ps') auto
    obtain c where c: "cells a = Some c" using linked_split(1) [OF src(1) [unfolded xs]] by (auto simp: fld_def)
    obtain e todo' where td: "todo = e # todo'" using t by (cases todo) auto
    have e: "dat c = e" "map (fld dat cells) rest = map Some todo'" using t td c by auto
    obtain l2 where l2: "add q l' e = Some l2" "holds l2 ((ds @ fin) @ [e])" "used l2 = insert q (used l')"
      using add_holds [OF h, of q e] p qs by auto
    have "I rest (l2, qs)"
      unfolding I_def using xs es td e l2 p qs
      by (auto intro!: exI [of _ "pre @ [a]"] exI [of _ "fin @ [e]"] exI [of _ todo'])
    with l2 c e qs s linked_split(1) [OF src(1) [unfolded xs]]
    show "fld nx cells a = Some (first_of rest) \<and>
      (\<exists>s' stop. (case s of (l, ps) \<Rightarrow> do { c \<leftarrow> cells a;
         (case ps of [] \<Rightarrow> None | q # ps \<Rightarrow> do { l \<leftarrow> add q l (dat c); Some ((l, ps), False) }) }) = Some (s', stop) \<and>
        (if stop then (case s' of (l', ps') \<Rightarrow> holds l' (ds @ es)) else I rest s'))"
      by auto
  next
    fix s assume "I [] s"
    then show "case s of (l', ps') \<Rightarrow> holds l' (ds @ es)" by (auto simp: I_def)
  next
    show "I xs (l, ps)" unfolding I_def using assms by auto
  qed
  then show ?thesis by auto
qed

end

interpretation llist: appendable llist_holds "\<lambda>l. dom (l_cells l)" zend_llist_add_element
proof
  fix l :: "'a zend_llist" and ds p d
  assume "llist_holds l ds" and p: "p \<notin> dom (l_cells l)"
  then obtain xs where "llist_repr l xs ds" by (auto simp: llist_holds_def)
  from zend_llist_add_element_repr [OF this p, of d]
  show "\<exists>l'. zend_llist_add_element p l d = Some l' \<and> llist_holds l' (ds @ [d]) \<and>
      dom (l_cells l') = insert p (dom (l_cells l))"
    unfolding llist_holds_def by metis
qed

section \<open>Whole-list operations\<close>

fun del_first :: "('d \<Rightarrow> bool) \<Rightarrow> 'd list \<Rightarrow> 'd list" where
  "del_first P [] = []"
| "del_first P (d # ds) = (if P d then ds else d # del_first P ds)"

fun apply_del :: "('d \<Rightarrow> 's \<Rightarrow> bool \<times> 'd \<times> 's) \<Rightarrow> 'd list \<Rightarrow> 's \<Rightarrow> 'd list \<times> 's" where
  "apply_del func [] s = ([], s)"
| "apply_del func (d # ds) s =
     (let (del, d', s') = func d s; (ds', s'') = apply_del func ds s'
      in (if del then ds' else d' # ds', s''))"

lemma del_first_append: "\<forall>d\<in>set ds. \<not> P d \<Longrightarrow> del_first P (ds @ es) = ds @ del_first P es"
  by (induction ds) auto

lemma llist_repr_split:
  assumes "llist_repr l (pre @ a # rest) ds"
  obtains c d1 d2 where "l_cells l a = Some c" "ds = d1 @ le_data c # d2" "length d1 = length pre"
    "le_next c = first_of rest" "le_prev c = last_of pre"
proof -
  have lk: "linked (fld le_next (l_cells l)) (fld le_prev (l_cells l)) (pre @ a # rest)"
    and dt: "map (fld le_data (l_cells l)) (pre @ a # rest) = map Some ds"
    and dom: "dom (l_cells l) = set (pre @ a # rest)"
    using assms by (auto simp: llist_repr_def)
  obtain c where c: "l_cells l a = Some c" using dom by force
  have "length ds = length (pre @ a # rest)" using assms by (rule llist_repr_length)
  then have "ds = take (length pre) ds @ ds ! length pre # drop (Suc (length pre)) ds"
      "length (take (length pre) ds) = length pre"
    by (simp_all add: id_take_nth_drop)
  then obtain d1 d d2 where ds: "ds = d1 @ d # d2" "length d1 = length pre"
    by blast
  moreover have "d = le_data c" using dt ds c by (auto simp: append_eq_append_conv)
  ultimately show ?thesis using that c linked_split [OF lk] by simp
qed

lemma zend_llist_del_element_repr:
  assumes "llist_holds l ds"
  shows "\<exists>l'. zend_llist_del_element l element compare = Some l' \<and>
     llist_holds l' (del_first (\<lambda>d. compare d element) ds)"
proof -
  obtain xs where r: "llist_repr l xs ds" using assms by (auto simp: llist_holds_def)
  define I where "I = (\<lambda>rest l'. l' = l \<and> (\<exists>pre d1 d2. xs = pre @ rest \<and> ds = d1 @ d2 \<and>
     length d1 = length pre \<and> (\<forall>d\<in>set d1. \<not> compare d element)))"
  have "\<exists>l'. walk llist_next
       (\<lambda>current l. do { c \<leftarrow> l_cells l current;
          if compare (le_data c) element
          then map_option (\<lambda>l. (l, True)) (DEL_LLIST_ELEMENT current l)
          else Some (l, False) })
       (first_of xs) l = Some l' \<and> llist_holds l' (del_first (\<lambda>d. compare d element) ds)"
  proof (rule walk_rule [where I = I])
    fix a rest s assume "I (a # rest) s"
    then obtain pre d1 d2 where s: "s = l" "xs = pre @ a # rest" "ds = d1 @ d2" "length d1 = length pre"
        "\<forall>d\<in>set d1. \<not> compare d element" by (auto simp: I_def)
    obtain c e1 e2 where c: "l_cells l a = Some c" "ds = e1 @ le_data c # e2" "length e1 = length pre"
        "le_next c = first_of rest"
      using llist_repr_split r s(2) by metis
    have d: "d1 = e1" "d2 = le_data c # e2" using s(3,4) c(2,3) by (auto simp: append_eq_append_conv)
    have df: "del_first (\<lambda>d. compare d element) ds = d1 @ del_first (\<lambda>d. compare d element) d2"
      using s(3,5) by (simp add: del_first_append)
    obtain l' where del: "DEL_LLIST_ELEMENT a l = Some l'" "llist_repr l' (pre @ rest) (e1 @ e2)"
      using DEL_LLIST_ELEMENT_repr [of l pre a rest e1 "le_data c" e2] r s(2) c by metis
    have "\<not> compare (le_data c) element \<Longrightarrow> I rest l"
      unfolding I_def
      by (intro conjI refl, rule exI [of _ "pre @ [a]"], rule exI [of _ "e1 @ [le_data c]"],
          rule exI [of _ e2]) (use s d in auto)
    then show "llist_next s a = Some (first_of rest) \<and>
      (\<exists>s' stop. do { c \<leftarrow> l_cells s a;
          if compare (le_data c) element then map_option (\<lambda>l. (l, True)) (DEL_LLIST_ELEMENT a s)
          else Some (s, False) } = Some (s', stop) \<and>
        (if stop then llist_holds s' (del_first (\<lambda>d. compare d element) ds) else I rest s'))"
      using c s(1) del df d by (auto simp: llist_holds_def)
  next
    fix s assume "I [] s"
    then show "llist_holds s (del_first (\<lambda>d. compare d element) ds)"
      using r llist_repr_length [OF r] del_first_append [of ds "\<lambda>d. compare d element" "[]"]
      by (auto simp: I_def llist_holds_def)
  next
    show "I xs l" by (auto simp: I_def)
  qed
  then show ?thesis using r by (auto simp: zend_llist_del_element_def llist_repr_def)
qed

text \<open>
  Destruction frees every cell and hands every datum to the destructor, front to back. The
  head and tail pointers are left dangling by \<^verbatim>\<open>zend_llist_destroy\<close>; \<^verbatim>\<open>zend_llist_clean\<close> resets them.
\<close>

lemma zend_llist_destroy_repr:
  fixes l :: "'d zend_llist"
  assumes "llist_holds l ds"
  shows "\<exists>l'. zend_llist_destroy l = Some l' \<and> l_cells l' = Map.empty \<and> l_count l' = 0 \<and>
     l_head l' = l_head l \<and> l_tail l' = l_tail l \<and> l_dtor l' = l_dtor l \<and>
     l_destroyed l' = l_destroyed l @ (if l_dtor l then ds else [])"
proof -
  obtain xs where r: "llist_repr l xs ds" using assms by (auto simp: llist_holds_def)
  then have lk: "linked (fld le_next (l_cells l)) (fld le_prev (l_cells l)) xs"
    and dom: "dom (l_cells l) = set xs" and dt: "map (fld le_data (l_cells l)) xs = map Some ds"
    by (auto simp: llist_repr_def)
  define I where "I = (\<lambda>rest (l' :: 'd zend_llist). \<exists>pre d1 d2. xs = pre @ rest \<and> ds = d1 @ d2 \<and> length d1 = length pre \<and>
     l_cells l' = l_cells l |` set rest \<and> l_dtor l' = l_dtor l \<and> l_head l' = l_head l \<and> l_tail l' = l_tail l \<and>
     l_destroyed l' = l_destroyed l @ (if l_dtor l then d1 else []))"
  have "\<exists>l'. walk llist_next (\<lambda>current l. do { c \<leftarrow> l_cells l current;
               Some (llist_free current (llist_dtor (le_data c) l), False) }) (first_of xs) l = Some l' \<and> I [] l'"
  proof (rule walk_rule [where I = I])
    fix a rest s assume "I (a # rest) s"
    then obtain pre d1 d2 where s: "xs = pre @ a # rest" "ds = d1 @ d2" "length d1 = length pre"
        "l_cells s = l_cells l |` set (a # rest)" "l_dtor s = l_dtor l" "l_head s = l_head l" "l_tail s = l_tail l"
        "l_destroyed s = l_destroyed l @ (if l_dtor l then d1 else [])" by (auto simp: I_def)
    obtain c e1 e2 where c: "l_cells l a = Some c" "ds = e1 @ le_data c # e2" "length e1 = length pre"
        "le_next c = first_of rest"
      using llist_repr_split r s(1) by metis
    have d: "d1 = e1" using s(2,3) c(2,3) by (auto simp: append_eq_append_conv)
    have "a \<notin> set rest" using lk s(1) by (auto dest: linked_distinct)
    then have res: "(l_cells s)(a := None) = l_cells l |` set rest"
      using s(4) by (auto simp: restrict_map_def fun_eq_iff)
    have "I rest (llist_free a (llist_dtor (le_data c) s))"
      unfolding I_def
      by (rule exI [of _ "pre @ [a]"], rule exI [of _ "e1 @ [le_data c]"], rule exI [of _ e2])
        (use s c d res in auto)
    then show "llist_next s a = Some (first_of rest) \<and>
      (\<exists>s' stop. do { c \<leftarrow> l_cells s a; Some (llist_free a (llist_dtor (le_data c) s), False) } = Some (s', stop) \<and>
        (if stop then I [] s' else I rest s'))"
      using s(4) c by (auto simp: fld_def)
  next
    show "I xs l"
      unfolding I_def
      by (rule exI [of _ "[]"], rule exI [of _ "[]"], rule exI [of _ ds])
        (use dom in \<open>auto simp: restrict_map_def fun_eq_iff dom_def\<close>)
  qed
  then obtain l' where w: "walk llist_next (\<lambda>current l. do { c \<leftarrow> l_cells l current;
               Some (llist_free current (llist_dtor (le_data c) l), False) }) (first_of xs) l = Some l'" "I [] l'"
    by blast
  then have "l_destroyed l' = l_destroyed l @ (if l_dtor l then ds else [])" "l_cells l' = Map.empty"
    "l_head l' = l_head l" "l_tail l' = l_tail l" "l_dtor l' = l_dtor l"
    using llist_repr_length [OF r] by (auto simp: I_def)
  with w(1) r show ?thesis by (auto simp: zend_llist_destroy_def llist_repr_def)
qed

lemma zend_llist_clean_repr:
  assumes "llist_holds l ds"
  shows "\<exists>l'. zend_llist_clean l = Some l' \<and> llist_holds l' [] \<and>
     l_destroyed l' = l_destroyed l @ (if l_dtor l then ds else [])"
  using zend_llist_destroy_repr [OF assms]
  by (auto simp: zend_llist_clean_def llist_holds_def llist_repr_def)

lemma zend_llist_remove_tail_repr:
  assumes "llist_holds l ds" "ds \<noteq> []"
  shows "\<exists>l' p. zend_llist_remove_tail l = Some (l', Some p) \<and> llist_holds l' (butlast ds) \<and>
     l_destroyed l' = l_destroyed l @ (if l_dtor l then [last ds] else []) \<and> p \<notin> dom (l_cells l')"
proof -
  obtain xs where r: "llist_repr l xs ds" using assms by (auto simp: llist_holds_def)
  have "xs \<noteq> []" using llist_repr_length [OF r] assms by auto
  then obtain ys t where xs: "xs = ys @ [t]" by (meson rev_exhaust)
  obtain c d1 d2 where c: "l_cells l t = Some c" "ds = d1 @ le_data c # d2" "length d1 = length ys"
      "le_next c = None" "le_prev c = last_of ys"
    using llist_repr_split [of l ys t "[]" ds] r xs by auto
  have "d2 = []" using llist_repr_length [OF r] c xs by simp
  with c have ds: "ds = d1 @ [le_data c]" by simp
  obtain l' where l': "DEL_LLIST_ELEMENT t l = Some l'" "llist_repr l' (ys @ []) (d1 @ [])"
     "l_destroyed l' = l_destroyed l @ (if l_dtor l then [le_data c] else [])"
    using DEL_LLIST_ELEMENT_repr [of l ys t "[]" d1 "le_data c" "[]"] r xs ds c by metis
  have "t \<notin> set ys" using r xs by (auto simp: llist_repr_def dest: linked_distinct)
  then have "t \<notin> dom (l_cells l')" using l'(2) by (simp add: llist_repr_def)
  moreover have "zend_llist_remove_tail l = Some (l', Some t)"
    using l'(1) c r xs by (auto simp: zend_llist_remove_tail_def DEL_LLIST_ELEMENT_def llist_repr_def
        Let_def split: option.splits bind_splits)
  ultimately show ?thesis using l' ds by (auto simp: llist_holds_def)
qed

lemma llist_repr_set_data:
  assumes r: "llist_repr l (pre @ a # rest) (d1 @ d # d2)" and len: "length d1 = length pre"
  shows "llist_repr (l\<lparr>l_cells := modify a (le_data_update (\<lambda>_. e)) (l_cells l)\<rparr>) (pre @ a # rest) (d1 @ e # d2)"
proof -
  have "distinct (pre @ a # rest)" using r linked_distinct unfolding llist_repr_def by blast
  moreover have "a \<in> dom (l_cells l)"
    and "map (fld le_data (l_cells l)) pre = map Some d1" "map (fld le_data (l_cells l)) rest = map Some d2"
    using r len by (auto simp: llist_repr_def append_eq_append_conv)
  ultimately show ?thesis using r by (simp add: llist_repr_def)
qed

lemma zend_llist_apply_with_del_repr:
  assumes "llist_holds l ds"
  shows "\<exists>l'. zend_llist_apply_with_del func l s = Some (l', snd (apply_del func ds s)) \<and>
     llist_holds l' (fst (apply_del func ds s))"
proof -
  obtain xs where r: "llist_repr l xs ds" using assms by (auto simp: llist_holds_def)
  let ?body = "\<lambda>element (l, s). do { c \<leftarrow> l_cells l element;
          let (del, d, s) = func (le_data c) s;
          l \<leftarrow> lpoke element (le_data_update (\<lambda>_. d)) l;
          l \<leftarrow> (if del then DEL_LLIST_ELEMENT element l else Some l);
          Some ((l, s), False) }"
  define I where "I = (\<lambda>rest (l', s'). \<exists>pre d1 d2. llist_repr l' (pre @ rest) (d1 @ d2) \<and>
     length d1 = length pre \<and>
     apply_del func ds s = (d1 @ fst (apply_del func d2 s'), snd (apply_del func d2 s')))"
  have "\<exists>r. walk (\<lambda>(l, s) p. llist_next l p) ?body (first_of xs) (l, s) = Some r \<and> I [] r"
  proof (rule walk_rule [where I = I])
    fix a rest st assume "I (a # rest) st"
    then obtain l0 s0 pre d1 d2 where st: "st = (l0, s0)" "llist_repr l0 (pre @ a # rest) (d1 @ d2)"
        "length d1 = length pre"
        "apply_del func ds s = (d1 @ fst (apply_del func d2 s0), snd (apply_del func d2 s0))"
      by (auto simp: I_def)
    obtain c e1 e2 where c: "l_cells l0 a = Some c" "d1 @ d2 = e1 @ le_data c # e2" "length e1 = length pre"
        "le_next c = first_of rest"
      using llist_repr_split st(2) by metis
    have d: "d1 = e1" "d2 = le_data c # e2" using st(3) c(2,3) by (auto simp: append_eq_append_conv)
    obtain del d' s' where f: "func (le_data c) s0 = (del, d', s')" by (metis prod_cases3)
    let ?l1 = "l0\<lparr>l_cells := modify a (le_data_update (\<lambda>_. d')) (l_cells l0)\<rparr>"
    have r1: "llist_repr ?l1 (pre @ a # rest) (e1 @ d' # e2)"
      using llist_repr_set_data st(2) d c(3) by metis
    obtain l2 where l2: "DEL_LLIST_ELEMENT a ?l1 = Some l2" "llist_repr l2 (pre @ rest) (e1 @ e2)"
      using DEL_LLIST_ELEMENT_repr [OF r1 c(3)] by metis
    have keep: "I rest (?l1, s')" if "\<not> del"
      unfolding I_def prod.case
      by (rule exI [of _ "pre @ [a]"], rule exI [of _ "e1 @ [d']"], rule exI [of _ e2])
        (use r1 c(3) st(4) d f that in \<open>auto split: prod.splits\<close>)
    have drop: "I rest (l2, s')" if del
      unfolding I_def prod.case
      by (rule exI [of _ pre], rule exI [of _ e1], rule exI [of _ e2])
        (use l2(2) c(3) st(4) d f that in \<open>auto split: prod.splits\<close>)
    have "lpoke a (le_data_update (\<lambda>_. d')) l0 = Some ?l1" using c(1) by (simp add: lpoke_ok domI)
    then show "(case st of (l, s) \<Rightarrow> \<lambda>p. llist_next l p) a = Some (first_of rest) \<and>
      (\<exists>s' stop. ?body a st = Some (s', stop) \<and> (if stop then I [] s' else I rest s'))"
      using st(1) c f l2(1) keep drop by (cases del) auto
  next
    show "I xs (l, s)"
      unfolding I_def prod.case by (rule exI [of _ "[]"], rule exI [of _ "[]"], rule exI [of _ ds]) (simp add: r)
  qed
  then obtain l' s' where w: "walk (\<lambda>(l, s) p. llist_next l p) ?body (first_of xs) (l, s) = Some (l', s')" "I [] (l', s')"
    by auto
  then obtain pre d1 d2 where x: "llist_repr l' pre (d1 @ d2)" "length d1 = length pre"
     "apply_del func ds s = (d1 @ fst (apply_del func d2 s'), snd (apply_del func d2 s'))"
    by (auto simp: I_def)
  then have "d2 = []" using llist_repr_length [OF x(1)] by simp
  with w(1) x r show ?thesis by (auto simp: zend_llist_apply_with_del_def llist_repr_def llist_holds_def)
qed

text \<open>The other apply functions are the same loop with a callback that never deletes.\<close>

lemma zend_llist_apply_as_del:
  "zend_llist_apply func l s = zend_llist_apply_with_del (\<lambda>d s. (False, func d s)) l s"
  by (simp add: zend_llist_apply_def zend_llist_apply_with_del_def split_def Let_def)

lemma zend_llist_apply_variants:
  "zend_llist_apply_with_argument f arg l s = zend_llist_apply (\<lambda>d. f d arg) l s"
  "zend_llist_apply_with_arguments g args l s = zend_llist_apply (\<lambda>d. g d (length args) args) l s"
  by (simp_all add: zend_llist_apply_def zend_llist_apply_with_argument_def zend_llist_apply_with_arguments_def)

section \<open>Sorting\<close>

lemma llist_relink_spec:
  assumes "xs \<noteq> []" "distinct xs" "set xs \<subseteq> dom (l_cells l)"
  shows "\<exists>l'. llist_relink xs l = Some l' \<and>
     (\<forall>p\<in>set xs. fld le_next (l_cells l') p = Some (nxt_of xs p)) \<and>
     (\<forall>p\<in>set xs. fld le_prev (l_cells l') p = (if Some p = first_of xs then fld le_prev (l_cells l) p else Some (prv_of xs p))) \<and>
     (\<forall>p. p \<notin> set xs \<longrightarrow> l_cells l' p = l_cells l p) \<and>
     fld le_data (l_cells l') = fld le_data (l_cells l) \<and> dom (l_cells l') = dom (l_cells l) \<and>
     l_head l' = l_head l \<and> l_tail l' = last_of xs \<and> l_count l' = l_count l"
  using assms
proof (induction xs l rule: llist_relink.induct)
  case (1 a b xs l)
  let ?c1 = "modify b (le_prev_update (\<lambda>_. Some a)) (l_cells l)"
  let ?c2 = "modify a (le_next_update (\<lambda>_. Some b)) ?c1"
  let ?l2 = "l\<lparr>l_cells := ?c2\<rparr>"
  have ab: "a \<in> dom (l_cells l)" "b \<in> dom (l_cells l)" "a \<noteq> b" "a \<notin> set xs" using "1.prems" by auto
  have steps: "lpoke b (le_prev_update (\<lambda>_. Some a)) l = Some (l\<lparr>l_cells := ?c1\<rparr>)"
    "lpoke a (le_next_update (\<lambda>_. Some b)) (l\<lparr>l_cells := ?c1\<rparr>) = Some ?l2"
    using ab by (simp_all add: lpoke_ok)
  have f2: "fld le_next ?c2 = (fld le_next (l_cells l))(a \<mapsto> Some b)"
    "fld le_prev ?c2 = (fld le_prev (l_cells l))(b \<mapsto> Some a)" "fld le_data ?c2 = fld le_data (l_cells l)"
    "dom ?c2 = dom (l_cells l)" "\<And>p. p \<noteq> a \<Longrightarrow> p \<noteq> b \<Longrightarrow> ?c2 p = l_cells l p"
    using ab by simp_all
  have "\<exists>l'. llist_relink (b # xs) ?l2 = Some l' \<and>
     (\<forall>p\<in>set (b # xs). fld le_next (l_cells l') p = Some (nxt_of (b # xs) p)) \<and>
     (\<forall>p\<in>set (b # xs). fld le_prev (l_cells l') p =
        (if Some p = first_of (b # xs) then fld le_prev (l_cells ?l2) p else Some (prv_of (b # xs) p))) \<and>
     (\<forall>p. p \<notin> set (b # xs) \<longrightarrow> l_cells l' p = l_cells ?l2 p) \<and>
     fld le_data (l_cells l') = fld le_data (l_cells ?l2) \<and> dom (l_cells l') = dom (l_cells ?l2) \<and>
     l_head l' = l_head ?l2 \<and> l_tail l' = last_of (b # xs) \<and> l_count l' = l_count ?l2"
    by (rule "1.IH" [OF steps]) (use "1.prems" in auto)
  then obtain l' where l': "llist_relink (b # xs) ?l2 = Some l'"
     "\<And>p. p \<in> set (b # xs) \<Longrightarrow> fld le_next (l_cells l') p = Some (nxt_of (b # xs) p)"
     "\<And>p. p \<in> set (b # xs) \<Longrightarrow> fld le_prev (l_cells l') p =
        (if Some p = first_of (b # xs) then fld le_prev (l_cells ?l2) p else Some (prv_of (b # xs) p))"
     "\<And>p. p \<notin> set (b # xs) \<Longrightarrow> l_cells l' p = l_cells ?l2 p"
     "fld le_data (l_cells l') = fld le_data (l_cells ?l2)" "dom (l_cells l') = dom (l_cells ?l2)"
     "l_head l' = l_head ?l2" "l_tail l' = last_of (b # xs)" "l_count l' = l_count ?l2"
    by blast
  have pv: "\<And>p. p \<in> set (b # xs) \<Longrightarrow> fld le_prev (l_cells l') p =
        (if p = b then Some (Some a) else Some (prv_of (b # xs) p))"
    using l'(3) f2(2) by simp
  have a: "l_cells l' a = ?c2 a" using l'(4) [of a] ab by simp
  have "fld le_next (l_cells l') a = fld le_next ?c2 a" "fld le_prev (l_cells l') a = fld le_prev ?c2 a"
    by (simp_all only: fld_def a)
  then have "fld le_next (l_cells l') a = Some (Some b)" "fld le_prev (l_cells l') a = fld le_prev (l_cells l) a"
    using f2 ab by simp_all
  then show ?case
    using steps l'(1,2,4-) pv f2 ab by (intro exI [of _ l']) auto
next
  case (2 a l)
  then show ?case by (auto simp: lpoke_ok modify_def)
qed simp

lemma total_preorder_cell_compare:
  assumes "total_preorder cmp"
  shows "total_preorder (cell_compare (\<lambda>a b. cmp (key a) (key b)) cells)"
proof -
  have 1: "\<And>x y. cmp x y > 0 \<Longrightarrow> cmp y x \<le> 0" and 2: "\<And>x y z. cmp x y \<le> 0 \<Longrightarrow> cmp y z \<le> 0 \<Longrightarrow> cmp x z \<le> 0"
    using assms unfolding total_preorder_def by blast+
  show ?thesis
    unfolding total_preorder_def cell_compare_def
    using 1 2 by (auto split: option.splits)
qed

lemma zend_llist_sort_repr:
  assumes h: "llist_holds l ds" and cmp: "total_preorder cmp" and len: "length ds < 2 ^ 64"
    and junk: "length (fst junk) = nat QSORT_STACK_SIZE" "length (snd junk) = nat QSORT_STACK_SIZE"
  shows "\<exists>l' es. zend_llist_sort junk (\<lambda>a b. cmp (le_data a) (le_data b)) l = Some l' \<and> llist_holds l' es \<and>
     mset es = mset ds \<and> sorted_wrt (\<lambda>x y. cmp x y \<le> 0) es"
proof (cases "ds = []")
  case True
  then show ?thesis
    using h llist_holds_count [OF h] by (auto simp: zend_llist_sort_def zend_llist_count_def)
next
  case False
  obtain xs where r: "llist_repr l xs ds" using h by (auto simp: llist_holds_def)
  have lk: "linked (fld le_next (l_cells l)) (fld le_prev (l_cells l)) xs" and dom: "dom (l_cells l) = set xs"
    and dt: "map (fld le_data (l_cells l)) xs = map Some ds" and cnt: "l_count l = length xs"
    using r by (auto simp: llist_repr_def)
  have lx: "length xs = length ds" using llist_repr_length [OF r] by simp
  let ?cc = "cell_compare (\<lambda>a b. cmp (le_data a) (le_data b)) (l_cells l)"
  have "walk (\<lambda>_ p. llist_next l p) (\<lambda>p es. Some (es @ [p], False)) (first_of xs) [] = Some (fold (\<lambda>p es. es @ [p]) xs [])"
  proof (rule walk_fold [where J = "\<lambda>rest _. \<exists>pre. xs = pre @ rest"])
    fix a rest s assume "\<exists>pre. xs = pre @ a # rest"
    then show "llist_next l a = Some (first_of rest) \<and> Some (s @ [a], False) = Some (s @ [a], False) \<and> (\<exists>pre. xs = pre @ rest)"
      using lk linked_split(1) by (metis append.assoc append_Cons append_Nil)
  qed simp
  moreover have "fold (\<lambda>p es. es @ [p]) xs ys = ys @ xs" for ys by (induction xs arbitrary: ys) auto
  ultimately have w: "walk (\<lambda>_ p. llist_next l p) (\<lambda>p es. Some (es @ [p], False)) (first_of xs) [] = Some xs" by simp
  obtain es where es: "zend_qsort junk 8 ?cc xs = Some es" "mset es = mset xs" "sorted_wrt (\<lambda>x y. ?cc x y \<le> 0) es"
    using zend_qsort_ordered [OF total_preorder_cell_compare [OF cmp], of xs 8 junk le_data "l_cells l"] len lx junk
    by (auto simp: zend_qsort_def)
  have "distinct xs" using lk by blast
  then have ses: "set es = set xs" "length es = length xs" "distinct es"
    using mset_eq_setD [OF es(2)] mset_eq_length [OF es(2)] mset_eq_imp_distinct_iff [OF es(2)] by blast+
  then obtain e0 er where e0: "es = e0 # er" using False lx by (cases es) auto
  let ?l1 = "l\<lparr>l_head := Some e0, l_cells := modify e0 (le_prev_update (\<lambda>_. None)) (l_cells l)\<rparr>"
  have e0d: "e0 \<in> dom (l_cells l)" using dom ses e0 by auto
  have "es \<noteq> []" "set es \<subseteq> dom (l_cells ?l1)" using e0 dom ses by auto
  from llist_relink_spec [OF this(1) ses(3) this(2)] obtain l' where l': "llist_relink es ?l1 = Some l'"
     "\<forall>p\<in>set es. fld le_next (l_cells l') p = Some (nxt_of es p)"
     "\<forall>p\<in>set es. fld le_prev (l_cells l') p = (if Some p = first_of es then fld le_prev (l_cells ?l1) p else Some (prv_of es p))"
     "fld le_data (l_cells l') = fld le_data (l_cells ?l1)" "dom (l_cells l') = dom (l_cells ?l1)"
     "l_head l' = l_head ?l1" "l_tail l' = last_of es" "l_count l' = l_count ?l1"
    by blast
  have pv0: "prv_of es e0 = None" using prv_of_split [of "[]" e0 er] ses(3) e0 by simp
  then have "linked (fld le_next (l_cells l')) (fld le_prev (l_cells l')) es"
    using l'(2,3) ses(3) e0 e0d by (auto simp: linked_def)
  moreover have fd: "fld le_data (l_cells l') = fld le_data (l_cells l)" using l'(4) by simp
  let ?es = "map (\<lambda>p. the (fld le_data (l_cells l) p)) es"
  have some: "\<forall>p\<in>set es. fld le_data (l_cells l) p = Some (the (fld le_data (l_cells l) p))"
    using dom ses(1) by (metis fld_None_iff option.collapse)
  ultimately have "llist_repr l' es ?es"
    using l' e0 dom ses cnt by (simp add: llist_repr_def)
  moreover have "mset ?es = mset ds"
  proof -
    have "mset ?es = image_mset (\<lambda>p. the (fld le_data (l_cells l) p)) (mset xs)" using es(2) by simp
    also have "\<dots> = mset (map (\<lambda>p. the (fld le_data (l_cells l) p)) xs)" by simp
    also have "map (\<lambda>p. the (fld le_data (l_cells l) p)) xs = map the (map (fld le_data (l_cells l)) xs)" by simp
    finally show ?thesis using dt by simp
  qed
  moreover have "sorted_wrt (\<lambda>x y. cmp x y \<le> 0) ?es"
    unfolding sorted_wrt_map
  proof (rule sorted_wrt_mono_rel [OF _ es(3)])
    fix p q assume pq: "p \<in> set es" "q \<in> set es" "?cc p q \<le> 0"
    then obtain a b where "l_cells l p = Some a" "l_cells l q = Some b"
      using dom ses(1) by (metis domD)
    with pq(3) show "cmp (the (fld le_data (l_cells l) p)) (the (fld le_data (l_cells l) q)) \<le> 0"
      by (simp add: cell_compare_def)
  qed
  moreover have "zend_llist_sort junk (\<lambda>a b. cmp (le_data a) (le_data b)) l = Some l'"
    using w es(1) e0 e0d l'(1) cnt lx False r
    by (auto simp: zend_llist_sort_def lpoke_ok llist_repr_def)
  ultimately show ?thesis by (auto simp: llist_holds_def)
qed

lemma zend_llist_copy_repr:
  assumes "llist_holds src ds" and "distinct tmps" "length ds \<le> length tmps"
  shows "\<exists>l'. zend_llist_copy tmps dst src = Some l' \<and> llist_holds l' ds"
proof -
  obtain xs where r: "llist_repr src xs ds" using assms by (auto simp: llist_holds_def)
  then have r': "linked (fld le_next (l_cells src)) (fld le_prev (l_cells src)) xs"
    "map (fld le_data (l_cells src)) xs = map Some ds" "l_head src = first_of xs"
    by (auto simp: llist_repr_def)
  let ?dst = "zend_llist_init dst (l_size src) (l_dtor src) (l_persistent src)"
  have "set tmps \<inter> dom (l_cells ?dst) = {}" by (simp add: zend_llist_init_def)
  from llist.append_walk [OF r'(1,2) llist_holds_init assms(2) this]
  show ?thesis
    using assms(3) llist_repr_length [OF r] r'(3) by (fastforce simp: zend_llist_copy_def)
qed

section \<open>Properties\<close>

text \<open>
  Appending and prepending succeed on every well-formed list and every unused address,
  keep the list well formed and put the new datum at the back and at the front.
\<close>

theorem llist_insert_both_ends:
  assumes "llist_holds l ds" and "tmp \<notin> dom (l_cells l)"
  shows "(\<exists>l'. zend_llist_add_element tmp l d = Some l' \<and> llist_holds l' (ds @ [d])) \<and>
         (\<exists>l'. zend_llist_prepend_element tmp l d = Some l' \<and> llist_holds l' (d # ds))"
proof -
  obtain xs where r: "llist_repr l xs ds" using assms(1) by (auto simp: llist_holds_def)
  show ?thesis
    using zend_llist_add_element_repr [OF r assms(2), of d] zend_llist_prepend_element_repr [OF r assms(2), of d]
    unfolding llist_holds_def by metis
qed

definition sample_llist :: "nat zend_llist" where
  "sample_llist = \<lparr>l_head = Some 1, l_tail = Some 3, l_count = 3, l_size = 8, l_dtor = True,
     l_persistent = False, traverse_ptr = None,
     l_cells = [1 \<mapsto> \<lparr>le_next = Some 2, le_prev = None, le_data = 30\<rparr>,
                2 \<mapsto> \<lparr>le_next = Some 3, le_prev = Some 1, le_data = 10\<rparr>,
                3 \<mapsto> \<lparr>le_next = None, le_prev = Some 2, le_data = 20\<rparr>],
     l_destroyed = []\<rparr>"

lemma sample_llist_holds: "llist_holds sample_llist [30, 10, 20]"
  unfolding llist_holds_def
  by (rule exI [of _ "[1, 2, 3]"]) (auto simp: llist_repr_def linked_def sample_llist_def fld_def)

theorem llist_insert_both_ends_witness:
  "(\<exists>l'. zend_llist_add_element 4 sample_llist 7 = Some l' \<and> llist_holds l' [30, 10, 20, 7]) \<and>
   (\<exists>l'. zend_llist_prepend_element 4 sample_llist 7 = Some l' \<and> llist_holds l' [7, 30, 10, 20])"
  using llist_insert_both_ends [OF sample_llist_holds, of 4 7] by (simp add: sample_llist_def)

text \<open>
  Deleting an element by value removes the first element the comparison accepts and
  nothing else, on every branch: no match, a match at either end or in the middle.
\<close>

theorem llist_del_element_first:
  assumes "llist_holds l ds"
  shows "\<exists>l'. zend_llist_del_element l element compare = Some l' \<and>
     llist_holds l' (del_first (\<lambda>d. compare d element) ds)"
  using assms by (rule zend_llist_del_element_repr)

theorem llist_del_element_first_witness:
  "\<exists>l'. zend_llist_del_element sample_llist 10 (=) = Some l' \<and> llist_holds l' [30, 20]"
  using llist_del_element_first [OF sample_llist_holds, of 10 "(=)"] by simp

text \<open>
  C25: the loop that deletes while it walks visits every element exactly once, front to
  back, whatever the callback answers, and keeps exactly the elements it did not condemn,
  with the data the callback left in them.
\<close>

theorem llist_apply_with_del_visits_all:
  assumes "llist_holds l ds"
  shows "\<exists>l'. zend_llist_apply_with_del func l s = Some (l', snd (apply_del func ds s)) \<and>
     llist_holds l' (fst (apply_del func ds s))"
  using assms by (rule zend_llist_apply_with_del_repr)

theorem llist_apply_with_del_visits_all_witness:
  "\<exists>l'. zend_llist_apply_with_del (\<lambda>d s. (d < 15, d + 1, s + d)) sample_llist 0 = Some (l', 60) \<and>
     llist_holds l' [31, 21]"
  using llist_apply_with_del_visits_all [OF sample_llist_holds, of "\<lambda>d s. (d < 15, d + 1, s + d)" 0] by simp

text \<open>
  A list can be torn down without leaks: \<^verbatim>\<open>zend_llist_clean\<close> frees every cell, calls the
  destructor (when there is one) once per element in list order, and leaves a well-formed
  empty list.
\<close>

theorem llist_clean_releases_all:
  assumes "llist_holds l ds"
  shows "\<exists>l'. zend_llist_clean l = Some l' \<and> llist_holds l' [] \<and> l_cells l' = Map.empty \<and>
     l_destroyed l' = l_destroyed l @ (if l_dtor l then ds else [])"
  using zend_llist_destroy_repr [OF assms]
  by (auto simp: zend_llist_clean_def llist_holds_def llist_repr_def)

text \<open>
  A copy holds the same data as its source, in the same order, whatever the target
  structure held before.
\<close>

theorem llist_copy_same_data:
  assumes "llist_holds src ds" and "distinct tmps" and "length ds \<le> length tmps"
  shows "\<exists>l'. zend_llist_copy tmps dst src = Some l' \<and> llist_holds l' ds"
  using assms by (rule zend_llist_copy_repr)

text \<open>
  sorting relinks the elements into a well-formed list whose data are a sorted
  permutation of the old ones, for every comparison that answers like a total preorder.
\<close>

theorem llist_sort_sorts:
  assumes "llist_holds l ds" and "total_preorder cmp" and "length ds < 2 ^ 64"
    and "length (fst junk) = nat QSORT_STACK_SIZE" and "length (snd junk) = nat QSORT_STACK_SIZE"
  shows "\<exists>l' es. zend_llist_sort junk (\<lambda>a b. cmp (le_data a) (le_data b)) l = Some l' \<and>
     llist_holds l' es \<and> mset es = mset ds \<and> sorted_wrt (\<lambda>x y. cmp x y \<le> 0) es"
  using assms by (rule zend_llist_sort_repr)

theorem llist_sort_sorts_witness:
  "\<exists>l' es. zend_llist_sort (replicate 64 0, replicate 64 0)
       (\<lambda>a b. (\<lambda>x y. int x - int y) (le_data a) (le_data b)) sample_llist = Some l' \<and>
     llist_holds l' es \<and> mset es = mset [30, 10, 20] \<and> sorted_wrt (\<lambda>x y. (\<lambda>x y. int x - int y) x y \<le> 0) es"
  by (rule llist_sort_sorts [OF sample_llist_holds])
    (simp_all add: QSORT_STACK_SIZE_def total_preorder_def)

text \<open>
  C28: removing the tail takes exactly the last element out, but the address it returns is
  that of the element it has just freed: on a non-empty list the caller always gets a
  dangling pointer.
\<close>

theorem llist_remove_tail_dangles:
  assumes "llist_holds l ds" and "ds \<noteq> []"
  shows "\<exists>l' p. zend_llist_remove_tail l = Some (l', Some p) \<and> llist_holds l' (butlast ds) \<and>
     l_destroyed l' = l_destroyed l @ (if l_dtor l then [last ds] else []) \<and> p \<notin> dom (l_cells l')"
  using assms by (rule zend_llist_remove_tail_repr)

theorem llist_remove_tail_dangles_witness:
  "\<exists>l' p. zend_llist_remove_tail sample_llist = Some (l', Some p) \<and> llist_holds l' [30, 10] \<and>
     l_destroyed l' = [20] \<and> p \<notin> dom (l_cells l')"
  using llist_remove_tail_dangles [OF sample_llist_holds] by (simp add: sample_llist_def)

end
