(* ===== verification/Zend_Hash_Order.thy ===== *)
theory Zend_Hash_Order
  imports Zend_Hash_Iter Zend_Llist
begin

text \<open>
  Operations of \<^verbatim>\<open>zend_hash.c\<close> that change or use the order of a table: sorting (with the sorting routine
  and the comparison as arguments), renumbering, splicing, comparing two tables and
  finding the smallest or largest element.
\<close>

section \<open>The operations\<close>

text \<open>
  Sorting collects the buckets in an array, sorts the array and links the buckets anew in
  the order of the array. The array has room for \<open>nNumOfElements\<close> addresses.
\<close>

fun relink_loop :: "ptr list \<Rightarrow> nat \<Rightarrow> nat \<Rightarrow> 'v HashTable \<Rightarrow> 'v HashTable option" where
  "relink_loop arTmp j 0 ht = Some ht"
| "relink_loop arTmp j (Suc n) ht =
     do { ht \<leftarrow> hpoke (arTmp ! j) (\<lambda>b. b\<lparr>pListLast := Some (arTmp ! (j - 1))\<rparr>) ht;
          ht \<leftarrow> hpoke (arTmp ! j) (\<lambda>b. b\<lparr>pListNext := Some (arTmp ! (j + 1))\<rparr>) ht;
          relink_loop arTmp (j + 1) n ht }"

definition hash_relink :: "ptr list \<Rightarrow> 'v HashTable \<Rightarrow> 'v HashTable option" where
  "hash_relink arTmp ht =
     (let i = length arTmp in
      if i = 0 then None
      else do { let ht = ht\<lparr>pListHead := Some (arTmp ! 0), pListTail := None\<rparr>;
                let ht = ht\<lparr>pInternalPointer := pListHead ht\<rparr>;
                ht \<leftarrow> hpoke (arTmp ! 0) (\<lambda>b. b\<lparr>pListLast := None\<rparr>) ht;
                ht \<leftarrow> (if i > 1
                      then do { ht \<leftarrow> hpoke (arTmp ! 0) (\<lambda>b. b\<lparr>pListNext := Some (arTmp ! 1)\<rparr>) ht;
                                ht \<leftarrow> relink_loop arTmp 1 (i - 2) ht;
                                ht \<leftarrow> hpoke (arTmp ! (i - 1)) (\<lambda>b. b\<lparr>pListLast := Some (arTmp ! (i - 2))\<rparr>) ht;
                                hpoke (arTmp ! (i - 1)) (\<lambda>b. b\<lparr>pListNext := None\<rparr>) ht }
                      else hpoke (arTmp ! 0) (\<lambda>b. b\<lparr>pListNext := None\<rparr>) ht);
                Some (ht\<lparr>pListTail := Some (arTmp ! (i - 1))\<rparr>) })"

definition zend_hash_sort ::
  "'v HashTable \<Rightarrow> ((ptr \<Rightarrow> ptr \<Rightarrow> int) \<Rightarrow> ptr list \<Rightarrow> ptr list option) \<Rightarrow> ('v bucket \<Rightarrow> 'v bucket \<Rightarrow> int) \<Rightarrow> bool \<Rightarrow>
   (zresult \<times> 'v HashTable) option" where
  "zend_hash_sort ht sort_func compar renumber =
     (if \<not> (nNumOfElements ht > 1) \<and> \<not> (renumber \<and> nNumOfElements ht > 0) then Some (SUCCESS, ht)
      else do { arTmp \<leftarrow> walk (\<lambda>_ p. fld pListNext (cells ht) p) (\<lambda>p arTmp. Some (arTmp @ [p], False)) (pListHead ht) [];
                if length arTmp > unat (nNumOfElements ht) then None
                else do { arTmp \<leftarrow> sort_func (cell_compare compar (cells ht)) arTmp;
                          ht \<leftarrow> hash_relink arTmp ht;
                          ht \<leftarrow> (if renumber then zend_hash_reindex ht False else Some ht);
                          Some (SUCCESS, ht) } })"

definition zend_hash_minmax ::
  "'v HashTable \<Rightarrow> ('v bucket \<Rightarrow> 'v bucket \<Rightarrow> int) \<Rightarrow> bool \<Rightarrow> (zresult \<times> 'v option) option" where
  "zend_hash_minmax ht compar flag =
     (if nNumOfElements ht = 0 then Some (FAILURE, None)
      else do { p \<leftarrow> pListHead ht;
                res \<leftarrow> cells ht p;
                res \<leftarrow> walk (\<lambda>_ p. fld pListNext (cells ht) p)
                  (\<lambda>p res. do { b \<leftarrow> cells ht p;
                                Some (if flag then (if compar res b < 0 then b else res)
                                      else (if compar res b > 0 then b else res), False) })
                  (pListNext res) res;
                Some (SUCCESS, Some (zval_of (pData res))) })"

text \<open>Comparing: the result of the subtraction of two counts is an \<open>int\<close>, as is the result of the
  comparison of two keys of the same length.\<close>

definition memcmp :: "nat \<Rightarrow> key_ptr \<Rightarrow> key_ptr \<Rightarrow> int" where
  "memcmp n a b =
     (let d = dropWhile (\<lambda>(x, y). x = y) (zip (take n (chars a)) (take n (chars b)))
      in case d of [] \<Rightarrow> 0 | (x, y) # _ \<Rightarrow> uint x - uint y)"

definition compare_keys :: "'v bucket \<Rightarrow> 'v bucket \<Rightarrow> int" where
  "compare_keys p1 p2 =
     (if nKeyLength p1 = 0 \<and> nKeyLength p2 = 0
      then (if bkt_h p1 \<noteq> bkt_h p2 then (if bkt_h p1 > bkt_h p2 then 1 else - 1) else 0)
      else if nKeyLength p1 \<noteq> nKeyLength p2 then int (nKeyLength p1) - int (nKeyLength p2)
      else memcmp (nKeyLength p1) (arKey p1) (arKey p2))"

definition compare_body ::
  "'v HashTable \<Rightarrow> 'v HashTable \<Rightarrow> ('v \<Rightarrow> 'v \<Rightarrow> int) \<Rightarrow> bool \<Rightarrow> ptr \<Rightarrow> ptr option \<times> int \<Rightarrow> ((ptr option \<times> int) \<times> bool) option" where
  "compare_body ht1 ht2 compar ordered p1 = (\<lambda>(p2, _).
     do { b1 \<leftarrow> cells ht1 p1;
          (r, pData2, p2) \<leftarrow>
            (if ordered
             then (case p2 of
                     None \<Rightarrow> Some (1, None, None)
                   | Some p2 \<Rightarrow> do { b2 \<leftarrow> cells ht2 p2;
                                     Some (compare_keys b1 b2, Some (zval_of (pData b2)), pListNext b2) })
             else do { (r, q) \<leftarrow> (if nKeyLength b1 = 0 then zend_hash_index_find ht2 (bkt_h b1)
                                 else zend_hash_quick_find ht2 (arKey b1) (nKeyLength b1) (bkt_h b1));
                       case (r, q) of
                         (SUCCESS, Some q) \<Rightarrow> map_option (\<lambda>b2. (0, Some (zval_of (pData b2)), p2)) (cells ht2 q)
                       | (SUCCESS, None) \<Rightarrow> None
                       | (FAILURE, _) \<Rightarrow> Some (1, None, p2) });
          if r \<noteq> 0 then Some ((p2, r), True)
          else do { d2 \<leftarrow> pData2;
                    let r = compar (zval_of (pData b1)) d2;
                    Some ((p2, r), r \<noteq> 0) } })"

text \<open>The two tables are different ones, and so have a nesting counter each; every way out of the loop takes both
  counters down again.\<close>

definition zend_hash_compare ::
  "'v HashTable \<Rightarrow> 'v HashTable \<Rightarrow> ('v \<Rightarrow> 'v \<Rightarrow> int) \<Rightarrow> bool \<Rightarrow> (unit + int \<times> 'v HashTable \<times> 'v HashTable) option" where
  "zend_hash_compare ht1 ht2 compar ordered =
     (case (HASH_PROTECT_RECURSION ht1, HASH_PROTECT_RECURSION ht2) of
        (Inr ht1, Inr ht2) \<Rightarrow>
          do { let result = sint (nNumOfElements ht1 - nNumOfElements ht2);
               (p2, result) \<leftarrow>
                 (if result \<noteq> 0 then Some (None, result)
                  else walk (\<lambda>_ p. fld pListNext (cells ht1) p) (compare_body ht1 ht2 compar ordered)
                         (pListHead ht1) (if ordered then pListHead ht2 else None, 0));
               Some (Inr (result, HASH_UNPROTECT_RECURSION ht1, HASH_UNPROTECT_RECURSION ht2)) }
      | _ \<Rightarrow> Some (Inl ()))"

section \<open>Linking the buckets anew\<close>

definition relinked :: "ptr list \<Rightarrow> nat \<Rightarrow> (ptr \<rightharpoonup> 'v bucket) \<Rightarrow> (ptr \<rightharpoonup> 'v bucket)" where
  "relinked xs j c p =
     (if p \<in> set (take j xs) then map_option (\<lambda>b. b\<lparr>pListLast := prv_of xs p, pListNext := nxt_of xs p\<rparr>) (c p) else c p)"

lemma nxt_of_nth:
  assumes "distinct xs" "j < length xs"
  shows "nxt_of xs (xs ! j) = (if Suc j < length xs then Some (xs ! Suc j) else None)"
  using nxt_of_split [of "take j xs" "xs ! j" "drop (Suc j) xs"] assms
  by (simp add: id_take_nth_drop [symmetric] first_of_def Cons_nth_drop_Suc [symmetric])

lemma prv_of_nth:
  assumes "distinct xs" "j < length xs"
  shows "prv_of xs (xs ! j) = (if j = 0 then None else Some (xs ! (j - 1)))"
proof -
  have "prv_of xs (xs ! j) = last_of (take j xs)"
    using prv_of_split [of "take j xs" "xs ! j" "drop (Suc j) xs"] assms by (simp add: id_take_nth_drop [symmetric])
  also have "\<dots> = (if j = 0 then None else Some (xs ! (j - 1)))"
    using assms(2) by (cases j) (auto simp: last_of_def take_Suc_conv_app_nth)
  finally show ?thesis .
qed

lemma relinked_Suc:
  assumes "distinct xs" "j < length xs" "c (xs ! j) = Some b"
  shows "(relinked xs j c)(xs ! j \<mapsto> b\<lparr>pListLast := prv_of xs (xs ! j), pListNext := nxt_of xs (xs ! j)\<rparr>) = relinked xs (Suc j) c"
  using assms by (auto simp: relinked_def take_Suc_conv_app_nth fun_eq_iff)

lemma relinked_nth:
  assumes "distinct xs" "j < length xs"
  shows "relinked xs j c (xs ! j) = c (xs ! j)"
proof -
  have "xs ! j \<notin> set (take j xs)"
    using assms by (auto simp: in_set_conv_nth nth_eq_iff_index_eq)
  then show ?thesis by (simp add: relinked_def)
qed

lemma relink_loop_ok:
  assumes "distinct xs" "set xs \<subseteq> dom c" "1 \<le> j" "j + n + 1 = length xs" "cells ht = relinked xs j c"
  shows "relink_loop xs j n ht = Some (ht\<lparr>cells := relinked xs (j + n) c\<rparr>)"
  using assms(3-)
proof (induction n arbitrary: j ht)
  case (Suc n)
  then have j: "j < length xs" "Suc j < length xs" by simp_all
  then obtain b where b: "c (xs ! j) = Some b" using assms(2) by (meson domD nth_mem subsetD)
  have cb: "cells ht (xs ! j) = Some b" using Suc.prems(3) relinked_nth [OF assms(1) j(1), of c] b by simp
  have nx: "nxt_of xs (xs ! j) = Some (xs ! Suc j)" "prv_of xs (xs ! j) = Some (xs ! (j - 1))"
    using nxt_of_nth [OF assms(1) j(1)] prv_of_nth [OF assms(1) j(1)] j Suc.prems(1) by simp_all
  have "relink_loop xs j (Suc n) ht = relink_loop xs (Suc j) n (ht\<lparr>cells := relinked xs (Suc j) c\<rparr>)"
    using cb relinked_Suc [OF assms(1) j(1), of c b] b nx Suc.prems(3) by (simp add: modify_Some fun_upd_upd)
  also have "\<dots> = Some ((ht\<lparr>cells := relinked xs (Suc j) c\<rparr>)\<lparr>cells := relinked xs (Suc j + n) c\<rparr>)"
    by (rule Suc.IH) (use Suc.prems in simp_all)
  finally show ?case by simp
qed simp

lemma hash_relink_ok:
  assumes d: "distinct xs" "xs \<noteq> []" "set xs \<subseteq> dom (cells ht)"
  shows "hash_relink xs ht = Some (ht\<lparr>pListHead := first_of xs, pInternalPointer := first_of xs,
      cells := relinked xs (length xs) (cells ht), pListTail := last_of xs\<rparr>)"
proof -
  let ?c = "cells ht" and ?n = "length xs"
  let ?h = "ht\<lparr>pListHead := first_of xs, pListTail := None, pInternalPointer := first_of xs\<rparr>"
  have f: "first_of xs = Some (xs ! 0)" "last_of xs = Some (xs ! (?n - 1))" using d(2)
    by (cases xs; simp) (simp add: last_of_def last_conv_nth d(2))
  obtain b where b: "?c (xs ! 0) = Some b" using d by (meson domD length_greater_0_conv nth_mem subsetD)
  have r0: "relinked xs 0 ?c = ?c" by (auto simp: relinked_def)
  have r1: "?c(xs ! 0 \<mapsto> b\<lparr>pListLast := None, pListNext := nxt_of xs (xs ! 0)\<rparr>) = relinked xs 1 ?c"
    using relinked_Suc [OF d(1), of 0 ?c b] b d(2) prv_of_nth [OF d(1), of 0] by (simp add: r0)
  show ?thesis
  proof (cases "?n = 1")
    case True
    then have "nxt_of xs (xs ! 0) = None" using nxt_of_nth [OF d(1), of 0] by simp
    with True b r1 f show ?thesis by (simp add: hash_relink_def Let_def modify_Some fun_upd_upd)
  next
    case False
    then have n: "1 < ?n" using d(2) by (cases xs) auto
    define k where "k = ?n - 1"
    have k: "k < ?n" "1 \<le> k" "?n = Suc k" "?n - 2 = k - 1" using n by (auto simp: k_def)
    obtain e where e: "?c (xs ! k) = Some e" using d(3) k(1) by (meson domD nth_mem subsetD)
    have l: "relink_loop xs 1 (k - 1) (?h\<lparr>cells := relinked xs 1 ?c\<rparr>) = Some (?h\<lparr>cells := relinked xs k ?c\<rparr>)"
      using relink_loop_ok [OF d(1,3), of 1 "k - 1" "?h\<lparr>cells := relinked xs 1 ?c\<rparr>"] k by simp
    have nx: "nxt_of xs (xs ! 0) = Some (xs ! 1)" "nxt_of xs (xs ! k) = None" "prv_of xs (xs ! k) = Some (xs ! (k - 1))"
      using nxt_of_nth [OF d(1), of 0] nxt_of_nth [OF d(1) k(1)] prv_of_nth [OF d(1) k(1)] n k by simp_all
    show ?thesis
      using n k(3) b f l r1 nx(1) relinked_nth [OF d(1) k(1), of ?c] e relinked_Suc [OF d(1) k(1), of ?c e] nx(2,3)
      by (simp add: hash_relink_def Let_def modify_Some fun_upd_upd)
  qed
qed

lemma relinked_links:
  assumes "distinct xs" "set xs \<subseteq> dom c"
  shows "linked (fld pListNext (relinked xs (length xs) c)) (fld pListLast (relinked xs (length xs) c)) xs"
    and "same_chain c (relinked xs (length xs) c)"
proof -
  show "linked (fld pListNext (relinked xs (length xs) c)) (fld pListLast (relinked xs (length xs) c)) xs"
    unfolding linked_def using assms by (auto simp: fld_def relinked_def option.map_comp comp_def)
  show "same_chain c (relinked xs (length xs) c)"
    by (auto simp: same_chain_def same_info_def fld_def relinked_def comp_def binfo_def [abs_def] fun_eq_iff option.map_comp)
qed


section \<open>Sorting\<close>

definition entries_at :: "'v HashTable \<Rightarrow> ptr list \<Rightarrow> (hkey \<times> 'v) list" where
  "entries_at ht L = map (\<lambda>p. the (fld bentry (cells ht) p)) L"

lemma entries_at_stored: "stored ht L kvs \<Longrightarrow> entries_at ht L = kvs"
  using arg_cong [OF storedD(5), of ht L kvs "map the"] by (simp add: entries_at_def comp_def)

lemma blocks_mset: "mset L' = mset L \<Longrightarrow> blocks c L' = blocks c L"
  by (simp add: blocks_def) (metis mset_filter size_mset)

lemma reorder_stored:
  assumes st: "stored ht L kvs" and m: "mset L' = mset L" and ne: "L \<noteq> []"
  obtains ht' where "hash_relink L' ht = Some ht'" "stored ht' L' (entries_at ht L')"
    and "mset (entries_at ht L') = mset kvs" "pInternalPointer ht' = first_of L'"
    and "settings ht' = settings ht" "destroyed ht' = destroyed ht" "nNextFreeElement ht' = nNextFreeElement ht"
    and "nTableMask ht' = nTableMask ht"
proof -
  note w = wf_listD [OF storedD(1) [OF st]]
  have s: "set L' = set L" "distinct L'" "L' \<noteq> []" "length L' = length L"
    using mset_eq_setD [OF m] mset_eq_imp_distinct_iff [OF m] mset_eq_length [OF m] w(7) ne by auto
  let ?c = "relinked L' (length L') (cells ht)"
  let ?h = "ht\<lparr>pListHead := first_of L', pInternalPointer := first_of L', cells := ?c, pListTail := last_of L'\<rparr>"
  have sub: "set L' \<subseteq> dom (cells ht)" using s(1) w(2) by simp
  have r: "hash_relink L' ht = Some ?h" by (rule hash_relink_ok [OF s(2,3) sub])
  note li = relinked_links [OF s(2) sub] note i = same_chain_info [OF li(2)]
  have me: "mset (entries_at ht L') = mset kvs"
    using entries_at_stored [OF st] m unfolding entries_at_def by (metis mset_map)
  have "set_option (first_of L') \<subseteq> set L'" by auto
  then have wf: "wf_list ?h L'"
    using w li(1) s same_infoD(5) [OF i] blocks_same [OF i, of L'] blocks_mset [OF m, of "cells ht"]
    by (simp add: wf_list_def glist_def)
  have e: "map (fld bentry ?c) L' = map Some (entries_at ht L')"
    unfolding same_infoD(3) [OF i] entries_at_def using sub by (auto simp: fld_def)
  have "stored ?h L' (entries_at ht L')"
    unfolding stored_def
    using wf storedD(2) [OF st] chains_same_chain [OF storedD(3) [OF st] li(2)] s(1)
      same_info_ok [OF i storedD(4) [OF st]] e mset_eq_imp_distinct_iff [of "map fst (entries_at ht L')" "map fst kvs"] me
      storedD(6) [OF st] by (auto simp: sized_def relinked_def fun_eq_iff split: if_splits)
  then show thesis using that r me by (simp add: settings_def)
qed


lemma num_elements: "wf_list ht L \<Longrightarrow> unat (nNumOfElements ht) = length L"
  using wf_listD(3,4) [of ht L] by (simp add: unat_of_nat)

lemma collect_buckets:
  assumes "glist ht L"
  shows "walk (\<lambda>_ p. fld pListNext (cells ht) p) (\<lambda>p arTmp. Some (arTmp @ [p], False)) (pListHead ht) [] = Some L"
proof -
  have l: "linked (fld pListNext (cells ht)) (fld pListLast (cells ht)) L" "pListHead ht = first_of L"
    using assms by (simp_all add: glist_def)
  have "walk (\<lambda>_ p. fld pListNext (cells ht) p) (\<lambda>p arTmp. Some (arTmp @ [p], False)) (first_of L) [] =
      Some (fold (\<lambda>p es. es @ [p]) L [])"
  proof (rule walk_fold [where J = "\<lambda>rest _. \<exists>pre. L = pre @ rest"])
    fix a rest s assume "\<exists>pre. L = pre @ a # rest"
    then show "fld pListNext (cells ht) a = Some (first_of rest) \<and> Some (s @ [a], False) = Some (s @ [a], False) \<and>
        (\<exists>pre. L = pre @ rest)"
      using l(1) linked_split(1) by (metis append.assoc append_Cons append_Nil)
  qed simp
  moreover have "fold (\<lambda>p es. es @ [p]) L ys = ys @ L" for ys by (induction L arbitrary: ys) auto
  ultimately show ?thesis using l(2) by simp
qed

section \<open>Renumbering\<close>

fun is_int :: "hkey \<Rightarrow> bool" where
  "is_int (IntKey _) = True"
| "is_int (StrKey _) = False"

fun renum :: "nat \<Rightarrow> (hkey \<times> 'v) list \<Rightarrow> (hkey \<times> 'v) list" where
  "renum n [] = []"
| "renum n ((k, v) # kvs) = (if is_int k then (IntKey (of_nat n), v) # renum (Suc n) kvs else (k, v) # renum n kvs)"

definition ints :: "(hkey \<times> 'v) list \<Rightarrow> nat" where
  "ints kvs = length (filter (is_int \<circ> fst) kvs)"

lemma ints_simps [simp]:
  "ints [] = 0" "ints ((k, v) # kvs) = (if is_int k then Suc (ints kvs) else ints kvs)" "ints (xs @ ys) = ints xs + ints ys"
  by (simp_all add: ints_def)

lemma ints_le: "ints kvs \<le> length kvs"
  by (simp add: ints_def)

lemma renum_append: "renum n (xs @ ys) = renum n xs @ renum (n + ints xs) ys"
  by (induction n xs rule: renum.induct) auto

lemma length_renum [simp]: "length (renum n kvs) = length kvs"
  by (induction n kvs rule: renum.induct) auto

lemma map_snd_renum [simp]: "map snd (renum n kvs) = map snd kvs"
  by (induction n kvs rule: renum.induct) auto

lemma renum_keys:
  "filter (\<lambda>k. \<not> is_int k) (map fst (renum n kvs)) = filter (\<lambda>k. \<not> is_int k) (map fst kvs)"
  "filter is_int (map fst (renum n kvs)) = map (\<lambda>i. IntKey (of_nat i)) [n..<n + ints kvs]"
  by (induction n kvs rule: renum.induct) (auto simp: upt_conv_Cons simp del: upt_Suc)

lemma of_nat_ulong_inj: "inj_on (\<lambda>i. IntKey (of_nat i)) {n..<2 ^ 32}"
proof (rule inj_onI)
  fix i j assume ij: "i \<in> {n..<2 ^ 32}" "j \<in> {n..<2 ^ 32}" "IntKey (of_nat i) = IntKey (of_nat j)"
  then have "unat (of_nat i :: ulong) = unat (of_nat j :: ulong)" by simp
  with ij(1,2) show "i = j" by (simp add: unat_of_nat)
qed

lemma distinct_partition: "distinct (filter P xs) \<Longrightarrow> distinct (filter (\<lambda>x. \<not> P x) xs) \<Longrightarrow> distinct xs"
  by (induction xs) (auto split: if_splits)

lemma renum_distinct:
  assumes "distinct (filter (\<lambda>k. \<not> is_int k) (map fst kvs))" "length kvs < 2 ^ 32"
  shows "distinct (map fst (renum 0 kvs))"
proof (rule distinct_partition [where P = is_int])
  have "inj_on (\<lambda>i. IntKey (of_nat i)) (set [0..<ints kvs])"
    by (rule inj_on_subset [OF of_nat_ulong_inj [of 0]]) (use ints_le [of kvs] assms(2) in auto)
  then show "distinct (filter is_int (map fst (renum 0 kvs)))"
    unfolding renum_keys by (simp add: distinct_map)
  show "distinct (filter (\<lambda>x. \<not> is_int x) (map fst (renum 0 kvs)))" using assms(1) by (simp only: renum_keys)
qed

lemma sint_of_nat_small: "n < 2 ^ 63 \<Longrightarrow> sint (of_nat n :: ulong) = int n"
  by (simp add: signed_of_nat signed_take_bit_int_eq_self)

lemma renum_next_free:
  assumes "length kvs < 2 ^ 32"
  shows "next_free_ok (of_nat (ints kvs)) (renum 0 kvs)"
  unfolding next_free_ok_def
proof (intro conjI allI impI disjI1)
  have i: "ints kvs < 2 ^ 32" using ints_le [of kvs] assms by simp
  then show "0 \<le>s (of_nat (ints kvs) :: ulong)" by (simp add: word_sle_eq sint_of_nat_small)
  fix k assume "IntKey k \<in> fst ` set (renum 0 kvs)"
  then have "IntKey k \<in> set (filter is_int (map fst (renum 0 kvs)))" by simp
  then obtain j where "j < ints kvs" "k = of_nat j" unfolding renum_keys by auto
  then show "k <s of_nat (ints kvs)" using i by (simp add: word_sless_alt sint_of_nat_small)
qed


text \<open>One step of the renumbering loop, on a bucket that is in no chain yet.\<close>

lemma reindex_step:
  fixes b :: "'v bucket"
  assumes ch: "slot_chains (nTableMask ht) (arBuckets ht) (cells ht) (set zs)" and b: "cells ht a = Some b" and a: "a \<notin> set zs"
    and ok: "\<forall>p b. cells ht p = Some b \<longrightarrow> bucket_ok p b" and only: "only \<or> is_int (bkey b)"
  obtains c' ar' where
    "reindex_body only a (ht, offset) = Some ((ht\<lparr>cells := c', arBuckets := ar'\<rparr>, if is_int (bkey b) then offset + 1 else offset), pListNext b)"
    and "slot_chains (nTableMask ht) ar' c' (insert a (set zs))" "\<forall>p b. c' p = Some b \<longrightarrow> bucket_ok p b"
    and "fld bentry c' = (fld bentry (cells ht))(a \<mapsto> (if is_int (bkey b) then IntKey offset else bkey b, zval_of (pData b)))"
    and "fld pListNext c' = fld pListNext (cells ht)" "fld pListLast c' = fld pListLast (cells ht)"
    and "fld pData c' = fld pData (cells ht)" "dom c' = dom (cells ht)"
proof -
  have isn: "is_int (bkey b) \<longleftrightarrow> nKeyLength b = 0" by (simp add: bkey_def)
  define b1 where "b1 = (if is_int (bkey b) then b\<lparr>bkt_h := offset, nKeyLength := 0\<rparr> else b)"
  let ?c = "(cells ht)(a \<mapsto> b1)" let ?h = "ht\<lparr>cells := ?c\<rparr>"
  have e: "bentry b1 = (if is_int (bkey b) then IntKey offset else bkey b, zval_of (pData b))" "pListNext b1 = pListNext b"
    "pListLast b1 = pListLast b" "pData b1 = pData b"
    by (simp_all add: b1_def bentry_def bkey_def)
  have sel: "(fld sel (cells ht))(a \<mapsto> sel b) = fld sel (cells ht)" for sel :: "'v bucket \<Rightarrow> 'w"
    using b by (auto simp: fun_eq_iff)
  have ch1: "slot_chains (nTableMask ?h) (arBuckets ?h) (cells ?h) (set zs)"
    using a by (auto intro: chains_cong [OF ch])
  have ok1: "\<forall>p b. ?c p = Some b \<longrightarrow> bucket_ok p b"
    using ok b by (auto simp: b1_def bucket_ok_def isn split: if_splits)
  obtain c' ar' where r: "rehash_bucket a ?h = Some (?h\<lparr>cells := c', arBuckets := ar'\<rparr>)"
      "slot_chains (nTableMask ?h) ar' c' (insert a (set zs))" "same_list (cells ?h) c'"
    by (rule rehash_bucket_ok [OF ch1 _ a]) simp_all
  have sl: "fld pListNext c' = fld pListNext ?c" "fld pListLast c' = fld pListLast ?c" using r(3) by (simp_all add: same_list_def)
  note i = same_infoD [OF same_list_info [OF r(3)], simplified]
  obtain b2 where b2: "c' a = Some b2" using i(5) by auto
  have "pListNext b2 = pListNext b"
    using sl(1) fld_Some [of c' a b2 pListNext, OF b2] e(2) by (simp add: fun_eq_iff)
  moreover have st: "(if \<not> only \<or> nKeyLength b = 0
             then do { ht \<leftarrow> hpoke a (\<lambda>b. b\<lparr>bkt_h := offset, nKeyLength := 0\<rparr>) ht; Some (ht, offset + 1) }
             else Some (ht, offset)) = Some (?h, if is_int (bkey b) then offset + 1 else offset)"
    using b only isn by (auto simp: b1_def fun_upd_idem)
  ultimately show thesis
    using that [of ar' c'] b r(1,2) b2 sl i(3,5,8) e sel [of pListNext] sel [of pListLast] sel [of pData]
      same_info_ok [OF same_list_info [OF r(3)]] ok1 by (simp add: reindex_body_def insert_absorb domI)
qed



lemma reindex_loop_ok:
  fixes kvs :: "(hkey \<times> 'v) list"
  assumes li: "linked (fld pListNext (cells ht)) (fld pListLast (cells ht)) L" and Ld: "set L = dom (cells ht)"
    and ch: "slot_chains (nTableMask ht) (arBuckets ht) (cells ht) {}"
    and ok: "\<forall>p b. cells ht p = Some b \<longrightarrow> bucket_ok p b" and e: "map (fld bentry (cells ht)) L = map Some kvs"
    and only: "only \<or> (\<forall>k\<in>fst ` set kvs. is_int k)"
  obtains c' ar' where
    "iterate (reindex_body only) (first_of L) (ht, 0) = Some (ht\<lparr>cells := c', arBuckets := ar'\<rparr>, of_nat (ints kvs))"
    "slot_chains (nTableMask ht) ar' c' (set L)" "\<forall>p b. c' p = Some b \<longrightarrow> bucket_ok p b"
    "map (fld bentry c') L = map Some (renum 0 kvs)" "fld pListNext c' = fld pListNext (cells ht)"
    "fld pListLast c' = fld pListLast (cells ht)" "fld pData c' = fld pData (cells ht)" "dom c' = dom (cells ht)"
proof -
  define I where "I xs s \<longleftrightarrow> (\<exists>zs kzs kxs c ar. L = zs @ xs \<and> kvs = kzs @ kxs \<and>
      s = (ht\<lparr>cells := c, arBuckets := ar\<rparr>, of_nat (ints kzs)) \<and> slot_chains (nTableMask ht) ar c (set zs) \<and>
      (\<forall>p b. c p = Some b \<longrightarrow> bucket_ok p b) \<and> map (fld bentry c) zs = map Some (renum 0 kzs) \<and>
      map (fld bentry c) xs = map Some kxs \<and> fld pListNext c = fld pListNext (cells ht) \<and>
      fld pListLast c = fld pListLast (cells ht) \<and> fld pData c = fld pData (cells ht) \<and> dom c = dom (cells ht))"
    for xs and s :: "'v HashTable \<times> ulong"
  have "\<exists>s'. iterate (reindex_body only) (first_of L) (ht, 0) = Some s' \<and> I [] s'"
  proof (rule iterate_rule [where I = I])
    show "I L (ht, 0)" unfolding I_def
      by (rule exI [of _ "[]"], rule exI [of _ "[]"], rule exI [of _ kvs], rule exI [of _ "cells ht"], rule exI [of _ "arBuckets ht"])
        (use ch ok e in simp)
    fix a xs and s :: "'v HashTable \<times> ulong" assume "I (a # xs) s"
    then obtain zs kzs kxs' c ar where z: "L = zs @ a # xs" "kvs = kzs @ kxs'"
        "s = (ht\<lparr>cells := c, arBuckets := ar\<rparr>, of_nat (ints kzs))" "slot_chains (nTableMask ht) ar c (set zs)"
        "\<forall>p b. c p = Some b \<longrightarrow> bucket_ok p b" "map (fld bentry c) zs = map Some (renum 0 kzs)"
        "map (fld bentry c) (a # xs) = map Some kxs'" "fld pListNext c = fld pListNext (cells ht)"
        "fld pListLast c = fld pListLast (cells ht)" "fld pData c = fld pData (cells ht)" "dom c = dom (cells ht)"
      unfolding I_def by blast
    then obtain k v kxs where kx: "kxs' = (k, v) # kxs" by (cases kxs') auto
    have nin: "a \<notin> set zs" "a \<notin> set xs" using linked_distinct [OF li] z(1) by simp_all
    have "a \<in> dom c" unfolding z(11) Ld [symmetric] using z(1) by simp
    then obtain b where b: "c a = Some b" by blast
    have kb: "bkey b = k" "zval_of (pData b) = v" using z(7) b kx by (auto simp: bentry_def)
    let ?s = "ht\<lparr>cells := c, arBuckets := ar\<rparr>"
    obtain c' ar' where st: "reindex_body only a (?s, of_nat (ints kzs)) = Some ((?s\<lparr>cells := c', arBuckets := ar'\<rparr>,
          if is_int (bkey b) then of_nat (ints kzs) + 1 else of_nat (ints kzs)), pListNext b)"
        "slot_chains (nTableMask ?s) ar' c' (insert a (set zs))" "\<forall>p b. c' p = Some b \<longrightarrow> bucket_ok p b"
        "fld bentry c' = (fld bentry (cells ?s))(a \<mapsto> (if is_int (bkey b) then IntKey (of_nat (ints kzs)) else bkey b, zval_of (pData b)))"
        "fld pListNext c' = fld pListNext (cells ?s)" "fld pListLast c' = fld pListLast (cells ?s)"
        "fld pData c' = fld pData (cells ?s)" "dom c' = dom (cells ?s)"
      by (rule reindex_step [of ?s zs a b only "of_nat (ints kzs)"]) (use z b nin only kx kb in auto)
    have "pListNext b = first_of xs"
      using linked_split(1) [of _ _ zs a xs] li z(1,8) fld_Some [of c a b pListNext, OF b] by force
    moreover have "I xs (?s\<lparr>cells := c', arBuckets := ar'\<rparr>, of_nat (ints (kzs @ [(k, v)])))"
      unfolding I_def
      by (rule exI [of _ "zs @ [a]"], rule exI [of _ "kzs @ [(k, v)]"], rule exI [of _ kxs], rule exI [of _ c'], rule exI [of _ ar'])
        (use z kx st(2-) kb nin in \<open>simp add: renum_append\<close>)
    ultimately show "\<exists>s' n. reindex_body only a s = Some (s', n) \<and> (n = None \<and> I [] s' \<or> n = first_of xs \<and> I xs s')"
      using st(1) kb z(3) by (auto simp: add.commute)
  qed simp
  then show thesis using that unfolding I_def by auto
qed

lemma reindex_ok:
  fixes kvs :: "(hkey \<times> 'v) list"
  assumes wf: "wf_list ht L" and sz: "sized ht" "nTableMask ht \<noteq> 0" "length (arBuckets ht) = unat (nTableSize ht)"
    and ok: "\<forall>p b. cells ht p = Some b \<longrightarrow> bucket_ok p b" and e: "map (fld bentry (cells ht)) L = map Some kvs"
    and d: "distinct (filter (\<lambda>k. \<not> is_int k) (map fst kvs))" and only: "only \<or> (\<forall>k\<in>fst ` set kvs. is_int k)"
    and nil: "L = [] \<Longrightarrow> slot_chains (nTableMask ht) (arBuckets ht) (cells ht) {}"
  obtains ht' where "zend_hash_reindex ht only = Some ht'" "table ht' L (renum 0 kvs)"
    and "settings ht' = settings ht" "destroyed ht' = destroyed ht" "pInternalPointer ht' = pInternalPointer ht"
    and "nNextFreeElement ht' = of_nat (ints kvs)"
proof -
  note w = wf_listD [OF wf]
  have len: "length kvs = length L" using e by (metis length_map)
  have n: "nNumOfElements ht = 0 \<longleftrightarrow> L = []" using w(3,4) by (auto simp: unat_eq_0 [symmetric] unat_of_nat)
  have dk: "distinct (map fst (renum 0 kvs))" using renum_distinct [OF d] len w(4) by simp
  have nf: "next_free_ok (of_nat (ints kvs)) (renum 0 kvs)" using renum_next_free len w(4) by metis
  show thesis
  proof (cases "L = []")
    case True
    let ?h = "ht\<lparr>nNextFreeElement := 0\<rparr>"
    have "stored ?h L (renum 0 kvs)"
      unfolding stored_def
    proof (intro conjI)
      show "wf_list ?h L" by (rule wf_list_cong [OF wf]) simp_all
    qed (use True len sz(1) nil ok in \<open>auto simp: sized_def\<close>)
    then show thesis using that [of ?h] True len n nf by (simp add: table_def zend_hash_reindex_def settings_def)
  next
    case False
    let ?h = "ht\<lparr>arBuckets := replicate (unat (nTableSize ht)) (Some None)\<rparr>"
    have c: "clear_slots ht = Some ?h" using sz(3) by (simp add: clear_slots_def)
    have mk: "nTableMask ht = nTableSize ht - 1" using sz(1,2) by (simp add: sized_def)
    have ch0: "slot_chains (nTableMask ht) (arBuckets ?h) (cells ht) {}"
      using chains_Nil [of "nTableMask ht" "cells ht"] mk sizedD(2) [OF sz(1)] by simp
    have li: "linked (fld pListNext (cells ht)) (fld pListLast (cells ht)) L" "pListHead ht = first_of L"
      using w(1) by (simp_all add: glist_def)
    obtain c' ar' where r: "iterate (reindex_body only) (first_of L) (?h, 0) = Some (?h\<lparr>cells := c', arBuckets := ar'\<rparr>, of_nat (ints kvs))"
        "slot_chains (nTableMask ?h) ar' c' (set L)" "\<forall>p b. c' p = Some b \<longrightarrow> bucket_ok p b"
        "map (fld bentry c') L = map Some (renum 0 kvs)" "fld pListNext c' = fld pListNext (cells ?h)"
        "fld pListLast c' = fld pListLast (cells ?h)" "fld pData c' = fld pData (cells ?h)" "dom c' = dom (cells ?h)"
      by (rule reindex_loop_ok [of ?h L kvs only]) (use li(1) w(2) ch0 ok e only in simp_all)
    have bl: "blocks c' L = blocks (cells ht) L"
      using fld_via [of pData c' "cells ht" "\<lambda>b. out_of_line (pData b)" out_of_line] r(7) by (simp add: blocks_def)
    let ?h' = "ht\<lparr>cells := c', arBuckets := ar', nNextFreeElement := of_nat (ints kvs)\<rparr>"
    have "wf_list ?h' L" using w r bl by (simp add: wf_list_def glist_def)
    then have "stored ?h' L (renum 0 kvs)" unfolding stored_def using sz(1,2) r dk by (simp add: sized_def)
    moreover have "zend_hash_reindex ht only = Some ?h'"
      using n False c r(1) li(2) by (simp add: zend_hash_reindex_def)
    ultimately show thesis using that [of ?h'] nf by (simp add: table_def settings_def)
  qed
qed


section \<open>Sorting with a sorting routine\<close>

text \<open>What is relied on of the sorting routine: it returns a permutation, sorted if the comparison is a total preorder.\<close>

locale sort_routine =
  fixes sort_func :: "(ptr \<Rightarrow> ptr \<Rightarrow> int) \<Rightarrow> ptr list \<Rightarrow> ptr list option"
  assumes permutes: "length xs < 2 ^ 64 \<Longrightarrow> \<exists>ys. sort_func cmp xs = Some ys \<and> mset ys = mset xs"
    and sorts: "length xs < 2 ^ 64 \<Longrightarrow> total_preorder cmp \<Longrightarrow> sort_func cmp xs = Some ys \<Longrightarrow>
      sorted_wrt (\<lambda>x y. cmp x y \<le> 0) ys"
begin

lemma sort_buckets:
  assumes st: "stored ht L kvs" and ne: "L \<noteq> []"
  obtains L' ht' where "sort_func (cell_compare (\<lambda>b b'. cmp (bentry b) (bentry b')) (cells ht)) L = Some L'"
    and "hash_relink L' ht = Some ht'" "mset L' = mset L" "stored ht' L' (entries_at ht L')" "mset (entries_at ht L') = mset kvs"
    and "total_preorder cmp \<Longrightarrow> sorted_wrt (\<lambda>x y. cmp x y \<le> 0) (entries_at ht L')"
    and "settings ht' = settings ht" "destroyed ht' = destroyed ht" "nNextFreeElement ht' = nNextFreeElement ht"
    and "pInternalPointer ht' = first_of L'" "nTableMask ht' = nTableMask ht"
proof -
  note w = wf_listD [OF storedD(1) [OF st]]
  let ?cc = "cell_compare (\<lambda>b b'. cmp (bentry b) (bentry b')) (cells ht)"
  have len: "length L < 2 ^ 64" using w(4) by simp
  obtain L' where L': "sort_func ?cc L = Some L'" "mset L' = mset L" using permutes [OF len] by blast
  have sorted: "sorted_wrt (\<lambda>x y. cmp x y \<le> 0) (entries_at ht L')" if tp: "total_preorder cmp"
    unfolding entries_at_def sorted_wrt_map
  proof (rule sorted_wrt_mono_rel [OF _ sorts [OF len total_preorder_cell_compare [OF tp] L'(1)]])
    fix p q assume pq: "p \<in> set L'" "q \<in> set L'" "?cc p q \<le> 0"
    then obtain a b where "cells ht p = Some a" "cells ht q = Some b"
      using w(2) mset_eq_setD [OF L'(2)] by (metis domD)
    with pq(3) show "cmp (the (fld bentry (cells ht) p)) (the (fld bentry (cells ht) q)) \<le> 0"
      by (simp add: cell_compare_def)
  qed
  obtain ht' where "hash_relink L' ht = Some ht'" "stored ht' L' (entries_at ht L')"
      "mset (entries_at ht L') = mset kvs" "pInternalPointer ht' = first_of L'"
      "settings ht' = settings ht" "destroyed ht' = destroyed ht" "nNextFreeElement ht' = nNextFreeElement ht"
      "nTableMask ht' = nTableMask ht"
    by (rule reorder_stored [OF st L'(2) ne])
  then show thesis using that [of L' ht'] L' sorted by simp
qed

lemma hash_sort_ok:
  assumes st: "table ht L kvs"
  obtains ht' L' where "zend_hash_sort ht sort_func (\<lambda>b b'. cmp (bentry b) (bentry b')) False = Some (SUCCESS, ht')"
    and "table ht' L' (entries_at ht L')" "mset (entries_at ht L') = mset kvs"
    and "total_preorder cmp \<Longrightarrow> sorted_wrt (\<lambda>x y. cmp x y \<le> 0) (entries_at ht L')"
    and "settings ht' = settings ht" "destroyed ht' = destroyed ht"
proof -
  note w = wf_listD [OF storedD(1) [OF tableD(1) [OF st]]]
  note n = num_elements [OF storedD(1) [OF tableD(1) [OF st]]]
  show thesis
  proof (cases "1 < length L")
    case False
    then have "\<not> nNumOfElements ht > 1" using n by (simp add: word_less_nat_alt)
    moreover have "sorted_wrt (\<lambda>x y. cmp x y \<le> 0) kvs"
      using False stored_length [OF tableD(1) [OF st]] by (cases kvs; cases "tl kvs") auto
    ultimately show thesis
      using that [of ht L] st entries_at_stored [OF tableD(1) [OF st]] by (simp add: zend_hash_sort_def)
  next
    case True
    then have n1: "nNumOfElements ht > 1" "L \<noteq> []" using n by (auto simp: word_less_nat_alt)
    show thesis
    proof (rule sort_buckets [OF tableD(1) [OF st] n1(2), of cmp])
      fix L' ht' assume r: "sort_func (cell_compare (\<lambda>b b'. cmp (bentry b) (bentry b')) (cells ht)) L = Some L'"
        "hash_relink L' ht = Some ht'" "stored ht' L' (entries_at ht L')" "mset (entries_at ht L') = mset kvs"
        "total_preorder cmp \<Longrightarrow> sorted_wrt (\<lambda>x y. cmp x y \<le> 0) (entries_at ht L')"
        "settings ht' = settings ht" "destroyed ht' = destroyed ht" "nNextFreeElement ht' = nNextFreeElement ht"
      have "zend_hash_sort ht sort_func (\<lambda>b b'. cmp (bentry b) (bentry b')) False = Some (SUCCESS, ht')"
        using n1 collect_buckets [OF w(1)] n r(1,2) by (simp add: zend_hash_sort_def)
      moreover have "next_free_ok (nNextFreeElement ht') (entries_at ht L')"
        using next_free_ok_subset [OF tableD(2) [OF st], of "entries_at ht L'"] r(8) mset_eq_setD [OF r(4)] by simp
      ultimately show thesis using that [of ht' L'] r by (simp add: table_def)
    qed
  qed
qed

lemma hash_sort_renumber_ok:
  assumes st: "table ht L kvs" and int: "\<forall>k\<in>fst ` set kvs. is_int k"
  obtains ht' L' where "zend_hash_sort ht sort_func (\<lambda>b b'. cmp (bentry b) (bentry b')) True = Some (SUCCESS, ht')"
    and "kvs \<noteq> [] \<Longrightarrow> table ht' L' (renum 0 (entries_at ht L'))" "kvs = [] \<Longrightarrow> ht' = ht" "mset (entries_at ht L') = mset kvs"
    and "total_preorder cmp \<Longrightarrow> sorted_wrt (\<lambda>x y. cmp x y \<le> 0) (entries_at ht L')"
    and "settings ht' = settings ht" "destroyed ht' = destroyed ht"
proof -
  note s = tableD(1) [OF st] note w = wf_listD [OF storedD(1) [OF s]]
  note n = num_elements [OF storedD(1) [OF s]]
  show thesis
  proof (cases "L = []")
    case True
    then have "nNumOfElements ht = 0" "kvs = []" using n stored_length [OF s] by (auto simp: unat_eq_0)
    then show thesis using that [of ht "[]"] by (simp add: zend_hash_sort_def entries_at_def)
  next
    case False
    then have n0: "nNumOfElements ht > 0" using n by (auto simp: word_less_nat_alt)
    have m: "nTableMask ht \<noteq> 0" using storedD(2) [OF s] w(2) False sizedD(3) [OF storedD(2) [OF s]] by (auto simp: sized_def)
    show thesis
    proof (rule sort_buckets [OF s False, of cmp])
      fix L' ht1 assume r: "sort_func (cell_compare (\<lambda>b b'. cmp (bentry b) (bentry b')) (cells ht)) L = Some L'"
        "hash_relink L' ht = Some ht1" "mset L' = mset L" "stored ht1 L' (entries_at ht L')" "mset (entries_at ht L') = mset kvs"
        "total_preorder cmp \<Longrightarrow> sorted_wrt (\<lambda>x y. cmp x y \<le> 0) (entries_at ht L')"
        "settings ht1 = settings ht" "destroyed ht1 = destroyed ht" "nTableMask ht1 = nTableMask ht"
      have ne: "L' \<noteq> []" using r(3) False by auto
      have lar: "length (arBuckets ht1) = unat (nTableSize ht1)"
        using storedD(2,3) [OF r(4)] sizedD(2) [OF storedD(2) [OF r(4)]] m r(9)
        by (auto simp: slot_chains_def chain_lists_def sized_def)
      have dk: "distinct (filter (\<lambda>k. \<not> is_int k) (map fst (entries_at ht L')))"
        using storedD(6) [OF r(4)] by (rule distinct_filter)
      obtain ht' where h: "zend_hash_reindex ht1 False = Some ht'" "table ht' L' (renum 0 (entries_at ht L'))"
          "settings ht' = settings ht1" "destroyed ht' = destroyed ht1"
        by (rule reindex_ok [OF storedD(1,2) [OF r(4)] _ lar storedD(4,5) [OF r(4)] dk, where only = False])
          (use m r(9) int mset_eq_setD [OF r(5)] ne in auto)
      have "zend_hash_sort ht sort_func (\<lambda>b b'. cmp (bentry b) (bentry b')) True = Some (SUCCESS, ht')"
        using n0 collect_buckets [OF w(1)] n r(1,2) h(1) by (simp add: zend_hash_sort_def)
      moreover have "kvs \<noteq> []" using False stored_length [OF s] by auto
      ultimately show thesis using that [of ht' L'] r h by simp
    qed
  qed
qed

end

lemma sort_routine_qsort:
  assumes "length (fst junk) = nat QSORT_STACK_SIZE" "length (snd junk) = nat QSORT_STACK_SIZE"
  shows "sort_routine (zend_qsort junk 8)"
proof
  show "\<exists>ys. zend_qsort junk 8 cmp xs = Some ys \<and> mset ys = mset xs" if "length xs < 2 ^ 64" for xs :: "ptr list" and cmp
    using zend_qsort_total [OF that _ assms, of 8 cmp] by (auto simp: zend_qsort_def)
  show "sorted_wrt (\<lambda>x y. cmp x y \<le> 0) ys"
    if "length xs < 2 ^ 64" "total_preorder cmp" "zend_qsort junk 8 cmp xs = Some ys" for xs ys :: "ptr list" and cmp
    using zend_qsort_ordered [OF that(2,1) _ assms, of 8] that(3) by (auto simp: zend_qsort_def)
qed

text \<open>The engine sorts with \<^verbatim>\<open>zend_qsort\<close>, here on cleared stacks.\<close>

interpretation qsort: sort_routine "zend_qsort (replicate 64 0, replicate 64 0) 8"
  by (rule sort_routine_qsort) (simp_all add: QSORT_STACK_SIZE_def)


section \<open>Minimum and maximum\<close>

text \<open>The element found is one the comparison does not rank behind any other, when the comparison is a total preorder.\<close>

lemma hash_minmax_ok:
  assumes st: "stored ht L kvs" and tp: "total_preorder cmp" and eq: "\<And>x y. cmp x y = 0 \<Longrightarrow> cmp y x = 0" and ne: "kvs \<noteq> []"
  shows "\<exists>k v. zend_hash_minmax ht (\<lambda>b b'. cmp (bentry b) (bentry b')) flag = Some (SUCCESS, Some v) \<and> (k, v) \<in> set kvs \<and>
    (\<forall>e\<in>set kvs. if flag then cmp e (k, v) \<le> 0 else cmp (k, v) e \<le> 0)"
proof -
  have t1: "\<And>x y. cmp x y > 0 \<Longrightarrow> cmp y x \<le> 0" and t2: "\<And>x y z. cmp x y \<le> 0 \<Longrightarrow> cmp y z \<le> 0 \<Longrightarrow> cmp x z \<le> 0"
    using tp unfolding total_preorder_def by blast+
  then have t0: "cmp x x \<le> 0" for x by (meson linorder_not_le)
  have t3: "cmp x y < 0 \<Longrightarrow> cmp x y \<le> 0" "\<not> 0 < cmp x y \<Longrightarrow> cmp x y \<le> 0" for x y by simp_all
  have t4: "\<not> cmp x y < 0 \<Longrightarrow> cmp y x \<le> 0" for x y using t1 [of x y] eq [of x y] by (cases "cmp x y = 0") auto
  note w = wf_listD [OF storedD(1) [OF st]]
  obtain p L1 where L: "L = p # L1" using ne stored_length [OF st] by (cases L) auto
  have l: "linked (fld pListNext (cells ht)) (fld pListLast (cells ht)) L" "pListHead ht = Some p"
    using w(1) L by (simp_all add: glist_def)
  have nz: "nNumOfElements ht \<noteq> 0" using num_elements [OF storedD(1) [OF st]] L by auto
  let ?best = "\<lambda>es b. \<forall>e\<in>set es. if flag then cmp e (bentry b) \<le> 0 else cmp (bentry b) e \<le> 0"
  let ?body = "\<lambda>p res. do { b \<leftarrow> cells ht p;
      Some (if flag then (if cmp (bentry res) (bentry b) < 0 then b else res)
            else (if cmp (bentry res) (bentry b) > 0 then b else res), False) }"
  define I where "I xs b \<longleftrightarrow> (\<exists>zs kzs kxs. L = zs @ xs \<and> kvs = kzs @ kxs \<and> length kzs = length zs \<and>
      bentry b \<in> set kzs \<and> ?best kzs b)" for xs and b :: "'a bucket"
  obtain b where b: "cells ht p = Some b" "kvs = bentry b # tl kvs"
    using storedD(5) [OF st] ne unfolding L by (cases "cells ht p"; cases kvs) (auto simp: fld_def)
  have n: "pListNext b = first_of L1" using linked_split(1) [of _ _ "[]" p L1] l(1) L b(1) by force
  have "\<exists>s'. walk (\<lambda>_ p. fld pListNext (cells ht) p) ?body (first_of L1) b = Some s' \<and> I [] s'"
  proof (rule walk_rule [where I = I])
    show "I L1 b" unfolding I_def
      by (rule exI [of _ "[p]"], rule exI [of _ "[bentry b]"], rule exI [of _ "tl kvs"]) (use L b(2) t0 in simp)
    fix a xs and r :: "'a bucket" assume "I (a # xs) r"
    then obtain zs kzs kxs where z: "L = zs @ a # xs" "kvs = kzs @ kxs" "length kzs = length zs" "bentry r \<in> set kzs" "?best kzs r"
      unfolding I_def by blast
    obtain kxs' c kys where k: "kvs = kxs' @ bentry c # kys" "cells ht a = Some c" "map (fld bentry (cells ht)) zs = map Some kxs'"
      using entries_split [of "cells ht" zs a xs kvs] storedD(5) [OF st] z(1) by metis
    then have "length kxs' = length kzs" using z(3) by (metis length_map)
    then have kz: "kxs' = kzs" "kxs = bentry c # kys" using z(2) k(1) by auto
    let ?r = "if flag then (if cmp (bentry r) (bentry c) < 0 then c else r) else (if cmp (bentry r) (bentry c) > 0 then c else r)"
    have "I xs ?r" unfolding I_def
    proof (rule exI [of _ "zs @ [a]"], rule exI [of _ "kzs @ [bentry c]"], rule exI [of _ kys], intro conjI)
      show "?best (kzs @ [bentry c]) ?r"
      proof
        fix e assume e: "e \<in> set (kzs @ [bentry c])"
        have up: "cmp e (bentry r) \<le> 0 \<Longrightarrow> cmp (bentry r) (bentry c) < 0 \<Longrightarrow> cmp e (bentry c) \<le> 0"
          "cmp (bentry r) e \<le> 0 \<Longrightarrow> 0 < cmp (bentry r) (bentry c) \<Longrightarrow> cmp (bentry c) e \<le> 0"
          using t2 [of e "bentry r" "bentry c"] t2 [of "bentry c" "bentry r" e] t1 [of "bentry r" "bentry c"] by simp_all
        show "if flag then cmp e (bentry ?r) \<le> 0 else cmp (bentry ?r) e \<le> 0"
        proof (cases "e \<in> set kzs")
          case True
          then have "if flag then cmp e (bentry r) \<le> 0 else cmp (bentry r) e \<le> 0" using z(5) by blast
          then show ?thesis using up by (cases flag) simp_all
        next
          case False
          then have "e = bentry c" using e by simp
          then show ?thesis
            using t0 [of e] t3(2) [of "bentry r" "bentry c"] t4 [of "bentry r" "bentry c"] by (cases flag) auto
        qed
      qed
    qed (use z kz in auto)
    moreover have "?body a r = Some (?r, False)" using k(2) by simp
    ultimately have "\<exists>s' stop. ?body a r = Some (s', stop) \<and> (if stop then I [] s' else I xs s')"
      by (intro exI [of _ ?r] exI [of _ False]) (simp only: if_False)
    then show "fld pListNext (cells ht) a = Some (first_of xs) \<and>
        (\<exists>s' stop. ?body a r = Some (s', stop) \<and> (if stop then I [] s' else I xs s'))"
      using linked_split(1) [OF l(1) [unfolded z(1)]] by blast
  qed simp
  then obtain r where r: "walk (\<lambda>_ p. fld pListNext (cells ht) p) ?body (first_of L1) b = Some r" "bentry r \<in> set kvs" "?best kvs r"
    unfolding I_def using stored_length [OF st] by auto
  have "zend_hash_minmax ht (\<lambda>b b'. cmp (bentry b) (bentry b')) flag = Some (SUCCESS, Some (zval_of (pData r)))"
    using nz l(2) b(1) n r(1) by (simp add: zend_hash_minmax_def)
  then show ?thesis using r(2,3) by (auto simp: bentry_def)
qed


section \<open>Comparing two tables\<close>

lemma memcmp_zero_iff:
  assumes "length (chars a) = n" "length (chars b) = n"
  shows "memcmp n a b = 0 \<longleftrightarrow> chars a = chars b"
proof -
  have "(case dropWhile (\<lambda>(x, y). x = y) (zip xs ys) of [] \<Rightarrow> 0 | (x, y) # _ \<Rightarrow> uint x - uint y) = 0 \<longleftrightarrow> xs = ys"
    if "length xs = length ys" for xs ys :: "byte list"
    using that by (induction xs ys rule: list_induct2) (auto simp: unsigned_word_eqI)
  from this [of "chars a" "chars b"] assms show ?thesis by (simp add: memcmp_def)
qed

lemma compare_keys_zero_iff:
  assumes "bucket_ok p b" "bucket_ok p' b'"
  shows "compare_keys b b' = 0 \<longleftrightarrow> bkey b = bkey b'"
  using assms by (auto simp: compare_keys_def bkey_def bucket_ok_def memcmp_zero_iff split: if_splits)

definition entry_eq :: "('v \<Rightarrow> 'v \<Rightarrow> int) \<Rightarrow> hkey \<times> 'v \<Rightarrow> hkey \<times> 'v \<Rightarrow> bool" where
  "entry_eq c e e' \<longleftrightarrow> fst e = fst e' \<and> c (snd e) (snd e') = 0"

definition entry_in :: "('v \<Rightarrow> 'v \<Rightarrow> int) \<Rightarrow> hkey \<times> 'v \<Rightarrow> (hkey \<times> 'v) list \<Rightarrow> bool" where
  "entry_in c e kvs \<longleftrightarrow> (\<exists>v. map_of kvs (fst e) = Some v \<and> c (snd e) v = 0)"

lemma entry_at_split:
  assumes "stored ht (xs @ p # ys) (kxs @ kr)" "length kxs = length xs"
  obtains b kys where "cells ht p = Some b" "kr = bentry b # kys" "bucket_ok p b"
    and "fld pListNext (cells ht) p = Some (first_of ys)"
proof -
  obtain kx b kys where k: "kxs @ kr = kx @ bentry b # kys" "cells ht p = Some b" "map (fld bentry (cells ht)) xs = map Some kx"
    using entries_split [OF storedD(5) [OF assms(1)]] by metis
  then have "length kx = length kxs" using assms(2) by (metis length_map)
  then have "kr = bentry b # kys" using k(1) by simp
  moreover have "fld pListNext (cells ht) p = Some (first_of ys)"
    using wf_listD(1) [OF storedD(1) [OF assms(1)]] linked_split(1) by (metis glist_def)
  ultimately show thesis using that k(2) storedD(4) [OF assms(1)] by blast
qed

lemma compare_loop_ordered:
  assumes s1: "stored h1 L1 k1" and s2: "stored h2 L2 k2" and len: "length k1 = length k2"
  shows "\<exists>s. walk (\<lambda>_ p. fld pListNext (cells h1) p) (compare_body h1 h2 c True) (first_of L1) (first_of L2, 0) = Some s \<and>
    (snd s = 0 \<longleftrightarrow> list_all2 (entry_eq c) k1 k2)"
proof -
  define I where "I xs s \<longleftrightarrow> (\<exists>zs kzs kxs ws ys kws kys. L1 = zs @ xs \<and> k1 = kzs @ kxs \<and> length kzs = length zs \<and>
      L2 = ws @ ys \<and> k2 = kws @ kys \<and> length kws = length ws \<and> length kws = length kzs \<and> s = (first_of ys, 0) \<and>
      list_all2 (entry_eq c) kzs kws)" for xs and s :: "ptr option \<times> int"
  show ?thesis
  proof (rule walk_rule [where I = I])
    show "I L1 (first_of L2, 0)" by (auto simp: I_def)
    show "snd s = 0 \<longleftrightarrow> list_all2 (entry_eq c) k1 k2" if "I [] s" for s
      using that stored_length [OF s1] len by (auto simp: I_def)
    fix a xs and s :: "ptr option \<times> int" assume "I (a # xs) s"
    then obtain zs kzs kxs ws ys kws kys where z: "L1 = zs @ a # xs" "k1 = kzs @ kxs" "length kzs = length zs"
        "L2 = ws @ ys" "k2 = kws @ kys" "length kws = length ws" "length kws = length kzs" "s = (first_of ys, 0)"
        "list_all2 (entry_eq c) kzs kws" by (auto simp: I_def)
    obtain b kr where b: "cells h1 a = Some b" "kxs = bentry b # kr" "bucket_ok a b" "fld pListNext (cells h1) a = Some (first_of xs)"
      by (rule entry_at_split [OF s1 [unfolded z(1,2)] z(3)])
    obtain q ys' where ys: "ys = q # ys'" using len z stored_length [OF s2] b(2) by (cases ys) auto
    obtain b' kr' where b': "cells h2 q = Some b'" "kys = bentry b' # kr'" "bucket_ok q b'" "fld pListNext (cells h2) q = Some (first_of ys')"
      by (rule entry_at_split [OF s2 [unfolded z(4,5) ys] z(6)])
    define r where "r = (if compare_keys b b' \<noteq> 0 then compare_keys b b' else c (zval_of (pData b)) (zval_of (pData b')))"
    have n: "pListNext b' = first_of ys'" using b'(1,4) by simp
    have body: "compare_body h1 h2 c True a s = Some ((first_of ys', r), r \<noteq> 0)"
      using b(1) b'(1) z(8) ys n by (auto simp: compare_body_def r_def Let_def)
    have eq: "r = 0 \<longleftrightarrow> entry_eq c (bentry b) (bentry b')"
      using compare_keys_zero_iff [OF b(3) b'(3)] by (auto simp: entry_eq_def bentry_def r_def)
    have "\<not> list_all2 (entry_eq c) k1 k2" if "r \<noteq> 0"
      using that eq z(2,5,7) b(2) b'(2) by (auto simp: list_all2_append)
    moreover have "I xs (first_of ys', r)" if r0: "r = 0"
      unfolding I_def
      by (rule exI [of _ "zs @ [a]"], rule exI [of _ "kzs @ [bentry b]"], rule exI [of _ kr], rule exI [of _ "ws @ [q]"],
        rule exI [of _ ys'], rule exI [of _ "kws @ [bentry b']"], rule exI [of _ kr'])
        (use z ys b(2) b'(2) eq r0 in \<open>simp add: list_all2_append\<close>)
    ultimately show "fld pListNext (cells h1) a = Some (first_of xs) \<and> (\<exists>s' stop. compare_body h1 h2 c True a s = Some (s', stop) \<and>
       (if stop then (snd s' = 0 \<longleftrightarrow> list_all2 (entry_eq c) k1 k2) else I xs s'))"
      unfolding body using b(4) by (cases "r = 0") auto
  qed
qed

lemma compare_loop_unordered:
  assumes s1: "stored h1 L1 k1" and s2: "stored h2 L2 k2"
  shows "\<exists>s. walk (\<lambda>_ p. fld pListNext (cells h1) p) (compare_body h1 h2 c False) (first_of L1) (None, 0) = Some s \<and>
    (snd s = 0 \<longleftrightarrow> (\<forall>e\<in>set k1. entry_in c e k2))"
proof -
  define I where "I xs s \<longleftrightarrow> (\<exists>zs kzs kxs. L1 = zs @ xs \<and> k1 = kzs @ kxs \<and> length kzs = length zs \<and> s = (None, 0) \<and>
      (\<forall>e\<in>set kzs. entry_in c e k2))" for xs and s :: "ptr option \<times> int"
  show ?thesis
  proof (rule walk_rule [where I = I])
    show "I L1 (None, 0)" by (auto simp: I_def)
    show "snd s = 0 \<longleftrightarrow> (\<forall>e\<in>set k1. entry_in c e k2)" if "I [] s" for s
      using that stored_length [OF s1] by (auto simp: I_def)
    fix a xs and s :: "ptr option \<times> int" assume "I (a # xs) s"
    then obtain zs kzs kxs where z: "L1 = zs @ a # xs" "k1 = kzs @ kxs" "length kzs = length zs" "s = (None, 0)"
        "\<forall>e\<in>set kzs. entry_in c e k2" by (auto simp: I_def)
    obtain b kr where b: "cells h1 a = Some b" "kxs = bentry b # kr" "bucket_ok a b" "fld pListNext (cells h1) a = Some (first_of xs)"
      by (rule entry_at_split [OF s1 [unfolded z(1,2)] z(3)])
    have find: "(if nKeyLength b = 0 then zend_hash_index_find h2 (bkt_h b)
        else zend_hash_quick_find h2 (arKey b) (nKeyLength b) (bkt_h b)) = Some (looked_up h2 L2 (bkey b))"
    proof (cases "nKeyLength b = 0")
      case False
      then have "str_arg (arKey b) (nKeyLength b)" "bkt_h b = zend_inline_hash_func (chars (arKey b))"
        using b(3) by (simp_all add: bucket_ok_def str_arg_def)
      then show ?thesis using False quick_find_ok(1) [OF s2, of "arKey b" "nKeyLength b"] by (simp add: bkey_def)
    qed (use index_find_ok(1) [OF s2, of "bkt_h b"] in \<open>simp add: bkey_def\<close>)
    show "fld pListNext (cells h1) a = Some (first_of xs) \<and> (\<exists>s' stop. compare_body h1 h2 c False a s = Some (s', stop) \<and>
       (if stop then (snd s' = 0 \<longleftrightarrow> (\<forall>e\<in>set k1. entry_in c e k2)) else I xs s'))"
    proof (cases "ptr_of h2 L2 (bkey b)")
      case None
      then have "\<not> entry_in c (bentry b) k2"
        using ptr_of_None [OF s2] by (auto simp: entry_in_def bentry_def map_of_eq_None_iff [symmetric])
      moreover have "compare_body h1 h2 c False a s = Some ((None, 1), True)"
        using b(1) find None z(4) by (simp add: compare_body_def looked_up_def)
      ultimately show ?thesis using b(2,4) z(2) by auto
    next
      case (Some q)
      obtain b' where b': "cells h2 q = Some b'" "map_of k2 (bkey b) = Some (zval_of (pData b'))"
        using data_at_ptr_of [OF s2 Some] ptr_of_None [OF s2, of "bkey b"] Some
        by (cases "map_of k2 (bkey b)"; cases "cells h2 q") (simp_all add: data_at_def map_of_eq_None_iff fld_def)
      define r where "r = c (zval_of (pData b)) (zval_of (pData b'))"
      have body: "compare_body h1 h2 c False a s = Some ((None, r), r \<noteq> 0)"
        using b(1) find Some z(4) b'(1) by (simp add: compare_body_def looked_up_def r_def Let_def)
      have eq: "entry_in c (bentry b) k2 \<longleftrightarrow> r = 0" using b'(2) by (simp add: entry_in_def bentry_def r_def)
      have "I xs (None, r)" if "r = 0"
        unfolding I_def by (rule exI [of _ "zs @ [a]"], rule exI [of _ "kzs @ [bentry b]"], rule exI [of _ kr])
          (use z b(2) eq that in simp)
      then show ?thesis unfolding body using b(2,4) z(2) eq by (cases "r = 0") auto
    qed
  qed
qed

lemma hash_compare_ok:
  assumes s1: "stored h1 L1 k1" and s2: "stored h2 L2 k2" and d: "\<not> too_deep h1" "\<not> too_deep h2"
  shows "\<exists>r. zend_hash_compare h1 h2 c ordered = Some (Inr (r, h1, h2)) \<and>
    (r = 0 \<longleftrightarrow> length k1 = length k2 \<and>
      (if ordered then list_all2 (entry_eq c) k1 k2 else \<forall>e\<in>set k1. entry_in c e k2))"
proof -
  define up where "up = (\<lambda>ht :: 'a HashTable. if bApplyProtection ht then ht\<lparr>nApplyCount := nApplyCount ht + 1\<rparr> else ht)"
  have p: "HASH_PROTECT_RECURSION ht = Inr (up ht)" if "\<not> too_deep ht" for ht
    using that by (simp add: HASH_PROTECT_RECURSION_def up_def too_deep_def)
  have un: "HASH_UNPROTECT_RECURSION (up ht) = ht" for ht
    by (simp add: HASH_UNPROTECT_RECURSION_def up_def)
  have f: "nNumOfElements (up ht) = nNumOfElements ht" "pListHead (up ht) = pListHead ht" for ht by (simp_all add: up_def)
  have st: "stored (up ht) L kvs" if "stored ht L kvs" for ht L kvs
    by (rule stored_cong [OF that]) (use wf_listD(5) [OF storedD(1) [OF that]] in \<open>simp_all add: up_def\<close>)
  have hd: "pListHead h1 = first_of L1" "pListHead h2 = first_of L2"
    using wf_listD(1) [OF storedD(1) [OF s1]] wf_listD(1) [OF storedD(1) [OF s2]] by (simp_all add: glist_def)
  have n: "sint (nNumOfElements h1 - nNumOfElements h2) = 0 \<longleftrightarrow> length k1 = length k2"
    using num_elements [OF storedD(1) [OF s1]] num_elements [OF storedD(1) [OF s2]] stored_length [OF s1] stored_length [OF s2]
    by (metis eq_iff_diff_eq_0 signed_0 signed_word_eqI unsigned_word_eqI)
  have z: "\<exists>r. zend_hash_compare h1 h2 c ordered = Some (Inr (r, h1, h2)) \<and> r \<noteq> 0" if "length k1 \<noteq> length k2"
    using that n by (simp add: zend_hash_compare_def p [OF d(1)] p [OF d(2)] un f)
  show ?thesis
  proof (cases "length k1 = length k2")
    case True
    then have "\<exists>s. walk (\<lambda>_ p. fld pListNext (cells (up h1)) p) (compare_body (up h1) (up h2) c ordered) (first_of L1)
        (if ordered then first_of L2 else None, 0) = Some s \<and>
      (snd s = 0 \<longleftrightarrow> (if ordered then list_all2 (entry_eq c) k1 k2 else \<forall>e\<in>set k1. entry_in c e k2))"
      using compare_loop_ordered [OF st [OF s1] st [OF s2], of c] compare_loop_unordered [OF st [OF s1] st [OF s2], of c]
      by (cases ordered) simp_all
    then obtain s where "walk (\<lambda>_ p. fld pListNext (cells (up h1)) p) (compare_body (up h1) (up h2) c ordered) (first_of L1)
        (if ordered then first_of L2 else None, 0) = Some s"
      "snd s = 0 \<longleftrightarrow> (if ordered then list_all2 (entry_eq c) k1 k2 else \<forall>e\<in>set k1. entry_in c e k2)" by blast
    moreover from this have "zend_hash_compare h1 h2 c ordered = Some (Inr (snd s, h1, h2))"
      using True n by (cases ordered; cases s) (simp_all add: zend_hash_compare_def p [OF d(1)] p [OF d(2)] un f hd)
    ultimately show ?thesis using True by simp
  qed (use z in auto)
qed


section \<open>Properties\<close>

text \<open>
  C15: \<^verbatim>\<open>zend_hash_sort\<close> with \<^verbatim>\<open>zend_qsort\<close> and a comparison that orders entries by a total preorder returns a
  well-formed table with the same entries in sorted order: nothing is lost, destroyed or
  duplicated, and lookups find every key as before. With \<^verbatim>\<open>renumber\<close>, a table of integer keys gets
  the keys \<open>0, 1, 2, \<dots>\<close> in the sorted order.
\<close>

theorem hash_sort_spec:
  assumes "table ht L kvs" "total_preorder cmp" "length (fst junk) = nat QSORT_STACK_SIZE" "length (snd junk) = nat QSORT_STACK_SIZE"
  shows "(\<exists>ht' L' kvs'. zend_hash_sort ht (zend_qsort junk 8) (\<lambda>b b'. cmp (bentry b) (bentry b')) False = Some (SUCCESS, ht') \<and>
      table ht' L' kvs' \<and> mset kvs' = mset kvs \<and> sorted_wrt (\<lambda>x y. cmp x y \<le> 0) kvs' \<and>
      settings ht' = settings ht \<and> destroyed ht' = destroyed ht) \<and>
    (kvs \<noteq> [] \<and> (\<forall>k\<in>fst ` set kvs. is_int k) \<longrightarrow>
      (\<exists>ht' L' kvs'. zend_hash_sort ht (zend_qsort junk 8) (\<lambda>b b'. cmp (bentry b) (bentry b')) True = Some (SUCCESS, ht') \<and>
      table ht' L' (renum 0 kvs') \<and> mset kvs' = mset kvs \<and> sorted_wrt (\<lambda>x y. cmp x y \<le> 0) kvs' \<and>
      settings ht' = settings ht \<and> destroyed ht' = destroyed ht))"
proof -
  note q = sort_routine_qsort [OF assms(3,4)]
  show ?thesis
  proof (intro conjI impI)
    show "\<exists>ht' L' kvs'. zend_hash_sort ht (zend_qsort junk 8) (\<lambda>b b'. cmp (bentry b) (bentry b')) False = Some (SUCCESS, ht') \<and>
      table ht' L' kvs' \<and> mset kvs' = mset kvs \<and> sorted_wrt (\<lambda>x y. cmp x y \<le> 0) kvs' \<and>
      settings ht' = settings ht \<and> destroyed ht' = destroyed ht"
      by (rule sort_routine.hash_sort_ok [OF q assms(1), of cmp]) (use assms(2) in blast)
    assume k: "kvs \<noteq> [] \<and> (\<forall>k\<in>fst ` set kvs. is_int k)"
    show "\<exists>ht' L' kvs'. zend_hash_sort ht (zend_qsort junk 8) (\<lambda>b b'. cmp (bentry b) (bentry b')) True = Some (SUCCESS, ht') \<and>
      table ht' L' (renum 0 kvs') \<and> mset kvs' = mset kvs \<and> sorted_wrt (\<lambda>x y. cmp x y \<le> 0) kvs' \<and>
      settings ht' = settings ht \<and> destroyed ht' = destroyed ht"
      by (rule sort_routine.hash_sort_renumber_ok [OF q assms(1), of cmp]) (use assms(2) k in blast)+
  qed
qed

theorem hash_sort_spec_witness:
  "\<exists>ht' L'. zend_hash_sort sample_ht (zend_qsort (replicate 64 0, replicate 64 0) 8)
      (\<lambda>b b'. int (snd (bentry b')) - int (snd (bentry b))) False = Some (SUCCESS, ht') \<and>
    table ht' L' [(IntKey 7, 6), (StrKey [97, 0], 5)]"
proof -
  have tp: "total_preorder (\<lambda>e e'. int (snd e') - int (snd e) :: int)" by (auto simp: total_preorder_def)
  have "mset kvs' = mset [(StrKey [97, 0], 5), (IntKey 7, 6 :: nat)] \<Longrightarrow> sorted_wrt (\<lambda>x y. int (snd y) - int (snd x) \<le> 0) kvs' \<Longrightarrow>
      kvs' = [(IntKey 7, 6), (StrKey [97, 0], 5)]" for kvs'
    by (cases kvs'; cases "tl kvs'") (auto simp: add_eq_conv_ex)
  then show ?thesis
    using hash_sort_spec [OF sample_table(1) tp, of "(replicate 64 0, replicate 64 0)"] by (auto simp: QSORT_STACK_SIZE_def)
qed

text \<open>
  C16: \<^verbatim>\<open>zend_hash_compare\<close> returns for any two well-formed tables (unless the nesting guard of one of them
  fires) and leaves both as they were. The result is 0 exactly when the tables have the same number
  of entries and agree: in an ordered comparison, key by key and value by value in
  order; otherwise, every key of the first is in the second with an equal value.
\<close>

theorem hash_compare_spec:
  assumes "table h1 L1 k1" "table h2 L2 k2" "\<not> too_deep h1" "\<not> too_deep h2"
  shows "\<exists>r. zend_hash_compare h1 h2 c ordered = Some (Inr (r, h1, h2)) \<and>
    (r = 0 \<longleftrightarrow> length k1 = length k2 \<and>
      (if ordered then list_all2 (entry_eq c) k1 k2 else \<forall>e\<in>set k1. entry_in c e k2))"
  using hash_compare_ok [OF tableD(1) [OF assms(1)] tableD(1) [OF assms(2)] assms(3,4)] .

theorem hash_compare_spec_witness:
  "\<exists>r. zend_hash_compare sample_ht empty_ht (\<lambda>x y. int x - int y) True = Some (Inr (r, sample_ht, empty_ht)) \<and> r \<noteq> 0"
proof -
  have "\<not> too_deep sample_ht" using sample_table(2) by (simp add: too_deep_def settings_def)
  moreover have "\<not> too_deep empty_ht" by (simp add: too_deep_def empty_ht_def)
  ultimately show ?thesis
    using hash_compare_spec [OF sample_table(1) empty_ht_table, of "\<lambda>x y. int x - int y" True] by auto
qed

end
