(* ===== verification/Zend_Hash_Splice.thy ===== *)
theory Zend_Hash_Splice
  imports Zend_Hash_Order
begin

text \<open>
  Replacing a part of a table (\<^verbatim>\<open>_zend_hash_splice\<close> of \<^verbatim>\<open>zend_hash.c\<close>), the work of \<^verbatim>\<open>array_splice\<close>: a range of elements is moved to
  another table, new elements are put in their place, and the integer keys are renumbered.
\<close>

section \<open>Model\<close>

text \<open>The position is an \<^verbatim>\<open>int\<close> that is compared with unsigned numbers, so it is modelled as unsigned.\<close>

partial_function (option) splice_skip :: "(ptr \<rightharpoonup> 'v bucket) \<Rightarrow> uint \<Rightarrow> uint \<Rightarrow> ptr option \<Rightarrow> (uint \<times> ptr option) option" where
  "splice_skip c offset pos p =
     (if pos < offset
      then (case p of
              None \<Rightarrow> Some (pos, None)
            | Some a \<Rightarrow> Option.bind (c a) (\<lambda>b. splice_skip c offset (pos + 1) (pListNext b)))
      else Some (pos, p))"

declare splice_skip.simps [code]

definition splice_copy ::
  "('v HashTable \<Rightarrow> ptr) \<Rightarrow> ('v \<Rightarrow> 'v) option \<Rightarrow> 'v bucket \<Rightarrow> 'v HashTable \<Rightarrow> 'v HashTable option" where
  "splice_copy malloc pCopyConstructor b removed =
     do { (r, new_entry, removed) \<leftarrow>
            (if nKeyLength b = 0
             then zend_hash_index_update_or_next_insert (malloc removed) removed 0 (zval_of (pData b)) sizeof_ptr HASH_NEXT_INSERT
             else zend_hash_quick_add_or_update (malloc removed) removed (arKey b) (nKeyLength b) (bkt_h b)
                    (zval_of (pData b)) sizeof_ptr HASH_UPDATE);
          call_ctor pCopyConstructor new_entry removed }"

text \<open>The state of the loop is the position, the bucket, the table and the table for the removed elements, if one is given.\<close>

partial_function (option) splice_remove ::
  "('v HashTable \<Rightarrow> ptr) \<Rightarrow> ('v \<Rightarrow> 'v) option \<Rightarrow> uint \<Rightarrow> uint \<Rightarrow> ptr option \<Rightarrow> 'v HashTable \<Rightarrow> 'v HashTable option \<Rightarrow>
   (ptr option \<times> 'v HashTable \<times> 'v HashTable option) option" where
  "splice_remove malloc pCopyConstructor limit pos p ht removed =
     (case p of
        None \<Rightarrow> Some (None, ht, removed)
      | Some a \<Rightarrow>
          if pos < limit
          then Option.bind (cells ht a) (\<lambda>b.
               Option.bind (case removed of None \<Rightarrow> Some None | Some t \<Rightarrow> map_option Some (splice_copy malloc pCopyConstructor b t)) (\<lambda>removed.
               Option.bind (zend_hash_bucket_delete a ht) (\<lambda>ht.
               splice_remove malloc pCopyConstructor limit (pos + 1) (pListNext b) ht removed)))
          else Some (p, ht, removed))"

declare splice_remove.simps [code]

fun splice_insert ::
  "('v HashTable \<Rightarrow> ptr) \<Rightarrow> ('v \<Rightarrow> 'v) option \<Rightarrow> nat \<Rightarrow> ptr option \<Rightarrow> 'v list \<Rightarrow> 'v HashTable \<Rightarrow> 'v HashTable option" where
  "splice_insert malloc pCopyConstructor nDataSize p [] ht = Some ht"
| "splice_insert malloc pCopyConstructor nDataSize p (v # vs) ht =
     do { let q = malloc ht;
          let ht = pemalloc_bucket q 0 NULLKEY 0 v ht;
          ht \<leftarrow> INIT_DATA q v nDataSize ht;
          last' \<leftarrow> (case p of Some a \<Rightarrow> fld pListLast (cells ht) a | None \<Rightarrow> Some (pListTail ht));
          ht \<leftarrow> CONNECT_TO_GLOBAL_DLLIST_EX q last' p ht;
          ht \<leftarrow> call_ctor pCopyConstructor (Some q) (ht\<lparr>nNumOfElements := nNumOfElements ht + 1\<rparr>);
          splice_insert malloc pCopyConstructor nDataSize p vs ht }"

definition zend_hash_splice ::
  "('v HashTable \<Rightarrow> ptr) \<Rightarrow> 'v HashTable \<Rightarrow> nat \<Rightarrow> ('v \<Rightarrow> 'v) option \<Rightarrow> uint \<Rightarrow> uint \<Rightarrow> 'v list option \<Rightarrow> 'v HashTable option \<Rightarrow>
   ('v HashTable \<times> 'v HashTable option) option" where
  "zend_hash_splice malloc ht nDataSize pCopyConstructor offset length' list removed =
     do { let ht = CHECK_INIT ht;
          (pos, p) \<leftarrow> splice_skip (cells ht) offset 0 (pListHead ht);
          (p, ht, removed) \<leftarrow> splice_remove malloc pCopyConstructor (offset + length') pos p ht removed;
          ht \<leftarrow> (case list of
                   None \<Rightarrow> Some ht
                 | Some vs \<Rightarrow> do { ht \<leftarrow> splice_insert malloc pCopyConstructor nDataSize p vs ht;
                                   ZEND_HASH_IF_FULL_DO_RESIZE ht });
          ht \<leftarrow> zend_hash_reindex ht True;
          Some (ht, removed) }"

section \<open>Skipping and removing\<close>

lemma splice_skip_ok:
  assumes st: "stored ht L kvs" and "i \<le> length L" "i \<le> unat offset"
  shows "splice_skip (cells ht) offset (of_nat i) (first_of (drop i L)) =
    Some (of_nat (min (unat offset) (length L)), first_of (drop (unat offset) L))"
  using assms(2,3)
proof (induction "unat offset - i" arbitrary: i)
  case 0
  then have "unat offset = i" by simp
  moreover from this have "offset = of_nat i" by auto
  ultimately show ?case using 0 by (subst splice_skip.simps) simp
next
  case (Suc n)
  then have i: "i < unat offset" "unat (of_nat i :: uint) = i"
    using unsigned_less [of offset, where ?'a = nat] by (simp_all add: unat_of_nat)
  then have lt: "(of_nat i :: uint) < offset" by (simp add: word_less_nat_alt)
  show ?case
  proof (cases "i = length L")
    case True
    then show ?thesis using i lt by (subst splice_skip.simps) simp
  next
    case False
    then have iL: "i < length L" using Suc.prems by simp
    then have L: "drop i L = L ! i # drop (Suc i) L" by (simp add: Cons_nth_drop_Suc)
    have sp: "L = take i L @ L ! i # drop (Suc i) L" using iL by (simp add: id_take_nth_drop)
    have "L ! i \<in> dom (cells ht)" using stored_dom [OF st] iL by simp
    then obtain b where b: "cells ht (L ! i) = Some b" by blast
    have "pListNext b = first_of (drop (Suc i) L)" using glist_links(1) [of ht "take i L" "L ! i" "drop (Suc i) L" kvs b] st sp b by simp
    then show ?thesis using Suc.hyps(1) [of "Suc i"] Suc.hyps(2) iL i lt b L
      by (subst splice_skip.simps) (simp add: add.commute)
  qed
qed

lemma next_insert_of_nat:
  assumes t: "table ht L kvs" and n: "nNextFreeElement ht = of_nat m" "m < 2 ^ 32" and new: "new \<notin> dom (cells ht)"
    and room: "Suc (length L) < 2 ^ 32"
  shows "\<exists>ht'. zend_hash_index_update_or_next_insert new ht 0 v sz HASH_NEXT_INSERT = Some (SUCCESS, Some new, ht') \<and>
    table ht' (L @ [new]) (kvs @ [(IntKey (of_nat m), v)]) \<and> nNextFreeElement ht' = of_nat (Suc m)"
proof -
  let ?n = "of_nat m :: ulong"
  have s: "sint ?n = int m" by (rule sint_of_nat_ulong) (use n(2) in simp)
  have k: "IntKey ?n \<notin> fst ` set kvs"
    using tableD(2) [OF t] s n unfolding next_free_ok_iff by (auto simp: n(1))
  obtain r d ht' where r: "zend_hash_index_update_or_next_insert new ht 0 v sz HASH_NEXT_INSERT = Some (r, d, ht')"
      "inserted ht L kvs HASH_NEXT_INSERT new (IntKey ?n) v (bump ?n) (r, d, ht')"
    using index_update_or_next_insert_ok [OF tableD(1) [OF t] new room, of 0 v sz HASH_NEXT_INSERT] n(1)
    by (auto simp: index_arg_def)
  have p: "put HASH_NEXT_INSERT (IntKey ?n) v kvs = (SUCCESS, kvs @ [(IntKey ?n, v)])" using k by (simp add: put_def update_new)
  then have rs: "r = SUCCESS" using r(2) by (simp add: inserted_def Let_def)
  have t': "table ht' (L @ [new]) (kvs @ [(IntKey ?n, v)])" using inserted_int_table [OF t r(2)] k p by simp
  have "ptr_of ht' (L @ [new]) (IntKey ?n) = Some new"
    using ptr_of_at [of ht' L new "[]" kvs "IntKey ?n" v "[]"] tableD(1) [OF t'] stored_length [OF tableD(1) [OF t]] by simp
  then have "d = Some new" using r(2) rs k by (simp add: inserted_def Let_def)
  moreover have "?n < LONG_MAX" using n(2) by (simp add: word_less_nat_alt unat_of_nat unat_LONG_MAX)
  then have "nNextFreeElement ht' = of_nat (Suc m)"
    using r(2) k n(1) by (simp add: inserted_def Let_def bump_def add.commute)
  ultimately show ?thesis using r(1) rs t' by simp
qed

text \<open>The table for the removed elements: it was empty, and holds copies with renumbered integer keys.\<close>

definition removed_holds :: "('v \<Rightarrow> 'v) \<Rightarrow> (hkey \<times> 'v) list \<Rightarrow> 'v HashTable \<Rightarrow> bool" where
  "removed_holds f es t \<longleftrightarrow> (\<exists>L. table t L (renum 0 (map (apsnd f) es))) \<and> nNextFreeElement t = of_nat (ints es)"


lemma ints_apsnd [simp]: "ints (map (apsnd f) es) = ints es"
  by (induction es) (auto simp: apsnd_def map_prod_def split: prod.splits)

lemma fst_apsnd [simp]: "map fst (map (apsnd f) es) = map fst es" "fst ` set (map (apsnd f) es) = fst ` set es"
  by (force simp: apsnd_def map_prod_def split: prod.splits)+

lemma str_in_renum: "\<not> is_int k \<Longrightarrow> k \<in> fst ` set (renum n kvs) \<longleftrightarrow> k \<in> fst ` set kvs"
  by (induction n kvs rule: renum.induct) auto

lemma ctor_at_end:
  assumes t: "table ht (L @ [p]) (kvs @ [(k, v)])" and len: "length kvs = length L"
  shows "\<exists>ht'. call_ctor c (Some p) ht = Some ht' \<and> table ht' (L @ [p]) (kvs @ [(k, ctor_of c v)]) \<and> outer ht' = outer ht"
proof -
  have "ptr_of ht (L @ [p]) k = Some p" using ptr_of_at [of ht L p "[]" kvs k v "[]"] tableD(1) [OF t] len by simp
  then obtain ht' where "call_ctor c (Some p) ht = Some ht'" "outer ht' = outer ht"
      "\<forall>w. map_of (kvs @ [(k, v)]) k = Some w \<longrightarrow> table ht' (L @ [p]) (AList.update k (ctor_of c w) (kvs @ [(k, v)]))"
    using call_ctor_ok [OF t, of k p c] by blast
  moreover have "k \<notin> fst ` set kvs" using storedD(6) [OF tableD(1) [OF t]] by simp
  ultimately show ?thesis using update_split [of k kvs _ v "[]"] map_of_split [of k kvs v "[]"] by auto
qed

lemma splice_copy_ok:
  assumes h: "removed_holds (ctor_of c) es t" and m: "malloc_ok malloc" and b: "bucket_ok q b"
    and new: "fst (bentry b) \<notin> fst ` set es" and room: "Suc (length es) < 2 ^ 32"
  shows "\<exists>t'. splice_copy malloc c b t = Some t' \<and> removed_holds (ctor_of c) (es @ [bentry b]) t'"
proof -
  let ?f = "ctor_of c" and ?kvs = "renum 0 (map (apsnd (ctor_of c)) es)"
  obtain L where t: "table t L ?kvs" and n: "nNextFreeElement t = of_nat (ints es)" using h by (auto simp: removed_holds_def)
  have len: "length ?kvs = length L" "length L = length es" using stored_length [OF tableD(1) [OF t]] by simp_all
  note fr = malloc_fresh [OF m t]
  obtain k v where e: "bentry b = (k, v)" by (cases "bentry b")
  have r: "renum 0 (map (apsnd ?f) (es @ [bentry b])) = ?kvs @ [(if is_int k then IntKey (of_nat (ints es)) else k, ?f v)]"
    by (simp add: renum_append e)
  show ?thesis
  proof (cases "nKeyLength b = 0")
    case True
    then have k: "is_int k" "zval_of (pData b) = v" using e by (auto simp: bentry_def bkey_def)
    have "ints es < 2 ^ 32" using ints_le [of es] room by simp
    from next_insert_of_nat [OF t n this fr, of v sizeof_ptr] obtain t1 where
      t1: "zend_hash_index_update_or_next_insert (malloc t) t 0 v sizeof_ptr HASH_NEXT_INSERT = Some (SUCCESS, Some (malloc t), t1)"
        "table t1 (L @ [malloc t]) (?kvs @ [(IntKey (of_nat (ints es)), v)])" "nNextFreeElement t1 = of_nat (Suc (ints es))"
      using len(2) room by auto
    obtain t2 where "call_ctor c (Some (malloc t)) t1 = Some t2" "outer t2 = outer t1"
        "table t2 (L @ [malloc t]) (?kvs @ [(IntKey (of_nat (ints es)), ?f v)])"
      using ctor_at_end [OF t1(2) len(1), of c] by blast
    then show ?thesis using t1 True k r e
      by (intro exI [of _ t2]) (auto simp: splice_copy_def removed_holds_def outer_def)
  next
    case False
    then have k: "k = StrKey (chars (arKey b))" "zval_of (pData b) = v" using e by (auto simp: bentry_def bkey_def)
    have arg: "str_arg (arKey b) (nKeyLength b)" "bkt_h b = zend_inline_hash_func (chars (arKey b))"
      using b False by (auto simp: bucket_ok_def str_arg_def)
    have nk: "k \<notin> fst ` set ?kvs" using new e k(1) str_in_renum [of k 0 "map (apsnd ?f) es"] unfolding fst_apsnd by simp
    obtain r' d t1 where i: "zend_hash_quick_add_or_update (malloc t) t (arKey b) (nKeyLength b) (bkt_h b) v sizeof_ptr HASH_UPDATE = Some (r', d, t1)"
        "inserted t L ?kvs HASH_UPDATE (malloc t) k v id (r', d, t1)"
      using quick_add_or_update_ok [OF tableD(1) [OF t] arg(1) fr, of HASH_UPDATE v sizeof_ptr] len(2) room arg(2) k(1) by auto
    have t1: "table t1 (L @ [malloc t]) (?kvs @ [(k, v)])"
      using inserted_str_table [OF t i(2) [unfolded k(1)]] nk by (simp add: k(1) update_new)
    have "r' = SUCCESS" using i(2) by (simp add: inserted_def Let_def)
    moreover have "ptr_of t1 (L @ [malloc t]) k = Some (malloc t)"
      using ptr_of_at [of t1 L "malloc t" "[]" ?kvs k v "[]"] tableD(1) [OF t1] len(1) by simp
    ultimately have d: "d = Some (malloc t)" "nNextFreeElement t1 = nNextFreeElement t" using i(2) nk by (simp_all add: inserted_def Let_def)
    obtain t2 where "call_ctor c (Some (malloc t)) t1 = Some t2" "outer t2 = outer t1"
        "table t2 (L @ [malloc t]) (?kvs @ [(k, ?f v)])"
      using ctor_at_end [OF t1 len(1), of c] by blast
    then show ?thesis using i(1) d False k r e n
      by (intro exI [of _ t2]) (auto simp: splice_copy_def removed_holds_def outer_def)
  qed
qed

lemma splice_remove_ok:
  assumes "stored ht (xs @ ys) (kxs @ kys)" "length kxs = length xs" "i + n < 2 ^ 32" "malloc_ok malloc"
    and "\<forall>t. removed = Some t \<longrightarrow> removed_holds (ctor_of c) es t"
    and "fst ` set es \<inter> fst ` set kys = {}" "length es + length kys < 2 ^ 32"
  shows "\<exists>ht' removed'. splice_remove malloc c (of_nat (i + n)) (of_nat i) (first_of ys) ht removed = Some (first_of (drop n ys), ht', removed') \<and>
    stored ht' (xs @ drop n ys) (kxs @ drop n kys) \<and> destroyed ht' = dtor_log ht (map snd (take n kys)) \<and> settings ht' = settings ht \<and>
    nTableMask ht' = nTableMask ht \<and> (removed' = None \<longleftrightarrow> removed = None) \<and>
    (\<forall>t. removed' = Some t \<longrightarrow> removed_holds (ctor_of c) (es @ take n kys) t)"
  using assms
proof (induction n arbitrary: i ys kys ht removed es)
  case 0
  then show ?case by (cases ys) (subst splice_remove.simps, auto simp: dtor_log_def)+
next
  case (Suc n)
  show ?case
  proof (cases ys)
    case Nil
    then have "kys = []" using stored_length [OF Suc.prems(1)] Suc.prems(2) by simp
    then show ?thesis using Nil Suc.prems by (subst splice_remove.simps) (auto simp: dtor_log_def)
  next
    case (Cons p ys')
    obtain k v kys' where kys: "kys = (k, v) # kys'" using stored_length [OF Suc.prems(1)] Suc.prems(2) Cons by (cases kys) auto
    have st: "stored ht (xs @ p # ys') (kxs @ (k, v) # kys')" using Suc.prems(1) Cons kys by simp
    have "p \<in> dom (cells ht)" using stored_dom [OF st] by auto
    then obtain b where b: "cells ht p = Some b" by blast
    have ok: "bucket_ok p b" using storedD(4) [OF st] b by blast
    have e: "bentry b = (k, v)"
      using storedD(5) [OF st] Suc.prems(2) fld_Some [of "cells ht" p b bentry, OF b] by (auto simp: append_eq_append_conv)
    have nx: "pListNext b = first_of ys'" by (rule glist_links(1) [OF st b])
    obtain h1 where h1: "i_zend_hash_bucket_delete p ht = Some h1" "stored h1 (xs @ ys') (kxs @ kys')" "settings h1 = settings ht"
        "destroyed h1 = dtor_log ht [v]" "nTableMask h1 = nTableMask ht"
      by (rule bucket_delete_ok [OF st Suc.prems(2)])
    obtain rm where rm: "(case removed of None \<Rightarrow> Some None | Some t \<Rightarrow> map_option Some (splice_copy malloc c b t)) = Some rm"
        "rm = None \<longleftrightarrow> removed = None" "\<forall>t. rm = Some t \<longrightarrow> removed_holds (ctor_of c) (es @ [(k, v)]) t"
    proof (cases removed)
      case (Some t)
      then obtain t' where "splice_copy malloc c b t = Some t'" "removed_holds (ctor_of c) (es @ [bentry b]) t'"
        using splice_copy_ok [of c es t malloc p b] Suc.prems(4-7) ok e kys by auto
      then show thesis using that Some e by auto
    qed (use that in auto)
    have dk: "distinct (map fst kys)" using storedD(6) [OF Suc.prems(1)] by simp
    have lt: "(of_nat i :: uint) < of_nat (i + Suc n)" using Suc.prems(3) by (simp add: word_less_nat_alt unat_of_nat del: of_nat_add of_nat_Suc)
    obtain h2 rm2 where h2: "splice_remove malloc c (of_nat (Suc i + n)) (of_nat (Suc i)) (first_of ys') h1 rm = Some (first_of (drop n ys'), h2, rm2)"
        "stored h2 (xs @ drop n ys') (kxs @ drop n kys')" "destroyed h2 = dtor_log h1 (map snd (take n kys'))" "settings h2 = settings h1"
        "nTableMask h2 = nTableMask h1" "rm2 = None \<longleftrightarrow> rm = None" "\<forall>t. rm2 = Some t \<longrightarrow> removed_holds (ctor_of c) ((es @ [(k, v)]) @ take n kys') t"
      using Suc.IH [OF h1(2) Suc.prems(2) _ Suc.prems(4) rm(3), of "Suc i"] Suc.prems(3,6,7) kys dk by auto
    have "dtor_log h1 (map snd (take n kys')) = dtor_log ht (v # map snd (take n kys'))"
      using h1(3,4) by (simp add: dtor_log_def settings_def)
    then show ?thesis using h1 h2 rm b nx lt Cons kys
      by (subst splice_remove.simps) (auto simp: zend_hash_bucket_delete_def add.commute add.left_commute)
  qed
qed


section \<open>Inserting\<close>

text \<open>New elements are put into the list only: until the table is renumbered, the chains say nothing.\<close>

definition loose :: "'v HashTable \<Rightarrow> ptr list \<Rightarrow> (hkey \<times> 'v) list \<Rightarrow> bool" where
  "loose ht L kvs \<longleftrightarrow>
     wf_list ht L \<and> sized ht \<and> nTableMask ht \<noteq> 0 \<and> length (arBuckets ht) = unat (nTableSize ht) \<and>
     (\<forall>p b. cells ht p = Some b \<longrightarrow> bucket_ok p b) \<and> map (fld bentry (cells ht)) L = map Some kvs \<and>
     (L = [] \<longrightarrow> slot_chains (nTableMask ht) (arBuckets ht) (cells ht) {})"

lemma stored_loose:
  assumes "stored ht L kvs" "nTableMask ht \<noteq> 0"
  shows "loose ht L kvs"
  using assms storedD [OF assms(1)] chains_dom(2) [OF storedD(3) [OF assms(1)]] sizedD(2) [OF storedD(2) [OF assms(1)]]
  by (auto simp: loose_def sized_def)

lemma call_ctor_eq:
  assumes "cells ht q = Some b"
  shows "call_ctor c (Some q) ht = Some (ht\<lparr>cells := (cells ht)(q \<mapsto> b\<lparr>pData := map_zdata (ctor_of c) (pData b)\<rparr>)\<rparr>)"
proof (cases c)
  case None
  have "map_zdata id (pData b) = pData b" by (cases "pData b") auto
  then show ?thesis using None assms by (simp add: call_ctor_def ctor_of_def fun_upd_idem)
qed (use assms in \<open>simp add: call_ctor_def ctor_of_def\<close>)

lemma blocks_fresh: "p \<notin> set L \<Longrightarrow> blocks (c(p \<mapsto> b)) L = blocks c L"
  unfolding blocks_def by (auto intro!: arg_cong [where f = length] filter_cong)

lemma loose_add:
  assumes l: "loose ht (xs @ ys) (kxs @ kys)" and len: "length kxs = length xs" and room: "Suc (length (xs @ ys)) < 2 ^ 32"
    and qL: "q \<notin> set (xs @ ys)" and i: "same_info ((cells ht)(q \<mapsto> new_bucket 0 NULLKEY 0 d)) c'"
    and li: "linked (fld pListNext c') (fld pListLast c') (xs @ q # ys)" and b: "c' q = Some b"
    and b': "pListNext b' = pListNext b" "pListLast b' = pListLast b" "nKeyLength b' = 0" "arKey b' = NULLKEY" "bkt_h b' = 0"
      "zval_of (pData b') = v" "out_of_line (pData b') = out_of_line d"
  shows "loose (ht\<lparr>dataBlocks := dataBlocks ht + (if out_of_line d then 1 else 0), pListHead := first_of (xs @ q # ys),
    pListTail := last_of (xs @ q # ys), nNumOfElements := nNumOfElements ht + 1, cells := c'(q \<mapsto> b')\<rparr>) (xs @ q # ys) (kxs @ (IntKey 0, v) # kys)"
    (is "loose ?h2 _ _")
proof -
  let ?L = "xs @ ys"
  have wf: "wf_list ht ?L" and ok: "\<forall>p b. cells ht p = Some b \<longrightarrow> bucket_ok p b" and e: "map (fld bentry (cells ht)) ?L = map Some (kxs @ kys)"
    and sz: "sized ht" "nTableMask ht \<noteq> 0" "length (arBuckets ht) = unat (nTableSize ht)" using l by (auto simp: loose_def)
  note w = wf_listD [OF wf]
  let ?c = "c'(q \<mapsto> b')"
  have ff: "fld pListNext ?c = fld pListNext c'" "fld pListLast ?c = fld pListLast c'"
    using b b' by (auto simp: fld_def fun_eq_iff)
  have "glist ?h2 (xs @ q # ys)" using li ff by (simp add: glist_def)
  moreover have "dom ?c = set (xs @ q # ys)" using same_infoD(5) [OF i] w(2) by auto
  moreover have "blocks ?c (xs @ q # ys) = dataBlocks ?h2"
  proof -
    have "blocks ?c (xs @ q # ys) = blocks ?c (?L @ [q])" by (rule blocks_mset) simp
    moreover have "blocks ?c (?L @ [q]) = blocks c' ?L + (if out_of_line (pData b') then 1 else 0)" by (rule blocks_snoc [OF qL])
    moreover have "blocks c' ?L = blocks (cells ht) ?L" unfolding blocks_same [OF i] by (rule blocks_fresh [OF qL])
    moreover have "dataBlocks ?h2 = dataBlocks ht + (if out_of_line (pData b') then 1 else 0)" using b'(7) by simp
    ultimately show ?thesis using w(6) by simp
  qed
  ultimately have w2: "wf_list ?h2 (xs @ q # ys)" using w(3,5) room by (auto simp: wf_list_def add.commute)
  have "map (fld bentry ?c) (xs @ q # ys) = map Some (kxs @ (IntKey 0, v) # kys)"
  proof -
    have x: "map (fld bentry (cells ht)) xs = map Some kxs" "map (fld bentry (cells ht)) ys = map Some kys"
      using e len by (simp_all add: append_eq_append_conv)
    have y: "map (fld bentry ?c) zs = map (fld bentry (cells ht)) zs" if "q \<notin> set zs" for zs
      using that same_infoD(3) [OF i] by (auto intro!: map_cong)
    have "bentry b' = (IntKey 0, v)" using b' by (simp add: bentry_def bkey_def)
    then show ?thesis using x y [of xs] y [of ys] qL by simp
  qed
  moreover have "\<forall>p b. ?c p = Some b \<longrightarrow> bucket_ok p b"
  proof -
    have "\<forall>p b. ((cells ht)(q \<mapsto> new_bucket 0 NULLKEY 0 d)) p = Some b \<longrightarrow> bucket_ok p b" using ok by (auto simp: bucket_ok_def new_bucket_def)
    from same_info_ok [OF i this] show ?thesis using b' by (auto simp: bucket_ok_def)
  qed
  ultimately show "loose ?h2 (xs @ q # ys) (kxs @ (IntKey 0, v) # kys)"
    using w2 sz by (simp add: loose_def sized_def)
qed

lemma splice_insert_step:
  assumes l: "loose ht (xs @ ys) (kxs @ kys)" and len: "length kxs = length xs" and room: "Suc (length (xs @ ys)) < 2 ^ 32"
    and q: "malloc ht \<notin> dom (cells ht)"
  shows "\<exists>ht'. splice_insert malloc c nDataSize (first_of ys) (v # vs) ht = splice_insert malloc c nDataSize (first_of ys) vs ht' \<and>
    loose ht' ((xs @ [malloc ht]) @ ys) ((kxs @ [(IntKey 0, ctor_of c v)]) @ kys) \<and> settings ht' = settings ht \<and> destroyed ht' = destroyed ht"
proof -
  let ?q = "malloc ht" and ?B = "new_bucket 0 NULLKEY 0 (data_of v nDataSize)" and ?L = "xs @ ys"
  let ?h1 = "with_bucket ?q ?B ht"
  have wf: "wf_list ht ?L" and ok: "\<forall>p b. cells ht p = Some b \<longrightarrow> bucket_ok p b" and e: "map (fld bentry (cells ht)) ?L = map Some (kxs @ kys)"
    and sz: "sized ht" "nTableMask ht \<noteq> 0" "length (arBuckets ht) = unat (nTableSize ht)" using l by (auto simp: loose_def)
  note w = wf_listD [OF wf]
  have li: "linked (fld pListNext (cells ht)) (fld pListLast (cells ht)) ?L" "pListHead ht = first_of ?L" "pListTail ht = last_of ?L"
    using w(1) by (simp_all add: glist_def)
  have qL: "?q \<notin> set ?L" using q w(2) by simp
  have c1: "cells ?h1 = (cells ht)(?q \<mapsto> ?B)" by (simp add: with_bucket_def)
  have g1: "glist ?h1 ?L"
  proof -
    have "linked (fld pListNext ((cells ht)(?q \<mapsto> ?B))) (fld pListLast ((cells ht)(?q \<mapsto> ?B))) ?L"
      by (rule linked_cong [THEN iffD2, OF _ li(1)]) (use qL in auto)
    then show ?thesis using li(2,3) by (simp add: glist_def with_bucket_def)
  qed
  have last': "(case first_of ys of Some a \<Rightarrow> fld pListLast (cells ?h1) a | None \<Rightarrow> Some (pListTail ?h1)) = Some (last_of xs)"
  proof (cases ys)
    case Nil
    then show ?thesis using li(3) by (simp add: with_bucket_def)
  next
    case (Cons a ys')
    then show ?thesis using linked_split(2) [of "fld pListNext (cells ?h1)" "fld pListLast (cells ?h1)" xs a ys'] g1 by (simp add: glist_def)
  qed
  obtain c' where cc: "CONNECT_TO_GLOBAL_DLLIST_EX ?q (last_of xs) (first_of ys) ?h1 =
       Some (?h1\<lparr>cells := c', pListHead := first_of (xs @ ?q # ys), pListTail := last_of (xs @ ?q # ys)\<rparr>)"
     "linked (fld pListNext c') (fld pListLast c') (xs @ ?q # ys)" "same_chain (cells ?h1) c'"
    by (rule CONNECT_TO_GLOBAL_DLLIST_EX_ok [OF g1]) (use w(2) qL c1 in auto)
  note i = same_chain_info [OF cc(3), unfolded c1]
  obtain b where b: "c' ?q = Some b" "binfo b = binfo ?B"
    using i by (metis (no_types, lifting) fld_Some fld_def fun_upd_same map_option_eq_Some same_info_def)
  define b' where "b' = b\<lparr>pData := map_zdata (ctor_of c) (pData b)\<rparr>"
  define h2 where "h2 = ht\<lparr>dataBlocks := dataBlocks ht + (if out_of_line (data_of v nDataSize) then 1 else 0),
    pListHead := first_of (xs @ ?q # ys), pListTail := last_of (xs @ ?q # ys), nNumOfElements := nNumOfElements ht + 1, cells := c'(?q \<mapsto> b')\<rparr>"
  have r: "splice_insert malloc c nDataSize (first_of ys) (v # vs) ht = splice_insert malloc c nDataSize (first_of ys) vs h2"
    using last' cc(1) b(1) by (simp add: Let_def INIT_DATA_new call_ctor_eq b'_def h2_def) (simp add: with_bucket_def new_bucket_def)
  have bf: "nKeyLength b' = 0" "arKey b' = NULLKEY" "bkt_h b' = 0" "zval_of (pData b') = ctor_of c v"
      "out_of_line (pData b') = out_of_line (data_of v nDataSize)"
    using b(2) by (auto simp: b'_def binfo_def new_bucket_def data_of_def split: if_splits)
  have "loose h2 (xs @ ?q # ys) (kxs @ (IntKey 0, ctor_of c v) # kys)"
    unfolding h2_def by (rule loose_add [OF l len room qL i cc(2) b(1)]) (use bf in \<open>simp_all add: b'_def\<close>)
  then show ?thesis using r by (intro exI [of _ h2]) (simp add: h2_def settings_def)
qed


lemma splice_insert_ok:
  assumes "loose ht (xs @ ys) (kxs @ kys)" "length kxs = length xs" "length (xs @ ys) + length vs < 2 ^ 32" "malloc_ok malloc"
  shows "\<exists>ht' qs. splice_insert malloc c nDataSize (first_of ys) vs ht = Some ht' \<and>
    loose ht' ((xs @ qs) @ ys) (kxs @ map (\<lambda>v. (IntKey 0, ctor_of c v)) vs @ kys) \<and> settings ht' = settings ht \<and> destroyed ht' = destroyed ht"
  using assms
proof (induction vs arbitrary: ht xs kxs)
  case Nil
  then show ?case by (intro exI [of _ ht] exI [of _ "[]"]) simp
next
  case (Cons v vs)
  have "finite (dom (cells ht))" using Cons.prems(1) wf_listD(2) by (metis List.finite_set loose_def)
  then have "malloc ht \<notin> dom (cells ht)" using Cons.prems(4) by (simp add: malloc_ok_def)
  then obtain h1 where h1: "splice_insert malloc c nDataSize (first_of ys) (v # vs) ht = splice_insert malloc c nDataSize (first_of ys) vs h1"
      "loose h1 ((xs @ [malloc ht]) @ ys) ((kxs @ [(IntKey 0, ctor_of c v)]) @ kys)" "settings h1 = settings ht" "destroyed h1 = destroyed ht"
    using splice_insert_step [OF Cons.prems(1,2), of malloc c nDataSize v vs] Cons.prems(3) by auto
  obtain ht' qs where "splice_insert malloc c nDataSize (first_of ys) vs h1 = Some ht'"
      "loose ht' (((xs @ [malloc ht]) @ qs) @ ys) ((kxs @ [(IntKey 0, ctor_of c v)]) @ map (\<lambda>v. (IntKey 0, ctor_of c v)) vs @ kys)"
      "settings ht' = settings h1" "destroyed ht' = destroyed h1"
    using Cons.IH [OF h1(2)] Cons.prems(2-4) by auto
  then show ?case using h1 by (intro exI [of _ ht'] exI [of _ "malloc ht # qs"]) simp
qed

lemma loose_resize:
  assumes l: "loose ht L kvs"
  shows "\<exists>ht'. ZEND_HASH_IF_FULL_DO_RESIZE ht = Some ht' \<and> loose ht' L kvs \<and> settings ht' = settings ht \<and> destroyed ht' = destroyed ht"
proof (cases "nNumOfElements ht > nTableSize ht \<and> push_bit 1 (nTableSize ht) > 0")
  case False
  then have "ZEND_HASH_IF_FULL_DO_RESIZE ht = Some ht" by (auto simp: ZEND_HASH_IF_FULL_DO_RESIZE_def zend_hash_do_resize_def)
  then show ?thesis using l by blast
next
  case True
  let ?n = "push_bit 1 (nTableSize ht)"
  define t where "t = take (unat ?n) (arBuckets ht @ replicate (unat ?n) None)"
  let ?h = "ht\<lparr>arBuckets := t, nTableSize := ?n, nTableMask := ?n - 1\<rparr>"
  have d: "wf_list ht L" "sized ht" "\<forall>p b. cells ht p = Some b \<longrightarrow> bucket_ok p b" "map (fld bentry (cells ht)) L = map Some kvs"
    using l by (auto simp: loose_def)
  have sz: "sized ?h" using sized_double(1) [OF d(2)] True by (simp add: sized_def)
  note s = sizedD [OF sz, simplified]
  have w: "wf_list ?h L" by (rule wf_list_cong [OF d(1)]) simp_all
  obtain c' ar' where r: "zend_hash_rehash ?h = Some (SUCCESS, ?h\<lparr>cells := c', arBuckets := ar'\<rparr>)"
      "slot_chains (nTableMask ?h) ar' c' (set L)" "same_list (cells ?h) c'"
    by (rule rehash_ok [OF w]) (use s True in \<open>auto simp: t_def intro: aged_chains\<close>)
  let ?h' = "?h\<lparr>cells := c', arBuckets := ar'\<rparr>"
  have "ZEND_HASH_IF_FULL_DO_RESIZE ht = Some ?h'"
    using r(1) True by (simp add: ZEND_HASH_IF_FULL_DO_RESIZE_def zend_hash_do_resize_def Let_def t_def)
  moreover have i: "same_info (cells ht) c'" using same_list_info [OF r(3)] by simp
  have "wf_list ?h' L"
    using wf_listD [OF w] glist_same_list [OF wf_listD(1) [OF w], of ?h'] r(3) same_infoD(5) [OF i] blocks_same [OF i]
    by (simp add: wf_list_def)
  then have "loose ?h' L kvs"
    using sz s d(3,4) r(2) same_infoD(3) [OF i] same_info_ok [OF i] chains_dom(2) [OF r(2)] by (auto simp: loose_def sized_def)
  ultimately show ?thesis by (auto simp: settings_def)
qed


lemma splice_cut_ok:
  assumes st: "stored ht L kvs" and m: "malloc_ok malloc" and bound: "unat offset + unat len < 2 ^ 32"
    and rm: "\<forall>t. removed = Some t \<longrightarrow> removed_holds (ctor_of c) [] t"
  shows "\<exists>h1 removed'. do { (pos, p) \<leftarrow> splice_skip (cells ht) offset 0 (pListHead ht);
        splice_remove malloc c (offset + len) pos p ht removed } =
      Some (first_of (drop (unat offset + unat len) L), h1, removed') \<and>
    stored h1 (take (unat offset) L @ drop (unat offset + unat len) L) (take (unat offset) kvs @ drop (unat offset + unat len) kvs) \<and>
    destroyed h1 = dtor_log ht (map snd (take (unat len) (drop (unat offset) kvs))) \<and> settings h1 = settings ht \<and>
    nTableMask h1 = nTableMask ht \<and> (removed' = None \<longleftrightarrow> removed = None) \<and>
    (\<forall>t. removed' = Some t \<longrightarrow> removed_holds (ctor_of c) (take (unat len) (drop (unat offset) kvs)) t)"
proof -
  let ?n = "unat offset" and ?m = "unat len"
  have h: "pListHead ht = first_of L" using wf_listD(1) [OF storedD(1) [OF st]] by (simp add: glist_def)
  have sk: "splice_skip (cells ht) offset 0 (pListHead ht) = Some (of_nat (min ?n (length L)), first_of (drop ?n L))"
    using splice_skip_ok [OF st, of 0 offset] h by simp
  note len = stored_length [OF st]
  show ?thesis
  proof (cases "?n \<le> length L")
    case True
    have "length kvs < 2 ^ 32" using wf_listD(4) [OF storedD(1) [OF st]] len by simp
    moreover have "offset + len = of_nat (?n + ?m)" by simp
    ultimately show ?thesis
      using splice_remove_ok [of ht "take ?n L" "drop ?n L" "take ?n kvs" "drop ?n kvs" ?n ?m malloc removed c "[]"] st len m bound rm True sk
      by (simp add: drop_drop add.commute min_absorb1)
  next
    case False
    then have "splice_remove malloc c (offset + len) (of_nat (min ?n (length L))) (first_of (drop ?n L)) ht removed = Some (None, ht, removed)"
      by (subst splice_remove.simps) simp
    then show ?thesis using sk st len False rm by (auto simp: dtor_log_def)
  qed
qed

section \<open>Properties\<close>

text \<open>
  C17: \<^verbatim>\<open>zend_hash_splice\<close> replaces \<open>length\<close> elements from position \<open>offset\<close> on by the elements of a list. The table is well formed
  afterwards and holds the elements before the range, the new ones and those after the range in this order, with
  integer keys renumbered from 0 and string keys kept. Each element of the range is destroyed once, and if
  a (fresh) table is given for them, it holds copies of them in order. Ranges that start or end behind the
  last element are cut off there.
\<close>

theorem hash_splice_spec:
  assumes "table ht L kvs" "malloc_ok malloc" "unat offset + unat len < 2 ^ 32"
    and "length kvs + length (case list of None \<Rightarrow> [] | Some vs \<Rightarrow> vs) < 2 ^ 32"
    and "\<forall>t. removed = Some t \<longrightarrow> table t [] [] \<and> nNextFreeElement t = 0"
  shows "\<exists>ht' L' removed'. zend_hash_splice malloc ht nDataSize c offset len list removed = Some (ht', removed') \<and>
    table ht' L' (renum 0 (take (unat offset) kvs @ map (\<lambda>v. (IntKey 0, ctor_of c v)) (case list of None \<Rightarrow> [] | Some vs \<Rightarrow> vs) @
      drop (unat offset + unat len) kvs)) \<and>
    destroyed ht' = dtor_log ht (map snd (take (unat len) (drop (unat offset) kvs))) \<and> settings ht' = settings ht \<and>
    (removed' = None \<longleftrightarrow> removed = None) \<and>
    (\<forall>t. removed' = Some t \<longrightarrow> (\<exists>Lr. table t Lr (renum 0 (map (apsnd (ctor_of c)) (take (unat len) (drop (unat offset) kvs))))))"
proof -
  let ?n = "unat offset" and ?m = "unat len" and ?vs = "case list of None \<Rightarrow> [] | Some vs \<Rightarrow> vs" and ?f = "\<lambda>v. (IntKey 0, ctor_of c v)"
  note ci = CHECK_INIT_ok [OF tableD(1) [OF assms(1)]]
  have rm: "\<forall>t. removed = Some t \<longrightarrow> removed_holds (ctor_of c) [] t" using assms(5) by (auto simp: removed_holds_def)
  obtain h1 rm1 where h1: "do { (pos, p) \<leftarrow> splice_skip (cells (CHECK_INIT ht)) offset 0 (pListHead (CHECK_INIT ht));
        splice_remove malloc c (offset + len) pos p (CHECK_INIT ht) removed } = Some (first_of (drop (?n + ?m) L), h1, rm1)"
      "stored h1 (take ?n L @ drop (?n + ?m) L) (take ?n kvs @ drop (?n + ?m) kvs)"
      "destroyed h1 = dtor_log (CHECK_INIT ht) (map snd (take ?m (drop ?n kvs)))" "settings h1 = settings (CHECK_INIT ht)"
      "nTableMask h1 = nTableMask (CHECK_INIT ht)" "rm1 = None \<longleftrightarrow> removed = None"
      "\<forall>t. rm1 = Some t \<longrightarrow> removed_holds (ctor_of c) (take ?m (drop ?n kvs)) t"
    using splice_cut_ok [OF ci(1) assms(2,3) rm] by blast
  have len: "length kvs = length L" using stored_length [OF tableD(1) [OF assms(1)]] .
  have l1: "loose h1 (take ?n L @ drop (?n + ?m) L) (take ?n kvs @ drop (?n + ?m) kvs)"
    by (rule stored_loose [OF h1(2)]) (use h1(5) ci(2) in simp)
  obtain h2 qs where h2: "(case list of None \<Rightarrow> Some h1
        | Some vs \<Rightarrow> do { ht \<leftarrow> splice_insert malloc c nDataSize (first_of (drop (?n + ?m) L)) vs h1; ZEND_HASH_IF_FULL_DO_RESIZE ht }) = Some h2"
      "loose h2 ((take ?n L @ qs) @ drop (?n + ?m) L) (take ?n kvs @ map ?f ?vs @ drop (?n + ?m) kvs)" "settings h2 = settings h1" "destroyed h2 = destroyed h1"
  proof (cases list)
    case None
    then show thesis using that [of h1 "[]"] l1 by simp
  next
    case (Some vs)
    have "length (take ?n L @ drop (?n + ?m) L) + length vs < 2 ^ 32" using assms(4) len Some by (auto simp: min_def)
    then obtain h qs where h: "splice_insert malloc c nDataSize (first_of (drop (?n + ?m) L)) vs h1 = Some h"
        "loose h ((take ?n L @ qs) @ drop (?n + ?m) L) (take ?n kvs @ map ?f vs @ drop (?n + ?m) kvs)" "settings h = settings h1" "destroyed h = destroyed h1"
      using splice_insert_ok [OF l1 _ _ assms(2), of vs c nDataSize] len by auto
    obtain h' where "ZEND_HASH_IF_FULL_DO_RESIZE h = Some h'" "loose h' ((take ?n L @ qs) @ drop (?n + ?m) L) (take ?n kvs @ map ?f vs @ drop (?n + ?m) kvs)"
        "settings h' = settings h" "destroyed h' = destroyed h"
      using loose_resize [OF h(2)] by blast
    then show thesis using that [of h' qs] h Some by simp
  qed
  have d: "distinct (filter (\<lambda>k. \<not> is_int k) (map fst (take ?n kvs @ map ?f ?vs @ drop (?n + ?m) kvs)))"
    using storedD(6) [OF h1(2)] by (simp add: comp_def distinct_filter) blast
  obtain h3 where h3: "zend_hash_reindex h2 True = Some h3"
      "table h3 ((take ?n L @ qs) @ drop (?n + ?m) L) (renum 0 (take ?n kvs @ map ?f ?vs @ drop (?n + ?m) kvs))"
      "settings h3 = settings h2" "destroyed h3 = destroyed h2"
    by (rule reindex_ok [of h2 "(take ?n L @ qs) @ drop (?n + ?m) L" "take ?n kvs @ map ?f ?vs @ drop (?n + ?m) kvs" True])
      (use h2(2) d in \<open>simp_all add: loose_def\<close>)
  have "zend_hash_splice malloc ht nDataSize c offset len list removed = Some (h3, rm1)"
    using h1(1) h2(1) h3(1) by (auto simp: zend_hash_splice_def Let_def split: bind_splits)
  moreover have "destroyed h3 = dtor_log ht (map snd (take ?m (drop ?n kvs)))" "settings h3 = settings ht"
    using h1(3,4) h2(3,4) h3(3,4) ci(3) by (simp_all add: dtor_log_def outer_def settings_def)
  ultimately show ?thesis using h3(2) h1(6,7) unfolding removed_holds_def by blast
qed

theorem hash_splice_spec_witness:
  "\<exists>ht' L' removed'. zend_hash_splice sample_malloc sample_ht 8 None 0 1 (Some [8, 9]) (Some empty_ht) = Some (ht', removed') \<and>
    table ht' L' [(IntKey 0, 8), (IntKey 1, 9), (IntKey 2, 6)] \<and> destroyed ht' = [5]"
proof -
  have "dtor_log sample_ht [5] = [5]" using sample_table(2,3) by (simp add: dtor_log_def settings_def)
  moreover have "nNextFreeElement empty_ht = 0" by (simp add: empty_ht_def)
  ultimately show ?thesis
    using hash_splice_spec [OF sample_table(1) sample_malloc_ok, of 0 1 "Some [8, 9]" "Some empty_ht" 8 None] empty_ht_table
    by (auto simp: ctor_of_def)
qed

end
