(* ===== verification/Zend_Hash_Rekey.thy ===== *)
theory Zend_Hash_Rekey
  imports Zend_Hash_Iter
begin

text \<open>
  Changing the key of the current element (\<^verbatim>\<open>zend_hash_update_current_key_ex\<close> of \<^verbatim>\<open>zend_hash.c\<close>), and the \<open>zend_symtable\<close> functions
  of \<^verbatim>\<open>zend_hash.h\<close>, which send integer-like string keys to the functions for integer keys.
\<close>

section \<open>Changing a key\<close>

definition HASH_UPDATE_KEY_IF_NONE :: uint where "HASH_UPDATE_KEY_IF_NONE = 0"
definition HASH_UPDATE_KEY_IF_BEFORE :: uint where "HASH_UPDATE_KEY_IF_BEFORE = 1"
definition HASH_UPDATE_KEY_IF_AFTER :: uint where "HASH_UPDATE_KEY_IF_AFTER = 2"
definition HASH_UPDATE_KEY_ANYWAY :: uint where "HASH_UPDATE_KEY_ANYWAY = 3"

text \<open>The hash kept with an interned string is the one of all its characters.\<close>

definition INTERNED_HASH :: "key_ptr \<Rightarrow> ulong" where
  "INTERNED_HASH key = zend_inline_hash_func (chars key)"

text \<open>
  Comparing the new key with the one of the current bucket \<open>b\<close>, and finding another bucket that has it: whether the key
  is the same, the hash of the new key, and the other bucket.
\<close>

definition rekey_lookup ::
  "'v HashTable \<Rightarrow> 'v bucket \<Rightarrow> key_type \<Rightarrow> key_ptr \<Rightarrow> nat \<Rightarrow> ulong \<Rightarrow> (bool \<times> ulong \<times> ptr option) option" where
  "rekey_lookup ht b key_type' str_index str_length num_index =
     (if key_type' = KEY_IS_LONG
      then (if nKeyLength b = 0 \<and> bkt_h b = num_index then Some (True, num_index, None)
            else do { q \<leftarrow> chain_search ht (slot_index (nTableMask ht) num_index) (index_match num_index);
                      Some (False, num_index, q) })
      else do { let h = (if IS_INTERNED str_index then INTERNED_HASH str_index
                         else zend_inline_hash_func (take str_length (chars str_index)));
                if key_match str_index str_length h b then Some (True, h, None)
                else do { q \<leftarrow> chain_search ht (slot_index (nTableMask ht) h) (key_match str_index str_length h);
                          Some (False, h, q) } })"

text \<open>Another bucket \<open>q\<close> has the key: one of the two is deleted, the current one if the result is true.\<close>

definition rekey_clash :: "uint \<Rightarrow> ptr \<Rightarrow> ptr \<Rightarrow> 'v HashTable \<Rightarrow> (bool \<times> 'v HashTable) option" where
  "rekey_clash mode p q ht =
     do { b \<leftarrow> cells ht p;
          drop_current \<leftarrow>
            (if mode \<noteq> HASH_UPDATE_KEY_ANYWAY
             then do { r \<leftarrow> cell_search (cells ht) pListLast (\<lambda>r _. r = q) (pListLast b);
                       let found = (if r = None then HASH_UPDATE_KEY_IF_BEFORE else HASH_UPDATE_KEY_IF_AFTER);
                       Some (mode AND found \<noteq> 0) }
             else Some False);
          ht \<leftarrow> zend_hash_bucket_delete (if drop_current then p else q) ht;
          Some (drop_current, ht) }"

definition rekey_unlink :: "ptr \<Rightarrow> 'v HashTable \<Rightarrow> 'v HashTable option" where
  "rekey_unlink p ht =
     do { b \<leftarrow> cells ht p;
          ht \<leftarrow> (case pNext b of
                  Some n \<Rightarrow> hpoke n (\<lambda>c. c\<lparr>pLast := pLast b\<rparr>) ht
                | None \<Rightarrow> Some ht);
          (case pLast b of
             Some l \<Rightarrow> hpoke l (\<lambda>c. c\<lparr>pNext := pNext b\<rparr>) ht
           | None \<Rightarrow> slot_put (slot_index (nTableMask ht) (bkt_h b)) (pNext b) ht) }"

text \<open>
  A bucket whose memory has the wrong size for the new key is replaced by a new one at the address \<open>new\<close>; the
  key pointer in the memory of the new bucket is whatever it was, \<open>garbage\<close>. The result is the bucket, the table and the position.
\<close>

definition rekey_realloc ::
  "ptr \<Rightarrow> key_ptr \<Rightarrow> ptr \<Rightarrow> key_ptr \<Rightarrow> nat \<Rightarrow> 'v HashTable \<Rightarrow> ptr option option \<Rightarrow>
   (ptr \<times> 'v HashTable \<times> ptr option option) option" where
  "rekey_realloc new garbage p str_index str_length ht pos =
     do { b \<leftarrow> cells ht p;
          if (IS_INTERNED (arKey b) \<noteq> IS_INTERNED str_index) \<or> (\<not> IS_INTERNED (arKey b) \<and> nKeyLength b \<noteq> str_length)
          then do { let ht = ht\<lparr>cells := (cells ht)(new \<mapsto> \<lparr>bkt_h = 0, nKeyLength = str_length, pData = pData b,
                       pListNext = None, pListLast = None, pNext = None, pLast = None, arKey = garbage\<rparr>)\<rparr>;
                    ht \<leftarrow> CONNECT_TO_GLOBAL_DLLIST_EX new (pListLast b) (pListNext b) ht;
                    let ht = (if pInternalPointer ht = Some p then ht\<lparr>pInternalPointer := Some new\<rparr> else ht);
                    Some (new, ht\<lparr>cells := (cells ht)(p := None)\<rparr>, map_option (\<lambda>_. Some new) pos) }
          else Some (p, ht, pos) }"

definition rekey_set :: "ptr \<Rightarrow> key_type \<Rightarrow> key_ptr \<Rightarrow> nat \<Rightarrow> ulong \<Rightarrow> 'v HashTable \<Rightarrow> 'v HashTable option" where
  "rekey_set p key_type' str_index str_length h ht =
     (if key_type' = KEY_IS_LONG
      then map_option (note_index h) (hpoke p (\<lambda>b. b\<lparr>bkt_h := h\<rparr>) ht)
      else hpoke p (\<lambda>b. b\<lparr>bkt_h := h, nKeyLength := str_length, arKey := own_key p str_index str_length\<rparr>) ht)"

definition zend_hash_update_current_key_ex ::
  "ptr \<Rightarrow> key_ptr \<Rightarrow> 'v HashTable \<Rightarrow> key_type \<Rightarrow> key_ptr \<Rightarrow> nat \<Rightarrow> ulong \<Rightarrow> uint \<Rightarrow> ptr option option \<Rightarrow>
   (zresult \<times> 'v HashTable \<times> ptr option option) option" where
  "zend_hash_update_current_key_ex new garbage ht key_type' str_index str_length num_index mode pos =
     (case current ht pos of
        None \<Rightarrow> Some (FAILURE, ht, pos)
      | Some p \<Rightarrow>
          if key_type' = KEY_NON_EXISTENT then Some (FAILURE, ht, pos)
          else do {
            let str_length = (if key_type' = KEY_IS_LONG then 0 else str_length);
            b \<leftarrow> cells ht p;
            (same, h, q) \<leftarrow> rekey_lookup ht b key_type' str_index str_length num_index;
            if same then Some (SUCCESS, ht, pos)
            else do {
              (dropped, ht) \<leftarrow> (case q of None \<Rightarrow> Some (False, ht) | Some q \<Rightarrow> rekey_clash mode p q ht);
              if dropped then Some (FAILURE, ht, pos)
              else do { ht \<leftarrow> rekey_unlink p ht;
                        (p, ht, pos) \<leftarrow> rekey_realloc new garbage p str_index str_length ht pos;
                        ht \<leftarrow> rekey_set p key_type' str_index str_length h ht;
                        ht \<leftarrow> rehash_bucket p ht;
                        Some (SUCCESS, ht, pos) } } })"

section \<open>Symbol tables\<close>

text \<open>The macro \<^verbatim>\<open>ZEND_HANDLE_NUMERIC\<close>: an integer-like key goes to the first function, any other to the second.\<close>

definition ZEND_HANDLE_NUMERIC :: "key_ptr \<Rightarrow> nat \<Rightarrow> (ulong \<Rightarrow> 'r) \<Rightarrow> 'r \<Rightarrow> 'r" where
  "ZEND_HANDLE_NUMERIC key len f g =
     (case ZEND_HANDLE_NUMERIC_EX (take len (chars key)) of Some idx \<Rightarrow> f idx | None \<Rightarrow> g)"

definition zend_symtable_update ::
  "ptr \<Rightarrow> 'v HashTable \<Rightarrow> key_ptr \<Rightarrow> nat \<Rightarrow> 'v \<Rightarrow> nat \<Rightarrow> (zresult \<times> ptr option \<times> 'v HashTable) option" where
  "zend_symtable_update new ht key len v nDataSize =
     ZEND_HANDLE_NUMERIC key len (\<lambda>idx. zend_hash_index_update_or_next_insert new ht idx v nDataSize HASH_UPDATE)
       (zend_hash_add_or_update new ht key len v nDataSize HASH_UPDATE)"

definition zend_symtable_del :: "'v HashTable \<Rightarrow> key_ptr \<Rightarrow> nat \<Rightarrow> (zresult \<times> 'v HashTable) option" where
  "zend_symtable_del ht key len =
     ZEND_HANDLE_NUMERIC key len (\<lambda>idx. zend_hash_del_key_or_index ht NULLKEY 0 idx HASH_DEL_INDEX)
       (zend_hash_del_key_or_index ht key len 0 HASH_DEL_KEY)"

definition zend_symtable_find :: "'v HashTable \<Rightarrow> key_ptr \<Rightarrow> nat \<Rightarrow> (zresult \<times> ptr option) option" where
  "zend_symtable_find ht key len =
     ZEND_HANDLE_NUMERIC key len (\<lambda>idx. zend_hash_index_find ht idx) (zend_hash_find ht key len)"

definition zend_symtable_exists :: "'v HashTable \<Rightarrow> key_ptr \<Rightarrow> nat \<Rightarrow> bool option" where
  "zend_symtable_exists ht key len =
     ZEND_HANDLE_NUMERIC key len (\<lambda>idx. zend_hash_index_exists ht idx) (zend_hash_exists ht key len)"

definition zend_symtable_update_current_key_ex ::
  "ptr \<Rightarrow> key_ptr \<Rightarrow> 'v HashTable \<Rightarrow> key_ptr \<Rightarrow> nat \<Rightarrow> uint \<Rightarrow> ptr option option \<Rightarrow>
   (zresult \<times> 'v HashTable \<times> ptr option option) option" where
  "zend_symtable_update_current_key_ex new garbage ht key len mode pos =
     ZEND_HANDLE_NUMERIC key len
       (\<lambda>idx. zend_hash_update_current_key_ex new garbage ht KEY_IS_LONG NULLKEY 0 idx mode pos)
       (zend_hash_update_current_key_ex new garbage ht KEY_IS_STRING key len 0 mode pos)"


section \<open>A bucket outside its chain\<close>

lemma linked_replace:
  assumes l: "linked nx pv (xs @ p # ys)" and q: "q \<notin> set (xs @ ys)"
  shows "linked (upd_opt (last_of xs) (Some q) (nx(q \<mapsto> first_of ys))) (upd_opt (first_of ys) (Some q) (pv(q \<mapsto> last_of xs))) (xs @ q # ys)"
  by (rule linked_cong [THEN iffD1, OF _ linked_insert [OF linked_unlink [OF l] q]]) (simp add: upd_opt_apply)

text \<open>The bucket \<open>p\<close> of the list \<open>L\<close> is not in a chain; the others are as in \<open>c0\<close>, and \<open>p\<close> has the data \<open>d\<close>.\<close>

definition detached :: "(ptr \<rightharpoonup> 'v bucket) \<Rightarrow> 'v HashTable \<Rightarrow> ptr list \<Rightarrow> ptr \<Rightarrow> 'v zdata \<Rightarrow> bool" where
  "detached c0 ht L p d \<longleftrightarrow>
     glist ht L \<and> set L = dom (cells ht) \<and> p \<in> set L \<and> set_option (pInternalPointer ht) \<subseteq> set L \<and>
     slot_chains (nTableMask ht) (arBuckets ht) (cells ht) (set L - {p}) \<and>
     (\<forall>q\<in>set L - {p}. fld binfo (cells ht) q = fld binfo c0 q) \<and> fld pData (cells ht) p = Some d"

text \<open>What changing a key leaves alone.\<close>

definition steady :: "'v HashTable \<Rightarrow> 'v HashTable \<Rightarrow> bool" where
  "steady ht ht' \<longleftrightarrow> nTableMask ht' = nTableMask ht \<and> nTableSize ht' = nTableSize ht \<and>
     nNumOfElements ht' = nNumOfElements ht \<and> dataBlocks ht' = dataBlocks ht \<and> settings ht' = settings ht \<and>
     destroyed ht' = destroyed ht"

lemma detachedD:
  assumes "detached c0 ht L p d"
  shows "glist ht L" "set L = dom (cells ht)" "p \<in> set L" "set_option (pInternalPointer ht) \<subseteq> set L"
    and "slot_chains (nTableMask ht) (arBuckets ht) (cells ht) (set L - {p})"
    and "\<forall>q\<in>set L - {p}. fld binfo (cells ht) q = fld binfo c0 q" "fld pData (cells ht) p = Some d"
  using assms unfolding detached_def by blast+

lemma pLast_pNext_commute: "b\<lparr>pLast := x, pNext := y\<rparr> = b\<lparr>pNext := y, pLast := x\<rparr>"
  by simp

lemma rekey_unlink_eq: "rekey_unlink p ht = chain_unlink p ht"
proof (cases "cells ht p")
  case (Some b)
  then show ?thesis
    by (cases "pNext b"; cases "pLast b")
      (auto simp: rekey_unlink_def chain_unlink_def hpoke_def poke_def slot_put_def fun_upd_twist modify_def pLast_pNext_commute split: option.splits bind_splits)
qed (simp add: rekey_unlink_def chain_unlink_def)

lemma rekey_unlink_ok:
  assumes st: "stored ht L kvs" and b: "cells ht p = Some b"
  obtains ht' b' where "rekey_unlink p ht = Some ht'" "detached (cells ht) ht' L p (pData b)" "steady ht ht'"
    and "nNextFreeElement ht' = nNextFreeElement ht" "pInternalPointer ht' = pInternalPointer ht"
    and "cells ht' p = Some b'" "binfo b' = binfo b"
proof -
  note w = wf_listD [OF storedD(1) [OF st]]
  have p: "p \<in> set L" using b w(2) by blast
  obtain c' ar' where u: "chain_unlink p ht = Some (ht\<lparr>cells := c', arBuckets := ar'\<rparr>)"
      "slot_chains (nTableMask ht) ar' c' (set L - {p})" and sl: "same_list (cells ht) c'"
    by (rule chain_unlink_ok [OF storedD(3) [OF st] p])
  note i = same_list_info [OF sl]
  have bi: "fld binfo c' = fld binfo (cells ht)" using i by (simp add: same_info_def)
  then have "fld binfo c' p = Some (binfo b)" using b by simp
  then obtain b' where b': "c' p = Some b'" "binfo b' = binfo b" by (auto simp: fld_def)
  have "glist (ht\<lparr>cells := c', arBuckets := ar'\<rparr>) L" using w(1) sl by (simp add: glist_def same_list_def)
  then have "detached (cells ht) (ht\<lparr>cells := c', arBuckets := ar'\<rparr>) L p (pData b)"
    using w(2,5) p u(2) same_infoD(5) [OF i] bi b' by (simp add: detached_def binfo_def)
  then show thesis using that [of "ht\<lparr>cells := c', arBuckets := ar'\<rparr>" b'] u(1) b' by (simp add: steady_def rekey_unlink_eq settings_def)
qed

lemma rekey_realloc_ok:
  assumes d: "detached c0 ht (xs @ p # ys) p dt" and b: "cells ht p = Some b" and new: "new \<notin> dom (cells ht)"
  obtains p' ht' b' pos' where "rekey_realloc new garbage p str len ht pos = Some (p', ht', pos')"
    and "detached c0 ht' (xs @ p' # ys) p' dt" "steady ht ht'" "nNextFreeElement ht' = nNextFreeElement ht" "cells ht' p' = Some b'"
    and "if (IS_INTERNED (arKey b) \<noteq> IS_INTERNED str) \<or> (\<not> IS_INTERNED (arKey b) \<and> nKeyLength b \<noteq> len)
         then p' = new \<and> nKeyLength b' = len \<and> arKey b' = garbage else p' = p \<and> b' = b"
proof (cases "(IS_INTERNED (arKey b) \<noteq> IS_INTERNED str) \<or> (\<not> IS_INTERNED (arKey b) \<and> nKeyLength b \<noteq> len)")
  case False
  then show thesis using that [of p ht pos b] d b by (auto simp: rekey_realloc_def steady_def)
next
  case True
  let ?B = "\<lparr>bkt_h = 0, nKeyLength = len, pData = pData b, pListNext = None, pListLast = None, pNext = None, pLast = None, arKey = garbage\<rparr>"
  let ?c = "(cells ht)(new \<mapsto> ?B)" and ?l = "last_of xs" and ?n = "first_of ys"
  have li: "linked (fld pListNext (cells ht)) (fld pListLast (cells ht)) (xs @ p # ys)"
    and hts: "pListHead ht = first_of (xs @ p # ys)" "pListTail ht = last_of (xs @ p # ys)"
    and L: "set (xs @ p # ys) = dom (cells ht)" and ip: "set_option (pInternalPointer ht) \<subseteq> set (xs @ p # ys)"
    and ch: "slot_chains (nTableMask ht) (arBuckets ht) (cells ht) (set (xs @ p # ys) - {p})"
    and bi: "\<forall>q\<in>set (xs @ p # ys) - {p}. fld binfo (cells ht) q = fld binfo c0 q" and dt: "dt = pData b"
    using detachedD [OF d] b by (simp_all only: glist_def fld_Some option.inject)
  have dist: "distinct (xs @ p # ys)" using li by blast
  have nL: "new \<notin> set (xs @ p # ys)" using new L by simp
  have ln: "pListNext b = ?n" "pListLast b = ?l" using linked_split [OF li] b by simp_all
  have sub: "new \<in> dom ?c" "set_option ?l \<subseteq> dom ?c" "set_option ?n \<subseteq> dom ?c"
    using L first_of_in last_of_in by (fastforce simp del: domIff)+
  define c1 where "c1 = glist_link new ?l ?n ?c"
  define c2 where "c2 = c1(p := None)"
  define h2 where "h2 = ht\<lparr>cells := c2, pListHead := (if ?l = None then Some new else pListHead ht),
    pListTail := (if ?n = None then Some new else pListTail ht),
    pInternalPointer := (if pInternalPointer ht = Some p then Some new else pInternalPointer ht)\<rparr>"
  have r: "rekey_realloc new garbage p str len ht pos = Some (new, h2, map_option (\<lambda>_. Some new) pos)"
    using True b CONNECT_TO_GLOBAL_DLLIST_EX_eq [of new "ht\<lparr>cells := ?c\<rparr>" ?l ?n] sub
    by (auto simp: rekey_realloc_def ln h2_def c2_def c1_def ht_unchanged simp del: domIff)
  note f = fld_glist_link [OF sub, folded c1_def]
  have sc: "same_chain ?c c1" by (simp add: c1_def)
  have lk: "linked (fld pListNext c1) (fld pListLast c1) (xs @ new # ys)"
    using linked_replace [OF li, of new] nL unfolding f by simp
  have "linked (fld pListNext c2) (fld pListLast c2) (xs @ new # ys)"
    by (rule linked_cong [THEN iffD2, OF _ lk]) (use dist nL in \<open>auto simp: c2_def\<close>)
  then have g: "glist h2 (xs @ new # ys)"
    using hts by (cases xs; cases ys) (simp_all add: glist_def h2_def last_of_append)
  have dom2: "dom c2 = set (xs @ new # ys)"
  proof -
    have "dom c1 = insert new (dom (cells ht))" using same_infoD(5) [OF same_chain_info [OF sc]] by simp
    then show ?thesis using L dist nL by (auto simp: c2_def)
  qed
  have c2q: "fld binfo c2 q = fld binfo (cells ht) q" "fld pNext c2 q = fld pNext (cells ht) q" "fld pLast c2 q = fld pLast (cells ht) q"
      "fld bkt_h c2 q = fld bkt_h (cells ht) q" if "q \<in> set (xs @ ys)" for q
  proof -
    have q: "q \<noteq> p" "q \<noteq> new" using that dist nL by auto
    show "fld binfo c2 q = fld binfo (cells ht) q" "fld pNext c2 q = fld pNext (cells ht) q" "fld pLast c2 q = fld pLast (cells ht) q"
      "fld bkt_h c2 q = fld bkt_h (cells ht) q"
      using sc same_infoD(1) [OF same_chain_info [OF sc]] q by (simp_all add: c2_def same_chain_def same_info_def)
  qed
  have S: "set (xs @ new # ys) - {new} = set (xs @ ys)" "set (xs @ p # ys) - {p} = set (xs @ ys)" using nL dist by auto
  have "fld binfo c2 new = Some (binfo ?B)"
    using sc nL by (auto simp: c2_def same_chain_def same_info_def)
  then obtain b' where b': "c2 new = Some b'" "binfo b' = binfo ?B" by (auto simp: fld_def)
  have "slot_chains (nTableMask ht) (arBuckets ht) c2 (set (xs @ ys))"
    by (rule chains_cong [OF ch [unfolded S(2)]]) (use c2q in auto)
  moreover have "\<forall>q\<in>set (xs @ ys). fld binfo c2 q = fld binfo c0 q" using bi c2q(1) unfolding S by simp
  moreover have "set_option (pInternalPointer h2) \<subseteq> set (xs @ new # ys)" using ip by (auto simp: h2_def)
  moreover have "fld pData c2 new = Some dt" using b' by (simp add: binfo_def dt)
  moreover have "nTableMask h2 = nTableMask ht" "arBuckets h2 = arBuckets ht" "cells h2 = c2" by (simp_all add: h2_def)
  ultimately have "detached c0 h2 (xs @ new # ys) new dt"
    unfolding detached_def S using g dom2 by (simp only:) simp
  then show thesis using that [OF r] True b' by (auto simp: h2_def steady_def binfo_def settings_def)
qed

lemma fld_at_via:
  assumes "fld f c q = fld f c' q" "\<And>b. sel b = g (f b)"
  shows "fld sel c q = fld sel c' q"
  using assms by (cases "c q"; cases "c' q") (auto simp: fld_def)

lemma bentry_of_binfo:
  "fld bentry c q = map_option (\<lambda>(h, l, a, d). (if l = 0 then IntKey h else StrKey (chars a), zval_of d)) (fld binfo c q)"
  by (cases "c q") (simp_all add: fld_def binfo_def bentry_def bkey_def)

lemma rekey_attach_ok:
  assumes d: "detached c0 ht (xs @ p # ys) p dt" and ok0: "\<forall>p b. c0 p = Some b \<longrightarrow> bucket_ok p b"
    and e: "map (fld bentry c0) xs = map Some kxs" "map (fld bentry c0) ys = map Some kys"
    and b: "cells ht p = Some b" and f: "pData b3 = pData b" "pListNext b3 = pListNext b" "pListLast b3 = pListLast b"
    and ok: "bucket_ok p b3" "bkey b3 = k" and k: "distinct (map fst (kxs @ (k, zval_of dt) # kys))"
    and n: "nNumOfElements ht = of_nat (length (xs @ p # ys))" "length (xs @ p # ys) < 2 ^ 32" "sized ht"
    and bl: "dataBlocks ht = blocks (cells ht) (xs @ p # ys)"
  obtains ht' where "rehash_bucket p (ht\<lparr>cells := (cells ht)(p \<mapsto> b3), nNextFreeElement := N\<rparr>) = Some ht'"
    and "stored ht' (xs @ p # ys) (kxs @ (k, zval_of dt) # kys)" "settings ht' = settings ht" "destroyed ht' = destroyed ht"
    and "nNextFreeElement ht' = N"
proof -
  let ?L = "xs @ p # ys" and ?c = "(cells ht)(p \<mapsto> b3)" and ?S = "set (xs @ p # ys) - {p}"
  let ?h = "ht\<lparr>cells := ?c, nNextFreeElement := N\<rparr>"
  have g: "glist ht ?L" and L: "set ?L = dom (cells ht)" and ip: "set_option (pInternalPointer ht) \<subseteq> set ?L"
    and ch: "slot_chains (nTableMask ht) (arBuckets ht) (cells ht) ?S"
    and bi: "\<forall>q\<in>?S. fld binfo (cells ht) q = fld binfo c0 q" and dt: "dt = pData b"
    using detachedD [OF d] b by (simp_all only: fld_Some option.inject)
  have dist: "distinct ?L" using g unfolding glist_def by blast
  have ff: "fld pListNext ?c = fld pListNext (cells ht)" "fld pListLast ?c = fld pListLast (cells ht)"
    "fld pData ?c = fld pData (cells ht)" using b f by (auto simp: fld_def fun_eq_iff)
  have "slot_chains (nTableMask ?h) (arBuckets ?h) (cells ?h) ?S" using chains_cong [OF ch, of ?c] by simp
  then obtain c' ar' where r: "rehash_bucket p ?h = Some (?h\<lparr>cells := c', arBuckets := ar'\<rparr>)"
      "slot_chains (nTableMask ht) ar' c' (insert p ?S)" "same_list ?c c'"
    by (rule rehash_bucket_ok [of ?h ?S p]) simp_all
  let ?h' = "?h\<lparr>cells := c', arBuckets := ar'\<rparr>"
  note i = same_list_info [OF r(3)]
  have S: "insert p ?S = set ?L" by auto
  have "glist ?h' ?L" using g r(3) ff by (simp add: glist_def same_list_def)
  moreover have "dom c' = set ?L" using same_infoD(5) [OF i] L by auto
  moreover have "blocks c' ?L = dataBlocks ht"
    unfolding blocks_same [OF i] bl using fld_via [OF ff(3), of "\<lambda>b. out_of_line (pData b)" out_of_line] by (simp add: blocks_def)
  ultimately have w: "wf_list ?h' ?L" using n ip by (simp add: wf_list_def)
  have bi': "fld bentry c' q = fld bentry c0 q" if "q \<in> ?S" for q
  proof -
    have "fld bentry c' q = fld bentry (cells ht) q" using that same_infoD(3) [OF i] by auto
    moreover have "fld binfo (cells ht) q = fld binfo c0 q" using bi that by blast
    ultimately show ?thesis by (simp add: bentry_of_binfo)
  qed
  have "fld bentry c' p = Some (k, zval_of dt)" using same_infoD(3) [OF i] ok(2) f(1) dt by (simp add: bentry_def)
  moreover have "map (fld bentry c') xs = map (fld bentry c0) xs" "map (fld bentry c') ys = map (fld bentry c0) ys"
    using bi' dist by (auto intro!: map_cong)
  ultimately have es: "map (fld bentry c') ?L = map Some (kxs @ (k, zval_of dt) # kys)" using e by simp
  have "\<forall>q b. ?c q = Some b \<longrightarrow> bucket_ok q b"
  proof (intro allI impI)
    fix q b' assume q: "?c q = Some b'"
    show "bucket_ok q b'"
    proof (cases "q = p")
      case False
      then have "q \<in> ?S" "cells ht q = Some b'" using q L by auto
      then have "fld binfo c0 q = Some (binfo b')" using bi by (metis fld_Some)
      then obtain b0 where b0: "c0 q = Some b0" "binfo b0 = binfo b'" by (auto simp: fld_def)
      then have "bucket_ok q b0" using ok0 by blast
      then show ?thesis using b0(2) by (auto simp: bucket_ok_def binfo_def split: if_splits)
    qed (use q ok(1) in auto)
  qed
  from same_info_ok [OF i this] have "\<forall>q b. c' q = Some b \<longrightarrow> bucket_ok q b" .
  moreover have "sized ?h'" using n(3) b by (auto simp: sized_def)
  ultimately have "stored ?h' ?L (kxs @ (k, zval_of dt) # kys)"
    unfolding stored_def using w es k r(2) S by simp
  then show thesis using that [of ?h'] r(1) by (simp add: settings_def)
qed


section \<open>The effect on the entries\<close>

text \<open>The key that the arguments denote.\<close>

definition arg_key :: "key_type \<Rightarrow> key_ptr \<Rightarrow> ulong \<Rightarrow> hkey" where
  "arg_key key_type' str_index num_index = (if key_type' = KEY_IS_LONG then IntKey num_index else StrKey (chars str_index))"

definition key_args :: "key_type \<Rightarrow> key_ptr \<Rightarrow> nat \<Rightarrow> bool" where
  "key_args key_type' str_index str_length \<longleftrightarrow>
     key_type' = KEY_IS_LONG \<and> \<not> IS_INTERNED str_index \<or> key_type' = KEY_IS_STRING \<and> str_arg str_index str_length"

lemma rekey_lookup_ok:
  assumes st: "stored ht L kvs" and b: "cells ht p = Some b" and a: "key_args kt str len"
  shows "rekey_lookup ht b kt str (if kt = KEY_IS_LONG then 0 else len) num =
    (let k = arg_key kt str num in
     if bkey b = k then Some (True, key_hash k, None) else Some (False, key_hash k, ptr_of ht L k))"
proof (cases "kt = KEY_IS_LONG")
  case True
  have "chain_search ht (slot_index (nTableMask ht) (key_hash (IntKey num))) (index_match num) = Some (ptr_of ht L (IntKey num))"
    by (rule lookup_ok [OF st]) (simp add: index_match_iff)
  then show ?thesis using True by (auto simp: rekey_lookup_def arg_key_def key_hash_def bkey_def)
next
  case False
  then have arg: "str_arg str len" using a by (auto simp: key_args_def)
  then have h: "(if IS_INTERNED str then INTERNED_HASH str else zend_inline_hash_func (take len (chars str))) = zend_inline_hash_func (chars str)"
    by (simp add: INTERNED_HASH_def str_arg_def)
  have ok: "bucket_ok p b" using storedD(4) [OF st] b by blast
  have "chain_search ht (slot_index (nTableMask ht) (key_hash (StrKey (chars str)))) (key_match str len (zend_inline_hash_func (chars str)))
      = Some (ptr_of ht L (StrKey (chars str)))"
    by (rule lookup_ok [OF st]) (use key_match_iff [OF _ arg] in blast)
  then show ?thesis using False key_match_iff [OF ok arg] by (simp add: rekey_lookup_def h arg_key_def key_hash_def Let_def)
qed

text \<open>The second half of the function, from taking the bucket out of its chain.\<close>

definition rekey_finish ::
  "ptr \<Rightarrow> key_ptr \<Rightarrow> ptr \<Rightarrow> key_type \<Rightarrow> key_ptr \<Rightarrow> nat \<Rightarrow> ulong \<Rightarrow> 'v HashTable \<Rightarrow> ptr option option \<Rightarrow>
   (zresult \<times> 'v HashTable \<times> ptr option option) option" where
  "rekey_finish new garbage p kt str len h ht pos =
     do { ht \<leftarrow> rekey_unlink p ht;
          (p, ht, pos) \<leftarrow> rekey_realloc new garbage p str len ht pos;
          ht \<leftarrow> rekey_set p kt str len h ht;
          ht \<leftarrow> rehash_bucket p ht;
          Some (SUCCESS, ht, pos) }"

definition next_free :: "key_type \<Rightarrow> ulong \<Rightarrow> ulong \<Rightarrow> ulong" where
  "next_free kt num n = (if kt = KEY_IS_LONG then bump num n else n)"

lemma rekey_finish_ok:
  assumes st: "stored ht (xs @ p # ys) (kxs @ (k, v) # kys)" and len: "length kxs = length xs"
    and new: "new \<notin> dom (cells ht)" and a: "key_args kt str slen"
    and k': "k' = arg_key kt str num" "k' \<notin> fst ` set (kxs @ kys)"
    and g: "kt = KEY_IS_STRING \<or> garbage = NULLKEY \<or> (\<exists>i. k = IntKey i)"
  shows "\<exists>ht' p' pos'. rekey_finish new garbage p kt str (if kt = KEY_IS_LONG then 0 else slen) (key_hash k') ht pos = Some (SUCCESS, ht', pos') \<and>
    stored ht' (xs @ p' # ys) (kxs @ (k', v) # kys) \<and> settings ht' = settings ht \<and> destroyed ht' = destroyed ht \<and>
    nNextFreeElement ht' = next_free kt num (nNextFreeElement ht)"
proof -
  let ?len = "if kt = KEY_IS_LONG then 0 else slen"
  note w = wf_listD [OF storedD(1) [OF st]]
  obtain b where b: "cells ht p = Some b" "bentry b = (k, v)"
    and e: "map (fld bentry (cells ht)) xs = map Some kxs" "map (fld bentry (cells ht)) ys = map Some kys"
    using entries_split [OF storedD(5) [OF st]] len by (smt (verit) append_eq_append_conv length_map list.inject)
  have ok: "bucket_ok p b" using storedD(4) [OF st] b(1) by blast
  obtain h1 b1 where h1: "rekey_unlink p ht = Some h1" "detached (cells ht) h1 (xs @ p # ys) p (pData b)" "steady ht h1"
      "nNextFreeElement h1 = nNextFreeElement ht" "cells h1 p = Some b1" "binfo b1 = binfo b"
    by (rule rekey_unlink_ok [OF st b(1)])
  have "new \<notin> dom (cells h1)" using detachedD(2) [OF h1(2)] w(2) new by simp
  then obtain p' h2 b2 pos' where h2: "rekey_realloc new garbage p str ?len h1 pos = Some (p', h2, pos')"
      "detached (cells ht) h2 (xs @ p' # ys) p' (pData b)" "steady h1 h2" "nNextFreeElement h2 = nNextFreeElement h1" "cells h2 p' = Some b2"
      "if (IS_INTERNED (arKey b1) \<noteq> IS_INTERNED str) \<or> (\<not> IS_INTERNED (arKey b1) \<and> nKeyLength b1 \<noteq> ?len)
       then p' = new \<and> nKeyLength b2 = ?len \<and> arKey b2 = garbage else p' = p \<and> b2 = b1"
    by (rule rekey_realloc_ok [OF h1(2,5)])
  define f where "f = (\<lambda>b. if kt = KEY_IS_LONG then b\<lparr>bkt_h := key_hash k'\<rparr>
    else b\<lparr>bkt_h := key_hash k', nKeyLength := ?len, arKey := own_key p' str ?len\<rparr> :: 'a bucket)"
  have r: "rekey_set p' kt str ?len (key_hash k') h2 =
      Some (h2\<lparr>cells := (cells h2)(p' \<mapsto> f b2), nNextFreeElement := next_free kt num (nNextFreeElement ht)\<rparr>)"
    using h2(4,5) h1(4) k'(1) by (simp add: rekey_set_def f_def next_free_def note_index_eq arg_key_def key_hash_def)
  have fb: "pData (f b2) = pData b2" "pListNext (f b2) = pListNext b2" "pListLast (f b2) = pListLast b2" by (simp_all add: f_def)
  have ki: "nKeyLength b2 = 0 \<and> arKey b2 = NULLKEY" if "kt = KEY_IS_LONG"
    using h2(6) h1(6) that a ok g b(2)
    by (auto simp: binfo_def key_args_def bucket_ok_def bentry_def bkey_def split: if_splits)
  have ok': "bucket_ok p' (f b2)" "bkey (f b2) = k'"
    using a ki k'(1) by (auto simp: f_def key_args_def bucket_ok_def bkey_def arg_key_def key_hash_def str_arg_def own_key_def)
  have n: "nNumOfElements h2 = of_nat (length (xs @ p' # ys))" "length (xs @ p' # ys) < 2 ^ 32" "dataBlocks h2 = blocks (cells ht) (xs @ p # ys)"
    using w(3,4,6) h1(3) h2(3) by (simp_all add: steady_def)
  have sz: "sized h2" using storedD(2) [OF st] h1(3) h2(3,5) b(1) by (auto simp: sized_def steady_def)
  have bl: "dataBlocks h2 = blocks (cells h2) (xs @ p' # ys)"
  proof -
    have "distinct (xs @ p' # ys)" "distinct (xs @ p # ys)"
      using detachedD(1) [OF h2(2)] w(7) unfolding glist_def by blast+
    moreover have "fld binfo (cells h2) q = fld binfo (cells ht) q" if "q \<in> set (xs @ p' # ys) - {p'}" for q
      using detachedD(6) [OF h2(2)] that by blast
    then have "fld (\<lambda>b. out_of_line (pData b)) (cells h2) q = fld (\<lambda>b. out_of_line (pData b)) (cells ht) q" if "q \<in> set (xs @ p' # ys) - {p'}" for q
      using that fld_at_via [of binfo "cells h2" q "cells ht" "\<lambda>b. out_of_line (pData b)" "\<lambda>(_, _, _, d). out_of_line d"]
      by (simp add: binfo_def)
    moreover have "pData b2 = pData b" using detachedD(7) [OF h2(2)] h2(5) by simp
    ultimately show ?thesis unfolding n(3) blocks_def using b(1) h2(5) by (auto intro!: arg_cong2 [where f = "(+)"] arg_cong [where f = length] filter_cong)
  qed
  have d: "distinct (map fst (kxs @ (k', zval_of (pData b)) # kys))"
    using storedD(6) [OF st] k'(2) by auto
  have v: "zval_of (pData b) = v" using b(2) by (simp add: bentry_def)
  obtain ht' where "rehash_bucket p' (h2\<lparr>cells := (cells h2)(p' \<mapsto> f b2), nNextFreeElement := next_free kt num (nNextFreeElement ht)\<rparr>) = Some ht'"
      "stored ht' (xs @ p' # ys) (kxs @ (k', zval_of (pData b)) # kys)" "settings ht' = settings h2" "destroyed ht' = destroyed h2"
      "nNextFreeElement ht' = next_free kt num (nNextFreeElement ht)"
    by (rule rekey_attach_ok [OF h2(2) storedD(4) [OF st] e h2(5) fb ok' d n(1,2) sz bl])
  then show ?thesis
    using h1(1,3) h2(1,3) r v by (intro exI [of _ ht'] exI [of _ p'] exI [of _ pos']) (simp add: rekey_finish_def steady_def)
qed


lemma stored_zip:
  assumes "stored ht L kvs"
  shows "(p, e) \<in> set (zip L kvs) \<longleftrightarrow> p \<in> set L \<and> fld bentry (cells ht) p = Some e"
proof -
  have n: "fld bentry (cells ht) (L ! i) = Some (kvs ! i)" if "i < length L" for i
    using arg_cong [OF storedD(5) [OF assms], of "\<lambda>xs. xs ! i"] that stored_length [OF assms] by simp
  then show ?thesis using stored_length [OF assms] by (fastforce simp: in_set_zip in_set_conv_nth)
qed

lemma delete_other_ok:
  assumes st: "stored ht L kvs" and p: "ptr_of ht L k = Some p" and q: "ptr_of ht L k' = Some q" and ne: "k \<noteq> k'"
  shows "\<exists>ht' L' w. zend_hash_bucket_delete q ht = Some ht' \<and> stored ht' L' (AList.delete k' kvs) \<and> map_of kvs k' = Some w \<and>
    ptr_of ht' L' k = Some p \<and> dom (cells ht') \<subseteq> dom (cells ht) \<and> settings ht' = settings ht \<and> destroyed ht' = dtor_log ht [w] \<and>
    nNextFreeElement ht' = nNextFreeElement ht"
proof -
  obtain xs ys kxs w kys where s: "L = xs @ q # ys" "kvs = kxs @ (k', w) # kys" "length kxs = length xs"
      "k' \<notin> fst ` set kxs" "k' \<notin> fst ` set kys"
    by (rule ptr_of_Some [OF st q])
  obtain ht' where d: "i_zend_hash_bucket_delete q ht = Some ht'" "stored ht' (xs @ ys) (kxs @ kys)" "settings ht' = settings ht"
      "destroyed ht' = dtor_log ht [w]" "nNextFreeElement ht' = nNextFreeElement ht"
    by (rule bucket_delete_ok [OF st [unfolded s(1,2)] s(3)])
  have pL: "p \<in> set L" "fld bkey (cells ht) p = Some k" using p by (auto simp: ptr_of_def find_Some_iff)
  then obtain v where v: "fld bentry (cells ht) p = Some (k, v)" by (auto simp: fld_def bentry_def)
  have "p \<noteq> q" using p q ne by (auto simp: ptr_of_def find_Some_iff)
  moreover have "(p, (k, v)) \<in> set (zip L kvs)" using stored_zip [OF st] pL(1) v by blast
  ultimately have "(p, (k, v)) \<in> set (zip (xs @ ys) (kxs @ kys))" using s(1-3) by auto
  then have "p \<in> set (xs @ ys)" "fld bentry (cells ht') p = Some (k, v)" using stored_zip [OF d(2)] by blast+
  then have "ptr_of ht' (xs @ ys) k = Some p"
    by (intro ptr_of_unique [OF d(2)]) (auto simp: fld_def bentry_def)
  moreover have "dom (cells ht') \<subseteq> dom (cells ht)"
    using wf_listD(2) [OF storedD(1) [OF d(2)]] wf_listD(2) [OF storedD(1) [OF st]] s(1) by auto
  ultimately show ?thesis using d s delete_split [OF s(4,5)] map_of_split [OF s(4)] by (auto simp: zend_hash_bucket_delete_def)
qed

text \<open>The specification: the result, the entries, and the data destroyed.\<close>

definition rename :: "hkey \<Rightarrow> hkey \<Rightarrow> (hkey \<times> 'v) list \<Rightarrow> (hkey \<times> 'v) list" where
  "rename k k' = map (\<lambda>(a, v). if a = k then (k', v) else (a, v))"

definition rekeyed :: "uint \<Rightarrow> hkey \<Rightarrow> hkey \<Rightarrow> (hkey \<times> 'v) list \<Rightarrow> zresult \<times> (hkey \<times> 'v) list \<times> 'v list" where
  "rekeyed mode k k' kvs =
     (if k' = k then (SUCCESS, kvs, [])
      else case map_of kvs k' of
        None \<Rightarrow> (SUCCESS, rename k k' kvs, [])
      | Some w \<Rightarrow>
          if mode \<noteq> HASH_UPDATE_KEY_ANYWAY \<and>
             mode AND (if k' \<in> fst ` set (takeWhile (\<lambda>e. fst e \<noteq> k) kvs) then HASH_UPDATE_KEY_IF_AFTER else HASH_UPDATE_KEY_IF_BEFORE) \<noteq> 0
          then (FAILURE, AList.delete k kvs, [the (map_of kvs k)])
          else (SUCCESS, rename k k' (AList.delete k' kvs), [w]))"

lemma rename_split:
  "k \<notin> fst ` set kxs \<Longrightarrow> k \<notin> fst ` set kys \<Longrightarrow> rename k k' (kxs @ (k, v) # kys) = kxs @ (k', v) # kys"
  by (force simp: rename_def intro: map_idI)

lemma finish_at:
  assumes st: "stored ht L kvs" and p: "ptr_of ht L k = Some p" and new: "new \<notin> dom (cells ht)" and a: "key_args kt str slen"
    and k': "k' = arg_key kt str num" "k' \<notin> fst ` set kvs" and n: "next_free_ok (nNextFreeElement ht) kvs"
    and g: "kt = KEY_IS_STRING \<or> garbage = NULLKEY \<or> (\<exists>i. k = IntKey i)"
  shows "\<exists>ht' L' pos'. rekey_finish new garbage p kt str (if kt = KEY_IS_LONG then 0 else slen) (key_hash k') ht pos = Some (SUCCESS, ht', pos') \<and>
    table ht' L' (rename k k' kvs) \<and> settings ht' = settings ht \<and> destroyed ht' = destroyed ht"
proof -
  obtain xs ys kxs v kys where s: "L = xs @ p # ys" "kvs = kxs @ (k, v) # kys" "length kxs = length xs"
      "k \<notin> fst ` set kxs" "k \<notin> fst ` set kys"
    by (rule ptr_of_Some [OF st p])
  obtain ht' p' pos' where f: "rekey_finish new garbage p kt str (if kt = KEY_IS_LONG then 0 else slen) (key_hash k') ht pos = Some (SUCCESS, ht', pos')"
      "stored ht' (xs @ p' # ys) (kxs @ (k', v) # kys)" "settings ht' = settings ht" "destroyed ht' = destroyed ht"
      "nNextFreeElement ht' = next_free kt num (nNextFreeElement ht)"
    using rekey_finish_ok [OF st [unfolded s(1,2)] s(3) new a k'(1) _ g, of pos] k'(2) s(2) by auto
  have "next_free_ok (nNextFreeElement ht') (kxs @ (k', v) # kys)"
  proof (cases "kt = KEY_IS_LONG")
    case True
    have "next_free_ok (bump num (nNextFreeElement ht)) (kvs @ [(IntKey num, v)])"
      using n sint_bump [of "nNextFreeElement ht" num] sint_ulong_bounds(2) [of num] sint_ulong_bounds(2) [of "nNextFreeElement ht"]
      unfolding next_free_ok_iff by (auto simp: max_def min_def)
    then show ?thesis using True f(5) k'(1) s(2)
      by (auto simp: next_free_def arg_key_def elim!: next_free_ok_subset)
  next
    case False
    then show ?thesis using f(5) k'(1) next_free_ok_subset [OF n] s(2)
      by (auto simp: next_free_def arg_key_def next_free_ok_def)
  qed
  then show ?thesis using f rename_split [OF s(4,5)] s(2) by (auto simp: table_def)
qed


lemma find_unique: "\<forall>x\<in>set xs. P x \<longleftrightarrow> x = q \<Longrightarrow> find P xs = (if q \<in> set xs then Some q else None)"
  by (induction xs) auto

lemma search_backwards:
  assumes "stored ht (xs @ p # ys) kvs" "cells ht p = Some b"
  shows "cell_search (cells ht) pListLast (\<lambda>r _. r = q) (pListLast b) = Some (if q \<in> set xs then Some q else None)"
proof -
  note w = wf_listD [OF storedD(1) [OF assms(1)]]
  have li: "linked (fld pListNext (cells ht)) (fld pListLast (cells ht)) (xs @ p # ys)" using w(1) by (simp add: glist_def)
  have "linked (fld pListLast (cells ht)) (\<lambda>a. Some (prv_of (rev xs) a)) (rev xs)"
    using li by (auto simp: linked_def nxt_of_rev prv_of_append)
  from cell_search_linked [OF this, of "\<lambda>r _. r = q"]
  have "cell_search (cells ht) pListLast (\<lambda>r _. r = q) (pListLast b) = Some (find (\<lambda>a. \<exists>b. cells ht a = Some b \<and> a = q) (rev xs))"
    using linked_split(2) [OF li] assms(2) by (simp add: first_of_rev)
  also have "find (\<lambda>a. \<exists>b. cells ht a = Some b \<and> a = q) (rev xs) = (if q \<in> set xs then Some q else None)"
  proof -
    have "\<forall>x\<in>set (rev xs). (\<exists>b. cells ht x = Some b \<and> x = q) \<longleftrightarrow> x = q"
      using w(2) by (metis UnCI domD set_append set_rev)
    from find_unique [OF this] show ?thesis by simp
  qed
  finally show ?thesis .
qed


lemma zip_fst: "(q, (k, w)) \<in> set (zip xs kvs) \<Longrightarrow> q \<in> set xs \<and> k \<in> fst ` set kvs"
  by (force dest: set_zip_leftD set_zip_rightD)

lemma clash_before:
  assumes st: "stored ht L kvs" and s: "L = xs @ p # ys" "kvs = kxs @ (k, v) # kys" "length kxs = length xs" "k \<notin> fst ` set kxs"
    and q: "ptr_of ht L k' = Some q" and ne: "k' \<noteq> k"
  shows "q \<in> set xs \<longleftrightarrow> k' \<in> fst ` set (takeWhile (\<lambda>e. fst e \<noteq> k) kvs)"
proof -
  have tw: "takeWhile (\<lambda>e. fst e \<noteq> k) kvs = kxs" unfolding s(2) using s(4) by (induction kxs) auto
  have "q \<in> set L" "fld bkey (cells ht) q = Some k'" using q by (auto simp: ptr_of_def find_Some_iff)
  then obtain w where "(q, (k', w)) \<in> set (zip L kvs)" using stored_zip [OF st] by (auto simp: fld_def bentry_def)
  then have "(q, (k', w)) \<in> set (zip xs kxs) \<or> (q, (k', w)) \<in> set (zip ys kys)" using s(1-3) ne by auto
  then have "q \<in> set xs \<and> k' \<in> fst ` set kxs \<or> q \<in> set ys \<and> k' \<in> fst ` set kys"
    using zip_fst [of q k' w xs kxs] zip_fst [of q k' w ys kys] by blast
  moreover have "set xs \<inter> set ys = {}" "fst ` set kxs \<inter> fst ` set kys = {}"
    using stored_distinct [OF st] storedD(6) [OF st] s(1,2) by auto
  ultimately show ?thesis unfolding tw by blast
qed

lemma update_current_key_ok:
  assumes t: "table ht L kvs" and p: "ptr_of ht L k = Some p" "current ht pos = Some p" and new: "new \<notin> dom (cells ht)"
    and a: "key_args kt str len" and g: "kt = KEY_IS_STRING \<or> garbage = NULLKEY \<or> (\<exists>i. k = IntKey i)"
    and r: "rekeyed mode k (arg_key kt str num) kvs = (r, kvs', ds)"
  shows "\<exists>ht' L' pos'. zend_hash_update_current_key_ex new garbage ht kt str len num mode pos = Some (r, ht', pos') \<and>
    table ht' L' kvs' \<and> destroyed ht' = dtor_log ht ds \<and> settings ht' = settings ht"
proof -
  let ?k = "arg_key kt str num" and ?len = "if kt = KEY_IS_LONG then 0 else len"
  note st = tableD(1) [OF t] and n = tableD(2) [OF t]
  have "fld bkey (cells ht) p = Some k" using p(1) by (auto simp: ptr_of_def find_Some_iff)
  then obtain b where b: "cells ht p = Some b" "bkey b = k" by (auto simp: fld_def)
  have kt: "kt \<noteq> KEY_NON_EXISTENT" using a by (auto simp: key_args_def)
  have u: "zend_hash_update_current_key_ex new garbage ht kt str len num mode pos =
      (if k = ?k then Some (SUCCESS, ht, pos)
       else do { (dropped, ht) \<leftarrow> (case ptr_of ht L ?k of None \<Rightarrow> Some (False, ht) | Some q \<Rightarrow> rekey_clash mode p q ht);
                 if dropped then Some (FAILURE, ht, pos) else rekey_finish new garbage p kt str ?len (key_hash ?k) ht pos })"
    unfolding rekey_finish_def using rekey_lookup_ok [OF st b(1) a, of num] p(2) kt b
    by (simp add: zend_hash_update_current_key_ex_def Let_def)
  have nil: "dtor_log ht [] = destroyed ht" by (simp add: dtor_log_def)
  consider (same) "?k = k" | (fresh) "?k \<noteq> k" "ptr_of ht L ?k = None" | (clash) q where "?k \<noteq> k" "ptr_of ht L ?k = Some q" by fastforce
  then show ?thesis
  proof cases
    case same
    then show ?thesis using u r t nil by (auto simp: rekeyed_def)
  next
    case fresh
    then have f: "?k \<notin> fst ` set kvs" using ptr_of_None [OF st] by simp
    then have "map_of kvs ?k = None" by (simp add: map_of_eq_None_iff)
    then have "r = SUCCESS" "kvs' = rename k ?k kvs" "ds = []" using r fresh by (simp_all add: rekeyed_def)
    then show ?thesis using finish_at [OF st p(1) new a refl f n g, of pos] u fresh nil by auto
  next
    case clash
    obtain xs ys kxs v kys where s: "L = xs @ p # ys" "kvs = kxs @ (k, v) # kys" "length kxs = length xs"
        "k \<notin> fst ` set kxs" "k \<notin> fst ` set kys"
      by (rule ptr_of_Some [OF st p(1)])
    obtain h1 L1 w where h1: "zend_hash_bucket_delete q ht = Some h1" "stored h1 L1 (AList.delete ?k kvs)" "map_of kvs ?k = Some w"
        "ptr_of h1 L1 k = Some p" "dom (cells h1) \<subseteq> dom (cells ht)" "settings h1 = settings ht" "destroyed h1 = dtor_log ht [w]"
        "nNextFreeElement h1 = nNextFreeElement ht"
      using delete_other_ok [OF st p(1) clash(2)] clash(1) by metis
    note before = clash_before [OF st s(1-4) clash(2,1)]
    define stop where "stop \<longleftrightarrow> mode \<noteq> HASH_UPDATE_KEY_ANYWAY \<and>
      mode AND (if ?k \<in> fst ` set (takeWhile (\<lambda>e. fst e \<noteq> k) kvs) then HASH_UPDATE_KEY_IF_AFTER else HASH_UPDATE_KEY_IF_BEFORE) \<noteq> 0"
    have c: "rekey_clash mode p q ht = do { ht \<leftarrow> zend_hash_bucket_delete (if stop then p else q) ht; Some (stop, ht) }"
      using search_backwards [of ht xs p ys kvs b q] st s(1) b(1) before by (simp add: rekey_clash_def stop_def)
    have rr: "(r, kvs', ds) = (if stop then (FAILURE, AList.delete k kvs, [the (map_of kvs k)]) else (SUCCESS, rename k ?k (AList.delete ?k kvs), [w]))"
      using r clash(1) h1(3) by (auto simp: rekeyed_def stop_def)
    have sub: "next_free_ok (nNextFreeElement ht) (AList.delete k' kvs)" for k'
      by (rule next_free_ok_subset [OF n]) (auto simp: AList.delete_eq)
    show ?thesis
    proof (cases stop)
      case True
      obtain h2 v where "i_zend_hash_bucket_delete p ht = Some h2" "stored h2 (remove1 p L) (AList.delete k kvs)"
          "map_of kvs k = Some v" "settings h2 = settings ht" "destroyed h2 = dtor_log ht [v]" "nNextFreeElement h2 = nNextFreeElement ht"
        by (rule deleted_ok [OF st p(1)])
      then show ?thesis using u clash c True rr sub [of k] by (auto simp: table_def zend_hash_bucket_delete_def)
    next
      case False
      have "?k \<notin> fst ` set (AList.delete ?k kvs)" by (auto simp: AList.delete_eq)
      moreover have "new \<notin> dom (cells h1)" using new h1(5) by blast
      ultimately obtain h2 L2 pos' where "rekey_finish new garbage p kt str ?len (key_hash ?k) h1 pos = Some (SUCCESS, h2, pos')"
          "table h2 L2 (rename k ?k (AList.delete ?k kvs))" "settings h2 = settings h1" "destroyed h2 = destroyed h1"
        using finish_at [OF h1(2,4) _ a refl _ _ g, of new num pos] sub [of ?k] h1(8) by auto
      then show ?thesis using u clash c False rr h1(1,6,7) by auto
    qed
  qed
qed


section \<open>Symbol tables as a map\<close>

definition sym_key :: "key_ptr \<Rightarrow> hkey" where
  "sym_key key = (case ZEND_HANDLE_NUMERIC_EX (chars key) of Some idx \<Rightarrow> IntKey idx | None \<Rightarrow> StrKey (chars key))"

definition sym_store :: "nat \<Rightarrow> ptr \<Rightarrow> 'v HashTable \<Rightarrow> key_ptr \<Rightarrow> 'v \<Rightarrow> 'v HashTable option" where
  "sym_store nDataSize new ht key v = map_option (\<lambda>(_, _, ht). ht) (zend_symtable_update new ht key (length (chars key)) v nDataSize)"

definition sym_remove :: "'v HashTable \<Rightarrow> key_ptr \<Rightarrow> 'v HashTable option" where
  "sym_remove ht key = map_option snd (zend_symtable_del ht key (length (chars key)))"

definition sym_fetch :: "'v HashTable \<Rightarrow> key_ptr \<Rightarrow> 'v option option" where
  "sym_fetch ht key = find_data ht (zend_symtable_find ht key (length (chars key)))"

lemma sym_cases:
  "sym_key key = (case ZEND_HANDLE_NUMERIC_EX (chars key) of Some idx \<Rightarrow> IntKey idx | None \<Rightarrow> str_key key)"
  "sym_store n new ht key v = (case ZEND_HANDLE_NUMERIC_EX (chars key) of Some idx \<Rightarrow> int_store n new ht idx v | None \<Rightarrow> str_store n new ht key v)"
  "sym_remove ht key = (case ZEND_HANDLE_NUMERIC_EX (chars key) of Some idx \<Rightarrow> int_remove ht idx | None \<Rightarrow> str_remove ht key)"
  "sym_fetch ht key = (case ZEND_HANDLE_NUMERIC_EX (chars key) of Some idx \<Rightarrow> int_fetch ht idx | None \<Rightarrow> str_fetch ht key)"
  by (simp_all add: sym_key_def str_key_def sym_store_def int_store_def str_store_def sym_remove_def int_remove_def str_remove_def
      sym_fetch_def int_fetch_def str_fetch_def zend_symtable_update_def zend_symtable_del_def zend_symtable_find_def
      ZEND_HANDLE_NUMERIC_def split: option.split)

text \<open>A symbol table keeps the contract of an ordered map, with integer-like strings and integers as the same key.\<close>

interpretation hash_sym: map_store hash_holds hash_fresh is_str sym_key "sym_store nDataSize" sym_remove sym_fetch
  for nDataSize :: nat
  by unfold_locales
    (auto simp: sym_cases hash_str.keys_distinct hash_int.fetch_ok hash_str.fetch_ok hash_int.store_ok hash_str.store_ok
      hash_int.remove_ok hash_str.remove_ok split: option.splits)

section \<open>Properties\<close>

text \<open>
  C18: changing the key of the current element. \<^verbatim>\<open>zend_hash_update_current_key_ex\<close> keeps a table well formed (both lists of buckets,
  the counters, the next free index), changes nothing if the element has the key already, and otherwise renames the
  element in place, keeping its position. If another element has the key, the mode decides which of the
  two goes (is destroyed): with \<^verbatim>\<open>IF_BEFORE\<close> the current one goes, and the call fails, unless the
  other stands before it, with \<^verbatim>\<open>IF_AFTER\<close> unless the other stands after it, and with \<^verbatim>\<open>IF_NONE\<close> and \<^verbatim>\<open>ANYWAY\<close> always the other one goes.
  A change from a string key to an integer key is left out: there the key pointer of the new bucket is never written.
\<close>

theorem hash_rekey_spec:
  assumes "table ht L kvs" "ptr_of ht L k = Some p" "current ht pos = Some p" "new \<notin> dom (cells ht)"
    and "key_args kt str len" "kt = KEY_IS_STRING \<or> (\<exists>i. k = IntKey i)"
  shows "case rekeyed mode k (arg_key kt str num) kvs of (r, kvs', ds) \<Rightarrow>
    \<exists>ht' L' pos'. zend_hash_update_current_key_ex new garbage ht kt str len num mode pos = Some (r, ht', pos') \<and>
      table ht' L' kvs' \<and> destroyed ht' = dtor_log ht ds \<and> settings ht' = settings ht"
proof -
  have g: "kt = KEY_IS_STRING \<or> garbage = NULLKEY \<or> (\<exists>i. k = IntKey i)" using assms(6) by blast
  show ?thesis using update_current_key_ok [OF assms(1-5) g] by (cases "rekeyed mode k (arg_key kt str num) kvs") simp
qed

theorem hash_rekey_spec_witness:
  "\<exists>ht' L' pos'. zend_hash_update_current_key_ex 3 (Foreign 2 [98]) sample_ht KEY_IS_STRING (Foreign 1 [97, 0]) 2 0 HASH_UPDATE_KEY_ANYWAY (Some (Some 2)) =
      Some (SUCCESS, ht', pos') \<and> table ht' L' [(StrKey [97, 0], 6)] \<and> destroyed ht' = [5]"
proof -
  have p: "ptr_of sample_ht [1, 2] (IntKey 7) = Some 2"
    using ptr_of_at [of sample_ht "[1]" 2 "[]" "[(StrKey [97, 0], 5)]" "IntKey 7" 6 "[]"] tableD(1) [OF sample_table(1)] by simp
  have n: "3 \<notin> dom (cells sample_ht)" unfolding stored_dom [OF tableD(1) [OF sample_table(1)]] by simp
  have d: "dtor_log sample_ht [5] = [5]" using sample_table(2,3) by (simp add: dtor_log_def settings_def)
  have "rekeyed HASH_UPDATE_KEY_ANYWAY (IntKey 7) (StrKey [97, 0]) [(StrKey [97, 0], 5 :: nat), (IntKey 7, 6)] =
      (SUCCESS, [(StrKey [97, 0], 6)], [5])" by (simp add: rekeyed_def rename_def)
  then show ?thesis
    using hash_rekey_spec [OF sample_table(1) p, where pos = "Some (Some 2)" and new = 3 and kt = KEY_IS_STRING and str = "Foreign 1 [97, 0]" and len = 2
        and mode = HASH_UPDATE_KEY_ANYWAY and num = 0 and garbage = "Foreign 2 [98]"] n d
    by (simp add: current_def key_args_def arg_key_def str_arg_def) blast
qed

text \<open>
  C19: symbol tables. Storing under a string key with \<^verbatim>\<open>zend_symtable_update\<close> never faults, and then \<^verbatim>\<open>zend_symtable_find\<close> finds the data under
  every string with the same symbol-table key and what it found before under any other; a decimal numeral of a
  \<^verbatim>\<open>long\<close> is the same key as the integer, so that the integer-key functions find the data too; and
  \<^verbatim>\<open>zend_symtable_del\<close> removes exactly the key.
\<close>

theorem symtable_spec:
  assumes "hash_holds ht kvs" "is_str a" "hash_fresh ht p" "Suc (length kvs) < 2 ^ 32"
  shows "\<exists>ht' ht''. sym_store nDataSize p ht a v = Some ht' \<and> sym_remove ht a = Some ht'' \<and>
    (\<forall>b. is_str b \<longrightarrow> sym_fetch ht' b = (if sym_key b = sym_key a then Some (Some v) else sym_fetch ht b)) \<and>
    (\<forall>b. is_str b \<longrightarrow> sym_fetch ht'' b = (if sym_key b = sym_key a then Some None else sym_fetch ht b)) \<and>
    (\<forall>i. chars a = dec_long (sint i) @ [0] \<longrightarrow> int_fetch ht' i = Some (Some v) \<and> int_fetch ht'' i = Some None)"
proof -
  obtain ht' where s: "sym_store nDataSize p ht a v = Some ht'" using hash_sym.store_ok [OF assms] by blast
  obtain ht'' where r: "sym_remove ht a = Some ht''" using hash_sym.remove_ok [OF assms(1,2)] by blast
  have f: "sym_fetch ht' b = (if sym_key b = sym_key a then Some (Some v) else sym_fetch ht b)"
      "sym_fetch ht'' b = (if sym_key b = sym_key a then Some None else sym_fetch ht b)" if "is_str b" for b
    using hash_sym.fetch_after_store [OF assms that, of nDataSize v] hash_sym.fetch_after_remove [OF assms(1,2) that] s r by auto
  have "int_fetch ht' i = Some (Some v) \<and> int_fetch ht'' i = Some None" if "chars a = dec_long (sint i) @ [0]" for i
    using f [OF assms(2)] numeric_complete [of i] that by (simp add: sym_cases(4))
  then show ?thesis using s r f by blast
qed

theorem symtable_spec_witness:
  "\<exists>ht'. sym_store 8 3 sample_ht (Foreign 1 [55, 0]) 9 = Some ht' \<and> sym_fetch ht' (Foreign 1 [55, 0]) = Some (Some 9)"
proof -
  have "hash_holds sample_ht [(StrKey [97, 0], 5), (IntKey 7, 6)]" using sample_table(1) by (auto simp: hash_holds_def)
  moreover have "hash_fresh sample_ht 3" unfolding hash_fresh_def stored_dom [OF tableD(1) [OF sample_table(1)]] by simp
  moreover have "is_str (Foreign 1 [55, 0])" by (simp add: is_str_def)
  ultimately show ?thesis
    using symtable_spec [of sample_ht "[(StrKey [97, 0], 5), (IntKey 7, 6)]" "Foreign 1 [55, 0]" 3 8 9] by auto
qed

end
