(* ===== verification/Zend_Stacks.thy ===== *)
theory Zend_Stacks
  imports Zend_Prelude
begin

text \<open>
  The engine's growable arrays: \<^verbatim>\<open>zend_stack.c\<close> (a stack of copied elements), \<^verbatim>\<open>zend_ptr_stack.c\<close> with
  its header (a stack of addresses with a moving top pointer) and
  \<^verbatim>\<open>zend_dynamic_array.c\<close>. Reading or writing outside the allocated array, through a null array or from a slot that
  holds nothing is a fault (\<open>None\<close>), and so is a signed overflow of the capacity. Both stacks meet
  the contract \<open>stack_ops\<close>, in which the round trip of pushing and popping is proved once.
\<close>

definition INT_MAX :: int where
  "INT_MAX = 2 ^ 31 - 1"

text \<open>Growing an array keeps its contents; the new slots hold nothing.\<close>

definition realloc_array :: "'d option list option \<Rightarrow> int \<Rightarrow> 'd option list" where
  "realloc_array elements n =
     (let old = (case elements of None \<Rightarrow> [] | Some xs \<Rightarrow> xs)
      in take (nat n) old @ replicate (nat n - length old) None)"

definition array_get :: "'d option list option \<Rightarrow> int \<Rightarrow> 'd option" where
  "array_get elements i =
     (case elements of None \<Rightarrow> None | Some xs \<Rightarrow> if 0 \<le> i \<and> i < int (length xs) then xs ! nat i else None)"

definition array_put :: "'d option list option \<Rightarrow> int \<Rightarrow> 'd option \<Rightarrow> 'd option list option" where
  "array_put elements i x =
     (case elements of None \<Rightarrow> None | Some xs \<Rightarrow> if 0 \<le> i \<and> i < int (length xs) then Some (xs[nat i := x]) else None)"

section \<open>Stacks of elements\<close>

record 'd zend_stack =
  s_top :: int
  s_max :: int
  s_elements :: "'d option list option"

definition STACK_BLOCK_SIZE :: int where
  "STACK_BLOCK_SIZE = 64"

definition zend_stack_init :: "'d zend_stack \<Rightarrow> zresult \<times> 'd zend_stack" where
  "zend_stack_init stack = (SUCCESS, stack\<lparr>s_top := 0, s_max := 0, s_elements := None\<rparr>)"

text \<open>The element is copied into a block of its own, so the slot stands for the copy.\<close>

definition zend_stack_push :: "'d zend_stack \<Rightarrow> 'd \<Rightarrow> (int \<times> 'd zend_stack) option" where
  "zend_stack_push stack element =
     do { stack \<leftarrow>
            (if s_top stack \<ge> s_max stack
             then (if s_max stack + STACK_BLOCK_SIZE > INT_MAX then None
                   else Some (stack\<lparr>s_max := s_max stack + STACK_BLOCK_SIZE,
                     s_elements := Some (realloc_array (s_elements stack) (s_max stack + STACK_BLOCK_SIZE))\<rparr>))
             else Some stack);
          elements \<leftarrow> array_put (s_elements stack) (s_top stack) (Some element);
          Some (s_top stack, stack\<lparr>s_elements := Some elements, s_top := s_top stack + 1\<rparr>) }"

definition zend_stack_top :: "'d zend_stack \<Rightarrow> (zresult \<times> 'd option) option" where
  "zend_stack_top stack =
     (if s_top stack > 0
      then map_option (\<lambda>x. (SUCCESS, Some x)) (array_get (s_elements stack) (s_top stack - 1))
      else Some (FAILURE, None))"

definition zend_stack_del_top :: "'d zend_stack \<Rightarrow> (zresult \<times> 'd zend_stack) option" where
  "zend_stack_del_top stack =
     (if s_top stack > 0
      then do { let top = s_top stack - 1;
                x \<leftarrow> array_get (s_elements stack) top;
                elements \<leftarrow> array_put (s_elements stack) top None;
                Some (SUCCESS, stack\<lparr>s_top := top, s_elements := Some elements\<rparr>) }
      else Some (SUCCESS, stack))"

text \<open>On a stack of integers; \<open>FAILURE\<close> is \<open>- 1\<close>.\<close>

definition zend_stack_int_top :: "int zend_stack \<Rightarrow> int option" where
  "zend_stack_int_top stack =
     do { (r, e) \<leftarrow> zend_stack_top stack;
          if r = FAILURE then Some (- 1) else e }"

definition zend_stack_is_empty :: "'d zend_stack \<Rightarrow> int" where
  "zend_stack_is_empty stack = (if s_top stack = 0 then 1 else 0)"

text \<open>\<open>efree\<close> of a slot that holds nothing is a fault.\<close>

fun free_elements :: "'d option list option \<Rightarrow> int \<Rightarrow> nat \<Rightarrow> 'd option list option" where
  "free_elements elements i 0 = elements"
| "free_elements elements i (Suc n) =
     do { x \<leftarrow> array_get elements i;
          elements \<leftarrow> array_put elements i None;
          free_elements (Some elements) (i + 1) n }"

definition zend_stack_destroy :: "'d zend_stack \<Rightarrow> (zresult \<times> 'd zend_stack) option" where
  "zend_stack_destroy stack =
     (case s_elements stack of
        None \<Rightarrow> Some (SUCCESS, stack)
      | Some elements \<Rightarrow>
          do { elements \<leftarrow> free_elements (Some elements) 0 (nat (s_top stack));
               Some (SUCCESS, stack\<lparr>s_elements := None\<rparr>) })"

definition zend_stack_base :: "'d zend_stack \<Rightarrow> 'd option list option" where
  "zend_stack_base stack = s_elements stack"

definition zend_stack_count :: "'d zend_stack \<Rightarrow> int" where
  "zend_stack_count stack = s_top stack"

datatype stack_apply = ZEND_STACK_APPLY_TOPDOWN | ZEND_STACK_APPLY_BOTTOMUP

text \<open>The loops of the apply functions over the indices \<open>is\<close>; the callback may change the element and threads a
  state of its own, and a true result ends the loop.\<close>

fun apply_indices :: "('d \<Rightarrow> 's \<Rightarrow> bool \<times> 'd \<times> 's) \<Rightarrow> int list \<Rightarrow> 'd zend_stack \<times> 's \<Rightarrow> ('d zend_stack \<times> 's) option" where
  "apply_indices f [] ss = Some ss"
| "apply_indices f (i # is) (stack, s) =
     do { x \<leftarrow> array_get (s_elements stack) i;
          let (stop, x, s) = f x s;
          elements \<leftarrow> array_put (s_elements stack) i (Some x);
          let stack = stack\<lparr>s_elements := Some elements\<rparr>;
          if stop then Some (stack, s) else apply_indices f is (stack, s) }"

definition zend_stack_apply ::
  "'d zend_stack \<Rightarrow> stack_apply \<Rightarrow> ('d \<Rightarrow> 's \<Rightarrow> bool \<times> 'd \<times> 's) \<Rightarrow> 's \<Rightarrow> ('d zend_stack \<times> 's) option" where
  "zend_stack_apply stack type' apply_function s =
     (case type' of
        ZEND_STACK_APPLY_TOPDOWN \<Rightarrow> apply_indices apply_function (rev [0..s_top stack - 1]) (stack, s)
      | ZEND_STACK_APPLY_BOTTOMUP \<Rightarrow> apply_indices apply_function [0..s_top stack - 1] (stack, s))"

definition zend_stack_apply_with_argument ::
  "'d zend_stack \<Rightarrow> stack_apply \<Rightarrow> ('d \<Rightarrow> 'a \<Rightarrow> 's \<Rightarrow> bool \<times> 'd \<times> 's) \<Rightarrow> 'a \<Rightarrow> 's \<Rightarrow> ('d zend_stack \<times> 's) option" where
  "zend_stack_apply_with_argument stack type' apply_function arg s =
     (case type' of
        ZEND_STACK_APPLY_TOPDOWN \<Rightarrow> apply_indices (\<lambda>x. apply_function x arg) (rev [0..s_top stack - 1]) (stack, s)
      | ZEND_STACK_APPLY_BOTTOMUP \<Rightarrow> apply_indices (\<lambda>x. apply_function x arg) [0..s_top stack - 1] (stack, s))"

section \<open>Stacks of addresses\<close>

text \<open>\<open>p_top_element\<close> is the index that the pointer \<^verbatim>\<open>top_element\<close> has in the array.\<close>

record 'p zend_ptr_stack =
  p_top :: int
  p_max :: int
  p_elements :: "'p option list option"
  p_top_element :: int
  p_persistent :: bool

definition PTR_STACK_BLOCK_SIZE :: int where
  "PTR_STACK_BLOCK_SIZE = 64"

definition zend_ptr_stack_init_ex :: "'p zend_ptr_stack \<Rightarrow> bool \<Rightarrow> 'p zend_ptr_stack" where
  "zend_ptr_stack_init_ex stack persistent =
     stack\<lparr>p_top_element := 0, p_elements := None, p_top := 0, p_max := 0, p_persistent := persistent\<rparr>"

definition zend_ptr_stack_init :: "'p zend_ptr_stack \<Rightarrow> 'p zend_ptr_stack" where
  "zend_ptr_stack_init stack = zend_ptr_stack_init_ex stack False"

function grow_max :: "int \<Rightarrow> int \<Rightarrow> int" where
  "grow_max need max' =
     (let max' = max' + PTR_STACK_BLOCK_SIZE in if need > max' then grow_max need max' else max')"
  by auto
termination by (relation "measure (\<lambda>(need, max'). nat (need - max'))") (auto simp: PTR_STACK_BLOCK_SIZE_def)

definition ZEND_PTR_STACK_RESIZE_IF_NEEDED :: "'p zend_ptr_stack \<Rightarrow> int \<Rightarrow> 'p zend_ptr_stack option" where
  "ZEND_PTR_STACK_RESIZE_IF_NEEDED stack count' =
     (if p_top stack + count' > p_max stack
      then (let max' = grow_max (p_top stack + count') (p_max stack)
            in if max' > INT_MAX then None
               else Some (stack\<lparr>p_max := max', p_elements := Some (realloc_array (p_elements stack) max'),
                      p_top_element := p_top stack\<rparr>))
      else Some stack)"

definition put_top :: "'p \<Rightarrow> 'p zend_ptr_stack \<Rightarrow> 'p zend_ptr_stack option" where
  "put_top x stack =
     do { elements \<leftarrow> array_put (p_elements stack) (p_top_element stack) (Some x);
          Some (stack\<lparr>p_elements := Some elements, p_top_element := p_top_element stack + 1\<rparr>) }"

definition take_top :: "'p zend_ptr_stack \<Rightarrow> ('p \<times> 'p zend_ptr_stack) option" where
  "take_top stack =
     do { let stack = stack\<lparr>p_top_element := p_top_element stack - 1\<rparr>;
          x \<leftarrow> array_get (p_elements stack) (p_top_element stack);
          Some (x, stack) }"

fun n_push_loop :: "'p list \<Rightarrow> 'p zend_ptr_stack \<Rightarrow> 'p zend_ptr_stack option" where
  "n_push_loop [] stack = Some stack"
| "n_push_loop (elem # args) stack =
     do { let stack = stack\<lparr>p_top := p_top stack + 1\<rparr>;
          stack \<leftarrow> put_top elem stack;
          n_push_loop args stack }"

definition zend_ptr_stack_n_push :: "'p zend_ptr_stack \<Rightarrow> 'p list \<Rightarrow> 'p zend_ptr_stack option" where
  "zend_ptr_stack_n_push stack args =
     do { stack \<leftarrow> ZEND_PTR_STACK_RESIZE_IF_NEEDED stack (int (length args)); n_push_loop args stack }"

fun zend_ptr_stack_n_pop :: "'p zend_ptr_stack \<Rightarrow> nat \<Rightarrow> ('p list \<times> 'p zend_ptr_stack) option" where
  "zend_ptr_stack_n_pop stack 0 = Some ([], stack)"
| "zend_ptr_stack_n_pop stack (Suc n) =
     do { (x, stack) \<leftarrow> take_top stack;
          let stack = stack\<lparr>p_top := p_top stack - 1\<rparr>;
          (xs, stack) \<leftarrow> zend_ptr_stack_n_pop stack n;
          Some (x # xs, stack) }"

definition zend_ptr_stack_destroy :: "'p zend_ptr_stack \<Rightarrow> 'p zend_ptr_stack" where
  "zend_ptr_stack_destroy stack =
     (case p_elements stack of None \<Rightarrow> stack | Some _ \<Rightarrow> stack\<lparr>p_elements := Some []\<rparr>)"

fun ptr_apply_loop :: "('p \<Rightarrow> 's \<Rightarrow> 's) \<Rightarrow> nat \<Rightarrow> 'p zend_ptr_stack \<Rightarrow> 's \<Rightarrow> 's option" where
  "ptr_apply_loop func 0 stack s = Some s"
| "ptr_apply_loop func (Suc i) stack s =
     do { x \<leftarrow> array_get (p_elements stack) (int i); ptr_apply_loop func i stack (func x s) }"

definition zend_ptr_stack_apply :: "'p zend_ptr_stack \<Rightarrow> ('p \<Rightarrow> 's \<Rightarrow> 's) \<Rightarrow> 's \<Rightarrow> 's option" where
  "zend_ptr_stack_apply stack func s = ptr_apply_loop func (nat (p_top stack)) stack s"

text \<open>The addresses released by \<^verbatim>\<open>pefree\<close> are returned in order.\<close>

definition zend_ptr_stack_clean ::
  "'p zend_ptr_stack \<Rightarrow> ('p \<Rightarrow> 's \<Rightarrow> 's) \<Rightarrow> bool \<Rightarrow> 's \<Rightarrow> ('p zend_ptr_stack \<times> 's \<times> 'p list) option" where
  "zend_ptr_stack_clean stack func free_them s =
     do { s \<leftarrow> zend_ptr_stack_apply stack func s;
          freed \<leftarrow> (if free_them then ptr_apply_loop (\<lambda>x xs. xs @ [x]) (nat (p_top stack)) stack [] else Some []);
          Some (stack\<lparr>p_top := 0, p_top_element := 0\<rparr>, s, freed) }"

definition zend_ptr_stack_num_elements :: "'p zend_ptr_stack \<Rightarrow> int" where
  "zend_ptr_stack_num_elements stack = p_top stack"

definition zend_ptr_stack_3_push :: "'p zend_ptr_stack \<Rightarrow> 'p \<Rightarrow> 'p \<Rightarrow> 'p \<Rightarrow> 'p zend_ptr_stack option" where
  "zend_ptr_stack_3_push stack a b c =
     do { stack \<leftarrow> ZEND_PTR_STACK_RESIZE_IF_NEEDED stack 3;
          stack \<leftarrow> put_top a (stack\<lparr>p_top := p_top stack + 3\<rparr>);
          stack \<leftarrow> put_top b stack;
          put_top c stack }"

definition zend_ptr_stack_2_push :: "'p zend_ptr_stack \<Rightarrow> 'p \<Rightarrow> 'p \<Rightarrow> 'p zend_ptr_stack option" where
  "zend_ptr_stack_2_push stack a b =
     do { stack \<leftarrow> ZEND_PTR_STACK_RESIZE_IF_NEEDED stack 2;
          stack \<leftarrow> put_top a (stack\<lparr>p_top := p_top stack + 2\<rparr>);
          put_top b stack }"

definition zend_ptr_stack_3_pop :: "'p zend_ptr_stack \<Rightarrow> ('p \<times> 'p \<times> 'p \<times> 'p zend_ptr_stack) option" where
  "zend_ptr_stack_3_pop stack =
     do { (a, stack) \<leftarrow> take_top stack; (b, stack) \<leftarrow> take_top stack; (c, stack) \<leftarrow> take_top stack;
          Some (a, b, c, stack\<lparr>p_top := p_top stack - 3\<rparr>) }"

definition zend_ptr_stack_2_pop :: "'p zend_ptr_stack \<Rightarrow> ('p \<times> 'p \<times> 'p zend_ptr_stack) option" where
  "zend_ptr_stack_2_pop stack =
     do { (a, stack) \<leftarrow> take_top stack; (b, stack) \<leftarrow> take_top stack;
          Some (a, b, stack\<lparr>p_top := p_top stack - 2\<rparr>) }"

definition zend_ptr_stack_push :: "'p zend_ptr_stack \<Rightarrow> 'p \<Rightarrow> 'p zend_ptr_stack option" where
  "zend_ptr_stack_push stack x =
     do { stack \<leftarrow> ZEND_PTR_STACK_RESIZE_IF_NEEDED stack 1;
          put_top x (stack\<lparr>p_top := p_top stack + 1\<rparr>) }"

definition zend_ptr_stack_pop :: "'p zend_ptr_stack \<Rightarrow> ('p \<times> 'p zend_ptr_stack) option" where
  "zend_ptr_stack_pop stack = take_top (stack\<lparr>p_top := p_top stack - 1\<rparr>)"

definition zend_ptr_stack_top :: "'p zend_ptr_stack \<Rightarrow> 'p option" where
  "zend_ptr_stack_top stack = array_get (p_elements stack) (p_top stack - 1)"

section \<open>Dynamic arrays\<close>

text \<open>\<open>da_size\<close> is the number of bytes of the allocated block. The functions return an offset into the block;
  whether the element there lies inside the block is what the theorem below is about.\<close>

record dynamic_array =
  da_size :: nat
  element_size :: uint
  da_current :: uint
  allocated :: uint

definition zend_dynamic_array_init :: "dynamic_array \<Rightarrow> uint \<Rightarrow> uint \<Rightarrow> dynamic_array" where
  "zend_dynamic_array_init da elem_size size' =
     da\<lparr>element_size := elem_size, allocated := size', da_current := 0, da_size := unat (size' * elem_size)\<rparr>"

definition zend_dynamic_array_push :: "dynamic_array \<Rightarrow> nat \<times> dynamic_array" where
  "zend_dynamic_array_push da =
     (let da = (if da_current da = allocated da
                then da\<lparr>allocated := allocated da * 2, da_size := unat (allocated da * 2 * element_size da)\<rparr> else da)
      in (unat (da_current da * element_size da), da\<lparr>da_current := da_current da + 1\<rparr>))"

definition zend_dynamic_array_pop :: "dynamic_array \<Rightarrow> nat \<times> dynamic_array" where
  "zend_dynamic_array_pop da =
     (let da = da\<lparr>da_current := da_current da - 1\<rparr> in (unat (da_current da * element_size da), da))"

definition zend_dynamic_array_get_element :: "dynamic_array \<Rightarrow> uint \<Rightarrow> nat option" where
  "zend_dynamic_array_get_element da index =
     (if index \<ge> da_current da then None else Some (unat (index * element_size da)))"


declare grow_max.simps [simp del]

section \<open>The contract of a stack\<close>

fun push_list :: "('s \<Rightarrow> 'd \<Rightarrow> 's option) \<Rightarrow> 'd list \<Rightarrow> 's \<Rightarrow> 's option" where
  "push_list push [] s = Some s"
| "push_list push (x # xs) s = do { s \<leftarrow> push s x; push_list push xs s }"

fun pop_list :: "('s \<Rightarrow> ('d \<times> 's) option) \<Rightarrow> nat \<Rightarrow> 's \<Rightarrow> ('d list \<times> 's) option" where
  "pop_list pop 0 s = Some ([], s)"
| "pop_list pop (Suc n) s = do { (x, s) \<leftarrow> pop s; (xs, s) \<leftarrow> pop_list pop n s; Some (x # xs, s) }"

locale stack_ops =
  fixes repr :: "'s \<Rightarrow> 'd list \<Rightarrow> bool"
    and push :: "'s \<Rightarrow> 'd \<Rightarrow> 's option"
    and pop :: "'s \<Rightarrow> ('d \<times> 's) option"
  assumes push_law: "repr s xs \<Longrightarrow> int (length xs) + 64 \<le> INT_MAX \<Longrightarrow> \<exists>s'. push s x = Some s' \<and> repr s' (xs @ [x])"
    and pop_law: "repr s (xs @ [x]) \<Longrightarrow> \<exists>s'. pop s = Some (x, s') \<and> repr s' xs"
begin

lemma push_list_ok:
  "repr s ys \<Longrightarrow> int (length ys + length xs) + 64 \<le> INT_MAX \<Longrightarrow> \<exists>s'. push_list push xs s = Some s' \<and> repr s' (ys @ xs)"
proof (induction xs arbitrary: s ys)
  case (Cons x xs)
  obtain s1 where s1: "push s x = Some s1" "repr s1 (ys @ [x])" using push_law [OF Cons.prems(1)] Cons.prems(2) by auto
  show ?case using Cons.IH [OF s1(2)] Cons.prems(2) s1(1) by simp
qed simp

lemma pop_list_ok: "repr s (ys @ xs) \<Longrightarrow> \<exists>s'. pop_list pop (length xs) s = Some (rev xs, s') \<and> repr s' ys"
proof (induction xs arbitrary: s rule: rev_induct)
  case (snoc x xs)
  obtain s1 where s1: "pop s = Some (x, s1)" "repr s1 (ys @ xs)" using pop_law [of s "ys @ xs" x] snoc.prems by auto
  show ?case using snoc.IH [OF s1(2)] s1(1) by auto
qed simp

lemma push_pop_list:
  assumes "repr s ys" "int (length ys + length xs) + 64 \<le> INT_MAX"
  shows "\<exists>s'. do { s \<leftarrow> push_list push xs s; pop_list pop (length xs) s } = Some (rev xs, s') \<and> repr s' ys"
proof -
  obtain s1 where s1: "push_list push xs s = Some s1" "repr s1 (ys @ xs)" using push_list_ok [OF assms] by blast
  then show ?thesis using pop_list_ok [OF s1(2)] by simp
qed

end

section \<open>Both stacks meet the contract\<close>

text \<open>An array whose first slots hold \<open>xs\<close>.\<close>

definition array_holds :: "'d option list option \<Rightarrow> int \<Rightarrow> 'd list \<Rightarrow> bool" where
  "array_holds elements max' xs \<longleftrightarrow>
     int (length xs) \<le> max' \<and> max' \<le> INT_MAX \<and>
     (case elements of None \<Rightarrow> max' = 0 | Some arr \<Rightarrow> int (length arr) = max' \<and> take (length xs) arr = map Some xs)"

lemma array_holds_grow:
  assumes "array_holds elements m xs" "m \<le> n" "n \<le> INT_MAX"
  shows "array_holds (Some (realloc_array elements n)) n xs"
  using assms by (auto simp: array_holds_def realloc_array_def Let_def split: option.splits)

lemma array_holds_put:
  assumes "array_holds elements m xs" "int (length xs) < m"
  shows "\<exists>arr. array_put elements (int (length xs)) (Some x) = Some arr \<and> array_holds (Some arr) m (xs @ [x])"
proof -
  obtain arr where arr: "elements = Some arr" "int (length arr) = m" "take (length xs) arr = map Some xs"
    using assms by (cases elements) (auto simp: array_holds_def)
  have "take (Suc (length xs)) (arr[length xs := Some x]) = map Some xs @ [Some x]"
    using assms(2) arr(2,3) by (subst take_Suc_conv_app_nth) auto
  then show ?thesis using arr assms by (auto simp: array_put_def array_holds_def)
qed

lemma array_holds_get:
  assumes "array_holds elements m xs" "i < length xs"
  shows "array_get elements (int i) = Some (xs ! i)"
proof -
  obtain arr where arr: "elements = Some arr" "int (length arr) = m" "take (length xs) arr = map Some xs"
    using assms by (cases elements) (auto simp: array_holds_def)
  have "arr ! i = take (length xs) arr ! i" using assms(2) by simp
  also have "\<dots> = Some (xs ! i)" using arr(3) assms(2) by simp
  finally have "arr ! i = Some (xs ! i)" .
  then show ?thesis using arr assms by (simp add: array_get_def array_holds_def)
qed

lemma array_holds_shorter: "array_holds elements m (xs @ ys) \<Longrightarrow> array_holds elements m xs"
proof -
  assume a: "array_holds elements m (xs @ ys)"
  have "take (length xs) arr = map Some xs" if "take (length xs + length ys) arr = map Some xs @ map Some ys" for arr
    using arg_cong [OF that, of "take (length xs)"] by simp
  with a show ?thesis by (auto simp: array_holds_def split: option.splits)
qed

lemma array_holds_clear:
  assumes "array_holds elements m (xs @ [x])"
  shows "\<exists>arr. array_put elements (int (length xs)) None = Some arr \<and> array_holds (Some arr) m xs"
  using array_holds_shorter [OF assms] assms by (auto simp: array_put_def array_holds_def split: option.splits)

definition stack_repr :: "'d zend_stack \<Rightarrow> 'd list \<Rightarrow> bool" where
  "stack_repr s xs \<longleftrightarrow> s_top s = int (length xs) \<and> array_holds (s_elements s) (s_max s) xs"

definition stack_push :: "'d zend_stack \<Rightarrow> 'd \<Rightarrow> 'd zend_stack option" where
  "stack_push s x = map_option snd (zend_stack_push s x)"

definition stack_pop :: "'d zend_stack \<Rightarrow> ('d \<times> 'd zend_stack) option" where
  "stack_pop s = do { (r, e) \<leftarrow> zend_stack_top s; e \<leftarrow> e; (r, s) \<leftarrow> zend_stack_del_top s; Some (e, s) }"

interpretation elem_stack: stack_ops stack_repr stack_push stack_pop
proof
  fix s :: "'d zend_stack" and xs x
  assume r: "stack_repr s xs" and room: "int (length xs) + 64 \<le> INT_MAX"
  show "\<exists>s'. stack_push s x = Some s' \<and> stack_repr s' (xs @ [x])"
  proof (cases "s_top s \<ge> s_max s")
    case True
    then have m: "s_max s = int (length xs)" using r by (auto simp: stack_repr_def array_holds_def)
    have "array_holds (Some (realloc_array (s_elements s) (s_max s + 64))) (s_max s + 64) xs"
      by (rule array_holds_grow) (use r room m in \<open>auto simp: stack_repr_def\<close>)
    from array_holds_put [OF this, of x] m show ?thesis
      using True room r by (auto simp: stack_push_def zend_stack_push_def STACK_BLOCK_SIZE_def stack_repr_def)
  next
    case False
    then show ?thesis
      using array_holds_put [of "s_elements s" "s_max s" xs x] r by (auto simp: stack_push_def zend_stack_push_def stack_repr_def)
  qed
next
  fix s :: "'d zend_stack" and xs x
  assume r: "stack_repr s (xs @ [x])"
  then have a: "array_holds (s_elements s) (s_max s) (xs @ [x])" "s_top s = int (length xs) + 1" by (simp_all add: stack_repr_def)
  show "\<exists>s'. stack_pop s = Some (x, s') \<and> stack_repr s' xs"
    using array_holds_get [OF a(1), of "length xs"] array_holds_clear [OF a(1)] a(2)
    by (auto simp: stack_pop_def zend_stack_top_def zend_stack_del_top_def Let_def stack_repr_def)
qed

definition ptr_stack_repr :: "'p zend_ptr_stack \<Rightarrow> 'p list \<Rightarrow> bool" where
  "ptr_stack_repr s xs \<longleftrightarrow>
     p_top s = int (length xs) \<and> p_top_element s = p_top s \<and> array_holds (p_elements s) (p_max s) xs"

lemma grow_max_bounds: "need > m \<Longrightarrow> m < grow_max need m \<and> need \<le> grow_max need m \<and> grow_max need m < need + 64"
proof (induction need m rule: grow_max.induct)
  case (1 need m)
  then show ?case by (subst (1 2 3) grow_max.simps) (auto simp: Let_def PTR_STACK_BLOCK_SIZE_def)
qed

lemma ptr_stack_resize_ok:
  assumes r: "ptr_stack_repr s xs" and room: "int (length xs) + count' + 63 \<le> INT_MAX"
  shows "\<exists>s'. ZEND_PTR_STACK_RESIZE_IF_NEEDED s count' = Some s' \<and> ptr_stack_repr s' xs \<and> int (length xs) + count' \<le> p_max s'"
proof (cases "p_top s + count' > p_max s")
  case True
  note g = grow_max_bounds [OF True]
  have "array_holds (Some (realloc_array (p_elements s) (grow_max (p_top s + count') (p_max s)))) (grow_max (p_top s + count') (p_max s)) xs"
    by (rule array_holds_grow) (use r room g in \<open>auto simp: ptr_stack_repr_def\<close>)
  then show ?thesis using True g r room by (simp add: ZEND_PTR_STACK_RESIZE_IF_NEEDED_def ptr_stack_repr_def Let_def)
qed (use r in \<open>simp add: ZEND_PTR_STACK_RESIZE_IF_NEEDED_def ptr_stack_repr_def\<close>)

lemma n_push_loop_ok:
  assumes "ptr_stack_repr s xs" "int (length xs + length ys) \<le> p_max s"
  shows "\<exists>s'. n_push_loop ys s = Some s' \<and> ptr_stack_repr s' (xs @ ys)"
  using assms
proof (induction ys arbitrary: s xs)
  case (Cons y ys)
  have a: "array_holds (p_elements s) (p_max s) xs" "p_top s = int (length xs)" "p_top_element s = int (length xs)"
    using Cons.prems(1) by (simp_all add: ptr_stack_repr_def)
  obtain arr where arr: "array_put (p_elements s) (int (length xs)) (Some y) = Some arr" "array_holds (Some arr) (p_max s) (xs @ [y])"
    using array_holds_put [OF a(1), of y] Cons.prems(2) by auto
  let ?s = "s\<lparr>p_top := p_top s + 1, p_elements := Some arr, p_top_element := p_top_element s + 1\<rparr>"
  have "ptr_stack_repr ?s (xs @ [y])" using arr(2) a by (simp add: ptr_stack_repr_def)
  from Cons.IH [OF this] Cons.prems(2) arr(1) a show ?case by (simp add: put_top_def Let_def)
qed simp

interpretation ptr_stack: stack_ops ptr_stack_repr zend_ptr_stack_push zend_ptr_stack_pop
proof
  fix s :: "'p zend_ptr_stack" and xs x
  assume r: "ptr_stack_repr s xs" and room: "int (length xs) + 64 \<le> INT_MAX"
  obtain s1 where s1: "ZEND_PTR_STACK_RESIZE_IF_NEEDED s 1 = Some s1" "ptr_stack_repr s1 xs" "int (length xs) + 1 \<le> p_max s1"
    using ptr_stack_resize_ok [OF r, of 1] room by auto
  then show "\<exists>s'. zend_ptr_stack_push s x = Some s' \<and> ptr_stack_repr s' (xs @ [x])"
    using n_push_loop_ok [OF s1(2), of "[x]"] by (auto simp: zend_ptr_stack_push_def Let_def split: bind_splits)
next
  fix s :: "'p zend_ptr_stack" and xs x
  assume r: "ptr_stack_repr s (xs @ [x])"
  then have a: "array_holds (p_elements s) (p_max s) (xs @ [x])" "p_top s = int (length xs) + 1" "p_top_element s = int (length xs) + 1"
    by (simp_all add: ptr_stack_repr_def)
  show "\<exists>s'. zend_ptr_stack_pop s = Some (x, s') \<and> ptr_stack_repr s' xs"
    using array_holds_get [OF a(1), of "length xs"] array_holds_shorter [OF a(1)] a
    by (auto simp: zend_ptr_stack_pop_def take_top_def Let_def ptr_stack_repr_def)
qed


lemma n_push_ok:
  assumes "ptr_stack_repr s xs" "int (length xs + length ys) + 63 \<le> INT_MAX"
  shows "\<exists>s'. zend_ptr_stack_n_push s ys = Some s' \<and> ptr_stack_repr s' (xs @ ys)"
proof -
  obtain s1 where s1: "ZEND_PTR_STACK_RESIZE_IF_NEEDED s (int (length ys)) = Some s1" "ptr_stack_repr s1 xs"
      "int (length xs) + int (length ys) \<le> p_max s1"
    using ptr_stack_resize_ok [OF assms(1), of "int (length ys)"] assms(2) by auto
  then show ?thesis using n_push_loop_ok [OF s1(2), of ys] by (simp add: zend_ptr_stack_n_push_def)
qed

lemma n_pop_pop_list: "zend_ptr_stack_n_pop s n = pop_list zend_ptr_stack_pop n s"
proof -
  have t: "take_top (s\<lparr>p_top := k\<rparr>) = map_option (\<lambda>(x, s). (x, s\<lparr>p_top := k\<rparr>)) (take_top s)" for s :: "'a zend_ptr_stack" and k
    by (simp add: take_top_def Let_def map_option_bind comp_def option.map_comp split: bind_splits)
  have e: "take_top s = Some (x, s') \<Longrightarrow> p_top s' = p_top s" for s s' :: "'a zend_ptr_stack" and x
    by (auto simp: take_top_def Let_def split: bind_splits)
  show ?thesis
    by (induction n arbitrary: s) (auto simp: zend_ptr_stack_pop_def t Let_def e split: bind_splits)
qed

lemma ptr_apply_loop_ok:
  assumes "array_holds (p_elements s) m xs" "n \<le> length xs"
  shows "ptr_apply_loop func n s st = Some (fold func (rev (take n xs)) st)"
  using assms(2)
proof (induction n arbitrary: st)
  case (Suc n)
  then show ?case using array_holds_get [OF assms(1), of n] by (simp add: take_Suc_conv_app_nth)
qed simp

lemma free_elements_ok:
  assumes "array_holds (Some arr) m (zs @ xs)"
  shows "\<exists>arr'. free_elements (Some arr) (int (length zs)) (length xs) = Some arr'"
proof -
  have "\<exists>arr'. free_elements (Some arr) (int i) n = Some arr'"
    if "i + n \<le> length arr" "\<And>j. i \<le> j \<Longrightarrow> j < i + n \<Longrightarrow> arr ! j \<noteq> None" for arr :: "'a option list" and i n
    using that
  proof (induction n arbitrary: arr i)
    case (Suc n)
    then obtain x where x: "arr ! i = Some x" by fastforce
    have "\<exists>arr'. free_elements (Some (arr[i := None])) (int (Suc i)) n = Some arr'"
      by (rule Suc.IH) (use Suc.prems in auto)
    then show ?case using x Suc.prems(1) by (simp add: array_get_def array_put_def add.commute)
  qed simp
  moreover have "arr ! j \<noteq> None" if "j < length (zs @ xs)" for j
    using array_holds_get [OF assms that] assms by (auto simp: array_get_def split: if_splits)
  ultimately show ?thesis using assms by (auto simp: array_holds_def)
qed

section \<open>Properties\<close>

text \<open>
  C26: both stacks are last in, first out, whatever they hold and however often the array has to grow:
  pushing any list of elements never faults, and popping as many elements returns them in
  reverse order and leaves what was there before. The variadic \<^verbatim>\<open>zend_ptr_stack_n_push\<close> and
  \<^verbatim>\<open>zend_ptr_stack_n_pop\<close> do the same with one growth of the array.
\<close>

theorem stacks_lifo:
  assumes "stack_repr s ys" "ptr_stack_repr t zs" "int (length ys + length xs) + 64 \<le> INT_MAX"
    and "int (length zs + length xs) + 64 \<le> INT_MAX"
  shows "(\<exists>s'. do { s \<leftarrow> push_list stack_push xs s; pop_list stack_pop (length xs) s } = Some (rev xs, s') \<and> stack_repr s' ys) \<and>
    (\<exists>t'. do { t \<leftarrow> push_list zend_ptr_stack_push xs t; pop_list zend_ptr_stack_pop (length xs) t } = Some (rev xs, t') \<and>
      ptr_stack_repr t' zs) \<and>
    (\<exists>t'. do { t \<leftarrow> zend_ptr_stack_n_push t xs; zend_ptr_stack_n_pop t (length xs) } = Some (rev xs, t') \<and> ptr_stack_repr t' zs)"
proof (intro conjI)
  show "\<exists>s'. do { s \<leftarrow> push_list stack_push xs s; pop_list stack_pop (length xs) s } = Some (rev xs, s') \<and> stack_repr s' ys"
    by (rule elem_stack.push_pop_list [OF assms(1,3)])
  show "\<exists>t'. do { t \<leftarrow> push_list zend_ptr_stack_push xs t; pop_list zend_ptr_stack_pop (length xs) t } = Some (rev xs, t') \<and>
      ptr_stack_repr t' zs"
    by (rule ptr_stack.push_pop_list [OF assms(2,4)])
  obtain t1 where t1: "zend_ptr_stack_n_push t xs = Some t1" "ptr_stack_repr t1 (zs @ xs)"
    using n_push_ok [OF assms(2), of xs] assms(4) by auto
  then show "\<exists>t'. do { t \<leftarrow> zend_ptr_stack_n_push t xs; zend_ptr_stack_n_pop t (length xs) } = Some (rev xs, t') \<and> ptr_stack_repr t' zs"
    using ptr_stack.pop_list_ok [OF t1(2)] by (simp add: n_pop_pop_list)
qed

definition empty_stack :: "'d zend_stack" where
  "empty_stack = snd (zend_stack_init \<lparr>s_top = 7, s_max = 9, s_elements = None\<rparr>)"

definition empty_ptr_stack :: "'p zend_ptr_stack" where
  "empty_ptr_stack = zend_ptr_stack_init
     \<lparr>p_top = 3, p_max = 2, p_elements = None, p_top_element = 5, p_persistent = True\<rparr>"

lemma empty_stacks_repr: "stack_repr empty_stack []" "ptr_stack_repr empty_ptr_stack []"
  by (simp_all add: empty_stack_def empty_ptr_stack_def zend_stack_init_def zend_ptr_stack_init_def zend_ptr_stack_init_ex_def
      stack_repr_def ptr_stack_repr_def array_holds_def INT_MAX_def)

theorem stacks_lifo_witness:
  "\<exists>s'. do { s \<leftarrow> push_list stack_push [1, 2, 3 :: nat] empty_stack; pop_list stack_pop (length [1, 2, 3 :: nat]) s } =
    Some (rev [1, 2, 3], s') \<and> stack_repr s' []"
  by (rule conjunct1 [OF stacks_lifo [OF empty_stacks_repr(1) empty_stacks_repr(2)]]) (simp_all add: INT_MAX_def)

text \<open>
  Releasing the stacks. \<^verbatim>\<open>zend_stack_destroy\<close> frees every element (none twice) and the array, but leaves
  \<^verbatim>\<open>top\<close> and \<^verbatim>\<open>max\<close> as they were: a destroyed stack still counts its elements, and using it before
  \<^verbatim>\<open>zend_stack_init\<close> reads or writes through the null array. \<^verbatim>\<open>zend_ptr_stack_clean\<close> runs the
  callback on every element from the top down, frees each element once when asked to, and leaves an empty stack that can
  be used again.
\<close>

theorem stacks_release:
  assumes "stack_repr s ys" "ptr_stack_repr t zs"
  shows "\<exists>s' t'. zend_stack_destroy s = Some (SUCCESS, s') \<and> zend_stack_count s' = int (length ys) \<and> zend_stack_base s' = None \<and>
    (ys \<noteq> [] \<longrightarrow> zend_stack_top s' = None) \<and> (int (length ys) < s_max s \<longrightarrow> zend_stack_push s' x = None) \<and>
    zend_ptr_stack_clean t func free_them st = Some (t', fold func (rev zs) st, if free_them then rev zs else []) \<and> ptr_stack_repr t' []"
proof -
  have a: "array_holds (s_elements s) (s_max s) ys" "s_top s = int (length ys)"
    and b: "array_holds (p_elements t) (p_max t) zs" "p_top t = int (length zs)"
    using assms by (simp_all add: stack_repr_def ptr_stack_repr_def)
  have d: "zend_stack_destroy s = Some (SUCCESS, s\<lparr>s_elements := None\<rparr>)"
  proof (cases "s_elements s")
    case None
    then have "s\<lparr>s_elements := None\<rparr> = s" by simp
    then show ?thesis using None by (simp add: zend_stack_destroy_def)
  next
    case (Some arr)
    then show ?thesis using free_elements_ok [of arr "s_max s" "[]" ys] a by (auto simp: zend_stack_destroy_def)
  qed
  have "fold (\<lambda>x xs. xs @ [x]) ws ys = ys @ ws" for ws ys :: "'b list" by (induction ws arbitrary: ys) auto
  then have "zend_ptr_stack_clean t func free_them st =
      Some (t\<lparr>p_top := 0, p_top_element := 0\<rparr>, fold func (rev zs) st, if free_them then rev zs else [])"
    using b(2) by (simp add: zend_ptr_stack_clean_def zend_ptr_stack_apply_def ptr_apply_loop_ok [OF b(1), of "length zs"])
  moreover have "ptr_stack_repr (t\<lparr>p_top := 0, p_top_element := 0\<rparr>) []"
    using array_holds_shorter [of _ _ "[]" zs] b(1) by (simp add: ptr_stack_repr_def)
  ultimately show ?thesis
    using d a(2) by (intro exI [of _ "s\<lparr>s_elements := None\<rparr>"] exI [of _ "t\<lparr>p_top := 0, p_top_element := 0\<rparr>"])
      (auto simp: zend_stack_count_def zend_stack_base_def zend_stack_top_def zend_stack_push_def array_get_def array_put_def)
qed

text \<open>The block of an array has exactly the size of its elements, and the elements in use lie in it.\<close>

definition da_ok :: "dynamic_array \<Rightarrow> bool" where
  "da_ok da \<longleftrightarrow> da_size da = unat (allocated da) * unat (element_size da) \<and> da_size da < 2 ^ 32 \<and> da_current da \<le> allocated da"

text \<open>A push has room if the block is not full, or if it is not empty and its size can be doubled in 32 bits.\<close>

definition da_room :: "dynamic_array \<Rightarrow> bool" where
  "da_room da \<longleftrightarrow> da_current da < allocated da \<or> 0 < allocated da \<and> 2 * da_size da < 2 ^ 32"

lemma da_init_ok: "da_ok (zend_dynamic_array_init da e n) \<longleftrightarrow> unat n * unat e < 2 ^ 32"
proof
  assume "da_ok (zend_dynamic_array_init da e n)"
  then have "unat (n * e) = unat n * unat e" by (simp add: da_ok_def zend_dynamic_array_init_def)
  moreover have "unat (n * e) < 2 ^ 32" using unsigned_less [of "n * e"] by simp
  ultimately show "unat n * unat e < 2 ^ 32" by simp
next
  assume "unat n * unat e < 2 ^ 32"
  then show "da_ok (zend_dynamic_array_init da e n)" by (simp add: da_ok_def zend_dynamic_array_init_def unat_word_ariths)
qed

lemma da_push_room:
  assumes ok: "da_ok da" and e: "0 < element_size da" and r: "da_room da"
  shows "case zend_dynamic_array_push da of (offset, da') \<Rightarrow>
    offset = unat (da_current da) * unat (element_size da) \<and> offset + unat (element_size da) \<le> da_size da' \<and> da_ok da' \<and>
    da_current da' = da_current da + 1 \<and> zend_dynamic_array_get_element da' (da_current da) = Some offset \<and>
    zend_dynamic_array_pop da' = (offset, da'\<lparr>da_current := da_current da\<rparr>)"
proof -
  define a e c where "a = unat (allocated da)" and "e = unat (element_size da)" and "c = unat (da_current da)"
  have s: "da_size da = a * e" "a * e < 2 ^ 32" using ok by (simp_all add: da_ok_def a_def e_def)
  have b: "0 < e" "c \<le> a" using ok assms(2) by (auto simp: da_ok_def a_def e_def c_def word_le_nat_alt word_less_nat_alt)
  have a0: "0 < a" using r by (auto simp: da_room_def a_def word_less_nat_alt)
  have "c * e \<le> a * e" using b by simp
  then have ce: "c * e < 2 ^ 32" using s(2) by linarith
  have uc: "unat (da_current da * element_size da) = c * e" using ce unfolding e_def c_def by (simp add: unat_word_ariths)
  show ?thesis
  proof (cases "da_current da = allocated da")
    case True
    then have ca: "c = a" and d: "2 * (a * e) < 2 ^ 32" using r s(1) by (simp_all add: a_def c_def da_room_def)
    have "2 * a \<le> 2 * (a * e)" using b(1) by simp
    then have "2 * a < 2 ^ 32" using d by linarith
    then have u1: "unat (allocated da * 2) = 2 * a" unfolding a_def by (simp add: unat_word_ariths)
    have u2: "unat (allocated da * 2 * element_size da) = 2 * (a * e)"
      using d unfolding unat_word_ariths(2) [of "allocated da * 2"] u1 by (simp add: e_def mult.assoc)
    have c1: "unat (da_current da + 1) = Suc c" using a0 \<open>2 * a < 2 ^ 32\<close> ca by (simp add: c_def unat_word_ariths)
    have "a * e + e \<le> 2 * (a * e)" using a0 mult_le_mono1 [of "Suc a" "2 * a" e] by (simp add: mult.assoc)
    moreover have "da_current da + 1 \<le> allocated da * 2" using a0 u1 c1 ca by (simp add: word_le_nat_alt)
    moreover have "\<not> da_current da + 1 \<le> da_current da" using c1 by (simp add: word_le_nat_alt c_def)
    moreover have "da_current da * element_size da = allocated da * element_size da" using True by simp
    ultimately show ?thesis using True u1 u2 uc d ca
      by (simp add: zend_dynamic_array_push_def zend_dynamic_array_get_element_def zend_dynamic_array_pop_def da_ok_def Let_def a_def e_def c_def)
  next
    case False
    then have ca: "c < a" using b(2) by (auto simp: a_def c_def order_le_less word_unat_eq_iff)
    have "unat (da_current da) + 1 < 2 ^ 32" using ca unsigned_less [of "allocated da", where ?'a = nat] unfolding a_def c_def by simp
    then have c1: "unat (da_current da + 1) = Suc c" by (simp add: c_def unat_word_ariths)
    have "c * e + e \<le> a * e" using ca mult_le_mono1 [of "Suc c" a e] by simp
    moreover have "da_current da + 1 \<le> allocated da" using ca c1 by (simp add: word_le_nat_alt a_def)
    moreover have "\<not> da_current da + 1 \<le> da_current da" using c1 by (simp add: word_le_nat_alt c_def)
    ultimately show ?thesis using False uc s
      by (simp add: zend_dynamic_array_push_def zend_dynamic_array_get_element_def zend_dynamic_array_pop_def da_ok_def Let_def a_def e_def c_def)
  qed
qed

lemma da_push_no_room:
  assumes ok: "da_ok da" and e: "0 < element_size da" and r: "\<not> da_room da"
  shows "case zend_dynamic_array_push da of (offset, da') \<Rightarrow> da_size da' < offset + unat (element_size da)"
proof -
  define a e where "a = unat (allocated da)" and "e = unat (element_size da)"
  have s: "da_size da = a * e" "a * e < 2 ^ 32" using ok by (simp_all add: da_ok_def a_def e_def)
  have e0: "0 < e" using assms(2) by (simp add: e_def word_less_nat_alt)
  have full: "da_current da = allocated da" using ok r by (auto simp: da_ok_def da_room_def)
  have n: "a = 0 \<or> 2 ^ 32 \<le> 2 * (a * e)" using r s(1) by (auto simp: da_room_def a_def word_less_nat_alt)
  have "unat (allocated da * 2 * element_size da) = (2 * (a * e)) mod 2 ^ 32"
    unfolding unat_word_ariths(2) by (simp add: a_def e_def mod_mult_left_eq mult.assoc mult.left_commute [of _ 2])
  moreover have "(2 * (a * e)) mod 2 ^ 32 < a * e + e"
  proof (cases "a = 0")
    case False
    then have "2 ^ 32 \<le> 2 * (a * e)" using n by blast
    then have "(2 * (a * e)) mod 2 ^ 32 = 2 * (a * e) - 2 ^ 32" using s(2) by (simp add: le_mod_geq)
    moreover have "2 * x - 2 ^ 32 < x + e" if "x < 2 ^ 32" for x using that e0 by simp
    ultimately show ?thesis using s(2) by simp
  qed (use e0 in simp)
  moreover have "unat (allocated da * element_size da) = a * e" using s(2) unfolding a_def e_def by (simp add: unat_word_ariths)
  ultimately show ?thesis using full by (simp add: zend_dynamic_array_push_def Let_def e_def)
qed

text \<open>
  C27: when a dynamic array stays inside its block. The block of a new array has the size of its elements exactly if the product of their
  number and size fits 32 bits. From then on a push hands out the next element, inside the (perhaps doubled) block, and keeps the array
  well formed, exactly if the block is not full, or is not empty and twice its size still fits 32 bits; otherwise
  (an array created for 0 elements, or one whose doubled size wraps around) the element that is handed out lies outside the block.
\<close>

theorem dynamic_array_push_bounds:
  fixes da :: dynamic_array
  assumes "da_ok da" "0 < element_size da"
  shows "(da_ok (zend_dynamic_array_init da0 e n) \<longleftrightarrow> unat n * unat e < 2 ^ 32) \<and>
    (case zend_dynamic_array_push da of (offset, da') \<Rightarrow>
      (offset + unat (element_size da) \<le> da_size da' \<longleftrightarrow> da_room da) \<and>
      (da_room da \<longrightarrow> offset = unat (da_current da) * unat (element_size da) \<and> da_ok da' \<and>
        da_current da' = da_current da + 1 \<and> zend_dynamic_array_get_element da' (da_current da) = Some offset \<and>
        zend_dynamic_array_pop da' = (offset, da'\<lparr>da_current := da_current da\<rparr>)))"
  using da_init_ok [of da0 e n] da_push_room [OF assms] da_push_no_room [OF assms]
  by (cases "da_room da") (auto simp: case_prod_beta)

definition sample_array :: "uint \<Rightarrow> dynamic_array" where
  "sample_array n = zend_dynamic_array_init \<lparr>da_size = 0, element_size = 0, da_current = 9, allocated = 0\<rparr> 12 n"

theorem dynamic_array_push_bounds_witness:
  "fst (zend_dynamic_array_push (snd (zend_dynamic_array_push (sample_array 1)))) = 12 \<and>
   da_size (snd (zend_dynamic_array_push (sample_array 0))) < fst (zend_dynamic_array_push (sample_array 0)) + 12"
proof -
  have ok: "da_ok (sample_array 1)" "da_ok (sample_array 0)" unfolding sample_array_def da_init_ok by simp_all
  have e: "element_size (sample_array n) = 12" "allocated (sample_array n) = n" "da_current (sample_array n) = 0" "da_size (sample_array 1) = 12" for n
    by (simp_all add: sample_array_def zend_dynamic_array_init_def)
  have "da_room (sample_array 1)" "\<not> da_room (sample_array 0)" using e by (simp_all add: da_room_def)
  then have "da_ok (snd (zend_dynamic_array_push (sample_array 1)))"
      "da_size (snd (zend_dynamic_array_push (sample_array 0))) < fst (zend_dynamic_array_push (sample_array 0)) + 12"
    using dynamic_array_push_bounds [OF ok(1), of undefined 0 0] dynamic_array_push_bounds [OF ok(2), of undefined 0 0] e
    by (auto simp: case_prod_beta not_le)
  moreover have "zend_dynamic_array_push (sample_array 1) = (0, (sample_array 1)\<lparr>da_current := 1\<rparr>)"
    using e by (simp add: zend_dynamic_array_push_def Let_def)
  moreover have "da_room ((sample_array 1)\<lparr>da_current := 1\<rparr>)" using e by (simp add: da_room_def)
  ultimately show ?thesis using dynamic_array_push_bounds [of "(sample_array 1)\<lparr>da_current := 1\<rparr>" undefined 0 0] e by (auto simp: case_prod_beta)
qed

end
