(* ===== verification/Zend_Objects_Store.thy ===== *)
theory Zend_Objects_Store
  imports Zend_Prelude
begin

text \<open>
  The object store of \<^verbatim>\<open>zend_objects_API.c\<close>: a growable table of reference-counted objects,
  addressed by handles, whose free entries form a list through the entries themselves.

  Destructors, \<open>free_storage\<close> and \<open>clone\<close> are function pointers; what they do is a parameter (\<open>run\<close>) of the
  operations that call them (\<open>run_free\<close> for \<open>free_storage\<close>, where both kinds are called), and they may change the store. The field \<open>base\<close> is the address of the
  table: a pointer into the table that is kept across a call is good only if the table
  has not been moved meanwhile, and an access through a stale pointer is a fault (\<open>None\<close>). So are reading an
  entry outside the table or one that was never written. The buffer of possible roots of the cycle
  collector is not part of the model; of it, an entry keeps whether it is buffered.
\<close>

section \<open>State\<close>

type_synonym handle = uint

text \<open>The first words of an entry are a union: the object of a live entry, the next entry of a free one.\<close>

datatype 'o slot = Object "'o option" | Next int

record ('o, 'f) store_bucket =
  destructor_called :: bool
  valid :: bool
  apply_count :: byte
  slot :: "'o slot"
  dtor :: "'f option"
  free_storage :: "'f option"
  clone :: "'f option"
  handlers :: "nat option"
  refcount :: uint
  buffered :: bool

record ('o, 'f) objects_store =
  base :: nat
  object_buckets :: "('o, 'f) store_bucket option list option"
  os_top :: uint
  os_size :: uint
  free_list_head :: int

definition bucket_at :: "('o, 'f) objects_store \<Rightarrow> handle \<Rightarrow> ('o, 'f) store_bucket option" where
  "bucket_at st h =
     (case object_buckets st of
        None \<Rightarrow> None
      | Some bs \<Rightarrow> if unat h < length bs then bs ! unat h else None)"

definition bucket_put :: "handle \<Rightarrow> ('o, 'f) store_bucket \<Rightarrow> ('o, 'f) objects_store \<Rightarrow> ('o, 'f) objects_store option" where
  "bucket_put h b st =
     (case object_buckets st of
        None \<Rightarrow> None
      | Some bs \<Rightarrow> if unat h < length bs then Some (st\<lparr>object_buckets := Some (bs[unat h := Some b])\<rparr>) else None)"

definition bucket_upd ::
  "handle \<Rightarrow> (('o, 'f) store_bucket \<Rightarrow> ('o, 'f) store_bucket) \<Rightarrow> ('o, 'f) objects_store \<Rightarrow> ('o, 'f) objects_store option" where
  "bucket_upd h f st = do { b \<leftarrow> bucket_at st h; bucket_put h (f b) st }"

text \<open>The object pointer of an entry; in a free entry the word is the index of the next one.\<close>

definition object_of :: "('o, 'f) store_bucket \<Rightarrow> 'o option option" where
  "object_of b = (case slot b of Object x \<Rightarrow> Some x | Next _ \<Rightarrow> None)"

section \<open>Operations\<close>

definition zero_bucket :: "('o, 'f) store_bucket" where
  "zero_bucket = \<lparr>destructor_called = False, valid = False, apply_count = 0, slot = Object None, dtor = None,
     free_storage = None, clone = None, handlers = None, refcount = 0, buffered = False\<rparr>"

definition zend_objects_store_init :: "nat \<Rightarrow> uint \<Rightarrow> ('o, 'f) objects_store option" where
  "zend_objects_store_init addr init_size =
     bucket_put 0 zero_bucket
       \<lparr>base = addr, object_buckets = Some (replicate (unat init_size) None), os_top = 1, os_size = init_size,
        free_list_head = - 1\<rparr>"

definition zend_objects_store_destroy :: "('o, 'f) objects_store \<Rightarrow> ('o, 'f) objects_store" where
  "zend_objects_store_destroy st = st\<lparr>object_buckets := None\<rparr>"

definition GC_REMOVE_ZOBJ_FROM_BUFFER :: "bool \<Rightarrow> handle \<Rightarrow> ('o, 'f) objects_store \<Rightarrow> ('o, 'f) objects_store option" where
  "GC_REMOVE_ZOBJ_FROM_BUFFER gc_active h st =
     bucket_upd h (\<lambda>b. if buffered b \<and> \<not> gc_active then b\<lparr>buffered := False\<rparr> else b) st"

text \<open>The loop over the entries below \<open>os_top\<close>, which is read again in every round.\<close>

partial_function (option) handle_loop ::
  "(handle \<Rightarrow> ('o, 'f) objects_store \<Rightarrow> ('o, 'f) objects_store option) \<Rightarrow> handle \<Rightarrow> ('o, 'f) objects_store \<Rightarrow>
   ('o, 'f) objects_store option" where
  "handle_loop body i st =
     (if i < os_top st then Option.bind (body i st) (handle_loop body (i + 1)) else Some st)"

declare handle_loop.simps [code]

text \<open>The destructors run at shutdown. A destructor may create objects, so the loop may visit more
  entries than there were at its start (and need not end).\<close>

type_synonym ('o, 'f) callback = "'f \<Rightarrow> 'o option \<Rightarrow> handle \<Rightarrow> ('o, 'f) objects_store \<Rightarrow> (('o, 'f) objects_store \<times> bool) option"

definition call_destructor ::
  "('o, 'f) callback \<Rightarrow> bool \<Rightarrow> handle \<Rightarrow> ('o, 'f) objects_store \<Rightarrow> ('o, 'f) objects_store option" where
  "call_destructor run gc_active i st =
     do { b \<leftarrow> bucket_at st i;
          if valid b \<and> \<not> destructor_called b
          then do { st \<leftarrow> bucket_upd i (\<lambda>b. b\<lparr>destructor_called := True\<rparr>) st;
                    x \<leftarrow> object_of b;
                    (case (dtor b, x) of
                       (Some f, Some _) \<Rightarrow>
                         do { st \<leftarrow> bucket_upd i (\<lambda>b. b\<lparr>refcount := refcount b + 1\<rparr>) st;
                              (st, _) \<leftarrow> run f x i st;
                              st \<leftarrow> bucket_upd i (\<lambda>b. b\<lparr>refcount := refcount b - 1\<rparr>) st;
                              b \<leftarrow> bucket_at st i;
                              if refcount b = 0 then GC_REMOVE_ZOBJ_FROM_BUFFER gc_active i st else Some st }
                     | _ \<Rightarrow> Some st) }
          else Some st }"

definition zend_objects_store_call_destructors ::
  "('o, 'f) callback \<Rightarrow> bool \<Rightarrow> ('o, 'f) objects_store \<Rightarrow> ('o, 'f) objects_store option" where
  "zend_objects_store_call_destructors run gc_active st = handle_loop (call_destructor run gc_active) 1 st"

definition mark_body :: "handle \<Rightarrow> ('o, 'f) objects_store \<Rightarrow> ('o, 'f) objects_store option" where
  "mark_body i st =
     do { b \<leftarrow> bucket_at st i;
          if valid b then bucket_put i (b\<lparr>destructor_called := True\<rparr>) st else Some st }"

definition zend_objects_store_mark_destructed :: "('o, 'f) objects_store \<Rightarrow> ('o, 'f) objects_store option" where
  "zend_objects_store_mark_destructed st =
     (if object_buckets st = None then Some st else handle_loop mark_body 1 st)"

definition free_body ::
  "('o, 'f) callback \<Rightarrow> bool \<Rightarrow> handle \<Rightarrow> ('o, 'f) objects_store \<Rightarrow> ('o, 'f) objects_store option" where
  "free_body run gc_active i st =
     do { b \<leftarrow> bucket_at st i;
          if valid b
          then do { st \<leftarrow> GC_REMOVE_ZOBJ_FROM_BUFFER gc_active i st;
                    st \<leftarrow> bucket_upd i (\<lambda>b. b\<lparr>valid := False\<rparr>) st;
                    x \<leftarrow> object_of b;
                    (case free_storage b of
                       None \<Rightarrow> Some st
                     | Some f \<Rightarrow> map_option fst (run f x i st)) }
          else Some st }"

definition zend_objects_store_free_object_storage ::
  "('o, 'f) callback \<Rightarrow> bool \<Rightarrow> ('o, 'f) objects_store \<Rightarrow> ('o, 'f) objects_store option" where
  "zend_objects_store_free_object_storage run gc_active st = handle_loop (free_body run gc_active) 1 st"

text \<open>A new object takes the first free entry, or the next one never used; \<open>addr\<close> is where \<^verbatim>\<open>erealloc\<close> puts a grown
  table.\<close>

definition zend_objects_store_put ::
  "nat \<Rightarrow> 'f \<Rightarrow> 'o option \<Rightarrow> 'f option \<Rightarrow> 'f option \<Rightarrow> 'f option \<Rightarrow> ('o, 'f) objects_store \<Rightarrow>
   (handle \<times> ('o, 'f) objects_store) option" where
  "zend_objects_store_put addr zend_objects_destroy_object x dtor_f free_f clone_f st =
     do { (h, st) \<leftarrow>
            (if free_list_head st \<noteq> - 1
             then do { let h = word_of_int (free_list_head st);
                       b \<leftarrow> bucket_at st h;
                       next' \<leftarrow> (case slot b of Next n \<Rightarrow> Some n | Object _ \<Rightarrow> None);
                       Some (h, st\<lparr>free_list_head := next'\<rparr>) }
             else do { st \<leftarrow>
                         (if os_top st = os_size st
                          then do { bs \<leftarrow> object_buckets st;
                                    let n = push_bit 1 (os_size st);
                                    Some (st\<lparr>os_size := n, base := addr,
                                      object_buckets := Some (take (unat n) (bs @ replicate (unat n) None))\<rparr>) }
                          else Some st);
                       Some (os_top st, st\<lparr>os_top := os_top st + 1\<rparr>) });
          st \<leftarrow> bucket_put h
            \<lparr>destructor_called = False, valid = True, apply_count = 0, slot = Object x,
             dtor = Some (case dtor_f of Some f \<Rightarrow> f | None \<Rightarrow> zend_objects_destroy_object),
             free_storage = free_f, clone = clone_f, handlers = None, refcount = 1, buffered = False\<rparr> st;
          Some (h, st) }"

text \<open>The operations on a value get the handle that is in it.\<close>

definition zend_objects_store_get_refcount :: "handle \<Rightarrow> ('o, 'f) objects_store \<Rightarrow> uint option" where
  "zend_objects_store_get_refcount h st = map_option refcount (bucket_at st h)"

definition zend_objects_store_add_ref_by_handle :: "handle \<Rightarrow> ('o, 'f) objects_store \<Rightarrow> ('o, 'f) objects_store option" where
  "zend_objects_store_add_ref_by_handle h st = bucket_upd h (\<lambda>b. b\<lparr>refcount := refcount b + 1\<rparr>) st"

definition zend_objects_store_add_ref :: "handle \<Rightarrow> ('o, 'f) objects_store \<Rightarrow> ('o, 'f) objects_store option" where
  "zend_objects_store_add_ref h st = bucket_upd h (\<lambda>b. b\<lparr>refcount := refcount b + 1\<rparr>) st"

definition ZEND_OBJECTS_STORE_ADD_TO_FREE_LIST :: "handle \<Rightarrow> ('o, 'f) objects_store \<Rightarrow> ('o, 'f) objects_store option" where
  "ZEND_OBJECTS_STORE_ADD_TO_FREE_LIST h st =
     do { st \<leftarrow> bucket_upd h (\<lambda>b. b\<lparr>slot := Next (free_list_head st)\<rparr>) st;
          let st = st\<lparr>free_list_head := sint h\<rparr>;
          bucket_upd h (\<lambda>b. b\<lparr>valid := False\<rparr>) st }"

text \<open>Running the destructor of an entry that has not run yet; \<open>True\<close> when it bailed out.\<close>

definition del_ref_dtor ::
  "('o, 'f) callback \<Rightarrow> handle \<Rightarrow> nat option \<Rightarrow> ('o, 'f) objects_store \<Rightarrow> (('o, 'f) objects_store \<times> bool) option" where
  "del_ref_dtor run h hs st =
     do { b \<leftarrow> bucket_at st h;
          if \<not> destructor_called b
          then do { st \<leftarrow> bucket_upd h (\<lambda>b. b\<lparr>destructor_called := True\<rparr>) st;
                    (case dtor b of
                       None \<Rightarrow> Some (st, False)
                     | Some f \<Rightarrow>
                         do { st \<leftarrow> (if hs \<noteq> None \<and> handlers b = None then bucket_upd h (\<lambda>b. b\<lparr>handlers := hs\<rparr>) st
                                    else Some st);
                              x \<leftarrow> object_of b;
                              run f x h st }) }
          else Some (st, False) }"

text \<open>Releasing the storage of an entry and putting it on the free list.\<close>

definition del_ref_free ::
  "('o, 'f) callback \<Rightarrow> bool \<Rightarrow> handle \<Rightarrow> ('o, 'f) objects_store \<Rightarrow> (('o, 'f) objects_store \<times> bool) option" where
  "del_ref_free run gc_active h st =
     do { st \<leftarrow> GC_REMOVE_ZOBJ_FROM_BUFFER gc_active h st;
          b \<leftarrow> bucket_at st h;
          (st, failure) \<leftarrow>
            (case free_storage b of
               None \<Rightarrow> Some (st, False)
             | Some f \<Rightarrow> do { x \<leftarrow> object_of b; run f x h st });
          st \<leftarrow> ZEND_OBJECTS_STORE_ADD_TO_FREE_LIST h st;
          Some (st, failure) }"

text \<open>
  \<open>obj\<close> is the address of the table that the pointer \<^verbatim>\<open>obj\<close> points into. It is read again after the destructor,
  but not after \<open>free_storage\<close>. The result says whether the function bails out.
\<close>

definition zend_objects_store_del_ref_by_handle_ex ::
  "('o, 'f) callback \<Rightarrow> ('o, 'f) callback \<Rightarrow> bool \<Rightarrow> handle \<Rightarrow> nat option \<Rightarrow> ('o, 'f) objects_store \<Rightarrow>
   (('o, 'f) objects_store \<times> bool) option" where
  "zend_objects_store_del_ref_by_handle_ex run run_free gc_active h hs st =
     (if object_buckets st = None then Some (st, False)
      else do { b \<leftarrow> bucket_at st h;
                (st, obj, failure) \<leftarrow>
                  (if valid b \<and> refcount b = 1
                   then do { (st, failure) \<leftarrow> del_ref_dtor run h hs st;
                             let obj = base st;
                             b \<leftarrow> bucket_at st h;
                             if refcount b = 1
                             then do { (st, failure') \<leftarrow> del_ref_free run_free gc_active h st;
                                       Some (st, obj, failure \<or> failure') }
                             else Some (st, obj, failure) }
                   else Some (st, base st, False));
                if obj \<noteq> base st then None
                else do { st \<leftarrow> bucket_upd h (\<lambda>b. b\<lparr>refcount := refcount b - 1\<rparr>) st;
                          Some (st, failure) } })"

definition zend_objects_store_del_ref_by_handle ::
  "('o, 'f) callback \<Rightarrow> ('o, 'f) callback \<Rightarrow> bool \<Rightarrow> handle \<Rightarrow> ('o, 'f) objects_store \<Rightarrow>
   (('o, 'f) objects_store \<times> bool) option" where
  "zend_objects_store_del_ref_by_handle run run_free gc_active h st =
     zend_objects_store_del_ref_by_handle_ex run run_free gc_active h None st"

text \<open>Cloning: \<open>copy\<close> is what the clone function makes of an object. A null clone function is a fatal error (\<open>Inl\<close>).\<close>

definition zend_objects_store_clone_obj ::
  "('f \<Rightarrow> 'o option \<Rightarrow> ('o, 'f) objects_store \<Rightarrow> ('o option \<times> ('o, 'f) objects_store) option) \<Rightarrow> nat \<Rightarrow> 'f \<Rightarrow> handle \<Rightarrow> nat \<Rightarrow>
   ('o, 'f) objects_store \<Rightarrow> (unit + handle \<times> nat \<times> ('o, 'f) objects_store) option" where
  "zend_objects_store_clone_obj copy addr zend_objects_destroy_object h hs st =
     do { b \<leftarrow> bucket_at st h;
          (case clone b of
             None \<Rightarrow> Some (Inl ())
           | Some f \<Rightarrow>
               do { x \<leftarrow> object_of b;
                    (new_object, st) \<leftarrow> copy f x st;
                    b \<leftarrow> bucket_at st h;
                    (new_h, st) \<leftarrow> zend_objects_store_put addr zend_objects_destroy_object new_object (dtor b) (free_storage b) (clone b) st;
                    st \<leftarrow> bucket_upd h (\<lambda>b. b\<lparr>handlers := Some hs\<rparr>) st;
                    Some (Inr (new_h, hs, st)) }) }"

definition zend_object_store_get_object_by_handle :: "handle \<Rightarrow> ('o, 'f) objects_store \<Rightarrow> 'o option option" where
  "zend_object_store_get_object_by_handle h st = Option.bind (bucket_at st h) object_of"

definition zend_object_store_get_object :: "handle \<Rightarrow> ('o, 'f) objects_store \<Rightarrow> 'o option option" where
  "zend_object_store_get_object h st = Option.bind (bucket_at st h) object_of"

definition zend_object_store_set_object :: "handle \<Rightarrow> 'o option \<Rightarrow> ('o, 'f) objects_store \<Rightarrow> ('o, 'f) objects_store option" where
  "zend_object_store_set_object h x st = bucket_upd h (\<lambda>b. b\<lparr>slot := Object x\<rparr>) st"

definition zend_object_store_ctor_failed :: "handle \<Rightarrow> nat \<Rightarrow> ('o, 'f) objects_store \<Rightarrow> ('o, 'f) objects_store option" where
  "zend_object_store_ctor_failed h hs st =
     bucket_upd h (\<lambda>b. b\<lparr>handlers := Some hs, destructor_called := True\<rparr>) st"

text \<open>The destructor of proxy objects.\<close>

definition zend_objects_proxy_destroy :: "('o, 'f) callback" where
  "zend_objects_proxy_destroy f x h st = Some (st, False)"

section \<open>Invariant\<close>

text \<open>\<open>F\<close> is the list of free entries, linked through the entries from \<open>free_list_head\<close> on.\<close>

fun free_chain :: "('o, 'f) store_bucket option list \<Rightarrow> int \<Rightarrow> nat list \<Rightarrow> bool" where
  "free_chain bs n [] \<longleftrightarrow> n = - 1"
| "free_chain bs n (i # F) \<longleftrightarrow> n = int i \<and> i < length bs \<and> (\<exists>b m. bs ! i = Some b \<and> slot b = Next m \<and> free_chain bs m F)"

definition live_ok :: "('o, 'f) store_bucket \<Rightarrow> bool" where
  "live_ok b \<longleftrightarrow> refcount b \<noteq> 0 \<and> (\<exists>x. slot b = Object x)"

definition store_ok :: "('o, 'f) objects_store \<Rightarrow> nat list \<Rightarrow> bool" where
  "store_ok st F \<longleftrightarrow>
     (\<exists>bs. object_buckets st = Some bs \<and> length bs = unat (os_size st) \<and> length bs < 2 ^ 31 \<and>
        0 < unat (os_top st) \<and> unat (os_top st) \<le> length bs \<and> free_chain bs (free_list_head st) F \<and> distinct F \<and>
        set F \<subseteq> {1..<unat (os_top st)} \<and>
        (\<forall>i. 1 \<le> i \<longrightarrow> i < unat (os_top st) \<longrightarrow>
           (\<exists>b. bs ! i = Some b \<and> (valid b \<longleftrightarrow> i \<notin> set F) \<and> (valid b \<longrightarrow> live_ok b))))"

text \<open>The live objects: handles with their object and reference count.\<close>

definition live :: "('o, 'f) objects_store \<Rightarrow> handle \<Rightarrow> ('o, 'f) store_bucket option" where
  "live st h =
     (if 0 < unat h \<and> unat h < unat (os_top st)
      then (case bucket_at st h of Some b \<Rightarrow> if valid b then Some b else None | None \<Rightarrow> None) else None)"

lemma store_okD:
  assumes "store_ok st F"
  obtains bs where "object_buckets st = Some bs" "length bs = unat (os_size st)" "length bs < 2 ^ 31"
    and "0 < unat (os_top st)" "unat (os_top st) \<le> length bs" "free_chain bs (free_list_head st) F" "distinct F"
    and "set F \<subseteq> {1..<unat (os_top st)}"
    and "\<And>i. 1 \<le> i \<Longrightarrow> i < unat (os_top st) \<Longrightarrow> \<exists>b. bs ! i = Some b \<and> (valid b \<longleftrightarrow> i \<notin> set F) \<and> (valid b \<longrightarrow> live_ok b)"
  using assms unfolding store_ok_def by blast

lemma store_okI:
  assumes "object_buckets st = Some bs" "length bs = unat (os_size st)" "length bs < 2 ^ 31"
    and "0 < unat (os_top st)" "unat (os_top st) \<le> length bs" "free_chain bs (free_list_head st) F" "distinct F"
    and "set F \<subseteq> {1..<unat (os_top st)}"
    and "\<And>i. 1 \<le> i \<Longrightarrow> i < unat (os_top st) \<Longrightarrow> \<exists>b. bs ! i = Some b \<and> (valid b \<longleftrightarrow> i \<notin> set F) \<and> (valid b \<longrightarrow> live_ok b)"
  shows "store_ok st F"
  using assms unfolding store_ok_def by blast

lemma free_chain_upd: "free_chain bs n F \<Longrightarrow> i \<notin> set F \<Longrightarrow> free_chain (bs[i := x]) n F"
  by (induction F arbitrary: n) auto

lemma free_chain_cong:
  "free_chain bs n F \<Longrightarrow> length bs' = length bs \<Longrightarrow> (\<And>i. i < length bs \<Longrightarrow> map_option slot (bs' ! i) = map_option slot (bs ! i)) \<Longrightarrow>
   free_chain bs' n F"
proof (induction F arbitrary: n)
  case (Cons i F)
  then obtain b m where b: "n = int i" "i < length bs" "bs ! i = Some b" "slot b = Next m" "free_chain bs m F" by auto
  then obtain b' where "bs' ! i = Some b'" "slot b' = Next m" using Cons.prems(3) [of i] by auto
  then show ?case using b Cons.IH [OF b(5)] Cons.prems(2,3) by simp
qed simp

lemma free_chain_append: "free_chain bs n F \<Longrightarrow> free_chain (bs @ ys) n F"
  by (induction F arbitrary: n) (auto simp: nth_append)

lemma live_iff:
  assumes "store_ok st F"
  shows "live st h = None \<longleftrightarrow> h = 0 \<or> \<not> unat h < unat (os_top st) \<or> unat h \<in> set F"
proof -
  obtain bs where o: "object_buckets st = Some bs" "unat (os_top st) \<le> length bs"
      "\<And>i. 1 \<le> i \<Longrightarrow> i < unat (os_top st) \<Longrightarrow> \<exists>b. bs ! i = Some b \<and> (valid b \<longleftrightarrow> i \<notin> set F)"
    by (rule store_okD [OF assms]) blast
  show ?thesis
  proof (cases "h = 0 \<or> \<not> unat h < unat (os_top st)")
    case False
    then have h: "1 \<le> unat h" "unat h < unat (os_top st)" by (simp_all add: unat_gt_0 Suc_le_eq)
    then obtain b where "bs ! unat h = Some b" "valid b \<longleftrightarrow> unat h \<notin> set F" using o(3) by blast
    then show ?thesis using False o(1,2) h by (auto simp: live_def bucket_at_def)
  qed (auto simp: live_def)
qed

lemma live_bucket:
  assumes "live st h = Some b"
  shows "bucket_at st h = Some b" "valid b" "1 \<le> unat h" "unat h < unat (os_top st)"
  using assms by (auto simp: live_def split: if_splits option.splits)

text \<open>The store but for its entries.\<close>

definition outline :: "('o, 'f) objects_store \<Rightarrow> nat \<times> uint \<times> uint \<times> int" where
  "outline st = (base st, os_top st, os_size st, free_list_head st)"

text \<open>Changing a live entry into a live entry.\<close>

lemma upd_live_ok:
  assumes st: "store_ok st F" and b: "live st h = Some b" and b': "valid b'" "live_ok b'"
  shows "\<exists>st'. bucket_put h b' st = Some st' \<and> store_ok st' F \<and> live st' = (live st)(h \<mapsto> b') \<and> outline st' = outline st"
proof -
  obtain bs where o: "object_buckets st = Some bs" "length bs = unat (os_size st)" "length bs < 2 ^ 31"
      "0 < unat (os_top st)" "unat (os_top st) \<le> length bs" "free_chain bs (free_list_head st) F" "distinct F"
      "set F \<subseteq> {1..<unat (os_top st)}"
      "\<And>i. 1 \<le> i \<Longrightarrow> i < unat (os_top st) \<Longrightarrow> \<exists>b. bs ! i = Some b \<and> (valid b \<longleftrightarrow> i \<notin> set F) \<and> (valid b \<longrightarrow> live_ok b)"
    using store_okD [OF st] by blast
  note lb = live_bucket [OF b]
  have hF: "unat h \<notin> set F" using live_iff [OF st, of h] b by simp
  note h = lb(4)
  let ?st = "st\<lparr>object_buckets := Some (bs[unat h := Some b'])\<rparr>"
  have "store_ok ?st F"
    by (rule store_okI [where bs = "bs[unat h := Some b']"])
      (use o hF b' h in \<open>auto simp: nth_list_update intro: free_chain_upd\<close>)
  moreover have "live ?st = (live st)(h \<mapsto> b')"
    using o(1,5) h lb(3,4) b' by (auto simp: live_def bucket_at_def fun_eq_iff nth_list_update word_unat_eq_iff)
  ultimately show ?thesis using o(1,5) h by (auto simp: bucket_put_def outline_def)
qed


section \<open>New objects\<close>

definition new_object :: "'f \<Rightarrow> 'o option \<Rightarrow> 'f option \<Rightarrow> 'f option \<Rightarrow> 'f option \<Rightarrow> ('o, 'f) store_bucket" where
  "new_object d x dtor_f free_f clone_f =
     \<lparr>destructor_called = False, valid = True, apply_count = 0, slot = Object x,
      dtor = Some (case dtor_f of Some f \<Rightarrow> f | None \<Rightarrow> d), free_storage = free_f, clone = clone_f, handlers = None,
      refcount = 1, buffered = False\<rparr>"

lemma new_object_ok [simp]: "valid (new_object d x df ff cf)" "live_ok (new_object d x df ff cf)"
  by (simp_all add: new_object_def live_ok_def)

lemma put_reuse_ok:
  assumes st: "store_ok st (i # F)"
  shows "\<exists>h st'. zend_objects_store_put addr d x df ff cf st = Some (h, st') \<and> store_ok st' F \<and> live st h = None \<and> h \<noteq> 0 \<and>
    live st' = (live st)(h \<mapsto> new_object d x df ff cf) \<and> base st' = base st"
proof -
  obtain bs where o: "object_buckets st = Some bs" "length bs = unat (os_size st)" "length bs < 2 ^ 31"
      "0 < unat (os_top st)" "unat (os_top st) \<le> length bs" "free_chain bs (free_list_head st) (i # F)" "distinct (i # F)"
      "set (i # F) \<subseteq> {1..<unat (os_top st)}"
      "\<And>j. 1 \<le> j \<Longrightarrow> j < unat (os_top st) \<Longrightarrow> \<exists>b. bs ! j = Some b \<and> (valid b \<longleftrightarrow> j \<notin> set (i # F)) \<and> (valid b \<longrightarrow> live_ok b)"
    using store_okD [OF st] by blast
  obtain b m where b: "free_list_head st = int i" "bs ! i = Some b" "slot b = Next m" "free_chain bs m F"
    using o(6) by auto
  define h where "h = (of_nat i :: handle)"
  have i: "1 \<le> i" "i < unat (os_top st)" "i < length bs" using o(5,8) by auto
  have hu: "unat h = i" "word_of_int (int i) = h" using i(3) o(3) by (simp_all add: h_def unat_of_nat)
  let ?b = "new_object d x df ff cf"
  let ?st = "st\<lparr>free_list_head := m, object_buckets := Some (bs[i := Some ?b])\<rparr>"
  have "zend_objects_store_put addr d x df ff cf st = Some (h, ?st)"
    using b o(1) hu i by (simp add: zend_objects_store_put_def bucket_at_def bucket_put_def Let_def new_object_def)
  moreover have "store_ok ?st F"
    by (rule store_okI [where bs = "bs[i := Some ?b]"])
      (use o b i in \<open>auto simp: nth_list_update intro: free_chain_upd\<close>)
  moreover have "live st h = None" using live_iff [OF st] hu by simp
  moreover have "h \<noteq> 0" using hu(1) i(1) by auto
  moreover have "live ?st = (live st)(h \<mapsto> ?b)"
    using o(1) i hu by (auto simp: live_def bucket_at_def fun_eq_iff nth_list_update word_unat_eq_iff)
  ultimately show ?thesis by (intro exI [of _ h] exI [of _ ?st]) simp
qed

lemma put_fresh_ok:
  assumes st: "store_ok st []" and room: "2 * unat (os_size st) < 2 ^ 31"
  shows "\<exists>h st'. zend_objects_store_put addr d x df ff cf st = Some (h, st') \<and> store_ok st' [] \<and> live st h = None \<and> h \<noteq> 0 \<and>
    live st' = (live st)(h \<mapsto> new_object d x df ff cf)"
proof -
  obtain bs where o: "object_buckets st = Some bs" "length bs = unat (os_size st)" "length bs < 2 ^ 31"
      "0 < unat (os_top st)" "unat (os_top st) \<le> length bs" "free_list_head st = - 1"
      "\<And>j. 1 \<le> j \<Longrightarrow> j < unat (os_top st) \<Longrightarrow> \<exists>b. bs ! j = Some b \<and> valid b \<and> (valid b \<longrightarrow> live_ok b)"
    by (rule store_okD [OF st]) auto
  define bs' where "bs' = (if os_top st = os_size st then bs @ replicate (length bs) None else bs)"
  define n where "n = push_bit 1 (os_size st)"
  define st1 where "st1 = (if os_top st = os_size st
      then st\<lparr>os_size := n, base := addr, object_buckets := Some (bs @ replicate (length bs) None)\<rparr> else st)"
  have len: "length bs' < 2 ^ 31" "unat (os_top st) < length bs'"
    using room o(2,4,5) by (auto simp: bs'_def order_le_less word_unat_eq_iff)
  have u: "unat (os_top st + 1) = Suc (unat (os_top st))" using len by (simp add: unat_word_ariths)
  have n1: "unat n = length bs + length bs" using room o(2) by (simp add: n_def push_bit_eq_mult unat_word_ariths)
  have f1: "object_buckets st1 = Some bs'" "unat (os_size st1) = length bs'" "os_top st1 = os_top st" "free_list_head st1 = - 1"
    using o(1,2,6) n1 by (simp_all add: st1_def bs'_def)
  have grow: "(if os_top st = os_size st
      then do { bs \<leftarrow> object_buckets st; let n = push_bit 1 (os_size st);
                Some (st\<lparr>os_size := n, base := addr, object_buckets := Some (take (unat n) (bs @ replicate (unat n) None))\<rparr>) }
      else Some st) = Some st1"
    unfolding n_def [symmetric] using o(1) n1 by (simp add: st1_def Let_def)
  let ?b = "new_object d x df ff cf" and ?h = "os_top st"
  let ?st = "st1\<lparr>os_top := ?h + 1, object_buckets := Some (bs'[unat ?h := Some ?b])\<rparr>"
  have nth: "j < unat (os_top st) \<Longrightarrow> bs' ! j = bs ! j" for j using o(5) by (simp add: bs'_def nth_append)
  have "zend_objects_store_put addr d x df ff cf st = Some (?h, ?st)"
    using grow o(6) len(2) unfolding zend_objects_store_put_def
    by (simp add: bucket_put_def new_object_def f1)
  moreover have "store_ok ?st []"
    by (rule store_okI [where bs = "bs'[unat ?h := Some ?b]"])
      (use o(6,7) len u nth in \<open>auto simp: nth_list_update f1 less_Suc_eq\<close>)
  moreover have "live st ?h = None" by (simp add: live_def)
  moreover have "?h \<noteq> 0" using o(4) by auto
  moreover have "live ?st = (live st)(?h \<mapsto> ?b)"
    using o(1,4,5) len(2) u nth
    by (auto simp: live_def bucket_at_def fun_eq_iff nth_list_update word_unat_eq_iff f1 less_Suc_eq)
  ultimately show ?thesis by (intro exI [of _ ?h] exI [of _ ?st]) simp
qed

lemma put_ok:
  assumes "store_ok st F" "F = [] \<Longrightarrow> 2 * unat (os_size st) < 2 ^ 31"
  shows "\<exists>h st'. zend_objects_store_put addr d x df ff cf st = Some (h, st') \<and> store_ok st' (tl F) \<and> live st h = None \<and> h \<noteq> 0 \<and>
    live st' = (live st)(h \<mapsto> new_object d x df ff cf)"
proof (cases F)
  case Nil
  then show ?thesis using put_fresh_ok [of st addr d x df ff cf] assms by simp
next
  case (Cons i F')
  then show ?thesis using put_reuse_ok [of st i F' addr d x df ff cf] assms(1) by (metis list.sel(3))
qed

section \<open>Releasing objects\<close>

lemma bucket_upd_eq: "bucket_at st h = Some b \<Longrightarrow> bucket_upd h f st = bucket_put h (f b) st"
  by (simp add: bucket_upd_def)

lemma upd_live:
  assumes "store_ok st F" "live st h = Some b" "valid (f b)" "live_ok (f b)"
  shows "\<exists>st'. bucket_upd h f st = Some st' \<and> store_ok st' F \<and> live st' = (live st)(h \<mapsto> f b) \<and> outline st' = outline st"
  using upd_live_ok [OF assms] bucket_upd_eq [OF live_bucket(1) [OF assms(2)], of f] by auto

lemma sint_of_nat_uint: "n < 2 ^ 31 \<Longrightarrow> sint (of_nat n :: uint) = int n"
  by (simp add: signed_of_nat signed_take_bit_int_eq_self)

lemma add_to_free_list_ok:
  assumes st: "store_ok st F" and b: "live st h = Some b"
  shows "\<exists>st'. ZEND_OBJECTS_STORE_ADD_TO_FREE_LIST h st = Some st' \<and> store_ok st' (unat h # F) \<and>
    live st' = (live st)(h := None) \<and> base st' = base st"
proof -
  obtain bs where o: "object_buckets st = Some bs" "length bs = unat (os_size st)" "length bs < 2 ^ 31"
      "0 < unat (os_top st)" "unat (os_top st) \<le> length bs" "free_chain bs (free_list_head st) F" "distinct F"
      "set F \<subseteq> {1..<unat (os_top st)}"
      "\<And>i. 1 \<le> i \<Longrightarrow> i < unat (os_top st) \<Longrightarrow> \<exists>b. bs ! i = Some b \<and> (valid b \<longleftrightarrow> i \<notin> set F) \<and> (valid b \<longrightarrow> live_ok b)"
    using store_okD [OF st] by blast
  note lb = live_bucket [OF b]
  have h: "unat h < unat (os_top st)" "1 \<le> unat h" "unat h \<notin> set F"
    using lb(3,4) live_iff [OF st, of h] b by auto
  have bh: "bs ! unat h = Some b" using lb(1) o(1) h o(5) by (simp add: bucket_at_def)
  have "sint (of_nat (unat h) :: uint) = int (unat h)"
    using h(1) o(3,5) by (intro sint_of_nat_uint) auto
  then have si: "sint h = int (unat h)" by simp
  let ?b = "b\<lparr>slot := Next (free_list_head st), valid := False\<rparr>"
  let ?st = "st\<lparr>free_list_head := int (unat h), object_buckets := Some (bs[unat h := Some ?b])\<rparr>"
  have "ZEND_OBJECTS_STORE_ADD_TO_FREE_LIST h st = Some ?st"
    using o(1,5) h(1) bh si by (simp add: ZEND_OBJECTS_STORE_ADD_TO_FREE_LIST_def bucket_upd_def bucket_at_def bucket_put_def Let_def)
  moreover have "store_ok ?st (unat h # F)"
    by (rule store_okI [where bs = "bs[unat h := Some ?b]"])
      (use o h in \<open>auto simp: nth_list_update intro: free_chain_upd\<close>)
  moreover have "live ?st = (live st)(h := None)"
    using o(1,5) h lb(3,4) by (auto simp: live_def bucket_at_def fun_eq_iff nth_list_update word_unat_eq_iff)
  ultimately show ?thesis by (intro exI [of _ ?st]) simp
qed

text \<open>Taking the count of a freed entry down, as the last step of a deletion does.\<close>

lemma dec_free_ok:
  assumes st: "store_ok st F" and h: "unat h \<in> set F"
  shows "\<exists>st'. bucket_upd h (\<lambda>b. b\<lparr>refcount := refcount b - 1\<rparr>) st = Some st' \<and> store_ok st' F \<and> live st' = live st"
proof -
  obtain bs where o: "object_buckets st = Some bs" "length bs = unat (os_size st)" "length bs < 2 ^ 31"
      "0 < unat (os_top st)" "unat (os_top st) \<le> length bs" "free_chain bs (free_list_head st) F" "distinct F"
      "set F \<subseteq> {1..<unat (os_top st)}"
      "\<And>i. 1 \<le> i \<Longrightarrow> i < unat (os_top st) \<Longrightarrow> \<exists>b. bs ! i = Some b \<and> (valid b \<longleftrightarrow> i \<notin> set F) \<and> (valid b \<longrightarrow> live_ok b)"
    using store_okD [OF st] by blast
  have hh: "1 \<le> unat h" "unat h < unat (os_top st)" using h o(8) by auto
  obtain b where b: "bs ! unat h = Some b" "\<not> valid b" using o(9) [OF hh] h by auto
  let ?b = "b\<lparr>refcount := refcount b - 1\<rparr>"
  let ?st = "st\<lparr>object_buckets := Some (bs[unat h := Some ?b])\<rparr>"
  have ch: "free_chain (bs[unat h := Some ?b]) n G" if "free_chain bs n G" for n G
    by (rule free_chain_cong [OF that]) (use b hh o(5) in \<open>auto simp: nth_list_update\<close>)
  have "store_ok ?st F"
    by (rule store_okI [where bs = "bs[unat h := Some ?b]"]) (use o b h ch in \<open>auto simp: nth_list_update\<close>)
  moreover have "live ?st = live st"
    using o(1,5) hh b by (auto simp: live_def bucket_at_def fun_eq_iff nth_list_update)
  ultimately show ?thesis using o(1,5) hh b
    by (intro exI [of _ ?st]) (simp add: bucket_upd_def bucket_at_def bucket_put_def)
qed


section \<open>Deleting a reference\<close>

lemma live_entry_ok: "store_ok st F \<Longrightarrow> live st h = Some b \<Longrightarrow> live_ok b"
proof -
  assume st: "store_ok st F" and b: "live st h = Some b"
  obtain bs where o: "object_buckets st = Some bs"
      "\<And>i. 1 \<le> i \<Longrightarrow> i < unat (os_top st) \<Longrightarrow> \<exists>b. bs ! i = Some b \<and> (valid b \<longrightarrow> live_ok b)"
    by (rule store_okD [OF st]) blast
  have "bs ! unat h = Some b" using live_bucket(1) [OF b] o(1) by (auto simp: bucket_at_def split: if_splits)
  then show ?thesis using o(2) live_bucket(2-4) [OF b] by fastforce
qed

lemma object_of_live: "live_ok b \<Longrightarrow> \<exists>x. object_of b = Some x"
  by (auto simp: live_ok_def object_of_def)

text \<open>
  The parts of \<open>zend_objects_store_del_ref_by_handle_ex\<close> between its calls of the destructor and of \<open>free_storage\<close>: a part ends
  with one of these calls or with the end of the function.
\<close>

datatype ('o, 'f) del_phase = Done "('o, 'f) objects_store" | Call_dtor 'f "'o option" "('o, 'f) objects_store" | Call_free 'f "'o option" "('o, 'f) objects_store"

definition dec_ref :: "handle \<Rightarrow> ('o, 'f) objects_store \<Rightarrow> ('o, 'f) objects_store option" where
  "dec_ref h st = bucket_upd h (\<lambda>b. b\<lparr>refcount := refcount b - 1\<rparr>) st"

definition after_free :: "handle \<Rightarrow> nat \<Rightarrow> ('o, 'f) objects_store \<Rightarrow> ('o, 'f) objects_store option" where
  "after_free h obj st = do { st \<leftarrow> ZEND_OBJECTS_STORE_ADD_TO_FREE_LIST h st; if obj \<noteq> base st then None else dec_ref h st }"

definition enter_free :: "bool \<Rightarrow> handle \<Rightarrow> ('o, 'f) objects_store \<Rightarrow> ('o, 'f) del_phase option" where
  "enter_free gc_active h st =
     do { let obj = base st;
          st \<leftarrow> GC_REMOVE_ZOBJ_FROM_BUFFER gc_active h st;
          b \<leftarrow> bucket_at st h;
          (case free_storage b of
             None \<Rightarrow> map_option Done (after_free h obj st)
           | Some f \<Rightarrow> do { x \<leftarrow> object_of b; Some (Call_free f x st) }) }"

definition after_dtor :: "bool \<Rightarrow> handle \<Rightarrow> ('o, 'f) objects_store \<Rightarrow> ('o, 'f) del_phase option" where
  "after_dtor gc_active h st =
     do { b \<leftarrow> bucket_at st h; if refcount b = 1 then enter_free gc_active h st else map_option Done (dec_ref h st) }"

definition del_enter :: "bool \<Rightarrow> handle \<Rightarrow> nat option \<Rightarrow> ('o, 'f) objects_store \<Rightarrow> ('o, 'f) del_phase option" where
  "del_enter gc_active h hs st =
     do { b \<leftarrow> bucket_at st h;
          if valid b \<and> refcount b = 1
          then (if \<not> destructor_called b
                then do { st \<leftarrow> bucket_upd h (\<lambda>b. b\<lparr>destructor_called := True\<rparr>) st;
                          (case dtor b of
                             None \<Rightarrow> after_dtor gc_active h st
                           | Some f \<Rightarrow>
                               do { st \<leftarrow> (if hs \<noteq> None \<and> handlers b = None then bucket_upd h (\<lambda>b. b\<lparr>handlers := hs\<rparr>) st else Some st);
                                    x \<leftarrow> object_of b;
                                    Some (Call_dtor f x st) }) }
                else after_dtor gc_active h st)
          else map_option Done (dec_ref h st) }"

definition finish_free :: "('o, 'f) callback \<Rightarrow> handle \<Rightarrow> bool \<Rightarrow> ('o, 'f) del_phase \<Rightarrow> (('o, 'f) objects_store \<times> bool) option" where
  "finish_free run_free h failure ph =
     (case ph of
        Done st \<Rightarrow> Some (st, failure)
      | Call_dtor f x st \<Rightarrow> None
      | Call_free f x st \<Rightarrow> do { (st', failure') \<leftarrow> run_free f x h st; st' \<leftarrow> after_free h (base st) st'; Some (st', failure \<or> failure') })"

definition finish_dtor :: "('o, 'f) callback \<Rightarrow> ('o, 'f) callback \<Rightarrow> bool \<Rightarrow> handle \<Rightarrow> ('o, 'f) del_phase \<Rightarrow> (('o, 'f) objects_store \<times> bool) option" where
  "finish_dtor run run_free gc_active h ph =
     (case ph of
        Call_dtor f x st \<Rightarrow> do { (st, failure) \<leftarrow> run f x h st; ph \<leftarrow> after_dtor gc_active h st; finish_free run_free h failure ph }
      | _ \<Rightarrow> finish_free run_free h False ph)"

lemma base_upd: "bucket_upd h f st = Some st' \<Longrightarrow> base st' = base st"
  by (auto simp: bucket_upd_def bucket_put_def split: bind_splits option.splits if_splits)

lemma buckets_upd: "bucket_upd h f st = Some st' \<Longrightarrow> object_buckets st' \<noteq> None"
  by (auto simp: bucket_upd_def bucket_put_def split: bind_splits option.splits if_splits)

lemma base_gc: "GC_REMOVE_ZOBJ_FROM_BUFFER gc h st = Some st' \<Longrightarrow> base st' = base st"
  unfolding GC_REMOVE_ZOBJ_FROM_BUFFER_def by (rule base_upd)

lemma free_phases:
  "do { (st', failure') \<leftarrow> del_ref_free run_free gc h st;
        if base st \<noteq> base st' then None else do { st' \<leftarrow> dec_ref h st'; Some (st', failure \<or> failure') } } =
   do { ph \<leftarrow> enter_free gc h st; finish_free run_free h failure ph }"
proof (cases "GC_REMOVE_ZOBJ_FROM_BUFFER gc h st")
  case (Some s)
  note b = base_gc [OF Some]
  show ?thesis using Some b
    by (cases "bucket_at s h"; cases "free_storage (the (bucket_at s h))")
      (auto simp: del_ref_free_def enter_free_def finish_free_def after_free_def Let_def split: bind_splits option.splits)
qed (simp add: del_ref_free_def enter_free_def)

lemma after_phases:
  "do { b \<leftarrow> bucket_at st h;
        (st', failure') \<leftarrow> (if refcount b = 1 then del_ref_free run_free gc h st else Some (st, False));
        if base st \<noteq> base st' then None else do { st' \<leftarrow> dec_ref h st'; Some (st', failure \<or> failure') } } =
   do { ph \<leftarrow> after_dtor gc h st; finish_free run_free h failure ph }"
proof (cases "bucket_at st h")
  case (Some b)
  then show ?thesis
    using free_phases [of run_free gc h st failure]
    by (cases "dec_ref h st"; cases "refcount b = 1") (simp_all add: after_dtor_def finish_free_def)
qed (simp add: after_dtor_def)

lemma del_ref_after:
  assumes "bucket_at st h = Some b" "valid b" "refcount b = 1" "object_buckets st \<noteq> None"
  shows "zend_objects_store_del_ref_by_handle_ex run run_free gc h hs st =
    do { (s, failure) \<leftarrow> del_ref_dtor run h hs st; ph \<leftarrow> after_dtor gc h s; finish_free run_free h failure ph }"
proof (cases "del_ref_dtor run h hs st")
  case (Some sf)
  obtain s failure where sf: "sf = (s, failure)" by (cases sf)
  show ?thesis
    unfolding zend_objects_store_del_ref_by_handle_ex_def using assms Some sf after_phases [of s h run_free gc failure, symmetric]
    by (cases "bucket_at s h"; cases "refcount (the (bucket_at s h)) = 1"; cases "del_ref_free run_free gc h s")
      (auto simp: Let_def dec_ref_def)
qed (use assms in \<open>simp add: zend_objects_store_del_ref_by_handle_ex_def\<close>)

lemma after_finish: "do { ph \<leftarrow> after_dtor gc h st; finish_dtor run run_free gc h ph } = do { ph \<leftarrow> after_dtor gc h st; finish_free run_free h False ph }"
  by (auto simp: after_dtor_def enter_free_def finish_dtor_def Let_def split: bind_splits option.splits if_splits)

lemma del_ref_phases:
  assumes "object_buckets st \<noteq> None"
  shows "zend_objects_store_del_ref_by_handle_ex run run_free gc h hs st =
    do { ph \<leftarrow> del_enter gc h hs st; finish_dtor run run_free gc h ph }"
proof (cases "bucket_at st h")
  case None
  then show ?thesis using assms by (simp add: zend_objects_store_del_ref_by_handle_ex_def del_enter_def)
next
  case b: (Some b)
  show ?thesis
  proof (cases "valid b \<and> refcount b = 1")
    case False
    then show ?thesis using assms b
      by (cases "dec_ref h st") (auto simp: zend_objects_store_del_ref_by_handle_ex_def del_enter_def finish_dtor_def finish_free_def dec_ref_def)
  next
    case True
    have e: "zend_objects_store_del_ref_by_handle_ex run run_free gc h hs st =
        do { (s, failure) \<leftarrow> del_ref_dtor run h hs st; ph \<leftarrow> after_dtor gc h s; finish_free run_free h failure ph }"
      using del_ref_after [OF b _ _ assms] True by blast
    show ?thesis
    proof (cases "destructor_called b")
      case d: True
      then show ?thesis unfolding e using True b after_finish [of gc h st run run_free] by (simp add: del_enter_def del_ref_dtor_def)
    next
      case d: False
      show ?thesis
      proof (cases "bucket_upd h (\<lambda>b. b\<lparr>destructor_called := True\<rparr>) st")
        case None
        then show ?thesis unfolding e using True b d by (simp add: del_enter_def del_ref_dtor_def)
      next
        case (Some s)
        show ?thesis
        proof (cases "dtor b")
          case None
          then show ?thesis unfolding e using True b d Some after_finish [of gc h s run run_free] by (simp add: del_enter_def del_ref_dtor_def)
        next
          case f: (Some f)
          let ?s = "if hs \<noteq> None \<and> handlers b = None then bucket_upd h (\<lambda>b. b\<lparr>handlers := hs\<rparr>) s else Some s"
          show ?thesis unfolding e using True b d Some f
            by (cases ?s; cases "object_of b") (simp_all add: del_enter_def del_ref_dtor_def finish_dtor_def)
        qed
      qed
    qed
  qed
qed

text \<open>The parts on a well-formed store.\<close>

lemma dec_live:
  assumes "store_ok st F" "live st h = Some b" "refcount b \<noteq> 1"
  shows "\<exists>st'. dec_ref h st = Some st' \<and> store_ok st' F \<and> live st' = (live st)(h \<mapsto> b\<lparr>refcount := refcount b - 1\<rparr>)"
  using upd_live [OF assms(1,2), of "\<lambda>b. b\<lparr>refcount := refcount b - 1\<rparr>"] live_entry_ok [OF assms(1,2)] live_bucket(2) [OF assms(2)] assms(3)
  by (auto simp: live_ok_def dec_ref_def)

lemma after_free_ok:
  assumes st: "store_ok st F" and b: "live st h = Some b"
  shows "obj = base st \<Longrightarrow> \<exists>st'. after_free h obj st = Some st' \<and> store_ok st' (unat h # F) \<and> live st' = (live st)(h := None)"
    and "obj \<noteq> base st \<Longrightarrow> after_free h obj st = None"
proof -
  obtain s where s: "ZEND_OBJECTS_STORE_ADD_TO_FREE_LIST h st = Some s" "store_ok s (unat h # F)" "live s = (live st)(h := None)" "base s = base st"
    using add_to_free_list_ok [OF st b] by blast
  obtain s' where "dec_ref h s = Some s'" "store_ok s' (unat h # F)" "live s' = live s"
    using dec_free_ok [OF s(2), of h] by (auto simp: dec_ref_def)
  then show "obj = base st \<Longrightarrow> \<exists>st'. after_free h obj st = Some st' \<and> store_ok st' (unat h # F) \<and> live st' = (live st)(h := None)"
    and "obj \<noteq> base st \<Longrightarrow> after_free h obj st = None" using s by (auto simp: after_free_def)
qed

definition unbuffer :: "bool \<Rightarrow> ('o, 'f) store_bucket \<Rightarrow> ('o, 'f) store_bucket" where
  "unbuffer gc b = (if buffered b \<and> \<not> gc then b\<lparr>buffered := False\<rparr> else b)"

lemma unbuffer_simps [simp]: "valid (unbuffer gc b) = valid b" "refcount (unbuffer gc b) = refcount b" "free_storage (unbuffer gc b) = free_storage b"
  "object_of (unbuffer gc b) = object_of b" "live_ok (unbuffer gc b) = live_ok b" "destructor_called (unbuffer gc b) = destructor_called b"
  by (simp_all add: unbuffer_def object_of_def live_ok_def)

lemma gc_unbuffer: "GC_REMOVE_ZOBJ_FROM_BUFFER gc h st = bucket_upd h (unbuffer gc) st"
  by (simp add: GC_REMOVE_ZOBJ_FROM_BUFFER_def unbuffer_def [abs_def])

lemma enter_free_ok:
  assumes st: "store_ok st F" and b: "live st h = Some b"
  shows "free_storage b = None \<Longrightarrow> \<exists>st'. enter_free gc h st = Some (Done st') \<and> store_ok st' (unat h # F) \<and> live st' = (live st)(h := None)"
    and "free_storage b = Some f \<Longrightarrow> \<exists>x s. enter_free gc h st = Some (Call_free f x s) \<and> object_of b = Some x \<and> store_ok s F \<and>
      live s = (live st)(h \<mapsto> unbuffer gc b) \<and> outline s = outline st"
proof -
  note ok = live_bucket(1,2) [OF b] live_entry_ok [OF st b]
  obtain s where s: "GC_REMOVE_ZOBJ_FROM_BUFFER gc h st = Some s" "store_ok s F" "live s = (live st)(h \<mapsto> unbuffer gc b)" "outline s = outline st"
    using upd_live [where f = "unbuffer gc", OF st b] ok by (auto simp: gc_unbuffer)
  have bs: "base s = base st" using s(4) by (simp add: outline_def)
  have l: "live s h = Some (unbuffer gc b)" using s(3) by simp
  show "\<exists>st'. enter_free gc h st = Some (Done st') \<and> store_ok st' (unat h # F) \<and> live st' = (live st)(h := None)" if "free_storage b = None"
    using after_free_ok(1) [OF s(2) l, of "base st"] s bs live_bucket(1) [OF l] that by (auto simp: enter_free_def)
  show "\<exists>x s. enter_free gc h st = Some (Call_free f x s) \<and> object_of b = Some x \<and> store_ok s F \<and>
      live s = (live st)(h \<mapsto> unbuffer gc b) \<and> outline s = outline st" if "free_storage b = Some f"
    using object_of_live [OF ok(3)] s live_bucket(1) [OF l] that by (auto simp: enter_free_def)
qed

section \<open>The store as a state machine\<close>

text \<open>
  Destructors and \<open>free_storage\<close> functions use the store again, so that uses of it are nested. The state of the machine is
  the store, the number of references that the program owns to each object, and the calls that are not finished, innermost first:
  a destructor (\<open>Dtor\<close>) or a \<open>free_storage\<close> function (\<open>Free\<close>, with the address of the table when it was called), which run for
  the last reference to an object. What they do is any sequence of steps. A reference is dropped only by its owner, and added only by an owner of another one or by
  the destructor of the object, which is handed the object.
\<close>

datatype frame = Dtor handle | Free handle nat

fun frame_handle :: "frame \<Rightarrow> handle" where
  "frame_handle (Dtor h) = h"
| "frame_handle (Free h _) = h"

definition held :: "handle \<Rightarrow> frame list \<Rightarrow> nat" where
  "held h fr = length (filter (\<lambda>f. frame_handle f = h) fr)"

type_synonym ('o, 'f) machine = "('o, 'f) objects_store \<times> (handle \<Rightarrow> nat) \<times> frame list"

fun goes_on :: "('o, 'f) del_phase \<Rightarrow> (handle \<Rightarrow> nat) \<Rightarrow> handle \<Rightarrow> frame list \<Rightarrow> ('o, 'f) machine" where
  "goes_on (Done st) own h fr = (st, own, fr)"
| "goes_on (Call_dtor f x st) own h fr = (st, own, Dtor h # fr)"
| "goes_on (Call_free f x st) own h fr = (st, own, Free h (base st) # fr)"

inductive store_step :: "('o, 'f) machine \<Rightarrow> ('o, 'f) machine \<Rightarrow> bool" where
  put: "zend_objects_store_put addr d x df ff cf st = Some (h, st') \<Longrightarrow> 2 * unat (os_size st) < 2 ^ 31 \<Longrightarrow>
    store_step (st, own, fr) (st', own(h := 1), fr)"
| add_ref: "0 < own h \<or> Dtor h \<in> set fr \<Longrightarrow> own h + held h fr + 1 < 2 ^ 32 \<Longrightarrow> zend_objects_store_add_ref_by_handle h st = Some st' \<Longrightarrow>
    store_step (st, own, fr) (st', own(h := own h + 1), fr)"
| set_object: "0 < own h \<Longrightarrow> zend_object_store_set_object h x st = Some st' \<Longrightarrow> store_step (st, own, fr) (st', own, fr)"
| ctor_failed: "0 < own h \<Longrightarrow> zend_object_store_ctor_failed h hs st = Some st' \<Longrightarrow> store_step (st, own, fr) (st', own, fr)"
| del_ref: "0 < own h \<Longrightarrow> del_enter gc h hs st = Some ph \<Longrightarrow> store_step (st, own, fr) (goes_on ph (own(h := own h - 1)) h fr)"
| dtor_return: "after_dtor gc h st = Some ph \<Longrightarrow> store_step (st, own, Dtor h # fr) (goes_on ph own h fr)"
| free_return: "after_free h obj st = Some st' \<Longrightarrow> store_step (st, own, Free h obj # fr) (st', own, fr)"

inductive store_reachable :: "('o, 'f) machine \<Rightarrow> bool" where
  start: "zend_objects_store_init addr n = Some st \<Longrightarrow> unat n < 2 ^ 31 \<Longrightarrow> store_reachable (st, (\<lambda>_. 0), [])"
| step: "store_reachable m \<Longrightarrow> store_step m m' \<Longrightarrow> store_reachable m'"

text \<open>Every reference is counted: those that the program owns and those of the calls that are not finished.\<close>

definition ref_counts :: "('o, 'f) objects_store \<Rightarrow> (handle \<Rightarrow> nat) \<Rightarrow> frame list \<Rightarrow> bool" where
  "ref_counts st own fr \<longleftrightarrow>
     (\<forall>h. case live st h of None \<Rightarrow> own h = 0 \<and> held h fr = 0 | Some b \<Rightarrow> unat (refcount b) = own h + held h fr) \<and>
     (\<forall>h obj. Free h obj \<in> set fr \<longrightarrow> own h = 0 \<and> held h fr = 1)"

lemma held_simps [simp]: "held h [] = 0" "held h (f # fr) = (if frame_handle f = h then Suc (held h fr) else held h fr)"
  by (simp_all add: held_def)

lemma held_pos: "f \<in> set fr \<Longrightarrow> 0 < held (frame_handle f) fr"
  by (induction fr) auto

lemma held_two: "Free h obj \<in> set fr \<Longrightarrow> Dtor h \<in> set fr \<Longrightarrow> 2 \<le> held h fr"
proof (induction fr)
  case (Cons f fr)
  then show ?case using held_pos [of "Free h obj" fr] held_pos [of "Dtor h" fr] by auto
qed simp

lemma ref_countsD:
  assumes "ref_counts st own fr"
  shows "live st h = Some b \<Longrightarrow> unat (refcount b) = own h + held h fr" "live st h = None \<Longrightarrow> own h = 0 \<and> held h fr = 0"
    "Free h obj \<in> set fr \<Longrightarrow> own h = 0 \<and> held h fr = 1"
  using assms unfolding ref_counts_def by (auto dest!: spec [of _ h])

lemma ref_counts_live:
  assumes "ref_counts st own fr" "0 < own h + held h fr"
  obtains b where "live st h = Some b" "unat (refcount b) = own h + held h fr"
  using ref_countsD(1,2) [OF assms(1), of h] assms(2) by (cases "live st h") auto

lemma ref_counts_upd:
  assumes c: "ref_counts st own fr" and l: "live st' = (live st)(h \<mapsto> b)" and r: "unat (refcount b) = own h + held h fr"
  shows "ref_counts st' own fr"
  using c l r unfolding ref_counts_def by simp

definition machine_ok :: "('o, 'f) machine \<Rightarrow> bool" where
  "machine_ok m \<longleftrightarrow> (case m of (st, own, fr) \<Rightarrow> (\<exists>F. store_ok st F) \<and> ref_counts st own fr)"

lemma machine_okI: "store_ok st F \<Longrightarrow> ref_counts st own fr \<Longrightarrow> machine_ok (st, own, fr)"
  by (auto simp: machine_ok_def)

text \<open>An entry is released when the last reference to it goes.\<close>

lemma ref_counts_free:
  assumes c: "ref_counts st own (f # fr)" and h: "frame_handle f = h" "own h = 0" "held h fr = 0" and l: "live st' = (live st)(h := None)"
  shows "ref_counts st' own fr"
  unfolding ref_counts_def
proof (intro conjI allI impI)
  fix k
  show "case live st' k of None \<Rightarrow> own k = 0 \<and> held k fr = 0 | Some b \<Rightarrow> unat (refcount b) = own k + held k fr"
    using ref_countsD(1,2) [OF c, of k] h l by (cases "k = h") (auto split: option.splits if_splits)
next
  fix k obj assume f: "Free k obj \<in> set fr"
  then have "k \<noteq> h" using held_pos [OF f] h(3) by auto
  then show "own k = 0" "held k fr = 1" using ref_countsD(3) [OF c, of k obj] f h(1) by auto
qed

lemma ref_counts_dec:
  assumes c: "ref_counts st own (Dtor h # fr)" and b: "live st h = Some b" "refcount b \<noteq> 1" and l: "live st' = (live st)(h \<mapsto> b\<lparr>refcount := refcount b - 1\<rparr>)"
  shows "ref_counts st' own fr"
proof -
  have r: "unat (refcount b) = own h + Suc (held h fr)" using ref_countsD(1) [OF c b(1)] by simp
  then have "refcount b \<noteq> 0" by auto
  then have d: "unat (refcount b - 1) = own h + held h fr" using r by (simp add: unat_minus_one)
  show ?thesis
    unfolding ref_counts_def
  proof (intro conjI allI impI)
    fix k
    show "case live st' k of None \<Rightarrow> own k = 0 \<and> held k fr = 0 | Some b \<Rightarrow> unat (refcount b) = own k + held k fr"
      using ref_countsD(1,2) [OF c, of k] d l by (cases "k = h") (auto split: option.splits)
  next
    fix k obj assume f: "Free k obj \<in> set fr"
    then have "own k = 0 \<and> held k (Dtor h # fr) = 1" using ref_countsD(3) [OF c, of k obj] by simp
    then show "own k = 0" "held k fr = 1" using held_pos [OF f] by (auto split: if_splits)
  qed
qed

lemma after_dtor_machine:
  assumes st: "store_ok st F" and c: "ref_counts st own (Dtor h # fr)"
  shows "\<exists>ph. after_dtor gc h st = Some ph \<and> machine_ok (goes_on ph own h fr)"
proof -
  obtain b where b: "live st h = Some b" "unat (refcount b) = own h + Suc (held h fr)" by (rule ref_counts_live [OF c, of h]) auto
  note at = live_bucket(1) [OF b(1)]
  show ?thesis
  proof (cases "refcount b = 1")
    case False
    obtain st' where s: "dec_ref h st = Some st'" "store_ok st' F" "live st' = (live st)(h \<mapsto> b\<lparr>refcount := refcount b - 1\<rparr>)"
      using dec_live [OF st b(1) False] by blast
    have "machine_ok (st', own, fr)" by (rule machine_okI [OF s(2) ref_counts_dec [OF c b(1) False s(3)]])
    then show ?thesis using at False s(1) by (simp add: after_dtor_def)
  next
    case True
    then have z: "own h = 0" "held h fr = 0" using b(2) by simp_all
    show ?thesis
    proof (cases "free_storage b")
      case None
      obtain st' where s: "enter_free gc h st = Some (Done st')" "store_ok st' (unat h # F)" "live st' = (live st)(h := None)"
        using enter_free_ok(1) [OF st b(1) None] by blast
      have "machine_ok (st', own, fr)" by (rule machine_okI [OF s(2) ref_counts_free [OF c _ z s(3)]]) simp
      then show ?thesis using at True s(1) by (simp add: after_dtor_def)
    next
      case (Some f)
      obtain x s where s: "enter_free gc h st = Some (Call_free f x s)" "store_ok s F" "live s = (live st)(h \<mapsto> unbuffer gc b)"
        using enter_free_ok(2) [OF st b(1) Some] by blast
      have c1: "ref_counts s own (Dtor h # fr)" by (rule ref_counts_upd [OF c s(3)]) (use b(2) in simp)
      have "ref_counts s own (Free h obj # fr)" for obj
        using ref_countsD [OF c1] z unfolding ref_counts_def by (auto split: option.splits)
      then have "machine_ok (s, own, Free h (base s) # fr)" by (rule machine_okI [OF s(2)])
      then show ?thesis using at True s(1) by (simp add: after_dtor_def)
    qed
  qed
qed

text \<open>The owner of a reference hands it over to the call that drops it.\<close>

lemma ref_counts_hand_over:
  assumes "ref_counts st own fr" "0 < own h"
  shows "ref_counts st (own(h := own h - 1)) (Dtor h # fr)"
  unfolding ref_counts_def
proof (intro conjI allI impI)
  fix k
  show "case live st k of None \<Rightarrow> (own(h := own h - 1)) k = 0 \<and> held k (Dtor h # fr) = 0
      | Some b \<Rightarrow> unat (refcount b) = (own(h := own h - 1)) k + held k (Dtor h # fr)"
    using ref_countsD(1,2) [OF assms(1), of k] assms(2) by (cases "k = h") (auto split: option.splits)
next
  fix k obj assume "Free k obj \<in> set (Dtor h # fr)"
  then have f: "own k = 0" "held k fr = 1" using ref_countsD(3) [OF assms(1), of k obj] by simp_all
  then have "k \<noteq> h" using assms(2) by auto
  then show "(own(h := own h - 1)) k = 0" "held k (Dtor h # fr) = 1" using f by simp_all
qed

lemma del_enter_machine:
  assumes st: "store_ok st F" and c: "ref_counts st own fr" and o: "0 < own h"
  shows "\<exists>ph. del_enter gc h hs st = Some ph \<and> machine_ok (goes_on ph (own(h := own h - 1)) h fr)"
proof -
  let ?own = "own(h := own h - 1)"
  note c1 = ref_counts_hand_over [OF c o]
  obtain b where b: "live st h = Some b" "unat (refcount b) = own h + held h fr" by (rule ref_counts_live [OF c, of h]) (use o in auto)
  note at = live_bucket(1,2) [OF b(1)] and lo = live_entry_ok [OF st b(1)]
  consider (more) "refcount b \<noteq> 1" | (called) "refcount b = 1" "destructor_called b" | (last) "refcount b = 1" "\<not> destructor_called b" by blast
  then show ?thesis
  proof cases
    case more
    obtain st' where s: "dec_ref h st = Some st'" "store_ok st' F" "live st' = (live st)(h \<mapsto> b\<lparr>refcount := refcount b - 1\<rparr>)"
      using dec_live [OF st b(1) more] by blast
    have "machine_ok (st', ?own, fr)" by (rule machine_okI [OF s(2) ref_counts_dec [OF c1 b(1) more s(3)]])
    then show ?thesis using at more s(1) by (simp add: del_enter_def)
  next
    case called
    then show ?thesis using after_dtor_machine [OF st c1, of gc] at by (simp add: del_enter_def)
  next
    case last
    let ?b = "b\<lparr>destructor_called := True\<rparr>"
    obtain s where s: "bucket_upd h (\<lambda>b. b\<lparr>destructor_called := True\<rparr>) st = Some s" "store_ok s F" "live s = (live st)(h \<mapsto> ?b)"
      using upd_live [OF st b(1), of "\<lambda>b. b\<lparr>destructor_called := True\<rparr>"] at lo by (auto simp: live_ok_def)
    have cs: "ref_counts s ?own (Dtor h # fr)" by (rule ref_counts_upd [OF c1 s(3)]) (use b(2) o in simp)
    show ?thesis
    proof (cases "dtor b")
      case None
      then show ?thesis using after_dtor_machine [OF s(2) cs, of gc] at last s(1) by (simp add: del_enter_def)
    next
      case (Some f)
      obtain x where x: "object_of b = Some x" using object_of_live [OF lo] by blast
      have ls: "live s h = Some ?b" using s(3) by simp
      have "\<exists>s'. (if hs \<noteq> None \<and> handlers b = None then bucket_upd h (\<lambda>b. b\<lparr>handlers := hs\<rparr>) s else Some s) = Some s' \<and> store_ok s' F \<and>
          ref_counts s' ?own (Dtor h # fr)"
      proof (cases "hs \<noteq> None \<and> handlers b = None")
        case True
        obtain s' where s': "bucket_upd h (\<lambda>b. b\<lparr>handlers := hs\<rparr>) s = Some s'" "store_ok s' F" "live s' = (live s)(h \<mapsto> ?b\<lparr>handlers := hs\<rparr>)"
          using upd_live [OF s(2) ls, of "\<lambda>b. b\<lparr>handlers := hs\<rparr>"] at lo by (auto simp: live_ok_def)
        have "ref_counts s' ?own (Dtor h # fr)" by (rule ref_counts_upd [OF cs s'(3)]) (use b(2) o in simp)
        then show ?thesis using s' True by simp
      next
        case False
        then show ?thesis using s(2) cs by auto
      qed
      then obtain s' where s': "(if hs \<noteq> None \<and> handlers b = None then bucket_upd h (\<lambda>b. b\<lparr>handlers := hs\<rparr>) s else Some s) = Some s'" "store_ok s' F"
          "ref_counts s' ?own (Dtor h # fr)" by blast
      then have "del_enter gc h hs st = Some (Call_dtor f x s')" using at last s(1) Some x by (simp add: del_enter_def)
      then show ?thesis using machine_okI [OF s'(2,3)] by simp
    qed
  qed
qed

lemma upd_machine:
  assumes m: "store_ok st F" "ref_counts st own fr" and b: "live st h = Some b" and u: "bucket_upd h f st = Some st'"
    and f: "valid (f b)" "live_ok (f b)" "refcount (f b) = refcount b"
  shows "machine_ok (st', own, fr)"
proof -
  have s: "store_ok st' F" "live st' = (live st)(h \<mapsto> f b)" using upd_live [where f = f, OF m(1) b f(1,2)] u by auto
  show ?thesis by (rule machine_okI [OF s(1) ref_counts_upd [OF m(2) s(2)]]) (use ref_countsD(1) [OF m(2) b] f(3) in simp)
qed

lemma store_step_ok:
  assumes "store_step m m'" "machine_ok m"
  shows "machine_ok m'"
  using assms
proof cases
  case (put addr d x df ff cf st h st' own fr)
  obtain F where F: "store_ok st F" and c: "ref_counts st own fr" using assms(2) put by (auto simp: machine_ok_def)
  have s: "store_ok st' (tl F)" "live st h = None" "live st' = (live st)(h \<mapsto> new_object d x df ff cf)"
    using put_ok [OF F, of addr d x df ff cf] put(3,4) by auto
  have z: "own h = 0" "held h fr = 0" using ref_countsD(2) [OF c s(2)] by simp_all
  have nf: "k \<noteq> h" if "Free k obj \<in> set fr" for k obj using held_pos [OF that] z(2) by auto
  have "ref_counts st' (own(h := 1)) fr"
    using ref_countsD [OF c] s(3) z nf unfolding ref_counts_def by (auto simp: new_object_def split: option.splits)
  then show ?thesis using machine_okI [OF s(1)] put(2) by simp
next
  case (add_ref own h fr st st')
  obtain F where F: "store_ok st F" and c: "ref_counts st own fr" using assms(2) add_ref by (auto simp: machine_ok_def)
  have p: "0 < own h + held h fr" using add_ref(3) held_pos [of "Dtor h" fr] by auto
  obtain b where b: "live st h = Some b" "unat (refcount b) = own h + held h fr" by (rule ref_counts_live [OF c p])
  have r: "unat (refcount b + 1) = own h + held h fr + 1" using b(2) add_ref(4) by (simp add: unat_word_ariths)
  then have nz: "refcount b + 1 \<noteq> 0" by auto
  have s: "store_ok st' F" "live st' = (live st)(h \<mapsto> b\<lparr>refcount := refcount b + 1\<rparr>)"
    using upd_live [OF F b(1), of "\<lambda>b. b\<lparr>refcount := refcount b + 1\<rparr>"] live_entry_ok [OF F b(1)] live_bucket(2) [OF b(1)] nz add_ref(5)
    by (auto simp: zend_objects_store_add_ref_by_handle_def live_ok_def)
  have nf: "k \<noteq> h" if f: "Free k obj \<in> set fr" for k obj
    using ref_countsD(3) [OF c f] add_ref(3) held_two [of h obj fr] f by auto
  have "ref_counts st' (own(h := own h + 1)) fr"
    using ref_countsD [OF c] s(2) r nf unfolding ref_counts_def by (auto split: option.splits)
  then show ?thesis using machine_okI [OF s(1)] add_ref(2) by simp
next
  case (set_object own h x st st' fr)
  obtain F where F: "store_ok st F" and c: "ref_counts st own fr" using assms(2) set_object by (auto simp: machine_ok_def)
  obtain b where b: "live st h = Some b" by (rule ref_counts_live [OF c, of h]) (use set_object(3) in auto)
  have "machine_ok (st', own, fr)"
    by (rule upd_machine [OF F c b set_object(4) [unfolded zend_object_store_set_object_def]])
      (use live_entry_ok [OF F b] live_bucket(2) [OF b] in \<open>simp_all add: live_ok_def\<close>)
  then show ?thesis using set_object(2) by simp
next
  case (ctor_failed own h hs st st' fr)
  obtain F where F: "store_ok st F" and c: "ref_counts st own fr" using assms(2) ctor_failed by (auto simp: machine_ok_def)
  obtain b where b: "live st h = Some b" by (rule ref_counts_live [OF c, of h]) (use ctor_failed(3) in auto)
  have "machine_ok (st', own, fr)"
    by (rule upd_machine [OF F c b ctor_failed(4) [unfolded zend_object_store_ctor_failed_def]])
      (use live_entry_ok [OF F b] live_bucket(2) [OF b] in \<open>simp_all add: live_ok_def\<close>)
  then show ?thesis using ctor_failed(2) by simp
next
  case (del_ref own h gc hs st ph fr)
  obtain F where "store_ok st F" "ref_counts st own fr" using assms(2) del_ref by (auto simp: machine_ok_def)
  then show ?thesis using del_enter_machine [of st F own fr h gc hs] del_ref by auto
next
  case (dtor_return gc h st ph own fr)
  obtain F where "store_ok st F" "ref_counts st own (Dtor h # fr)" using assms(2) dtor_return by (auto simp: machine_ok_def)
  then show ?thesis using after_dtor_machine [of st F own h fr gc] dtor_return by auto
next
  case (free_return h obj st st' own fr)
  obtain F where F: "store_ok st F" and c: "ref_counts st own (Free h obj # fr)" using assms(2) free_return by (auto simp: machine_ok_def)
  have z: "own h = 0" "held h fr = 0" using ref_countsD(3) [OF c, of h obj] by simp_all
  obtain b where b: "live st h = Some b" by (rule ref_counts_live [OF c, of h]) auto
  have "obj = base st" using after_free_ok(2) [OF F b, of obj] free_return(3) by (cases "obj = base st") auto
  then have s: "store_ok st' (unat h # F)" "live st' = (live st)(h := None)" using after_free_ok(1) [OF F b, of obj] free_return(3) by auto
  have "machine_ok (st', own, fr)" by (rule machine_okI [OF s(1) ref_counts_free [OF c _ z s(2)]]) simp
  then show ?thesis using free_return(2) by simp
qed

lemma store_init_ok:
  assumes "0 < n" "unat n < 2 ^ 31"
  shows "\<exists>st. zend_objects_store_init addr n = Some st \<and> store_ok st [] \<and> live st = Map.empty"
proof -
  let ?st = "\<lparr>base = addr, object_buckets = Some ((replicate (unat n) None)[0 := Some zero_bucket]), os_top = 1, os_size = n,
     free_list_head = - 1\<rparr>"
  have n: "0 < unat n" using assms(1) by (simp add: unat_gt_0 word_gt_0)
  have "zend_objects_store_init addr n = Some ?st" using n by (simp add: zend_objects_store_init_def bucket_put_def)
  moreover have "store_ok ?st []" by (rule store_okI) (use assms n in auto)
  moreover have "live ?st = Map.empty" by (auto simp: live_def fun_eq_iff)
  ultimately show ?thesis by blast
qed

lemma init_size: "zend_objects_store_init addr n = Some st \<Longrightarrow> 0 < n"
  by (auto simp: zend_objects_store_init_def bucket_put_def word_gt_0 split: if_splits)

lemma reachable_ok: "store_reachable (m :: ('o, 'f) machine) \<Longrightarrow> machine_ok m"
proof (induction rule: store_reachable.induct)
  case (start addr n st)
  obtain st1 :: "('o, 'f) objects_store" where "zend_objects_store_init addr n = Some st1" "store_ok st1 []" "live st1 = Map.empty"
    using store_init_ok [OF init_size [OF start(1)] start(2), of addr] by blast
  then have "store_ok st [] \<and> live st = Map.empty" using start(1) by simp
  then show ?case by (auto simp: machine_ok_def ref_counts_def)
qed (use store_step_ok in blast)

section \<open>Dropping a reference, as a whole\<close>

text \<open>
  What happens to the result \<open>res\<close> of a call when the destructor has run, or need not run, in the store \<open>st\<close>, where the entry is \<open>b\<close>: with another reference only
  the count goes down; otherwise the storage is released and the entry goes to the free list, unless \<open>free_storage\<close> has moved the table.
\<close>

definition last_ref ::
  "('o, 'f) callback \<Rightarrow> bool \<Rightarrow> handle \<Rightarrow> bool \<Rightarrow> ('o, 'f) objects_store \<Rightarrow> nat list \<Rightarrow> ('o, 'f) store_bucket \<Rightarrow> (('o, 'f) objects_store \<times> bool) option \<Rightarrow> bool" where
  "last_ref run_free gc h failure st F b res \<longleftrightarrow>
     (if refcount b \<noteq> 1 then \<exists>st'. res = Some (st', failure) \<and> store_ok st' F \<and> live st' = (live st)(h \<mapsto> b\<lparr>refcount := refcount b - 1\<rparr>)
      else case free_storage b of
        None \<Rightarrow> \<exists>st'. res = Some (st', failure) \<and> store_ok st' (unat h # F) \<and> live st' = (live st)(h := None)
      | Some f \<Rightarrow> \<exists>s x. store_ok s F \<and> live s = (live st)(h \<mapsto> unbuffer gc b) \<and> outline s = outline st \<and> object_of b = Some x \<and>
          (run_free f x h s = None \<longrightarrow> res = None) \<and>
          (\<forall>s' failure' F' b'. run_free f x h s = Some (s', failure') \<longrightarrow> store_ok s' F' \<longrightarrow> live s' h = Some b' \<longrightarrow>
            (if base s' = base st then \<exists>st'. res = Some (st', failure \<or> failure') \<and> store_ok st' (unat h # F') \<and> live st' = (live s')(h := None)
             else res = None)))"

lemma last_ref_ok:
  assumes st: "store_ok st F" and b: "live st h = Some b"
  shows "last_ref run_free gc h failure st F b (do { ph \<leftarrow> after_dtor gc h st; finish_free run_free h failure ph })"
proof (cases "refcount b = 1")
  case False
  then show ?thesis using dec_live [OF st b False] live_bucket(1) [OF b] by (auto simp: last_ref_def after_dtor_def finish_free_def)
next
  case True
  show ?thesis
  proof (cases "free_storage b")
    case None
    then show ?thesis using enter_free_ok(1) [OF st b None, of gc] True live_bucket(1) [OF b] by (auto simp: last_ref_def after_dtor_def finish_free_def)
  next
    case (Some f)
    obtain x s where s: "enter_free gc h st = Some (Call_free f x s)" "object_of b = Some x" "store_ok s F" "live s = (live st)(h \<mapsto> unbuffer gc b)" "outline s = outline st"
      using enter_free_ok(2) [OF st b Some, of gc] by blast
    let ?res = "do { ph \<leftarrow> after_dtor gc h st; finish_free run_free h failure ph }"
    have e: "?res = do { (st', failure') \<leftarrow> run_free f x h s; st' \<leftarrow> after_free h (base st) st'; Some (st', failure \<or> failure') }"
      using s(1,5) True live_bucket(1) [OF b] by (simp add: after_dtor_def finish_free_def outline_def)
    have w: "if base s' = base st then \<exists>st'. ?res = Some (st', failure \<or> failure') \<and> store_ok st' (unat h # F') \<and> live st' = (live s')(h := None) else ?res = None"
      if r: "run_free f x h s = Some (s', failure')" and o: "store_ok s' F'" "live s' h = Some b'" for s' failure' F' b'
      using after_free_ok [OF o, of "base st"] unfolding e r by auto
    have n: "run_free f x h s = None \<longrightarrow> ?res = None" using e by simp
    have "\<exists>s x. store_ok s F \<and> live s = (live st)(h \<mapsto> unbuffer gc b) \<and> outline s = outline st \<and> object_of b = Some x \<and> (run_free f x h s = None \<longrightarrow> ?res = None) \<and>
        (\<forall>s' failure' F' b'. run_free f x h s = Some (s', failure') \<longrightarrow> store_ok s' F' \<longrightarrow> live s' h = Some b' \<longrightarrow>
          (if base s' = base st then \<exists>st'. ?res = Some (st', failure \<or> failure') \<and> store_ok st' (unat h # F') \<and> live st' = (live s')(h := None) else ?res = None))"
      by (intro exI [of _ s] exI [of _ x] conjI) (fact s(3), fact s(4), fact s(5), fact s(2), fact n, intro allI impI, erule (2) w)
    then show ?thesis unfolding last_ref_def using True Some by simp
  qed
qed

section \<open>Properties\<close>

text \<open>
  C20: the object store under nested use. A machine creates objects, adds and drops references, sets objects and marks failed constructors; the destructors
  and \<open>free_storage\<close> functions that dropping the last reference calls are again any such steps. In every state the machine reaches (with
  a table below \<open>2 ^ 31\<close> entries and counts below \<open>2 ^ 32\<close>) the free entries form a proper list, live and free entries share
  out the used part of the table, and the count of every live object is exactly the number of references that are owned or
  held by calls that are not finished; an object that is not live has none. So no step faults: a new object gets a handle
  that is not 0 and not in use, without touching any other object, dropping a reference that is owned goes through, and so does the return from a destructor. The
  one exception is the return from \<open>free_storage\<close>, which faults exactly if the table has been moved since it was called.
\<close>

theorem objects_store_invariant:
  assumes "store_reachable (st, own, fr)"
  shows "\<exists>F. store_ok st F \<and>
    (\<forall>h. case live st h of None \<Rightarrow> own h = 0 \<and> held h fr = 0 | Some b \<Rightarrow> unat (refcount b) = own h + held h fr) \<and>
    (2 * unat (os_size st) < 2 ^ 31 \<longrightarrow> (\<exists>h st'. zend_objects_store_put addr d x df ff cf st = Some (h, st') \<and> h \<noteq> 0 \<and> live st h = None \<and>
      live st' = (live st)(h \<mapsto> new_object d x df ff cf))) \<and>
    (\<forall>h gc hs. 0 < own h \<longrightarrow> del_enter gc h hs st \<noteq> None) \<and>
    (\<forall>h fr' gc. fr = Dtor h # fr' \<longrightarrow> after_dtor gc h st \<noteq> None) \<and>
    (\<forall>h obj fr'. fr = Free h obj # fr' \<longrightarrow> (after_free h obj st = None \<longleftrightarrow> obj \<noteq> base st))"
proof -
  obtain F where F: "store_ok st F" and c: "ref_counts st own fr" using reachable_ok [OF assms] by (auto simp: machine_ok_def)
  have "\<exists>h st'. zend_objects_store_put addr d x df ff cf st = Some (h, st') \<and> h \<noteq> 0 \<and> live st h = None \<and> live st' = (live st)(h \<mapsto> new_object d x df ff cf)"
    if "2 * unat (os_size st) < 2 ^ 31" using put_ok [OF F, of addr d x df ff cf] that by blast
  moreover have "del_enter gc h hs st \<noteq> None" if "0 < own h" for h gc hs using del_enter_machine [OF F c that, of gc hs] by auto
  moreover have "after_dtor gc h st \<noteq> None" if "fr = Dtor h # fr'" for h fr' gc using after_dtor_machine [OF F, of own h fr' gc] c that by auto
  moreover have "after_free h obj st = None \<longleftrightarrow> obj \<noteq> base st" if f: "fr = Free h obj # fr'" for h obj fr'
  proof -
    obtain b where b: "live st h = Some b" by (rule ref_counts_live [OF c, of h]) (use f in auto)
    show ?thesis using after_free_ok [OF F b, of obj] by (cases "obj = base st") auto
  qed
  ultimately show ?thesis using F c unfolding ref_counts_def by blast
qed

definition sample_store :: "uint \<Rightarrow> (nat, nat) objects_store" where
  "sample_store n = the (zend_objects_store_init 100 n)"

text \<open>A store with room for one object, and the store with that object: its destructor is 0, its \<open>free_storage\<close> function 1.\<close>

lemma sample_store_ok: "store_reachable (sample_store 2, \<lambda>_. 0, [])" "store_ok (sample_store 2) []" "os_size (sample_store 2) = 2"
proof -
  obtain st :: "(nat, nat) objects_store" where st: "zend_objects_store_init 100 2 = Some st" "store_ok st []" using store_init_ok [of 2 100] by auto
  have s: "sample_store 2 = st" using st(1) by (simp add: sample_store_def)
  show "store_reachable (sample_store 2, \<lambda>_. 0, [])" unfolding s by (rule store_reachable.start [OF st(1)]) simp
  show "store_ok (sample_store 2) []" unfolding s by (rule st(2))
  show "os_size (sample_store 2) = 2" unfolding s using st(1) by (auto simp: zend_objects_store_init_def bucket_put_def)
qed

definition sample_put :: "(nat, nat) objects_store \<Rightarrow> handle \<times> (nat, nat) objects_store" where
  "sample_put st = the (zend_objects_store_put 200 0 (Some 5) None (Some 1) None st)"

lemma sample_put_ok:
  assumes "store_ok st F" "2 * unat (os_size st) < 2 ^ 31"
  shows "zend_objects_store_put 200 0 (Some 5) None (Some 1) None st = Some (sample_put st)" "store_ok (snd (sample_put st)) (tl F)"
    "live st (fst (sample_put st)) = None" "live (snd (sample_put st)) = (live st)(fst (sample_put st) \<mapsto> new_object 0 (Some 5) None (Some 1) None)"
  using put_ok [OF assms, of 200 0 "Some 5" None "Some 1" None] by (auto simp: sample_put_def)

definition sample_object :: "(nat, nat) objects_store" where
  "sample_object = snd (sample_put (sample_store 2))"

lemma sample_object_eq: "zend_objects_store_put 200 0 (Some 5) None (Some 1) None (sample_store 2) = Some (1, sample_object)"
  "os_size sample_object = 2" "os_top sample_object = 2" "base sample_object = 100" "free_list_head sample_object = - 1"
  by (simp_all add: sample_object_def sample_put_def sample_store_def zend_objects_store_init_def zend_objects_store_put_def bucket_put_def Let_def)

lemma sample_object_ok: "store_ok sample_object []" "live sample_object 1 = Some (new_object 0 (Some 5) None (Some 1) None)"
  using put_ok [OF sample_store_ok(2), of 200 0 "Some 5" None "Some 1" None] sample_object_eq(1) sample_store_ok(3) by auto

theorem objects_store_invariant_witness:
  "store_reachable (sample_object, (\<lambda>_. 0)(1 := 1), []) \<and> del_enter False 1 None sample_object \<noteq> None \<and>
   (\<exists>h st'. zend_objects_store_put 300 0 (Some 8) None None None sample_object = Some (h, st') \<and> h \<noteq> 0 \<and> live sample_object h = None)"
proof -
  have r: "store_reachable (sample_object, (\<lambda>_. 0)(1 := 1), [])"
    by (rule store_reachable.step [OF sample_store_ok(1) store_step.put [OF sample_object_eq(1)]]) (simp add: sample_store_ok(3))
  show ?thesis using r objects_store_invariant [OF r, of 300 0 "Some 8" None None None] by (auto simp: sample_object_eq(2))
qed

text \<open>
  C21: dropping a reference to a live object of a well-formed store. With more than one reference only the count goes down, and nothing
  is called. For the last reference, the destructor is called exactly if it was not called before, after the entry was marked, on a store that is otherwise
  unchanged; if it does not return, neither does the function. When it returns a well-formed store in which the object is live,
  the function looks at the count again: if there is a new reference, the object lives on; if not, \<open>free_storage\<close> is called and the entry is put
  on the free list, and a failure of either is reported after that. If \<open>free_storage\<close> has moved the table, the function writes
  through a pointer into the old table: it faults.
\<close>

theorem objects_store_del_ref_spec:
  assumes "store_ok st F" "live st h = Some b" "res = zend_objects_store_del_ref_by_handle_ex run run_free gc h hs st"
  shows "(refcount b \<noteq> 1 \<longrightarrow> (\<exists>st'. res = Some (st', False) \<and> store_ok st' F \<and> live st' = (live st)(h \<mapsto> b\<lparr>refcount := refcount b - 1\<rparr>))) \<and>
    (refcount b = 1 \<and> destructor_called b \<longrightarrow> last_ref run_free gc h False st F b res) \<and>
    (refcount b = 1 \<and> \<not> destructor_called b \<longrightarrow>
      (\<exists>s. store_ok s F \<and> outline s = outline st \<and>
        (case dtor b of
           None \<Rightarrow> live s = (live st)(h \<mapsto> b\<lparr>destructor_called := True\<rparr>) \<and> last_ref run_free gc h False s F (b\<lparr>destructor_called := True\<rparr>) res
         | Some f \<Rightarrow> live s = (live st)(h \<mapsto> b\<lparr>destructor_called := True, handlers := if handlers b = None then hs else handlers b\<rparr>) \<and>
             (\<exists>x. object_of b = Some x \<and> (run f x h s = None \<longrightarrow> res = None) \<and>
               (\<forall>s' failure F' b'. run f x h s = Some (s', failure) \<longrightarrow> store_ok s' F' \<longrightarrow> live s' h = Some b' \<longrightarrow>
                 last_ref run_free gc h failure s' F' b' res)))))"
proof -
  note st = assms(1) and b = assms(2)
  note at = live_bucket(1,2) [OF b] and lo = live_entry_ok [OF st b]
  have nn: "object_buckets st \<noteq> None" using at(1) by (auto simp: bucket_at_def split: option.splits)
  note ph = assms(3) [unfolded del_ref_phases [OF nn]]
  have more: "\<exists>st'. res = Some (st', False) \<and> store_ok st' F \<and> live st' = (live st)(h \<mapsto> b\<lparr>refcount := refcount b - 1\<rparr>)" if "refcount b \<noteq> 1"
    using dec_live [OF st b that] at that unfolding ph by (auto simp: del_enter_def finish_dtor_def finish_free_def)
  have called: "last_ref run_free gc h False st F b res" if "refcount b = 1" "destructor_called b"
    using last_ref_ok [OF st b, of run_free gc False] at that unfolding ph after_finish [of gc h st run run_free, symmetric] by (simp add: del_enter_def)
  obtain s where s: "bucket_upd h (\<lambda>b. b\<lparr>destructor_called := True\<rparr>) st = Some s" "store_ok s F" "live s = (live st)(h \<mapsto> b\<lparr>destructor_called := True\<rparr>)" "outline s = outline st"
    using upd_live [OF st b, of "\<lambda>b. b\<lparr>destructor_called := True\<rparr>"] at lo by (auto simp: live_ok_def)
  have ls: "live s h = Some (b\<lparr>destructor_called := True\<rparr>)" using s(3) by simp
  have "\<exists>s. store_ok s F \<and> outline s = outline st \<and>
        (case dtor b of
           None \<Rightarrow> live s = (live st)(h \<mapsto> b\<lparr>destructor_called := True\<rparr>) \<and> last_ref run_free gc h False s F (b\<lparr>destructor_called := True\<rparr>) res
         | Some f \<Rightarrow> live s = (live st)(h \<mapsto> b\<lparr>destructor_called := True, handlers := if handlers b = None then hs else handlers b\<rparr>) \<and>
             (\<exists>x. object_of b = Some x \<and> (run f x h s = None \<longrightarrow> res = None) \<and>
               (\<forall>s' failure F' b'. run f x h s = Some (s', failure) \<longrightarrow> store_ok s' F' \<longrightarrow> live s' h = Some b' \<longrightarrow>
                 last_ref run_free gc h failure s' F' b' res)))"
    if r: "refcount b = 1" "\<not> destructor_called b"
  proof (cases "dtor b")
    case None
    have "res = do { ph \<leftarrow> after_dtor gc h s; finish_free run_free h False ph }"
      using at r None s(1) after_finish [of gc h s run run_free] unfolding ph by (simp add: del_enter_def)
    then show ?thesis using last_ref_ok [OF s(2) ls, of run_free gc False] s None by auto
  next
    case (Some f)
    obtain x where x: "object_of b = Some x" using object_of_live [OF lo] by blast
    let ?b = "b\<lparr>destructor_called := True, handlers := if handlers b = None then hs else handlers b\<rparr>"
    let ?upd = "if hs \<noteq> None \<and> handlers b = None then bucket_upd h (\<lambda>b. b\<lparr>handlers := hs\<rparr>) s else Some s"
    have "\<exists>s'. ?upd = Some s' \<and> store_ok s' F \<and> live s' = (live st)(h \<mapsto> ?b) \<and> outline s' = outline st"
    proof (cases "hs \<noteq> None \<and> handlers b = None")
      case True
      then show ?thesis using upd_live [OF s(2) ls, of "\<lambda>b. b\<lparr>handlers := hs\<rparr>"] at lo s(3,4) by (auto simp: live_ok_def)
    next
      case False
      then have "?b = b\<lparr>destructor_called := True\<rparr>" by (cases b) auto
      then show ?thesis using s(2-4) False by auto
    qed
    then obtain s' where s': "?upd = Some s'" "store_ok s' F" "live s' = (live st)(h \<mapsto> ?b)" "outline s' = outline st" by blast
    have e: "res = do { (st, failure) \<leftarrow> run f x h s'; ph \<leftarrow> after_dtor gc h st; finish_free run_free h failure ph }"
      using at r Some s(1) s'(1) x unfolding ph by (simp add: del_enter_def finish_dtor_def)
    have l: "last_ref run_free gc h failure s2 F2 b2 res"
      if "run f x h s' = Some (s2, failure)" "store_ok s2 F2" "live s2 h = Some b2" for s2 failure F2 b2
      using last_ref_ok [OF that(2,3), of run_free gc failure] that(1) unfolding e by simp
    have n: "run f x h s' = None \<longrightarrow> res = None" using e by simp
    show ?thesis unfolding Some option.case
      by (intro exI [of _ s'] exI [of _ x] conjI) (fact s'(2), fact s'(4), fact s'(3), fact x, fact n, intro allI impI, erule (2) l)
  qed
  then show ?thesis using more called by blast
qed

text \<open>A destructor or \<open>free_storage\<close> function that creates an object, for which the table has to grow.\<close>

definition makes_object :: "(nat, nat) callback" where
  "makes_object f x h st = map_option (\<lambda>(_, st). (st, False)) (zend_objects_store_put 300 0 (Some 8) None None None st)"

definition does_nothing :: "(nat, nat) callback" where
  "does_nothing f x h st = Some (st, False)"

text \<open>With such a destructor the object is destroyed and the new object lives; with such a \<open>free_storage\<close> function the final decrement goes through a stale pointer.\<close>

theorem objects_store_del_ref_spec_witness:
  "(\<exists>st' h. zend_objects_store_del_ref_by_handle_ex makes_object does_nothing False 1 None sample_object = Some (st', False) \<and>
     live st' 1 = None \<and> live st' h \<noteq> None) \<and>
   zend_objects_store_del_ref_by_handle_ex zend_objects_proxy_destroy makes_object False 1 None sample_object = None"
proof
  let ?b = "new_object 0 (Some 5) None (Some 1) None :: (nat, nat) store_bucket"
  let ?res = "zend_objects_store_del_ref_by_handle_ex makes_object does_nothing False 1 None sample_object"
  have b: "refcount ?b = 1" "\<not> destructor_called ?b" "dtor ?b = Some 0" "object_of ?b = Some (Some 5)" "handlers ?b = None"
    by (simp_all add: new_object_def object_of_def)
  let ?b1 = "?b\<lparr>destructor_called := True, handlers := None\<rparr>"
  obtain s where s: "store_ok s []" "outline s = outline sample_object" "live s = (live sample_object)(1 \<mapsto> ?b1)"
    and r: "\<forall>s' failure F' b'. makes_object 0 (Some 5) 1 s = Some (s', failure) \<longrightarrow> store_ok s' F' \<longrightarrow> live s' 1 = Some b' \<longrightarrow>
        last_ref does_nothing False 1 failure s' F' b' ?res"
    using objects_store_del_ref_spec [OF sample_object_ok refl, of makes_object does_nothing False None] b by auto
  have sz: "2 * unat (os_size s) < 2 ^ 31" using s(2) sample_object_eq(2) by (simp add: outline_def)
  obtain h s1 where p: "zend_objects_store_put 300 0 (Some 8) None None None s = Some (h, s1)" "store_ok s1 []" "live s h = None"
      "live s1 = (live s)(h \<mapsto> new_object 0 (Some 8) None None None)"
    using put_ok [OF s(1), of 300 0 "Some 8" None None None] sz by auto
  have h: "h \<noteq> 1" using p(3) s(3) by auto
  have m: "makes_object 0 (Some 5) 1 s = Some (s1, False)" using p(1) by (simp add: makes_object_def)
  have "live s1 1 = Some ?b1" using p(4) s(3) h by simp
  then have "last_ref does_nothing False 1 False s1 [] ?b1 ?res" using r m p(2) by blast
  moreover have "refcount ?b1 = 1" "free_storage ?b1 = Some 1" by (simp_all add: new_object_def)
  ultimately obtain s2 x where s2: "store_ok s2 []" "live s2 = (live s1)(1 \<mapsto> unbuffer False ?b1)" "outline s2 = outline s1"
    and e: "\<forall>s' failure' F' b'. does_nothing 1 x 1 s2 = Some (s', failure') \<longrightarrow> store_ok s' F' \<longrightarrow> live s' 1 = Some b' \<longrightarrow>
      (if base s' = base s1 then \<exists>st'. ?res = Some (st', False \<or> failure') \<and> store_ok st' (unat (1 :: handle) # F') \<and> live st' = (live s')(1 := None)
       else ?res = None)"
    unfolding last_ref_def by (simp only: refl if_False not_True_eq_False simp_thms option.case) blast
  have l2: "live s2 1 = Some (unbuffer False ?b1)" using s2(2) by simp
  have n2: "does_nothing 1 x 1 s2 = Some (s2, False)" by (simp add: does_nothing_def)
  have "base s2 = base s1" using s2(3) by (simp add: outline_def)
  from e [rule_format, OF n2 s2(1) l2, unfolded if_P [OF this]] obtain st' where st0: "?res = Some (st', False \<or> False)" "live st' = (live s2)(1 := None)"
    by (elim exE conjE) (rule that)
  have st': "?res = Some (st', False)" "live st' = (live s2)(1 := None)" "live s2 = (live s1)(1 \<mapsto> unbuffer False ?b1)" using st0 s2(2) by simp_all
  then have "live st' h \<noteq> None" using h p(4) by simp
  then show "\<exists>st' h. ?res = Some (st', False) \<and> live st' 1 = None \<and> live st' h \<noteq> None"
    using st'(1,2) by (intro exI [of _ st'] exI [of _ h] conjI) simp_all
  show "zend_objects_store_del_ref_by_handle_ex zend_objects_proxy_destroy makes_object False 1 None sample_object = None"
    unfolding sample_object_def sample_put_def sample_store_def zend_objects_proxy_destroy_def makes_object_def by code_simp
qed

end
