(* ===== verification/Zend_List.thy ===== *)
theory Zend_List
  imports Zend_Hash_Iter
begin

text \<open>
  Resources: \<^verbatim>\<open>zend_list.c\<close>. The list of the resources of a request and the persistent list are hash tables from
  resource ids to reference-counted entries; a third table, indexed by resource
  type, holds the destructors of the types.

  Ids, types and counts are C \<open>int\<close>s (32 bits, read as signed), and an id is sign-extended to the
  64-bit index of the hash table. A void pointer is \<open>None\<close> when it is null. The bucket that a hash table allocates is at the address
  \<open>new\<close>. Warnings are returned.
\<close>

section \<open>Data\<close>

type_synonym cint = "32 word"

record 'p zend_rsrc_list_entry =
  le_ptr :: "'p option"
  le_type :: cint
  le_refcount :: cint

datatype resource_list_type = ZEND_RESOURCE_LIST_TYPE_STD | ZEND_RESOURCE_LIST_TYPE_EX

text \<open>\<open>'f\<close> are function pointers.\<close>

record 'f zend_rsrc_list_dtors_entry =
  list_dtor :: "'f option"
  plist_dtor :: "'f option"
  list_dtor_ex :: "'f option"
  plist_dtor_ex :: "'f option"
  type_name :: "string option"
  module_number :: cint
  resource_id :: cint
  ld_type :: resource_list_type

type_synonym 'p rsrc_list = "'p zend_rsrc_list_entry HashTable"
type_synonym 'f rsrc_dtors = "'f zend_rsrc_list_dtors_entry HashTable"

definition sizeof_list_entry :: nat where "sizeof_list_entry = 16"

definition sizeof_dtors_entry :: nat where "sizeof_dtors_entry = 56"

section \<open>The list of resources\<close>

definition zend_list_insert :: "ptr \<Rightarrow> 'p option \<Rightarrow> cint \<Rightarrow> 'p rsrc_list \<Rightarrow> (cint \<times> 'p rsrc_list) option" where
  "zend_list_insert new p type' regular_list =
     do { let le = \<lparr>le_ptr = p, le_type = type', le_refcount = 1\<rparr>;
          let index = ucast (zend_hash_next_free_element regular_list);
          (_, _, regular_list) \<leftarrow>
            zend_hash_index_update_or_next_insert new regular_list (scast index) le sizeof_list_entry HASH_UPDATE;
          Some (index, regular_list) }"

definition zend_list_delete :: "cint \<Rightarrow> 'p rsrc_list \<Rightarrow> (zresult \<times> 'p rsrc_list) option" where
  "zend_list_delete id' regular_list =
     do { (r, q) \<leftarrow> zend_hash_index_find regular_list (scast id');
          (case (r, q) of
             (SUCCESS, Some q) \<Rightarrow>
               do { regular_list \<leftarrow> hpoke q
                      (\<lambda>b. b\<lparr>pData := map_zdata (\<lambda>le. le\<lparr>le_refcount := le_refcount le - 1\<rparr>) (pData b)\<rparr>) regular_list;
                    b \<leftarrow> cells regular_list q;
                    if le_refcount (zval_of (pData b)) \<le>s 0
                    then zend_hash_del_key_or_index regular_list NULLKEY 0 (scast id') HASH_DEL_INDEX
                    else Some (SUCCESS, regular_list) }
           | (SUCCESS, None) \<Rightarrow> None
           | (FAILURE, _) \<Rightarrow> Some (FAILURE, regular_list)) }"

definition zend_list_find :: "cint \<Rightarrow> 'p rsrc_list \<Rightarrow> (cint \<times> 'p option) option" where
  "zend_list_find id' regular_list =
     do { (r, q) \<leftarrow> zend_hash_index_find regular_list (scast id');
          (case (r, q) of
             (SUCCESS, Some q) \<Rightarrow>
               do { b \<leftarrow> cells regular_list q; Some (le_type (zval_of (pData b)), le_ptr (zval_of (pData b))) }
           | (SUCCESS, None) \<Rightarrow> None
           | (FAILURE, _) \<Rightarrow> Some (- 1, None)) }"

definition zend_list_addref :: "cint \<Rightarrow> 'p rsrc_list \<Rightarrow> (zresult \<times> 'p rsrc_list) option" where
  "zend_list_addref id' regular_list =
     do { (r, q) \<leftarrow> zend_hash_index_find regular_list (scast id');
          (case (r, q) of
             (SUCCESS, Some q) \<Rightarrow>
               do { regular_list \<leftarrow> hpoke q
                      (\<lambda>b. b\<lparr>pData := map_zdata (\<lambda>le. le\<lparr>le_refcount := le_refcount le + 1\<rparr>) (pData b)\<rparr>) regular_list;
                    Some (SUCCESS, regular_list) }
           | (SUCCESS, None) \<Rightarrow> None
           | (FAILURE, _) \<Rightarrow> Some (FAILURE, regular_list)) }"

text \<open>Of a value it matters here whether it is a resource, and which; \<open>None\<close> as result argument is the null pointer.\<close>

datatype zvalue = IS_RESOURCE ulong | OTHER_TYPE

definition zend_register_resource ::
  "ptr \<Rightarrow> zvalue option \<Rightarrow> 'p option \<Rightarrow> cint \<Rightarrow> 'p rsrc_list \<Rightarrow> (cint \<times> zvalue option \<times> 'p rsrc_list) option" where
  "zend_register_resource new rsrc_result rsrc_pointer rsrc_type regular_list =
     do { (rsrc_id, regular_list) \<leftarrow> zend_list_insert new rsrc_pointer rsrc_type regular_list;
          Some (rsrc_id, map_option (\<lambda>_. IS_RESOURCE (scast rsrc_id)) rsrc_result, regular_list) }"

datatype rsrc_warning =
    NoResourceSupplied string
  | ArgumentNotValid string
  | IdNotValid cint string
  | ResourceNotValid string
  | UnknownListEntryType cint

fun warn :: "(string \<Rightarrow> rsrc_warning) \<Rightarrow> string option \<Rightarrow> rsrc_warning list" where
  "warn w None = []"
| "warn w (Some s) = [w s]"

text \<open>The result is the resource (or null), the type found if any, and the warnings.\<close>

definition zend_fetch_resource ::
  "zvalue option \<Rightarrow> cint \<Rightarrow> string option \<Rightarrow> cint list \<Rightarrow> 'p rsrc_list \<Rightarrow>
   ('p option \<times> cint option \<times> rsrc_warning list) option" where
  "zend_fetch_resource passed_id default_id resource_type_name resource_types regular_list =
     (case (if default_id = - 1
            then (case passed_id of
                    None \<Rightarrow> Inl (warn NoResourceSupplied resource_type_name)
                  | Some OTHER_TYPE \<Rightarrow> Inl (warn ArgumentNotValid resource_type_name)
                  | Some (IS_RESOURCE lval) \<Rightarrow> Inr (ucast lval))
            else Inr default_id) of
        Inl warnings \<Rightarrow> Some (None, None, warnings)
      | Inr id' \<Rightarrow>
          do { (actual_resource_type, resource) \<leftarrow> zend_list_find id' regular_list;
               Some (case resource of
                       None \<Rightarrow> (None, None, warn (IdNotValid id') resource_type_name)
                     | Some p \<Rightarrow>
                         if actual_resource_type \<in> set resource_types then (Some p, Some actual_resource_type, [])
                         else (None, None, warn ResourceNotValid resource_type_name)) })"

section \<open>Destructors\<close>

text \<open>What destroying an entry calls.\<close>

datatype ('p, 'f) dtor_call =
    CallStd 'f "'p option"
  | CallEx 'f "'p zend_rsrc_list_entry"
  | CallNothing
  | WarnUnknown cint

definition dtor_entry :: "'f rsrc_dtors \<Rightarrow> cint \<Rightarrow> 'f zend_rsrc_list_dtors_entry option option" where
  "dtor_entry list_destructors type' =
     do { (r, q) \<leftarrow> zend_hash_index_find list_destructors (scast type');
          (case (r, q) of
             (SUCCESS, Some q) \<Rightarrow> map_option (\<lambda>b. Some (zval_of (pData b))) (cells list_destructors q)
           | (SUCCESS, None) \<Rightarrow> None
           | (FAILURE, _) \<Rightarrow> Some None) }"

definition list_entry_destructor :: "'f rsrc_dtors \<Rightarrow> 'p zend_rsrc_list_entry \<Rightarrow> ('p, 'f) dtor_call option" where
  "list_entry_destructor list_destructors le =
     do { ld \<leftarrow> dtor_entry list_destructors (le_type le);
          Some (case ld of
                  None \<Rightarrow> WarnUnknown (le_type le)
                | Some ld \<Rightarrow>
                    (case ld_type ld of
                       ZEND_RESOURCE_LIST_TYPE_STD \<Rightarrow>
                         (case list_dtor ld of Some f \<Rightarrow> CallStd f (le_ptr le) | None \<Rightarrow> CallNothing)
                     | ZEND_RESOURCE_LIST_TYPE_EX \<Rightarrow>
                         (case list_dtor_ex ld of Some f \<Rightarrow> CallEx f le | None \<Rightarrow> CallNothing))) }"

definition plist_entry_destructor :: "'f rsrc_dtors \<Rightarrow> 'p zend_rsrc_list_entry \<Rightarrow> ('p, 'f) dtor_call option" where
  "plist_entry_destructor list_destructors le =
     do { ld \<leftarrow> dtor_entry list_destructors (le_type le);
          Some (case ld of
                  None \<Rightarrow> WarnUnknown (le_type le)
                | Some ld \<Rightarrow>
                    (case ld_type ld of
                       ZEND_RESOURCE_LIST_TYPE_STD \<Rightarrow>
                         (case plist_dtor ld of Some f \<Rightarrow> CallStd f (le_ptr le) | None \<Rightarrow> CallNothing)
                     | ZEND_RESOURCE_LIST_TYPE_EX \<Rightarrow>
                         (case plist_dtor_ex ld of Some f \<Rightarrow> CallEx f le | None \<Rightarrow> CallNothing))) }"

section \<open>Setting up and tearing down\<close>

definition zend_init_rsrc_list :: "'p rsrc_list \<Rightarrow> (zresult \<times> 'p rsrc_list) option" where
  "zend_init_rsrc_list regular_list =
     do { (r, regular_list) \<leftarrow> zend_hash_init regular_list 0 True False;
          if r = SUCCESS then Some (SUCCESS, regular_list\<lparr>nNextFreeElement := 1\<rparr>) else Some (FAILURE, regular_list) }"

definition zend_init_rsrc_plist :: "'p rsrc_list \<Rightarrow> (zresult \<times> 'p rsrc_list) option" where
  "zend_init_rsrc_plist persistent_list = zend_hash_init_ex persistent_list 0 True True False"

definition zend_destroy_rsrc_list :: "'p rsrc_list \<Rightarrow> 'p rsrc_list option" where
  "zend_destroy_rsrc_list ht = zend_hash_graceful_reverse_destroy ht"

definition clean_module_resource :: "'p zend_rsrc_list_entry \<Rightarrow> cint \<Rightarrow> uint" where
  "clean_module_resource le resource_id' = (if le_type le = resource_id' then 1 else 0)"

text \<open>The callback works on the persistent list; \<open>None\<close> is a fault or the bail-out of the nested loop.\<close>

definition zend_clean_module_rsrc_dtors_cb ::
  "'f zend_rsrc_list_dtors_entry \<Rightarrow> cint \<Rightarrow> 'p rsrc_list option \<Rightarrow> uint \<times> 'f zend_rsrc_list_dtors_entry \<times> 'p rsrc_list option" where
  "zend_clean_module_rsrc_dtors_cb ld module' persistent_list =
     (if module_number ld = module'
      then (1, ld,
        do { persistent_list \<leftarrow> persistent_list;
             r \<leftarrow> zend_hash_apply_with_argument persistent_list
                   (\<lambda>le rid s. (clean_module_resource le rid, le, s)) (resource_id ld) ();
             (case r of Inl _ \<Rightarrow> None | Inr (persistent_list, _) \<Rightarrow> Some persistent_list) })
      else (0, ld, persistent_list))"

definition zend_clean_module_rsrc_dtors ::
  "cint \<Rightarrow> 'f rsrc_dtors \<Rightarrow> 'p rsrc_list \<Rightarrow> ('f rsrc_dtors + 'f rsrc_dtors \<times> 'p rsrc_list option) option" where
  "zend_clean_module_rsrc_dtors module' list_destructors persistent_list =
     zend_hash_apply_with_argument list_destructors zend_clean_module_rsrc_dtors_cb module' (Some persistent_list)"

definition zend_register_list_destructors ::
  "ptr \<Rightarrow> 'f option \<Rightarrow> 'f option \<Rightarrow> cint \<Rightarrow> 'f rsrc_dtors \<Rightarrow> (cint \<times> 'f rsrc_dtors) option" where
  "zend_register_list_destructors new ld pld module' list_destructors =
     do { let lde = \<lparr>list_dtor = ld, plist_dtor = pld, list_dtor_ex = None, plist_dtor_ex = None, type_name = None,
                     module_number = module', resource_id = ucast (nNextFreeElement list_destructors),
                     ld_type = ZEND_RESOURCE_LIST_TYPE_STD\<rparr>;
          (r, _, list_destructors) \<leftarrow>
            zend_hash_index_update_or_next_insert new list_destructors 0 lde sizeof_dtors_entry HASH_NEXT_INSERT;
          if r = FAILURE then Some (- 1, list_destructors)
          else Some (ucast (nNextFreeElement list_destructors - 1), list_destructors) }"

definition zend_register_list_destructors_ex ::
  "ptr \<Rightarrow> 'f option \<Rightarrow> 'f option \<Rightarrow> string option \<Rightarrow> cint \<Rightarrow> 'f rsrc_dtors \<Rightarrow> (cint \<times> 'f rsrc_dtors) option" where
  "zend_register_list_destructors_ex new ld pld name module' list_destructors =
     do { let lde = \<lparr>list_dtor = None, plist_dtor = None, list_dtor_ex = ld, plist_dtor_ex = pld, type_name = name,
                     module_number = module', resource_id = ucast (nNextFreeElement list_destructors),
                     ld_type = ZEND_RESOURCE_LIST_TYPE_EX\<rparr>;
          (r, _, list_destructors) \<leftarrow>
            zend_hash_index_update_or_next_insert new list_destructors 0 lde sizeof_dtors_entry HASH_NEXT_INSERT;
          if r = FAILURE then Some (- 1, list_destructors)
          else Some (ucast (nNextFreeElement list_destructors - 1), list_destructors) }"

partial_function (option) fetch_dtor_loop :: "string \<Rightarrow> 'f rsrc_dtors \<Rightarrow> ptr option option \<Rightarrow> cint option" where
  "fetch_dtor_loop name list_destructors pos =
     Option.bind (zend_hash_get_current_data_ex list_destructors pos) (\<lambda>(r, lde).
       if r = SUCCESS
       then Option.bind lde (\<lambda>lde.
              if type_name lde = Some name then Some (resource_id lde)
              else Option.bind (zend_hash_move_forward_ex list_destructors pos) (\<lambda>(_, list_destructors, pos).
                     fetch_dtor_loop name list_destructors pos))
       else Some 0)"

definition zend_fetch_list_dtor_id :: "string \<Rightarrow> 'f rsrc_dtors \<Rightarrow> cint option" where
  "zend_fetch_list_dtor_id name list_destructors =
     (case zend_hash_internal_pointer_reset_ex list_destructors (Some None) of
        (list_destructors, pos) \<Rightarrow> fetch_dtor_loop name list_destructors pos)"

definition zend_init_rsrc_list_dtors :: "'f rsrc_dtors \<Rightarrow> (zresult \<times> 'f rsrc_dtors) option" where
  "zend_init_rsrc_list_dtors list_destructors =
     do { (retval, list_destructors) \<leftarrow> zend_hash_init list_destructors 50 False True;
          Some (retval, list_destructors\<lparr>nNextFreeElement := 1\<rparr>) }"

definition zend_destroy_rsrc_list_dtors :: "'f rsrc_dtors \<Rightarrow> 'f rsrc_dtors option" where
  "zend_destroy_rsrc_list_dtors list_destructors = zend_hash_destroy list_destructors"

definition zend_rsrc_list_get_rsrc_type :: "cint \<Rightarrow> 'p rsrc_list \<Rightarrow> 'f rsrc_dtors \<Rightarrow> string option option" where
  "zend_rsrc_list_get_rsrc_type resource regular_list list_destructors =
     do { (rsrc_type, p) \<leftarrow> zend_list_find resource regular_list;
          if p = None then Some None
          else do { lde \<leftarrow> dtor_entry list_destructors rsrc_type;
                    Some (Option.bind lde type_name) } }"


section \<open>Reference counting\<close>

lemma scast_ucast_small:
  fixes n :: ulong
  assumes "unat n < 2 ^ 31"
  shows "scast (ucast n :: cint) = n"
proof -
  define x where "x = (ucast n :: cint)"
  obtain m where m: "n = of_nat m" "m < 2 ^ 31" using assms by (intro that [of "unat n"]) simp_all
  have "unat x = unat n" using assms by (simp add: x_def unsigned_ucast_eq take_bit_nat_eq_self)
  then have "unat x = m" using m by (simp add: unat_of_nat)
  then have "x = of_nat m" using m(2) by (simp add: word_unat_eq_iff unat_of_nat)
  then have "sint x = int m" using m(2) by (simp add: signed_of_nat signed_take_bit_int_eq_self)
  then have "(scast x :: ulong) = of_int (int m)" by (metis of_int_sint)
  then show ?thesis by (simp add: x_def m(1))
qed

text \<open>Finding and changing the entry added last.\<close>

lemma find_last:
  assumes "table ht (L @ [p]) (kvs @ [(IntKey h, v)])"
  shows "zend_hash_index_find ht h = Some (SUCCESS, Some p)" "length kvs = length L" "IntKey h \<notin> fst ` set kvs"
proof -
  note st = tableD(1) [OF assms]
  show len: "length kvs = length L" using stored_length [OF st] by simp
  show "zend_hash_index_find ht h = Some (SUCCESS, Some p)"
    using index_find_ok(1) [OF st, of h] ptr_of_at [of ht L p "[]" kvs "IntKey h" v "[]"] st len by (simp add: looked_up_def)
  show "IntKey h \<notin> fst ` set kvs" using storedD(6) [OF st] by simp
qed

lemma change_last:
  assumes t: "table ht (L @ [p]) (kvs @ [(k, v)])"
  obtains b ht' where "hpoke p (\<lambda>b. b\<lparr>pData := map_zdata f (pData b)\<rparr>) ht = Some ht'" "cells ht' p = Some b" "zval_of (pData b) = f v"
    and "table ht' (L @ [p]) (kvs @ [(k, f v)])" "settings ht' = settings ht" "destroyed ht' = destroyed ht"
    and "nNextFreeElement ht' = nNextFreeElement ht"
proof -
  note st = tableD(1) [OF t]
  have len: "length kvs = length L" using stored_length [OF st] by simp
  obtain b ht' where c: "cells ht p = Some b" "bentry b = (k, v)" "cells ht' p = Some (b\<lparr>pData := map_zdata f (pData b)\<rparr>)"
      "hpoke p (\<lambda>b. b\<lparr>pData := map_zdata f (pData b)\<rparr>) ht = Some ht'"
      "stored ht' (L @ p # []) (kvs @ (k, f v) # [])" "outer ht' = outer ht"
    by (rule change_data_ok [of ht L p "[]" kvs k v "[]" f]) (use st len in simp_all)
  have "next_free_ok (nNextFreeElement ht) (kvs @ [(k, f v)])"
    by (rule next_free_ok_subset [OF tableD(2) [OF t]]) auto
  then show thesis
    using that [of ht' "b\<lparr>pData := map_zdata f (pData b)\<rparr>"] c by (cases "pData b") (auto simp: table_def outer_def bentry_def)
qed

lemma addref_ok:
  assumes t: "table ht (L @ [p]) (kvs @ [(IntKey (scast id'), le)])"
  shows "\<exists>ht'. zend_list_addref id' ht = Some (SUCCESS, ht') \<and>
    table ht' (L @ [p]) (kvs @ [(IntKey (scast id'), le\<lparr>le_refcount := le_refcount le + 1\<rparr>)]) \<and>
    settings ht' = settings ht \<and> destroyed ht' = destroyed ht"
  by (rule change_last [OF t, of "\<lambda>le. le\<lparr>le_refcount := le_refcount le + 1\<rparr>"])
    (use find_last(1) [OF t] in \<open>simp add: zend_list_addref_def\<close>)

lemma delete_dec_ok:
  assumes t: "table ht (L @ [p]) (kvs @ [(IntKey (scast id'), le)])" and c: "\<not> le_refcount le - 1 \<le>s 0"
  shows "\<exists>ht'. zend_list_delete id' ht = Some (SUCCESS, ht') \<and>
    table ht' (L @ [p]) (kvs @ [(IntKey (scast id'), le\<lparr>le_refcount := le_refcount le - 1\<rparr>)]) \<and>
    settings ht' = settings ht \<and> destroyed ht' = destroyed ht"
  by (rule change_last [OF t, of "\<lambda>le. le\<lparr>le_refcount := le_refcount le - 1\<rparr>"])
    (use find_last(1) [OF t] c in \<open>simp add: zend_list_delete_def\<close>)

lemma delete_last_ok:
  assumes t: "table ht (L @ [p]) (kvs @ [(IntKey (scast id'), le)])" and c: "le_refcount le - 1 \<le>s 0"
  shows "\<exists>ht'. zend_list_delete id' ht = Some (SUCCESS, ht') \<and> table ht' L kvs \<and> settings ht' = settings ht \<and>
    destroyed ht' = dtor_log ht [le\<lparr>le_refcount := le_refcount le - 1\<rparr>]"
proof -
  let ?k = "IntKey (scast id')" and ?f = "\<lambda>le. le\<lparr>le_refcount := le_refcount le - 1\<rparr>"
  note f = find_last [OF t]
  obtain b h1 where h1: "hpoke p (\<lambda>b. b\<lparr>pData := map_zdata ?f (pData b)\<rparr>) ht = Some h1" "cells h1 p = Some b" "zval_of (pData b) = ?f le"
      "table h1 (L @ [p]) (kvs @ [(?k, ?f le)])" "settings h1 = settings ht" "destroyed h1 = destroyed ht"
    by (rule change_last [OF t, of ?f])
  have st: "stored h1 (L @ p # []) (kvs @ (?k, ?f le) # [])" using tableD(1) [OF h1(4)] by simp
  obtain h2 where h2: "i_zend_hash_bucket_delete p h1 = Some h2" "stored h2 (L @ []) (kvs @ [])" "settings h2 = settings h1"
      "destroyed h2 = dtor_log h1 [?f le]" "nNextFreeElement h2 = nNextFreeElement h1"
    by (rule bucket_delete_ok [OF st f(2)])
  have "zend_hash_del_key_or_index h1 NULLKEY 0 (scast id') HASH_DEL_INDEX = Some (SUCCESS, h2)"
    using del_key_or_index_ok(2) [OF tableD(1) [OF h1(4)], of NULLKEY 0 "scast id'" HASH_DEL_INDEX ?k p] ptr_of_at [OF st f(2)] h2(1)
    by (simp add: del_key_def)
  moreover have "next_free_ok (nNextFreeElement h2) kvs"
    using next_free_ok_subset [OF tableD(2) [OF h1(4)], of kvs] h2(5) by auto
  moreover have "dtor_log h1 [?f le] = dtor_log ht [?f le]" using h1(5,6) by (simp add: dtor_log_def settings_def)
  ultimately show ?thesis using f(1) h1(1,2,3,5) h2 c by (simp add: zend_list_delete_def table_def)
qed

lemma find_absent:
  assumes "table ht L kvs" "IntKey (scast id') \<notin> fst ` set kvs"
  shows "zend_list_find id' ht = Some (- 1, None)"
  using index_find_ok(1) [OF tableD(1) [OF assms(1)], of "scast id'"] ptr_of_None [OF tableD(1) [OF assms(1)], of "IntKey (scast id')"] assms(2)
  by (simp add: zend_list_find_def looked_up_def)

lemma find_entry:
  assumes t: "table ht L kvs" and le: "map_of kvs (IntKey (scast id')) = Some le"
  shows "zend_list_find id' ht = Some (le_type le, le_ptr le)"
proof -
  note st = tableD(1) [OF t]
  obtain q where q: "ptr_of ht L (IntKey (scast id')) = Some q"
    using ptr_of_None [OF st, of "IntKey (scast id')"] le by (metis map_of_eq_None_iff not_None_eq)
  have "data_at ht q = Some le" using data_at_ptr_of [OF st q] le by simp
  then show ?thesis using index_find_ok(1) [OF st, of "scast id'"] q
    by (cases "cells ht q") (auto simp: zend_list_find_def looked_up_def data_at_def fld_def)
qed

lemma next_free_fresh:
  assumes "next_free_ok n kvs" "unat n < 2 ^ 31"
  shows "IntKey n \<notin> fst ` set kvs"
proof
  assume "IntKey n \<in> fst ` set kvs"
  then have "sint n = 2 ^ 63 - 1" using assms(1) by (auto simp: next_free_ok_iff)
  moreover obtain m where "n = of_nat m" "m < 2 ^ 31" using assms(2) by (intro that [of "unat n"]) simp_all
  ultimately show False using sint_of_nat_ulong [of m] by simp
qed

lemma insert_ok:
  assumes t: "table ht L kvs" and n: "unat (nNextFreeElement ht) < 2 ^ 31" and new: "new \<notin> dom (cells ht)"
    and room: "Suc (length L) < 2 ^ 32"
  shows "\<exists>ht'. zend_list_insert new p type' ht = Some (ucast (nNextFreeElement ht), ht') \<and>
    table ht' (L @ [new]) (kvs @ [(IntKey (nNextFreeElement ht), \<lparr>le_ptr = p, le_type = type', le_refcount = 1\<rparr>)]) \<and>
    settings ht' = settings ht \<and> destroyed ht' = destroyed ht"
proof -
  let ?n = "nNextFreeElement ht" and ?le = "\<lparr>le_ptr = p, le_type = type', le_refcount = 1\<rparr>"
  have k: "IntKey ?n \<notin> fst ` set kvs" by (rule next_free_fresh [OF tableD(2) [OF t] n])
  obtain res where r: "zend_hash_index_update_or_next_insert new ht ?n ?le sizeof_list_entry HASH_UPDATE = Some res"
      "inserted ht L kvs HASH_UPDATE new (IntKey ?n) ?le (bump ?n) res"
    using index_update_or_next_insert_ok [OF tableD(1) [OF t] new room, of ?n ?le sizeof_list_entry HASH_UPDATE]
    by (auto simp: index_arg_def)
  obtain rr d ht' where res: "res = (rr, d, ht')" by (cases res)
  have "map_of kvs (IntKey ?n) = None" using k by (simp add: map_of_eq_None_iff)
  then show ?thesis
    using r inserted_int_table [OF t r(2) [unfolded res]] k
    by (auto simp: res zend_list_insert_def zend_hash_next_free_element_def scast_ucast_small [OF n] put_def inserted_def Let_def
        update_new replaced_def dtor_log_def)
qed


text \<open>A sequence of references added (\<open>True\<close>) and dropped (\<open>False\<close>) for one resource, and the count after it; the count must not reach 0 nor \<open>2 ^ 31\<close>.\<close>

fun ref_ops :: "cint \<Rightarrow> bool list \<Rightarrow> 'p rsrc_list \<Rightarrow> 'p rsrc_list option" where
  "ref_ops id' [] rl = Some rl"
| "ref_ops id' (a # as) rl =
     do { (r, rl) \<leftarrow> (if a then zend_list_addref id' rl else zend_list_delete id' rl);
          if r = SUCCESS then ref_ops id' as rl else None }"

fun refs_left :: "nat \<Rightarrow> bool list \<Rightarrow> nat option" where
  "refs_left n [] = Some n"
| "refs_left n (a # as) =
     (let n = (if a then Suc n else n - 1) in if 0 < n \<and> n < 2 ^ 31 then refs_left n as else None)"

definition entry :: "'p option \<Rightarrow> cint \<Rightarrow> nat \<Rightarrow> 'p zend_rsrc_list_entry" where
  "entry p type' n = \<lparr>le_ptr = p, le_type = type', le_refcount = of_nat n\<rparr>"

lemma entry_upd:
  "(entry p t n)\<lparr>le_refcount := le_refcount (entry p t n) + 1\<rparr> = entry p t (Suc n)"
  "(entry p t (Suc n))\<lparr>le_refcount := le_refcount (entry p t (Suc n)) - 1\<rparr> = entry p t n"
  by (simp_all add: entry_def add.commute)

lemma entry_count: "n < 2 ^ 31 \<Longrightarrow> le_refcount (entry p t (Suc n)) - 1 \<le>s 0 \<longleftrightarrow> n = 0"
  by (simp add: entry_def word_sle_eq signed_of_nat signed_take_bit_int_eq_self)

lemma ref_ops_ok:
  assumes "table ht (L @ [q]) (kvs @ [(IntKey (scast id'), entry p t n)])" "refs_left n as = Some m" "0 < n" "n < 2 ^ 31"
  shows "\<exists>ht'. ref_ops id' as ht = Some ht' \<and> table ht' (L @ [q]) (kvs @ [(IntKey (scast id'), entry p t m)]) \<and> 0 < m \<and>
    settings ht' = settings ht \<and> destroyed ht' = destroyed ht"
  using assms
proof (induction as arbitrary: ht n)
  case (Cons a as)
  let ?n = "if a then Suc n else n - 1" and ?op = "if a then zend_list_addref id' ht else zend_list_delete id' ht"
  have r: "refs_left ?n as = Some m" "0 < ?n" "?n < 2 ^ 31" using Cons.prems(2) by (auto simp: Let_def split: if_splits)
  have "\<exists>h1. ?op = Some (SUCCESS, h1) \<and> table h1 (L @ [q]) (kvs @ [(IntKey (scast id'), entry p t ?n)]) \<and> settings h1 = settings ht \<and>
      destroyed h1 = destroyed ht"
  proof (cases a)
    case True
    then show ?thesis using addref_ok [OF Cons.prems(1)] unfolding entry_upd by simp
  next
    case False
    then have n: "n = Suc ?n" using Cons.prems(3) by simp
    have c: "\<not> le_refcount (entry p t n) - 1 \<le>s 0" using entry_count [OF r(3), of p t] r(2) unfolding n [symmetric] by simp
    have u: "(entry p t n)\<lparr>le_refcount := le_refcount (entry p t n) - 1\<rparr> = entry p t ?n" using entry_upd(2) [of p t ?n] unfolding n [symmetric] .
    show ?thesis using delete_dec_ok [OF Cons.prems(1) c] unfolding u using False by simp
  qed
  then obtain h1 where h1: "?op = Some (SUCCESS, h1)" "table h1 (L @ [q]) (kvs @ [(IntKey (scast id'), entry p t ?n)])" "settings h1 = settings ht"
      "destroyed h1 = destroyed ht" by blast
  show ?case using Cons.IH [OF h1(2) r] h1 by simp
qed auto

section \<open>Destructor types\<close>

lemma dtor_entry_ok:
  assumes t: "table ds L kvs" and e: "map_of kvs (IntKey (scast t')) = Some ld"
  shows "dtor_entry ds t' = Some (Some ld)"
proof -
  note st = tableD(1) [OF t]
  obtain q where q: "ptr_of ds L (IntKey (scast t')) = Some q"
    using ptr_of_None [OF st, of "IntKey (scast t')"] e by (metis map_of_eq_None_iff not_None_eq)
  have "data_at ds q = Some ld" using data_at_ptr_of [OF st q] e by simp
  then show ?thesis using index_find_ok(1) [OF st, of "scast t'"] q
    by (cases "cells ds q") (auto simp: dtor_entry_def looked_up_def data_at_def fld_def)
qed

lemma next_insert_small:
  assumes t: "table ht L kvs" and n: "unat (nNextFreeElement ht) < 2 ^ 31" and new: "new \<notin> dom (cells ht)"
    and room: "Suc (length L) < 2 ^ 32"
  shows "\<exists>q ht'. zend_hash_index_update_or_next_insert new ht 0 v sz HASH_NEXT_INSERT = Some (SUCCESS, q, ht') \<and>
    table ht' (L @ [new]) (kvs @ [(IntKey (nNextFreeElement ht), v)]) \<and> nNextFreeElement ht' = nNextFreeElement ht + 1"
proof -
  let ?n = "nNextFreeElement ht"
  have k: "IntKey ?n \<notin> fst ` set kvs" by (rule next_free_fresh [OF tableD(2) [OF t] n])
  obtain res where r: "zend_hash_index_update_or_next_insert new ht 0 v sz HASH_NEXT_INSERT = Some res"
      "inserted ht L kvs HASH_NEXT_INSERT new (IntKey ?n) v (bump ?n) res"
    using index_update_or_next_insert_ok [OF tableD(1) [OF t] new room, of 0 v sz HASH_NEXT_INSERT]
    by (auto simp: index_arg_def)
  obtain rr d ht' where res: "res = (rr, d, ht')" by (cases res)
  have m: "map_of kvs (IntKey ?n) = None" using k by (simp add: map_of_eq_None_iff)
  obtain j where j: "?n = of_nat j" "j < 2 ^ 31" using n by (intro that [of "unat ?n"]) simp_all
  have "bump ?n ?n = ?n + 1"
    using j sint_of_nat_ulong [of j] by (auto simp: bump_def word_sle_eq word_less_nat_alt unat_of_nat unat_LONG_MAX)
  then show ?thesis
    using r inserted_int_table [OF t r(2) [unfolded res]] k m
    by (auto simp: res put_def inserted_def Let_def update_new replaced_def)
qed

definition first_id :: "string \<Rightarrow> 'f zend_rsrc_list_dtors_entry list \<Rightarrow> cint" where
  "first_id name lds = (case filter (\<lambda>ld. type_name ld = Some name) lds of [] \<Rightarrow> 0 | ld # _ \<Rightarrow> resource_id ld)"

lemma first_id_simps [simp]:
  "first_id name [] = 0"
  "first_id name (ld # lds) = (if type_name ld = Some name then resource_id ld else first_id name lds)"
  by (simp_all add: first_id_def)

lemma fetch_dtor_loop_ok:
  assumes t: "table ds L kvs" and "i \<le> length L"
  shows "fetch_dtor_loop name ds (Some (if i < length L then Some (L ! i) else None)) = Some (first_id name (map snd (drop i kvs)))"
  using assms(2)
proof (induction "length L - i" arbitrary: i)
  case 0
  then show ?case using stored_length [OF tableD(1) [OF t]]
    by (subst fetch_dtor_loop.simps) (simp add: zend_hash_get_current_data_ex_def current_def)
next
  case (Suc n)
  then have i: "i < length L" by simp
  obtain b where b: "cells ds (L ! i) = Some b" "bentry b = kvs ! i"
      "pListNext b = (if Suc i < length L then Some (L ! Suc i) else None)"
    by (rule entry_at [OF t i])
  have IH: "fetch_dtor_loop name ds (Some (pListNext b)) = Some (first_id name (map snd (drop (Suc i) kvs)))"
    using Suc.hyps(1) [of "Suc i"] Suc.hyps(2) i b(3) by simp
  have "drop i kvs = kvs ! i # drop (Suc i) kvs"
    using i stored_length [OF tableD(1) [OF t]] by (simp add: Cons_nth_drop_Suc)
  moreover have "snd (kvs ! i) = zval_of (pData b)" using b(2) [symmetric] by (simp add: bentry_def)
  ultimately show ?case using b(1) i IH
    by (subst fetch_dtor_loop.simps)
      (simp add: zend_hash_get_current_data_ex_def zend_hash_move_forward_ex_def current_def set_current_def)
qed

lemma fetch_list_dtor_id_ok:
  assumes t: "table ds L kvs"
  shows "zend_fetch_list_dtor_id name ds = Some (first_id name (map snd kvs))"
proof -
  have "pListHead ds = first_of L" using wf_listD(1) [OF storedD(1) [OF tableD(1) [OF t]]] by (simp add: glist_def)
  also have "\<dots> = (if 0 < length L then Some (L ! 0) else None)" by (cases L) (simp_all add: first_of_def)
  finally show ?thesis using fetch_dtor_loop_ok [OF t, of 0 name]
    by (simp add: zend_fetch_list_dtor_id_def zend_hash_internal_pointer_reset_ex_def set_current_def)
qed

section \<open>Properties\<close>

text \<open>
  C29: the life of a resource. While the next free index of the list is below \<open>2 ^ 31\<close> (ids are \<open>int\<close>, and wrap around from there on),
  registering a resource gives it an id that no other resource has. It is found under the id with its type, and no destructor is called,
  after any sequence of references added and dropped in which the count stays positive (and below \<open>2 ^ 31\<close>).
  Dropping the last reference removes the resource, hands it to the destructor of the list exactly
  once, and leaves the list with the resources it had before.
\<close>

theorem resource_lifecycle:
  assumes "table rl L kvs" "unat (nNextFreeElement rl) < 2 ^ 31" "new \<notin> dom (cells rl)" "Suc (length L) < 2 ^ 32" "refs_left 1 ops = Some m"
  shows "\<exists>id' r1 r2. zend_list_insert new p t rl = Some (id', r1) \<and> IntKey (scast id') \<notin> fst ` set kvs \<and>
    ref_ops id' ops r1 = Some r2 \<and> zend_list_find id' r2 = Some (t, p) \<and> destroyed r2 = destroyed rl \<and>
    (m = 1 \<longrightarrow> (\<exists>r3. zend_list_delete id' r2 = Some (SUCCESS, r3) \<and> table r3 L kvs \<and> zend_list_find id' r3 = Some (- 1, None) \<and>
      destroyed r3 = dtor_log rl [\<lparr>le_ptr = p, le_type = t, le_refcount = 0\<rparr>]))"
proof -
  define id' where "id' = (ucast (nNextFreeElement rl) :: cint)"
  have s: "scast id' = nNextFreeElement rl" using scast_ucast_small [OF assms(2)] by (simp add: id'_def)
  let ?k = "IntKey (scast id')"
  have e1: "\<lparr>le_ptr = p, le_type = t, le_refcount = 1\<rparr> = entry p t 1" by (simp add: entry_def)
  obtain r1 where r1: "zend_list_insert new p t rl = Some (id', r1)" "table r1 (L @ [new]) (kvs @ [(?k, entry p t 1)])"
      "settings r1 = settings rl" "destroyed r1 = destroyed rl"
    using insert_ok [OF assms(1-4), of p t] unfolding id'_def [symmetric] e1 unfolding s by blast
  obtain r2 where r2: "ref_ops id' ops r1 = Some r2" "table r2 (L @ [new]) (kvs @ [(?k, entry p t m)])"
      "settings r2 = settings rl" "destroyed r2 = destroyed rl"
    using ref_ops_ok [OF r1(2) assms(5)] r1(3,4) by auto
  note k = find_last(3) [OF r1(2)]
  have "map_of (kvs @ [(?k, entry p t m)]) ?k = Some (entry p t m)"
    using k by (simp add: map_add_Some_iff map_of_eq_None_iff)
  from find_entry [OF r2(2) this] have f: "zend_list_find id' r2 = Some (t, p)" by (simp add: entry_def)
  have "\<exists>r3. zend_list_delete id' r2 = Some (SUCCESS, r3) \<and> table r3 L kvs \<and> zend_list_find id' r3 = Some (- 1, None) \<and>
      destroyed r3 = dtor_log rl [entry p t 0]" if "m = 1"
  proof -
    have t: "table r2 (L @ [new]) (kvs @ [(?k, entry p t (Suc 0))])" using r2(2) that by simp
    have c: "le_refcount (entry p t (Suc 0)) - 1 \<le>s 0" by (simp add: entry_count)
    obtain r3 where r3: "zend_list_delete id' r2 = Some (SUCCESS, r3)" "table r3 L kvs" "destroyed r3 = dtor_log r2 [entry p t 0]"
      using delete_last_ok [OF t c] unfolding entry_upd by blast
    moreover have "dtor_log r2 [entry p t 0] = dtor_log rl [entry p t 0]" using r2(3,4) by (simp add: dtor_log_def settings_def)
    ultimately show ?thesis using find_absent [OF r3(2) k] by auto
  qed
  then show ?thesis using r1(1) r2(1,4) k f by (intro exI [of _ id'] exI [of _ r1] exI [of _ r2]) (simp add: entry_def)
qed

definition sample_rsrc_list :: "nat rsrc_list" where
  "sample_rsrc_list = \<lparr>nTableSize = 8, nTableMask = 0, nNumOfElements = 0, nNextFreeElement = 1, pInternalPointer = None,
     pListHead = None, pListTail = None, arBuckets = [Some None], pDestructor = True, persistent = False,
     nApplyCount = 0, bApplyProtection = True, cells = Map.empty, destroyed = [], dataBlocks = 0\<rparr>"

lemma sample_rsrc_list_table: "table sample_rsrc_list [] []"
proof -
  have "table (sample_rsrc_list\<lparr>nNextFreeElement := 0\<rparr>) [] []"
    by (rule empty_table [where k = 3]) (simp_all add: sample_rsrc_list_def)
  then show ?thesis by (simp add: table_def stored_def wf_list_def glist_def sized_def next_free_ok_def) (simp add: sample_rsrc_list_def word_sle_eq)
qed

theorem resource_lifecycle_witness:
  "\<exists>id' r1 r2 r3. zend_list_insert 1 (Some 7) 3 sample_rsrc_list = Some (id', r1) \<and>
    ref_ops id' [True, False, True, True, False, False] r1 = Some r2 \<and> zend_list_find id' r2 = Some (3, Some 7) \<and>
    zend_list_delete id' r2 = Some (SUCCESS, r3) \<and> destroyed r3 = [\<lparr>le_ptr = Some 7, le_type = 3, le_refcount = 0\<rparr>]"
proof -
  have "unat (nNextFreeElement sample_rsrc_list) < 2 ^ 31" "1 \<notin> dom (cells sample_rsrc_list)"
    and d: "dtor_log sample_rsrc_list = (\<lambda>x. x)"
    by (simp_all add: sample_rsrc_list_def dtor_log_def fun_eq_iff)
  from resource_lifecycle [OF sample_rsrc_list_table this(1,2), of "[True, False, True, True, False, False]" 1 "Some 7" 3]
  show ?thesis by (simp add: d) blast
qed

text \<open>
  C30: fetching a resource is type safe. \<^verbatim>\<open>zend_fetch_resource\<close> returns a pointer only if the value passed is a resource (or an id
  is given), the list has an entry with that id, its pointer is not null, and its type is one of those
  the caller accepts; then it reports that type and no warning. In every other case it returns
  null, and warns exactly once if it is given a name to warn with.
\<close>

theorem resource_fetch_type_safe:
  assumes "table rl L kvs"
  shows "\<exists>res found warnings. zend_fetch_resource passed default_id name types rl = Some (res, found, warnings) \<and>
    (\<forall>p. res = Some p \<longleftrightarrow> (\<exists>id' le. (if default_id = - 1 then \<exists>lval. passed = Some (IS_RESOURCE lval) \<and> id' = ucast lval else id' = default_id) \<and>
        map_of kvs (IntKey (scast id')) = Some le \<and> le_ptr le = Some p \<and> le_type le \<in> set types \<and> found = Some (le_type le))) \<and>
    length warnings = (if res = None \<and> name \<noteq> None then 1 else 0)"
proof -
  have f: "zend_list_find id' rl = Some (case map_of kvs (IntKey (scast id')) of None \<Rightarrow> (- 1, None) | Some le \<Rightarrow> (le_type le, le_ptr le))" for id'
    using find_entry [OF assms, of id'] find_absent [OF assms, of id']
    by (auto simp: map_of_eq_None_iff split: option.split)
  show ?thesis
    by (cases name; cases passed)
      (auto simp: zend_fetch_resource_def f split: zvalue.splits option.splits)
qed

theorem resource_fetch_type_safe_witness:
  "\<exists>found warnings. zend_fetch_resource (Some (IS_RESOURCE 1)) (- 1) (Some ''stream'') [3] sample_rsrc_list = Some (None, found, warnings) \<and>
    length warnings = 1"
  using resource_fetch_type_safe [OF sample_rsrc_list_table, of "Some (IS_RESOURCE 1)" "- 1" "Some ''stream''" "[3]"]
  by (auto split: if_splits)

text \<open>
  C39: types of resources. While the next free index of the table is below \<open>2 ^ 31\<close>, registering a pair of destructors gives a new type number under which the table of
  destructors has exactly the destructors given: destroying a resource of that type, from the list of the
  request or from the persistent one, calls the destructor given for that list (if any), with
  the entry itself; and the name finds the type, if no type was registered under the name before.
\<close>

theorem resource_type_registration:
  assumes "table ds L kvs" "unat (nNextFreeElement ds) < 2 ^ 31" "new \<notin> dom (cells ds)" "Suc (length L) < 2 ^ 32"
  shows "\<exists>t ds'. zend_register_list_destructors_ex new ld pld (Some name) m ds = Some (t, ds') \<and>
    IntKey (scast t) \<notin> fst ` set kvs \<and>
    list_entry_destructor ds' \<lparr>le_ptr = p, le_type = t, le_refcount = c\<rparr> =
      Some (case ld of None \<Rightarrow> CallNothing | Some f \<Rightarrow> CallEx f \<lparr>le_ptr = p, le_type = t, le_refcount = c\<rparr>) \<and>
    plist_entry_destructor ds' \<lparr>le_ptr = p, le_type = t, le_refcount = c\<rparr> =
      Some (case pld of None \<Rightarrow> CallNothing | Some f \<Rightarrow> CallEx f \<lparr>le_ptr = p, le_type = t, le_refcount = c\<rparr>) \<and>
    ((\<forall>ld\<in>snd ` set kvs. type_name ld \<noteq> Some name) \<longrightarrow> zend_fetch_list_dtor_id name ds' = Some t)"
proof -
  define t where "t = (ucast (nNextFreeElement ds) :: cint)"
  have s: "scast t = nNextFreeElement ds" using scast_ucast_small [OF assms(2)] by (simp add: t_def)
  let ?e = "\<lparr>list_dtor = None, plist_dtor = None, list_dtor_ex = ld, plist_dtor_ex = pld, type_name = Some name,
    module_number = m, resource_id = t, ld_type = ZEND_RESOURCE_LIST_TYPE_EX\<rparr>"
  obtain q ds' where i: "zend_hash_index_update_or_next_insert new ds 0 ?e sizeof_dtors_entry HASH_NEXT_INSERT = Some (SUCCESS, q, ds')"
      "table ds' (L @ [new]) (kvs @ [(IntKey (scast t), ?e)])" "nNextFreeElement ds' = nNextFreeElement ds + 1"
    using next_insert_small [OF assms, of ?e sizeof_dtors_entry] unfolding s by blast
  have r: "zend_register_list_destructors_ex new ld pld (Some name) m ds = Some (t, ds')"
    using i(1,3) by (simp add: zend_register_list_destructors_ex_def t_def)
  note k = find_last(3) [OF i(2)]
  have "map_of (kvs @ [(IntKey (scast t), ?e)]) (IntKey (scast t)) = Some ?e"
    using k by (simp add: map_add_Some_iff map_of_eq_None_iff)
  note d = dtor_entry_ok [OF i(2) this]
  have "first_id name (map snd (kvs @ [(IntKey (scast t), ?e)])) = t" if "\<forall>ld\<in>snd ` set kvs. type_name ld \<noteq> Some name"
    using that by (induction kvs) auto
  then show ?thesis
    using r k d fetch_list_dtor_id_ok [OF i(2), of name]
    by (intro exI [of _ t] exI [of _ ds']) (auto simp: list_entry_destructor_def plist_entry_destructor_def split: option.splits)
qed

definition sample_dtors :: "nat rsrc_dtors" where
  "sample_dtors = \<lparr>nTableSize = 64, nTableMask = 0, nNumOfElements = 0, nNextFreeElement = 0, pInternalPointer = None,
     pListHead = None, pListTail = None, arBuckets = [Some None], pDestructor = False, persistent = True,
     nApplyCount = 0, bApplyProtection = True, cells = Map.empty, destroyed = [], dataBlocks = 0\<rparr>"

theorem resource_type_registration_witness:
  "\<exists>t ds'. zend_register_list_destructors_ex 1 (Some 5) None (Some ''stream'') 2 sample_dtors = Some (t, ds') \<and>
    list_entry_destructor ds' \<lparr>le_ptr = Some (9 :: nat), le_type = t, le_refcount = 0\<rparr> =
      Some (CallEx 5 \<lparr>le_ptr = Some 9, le_type = t, le_refcount = 0\<rparr>) \<and>
    zend_fetch_list_dtor_id ''stream'' ds' = Some t"
proof -
  have t: "table sample_dtors [] []" by (rule empty_table [where k = 6]) (simp_all add: sample_dtors_def)
  have "unat (nNextFreeElement sample_dtors) < 2 ^ 31" "1 \<notin> dom (cells sample_dtors)" by (simp_all add: sample_dtors_def)
  from resource_type_registration [OF t this, of "Some 5" None "''stream''" 2 "Some 9" 0] show ?thesis by simp blast
qed

end
