(* ===== verification/Zend_TsHash.thy ===== *)
theory Zend_TsHash
  imports Zend_Hash_Splice
begin

text \<open>
  Hash tables shared by threads (\<^verbatim>\<open>zend_ts_hash.c\<close>, in a thread-safe build): a hash table with a lock for many readers or
  one writer, made of two mutexes and a count of readers. The first part models the functions as one thread
  executes them; the second part models many threads that execute them at the same time, one atomic action of one
  thread at a time.

  A mutex is \<open>Unlocked\<close>, \<open>Locked\<close> or \<open>Destroyed\<close>: a default (\<^emph>\<open>fast\<close>) mutex of the \<^verbatim>\<open>PTHREADS\<close> branch of \<^verbatim>\<open>TSRM.c\<close>, as LinuxThreads documents it: it records no owner,
  and unlocking always returns it to the unlocked state, whichever thread does it. The code relies on that, since it has the last
  reader unlock the writers' mutex, which the first one locked; POSIX leaves such an unlock undefined, and
  for a system whose mutexes have an owner nothing is claimed. Locking a mutex that is locked blocks: a function that would block has
  the result \<open>None\<close>, as one that uses a destroyed mutex.
\<close>

section \<open>The lock\<close>

datatype mutex = Unlocked | Locked | Destroyed

definition tsrm_mutex_alloc :: mutex where
  "tsrm_mutex_alloc = Unlocked"

definition tsrm_mutex_free :: "mutex \<Rightarrow> mutex" where
  "tsrm_mutex_free m = Destroyed"

fun tsrm_mutex_lock :: "mutex \<Rightarrow> mutex option" where
  "tsrm_mutex_lock Unlocked = Some Locked"
| "tsrm_mutex_lock _ = None"

fun tsrm_mutex_unlock :: "mutex \<Rightarrow> mutex option" where
  "tsrm_mutex_unlock Destroyed = None"
| "tsrm_mutex_unlock _ = Some Unlocked"

record 'v TsHashTable =
  hash :: "'v HashTable"
  reader :: uint
  mx_reader :: mutex
  mx_writer :: mutex

definition lock_reader :: "'v TsHashTable \<Rightarrow> 'v TsHashTable option" where
  "lock_reader ht = map_option (\<lambda>m. ht\<lparr>mx_reader := m\<rparr>) (tsrm_mutex_lock (mx_reader ht))"

definition unlock_reader :: "'v TsHashTable \<Rightarrow> 'v TsHashTable option" where
  "unlock_reader ht = map_option (\<lambda>m. ht\<lparr>mx_reader := m\<rparr>) (tsrm_mutex_unlock (mx_reader ht))"

definition lock_writer :: "'v TsHashTable \<Rightarrow> 'v TsHashTable option" where
  "lock_writer ht = map_option (\<lambda>m. ht\<lparr>mx_writer := m\<rparr>) (tsrm_mutex_lock (mx_writer ht))"

definition unlock_writer :: "'v TsHashTable \<Rightarrow> 'v TsHashTable option" where
  "unlock_writer ht = map_option (\<lambda>m. ht\<lparr>mx_writer := m\<rparr>) (tsrm_mutex_unlock (mx_writer ht))"

definition begin_read :: "'v TsHashTable \<Rightarrow> 'v TsHashTable option" where
  "begin_read ht =
     do { ht \<leftarrow> lock_reader ht;
          let ht = ht\<lparr>reader := reader ht + 1\<rparr>;
          ht \<leftarrow> (if reader ht = 1 then lock_writer ht else Some ht);
          unlock_reader ht }"

definition end_read :: "'v TsHashTable \<Rightarrow> 'v TsHashTable option" where
  "end_read ht =
     do { ht \<leftarrow> lock_reader ht;
          let ht = ht\<lparr>reader := reader ht - 1\<rparr>;
          ht \<leftarrow> (if reader ht = 0 then unlock_writer ht else Some ht);
          unlock_reader ht }"

definition begin_write :: "'v TsHashTable \<Rightarrow> 'v TsHashTable option" where
  "begin_write ht = lock_writer ht"

definition end_write :: "'v TsHashTable \<Rightarrow> 'v TsHashTable option" where
  "end_write ht = unlock_writer ht"

section \<open>The functions\<close>

text \<open>The common shape of the functions: an operation between \<open>begin_write\<close> and \<open>end_write\<close>, or between \<open>begin_read\<close> and \<open>end_read\<close>.\<close>

definition ts_write :: "'v TsHashTable \<Rightarrow> ('v HashTable \<Rightarrow> ('r \<times> 'v HashTable) option) \<Rightarrow> ('r \<times> 'v TsHashTable) option" where
  "ts_write ht f =
     do { ht \<leftarrow> begin_write ht;
          (retval, h) \<leftarrow> f (hash ht);
          ht \<leftarrow> end_write (ht\<lparr>hash := h\<rparr>);
          Some (retval, ht) }"

definition ts_read :: "'v TsHashTable \<Rightarrow> ('v HashTable \<Rightarrow> 'r option) \<Rightarrow> ('r \<times> 'v TsHashTable) option" where
  "ts_read ht f =
     do { ht \<leftarrow> begin_read ht;
          retval \<leftarrow> f (hash ht);
          ht \<leftarrow> end_read ht;
          Some (retval, ht) }"

definition zend_ts_hash_init ::
  "'v TsHashTable \<Rightarrow> uint \<Rightarrow> bool \<Rightarrow> bool \<Rightarrow> (zresult \<times> 'v TsHashTable) option" where
  "zend_ts_hash_init ht nSize dtor persist =
     do { let ht = ht\<lparr>mx_reader := tsrm_mutex_alloc, mx_writer := tsrm_mutex_alloc, reader := 0\<rparr>;
          (retval, h) \<leftarrow> zend_hash_init (hash ht) nSize dtor persist;
          Some (retval, ht\<lparr>hash := h\<rparr>) }"

definition zend_ts_hash_init_ex ::
  "'v TsHashTable \<Rightarrow> uint \<Rightarrow> bool \<Rightarrow> bool \<Rightarrow> bool \<Rightarrow> (zresult \<times> 'v TsHashTable) option" where
  "zend_ts_hash_init_ex ht nSize dtor persist applyProtection =
     do { let ht = ht\<lparr>mx_reader := tsrm_mutex_alloc, mx_writer := tsrm_mutex_alloc, reader := 0\<rparr>;
          (retval, h) \<leftarrow> zend_hash_init_ex (hash ht) nSize dtor persist applyProtection;
          Some (retval, ht\<lparr>hash := h\<rparr>) }"

definition free_mutexes :: "'v TsHashTable \<Rightarrow> 'v TsHashTable" where
  "free_mutexes ht = ht\<lparr>mx_reader := tsrm_mutex_free (mx_reader ht), mx_writer := tsrm_mutex_free (mx_writer ht)\<rparr>"

definition zend_ts_hash_destroy :: "'v TsHashTable \<Rightarrow> 'v TsHashTable option" where
  "zend_ts_hash_destroy ht =
     do { (_, ht) \<leftarrow> ts_write ht (\<lambda>h. map_option (Pair ()) (zend_hash_destroy h));
          Some (free_mutexes ht) }"

text \<open>The first statement of \<^verbatim>\<open>zend_ts_hash_clean\<close>, before the lock is taken.\<close>

definition clean_reset :: "'v TsHashTable \<Rightarrow> 'v TsHashTable" where
  "clean_reset ht = ht\<lparr>reader := 0\<rparr>"

definition zend_ts_hash_clean :: "'v TsHashTable \<Rightarrow> 'v TsHashTable option" where
  "zend_ts_hash_clean ht =
     do { let ht = clean_reset ht;
          (_, ht) \<leftarrow> ts_write ht (\<lambda>h. map_option (Pair ()) (zend_hash_clean h));
          Some ht }"

definition zend_ts_hash_add_or_update ::
  "ptr \<Rightarrow> 'v TsHashTable \<Rightarrow> key_ptr \<Rightarrow> nat \<Rightarrow> 'v \<Rightarrow> nat \<Rightarrow> hash_flag \<Rightarrow> ((zresult \<times> ptr option) \<times> 'v TsHashTable) option" where
  "zend_ts_hash_add_or_update new ht key len v nDataSize flag =
     ts_write ht (\<lambda>h. map_option (\<lambda>(r, d, h). ((r, d), h)) (zend_hash_add_or_update new h key len v nDataSize flag))"

definition zend_ts_hash_quick_add_or_update ::
  "ptr \<Rightarrow> 'v TsHashTable \<Rightarrow> key_ptr \<Rightarrow> nat \<Rightarrow> ulong \<Rightarrow> 'v \<Rightarrow> nat \<Rightarrow> hash_flag \<Rightarrow> ((zresult \<times> ptr option) \<times> 'v TsHashTable) option" where
  "zend_ts_hash_quick_add_or_update new ht key len hv v nDataSize flag =
     ts_write ht (\<lambda>h. map_option (\<lambda>(r, d, h). ((r, d), h)) (zend_hash_quick_add_or_update new h key len hv v nDataSize flag))"

definition zend_ts_hash_index_update_or_next_insert ::
  "ptr \<Rightarrow> 'v TsHashTable \<Rightarrow> ulong \<Rightarrow> 'v \<Rightarrow> nat \<Rightarrow> hash_flag \<Rightarrow> ((zresult \<times> ptr option) \<times> 'v TsHashTable) option" where
  "zend_ts_hash_index_update_or_next_insert new ht idx v nDataSize flag =
     ts_write ht (\<lambda>h. map_option (\<lambda>(r, d, h). ((r, d), h)) (zend_hash_index_update_or_next_insert new h idx v nDataSize flag))"

definition zend_ts_hash_add_empty_element ::
  "ptr \<Rightarrow> 'v \<Rightarrow> 'v TsHashTable \<Rightarrow> key_ptr \<Rightarrow> nat \<Rightarrow> (zresult \<times> 'v TsHashTable) option" where
  "zend_ts_hash_add_empty_element new dummy ht key len = ts_write ht (\<lambda>h. zend_hash_add_empty_element new dummy h key len)"

definition zend_ts_hash_graceful_destroy :: "'v TsHashTable \<Rightarrow> 'v TsHashTable option" where
  "zend_ts_hash_graceful_destroy ht =
     do { (_, ht) \<leftarrow> ts_write ht (\<lambda>h. map_option (Pair ()) (zend_hash_graceful_destroy h));
          Some (free_mutexes ht) }"

text \<open>The fatal error of a too deep nesting leaves the function without unlocking.\<close>

definition ts_apply ::
  "'v TsHashTable \<Rightarrow> ('v HashTable \<Rightarrow> ('v HashTable + 'v HashTable \<times> 's) option) \<Rightarrow> ('v TsHashTable + 's \<times> 'v TsHashTable) option" where
  "ts_apply ht f =
     do { ht \<leftarrow> begin_write ht;
          r \<leftarrow> f (hash ht);
          (case r of
             Inl h \<Rightarrow> Some (Inl (ht\<lparr>hash := h\<rparr>))
           | Inr (h, s) \<Rightarrow> map_option (\<lambda>ht. Inr (s, ht)) (end_write (ht\<lparr>hash := h\<rparr>))) }"

definition zend_ts_hash_apply ::
  "'v TsHashTable \<Rightarrow> ('v \<Rightarrow> 's \<Rightarrow> uint \<times> 'v \<times> 's) \<Rightarrow> 's \<Rightarrow> ('v TsHashTable + 's \<times> 'v TsHashTable) option" where
  "zend_ts_hash_apply ht apply_func s = ts_apply ht (\<lambda>h. zend_hash_apply h apply_func s)"

definition zend_ts_hash_apply_with_argument ::
  "'v TsHashTable \<Rightarrow> ('v \<Rightarrow> 'arg \<Rightarrow> 's \<Rightarrow> uint \<times> 'v \<times> 's) \<Rightarrow> 'arg \<Rightarrow> 's \<Rightarrow> ('v TsHashTable + 's \<times> 'v TsHashTable) option" where
  "zend_ts_hash_apply_with_argument ht apply_func argument s = ts_apply ht (\<lambda>h. zend_hash_apply_with_argument h apply_func argument s)"

definition zend_ts_hash_reverse_apply ::
  "'v TsHashTable \<Rightarrow> ('v \<Rightarrow> 's \<Rightarrow> uint \<times> 'v \<times> 's) \<Rightarrow> 's \<Rightarrow> ('v TsHashTable + 's \<times> 'v TsHashTable) option" where
  "zend_ts_hash_reverse_apply ht apply_func s = ts_apply ht (\<lambda>h. zend_hash_reverse_apply h apply_func s)"

definition zend_ts_hash_del_key_or_index ::
  "'v TsHashTable \<Rightarrow> key_ptr \<Rightarrow> nat \<Rightarrow> ulong \<Rightarrow> del_flag \<Rightarrow> (zresult \<times> 'v TsHashTable) option" where
  "zend_ts_hash_del_key_or_index ht key len hv flag = ts_write ht (\<lambda>h. zend_hash_del_key_or_index h key len hv flag)"

definition zend_ts_get_hash_value :: "'v TsHashTable \<Rightarrow> key_ptr \<Rightarrow> nat \<Rightarrow> (ulong \<times> 'v TsHashTable) option" where
  "zend_ts_get_hash_value ht key len = ts_read ht (\<lambda>_. Some (zend_hash_func (take len (chars key))))"

definition zend_ts_hash_find :: "'v TsHashTable \<Rightarrow> key_ptr \<Rightarrow> nat \<Rightarrow> ((zresult \<times> ptr option) \<times> 'v TsHashTable) option" where
  "zend_ts_hash_find ht key len = ts_read ht (\<lambda>h. zend_hash_find h key len)"

definition zend_ts_hash_quick_find ::
  "'v TsHashTable \<Rightarrow> key_ptr \<Rightarrow> nat \<Rightarrow> ulong \<Rightarrow> ((zresult \<times> ptr option) \<times> 'v TsHashTable) option" where
  "zend_ts_hash_quick_find ht key len hv = ts_read ht (\<lambda>h. zend_hash_quick_find h key len hv)"

definition zend_ts_hash_index_find :: "'v TsHashTable \<Rightarrow> ulong \<Rightarrow> ((zresult \<times> ptr option) \<times> 'v TsHashTable) option" where
  "zend_ts_hash_index_find ht idx = ts_read ht (\<lambda>h. zend_hash_index_find h idx)"

definition zend_ts_hash_exists :: "'v TsHashTable \<Rightarrow> key_ptr \<Rightarrow> nat \<Rightarrow> (bool \<times> 'v TsHashTable) option" where
  "zend_ts_hash_exists ht key len = ts_read ht (\<lambda>h. zend_hash_exists h key len)"

definition zend_ts_hash_index_exists :: "'v TsHashTable \<Rightarrow> ulong \<Rightarrow> (bool \<times> 'v TsHashTable) option" where
  "zend_ts_hash_index_exists ht idx = ts_read ht (\<lambda>h. zend_hash_index_exists h idx)"

text \<open>Two tables, which are different objects; both are returned.\<close>

definition ts_transfer ::
  "'v TsHashTable \<Rightarrow> 'v TsHashTable \<Rightarrow> ('v HashTable \<Rightarrow> 'v HashTable \<Rightarrow> 'v HashTable option) \<Rightarrow> ('v TsHashTable \<times> 'v TsHashTable) option" where
  "ts_transfer target source f =
     do { source \<leftarrow> begin_read source;
          target \<leftarrow> begin_write target;
          h \<leftarrow> f (hash target) (hash source);
          target \<leftarrow> end_write (target\<lparr>hash := h\<rparr>);
          source \<leftarrow> end_read source;
          Some (target, source) }"

definition zend_ts_hash_copy ::
  "('v HashTable \<Rightarrow> ptr) \<Rightarrow> 'v TsHashTable \<Rightarrow> 'v TsHashTable \<Rightarrow> ('v \<Rightarrow> 'v) option \<Rightarrow> nat \<Rightarrow> ('v TsHashTable \<times> 'v TsHashTable) option" where
  "zend_ts_hash_copy malloc target source pCopyConstructor size' =
     ts_transfer target source (\<lambda>t s. zend_hash_copy malloc t s pCopyConstructor size')"

definition zend_ts_hash_copy_to_hash ::
  "('v HashTable \<Rightarrow> ptr) \<Rightarrow> 'v HashTable \<Rightarrow> 'v TsHashTable \<Rightarrow> ('v \<Rightarrow> 'v) option \<Rightarrow> nat \<Rightarrow> ('v HashTable \<times> 'v TsHashTable) option" where
  "zend_ts_hash_copy_to_hash malloc target source pCopyConstructor size' =
     ts_read source (\<lambda>s. zend_hash_copy malloc target s pCopyConstructor size')"

definition zend_ts_hash_merge ::
  "('v HashTable \<Rightarrow> ptr) \<Rightarrow> 'v TsHashTable \<Rightarrow> 'v TsHashTable \<Rightarrow> ('v \<Rightarrow> 'v) option \<Rightarrow> nat \<Rightarrow> bool \<Rightarrow>
   ('v TsHashTable \<times> 'v TsHashTable) option" where
  "zend_ts_hash_merge malloc target source pCopyConstructor size' overwrite =
     ts_transfer target source (\<lambda>t s. zend_hash_merge malloc t s pCopyConstructor size' overwrite)"

definition zend_ts_hash_merge_ex ::
  "('v HashTable \<Rightarrow> ptr) \<Rightarrow> 'v TsHashTable \<Rightarrow> 'v TsHashTable \<Rightarrow> ('v \<Rightarrow> 'v) option \<Rightarrow> nat \<Rightarrow>
   ('v HashTable \<Rightarrow> 'v \<Rightarrow> hash_key \<Rightarrow> 'arg \<Rightarrow> bool) \<Rightarrow> 'arg \<Rightarrow> ('v TsHashTable \<times> 'v TsHashTable) option" where
  "zend_ts_hash_merge_ex malloc target source pCopyConstructor size' pMergeSource pParam =
     ts_transfer target source (\<lambda>t s. zend_hash_merge_ex malloc t s pCopyConstructor size' pMergeSource pParam)"

definition zend_ts_hash_sort ::
  "'v TsHashTable \<Rightarrow> ((ptr \<Rightarrow> ptr \<Rightarrow> int) \<Rightarrow> ptr list \<Rightarrow> ptr list option) \<Rightarrow> ('v bucket \<Rightarrow> 'v bucket \<Rightarrow> int) \<Rightarrow> bool \<Rightarrow>
   (zresult \<times> 'v TsHashTable) option" where
  "zend_ts_hash_sort ht sort_func compar renumber = ts_write ht (\<lambda>h. zend_hash_sort h sort_func compar renumber)"

text \<open>Comparing writes the nesting counters of both tables, under the locks for reading.\<close>

definition zend_ts_hash_compare ::
  "'v TsHashTable \<Rightarrow> 'v TsHashTable \<Rightarrow> ('v \<Rightarrow> 'v \<Rightarrow> int) \<Rightarrow> bool \<Rightarrow> (unit + int \<times> 'v TsHashTable \<times> 'v TsHashTable) option" where
  "zend_ts_hash_compare ht1 ht2 compar ordered =
     do { ht1 \<leftarrow> begin_read ht1;
          ht2 \<leftarrow> begin_read ht2;
          r \<leftarrow> zend_hash_compare (hash ht1) (hash ht2) compar ordered;
          (case r of
             Inl _ \<Rightarrow> Some (Inl ())
           | Inr (retval, h1, h2) \<Rightarrow>
               do { ht2 \<leftarrow> end_read (ht2\<lparr>hash := h2\<rparr>);
                    ht1 \<leftarrow> end_read (ht1\<lparr>hash := h1\<rparr>);
                    Some (Inr (retval, ht1, ht2)) }) }"

definition zend_ts_hash_minmax ::
  "'v TsHashTable \<Rightarrow> ('v bucket \<Rightarrow> 'v bucket \<Rightarrow> int) \<Rightarrow> bool \<Rightarrow> ((zresult \<times> 'v option) \<times> 'v TsHashTable) option" where
  "zend_ts_hash_minmax ht compar flag = ts_read ht (\<lambda>h. zend_hash_minmax h compar flag)"

definition zend_ts_hash_num_elements :: "'v TsHashTable \<Rightarrow> (uint \<times> 'v TsHashTable) option" where
  "zend_ts_hash_num_elements ht = ts_read ht (\<lambda>h. Some (zend_hash_num_elements h))"

definition zend_ts_hash_rehash :: "'v TsHashTable \<Rightarrow> (zresult \<times> 'v TsHashTable) option" where
  "zend_ts_hash_rehash ht = ts_write ht (\<lambda>h. zend_hash_rehash h)"

section \<open>One thread\<close>

definition quiet :: "'v TsHashTable \<Rightarrow> bool" where
  "quiet ht \<longleftrightarrow> reader ht = 0 \<and> mx_reader ht = Unlocked \<and> mx_writer ht = Unlocked"

lemmas lock_defs = lock_reader_def unlock_reader_def lock_writer_def unlock_writer_def

lemma begin_end_read [simp]:
  assumes "quiet ht"
  shows "begin_read ht = Some (ht\<lparr>reader := 1, mx_writer := Locked\<rparr>)" "end_read (ht\<lparr>reader := 1, mx_writer := Locked\<rparr>) = Some ht"
  using assms by (simp_all add: quiet_def begin_read_def end_read_def lock_defs)

lemma begin_end_write [simp]:
  assumes "quiet ht"
  shows "begin_write ht = Some (ht\<lparr>mx_writer := Locked\<rparr>)" "end_write (ht\<lparr>mx_writer := Locked\<rparr>) = Some ht"
    "end_write (ht\<lparr>mx_writer := Locked, hash := h\<rparr>) = Some (ht\<lparr>hash := h\<rparr>)"
  using assms by (simp_all add: quiet_def begin_write_def end_write_def lock_defs)

lemma ts_write_quiet: "quiet ht \<Longrightarrow> ts_write ht f = map_option (\<lambda>(r, h). (r, ht\<lparr>hash := h\<rparr>)) (f (hash ht))"
  by (cases "f (hash ht)") (auto simp: ts_write_def)

lemma ts_read_quiet: "quiet ht \<Longrightarrow> ts_read ht f = map_option (\<lambda>r. (r, ht)) (f (hash ht))"
  by (cases "f (hash ht)") (simp_all add: ts_read_def)

lemma ts_transfer_quiet:
  "quiet target \<Longrightarrow> quiet source \<Longrightarrow>
   ts_transfer target source f = map_option (\<lambda>h. (target\<lparr>hash := h\<rparr>, source)) (f (hash target) (hash source))"
  by (cases "f (hash target) (hash source)") (simp_all add: ts_transfer_def)

section \<open>Many threads\<close>

text \<open>
  Where a thread is with one table: outside (\<open>Idle\<close>), in \<^verbatim>\<open>begin_read\<close> (about to count, to lock the writers' mutex, to unlock the readers'
  mutex), reading, in \<^verbatim>\<open>end_read\<close> likewise, writing, or in \<^verbatim>\<open>zend_ts_hash_clean\<close> between its first statement and the lock. A function on two tables is, for each
  of them, a reader or a writer.
\<close>

datatype pc = Idle | RInc | RLockW | RUnl | Reading | EDec | EUnlW | EUnl | Cleaning | Writing

text \<open>
  What a step is: a statement of \<open>begin_read\<close>, \<open>end_read\<close>, \<open>begin_write\<close> or \<open>end_write\<close>, an operation of a writer on the table, the writing of the
  nesting counter by a reader (\<^verbatim>\<open>zend_ts_hash_compare\<close>), the first statement of \<^verbatim>\<open>zend_ts_hash_clean\<close>, or leaving a function by a fatal error, which
  keeps the lock.
\<close>

datatype action = Access | Table | Compare | Reset | Bail

record 'v system =
  tbl :: "'v TsHashTable"
  at :: "nat \<Rightarrow> pc"

definition goto :: "nat \<Rightarrow> pc \<Rightarrow> 'v TsHashTable \<Rightarrow> 'v system \<Rightarrow> 'v system" where
  "goto t l h s = s\<lparr>tbl := h, at := (at s)(t := l)\<rparr>"

inductive step :: "action \<Rightarrow> 'v system \<Rightarrow> nat \<Rightarrow> 'v system \<Rightarrow> bool" where
  read_lock: "at s t = Idle \<Longrightarrow> lock_reader (tbl s) = Some h \<Longrightarrow> step Access s t (goto t RInc h s)"
| read_count: "at s t = RInc \<Longrightarrow> h = tbl s\<lparr>reader := reader (tbl s) + 1\<rparr> \<Longrightarrow> step Access s t (goto t (if reader h = 1 then RLockW else RUnl) h s)"
| read_lock_writer: "at s t = RLockW \<Longrightarrow> lock_writer (tbl s) = Some h \<Longrightarrow> step Access s t (goto t RUnl h s)"
| read_unlock: "at s t = RUnl \<Longrightarrow> unlock_reader (tbl s) = Some h \<Longrightarrow> step Access s t (goto t Reading h s)"
| end_lock: "at s t = Reading \<Longrightarrow> lock_reader (tbl s) = Some h \<Longrightarrow> step Access s t (goto t EDec h s)"
| end_count: "at s t = EDec \<Longrightarrow> h = tbl s\<lparr>reader := reader (tbl s) - 1\<rparr> \<Longrightarrow> step Access s t (goto t (if reader h = 0 then EUnlW else EUnl) h s)"
| end_unlock_writer: "at s t = EUnlW \<Longrightarrow> unlock_writer (tbl s) = Some h \<Longrightarrow> step Access s t (goto t EUnl h s)"
| end_unlock: "at s t = EUnl \<Longrightarrow> unlock_reader (tbl s) = Some h \<Longrightarrow> step Access s t (goto t Idle h s)"
| write_lock: "at s t = Idle \<or> at s t = Cleaning \<Longrightarrow> begin_write (tbl s) = Some h \<Longrightarrow> step Access s t (goto t Writing h s)"
| write_table: "at s t = Writing \<Longrightarrow> step Table s t (goto t Writing (tbl s\<lparr>hash := h'\<rparr>) s)"
| write_unlock: "at s t = Writing \<Longrightarrow> end_write (tbl s) = Some h \<Longrightarrow> step Access s t (goto t Idle h s)"
| read_compare: "at s t = Reading \<Longrightarrow> step Compare s t (goto t Reading (tbl s\<lparr>hash := (hash (tbl s))\<lparr>nApplyCount := c\<rparr>\<rparr>) s)"
| clean: "at s t = Idle \<Longrightarrow> step Reset s t (goto t Cleaning (clean_reset (tbl s)) s)"
| bail: "at s t = Reading \<or> at s t = Writing \<Longrightarrow> step Bail s t (goto t Idle (tbl s) s)"

text \<open>The states that \<open>n\<close> threads reach from a table that nobody uses, by steps of the kinds \<open>E\<close>.\<close>

inductive reachable :: "action set \<Rightarrow> nat \<Rightarrow> 'v system \<Rightarrow> bool" for E n where
  start: "quiet ht \<Longrightarrow> reachable E n \<lparr>tbl = ht, at = (\<lambda>_. Idle)\<rparr>"
| go: "reachable E n s \<Longrightarrow> t < n \<Longrightarrow> e \<in> E \<Longrightarrow> step e s t s' \<Longrightarrow> reachable E n s'"

definition threads :: "pc set \<Rightarrow> 'v system \<Rightarrow> nat set" where
  "threads P s = {t. at s t \<in> P}"

lemma threads_goto: "threads P (goto t l h s) = (if l \<in> P then insert t (threads P s) else threads P s - {t})"
  by (auto simp: threads_def goto_def)

lemma in_threads: "t \<in> threads P s \<longleftrightarrow> at s t \<in> P"
  by (simp add: threads_def)

lemma threads_mono: "P \<subseteq> Q \<Longrightarrow> threads P s \<subseteq> threads Q s"
  by (auto simp: threads_def)

lemma goto_simps [simp]: "tbl (goto t l h s) = h" "at (goto t l h s) u = (if u = t then l else at s u)"
  by (simp_all add: goto_def)

text \<open>The threads that hold the readers' mutex, those that are counted, and those that share the writers' mutex as readers.\<close>

abbreviation "holding \<equiv> {RInc, RLockW, RUnl, EDec, EUnlW, EUnl}"
abbreviation "holders \<equiv> threads holding"
abbreviation "counting \<equiv> {RLockW, RUnl, Reading, EDec}"
abbreviation "counted \<equiv> threads counting"
abbreviation "inside \<equiv> threads {RUnl, Reading, EDec, EUnlW}"
abbreviation "writers \<equiv> threads {Writing}"

definition lock_inv :: "nat \<Rightarrow> 'v system \<Rightarrow> bool" where
  "lock_inv n s \<longleftrightarrow>
     threads (- {Idle}) s \<subseteq> {..<n} \<and>
     mx_reader (tbl s) = (if holders s = {} then Unlocked else Locked) \<and> (\<forall>t\<in>holders s. holders s = {t}) \<and>
     reader (tbl s) = of_nat (card (counted s)) \<and>
     mx_writer (tbl s) = (if writers s \<union> inside s = {} then Unlocked else Locked) \<and>
     (\<forall>t\<in>writers s. writers s = {t} \<and> inside s = {}) \<and>
     (\<forall>t. at s t = RLockW \<longrightarrow> counted s = {t}) \<and> (\<forall>t. at s t = EUnlW \<longrightarrow> counted s = {})"

lemma lock_invI:
  assumes "threads (- {Idle}) s \<subseteq> {..<n}"
    and "mx_reader (tbl s) = (if holders s = {} then Unlocked else Locked)" "\<forall>t\<in>holders s. holders s = {t}"
    and "reader (tbl s) = of_nat (card (counted s))" "mx_writer (tbl s) = (if writers s \<union> inside s = {} then Unlocked else Locked)"
    and "\<forall>t\<in>writers s. writers s = {t} \<and> inside s = {}"
    and "\<forall>t. at s t = RLockW \<longrightarrow> counted s = {t}" "\<forall>t. at s t = EUnlW \<longrightarrow> counted s = {}"
  shows "lock_inv n s"
  unfolding lock_inv_def using assms by (intro conjI)

lemma lock_invD:
  assumes "lock_inv n s"
  shows "threads (- {Idle}) s \<subseteq> {..<n}"
    and "mx_reader (tbl s) = (if holders s = {} then Unlocked else Locked)" "\<forall>t\<in>holders s. holders s = {t}"
    and "reader (tbl s) = of_nat (card (counted s))" "mx_writer (tbl s) = (if writers s \<union> inside s = {} then Unlocked else Locked)"
    and "\<forall>t\<in>writers s. writers s = {t} \<and> inside s = {}"
    and "\<forall>t. at s t = RLockW \<longrightarrow> counted s = {t}" "\<forall>t. at s t = EUnlW \<longrightarrow> counted s = {}"
  using assms unfolding lock_inv_def by - (elim conjE, assumption)+

lemma lock_Some:
  "lock_reader ht = Some h \<longleftrightarrow> mx_reader ht = Unlocked \<and> h = ht\<lparr>mx_reader := Locked\<rparr>"
  "unlock_reader ht = Some h \<longleftrightarrow> mx_reader ht \<noteq> Destroyed \<and> h = ht\<lparr>mx_reader := Unlocked\<rparr>"
  "lock_writer ht = Some h \<longleftrightarrow> mx_writer ht = Unlocked \<and> h = ht\<lparr>mx_writer := Locked\<rparr>"
  "unlock_writer ht = Some h \<longleftrightarrow> mx_writer ht \<noteq> Destroyed \<and> h = ht\<lparr>mx_writer := Unlocked\<rparr>"
  "begin_write ht = Some h \<longleftrightarrow> mx_writer ht = Unlocked \<and> h = ht\<lparr>mx_writer := Locked\<rparr>"
  "end_write ht = Some h \<longleftrightarrow> mx_writer ht \<noteq> Destroyed \<and> h = ht\<lparr>mx_writer := Unlocked\<rparr>"
  by (cases "mx_reader ht"; auto simp: lock_defs begin_write_def end_write_def; cases "mx_writer ht"; auto simp: lock_defs begin_write_def end_write_def)+

lemma finite_counted:
  assumes "lock_inv n s" "n < 2 ^ 32"
  shows "finite (counted s)" "card (counted s) < 2 ^ 32"
proof -
  have "counted s \<subseteq> {..<n}" using lock_invD(1) [OF assms(1)] by (force simp: threads_def)
  then show "finite (counted s)" "card (counted s) < 2 ^ 32"
    using assms(2) card_mono [of "{..<n}" "counted s"] finite_subset by auto
qed

lemma holder_unique: "lock_inv n s \<Longrightarrow> t \<in> holders s \<Longrightarrow> u \<in> holders s \<Longrightarrow> u = t"
  using lock_invD(3) by blast

lemma counted_reading:
  assumes "lock_inv n s" "t \<in> holders s" "u \<in> counted s" "u \<noteq> t"
  shows "at s u = Reading"
proof -
  have "u \<notin> holders s" using holder_unique [OF assms(1,2)] assms(4) by blast
  then show ?thesis using assms(3) by (auto simp: in_threads)
qed

lemma within:
  assumes "lock_inv n s" "t < n"
  shows "threads (- {Idle}) (goto t l h s) \<subseteq> {..<n}"
  using lock_invD(1) [OF assms(1)] assms(2) by (auto simp: threads_goto)

lemma threads_same: "at s t \<in> P \<longleftrightarrow> l \<in> P \<Longrightarrow> threads P (goto t l h s) = threads P s"
  and threads_add: "l \<in> P \<Longrightarrow> threads P (goto t l h s) = insert t (threads P s)"
  and threads_del: "l \<notin> P \<Longrightarrow> threads P (goto t l h s) = threads P s - {t}"
  and threads_sub: "(l \<in> P \<Longrightarrow> at s t \<in> P) \<Longrightarrow> threads P (goto t l h s) \<subseteq> threads P s"
  by (auto simp: threads_def split: if_splits)

text \<open>The invariant after a move, from the sets of threads after it.\<close>

lemma goto_inv:
  assumes i: "lock_inv n s" and t: "t < n"
    and sets: "holders (goto t l h s) = H" "counted (goto t l h s) = C" "inside (goto t l h s) = I" "writers (goto t l h s) = W"
    and "mx_reader h = (if H = {} then Unlocked else Locked)" "\<forall>u\<in>H. H = {u}" "reader h = of_nat (card C)"
    and "mx_writer h = (if W \<union> I = {} then Unlocked else Locked)" "\<forall>u\<in>W. W = {u} \<and> I = {}"
    and "l = RLockW \<longrightarrow> C = {t}" "l = EUnlW \<longrightarrow> C = {}" "\<forall>u. u \<noteq> t \<longrightarrow> at s u \<noteq> RLockW \<and> at s u \<noteq> EUnlW \<or> C = counted s"
  shows "lock_inv n (goto t l h s)"
proof (rule lock_invI [OF within [OF i t]], unfold sets goto_simps)
  show "\<forall>u. (if u = t then l else at s u) = RLockW \<longrightarrow> C = {u}" using assms(12,14) lock_invD(7) [OF i] by (metis (full_types))
  show "\<forall>u. (if u = t then l else at s u) = EUnlW \<longrightarrow> C = {}" using assms(13,14) lock_invD(8) [OF i] by (metis (full_types))
qed (use assms(7-11) in blast)+

text \<open>No other thread is in the middle of \<open>begin_read\<close> or \<open>end_read\<close> while one holds the readers' mutex.\<close>

lemma alone:
  assumes "lock_inv n s" "t \<in> holders s" "u \<noteq> t"
  shows "at s u \<noteq> RLockW" "at s u \<noteq> EUnlW"
  using holder_unique [OF assms(1,2), of u] assms(3) by (auto simp: in_threads)

lemma inv_read_lock:
  assumes i: "lock_inv n s" and t: "t < n" "at s t = Idle" "mx_reader (tbl s) = Unlocked"
  shows "lock_inv n (goto t RInc (tbl s\<lparr>mx_reader := Locked\<rparr>) s)"
proof -
  note d = lock_invD [OF i]
  have h: "holders s = {}" using d(2) t(3) by (auto split: if_splits)
  show ?thesis
    by (rule goto_inv [OF i t(1), where H = "{t}" and C = "counted s" and I = "inside s" and W = "writers s"])
      (use d(4-6) h t in \<open>simp_all add: threads_same threads_add\<close>)
qed

lemma inv_read_count:
  assumes i: "lock_inv n s" and n: "n < 2 ^ 32" and t: "t < n" "at s t = RInc"
  shows "lock_inv n (goto t (if reader (tbl s) + 1 = 1 then RLockW else RUnl) (tbl s\<lparr>reader := reader (tbl s) + 1\<rparr>) s)"
proof -
  note d = lock_invD [OF i] and f = finite_counted [OF i n]
  have h: "t \<in> holders s" "holders s = {t}" using t(2) d(3) by (auto simp: in_threads)
  have nt: "t \<notin> counted s" using t(2) by (simp add: in_threads)
  have c: "reader (tbl s) = 0 \<longleftrightarrow> counted s = {}"
    using d(4) f by (simp add: unat_eq_0 [symmetric] unat_of_nat)
  have r: "reader (tbl s) + 1 = of_nat (card (insert t (counted s)))" using d(4) f(1) nt by (simp add: add.commute)
  note al = alone [OF i h(1)]
  show ?thesis
  proof (cases "counted s = {}")
    case True
    show ?thesis
      by (rule goto_inv [OF i t(1), where H = "{t}" and C = "{t}" and I = "inside s" and W = "writers s"])
        (use d(2,5,6) h c r t True al in \<open>simp_all add: threads_same threads_add\<close>)
  next
    case False
    then obtain u where "u \<in> counted s" "u \<noteq> t" using nt by blast
    then have "at s u = Reading" using counted_reading [OF i h(1)] by blast
    then have ne: "inside s \<noteq> {}" by (auto simp: threads_def)
    then have w: "writers s = {}" using d(6) by blast
    have l: "(if reader (tbl s) + 1 = 1 then RLockW else RUnl) = RUnl" using c False by simp
    show ?thesis unfolding l
      by (rule goto_inv [OF i t(1), where H = "{t}" and C = "insert t (counted s)" and I = "insert t (inside s)" and W = "{}"])
        (use d(2,5) h r t ne w al in \<open>simp_all add: threads_same threads_add\<close>)
  qed
qed

lemma inv_read_lock_writer:
  assumes i: "lock_inv n s" and t: "t < n" "at s t = RLockW" "mx_writer (tbl s) = Unlocked"
  shows "lock_inv n (goto t RUnl (tbl s\<lparr>mx_writer := Locked\<rparr>) s)"
proof -
  note d = lock_invD [OF i]
  have h: "t \<in> holders s" "holders s = {t}" using t(2) d(3) by (auto simp: in_threads)
  have w: "writers s = {}" using d(5) t(3) by (auto split: if_splits)
  show ?thesis
    by (rule goto_inv [OF i t(1), where H = "{t}" and C = "counted s" and I = "insert t (inside s)" and W = "{}"])
      (use d(2,4) h t w in \<open>simp_all add: threads_same threads_add\<close>)
qed

lemma inv_read_unlock:
  assumes i: "lock_inv n s" and t: "t < n" "at s t = RUnl"
  shows "lock_inv n (goto t Reading (tbl s\<lparr>mx_reader := Unlocked\<rparr>) s)"
proof -
  note d = lock_invD [OF i]
  have h: "holders s = {t}" using t(2) d(3) by (auto simp: in_threads)
  show ?thesis
    by (rule goto_inv [OF i t(1), where H = "{}" and C = "counted s" and I = "inside s" and W = "writers s"])
      (use d(4-6) h t in \<open>simp_all add: threads_same threads_del\<close>)
qed

lemma inv_end_lock:
  assumes i: "lock_inv n s" and t: "t < n" "at s t = Reading" "mx_reader (tbl s) = Unlocked"
  shows "lock_inv n (goto t EDec (tbl s\<lparr>mx_reader := Locked\<rparr>) s)"
proof -
  note d = lock_invD [OF i]
  have h: "holders s = {}" using d(2) t(3) by (auto split: if_splits)
  show ?thesis
    by (rule goto_inv [OF i t(1), where H = "{t}" and C = "counted s" and I = "inside s" and W = "writers s"])
      (use d(4-6) h t in \<open>simp_all add: threads_same threads_add\<close>)
qed

lemma inv_end_count:
  assumes i: "lock_inv n s" and n: "n < 2 ^ 32" and t: "t < n" "at s t = EDec"
  shows "lock_inv n (goto t (if reader (tbl s) - 1 = 0 then EUnlW else EUnl) (tbl s\<lparr>reader := reader (tbl s) - 1\<rparr>) s)"
proof -
  note d = lock_invD [OF i] and f = finite_counted [OF i n]
  have h: "t \<in> holders s" "holders s = {t}" using t(2) d(3) by (auto simp: in_threads)
  have ct: "t \<in> counted s" "t \<in> inside s" using t(2) by (simp_all add: in_threads)
  then have w: "writers s = {}" using d(6) by blast
  have m: "mx_writer (tbl s) = Locked" using d(5) ct(2) by (auto split: if_splits)
  have cd: "card (counted s) = Suc (card (counted s - {t}))" using f(1) ct(1) by (metis card_Suc_Diff1)
  have r: "reader (tbl s) - 1 = of_nat (card (counted s - {t}))" using d(4) cd by simp
  have c: "reader (tbl s) - 1 = 0 \<longleftrightarrow> counted s - {t} = {}"
    unfolding r using cd f by (simp add: unat_eq_0 [symmetric] unat_of_nat)
  note al = alone [OF i h(1)]
  show ?thesis
  proof (cases "counted s - {t} = {}")
    case True
    have ne: "inside s \<noteq> {}" using ct(2) by blast
    show ?thesis
      by (rule goto_inv [OF i t(1), where H = "{t}" and C = "{}" and I = "inside s" and W = "{}"])
        (use d(2) h c r t True al w m ne in \<open>simp_all add: threads_same threads_add threads_del\<close>)
  next
    case False
    then obtain u where u: "u \<in> counted s" "u \<noteq> t" by blast
    then have "at s u = Reading" using counted_reading [OF i h(1)] by blast
    then have ne: "inside s - {t} \<noteq> {}" using u(2) by (auto simp: threads_def)
    show ?thesis
      by (rule goto_inv [OF i t(1), where H = "{t}" and C = "counted s - {t}" and I = "inside s - {t}" and W = "{}"])
        (use d(2) h c r t False ne w m al in \<open>simp_all add: threads_same threads_add threads_del\<close>)
  qed
qed

lemma inv_end_unlock_writer:
  assumes i: "lock_inv n s" and t: "t < n" "at s t = EUnlW"
  shows "lock_inv n (goto t EUnl (tbl s\<lparr>mx_writer := Unlocked\<rparr>) s)"
proof -
  note d = lock_invD [OF i]
  have h: "t \<in> holders s" "holders s = {t}" "t \<in> inside s" using t(2) d(3) by (auto simp: in_threads)
  have c: "counted s = {}" using d(8) t(2) by blast
  have w: "writers s = {}" using d(6) h(3) by blast
  have "inside s - {t} = {}"
  proof (rule ccontr)
    assume "inside s - {t} \<noteq> {}"
    then obtain u where u: "u \<in> inside s" "u \<noteq> t" by blast
    have "u \<notin> holders s" using h(2) u(2) by blast
    then have "u \<in> counted s" using u(1) by (auto simp: in_threads)
    then show False using c by simp
  qed
  then show ?thesis
    by (intro goto_inv [OF i t(1), where H = "{t}" and C = "{}" and I = "{}" and W = "{}"])
      (use d(2,4) h t w c in \<open>simp_all add: threads_same threads_del\<close>)
qed

lemma inv_end_unlock:
  assumes i: "lock_inv n s" and t: "t < n" "at s t = EUnl"
  shows "lock_inv n (goto t Idle (tbl s\<lparr>mx_reader := Unlocked\<rparr>) s)"
proof -
  note d = lock_invD [OF i]
  have h: "holders s = {t}" using t(2) d(3) by (auto simp: in_threads)
  show ?thesis
    by (rule goto_inv [OF i t(1), where H = "{}" and C = "counted s" and I = "inside s" and W = "writers s"])
      (use d(4-6) h t in \<open>simp_all add: threads_same threads_del\<close>)
qed

lemma inv_write:
  assumes i: "lock_inv n s" and t: "t < n"
  shows "at s t = Idle \<or> at s t = Cleaning \<Longrightarrow> mx_writer (tbl s) = Unlocked \<Longrightarrow> lock_inv n (goto t Writing (tbl s\<lparr>mx_writer := Locked\<rparr>) s)"
    and "at s t = Writing \<Longrightarrow> lock_inv n (goto t Writing (tbl s\<lparr>hash := h'\<rparr>) s)"
    and "at s t = Reading \<Longrightarrow> lock_inv n (goto t Reading (tbl s\<lparr>hash := h'\<rparr>) s)"
    and "at s t = Writing \<Longrightarrow> lock_inv n (goto t Idle (tbl s\<lparr>mx_writer := Unlocked\<rparr>) s)"
proof -
  note d = lock_invD [OF i]
  show "lock_inv n (goto t Writing (tbl s\<lparr>mx_writer := Locked\<rparr>) s)" if a: "at s t = Idle \<or> at s t = Cleaning" "mx_writer (tbl s) = Unlocked"
  proof -
    have w: "writers s = {}" "inside s = {}" using d(5) a(2) by (auto split: if_splits)
    have o: "at s t \<notin> {RInc, RLockW, RUnl, Reading, EDec, EUnlW, EUnl}" using a(1) by auto
    show ?thesis
      by (rule goto_inv [OF i t(1), where H = "holders s" and C = "counted s" and I = "{}" and W = "{t}"])
        (use d(2-4) w o in \<open>simp_all add: threads_same threads_add\<close>)
  qed
  show "lock_inv n (goto t Writing (tbl s\<lparr>hash := h'\<rparr>) s)" if a: "at s t = Writing"
    by (rule goto_inv [OF i t(1), where H = "holders s" and C = "counted s" and I = "inside s" and W = "writers s"])
      (use d(2-6) a in \<open>simp_all add: threads_same\<close>)
  show "lock_inv n (goto t Reading (tbl s\<lparr>hash := h'\<rparr>) s)" if a: "at s t = Reading"
    by (rule goto_inv [OF i t(1), where H = "holders s" and C = "counted s" and I = "inside s" and W = "writers s"])
      (use d(2-6) a in \<open>simp_all add: threads_same\<close>)
  show "lock_inv n (goto t Idle (tbl s\<lparr>mx_writer := Unlocked\<rparr>) s)" if a: "at s t = Writing"
  proof -
    have w: "writers s = {t}" "inside s = {}" using d(6) a by (auto simp: in_threads)
    show ?thesis
      by (rule goto_inv [OF i t(1), where H = "holders s" and C = "counted s" and I = "{}" and W = "{}"])
        (use d(2-4) w a in \<open>simp_all add: threads_same threads_del\<close>)
  qed
qed

lemma step_inv:
  assumes "step e s t s'" "e \<in> {Access, Table, Compare}" "lock_inv n s" "t < n" "n < 2 ^ 32"
  shows "lock_inv n s'"
  using assms
proof cases
  case (read_count h)
  then show ?thesis using inv_read_count [OF assms(3,5,4)] by simp
next
  case (end_count h)
  then show ?thesis using inv_end_count [OF assms(3,5,4)] by simp
qed (use assms(2-4) in \<open>auto simp: lock_Some intro: inv_read_lock inv_read_lock_writer inv_read_unlock inv_end_lock
      inv_end_unlock_writer inv_end_unlock inv_write\<close>)

lemma start_inv: "quiet ht \<Longrightarrow> lock_inv n \<lparr>tbl = ht, at = (\<lambda>_. Idle)\<rparr>"
  by (simp add: lock_inv_def threads_def quiet_def)

lemma reachable_inv:
  assumes "reachable {Access, Table, Compare} n s" "n < 2 ^ 32"
  shows "lock_inv n s"
  using assms(1)
proof induction
  case (go s t e s')
  then show ?case using step_inv assms(2) by blast
qed (rule start_inv)

lemma never_cleaning: "reachable {Access, Table, Compare} n s \<Longrightarrow> at s t \<noteq> Cleaning"
proof (induction rule: reachable.induct)
  case (go s u e s')
  then show ?case by (auto elim!: step.cases split: if_splits)
qed simp

text \<open>The steps of a thread that runs undisturbed are the functions of the first part.\<close>

lemma begin_read_steps:
  assumes "begin_read (tbl s) = Some h" "at s t = Idle"
  shows "(\<lambda>s s'. step Access s t s')\<^sup>*\<^sup>* s (goto t Reading h s)"
proof -
  obtain h1 where h1: "lock_reader (tbl s) = Some h1" using assms(1) by (auto simp: begin_read_def split: bind_splits)
  let ?h2 = "h1\<lparr>reader := reader h1 + 1\<rparr>" and ?l = "if reader h1 + 1 = 1 then RLockW else RUnl"
  obtain h3 where h3: "(if reader ?h2 = 1 then lock_writer ?h2 else Some ?h2) = Some h3" "unlock_reader h3 = Some h"
    using assms(1) h1 by (auto simp: begin_read_def Let_def split: bind_splits)
  have 1: "step Access s t (goto t RInc h1 s)" using read_lock assms(2) h1 by blast
  have "step Access (goto t RInc h1 s) t (goto t (if reader ?h2 = 1 then RLockW else RUnl) ?h2 (goto t RInc h1 s))"
    by (rule read_count) simp_all
  then have 2: "step Access (goto t RInc h1 s) t (goto t ?l ?h2 s)" by (simp add: goto_def)
  have 3: "(\<lambda>s s'. step Access s t s')\<^sup>*\<^sup>* (goto t ?l ?h2 s) (goto t RUnl h3 s)"
  proof (cases "reader h1 + 1 = 1")
    case True
    then have "step Access (goto t RLockW ?h2 s) t (goto t RUnl h3 (goto t RLockW ?h2 s))" using h3(1) by (intro read_lock_writer) simp_all
    then have "step Access (goto t ?l ?h2 s) t (goto t RUnl h3 s)" using True by (simp add: goto_def)
    then show ?thesis by (rule r_into_rtranclp)
  qed (use h3(1) in simp)
  have "step Access (goto t RUnl h3 s) t (goto t Reading h (goto t RUnl h3 s))" using h3(2) by (intro read_unlock) simp_all
  then have "step Access (goto t RUnl h3 s) t (goto t Reading h s)" by (simp add: goto_def)
  then show ?thesis using 1 2 3 by (meson converse_rtranclp_into_rtranclp rtranclp.rtrancl_into_rtrancl)
qed

lemma holder_moves:
  assumes i: "lock_inv n s" and t: "t \<in> holders s" and w: "at s t = RLockW \<longrightarrow> mx_writer (tbl s) = Unlocked"
  shows "\<exists>s'. step Access s t s' \<and> at s' t \<noteq> at s t"
proof -
  note d = lock_invD [OF i]
  have m: "mx_reader (tbl s) = Locked" using d(2) t by auto
  consider "at s t = RInc" | "at s t = RLockW" | "at s t = RUnl" | "at s t = EDec" | "at s t = EUnlW" | "at s t = EUnl"
    using t by (auto simp: in_threads)
  then show ?thesis
  proof cases
    case 1
    then show ?thesis using read_count [OF 1 refl] 1 by (intro exI conjI) (auto split: if_splits)
  next
    case 2
    then have "lock_writer (tbl s) = Some (tbl s\<lparr>mx_writer := Locked\<rparr>)" using w by (simp add: lock_Some)
    then show ?thesis using read_lock_writer [OF 2] 2 by (intro exI conjI) auto
  next
    case 3
    have "unlock_reader (tbl s) = Some (tbl s\<lparr>mx_reader := Unlocked\<rparr>)" using m by (simp add: lock_Some)
    then show ?thesis using read_unlock [OF 3] 3 by (intro exI conjI) auto
  next
    case 4
    then show ?thesis using end_count [OF 4 refl] 4 by (intro exI conjI) (auto split: if_splits)
  next
    case 5
    then have "t \<in> inside s" by (simp add: in_threads)
    then have "unlock_writer (tbl s) = Some (tbl s\<lparr>mx_writer := Unlocked\<rparr>)" using d(5) by (auto simp: lock_Some split: if_splits)
    then show ?thesis using end_unlock_writer [OF 5] 5 by (intro exI conjI) auto
  next
    case 6
    have "unlock_reader (tbl s) = Some (tbl s\<lparr>mx_reader := Unlocked\<rparr>)" using m by (simp add: lock_Some)
    then show ?thesis using end_unlock [OF 6] 6 by (intro exI conjI) auto
  qed
qed

lemma writer_moves:
  assumes i: "lock_inv n s" and t: "at s t = Writing"
  shows "\<exists>s'. step Access s t s' \<and> at s' t \<noteq> at s t"
proof -
  have "t \<in> writers s" using t by (simp add: in_threads)
  then have "end_write (tbl s) = Some (tbl s\<lparr>mx_writer := Unlocked\<rparr>)"
    using lock_invD(5) [OF i] by (auto simp: lock_Some split: if_splits)
  then show ?thesis using write_unlock [OF t] t by (intro exI conjI) auto
qed


section \<open>Clearing and fatal errors\<close>

text \<open>
  The first statement of \<^verbatim>\<open>zend_ts_hash_clean\<close> and a fatal error break the invariant. What is left of it is the part on the readers' mutex, and
  that the table is then either waiting for the first reader to lock the writers' mutex, with a count of 0, or jammed: the writers' mutex is
  locked, nobody writes, and no reader will ever bring the count down to 0.
\<close>

definition mx_inv :: "nat \<Rightarrow> 'v system \<Rightarrow> bool" where
  "mx_inv n s \<longleftrightarrow> threads (- {Idle}) s \<subseteq> {..<n} \<and>
     mx_reader (tbl s) = (if holders s = {} then Unlocked else Locked) \<and> (\<forall>t\<in>holders s. holders s = {t})"

definition waiting :: "nat \<Rightarrow> 'v system \<Rightarrow> bool" where
  "waiting n s \<longleftrightarrow> mx_inv n s \<and> reader (tbl s) = 0 \<and> inside s = {} \<and> (\<exists>t. at s t = RLockW \<and> counted s = {t}) \<and>
     mx_writer (tbl s) = (if writers s = {} then Unlocked else Locked) \<and> (\<forall>t\<in>writers s. writers s = {t})"

text \<open>The count \<open>c\<close> of a jammed table: not positive, after a reset; 1, with a reader that waits and holds the readers' mutex; more than the readers there are, after a fatal error.\<close>

definition jam_count :: "nat \<Rightarrow> 'v system \<Rightarrow> int \<Rightarrow> bool" where
  "jam_count n s c \<longleftrightarrow> c \<le> 0 \<and> int (card (counted s)) - int n \<le> c \<or> c = 1 \<and> (\<exists>t. at s t = RLockW) \<or> int (card (counted s)) < c \<and> c < 2 ^ 32"

definition jammed :: "nat \<Rightarrow> 'v system \<Rightarrow> bool" where
  "jammed n s \<longleftrightarrow> mx_inv n s \<and> mx_writer (tbl s) = Locked \<and> writers s = {} \<and> (\<forall>t. at s t \<noteq> EUnlW) \<and>
     (\<exists>c. reader (tbl s) = word_of_int c \<and> jam_count n s c)"

lemma inv_mx: "lock_inv n s \<Longrightarrow> mx_inv n s"
  by (simp add: lock_inv_def mx_inv_def)

lemma step_goto:
  assumes "step e s t s'"
  obtains l h where "s' = goto t l h s"
    "at s t \<notin> holding \<and> l \<in> holding \<and> mx_reader (tbl s) = Unlocked \<and> mx_reader h = Locked \<or>
     at s t \<in> holding \<and> l \<notin> holding \<and> mx_reader h = Unlocked \<or>
     (at s t \<in> holding \<longleftrightarrow> l \<in> holding) \<and> mx_reader h = mx_reader (tbl s)"
  using assms by cases (rule that, assumption, auto simp: lock_Some clean_reset_def split: if_splits)+

lemma mx_step:
  assumes "step e s t s'" "mx_inv n s" "t < n"
  shows "mx_inv n s'"
proof (rule step_goto [OF assms(1)])
  fix l h
  assume s': "s' = goto t l h s"
  assume "at s t \<notin> holding \<and> l \<in> holding \<and> mx_reader (tbl s) = Unlocked \<and> mx_reader h = Locked \<or>
     at s t \<in> holding \<and> l \<notin> holding \<and> mx_reader h = Unlocked \<or>
     (at s t \<in> holding \<longleftrightarrow> l \<in> holding) \<and> mx_reader h = mx_reader (tbl s)" (is "?a \<or> ?b \<or> ?c")
  then consider ?a | ?b | ?c by blast
  moreover have i: "mx_reader (tbl s) = (if holders s = {} then Unlocked else Locked)" "\<forall>t\<in>holders s. holders s = {t}"
    and w: "threads (- {Idle}) s' \<subseteq> {..<n}"
    using assms(2,3) by (auto simp: mx_inv_def s' threads_goto)
  ultimately show ?thesis
  proof cases
    case 1
    then have "holders s = {}" using i(1) by (auto split: if_splits)
    then have "holders s' = {t}" using 1 by (simp only: s' threads_goto if_True)
    then show ?thesis using 1 w by (simp add: mx_inv_def s')
  next
    case 2
    then have "holders s = {t}" using i(2) by (simp only: in_threads)
    then have "holders s' = {}" using 2 by (simp only: s' threads_goto if_False) simp
    then show ?thesis using 2 w by (simp add: mx_inv_def s')
  next
    case 3
    then have "holders s' = holders s" unfolding s' by (intro threads_same) blast
    then show ?thesis using 3 w i by (simp add: mx_inv_def s')
  qed
qed

lemma mx_counted:
  assumes "mx_inv n s"
  shows "finite (counted s)" "card (counted s) \<le> n" "at s t = RInc \<Longrightarrow> card (counted s) < n"
proof -
  have i: "threads (- {Idle}) s \<subseteq> {..<n}" using assms by (simp add: mx_inv_def)
  moreover have "counted s \<subseteq> threads (- {Idle}) s" by (rule threads_mono) simp
  ultimately have c: "counted s \<subseteq> {..<n}" by (rule order_trans [rotated])
  then show "finite (counted s)" "card (counted s) \<le> n"
    using card_mono [of "{..<n}" "counted s"] finite_subset by auto
  assume a: "at s t = RInc"
  then have "t \<in> threads (- {Idle}) s" "t \<notin> counted s" by (simp_all add: in_threads)
  then have "counted s \<subset> {..<n}" using c i by blast
  then show "card (counted s) < n" using psubset_card_mono [of "{..<n}"] by simp
qed

lemma counted_goto:
  assumes "finite (counted s)"
  shows "at s t \<notin> counting \<Longrightarrow> l \<in> counting \<Longrightarrow> card (counted (goto t l h s)) = card (counted s) + 1"
    and "at s t \<in> counting \<Longrightarrow> l \<notin> counting \<Longrightarrow> card (counted (goto t l h s)) + 1 = card (counted s)"
proof -
  note [simp del] = insert_iff
  show "card (counted (goto t l h s)) = card (counted s) + 1" if "at s t \<notin> counting" "l \<in> counting"
    using that assms(1) by (simp add: threads_goto in_threads)
  show "card (counted (goto t l h s)) + 1 = card (counted s)" if "at s t \<in> counting" "l \<notin> counting"
    using that card_Suc_Diff1 [OF assms(1), of t] by (simp add: threads_goto in_threads)
qed

lemma word_nonzero:
  assumes "- (2 ^ 32) < c" "c < 2 ^ 32" "c \<noteq> 0"
  shows "(word_of_int c :: 32 word) \<noteq> 0"
proof
  assume "(word_of_int c :: 32 word) = 0"
  then have "(2 ^ 32 :: int) dvd c" by (simp add: word_of_int_eq_0_iff)
  then show False using zdvd_imp_le [of "2 ^ 32" c] zdvd_imp_le [of "2 ^ 32" "- c"] assms by auto
qed

lemma jammedE:
  assumes "jammed n s"
  obtains c where "reader (tbl s) = word_of_int c" "jam_count n s c" "mx_inv n s" "mx_writer (tbl s) = Locked" "writers s = {}"
    "\<forall>t. at s t \<noteq> EUnlW"
  using assms by (auto simp: jammed_def)

text \<open>A move that leaves the count and the writers' mutex, and does not add a reader.\<close>

lemma jam_keep:
  assumes "jammed n s" "mx_inv n (goto t l h s)" "mx_writer h = mx_writer (tbl s)" "reader h = reader (tbl s)"
    and "l \<noteq> Writing" "l \<noteq> EUnlW" "at s t \<noteq> RLockW" "l \<in> counting \<Longrightarrow> at s t \<in> counting"
  shows "jammed n (goto t l h s)"
proof (rule jammedE [OF assms(1)])
  fix c
  assume j: "reader (tbl s) = word_of_int c" "jam_count n s c" "mx_inv n s" "mx_writer (tbl s) = Locked" "writers s = {}" "\<forall>t. at s t \<noteq> EUnlW"
  have "counted (goto t l h s) \<subseteq> counted s" using assms(8) by (rule threads_sub)
  then have k: "card (counted (goto t l h s)) \<le> card (counted s)" using mx_counted(1) [OF j(3)] by (rule card_mono [rotated])
  have r: "\<exists>u. at (goto t l h s) u = RLockW" if "at s v = RLockW" for v
    using that assms(7) by (intro exI [of _ v]) auto
  have "jam_count n (goto t l h s) c" using j(2) k r unfolding jam_count_def by fastforce
  then show ?thesis using assms(2-6) j(1,4-6) by (auto simp: jammed_def threads_del)
qed

lemma jam_move:
  assumes "jammed n s" "mx_inv n (goto t l h s)" "mx_writer h = Locked" "reader h = word_of_int c" "jam_count n (goto t l h s) c"
    and "l \<noteq> Writing" "l \<noteq> EUnlW"
  shows "jammed n (goto t l h s)"
  using assms by (auto simp: jammed_def threads_del)

lemma jam_read_count:
  assumes j: "jammed n s" and m: "mx_inv n (goto t l h s)" and t: "at s t = RInc" "h = tbl s\<lparr>reader := reader (tbl s) + 1\<rparr>"
    and l: "l = (if reader h = 1 then RLockW else RUnl)"
  shows "jammed n (goto t l h s)"
proof (rule jammedE [OF j])
  fix c
  assume c: "reader (tbl s) = word_of_int c" "jam_count n s c" "mx_inv n s" "mx_writer (tbl s) = Locked"
  have k: "card (counted (goto t l h s)) = card (counted s) + 1" "card (counted s) < n"
    using counted_goto(1) [OF mx_counted(1) [OF c(3)]] mx_counted(3) [OF c(3)] t(1) l by auto
  have nw: "at s u \<noteq> RLockW" for u
  proof
    assume "at s u = RLockW"
    then have "t \<in> holders s" "u \<in> holders s" "u \<noteq> t" using t(1) by (auto simp: in_threads)
    then show False using c(3) by (auto simp: mx_inv_def)
  qed
  have r: "reader h = word_of_int (c + 1)" using c(1) t(2) by simp
  have o: "l \<noteq> Writing" "l \<noteq> EUnlW" "mx_writer h = Locked" using l t(2) c(4) by auto
  consider "c < 0" "int (card (counted s)) - int n \<le> c" | "c = 0" | "int (card (counted s)) < c" "c + 1 < 2 ^ 32" | "c + 1 = 2 ^ 32"
    using c(2) nw unfolding jam_count_def by fastforce
  then show ?thesis
  proof cases
    case 1
    then have "jam_count n (goto t l h s) (c + 1)" using k by (simp add: jam_count_def)
    then show ?thesis using jam_move [OF j m] r o by blast
  next
    case 2
    then have "at (goto t l h s) t = RLockW" using r l by simp
    then have "jam_count n (goto t l h s) (c + 1)" using 2 by (auto simp: jam_count_def)
    then show ?thesis using jam_move [OF j m] r o by blast
  next
    case 3
    then have "jam_count n (goto t l h s) (c + 1)" using k by (simp add: jam_count_def)
    then show ?thesis using jam_move [OF j m] r o by blast
  next
    case 4
    then have "reader h = word_of_int 0" using r by simp
    moreover have "jam_count n (goto t l h s) 0" using k by (simp add: jam_count_def)
    ultimately show ?thesis using jam_move [OF j m] o by blast
  qed
qed

lemma jam_end_count:
  assumes j: "jammed n s" and m: "mx_inv n (goto t l h s)" and n: "n < 2 ^ 31" and t: "at s t = EDec" "h = tbl s\<lparr>reader := reader (tbl s) - 1\<rparr>"
    and l: "l = (if reader h = 0 then EUnlW else EUnl)"
  shows "jammed n (goto t l h s)"
proof (rule jammedE [OF j])
  fix c
  assume c: "reader (tbl s) = word_of_int c" "jam_count n s c" "mx_inv n s" "mx_writer (tbl s) = Locked"
  have k: "card (counted (goto t l h s)) + 1 = card (counted s)"
    using counted_goto(2) [OF mx_counted(1) [OF c(3)]] t(1) l by auto
  have nw: "at s u \<noteq> RLockW" for u
  proof
    assume "at s u = RLockW"
    then have "t \<in> holders s" "u \<in> holders s" "u \<noteq> t" using t(1) by (auto simp: in_threads)
    then show False using c(3) by (auto simp: mx_inv_def)
  qed
  have r: "reader h = word_of_int (c - 1)" using c(1) t(2) by simp
  have c': "jam_count n (goto t l h s) (c - 1)" "- (2 ^ 32) < c - 1" "c - 1 < 2 ^ 32" "c - 1 \<noteq> 0"
    using c(2) nw k n unfolding jam_count_def by auto
  then have "reader h \<noteq> 0" using word_nonzero r by metis
  then show ?thesis using jam_move [OF j m _ r c'(1)] l t(2) c(4) by simp
qed

lemma jam_step:
  assumes st: "step e s t s'" and j: "jammed n s" and t: "t < n" and n: "n < 2 ^ 31"
  shows "jammed n s'"
proof -
  have m: "mx_inv n s'" using mx_step [OF st _ t] j by (auto simp: jammed_def)
  have w: "mx_writer (tbl s) = Locked" "at s t \<noteq> Writing" "at s t \<noteq> EUnlW" and i: "mx_inv n s" using j by (auto simp: jammed_def threads_def)
  show ?thesis using st
  proof cases
    case (read_count h)
    then show ?thesis using jam_read_count [OF j] m by blast
  next
    case (end_count h)
    then show ?thesis using jam_end_count [OF j _ n] m by blast
  next
    case clean
    have "jam_count n s' 0" using mx_counted(2) [OF m] by (simp add: jam_count_def)
    then show ?thesis using clean m w(1) jam_move [OF j, of t Cleaning "clean_reset (tbl s)" 0] by (simp add: clean_reset_def)
  qed (use m w in \<open>auto simp: lock_Some intro: jam_keep [OF j]\<close>)
qed

text \<open>A counted reader either has the writers' mutex or waits for it, and then it is the only one.\<close>

lemma counted_inside: "u \<in> counted s \<Longrightarrow> at s u \<noteq> RLockW \<Longrightarrow> u \<in> inside s"
  by (auto simp: in_threads)

lemma waits_alone:
  assumes i: "lock_inv n s" and t: "at s t = RLockW"
  shows "inside s = {}"
proof (rule ccontr)
  assume "inside s \<noteq> {}"
  then obtain v where v: "v \<in> inside s" by blast
  have c: "counted s = {t}" "t \<in> holders s" using lock_invD(7) [OF i] t by (simp_all add: in_threads)
  have "v \<noteq> t" using v t by (auto simp: in_threads)
  then have "v \<notin> holders s" using holder_unique [OF i c(2)] by blast
  then have "v \<in> counted s" using v by (auto simp: in_threads)
  then show False using c(1) \<open>v \<noteq> t\<close> by simp
qed

lemma inside_locked:
  assumes i: "lock_inv n s" and u: "u \<in> inside s" "u \<in> counted s"
  shows "mx_writer (tbl s) = Locked" "writers s = {}" "at s v \<noteq> EUnlW"
  using lock_invD(5,6,8) [OF i] u by (auto split: if_splits)

lemma inv_reset:
  assumes i: "lock_inv n s" and t: "t < n" "at s t = Idle"
  defines "s' \<equiv> goto t Cleaning (clean_reset (tbl s)) s"
  shows "lock_inv n s' \<or> waiting n s' \<or> jammed n s'" "at s u = Reading \<Longrightarrow> jammed n s'"
proof -
  note d = lock_invD [OF i]
  have same: "holders s' = holders s" "counted s' = counted s" "inside s' = inside s" "writers s' = writers s"
    unfolding s'_def by (rule threads_same, simp add: t(2))+
  have at': "at s' v = RLockW \<longleftrightarrow> at s v = RLockW" "at s' v = EUnlW \<longleftrightarrow> at s v = EUnlW" for v using t(2) by (auto simp: s'_def)
  have m: "mx_inv n s'" using mx_step [OF clean [OF t(2)] inv_mx [OF i] t(1)] by (simp add: s'_def)
  have tb: "reader (tbl s') = 0" "mx_writer (tbl s') = mx_writer (tbl s)" "mx_reader (tbl s') = mx_reader (tbl s)"
    by (simp_all add: s'_def clean_reset_def)
  have jam: "jammed n s'" if u: "u \<in> counted s" "u \<in> inside s" for u
  proof -
    have "jam_count n s' 0" using mx_counted(2) [OF m] by (simp add: jam_count_def)
    then show ?thesis unfolding jammed_def same at' tb using m inside_locked [OF i u(2,1)]
      by (intro conjI exI [of _ 0]) simp_all
  qed
  show "at s u = Reading \<Longrightarrow> jammed n s'" by (rule jam [of u]) (simp_all add: in_threads)
  consider v where "at s v = RLockW" | u where "u \<in> counted s" "u \<in> inside s" | "counted s = {}" using counted_inside [of _ s] by blast
  then show "lock_inv n s' \<or> waiting n s' \<or> jammed n s'"
  proof cases
    case (1 v)
    then have c: "counted s = {v}" "inside s = {}" using d(7) waits_alone [OF i 1] by auto
    have "waiting n s'" unfolding waiting_def same at' tb
      using m c 1 d(5,6) by (intro conjI exI [of _ v]) simp_all
    then show ?thesis by blast
  next
    case 3
    have w: "threads (- {Idle}) s' \<subseteq> {..<n}" using m by (simp add: mx_inv_def)
    have "lock_inv n s'" by (rule lock_invI [OF w]; unfold same at' tb) (use d 3 in simp_all)
    then show ?thesis by blast
  qed (use jam in blast)
qed

lemma inv_bail:
  assumes i: "lock_inv n s" and t: "t < n" "at s t = Reading \<or> at s t = Writing" and n: "n < 2 ^ 31"
  shows "jammed n (goto t Idle (tbl s) s)" (is "jammed n ?s")
proof -
  note d = lock_invD [OF i]
  have m: "mx_inv n ?s" using mx_step [OF bail [OF t(2)] inv_mx [OF i] t(1)] .
  note f = mx_counted [OF inv_mx [OF i]]
  from t(2) show ?thesis
  proof
    assume a: "at s t = Reading"
    then have c: "t \<in> counted s" "t \<in> inside s" by (simp_all add: in_threads)
    have "card (counted ?s) + 1 = card (counted s)" using counted_goto(2) [OF f(1)] a by simp
    then have "jam_count n ?s (int (card (counted s)))" using f(2) n by (simp add: jam_count_def)
    then show ?thesis unfolding jammed_def using m inside_locked [OF i c(2,1)] d(4)
      by (intro conjI exI [of _ "int (card (counted s))"]) (auto simp: threads_del)
  next
    assume a: "at s t = Writing"
    then have w: "writers s = {t}" "inside s = {}" using d(6) by (simp_all add: in_threads)
    have same: "counted ?s = counted s" by (rule threads_same) (simp add: a)
    have o: "mx_writer (tbl s) = Locked" "at s v \<noteq> EUnlW" for v
    proof -
      show "mx_writer (tbl s) = Locked" using d(5) w(1) by simp
      show "at s v \<noteq> EUnlW" using w(2) by (auto simp: threads_def)
    qed
    have "jam_count n ?s (int (card (counted s)))"
    proof (cases "counted s = {}")
      case False
      then obtain u where u: "u \<in> counted s" by blast
      then have r: "at s u = RLockW" using counted_inside w(2) by blast
      then have c: "counted s = {u}" and l: "at ?s u = RLockW" using d(7) a by auto
      show ?thesis unfolding jam_count_def by (intro disjI2 disjI1 conjI exI, simp add: c, rule l)
    qed (simp add: jam_count_def same)
    then show ?thesis unfolding jammed_def using m o w(1) d(4)
      by (intro conjI exI [of _ "int (card (counted s))"]) (auto simp: threads_del)
  qed
qed

lemma waiting_move:
  assumes w: "waiting n s" and m: "mx_inv n (goto t l h s)" and t: "at s t \<in> {Idle, Cleaning, Writing}" "l \<in> {Idle, Cleaning, Writing}"
    and h: "reader h = 0" "mx_writer h = (if writers (goto t l h s) = {} then Unlocked else Locked)"
      "\<forall>u\<in>writers (goto t l h s). writers (goto t l h s) = {u}"
  shows "waiting n (goto t l h s)"
proof -
  obtain v where v: "at s v = RLockW" "counted s = {v}" "inside s = {}" using w by (auto simp: waiting_def)
  have "inside (goto t l h s) = inside s" "counted (goto t l h s) = counted s" by (rule threads_same; use t in auto)+
  moreover have "at (goto t l h s) v = RLockW" using v(1) t(1) by auto
  ultimately show ?thesis unfolding waiting_def using m h v by (intro conjI exI [of _ v]) simp_all
qed

lemma waiting_step:
  assumes st: "step e s t s'" and w: "waiting n s" and t: "t < n"
  shows "waiting n s' \<or> jammed n s'"
proof -
  obtain v where v: "at s v = RLockW" "counted s = {v}" and r: "reader (tbl s) = 0" and ins: "inside s = {}" and i: "mx_inv n s"
    and mw: "mx_writer (tbl s) = (if writers s = {} then Unlocked else Locked)" and ws: "\<forall>t\<in>writers s. writers s = {t}"
    using w by (auto simp: waiting_def)
  have m: "mx_inv n s'" by (rule mx_step [OF st i t])
  have hv: "holders s = {v}" "mx_reader (tbl s) = Locked" using i v(1) by (auto simp: mx_inv_def in_threads)
  have pc: "at s t = RLockW \<or> at s t \<in> {Idle, Cleaning, Writing}"
  proof -
    have "t \<in> holders s \<Longrightarrow> t = v" "t \<in> counted s \<Longrightarrow> t = v" using hv v by blast+
    then show ?thesis using v(1) by (cases "at s t") (auto simp: in_threads)
  qed
  have nE: "at s u \<noteq> EUnlW" for u using ins by (auto simp: threads_def)
  show ?thesis using st
  proof cases
    case (read_lock_writer h)
    have ws': "writers s = {}" "h = tbl s\<lparr>mx_writer := Locked\<rparr>" using read_lock_writer mw by (auto simp: lock_Some split: if_splits)
    have "jam_count n s' 0" using mx_counted(2) [OF m] by (simp add: jam_count_def)
    then have "jammed n s'" unfolding jammed_def using m ws' nE r read_lock_writer(2)
      by (intro conjI exI [of _ 0]) (auto simp: threads_del)
    then show ?thesis by blast
  next
    case bail
    then have a: "at s t = Writing" using pc by auto
    then have ws': "writers s = {t}" using ws by (simp add: in_threads)
    have "jam_count n s' 0" using mx_counted(2) [OF m] by (simp add: jam_count_def)
    then have "jammed n s'" unfolding jammed_def using m ws' mw nE r bail(2)
      by (intro conjI exI [of _ 0]) (auto simp: threads_del)
    then show ?thesis by blast
  next
    case (write_lock h)
    have ws': "writers s = {}" "h = tbl s\<lparr>mx_writer := Locked\<rparr>" using write_lock mw by (auto simp: lock_Some split: if_splits)
    have "waiting n s'" unfolding write_lock(2)
      by (rule waiting_move [OF w]) (use m write_lock ws' r in \<open>auto simp: threads_add\<close>)
    then show ?thesis by blast
  next
    case (write_table h')
    then have ws': "writers s = {t}" using ws by (simp add: in_threads)
    have "waiting n s'" unfolding write_table(2)
      by (rule waiting_move [OF w]) (use m write_table ws' mw r in \<open>auto simp: threads_add\<close>)
    then show ?thesis by blast
  next
    case (write_unlock h)
    then have ws': "writers s = {t}" "h = tbl s\<lparr>mx_writer := Unlocked\<rparr>" using ws by (auto simp: in_threads lock_Some)
    have "waiting n s'" unfolding write_unlock(2)
      by (rule waiting_move [OF w]) (use m write_unlock ws' r in \<open>auto simp: threads_del\<close>)
    then show ?thesis by blast
  next
    case clean
    have same: "writers s' = writers s" unfolding clean(2) by (rule threads_same) (simp add: clean(3))
    have "waiting n s'" unfolding clean(2)
      by (rule waiting_move [OF w]) (use m clean same mw ws in \<open>auto simp: clean_reset_def\<close>)
    then show ?thesis by blast
  qed (use pc hv(2) in \<open>auto simp: lock_Some\<close>)
qed

text \<open>However the functions are used, the lock is in one of the three conditions.\<close>

lemma reachable_modes:
  assumes "reachable E n s" "n < 2 ^ 31"
  shows "lock_inv n s \<or> waiting n s \<or> jammed n s"
  using assms(1)
proof induction
  case (start ht)
  then show ?case using start_inv by blast
next
  case (go s t e s')
  have n: "n < 2 ^ 32" using assms(2) by simp
  from go(5) show ?case
  proof (elim disjE)
    assume i: "lock_inv n s"
    show ?thesis
    proof (cases e)
      case Reset
      then show ?thesis using go(4) inv_reset(1) [OF i go(2)] by (auto elim: step.cases)
    next
      case Bail
      then show ?thesis using go(4) inv_bail [OF i go(2) _ assms(2)] by (auto elim: step.cases)
    qed (use step_inv [OF go(4) _ i go(2) n] in auto)
  qed (use waiting_step [OF go(4) _ go(2)] jam_step [OF go(4) _ go(2) assms(2)] in blast)+
qed

lemma modes_exclusive:
  assumes "lock_inv n s \<or> waiting n s \<or> jammed n s" "t \<in> writers s"
  shows "writers s = {t}" "inside s = {}"
  using assms by (auto simp: waiting_def jammed_def dest: lock_invD(6))


section \<open>Properties\<close>

definition sample_ts :: "nat TsHashTable" where
  "sample_ts = \<lparr>hash = sample_ht, reader = 0, mx_reader = Unlocked, mx_writer = Unlocked\<rparr>"

lemma sample_ts_quiet: "quiet sample_ts"
  by (simp add: quiet_def sample_ts_def)

definition sample_reading :: "nat system" where
  "sample_reading = goto 0 Reading (sample_ts\<lparr>reader := 1, mx_writer := Locked\<rparr>) \<lparr>tbl = sample_ts, at = (\<lambda>_. Idle)\<rparr>"

lemma sample_reading:
  assumes "Access \<in> E"
  shows "reachable E 2 sample_reading" "at sample_reading 0 = Reading" "at sample_reading 1 = Idle"
proof -
  define s0 :: "nat system" where "s0 = \<lparr>tbl = sample_ts, at = (\<lambda>_. Idle)\<rparr>"
  have r0: "reachable E 2 s0" unfolding s0_def by (rule start [OF sample_ts_quiet])
  have "(\<lambda>s s'. step Access s 0 s')\<^sup>*\<^sup>* s0 sample_reading"
    unfolding sample_reading_def s0_def by (rule begin_read_steps) (simp_all add: sample_ts_quiet)
  then show "reachable E 2 sample_reading"
    by (induction rule: rtranclp_induct) (use r0 assms go [of E 2 _ 0 Access] in auto)
qed (simp_all add: sample_reading_def)

text \<open>
  C31: mutual exclusion. However the steps of fewer than \<open>2 ^ 31\<close> threads interleave, the first statement of \<^verbatim>\<open>zend_ts_hash_clean\<close>, the counters
  that \<^verbatim>\<open>zend_ts_hash_compare\<close> writes and fatal errors that keep the lock included, a writer is never together with another writer
  or a reader; and a step that changes anything of the table but its nesting counter \<^verbatim>\<open>nApplyCount\<close> is the step of a writer that is alone inside. The nesting
  counter is the exception: readers that compare tables write it, and several may do so at once.
\<close>

theorem ts_hash_exclusion:
  assumes "reachable UNIV n s" "n < 2 ^ 31"
  shows "(\<forall>t u. at s t = Writing \<longrightarrow> at s u = Writing \<or> at s u = Reading \<longrightarrow> u = t) \<and>
    (\<forall>e t s' c. step e s t s' \<longrightarrow> (hash (tbl s'))\<lparr>nApplyCount := c\<rparr> \<noteq> (hash (tbl s))\<lparr>nApplyCount := c\<rparr> \<longrightarrow>
      at s t = Writing \<and> (\<forall>u. u \<noteq> t \<longrightarrow> at s u \<noteq> Reading \<and> at s u \<noteq> Writing))"
proof -
  note x = modes_exclusive [OF reachable_modes [OF assms]]
  have m: "u = t" if "at s t = Writing" "at s u = Writing \<or> at s u = Reading" for t u
  proof -
    have "writers s = {t}" "inside s = {}" using x that(1) by (simp_all add: in_threads)
    then show ?thesis using that(2) by (auto simp: threads_def)
  qed
  have "at s t = Writing" if "step e s t s'" "(hash (tbl s'))\<lparr>nApplyCount := c\<rparr> \<noteq> (hash (tbl s))\<lparr>nApplyCount := c\<rparr>" for e t s' c
    using that by cases (auto simp: lock_Some clean_reset_def)
  then show ?thesis using m by metis
qed

theorem ts_hash_exclusion_witness: "\<forall>u. at sample_reading u \<noteq> Writing"
  using ts_hash_exclusion [OF sample_reading(1) [OF UNIV_I]] sample_reading(2) [OF UNIV_I] by fastforce

text \<open>
  C32: the lock of one table does not deadlock while the functions lock, unlock and work on the table, without \<^verbatim>\<open>zend_ts_hash_clean\<close> and without
  fatal errors. In every state that fewer than \<open>2 ^ 32\<close> threads reach so, if some thread is inside one of the functions, some
  thread inside can take a step that brings it on; a thread waits for the writers' mutex only while a writer is
  writing, and the writer can always finish. (A function that holds the locks of two tables may still wait for the other one.)
\<close>

theorem ts_hash_no_deadlock:
  assumes "reachable {Access, Table, Compare} n s" "n < 2 ^ 32" "at s u \<noteq> Idle"
  shows "\<exists>t s'. at s t \<noteq> Idle \<and> step Access s t s' \<and> at s' t \<noteq> at s t"
proof (cases "holders s = {}")
  case True
  note i = reachable_inv [OF assms(1,2)]
  have m: "lock_reader (tbl s) = Some (tbl s\<lparr>mx_reader := Locked\<rparr>)" using lock_invD(2) [OF i] True by (simp add: lock_Some)
  have "at s u = Reading \<or> at s u = Writing" using True assms(3) never_cleaning [OF assms(1), of u] by (cases "at s u") (auto simp: threads_def)
  then show ?thesis
  proof
    assume r: "at s u = Reading"
    show ?thesis using end_lock [OF r m] r by (intro exI conjI) auto
  next
    assume w: "at s u = Writing"
    then show ?thesis using writer_moves [OF i w] by (metis pc.distinct(17))
  qed
next
  case False
  note i = reachable_inv [OF assms(1,2)]
  obtain t where t: "t \<in> holders s" using False by blast
  show ?thesis
  proof (cases "at s t = RLockW \<and> mx_writer (tbl s) \<noteq> Unlocked")
    case True
    then obtain w where w: "at s w = Writing"
      using lock_invD(5) [OF i] waits_alone [OF i] by (auto simp: threads_def split: if_splits)
    then show ?thesis using writer_moves [OF i w] by (metis pc.distinct(17))
  next
    case False
    then have "\<exists>s'. step Access s t s' \<and> at s' t \<noteq> at s t" by (intro holder_moves [OF i t]) auto
    moreover have "at s t \<noteq> Idle" using t by (auto simp: in_threads)
    ultimately show ?thesis by blast
  qed
qed

theorem ts_hash_no_deadlock_witness:
  "\<exists>t s'. at sample_reading t \<noteq> Idle \<and> step Access sample_reading t s' \<and> at s' t \<noteq> at sample_reading t"
  using ts_hash_no_deadlock [OF sample_reading(1), of 0] sample_reading(2) [OF UNIV_I] by simp



end
