(* ===== verification/Zend_Gc_Graph.thy ===== *)
theory Zend_Gc_Graph
  imports Zend_Prelude
begin

text \<open>
  Reference counting on a graph, the algorithm behind the cycle collector (\<^verbatim>\<open>zend_gc.c\<close>), without the memory it runs on.

  A node is a zval or an object; \<open>sc n\<close> lists the nodes that \<open>n\<close> refers to, with repetitions; the array of global
  variables is a node that the collector leaves out (\<open>glb\<close>). A marking gives every node a colour and a
  count, a machine word. The collector floods the graph twice, with grey and a decrement of the counts, and, from the
  nodes whose count has not become 0, with black and an increment; what stays white is garbage.
\<close>

datatype gc_color = GC_BLACK | GC_WHITE | GC_GREY | GC_PURPLE

datatype node = Val ptr | Obj uint

type_synonym marking = "(node \<Rightarrow> gc_color) \<times> (node \<Rightarrow> uint)"

section \<open>Flooding\<close>

definition recount :: "(node \<Rightarrow> bool) \<Rightarrow> uint \<Rightarrow> node \<Rightarrow> (node \<Rightarrow> uint) \<Rightarrow> (node \<Rightarrow> uint)" where
  "recount glb d n r = (if glb n then r else r(n := r n + d))"

text \<open>Visiting a node gives it the colour \<open>K\<close> and visits its successors, whose counts change by \<open>d\<close>, in turn.\<close>

inductive flood_node :: "(node \<Rightarrow> node list) \<Rightarrow> (node \<Rightarrow> bool) \<Rightarrow> gc_color \<Rightarrow> uint \<Rightarrow> marking \<Rightarrow> node \<Rightarrow> marking \<Rightarrow> bool"
  and flood_list :: "(node \<Rightarrow> node list) \<Rightarrow> (node \<Rightarrow> bool) \<Rightarrow> gc_color \<Rightarrow> uint \<Rightarrow> marking \<Rightarrow> node list \<Rightarrow> marking \<Rightarrow> bool"
  for sc glb K d where
  flood_seen: "c n = K \<Longrightarrow> flood_node sc glb K d (c, r) n (c, r)"
| flood_sym: "c n \<noteq> K \<Longrightarrow> glb n \<Longrightarrow> flood_node sc glb K d (c, r) n (c(n := GC_BLACK), r)"
| flood_new: "c n \<noteq> K \<Longrightarrow> \<not> glb n \<Longrightarrow> flood_list sc glb K d (c(n := K), r) (sc n) s \<Longrightarrow> flood_node sc glb K d (c, r) n s"
| flood_nil: "flood_list sc glb K d s [] s"
| flood_cons: "flood_node sc glb K d (c, recount glb d n r) n s1 \<Longrightarrow> flood_list sc glb K d s1 ns s2 \<Longrightarrow> flood_list sc glb K d (c, r) (n # ns) s2"

text \<open>The nodes of a colour, and how many references from a set of nodes a node has.\<close>

definition painted :: "(node \<Rightarrow> bool) \<Rightarrow> gc_color \<Rightarrow> (node \<Rightarrow> gc_color) \<Rightarrow> node set" where
  "painted glb K c = {n. c n = K \<and> \<not> glb n}"

definition refs :: "(node \<Rightarrow> node list) \<Rightarrow> node set \<Rightarrow> node \<Rightarrow> nat" where
  "refs sc A n = (\<Sum>a\<in>A. count_list (sc a) n)"

definition edges :: "(node \<Rightarrow> node list) \<Rightarrow> (node \<times> node) set" where
  "edges sc = {(a, b). b \<in> set (sc a)}"

lemma refs_empty [simp]: "refs sc {} n = 0"
  by (simp add: refs_def)

lemma refs_insert [simp]: "finite A \<Longrightarrow> a \<notin> A \<Longrightarrow> refs sc (insert a A) n = count_list (sc a) n + refs sc A n"
  by (simp add: refs_def)

lemma refs_Un: "finite A \<Longrightarrow> finite B \<Longrightarrow> A \<inter> B = {} \<Longrightarrow> refs sc (A \<union> B) n = refs sc A n + refs sc B n"
  by (simp add: refs_def sum.union_disjoint)

lemma refs_0: "finite A \<Longrightarrow> refs sc A n = 0 \<longleftrightarrow> (\<forall>a\<in>A. n \<notin> set (sc a))"
  by (simp add: refs_def count_list_0_iff)

text \<open>
  What a flood does to a marking: the nodes \<open>N\<close> are painted in addition, all of them reachable from the start;
  every successor of a new one is painted; the counts have changed by the references from the new ones and
  by the references \<open>given\<close> at the start.
\<close>

definition flooded ::
  "(node \<Rightarrow> node list) \<Rightarrow> (node \<Rightarrow> bool) \<Rightarrow> gc_color \<Rightarrow> uint \<Rightarrow> node set \<Rightarrow> node set \<Rightarrow> (node \<Rightarrow> nat) \<Rightarrow> node set \<Rightarrow>
   marking \<Rightarrow> marking \<Rightarrow> bool" where
  "flooded sc glb K d nodes from given N s s' \<longleftrightarrow>
     finite N \<and> N \<subseteq> nodes \<and> N \<inter> painted glb K (fst s) = {} \<and> painted glb K (fst s') = painted glb K (fst s) \<union> N \<and>
     N \<subseteq> (edges sc)\<^sup>* `` from \<and>
     (\<forall>n\<in>N. \<forall>m\<in>set (sc n). glb m \<or> fst s' m = K) \<and>
     (\<forall>n. n \<notin> N \<longrightarrow> \<not> glb n \<longrightarrow> fst s' n = fst s n) \<and>
     (\<forall>n. glb n \<longrightarrow> fst s' n = fst s n \<or> fst s' n = GC_BLACK) \<and>
     (\<forall>n. snd s' n = snd s n + (if glb n then 0 else d * of_nat (refs sc N n + given n)))"

lemma floodedD:
  assumes "flooded sc glb K d nodes from given N s s'"
  shows "finite N" "N \<subseteq> nodes" "N \<inter> painted glb K (fst s) = {}" "painted glb K (fst s') = painted glb K (fst s) \<union> N"
    "N \<subseteq> (edges sc)\<^sup>* `` from" "\<forall>n\<in>N. \<forall>m\<in>set (sc n). glb m \<or> fst s' m = K"
    "\<And>n. n \<notin> N \<Longrightarrow> \<not> glb n \<Longrightarrow> fst s' n = fst s n" "\<And>n. glb n \<Longrightarrow> fst s' n = fst s n \<or> fst s' n = GC_BLACK"
    "\<And>n. snd s' n = snd s n + (if glb n then 0 else d * of_nat (refs sc N n + given n))"
  using assms by (simp_all add: flooded_def)

lemma flooded_refl: "flooded sc glb K d nodes from (\<lambda>_. 0) {} s s"
  by (simp add: flooded_def)

lemma flooded_stays: "flooded sc glb K d nodes from given N s s' \<Longrightarrow> \<not> glb n \<Longrightarrow> fst s n = K \<Longrightarrow> fst s' n = K"
  unfolding flooded_def painted_def by blast

lemma flooded_trans:
  assumes a: "flooded sc glb K d nodes F g1 N1 s s1" and b: "flooded sc glb K d nodes F g2 N2 s1 s2"
  shows "flooded sc glb K d nodes F (\<lambda>n. g1 n + g2 n) (N1 \<union> N2) s s2"
proof -
  have dj: "N1 \<inter> N2 = {}" and fin: "finite N1" "finite N2" using a b by (auto simp: flooded_def)
  have "\<forall>n\<in>N1. \<forall>m\<in>set (sc n). glb m \<or> fst s2 m = K"
    using a flooded_stays [OF b] unfolding flooded_def by blast
  moreover have "snd s2 n = snd s n + (if glb n then 0 else d * of_nat (refs sc (N1 \<union> N2) n + (g1 n + g2 n)))" for n
    using a b by (simp add: flooded_def refs_Un [OF fin dj] algebra_simps)
  moreover have "fst s2 n = fst s n" if "n \<notin> N1 \<union> N2" "\<not> glb n" for n
    using a b that by (simp add: flooded_def)
  moreover have "fst s2 n = fst s n \<or> fst s2 n = GC_BLACK" if "glb n" for n
  proof -
    have "fst s1 n = fst s n \<or> fst s1 n = GC_BLACK" "fst s2 n = fst s1 n \<or> fst s2 n = GC_BLACK"
      using a b that by (simp_all add: flooded_def)
    then show ?thesis by auto
  qed
  moreover have "painted glb K (fst s2) = painted glb K (fst s) \<union> (N1 \<union> N2)" "(N1 \<union> N2) \<inter> painted glb K (fst s) = {}"
    using a b by (auto simp: flooded_def)
  moreover have "finite (N1 \<union> N2)" "N1 \<union> N2 \<subseteq> nodes" "N1 \<union> N2 \<subseteq> (edges sc)\<^sup>* `` F"
    using floodedD(1,2,5) [OF a] floodedD(1,2,5) [OF b] by simp_all
  moreover have "\<forall>n\<in>N2. \<forall>m\<in>set (sc n). glb m \<or> fst s2 m = K" using floodedD(6) [OF b] .
  ultimately show ?thesis unfolding flooded_def by (intro conjI ballI allI impI) auto
qed

lemma flooded_mono: "flooded sc glb K d nodes F g N s s' \<Longrightarrow> F \<subseteq> F' \<Longrightarrow> flooded sc glb K d nodes F' g N s s'"
  unfolding flooded_def by blast

lemma flooded_recount: "flooded sc glb K d nodes F g N (c, recount glb d n r) s \<Longrightarrow>
  flooded sc glb K d nodes F (\<lambda>m. (if m = n then 1 else 0) + g m) N (c, r) s"
  by (auto simp: flooded_def recount_def algebra_simps)

lemma flooded_new:
  assumes f: "flooded sc glb K d nodes (set (sc n)) (count_list (sc n)) N (c(n := K), r) s"
    and k: "\<forall>m\<in>set (sc n). glb m \<or> fst s m = K" and n: "c n \<noteq> K" "\<not> glb n" "n \<in> nodes"
  shows "flooded sc glb K d nodes {n} (\<lambda>_. 0) (insert n N) (c, r) s"
proof -
  have nN: "n \<notin> N" and fin: "finite N" using f n by (auto simp: flooded_def painted_def)
  have p: "painted glb K (c(n := K)) = insert n (painted glb K c)" using n by (auto simp: painted_def)
  have "(edges sc)\<^sup>* `` set (sc n) \<subseteq> (edges sc)\<^sup>* `` {n}"
    by (auto simp: edges_def intro: converse_rtrancl_into_rtrancl)
  then have "insert n N \<subseteq> (edges sc)\<^sup>* `` {n}" using floodedD(5) [OF f] by blast
  moreover have "fst s n = K" using flooded_stays [OF f n(2)] by simp
  moreover have "snd s m = r m + (if glb m then 0 else d * of_nat (refs sc (insert n N) m + 0))" for m
    using f by (simp add: flooded_def refs_insert [OF fin nN] algebra_simps)
  moreover have "m \<notin> insert n N \<longrightarrow> \<not> glb m \<longrightarrow> fst s m = c m" "glb m \<longrightarrow> fst s m = c m \<or> fst s m = GC_BLACK" for m
    using floodedD(7,8) [OF f, of m] n by auto
  moreover have "painted glb K (fst s) = painted glb K c \<union> insert n N" "insert n N \<inter> painted glb K c = {}"
    using f p n by (auto simp: flooded_def painted_def)
  moreover have "\<forall>m\<in>insert n N. \<forall>q\<in>set (sc m). glb q \<or> fst s q = K" using f k by (auto simp: flooded_def)
  moreover have "insert n N \<subseteq> nodes" "finite (insert n N)" using f n by (auto simp: flooded_def)
  ultimately show ?thesis unfolding flooded_def fst_conv snd_conv by (intro conjI allI) assumption+
qed

lemma flood_flooded:
  assumes closed: "\<And>n. n \<in> nodes \<Longrightarrow> set (sc n) \<subseteq> nodes"
  shows "flood_node sc glb K d s n s' \<Longrightarrow> n \<in> nodes \<Longrightarrow>
      (\<exists>N. flooded sc glb K d nodes {n} (\<lambda>_. 0) N s s') \<and> (glb n \<or> fst s' n = K)"
    and "flood_list sc glb K d s ns s' \<Longrightarrow> set ns \<subseteq> nodes \<Longrightarrow>
      (\<exists>N. flooded sc glb K d nodes (set ns) (count_list ns) N s s') \<and> (\<forall>n\<in>set ns. glb n \<or> fst s' n = K)"
proof (induction rule: flood_node_flood_list.inducts)
  case (flood_seen c n r)
  then show ?case using flooded_refl [of sc glb K d nodes "{n}" "(c, r)"] by auto
next
  case (flood_sym c n r)
  have "flooded sc glb K d nodes {n} (\<lambda>_. 0) {} (c, r) (c(n := GC_BLACK), r)"
    using flood_sym by (auto simp: flooded_def painted_def)
  then show ?case using flood_sym by blast
next
  case (flood_new c n r s)
  obtain N where N: "flooded sc glb K d nodes (set (sc n)) (count_list (sc n)) N (c(n := K), r) s"
      and k: "\<forall>m\<in>set (sc n). glb m \<or> fst s m = K"
    using flood_new closed by blast
  have "fst s n = K" using flooded_stays [OF N] flood_new by simp
  then show ?case using flooded_new [OF N k] flood_new by blast
next
  case (flood_nil s)
  have "count_list [] = (\<lambda>_. 0)" by (rule ext) simp
  then show ?case using flooded_refl [of sc glb K d nodes "set []" s] by auto
next
  case (flood_cons c n r s1 ns s2)
  obtain N1 where N1: "flooded sc glb K d nodes {n} (\<lambda>_. 0) N1 (c, recount glb d n r) s1" and n: "glb n \<or> fst s1 n = K"
    using flood_cons by auto
  obtain N2 where N2: "flooded sc glb K d nodes (set ns) (count_list ns) N2 s1 s2" and ns: "\<forall>n\<in>set ns. glb n \<or> fst s2 n = K"
    using flood_cons by auto
  have c: "count_list (n # ns) = (\<lambda>m. ((if m = n then 1 else 0) + 0) + count_list ns m)" by (rule ext) simp
  have "flooded sc glb K d nodes (set (n # ns)) (count_list (n # ns)) (N1 \<union> N2) (c, r) s2"
    unfolding c by (rule flooded_trans [OF flooded_mono [OF flooded_recount [OF N1]] flooded_mono [OF N2]]) (simp, simp add: subset_insertI)
  moreover have "glb n \<or> fst s2 n = K" using n flooded_stays [OF N2] by blast
  ultimately show ?case using ns unfolding set_simps by blast
qed

lemma flood_keeps:
  shows "flood_node sc glb K d s n s' \<Longrightarrow> fst s m = K \<Longrightarrow> fst s' m = K"
    and "flood_list sc glb K d s ns s' \<Longrightarrow> fst s m = K \<Longrightarrow> fst s' m = K"
  by (induction rule: flood_node_flood_list.inducts) auto

lemma flood_color:
  shows "flood_node sc glb K d s n s' \<Longrightarrow> fst s' m = fst s m \<or> fst s' m = K \<or> fst s' m = GC_BLACK"
    and "flood_list sc glb K d s ns s' \<Longrightarrow> fst s' m = fst s m \<or> fst s' m = K \<or> fst s' m = GC_BLACK"
  by (induction rule: flood_node_flood_list.inducts) (auto split: if_splits)

lemma flood_list_single: "flood_node sc glb K d (c, recount glb d n r) n s \<Longrightarrow> flood_list sc glb K d (c, r) [n] s"
  by (rule flood_cons [OF _ flood_nil])

lemma flood_list_append:
  assumes "flood_list sc glb K d s1 ms s2" "flood_list sc glb K d s ns s1"
  shows "flood_list sc glb K d s (ns @ ms) s2"
  using assms(2,1)
proof (induction ns arbitrary: s)
  case Nil
  then show ?case by (auto elim: flood_list.cases)
next
  case (Cons n ns)
  obtain c r s' where s: "s = (c, r)" "flood_node sc glb K d (c, recount glb d n r) n s'" "flood_list sc glb K d s' ns s1"
    using Cons.prems(1) by (auto elim: flood_list.cases)
  show ?case using flood_cons [OF s(2) Cons.IH [OF s(3) Cons.prems(2)]] s(1) by simp
qed

section \<open>Scanning\<close>

text \<open>
  A grey node with a count is alive, with everything it refers to; a grey node without one becomes white, and its successors
  are scanned in turn.
\<close>

inductive scan_node :: "(node \<Rightarrow> node list) \<Rightarrow> (node \<Rightarrow> bool) \<Rightarrow> marking \<Rightarrow> node \<Rightarrow> marking \<Rightarrow> bool"
  and scan_list :: "(node \<Rightarrow> node list) \<Rightarrow> (node \<Rightarrow> bool) \<Rightarrow> marking \<Rightarrow> node list \<Rightarrow> marking \<Rightarrow> bool"
  for sc glb where
  scan_skip: "c n \<noteq> GC_GREY \<Longrightarrow> scan_node sc glb (c, r) n (c, r)"
| scan_live: "c n = GC_GREY \<Longrightarrow> r n \<noteq> 0 \<Longrightarrow> flood_node sc glb GC_BLACK 1 (c, r) n s \<Longrightarrow> scan_node sc glb (c, r) n s"
| scan_global: "c n = GC_GREY \<Longrightarrow> r n = 0 \<Longrightarrow> glb n \<Longrightarrow> scan_node sc glb (c, r) n (c(n := GC_BLACK), r)"
| scan_dead: "c n = GC_GREY \<Longrightarrow> r n = 0 \<Longrightarrow> \<not> glb n \<Longrightarrow> scan_list sc glb (c(n := GC_WHITE), r) (sc n) s \<Longrightarrow> scan_node sc glb (c, r) n s"
| scan_nil: "scan_list sc glb s [] s"
| scan_cons: "scan_node sc glb s n s1 \<Longrightarrow> scan_list sc glb s1 ns s2 \<Longrightarrow> scan_list sc glb s (n # ns) s2"

lemma scan_keeps:
  shows "scan_node sc glb s n s' \<Longrightarrow> (fst s m = GC_BLACK \<longrightarrow> fst s' m = GC_BLACK) \<and> (fst s m \<noteq> GC_GREY \<longrightarrow> fst s' m \<noteq> GC_GREY)"
    and "scan_list sc glb s ns s' \<Longrightarrow> (fst s m = GC_BLACK \<longrightarrow> fst s' m = GC_BLACK) \<and> (fst s m \<noteq> GC_GREY \<longrightarrow> fst s' m \<noteq> GC_GREY)"
proof (induction rule: scan_node_scan_list.inducts)
  case (scan_live c n r s)
  then show ?case using flood_color(1) [OF scan_live(3), of m] by auto
qed (auto split: if_splits)

text \<open>The marking \<open>sm\<close> is the one after the grey flood, which reached the nodes \<open>G\<close>.\<close>

definition blacks :: "node set \<Rightarrow> (node \<Rightarrow> gc_color) \<Rightarrow> node set" where
  "blacks G c = {n\<in>G. c n = GC_BLACK}"

definition greyed :: "(node \<Rightarrow> node list) \<Rightarrow> (node \<Rightarrow> bool) \<Rightarrow> node set \<Rightarrow> node set \<Rightarrow> marking \<Rightarrow> bool" where
  "greyed sc glb nodes G sm \<longleftrightarrow> finite G \<and> G \<subseteq> nodes \<and> G = painted glb GC_GREY (fst sm) \<and>
     (\<forall>n\<in>G. \<forall>m\<in>set (sc n). glb m \<or> m \<in> G) \<and> (\<forall>n. glb n \<longrightarrow> sc n = [])"

definition scan_inv :: "(node \<Rightarrow> node list) \<Rightarrow> (node \<Rightarrow> bool) \<Rightarrow> node set \<Rightarrow> marking \<Rightarrow> marking \<Rightarrow> bool" where
  "scan_inv sc glb G sm s \<longleftrightarrow>
     (\<forall>n. n \<notin> G \<longrightarrow> \<not> glb n \<longrightarrow> fst s n = fst sm n) \<and>
     (\<forall>n\<in>G. fst s n \<in> {GC_GREY, GC_WHITE, GC_BLACK}) \<and>
     (\<forall>n. \<not> glb n \<longrightarrow> snd s n = snd sm n + of_nat (refs sc (blacks G (fst s)) n)) \<and>
     (\<forall>n\<in>blacks G (fst s). \<forall>m\<in>set (sc n). glb m \<or> fst s m = GC_BLACK) \<and>
     (\<forall>n\<in>G. fst s n = GC_WHITE \<longrightarrow> snd s n = 0) \<and>
     blacks G (fst s) \<subseteq> (edges sc)\<^sup>* `` {n\<in>G. snd sm n \<noteq> 0} \<and>
     (\<forall>n. glb n \<longrightarrow> fst s n = fst sm n \<or> fst s n = GC_BLACK)"

lemma scan_invD:
  assumes "scan_inv sc glb G sm s"
  shows "\<And>n. n \<notin> G \<Longrightarrow> \<not> glb n \<Longrightarrow> fst s n = fst sm n" "\<And>n. n \<in> G \<Longrightarrow> fst s n = GC_GREY \<or> fst s n = GC_WHITE \<or> fst s n = GC_BLACK"
    "\<And>n. \<not> glb n \<Longrightarrow> snd s n = snd sm n + of_nat (refs sc (blacks G (fst s)) n)"
    "\<And>n m. n \<in> blacks G (fst s) \<Longrightarrow> m \<in> set (sc n) \<Longrightarrow> glb m \<or> fst s m = GC_BLACK"
    "\<And>n. n \<in> G \<Longrightarrow> fst s n = GC_WHITE \<Longrightarrow> snd s n = 0" "blacks G (fst s) \<subseteq> (edges sc)\<^sup>* `` {n\<in>G. snd sm n \<noteq> 0}"
    "\<And>n. glb n \<Longrightarrow> fst s n = fst sm n \<or> fst s n = GC_BLACK"
  using assms by (auto simp: scan_inv_def)

lemma greyedD:
  assumes "greyed sc glb nodes G sm"
  shows "finite G" "G \<subseteq> nodes" "\<And>n. n \<in> G \<Longrightarrow> fst sm n = GC_GREY" "\<And>n. n \<in> G \<Longrightarrow> \<not> glb n"
    "\<And>n m. n \<in> G \<Longrightarrow> m \<in> set (sc n) \<Longrightarrow> glb m \<or> m \<in> G" "\<And>n. glb n \<Longrightarrow> sc n = []"
    "\<And>n. n \<notin> G \<Longrightarrow> \<not> glb n \<Longrightarrow> fst sm n \<noteq> GC_GREY"
  using assms by (auto simp: greyed_def painted_def)

lemma greyed_reach:
  assumes g: "greyed sc glb nodes G sm" and "(a, b) \<in> (edges sc)\<^sup>*" "a \<in> G"
  shows "glb b \<or> b \<in> G"
  using assms(2,3)
proof (induction rule: rtrancl_induct)
  case (step b c)
  then show ?case using greyedD(5,6) [OF g] by (auto simp: edges_def)
qed simp

lemma grey_count:
  assumes g: "greyed sc glb nodes G sm" and i: "scan_inv sc glb G sm s" and n: "n \<in> G" "fst s n \<noteq> GC_BLACK"
  shows "snd s n = snd sm n"
proof -
  have "\<not> glb n" using greyedD(4) [OF g] n by blast
  moreover have "finite (blacks G (fst s))" using greyedD(1) [OF g] by (simp add: blacks_def)
  then have "refs sc (blacks G (fst s)) n = 0"
    using scan_invD(4) [OF i, of _ n] n(2) calculation by (auto simp: refs_0)
  ultimately show ?thesis using scan_invD(3) [OF i] by simp
qed

lemma scan_inv_flood:
  assumes g: "greyed sc glb nodes G sm" and i: "scan_inv sc glb G sm s" and n: "n \<in> G" "fst s n = GC_GREY" "snd s n \<noteq> 0"
    and f: "flooded sc glb GC_BLACK 1 nodes {n} (\<lambda>_. 0) N s s'"
  shows "scan_inv sc glb G sm s'"
proof -
  have N: "N \<subseteq> G"
  proof
    fix m assume m: "m \<in> N"
    then have "\<not> glb m" using floodedD(3,4) [OF f] by (auto simp: painted_def)
    then show "m \<in> G" using m floodedD(5) [OF f] greyed_reach [OF g _ n(1)] by blast
  qed
  have col: "fst s' m = (if m \<in> N then GC_BLACK else fst s m)" if "\<not> glb m" for m
    using floodedD(4,7) [OF f] that by (auto simp: painted_def)
  have b: "blacks G (fst s') = blacks G (fst s) \<union> N" "blacks G (fst s) \<inter> N = {}"
    using N col greyedD(4) [OF g] floodedD(3) [OF f] by (auto simp: blacks_def painted_def)
  have fin: "finite (blacks G (fst s))" using greyedD(1) [OF g] by (simp add: blacks_def)
  have r: "snd s' m = snd s m + of_nat (refs sc N m)" if "\<not> glb m" for m using floodedD(9) [OF f, of m] that by simp
  have "fst s' m = fst sm m" if "m \<notin> G" "\<not> glb m" for m using col that N scan_invD(1) [OF i] by auto
  moreover have "fst s' m \<in> {GC_GREY, GC_WHITE, GC_BLACK}" if "m \<in> G" for m
    using col [of m] greyedD(4) [OF g] scan_invD(2) [OF i] that by auto
  moreover have "snd s' m = snd sm m + of_nat (refs sc (blacks G (fst s')) m)" if "\<not> glb m" for m
    using r that scan_invD(3) [OF i] by (simp add: b refs_Un [OF fin floodedD(1) [OF f] b(2)])
  moreover have "glb m \<or> fst s' m = GC_BLACK" if "k \<in> blacks G (fst s')" "m \<in> set (sc k)" for k m
    using that scan_invD(4) [OF i] floodedD(6) [OF f] flooded_stays [OF f] unfolding b(1) by blast
  moreover have "snd s' m = 0" if m: "m \<in> G" "fst s' m = GC_WHITE" for m
  proof -
    have "\<not> glb m" using greyedD(4) [OF g] m by blast
    then have w: "fst s m = GC_WHITE" using col [of m] m by (auto split: if_splits)
    have "m \<notin> set (sc a)" if "a \<in> N" for a using floodedD(6) [OF f] that m(2) \<open>\<not> glb m\<close> by fastforce
    then have "refs sc N m = 0" using floodedD(1) [OF f] by (simp add: refs_0)
    then show ?thesis using r \<open>\<not> glb m\<close> scan_invD(5) [OF i m(1) w] by simp
  qed
  moreover have "blacks G (fst s') \<subseteq> (edges sc)\<^sup>* `` {k\<in>G. snd sm k \<noteq> 0}"
  proof -
    have "snd sm n \<noteq> 0" using grey_count [OF g i n(1)] n by simp
    then have "N \<subseteq> (edges sc)\<^sup>* `` {k\<in>G. snd sm k \<noteq> 0}" using floodedD(5) [OF f] n(1) by blast
    then show ?thesis using scan_invD(6) [OF i] b by blast
  qed
  moreover have "fst s' m = fst sm m \<or> fst s' m = GC_BLACK" if "glb m" for m
    using floodedD(8) [OF f that] scan_invD(7) [OF i that] by auto
  ultimately show ?thesis unfolding scan_inv_def by blast
qed

lemma scan_inv_white:
  assumes g: "greyed sc glb nodes G sm" and i: "scan_inv sc glb G sm (c, r)" and n: "n \<in> G" "c n = GC_GREY" "r n = 0"
  shows "scan_inv sc glb G sm (c(n := GC_WHITE), r)"
proof -
  have b: "blacks G (c(n := GC_WHITE)) = blacks G c" using n by (auto simp: blacks_def)
  have "\<not> glb n" using greyedD(4) [OF g] n by blast
  moreover have "k \<in> blacks G c \<Longrightarrow> m \<in> set (sc k) \<Longrightarrow> glb m \<or> (c(n := GC_WHITE)) m = GC_BLACK" for k m
    using scan_invD(4) [OF i, of k m] n(2) calculation by auto
  ultimately show ?thesis using i n unfolding scan_inv_def fst_conv snd_conv b by auto
qed

lemma scan_inv_glb:
  assumes g: "greyed sc glb nodes G sm" and i: "scan_inv sc glb G sm (c, r)" and n: "glb n"
  shows "scan_inv sc glb G sm (c(n := GC_BLACK), r)"
proof -
  have nG: "n \<notin> G" using greyedD(4) [OF g] n by blast
  then have b: "blacks G (c(n := GC_BLACK)) = blacks G c" by (auto simp: blacks_def)
  have "k \<in> blacks G c \<Longrightarrow> m \<in> set (sc k) \<Longrightarrow> glb m \<or> (c(n := GC_BLACK)) m = GC_BLACK" for k m
    using scan_invD(4) [OF i, of k m] by auto
  then show ?thesis using i nG n unfolding scan_inv_def fst_conv snd_conv b by auto
qed

text \<open>Scanning makes progress: the node is no longer grey, and no successor of a node that was grey before and is not now is grey.\<close>

definition scan_progress :: "(node \<Rightarrow> node list) \<Rightarrow> node set \<Rightarrow> marking \<Rightarrow> marking \<Rightarrow> bool" where
  "scan_progress sc G s s' \<longleftrightarrow> (\<forall>n\<in>G. fst s' n = GC_GREY \<longrightarrow> fst s n = GC_GREY) \<and>
     (\<forall>n\<in>G. fst s n = GC_GREY \<longrightarrow> fst s' n \<noteq> GC_GREY \<longrightarrow> (\<forall>m\<in>set (sc n) \<inter> G. fst s' m \<noteq> GC_GREY))"

lemma scan_progress_trans: "scan_progress sc G s s1 \<Longrightarrow> scan_progress sc G s1 s2 \<Longrightarrow> scan_progress sc G s s2"
  unfolding scan_progress_def by (metis IntD2)

lemma scan_progress_refl: "scan_progress sc G s s"
  by (simp add: scan_progress_def)

lemma scan_progress_flood:
  assumes g: "greyed sc glb nodes G sm" and f: "flooded sc glb GC_BLACK 1 nodes F gv N s s'"
  shows "scan_progress sc G s s'"
proof -
  have col: "fst s' m = (if m \<in> N then GC_BLACK else fst s m)" if "\<not> glb m" for m
    using floodedD(4,7) [OF f] that by (auto simp: painted_def)
  have "fst s m = GC_GREY" if "m \<in> G" "fst s' m = GC_GREY" for m
    using col [of m] that greyedD(4) [OF g] by (auto split: if_splits)
  moreover have "fst s' k \<noteq> GC_GREY" if "m \<in> G" "fst s m = GC_GREY" "fst s' m \<noteq> GC_GREY" "k \<in> set (sc m) \<inter> G" for m k
  proof -
    have "m \<in> N" using col [of m] that greyedD(4) [OF g] by (auto split: if_splits)
    then have "glb k \<or> fst s' k = GC_BLACK" using floodedD(6) [OF f] that by blast
    then show ?thesis using greyedD(4) [OF g] that by auto
  qed
  ultimately show ?thesis unfolding scan_progress_def by blast
qed

lemma scan_scanned:
  assumes g: "greyed sc glb nodes G sm" and closed: "\<And>n. n \<in> nodes \<Longrightarrow> set (sc n) \<subseteq> nodes"
  shows "scan_node sc glb s n s' \<Longrightarrow> glb n \<or> n \<in> G \<Longrightarrow> scan_inv sc glb G sm s \<Longrightarrow>
      scan_inv sc glb G sm s' \<and> scan_progress sc G s s' \<and> (n \<in> G \<longrightarrow> fst s' n \<noteq> GC_GREY)"
    and "scan_list sc glb s ns s' \<Longrightarrow> \<forall>n\<in>set ns. glb n \<or> n \<in> G \<Longrightarrow> scan_inv sc glb G sm s \<Longrightarrow>
      scan_inv sc glb G sm s' \<and> scan_progress sc G s s' \<and> (\<forall>n\<in>set ns. n \<in> G \<longrightarrow> fst s' n \<noteq> GC_GREY)"
proof (induction rule: scan_node_scan_list.inducts)
  case (scan_skip c n r)
  then show ?case by (simp add: scan_progress_refl)
next
  case (scan_live c n r s)
  show ?case
  proof (cases "n \<in> G")
    case True
    then have nn: "n \<in> nodes" using greyedD(2) [OF g] by blast
    obtain N where f: "flooded sc glb GC_BLACK 1 nodes {n} (\<lambda>_. 0) N (c, r) s" and k: "glb n \<or> fst s n = GC_BLACK"
      using flood_flooded(1) [OF closed scan_live(3) nn] by blast
    show ?thesis
      using scan_inv_flood [OF g scan_live(5) True _ _ f] scan_progress_flood [OF g f] k scan_live(1,2) True greyedD(4) [OF g]
      by auto
  next
    case False
    then have "glb n" using scan_live by blast
    then have "s = (c(n := GC_BLACK), r)" using scan_live by (auto elim: flood_node.cases)
    moreover have "scan_inv sc glb G sm (c(n := GC_BLACK), r)" by (rule scan_inv_glb [OF g scan_live(5) \<open>glb n\<close>])
    ultimately show ?thesis using False by (auto simp: scan_progress_def)
  qed
next
  case (scan_global c n r)
  have "n \<notin> G" using greyedD(4) [OF g] scan_global by blast
  then show ?case using scan_inv_glb [OF g scan_global(5,3)] by (auto simp: scan_progress_def)
next
  case (scan_dead c n r s)
  have n: "n \<in> G" using scan_dead by blast
  have sub: "\<forall>m\<in>set (sc n). glb m \<or> m \<in> G" using greyedD(5) [OF g n] by blast
  have s: "scan_inv sc glb G sm s" "scan_progress sc G (c(n := GC_WHITE), r) s" "\<forall>m\<in>set (sc n). m \<in> G \<longrightarrow> fst s m \<noteq> GC_GREY"
    using scan_dead(5) [OF sub scan_inv_white [OF g scan_dead(7) n scan_dead(1,2)]] by blast+
  have nw: "fst s n \<noteq> GC_GREY" using s(2) n by (auto simp: scan_progress_def)
  have "scan_progress sc G (c, r) s"
    unfolding scan_progress_def
  proof (intro conjI ballI impI)
    fix m assume m: "m \<in> G" "fst s m = GC_GREY"
    then have "m \<noteq> n" using nw by blast
    then show "fst (c, r) m = GC_GREY" using s(2) m by (auto simp: scan_progress_def)
  next
    fix m k assume m: "m \<in> G" "fst (c, r) m = GC_GREY" "fst s m \<noteq> GC_GREY" "k \<in> set (sc m) \<inter> G"
    show "fst s k \<noteq> GC_GREY"
    proof (cases "m = n")
      case True
      then show ?thesis using s(3) m by blast
    next
      case False
      then have "fst (c(n := GC_WHITE), r) m = GC_GREY" using m(2) by simp
      then show ?thesis using s(2) m unfolding scan_progress_def by blast
    qed
  qed
  then show ?case using s(1) nw by blast
next
  case (scan_nil s)
  then show ?case by (simp add: scan_progress_refl)
next
  case (scan_cons s n s1 ns s2)
  have a: "scan_inv sc glb G sm s1" "scan_progress sc G s s1" "n \<in> G \<longrightarrow> fst s1 n \<noteq> GC_GREY" using scan_cons by simp_all
  have b: "scan_inv sc glb G sm s2" "scan_progress sc G s1 s2" "\<forall>n\<in>set ns. n \<in> G \<longrightarrow> fst s2 n \<noteq> GC_GREY"
    using scan_cons a(1) by simp_all
  have "n \<in> G \<longrightarrow> fst s2 n \<noteq> GC_GREY" using a(3) b(2) unfolding scan_progress_def by blast
  then show ?case using b(1,3) scan_progress_trans [OF a(2) b(2)] by simp
qed

section \<open>What stays white is garbage\<close>

text \<open>
  \<open>counts_exact\<close>: every count is the number of references to the node, from the nodes of the graph and \<open>ext n\<close>
  from elsewhere (variables, temporaries, the stack).
\<close>

definition counts_exact :: "(node \<Rightarrow> node list) \<Rightarrow> (node \<Rightarrow> bool) \<Rightarrow> node set \<Rightarrow> (node \<Rightarrow> nat) \<Rightarrow> (node \<Rightarrow> uint) \<Rightarrow> bool" where
  "counts_exact sc glb nodes ext r \<longleftrightarrow> (\<forall>n\<in>nodes. \<not> glb n \<longrightarrow> unat (r n) = ext n + refs sc nodes n)"

definition whites :: "node set \<Rightarrow> (node \<Rightarrow> gc_color) \<Rightarrow> node set" where
  "whites G c = {n\<in>G. c n = GC_WHITE}"

text \<open>The nodes that something outside of \<open>G\<close> refers to.\<close>

definition held :: "(node \<Rightarrow> node list) \<Rightarrow> node set \<Rightarrow> (node \<Rightarrow> nat) \<Rightarrow> node set \<Rightarrow> node set" where
  "held sc nodes ext G = {n\<in>G. ext n \<noteq> 0 \<or> (\<exists>a\<in>nodes - G. n \<in> set (sc a))}"

lemma mark_count:
  assumes fin: "finite nodes" and g: "greyed sc glb nodes G sm" and n: "n \<in> G"
    and m: "snd sm n = r n - of_nat (refs sc G n)" and ce: "counts_exact sc glb nodes ext r"
  shows "snd sm n \<noteq> 0 \<longleftrightarrow> n \<in> held sc nodes ext G"
proof -
  have nn: "n \<in> nodes" "\<not> glb n" "finite G" "G \<subseteq> nodes" using greyedD(1,2,4) [OF g] n by blast+
  have "refs sc nodes n = refs sc G n + refs sc (nodes - G) n"
    using refs_Un [of G "nodes - G" sc n] nn fin by (simp add: Un_absorb1)
  then have u: "unat (r n) = (ext n + refs sc (nodes - G) n) + refs sc G n" using ce nn by (simp add: counts_exact_def)
  have lt: "(ext n + refs sc (nodes - G) n) + refs sc G n < 2 ^ 32" using u unsigned_less [of "r n", where ?'a = nat] by simp
  then have "r n = of_nat ((ext n + refs sc (nodes - G) n) + refs sc G n)"
    using u by (simp add: word_unat_eq_iff unat_of_nat del: of_nat_add)
  then have "snd sm n = of_nat (ext n + refs sc (nodes - G) n)" using m by simp
  moreover have "ext n + refs sc (nodes - G) n < 2 ^ 32" using lt by simp
  ultimately have "snd sm n = 0 \<longleftrightarrow> ext n + refs sc (nodes - G) n = 0"
    by (simp add: word_unat_eq_iff unat_of_nat del: of_nat_add)
  then show ?thesis using n fin by (auto simp: held_def refs_0)
qed

lemma white_garbage:
  assumes fin: "finite nodes" and g: "greyed sc glb nodes G sm" and m: "\<And>n. \<not> glb n \<Longrightarrow> snd sm n = r n - of_nat (refs sc G n)"
    and ce: "counts_exact sc glb nodes ext r" and i: "scan_inv sc glb G sm ss" and ng: "\<And>n. n \<in> G \<Longrightarrow> fst ss n \<noteq> GC_GREY"
  shows "whites G (fst ss) = G - (edges sc)\<^sup>* `` held sc nodes ext G" (is ?live)
    and "n \<in> whites G (fst ss) \<Longrightarrow> ext n = 0 \<and> (\<forall>a\<in>nodes. n \<in> set (sc a) \<longrightarrow> a \<in> whites G (fst ss))"
    and "\<not> glb n \<Longrightarrow> snd ss n = r n - of_nat (refs sc (whites G (fst ss)) n)"
proof -
  have h: "{n\<in>G. snd sm n \<noteq> 0} = held sc nodes ext G"
    using mark_count [OF fin g _ m ce] greyedD(4) [OF g] by (auto simp: held_def)
  have b: "blacks G (fst ss) = G - whites G (fst ss)"
    using scan_invD(2) [OF i] ng by (auto simp: blacks_def whites_def)
  have reach: "k \<in> blacks G (fst ss) \<or> glb k" if "(a, k) \<in> (edges sc)\<^sup>*" "a \<in> blacks G (fst ss)" for a k
    using that
  proof (induction rule: rtrancl_induct)
    case (step k l)
    have "glb l \<or> l \<in> blacks G (fst ss)" if k: "k \<in> blacks G (fst ss)"
      using scan_invD(4) [OF i k, of l] greyedD(5) [OF g, of k l] step(2) k by (auto simp: edges_def blacks_def)
    then show ?case using step greyedD(6) [OF g, of k] by (auto simp: edges_def)
  qed simp
  have hb: "held sc nodes ext G \<subseteq> blacks G (fst ss)"
  proof
    fix k assume k: "k \<in> held sc nodes ext G"
    then have "k \<in> G" "snd sm k \<noteq> 0" using h by blast+
    then have "fst ss k \<noteq> GC_WHITE" using scan_invD(5) [OF i] grey_count [OF g i \<open>k \<in> G\<close>] by fastforce
    then show "k \<in> blacks G (fst ss)" using b \<open>k \<in> G\<close> by (auto simp: whites_def)
  qed
  have "G \<inter> (edges sc)\<^sup>* `` held sc nodes ext G = blacks G (fst ss)"
    using scan_invD(6) [OF i] reach hb greyedD(4) [OF g] unfolding h blacks_def by blast
  then show ?live using b by (auto simp: whites_def)
  show "ext n = 0 \<and> (\<forall>a\<in>nodes. n \<in> set (sc a) \<longrightarrow> a \<in> whites G (fst ss))" if n: "n \<in> whites G (fst ss)"
  proof -
    have nh: "n \<notin> held sc nodes ext G" "n \<in> G" "\<not> glb n" using n hb b greyedD(4) [OF g] by (auto simp: whites_def)
    have "a \<in> whites G (fst ss)" if "a \<in> nodes" "n \<in> set (sc a)" for a
    proof (rule ccontr)
      assume "a \<notin> whites G (fst ss)"
      then have "a \<in> blacks G (fst ss)" using b nh that by (auto simp: held_def)
      then show False using scan_invD(4) [OF i _ that(2)] nh n by (auto simp: whites_def)
    qed
    then show ?thesis using nh by (auto simp: held_def)
  qed
  show "snd ss n = r n - of_nat (refs sc (whites G (fst ss)) n)" if n: "\<not> glb n"
  proof -
    have "whites G (fst ss) \<union> blacks G (fst ss) = G" "whites G (fst ss) \<inter> blacks G (fst ss) = {}"
      using b by (auto simp: whites_def)
    then have "refs sc G n = refs sc (whites G (fst ss)) n + refs sc (blacks G (fst ss)) n"
      using refs_Un [of "whites G (fst ss)" "blacks G (fst ss)" sc n] greyedD(1) [OF g] by (simp add: whites_def blacks_def)
    then show ?thesis using scan_invD(3) [OF i n] m [OF n] by simp
  qed
qed

end
