(* ===== verification/Zend_Gc.thy ===== *)
theory Zend_Gc
  imports Zend_Gc_Graph Zend_Dll
begin

text \<open>
  The cycle collector (\<^verbatim>\<open>zend_gc.c\<close>): the buffer of possible roots of garbage cycles, and the three traversals of the values
  that are reachable from it, which find the cycles that nothing refers to from outside.

  \<^item> A zval is a structure in the heap \<open>zvals\<close>. Of its value the collector looks at the elements of an array (the zvals
    that the hash table holds, in the order of its list), whether the array is the symbol table of the global variables,
    and the handle of an object.
  \<^item> Objects are the entries of \<open>object_buckets\<close>, which is \<open>None\<close> when the store has been destroyed. \<open>obj_get_gc\<close> is what the
    \<^verbatim>\<open>get_gc\<close> handler of the object returns: a table of zval pointers, some of them null, and possibly a hash table.
  \<^item> The last two bits of \<^verbatim>\<open>buffered\<close> are a colour, the rest of it an address (\<open>gc_ref\<close>): of an entry of the buffer,
    or, in a zval that is about to be freed, of the next such zval.
  \<^item> The entries of the buffer are numbered; the list of roots is circular and goes through the structure \<^verbatim>\<open>roots\<close> in the globals,
    whose address is represented by \<open>None\<close> in the links of that list. The unused entries are linked by \<open>rb_prev\<close>.
  \<^item> Recursive functions have a bound on the depth of the recursion as their first argument and return \<open>None\<close> when it is
    exceeded, or when a pointer dangles. The jumps to \<^verbatim>\<open>tail_call\<close> are calls.
\<close>

section \<open>Data\<close>

datatype gc_address = GC_NULL | Root nat | Zval ptr | FREE_LIST_END

record gc_ref =
  GC_ADDRESS :: gc_address
  GC_GET_COLOR :: gc_color

definition GC_SET_ADDRESS :: "gc_address \<Rightarrow> gc_ref \<Rightarrow> gc_ref" where
  "GC_SET_ADDRESS a v = v\<lparr>GC_ADDRESS := a\<rparr>"

definition GC_SET_COLOR :: "gc_color \<Rightarrow> gc_ref \<Rightarrow> gc_ref" where
  "GC_SET_COLOR c v = v\<lparr>GC_GET_COLOR := c\<rparr>"

definition GC_SET_BLACK :: "gc_ref \<Rightarrow> gc_ref" where
  "GC_SET_BLACK v = v\<lparr>GC_GET_COLOR := GC_BLACK\<rparr>"

definition GC_SET_PURPLE :: "gc_ref \<Rightarrow> gc_ref" where
  "GC_SET_PURPLE v = v\<lparr>GC_GET_COLOR := GC_PURPLE\<rparr>"

text \<open>An address without a colour, and the colour white without an address.\<close>

definition plain :: "gc_address \<Rightarrow> gc_ref" where
  "plain a = \<lparr>GC_ADDRESS = a, GC_GET_COLOR = GC_BLACK\<rparr>"

definition white_null :: gc_ref where
  "white_null = \<lparr>GC_ADDRESS = GC_NULL, GC_GET_COLOR = GC_WHITE\<rparr>"

datatype gc_value = IS_NULL | IS_OTHER | IS_ARRAY bool "ptr list" | IS_OBJECT uint

record zval_gc_info =
  z_value :: gc_value
  refcount__gc :: uint
  u :: gc_ref

record store_object =
  obj_valid :: bool
  obj_destructor_called :: bool
  obj_dtor :: bool
  obj_refcount :: uint
  obj_buffered :: gc_ref
  obj_get_gc :: "(ptr option list \<times> ptr list option) option"

record gc_root_buffer =
  rb_prev :: "nat option"
  rb_next :: "nat option"
  rb_handle :: uint
  rb_pz :: ptr

record zend_gc_globals =
  gc_enabled :: bool
  gc_active :: bool
  gc_buf :: bool
  roots_next :: "nat option"
  roots_prev :: "nat option"
  unused :: "nat option"
  first_unused :: nat
  last_unused :: nat
  zval_to_free :: gc_address
  free_list :: gc_address
  next_to_free :: gc_address
  gc_runs :: uint
  gc_collected :: uint
  root_bufs :: "nat \<rightharpoonup> gc_root_buffer"

record gc_state = zend_gc_globals +
  zvals :: "ptr \<rightharpoonup> zval_gc_info"
  object_buckets :: "(uint \<rightharpoonup> store_object) option"

definition symbol_table :: "zval_gc_info \<Rightarrow> bool" where
  "symbol_table z = (case z_value z of IS_ARRAY st _ \<Rightarrow> st | _ \<Rightarrow> False)"

section \<open>Reading and writing\<close>

definition zpoke :: "ptr \<Rightarrow> (zval_gc_info \<Rightarrow> zval_gc_info) \<Rightarrow> gc_state \<Rightarrow> gc_state option" where
  "zpoke p f g = map_option (\<lambda>m. g\<lparr>zvals := m\<rparr>) (poke p f (zvals g))"

definition opoke :: "uint \<Rightarrow> (store_object \<Rightarrow> store_object) \<Rightarrow> gc_state \<Rightarrow> gc_state option" where
  "opoke h f g =
     do { m \<leftarrow> object_buckets g;
          m \<leftarrow> poke h f m;
          Some (g\<lparr>object_buckets := Some m\<rparr>) }"

definition rpoke :: "nat \<Rightarrow> (gc_root_buffer \<Rightarrow> gc_root_buffer) \<Rightarrow> gc_state \<Rightarrow> gc_state option" where
  "rpoke i f g = map_option (\<lambda>m. g\<lparr>root_bufs := m\<rparr>) (poke i f (root_bufs g))"

definition obj_at :: "gc_state \<Rightarrow> uint \<Rightarrow> store_object option" where
  "obj_at g h = Option.bind (object_buckets g) (\<lambda>m. m h)"

definition GC_ZVAL_SET_COLOR :: "gc_color \<Rightarrow> ptr \<Rightarrow> gc_state \<Rightarrow> gc_state option" where
  "GC_ZVAL_SET_COLOR c pz = zpoke pz (\<lambda>z. z\<lparr>u := GC_SET_COLOR c (u z)\<rparr>)"

definition GC_ZVAL_SET_BLACK :: "ptr \<Rightarrow> gc_state \<Rightarrow> gc_state option" where
  "GC_ZVAL_SET_BLACK pz = zpoke pz (\<lambda>z. z\<lparr>u := GC_SET_BLACK (u z)\<rparr>)"

definition GC_ZVAL_SET_PURPLE :: "ptr \<Rightarrow> gc_state \<Rightarrow> gc_state option" where
  "GC_ZVAL_SET_PURPLE pz = zpoke pz (\<lambda>z. z\<lparr>u := GC_SET_PURPLE (u z)\<rparr>)"

definition GC_ZVAL_SET_ADDRESS :: "gc_address \<Rightarrow> ptr \<Rightarrow> gc_state \<Rightarrow> gc_state option" where
  "GC_ZVAL_SET_ADDRESS a pz = zpoke pz (\<lambda>z. z\<lparr>u := GC_SET_ADDRESS a (u z)\<rparr>)"

text \<open>The count of references of an element, which is left alone for the array of the global variables.\<close>

definition zval_refcount_add :: "uint \<Rightarrow> ptr \<Rightarrow> gc_state \<Rightarrow> gc_state option" where
  "zval_refcount_add d pz g =
     do { z \<leftarrow> zvals g pz;
          if symbol_table z then Some g else zpoke pz (\<lambda>z. z\<lparr>refcount__gc := refcount__gc z + d\<rparr>) g }"

definition obj_refcount_add :: "uint \<Rightarrow> uint \<Rightarrow> gc_state \<Rightarrow> gc_state option" where
  "obj_refcount_add d h = opoke h (\<lambda>obj. obj\<lparr>obj_refcount := obj_refcount obj + d\<rparr>)"

definition obj_set_color :: "gc_color \<Rightarrow> uint \<Rightarrow> gc_state \<Rightarrow> gc_state option" where
  "obj_set_color c h = opoke h (\<lambda>obj. obj\<lparr>obj_buffered := GC_SET_COLOR c (obj_buffered obj)\<rparr>)"

primrec foldo :: "('a \<Rightarrow> 's \<Rightarrow> 's option) \<Rightarrow> 'a list \<Rightarrow> 's \<Rightarrow> 's option" where
  "foldo f [] s = Some s"
| "foldo f (x # xs) s = Option.bind (f x s) (foldo f xs)"

text \<open>The zvals of the table that are not null, and the visit of everything an object refers to: first the table, then the hash table.\<close>

definition table_zvals :: "ptr option list \<Rightarrow> ptr list" where
  "table_zvals table = List.map_filter id table"

definition gc_props :: "(ptr \<Rightarrow> gc_state \<Rightarrow> gc_state option) \<Rightarrow> store_object \<Rightarrow> gc_state \<Rightarrow> gc_state option" where
  "gc_props visit obj g =
     (case (if obj_valid obj then obj_get_gc obj else None) of
        None \<Rightarrow> Some g
      | Some (table, props) \<Rightarrow>
          do { g \<leftarrow> foldo visit (table_zvals table) g;
               (case props of None \<Rightarrow> Some g | Some ps \<Rightarrow> foldo visit ps g) })"

section \<open>The buffer of possible roots\<close>

definition GC_ROOT_BUFFER_MAX_ENTRIES :: nat where
  "GC_ROOT_BUFFER_MAX_ENTRIES = 10000"

definition gc_globals_ctor_ex :: "gc_state \<Rightarrow> gc_state" where
  "gc_globals_ctor_ex g = g\<lparr>gc_enabled := False, gc_active := False, gc_buf := False, root_bufs := Map.empty,
     roots_next := None, roots_prev := None, unused := None, zval_to_free := GC_NULL, free_list := GC_NULL,
     next_to_free := GC_NULL, gc_runs := 0, gc_collected := 0\<rparr>"

definition root_buffer_dtor :: "gc_state \<Rightarrow> gc_state" where
  "root_buffer_dtor g = (if gc_buf g then g\<lparr>gc_buf := False, root_bufs := Map.empty\<rparr> else g)"

definition gc_reset :: "gc_state \<Rightarrow> gc_state" where
  "gc_reset g =
     (let g = g\<lparr>gc_runs := 0, gc_collected := 0, roots_next := None, roots_prev := None\<rparr> in
      if gc_buf g then g\<lparr>unused := None, first_unused := 0, zval_to_free := GC_NULL\<rparr>
      else g\<lparr>unused := None, first_unused := 0, last_unused := 0\<rparr>)"

definition gc_init :: "gc_state \<Rightarrow> gc_state" where
  "gc_init g =
     (if \<not> gc_buf g \<and> gc_enabled g
      then gc_reset (g\<lparr>gc_buf := True, root_bufs := Map.empty, last_unused := GC_ROOT_BUFFER_MAX_ENTRIES\<rparr>)
      else g)"

definition gc_remove_from_buffer :: "nat \<Rightarrow> gc_state \<Rightarrow> gc_state option" where
  "gc_remove_from_buffer root g =
     do { b \<leftarrow> root_bufs g root;
          g \<leftarrow> (case rb_next b of
                  Some n \<Rightarrow> rpoke n (\<lambda>c. c\<lparr>rb_prev := rb_prev b\<rparr>) g
                | None \<Rightarrow> Some (g\<lparr>roots_prev := rb_prev b\<rparr>));
          g \<leftarrow> (case rb_prev b of
                  Some p \<Rightarrow> rpoke p (\<lambda>c. c\<lparr>rb_next := rb_next b\<rparr>) g
                | None \<Rightarrow> Some (g\<lparr>roots_next := rb_next b\<rparr>));
          g \<leftarrow> rpoke root (\<lambda>c. c\<lparr>rb_prev := unused g\<rparr>) g;
          Some (g\<lparr>unused := Some root\<rparr>) }"

definition gc_link_root :: "nat \<Rightarrow> uint \<Rightarrow> ptr \<Rightarrow> gc_state \<Rightarrow> gc_state option" where
  "gc_link_root newRoot handle pz g =
     (if newRoot < last_unused g
      then do { let next' = roots_next g;
                let g = g\<lparr>root_bufs := (root_bufs g)(newRoot \<mapsto> \<lparr>rb_prev = None, rb_next = next', rb_handle = handle, rb_pz = pz\<rparr>)\<rparr>;
                g \<leftarrow> (case next' of
                        Some n \<Rightarrow> rpoke n (\<lambda>c. c\<lparr>rb_prev := Some newRoot\<rparr>) g
                      | None \<Rightarrow> Some (g\<lparr>roots_prev := Some newRoot\<rparr>));
                Some (g\<lparr>roots_next := Some newRoot\<rparr>) }
      else None)"

section \<open>Blackening\<close>

definition black_child :: "(ptr \<Rightarrow> gc_state \<Rightarrow> gc_state option) \<Rightarrow> ptr \<Rightarrow> gc_state \<Rightarrow> gc_state option" where
  "black_child visit pz g =
     do { g \<leftarrow> zval_refcount_add 1 pz g;
          z \<leftarrow> zvals g pz;
          if GC_GET_COLOR (u z) \<noteq> GC_BLACK then visit pz g else Some g }"

definition object_scan_black :: "(ptr \<Rightarrow> gc_state \<Rightarrow> gc_state option) \<Rightarrow> uint \<Rightarrow> gc_state \<Rightarrow> gc_state option" where
  "object_scan_black visit h g =
     do { g \<leftarrow> opoke h (\<lambda>obj. obj\<lparr>obj_buffered := GC_SET_BLACK (obj_buffered obj)\<rparr>) g;
          obj \<leftarrow> obj_at g h;
          gc_props (black_child visit) obj g }"

primrec zval_scan_black :: "nat \<Rightarrow> ptr \<Rightarrow> gc_state \<Rightarrow> gc_state option" where
  "zval_scan_black 0 pz g = None"
| "zval_scan_black (Suc fuel) pz g =
     do { g \<leftarrow> GC_ZVAL_SET_BLACK pz g;
          z \<leftarrow> zvals g pz;
          (case z_value z of
             IS_OBJECT h \<Rightarrow>
               if object_buckets g = None then Some g
               else do { g \<leftarrow> obj_refcount_add 1 h g;
                         obj \<leftarrow> obj_at g h;
                         if GC_GET_COLOR (obj_buffered obj) \<noteq> GC_BLACK then object_scan_black (zval_scan_black fuel) h g
                         else Some g }
           | IS_ARRAY st ps \<Rightarrow> if st then Some g else foldo (black_child (zval_scan_black fuel)) ps g
           | _ \<Rightarrow> Some g) }"

definition zobj_scan_black :: "nat \<Rightarrow> uint \<Rightarrow> gc_state \<Rightarrow> gc_state option" where
  "zobj_scan_black fuel h g = object_scan_black (zval_scan_black fuel) h g"

section \<open>Marking grey\<close>

definition grey_child :: "(ptr \<Rightarrow> gc_state \<Rightarrow> gc_state option) \<Rightarrow> ptr \<Rightarrow> gc_state \<Rightarrow> gc_state option" where
  "grey_child visit pz g = do { g \<leftarrow> zval_refcount_add (- 1) pz g; visit pz g }"

definition object_mark_grey :: "(ptr \<Rightarrow> gc_state \<Rightarrow> gc_state option) \<Rightarrow> uint \<Rightarrow> gc_state \<Rightarrow> gc_state option" where
  "object_mark_grey visit h g =
     do { obj \<leftarrow> obj_at g h;
          if GC_GET_COLOR (obj_buffered obj) \<noteq> GC_GREY
          then do { g \<leftarrow> obj_set_color GC_GREY h g; gc_props (grey_child visit) obj g }
          else Some g }"

primrec zval_mark_grey :: "nat \<Rightarrow> ptr \<Rightarrow> gc_state \<Rightarrow> gc_state option" where
  "zval_mark_grey 0 pz g = None"
| "zval_mark_grey (Suc fuel) pz g =
     do { z \<leftarrow> zvals g pz;
          if GC_GET_COLOR (u z) \<noteq> GC_GREY
          then do { g \<leftarrow> GC_ZVAL_SET_COLOR GC_GREY pz g;
                    (case z_value z of
                       IS_OBJECT h \<Rightarrow>
                         if object_buckets g = None then Some g
                         else do { g \<leftarrow> obj_refcount_add (- 1) h g; object_mark_grey (zval_mark_grey fuel) h g }
                     | IS_ARRAY st ps \<Rightarrow>
                         if st then GC_ZVAL_SET_BLACK pz g else foldo (grey_child (zval_mark_grey fuel)) ps g
                     | _ \<Rightarrow> Some g) }
          else Some g }"

definition zobj_mark_grey :: "nat \<Rightarrow> uint \<Rightarrow> gc_state \<Rightarrow> gc_state option" where
  "zobj_mark_grey fuel h g = object_mark_grey (zval_mark_grey fuel) h g"

definition mark_root :: "nat \<Rightarrow> nat \<Rightarrow> gc_state \<Rightarrow> (gc_state \<times> nat option) option" where
  "mark_root fuel current g =
     do { b \<leftarrow> root_bufs g current;
          g \<leftarrow>
            (if rb_handle b \<noteq> 0
             then if object_buckets g = None then Some g
                  else do { obj \<leftarrow> obj_at g (rb_handle b);
                            if GC_GET_COLOR (obj_buffered obj) = GC_PURPLE then zobj_mark_grey fuel (rb_handle b) g
                            else do { g \<leftarrow> opoke (rb_handle b) (\<lambda>obj. obj\<lparr>obj_buffered := GC_SET_ADDRESS GC_NULL (obj_buffered obj)\<rparr>) g;
                                      gc_remove_from_buffer current g } }
             else do { z \<leftarrow> zvals g (rb_pz b);
                       if GC_GET_COLOR (u z) = GC_PURPLE then zval_mark_grey fuel (rb_pz b) g
                       else do { g \<leftarrow> GC_ZVAL_SET_ADDRESS GC_NULL (rb_pz b) g;
                                 gc_remove_from_buffer current g } });
          b \<leftarrow> root_bufs g current;
          Some (g, rb_next b) }"

definition gc_mark_roots :: "nat \<Rightarrow> gc_state \<Rightarrow> gc_state option" where
  "gc_mark_roots fuel g = iterate (mark_root fuel) (roots_next g) g"

section \<open>Scanning\<close>

definition object_scan :: "nat \<Rightarrow> (ptr \<Rightarrow> gc_state \<Rightarrow> gc_state option) \<Rightarrow> uint \<Rightarrow> gc_state \<Rightarrow> gc_state option" where
  "object_scan fuel visit h g =
     do { obj \<leftarrow> obj_at g h;
          if GC_GET_COLOR (obj_buffered obj) = GC_GREY
          then if obj_refcount obj > 0 then zobj_scan_black fuel h g
               else do { g \<leftarrow> obj_set_color GC_WHITE h g; gc_props visit obj g }
          else Some g }"

primrec zval_scan :: "nat \<Rightarrow> ptr \<Rightarrow> gc_state \<Rightarrow> gc_state option" where
  "zval_scan 0 pz g = None"
| "zval_scan (Suc fuel) pz g =
     do { z \<leftarrow> zvals g pz;
          if GC_GET_COLOR (u z) = GC_GREY
          then if refcount__gc z > 0 then zval_scan_black fuel pz g
               else do { g \<leftarrow> GC_ZVAL_SET_COLOR GC_WHITE pz g;
                         (case z_value z of
                            IS_OBJECT h \<Rightarrow> if object_buckets g = None then Some g else object_scan fuel (zval_scan fuel) h g
                          | IS_ARRAY st ps \<Rightarrow> if st then GC_ZVAL_SET_BLACK pz g else foldo (zval_scan fuel) ps g
                          | _ \<Rightarrow> Some g) }
          else Some g }"

definition zobj_scan :: "nat \<Rightarrow> uint \<Rightarrow> gc_state \<Rightarrow> gc_state option" where
  "zobj_scan fuel h g = (if object_buckets g = None then Some g else object_scan fuel (zval_scan fuel) h g)"

definition scan_root :: "nat \<Rightarrow> nat \<Rightarrow> gc_state \<Rightarrow> (gc_state \<times> nat option) option" where
  "scan_root fuel current g =
     do { b \<leftarrow> root_bufs g current;
          g \<leftarrow> (if rb_handle b \<noteq> 0 then zobj_scan fuel (rb_handle b) g else zval_scan fuel (rb_pz b) g);
          b \<leftarrow> root_bufs g current;
          Some (g, rb_next b) }"

definition gc_scan_roots :: "nat \<Rightarrow> gc_state \<Rightarrow> gc_state option" where
  "gc_scan_roots fuel g = iterate (scan_root fuel) (roots_next g) g"

section \<open>Collecting\<close>

definition put_to_free :: "ptr \<Rightarrow> gc_state \<Rightarrow> gc_state option" where
  "put_to_free pz g =
     do { g \<leftarrow> zpoke pz (\<lambda>z. z\<lparr>refcount__gc := refcount__gc z + 1\<rparr>) g;
          g \<leftarrow> zpoke pz (\<lambda>z. z\<lparr>u := plain (zval_to_free g)\<rparr>) g;
          Some (g\<lparr>zval_to_free := Zval pz\<rparr>) }"

definition white_child :: "(ptr \<Rightarrow> gc_state \<Rightarrow> gc_state option) \<Rightarrow> ptr \<Rightarrow> gc_state \<Rightarrow> gc_state option" where
  "white_child visit pz g = do { g \<leftarrow> zval_refcount_add 1 pz g; visit pz g }"

primrec zval_collect_white :: "nat \<Rightarrow> ptr \<Rightarrow> gc_state \<Rightarrow> gc_state option" where
  "zval_collect_white 0 pz g = None"
| "zval_collect_white (Suc fuel) pz g =
     do { z \<leftarrow> zvals g pz;
          if u z = white_null
          then do { g \<leftarrow> GC_ZVAL_SET_BLACK pz g;
                    let visit = white_child (zval_collect_white fuel);
                    (case z_value z of
                       IS_OBJECT h \<Rightarrow>
                         if object_buckets g = None then put_to_free pz g
                         else do { obj \<leftarrow> obj_at g h;
                                   if obj_buffered obj = white_null
                                   then do { g \<leftarrow> opoke h (\<lambda>obj. obj\<lparr>obj_buffered := GC_SET_PURPLE (obj_buffered obj)\<rparr>) g;
                                             (case (if obj_valid obj then obj_get_gc obj else None) of
                                                None \<Rightarrow> put_to_free pz g
                                              | Some (table, None) \<Rightarrow>
                                                  do { g \<leftarrow> put_to_free pz g; foldo visit (table_zvals table) g }
                                              | Some (table, Some ps) \<Rightarrow>
                                                  do { g \<leftarrow> foldo visit (table_zvals table) g;
                                                       g \<leftarrow> put_to_free pz g;
                                                       foldo visit ps g }) }
                                   else put_to_free pz g }
                     | IS_ARRAY st ps \<Rightarrow> do { g \<leftarrow> put_to_free pz g; foldo visit ps g }
                     | _ \<Rightarrow> put_to_free pz g) }
          else Some g }"

definition zobj_collect_white :: "nat \<Rightarrow> uint \<Rightarrow> gc_state \<Rightarrow> gc_state option" where
  "zobj_collect_white fuel h g =
     (if object_buckets g = None then Some g
      else do { obj \<leftarrow> obj_at g h;
                if obj_buffered obj = white_null
                then do { g \<leftarrow> opoke h (\<lambda>obj. obj\<lparr>obj_buffered := GC_SET_PURPLE (obj_buffered obj)\<rparr>) g;
                          gc_props (white_child (zval_collect_white fuel)) obj g }
                else Some g })"

definition collect_root :: "nat \<Rightarrow> nat \<Rightarrow> gc_state \<Rightarrow> (gc_state \<times> nat option) option" where
  "collect_root fuel current g =
     do { b \<leftarrow> root_bufs g current;
          g \<leftarrow>
            (if rb_handle b \<noteq> 0
             then if object_buckets g = None then Some g
                  else do { g \<leftarrow> opoke (rb_handle b) (\<lambda>obj. obj\<lparr>obj_buffered := GC_SET_ADDRESS GC_NULL (obj_buffered obj)\<rparr>) g;
                            zobj_collect_white fuel (rb_handle b) g }
             else do { g \<leftarrow> GC_ZVAL_SET_ADDRESS GC_NULL (rb_pz b) g;
                       zval_collect_white fuel (rb_pz b) g });
          g \<leftarrow> gc_remove_from_buffer current g;
          b \<leftarrow> root_bufs g current;
          Some (g, rb_next b) }"

definition gc_collect_roots :: "nat \<Rightarrow> gc_state \<Rightarrow> gc_state option" where
  "gc_collect_roots fuel g = iterate (collect_root fuel) (roots_next g) g"

section \<open>A collection\<close>

text \<open>
  What a collection calls: the destructor of an object (code of the program that is run), the release of the last reference to
  an object, the release of the elements of an array, and of the value of a zval that is neither.
\<close>

record gc_handlers =
  h_dtor :: "uint \<Rightarrow> gc_state \<Rightarrow> gc_state option"
  h_del_ref :: "uint \<Rightarrow> gc_state \<Rightarrow> gc_state option"
  h_hash_destroy :: "ptr list \<Rightarrow> gc_state \<Rightarrow> gc_state option"
  h_zval_dtor :: "ptr \<Rightarrow> gc_state \<Rightarrow> gc_state option"

text \<open>
  The word \<open>u\<close> read as a pointer to the next zval: it is one only if its colour is black, and a cursor stops at the end of the list.
\<close>

definition u_next :: "gc_ref \<Rightarrow> gc_address option" where
  "u_next v = (if GC_GET_COLOR v = GC_BLACK then Some (GC_ADDRESS v) else None)"

definition zval_cursor :: "gc_address \<Rightarrow> ptr option option" where
  "zval_cursor a = (case a of Zval p \<Rightarrow> Some (Some p) | FREE_LIST_END \<Rightarrow> Some None | _ \<Rightarrow> None)"

definition gc_find_garbage :: "nat \<Rightarrow> gc_state \<Rightarrow> gc_state option" where
  "gc_find_garbage fuel g =
     do { let g = g\<lparr>gc_runs := gc_runs g + 1, zval_to_free := FREE_LIST_END, gc_active := True\<rparr>;
          g \<leftarrow> gc_mark_roots fuel g;
          g \<leftarrow> gc_scan_roots fuel g;
          gc_collect_roots fuel g }"

definition gc_call_destructor :: "gc_handlers \<Rightarrow> uint \<Rightarrow> gc_state \<Rightarrow> gc_state option" where
  "gc_call_destructor H h g =
     (if object_buckets g = None then Some g
      else do { obj \<leftarrow> obj_at g h;
                if obj_valid obj \<and> obj_refcount obj \<le> 0 \<and> obj_dtor obj \<and> \<not> obj_destructor_called obj
                then do { g \<leftarrow> opoke h (\<lambda>obj. obj\<lparr>obj_destructor_called := True\<rparr>) g;
                          g \<leftarrow> obj_refcount_add 1 h g;
                          g \<leftarrow> h_dtor H h g;
                          obj_refcount_add (- 1) h g }
                else Some g })"

definition destructor_step :: "gc_handlers \<Rightarrow> ptr \<Rightarrow> uint \<times> gc_state \<Rightarrow> ((uint \<times> gc_state) \<times> ptr option) option" where
  "destructor_step H p s =
     (case s of (count, g) \<Rightarrow>
        do { z \<leftarrow> zvals g p;
             g \<leftarrow> (case z_value z of IS_OBJECT h \<Rightarrow> gc_call_destructor H h g | _ \<Rightarrow> Some g);
             z \<leftarrow> zvals g p;
             a \<leftarrow> u_next (u z);
             next' \<leftarrow> zval_cursor a;
             Some ((count + 1, g), next') })"

definition set_null :: "ptr \<Rightarrow> gc_state \<Rightarrow> gc_state option" where
  "set_null p = zpoke p (\<lambda>z. z\<lparr>z_value := IS_NULL\<rparr>)"

definition destroy_zval :: "gc_handlers \<Rightarrow> ptr \<Rightarrow> gc_value \<Rightarrow> gc_state \<Rightarrow> gc_state option" where
  "destroy_zval H p v g =
     (case v of
        IS_OBJECT h \<Rightarrow>
          if object_buckets g = None then Some g
          else do { obj \<leftarrow> obj_at g h;
                    if obj_valid obj \<and> obj_refcount obj \<le> 0
                    then do { g \<leftarrow> opoke h (\<lambda>obj. obj\<lparr>obj_refcount := 1\<rparr>) g;
                              g \<leftarrow> set_null p g;
                              h_del_ref H h g }
                    else Some g }
      | IS_ARRAY st ps \<Rightarrow> do { g \<leftarrow> set_null p g; h_hash_destroy H ps g }
      | _ \<Rightarrow> do { g \<leftarrow> h_zval_dtor H p g; set_null p g })"

definition destroy_step :: "gc_handlers \<Rightarrow> ptr \<Rightarrow> gc_state \<Rightarrow> (gc_state \<times> ptr option) option" where
  "destroy_step H p g =
     do { z \<leftarrow> zvals g p;
          a \<leftarrow> u_next (u z);
          g \<leftarrow> destroy_zval H p (z_value z) (g\<lparr>next_to_free := a\<rparr>);
          next' \<leftarrow> zval_cursor (next_to_free g);
          Some (g, next') }"

definition free_step :: "ptr \<Rightarrow> gc_state \<Rightarrow> (gc_state \<times> ptr option) option" where
  "free_step p g =
     do { z \<leftarrow> zvals g p;
          q \<leftarrow> u_next (u z);
          next' \<leftarrow> zval_cursor q;
          Some (g\<lparr>zvals := (zvals g)(p := None)\<rparr>, next') }"

definition gc_collect_cycles :: "gc_handlers \<Rightarrow> nat \<Rightarrow> gc_state \<Rightarrow> (uint \<times> gc_state) option" where
  "gc_collect_cycles H fuel g =
     (if roots_next g = None \<or> gc_active g then Some (0, g)
      else do { g \<leftarrow> gc_find_garbage fuel g;
                let orig_free_list = free_list g;
                let orig_next_to_free = next_to_free g;
                let g = g\<lparr>free_list := zval_to_free g, zval_to_free := GC_NULL, gc_active := False\<rparr>;
                p \<leftarrow> zval_cursor (free_list g);
                (count, g) \<leftarrow> iterate (destructor_step H) p (0, g);
                p \<leftarrow> zval_cursor (free_list g);
                g \<leftarrow> iterate (destroy_step H) p g;
                p \<leftarrow> zval_cursor (free_list g);
                g \<leftarrow> iterate free_step p g;
                Some (count, g\<lparr>gc_collected := gc_collected g + count, free_list := orig_free_list, next_to_free := orig_next_to_free\<rparr>) })"

section \<open>Entering and leaving the buffer\<close>

text \<open>
  An entry for a new root: an unused one, or the first that was never used, or, when the buffer is full, one that a collection
  has released; there may be none.
\<close>

definition gc_new_root :: "gc_handlers \<Rightarrow> nat \<Rightarrow> ptr \<Rightarrow> gc_state \<Rightarrow> (nat option \<times> gc_state) option" where
  "gc_new_root H fuel zv g =
     (case unused g of
        Some i \<Rightarrow> do { b \<leftarrow> root_bufs g i; Some (Some i, g\<lparr>unused := rb_prev b\<rparr>) }
      | None \<Rightarrow>
          if first_unused g \<noteq> last_unused g then Some (Some (first_unused g), g\<lparr>first_unused := first_unused g + 1\<rparr>)
          else if \<not> gc_enabled g then Some (None, g)
          else do { g \<leftarrow> zpoke zv (\<lambda>z. z\<lparr>refcount__gc := refcount__gc z + 1\<rparr>) g;
                    (_, g) \<leftarrow> gc_collect_cycles H fuel g;
                    g \<leftarrow> zpoke zv (\<lambda>z. z\<lparr>refcount__gc := refcount__gc z - 1\<rparr>) g;
                    (case unused g of
                       None \<Rightarrow> Some (None, g)
                     | Some i \<Rightarrow> do { b \<leftarrow> root_bufs g i; Some (Some i, g\<lparr>unused := rb_prev b\<rparr>) }) })"

definition gc_zobj_possible_root :: "gc_handlers \<Rightarrow> nat \<Rightarrow> ptr \<Rightarrow> uint \<Rightarrow> gc_state \<Rightarrow> gc_state option" where
  "gc_zobj_possible_root H fuel zv h g =
     (if object_buckets g = None then Some g
      else do { obj \<leftarrow> obj_at g h;
                if obj_get_gc obj = None then Some g
                else if GC_GET_COLOR (obj_buffered obj) \<noteq> GC_PURPLE \<and> GC_ADDRESS (obj_buffered obj) = GC_NULL
                then do { (newRoot, g) \<leftarrow> gc_new_root H fuel zv g;
                          (case newRoot of
                             None \<Rightarrow> Some g
                           | Some i \<Rightarrow>
                               do { g \<leftarrow> opoke h (\<lambda>obj. obj\<lparr>obj_buffered := GC_SET_PURPLE (obj_buffered obj)\<rparr>) g;
                                    g \<leftarrow> gc_link_root i h 0 g;
                                    opoke h (\<lambda>obj. obj\<lparr>obj_buffered := GC_SET_ADDRESS (Root i) (obj_buffered obj)\<rparr>) g }) }
                else Some g })"

definition GC_ZOBJ_CHECK_POSSIBLE_ROOT :: "gc_handlers \<Rightarrow> nat \<Rightarrow> ptr \<Rightarrow> uint \<Rightarrow> gc_state \<Rightarrow> gc_state option" where
  "GC_ZOBJ_CHECK_POSSIBLE_ROOT H fuel zv h g =
     (if object_buckets g = None then Some g
      else do { obj \<leftarrow> obj_at g h;
                if obj_valid obj then gc_zobj_possible_root H fuel zv h g else Some g })"

text \<open>An address outside of the buffer is that of a zval in the list of zvals to free.\<close>

definition in_buffer :: "gc_state \<Rightarrow> gc_address \<Rightarrow> bool" where
  "in_buffer g a = (case a of Root i \<Rightarrow> i < last_unused g | _ \<Rightarrow> False)"

definition gc_zval_possible_root :: "gc_handlers \<Rightarrow> nat \<Rightarrow> ptr \<Rightarrow> gc_state \<Rightarrow> gc_state option" where
  "gc_zval_possible_root H fuel zv g =
     do { z \<leftarrow> zvals g zv;
          if free_list g \<noteq> GC_NULL \<and> GC_ADDRESS (u z) \<noteq> GC_NULL \<and> GC_GET_COLOR (u z) = GC_BLACK \<and> \<not> in_buffer g (GC_ADDRESS (u z))
          then Some g
          else (case z_value z of
                  IS_OBJECT h \<Rightarrow> GC_ZOBJ_CHECK_POSSIBLE_ROOT H fuel zv h g
                | _ \<Rightarrow>
                    if GC_GET_COLOR (u z) \<noteq> GC_PURPLE \<and> GC_ADDRESS (u z) = GC_NULL
                    then do { (newRoot, g) \<leftarrow> gc_new_root H fuel zv g;
                              (case newRoot of
                                 None \<Rightarrow> Some g
                               | Some i \<Rightarrow>
                                   do { g \<leftarrow> GC_ZVAL_SET_PURPLE zv g;
                                        g \<leftarrow> gc_link_root i 0 zv g;
                                        GC_ZVAL_SET_ADDRESS (Root i) zv g }) }
                    else Some g) }"

definition gc_zval_check_possible_root :: "gc_handlers \<Rightarrow> nat \<Rightarrow> ptr \<Rightarrow> gc_state \<Rightarrow> gc_state option" where
  "gc_zval_check_possible_root H fuel zv g =
     do { z \<leftarrow> zvals g zv;
          (case z_value z of
             IS_ARRAY _ _ \<Rightarrow> gc_zval_possible_root H fuel zv g
           | IS_OBJECT _ \<Rightarrow> gc_zval_possible_root H fuel zv g
           | _ \<Rightarrow> Some g) }"

definition gc_remove_zval_from_buffer :: "ptr \<Rightarrow> gc_state \<Rightarrow> gc_state option" where
  "gc_remove_zval_from_buffer zv g =
     do { z \<leftarrow> zvals g zv;
          if free_list g \<noteq> GC_NULL \<and> GC_GET_COLOR (u z) = GC_BLACK \<and> \<not> in_buffer g (GC_ADDRESS (u z))
          then Some (if next_to_free g = Zval zv then g\<lparr>next_to_free := GC_ADDRESS (u z)\<rparr> else g)
          else (case GC_ADDRESS (u z) of
                  Root root_buffer \<Rightarrow>
                    do { g \<leftarrow> gc_remove_from_buffer root_buffer g;
                         zpoke zv (\<lambda>z. z\<lparr>u := plain GC_NULL\<rparr>) g }
                | _ \<Rightarrow> None) }"

definition GC_REMOVE_ZVAL_FROM_BUFFER :: "ptr \<Rightarrow> gc_state \<Rightarrow> gc_state option" where
  "GC_REMOVE_ZVAL_FROM_BUFFER zv g =
     do { z \<leftarrow> zvals g zv;
          if GC_ADDRESS (u z) \<noteq> GC_NULL then gc_remove_zval_from_buffer zv g else Some g }"

definition gc_remove_zobj_from_buffer :: "uint \<Rightarrow> gc_state \<Rightarrow> gc_state option" where
  "gc_remove_zobj_from_buffer h g =
     do { obj \<leftarrow> obj_at g h;
          if GC_ADDRESS (obj_buffered obj) \<noteq> GC_NULL \<and> \<not> gc_active g
          then (case GC_ADDRESS (obj_buffered obj) of
                  Root i \<Rightarrow>
                    do { g \<leftarrow> gc_remove_from_buffer i g;
                         opoke h (\<lambda>obj. obj\<lparr>obj_buffered := plain GC_NULL\<rparr>) g }
                | _ \<Rightarrow> None)
          else Some g }"

end
