(* ===== verification/Zend_Gc_Phases.thy ===== *)
theory Zend_Gc_Phases
  imports Zend_Gc
begin

text \<open>
  The traversals of the cycle collector implement the flooding and scanning of the graph of zvals and objects.
\<close>

section \<open>The graph of a state\<close>

definition obj_zvals :: "store_object \<Rightarrow> ptr list" where
  "obj_zvals obj =
     (case (if obj_valid obj then obj_get_gc obj else None) of
        None \<Rightarrow> []
      | Some (table, props) \<Rightarrow> table_zvals table @ (case props of None \<Rightarrow> [] | Some ps \<Rightarrow> ps))"

definition ref_at :: "gc_state \<Rightarrow> node \<Rightarrow> gc_ref option" where
  "ref_at g n = (case n of Val p \<Rightarrow> map_option u (zvals g p) | Obj h \<Rightarrow> map_option obj_buffered (obj_at g h))"

definition col :: "gc_state \<Rightarrow> node \<Rightarrow> gc_color" where
  "col g n = (case ref_at g n of None \<Rightarrow> GC_BLACK | Some v \<Rightarrow> GC_GET_COLOR v)"

definition addr :: "gc_state \<Rightarrow> node \<Rightarrow> gc_address" where
  "addr g n = (case ref_at g n of None \<Rightarrow> GC_NULL | Some v \<Rightarrow> GC_ADDRESS v)"

definition cnt :: "gc_state \<Rightarrow> node \<Rightarrow> uint" where
  "cnt g n = (case n of
     Val p \<Rightarrow> (case zvals g p of None \<Rightarrow> 0 | Some z \<Rightarrow> refcount__gc z)
   | Obj h \<Rightarrow> (case obj_at g h of None \<Rightarrow> 0 | Some obj \<Rightarrow> obj_refcount obj))"

definition abs_of :: "gc_state \<Rightarrow> marking" where
  "abs_of g = (col g, cnt g)"

definition glb :: "gc_state \<Rightarrow> node \<Rightarrow> bool" where
  "glb g n = (case n of Val p \<Rightarrow> (case zvals g p of None \<Rightarrow> False | Some z \<Rightarrow> symbol_table z) | Obj h \<Rightarrow> False)"

definition sc :: "gc_state \<Rightarrow> node \<Rightarrow> node list" where
  "sc g n = (case n of
     Val p \<Rightarrow> (case zvals g p of
        None \<Rightarrow> []
      | Some z \<Rightarrow> (case z_value z of
                     IS_ARRAY st ps \<Rightarrow> if st then [] else map Val ps
                   | IS_OBJECT h \<Rightarrow> if object_buckets g = None then [] else [Obj h]
                   | _ \<Rightarrow> []))
   | Obj h \<Rightarrow> (case obj_at g h of None \<Rightarrow> [] | Some obj \<Rightarrow> map Val (obj_zvals obj)))"

definition nodes :: "gc_state \<Rightarrow> node set" where
  "nodes g = Val ` dom (zvals g) \<union> Obj ` {h. obj_at g h \<noteq> None}"

text \<open>Everything but the colours and the counts.\<close>

definition skel where
  "skel g =
     (\<lambda>p. map_option (\<lambda>z. (z_value z, GC_ADDRESS (u z))) (zvals g p),
      map_option (\<lambda>m h. map_option (\<lambda>obj. obj\<lparr>obj_refcount := 0, obj_buffered := plain (GC_ADDRESS (obj_buffered obj))\<rparr>) (m h)) (object_buckets g),
      g\<lparr>zvals := Map.empty, object_buckets := None\<rparr>)"

lemma skel_zvals: "skel g' = skel g \<Longrightarrow> map_option (\<lambda>z. (z_value z, GC_ADDRESS (u z))) (zvals g' p) = map_option (\<lambda>z. (z_value z, GC_ADDRESS (u z))) (zvals g p)"
  by (simp add: skel_def) (metis (no_types))

lemma skel_obj:
  assumes "skel g' = skel g"
  shows "map_option (\<lambda>obj. obj\<lparr>obj_refcount := 0, obj_buffered := plain (GC_ADDRESS (obj_buffered obj))\<rparr>) (obj_at g' h) =
    map_option (\<lambda>obj. obj\<lparr>obj_refcount := 0, obj_buffered := plain (GC_ADDRESS (obj_buffered obj))\<rparr>) (obj_at g h)"
proof -
  have "map_option (\<lambda>m h. map_option (\<lambda>obj. obj\<lparr>obj_refcount := 0, obj_buffered := plain (GC_ADDRESS (obj_buffered obj))\<rparr>) (m h)) (object_buckets g') =
    map_option (\<lambda>m h. map_option (\<lambda>obj. obj\<lparr>obj_refcount := 0, obj_buffered := plain (GC_ADDRESS (obj_buffered obj))\<rparr>) (m h)) (object_buckets g)"
    using assms by (simp add: skel_def)
  then show ?thesis by (cases "object_buckets g"; cases "object_buckets g'") (auto simp: obj_at_def dest: fun_cong [of _ _ h])
qed

lemma skel_globals: "skel g' = skel g \<Longrightarrow> g'\<lparr>zvals := Map.empty, object_buckets := None\<rparr> = g\<lparr>zvals := Map.empty, object_buckets := None\<rparr>"
  by (simp add: skel_def)

lemma skel_buckets:
  assumes "skel g' = skel g"
  shows "object_buckets g' = None \<longleftrightarrow> object_buckets g = None"
proof -
  have "fst (snd (skel g')) = None \<longleftrightarrow> fst (snd (skel g)) = None" using assms by simp
  then show ?thesis by (simp add: skel_def)
qed

lemma skel_val_cases:
  assumes "skel g' = skel g"
  shows "(\<exists>z z'. zvals g' p = Some z' \<and> zvals g p = Some z \<and> z_value z' = z_value z \<and> GC_ADDRESS (u z') = GC_ADDRESS (u z)) \<or>
      zvals g' p = None \<and> zvals g p = None"
  using skel_zvals [OF assms, of p] by (cases "zvals g p"; cases "zvals g' p") simp_all

lemma skel_obj_cases:
  assumes "skel g' = skel g"
  shows "(\<exists>ob ob'. obj_at g' h = Some ob' \<and> obj_at g h = Some ob \<and> obj_zvals ob' = obj_zvals ob \<and>
      GC_ADDRESS (obj_buffered ob') = GC_ADDRESS (obj_buffered ob)) \<or> obj_at g' h = None \<and> obj_at g h = None"
proof (cases "obj_at g h")
  case None
  then show ?thesis using skel_obj [OF assms, of h] by simp
next
  case (Some ob)
  then obtain ob' where ob': "obj_at g' h = Some ob'" "ob'\<lparr>obj_refcount := 0, obj_buffered := plain (GC_ADDRESS (obj_buffered ob'))\<rparr> =
      ob\<lparr>obj_refcount := 0, obj_buffered := plain (GC_ADDRESS (obj_buffered ob))\<rparr>"
    using skel_obj [OF assms, of h] by auto
  have "obj_valid ob' = obj_valid ob" using arg_cong [OF ob'(2), of obj_valid] by simp
  moreover have "obj_get_gc ob' = obj_get_gc ob" using arg_cong [OF ob'(2), of obj_get_gc] by simp
  moreover have "GC_ADDRESS (obj_buffered ob') = GC_ADDRESS (obj_buffered ob)"
    using arg_cong [OF ob'(2), of "\<lambda>x. GC_ADDRESS (obj_buffered x)"] by (simp add: plain_def)
  ultimately show ?thesis using Some ob'(1) by (simp add: obj_zvals_def)
qed

lemma skel_graph:
  assumes "skel g' = skel g"
  shows "sc g' = sc g" "glb g' = glb g" "nodes g' = nodes g" "addr g' = addr g" "dom (zvals g') = dom (zvals g)"
proof -
  note zc = skel_val_cases [OF assms] and oc = skel_obj_cases [OF assms] and b = skel_buckets [OF assms]
  have "zvals g' p = None \<longleftrightarrow> zvals g p = None" for p using zc [of p] by auto
  then show d: "dom (zvals g') = dom (zvals g)" by (simp add: dom_def)
  show "sc g' = sc g"
  proof
    fix n show "sc g' n = sc g n"
    proof (cases n)
      case (Val p)
      then show ?thesis using zc [of p] b by (auto simp: sc_def split: gc_value.splits)
    next
      case (Obj h)
      then show ?thesis using oc [of h] by (auto simp: sc_def)
    qed
  qed
  show "glb g' = glb g"
  proof
    fix n show "glb g' n = glb g n"
    proof (cases n)
      case (Val p)
      then show ?thesis using zc [of p] by (auto simp: glb_def symbol_table_def)
    qed (simp add: glb_def)
  qed
  show "addr g' = addr g"
  proof
    fix n show "addr g' n = addr g n"
    proof (cases n)
      case (Val p)
      then show ?thesis using zc [of p] by (auto simp: addr_def ref_at_def)
    next
      case (Obj h)
      then show ?thesis using oc [of h] by (auto simp: addr_def ref_at_def)
    qed
  qed
  have "obj_at g' h = None \<longleftrightarrow> obj_at g h = None" for h using oc [of h] by auto
  then show "nodes g' = nodes g" using d by (simp add: nodes_def)
qed

section \<open>The effect of the operations\<close>

lemma zpoke_skel:
  assumes "zpoke p f g = Some g'" "\<And>z. z_value (f z) = z_value z" "\<And>z. GC_ADDRESS (u (f z)) = GC_ADDRESS (u z)"
  shows "skel g' = skel g"
proof -
  obtain z where z: "zvals g p = Some z" "g' = g\<lparr>zvals := (zvals g)(p \<mapsto> f z)\<rparr>"
    using assms(1) by (auto simp: zpoke_def poke_def split: option.splits)
  then show ?thesis using assms(2,3) by (auto simp: skel_def fun_eq_iff)
qed

lemma opoke_skel:
  assumes "opoke h f g = Some g'"
    "\<And>ob. (f ob)\<lparr>obj_refcount := 0, obj_buffered := plain (GC_ADDRESS (obj_buffered (f ob)))\<rparr> = ob\<lparr>obj_refcount := 0, obj_buffered := plain (GC_ADDRESS (obj_buffered ob))\<rparr>"
  shows "skel g' = skel g"
proof -
  obtain m ob where m: "object_buckets g = Some m" "m h = Some ob" "g' = g\<lparr>object_buckets := Some (m(h \<mapsto> f ob))\<rparr>"
    using assms(1) by (auto simp: opoke_def poke_def split: option.splits bind_splits)
  then show ?thesis using assms(2) by (auto simp: skel_def fun_eq_iff)
qed

lemma zpoke_abs:
  assumes "zpoke p f g = Some g'"
  shows "\<exists>z. zvals g p = Some z \<and> abs_of g' = ((col g)(Val p := GC_GET_COLOR (u (f z))), (cnt g)(Val p := refcount__gc (f z)))"
proof -
  obtain z where z: "zvals g p = Some z" "g' = g\<lparr>zvals := (zvals g)(p \<mapsto> f z)\<rparr>"
    using assms by (auto simp: zpoke_def poke_def split: option.splits)
  then have "obj_at g' = obj_at g" by (simp add: obj_at_def fun_eq_iff)
  then have "abs_of g' = ((col g)(Val p := GC_GET_COLOR (u (f z))), (cnt g)(Val p := refcount__gc (f z)))"
    using z by (auto simp: abs_of_def col_def cnt_def ref_at_def fun_eq_iff split: node.splits)
  then show ?thesis using z by blast
qed

lemma opoke_abs:
  assumes "opoke h f g = Some g'"
  shows "\<exists>ob. obj_at g h = Some ob \<and> abs_of g' = ((col g)(Obj h := GC_GET_COLOR (obj_buffered (f ob))), (cnt g)(Obj h := obj_refcount (f ob)))"
proof -
  obtain m ob where m: "object_buckets g = Some m" "m h = Some ob" "g' = g\<lparr>object_buckets := Some (m(h \<mapsto> f ob))\<rparr>"
    using assms by (auto simp: opoke_def poke_def split: option.splits bind_splits)
  then have "obj_at g' = (obj_at g)(h \<mapsto> f ob)" by (simp add: obj_at_def fun_eq_iff)
  then have "abs_of g' = ((col g)(Obj h := GC_GET_COLOR (obj_buffered (f ob))), (cnt g)(Obj h := obj_refcount (f ob)))"
    using m by (auto simp: abs_of_def col_def cnt_def ref_at_def fun_eq_iff split: node.splits)
  moreover have "obj_at g h = Some ob" using m by (simp add: obj_at_def)
  ultimately show ?thesis by blast
qed

lemma zpoke_ok: "Val p \<in> nodes g \<Longrightarrow> \<exists>g'. zpoke p f g = Some g'"
  by (auto simp: nodes_def zpoke_def poke_def)

lemma opoke_ok: "Obj h \<in> nodes g \<Longrightarrow> \<exists>g'. opoke h f g = Some g'"
  by (auto simp: nodes_def opoke_def poke_def obj_at_def split: bind_splits)

lemma zval_at: "zvals g p = Some z \<Longrightarrow> col g (Val p) = GC_GET_COLOR (u z) \<and> cnt g (Val p) = refcount__gc z \<and> glb g (Val p) = symbol_table z"
  by (simp add: col_def cnt_def ref_at_def glb_def)

lemma object_at: "obj_at g h = Some ob \<Longrightarrow> col g (Obj h) = GC_GET_COLOR (obj_buffered ob) \<and> cnt g (Obj h) = obj_refcount ob \<and> \<not> glb g (Obj h)"
  by (simp add: col_def cnt_def ref_at_def glb_def)

lemma set_color_effect:
  assumes "GC_ZVAL_SET_COLOR c p g = Some g'"
  shows "skel g' = skel g \<and> abs_of g' = ((col g)(Val p := c), cnt g)"
proof -
  note e = assms [unfolded GC_ZVAL_SET_COLOR_def]
  have "skel g' = skel g" by (rule zpoke_skel [OF e]) (simp_all add: GC_SET_COLOR_def)
  moreover obtain z where z: "zvals g p = Some z" "abs_of g' = ((col g)(Val p := c), (cnt g)(Val p := refcount__gc z))"
    using zpoke_abs [OF e] by (auto simp: GC_SET_COLOR_def)
  ultimately show ?thesis using zval_at [OF z(1)] by (simp add: fun_upd_idem)
qed

lemma set_black_effect: "GC_ZVAL_SET_BLACK p = GC_ZVAL_SET_COLOR GC_BLACK p"
  by (simp add: GC_ZVAL_SET_BLACK_def GC_ZVAL_SET_COLOR_def GC_SET_BLACK_def GC_SET_COLOR_def)

lemma obj_color_effect:
  assumes "obj_set_color c h g = Some g'"
  shows "skel g' = skel g \<and> abs_of g' = ((col g)(Obj h := c), cnt g)"
proof -
  note e = assms [unfolded obj_set_color_def]
  have "skel g' = skel g" by (rule opoke_skel [OF e]) (simp_all add: GC_SET_COLOR_def)
  moreover obtain ob where ob: "obj_at g h = Some ob" "abs_of g' = ((col g)(Obj h := c), (cnt g)(Obj h := obj_refcount ob))"
    using opoke_abs [OF e] by (auto simp: GC_SET_COLOR_def)
  ultimately show ?thesis using object_at [OF ob(1)] by (simp add: fun_upd_idem)
qed

lemma obj_black_effect: "opoke h (\<lambda>obj. obj\<lparr>obj_buffered := GC_SET_BLACK (obj_buffered obj)\<rparr>) = obj_set_color GC_BLACK h"
  by (simp add: obj_set_color_def GC_SET_BLACK_def GC_SET_COLOR_def)

lemma refcount_effect:
  assumes "zval_refcount_add d p g = Some g'"
  shows "skel g' = skel g \<and> abs_of g' = (col g, recount (glb g) d (Val p) (cnt g))"
proof -
  obtain z where z: "zvals g p = Some z" using assms by (auto simp: zval_refcount_add_def split: bind_splits)
  show ?thesis
  proof (cases "symbol_table z")
    case True
    then show ?thesis using assms z zval_at [OF z] by (simp add: zval_refcount_add_def abs_of_def recount_def)
  next
    case False
    then have e: "zpoke p (\<lambda>z. z\<lparr>refcount__gc := refcount__gc z + d\<rparr>) g = Some g'" using assms z by (simp add: zval_refcount_add_def)
    have "skel g' = skel g" by (rule zpoke_skel [OF e]) simp_all
    then show ?thesis using zpoke_abs [OF e] zval_at [OF z] False z by (auto simp: recount_def fun_upd_idem)
  qed
qed

lemma obj_refcount_effect:
  assumes "obj_refcount_add d h g = Some g'"
  shows "skel g' = skel g \<and> abs_of g' = (col g, recount (glb g) d (Obj h) (cnt g))"
proof -
  note e = assms [unfolded obj_refcount_add_def]
  have "skel g' = skel g" by (rule opoke_skel [OF e]) simp
  moreover obtain ob where ob: "obj_at g h = Some ob"
      "abs_of g' = ((col g)(Obj h := GC_GET_COLOR (obj_buffered ob)), (cnt g)(Obj h := obj_refcount ob + d))"
    using opoke_abs [OF e] by auto
  ultimately show ?thesis using object_at [OF ob(1)] by (simp add: recount_def fun_upd_idem)
qed

section \<open>Visiting lists of zvals\<close>

text \<open>
  A function on zvals implements a relation on the markings of the graph, and does not change the graph. Then a loop over a
  list of zvals implements the chain of the relation.
\<close>

type_synonym visit_rel = "(node \<Rightarrow> node list) \<Rightarrow> (node \<Rightarrow> bool) \<Rightarrow> marking \<Rightarrow> node \<Rightarrow> marking \<Rightarrow> bool"

definition implements :: "visit_rel \<Rightarrow> (ptr \<Rightarrow> gc_state \<Rightarrow> gc_state option) \<Rightarrow> bool" where
  "implements R child \<longleftrightarrow> (\<forall>p g g'. child p g = Some g' \<longrightarrow> skel g' = skel g \<and> R (sc g) (glb g) (abs_of g) (Val p) (abs_of g'))"

fun chain :: "(marking \<Rightarrow> node \<Rightarrow> marking \<Rightarrow> bool) \<Rightarrow> marking \<Rightarrow> node list \<Rightarrow> marking \<Rightarrow> bool" where
  "chain R s [] s' \<longleftrightarrow> s' = s"
| "chain R s (n # ns) s' \<longleftrightarrow> (\<exists>s1. R s n s1 \<and> chain R s1 ns s')"

lemma chain_append: "chain R s (ms @ ns) s' \<longleftrightarrow> (\<exists>s1. chain R s ms s1 \<and> chain R s1 ns s')"
  by (induction ms arbitrary: s) auto

lemma foldo_append: "foldo f (xs @ ys) s = Option.bind (foldo f xs s) (foldo f ys)"
proof (induction xs arbitrary: s)
  case (Cons a xs)
  then show ?case by (cases "f a s") simp_all
qed simp

lemma gc_props_foldo: "gc_props child obj g = foldo child (obj_zvals obj) g"
proof (cases "if obj_valid obj then obj_get_gc obj else None")
  case (Some tp)
  then show ?thesis by (cases tp; cases "snd tp") (auto simp: gc_props_def obj_zvals_def foldo_append split: bind_splits)
qed (simp add: gc_props_def obj_zvals_def)

lemma foldo_implements:
  assumes "implements R child" "foldo child ps g = Some g'"
  shows "skel g' = skel g \<and> chain (R (sc g) (glb g)) (abs_of g) (map Val ps) (abs_of g')"
  using assms(2)
proof (induction ps arbitrary: g)
  case (Cons p ps)
  obtain g1 where g1: "child p g = Some g1" "foldo child ps g1 = Some g'" using Cons.prems by (auto split: bind_splits)
  have f: "skel g1 = skel g" "R (sc g) (glb g) (abs_of g) (Val p) (abs_of g1)" using assms(1) g1(1) by (auto simp: implements_def)
  have "chain (R (sc g) (glb g)) (abs_of g1) (map Val ps) (abs_of g')" "skel g' = skel g"
    using Cons.IH [OF g1(2)] skel_graph(1,2) [OF f(1)] f(1) by simp_all
  then show ?case using f(2) unfolding list.map chain.simps by blast
qed simp

section \<open>Flooding\<close>

definition flood_edge :: "gc_color \<Rightarrow> uint \<Rightarrow> visit_rel" where
  "flood_edge K d succ global s n s' \<longleftrightarrow> flood_node succ global K d (fst s, recount global d n (snd s)) n s'"

lemma chain_flood: "chain (flood_edge K d a b) s ns s' \<Longrightarrow> flood_list a b K d s ns s'"
  by (induction ns arbitrary: s) (auto simp: flood_edge_def intro: flood_nil flood_cons)

definition floods :: "gc_color \<Rightarrow> uint \<Rightarrow> (ptr \<Rightarrow> gc_state \<Rightarrow> gc_state option) \<Rightarrow> bool" where
  "floods K d child \<longleftrightarrow> implements (flood_edge K d) child"

lemma foldo_floods:
  assumes "floods K d child" "foldo child ps g = Some g'"
  shows "skel g' = skel g \<and> flood_list (sc g) (glb g) K d (abs_of g) (map Val ps) (abs_of g')"
  using foldo_implements [OF assms(1) [unfolded floods_def] assms(2)] by (blast intro: chain_flood)

text \<open>An object: its successors do not depend on colours and counts.\<close>

lemma sc_Obj: "obj_at g h = Some ob \<Longrightarrow> sc g (Obj h) = map Val (obj_zvals ob)"
  by (simp add: sc_def)

lemma object_visit:
  assumes f: "floods K d child" and ob: "obj_at g h = Some ob" and k: "GC_GET_COLOR (obj_buffered ob) \<noteq> K"
    and g1: "obj_set_color K h g = Some g1" and ob': "obj_zvals ob' = obj_zvals ob" and g': "gc_props child ob' g1 = Some g'"
  shows "skel g' = skel g \<and> flood_node (sc g) (glb g) K d (abs_of g) (Obj h) (abs_of g')"
proof -
  note e = obj_color_effect [OF g1] and p = foldo_floods [OF f g' [unfolded gc_props_foldo]]
  have "flood_list (sc g) (glb g) K d ((col g)(Obj h := K), cnt g) (sc g (Obj h)) (abs_of g')"
    using e p skel_graph(1,2) [of g1 g] ob' by (simp add: sc_Obj [OF ob])
  then have "flood_node (sc g) (glb g) K d (abs_of g) (Obj h) (abs_of g')"
    unfolding abs_of_def [of g] using object_at [OF ob] k by (intro flood_new) auto
  then show ?thesis using e p by simp
qed

lemma object_mark_grey_floods:
  assumes f: "floods GC_GREY (- 1) (grey_child visit)" and r: "object_mark_grey visit h g = Some g'"
  shows "skel g' = skel g \<and> flood_node (sc g) (glb g) GC_GREY (- 1) (abs_of g) (Obj h) (abs_of g')"
proof -
  obtain ob where ob: "obj_at g h = Some ob" using r by (auto simp: object_mark_grey_def split: bind_splits)
  show ?thesis
  proof (cases "GC_GET_COLOR (obj_buffered ob) = GC_GREY")
    case True
    then have "g' = g" using r ob by (simp add: object_mark_grey_def)
    then show ?thesis using True object_at [OF ob] by (simp add: abs_of_def flood_seen)
  next
    case False
    then obtain g1 where "obj_set_color GC_GREY h g = Some g1" "gc_props (grey_child visit) ob g1 = Some g'"
      using r ob by (auto simp: object_mark_grey_def split: bind_splits)
    then show ?thesis using object_visit [OF f ob False] by blast
  qed
qed

lemma skel_obj_zvals: "skel g' = skel g \<Longrightarrow> obj_at g h = Some ob \<Longrightarrow> obj_at g' h = Some ob' \<Longrightarrow> obj_zvals ob' = obj_zvals ob"
  using skel_obj_cases [of g' g h] by auto

lemma object_scan_black_floods:
  assumes f: "floods GC_BLACK 1 (black_child visit)" and r: "object_scan_black visit h g = Some g'" and k: "col g (Obj h) \<noteq> GC_BLACK"
  shows "skel g' = skel g \<and> flood_node (sc g) (glb g) GC_BLACK 1 (abs_of g) (Obj h) (abs_of g')"
proof -
  obtain g1 ob' where g1: "obj_set_color GC_BLACK h g = Some g1" "obj_at g1 h = Some ob'" "gc_props (black_child visit) ob' g1 = Some g'"
    using r by (auto simp: object_scan_black_def obj_black_effect split: bind_splits)
  then obtain ob where ob: "obj_at g h = Some ob" by (auto simp: obj_set_color_def dest!: opoke_abs)
  have "skel g1 = skel g" using obj_color_effect [OF g1(1)] ..
  then have "obj_zvals ob' = obj_zvals ob" by (rule skel_obj_zvals [OF _ ob g1(2)])
  then show ?thesis using object_visit [OF f ob _ g1(1) _ g1(3)] k object_at [OF ob] by simp
qed

text \<open>A zval: visiting its successors, the elements of an array or the object.\<close>

lemma zval_visit:
  assumes k: "col g (Val p) \<noteq> K" "\<not> glb g (Val p)" and g1: "GC_ZVAL_SET_COLOR K p g = Some g1" and sk: "skel g' = skel g1"
    and l: "flood_list (sc g1) (glb g1) K d (abs_of g1) (sc g1 (Val p)) (abs_of g')"
  shows "skel g' = skel g \<and> flood_node (sc g) (glb g) K d (abs_of g) (Val p) (abs_of g')"
proof -
  note e = set_color_effect [OF g1]
  have "flood_list (sc g) (glb g) K d ((col g)(Val p := K), cnt g) (sc g (Val p)) (abs_of g')"
    using l e skel_graph(1,2) [of g1 g] by simp
  then show ?thesis using e sk k unfolding abs_of_def [of g] by (auto intro: flood_new)
qed

lemma grey_child_floods:
  assumes "\<And>p g g'. visit p g = Some g' \<Longrightarrow> skel g' = skel g \<and> flood_node (sc g) (glb g) GC_GREY (- 1) (abs_of g) (Val p) (abs_of g')"
  shows "floods GC_GREY (- 1) (grey_child visit)"
  unfolding floods_def implements_def
proof (intro allI impI)
  fix p g g' assume "grey_child visit p g = Some g'"
  then obtain g1 where g1: "zval_refcount_add (- 1) p g = Some g1" "visit p g1 = Some g'"
    by (auto simp: grey_child_def split: bind_splits)
  show "skel g' = skel g \<and> flood_edge GC_GREY (- 1) (sc g) (glb g) (abs_of g) (Val p) (abs_of g')"
    using assms [OF g1(2)] refcount_effect [OF g1(1)] skel_graph(1,2) [of g1 g] by (simp add: flood_edge_def abs_of_def)
qed

lemma black_child_floods:
  assumes "\<And>p g g'. visit p g = Some g' \<Longrightarrow> col g (Val p) \<noteq> GC_BLACK \<Longrightarrow>
      skel g' = skel g \<and> flood_node (sc g) (glb g) GC_BLACK 1 (abs_of g) (Val p) (abs_of g')"
  shows "floods GC_BLACK 1 (black_child visit)"
  unfolding floods_def implements_def
proof (intro allI impI)
  fix p g g' assume "black_child visit p g = Some g'"
  then obtain g1 z1 where g1: "zval_refcount_add 1 p g = Some g1" "zvals g1 p = Some z1"
      "(if GC_GET_COLOR (u z1) \<noteq> GC_BLACK then visit p g1 else Some g1) = Some g'"
    by (auto simp: black_child_def split: bind_splits)
  note e = refcount_effect [OF g1(1)]
  show "skel g' = skel g \<and> flood_edge GC_BLACK 1 (sc g) (glb g) (abs_of g) (Val p) (abs_of g')"
    using assms [of p g1 g'] g1(3) e zval_at [OF g1(2)] skel_graph(1,2) [of g1 g]
    by (cases "GC_GET_COLOR (u z1) = GC_BLACK") (auto simp: abs_of_def flood_edge_def intro: flood_seen)
qed

lemma zval_mark_grey_floods:
  "zval_mark_grey fuel p g = Some g' \<Longrightarrow> skel g' = skel g \<and> flood_node (sc g) (glb g) GC_GREY (- 1) (abs_of g) (Val p) (abs_of g')"
proof (induction fuel arbitrary: p g g')
  case (Suc fuel)
  have f: "floods GC_GREY (- 1) (grey_child (zval_mark_grey fuel))" by (rule grey_child_floods [OF Suc.IH])
  obtain z where z: "zvals g p = Some z" using Suc.prems by (auto split: bind_splits)
  show ?case
  proof (cases "GC_GET_COLOR (u z) = GC_GREY")
    case True
    then have "g' = g" using Suc.prems z by simp
    then show ?thesis using True zval_at [OF z] by (simp add: abs_of_def flood_seen)
  next
    case False
    then obtain g1 where g1: "GC_ZVAL_SET_COLOR GC_GREY p g = Some g1"
        and r: "(case z_value z of
                   IS_OBJECT h \<Rightarrow> if object_buckets g1 = None then Some g1
                     else do { g \<leftarrow> obj_refcount_add (- 1) h g1; object_mark_grey (zval_mark_grey fuel) h g }
                 | IS_ARRAY st ps \<Rightarrow> if st then GC_ZVAL_SET_BLACK p g1 else foldo (grey_child (zval_mark_grey fuel)) ps g1
                 | _ \<Rightarrow> Some g1) = Some g'"
      using Suc.prems z by (auto split: bind_splits)
    note e = set_color_effect [OF g1]
    have k: "col g (Val p) \<noteq> GC_GREY" using zval_at [OF z] False by simp
    obtain z1 where z1: "zvals g1 p = Some z1" "z_value z1 = z_value z" using skel_val_cases [of g1 g p] e z by auto
    show ?thesis
    proof (cases "symbol_table z")
      case True
      then have b: "GC_ZVAL_SET_COLOR GC_BLACK p g1 = Some g'" using r by (auto simp: symbol_table_def set_black_effect split: gc_value.splits)
      then show ?thesis using set_color_effect [OF b] e k zval_at [OF z] True
        by (auto simp: abs_of_def intro: flood_sym)
    next
      case False
      then have gl: "\<not> glb g (Val p)" using zval_at [OF z] by simp
      have "skel g' = skel g1 \<and> flood_list (sc g1) (glb g1) GC_GREY (- 1) (abs_of g1) (sc g1 (Val p)) (abs_of g')"
      proof (cases "z_value z")
        case (IS_ARRAY st ps)
        then show ?thesis using foldo_floods [OF f] r False z1 by (simp add: sc_def symbol_table_def)
      next
        case (IS_OBJECT h)
        show ?thesis
        proof (cases "object_buckets g1 = None")
          case True
          then show ?thesis using IS_OBJECT r z1 by (simp add: sc_def flood_nil)
        next
          case False
          then obtain g2 where g2: "obj_refcount_add (- 1) h g1 = Some g2" "object_mark_grey (zval_mark_grey fuel) h g2 = Some g'"
            using IS_OBJECT r by (auto split: bind_splits)
          note e2 = obj_refcount_effect [OF g2(1)] and m = object_mark_grey_floods [OF f g2(2)]
          have "flood_list (sc g1) (glb g1) GC_GREY (- 1) (abs_of g1) [Obj h] (abs_of g')"
            unfolding abs_of_def [of g1] using m e2 skel_graph(1,2) [of g2 g1] by (intro flood_list_single) simp
          then show ?thesis using IS_OBJECT False z1 m e2 by (auto simp: sc_def)
        qed
      qed (use r z1 in \<open>auto simp: sc_def flood_nil\<close>)
      then show ?thesis using zval_visit [OF k gl g1] by blast
    qed
  qed
qed simp

lemma zval_scan_black_floods:
  "zval_scan_black fuel p g = Some g' \<Longrightarrow> col g (Val p) \<noteq> GC_BLACK \<Longrightarrow>
   skel g' = skel g \<and> flood_node (sc g) (glb g) GC_BLACK 1 (abs_of g) (Val p) (abs_of g')"
proof (induction fuel arbitrary: p g g')
  case (Suc fuel)
  have f: "floods GC_BLACK 1 (black_child (zval_scan_black fuel))" by (rule black_child_floods [OF Suc.IH])
  obtain g1 z1 where g1: "GC_ZVAL_SET_COLOR GC_BLACK p g = Some g1" "zvals g1 p = Some z1"
      and r: "(case z_value z1 of
                 IS_OBJECT h \<Rightarrow> if object_buckets g1 = None then Some g1
                   else do { g \<leftarrow> obj_refcount_add 1 h g1; obj \<leftarrow> obj_at g h;
                             if GC_GET_COLOR (obj_buffered obj) \<noteq> GC_BLACK then object_scan_black (zval_scan_black fuel) h g else Some g }
               | IS_ARRAY st ps \<Rightarrow> if st then Some g1 else foldo (black_child (zval_scan_black fuel)) ps g1
               | _ \<Rightarrow> Some g1) = Some g'"
    using Suc.prems by (auto simp: set_black_effect split: bind_splits)
  note e = set_color_effect [OF g1(1)]
  have gl: "glb g1 = glb g" using skel_graph(2) e by blast
  show ?case
  proof (cases "symbol_table z1")
    case True
    then have "g' = g1" using r by (auto simp: symbol_table_def split: gc_value.splits)
    then show ?thesis using e Suc.prems(2) zval_at [OF g1(2)] True gl by (auto simp: abs_of_def intro: flood_sym)
  next
    case False
    then have ng: "\<not> glb g (Val p)" using zval_at [OF g1(2)] gl by simp
    have "skel g' = skel g1 \<and> flood_list (sc g1) (glb g1) GC_BLACK 1 (abs_of g1) (sc g1 (Val p)) (abs_of g')"
    proof (cases "z_value z1")
      case (IS_ARRAY st ps)
      then show ?thesis using foldo_floods [OF f] r False g1(2) by (simp add: sc_def symbol_table_def)
    next
      case (IS_OBJECT h)
      show ?thesis
      proof (cases "object_buckets g1 = None")
        case True
        then show ?thesis using IS_OBJECT r g1(2) by (simp add: sc_def flood_nil)
      next
        case False
        then obtain g2 ob where g2: "obj_refcount_add 1 h g1 = Some g2" "obj_at g2 h = Some ob"
            "(if GC_GET_COLOR (obj_buffered ob) \<noteq> GC_BLACK then object_scan_black (zval_scan_black fuel) h g2 else Some g2) = Some g'"
          using IS_OBJECT r by (auto split: bind_splits)
        note e2 = obj_refcount_effect [OF g2(1)]
        have "skel g' = skel g2 \<and> flood_node (sc g2) (glb g2) GC_BLACK 1 (abs_of g2) (Obj h) (abs_of g')"
        proof (cases "GC_GET_COLOR (obj_buffered ob) = GC_BLACK")
          case True
          then show ?thesis using g2(3) object_at [OF g2(2)] by (auto simp: abs_of_def intro: flood_seen)
        next
          case False
          then show ?thesis using g2(3) object_at [OF g2(2)] object_scan_black_floods [OF f, of h g2 g'] by simp
        qed
        then have m: "skel g' = skel g1" "flood_node (sc g1) (glb g1) GC_BLACK 1 (abs_of g2) (Obj h) (abs_of g')"
          using e2 skel_graph(1,2) [of g2 g1] by simp_all
        have "flood_list (sc g1) (glb g1) GC_BLACK 1 (abs_of g1) [Obj h] (abs_of g')"
          unfolding abs_of_def [of g1] using m(2) e2 by (intro flood_list_single) simp
        then show ?thesis using IS_OBJECT False g1(2) m(1) by (auto simp: sc_def)
      qed
    qed (use r g1(2) in \<open>auto simp: sc_def flood_nil\<close>)
    then show ?thesis using zval_visit [OF Suc.prems(2) ng g1(1)] by blast
  qed
qed simp

lemma zobj_scan_black_floods:
  assumes "zobj_scan_black fuel h g = Some g'" "col g (Obj h) \<noteq> GC_BLACK"
  shows "skel g' = skel g \<and> flood_node (sc g) (glb g) GC_BLACK 1 (abs_of g) (Obj h) (abs_of g')"
  by (rule object_scan_black_floods [OF black_child_floods [OF zval_scan_black_floods] assms(1) [unfolded zobj_scan_black_def] assms(2)])

lemma zobj_mark_grey_floods:
  assumes "zobj_mark_grey fuel h g = Some g'"
  shows "skel g' = skel g \<and> flood_node (sc g) (glb g) GC_GREY (- 1) (abs_of g) (Obj h) (abs_of g')"
  by (rule object_mark_grey_floods [OF grey_child_floods [OF zval_mark_grey_floods] assms [unfolded zobj_mark_grey_def]])

section \<open>Scanning\<close>

lemma chain_scan: "chain (scan_node a b) s ns s' \<Longrightarrow> scan_list a b s ns s'"
  by (induction ns arbitrary: s) (auto intro: scan_nil scan_cons)

lemma object_scan_scans:
  assumes f: "implements scan_node visit" and r: "object_scan fuel visit h g = Some g'"
  shows "skel g' = skel g \<and> scan_node (sc g) (glb g) (abs_of g) (Obj h) (abs_of g')"
proof -
  obtain ob where ob: "obj_at g h = Some ob" using r by (auto simp: object_scan_def split: bind_splits)
  note at = object_at [OF ob]
  show ?thesis
  proof (cases "GC_GET_COLOR (obj_buffered ob) = GC_GREY")
    case False
    then show ?thesis using r ob at by (simp add: object_scan_def abs_of_def scan_skip)
  next
    case grey: True
    show ?thesis
    proof (cases "obj_refcount ob = 0")
      case False
      then have "zobj_scan_black fuel h g = Some g'" using r ob grey by (simp add: object_scan_def word_neq_0_conv)
      then show ?thesis using zobj_scan_black_floods [of fuel h g g'] at grey False
        by (auto simp: abs_of_def intro: scan_live)
    next
      case True
      then obtain g1 where g1: "obj_set_color GC_WHITE h g = Some g1" "foldo visit (obj_zvals ob) g1 = Some g'"
        using r ob grey by (auto simp: object_scan_def gc_props_foldo split: bind_splits)
      note e = obj_color_effect [OF g1(1)] and l = foldo_implements [OF f g1(2)]
      have "scan_list (sc g) (glb g) ((col g)(Obj h := GC_WHITE), cnt g) (sc g (Obj h)) (abs_of g')"
        using e l skel_graph(1,2) [of g1 g] by (auto simp: sc_Obj [OF ob] intro: chain_scan)
      then show ?thesis using at grey True e l unfolding abs_of_def [of g] by (auto intro: scan_dead)
    qed
  qed
qed

lemma zval_scan_scans:
  "zval_scan fuel p g = Some g' \<Longrightarrow> skel g' = skel g \<and> scan_node (sc g) (glb g) (abs_of g) (Val p) (abs_of g')"
proof (induction fuel arbitrary: p g g')
  case (Suc fuel)
  have f: "implements scan_node (zval_scan fuel)" using Suc.IH by (auto simp: implements_def)
  obtain z where z: "zvals g p = Some z" using Suc.prems by (auto split: bind_splits)
  note at = zval_at [OF z]
  show ?case
  proof (cases "GC_GET_COLOR (u z) = GC_GREY")
    case False
    then show ?thesis using Suc.prems z at by (simp add: abs_of_def scan_skip)
  next
    case grey: True
    show ?thesis
    proof (cases "refcount__gc z = 0")
      case False
      then have "zval_scan_black fuel p g = Some g'" using Suc.prems z grey by (simp add: word_neq_0_conv)
      then show ?thesis using zval_scan_black_floods [of fuel p g g'] at grey False
        by (auto simp: abs_of_def intro: scan_live)
    next
      case zero: True
      then obtain g1 where g1: "GC_ZVAL_SET_COLOR GC_WHITE p g = Some g1"
          and r: "(case z_value z of
                     IS_OBJECT h \<Rightarrow> if object_buckets g1 = None then Some g1 else object_scan fuel (zval_scan fuel) h g1
                   | IS_ARRAY st ps \<Rightarrow> if st then GC_ZVAL_SET_BLACK p g1 else foldo (zval_scan fuel) ps g1
                   | _ \<Rightarrow> Some g1) = Some g'"
        using Suc.prems z grey by (auto split: bind_splits)
      note e = set_color_effect [OF g1]
      obtain z1 where z1: "zvals g1 p = Some z1" "z_value z1 = z_value z" using skel_val_cases [of g1 g p] e z by auto
      show ?thesis
      proof (cases "symbol_table z")
        case True
        then have b: "GC_ZVAL_SET_COLOR GC_BLACK p g1 = Some g'" using r by (auto simp: symbol_table_def set_black_effect split: gc_value.splits)
        have "abs_of g' = ((col g)(Val p := GC_BLACK), cnt g)" using set_color_effect [OF b] e by (simp add: abs_of_def)
        then show ?thesis using set_color_effect [OF b] e at grey zero True unfolding abs_of_def [of g] by (auto intro: scan_global)
      next
        case False
        have l: "skel g' = skel g1 \<and> scan_list (sc g1) (glb g1) (abs_of g1) (sc g1 (Val p)) (abs_of g')"
        proof (cases "z_value z")
          case (IS_ARRAY st ps)
          then show ?thesis using foldo_implements [OF f] r False z1 by (auto simp: sc_def symbol_table_def intro: chain_scan)
        next
          case (IS_OBJECT h)
          then show ?thesis using r z1 object_scan_scans [OF f, of fuel h g1 g']
            by (auto simp: sc_def intro: scan_nil scan_cons)
        qed (use r z1 in \<open>auto simp: sc_def scan_nil\<close>)
        then have "scan_list (sc g) (glb g) ((col g)(Val p := GC_WHITE), cnt g) (sc g (Val p)) (abs_of g')"
          using e skel_graph(1,2) [of g1 g] by simp
        then show ?thesis using at grey zero False e l unfolding abs_of_def [of g] by (auto intro: scan_dead)
      qed
    qed
  qed
qed simp

lemma zobj_scan_scans:
  assumes "zobj_scan fuel h g = Some g'" "object_buckets g \<noteq> None"
  shows "skel g' = skel g \<and> scan_node (sc g) (glb g) (abs_of g) (Obj h) (abs_of g')"
proof -
  have "implements scan_node (zval_scan fuel)" using zval_scan_scans by (auto simp: implements_def)
  then show ?thesis using object_scan_scans assms by (auto simp: zobj_scan_def)
qed

section \<open>The traversals end\<close>

text \<open>
  A state without dangling pointers. A traversal needs no more fuel than there are zvals that do not have the colour yet,
  which become fewer with every level of the recursion.
\<close>

definition heap_closed :: "gc_state \<Rightarrow> bool" where
  "heap_closed g \<longleftrightarrow> finite (nodes g) \<and> (\<forall>n\<in>nodes g. set (sc g n) \<subseteq> nodes g)"

definition uncoloured :: "gc_color \<Rightarrow> gc_state \<Rightarrow> nat" where
  "uncoloured K g = card {p \<in> dom (zvals g). col g (Val p) \<noteq> K}"

lemma heap_closed_skel: "skel g' = skel g \<Longrightarrow> heap_closed g' = heap_closed g"
  using skel_graph [of g' g] by (simp add: heap_closed_def)

lemma heap_closed_dom: "heap_closed g \<Longrightarrow> finite (dom (zvals g))"
  by (auto simp: heap_closed_def nodes_def dest: finite_imageD intro: inj_onI)

lemma foldo_total:
  assumes i: "implements R child"
    and mono: "\<And>p g g'. heap_closed g \<Longrightarrow> child p g = Some g' \<Longrightarrow> m g' \<le> (m g :: nat)"
    and t: "\<And>p g. heap_closed g \<Longrightarrow> Val p \<in> nodes g \<Longrightarrow> m g < k \<Longrightarrow> \<exists>g'. child p g = Some g'"
    and "heap_closed g" "Val ` set ps \<subseteq> nodes g" "m g < k"
  shows "\<exists>g'. foldo child ps g = Some g'"
  using assms(4-6)
proof (induction ps arbitrary: g)
  case (Cons p ps)
  obtain g1 where g1: "child p g = Some g1" using t [of g p] Cons.prems by auto
  have sk: "skel g1 = skel g" using i g1 by (auto simp: implements_def)
  have "m g1 < k" using mono [OF Cons.prems(1) g1] Cons.prems(3) by simp
  moreover have "Val ` set ps \<subseteq> nodes g1" using Cons.prems(2) skel_graph(3) [OF sk] by auto
  ultimately show ?case using Cons.IH [of g1] heap_closed_skel [OF sk] Cons.prems(1) g1 by simp
qed simp

lemma uncoloured_le:
  assumes "heap_closed g" "skel g' = skel g" "\<And>n. col g n = K \<Longrightarrow> col g' n = K"
  shows "uncoloured K g' \<le> uncoloured K g"
  unfolding uncoloured_def using assms heap_closed_dom [OF assms(1)] skel_graph(5) [OF assms(2)] by (intro card_mono) auto

lemma uncoloured_less:
  assumes "heap_closed g" "GC_ZVAL_SET_COLOR K p g = Some g'" "col g (Val p) \<noteq> K" "Val p \<in> nodes g"
  shows "uncoloured K g' < uncoloured K g"
proof -
  have e: "dom (zvals g') = dom (zvals g)" "col g' = (col g)(Val p := K)"
    using set_color_effect [OF assms(2)] skel_graph(5) [of g' g] by (simp_all add: abs_of_def)
  show ?thesis unfolding uncoloured_def
    by (rule psubset_card_mono) (use heap_closed_dom [OF assms(1)] e assms(3,4) in \<open>auto simp: nodes_def\<close>)
qed

lemma floods_uncoloured:
  assumes "floods K d child" "heap_closed g" "child p g = Some g'"
  shows "uncoloured K g' \<le> uncoloured K g"
proof -
  have "skel g' = skel g" "flood_node (sc g) (glb g) K d (col g, recount (glb g) d (Val p) (cnt g)) (Val p) (abs_of g')"
    using assms by (auto simp: floods_def implements_def flood_edge_def abs_of_def)
  then show ?thesis using flood_keeps(1) [of "sc g" "glb g" K d "(col g, recount (glb g) d (Val p) (cnt g))" "Val p" "abs_of g'"] assms(2)
    by (intro uncoloured_le) (auto simp: abs_of_def)
qed

lemma foldo_floods_total:
  assumes f: "floods K d child" and t: "\<And>p g. heap_closed g \<Longrightarrow> Val p \<in> nodes g \<Longrightarrow> uncoloured K g < k \<Longrightarrow> \<exists>g'. child p g = Some g'"
    and "heap_closed g" "Val ` set ps \<subseteq> nodes g" "uncoloured K g < k"
  shows "\<exists>g'. foldo child ps g = Some g'"
  by (rule foldo_total [where m = "uncoloured K", OF f [unfolded floods_def] floods_uncoloured [OF f] t assms(3-5)])

lemma set_color_ok:
  assumes "Val p \<in> nodes g"
  shows "\<exists>g'. GC_ZVAL_SET_COLOR c p g = Some g'" "\<exists>g'. GC_ZVAL_SET_BLACK p g = Some g'"
  unfolding GC_ZVAL_SET_COLOR_def GC_ZVAL_SET_BLACK_def using zpoke_ok [OF assms] by blast+

lemma obj_ok:
  assumes "Obj h \<in> nodes g"
  shows "\<exists>g'. obj_set_color c h g = Some g'" "\<exists>g'. obj_refcount_add d h g = Some g'"
  unfolding obj_set_color_def obj_refcount_add_def using opoke_ok [OF assms] by blast+

lemma refcount_add_ok: "Val p \<in> nodes g \<Longrightarrow> \<exists>g'. zval_refcount_add d p g = Some g'"
  using zpoke_ok by (fastforce simp: zval_refcount_add_def nodes_def)

lemma nodes_obj: "Obj h \<in> nodes g \<longleftrightarrow> (\<exists>ob. obj_at g h = Some ob)"
  by (auto simp: nodes_def)

lemma nodes_val: "Val p \<in> nodes g \<longleftrightarrow> (\<exists>z. zvals g p = Some z)"
  by (auto simp: nodes_def)

text \<open>Recolouring and recounting leave the other measures alone.\<close>

lemma uncoloured_counts: "skel g' = skel g \<Longrightarrow> col g' = col g \<Longrightarrow> uncoloured K g' = uncoloured K g"
  using skel_graph(5) [of g' g] by (simp add: uncoloured_def)

lemma uncoloured_obj:
  assumes "obj_set_color c h g = Some g'"
  shows "uncoloured K g' = uncoloured K g"
  using obj_color_effect [OF assms] skel_graph(5) [of g' g] by (simp add: uncoloured_def abs_of_def)

lemma obj_zvals_nodes:
  assumes "heap_closed g" "obj_at g h = Some ob"
  shows "Val ` set (obj_zvals ob) \<subseteq> nodes g"
proof -
  have "set (sc g (Obj h)) \<subseteq> nodes g" using assms by (auto simp: heap_closed_def nodes_obj)
  then show ?thesis by (simp add: sc_Obj [OF assms(2)])
qed

lemma object_mark_grey_total:
  assumes f: "floods GC_GREY (- 1) (grey_child visit)"
    and t: "\<And>p g. heap_closed g \<Longrightarrow> Val p \<in> nodes g \<Longrightarrow> uncoloured GC_GREY g < k \<Longrightarrow> \<exists>g'. grey_child visit p g = Some g'"
    and g: "heap_closed g" "Obj h \<in> nodes g" "uncoloured GC_GREY g < k"
  shows "\<exists>g'. object_mark_grey visit h g = Some g'"
proof -
  obtain ob where ob: "obj_at g h = Some ob" using g(2) by (auto simp: nodes_obj)
  obtain g1 where g1: "obj_set_color GC_GREY h g = Some g1" using obj_ok(1) [OF g(2)] by blast
  note e = obj_color_effect [OF g1]
  have "\<exists>g'. foldo (grey_child visit) (obj_zvals ob) g1 = Some g'"
    by (rule foldo_floods_total [OF f t])
      (use e g heap_closed_skel [of g1 g] skel_graph(3) [of g1 g] obj_zvals_nodes [OF g(1) ob] uncoloured_obj [OF g1] in auto)
  then show ?thesis using ob g1 by (simp add: object_mark_grey_def gc_props_foldo)
qed

lemma grey_child_total:
  assumes "\<And>p g. heap_closed g \<Longrightarrow> Val p \<in> nodes g \<Longrightarrow> uncoloured GC_GREY g < k \<Longrightarrow> \<exists>g'. visit p g = Some g'"
    and "heap_closed g" "Val p \<in> nodes g" "uncoloured GC_GREY g < k"
  shows "\<exists>g'. grey_child visit p g = Some g'"
proof -
  obtain g1 where g1: "zval_refcount_add (- 1) p g = Some g1" using refcount_add_ok [OF assms(3)] by blast
  note e = refcount_effect [OF g1]
  have "\<exists>g'. visit p g1 = Some g'"
    using assms e heap_closed_skel [of g1 g] skel_graph(3) [of g1 g] uncoloured_counts [of g1 g GC_GREY] by (simp add: abs_of_def)
  then show ?thesis using g1 by (simp add: grey_child_def)
qed

lemma zval_mark_grey_total:
  "heap_closed g \<Longrightarrow> Val p \<in> nodes g \<Longrightarrow> uncoloured GC_GREY g < fuel \<Longrightarrow> \<exists>g'. zval_mark_grey fuel p g = Some g'"
proof (induction fuel arbitrary: p g)
  case (Suc fuel)
  have t: "\<exists>g'. grey_child (zval_mark_grey fuel) p g = Some g'" if "heap_closed g" "Val p \<in> nodes g" "uncoloured GC_GREY g < fuel" for p g
    by (rule grey_child_total [OF Suc.IH that])
  have f: "floods GC_GREY (- 1) (grey_child (zval_mark_grey fuel))" by (rule grey_child_floods [OF zval_mark_grey_floods])
  obtain z where z: "zvals g p = Some z" using Suc.prems by (auto simp: nodes_val)
  obtain g1 where g1: "GC_ZVAL_SET_COLOR GC_GREY p g = Some g1" using set_color_ok(1) [OF Suc.prems(2)] by blast
  note e = set_color_effect [OF g1]
  have c1: "heap_closed g1" "nodes g1 = nodes g" "sc g1 = sc g" "object_buckets g1 = None \<longleftrightarrow> object_buckets g = None"
    using e Suc.prems heap_closed_skel skel_graph(1,3) skel_buckets by blast+
  have succ: "set (sc g (Val p)) \<subseteq> nodes g" using Suc.prems by (simp add: heap_closed_def)
  have less: "uncoloured GC_GREY g1 < fuel" if "GC_GET_COLOR (u z) \<noteq> GC_GREY"
    using uncoloured_less [OF Suc.prems(1) g1 _ Suc.prems(2)] zval_at [OF z] that Suc.prems(3) by simp
  have "\<exists>g'. (case z_value z of
                   IS_OBJECT h \<Rightarrow> if object_buckets g1 = None then Some g1
                     else do { g \<leftarrow> obj_refcount_add (- 1) h g1; object_mark_grey (zval_mark_grey fuel) h g }
                 | IS_ARRAY st ps \<Rightarrow> if st then GC_ZVAL_SET_BLACK p g1 else foldo (grey_child (zval_mark_grey fuel)) ps g1
                 | _ \<Rightarrow> Some g1) = Some g'" if k: "GC_GET_COLOR (u z) \<noteq> GC_GREY"
  proof (cases "z_value z")
    case (IS_ARRAY st ps)
    show ?thesis
    proof (cases st)
      case True
      obtain g' where "GC_ZVAL_SET_BLACK p g1 = Some g'" using set_color_ok(2) [of p g1] Suc.prems(2) c1(2) by blast
      then show ?thesis using IS_ARRAY True by simp
    next
      case False
      then have "Val ` set ps \<subseteq> nodes g1" using succ z IS_ARRAY c1(2) by (auto simp: sc_def)
      then have "\<exists>g'. foldo (grey_child (zval_mark_grey fuel)) ps g1 = Some g'" by (intro foldo_floods_total [OF f t c1(1) _ less [OF k]])
      then show ?thesis using IS_ARRAY False by simp
    qed
  next
    case (IS_OBJECT h)
    show ?thesis
    proof (cases "object_buckets g1 = None")
      case False
      then have h: "Obj h \<in> nodes g1" using succ z IS_OBJECT c1(2,4) by (auto simp: sc_def)
      then obtain g2 where g2: "obj_refcount_add (- 1) h g1 = Some g2" using obj_ok(2) by blast
      note e2 = obj_refcount_effect [OF g2]
      have "\<exists>g'. object_mark_grey (zval_mark_grey fuel) h g2 = Some g'"
        by (rule object_mark_grey_total [OF f t])
          (use e2 c1(1) h heap_closed_skel [of g2 g1] skel_graph(3) [of g2 g1] uncoloured_counts [of g2 g1 GC_GREY] less [OF k] in \<open>auto simp: abs_of_def\<close>)
      then show ?thesis using IS_OBJECT False g2 by auto
    qed (use IS_OBJECT in simp)
  qed simp_all
  then show ?case using z g1 by auto
qed simp

lemma object_scan_black_total:
  assumes f: "floods GC_BLACK 1 (black_child visit)"
    and t: "\<And>p g. heap_closed g \<Longrightarrow> Val p \<in> nodes g \<Longrightarrow> uncoloured GC_BLACK g < k \<Longrightarrow> \<exists>g'. black_child visit p g = Some g'"
    and g: "heap_closed g" "Obj h \<in> nodes g" "uncoloured GC_BLACK g < k"
  shows "\<exists>g'. object_scan_black visit h g = Some g'"
proof -
  obtain g1 where g1: "obj_set_color GC_BLACK h g = Some g1" using obj_ok(1) [OF g(2)] by blast
  note e = obj_color_effect [OF g1]
  have c1: "heap_closed g1" "Obj h \<in> nodes g1" using e g heap_closed_skel [of g1 g] skel_graph(3) [of g1 g] by simp_all
  then obtain ob where ob: "obj_at g1 h = Some ob" by (auto simp: nodes_obj)
  have "\<exists>g'. foldo (black_child visit) (obj_zvals ob) g1 = Some g'"
  proof (rule foldo_floods_total [OF f t c1(1) obj_zvals_nodes [OF c1(1) ob]])
    show "uncoloured GC_BLACK g1 < k" using uncoloured_obj [OF g1, of GC_BLACK] g(3) by simp
  qed
  then show ?thesis using ob g1 by (simp add: object_scan_black_def gc_props_foldo obj_black_effect)
qed

lemma black_child_total:
  assumes "\<And>p g. heap_closed g \<Longrightarrow> Val p \<in> nodes g \<Longrightarrow> col g (Val p) \<noteq> GC_BLACK \<Longrightarrow> uncoloured GC_BLACK g \<le> k \<Longrightarrow> \<exists>g'. visit p g = Some g'"
    and "heap_closed g" "Val p \<in> nodes g" "uncoloured GC_BLACK g < Suc k"
  shows "\<exists>g'. black_child visit p g = Some g'"
proof -
  obtain g1 where g1: "zval_refcount_add 1 p g = Some g1" using refcount_add_ok [OF assms(3)] by blast
  note e = refcount_effect [OF g1]
  have c1: "heap_closed g1" "Val p \<in> nodes g1" "uncoloured GC_BLACK g1 \<le> k"
    using e assms heap_closed_skel [of g1 g] skel_graph(3) [of g1 g] uncoloured_counts [of g1 g GC_BLACK] by (simp_all add: abs_of_def)
  then obtain z where z: "zvals g1 p = Some z" by (auto simp: nodes_val)
  then show ?thesis using g1 assms(1) [OF c1(1,2) _ c1(3)] zval_at [OF z] by (auto simp: black_child_def)
qed

lemma zval_scan_black_total:
  "heap_closed g \<Longrightarrow> Val p \<in> nodes g \<Longrightarrow> col g (Val p) \<noteq> GC_BLACK \<Longrightarrow> uncoloured GC_BLACK g \<le> fuel \<Longrightarrow> \<exists>g'. zval_scan_black fuel p g = Some g'"
proof (induction fuel arbitrary: p g)
  case 0
  then have "{p \<in> dom (zvals g). col g (Val p) \<noteq> GC_BLACK} = {}" using heap_closed_dom [OF 0(1)] by (simp add: uncoloured_def)
  then show ?case using 0 by (auto simp: nodes_val)
next
  case (Suc fuel)
  have t: "\<exists>g'. black_child (zval_scan_black fuel) p g = Some g'" if "heap_closed g" "Val p \<in> nodes g" "uncoloured GC_BLACK g < Suc fuel" for p g
    by (rule black_child_total [OF Suc.IH that])
  have f: "floods GC_BLACK 1 (black_child (zval_scan_black fuel))" by (rule black_child_floods [OF zval_scan_black_floods])
  obtain g1 where g1: "GC_ZVAL_SET_COLOR GC_BLACK p g = Some g1" using set_color_ok(1) [OF Suc.prems(2)] by blast
  note e = set_color_effect [OF g1]
  have c1: "heap_closed g1" "Val p \<in> nodes g1" using e Suc.prems heap_closed_skel [of g1 g] skel_graph(3) [of g1 g] by simp_all
  obtain z where z: "zvals g1 p = Some z" using c1 by (auto simp: nodes_val)
  have succ: "set (sc g1 (Val p)) \<subseteq> nodes g1" using c1 by (simp add: heap_closed_def)
  have less: "uncoloured GC_BLACK g1 < Suc fuel" using uncoloured_less [OF Suc.prems(1) g1 Suc.prems(3,2)] Suc.prems(4) by simp
  have "\<exists>g'. (case z_value z of
                 IS_OBJECT h \<Rightarrow> if object_buckets g1 = None then Some g1
                   else do { g \<leftarrow> obj_refcount_add 1 h g1; obj \<leftarrow> obj_at g h;
                             if GC_GET_COLOR (obj_buffered obj) \<noteq> GC_BLACK then object_scan_black (zval_scan_black fuel) h g else Some g }
               | IS_ARRAY st ps \<Rightarrow> if st then Some g1 else foldo (black_child (zval_scan_black fuel)) ps g1
               | _ \<Rightarrow> Some g1) = Some g'"
  proof (cases "z_value z")
    case (IS_ARRAY st ps)
    have "\<not> st \<Longrightarrow> Val ` set ps \<subseteq> nodes g1" using succ z IS_ARRAY by (auto simp: sc_def)
    then have "\<exists>g'. foldo (black_child (zval_scan_black fuel)) ps g1 = Some g'" if "\<not> st"
      using that by (intro foldo_floods_total [OF f t c1(1) _ less])
    then show ?thesis using IS_ARRAY by simp
  next
    case (IS_OBJECT h)
    show ?thesis
    proof (cases "object_buckets g1 = None")
      case False
      then have h: "Obj h \<in> nodes g1" using succ z IS_OBJECT by (auto simp: sc_def)
      then obtain g2 where g2: "obj_refcount_add 1 h g1 = Some g2" using obj_ok(2) by blast
      note e2 = obj_refcount_effect [OF g2]
      have c2: "heap_closed g2" "Obj h \<in> nodes g2" "uncoloured GC_BLACK g2 < Suc fuel"
        using e2 c1(1) h heap_closed_skel [of g2 g1] skel_graph(3) [of g2 g1] uncoloured_counts [of g2 g1 GC_BLACK] less
        by (simp_all add: abs_of_def)
      then obtain ob where ob: "obj_at g2 h = Some ob" by (auto simp: nodes_obj)
      show ?thesis using object_scan_black_total [OF f t c2] IS_OBJECT False g2 ob by auto
    qed (use IS_OBJECT in simp)
  qed simp_all
  then show ?case using g1 z by (simp add: set_black_effect)
qed

lemma zobj_scan_black_total:
  assumes "heap_closed g" "Obj h \<in> nodes g" "uncoloured GC_BLACK g \<le> fuel"
  shows "\<exists>g'. zobj_scan_black fuel h g = Some g'"
proof -
  have t: "\<exists>g'. black_child (zval_scan_black fuel) p g = Some g'" if "heap_closed g" "Val p \<in> nodes g" "uncoloured GC_BLACK g < Suc fuel" for p g
    by (rule black_child_total [OF zval_scan_black_total that])
  have f: "floods GC_BLACK 1 (black_child (zval_scan_black fuel))" by (rule black_child_floods [OF zval_scan_black_floods])
  show ?thesis unfolding zobj_scan_black_def using assms by (intro object_scan_black_total [OF f t]) auto
qed

definition scan_work :: "gc_state \<Rightarrow> nat" where
  "scan_work g = uncoloured GC_BLACK g + card {p \<in> dom (zvals g). col g (Val p) = GC_GREY}"

lemma scan_work_le:
  assumes "heap_closed g" "skel g' = skel g" "scan_node (sc g) (glb g) (abs_of g) n (abs_of g')"
  shows "scan_work g' \<le> scan_work g"
proof -
  note k = scan_keeps(1) [OF assms(3), unfolded abs_of_def fst_conv]
  have "uncoloured GC_BLACK g' \<le> uncoloured GC_BLACK g" using k by (intro uncoloured_le [OF assms(1,2)]) blast
  moreover have "card {p \<in> dom (zvals g'). col g' (Val p) = GC_GREY} \<le> card {p \<in> dom (zvals g). col g (Val p) = GC_GREY}"
    using k heap_closed_dom [OF assms(1)] skel_graph(5) [OF assms(2)] by (intro card_mono) auto
  ultimately show ?thesis by (simp add: scan_work_def)
qed

lemma scan_work_less:
  assumes "heap_closed g" "GC_ZVAL_SET_COLOR GC_WHITE p g = Some g'" "col g (Val p) = GC_GREY" "Val p \<in> nodes g"
  shows "scan_work g' < scan_work g"
proof -
  have e: "dom (zvals g') = dom (zvals g)" "col g' = (col g)(Val p := GC_WHITE)"
    using set_color_effect [OF assms(2)] skel_graph(5) [of g' g] by (simp_all add: abs_of_def)
  have "{q \<in> dom (zvals g'). col g' (Val q) \<noteq> GC_BLACK} = {q \<in> dom (zvals g). col g (Val q) \<noteq> GC_BLACK}"
    using e assms(3) by auto
  moreover have "card {q \<in> dom (zvals g'). col g' (Val q) = GC_GREY} < card {q \<in> dom (zvals g). col g (Val q) = GC_GREY}"
    by (rule psubset_card_mono) (use heap_closed_dom [OF assms(1)] e assms(3,4) in \<open>auto simp: nodes_def\<close>)
  ultimately show ?thesis by (simp add: scan_work_def uncoloured_def)
qed

lemma scan_work_obj:
  assumes "obj_set_color c h g = Some g'"
  shows "scan_work g' = scan_work g"
  using obj_color_effect [OF assms] skel_graph(5) [of g' g] by (simp add: scan_work_def uncoloured_def abs_of_def)

lemma foldo_scan_total:
  assumes f: "implements scan_node child"
    and t: "\<And>p g. heap_closed g \<Longrightarrow> Val p \<in> nodes g \<Longrightarrow> scan_work g < k \<Longrightarrow> \<exists>g'. child p g = Some g'"
    and g: "heap_closed g" "Val ` set ps \<subseteq> nodes g" "scan_work g < k"
  shows "\<exists>g'. foldo child ps g = Some g'"
proof (rule foldo_total [where m = scan_work, OF f _ t g])
  show "scan_work g' \<le> scan_work g" if "heap_closed g" "child p g = Some g'" for p g g'
  proof -
    have "skel g' = skel g" "scan_node (sc g) (glb g) (abs_of g) (Val p) (abs_of g')" using f that(2) by (auto simp: implements_def)
    then show ?thesis by (rule scan_work_le [OF that(1)])
  qed
qed

lemma object_scan_total:
  assumes f: "implements scan_node visit"
    and t: "\<And>p g. heap_closed g \<Longrightarrow> Val p \<in> nodes g \<Longrightarrow> scan_work g < k \<Longrightarrow> \<exists>g'. visit p g = Some g'"
    and g: "heap_closed g" "Obj h \<in> nodes g" "scan_work g < k" "k \<le> Suc fuel"
  shows "\<exists>g'. object_scan fuel visit h g = Some g'"
proof -
  obtain ob where ob: "obj_at g h = Some ob" using g(2) by (auto simp: nodes_obj)
  obtain g1 where g1: "obj_set_color GC_WHITE h g = Some g1" using obj_ok(1) [OF g(2)] by blast
  note e = obj_color_effect [OF g1]
  have "uncoloured GC_BLACK g \<le> fuel" using g(3,4) by (simp add: scan_work_def)
  then obtain g2 where g2: "zobj_scan_black fuel h g = Some g2" using zobj_scan_black_total [OF g(1,2)] by blast
  have "\<exists>g'. foldo visit (obj_zvals ob) g1 = Some g'"
    using e g(1,3) heap_closed_skel [of g1 g] skel_graph(3) [of g1 g] obj_zvals_nodes [OF g(1) ob] scan_work_obj [OF g1]
    by (intro foldo_scan_total [OF f t]) auto
  then show ?thesis using ob g1 g2 by (auto simp: object_scan_def gc_props_foldo)
qed

lemma zval_scan_total:
  "heap_closed g \<Longrightarrow> Val p \<in> nodes g \<Longrightarrow> scan_work g < fuel \<Longrightarrow> \<exists>g'. zval_scan fuel p g = Some g'"
proof (induction fuel arbitrary: p g)
  case (Suc fuel)
  have f: "implements scan_node (zval_scan fuel)" using zval_scan_scans by (auto simp: implements_def)
  have t: "\<exists>g'. zval_scan fuel p g = Some g'" if "heap_closed g" "Val p \<in> nodes g" "scan_work g < fuel" for p g
    by (rule Suc.IH [OF that])
  obtain z where z: "zvals g p = Some z" using Suc.prems by (auto simp: nodes_val)
  obtain g1 where g1: "GC_ZVAL_SET_COLOR GC_WHITE p g = Some g1" using set_color_ok(1) [OF Suc.prems(2)] by blast
  note e = set_color_effect [OF g1]
  have c1: "heap_closed g1" "nodes g1 = nodes g" "object_buckets g1 = None \<longleftrightarrow> object_buckets g = None"
    using e Suc.prems(1) heap_closed_skel skel_graph(3) skel_buckets by blast+
  have succ: "set (sc g (Val p)) \<subseteq> nodes g" using Suc.prems by (simp add: heap_closed_def)
  show ?case
  proof (cases "GC_GET_COLOR (u z) = GC_GREY")
    case grey: True
    have k: "col g (Val p) = GC_GREY" using zval_at [OF z] grey by simp
    have less: "scan_work g1 < fuel" using scan_work_less [OF Suc.prems(1) g1 k Suc.prems(2)] Suc.prems(3) by simp
    have "uncoloured GC_BLACK g \<le> fuel" using Suc.prems(3) by (simp add: scan_work_def)
    then obtain g2 where g2: "zval_scan_black fuel p g = Some g2"
      using zval_scan_black_total [OF Suc.prems(1,2)] k by auto
    have "\<exists>g'. (case z_value z of
                 IS_OBJECT h \<Rightarrow> if object_buckets g1 = None then Some g1 else object_scan fuel (zval_scan fuel) h g1
               | IS_ARRAY st ps \<Rightarrow> if st then GC_ZVAL_SET_BLACK p g1 else foldo (zval_scan fuel) ps g1
               | _ \<Rightarrow> Some g1) = Some g'"
    proof (cases "z_value z")
      case (IS_ARRAY st ps)
      obtain g3 where g3: "GC_ZVAL_SET_BLACK p g1 = Some g3" using set_color_ok(2) [of p g1] Suc.prems(2) c1(2) by blast
      have "\<exists>g'. foldo (zval_scan fuel) ps g1 = Some g'" if "\<not> st"
        using that succ z IS_ARRAY c1(2) by (intro foldo_scan_total [OF f t c1(1) _ less]) (auto simp: sc_def)
      then show ?thesis using IS_ARRAY g3 by (cases st) auto
    next
      case (IS_OBJECT h)
      have "\<exists>g'. object_scan fuel (zval_scan fuel) h g1 = Some g'" if "object_buckets g1 \<noteq> None"
        using that succ z IS_OBJECT c1(2,3) by (intro object_scan_total [OF f t c1(1) _ less]) (auto simp: sc_def)
      then show ?thesis using IS_OBJECT by simp
    qed simp_all
    then show ?thesis using z g1 g2 grey by auto
  qed (use z in simp)
qed simp

lemma zobj_scan_total:
  assumes "heap_closed g" "Obj h \<in> nodes g" "scan_work g < fuel"
  shows "\<exists>g'. zobj_scan fuel h g = Some g'"
proof -
  have "implements scan_node (zval_scan fuel)" using zval_scan_scans by (auto simp: implements_def)
  then show ?thesis unfolding zobj_scan_def using assms object_scan_total [OF _ zval_scan_total] by simp
qed

lemma zobj_mark_grey_total:
  assumes "heap_closed g" "Obj h \<in> nodes g" "uncoloured GC_GREY g < fuel"
  shows "\<exists>g'. zobj_mark_grey fuel h g = Some g'"
proof -
  have t: "\<exists>g'. grey_child (zval_mark_grey fuel) p g = Some g'" if "heap_closed g" "Val p \<in> nodes g" "uncoloured GC_GREY g < fuel" for p g
    by (rule grey_child_total [OF zval_mark_grey_total that])
  have f: "floods GC_GREY (- 1) (grey_child (zval_mark_grey fuel))" by (rule grey_child_floods [OF zval_mark_grey_floods])
  show ?thesis unfolding zobj_mark_grey_def using assms by (intro object_mark_grey_total [OF f t]) auto
qed

end
