(* ===== verification/Zend_Gc_Roots.thy ===== *)
theory Zend_Gc_Roots
  imports Zend_Gc_Phases
begin

text \<open>
  The buffer of possible roots: its lists, and the first two phases of a collection, which go through the roots, mark
  everything reachable from them grey and tell apart what is alive (black) from what is garbage (white).
\<close>

section \<open>The list of roots\<close>

definition root_list :: "gc_state \<Rightarrow> nat list \<Rightarrow> bool" where
  "root_list g L \<longleftrightarrow> linked (fld rb_next (root_bufs g)) (fld rb_prev (root_bufs g)) L \<and>
     roots_next g = first_of L \<and> roots_prev g = last_of L"

text \<open>Everything of the globals that is not in the buffer, and the values.\<close>

definition others where
  "others g = (gc_enabled g, gc_active g, gc_buf g, first_unused g, last_unused g, zval_to_free g, free_list g, next_to_free g,
     gc_runs g, gc_collected g, zvals g, object_buckets g)"

definition root_node :: "gc_state \<Rightarrow> nat \<Rightarrow> node" where
  "root_node g i = (case root_bufs g i of None \<Rightarrow> Val 0 | Some b \<Rightarrow> if rb_handle b \<noteq> 0 then Obj (rb_handle b) else Val (rb_pz b))"

definition same_entries :: "gc_state \<Rightarrow> gc_state \<Rightarrow> bool" where
  "same_entries g g' \<longleftrightarrow> fld rb_handle (root_bufs g') = fld rb_handle (root_bufs g) \<and> fld rb_pz (root_bufs g') = fld rb_pz (root_bufs g)"

lemma same_entries_node: "same_entries g g' \<Longrightarrow> root_node g' i = root_node g i"
  unfolding same_entries_def fun_eq_iff root_node_def fld_def
  by (elim conjE allE [of _ i], cases "root_bufs g i"; cases "root_bufs g' i") auto

lemma same_entries_trans: "same_entries g g1 \<Longrightarrow> same_entries g1 g2 \<Longrightarrow> same_entries g g2"
  by (simp add: same_entries_def)

lemma root_list_next:
  assumes "root_list g (ks @ i # xs)"
  shows "\<exists>b. root_bufs g i = Some b \<and> rb_next b = first_of xs \<and> rb_prev b = last_of ks"
  using linked_split [of "fld rb_next (root_bufs g)" "fld rb_prev (root_bufs g)" ks i xs] assms
  by (auto simp: root_list_def fld_def)

lemma remove_root:
  assumes L: "root_list g (ks @ i # xs)"
  obtains g' where "gc_remove_from_buffer i g = Some g'" "root_list g' (ks @ xs)" "same_entries g g'" "others g' = others g"
    "unused g' = Some i" "fld rb_prev (root_bufs g') i = Some (unused g)" "fld rb_next (root_bufs g') i = Some (first_of xs)"
    "\<And>q. q \<notin> set (ks @ i # xs) \<Longrightarrow> root_bufs g' q = root_bufs g q" "dom (root_bufs g') = dom (root_bufs g)"
proof -
  obtain b where b: "root_bufs g i = Some b" "rb_next b = first_of xs" "rb_prev b = last_of ks" using root_list_next [OF L] by blast
  have d: "distinct (ks @ i # xs)" using L linked_distinct unfolding root_list_def by blast
  have dm: "set (ks @ i # xs) \<subseteq> dom (root_bufs g)"
    using L by (auto simp: root_list_def linked_def fld_def)
  let ?m1 = "case first_of xs of Some n \<Rightarrow> modify n (\<lambda>c. c\<lparr>rb_prev := last_of ks\<rparr>) (root_bufs g) | None \<Rightarrow> root_bufs g"
  let ?m2 = "case last_of ks of Some p \<Rightarrow> modify p (\<lambda>c. c\<lparr>rb_next := first_of xs\<rparr>) ?m1 | None \<Rightarrow> ?m1"
  let ?m3 = "modify i (\<lambda>c. c\<lparr>rb_prev := unused g\<rparr>) ?m2"
  have nx: "n \<in> dom (root_bufs g)" if "first_of xs = Some n" for n using that dm first_of_in by fastforce
  have pv: "n \<in> dom (root_bufs g)" if "last_of ks = Some n" for n using that dm last_of_in by fastforce
  have dom1: "dom ?m1 = dom (root_bufs g)" "dom ?m2 = dom (root_bufs g)" by (auto split: option.splits)
  have i: "i \<in> dom (root_bufs g)" using b by blast
  have first: "first_of (ks @ i # xs) = first_of (ks @ xs)" if "ks \<noteq> []" using that by (simp add: first_of_append)
  have lst: "last_of (ks @ i # xs) = last_of (ks @ xs)" if "xs \<noteq> []" using that by (auto simp: last_of_append last_of_def)
  have "\<exists>g'. gc_remove_from_buffer i g = Some g' \<and> root_bufs g' = ?m3 \<and> roots_next g' = first_of (ks @ xs) \<and>
      roots_prev g' = last_of (ks @ xs) \<and> unused g' = Some i \<and> others g' = others g"
  proof (cases "xs = []"; cases "ks = []")
    assume "xs = []" "ks = []"
    then show ?thesis using b i by (simp add: gc_remove_from_buffer_def rpoke_def others_def)
  next
    assume ne: "xs = []" "ks \<noteq> []"
    then obtain p where "last_of ks = Some p" "xs = []" by (cases "last_of ks") auto
    then show ?thesis using b i pv L first [OF ne(2)] by (auto simp: gc_remove_from_buffer_def rpoke_def others_def root_list_def)
  next
    assume ne: "xs \<noteq> []" "ks = []"
    then obtain n where "first_of xs = Some n" "ks = []" by (cases "first_of xs") auto
    then show ?thesis using b i nx L lst [OF ne(1)] by (auto simp: gc_remove_from_buffer_def rpoke_def others_def root_list_def)
  next
    assume ne: "xs \<noteq> []" "ks \<noteq> []"
    obtain n where n: "first_of xs = Some n" using ne by (cases "first_of xs") auto
    obtain p where p: "last_of ks = Some p" using ne by (cases "last_of ks") auto
    show ?thesis using b i pv [OF p] nx [OF n] L lst [OF ne(1)] first [OF ne(2)] n p
      by (auto simp: gc_remove_from_buffer_def rpoke_def others_def root_list_def)
  qed
  then obtain g' where r: "gc_remove_from_buffer i g = Some g'" and g': "root_bufs g' = ?m3" "roots_next g' = first_of (ks @ xs)"
      "roots_prev g' = last_of (ks @ xs)" "unused g' = Some i" "others g' = others g" by blast
  have ine: "first_of xs \<noteq> Some i" "last_of ks \<noteq> Some i" using d first_of_in last_of_in by fastforce+
  have fn: "fld rb_next ?m3 = upd_opt (last_of ks) (first_of xs) (fld rb_next (root_bufs g))"
    using pv nx by (cases "first_of xs"; cases "last_of ks") auto
  have fp: "fld rb_prev ?m3 = (upd_opt (first_of xs) (last_of ks) (fld rb_prev (root_bufs g)))(i \<mapsto> unused g)"
    using pv nx i by (cases "first_of xs"; cases "last_of ks") auto
  have "linked (upd_opt (last_of ks) (first_of xs) (fld rb_next (root_bufs g))) (upd_opt (first_of xs) (last_of ks) (fld rb_prev (root_bufs g))) (ks @ xs)"
    using L by (intro linked_unlink [where p = i]) (simp add: root_list_def)
  moreover have "linked (fld rb_next ?m3) (fld rb_prev ?m3) (ks @ xs) = linked (upd_opt (last_of ks) (first_of xs) (fld rb_next (root_bufs g)))
      (upd_opt (first_of xs) (last_of ks) (fld rb_prev (root_bufs g))) (ks @ xs)"
    unfolding fn fp using d by (intro linked_cong) auto
  ultimately have "linked (fld rb_next ?m3) (fld rb_prev ?m3) (ks @ xs)" by blast
  then have rl: "root_list g' (ks @ xs)" using g' by (simp add: root_list_def)
  have se: "same_entries g g'" unfolding same_entries_def g'(1) by (cases "first_of xs"; cases "last_of ks") simp_all
  have "?m3 q = root_bufs g q" if "q \<notin> set (ks @ i # xs)" for q
    using that first_of_in [of xs] last_of_in [of ks] by (cases "first_of xs"; cases "last_of ks") (auto simp: modify_def)
  moreover have "fld rb_next ?m3 i = Some (first_of xs)" unfolding fn using b ine by (simp add: upd_opt_apply)
  moreover have "fld rb_prev ?m3 i = Some (unused g)" unfolding fp by simp
  ultimately show ?thesis using that [OF r rl se g'(5,4)] dom1 unfolding g'(1) by simp
qed

text \<open>
  The entries of the buffer: those in the list of roots and the unused ones share out the used part of the array.
\<close>

fun unused_chain :: "(nat \<rightharpoonup> gc_root_buffer) \<Rightarrow> nat option \<Rightarrow> nat list \<Rightarrow> bool" where
  "unused_chain m a [] \<longleftrightarrow> a = None"
| "unused_chain m a (i # U) \<longleftrightarrow> a = Some i \<and> (\<exists>b. m i = Some b \<and> unused_chain m (rb_prev b) U)"

definition buffer_ok :: "gc_state \<Rightarrow> nat list \<Rightarrow> nat list \<Rightarrow> bool" where
  "buffer_ok g L U \<longleftrightarrow> root_list g L \<and> unused_chain (root_bufs g) (unused g) U \<and> distinct (L @ U) \<and>
     set (L @ U) = {..<first_unused g} \<and> first_unused g \<le> last_unused g"

lemma unused_chain_cong: "(\<And>i. i \<in> set U \<Longrightarrow> m' i = m i) \<Longrightarrow> unused_chain m' a U = unused_chain m a U"
proof (induction U arbitrary: a)
  case (Cons i U)
  have "unused_chain m' (rb_prev b) U = unused_chain m (rb_prev b) U" for b :: gc_root_buffer by (rule Cons.IH) (simp add: Cons.prems)
  then show ?case by (simp add: Cons.prems)
qed simp

lemma remove_buffer:
  assumes "buffer_ok g (ks @ i # xs) U"
  obtains g' where "gc_remove_from_buffer i g = Some g'" "buffer_ok g' (ks @ xs) (i # U)" "same_entries g g'" "others g' = others g"
    "fld rb_next (root_bufs g') i = Some (first_of xs)"
proof -
  have rl: "root_list g (ks @ i # xs)" and u: "unused_chain (root_bufs g) (unused g) U" and d: "distinct ((ks @ i # xs) @ U)"
    and st: "set ((ks @ i # xs) @ U) = {..<first_unused g}" "first_unused g \<le> last_unused g"
    using assms by (auto simp: buffer_ok_def)
  obtain g' where g': "gc_remove_from_buffer i g = Some g'" "root_list g' (ks @ xs)" "same_entries g g'" "others g' = others g"
    "unused g' = Some i" "fld rb_prev (root_bufs g') i = Some (unused g)" "fld rb_next (root_bufs g') i = Some (first_of xs)"
    "\<And>q. q \<notin> set (ks @ i # xs) \<Longrightarrow> root_bufs g' q = root_bufs g q" "dom (root_bufs g') = dom (root_bufs g)"
    using remove_root [OF rl] by metis
  have "unused_chain (root_bufs g') (unused g) U"
  proof (subst unused_chain_cong [of U _ "root_bufs g"])
    fix q assume "q \<in> set U"
    then have "q \<notin> set (ks @ i # xs)" using d by auto
    then show "root_bufs g' q = root_bufs g q" by (rule g'(8))
  qed (rule u)
  then have uc: "unused_chain (root_bufs g') (unused g') (i # U)" using g'(5,6) by (auto simp: fld_def)
  have fu: "first_unused g' = first_unused g" "last_unused g' = last_unused g" using g'(4) by (simp_all add: others_def)
  have "set ((ks @ xs) @ i # U) = {..<first_unused g}" "distinct ((ks @ xs) @ i # U)" using st d by auto
  then have "buffer_ok g' (ks @ xs) (i # U)" using g'(2) uc fu st(2) by (simp add: buffer_ok_def)
  then show ?thesis using that [OF g'(1) _ g'(3,4,7)] by blast
qed

section \<open>States between the steps of a collection\<close>

text \<open>The graph stays the same during a collection.\<close>

definition same_graph :: "gc_state \<Rightarrow> gc_state \<Rightarrow> bool" where
  "same_graph g g' \<longleftrightarrow> sc g' = sc g \<and> glb g' = glb g \<and> nodes g' = nodes g \<and> dom (zvals g') = dom (zvals g) \<and>
     (object_buckets g' = None \<longleftrightarrow> object_buckets g = None)"

lemma same_graph_skel: "skel g' = skel g \<Longrightarrow> same_graph g g'"
  using skel_graph [of g' g] skel_buckets [of g' g] by (simp add: same_graph_def)

lemma same_graph_trans: "same_graph g g1 \<Longrightarrow> same_graph g1 g2 \<Longrightarrow> same_graph g g2"
  by (simp add: same_graph_def)

lemma same_graph_closed: "same_graph g g' \<Longrightarrow> heap_closed g' = heap_closed g"
  by (simp add: same_graph_def heap_closed_def)

lemma skel_bufs:
  assumes "skel g' = skel g"
  shows "root_bufs g' = root_bufs g" "roots_next g' = roots_next g" "roots_prev g' = roots_prev g" "unused g' = unused g"
    "first_unused g' = first_unused g" "last_unused g' = last_unused g" "zval_to_free g' = zval_to_free g"
proof -
  note e = skel_globals [OF assms]
  show "root_bufs g' = root_bufs g" using arg_cong [OF e, of root_bufs] by simp
  show "roots_next g' = roots_next g" using arg_cong [OF e, of roots_next] by simp
  show "roots_prev g' = roots_prev g" using arg_cong [OF e, of roots_prev] by simp
  show "unused g' = unused g" using arg_cong [OF e, of unused] by simp
  show "first_unused g' = first_unused g" using arg_cong [OF e, of first_unused] by simp
  show "last_unused g' = last_unused g" using arg_cong [OF e, of last_unused] by simp
  show "zval_to_free g' = zval_to_free g" using arg_cong [OF e, of zval_to_free] by simp
qed

lemma skel_buffer: "skel g' = skel g \<Longrightarrow> buffer_ok g' L U = buffer_ok g L U \<and> same_entries g g'"
  using skel_bufs [of g' g] by (simp add: buffer_ok_def root_list_def same_entries_def)

lemma others_values:
  assumes "others g' = others g"
  shows "same_graph g g'" "abs_of g' = abs_of g" "addr g' = addr g" "zval_to_free g' = zval_to_free g" "ref_at g' = ref_at g"
proof -
  have e: "zvals g' = zvals g" "object_buckets g' = object_buckets g" "zval_to_free g' = zval_to_free g"
    using assms by (simp_all add: others_def)
  then have o: "obj_at g' = obj_at g" by (simp add: obj_at_def fun_eq_iff)
  show r: "ref_at g' = ref_at g" by (simp add: fun_eq_iff ref_at_def e o split: node.splits)
  show "zval_to_free g' = zval_to_free g" by (rule e)
  have "sc g' n = sc g n" "glb g' n = glb g n" "cnt g' n = cnt g n" for n
    by (auto simp: sc_def glb_def cnt_def e o split: node.splits option.splits gc_value.splits)
  then have "sc g' = sc g" "glb g' = glb g" "cnt g' = cnt g" by (auto simp: fun_eq_iff)
  then show "same_graph g g'" "abs_of g' = abs_of g"
    by (simp_all add: same_graph_def nodes_def e o abs_of_def col_def r fun_eq_iff)
  show "addr g' = addr g" using r by (simp add: addr_def fun_eq_iff)
qed

text \<open>Clearing the address of a root.\<close>

lemma clear_zval:
  assumes "Val p \<in> nodes g"
  obtains g' where "GC_ZVAL_SET_ADDRESS GC_NULL p g = Some g'" "same_graph g g'" "abs_of g' = abs_of g"
    "addr g' = (addr g)(Val p := GC_NULL)" "buffer_ok g' = buffer_ok g" "same_entries g g'" "zval_to_free g' = zval_to_free g"
proof -
  obtain z where z: "zvals g p = Some z" using assms by (auto simp: nodes_val)
  let ?g = "g\<lparr>zvals := (zvals g)(p \<mapsto> z\<lparr>u := GC_SET_ADDRESS GC_NULL (u z)\<rparr>)\<rparr>"
  have r: "GC_ZVAL_SET_ADDRESS GC_NULL p g = Some ?g" using z by (simp add: GC_ZVAL_SET_ADDRESS_def zpoke_def poke_def)
  have o: "obj_at ?g = obj_at g" by (simp add: obj_at_def fun_eq_iff)
  have "sc ?g n = sc g n" "glb ?g n = glb g n" "col ?g n = col g n" "cnt ?g n = cnt g n" "addr ?g n = ((addr g)(Val p := GC_NULL)) n" for n
    using z o by (auto simp: sc_def glb_def col_def cnt_def addr_def ref_at_def symbol_table_def GC_SET_ADDRESS_def split: node.splits option.splits gc_value.splits)
  then have "sc ?g = sc g" "glb ?g = glb g" "abs_of ?g = abs_of g" "addr ?g = (addr g)(Val p := GC_NULL)" by (auto simp: abs_of_def fun_eq_iff)
  moreover have "nodes ?g = nodes g" using z o by (auto simp: nodes_def)
  moreover have "dom (zvals ?g) = dom (zvals g)" using z by auto
  ultimately show ?thesis using that [OF r] by (simp add: same_graph_def buffer_ok_def root_list_def same_entries_def fun_eq_iff)
qed

lemma clear_obj:
  assumes "Obj h \<in> nodes g"
  obtains g' where "opoke h (\<lambda>obj. obj\<lparr>obj_buffered := GC_SET_ADDRESS GC_NULL (obj_buffered obj)\<rparr>) g = Some g'" "same_graph g g'"
    "abs_of g' = abs_of g" "addr g' = (addr g)(Obj h := GC_NULL)" "buffer_ok g' = buffer_ok g" "same_entries g g'"
    "zval_to_free g' = zval_to_free g"
proof -
  obtain m ob where m: "object_buckets g = Some m" "m h = Some ob" using assms by (auto simp: nodes_obj obj_at_def split: bind_splits)
  let ?ob = "ob\<lparr>obj_buffered := GC_SET_ADDRESS GC_NULL (obj_buffered ob)\<rparr>"
  let ?g = "g\<lparr>object_buckets := Some (m(h \<mapsto> ?ob))\<rparr>"
  have r: "opoke h (\<lambda>obj. obj\<lparr>obj_buffered := GC_SET_ADDRESS GC_NULL (obj_buffered obj)\<rparr>) g = Some ?g"
    using m by (simp add: opoke_def poke_def)
  have o: "obj_at ?g = (obj_at g)(h \<mapsto> ?ob)" "obj_at g h = Some ob" using m by (simp_all add: obj_at_def fun_eq_iff)
  have "obj_zvals ?ob = obj_zvals ob" by (simp add: obj_zvals_def)
  then have "sc ?g n = sc g n" "glb ?g n = glb g n" "col ?g n = col g n" "cnt ?g n = cnt g n" "addr ?g n = ((addr g)(Obj h := GC_NULL)) n" for n
    using m o by (auto simp: sc_def glb_def col_def cnt_def addr_def ref_at_def GC_SET_ADDRESS_def split: node.splits option.splits gc_value.splits)
  then have "sc ?g = sc g" "glb ?g = glb g" "abs_of ?g = abs_of g" "addr ?g = (addr g)(Obj h := GC_NULL)" by (auto simp: abs_of_def fun_eq_iff)
  moreover have "nodes ?g = nodes g" using o by (auto simp: nodes_def split: if_splits)
  ultimately show ?thesis using that [OF r] m by (simp add: same_graph_def buffer_ok_def root_list_def same_entries_def fun_eq_iff)
qed

section \<open>Marking\<close>

text \<open>
  A state in which a collection can start: no dangling pointers; every value is black or purple, the purple ones with an address
  are exactly those in the list of roots.
\<close>

definition gc_ready :: "gc_state \<Rightarrow> nat list \<Rightarrow> nat list \<Rightarrow> bool" where
  "gc_ready g L U \<longleftrightarrow> heap_closed g \<and> object_buckets g \<noteq> None \<and> buffer_ok g L U \<and>
     (\<forall>n\<in>nodes g. col g n = GC_BLACK \<or> col g n = GC_PURPLE) \<and>
     (\<forall>i\<in>set L. root_node g i \<in> nodes g \<and> col g (root_node g i) = GC_PURPLE \<and> addr g (root_node g i) = Root i) \<and>
     (\<forall>n\<in>nodes g. addr g n = GC_NULL \<or> n \<in> root_node g ` set L)"

lemma mark_root_purple:
  assumes b: "buffer_ok g (ks @ i # xs) U" and n: "root_node g i \<in> nodes g" "col g (root_node g i) = GC_PURPLE"
    and h: "heap_closed g" "object_buckets g \<noteq> None" "uncoloured GC_GREY g < fuel"
  obtains g' where "mark_root fuel i g = Some (g', first_of xs)" "skel g' = skel g"
    "flood_node (sc g) (glb g) GC_GREY (- 1) (abs_of g) (root_node g i) (abs_of g')"
proof -
  obtain e where e: "root_bufs g i = Some e" "rb_next e = first_of xs" using root_list_next [of g ks i xs] b by (auto simp: buffer_ok_def)
  show ?thesis
  proof (cases "rb_handle e = 0")
    case True
    then have nd: "root_node g i = Val (rb_pz e)" using e by (simp add: root_node_def)
    then obtain z where z: "zvals g (rb_pz e) = Some z" using n by (auto simp: nodes_val)
    obtain g' where g': "zval_mark_grey fuel (rb_pz e) g = Some g'" using zval_mark_grey_total [OF h(1) _ h(3)] n nd by metis
    note f = zval_mark_grey_floods [OF g']
    have "mark_root fuel i g = Some (g', first_of xs)"
      using e True z g' zval_at [OF z] n nd skel_bufs(1) [of g' g] f by (simp add: mark_root_def)
    then show ?thesis using that f nd by metis
  next
    case False
    then have nd: "root_node g i = Obj (rb_handle e)" using e by (simp add: root_node_def)
    then obtain ob where ob: "obj_at g (rb_handle e) = Some ob" using n by (auto simp: nodes_obj)
    obtain g' where g': "zobj_mark_grey fuel (rb_handle e) g = Some g'" using zobj_mark_grey_total [OF h(1) _ h(3)] n nd by metis
    note f = zobj_mark_grey_floods [OF g']
    have "mark_root fuel i g = Some (g', first_of xs)"
      using e False ob g' object_at [OF ob] n nd skel_bufs(1) [of g' g] f h(2) by (auto simp: mark_root_def)
    then show ?thesis using that f nd by metis
  qed
qed

lemma mark_root_other:
  assumes b: "buffer_ok g (ks @ i # xs) U" and n: "root_node g i \<in> nodes g" "col g (root_node g i) \<noteq> GC_PURPLE"
    and h: "object_buckets g \<noteq> None"
  obtains g' where "mark_root fuel i g = Some (g', first_of xs)" "same_graph g g'" "same_entries g g'" "abs_of g' = abs_of g"
    "addr g' = (addr g)(root_node g i := GC_NULL)" "buffer_ok g' (ks @ xs) (i # U)" "zval_to_free g' = zval_to_free g"
proof -
  obtain e where e: "root_bufs g i = Some e" "rb_next e = first_of xs" using root_list_next [of g ks i xs] b by (auto simp: buffer_ok_def)
  note goal = that
  have step: thesis if c: "same_graph g g1" "abs_of g1 = abs_of g" "addr g1 = (addr g)(root_node g i := GC_NULL)"
      "buffer_ok g1 = buffer_ok g" "same_entries g g1" "zval_to_free g1 = zval_to_free g"
    and r: "\<And>g2 b'. gc_remove_from_buffer i g1 = Some g2 \<Longrightarrow> root_bufs g2 i = Some b' \<Longrightarrow> mark_root fuel i g = Some (g2, rb_next b')" for g1
  proof -
    obtain g2 where g2: "gc_remove_from_buffer i g1 = Some g2" "buffer_ok g2 (ks @ xs) (i # U)" "same_entries g1 g2" "others g2 = others g1"
        "fld rb_next (root_bufs g2) i = Some (first_of xs)"
      using remove_buffer [of g1 ks i xs U] b c(4) by metis
    obtain b' where b': "root_bufs g2 i = Some b'" "rb_next b' = first_of xs" using g2(5) by (auto simp: fld_def)
    note o = others_values [OF g2(4)]
    show thesis using goal [of g2] r [OF g2(1) b'(1)] b'(2) same_graph_trans [OF c(1) o(1)] same_entries_trans [OF c(5) g2(3)] o(2-4) c(2,3,6) g2(2)
      by simp
  qed
  show ?thesis
  proof (cases "rb_handle e = 0")
    case True
    then have nd: "root_node g i = Val (rb_pz e)" using e by (simp add: root_node_def)
    then obtain z where z: "zvals g (rb_pz e) = Some z" using n by (auto simp: nodes_val)
    obtain g1 where g1: "GC_ZVAL_SET_ADDRESS GC_NULL (rb_pz e) g = Some g1" "same_graph g g1" "abs_of g1 = abs_of g"
        "addr g1 = (addr g)(Val (rb_pz e) := GC_NULL)" "buffer_ok g1 = buffer_ok g" "same_entries g g1" "zval_to_free g1 = zval_to_free g"
      by (rule clear_zval [OF n(1) [unfolded nd]]) blast
    have nc: "GC_GET_COLOR (u z) \<noteq> GC_PURPLE" using zval_at [OF z] n(2) nd by simp
    have "mark_root fuel i g = Some (g2, rb_next b')" if "gc_remove_from_buffer i g1 = Some g2" "root_bufs g2 i = Some b'" for g2 b'
      using e(1) True z nc g1(1) that by (simp add: mark_root_def)
    then show ?thesis by (intro step [OF g1(2,3) g1(4) [folded nd] g1(5-7)])
  next
    case False
    then have nd: "root_node g i = Obj (rb_handle e)" using e by (simp add: root_node_def)
    then obtain ob where ob: "obj_at g (rb_handle e) = Some ob" using n by (auto simp: nodes_obj)
    obtain g1 where g1: "opoke (rb_handle e) (\<lambda>obj. obj\<lparr>obj_buffered := GC_SET_ADDRESS GC_NULL (obj_buffered obj)\<rparr>) g = Some g1" "same_graph g g1"
        "abs_of g1 = abs_of g" "addr g1 = (addr g)(Obj (rb_handle e) := GC_NULL)" "buffer_ok g1 = buffer_ok g" "same_entries g g1"
        "zval_to_free g1 = zval_to_free g"
      by (rule clear_obj [OF n(1) [unfolded nd]]) blast
    have nc: "GC_GET_COLOR (obj_buffered ob) \<noteq> GC_PURPLE" using object_at [OF ob] n(2) nd by simp
    obtain m where m: "object_buckets g = Some m" using h by blast
    have "mark_root fuel i g = Some (g2, rb_next b')" if "gc_remove_from_buffer i g1 = Some g2" "root_bufs g2 i = Some b'" for g2 b'
      using e(1) False ob nc g1(1) that m by (simp add: mark_root_def)
    then show ?thesis by (intro step [OF g1(2,3) g1(4) [folded nd] g1(5-7)])
  qed
qed

text \<open>The loop over the roots: \<open>ks\<close> are the roots that were kept, \<open>xs\<close> those to come.\<close>

definition mark_inv :: "gc_state \<Rightarrow> nat list \<Rightarrow> nat list \<Rightarrow> nat list \<Rightarrow> nat list \<Rightarrow> node set \<Rightarrow> gc_state \<Rightarrow> bool" where
  "mark_inv g0 L ks xs U N g \<longleftrightarrow>
     buffer_ok g (ks @ xs) U \<and> same_graph g0 g \<and> same_entries g0 g \<and> zval_to_free g = zval_to_free g0 \<and>
     flooded (sc g0) (glb g0) GC_GREY (- 1) (nodes g0) (root_node g0 ` set ks) (\<lambda>_. 0) N (abs_of g0) (abs_of g) \<and>
     (\<forall>i\<in>set L. i \<in> set xs \<or> glb g0 (root_node g0 i) \<or> col g (root_node g0 i) = GC_GREY) \<and>
     set (ks @ xs) \<subseteq> set L \<and>
     (\<forall>i\<in>set (ks @ xs). addr g (root_node g0 i) = Root i) \<and>
     (\<forall>n\<in>nodes g0. addr g n = GC_NULL \<or> n \<in> root_node g0 ` set (ks @ xs))"

lemma mark_invD:
  assumes "mark_inv g0 L ks xs U N g"
  shows "buffer_ok g (ks @ xs) U" "same_graph g0 g" "same_entries g0 g" "zval_to_free g = zval_to_free g0"
    "flooded (sc g0) (glb g0) GC_GREY (- 1) (nodes g0) (root_node g0 ` set ks) (\<lambda>_. 0) N (abs_of g0) (abs_of g)"
    "\<forall>i\<in>set L. i \<in> set xs \<or> glb g0 (root_node g0 i) \<or> col g (root_node g0 i) = GC_GREY" "set (ks @ xs) \<subseteq> set L"
    "\<forall>i\<in>set (ks @ xs). addr g (root_node g0 i) = Root i" "\<forall>n\<in>nodes g0. addr g n = GC_NULL \<or> n \<in> root_node g0 ` set (ks @ xs)"
  using assms unfolding mark_inv_def by - (elim conjE, assumption)+

lemma uncoloured_bound: "heap_closed g \<Longrightarrow> uncoloured K g \<le> card (dom (zvals g))"
  unfolding uncoloured_def by (intro card_mono heap_closed_dom) auto

lemma same_graphD:
  assumes "same_graph g g'"
  shows "sc g' = sc g" "glb g' = glb g" "nodes g' = nodes g" "dom (zvals g') = dom (zvals g)" "object_buckets g' = None \<longleftrightarrow> object_buckets g = None"
  using assms by (simp_all add: same_graph_def)

lemma gc_readyD:
  assumes "gc_ready g L U"
  shows "heap_closed g" "object_buckets g \<noteq> None" "buffer_ok g L U" "\<And>n. n \<in> nodes g \<Longrightarrow> col g n = GC_BLACK \<or> col g n = GC_PURPLE"
    "\<And>i. i \<in> set L \<Longrightarrow> root_node g i \<in> nodes g" "\<And>i. i \<in> set L \<Longrightarrow> col g (root_node g i) = GC_PURPLE"
    "\<And>i. i \<in> set L \<Longrightarrow> addr g (root_node g i) = Root i" "\<And>n. n \<in> nodes g \<Longrightarrow> addr g n = GC_NULL \<or> n \<in> root_node g ` set L"
  using assms by (auto simp: gc_ready_def)

lemma closed_sc: "heap_closed g \<Longrightarrow> n \<in> nodes g \<Longrightarrow> set (sc g n) \<subseteq> nodes g"
  by (simp add: heap_closed_def)

lemma mark_step:
  assumes r: "gc_ready g0 L U0" and i: "mark_inv g0 L ks (i # xs) U N g" and fuel: "card (dom (zvals g0)) < fuel"
  shows "\<exists>g' ks' U' N'. mark_root fuel i g = Some (g', first_of xs) \<and> mark_inv g0 L ks' xs U' N' g'"
proof -
  note I = mark_invD [OF i] and G = same_graphD [OF mark_invD(2) [OF i]]
  let ?n = "root_node g0 i"
  have iL: "i \<in> set L" using I(7) by simp
  have n: "root_node g i = ?n" "?n \<in> nodes g" using same_entries_node [OF I(3)] gc_readyD(5) [OF r iL] G(3) by simp_all
  have closed: "heap_closed g" "object_buckets g \<noteq> None"
    using same_graph_closed [OF I(2)] gc_readyD(1,2) [OF r] G(5) by simp_all
  have pend: "uncoloured GC_GREY g < fuel" using uncoloured_bound [OF closed(1), of GC_GREY] fuel G(4) by simp
  have dst: "distinct (ks @ i # xs)" using I(1) by (auto simp: buffer_ok_def)
  show ?thesis
  proof (cases "col g ?n = GC_PURPLE")
    case True
    obtain g' where g': "mark_root fuel i g = Some (g', first_of xs)" "skel g' = skel g"
        "flood_node (sc g) (glb g) GC_GREY (- 1) (abs_of g) ?n (abs_of g')"
      using mark_root_purple [OF I(1) _ _ closed pend] n True by metis
    obtain M where M: "flooded (sc g0) (glb g0) GC_GREY (- 1) (nodes g0) {?n} (\<lambda>_. 0) M (abs_of g) (abs_of g')" "glb g0 ?n \<or> col g' ?n = GC_GREY"
      using flood_flooded(1) [OF closed_sc [OF closed(1)] g'(3) n(2)] unfolding G by (auto simp: abs_of_def)
    have fl: "flooded (sc g0) (glb g0) GC_GREY (- 1) (nodes g0) (root_node g0 ` set (ks @ [i])) (\<lambda>_. 0) (N \<union> M) (abs_of g0) (abs_of g')"
      using flooded_trans [OF flooded_mono [OF I(5)] flooded_mono [OF M(1)], of "root_node g0 ` set (ks @ [i])"] by auto
    have grey: "glb g0 (root_node g0 j) \<or> col g' (root_node g0 j) = GC_GREY" if "glb g0 (root_node g0 j) \<or> col g (root_node g0 j) = GC_GREY" for j
      using that flooded_stays [OF M(1), of "root_node g0 j"] by (auto simp: abs_of_def)
    have "mark_inv g0 L (ks @ [i]) xs U (N \<union> M) g'"
      unfolding mark_inv_def
    proof (intro conjI)
      show "buffer_ok g' ((ks @ [i]) @ xs) U" "same_entries g0 g'"
        using skel_buffer [OF g'(2)] I(1,3) same_entries_trans by auto
      show "same_graph g0 g'" using same_graph_trans [OF I(2) same_graph_skel [OF g'(2)]] .
      show "zval_to_free g' = zval_to_free g0" using I(4) skel_bufs(7) [OF g'(2)] by simp
      show "\<forall>j\<in>set L. j \<in> set xs \<or> glb g0 (root_node g0 j) \<or> col g' (root_node g0 j) = GC_GREY"
        using I(6) grey M(2) by fastforce
      show "\<forall>j\<in>set ((ks @ [i]) @ xs). addr g' (root_node g0 j) = Root j" using I(8) skel_graph(4) [OF g'(2)] by simp
      show "\<forall>m\<in>nodes g0. addr g' m = GC_NULL \<or> m \<in> root_node g0 ` set ((ks @ [i]) @ xs)" using I(9) skel_graph(4) [OF g'(2)] by simp
      show "set ((ks @ [i]) @ xs) \<subseteq> set L" using I(7) by simp
    qed (rule fl)
    then show ?thesis using g'(1) by blast
  next
    case False
    obtain g' where g': "mark_root fuel i g = Some (g', first_of xs)" "same_graph g g'" "same_entries g g'" "abs_of g' = abs_of g"
        "addr g' = (addr g)(?n := GC_NULL)" "buffer_ok g' (ks @ xs) (i # U)" "zval_to_free g' = zval_to_free g"
      using mark_root_other [OF I(1), of fuel] n False closed(2) by metis
    have col: "col g' = col g" using g'(4) by (simp add: abs_of_def)
    have ni: "glb g0 ?n \<or> col g ?n = GC_GREY"
      using floodedD(4,7) [OF I(5)] False gc_readyD(6) [OF r iL] by (auto simp: abs_of_def painted_def)
    have "mark_inv g0 L ks xs (i # U) N g'"
      unfolding mark_inv_def
    proof (intro conjI)
      show "same_graph g0 g'" using same_graph_trans [OF I(2) g'(2)] .
      show "same_entries g0 g'" using same_entries_trans [OF I(3) g'(3)] .
      show "zval_to_free g' = zval_to_free g0" using I(4) g'(7) by simp
      show "flooded (sc g0) (glb g0) GC_GREY (- 1) (nodes g0) (root_node g0 ` set ks) (\<lambda>_. 0) N (abs_of g0) (abs_of g')" using I(5) g'(4) by simp
      show "\<forall>j\<in>set L. j \<in> set xs \<or> glb g0 (root_node g0 j) \<or> col g' (root_node g0 j) = GC_GREY" using I(6) ni col by auto
      show "\<forall>j\<in>set (ks @ xs). addr g' (root_node g0 j) = Root j"
      proof
        fix j assume j: "j \<in> set (ks @ xs)"
        then have "addr g (root_node g0 j) = Root j" "addr g ?n = Root i" "j \<noteq> i" using I(8) dst by auto
        then show "addr g' (root_node g0 j) = Root j" using g'(5) by auto
      qed
      show "\<forall>m\<in>nodes g0. addr g' m = GC_NULL \<or> m \<in> root_node g0 ` set (ks @ xs)" using I(9) g'(5) by auto
      show "set (ks @ xs) \<subseteq> set L" using I(7) by simp
    qed (rule g'(6))
    then show ?thesis using g'(1) by blast
  qed
qed

lemma mark_roots_ok:
  assumes r: "gc_ready g L U" and fuel: "card (dom (zvals g)) < fuel"
  shows "\<exists>g' ks U' N. gc_mark_roots fuel g = Some g' \<and> mark_inv g L ks [] U' N g'"
proof -
  have "flooded (sc g) (glb g) GC_GREY (- 1) (nodes g) (root_node g ` set []) (\<lambda>_. 0) {} (abs_of g) (abs_of g)" by (rule flooded_refl)
  then have i: "mark_inv g L [] L U {} g"
    using gc_readyD(3,7,8) [OF r] by (simp add: mark_inv_def same_graph_def same_entries_def)
  have "\<exists>g'. iterate (mark_root fuel) (first_of L) g = Some g' \<and> (\<exists>ks U' N. mark_inv g L ks [] U' N g')"
  proof (rule iterate_rule [where I = "\<lambda>xs g'. \<exists>ks U N. mark_inv g L ks xs U N g'"])
    fix a xs s assume "\<exists>ks U N. mark_inv g L ks (a # xs) U N s"
    then obtain ks V N where "mark_inv g L ks (a # xs) V N s" by blast
    from mark_step [OF r this fuel] show "\<exists>s' n. mark_root fuel a s = Some (s', n) \<and>
        ((n = None \<and> (\<exists>ks U' N. mark_inv g L ks [] U' N s')) \<or> (n = first_of xs \<and> (\<exists>ks U N. mark_inv g L ks xs U N s')))"
      by blast
  qed (use i in blast)+
  moreover have "roots_next g = first_of L" using gc_readyD(3) [OF r] by (simp add: buffer_ok_def root_list_def)
  ultimately show ?thesis by (auto simp: gc_mark_roots_def)
qed

lemma col_outside: "n \<notin> nodes g \<Longrightarrow> col g n = GC_BLACK"
  by (cases n) (auto simp: nodes_obj nodes_val col_def ref_at_def split: option.splits)

lemma glb_sc: "glb g n \<Longrightarrow> sc g n = []"
  by (cases n) (auto simp: glb_def sc_def symbol_table_def split: option.splits gc_value.splits)

lemma mark_greyed:
  assumes r: "gc_ready g L U" and i: "mark_inv g L ks [] U' N g'"
  shows "greyed (sc g) (glb g) (nodes g) N (abs_of g')" "\<And>n. \<not> glb g n \<Longrightarrow> cnt g' n = cnt g n - of_nat (refs (sc g) N n)"
    "N \<subseteq> (edges (sc g))\<^sup>* `` (root_node g ` set ks)" "\<And>j. j \<in> set L \<Longrightarrow> glb g (root_node g j) \<or> root_node g j \<in> N" "set ks \<subseteq> set L"
proof -
  note f = mark_invD(5) [OF i]
  have "col g n \<noteq> GC_GREY" for n using gc_readyD(4) [OF r, of n] col_outside [of n g] by (cases "n \<in> nodes g") auto
  then have p: "painted (glb g) GC_GREY (col g') = N" using floodedD(4) [OF f] by (auto simp: painted_def abs_of_def)
  have "\<forall>n\<in>N. \<forall>m\<in>set (sc g n). glb g m \<or> m \<in> N" using floodedD(6) [OF f] p by (fastforce simp: painted_def abs_of_def)
  then show "greyed (sc g) (glb g) (nodes g) N (abs_of g')"
    using p floodedD(1,2) [OF f] glb_sc by (simp add: greyed_def abs_of_def)
  show "cnt g' n = cnt g n - of_nat (refs (sc g) N n)" if "\<not> glb g n" for n using floodedD(9) [OF f, of n] that by (simp add: abs_of_def)
  show "N \<subseteq> (edges (sc g))\<^sup>* `` (root_node g ` set ks)" by (rule floodedD(5) [OF f])
  show "glb g (root_node g j) \<or> root_node g j \<in> N" if "j \<in> set L" for j
    using mark_invD(6) [OF i] that p by (auto simp: painted_def)
  show "set ks \<subseteq> set L" using mark_invD(7) [OF i] by simp
qed

section \<open>Scanning\<close>

lemma scan_root_ok:
  assumes b: "buffer_ok g (ks @ i # xs) U" and n: "root_node g i \<in> nodes g" and h: "heap_closed g" "object_buckets g \<noteq> None" "scan_work g < fuel"
  obtains g' where "scan_root fuel i g = Some (g', first_of xs)" "skel g' = skel g" "scan_node (sc g) (glb g) (abs_of g) (root_node g i) (abs_of g')"
proof -
  obtain e where e: "root_bufs g i = Some e" "rb_next e = first_of xs" using root_list_next [of g ks i xs] b by (auto simp: buffer_ok_def)
  show ?thesis
  proof (cases "rb_handle e = 0")
    case True
    then have nd: "root_node g i = Val (rb_pz e)" using e by (simp add: root_node_def)
    obtain g' where g': "zval_scan fuel (rb_pz e) g = Some g'" using zval_scan_total [OF h(1) _ h(3)] n nd by metis
    note f = zval_scan_scans [OF g']
    have "scan_root fuel i g = Some (g', first_of xs)" using e True g' skel_bufs(1) [of g' g] f by (simp add: scan_root_def)
    then show ?thesis using that f nd by metis
  next
    case False
    then have nd: "root_node g i = Obj (rb_handle e)" using e by (simp add: root_node_def)
    obtain g' where g': "zobj_scan fuel (rb_handle e) g = Some g'" using zobj_scan_total [OF h(1) _ h(3)] n nd by metis
    note f = zobj_scan_scans [OF g' h(2)]
    have "scan_root fuel i g = Some (g', first_of xs)" using e False g' skel_bufs(1) [of g' g] f by (simp add: scan_root_def)
    then show ?thesis using that f nd by metis
  qed
qed

lemma scan_work_bound: "heap_closed g \<Longrightarrow> scan_work g \<le> 2 * card (dom (zvals g))"
proof -
  assume h: "heap_closed g"
  have "card {p \<in> dom (zvals g). col g (Val p) = GC_GREY} \<le> card (dom (zvals g))" by (intro card_mono heap_closed_dom h) auto
  then show ?thesis using uncoloured_bound [OF h, of GC_BLACK] by (simp add: scan_work_def)
qed

lemma scan_roots_ok:
  assumes b: "buffer_ok g L U" and n: "\<And>i. i \<in> set L \<Longrightarrow> root_node g i \<in> nodes g \<and> (glb g (root_node g i) \<or> root_node g i \<in> N)"
    and h: "heap_closed g" "object_buckets g \<noteq> None" "2 * card (dom (zvals g)) < fuel" and gr: "greyed (sc g) (glb g) (nodes g) N (abs_of g)"
    and reach: "N \<subseteq> (edges (sc g))\<^sup>* `` (root_node g ` set L)"
  obtains g' where "gc_scan_roots fuel g = Some g'" "skel g' = skel g" "scan_inv (sc g) (glb g) N (abs_of g) (abs_of g')"
    "\<And>m. m \<in> N \<Longrightarrow> col g' m \<noteq> GC_GREY"
proof -
  let ?I = "\<lambda>xs g'. \<exists>ks. L = ks @ xs \<and> skel g' = skel g \<and> scan_inv (sc g) (glb g) N (abs_of g) (abs_of g') \<and>
     scan_progress (sc g) N (abs_of g) (abs_of g') \<and> (\<forall>i\<in>set ks. root_node g i \<in> N \<longrightarrow> col g' (root_node g i) \<noteq> GC_GREY)"
  let ?Q = "\<lambda>g'. skel g' = skel g \<and> scan_inv (sc g) (glb g) N (abs_of g) (abs_of g') \<and>
     scan_progress (sc g) N (abs_of g) (abs_of g') \<and> (\<forall>i\<in>set L. root_node g i \<in> N \<longrightarrow> col g' (root_node g i) \<noteq> GC_GREY)"
  have "blacks N (col g) = {}" using greyedD(3) [OF gr] by (auto simp: blacks_def abs_of_def)
  then have i0: "scan_inv (sc g) (glb g) N (abs_of g) (abs_of g)" using greyedD(3) [OF gr] by (auto simp: scan_inv_def abs_of_def)
  have step: "\<exists>s' n. scan_root fuel i s = Some (s', n) \<and> (n = None \<and> ?Q s' \<or> n = first_of xs \<and> ?I xs s')" if I: "?I (i # xs) s" for i xs s
  proof -
    obtain ks where L: "L = ks @ i # xs" and sk: "skel s = skel g" and si: "scan_inv (sc g) (glb g) N (abs_of g) (abs_of s)"
      and pr: "scan_progress (sc g) N (abs_of g) (abs_of s)" and dn: "\<forall>i\<in>set ks. root_node g i \<in> N \<longrightarrow> col s (root_node g i) \<noteq> GC_GREY"
      using I by blast
    note G = skel_graph [OF sk]
    have nd: "root_node s i = root_node g i" using same_entries_node skel_buffer [OF sk] by blast
    have hc: "heap_closed s" "object_buckets s \<noteq> None" using heap_closed_skel [OF sk] skel_buckets [OF sk] h by simp_all
    have bs: "buffer_ok s (ks @ i # xs) U" using skel_buffer [OF sk] b L by simp
    have ns: "root_node s i \<in> nodes s" using n [of i] L nd G(3) by simp
    have "scan_work s < fuel" using scan_work_bound [OF hc(1)] h(3) G(5) by simp
    then obtain s' where s': "scan_root fuel i s = Some (s', first_of xs)" "skel s' = skel s" "scan_node (sc s) (glb s) (abs_of s) (root_node g i) (abs_of s')"
      using scan_root_ok [OF bs ns hc] unfolding nd by metis
    have sn: "scan_node (sc g) (glb g) (abs_of s) (root_node g i) (abs_of s')" using s'(3) G by simp
    have ni: "glb g (root_node g i) \<or> root_node g i \<in> N" using n [of i] L by simp
    note sc = scan_scanned(1) [OF gr closed_sc [OF h(1)] sn ni si]
    have p2: "scan_progress (sc g) N (abs_of g) (abs_of s')" using scan_progress_trans [OF pr] sc by blast
    have dn': "\<forall>j\<in>set (ks @ [i]). root_node g j \<in> N \<longrightarrow> col s' (root_node g j) \<noteq> GC_GREY"
      using dn sc by (auto simp: scan_progress_def abs_of_def)
    have "?I xs s'" by (rule exI [of _ "ks @ [i]"]) (use L s'(2) sk sc p2 dn' in simp)
    then show ?thesis using s'(1) by blast
  qed
  have "\<exists>g'. iterate (scan_root fuel) (first_of L) g = Some g' \<and> ?Q g'"
  proof (rule iterate_rule [where I = ?I])
    show "?I L g" using i0 by (auto simp: scan_progress_refl)
    show "\<exists>s' n. scan_root fuel a s = Some (s', n) \<and> (n = None \<and> ?Q s' \<or> n = first_of xs \<and> ?I xs s')" if "?I (a # xs) s" for a xs s by (rule step [OF that])
    show "?Q s" if "?I [] s" for s using that by simp
  qed
  then obtain g' where g': "iterate (scan_root fuel) (first_of L) g = Some g'" "?Q g'" by blast
  have ng: "m \<in> N \<longrightarrow> col g' m \<noteq> GC_GREY" if "(root_node g i, m) \<in> (edges (sc g))\<^sup>*" "i \<in> set L" for i m
    using that
  proof (induction rule: rtrancl_induct)
    case base
    then show ?case using g'(2) by blast
  next
    case (step k m)
    show ?case
    proof
      assume m: "m \<in> N"
      have km: "m \<in> set (sc g k)" using step(2) by (simp add: edges_def)
      have nk: "\<not> glb g k" using km glb_sc [of g k] by auto
      have "root_node g i \<in> N"
      proof (rule ccontr)
        assume "root_node g i \<notin> N"
        then have "sc g (root_node g i) = []" using n [OF step.prems] glb_sc by blast
        moreover have "k \<noteq> root_node g i" using calculation km by auto
        ultimately show False using step(1) by (auto simp: edges_def elim: converse_rtranclE)
      qed
      then have "k \<in> N" using greyed_reach [OF gr step(1)] nk by blast
      then have kk: "col g k = GC_GREY" "col g' k \<noteq> GC_GREY" "m \<in> set (sc g k) \<inter> N"
        using greyedD(3) [OF gr, of k] step.IH [OF step.prems] km m by (simp_all add: abs_of_def)
      have "scan_progress (sc g) N (abs_of g) (abs_of g')" using g'(2) by blast
      then show "col g' m \<noteq> GC_GREY" using kk \<open>k \<in> N\<close> unfolding scan_progress_def abs_of_def fst_conv by blast
    qed
  qed
  have "roots_next g = first_of L" using b by (simp add: buffer_ok_def root_list_def)
  then have "gc_scan_roots fuel g = Some g'" using g'(1) by (simp add: gc_scan_roots_def)
  moreover have "col g' m \<noteq> GC_GREY" if "m \<in> N" for m
  proof -
    obtain i where "i \<in> set L" "(root_node g i, m) \<in> (edges (sc g))\<^sup>*" using \<open>m \<in> N\<close> reach by blast
    then show ?thesis using ng that by blast
  qed
  moreover have "skel g' = skel g" "scan_inv (sc g) (glb g) N (abs_of g) (abs_of g')" using g'(2) by blast+
  ultimately show ?thesis using that by blast
qed

end
