(* ===== verification/Zend_Gc_Collect.thy ===== *)
theory Zend_Gc_Collect
  imports Zend_Gc_Roots
begin

text \<open>
  The third phase of a collection: the white values are put on the list of zvals to free, and the counts are restored.
\<close>

section \<open>The list of zvals to free\<close>

fun to_free :: "gc_state \<Rightarrow> gc_address \<Rightarrow> ptr list \<Rightarrow> bool" where
  "to_free g a [] \<longleftrightarrow> a = FREE_LIST_END"
| "to_free g a (p # ps) \<longleftrightarrow> a = Zval p \<and> (\<exists>b. ref_at g (Val p) = Some (plain b) \<and> to_free g b ps)"

lemma to_free_cong: "(\<And>p. p \<in> set ps \<Longrightarrow> ref_at g' (Val p) = ref_at g (Val p)) \<Longrightarrow> to_free g' a ps = to_free g a ps"
proof (induction ps arbitrary: a)
  case (Cons p ps)
  have "to_free g' b ps = to_free g b ps" for b by (rule Cons.IH) (simp add: Cons.prems)
  then show ?case by (simp add: Cons.prems)
qed simp

lemma plain_not_white [simp]: "plain a \<noteq> white_null" "white_null \<noteq> plain a"
  by (simp_all add: plain_def white_null_def)

lemma to_free_refs: "to_free g a ps \<Longrightarrow> p \<in> set ps \<Longrightarrow> \<exists>b. ref_at g (Val p) = Some (plain b)"
  by (induction ps arbitrary: a) auto

section \<open>What collecting does\<close>

definition bufs where
  "bufs g = (root_bufs g, roots_next g, roots_prev g, unused g, first_unused g, last_unused g)"

definition white :: "gc_state \<Rightarrow> node \<Rightarrow> bool" where
  "white g n \<longleftrightarrow> ref_at g n = Some white_null"

text \<open>
  The nodes \<open>N\<close> are taken: the zvals among them are put in front of the list, and every reference from one of them, and every
  reference \<open>given\<close>, is counted again; the counts of objects are left at 0.
\<close>

definition collected :: "gc_state \<Rightarrow> node set \<Rightarrow> (ptr \<Rightarrow> nat) \<Rightarrow> ptr list \<Rightarrow> gc_state \<Rightarrow> bool" where
  "collected g N given ps g' \<longleftrightarrow> finite N \<and> (\<forall>n\<in>N. white g n) \<and> same_graph g g' \<and> bufs g' = bufs g \<and>
     (\<forall>n. n \<notin> N \<longrightarrow> ref_at g' n = ref_at g n) \<and>
     (\<forall>n\<in>N. \<exists>v. ref_at g' n = Some v \<and> GC_GET_COLOR v = (case n of Val _ \<Rightarrow> GC_BLACK | Obj _ \<Rightarrow> GC_PURPLE)) \<and>
     (\<forall>h. Obj h \<in> N \<longrightarrow> addr g' (Obj h) = GC_NULL) \<and>
     (\<forall>p. cnt g' (Val p) = cnt g (Val p) + (if glb g (Val p) then 0 else of_nat (refs (sc g) N (Val p) + given p)) + (if Val p \<in> N then 1 else 0)) \<and>
     (\<forall>h. cnt g' (Obj h) = cnt g (Obj h)) \<and>
     (\<forall>n\<in>N. \<forall>m\<in>set (sc g n). \<not> white g' m) \<and>
     distinct ps \<and> (\<forall>p. p \<in> set ps \<longleftrightarrow> Val p \<in> N) \<and>
     (\<forall>rest. to_free g (zval_to_free g) rest \<longrightarrow> to_free g' (zval_to_free g') (ps @ rest))"

lemma collectedD:
  assumes "collected g N given ps g'"
  shows "finite N" "\<forall>n\<in>N. white g n" "same_graph g g'" "bufs g' = bufs g" "\<And>n. n \<notin> N \<Longrightarrow> ref_at g' n = ref_at g n"
    "\<And>n. n \<in> N \<Longrightarrow> \<exists>v. ref_at g' n = Some v \<and> GC_GET_COLOR v = (case n of Val _ \<Rightarrow> GC_BLACK | Obj _ \<Rightarrow> GC_PURPLE)"
    "\<And>h. Obj h \<in> N \<Longrightarrow> addr g' (Obj h) = GC_NULL"
    "\<And>p. cnt g' (Val p) = cnt g (Val p) + (if glb g (Val p) then 0 else of_nat (refs (sc g) N (Val p) + given p)) + (if Val p \<in> N then 1 else 0)"
    "\<And>h. cnt g' (Obj h) = cnt g (Obj h)" "\<And>n m. n \<in> N \<Longrightarrow> m \<in> set (sc g n) \<Longrightarrow> \<not> white g' m"
    "distinct ps" "\<And>p. p \<in> set ps \<longleftrightarrow> Val p \<in> N"
    "\<And>rest. to_free g (zval_to_free g) rest \<Longrightarrow> to_free g' (zval_to_free g') (ps @ rest)"
  using assms unfolding collected_def by blast+

lemma collected_not_white: "collected g N given ps g' \<Longrightarrow> n \<in> N \<Longrightarrow> \<not> white g' n"
  using collectedD(6) [of g N given ps g' n] by (cases n) (auto simp: white_def white_null_def)

lemma collected_white: "collected g N given ps g' \<Longrightarrow> white g' n \<longleftrightarrow> white g n \<and> n \<notin> N"
  using collected_not_white [of g N given ps g' n] collectedD(5) [of g N given ps g' n] by (cases "n \<in> N") (simp_all add: white_def)

lemma collected_trans:
  assumes a: "collected g N1 gv1 ps1 g1" and b: "collected g1 N2 gv2 ps2 g2"
  shows "collected g (N1 \<union> N2) (\<lambda>p. gv1 p + gv2 p) (ps2 @ ps1) g2"
proof -
  note A = collectedD [OF a] and B = collectedD [OF b] and G = same_graphD [OF collectedD(3) [OF a]]
  have dj: "N1 \<inter> N2 = {}" using B(2) collected_not_white [OF a] by blast
  have ref2: "ref_at g2 n = ref_at g1 n" if "n \<in> N1" for n using B(5) [of n] dj that by blast
  have 1: "\<forall>n\<in>N1 \<union> N2. white g n" using A(2) B(2) collected_white [OF a] by blast
  have 2: "\<forall>n. n \<notin> N1 \<union> N2 \<longrightarrow> ref_at g2 n = ref_at g n" using A(5) B(5) by simp
  have 3: "\<forall>n\<in>N1 \<union> N2. \<exists>v. ref_at g2 n = Some v \<and> GC_GET_COLOR v = (case n of Val _ \<Rightarrow> GC_BLACK | Obj _ \<Rightarrow> GC_PURPLE)"
    using A(6) B(6) ref2 by (metis Un_iff)
  have 4: "\<forall>h. Obj h \<in> N1 \<union> N2 \<longrightarrow> addr g2 (Obj h) = GC_NULL" using A(7) B(7) ref2 by (auto simp: addr_def)
  have 5: "cnt g2 (Val p) = cnt g (Val p) + (if glb g (Val p) then 0 else of_nat (refs (sc g) (N1 \<union> N2) (Val p) + (gv1 p + gv2 p))) +
      (if Val p \<in> N1 \<union> N2 then 1 else 0)" for p
    using A(8) [of p] B(8) [of p] dj G(1,2) by (auto simp: refs_Un [OF A(1) B(1) dj] algebra_simps)
  have 6: "\<forall>h. cnt g2 (Obj h) = cnt g (Obj h)" using A(9) B(9) by simp
  have 7: "\<forall>n\<in>N1 \<union> N2. \<forall>m\<in>set (sc g n). \<not> white g2 m"
    using A(10) B(10) collected_white [OF b] G(1) by (metis Un_iff)
  have 8: "distinct (ps2 @ ps1)" "\<forall>p. p \<in> set (ps2 @ ps1) \<longleftrightarrow> Val p \<in> N1 \<union> N2" using A(11,12) B(11,12) dj by auto
  have 9: "\<forall>rest. to_free g (zval_to_free g) rest \<longrightarrow> to_free g2 (zval_to_free g2) ((ps2 @ ps1) @ rest)"
    using A(13) B(13) by simp
  have "same_graph g g2" "bufs g2 = bufs g" "finite (N1 \<union> N2)" using same_graph_trans A(1,3,4) B(1,3,4) by auto
  then show ?thesis unfolding collected_def using 1 2 3 4 5 6 7 8 9 by (intro conjI) (assumption | rule allI)+
qed

lemma collected_refl: "collected g {} (\<lambda>_. 0) [] g"
  by (simp add: collected_def same_graph_def)

lemma zpoke_ref:
  assumes "zpoke p f g = Some g'" "\<And>z. u (f z) = u z"
  shows "ref_at g' = ref_at g"
proof -
  obtain z where z: "zvals g p = Some z" "g' = g\<lparr>zvals := (zvals g)(p \<mapsto> f z)\<rparr>"
    using assms(1) by (auto simp: zpoke_def poke_def split: option.splits)
  then show ?thesis using assms(2) by (auto simp: ref_at_def obj_at_def fun_eq_iff split: node.splits)
qed

lemma refcount_ref: "zval_refcount_add d p g = Some g' \<Longrightarrow> ref_at g' = ref_at g"
  by (auto simp: zval_refcount_add_def split: bind_splits if_splits dest!: zpoke_ref)

lemma collected_count:
  assumes "zval_refcount_add 1 p g = Some g'"
  shows "collected g {} (\<lambda>q. if q = p then 1 else 0) [] g'"
proof -
  note e = refcount_effect [OF assms] and r = refcount_ref [OF assms]
  have b: "bufs g' = bufs g" "zval_to_free g' = zval_to_free g" using skel_bufs [of g' g] e by (simp_all add: bufs_def)
  have "cnt g' (Val q) = cnt g (Val q) + (if glb g (Val q) then 0 else of_nat (if q = p then 1 else 0))" "cnt g' (Obj h) = cnt g (Obj h)" for q h
    using e by (auto simp: abs_of_def recount_def)
  moreover have "to_free g' = to_free g"
    by (intro ext) (rule to_free_cong, simp add: r)
  ultimately show ?thesis using same_graph_skel e r b by (simp add: collected_def)
qed

text \<open>The first and the middle part of collecting a zval: it becomes black, its object purple; it is put on the list.\<close>

definition taken :: "gc_state \<Rightarrow> node set \<Rightarrow> gc_state \<Rightarrow> bool" where
  "taken g P g' \<longleftrightarrow> same_graph g g' \<and> bufs g' = bufs g \<and> zval_to_free g' = zval_to_free g \<and> cnt g' = cnt g \<and>
     (\<forall>n. ref_at g' n = (if n \<in> P then Some (case n of Val _ \<Rightarrow> plain GC_NULL | Obj _ \<Rightarrow> GC_SET_PURPLE (plain GC_NULL)) else ref_at g n))"

definition pushed :: "gc_state \<Rightarrow> ptr \<Rightarrow> gc_state \<Rightarrow> bool" where
  "pushed g p g' \<longleftrightarrow> same_graph g g' \<and> bufs g' = bufs g \<and> zval_to_free g' = Zval p \<and> cnt g' = (cnt g)(Val p := cnt g (Val p) + 1) \<and>
     (\<forall>n. ref_at g' n = (if n = Val p then Some (plain (zval_to_free g)) else ref_at g n))"

lemma same_graph_zval:
  assumes "zvals g p = Some z" "z_value z' = z_value z" "zvals g' = (zvals g)(p \<mapsto> z')" "object_buckets g' = object_buckets g"
  shows "same_graph g g'"
proof -
  have o: "obj_at g' = obj_at g" using assms(4) by (simp add: obj_at_def fun_eq_iff)
  have "sc g' n = sc g n" "glb g' n = glb g n" for n
    using assms o by (auto simp: sc_def glb_def symbol_table_def split: node.splits option.splits gc_value.splits)
  then have "sc g' = sc g" "glb g' = glb g" by (auto simp: fun_eq_iff)
  moreover have "dom (zvals g') = dom (zvals g)" using assms by auto
  ultimately show ?thesis using o assms(4) by (simp add: same_graph_def nodes_def)
qed

lemma put_to_free_pushed:
  assumes "Val p \<in> nodes g"
  shows "\<exists>g'. put_to_free p g = Some g' \<and> pushed g p g'"
proof -
  obtain z where z: "zvals g p = Some z" using assms by (auto simp: nodes_val)
  let ?z = "z\<lparr>refcount__gc := refcount__gc z + 1, u := plain (zval_to_free g)\<rparr>"
  let ?g = "g\<lparr>zvals := (zvals g)(p \<mapsto> ?z), zval_to_free := Zval p\<rparr>"
  have "put_to_free p g = Some ?g" using z by (simp add: put_to_free_def zpoke_def poke_def)
  moreover have "same_graph g ?g" by (rule same_graph_zval [OF z, of ?z]) simp_all
  moreover have "obj_at ?g = obj_at g" by (simp add: obj_at_def fun_eq_iff)
  then have "cnt ?g = (cnt g)(Val p := cnt g (Val p) + 1)" "\<forall>n. ref_at ?g n = (if n = Val p then Some (plain (zval_to_free g)) else ref_at g n)"
    using z by (auto simp: cnt_def ref_at_def fun_eq_iff split: node.splits)
  ultimately show ?thesis by (simp add: pushed_def bufs_def)
qed

lemma black_taken:
  assumes "white g (Val p)"
  shows "\<exists>g'. GC_ZVAL_SET_BLACK p g = Some g' \<and> taken g {Val p} g'"
proof -
  obtain z where z: "zvals g p = Some z" "u z = white_null" using assms by (auto simp: white_def ref_at_def)
  let ?z = "z\<lparr>u := GC_SET_BLACK (u z)\<rparr>"
  let ?g = "g\<lparr>zvals := (zvals g)(p \<mapsto> ?z)\<rparr>"
  have "GC_ZVAL_SET_BLACK p g = Some ?g" using z by (simp add: GC_ZVAL_SET_BLACK_def zpoke_def poke_def)
  moreover have "same_graph g ?g" by (rule same_graph_zval [OF z(1), of ?z]) simp_all
  moreover have "obj_at ?g = obj_at g" by (simp add: obj_at_def fun_eq_iff)
  then have "cnt ?g = cnt g" "\<forall>n. ref_at ?g n = (if n = Val p then Some (plain GC_NULL) else ref_at g n)"
    using z by (auto simp: cnt_def ref_at_def fun_eq_iff GC_SET_BLACK_def white_null_def plain_def split: node.splits)
  ultimately show ?thesis by (auto simp: taken_def bufs_def)
qed

lemma purple_taken:
  assumes "white g (Obj h)"
  shows "\<exists>g'. opoke h (\<lambda>obj. obj\<lparr>obj_buffered := GC_SET_PURPLE (obj_buffered obj)\<rparr>) g = Some g' \<and> taken g {Obj h} g'"
proof -
  obtain m ob where m: "object_buckets g = Some m" "m h = Some ob" "obj_buffered ob = white_null"
    using assms by (auto simp: white_def ref_at_def obj_at_def split: bind_splits)
  let ?ob = "ob\<lparr>obj_buffered := GC_SET_PURPLE (obj_buffered ob)\<rparr>"
  let ?g = "g\<lparr>object_buckets := Some (m(h \<mapsto> ?ob))\<rparr>"
  have r: "opoke h (\<lambda>obj. obj\<lparr>obj_buffered := GC_SET_PURPLE (obj_buffered obj)\<rparr>) g = Some ?g"
    using m by (simp add: opoke_def poke_def)
  have o: "obj_at ?g = (obj_at g)(h \<mapsto> ?ob)" "obj_at g h = Some ob" using m by (simp_all add: obj_at_def fun_eq_iff)
  have "obj_zvals ?ob = obj_zvals ob" by (simp add: obj_zvals_def)
  then have "sc ?g n = sc g n" "glb ?g n = glb g n" "cnt ?g n = cnt g n"
      "ref_at ?g n = (if n = Obj h then Some (GC_SET_PURPLE (plain GC_NULL)) else ref_at g n)" for n
    using m o by (auto simp: sc_def glb_def cnt_def ref_at_def white_null_def plain_def GC_SET_PURPLE_def split: node.splits option.splits gc_value.splits)
  then have "sc ?g = sc g" "glb ?g = glb g" "cnt ?g = cnt g" "\<forall>n. ref_at ?g n = (if n = Obj h then Some (GC_SET_PURPLE (plain GC_NULL)) else ref_at g n)"
    by (auto simp: fun_eq_iff)
  moreover have "nodes ?g = nodes g" using o by (auto simp: nodes_def split: if_splits)
  ultimately show ?thesis using r m by (auto simp: taken_def same_graph_def bufs_def)
qed

lemma taken_trans: "taken g P g1 \<Longrightarrow> taken g1 Q g2 \<Longrightarrow> taken g (P \<union> Q) g2"
  unfolding taken_def by (auto intro: same_graph_trans)

lemma taken_white: "taken g P g' \<Longrightarrow> white g' n \<longleftrightarrow> white g n \<and> n \<notin> P"
  by (cases n) (auto simp: taken_def white_def plain_def white_null_def GC_SET_PURPLE_def)

lemma pushed_white: "pushed g p g' \<Longrightarrow> white g' n \<longleftrightarrow> white g n \<and> n \<noteq> Val p"
  by (auto simp: pushed_def white_def)

lemma collected_zval:
  assumes t: "taken g P ga" and P: "finite P" "\<forall>n\<in>P. white g n" "\<And>q. Val q \<in> P \<longleftrightarrow> q = p"
    and c1: "collected ga N1 (count_list cs1) ps1 gb" and pu: "pushed gb p gc" and c2: "collected gc N2 (count_list cs2) ps2 gd"
    and refs: "\<And>q. refs (sc g) P (Val q) = count_list cs1 q + count_list cs2 q" and cl: "\<And>n m. n \<in> P \<Longrightarrow> m \<in> set (sc g n) \<Longrightarrow> \<not> white gd m"
  shows "collected g (P \<union> N1 \<union> N2) (\<lambda>_. 0) (ps2 @ p # ps1) gd"
proof -
  note C1 = collectedD [OF c1] and C2 = collectedD [OF c2] and w0 = taken_white [OF t] and w1 = collected_white [OF c1]
    and w2 = pushed_white [OF pu] and w3 = collected_white [OF c2]
  have Ga: "sc ga = sc g" "glb ga = glb g" "zval_to_free ga = zval_to_free g" "cnt ga = cnt g" using t by (auto simp: taken_def same_graph_def)
  have Gc: "sc gc = sc g" "glb gc = glb g" using C1(3) pu Ga by (auto simp: pushed_def same_graph_def)
  have dj: "P \<inter> N1 = {}" "(P \<union> N1) \<inter> N2 = {}" "Val p \<notin> N1" "Val p \<notin> N2"
    using C1(2) C2(2) w0 w1 w2 P(3) [of p] by (blast, blast, blast, blast)
  have fin: "finite (P \<union> N1)" using P(1) C1(1) by simp
  have ra: "ref_at ga n = ref_at g n" if "n \<notin> P" for n using t that by (simp add: taken_def)
  have rc: "ref_at gc n = ref_at gb n" if "n \<noteq> Val p" for n using pu that by (simp add: pushed_def)
  have W: "\<forall>n\<in>P \<union> N1 \<union> N2. white g n" using P(2) C1(2) C2(2) w0 w1 w2 by blast
  have ref: "ref_at gd n = ref_at g n" if "n \<notin> P \<union> N1 \<union> N2" for n
    using C2(5) [of n] rc [of n] C1(5) [of n] ra [of n] that P(3) [of p] by auto
  have colour: "\<exists>v. ref_at gd n = Some v \<and> GC_GET_COLOR v = (case n of Val _ \<Rightarrow> GC_BLACK | Obj _ \<Rightarrow> GC_PURPLE)" if n: "n \<in> P \<union> N1 \<union> N2" for n
  proof (cases "n \<in> N2")
    case True
    then show ?thesis using C2(6) by blast
  next
    case False
    then have d: "ref_at gd n = ref_at gc n" using C2(5) by blast
    show ?thesis
    proof (cases "n = Val p")
      case True
      then show ?thesis using d pu by (simp add: pushed_def plain_def)
    next
      case np: False
      show ?thesis
      proof (cases "n \<in> N1")
        case True
        then show ?thesis using C1(6) [of n] d rc [OF np] by simp
      next
        case False
        then have "n \<in> P" "ref_at gb n = ref_at ga n" using n \<open>n \<notin> N2\<close> C1(5) by blast+
        then show ?thesis using d rc [OF np] t by (cases n) (simp_all add: taken_def plain_def GC_SET_PURPLE_def)
      qed
    qed
  qed
  have ad: "addr gd (Obj h) = GC_NULL" if h: "Obj h \<in> P \<union> N1 \<union> N2" for h
  proof (cases "Obj h \<in> N2")
    case True
    then show ?thesis by (rule C2(7))
  next
    case False
    then have d: "ref_at gd (Obj h) = ref_at gb (Obj h)" using C2(5) rc by simp
    show ?thesis
    proof (cases "Obj h \<in> N1")
      case True
      then show ?thesis using C1(7) d by (simp add: addr_def)
    next
      case False
      then have "Obj h \<in> P" "ref_at gd (Obj h) = ref_at ga (Obj h)" using h d \<open>Obj h \<notin> N2\<close> C1(5) by auto
      then show ?thesis using t by (simp add: taken_def addr_def plain_def GC_SET_PURPLE_def)
    qed
  qed
  have count: "cnt gd (Val q) = cnt g (Val q) + (if glb g (Val q) then 0 else of_nat (refs (sc g) (P \<union> N1 \<union> N2) (Val q) + 0)) +
      (if Val q \<in> P \<union> N1 \<union> N2 then 1 else 0)" for q
  proof -
    have "refs (sc g) (P \<union> N1 \<union> N2) (Val q) = count_list cs1 q + count_list cs2 q + refs (sc g) N1 (Val q) + refs (sc g) N2 (Val q)"
      using refs_Un [OF fin C2(1) dj(2)] refs_Un [OF P(1) C1(1) dj(1)] refs [of q] by simp
    moreover have "cnt gc (Val q) = cnt gb (Val q) + (if q = p then 1 else 0)" using pu by (simp add: pushed_def)
    moreover have "(if Val q \<in> P \<union> N1 \<union> N2 then 1 else 0 :: uint) = (if q = p then 1 else 0) + (if Val q \<in> N1 then 1 else 0) + (if Val q \<in> N2 then 1 else 0)"
      using P(3) [of q] dj by auto
    ultimately show ?thesis using C1(8) [of q] C2(8) [of q] Ga Gc by (simp add: algebra_simps)
  qed
  have cntO: "cnt gd (Obj h) = cnt g (Obj h)" for h using C2(9) C1(9) pu Ga(4) by (simp add: pushed_def)
  have close: "\<not> white gd m" if "n \<in> P \<union> N1 \<union> N2" "m \<in> set (sc g n)" for n m
    using that cl [of n m] C1(10) [of n m] C2(10) [of n m] w2 [of m] w3 [of m] Ga(1) Gc(1) by auto
  have mem: "distinct (ps2 @ p # ps1)" "\<And>q. q \<in> set (ps2 @ p # ps1) \<longleftrightarrow> Val q \<in> P \<union> N1 \<union> N2"
    using C1(11,12) C2(11,12) dj P(3) by auto
  have fc: "to_free gd (zval_to_free gd) ((ps2 @ p # ps1) @ rest)" if r: "to_free g (zval_to_free g) rest" for rest
  proof -
    have nw: "\<not> white g (Val q)" if "q \<in> set rest" for q using to_free_refs [OF r that] by (auto simp: white_def)
    then have "to_free ga (zval_to_free ga) rest"
      using r P(2) by (subst to_free_cong [of rest ga g]) (auto intro!: ra simp: Ga(3))
    then have "to_free gb (zval_to_free gb) (ps1 @ rest)" by (rule C1(13))
    moreover have "ref_at gc (Val q) = ref_at gb (Val q)" if "q \<in> set (ps1 @ rest)" for q
      using that nw C1(12) [of q] dj(3) P(2,3) by (intro rc) auto
    ultimately have "to_free gc (zval_to_free gb) (ps1 @ rest)" using to_free_cong [of "ps1 @ rest" gc gb] by simp
    then have "to_free gc (zval_to_free gc) (p # ps1 @ rest)" using pu by (auto simp: pushed_def)
    from C2(13) [OF this] show ?thesis by simp
  qed
  have "same_graph g ga" "bufs ga = bufs g" "same_graph gb gc" "bufs gc = bufs gb" using t pu by (simp_all add: taken_def pushed_def)
  then have "same_graph g gd" "bufs gd = bufs g" "finite (P \<union> N1 \<union> N2)"
    using C1(3,4) C2(1,3,4) fin by (blast intro: same_graph_trans, simp, simp)
  then show ?thesis unfolding collected_def using W ref colour ad count cntO close mem fc
    by (intro conjI allI ballI impI) (assumption | blast)+
qed

section \<open>Collecting ends\<close>

definition collectable :: "gc_state \<Rightarrow> bool" where
  "collectable g \<longleftrightarrow> heap_closed g \<and> object_buckets g \<noteq> None \<and> (\<forall>n. glb g n \<longrightarrow> col g n \<noteq> GC_WHITE)"

lemma white_col: "white g n \<Longrightarrow> col g n = GC_WHITE"
  by (simp add: white_def col_def white_null_def)

lemma collected_col: "collected g N given ps g' \<Longrightarrow> col g' n = GC_WHITE \<Longrightarrow> col g n = GC_WHITE"
  using collectedD(5,6) [of g N given ps g' n] by (cases "n \<in> N"; cases n) (auto simp: col_def)

lemma taken_col: "taken g P g' \<Longrightarrow> col g' n = GC_WHITE \<Longrightarrow> col g n = GC_WHITE"
  by (cases n) (auto simp: taken_def col_def plain_def GC_SET_PURPLE_def split: if_splits)

lemma pushed_col: "pushed g p g' \<Longrightarrow> col g' n = GC_WHITE \<Longrightarrow> col g n = GC_WHITE"
  by (auto simp: pushed_def col_def plain_def split: if_splits)

definition white_zvals :: "gc_state \<Rightarrow> nat" where
  "white_zvals g = card {p \<in> dom (zvals g). white g (Val p)}"

lemma collected_collectable:
  assumes "collected g N given ps g'" "collectable g"
  shows "collectable g'" "white_zvals g' \<le> white_zvals g" "nodes g' = nodes g"
proof -
  note C = collectedD [OF assms(1)] and G = same_graphD [OF collectedD(3) [OF assms(1)]] and w = collected_white [OF assms(1)]
  show "collectable g'" using assms(2) same_graph_closed [OF C(3)] G collected_col [OF assms(1)] by (auto simp: collectable_def)
  show "nodes g' = nodes g" by (rule G(3))
  have "finite (dom (zvals g))" using assms(2) heap_closed_dom by (simp add: collectable_def)
  then show "white_zvals g' \<le> white_zvals g" unfolding white_zvals_def using G(4) w by (intro card_mono) auto
qed

text \<open>A visit that collects: the property that the recursion establishes.\<close>

definition collects :: "nat \<Rightarrow> (ptr \<Rightarrow> gc_state \<Rightarrow> gc_state option) \<Rightarrow> bool" where
  "collects k visit \<longleftrightarrow> (\<forall>p g. collectable g \<longrightarrow> Val p \<in> nodes g \<longrightarrow> white_zvals g < k \<longrightarrow>
     (\<exists>g' N qs. visit p g = Some g' \<and> collected g N (\<lambda>_. 0) qs g' \<and> \<not> white g' (Val p)))"

lemma white_child_ok:
  assumes v: "collects k visit" and g: "collectable g" "Val p \<in> nodes g" "white_zvals g < k"
  shows "\<exists>g' N qs. white_child visit p g = Some g' \<and> collected g N (\<lambda>q. if q = p then 1 else 0) qs g' \<and> \<not> white g' (Val p)"
proof -
  obtain g1 where g1: "zval_refcount_add 1 p g = Some g1" using refcount_add_ok [OF g(2)] by blast
  note c = collected_count [OF g1]
  note k = collected_collectable [OF c g(1)]
  obtain g' N qs where g': "visit p g1 = Some g'" "collected g1 N (\<lambda>_. 0) qs g'" "\<not> white g' (Val p)"
    using v k g(2,3) unfolding collects_def by (metis le_less_trans)
  have "collected g N (\<lambda>q. if q = p then 1 else 0) qs g'" using collected_trans [OF c g'(2)] by simp
  then show ?thesis using g1 g' by (auto simp: white_child_def)
qed

lemma foldo_collects:
  assumes v: "collects k visit" and "collectable g" "Val ` set ps \<subseteq> nodes g" "white_zvals g < k"
  shows "\<exists>g' N qs. foldo (white_child visit) ps g = Some g' \<and> collected g N (count_list ps) qs g' \<and> (\<forall>q\<in>set ps. \<not> white g' (Val q))"
  using assms(2-4)
proof (induction ps arbitrary: g)
  case Nil
  have "count_list [] = (\<lambda>_. 0)" by (rule ext) simp
  then show ?case using collected_refl [of g] by auto
next
  case (Cons p ps)
  obtain g1 N1 qs1 where g1: "white_child visit p g = Some g1" "collected g N1 (\<lambda>q. if q = p then 1 else 0) qs1 g1" "\<not> white g1 (Val p)"
    using white_child_ok [OF v Cons.prems(1) _ Cons.prems(3), of p] Cons.prems(2) by auto
  note k = collected_collectable [OF g1(2) Cons.prems(1)]
  obtain g2 N2 qs2 where g2: "foldo (white_child visit) ps g1 = Some g2" "collected g1 N2 (count_list ps) qs2 g2" "\<forall>q\<in>set ps. \<not> white g2 (Val q)"
    using Cons.IH [OF k(1)] k(2,3) Cons.prems(2,3) by auto
  have "count_list (p # ps) = (\<lambda>q. (if q = p then 1 else 0) + count_list ps q)" by (rule ext) simp
  then have c: "collected g (N1 \<union> N2) (count_list (p # ps)) (qs2 @ qs1) g2" using collected_trans [OF g1(2) g2(2)] by simp
  have "\<not> white g2 (Val p)" using collected_white [OF g2(2)] g1(3) by blast
  then have "\<forall>q\<in>set (p # ps). \<not> white g2 (Val q)" using g2(3) by simp
  moreover have "foldo (white_child visit) (p # ps) g = Some g2" using g1(1) g2(1) by simp
  ultimately show ?case using c by blast
qed

text \<open>Taking a zval with its object, between which its elements are visited.\<close>

lemma taken_collectable:
  assumes t: "taken g P ga" and g: "collectable g" and p: "Val p \<in> P" "white g (Val p)" "Val p \<in> nodes g"
  shows "collectable ga" "white_zvals ga < white_zvals g" "nodes ga = nodes g"
proof -
  have G: "same_graph g ga" using t by (simp add: taken_def)
  note w = taken_white [OF t]
  show "collectable ga" using g same_graph_closed [OF G] same_graphD [OF G] taken_col [OF t] by (auto simp: collectable_def)
  show "nodes ga = nodes g" using same_graphD(3) [OF G] .
  have "finite (dom (zvals g))" using g heap_closed_dom by (simp add: collectable_def)
  moreover have "{p \<in> dom (zvals ga). white ga (Val p)} \<subset> {p \<in> dom (zvals g). white g (Val p)}"
    using p w same_graphD(4) [OF G] by (auto simp: nodes_def)
  ultimately show "white_zvals ga < white_zvals g" unfolding white_zvals_def by (intro psubset_card_mono) auto
qed

lemma collect_taken:
  assumes v: "collects k visit" and t: "taken g P ga" and P: "finite P" "\<forall>n\<in>P. white g n" "\<And>q. Val q \<in> P \<longleftrightarrow> q = p"
    and g: "collectable g" "Val p \<in> nodes g" "white_zvals g \<le> k" and cs: "Val ` set (cs1 @ cs2) \<subseteq> nodes g"
    and rf: "\<And>q. refs (sc g) P (Val q) = count_list cs1 q + count_list cs2 q"
    and cl: "\<And>n m. n \<in> P \<Longrightarrow> m \<in> set (sc g n) \<Longrightarrow> m \<in> P \<or> m \<in> Val ` set (cs1 @ cs2) \<or> \<not> white g m"
  shows "\<exists>g' N qs. do { g \<leftarrow> foldo (white_child visit) cs1 ga; g \<leftarrow> put_to_free p g; foldo (white_child visit) cs2 g } = Some g' \<and>
    collected g N (\<lambda>_. 0) qs g' \<and> \<not> white g' (Val p)"
proof -
  have pw: "white g (Val p)" "Val p \<in> P" using P(2,3) by auto
  note ka = taken_collectable [OF t g(1) pw(2,1) g(2)]
  have sub1: "Val ` set cs1 \<subseteq> nodes ga" and sub2: "Val ` set cs2 \<subseteq> nodes g" using ka(3) cs by auto
  obtain gb N1 qs1 where gb: "foldo (white_child visit) cs1 ga = Some gb" "collected ga N1 (count_list cs1) qs1 gb" "\<forall>q\<in>set cs1. \<not> white gb (Val q)"
    using foldo_collects [OF v ka(1) sub1] ka(2) g(3) by auto
  note kb = collected_collectable [OF gb(2) ka(1)]
  obtain gc where gc: "put_to_free p gb = Some gc" "pushed gb p gc" using put_to_free_pushed [of p gb] g(2) ka(3) kb(3) by auto
  have Gc: "same_graph gb gc" using gc(2) by (simp add: pushed_def)
  have kc: "collectable gc" using kb(1) same_graph_closed [OF Gc] same_graphD [OF Gc] pushed_col [OF gc(2)] by (auto simp: collectable_def)
  have "finite (dom (zvals gb))" using kb(1) heap_closed_dom by (simp add: collectable_def)
  then have "white_zvals gc \<le> white_zvals gb" unfolding white_zvals_def using same_graphD(4) [OF Gc] pushed_white [OF gc(2)] by (intro card_mono) auto
  then have kk: "white_zvals gc < k" using kb(2) ka(2) g(3) by simp
  obtain gd N2 qs2 where gd: "foldo (white_child visit) cs2 gc = Some gd" "collected gc N2 (count_list cs2) qs2 gd" "\<forall>q\<in>set cs2. \<not> white gd (Val q)"
    using foldo_collects [OF v kc _ kk, of cs2] same_graphD(3) [OF Gc] ka(3) kb(3) sub2 by auto
  have down: "white g m \<and> m \<notin> P \<and> white gb m" if "white gd m" for m
    using that collected_white [OF gd(2)] pushed_white [OF gc(2)] collected_white [OF gb(2)] taken_white [OF t] by blast
  have "\<not> white gd m" if "n \<in> P" "m \<in> set (sc g n)" for n m
    using cl [OF that] down [of m] gb(3) gd(3) by auto
  then have "collected g (P \<union> N1 \<union> N2) (\<lambda>_. 0) (qs2 @ p # qs1) gd"
    by (intro collected_zval [OF t P gb(2) gc(2) gd(2) rf])
  moreover have "\<not> white gd (Val p)" using down pw by blast
  ultimately show ?thesis using gb(1) gc(1) gd(1) by auto
qed

lemma count_Val: "count_list (map Val ps) (Val q) = count_list ps q"
  by (induction ps) auto

lemma white_obj: "obj_at g h = Some ob \<Longrightarrow> white g (Obj h) \<longleftrightarrow> obj_buffered ob = white_null"
  by (simp add: white_def ref_at_def)

lemma white_val: "zvals g p = Some z \<Longrightarrow> white g (Val p) \<longleftrightarrow> u z = white_null"
  by (simp add: white_def ref_at_def)

lemma zval_collect_collects: "collects fuel (zval_collect_white fuel)"
proof (induction fuel)
  case 0
  then show ?case by (simp add: collects_def)
next
  case (Suc fuel)
  have "\<exists>g' N qs. zval_collect_white (Suc fuel) p g = Some g' \<and> collected g N (\<lambda>_. 0) qs g' \<and> \<not> white g' (Val p)"
    if g: "collectable g" "Val p \<in> nodes g" "white_zvals g < Suc fuel" for p g
  proof -
    obtain z where z: "zvals g p = Some z" using g(2) by (auto simp: nodes_val)
    have le: "white_zvals g \<le> fuel" using g(3) by simp
    have closed: "set (sc g n) \<subseteq> nodes g" if "n \<in> nodes g" for n using g(1) that by (simp add: collectable_def heap_closed_def)
    show ?thesis
    proof (cases "u z = white_null")
      case False
      then show ?thesis using z collected_refl [of g] white_val [OF z] by auto
    next
      case True
      then have pw: "white g (Val p)" using white_val [OF z] by simp
      then have ng: "\<not> glb g (Val p)" using g(1) white_col [OF pw] by (auto simp: collectable_def)
      obtain ga where ga: "GC_ZVAL_SET_BLACK p g = Some ga" "taken g {Val p} ga" using black_taken [OF pw] by blast
      have Ga: "same_graph g ga" using ga(2) by (simp add: taken_def)
      let ?v = "white_child (zval_collect_white fuel)"
      have alone: "\<exists>g' N qs. put_to_free p ga = Some g' \<and> collected g N (\<lambda>_. 0) qs g' \<and> \<not> white g' (Val p)"
        if "\<And>m. m \<in> set (sc g (Val p)) \<Longrightarrow> \<not> white g m" "\<And>q. Val q \<notin> set (sc g (Val p))"
        using collect_taken [OF Suc.IH ga(2), of p "[]" "[]"] pw g(1,2) le that by (auto simp: refs_def count_list_0_iff split: bind_splits)
      show ?thesis
      proof (cases "z_value z")
        case (IS_ARRAY st ps)
        then have sc: "sc g (Val p) = map Val ps" using ng z by (auto simp: sc_def glb_def symbol_table_def)
        have "\<exists>g' N qs. do { g \<leftarrow> foldo ?v [] ga; g \<leftarrow> put_to_free p g; foldo ?v ps g } = Some g' \<and> collected g N (\<lambda>_. 0) qs g' \<and> \<not> white g' (Val p)"
          by (rule collect_taken [OF Suc.IH ga(2), of p "[]" ps]) (use pw g(1,2) le closed [OF g(2)] sc in \<open>auto simp: refs_def count_Val\<close>)
        then show ?thesis using z True ga(1) IS_ARRAY by simp
      next
        case (IS_OBJECT h)
        have nb: "object_buckets g \<noteq> None" "object_buckets ga \<noteq> None" using g(1) same_graphD(5) [OF Ga] by (auto simp: collectable_def)
        have sc: "sc g (Val p) = [Obj h]" using z IS_OBJECT nb by (auto simp: sc_def)
        then have h: "Obj h \<in> nodes g" using closed [OF g(2)] by simp
        then have "Obj h \<in> nodes ga" using same_graphD(3) [OF Ga] by simp
        then obtain ob where ob: "obj_at ga h = Some ob" by (auto simp: nodes_obj)
        have wo: "white ga (Obj h) \<longleftrightarrow> white g (Obj h)" using taken_white [OF ga(2)] by blast
        show ?thesis
        proof (cases "obj_buffered ob = white_null")
          case False
          then have "\<not> white g (Obj h)" using wo white_obj [OF ob] by simp
          moreover have "zval_collect_white (Suc fuel) p g = put_to_free p ga" using z True ga(1) IS_OBJECT nb ob False by auto
          ultimately show ?thesis using alone sc by simp
        next
          case ow: True
          then obtain gp where gp: "opoke h (\<lambda>obj. obj\<lparr>obj_buffered := GC_SET_PURPLE (obj_buffered obj)\<rparr>) ga = Some gp" "taken ga {Obj h} gp"
            using purple_taken white_obj [OF ob] by blast
          have t: "taken g {Val p, Obj h} gp" using taken_trans [OF ga(2) gp(2)] by (simp add: insert_commute)
          have hw: "white g (Obj h)" using wo white_obj [OF ob] ow by simp
          have sco: "sc g (Obj h) = map Val (obj_zvals ob)" using sc_Obj [OF ob] same_graphD(1) [OF Ga] by simp
          have pair: "\<exists>g' N qs. do { g \<leftarrow> foldo ?v cs1 gp; g \<leftarrow> put_to_free p g; foldo ?v cs2 g } = Some g' \<and>
              collected g N (\<lambda>_. 0) qs g' \<and> \<not> white g' (Val p)" if "obj_zvals ob = cs1 @ cs2" for cs1 cs2
            by (rule collect_taken [OF Suc.IH t]) (use pw hw g(1,2) le closed [OF h] sc sco that in \<open>auto simp: refs_def count_Val\<close>)
          show ?thesis
          proof (cases "if obj_valid ob then obj_get_gc ob else None")
            case None
            then have "zval_collect_white (Suc fuel) p g = do { g \<leftarrow> foldo ?v [] gp; g \<leftarrow> put_to_free p g; foldo ?v [] g }"
              using z True ga(1) IS_OBJECT nb ob ow gp(1) by (auto split: bind_splits)
            then show ?thesis using pair [of "[]" "[]"] None by (simp add: obj_zvals_def)
          next
            case tps: (Some tp)
            obtain table props where tp: "tp = (table, props)" by (cases tp)
            show ?thesis
            proof (cases props)
              case None
              then have "zval_collect_white (Suc fuel) p g = do { g \<leftarrow> foldo ?v [] gp; g \<leftarrow> put_to_free p g; foldo ?v (table_zvals table) g }"
                using z True ga(1) IS_OBJECT nb ob ow gp(1) tps tp by auto
              then show ?thesis using pair [of "[]" "table_zvals table"] None tps tp by (simp add: obj_zvals_def)
            next
              case (Some ps)
              then have "zval_collect_white (Suc fuel) p g = do { g \<leftarrow> foldo ?v (table_zvals table) gp; g \<leftarrow> put_to_free p g; foldo ?v ps g }"
                using z True ga(1) IS_OBJECT nb ob ow gp(1) tps tp by (auto simp: Let_def)
              then show ?thesis using pair [of "table_zvals table" ps] Some tps tp by (simp add: obj_zvals_def)
            qed
          qed
        qed
      qed (use alone z True ga(1) in \<open>auto simp: sc_def\<close>)
    qed
  qed
  then show ?case by (simp add: collects_def)
qed

lemma collected_object:
  assumes t: "taken g {Obj h} ga" and w: "white g (Obj h)" and c: "collected ga N (count_list cs) qs gb"
    and rf: "\<And>q. count_list (sc g (Obj h)) (Val q) = count_list cs q" and cl: "\<And>m. m \<in> set (sc g (Obj h)) \<Longrightarrow> \<not> white gb m"
  shows "collected g (insert (Obj h) N) (\<lambda>_. 0) qs gb"
proof -
  note C = collectedD [OF c] and w0 = taken_white [OF t] and w1 = collected_white [OF c]
  have Ga: "same_graph g ga" "bufs ga = bufs g" "zval_to_free ga = zval_to_free g" "cnt ga = cnt g" using t by (simp_all add: taken_def)
  note G = same_graphD [OF Ga(1)]
  have hN: "Obj h \<notin> N" using C(2) w0 by blast
  have ra: "ref_at ga n = ref_at g n" if "n \<noteq> Obj h" for n using t that by (simp add: taken_def)
  have ro: "ref_at gb (Obj h) = Some (GC_SET_PURPLE (plain GC_NULL))" using C(5) [OF hN] t by (simp add: taken_def)
  have "\<exists>v. ref_at gb n = Some v \<and> GC_GET_COLOR v = (case n of Val _ \<Rightarrow> GC_BLACK | Obj _ \<Rightarrow> GC_PURPLE)" if "n \<in> insert (Obj h) N" for n
    using that ro C(6) [of n] by (cases "n = Obj h") (auto simp: GC_SET_PURPLE_def)
  moreover have "addr gb (Obj k) = GC_NULL" if "Obj k \<in> insert (Obj h) N" for k
    using that ro C(7) [of k] by (cases "k = h") (auto simp: addr_def GC_SET_PURPLE_def plain_def)
  moreover have "cnt gb (Val q) = cnt g (Val q) + (if glb g (Val q) then 0 else of_nat (refs (sc g) (insert (Obj h) N) (Val q) + 0)) +
      (if Val q \<in> insert (Obj h) N then 1 else 0)" for q
    using C(8) [of q] Ga(4) G(1,2) rf [of q] by (simp add: refs_insert [OF C(1) hN])
  moreover have "\<not> white gb m" if "n \<in> insert (Obj h) N" "m \<in> set (sc g n)" for n m
    using that cl [of m] C(10) [of n m] G(1) by auto
  moreover have "to_free gb (zval_to_free gb) (qs @ rest)" if r: "to_free g (zval_to_free g) rest" for rest
  proof -
    have "to_free ga (zval_to_free ga) rest" using r to_free_cong [of rest ga g] ra Ga(3) by simp
    then show ?thesis by (rule C(13))
  qed
  moreover have "ref_at gb n = ref_at g n" if "n \<notin> insert (Obj h) N" for n using that C(5) ra by simp
  moreover have "\<forall>n\<in>insert (Obj h) N. white g n" using w C(2) w0 by blast
  moreover have "same_graph g gb" "bufs gb = bufs g" using same_graph_trans [OF Ga(1) C(3)] Ga(2) C(4) by simp_all
  moreover have "\<And>k. cnt gb (Obj k) = cnt g (Obj k)" "\<And>q. q \<in> set qs \<longleftrightarrow> Val q \<in> insert (Obj h) N" using C(9,12) Ga(4) by simp_all
  ultimately show ?thesis unfolding collected_def using C(1,11) by (intro conjI allI ballI impI) (assumption | simp | blast)+
qed

lemma zobj_collect_ok:
  assumes g: "collectable g" "Obj h \<in> nodes g" "white_zvals g < fuel"
  shows "\<exists>g' N qs. zobj_collect_white fuel h g = Some g' \<and> collected g N (\<lambda>_. 0) qs g' \<and> \<not> white g' (Obj h)"
proof -
  have nb: "object_buckets g \<noteq> None" using g(1) by (simp add: collectable_def)
  obtain ob where ob: "obj_at g h = Some ob" using g(2) by (auto simp: nodes_obj)
  show ?thesis
  proof (cases "obj_buffered ob = white_null")
    case False
    then show ?thesis using ob nb collected_refl [of g] white_obj [OF ob] by (auto simp: zobj_collect_white_def)
  next
    case True
    then have w: "white g (Obj h)" using white_obj [OF ob] by simp
    then obtain ga where ga: "opoke h (\<lambda>obj. obj\<lparr>obj_buffered := GC_SET_PURPLE (obj_buffered obj)\<rparr>) g = Some ga" "taken g {Obj h} ga"
      using purple_taken by blast
    have G: "same_graph g ga" using ga(2) by (simp add: taken_def)
    note wa = taken_white [OF ga(2)]
    have ka: "collectable ga" using g(1) same_graph_closed [OF G] same_graphD [OF G] taken_col [OF ga(2)] by (auto simp: collectable_def)
    have wz: "white_zvals ga < fuel" using g(3) wa same_graphD(4) [OF G] by (simp add: white_zvals_def)
    have sub: "Val ` set (obj_zvals ob) \<subseteq> nodes ga"
      using obj_zvals_nodes [of g h ob] ob g(1) same_graphD(3) [OF G] by (simp add: collectable_def)
    obtain gb N qs where gb: "foldo (white_child (zval_collect_white fuel)) (obj_zvals ob) ga = Some gb" "collected ga N (count_list (obj_zvals ob)) qs gb"
        "\<forall>q\<in>set (obj_zvals ob). \<not> white gb (Val q)"
      using foldo_collects [OF zval_collect_collects ka sub wz] by blast
    have "collected g (insert (Obj h) N) (\<lambda>_. 0) qs gb"
      by (rule collected_object [OF ga(2) w gb(2)]) (use gb(3) in \<open>auto simp: sc_Obj [OF ob] count_Val\<close>)
    moreover have "zobj_collect_white fuel h g = Some gb" using nb ob True ga(1) gb(1) by (auto simp: zobj_collect_white_def gc_props_foldo)
    moreover have "\<not> white gb (Obj h)" using collected_white [OF gb(2)] wa by blast
    ultimately show ?thesis by blast
  qed
qed

section \<open>The loop over the roots\<close>

lemma ref_at_eq: "n \<in> nodes g \<Longrightarrow> ref_at g n = Some \<lparr>GC_ADDRESS = addr g n, GC_GET_COLOR = col g n\<rparr>"
  by (cases n) (auto simp: nodes_val nodes_obj ref_at_def addr_def col_def)

lemma ref_at_none: "n \<notin> nodes g \<Longrightarrow> ref_at g n = None"
  by (cases n) (auto simp: nodes_val nodes_obj ref_at_def)

lemma white_iff: "white g n \<longleftrightarrow> n \<in> nodes g \<and> col g n = GC_WHITE \<and> addr g n = GC_NULL"
  by (cases "n \<in> nodes g") (auto simp: white_def ref_at_eq ref_at_none white_null_def)

lemma bufs_buffer: "bufs g' = bufs g \<Longrightarrow> buffer_ok g' L U = buffer_ok g L U \<and> same_entries g g'"
  by (simp add: bufs_def buffer_ok_def root_list_def same_entries_def)

lemma white_zvals_bound: "heap_closed g \<Longrightarrow> white_zvals g \<le> card (dom (zvals g))"
  unfolding white_zvals_def by (intro card_mono heap_closed_dom) auto

text \<open>One root: its address is cleared, it is collected if it is white, and its entry is released.\<close>

lemma collect_root_ok:
  assumes b: "buffer_ok g (i # xs) U" and n: "root_node g i \<in> nodes g" and k: "collectable g" and fuel: "card (dom (zvals g)) < fuel"
  obtains g1 g2 g' N qs where "collect_root fuel i g = Some (g', first_of xs)" "same_graph g g1" "abs_of g1 = abs_of g"
    "addr g1 = (addr g)(root_node g i := GC_NULL)" "zval_to_free g1 = zval_to_free g" "collected g1 N (\<lambda>_. 0) qs g2" "\<not> white g2 (root_node g i)"
    "others g' = others g2" "buffer_ok g' xs (i # U)" "same_entries g g'"
proof -
  note goal = that
  obtain e where e: "root_bufs g i = Some e" "rb_next e = first_of xs" using root_list_next [of g "[]" i xs] b by (auto simp: buffer_ok_def)
  have nb: "object_buckets g \<noteq> None" using k by (simp add: collectable_def)
  have rest: thesis if g1: "same_graph g g1" "abs_of g1 = abs_of g" "addr g1 = (addr g)(root_node g i := GC_NULL)" "buffer_ok g1 = buffer_ok g"
      "same_entries g g1" "zval_to_free g1 = zval_to_free g" and g2: "collected g1 N (\<lambda>_. 0) qs g2" "\<not> white g2 (root_node g i)"
    and r: "\<And>g3 b'. gc_remove_from_buffer i g2 = Some g3 \<Longrightarrow> root_bufs g3 i = Some b' \<Longrightarrow> collect_root fuel i g = Some (g3, rb_next b')" for g1 g2 N qs
  proof -
    have b2: "buffer_ok g2 ([] @ i # xs) U" "same_entries g1 g2" using bufs_buffer [OF collectedD(4) [OF g2(1)]] g1(4) b by simp_all
    obtain g3 where g3: "gc_remove_from_buffer i g2 = Some g3" "buffer_ok g3 ([] @ xs) (i # U)" "same_entries g2 g3" "others g3 = others g2"
        "fld rb_next (root_bufs g3) i = Some (first_of xs)"
      by (rule remove_buffer [OF b2(1)])
    obtain b' where b': "root_bufs g3 i = Some b'" "rb_next b' = first_of xs" using g3(5) by (auto simp: fld_def)
    have "same_entries g g3" using same_entries_trans g1(5) b2(2) g3(3) by blast
    then show thesis using goal [OF _ g1(1,2,3,6) g2 g3(4)] r [OF g3(1) b'(1)] b'(2) g3(2) by simp
  qed
  have kk: "collectable g1 \<and> white_zvals g1 < fuel \<and> nodes g1 = nodes g" if "same_graph g g1" "abs_of g1 = abs_of g" for g1
  proof -
    have "collectable g1" using k same_graph_closed [OF that(1)] same_graphD [OF that(1)] that(2) by (auto simp: collectable_def abs_of_def)
    then show ?thesis using white_zvals_bound [of g1] fuel same_graphD(3,4) [OF that(1)] by (simp add: collectable_def)
  qed
  show ?thesis
  proof (cases "rb_handle e = 0")
    case True
    then have nd: "root_node g i = Val (rb_pz e)" using e by (simp add: root_node_def)
    obtain g1 where g1: "GC_ZVAL_SET_ADDRESS GC_NULL (rb_pz e) g = Some g1" "same_graph g g1" "abs_of g1 = abs_of g"
        "addr g1 = (addr g)(Val (rb_pz e) := GC_NULL)" "buffer_ok g1 = buffer_ok g" "same_entries g g1" "zval_to_free g1 = zval_to_free g"
      by (rule clear_zval [OF n [unfolded nd]]) blast
    obtain g2 N qs where g2: "zval_collect_white fuel (rb_pz e) g1 = Some g2" "collected g1 N (\<lambda>_. 0) qs g2" "\<not> white g2 (Val (rb_pz e))"
      using zval_collect_collects [of fuel] kk [OF g1(2,3)] n nd unfolding collects_def by metis
    have "collect_root fuel i g = Some (g3, rb_next b')" if "gc_remove_from_buffer i g2 = Some g3" "root_bufs g3 i = Some b'" for g3 b'
      using e(1) True g1(1) g2(1) that by (simp add: collect_root_def)
    then show ?thesis by (intro rest [OF g1(2,3) g1(4) [folded nd] g1(5-7) g2(2) g2(3) [folded nd]])
  next
    case False
    then have nd: "root_node g i = Obj (rb_handle e)" using e by (simp add: root_node_def)
    obtain g1 where g1: "opoke (rb_handle e) (\<lambda>obj. obj\<lparr>obj_buffered := GC_SET_ADDRESS GC_NULL (obj_buffered obj)\<rparr>) g = Some g1" "same_graph g g1"
        "abs_of g1 = abs_of g" "addr g1 = (addr g)(Obj (rb_handle e) := GC_NULL)" "buffer_ok g1 = buffer_ok g" "same_entries g g1"
        "zval_to_free g1 = zval_to_free g"
      by (rule clear_obj [OF n [unfolded nd]]) blast
    obtain g2 N qs where g2: "zobj_collect_white fuel (rb_handle e) g1 = Some g2" "collected g1 N (\<lambda>_. 0) qs g2" "\<not> white g2 (Obj (rb_handle e))"
      using zobj_collect_ok [of g1 "rb_handle e" fuel] kk [OF g1(2,3)] n nd by auto
    obtain m where m: "object_buckets g = Some m" using nb by blast
    have "collect_root fuel i g = Some (g3, rb_next b')" if "gc_remove_from_buffer i g2 = Some g3" "root_bufs g3 i = Some b'" for g3 b'
      using e(1) False g1(1) g2(1) that m by (simp add: collect_root_def)
    then show ?thesis by (intro rest [OF g1(2,3) g1(4) [folded nd] g1(5-7) g2(2) g2(3) [folded nd]])
  qed
qed

text \<open>The loop: \<open>xs\<close> are the roots to come, \<open>D\<close> the nodes taken so far and \<open>ps\<close> the list of zvals to free.\<close>

definition collect_inv :: "gc_state \<Rightarrow> nat list \<Rightarrow> nat list \<Rightarrow> nat list \<Rightarrow> node set \<Rightarrow> ptr list \<Rightarrow> gc_state \<Rightarrow> bool" where
  "collect_inv gs ks xs U D ps g \<longleftrightarrow>
     buffer_ok g xs U \<and> same_graph gs g \<and> same_entries gs g \<and> set xs \<subseteq> set ks \<and> finite D \<and>
     (\<forall>n\<in>D. n \<in> nodes gs \<and> col gs n = GC_WHITE \<and> col g n = (case n of Val _ \<Rightarrow> GC_BLACK | Obj _ \<Rightarrow> GC_PURPLE)) \<and>
     (\<forall>n. n \<notin> D \<longrightarrow> col g n = col gs n \<and> addr g n = (if n \<in> root_node gs ` (set ks - set xs) then GC_NULL else addr gs n)) \<and>
     (\<forall>h. Obj h \<in> D \<longrightarrow> addr g (Obj h) = GC_NULL) \<and>
     (\<forall>p. cnt g (Val p) = cnt gs (Val p) + (if glb gs (Val p) then 0 else of_nat (refs (sc gs) D (Val p))) + (if Val p \<in> D then 1 else 0)) \<and>
     (\<forall>h. cnt g (Obj h) = cnt gs (Obj h)) \<and>
     (\<forall>n\<in>D. \<forall>m\<in>set (sc gs n). \<not> white g m) \<and> (\<forall>i\<in>set ks - set xs. \<not> white g (root_node gs i)) \<and>
     (\<forall>j\<in>set xs. root_node gs j \<notin> D) \<and>
     distinct ps \<and> (\<forall>p. p \<in> set ps \<longleftrightarrow> Val p \<in> D) \<and> to_free g (zval_to_free g) ps"

lemma collect_invD:
  assumes "collect_inv gs ks xs U D ps g"
  shows "buffer_ok g xs U" "same_graph gs g" "same_entries gs g" "set xs \<subseteq> set ks" "finite D"
    "\<And>n. n \<in> D \<Longrightarrow> n \<in> nodes gs \<and> col gs n = GC_WHITE \<and> col g n = (case n of Val _ \<Rightarrow> GC_BLACK | Obj _ \<Rightarrow> GC_PURPLE)"
    "\<And>n. n \<notin> D \<Longrightarrow> col g n = col gs n \<and> addr g n = (if n \<in> root_node gs ` (set ks - set xs) then GC_NULL else addr gs n)"
    "\<And>h. Obj h \<in> D \<Longrightarrow> addr g (Obj h) = GC_NULL"
    "\<And>p. cnt g (Val p) = cnt gs (Val p) + (if glb gs (Val p) then 0 else of_nat (refs (sc gs) D (Val p))) + (if Val p \<in> D then 1 else 0)"
    "\<And>h. cnt g (Obj h) = cnt gs (Obj h)" "\<And>n m. n \<in> D \<Longrightarrow> m \<in> set (sc gs n) \<Longrightarrow> \<not> white g m"
    "\<And>i. i \<in> set ks \<Longrightarrow> i \<notin> set xs \<Longrightarrow> \<not> white g (root_node gs i)"
    "\<And>j. j \<in> set xs \<Longrightarrow> root_node gs j \<notin> D"
    "distinct ps" "\<And>p. p \<in> set ps \<longleftrightarrow> Val p \<in> D" "to_free g (zval_to_free g) ps"
  using assms unfolding collect_inv_def by blast+

lemma collect_step:
  assumes i: "collect_inv gs ks (i # xs) U D ps g" and ks: "\<And>j. j \<in> set ks \<Longrightarrow> root_node gs j \<in> nodes gs \<and> addr gs (root_node gs j) = Root j"
    and k: "collectable gs" and fuel: "card (dom (zvals gs)) < fuel"
  shows "\<exists>g' D' ps'. collect_root fuel i g = Some (g', first_of xs) \<and> collect_inv gs ks xs (i # U) D' ps' g'"
proof -
  note I = collect_invD [OF i] and G = same_graphD [OF collect_invD(2) [OF i]]
  let ?n = "root_node gs i"
  have ik: "i \<in> set ks" "i \<notin> set xs" using I(4) I(1) by (auto simp: buffer_ok_def)
  have n: "root_node g i = ?n" "?n \<in> nodes g" "?n \<notin> D" using same_entries_node [OF I(3)] ks [OF ik(1)] G(3) I(13) by simp_all
  have colD: "col g m \<noteq> GC_WHITE" if "m \<in> D" for m using I(6) [OF that] by (cases m) auto
  have kg: "collectable g" using k same_graph_closed [OF I(2)] G colD I(7) unfolding collectable_def by metis
  obtain g1 g2 g' N qs where r: "collect_root fuel i g = Some (g', first_of xs)" and g1: "same_graph g g1" "abs_of g1 = abs_of g"
    "addr g1 = (addr g)(?n := GC_NULL)" "zval_to_free g1 = zval_to_free g" and c: "collected g1 N (\<lambda>_. 0) qs g2" and nw: "\<not> white g2 ?n"
    and g': "others g' = others g2" "buffer_ok g' xs (i # U)" "same_entries g g'"
    using collect_root_ok [OF I(1) _ kg, of fuel] n fuel G(4) by metis
  note C = collectedD [OF c] and O = others_values [OF g'(1)] and G1 = same_graphD [OF g1(1)]
  have col1: "col g1 = col g" "cnt g1 = cnt g" using g1(2) by (simp_all add: abs_of_def)
  have w': "white g' m \<longleftrightarrow> white g1 m \<and> m \<notin> N" for m using O(5) collected_white [OF c] by (simp add: white_def)
  have w1: "white g1 m \<longleftrightarrow> white g m \<or> m = ?n \<and> col g m = GC_WHITE" for m using G1(3) col1 g1(3) n(2) by (auto simp: white_iff)
  have cnt': "cnt g' = cnt g2" using O(2) by (simp add: abs_of_def)
  have N: "m \<in> nodes gs" "col gs m = GC_WHITE" "m \<notin> D" if "m \<in> N" for m
  proof -
    have w: "m \<in> nodes g" "col g m = GC_WHITE" using C(2) that G1(3) col1 by (auto simp: white_iff)
    then show "m \<notin> D" "m \<in> nodes gs" using colD G(3) by auto
    then show "col gs m = GC_WHITE" using I(7) w(2) by simp
  qed
  have colE: "col g' m = (if m \<in> N then case m of Val _ \<Rightarrow> GC_BLACK | Obj _ \<Rightarrow> GC_PURPLE else col g m)" for m
    using C(5,6) [of m] O(5) col1(1) by (auto simp: col_def fun_eq_iff)
  have adE: "addr g' m = (if m = ?n then GC_NULL else addr g m)" if "m \<notin> N" for m
    using C(5) [OF that] O(5) g1(3) by (simp add: addr_def fun_eq_iff)
  have fin: "finite (D \<union> N)" "D \<inter> N = {}" using I(5) C(1) N by auto
  have root_addr: "addr g (root_node gs j) = Root j" if j: "j \<in> set (i # xs)" for j
  proof -
    have "root_node gs j \<notin> root_node gs ` (set ks - set (i # xs))"
    proof
      assume "root_node gs j \<in> root_node gs ` (set ks - set (i # xs))"
      then obtain l where l: "l \<in> set ks" "l \<notin> set (i # xs)" "root_node gs j = root_node gs l" by blast
      then have "Root j = Root l" using ks [of j] ks [of l] I(4) j by auto
      then show False using l j by blast
    qed
    then show ?thesis using I(7) [OF I(13) [OF j]] ks [of j] I(4) j by auto
  qed
  have 1: "\<forall>m\<in>D \<union> N. m \<in> nodes gs \<and> col gs m = GC_WHITE \<and> col g' m = (case m of Val _ \<Rightarrow> GC_BLACK | Obj _ \<Rightarrow> GC_PURPLE)"
    using N I(6) colE by auto
  have 2: "\<forall>m. m \<notin> D \<union> N \<longrightarrow> col g' m = col gs m \<and> addr g' m = (if m \<in> root_node gs ` (set ks - set xs) then GC_NULL else addr gs m)"
  proof (intro allI impI)
    fix m assume m: "m \<notin> D \<union> N"
    have "set ks - set xs = insert i (set ks - set (i # xs))" using ik by auto
    then show "col g' m = col gs m \<and> addr g' m = (if m \<in> root_node gs ` (set ks - set xs) then GC_NULL else addr gs m)"
      using I(7) [of m] m colE [of m] adE [of m] by auto
  qed
  have 3: "\<forall>h. Obj h \<in> D \<union> N \<longrightarrow> addr g' (Obj h) = GC_NULL"
  proof (intro allI impI)
    fix h assume h: "Obj h \<in> D \<union> N"
    show "addr g' (Obj h) = GC_NULL" using h C(7) [of h] I(8) [of h] adE [of "Obj h"] O(3) by (cases "Obj h \<in> N") auto
  qed
  have 4: "\<forall>p. cnt g' (Val p) = cnt gs (Val p) + (if glb gs (Val p) then 0 else of_nat (refs (sc gs) (D \<union> N) (Val p))) + (if Val p \<in> D \<union> N then 1 else 0)"
  proof
    fix p
    show "cnt g' (Val p) = cnt gs (Val p) + (if glb gs (Val p) then 0 else of_nat (refs (sc gs) (D \<union> N) (Val p))) + (if Val p \<in> D \<union> N then 1 else 0)"
      using C(8) [of p] I(9) [of p] N(3) [of "Val p"] by (auto simp: cnt' col1(2) G G1 refs_Un [OF I(5) C(1) fin(2)] algebra_simps)
  qed
  have 5: "\<forall>h. cnt g' (Obj h) = cnt gs (Obj h)" using C(9) I(10) by (simp add: cnt' col1(2))
  have 6: "\<forall>m\<in>D \<union> N. \<forall>q\<in>set (sc gs m). \<not> white g' q"
  proof (intro ballI)
    fix m q assume m: "m \<in> D \<union> N" "q \<in> set (sc gs m)"
    have "\<not> white g2 ?n" by (rule nw)
    then have nn: "\<not> white g' ?n" using O(5) by (simp add: white_def)
    show "\<not> white g' q"
    proof (cases "m \<in> N")
      case True
      then have "\<not> white g2 q" using C(10) m(2) by (simp add: G G1)
      then show ?thesis using O(5) by (simp add: white_def)
    next
      case False
      then have "\<not> white g q" using I(11) m by blast
      then show ?thesis using w' [of q] w1 [of q] nn by blast
    qed
  qed
  have 7: "\<forall>j\<in>set ks - set xs. \<not> white g' (root_node gs j)"
  proof
    fix j assume j: "j \<in> set ks - set xs"
    have "\<not> white g' ?n" using nw O(5) by (simp add: white_def)
    then show "\<not> white g' (root_node gs j)" using I(12) [of j] j w' [of "root_node gs j"] w1 [of "root_node gs j"] by (cases "j = i") auto
  qed
  have 8: "\<forall>j\<in>set xs. root_node gs j \<notin> D \<union> N"
  proof
    fix j assume j: "j \<in> set xs"
    have "addr g (root_node gs j) = Root j" "addr g ?n = Root i" "j \<noteq> i" using root_addr j ik by auto
    then have "addr g1 (root_node gs j) \<noteq> GC_NULL" using g1(3) by auto
    then have "root_node gs j \<notin> N" using C(2) by (auto simp: white_iff)
    then show "root_node gs j \<notin> D \<union> N" using I(13) j by simp
  qed
  have 9: "distinct (qs @ ps)" "\<forall>p. p \<in> set (qs @ ps) \<longleftrightarrow> Val p \<in> D \<union> N" using C(11,12) I(14,15) fin(2) by auto
  have 10: "to_free g' (zval_to_free g') (qs @ ps)"
  proof -
    have "ref_at g1 (Val p) = ref_at g (Val p)" if "p \<in> set ps" for p
    proof -
      have "Val p \<in> D" using that I(15) by blast
      then have "Val p \<in> nodes g" "Val p \<noteq> ?n" using I(6) [of "Val p"] G(3) n(3) by auto
      then show ?thesis using ref_at_eq [of "Val p" g] ref_at_eq [of "Val p" g1] G1(3) col1 g1(3) by simp
    qed
    then have "to_free g1 (zval_to_free g1) ps" using I(16) to_free_cong [of ps g1 g] g1(4) by simp
    then have "to_free g2 (zval_to_free g2) (qs @ ps)" by (rule C(13))
    then show ?thesis using O(4,5) to_free_cong [of "qs @ ps" g' g2] by simp
  qed
  have 11: "same_graph gs g'" using same_graph_trans I(2) g1(1) C(3) O(1) by blast
  have 12: "same_entries gs g'" "set xs \<subseteq> set ks" using same_entries_trans [OF I(3) g'(3)] I(4) by auto
  have "collect_inv gs ks xs (i # U) (D \<union> N) (qs @ ps) g'"
    unfolding collect_inv_def using 1 2 3 4 5 6 7 8 9 10 11 12 g'(2) fin(1) by (intro conjI) assumption+
  then show ?thesis using r by blast
qed

lemma collect_roots_ok:
  assumes b: "buffer_ok gs ks U" and ks: "\<And>j. j \<in> set ks \<Longrightarrow> root_node gs j \<in> nodes gs \<and> addr gs (root_node gs j) = Root j"
    and k: "collectable gs" and fuel: "card (dom (zvals gs)) < fuel" and z: "zval_to_free gs = FREE_LIST_END"
  shows "\<exists>g' U' D ps. gc_collect_roots fuel gs = Some g' \<and> collect_inv gs ks [] U' D ps g'"
proof -
  have i: "collect_inv gs ks ks U {} [] gs"
    using b z by (simp add: collect_inv_def same_graph_def same_entries_def)
  have "\<exists>g'. iterate (collect_root fuel) (first_of ks) gs = Some g' \<and> (\<exists>U D ps. collect_inv gs ks [] U D ps g')"
  proof (rule iterate_rule [where I = "\<lambda>xs g'. \<exists>U D ps. collect_inv gs ks xs U D ps g'"])
    fix a xs s assume "\<exists>U D ps. collect_inv gs ks (a # xs) U D ps s"
    then obtain V D ps where "collect_inv gs ks (a # xs) V D ps s" by blast
    from collect_step [OF this ks k fuel] show "\<exists>s' n. collect_root fuel a s = Some (s', n) \<and>
        ((n = None \<and> (\<exists>U D ps. collect_inv gs ks [] U D ps s')) \<or> (n = first_of xs \<and> (\<exists>U D ps. collect_inv gs ks xs U D ps s')))"
      by blast
  qed (use i in blast)+
  moreover have "roots_next gs = first_of ks" using b by (simp add: buffer_ok_def root_list_def)
  ultimately show ?thesis by (auto simp: gc_collect_roots_def)
qed

text \<open>All the white nodes are taken, if the white nodes are reached from the roots through white nodes only.\<close>

lemma collect_all:
  assumes i: "collect_inv gs ks [] U D ps g" and h: "heap_closed gs"
    and ad: "\<And>n. n \<in> nodes gs \<Longrightarrow> addr gs n = GC_NULL \<or> n \<in> root_node gs ` set ks"
    and pre: "\<And>n a. n \<in> W \<Longrightarrow> a \<in> nodes gs \<Longrightarrow> n \<in> set (sc gs a) \<Longrightarrow> a \<in> W"
    and W: "W = {n \<in> nodes gs. col gs n = GC_WHITE}" "W \<subseteq> (edges (sc gs))\<^sup>* `` (root_node gs ` set ks)"
    and ks: "\<And>j. j \<in> set ks \<Longrightarrow> root_node gs j \<in> nodes gs"
  shows "D = W"
proof
  note I = collect_invD [OF i] and G = same_graphD [OF collect_invD(2) [OF i]]
  show "D \<subseteq> W" using I(6) W(1) by blast
  have taken: "n \<in> D" if "n \<in> W" "\<not> white g n" for n
  proof (rule ccontr)
    assume n: "n \<notin> D"
    have "n \<in> nodes g" "col g n = GC_WHITE" "addr g n = GC_NULL" using I(7) [OF n] that(1) W(1) ad [of n] G(3) by auto
    then show False using that(2) by (simp add: white_iff)
  qed
  have "m \<in> nodes gs \<and> (m \<in> W \<longrightarrow> m \<in> D)" if "(root_node gs j, m) \<in> (edges (sc gs))\<^sup>*" "j \<in> set ks" for j m
    using that
  proof (induction rule: rtrancl_induct)
    case base
    then show ?case using taken I(12) [of j] ks by simp
  next
    case (step a m)
    have am: "m \<in> set (sc gs a)" "a \<in> nodes gs" "a \<in> W \<longrightarrow> a \<in> D" using step by (simp_all add: edges_def)
    then show ?case using closed_sc [OF h am(2)] pre [OF _ am(2,1)] I(11) [of a m] taken [of m] by blast
  qed
  then show "W \<subseteq> D" using W(2) by blast
qed

end
