(* ===== verification/Zend_Gc_Cycles.thy ===== *)
theory Zend_Gc_Cycles
  imports Zend_Gc_Collect
begin

text \<open>
  A whole collection (\<^verbatim>\<open>gc_collect_cycles\<close>): what it finds, and the three loops over the list of zvals to free.
\<close>

section \<open>What a collection finds\<close>

lemma values_eq:
  assumes "zvals g' = zvals g" "object_buckets g' = object_buckets g"
  shows "sc g' = sc g" "glb g' = glb g" "nodes g' = nodes g" "ref_at g' = ref_at g" "col g' = col g" "addr g' = addr g" "cnt g' = cnt g"
proof -
  have o: "obj_at g' = obj_at g" using assms by (simp add: obj_at_def fun_eq_iff)
  show r: "ref_at g' = ref_at g" by (simp add: fun_eq_iff ref_at_def assms o split: node.splits)
  have "sc g' n = sc g n" "glb g' n = glb g n" "cnt g' n = cnt g n" for n
    by (auto simp: sc_def glb_def cnt_def assms o split: node.splits option.splits gc_value.splits)
  then show "sc g' = sc g" "glb g' = glb g" "cnt g' = cnt g" by (auto simp: fun_eq_iff)
  show "nodes g' = nodes g" "col g' = col g" "addr g' = addr g" by (simp_all add: nodes_def assms o col_def addr_def r fun_eq_iff)
qed

lemma values_graph:
  assumes "zvals g' = zvals g" "object_buckets g' = object_buckets g"
  shows "same_graph g g'"
  using values_eq [OF assms] assms by (simp add: same_graph_def)

lemma ready_cong:
  assumes v: "zvals g' = zvals g" "object_buckets g' = object_buckets g" and b: "bufs g' = bufs g"
  shows "gc_ready g' L U = gc_ready g L U" "root_node g' = root_node g"
proof -
  have e: "same_entries g g'" "buffer_ok g' L U = buffer_ok g L U" using bufs_buffer [OF b] by simp_all
  show r: "root_node g' = root_node g" using same_entries_node [OF e(1)] by (simp add: fun_eq_iff)
  show "gc_ready g' L U = gc_ready g L U"
    unfolding gc_ready_def same_graph_closed [OF values_graph [OF v]] e(2) r values_eq [OF v] v ..
qed

text \<open>
  A candidate is a value that a root leads to. It is anchored if it can be reached from a value that is not a candidate or that has a
  reference from outside of the heap.
\<close>

definition candidates :: "gc_state \<Rightarrow> nat list \<Rightarrow> node set" where
  "candidates g L = {n \<in> (edges (sc g))\<^sup>* `` (root_node g ` set L). \<not> glb g n}"

definition anchored :: "gc_state \<Rightarrow> (node \<Rightarrow> nat) \<Rightarrow> nat list \<Rightarrow> node set" where
  "anchored g ext L = (edges (sc g))\<^sup>* `` {n \<in> nodes g. ext n \<noteq> 0 \<or> n \<notin> candidates g L}"

definition garbage :: "gc_state \<Rightarrow> (node \<Rightarrow> nat) \<Rightarrow> nat list \<Rightarrow> node set" where
  "garbage g ext L = candidates g L - anchored g ext L"

lemma mark_candidates:
  assumes r: "gc_ready g L U" and i: "mark_inv g L ks [] U' N g'"
  shows "N = candidates g L"
proof
  note m = mark_greyed [OF r i]
  show "N \<subseteq> candidates g L" using m(3,5) greyedD(4) [OF m(1)] by (fastforce simp: candidates_def)
  show "candidates g L \<subseteq> N"
  proof
    fix n assume "n \<in> candidates g L"
    then obtain j where j: "j \<in> set L" "(root_node g j, n) \<in> (edges (sc g))\<^sup>*" "\<not> glb g n" by (auto simp: candidates_def)
    show "n \<in> N"
    proof (cases "root_node g j \<in> N")
      case True
      then show ?thesis using greyed_reach [OF m(1) j(2)] j(3) by blast
    next
      case False
      then have "glb g (root_node g j)" "sc g (root_node g j) = []" using m(4) [OF j(1)] glb_sc by blast+
      then have "n = root_node g j" using j(2) by (auto simp: edges_def elim: converse_rtranclE)
      then show ?thesis using j(3) \<open>glb g (root_node g j)\<close> by blast
    qed
  qed
qed

lemma whites_garbage:
  assumes W: "W = C - (edges s)\<^sup>* `` held s V ext C" and pre: "\<And>n. n \<in> W \<Longrightarrow> ext n = 0 \<and> (\<forall>a\<in>V. n \<in> set (s a) \<longrightarrow> a \<in> W)"
    and C: "C \<subseteq> V" and closed: "\<And>n. n \<in> V \<Longrightarrow> set (s n) \<subseteq> V"
  shows "W = C - (edges s)\<^sup>* `` {n \<in> V. ext n \<noteq> 0 \<or> n \<notin> C}"
proof
  have WC: "W \<subseteq> C" using W by blast
  show "C - (edges s)\<^sup>* `` {n \<in> V. ext n \<noteq> 0 \<or> n \<notin> C} \<subseteq> W"
  proof
    fix n assume n: "n \<in> C - (edges s)\<^sup>* `` {n \<in> V. ext n \<noteq> 0 \<or> n \<notin> C}"
    have "n \<notin> (edges s)\<^sup>* `` held s V ext C"
    proof
      assume "n \<in> (edges s)\<^sup>* `` held s V ext C"
      then obtain m where m: "m \<in> held s V ext C" "(m, n) \<in> (edges s)\<^sup>*" by blast
      then consider "m \<in> C" "ext m \<noteq> 0" | a where "a \<in> V" "a \<notin> C" "m \<in> set (s a)" by (auto simp: held_def)
      then show False
      proof cases
        case 1
        then show ?thesis using n m(2) C by blast
      next
        case 2
        then have "(a, n) \<in> (edges s)\<^sup>*" using m(2) by (auto simp: edges_def intro: converse_rtrancl_into_rtrancl)
        then show ?thesis using n 2 by blast
      qed
    qed
    then show "n \<in> W" using n W by blast
  qed
  have preds: "a \<in> W" if "(a, n) \<in> (edges s)\<^sup>*" "n \<in> W" "a \<in> V" for a n
    using that
  proof (induction rule: converse_rtrancl_induct)
    case (step a b)
    then have "b \<in> set (s a)" "b \<in> V" using closed by (auto simp: edges_def)
    then show ?case using step pre [of b] by blast
  qed
  have "n \<notin> (edges s)\<^sup>* `` {n \<in> V. ext n \<noteq> 0 \<or> n \<notin> C}" if "n \<in> W" for n
  proof
    assume "n \<in> (edges s)\<^sup>* `` {n \<in> V. ext n \<noteq> 0 \<or> n \<notin> C}"
    then obtain a where a: "(a, n) \<in> (edges s)\<^sup>*" "a \<in> V" "ext a \<noteq> 0 \<or> a \<notin> C" by blast
    have "a \<in> W" by (rule preds [OF a(1) that a(2)])
    then show False using pre [of a] a(3) WC by auto
  qed
  then show "W \<subseteq> C - (edges s)\<^sup>* `` {n \<in> V. ext n \<noteq> 0 \<or> n \<notin> C}" using WC by blast
qed

text \<open>The first two phases.\<close>

lemma mark_scan_ok:
  assumes r: "gc_ready g L U" and fuel: "2 * card (dom (zvals g)) < fuel"
  shows "\<exists>gm gs ks U' N. gc_mark_roots fuel g = Some gm \<and> gc_scan_roots fuel gm = Some gs \<and> mark_inv g L ks [] U' N gm \<and> skel gs = skel gm \<and>
    scan_inv (sc g) (glb g) N (abs_of gm) (abs_of gs) \<and> (\<forall>m\<in>N. col gs m \<noteq> GC_GREY)"
proof -
  note R = gc_readyD [OF r]
  have f1: "card (dom (zvals g)) < fuel" using fuel by simp
  obtain gm ks Um N where gm: "gc_mark_roots fuel g = Some gm" and mi: "mark_inv g L ks [] Um N gm" using mark_roots_ok [OF r f1] by blast
  note M = mark_invD [OF mi] and mg = mark_greyed [OF r mi] and Gm = same_graphD [OF mark_invD(2) [OF mi]]
  have bm: "buffer_ok gm ks Um" using M(1) by simp
  have nodem: "root_node gm = root_node g" using same_entries_node [OF M(3)] by (simp add: fun_eq_iff)
  have hm: "heap_closed gm" "object_buckets gm \<noteq> None" "2 * card (dom (zvals gm)) < fuel"
    using same_graph_closed [OF M(2)] R(1,2) Gm fuel by simp_all
  have rm: "root_node gm i \<in> nodes gm \<and> (glb gm (root_node gm i) \<or> root_node gm i \<in> N)" if "i \<in> set ks" for i
    using that mg(4,5) R(5) by (auto simp: nodem Gm)
  obtain gs where gs: "gc_scan_roots fuel gm = Some gs" "skel gs = skel gm" and si: "scan_inv (sc gm) (glb gm) N (abs_of gm) (abs_of gs)"
      and ng: "\<forall>m\<in>N. col gs m \<noteq> GC_GREY"
    by (rule scan_roots_ok [OF bm rm hm mg(1) [folded Gm] mg(3) [folded Gm nodem]]) blast+
  have "scan_inv (sc g) (glb g) N (abs_of gm) (abs_of gs)" using si Gm by simp
  then show ?thesis using gm mi gs ng by blast
qed

lemma ready_colors: "gc_ready g L U \<Longrightarrow> col g n = GC_BLACK \<or> col g n = GC_PURPLE"
  using gc_readyD(4) [of g L U n] col_outside [of n g] by blast

lemma scan_colors:
  assumes r: "gc_ready g L U" and mi: "mark_inv g L ks [] U' N gm" and si: "scan_inv (sc g) (glb g) N (abs_of gm) (abs_of gs)"
    and ng: "\<forall>m\<in>N. col gs m \<noteq> GC_GREY"
  shows "n \<notin> whites N (col gs) \<Longrightarrow> col gs n = GC_BLACK \<or> col gs n = GC_PURPLE" and "{n \<in> nodes g. col gs n = GC_WHITE} = whites N (col gs)"
    and "\<And>n. glb g n \<Longrightarrow> col gs n \<noteq> GC_WHITE"
proof -
  note M = mark_invD [OF mi] and bp = ready_colors [OF r]
  have colN: "col gs n = col g n" if "n \<notin> N" "\<not> glb g n" for n
    using scan_invD(1) [OF si that] floodedD(7) [OF M(5) that] by (simp add: abs_of_def)
  have colG: "col gs n = col g n \<or> col gs n = GC_BLACK" if "glb g n" for n
    using scan_invD(7) [OF si that] floodedD(8) [OF M(5) that] by (auto simp: abs_of_def)
  have bw: "col gs n = GC_BLACK \<or> col gs n = GC_PURPLE" if "n \<notin> whites N (col gs)" for n
  proof (cases "n \<in> N")
    case True
    then show ?thesis using scan_invD(2) [OF si True] ng that by (auto simp: whites_def abs_of_def)
  next
    case False
    then show ?thesis using colN [of n] colG [of n] bp [of n] by (cases "glb g n") auto
  qed
  then show "col gs n = GC_BLACK \<or> col gs n = GC_PURPLE" if "n \<notin> whites N (col gs)" using that .
  have "n \<in> whites N (col gs)" if "col gs n = GC_WHITE" for n using bw [of n] that by (cases "n \<in> whites N (col gs)") auto
  then show "{n \<in> nodes g. col gs n = GC_WHITE} = whites N (col gs)"
    using greyedD(2) [OF mark_greyed(1) [OF r mi]] by (auto simp: whites_def)
  show "col gs n \<noteq> GC_WHITE" if "glb g n" for n using colG [OF that] bp [of n] by auto
qed

text \<open>The state between scanning and collecting: exactly the garbage is white.\<close>

definition scanned :: "gc_state \<Rightarrow> (node \<Rightarrow> nat) \<Rightarrow> nat list \<Rightarrow> nat list \<Rightarrow> nat list \<Rightarrow> gc_state \<Rightarrow> bool" where
  "scanned g ext L ks U gs \<longleftrightarrow> same_graph g gs \<and> same_entries g gs \<and> buffer_ok gs ks U \<and> zval_to_free gs = zval_to_free g \<and> collectable gs \<and> set ks \<subseteq> set L \<and>
     (\<forall>i\<in>set ks. addr gs (root_node g i) = Root i) \<and> (\<forall>n\<in>nodes g. addr gs n = GC_NULL \<or> n \<in> root_node g ` set ks) \<and>
     {n \<in> nodes g. col gs n = GC_WHITE} = garbage g ext L \<and> (\<forall>n. n \<notin> garbage g ext L \<longrightarrow> col gs n = GC_BLACK \<or> col gs n = GC_PURPLE) \<and>
     garbage g ext L \<subseteq> (edges (sc g))\<^sup>* `` (root_node g ` set ks) \<and>
     (\<forall>n\<in>garbage g ext L. ext n = 0 \<and> (\<forall>a\<in>nodes g. n \<in> set (sc g a) \<longrightarrow> a \<in> garbage g ext L)) \<and>
     (\<forall>n. \<not> glb g n \<longrightarrow> cnt gs n = cnt g n - of_nat (refs (sc g) (garbage g ext L) n))"

lemma scannedD:
  assumes "scanned g ext L ks U gs"
  shows "same_graph g gs" "same_entries g gs" "buffer_ok gs ks U" "zval_to_free gs = zval_to_free g" "collectable gs" "set ks \<subseteq> set L"
    "\<And>i. i \<in> set ks \<Longrightarrow> addr gs (root_node g i) = Root i" "\<And>n. n \<in> nodes g \<Longrightarrow> addr gs n = GC_NULL \<or> n \<in> root_node g ` set ks"
    "{n \<in> nodes g. col gs n = GC_WHITE} = garbage g ext L" "\<And>n. n \<notin> garbage g ext L \<Longrightarrow> col gs n = GC_BLACK \<or> col gs n = GC_PURPLE"
    "garbage g ext L \<subseteq> (edges (sc g))\<^sup>* `` (root_node g ` set ks)" "\<And>n. n \<in> garbage g ext L \<Longrightarrow> ext n = 0"
    "\<And>n a. n \<in> garbage g ext L \<Longrightarrow> a \<in> nodes g \<Longrightarrow> n \<in> set (sc g a) \<Longrightarrow> a \<in> garbage g ext L"
    "\<And>n. \<not> glb g n \<Longrightarrow> cnt gs n = cnt g n - of_nat (refs (sc g) (garbage g ext L) n)"
  using assms unfolding scanned_def by blast+

lemma scanned_ok:
  assumes r: "gc_ready g L U" and ce: "counts_exact (sc g) (glb g) (nodes g) ext (cnt g)" and fuel: "2 * card (dom (zvals g)) < fuel"
  shows "\<exists>gm gs ks U'. gc_mark_roots fuel g = Some gm \<and> gc_scan_roots fuel gm = Some gs \<and> scanned g ext L ks U' gs"
proof -
  note R = gc_readyD [OF r]
  obtain gm gs ks U' N where gm: "gc_mark_roots fuel g = Some gm" "gc_scan_roots fuel gm = Some gs" and mi: "mark_inv g L ks [] U' N gm"
      and sk: "skel gs = skel gm" and si: "scan_inv (sc g) (glb g) N (abs_of gm) (abs_of gs)" and ng: "\<forall>m\<in>N. col gs m \<noteq> GC_GREY"
    using mark_scan_ok [OF r fuel] by blast
  note M = mark_invD [OF mi] and mg = mark_greyed [OF r mi] and S = skel_graph [OF sk] and sc = scan_colors [OF r mi si ng]
  have gg: "same_graph g gs" using same_graph_trans [OF M(2) same_graph_skel [OF sk]] .
  have ab: "fst (abs_of gs) = col gs" "snd (abs_of gs) = cnt gs" "snd (abs_of gm) = cnt gm" by (simp_all add: abs_of_def)
  have fin: "finite (nodes g)" using R(1) by (simp add: heap_closed_def)
  have mc: "snd (abs_of gm) n = cnt g n - of_nat (refs (sc g) N n)" if "\<not> glb g n" for n using mg(2) [OF that] ab by simp
  have ngs: "fst (abs_of gs) n \<noteq> GC_GREY" if "n \<in> N" for n using ng that ab by simp
  let ?W = "whites N (col gs)"
  note w = white_garbage [OF fin mg(1) mc ce si ngs, unfolded ab]
  have w1: "?W = N - (edges (sc g))\<^sup>* `` held (sc g) (nodes g) ext N" by (rule w(1))
  have w2: "ext n = 0 \<and> (\<forall>a\<in>nodes g. n \<in> set (sc g a) \<longrightarrow> a \<in> ?W)" if "n \<in> ?W" for n by (rule w(2)) (assumption | rule that)+
  have w3: "cnt gs n = cnt g n - of_nat (refs (sc g) ?W n)" if "\<not> glb g n" for n by (rule w(3)) (assumption | rule that)+
  have WG: "?W = garbage g ext L"
    using whites_garbage [OF w1 w2 greyedD(2) [OF mg(1)] closed_sc [OF R(1)]] by (simp add: garbage_def anchored_def mark_candidates [OF r mi])
  have "collectable gs"
    using same_graph_closed [OF gg] same_graphD(2,5) [OF gg] R(1,2) sc(3) by (simp add: collectable_def)
  moreover have "?W \<subseteq> (edges (sc g))\<^sup>* `` (root_node g ` set ks)" using mg(3) by (auto simp: whites_def)
  moreover have "buffer_ok gs ks U'" "same_entries g gs" using skel_buffer [OF sk] M(1,3) same_entries_trans by auto
  moreover have "zval_to_free gs = zval_to_free g" using skel_bufs(7) [OF sk] M(4) by simp
  moreover have "\<forall>i\<in>set ks. addr gs (root_node g i) = Root i" "\<forall>n\<in>nodes g. addr gs n = GC_NULL \<or> n \<in> root_node g ` set ks"
    using M(8,9) S(4) by simp_all
  moreover have "\<forall>n. n \<notin> ?W \<longrightarrow> col gs n = GC_BLACK \<or> col gs n = GC_PURPLE" using sc(1) by blast
  moreover have "\<forall>n\<in>?W. ext n = 0 \<and> (\<forall>a\<in>nodes g. n \<in> set (sc g a) \<longrightarrow> a \<in> ?W)" by (intro ballI w2)
  moreover have "\<forall>n. \<not> glb g n \<longrightarrow> cnt gs n = cnt g n - of_nat (refs (sc g) ?W n)" using w3 by blast
  ultimately have "scanned g ext L ks U' gs"
    unfolding scanned_def WG [symmetric] using gg mg(5) sc(2) by (intro conjI) assumption+
  then show ?thesis using gm by blast
qed

text \<open>What all three phases have done, when \<open>W\<close> is the garbage.\<close>

definition found :: "gc_state \<Rightarrow> node set \<Rightarrow> ptr list \<Rightarrow> nat list \<Rightarrow> gc_state \<Rightarrow> bool" where
  "found g W ps U g' \<longleftrightarrow> same_graph g g' \<and> buffer_ok g' [] U \<and>
     distinct ps \<and> (\<forall>p. p \<in> set ps \<longleftrightarrow> Val p \<in> W) \<and> to_free g' (zval_to_free g') ps \<and>
     (\<forall>p. Val p \<in> nodes g \<longrightarrow> \<not> glb g (Val p) \<longrightarrow> cnt g' (Val p) = cnt g (Val p) + (if Val p \<in> W then 1 else 0)) \<and>
     (\<forall>h. Obj h \<in> nodes g \<longrightarrow> cnt g' (Obj h) = cnt g (Obj h) - of_nat (refs (sc g) W (Obj h))) \<and>
     (\<forall>n\<in>nodes g. col g' n = GC_BLACK \<or> col g' n = GC_PURPLE) \<and> (\<forall>n\<in>nodes g - W. addr g' n = GC_NULL)"

lemma phases_find:
  assumes r: "gc_ready g L U" and ce: "counts_exact (sc g) (glb g) (nodes g) ext (cnt g)" and fuel: "2 * card (dom (zvals g)) < fuel"
    and z: "zval_to_free g = FREE_LIST_END"
  shows "\<exists>gm gs g' U' ps. gc_mark_roots fuel g = Some gm \<and> gc_scan_roots fuel gm = Some gs \<and> gc_collect_roots fuel gs = Some g' \<and>
    found g (garbage g ext L) ps U' g' \<and> (\<forall>n\<in>garbage g ext L. ext n = 0 \<and> (\<forall>a\<in>nodes g. n \<in> set (sc g a) \<longrightarrow> a \<in> garbage g ext L))"
proof -
  obtain gm gs ks Us where gm: "gc_mark_roots fuel g = Some gm" "gc_scan_roots fuel gm = Some gs" and sd: "scanned g ext L ks Us gs"
    using scanned_ok [OF r ce fuel] by blast
  note S = scannedD [OF sd] and E = same_graphD [OF scannedD(1) [OF sd]] and R = gc_readyD [OF r]
  have rn: "root_node gs = root_node g" using same_entries_node [OF S(2)] by (simp add: fun_eq_iff)
  have ksr: "root_node gs j \<in> nodes gs \<and> addr gs (root_node gs j) = Root j" if "j \<in> set ks" for j
    using R(5) [of j] S(6,7) that by (auto simp: rn E)
  have f1: "card (dom (zvals gs)) < fuel" using fuel E(4) by simp
  obtain g' U' D ps where g': "gc_collect_roots fuel gs = Some g'" and ci: "collect_inv gs ks [] U' D ps g'"
    using collect_roots_ok [OF S(3) ksr S(5) f1] S(4) z by auto
  let ?W = "garbage g ext L"
  have ads: "addr gs n = GC_NULL \<or> n \<in> root_node gs ` set ks" if "n \<in> nodes gs" for n using S(8) that by (simp add: rn E)
  have DW: "D = ?W"
  proof (rule collect_all [OF ci _ ads, of ?W])
    show "heap_closed gs" using S(5) by (simp add: collectable_def)
    show "?W = {n \<in> nodes gs. col gs n = GC_WHITE}" using S(9) by (simp add: E)
    show "a \<in> ?W" if "n \<in> ?W" "a \<in> nodes gs" "n \<in> set (sc gs a)" for n a using S(13) [OF that(1), of a] that(2,3) by (simp add: E)
    show "?W \<subseteq> (edges (sc gs))\<^sup>* `` (root_node gs ` set ks)" using S(11) by (simp add: rn E)
    show "root_node gs j \<in> nodes gs" if "j \<in> set ks" for j using ksr [OF that] by blast
  qed
  note I = collect_invD [OF ci, unfolded DW E rn]
  have c1: "cnt g' (Val p) = cnt g (Val p) + (if Val p \<in> ?W then 1 else 0)" if "\<not> glb g (Val p)" for p
    using I(9) [of p] S(14) [OF that] that by simp
  have c2: "cnt g' (Obj h) = cnt g (Obj h) - of_nat (refs (sc g) ?W (Obj h))" for h
    using I(10) [of h] S(14) [of "Obj h"] by (simp add: glb_def)
  have c3: "col g' n = GC_BLACK \<or> col g' n = GC_PURPLE" for n
    using I(6) [of n] I(7) [of n] S(10) [of n] by (cases "n \<in> ?W"; cases n) auto
  have c4: "addr g' n = GC_NULL" if "n \<in> nodes g - ?W" for n
    using I(7) [of n] that S(8) [of n] by auto
  have "found g ?W ps U' g'"
    unfolding found_def using I(1,14,15,16) c1 c2 c3 c4 same_graph_trans [OF S(1) I(2)] by (intro conjI allI ballI impI) (assumption | blast)+
  then show ?thesis using gm g' S(12,13) by blast
qed

lemma find_ok:
  assumes r: "gc_ready g L U" and ce: "counts_exact (sc g) (glb g) (nodes g) ext (cnt g)" and fuel: "2 * card (dom (zvals g)) < fuel"
  shows "\<exists>g' U' ps. gc_find_garbage fuel g = Some g' \<and> found g (garbage g ext L) ps U' g' \<and>
    (\<forall>n\<in>garbage g ext L. ext n = 0 \<and> (\<forall>a\<in>nodes g. n \<in> set (sc g a) \<longrightarrow> a \<in> garbage g ext L))"
proof -
  let ?g = "g\<lparr>gc_runs := gc_runs g + 1, zval_to_free := FREE_LIST_END, gc_active := True\<rparr>"
  note v = values_eq [of ?g g, simplified]
  have b: "gc_ready ?g L U" "root_node ?g = root_node g" using ready_cong(1) [of ?g g L U] ready_cong(2) [of ?g g] r by (simp_all add: bufs_def)
  have W: "garbage ?g ext L = garbage g ext L" by (simp add: garbage_def anchored_def candidates_def v b(2))
  have F: "found ?g W ps U' g' = found g W ps U' g'" for W ps U' g'
    using v by (simp add: found_def same_graph_def)
  have p: "counts_exact (sc ?g) (glb ?g) (nodes ?g) ext (cnt ?g)" "2 * card (dom (zvals ?g)) < fuel" "zval_to_free ?g = FREE_LIST_END"
    using ce fuel by (simp_all add: v)
  obtain gm gs g' U' ps where g': "gc_mark_roots fuel ?g = Some gm" "gc_scan_roots fuel gm = Some gs" "gc_collect_roots fuel gs = Some g'"
      "found g (garbage g ext L) ps U' g'" "\<forall>n\<in>garbage g ext L. ext n = 0 \<and> (\<forall>a\<in>nodes g. n \<in> set (sc g a) \<longrightarrow> a \<in> garbage g ext L)"
    using phases_find [OF b(1) p] unfolding W F v by blast
  then have "gc_find_garbage fuel g = Some g'" by (simp add: gc_find_garbage_def Let_def)
  then show ?thesis using g'(4,5) by blast
qed

section \<open>The list of zvals to free is destroyed and freed\<close>

text \<open>
  The zvals \<open>ps\<close> are on the list, and the handles in them are handles of objects.
\<close>

definition doomed :: "gc_state \<Rightarrow> ptr list \<Rightarrow> bool" where
  "doomed g ps \<longleftrightarrow> to_free g (free_list g) ps \<and> distinct ps \<and> object_buckets g \<noteq> None \<and>
     (\<forall>p\<in>set ps. \<forall>z h. zvals g p = Some z \<longrightarrow> z_value z = IS_OBJECT h \<longrightarrow> obj_at g h \<noteq> None)"

definition keeps :: "ptr list \<Rightarrow> (gc_state \<Rightarrow> gc_state option) \<Rightarrow> gc_state \<Rightarrow> bool" where
  "keeps ps f g \<longleftrightarrow> (\<exists>g'. f g = Some g' \<and> doomed g' ps \<and> next_to_free g' = next_to_free g \<and> (\<forall>h. obj_at g h \<noteq> None \<longrightarrow> obj_at g' h \<noteq> None))"

text \<open>What a collection relies on: what it calls returns, and leaves the list of zvals to free as it is.\<close>

definition list_safe :: "gc_handlers \<Rightarrow> bool" where
  "list_safe H \<longleftrightarrow> (\<forall>ps g. doomed g ps \<longrightarrow>
     (\<forall>h. keeps ps (h_dtor H h) g) \<and> (\<forall>h. keeps ps (h_del_ref H h) g) \<and> (\<forall>qs. keeps ps (h_hash_destroy H qs) g) \<and>
     (\<forall>p. keeps ps (h_zval_dtor H p) g))"

lemma keepsE:
  assumes "keeps ps f g"
  obtains g' where "f g = Some g'" "doomed g' ps" "next_to_free g' = next_to_free g" "\<forall>h. obj_at g h \<noteq> None \<longrightarrow> obj_at g' h \<noteq> None"
  using assms by (auto simp: keeps_def)

lemma keeps_bind:
  assumes "keeps ps f g" "\<And>g'. f g = Some g' \<Longrightarrow> doomed g' ps \<Longrightarrow> \<forall>h. obj_at g h \<noteq> None \<longrightarrow> obj_at g' h \<noteq> None \<Longrightarrow> keeps ps k g'"
  shows "keeps ps (\<lambda>g. Option.bind (f g) k) g"
proof -
  obtain g1 where g1: "f g = Some g1" "doomed g1 ps" "next_to_free g1 = next_to_free g" "\<forall>h. obj_at g h \<noteq> None \<longrightarrow> obj_at g1 h \<noteq> None"
    using assms(1) by (rule keepsE)
  obtain g2 where "k g1 = Some g2" "doomed g2 ps" "next_to_free g2 = next_to_free g1" "\<forall>h. obj_at g1 h \<noteq> None \<longrightarrow> obj_at g2 h \<noteq> None"
    using assms(2) [OF g1(1,2,4)] by (rule keepsE)
  then show ?thesis using g1 by (auto simp: keeps_def)
qed

lemma keeps_id: "doomed g ps \<Longrightarrow> keeps ps Some g"
  by (simp add: keeps_def)

lemma to_free_zvals:
  assumes "\<And>p. map_option u (zvals g' p) = map_option u (zvals g p)"
  shows "to_free g' a ps = to_free g a ps"
proof (rule to_free_cong)
  show "ref_at g' (Val p) = ref_at g (Val p)" for p using assms [of p] by (simp add: ref_at_def)
qed

lemma keeps_opoke:
  assumes d: "doomed g ps" and o: "obj_at g h \<noteq> None"
  shows "keeps ps (opoke h f) g"
proof -
  obtain m ob where m: "object_buckets g = Some m" "m h = Some ob" using o by (auto simp: obj_at_def split: bind_splits)
  let ?g = "g\<lparr>object_buckets := Some (m(h \<mapsto> f ob))\<rparr>"
  have "obj_at ?g k \<noteq> None" if "obj_at g k \<noteq> None" for k using that m by (simp add: obj_at_def)
  moreover from this have "doomed ?g ps"
    using d to_free_zvals [of ?g g "free_list g" ps] by (auto simp: doomed_def)
  ultimately show ?thesis using m by (simp add: keeps_def opoke_def poke_def)
qed

lemma doomed_zval: "doomed g ps \<Longrightarrow> p \<in> set ps \<Longrightarrow> \<exists>z a. zvals g p = Some z \<and> u z = plain a"
  using to_free_refs [of g "free_list g" ps p] by (auto simp: doomed_def ref_at_def)

lemma keeps_null:
  assumes d: "doomed g ps" and p: "p \<in> set ps"
  shows "keeps ps (set_null p) g"
proof -
  obtain z where z: "zvals g p = Some z" using doomed_zval [OF d p] by blast
  let ?g = "g\<lparr>zvals := (zvals g)(p \<mapsto> z\<lparr>z_value := IS_NULL\<rparr>)\<rparr>"
  have o: "obj_at ?g = obj_at g" by (simp add: obj_at_def fun_eq_iff)
  have "doomed ?g ps"
    using d z o to_free_zvals [of ?g g "free_list g" ps] by (auto simp: doomed_def split: if_splits)
  then show ?thesis using z o by (simp add: keeps_def set_null_def zpoke_def poke_def)
qed

lemma gc_call_destructor_keeps:
  assumes H: "list_safe H" and d: "doomed g ps" and o: "obj_at g h \<noteq> None"
  shows "keeps ps (gc_call_destructor H h) g"
proof -
  obtain ob where ob: "obj_at g h = Some ob" using o by blast
  have nb: "object_buckets g \<noteq> None" using d by (simp add: doomed_def)
  let ?b = "\<lambda>g. opoke h (\<lambda>obj. obj\<lparr>obj_destructor_called := True\<rparr>) g \<bind> (\<lambda>g. obj_refcount_add 1 h g \<bind> (\<lambda>g. h_dtor H h g \<bind> obj_refcount_add (- 1) h))"
  have "keeps ps ?b g"
  proof (rule keeps_bind [OF keeps_opoke [OF d o]])
    fix g1 assume g1: "doomed g1 ps" "\<forall>k. obj_at g k \<noteq> None \<longrightarrow> obj_at g1 k \<noteq> None"
    show "keeps ps (\<lambda>g. obj_refcount_add 1 h g \<bind> (\<lambda>g. h_dtor H h g \<bind> obj_refcount_add (- 1) h)) g1"
      unfolding obj_refcount_add_def
    proof (rule keeps_bind [OF keeps_opoke [OF g1(1)]])
      show o1: "obj_at g1 h \<noteq> None" using g1(2) o by blast
      fix g2 assume g2: "doomed g2 ps" "\<forall>k. obj_at g1 k \<noteq> None \<longrightarrow> obj_at g2 k \<noteq> None"
      show "keeps ps (\<lambda>g. h_dtor H h g \<bind> opoke h (\<lambda>obj. obj\<lparr>obj_refcount := obj_refcount obj + - 1\<rparr>)) g2"
      proof (rule keeps_bind)
        show "keeps ps (h_dtor H h) g2" using H g2(1) by (simp add: list_safe_def)
        show "keeps ps (opoke h (\<lambda>obj. obj\<lparr>obj_refcount := obj_refcount obj + - 1\<rparr>)) g3"
          if "doomed g3 ps" "\<forall>k. obj_at g2 k \<noteq> None \<longrightarrow> obj_at g3 k \<noteq> None" for g3
          using keeps_opoke [OF that(1)] that(2) g2(2) o1 by blast
      qed
    qed
  qed
  then show ?thesis
    using ob nb keeps_id [OF d] unfolding keeps_def gc_call_destructor_def by auto
qed

lemma destroy_keeps:
  assumes H: "list_safe H" and d: "doomed g ps" and p: "p \<in> set ps" and o: "\<And>h. v = IS_OBJECT h \<Longrightarrow> obj_at g h \<noteq> None"
  shows "keeps ps (destroy_zval H p v) g"
proof (cases v)
  case IS_NULL
  have "keeps ps (\<lambda>g. h_zval_dtor H p g \<bind> set_null p) g"
    using H d by (intro keeps_bind) (simp add: list_safe_def, rule keeps_null [OF _ p])
  then show ?thesis by (simp add: IS_NULL destroy_zval_def keeps_def)
next
  case IS_OTHER
  have "keeps ps (\<lambda>g. h_zval_dtor H p g \<bind> set_null p) g"
    using H d by (intro keeps_bind) (simp add: list_safe_def, rule keeps_null [OF _ p])
  then show ?thesis by (simp add: IS_OTHER destroy_zval_def keeps_def)
next
  case (IS_ARRAY st qs)
  have "keeps ps (\<lambda>g. set_null p g \<bind> h_hash_destroy H qs) g"
    using H by (intro keeps_bind keeps_null [OF d p]) (simp add: list_safe_def)
  then show ?thesis by (simp add: IS_ARRAY destroy_zval_def keeps_def)
next
  case (IS_OBJECT h)
  obtain ob where ob: "obj_at g h = Some ob" using o [OF IS_OBJECT] by blast
  have nb: "object_buckets g \<noteq> None" using d by (simp add: doomed_def)
  have "keeps ps (\<lambda>g. opoke h (\<lambda>obj. obj\<lparr>obj_refcount := 1\<rparr>) g \<bind> (\<lambda>g. set_null p g \<bind> h_del_ref H h)) g"
  proof (rule keeps_bind [OF keeps_opoke [OF d o [OF IS_OBJECT]]])
    show "keeps ps (\<lambda>g. set_null p g \<bind> h_del_ref H h) g1" if "doomed g1 ps" for g1
      using H by (intro keeps_bind keeps_null [OF that p]) (simp add: list_safe_def)
  qed
  then show ?thesis using ob nb keeps_id [OF d] unfolding keeps_def IS_OBJECT destroy_zval_def by auto
qed

text \<open>The cursor follows the list.\<close>

lemma to_free_cursor: "to_free g a ps \<Longrightarrow> zval_cursor a = Some (first_of ps)"
  by (cases ps) (auto simp: zval_cursor_def)

lemma to_free_suffix: "to_free g a (qs @ ps) \<Longrightarrow> \<exists>b. to_free g b ps"
  by (induction qs arbitrary: a) auto

lemma doomed_next:
  assumes "doomed g (qs @ p # ps)"
  shows "\<exists>z a. zvals g p = Some z \<and> u_next (u z) = Some a \<and> zval_cursor a = Some (first_of ps)"
proof -
  obtain b where "to_free g b (p # ps)" using to_free_suffix assms unfolding doomed_def by blast
  then obtain z a where "zvals g p = Some z" "u z = plain a" "to_free g a ps" by (auto simp: ref_at_def)
  then show ?thesis using to_free_cursor by (auto simp: u_next_def plain_def)
qed

lemma destructors_run:
  assumes H: "list_safe H" and d: "doomed g ps"
  shows "\<exists>g'. iterate (destructor_step H) (first_of ps) (c, g) = Some (c + of_nat (length ps), g') \<and> doomed g' ps"
proof -
  let ?I = "\<lambda>xs (k, g). \<exists>qs. ps = qs @ xs \<and> k = c + of_nat (length qs) \<and> doomed g ps"
  have "\<exists>s. iterate (destructor_step H) (first_of ps) (c, g) = Some s \<and> fst s = c + of_nat (length ps) \<and> doomed (snd s) ps"
  proof (rule iterate_rule [where I = ?I])
    fix p xs s assume "?I (p # xs) s"
    then obtain k g qs where s: "s = (k, g)" "ps = qs @ p # xs" "k = c + of_nat (length qs)" "doomed g ps" by (cases s) auto
    obtain z where z: "zvals g p = Some z" using doomed_next [of g qs p xs] s by auto
    have "keeps ps (\<lambda>g. case z_value z of IS_OBJECT h \<Rightarrow> gc_call_destructor H h g | _ \<Rightarrow> Some g) g"
    proof (cases "z_value z")
      case (IS_OBJECT h)
      have "obj_at g h \<noteq> None" using s z IS_OBJECT by (auto simp: doomed_def)
      then show ?thesis using gc_call_destructor_keeps [OF H s(4)] IS_OBJECT by simp
    qed (use keeps_id [OF s(4)] in \<open>simp_all add: keeps_def\<close>)
    then obtain g1 where g1: "(case z_value z of IS_OBJECT h \<Rightarrow> gc_call_destructor H h g | _ \<Rightarrow> Some g) = Some g1" "doomed g1 ps" by (rule keepsE)
    obtain z1 a where "zvals g1 p = Some z1" "u_next (u z1) = Some a" "zval_cursor a = Some (first_of xs)"
      using doomed_next g1(2) unfolding s(2) by blast
    then have "destructor_step H p s = Some ((k + 1, g1), first_of xs)" using z g1(1) by (simp add: destructor_step_def s(1))
    moreover have "?I xs (k + 1, g1)" using s g1(2) by (auto intro!: exI [of _ "qs @ [p]"])
    ultimately show "\<exists>s' n. destructor_step H p s = Some (s', n) \<and>
        (n = None \<and> fst s' = c + of_nat (length ps) \<and> doomed (snd s') ps \<or> n = first_of xs \<and> ?I xs s')" by blast
  qed (use d in auto)
  then show ?thesis by auto
qed

lemma destroy_run:
  assumes H: "list_safe H" and d: "doomed g ps"
  shows "\<exists>g'. iterate (destroy_step H) (first_of ps) g = Some g' \<and> doomed g' ps"
proof (rule iterate_rule [where I = "\<lambda>xs g. doomed g ps \<and> (\<exists>qs. ps = qs @ xs)"])
  fix p xs g assume "doomed g ps \<and> (\<exists>qs. ps = qs @ p # xs)"
  then obtain qs where s: "doomed g ps" "ps = qs @ p # xs" by blast
  obtain z a where z: "zvals g p = Some z" "u_next (u z) = Some a" "zval_cursor a = Some (first_of xs)"
    using doomed_next s by blast
  let ?g = "g\<lparr>next_to_free := a\<rparr>"
  have d1: "doomed ?g ps" using s(1) to_free_zvals [of ?g g "free_list g" ps] by (simp add: doomed_def obj_at_def)
  have "keeps ps (destroy_zval H p (z_value z)) ?g"
    by (rule destroy_keeps [OF H d1]) (use s z in \<open>auto simp: doomed_def obj_at_def\<close>)
  then obtain g1 where g1: "destroy_zval H p (z_value z) ?g = Some g1" "doomed g1 ps" "next_to_free g1 = next_to_free ?g" by (rule keepsE)
  then have "destroy_step H p g = Some (g1, first_of xs)" using z by (simp add: destroy_step_def)
  then show "\<exists>s' n. destroy_step H p g = Some (s', n) \<and> (n = None \<and> doomed s' ps \<or> n = first_of xs \<and> doomed s' ps \<and> (\<exists>qs. ps = qs @ xs))"
    using g1(2) s(2) by (metis append.assoc append_Cons append_Nil)
qed (use d in auto)

lemma free_run:
  assumes d: "to_free g a ps" "distinct ps"
  shows "iterate free_step (first_of ps) g = Some (g\<lparr>zvals := (zvals g) |` (- set ps)\<rparr>)"
  using d
proof (induction ps arbitrary: g a)
  case (Cons p ps)
  obtain z b where z: "zvals g p = Some z" "u z = plain b" "to_free g b ps" using Cons.prems by (auto simp: ref_at_def)
  let ?g = "g\<lparr>zvals := (zvals g)(p := None)\<rparr>"
  have st: "free_step p g = Some (?g, first_of ps)" using z to_free_cursor [OF z(3)] by (simp add: free_step_def u_next_def plain_def)
  have "to_free ?g b ps = to_free g b ps" by (rule to_free_cong) (use Cons.prems in \<open>auto simp: ref_at_def\<close>)
  then have "iterate free_step (first_of ps) ?g = Some (?g\<lparr>zvals := (zvals ?g) |` (- set ps)\<rparr>)"
    by (intro Cons.IH [of ?g b]) (use z(3) Cons.prems(2) in simp_all)
  moreover have e: "((zvals g)(p := None)) |` (- set ps) = (zvals g) |` (- set (p # ps))" by (auto simp: restrict_map_def fun_eq_iff)
  have "?g\<lparr>zvals := (zvals ?g) |` (- set ps)\<rparr> = g\<lparr>zvals := (zvals g) |` (- set (p # ps))\<rparr>" unfolding e [symmetric] by simp
  ultimately show ?case using st by (simp only: first_of_simps iterate_Some bind.bind_lunit prod.case)
qed (simp add: restrict_map_def)

section \<open>What the phases leave alone\<close>

definition rest_of where
  "rest_of g = (free_list g, next_to_free g, gc_enabled g, gc_active g, gc_runs g, gc_collected g)"

definition aside :: "(gc_state \<Rightarrow> gc_state option) \<Rightarrow> bool" where
  "aside f \<longleftrightarrow> (\<forall>g g'. f g = Some g' \<longrightarrow> rest_of g' = rest_of g)"

named_theorems aside_intros

lemma aside_simple [aside_intros]:
  shows "aside Some" "aside (\<lambda>_. None)" "aside (zpoke p f)" "aside (opoke h f')" "aside (rpoke i f'')"
  by (auto simp: aside_def rest_of_def zpoke_def opoke_def rpoke_def split: bind_splits)

lemma aside_bind [aside_intros]: "aside f \<Longrightarrow> aside k \<Longrightarrow> aside (\<lambda>g. Option.bind (f g) k)"
  by (auto simp: aside_def split: bind_splits)

lemma aside_read [aside_intros]: "(\<And>x. aside (k x)) \<Longrightarrow> aside (\<lambda>g. Option.bind (r g) (\<lambda>x. k x g))"
  by (auto simp: aside_def split: bind_splits)

lemma aside_if [aside_intros]: "aside f \<Longrightarrow> aside k \<Longrightarrow> aside (\<lambda>g. if b g then f g else k g)"
  by (auto simp: aside_def)

lemma aside_value [aside_intros]:
  "aside a \<Longrightarrow> aside b \<Longrightarrow> (\<And>st ps. aside (c st ps)) \<Longrightarrow> (\<And>h. aside (d h)) \<Longrightarrow>
   aside (\<lambda>g. case v of IS_NULL \<Rightarrow> a g | IS_OTHER \<Rightarrow> b g | IS_ARRAY st ps \<Rightarrow> c st ps g | IS_OBJECT h \<Rightarrow> d h g)"
  by (cases v) simp_all

lemma aside_option [aside_intros]: "aside a \<Longrightarrow> (\<And>x. aside (b x)) \<Longrightarrow> aside (\<lambda>g. case v g of None \<Rightarrow> a g | Some x \<Rightarrow> b x g)"
  by (auto simp: aside_def split: option.splits)

lemma aside_pair [aside_intros]: "(\<And>x y. aside (b x y)) \<Longrightarrow> aside (\<lambda>g. case v of (x, y) \<Rightarrow> b x y g)"
  by (cases v) simp

lemma aside_foldo [aside_intros]:
  assumes "\<And>p. aside (f p)"
  shows "aside (foldo f ps)"
proof (induction ps)
  case (Cons p ps)
  then show ?case using assms [of p] by (auto simp: aside_def split: bind_splits)
qed (simp add: aside_def)

lemma aside_refcount [aside_intros]: "aside (zval_refcount_add d p)" "aside (obj_refcount_add d h)" "aside (obj_set_color c h)"
    "aside (GC_ZVAL_SET_BLACK p)" "aside (GC_ZVAL_SET_COLOR c p)" "aside (GC_ZVAL_SET_ADDRESS a p)"
  unfolding zval_refcount_add_def obj_refcount_add_def obj_set_color_def GC_ZVAL_SET_BLACK_def GC_ZVAL_SET_COLOR_def GC_ZVAL_SET_ADDRESS_def
  by (intro aside_intros)+

lemma aside_props [aside_intros]: "(\<And>p. aside (f p)) \<Longrightarrow> aside (gc_props f ob)"
  unfolding gc_props_def by (intro aside_intros)

lemma zval_scan_black_aside [aside_intros]: "aside (zval_scan_black fuel p)"
proof (induction fuel arbitrary: p)
  case 0
  then show ?case by (simp add: aside_def)
next
  case (Suc fuel)
  show ?case unfolding zval_scan_black.simps black_child_def object_scan_black_def by (intro aside_intros Suc)
qed

lemma zobj_scan_black_aside [aside_intros]: "aside (zobj_scan_black fuel h)"
  unfolding zobj_scan_black_def object_scan_black_def black_child_def by (intro aside_intros)

lemma zval_mark_grey_aside [aside_intros]: "aside (zval_mark_grey fuel p)"
proof (induction fuel arbitrary: p)
  case (Suc fuel)
  show ?case unfolding zval_mark_grey.simps grey_child_def object_mark_grey_def by (intro aside_intros Suc)
qed (simp add: aside_def)

lemma zobj_mark_grey_aside [aside_intros]: "aside (zobj_mark_grey fuel h)"
  unfolding zobj_mark_grey_def object_mark_grey_def grey_child_def by (intro aside_intros)

lemma zval_scan_aside [aside_intros]: "aside (zval_scan fuel p)"
proof (induction fuel arbitrary: p)
  case (Suc fuel)
  show ?case unfolding zval_scan.simps object_scan_def by (intro aside_intros Suc)
qed (simp add: aside_def)

lemma zobj_scan_aside [aside_intros]: "aside (zobj_scan fuel h)"
  unfolding zobj_scan_def object_scan_def by (intro aside_intros)

lemma put_to_free_aside [aside_intros]: "aside (put_to_free p)"
  by (auto simp: aside_def rest_of_def put_to_free_def zpoke_def split: bind_splits)

lemma zval_collect_white_aside [aside_intros]: "aside (zval_collect_white fuel p)"
proof (induction fuel arbitrary: p)
  case (Suc fuel)
  show ?case unfolding zval_collect_white.simps white_child_def Let_def by (intro aside_intros Suc)
qed (simp add: aside_def)

lemma zobj_collect_white_aside [aside_intros]: "aside (zobj_collect_white fuel h)"
  unfolding zobj_collect_white_def white_child_def by (intro aside_intros)

lemma remove_aside [aside_intros]: "aside (gc_remove_from_buffer i)"
  by (auto simp: aside_def rest_of_def gc_remove_from_buffer_def rpoke_def split: bind_splits option.splits)

lemma roots_step_aside:
  shows "mark_root fuel i g = Some (g', n) \<Longrightarrow> rest_of g' = rest_of g" "scan_root fuel i g = Some (g', n) \<Longrightarrow> rest_of g' = rest_of g"
    "collect_root fuel i g = Some (g', n) \<Longrightarrow> rest_of g' = rest_of g"
proof -
  have out: "f g = Some g1 \<Longrightarrow> aside f \<Longrightarrow> rest_of g1 = rest_of g" for f g g1 by (simp add: aside_def)
  show "rest_of g' = rest_of g" if "mark_root fuel i g = Some (g', n)"
    using that by (auto simp: mark_root_def split: bind_splits if_splits dest!: out intro!: aside_intros)
  show "rest_of g' = rest_of g" if "scan_root fuel i g = Some (g', n)"
    using that by (auto simp: scan_root_def split: bind_splits if_splits dest!: out intro!: aside_intros)
  show "rest_of g' = rest_of g" if "collect_root fuel i g = Some (g', n)"
    using that by (auto simp: collect_root_def split: bind_splits if_splits dest!: out intro!: aside_intros)
qed

lemma roots_aside: "aside (gc_mark_roots fuel)" "aside (gc_scan_roots fuel)" "aside (gc_collect_roots fuel)"
proof -
  have it: "aside (\<lambda>g. iterate body (roots_next g) g)" if "\<And>i g g' n. body i g = Some (g', n) \<Longrightarrow> rest_of g' = rest_of g"
    for body :: "nat \<Rightarrow> gc_state \<Rightarrow> (gc_state \<times> nat option) option"
    unfolding aside_def
  proof (intro allI impI)
    fix g g' assume "iterate body (roots_next g) g = Some g'"
    then show "rest_of g' = rest_of g" by (rule iterate_preserves [where Q = "\<lambda>s. rest_of s = rest_of g"]) (use that in simp_all)
  qed
  show "aside (gc_mark_roots fuel)" "aside (gc_scan_roots fuel)" "aside (gc_collect_roots fuel)"
    unfolding gc_mark_roots_def gc_scan_roots_def gc_collect_roots_def by (intro it roots_step_aside, assumption)+
qed

lemma find_rest: "gc_find_garbage fuel g = Some g' \<Longrightarrow> free_list g' = free_list g \<and> next_to_free g' = next_to_free g \<and> gc_collected g' = gc_collected g"
  using roots_aside [of fuel] by (auto simp: gc_find_garbage_def aside_def rest_of_def Let_def split: bind_splits)

section \<open>A whole collection\<close>

lemma found_doomed:
  assumes f: "found g W ps U g1" and h: "heap_closed g" "object_buckets g \<noteq> None"
  shows "doomed (g1\<lparr>free_list := zval_to_free g1, zval_to_free := a, gc_active := False\<rparr>) ps"
proof -
  let ?g = "g1\<lparr>free_list := zval_to_free g1, zval_to_free := a, gc_active := False\<rparr>"
  have F: "same_graph g g1" "distinct ps" "to_free g1 (zval_to_free g1) ps" using f by (simp_all add: found_def)
  have h1: "heap_closed g1" "object_buckets g1 \<noteq> None" using same_graph_closed [OF F(1)] same_graphD(5) [OF F(1)] h by simp_all
  have "obj_at g1 k \<noteq> None" if "zvals g1 p = Some z" "z_value z = IS_OBJECT k" for p z k
  proof -
    have "Obj k \<in> set (sc g1 (Val p))" using that h1(2) by (simp add: sc_def)
    then have "Obj k \<in> nodes g1" using closed_sc [OF h1(1), of "Val p"] that(1) by (auto simp: nodes_val)
    then show ?thesis by (simp add: nodes_obj)
  qed
  then have "obj_at ?g k \<noteq> None" if "zvals ?g p = Some z" "z_value z = IS_OBJECT k" for p z k using that by (simp add: obj_at_def)
  moreover have "to_free ?g (free_list ?g) ps" using F(3) to_free_zvals [of ?g g1] by simp
  ultimately show ?thesis using F(2) h1(2) by (simp add: doomed_def)
qed

lemma cycles_ok:
  assumes H: "list_safe H" and r: "gc_ready g L U" "L \<noteq> []" "\<not> gc_active g" and f: "gc_find_garbage fuel g = Some g1" "found g W ps V g1"
  shows "\<exists>g'. gc_collect_cycles H fuel g = Some (of_nat (length ps), g') \<and> (\<forall>p\<in>set ps. zvals g' p = None) \<and>
    free_list g' = free_list g \<and> next_to_free g' = next_to_free g"
proof -
  note R = gc_readyD [OF r(1)]
  have ne: "roots_next g \<noteq> None" using R(3) r(2) by (cases L) (auto simp: buffer_ok_def root_list_def)
  let ?g = "g1\<lparr>free_list := zval_to_free g1, zval_to_free := GC_NULL, gc_active := False\<rparr>"
  have d: "doomed ?g ps" by (rule found_doomed [OF f(2) R(1,2)])
  have cur: "zval_cursor (free_list g) = Some (first_of ps)" if "doomed g ps" for g using that to_free_cursor by (auto simp: doomed_def)
  obtain g2 where g2: "iterate (destructor_step H) (first_of ps) (0, ?g) = Some (of_nat (length ps), g2)" "doomed g2 ps"
    using destructors_run [OF H d, of 0] by auto
  obtain g3 where g3: "iterate (destroy_step H) (first_of ps) g2 = Some g3" "doomed g3 ps" using destroy_run [OF H g2(2)] by blast
  have g4: "iterate free_step (first_of ps) g3 = Some (g3\<lparr>zvals := (zvals g3) |` (- set ps)\<rparr>)"
    using free_run g3(2) by (auto simp: doomed_def)
  let ?h = "g3\<lparr>zvals := (zvals g3) |` (- set ps)\<rparr>"
  have "gc_collect_cycles H fuel g = Some (of_nat (length ps), ?h\<lparr>gc_collected := gc_collected ?h + of_nat (length ps), free_list := free_list g1, next_to_free := next_to_free g1\<rparr>)"
    unfolding gc_collect_cycles_def using ne r(3) f(1) cur [OF d] g2(1) cur [OF g2(2)] g3(1) cur [OF g3(2)] g4 by (auto simp: Let_def)
  then show ?thesis using find_rest [OF f(1)] by simp
qed

section \<open>An example\<close>

text \<open>
  The zval 1 is an array that holds itself and the zval 2, nothing else refers to it, and it is in the buffer; the zval 2 has another
  reference.
\<close>

definition gc_demo :: gc_state where
  "gc_demo = \<lparr>gc_enabled = True, gc_active = False, gc_buf = True, roots_next = Some 0, roots_prev = Some 0, unused = None,
     first_unused = 1, last_unused = 3, zval_to_free = GC_NULL, free_list = GC_NULL, next_to_free = GC_NULL, gc_runs = 0, gc_collected = 0,
     root_bufs = [0 \<mapsto> \<lparr>rb_prev = None, rb_next = None, rb_handle = 0, rb_pz = 1\<rparr>],
     zvals = [1 \<mapsto> \<lparr>z_value = IS_ARRAY False [1, 2], refcount__gc = 1, u = \<lparr>GC_ADDRESS = Root 0, GC_GET_COLOR = GC_PURPLE\<rparr>\<rparr>,
              2 \<mapsto> \<lparr>z_value = IS_OTHER, refcount__gc = 2, u = plain GC_NULL\<rparr>],
     object_buckets = Some Map.empty\<rparr>"

definition demo_ext :: "node \<Rightarrow> nat" where
  "demo_ext n = (if n = Val 2 then 1 else 0)"

definition no_handlers :: gc_handlers where
  "no_handlers = \<lparr>h_dtor = \<lambda>_ g. Some g, h_del_ref = \<lambda>_ g. Some g, h_hash_destroy = \<lambda>_ g. Some g, h_zval_dtor = \<lambda>_ g. Some g\<rparr>"

lemma no_handlers_safe: "list_safe no_handlers"
  by (simp add: list_safe_def no_handlers_def keeps_def)

lemma demo_nodes: "nodes gc_demo = {Val 1, Val 2}" "dom (zvals gc_demo) = {1, 2}"
  by (auto simp: nodes_def gc_demo_def obj_at_def)

lemma demo_ready: "gc_ready gc_demo [0] []"
  unfolding gc_ready_def heap_closed_def demo_nodes
  by (auto simp: gc_demo_def sc_def buffer_ok_def root_list_def linked_def root_node_def addr_def col_def ref_at_def plain_def fld_def)

lemma demo_counts: "counts_exact (sc gc_demo) (glb gc_demo) (nodes gc_demo) demo_ext (cnt gc_demo)"
  unfolding counts_exact_def demo_nodes by (simp add: refs_def gc_demo_def sc_def cnt_def demo_ext_def)

section \<open>Properties\<close>

text \<open>
  C5: The collector finds exactly the garbage. Let every count be the number of references to the value, \<open>ext n\<close> of them from
  outside of the heap. If the recursion may be twice as deep as there are zvals, the three phases (\<^verbatim>\<open>gc_mark_roots\<close>, \<^verbatim>\<open>gc_scan_roots\<close>,
  \<^verbatim>\<open>gc_collect_roots\<close>) return. The list \<^verbatim>\<open>zval_to_free\<close> then holds, each once, the zvals that a root leads to and that
  cannot be reached from any value outside of that set or with a reference from elsewhere. Such garbage has no reference from
  outside of the heap, and only garbage refers to it. The counts of all other zvals are what they were, those of the
  garbage zvals one more, so that destroying the garbage cannot free them twice; the objects have lost the references from the
  garbage. Nothing is left in the buffer, and no grey or white value.
\<close>

theorem gc_finds_garbage:
  assumes "gc_ready g L U" and "counts_exact (sc g) (glb g) (nodes g) ext (cnt g)" and "2 * card (dom (zvals g)) < fuel"
  shows "\<exists>g' U' ps. gc_find_garbage fuel g = Some g' \<and>
    (\<forall>n\<in>garbage g ext L. ext n = 0 \<and> (\<forall>a\<in>nodes g. n \<in> set (sc g a) \<longrightarrow> a \<in> garbage g ext L)) \<and>
    to_free g' (zval_to_free g') ps \<and> distinct ps \<and> (\<forall>p. p \<in> set ps \<longleftrightarrow> Val p \<in> garbage g ext L) \<and>
    (\<forall>p. Val p \<in> nodes g \<longrightarrow> \<not> glb g (Val p) \<longrightarrow> cnt g' (Val p) = cnt g (Val p) + (if p \<in> set ps then 1 else 0)) \<and>
    (\<forall>h. Obj h \<in> nodes g \<longrightarrow> cnt g' (Obj h) = cnt g (Obj h) - of_nat (refs (sc g) (garbage g ext L) (Obj h))) \<and>
    sc g' = sc g \<and> buffer_ok g' [] U' \<and> (\<forall>n\<in>nodes g. col g' n = GC_BLACK \<or> col g' n = GC_PURPLE) \<and>
    (\<forall>n\<in>nodes g - garbage g ext L. addr g' n = GC_NULL)"
proof -
  obtain g' U' ps where g': "gc_find_garbage fuel g = Some g'" "found g (garbage g ext L) ps U' g'"
      "\<forall>n\<in>garbage g ext L. ext n = 0 \<and> (\<forall>a\<in>nodes g. n \<in> set (sc g a) \<longrightarrow> a \<in> garbage g ext L)"
    using find_ok [OF assms] by blast
  then show ?thesis
    by (intro exI [of _ g'] exI [of _ U'] exI [of _ ps]) (simp add: found_def same_graph_def)
qed

theorem gc_finds_garbage_witness:
  "\<exists>g' U' ps. gc_find_garbage 5 gc_demo = Some g' \<and>
    (\<forall>n\<in>garbage gc_demo demo_ext [0]. demo_ext n = 0 \<and> (\<forall>a\<in>nodes gc_demo. n \<in> set (sc gc_demo a) \<longrightarrow> a \<in> garbage gc_demo demo_ext [0])) \<and>
    to_free g' (zval_to_free g') ps \<and> distinct ps \<and> (\<forall>p. p \<in> set ps \<longleftrightarrow> Val p \<in> garbage gc_demo demo_ext [0]) \<and>
    (\<forall>p. Val p \<in> nodes gc_demo \<longrightarrow> \<not> glb gc_demo (Val p) \<longrightarrow> cnt g' (Val p) = cnt gc_demo (Val p) + (if p \<in> set ps then 1 else 0)) \<and>
    (\<forall>h. Obj h \<in> nodes gc_demo \<longrightarrow> cnt g' (Obj h) = cnt gc_demo (Obj h) - of_nat (refs (sc gc_demo) (garbage gc_demo demo_ext [0]) (Obj h))) \<and>
    sc g' = sc gc_demo \<and> buffer_ok g' [] U' \<and> (\<forall>n\<in>nodes gc_demo. col g' n = GC_BLACK \<or> col g' n = GC_PURPLE) \<and>
    (\<forall>n\<in>nodes gc_demo - garbage gc_demo demo_ext [0]. addr g' n = GC_NULL)"
  by (rule gc_finds_garbage [OF demo_ready demo_counts]) (simp add: demo_nodes)

text \<open>
  C34: Marking terminates and is a flood of the graph. In a heap without dangling pointers, \<^verbatim>\<open>zval_mark_grey\<close> returns if the
  recursion may be deeper than there are zvals; it changes nothing but colours and counts, and these
  as the depth-first flood \<open>flood_node\<close> does that gives every node grey when it is first visited and takes one reference from
  a node each time it is met.
\<close>

theorem zval_mark_grey_refines:
  assumes "heap_closed g" "Val p \<in> nodes g" "card (dom (zvals g)) < fuel"
  shows "\<exists>g'. zval_mark_grey fuel p g = Some g' \<and> skel g' = skel g \<and>
    flood_node (sc g) (glb g) GC_GREY (- 1) (abs_of g) (Val p) (abs_of g')"
proof -
  have "uncoloured GC_GREY g < fuel" using uncoloured_bound [OF assms(1), of GC_GREY] assms(3) by simp
  then obtain g' where "zval_mark_grey fuel p g = Some g'" using zval_mark_grey_total [OF assms(1,2)] by blast
  then show ?thesis using zval_mark_grey_floods by blast
qed

theorem zval_mark_grey_refines_witness:
  "\<exists>g'. zval_mark_grey 3 1 gc_demo = Some g' \<and> skel g' = skel gc_demo \<and>
    flood_node (sc gc_demo) (glb gc_demo) GC_GREY (- 1) (abs_of gc_demo) (Val 1) (abs_of g')"
  by (rule zval_mark_grey_refines [OF gc_readyD(1) [OF demo_ready]]) (simp_all add: demo_nodes)

end
