(* ===== verification/Zend_Gc_Buffer.thy ===== *)
theory Zend_Gc_Buffer
  imports Zend_Gc_Cycles
begin

text \<open>
  Values enter the buffer of possible roots (\<^verbatim>\<open>gc_zval_possible_root\<close>) and leave it again (\<^verbatim>\<open>gc_remove_zval_from_buffer\<close>);
  the state stays one in which a collection can start.
\<close>

section \<open>Taking and linking an entry\<close>

lemma new_root_ok:
  assumes b: "buffer_ok g L U" and room: "U \<noteq> [] \<or> first_unused g < last_unused g"
  obtains g' i V where "gc_new_root H fuel zv g = Some (Some i, g')" "i \<notin> set L" "i < last_unused g'" "root_list g' L"
    "unused_chain (root_bufs g') (unused g') V" "distinct (i # L @ V)" "set (i # L @ V) = {..<first_unused g'}" "first_unused g' \<le> last_unused g'"
    "root_bufs g' = root_bufs g" "zvals g' = zvals g" "object_buckets g' = object_buckets g" "free_list g' = free_list g"
proof (cases U)
  case (Cons i V)
  have u: "unused g = Some i" "\<exists>e. root_bufs g i = Some e \<and> unused_chain (root_bufs g) (rb_prev e) V" using b Cons by (auto simp: buffer_ok_def)
  then obtain e where e: "root_bufs g i = Some e" "unused_chain (root_bufs g) (rb_prev e) V" by blast
  have st: "set (i # L @ V) = {..<first_unused g}" "distinct (i # L @ V)" "first_unused g \<le> last_unused g"
    using b Cons by (auto simp: buffer_ok_def)
  then have "i < last_unused g" by auto
  then show thesis using that [of i "g\<lparr>unused := rb_prev e\<rparr>" V] u(1) e st b by (simp add: gc_new_root_def buffer_ok_def root_list_def)
next
  case Nil
  have u: "unused g = None" "set L = {..<first_unused g}" "distinct L" using b Nil by (auto simp: buffer_ok_def)
  let ?i = "first_unused g"
  have "insert ?i {..<?i} = {..<Suc ?i}" by (simp add: lessThan_Suc)
  then show thesis using that [of ?i "g\<lparr>first_unused := ?i + 1\<rparr>" "[]"] u room Nil b by (simp add: gc_new_root_def buffer_ok_def root_list_def)
qed

lemma link_root_ok:
  assumes l: "root_list g L" and i: "i \<notin> set L" "i < last_unused g"
  obtains g' where "gc_link_root i h p g = Some g'" "root_list g' (i # L)" "others g' = others g" "unused g' = unused g"
    "\<And>q. q \<notin> set (i # L) \<Longrightarrow> root_bufs g' q = root_bufs g q"
    "fld rb_handle (root_bufs g') = (fld rb_handle (root_bufs g))(i \<mapsto> h)" "fld rb_pz (root_bufs g') = (fld rb_pz (root_bufs g))(i \<mapsto> p)"
proof -
  let ?e = "\<lparr>rb_prev = None, rb_next = first_of L, rb_handle = h, rb_pz = p\<rparr>"
  let ?m = "(root_bufs g)(i \<mapsto> ?e)"
  let ?m' = "case first_of L of None \<Rightarrow> ?m | Some n \<Rightarrow> modify n (\<lambda>c. c\<lparr>rb_prev := Some i\<rparr>) ?m"
  have nx: "roots_next g = first_of L" "roots_prev g = last_of L" using l by (simp_all add: root_list_def)
  have dm: "n \<in> dom ?m" "n \<noteq> i" if "first_of L = Some n" for n
    using that l i first_of_in [OF that] by (auto simp: root_list_def linked_def fld_def)
  let ?g = "g\<lparr>root_bufs := ?m', roots_next := Some i, roots_prev := (if L = [] then Some i else roots_prev g)\<rparr>"
  have r: "gc_link_root i h p g = Some ?g"
    using i(2) nx dm by (cases L) (auto simp: gc_link_root_def rpoke_def Let_def)
  have fn: "fld rb_next ?m' = (fld rb_next (root_bufs g))(i \<mapsto> first_of L)" by (cases "first_of L") simp_all
  have fp: "fld rb_prev ?m' = upd_opt (first_of L) (Some i) ((fld rb_prev (root_bufs g))(i \<mapsto> None))" using dm by (cases "first_of L") simp_all
  have "linked (upd_opt (last_of []) (Some i) ((fld rb_next (root_bufs g))(i \<mapsto> first_of L)))
      (upd_opt (first_of L) (Some i) ((fld rb_prev (root_bufs g))(i \<mapsto> last_of []))) ([] @ i # L)"
    by (rule linked_insert) (use l i in \<open>simp_all add: root_list_def\<close>)
  then have "linked (fld rb_next ?m') (fld rb_prev ?m') (i # L)" unfolding fn fp by simp
  then have "root_list ?g (i # L)" using nx by (cases L) (auto simp: root_list_def last_of_def)
  moreover have "others ?g = others g" by (simp add: others_def)
  moreover have "?m' q = root_bufs g q" if "q \<notin> set (i # L)" for q
    using that first_of_in [of L] by (cases "first_of L") (auto simp: modify_def)
  moreover have "fld rb_handle ?m' = (fld rb_handle (root_bufs g))(i \<mapsto> h)" "fld rb_pz ?m' = (fld rb_pz (root_bufs g))(i \<mapsto> p)"
    by (cases "first_of L"; simp)+
  ultimately show thesis using that [OF r] by simp
qed

section \<open>Writing the reference of a zval\<close>

lemma zval_ref_effect:
  assumes z: "zvals g p = Some z" and e: "zvals g' = (zvals g)(p \<mapsto> z\<lparr>u := v\<rparr>)" "object_buckets g' = object_buckets g"
  shows "same_graph g g'" "cnt g' = cnt g" "col g' = (col g)(Val p := GC_GET_COLOR v)" "addr g' = (addr g)(Val p := GC_ADDRESS v)"
proof -
  show "same_graph g g'" by (rule same_graph_zval [OF z _ e]) simp
  have o: "obj_at g' = obj_at g" using e(2) by (simp add: obj_at_def fun_eq_iff)
  show "cnt g' = cnt g" "col g' = (col g)(Val p := GC_GET_COLOR v)" "addr g' = (addr g)(Val p := GC_ADDRESS v)"
    using z e(1) o by (auto simp: cnt_def col_def addr_def ref_at_def fun_eq_iff split: node.splits)
qed

lemma root_node_flds:
  assumes "fld rb_handle (root_bufs g') i = fld rb_handle (root_bufs g) i" "fld rb_pz (root_bufs g') i = fld rb_pz (root_bufs g) i"
  shows "root_node g' i = root_node g i"
  using assms by (cases "root_bufs g i"; cases "root_bufs g' i") (auto simp: root_node_def fld_def)

section \<open>Entering\<close>

lemma possible_root_run:
  assumes b: "buffer_ok g L U" and room: "U \<noteq> [] \<or> first_unused g < last_unused g"
    and z: "zvals g p = Some z" "u z = plain GC_NULL" "\<And>h. z_value z \<noteq> IS_OBJECT h"
  obtains g' i V where "gc_zval_possible_root H fuel p g = Some g'" "i \<notin> set L" "buffer_ok g' (i # L) V" "object_buckets g' = object_buckets g"
    "zvals g' = (zvals g)(p \<mapsto> z\<lparr>u := \<lparr>GC_ADDRESS = Root i, GC_GET_COLOR = GC_PURPLE\<rparr>\<rparr>)" "root_node g' i = Val p"
    "\<forall>j\<in>set L. root_node g' j = root_node g j"
proof -
  obtain g1 i V where g1: "gc_new_root H fuel p g = Some (Some i, g1)" "i \<notin> set L" "i < last_unused g1" "root_list g1 L"
    "unused_chain (root_bufs g1) (unused g1) V" "distinct (i # L @ V)" "set (i # L @ V) = {..<first_unused g1}" "first_unused g1 \<le> last_unused g1"
    "root_bufs g1 = root_bufs g" "zvals g1 = zvals g" "object_buckets g1 = object_buckets g"
    by (rule new_root_ok [OF b room]) blast
  let ?z2 = "z\<lparr>u := GC_SET_PURPLE (u z)\<rparr>"
  let ?g2 = "g1\<lparr>zvals := (zvals g)(p \<mapsto> ?z2)\<rparr>"
  have g2: "GC_ZVAL_SET_PURPLE p g1 = Some ?g2" using z(1) g1(10) by (simp add: GC_ZVAL_SET_PURPLE_def zpoke_def poke_def)
  have l2: "root_list ?g2 L" "i < last_unused ?g2" using g1(3,4) by (simp_all add: root_list_def)
  obtain g3 where g3: "gc_link_root i 0 p ?g2 = Some g3" "root_list g3 (i # L)" "others g3 = others ?g2" "unused g3 = unused ?g2"
    "\<And>q. q \<notin> set (i # L) \<Longrightarrow> root_bufs g3 q = root_bufs ?g2 q"
    "fld rb_handle (root_bufs g3) = (fld rb_handle (root_bufs ?g2))(i \<mapsto> 0)" "fld rb_pz (root_bufs g3) = (fld rb_pz (root_bufs ?g2))(i \<mapsto> p)"
    by (rule link_root_ok [OF l2(1) g1(2) l2(2)]) blast
  let ?v = "\<lparr>GC_ADDRESS = Root i, GC_GET_COLOR = GC_PURPLE\<rparr>"
  let ?g4 = "g3\<lparr>zvals := (zvals g)(p \<mapsto> z\<lparr>u := ?v\<rparr>)\<rparr>"
  have o3: "zvals g3 = (zvals g)(p \<mapsto> ?z2)" "object_buckets g3 = object_buckets g" "first_unused g3 = first_unused g1" "last_unused g3 = last_unused g1"
    using g3(3) g1(11) by (simp_all add: others_def)
  have g4: "GC_ZVAL_SET_ADDRESS (Root i) p g3 = Some ?g4"
    using o3(1) z(2) by (simp add: GC_ZVAL_SET_ADDRESS_def zpoke_def poke_def GC_SET_ADDRESS_def GC_SET_PURPLE_def plain_def)
  have "root_bufs g3 q = root_bufs g1 q" if "q \<in> set V" for q using g3(5) [of q] g1(6) that by auto
  then have "unused_chain (root_bufs g3) (unused g3) V"
    using unused_chain_cong [of V "root_bufs g3" "root_bufs g1" "unused g3"] g1(5) g3(4) by simp
  then have b4: "buffer_ok ?g4 (i # L) V"
    using g3(2) g1(6-8) o3(3,4) by (auto simp: buffer_ok_def root_list_def)
  have n4: "root_node ?g4 i = Val p" using g3(6,7) by (cases "root_bufs g3 i") (auto simp: root_node_def fld_def fun_eq_iff dest: spec [of _ i])
  have nL: "root_node ?g4 j = root_node g j" if "j \<in> set L" for j
    by (rule root_node_flds) (use g3(6,7) g1(2,9) that in auto)
  have "gc_zval_possible_root H fuel p g = Some ?g4"
    using z g1(1) g2 g3(1) g4 by (cases "z_value z") (force simp: gc_zval_possible_root_def plain_def)+
  then show thesis using that [of ?g4 i V] g1(2) b4 o3(2) n4 nL by simp
qed

lemma possible_root_ready:
  assumes r: "gc_ready g L U" and room: "U \<noteq> [] \<or> first_unused g < last_unused g"
    and z: "zvals g p = Some z" "u z = plain GC_NULL" "\<And>h. z_value z \<noteq> IS_OBJECT h"
  shows "\<exists>g' i V. gc_zval_possible_root H fuel p g = Some g' \<and> gc_ready g' (i # L) V \<and> root_node g' i = Val p \<and> same_graph g g' \<and> cnt g' = cnt g \<and>
    zvals g' = (zvals g)(p \<mapsto> z\<lparr>u := \<lparr>GC_ADDRESS = Root i, GC_GET_COLOR = GC_PURPLE\<rparr>\<rparr>) \<and> object_buckets g' = object_buckets g"
proof -
  note R = gc_readyD [OF r]
  obtain g' i V where g': "gc_zval_possible_root H fuel p g = Some g'" "i \<notin> set L" "buffer_ok g' (i # L) V" "object_buckets g' = object_buckets g"
    "zvals g' = (zvals g)(p \<mapsto> z\<lparr>u := \<lparr>GC_ADDRESS = Root i, GC_GET_COLOR = GC_PURPLE\<rparr>\<rparr>)" "root_node g' i = Val p"
    "\<forall>j\<in>set L. root_node g' j = root_node g j"
    by (rule possible_root_run [OF R(3) room z]) blast
  note E = zval_ref_effect [OF z(1) g'(5,4), simplified] and G = same_graphD [OF zval_ref_effect(1) [OF z(1) g'(5,4)]]
  have pn: "Val p \<in> nodes g" "addr g (Val p) = GC_NULL" using z by (auto simp: nodes_val addr_def ref_at_def plain_def)
  have ne: "root_node g j \<noteq> Val p" if "j \<in> set L" for j using R(7) [OF that] pn(2) by auto
  have "gc_ready g' (i # L) V"
    unfolding gc_ready_def
  proof (intro conjI ballI)
    show "heap_closed g'" "object_buckets g' \<noteq> None" using same_graph_closed [OF E(1)] R(1,2) g'(4) by simp_all
    show "col g' n = GC_BLACK \<or> col g' n = GC_PURPLE" if "n \<in> nodes g'" for n using R(4) [of n] that G(3) E(3) by auto
    show "root_node g' j \<in> nodes g'" "col g' (root_node g' j) = GC_PURPLE" "addr g' (root_node g' j) = Root j" if "j \<in> set (i # L)" for j
      using that R(5-7) [of j] ne [of j] g'(6,7) pn(1) G(3) E(3,4) by auto
    show "addr g' n = GC_NULL \<or> n \<in> root_node g' ` set (i # L)" if "n \<in> nodes g'" for n
      using R(8) [of n] that G(3) E(4) g'(6,7) by (auto simp: image_iff)
  qed (rule g'(3))
  then show ?thesis using g'(1,4,5,6) E(1,2) by blast
qed

section \<open>Leaving\<close>

lemma remove_zval_ready:
  assumes r: "gc_ready g (ks @ i # xs) U" and n: "root_node g i = Val p" "zvals g p = Some z"
  shows "\<exists>g'. gc_remove_zval_from_buffer p g = Some g' \<and> gc_ready g' (ks @ xs) (i # U) \<and> same_graph g g' \<and> cnt g' = cnt g \<and>
    zvals g' = (zvals g)(p \<mapsto> z\<lparr>u := plain GC_NULL\<rparr>) \<and> object_buckets g' = object_buckets g"
proof -
  note R = gc_readyD [OF r]
  have v: "GC_ADDRESS (u z) = Root i" "GC_GET_COLOR (u z) = GC_PURPLE"
    using R(6,7) [of i] n by (simp_all add: addr_def col_def ref_at_def)
  obtain g1 where g1: "gc_remove_from_buffer i g = Some g1" "buffer_ok g1 (ks @ xs) (i # U)" "same_entries g g1" "others g1 = others g"
    by (rule remove_buffer [OF R(3)]) blast
  have o1: "zvals g1 = zvals g" "object_buckets g1 = object_buckets g" using g1(4) by (simp_all add: others_def)
  let ?g = "g1\<lparr>zvals := (zvals g)(p \<mapsto> z\<lparr>u := plain GC_NULL\<rparr>)\<rparr>"
  have rn: "gc_remove_zval_from_buffer p g = Some ?g"
    using n(2) v g1(1) o1 by (simp add: gc_remove_zval_from_buffer_def zpoke_def poke_def)
  have zv: "zvals ?g = (zvals g)(p \<mapsto> z\<lparr>u := plain GC_NULL\<rparr>)" "object_buckets ?g = object_buckets g" using o1 by simp_all
  note E = zval_ref_effect [OF n(2) zv] and G = same_graphD [OF zval_ref_effect(1) [OF n(2) zv]]
  have nd: "root_node ?g j = root_node g j" for j using same_entries_node [OF g1(3), of j] by (simp add: root_node_def)
  have d: "i \<notin> set (ks @ xs)" using R(3) by (auto simp: buffer_ok_def)
  have ne: "root_node g j \<noteq> Val p" if "j \<in> set (ks @ xs)" for j using R(7) [of j] R(7) [of i] n(1) that d by auto
  have "gc_ready ?g (ks @ xs) (i # U)"
    unfolding gc_ready_def nd
  proof (intro conjI ballI)
    show "heap_closed ?g" "object_buckets ?g \<noteq> None" using same_graph_closed [OF E(1)] R(1,2) zv(2) by simp_all
    show "buffer_ok ?g (ks @ xs) (i # U)" using g1(2) by (simp add: buffer_ok_def root_list_def)
    show "col ?g m = GC_BLACK \<or> col ?g m = GC_PURPLE" if "m \<in> nodes ?g" for m using R(4) [of m] that unfolding G(3) E(3) by (auto simp: plain_def)
    show "root_node g j \<in> nodes ?g" if "j \<in> set (ks @ xs)" for j using R(5) [of j] that unfolding G(3) by auto
    show "col ?g (root_node g j) = GC_PURPLE" "addr ?g (root_node g j) = Root j" if "j \<in> set (ks @ xs)" for j
      using R(6,7) [of j] ne [OF that] that unfolding E(3,4) by auto
    show "addr ?g m = GC_NULL \<or> m \<in> root_node g ` set (ks @ xs)" if "m \<in> nodes ?g" for m
      using R(8) [of m] that n(1) unfolding G(3) E(4) by (auto simp: plain_def)
  qed
  then show ?thesis using rn E(1,2) zv by blast
qed

section \<open>Properties\<close>

text \<open>
  C35: A value that may be the root of a garbage cycle enters the buffer and leaves it again. If the buffer has room,
  \<^verbatim>\<open>gc_zval_possible_root\<close> gives a zval that is no object and not yet buffered an entry at the head of the list of roots and colours it purple:
  the state is again one from which a collection can start, with the same graph and counts. \<^verbatim>\<open>gc_remove_zval_from_buffer\<close> then restores
  the zvals and the list of roots, and the entry is kept for later use.
\<close>

theorem gc_root_roundtrip:
  assumes "gc_ready g L U" "U \<noteq> [] \<or> first_unused g < last_unused g"
    and "zvals g p = Some z" "u z = plain GC_NULL" "\<And>h. z_value z \<noteq> IS_OBJECT h"
  shows "\<exists>g1 i V g2. gc_zval_possible_root H fuel p g = Some g1 \<and> gc_ready g1 (i # L) V \<and> root_node g1 i = Val p \<and>
      sc g1 = sc g \<and> cnt g1 = cnt g \<and> col g1 (Val p) = GC_PURPLE \<and>
    gc_remove_zval_from_buffer p g1 = Some g2 \<and> gc_ready g2 L (i # V) \<and> zvals g2 = zvals g \<and> object_buckets g2 = object_buckets g"
proof -
  obtain g1 i V where g1: "gc_zval_possible_root H fuel p g = Some g1" "gc_ready g1 (i # L) V" "root_node g1 i = Val p" "same_graph g g1" "cnt g1 = cnt g"
      "zvals g1 = (zvals g)(p \<mapsto> z\<lparr>u := \<lparr>GC_ADDRESS = Root i, GC_GET_COLOR = GC_PURPLE\<rparr>\<rparr>)" "object_buckets g1 = object_buckets g"
    using possible_root_ready [OF assms] by blast
  let ?z = "z\<lparr>u := \<lparr>GC_ADDRESS = Root i, GC_GET_COLOR = GC_PURPLE\<rparr>\<rparr>"
  have z1: "zvals g1 p = Some ?z" using g1(6) by simp
  obtain g2 where g2: "gc_remove_zval_from_buffer p g1 = Some g2" "gc_ready g2 ([] @ L) (i # V)"
      "zvals g2 = (zvals g1)(p \<mapsto> ?z\<lparr>u := plain GC_NULL\<rparr>)" "object_buckets g2 = object_buckets g1"
    using remove_zval_ready [of g1 "[]" i L V p ?z] g1(2,3) z1 by auto
  have "?z\<lparr>u := plain GC_NULL\<rparr> = z" using assms(4) by simp
  then have "zvals g2 = zvals g" using g2(3) g1(6) assms(3) by (auto simp: fun_eq_iff)
  moreover have "col g1 (Val p) = GC_PURPLE" using gc_readyD(6) [OF g1(2), of i] g1(3) by simp
  ultimately show ?thesis using g1 g2 same_graphD(1) [OF g1(4)] by auto
qed

text \<open>A heap with a zval outside of the buffer.\<close>

lemma demo_room: "first_unused gc_demo < last_unused gc_demo" "zvals gc_demo 2 = Some \<lparr>z_value = IS_OTHER, refcount__gc = 2, u = plain GC_NULL\<rparr>"
  by (simp_all add: gc_demo_def)

theorem gc_root_roundtrip_witness:
  "\<exists>g1 i V g2. gc_zval_possible_root no_handlers 5 2 gc_demo = Some g1 \<and> gc_ready g1 (i # [0]) V \<and> root_node g1 i = Val 2 \<and>
      sc g1 = sc gc_demo \<and> cnt g1 = cnt gc_demo \<and> col g1 (Val 2) = GC_PURPLE \<and>
    gc_remove_zval_from_buffer 2 g1 = Some g2 \<and> gc_ready g2 [0] (i # V) \<and> zvals g2 = zvals gc_demo \<and> object_buckets g2 = object_buckets gc_demo"
  by (rule gc_root_roundtrip [OF demo_ready disjI2 [OF demo_room(1)] demo_room(2)]) simp_all

end
