(* ===== verification/Zend_String.thy ===== *)
theory Zend_String
  imports Zend_Hash_Map
begin

text \<open>
  Interned strings (\<^verbatim>\<open>zend_string.c\<close>, in a build without threads). The strings of a program text are kept once each, behind the
  buckets of a hash table that are laid out one after the other in a fixed area of memory; a string is then compared by its address.
  At the end of a request all strings that are newer than a snapshot are forgotten.

  The table is a \<open>HashTable\<close> whose data are the addresses of its own buckets. A pointer into the area is \<open>Interned a s\<close>
  with its address \<open>a\<close> and the characters \<open>s\<close> there. When the area is cut back, the buckets above its new top leave the table.
\<close>

section \<open>Data\<close>

record interned_globals =
  interned_strings :: "ptr HashTable"
  interned_strings_start :: nat
  interned_strings_end :: nat
  interned_strings_top :: nat
  interned_strings_snapshot_top :: nat
  interned_empty_string :: key_ptr

definition sizeof_Bucket :: nat where
  "sizeof_Bucket = 72"

definition ZEND_MM_ALIGNED_SIZE :: "nat \<Rightarrow> nat" where
  "ZEND_MM_ALIGNED_SIZE n = (n + 7) div 8 * 8"

fun key_addr :: "key_ptr \<Rightarrow> nat option" where
  "key_addr (Interned a _) = Some a"
| "key_addr _ = None"

section \<open>Interning a string\<close>

definition interned_match :: "key_ptr \<Rightarrow> nat \<Rightarrow> ulong \<Rightarrow> 'v bucket \<Rightarrow> bool" where
  "interned_match arKey' len h p \<longleftrightarrow> bkt_h p = h \<and> nKeyLength p = len \<and> memcmp_eq len (arKey p) arKey'"

definition intern_link :: "ptr \<Rightarrow> nat \<Rightarrow> 'v HashTable \<Rightarrow> 'v HashTable option" where
  "intern_link p nIndex ht =
     do { head \<leftarrow> slot_get ht nIndex;
          ht \<leftarrow> hpoke p (\<lambda>b. b\<lparr>pNext := head, pLast := None\<rparr>) ht;
          ht \<leftarrow> (case head of None \<Rightarrow> Some ht | Some n \<Rightarrow> hpoke n (\<lambda>b. b\<lparr>pLast := Some p\<rparr>) ht);
          let tail = pListTail ht;
          ht \<leftarrow> hpoke p (\<lambda>b. b\<lparr>pListLast := tail, pListNext := None\<rparr>) (ht\<lparr>pListTail := Some p\<rparr>);
          ht \<leftarrow> (case tail of None \<Rightarrow> Some ht | Some l \<Rightarrow> hpoke l (\<lambda>b. b\<lparr>pListNext := Some p\<rparr>) ht);
          let ht = (if pListHead ht = None then ht\<lparr>pListHead := Some p\<rparr> else ht);
          slot_put nIndex (Some p) ht }"

text \<open>The result is the pointer to the string, and whether the argument was freed.\<close>

definition zend_new_interned_string_int ::
  "key_ptr \<Rightarrow> nat \<Rightarrow> bool \<Rightarrow> interned_globals \<Rightarrow> (key_ptr \<times> bool \<times> interned_globals) option" where
  "zend_new_interned_string_int arKey' nKeyLength' free_src cg =
     (if IS_INTERNED arKey' then Some (arKey', False, cg)
      else do { let h = zend_inline_hash_func (take nKeyLength' (chars arKey'));
                let ht = interned_strings cg;
                let nIndex = slot_index (nTableMask ht) h;
                found \<leftarrow> chain_search ht nIndex (interned_match arKey' nKeyLength' h);
                (case found of
                   Some p \<Rightarrow> do { b \<leftarrow> cells ht p; Some (arKey b, free_src, cg) }
                 | None \<Rightarrow>
                     if interned_strings_end cg \<le> interned_strings_top cg + ZEND_MM_ALIGNED_SIZE (sizeof_Bucket + nKeyLength')
                     then Some (arKey', False, cg)
                     else do { let p = interned_strings_top cg;
                               let key = Interned (p + sizeof_Bucket) (take nKeyLength' (chars arKey'));
                               let ht = ht\<lparr>cells := (cells ht)(p \<mapsto> new_bucket h key nKeyLength' (InPtr p))\<rparr>;
                               ht \<leftarrow> intern_link p nIndex ht;
                               ht \<leftarrow> ZEND_HASH_IF_FULL_DO_RESIZE (ht\<lparr>nNumOfElements := nNumOfElements ht + 1\<rparr>);
                               Some (key, free_src, cg\<lparr>interned_strings := ht,
                                 interned_strings_top := p + ZEND_MM_ALIGNED_SIZE (sizeof_Bucket + nKeyLength')\<rparr>) }) })"

section \<open>Start, snapshot and restoration\<close>

text \<open>The area is \<open>size\<close> bytes at the address \<open>start\<close>; the empty string has one character, its terminator.\<close>

definition zend_interned_strings_init :: "nat \<Rightarrow> interned_globals \<Rightarrow> interned_globals option" where
  "zend_interned_strings_init start cg =
     do { let size' = 1024 * 1024;
          let cg = cg\<lparr>interned_strings_start := start, interned_strings_top := start, interned_strings_snapshot_top := start,
                      interned_strings_end := start + size'\<rparr>;
          (_, ht) \<leftarrow> zend_hash_init (interned_strings cg) 0 False True;
          let ht = ht\<lparr>nTableMask := nTableSize ht - 1, arBuckets := replicate (unat (nTableSize ht)) (Some None)\<rparr>;
          (s, _, cg) \<leftarrow> zend_new_interned_string_int (Foreign 0 [0]) 1 False (cg\<lparr>interned_strings := ht\<rparr>);
          Some (cg\<lparr>interned_empty_string := s\<rparr>) }"

definition zend_interned_strings_snapshot_int :: "interned_globals \<Rightarrow> interned_globals" where
  "zend_interned_strings_snapshot_int cg = cg\<lparr>interned_strings_snapshot_top := interned_strings_top cg\<rparr>"

definition restore_bucket :: "ptr \<Rightarrow> 'v bucket \<Rightarrow> 'v HashTable \<Rightarrow> 'v HashTable option" where
  "restore_bucket p b ht =
     do { let ht = ht\<lparr>nNumOfElements := nNumOfElements ht - 1\<rparr>;
          ht \<leftarrow> (case pListLast b of
                  Some l \<Rightarrow> hpoke l (\<lambda>c. c\<lparr>pListNext := pListNext b\<rparr>) ht
                | None \<Rightarrow> Some (ht\<lparr>pListHead := pListNext b\<rparr>));
          ht \<leftarrow> (case pListNext b of
                  Some n \<Rightarrow> hpoke n (\<lambda>c. c\<lparr>pListLast := pListLast b\<rparr>) ht
                | None \<Rightarrow> Some (ht\<lparr>pListTail := pListLast b\<rparr>));
          Some (ht\<lparr>cells := (cells ht)(p := None)\<rparr>) }"

partial_function (option) restore_chain :: "nat \<Rightarrow> ptr option \<Rightarrow> 'v HashTable \<Rightarrow> (ptr option \<times> 'v HashTable) option" where
  "restore_chain limit p ht =
     (case p of
        None \<Rightarrow> Some (None, ht)
      | Some q \<Rightarrow>
          Option.bind (cells ht q) (\<lambda>b.
          Option.bind (key_addr (arKey b)) (\<lambda>a.
            if limit < a then Option.bind (restore_bucket q b ht) (\<lambda>ht. restore_chain limit (pNext b) ht)
            else Some (Some q, ht))))"

declare restore_chain.simps [code]

definition restore_slot :: "nat \<Rightarrow> nat \<Rightarrow> 'v HashTable \<Rightarrow> 'v HashTable option" where
  "restore_slot limit i ht =
     do { p \<leftarrow> slot_get ht i;
          (p, ht) \<leftarrow> restore_chain limit p ht;
          ht \<leftarrow> (case p of None \<Rightarrow> Some ht | Some q \<Rightarrow> hpoke q (\<lambda>b. b\<lparr>pLast := None\<rparr>) ht);
          slot_put i p ht }"

primrec restore_slots :: "nat \<Rightarrow> nat list \<Rightarrow> 'v HashTable \<Rightarrow> 'v HashTable option" where
  "restore_slots limit [] ht = Some ht"
| "restore_slots limit (i # is) ht = do { ht \<leftarrow> restore_slot limit i ht; restore_slots limit is ht }"

definition zend_interned_strings_restore_int :: "interned_globals \<Rightarrow> interned_globals option" where
  "zend_interned_strings_restore_int cg =
     do { let cg = cg\<lparr>interned_strings_top := interned_strings_snapshot_top cg\<rparr>;
          let ht = interned_strings cg;
          ht \<leftarrow> restore_slots (interned_strings_top cg) [0..<unat (nTableSize ht)] ht;
          Some (cg\<lparr>interned_strings := ht\<rparr>) }"

text \<open>At the end of the engine the slots and the area, with all the buckets in it, are freed.\<close>

definition zend_interned_strings_dtor :: "interned_globals \<Rightarrow> interned_globals" where
  "zend_interned_strings_dtor cg = cg\<lparr>interned_strings := (interned_strings cg)\<lparr>arBuckets := [], cells := Map.empty\<rparr>\<rparr>"

section \<open>The invariant\<close>

text \<open>The buckets \<open>ps\<close> fill the memory from \<open>a\<close> to \<open>t\<close>, each with its string right behind it.\<close>

fun placed :: "(ptr \<rightharpoonup> ptr bucket) \<Rightarrow> nat \<Rightarrow> ptr list \<Rightarrow> nat \<Rightarrow> bool" where
  "placed c a [] t \<longleftrightarrow> a = t"
| "placed c a (p # ps) t \<longleftrightarrow> p = a \<and> fld pData c p = Some (InPtr p) \<and>
     (\<exists>s. fld arKey c p = Some (Interned (p + sizeof_Bucket) s) \<and> s \<noteq> [] \<and>
          placed c (p + ZEND_MM_ALIGNED_SIZE (sizeof_Bucket + length s)) ps t)"

definition intern_ok :: "interned_globals \<Rightarrow> ptr list \<Rightarrow> bool" where
  "intern_ok cg L \<longleftrightarrow> (let ht = interned_strings cg in
     (\<exists>kvs. stored ht L kvs) \<and> nTableMask ht \<noteq> 0 \<and> pInternalPointer ht = None \<and> aged (nTableMask ht) (arBuckets ht) (cells ht) L \<and>
     placed (cells ht) (interned_strings_start cg) L (interned_strings_top cg) \<and>
     interned_strings_top cg \<le> interned_strings_end cg \<and> interned_strings_end cg \<le> interned_strings_start cg + 2 ^ 20)"

lemma placed_append: "placed c a (ps @ qs) t \<longleftrightarrow> (\<exists>m. placed c a ps m \<and> placed c m qs t)"
  by (induction ps arbitrary: a) auto

lemma placed_cong:
  "(\<And>p. p \<in> set ps \<Longrightarrow> fld arKey c' p = fld arKey c p \<and> fld pData c' p = fld pData c p) \<Longrightarrow> placed c' a ps t = placed c a ps t"
proof (induction ps arbitrary: a)
  case (Cons p ps)
  have "placed c' b ps t = placed c b ps t" for b by (rule Cons.IH) (simp add: Cons.prems)
  then show ?case by (simp add: Cons.prems)
qed simp

lemma aligned_size: "n \<le> ZEND_MM_ALIGNED_SIZE n" "s \<noteq> [] \<Longrightarrow> 80 \<le> ZEND_MM_ALIGNED_SIZE (sizeof_Bucket + length s)"
proof -
  show "n \<le> ZEND_MM_ALIGNED_SIZE n" unfolding ZEND_MM_ALIGNED_SIZE_def by linarith
  show "80 \<le> ZEND_MM_ALIGNED_SIZE (sizeof_Bucket + length s)" if "s \<noteq> []"
    using div_le_mono [of 80 "sizeof_Bucket + length s + 7" 8] that
    by (simp add: ZEND_MM_ALIGNED_SIZE_def sizeof_Bucket_def Suc_le_eq)
qed

lemma placed_size: "placed c a ps t \<Longrightarrow> a + 80 * length ps \<le> t"
proof (induction ps arbitrary: a)
  case (Cons p ps)
  from Cons.prems obtain s :: "byte list" where s: "p = a" "s \<noteq> []" "placed c (p + ZEND_MM_ALIGNED_SIZE (sizeof_Bucket + length s)) ps t" by auto
  show ?case using Cons.IH [OF s(3)] aligned_size(2) [OF s(2)] s(1) by simp
qed simp

lemma placed_between:
  assumes "placed c a ps t" "p \<in> set ps"
  shows "a \<le> p" "p + sizeof_Bucket < t" "\<exists>s. fld arKey c p = Some (Interned (p + sizeof_Bucket) s)" "fld pData c p = Some (InPtr p)"
proof -
  obtain qs rs where "ps = qs @ p # rs" using assms(2) by (meson split_list)
  then obtain m s where m: "placed c a qs m" "p = m" "fld arKey c p = Some (Interned (p + sizeof_Bucket) s)" "s \<noteq> []"
      "placed c (p + ZEND_MM_ALIGNED_SIZE (sizeof_Bucket + length s)) rs t" "fld pData c p = Some (InPtr p)"
    using assms(1) by (auto simp: placed_append)
  show "a \<le> p" using placed_size [OF m(1)] m(2) by simp
  show "p + sizeof_Bucket < t" using placed_size [OF m(5)] aligned_size(1) [of "sizeof_Bucket + length s"] m(4) length_greater_0_conv [of s] by linarith
  show "\<exists>s. fld arKey c p = Some (Interned (p + sizeof_Bucket) s)" "fld pData c p = Some (InPtr p)" using m(3,6) by blast+
qed

lemma intern_okE:
  assumes "intern_ok cg L"
  obtains kvs where "stored (interned_strings cg) L kvs" "nTableMask (interned_strings cg) \<noteq> 0" "pInternalPointer (interned_strings cg) = None"
    "aged (nTableMask (interned_strings cg)) (arBuckets (interned_strings cg)) (cells (interned_strings cg)) L"
    "placed (cells (interned_strings cg)) (interned_strings_start cg) L (interned_strings_top cg)"
    "interned_strings_top cg \<le> interned_strings_end cg" "interned_strings_end cg \<le> interned_strings_start cg + 2 ^ 20"
    "Suc (length L) < 2 ^ 32" "interned_strings_top cg \<notin> dom (cells (interned_strings cg))"
proof -
  obtain kvs where k: "stored (interned_strings cg) L kvs" using assms by (auto simp: intern_ok_def Let_def)
  have o: "nTableMask (interned_strings cg) \<noteq> 0" "pInternalPointer (interned_strings cg) = None"
    "aged (nTableMask (interned_strings cg)) (arBuckets (interned_strings cg)) (cells (interned_strings cg)) L"
    "placed (cells (interned_strings cg)) (interned_strings_start cg) L (interned_strings_top cg)"
    "interned_strings_top cg \<le> interned_strings_end cg" "interned_strings_end cg \<le> interned_strings_start cg + 2 ^ 20"
    using assms by (simp_all add: intern_ok_def Let_def)
  have "Suc (length L) < 2 ^ 32" using placed_size [OF o(4)] o(5,6) by simp
  moreover have "set L = dom (cells (interned_strings cg))" using wf_listD(2) storedD(1) [OF k] by blast
  then have "interned_strings_top cg \<notin> dom (cells (interned_strings cg))" using placed_between(2) [OF o(4)] by fastforce
  ultimately show thesis using that [OF k o] by blast
qed

section \<open>Linking a new bucket\<close>

lemma intern_link_eq:
  assumes b: "cells ht p = Some b" and sub: "set_option (pListTail ht) \<subseteq> dom (cells ht)" "pListHead ht = None \<longleftrightarrow> pListTail ht = None"
    and sl: "slot_get ht (slot_index (nTableMask ht) (bkt_h b)) = Some h0" "set_option h0 \<subseteq> dom (cells ht)"
  shows "intern_link p (slot_index (nTableMask ht) (bkt_h b)) ht =
    do { ht \<leftarrow> rehash_bucket p ht; CONNECT_TO_GLOBAL_DLLIST_EX p (pListTail ht) None ht }"
proof -
  let ?i = "slot_index (nTableMask ht) (bkt_h b)"
  have p: "p \<in> dom (cells ht)" using b by blast
  have i: "?i < length (arBuckets ht)" using sl(1) by (auto simp: slot_get_def split: if_splits)
  have "rehash_bucket p ht = Some (ht\<lparr>cells := connect_cells p h0 (cells ht), arBuckets := (arBuckets ht)[?i := Some (Some p)]\<rparr>)"
    using b sl p i by (simp add: rehash_bucket_def Let_def CONNECT_TO_BUCKET_DLLIST_eq del: domIff)
  moreover have "intern_link p ?i ht = Some (ht\<lparr>cells := glist_link p (pListTail ht) None (connect_cells p h0 (cells ht)),
      pListHead := (if pListTail ht = None then Some p else pListHead ht), pListTail := Some p, arBuckets := (arBuckets ht)[?i := Some (Some p)]\<rparr>)"
    using p sl sub i
    by (cases h0; cases "pListTail ht") (auto simp: intern_link_def Let_def connect_cells_def glist_link_def simp del: domIff)
  ultimately show ?thesis using p sub(1) by (simp add: CONNECT_TO_GLOBAL_DLLIST_EX_eq del: domIff)
qed

lemma intern_link_ok:
  assumes st: "stored ht L kvs" and m: "nTableMask ht \<noteq> 0" and ag: "aged (nTableMask ht) (arBuckets ht) (cells ht) L" and ip: "pInternalPointer ht = None"
    and p: "p \<notin> dom (cells ht)" and ok: "bucket_ok p b" "\<not> out_of_line (pData b)" and new: "bkey b \<notin> fst ` set kvs" and room: "Suc (length L) < 2 ^ 32"
  obtains ht' where "intern_link p (slot_index (nTableMask ht) (bkt_h b)) (ht\<lparr>cells := (cells ht)(p \<mapsto> b)\<rparr>) = Some ht'"
    "stored (ht'\<lparr>nNumOfElements := nNumOfElements ht' + 1\<rparr>) (L @ [p]) (kvs @ [bentry b])"
    "aged (nTableMask ht') (arBuckets ht') (cells ht') (L @ [p])" "pInternalPointer ht' = None" "nTableMask ht' = nTableMask ht"
    "same_info ((cells ht)(p \<mapsto> b)) (cells ht')"
proof -
  note w = wf_listD [OF storedD(1) [OF st]]
  let ?c = "(cells ht)(p \<mapsto> b)"
  let ?h1 = "ht\<lparr>cells := ?c\<rparr>"
  have pL: "p \<notin> set L" using p w(2) by simp
  have ag1: "aged (nTableMask ?h1) (arBuckets ?h1) (cells ?h1) L" using aged_cong [OF ag, of ?c] pL by (fastforce simp del: not_None_eq)
  obtain c2 ar where r: "rehash_bucket p ?h1 = Some (?h1\<lparr>cells := c2, arBuckets := ar\<rparr>)" "aged (nTableMask ?h1) ar c2 (L @ [p])" "same_list (cells ?h1) c2"
    by (rule rehash_bucket_aged [OF ag1, of p]) (use pL in simp_all)
  let ?h2 = "?h1\<lparr>cells := c2, arBuckets := ar\<rparr>"
  have d2: "dom c2 = insert p (set L)" using same_infoD(5) [OF same_list_info [OF r(3)]] w(2) by simp
  have "linked (fld pListNext ?c) (fld pListLast ?c) L"
    using w(1) pL by (subst linked_cong [where nx = "fld pListNext (cells ht)" and pv = "fld pListLast (cells ht)"]) (auto simp: glist_def)
  then have g2: "glist ?h2 (L @ [])" using r(3) w(1) by (simp add: glist_def same_list_def)
  obtain c3 where g: "CONNECT_TO_GLOBAL_DLLIST_EX p (last_of L) (first_of []) ?h2 =
       Some (?h2\<lparr>cells := c3, pListHead := first_of (L @ p # []), pListTail := last_of (L @ p # [])\<rparr>)" "same_chain (cells ?h2) c3"
    by (rule CONNECT_TO_GLOBAL_DLLIST_EX_ok [OF g2]) (use d2 pL in auto)
  let ?h3 = "?h2\<lparr>cells := c3, pListHead := first_of (L @ [p]), pListTail := Some p\<rparr>"
  have tl: "pListTail ht = last_of L" "pListHead ht = first_of L" using w(1) by (simp_all add: glist_def)
  obtain h0 where sl: "slot_get ?h1 (slot_index (nTableMask ht) (bkt_h b)) = Some h0" "set_option h0 \<subseteq> dom ?c"
  proof -
    let ?i = "slot_index (nTableMask ht) (bkt_h b)" and ?C = "\<lambda>i. rev (filter (\<lambda>q. slot_of (nTableMask ht) ?c q = Some i) L)"
    have i: "?i \<le> unat (nTableMask ht)" by simp
    have cl: "chain_lists (nTableMask ht) (arBuckets ht) ?c (set L) ?C" using ag1 by (simp add: aged_def)
    have "slot_get ?h1 ?i = Some (first_of (?C ?i))" using chain_listsD(1) [OF cl] chain_listsD(3) [OF cl i] i by (simp add: slot_get_def less_Suc_eq_le)
    moreover have fs: "set_option (first_of xs) \<subseteq> set xs" for xs :: "ptr list" by (cases xs) simp_all
    have "set (?C ?i) \<subseteq> set L" by auto
    then have "set_option (first_of (?C ?i)) \<subseteq> set L" using fs [of "?C ?i"] by (rule subset_trans [rotated])
    moreover have d: "set L \<subseteq> dom ?c" using w(2) by auto
    ultimately show thesis using that [OF _ subset_trans [OF _ d]] by blast
  qed
  have il: "intern_link p (slot_index (nTableMask ht) (bkt_h b)) ?h1 = Some ?h3"
    using intern_link_eq [of ?h1 p b h0] sl tl r(1) g(1) w(2) last_of_in [of L] by (auto simp: last_of_append)
  obtain h where h: "do { ht \<leftarrow> rehash_bucket p ?h1; CONNECT_TO_GLOBAL_DLLIST p ht } = Some h"
      and sth: "stored (h\<lparr>nNumOfElements := nNumOfElements h + 1\<rparr>) (L @ [p]) (kvs @ [bentry b])"
    by (rule link_bucket_ok [OF st m p ok(1) new room, of ?h1]) (use ok(2) in simp_all)
  have "h = ?h3\<lparr>pInternalPointer := Some p\<rparr>"
    using h r(1) g(1) ip tl by (auto simp: CONNECT_TO_GLOBAL_DLLIST_def)
  then have "stored (?h3\<lparr>nNumOfElements := nNumOfElements ?h3 + 1\<rparr>) (L @ [p]) (kvs @ [bentry b])"
    by (intro stored_cong [OF sth]) (simp_all add: ip)
  moreover have "aged (nTableMask ht) ar c3 (L @ [p])" using aged_same_chain [OF r(2)] g(2) by simp
  moreover have "same_info ?c c3" using r(3) g(2) by (simp add: same_list_def same_chain_def same_info_def)
  ultimately show thesis using that [OF il] ip by simp
qed

section \<open>Interning\<close>

lemma interned_match_iff:
  assumes "bucket_ok p b" "str_arg key len"
  shows "interned_match key len (zend_inline_hash_func (chars key)) b \<longleftrightarrow> bkey b = StrKey (chars key)"
  using assms by (auto simp: interned_match_def memcmp_eq_def bkey_def bucket_ok_def str_arg_def split: if_splits)

text \<open>The string at the bucket \<open>p\<close>, as a pointer.\<close>

definition string_at :: "interned_globals \<Rightarrow> ptr \<Rightarrow> key_ptr option" where
  "string_at cg p = fld arKey (cells (interned_strings cg)) p"

lemma placed_snoc: "placed c a ps t \<Longrightarrow> c t = Some (new_bucket h (Interned (t + sizeof_Bucket) s) n (InPtr t)) \<Longrightarrow> s \<noteq> [] \<Longrightarrow>
    placed c a (ps @ [t]) (t + ZEND_MM_ALIGNED_SIZE (sizeof_Bucket + length s))"
  by (auto simp: placed_append new_bucket_def)

lemma string_key:
  assumes i: "intern_ok cg L" and p: "p \<in> set L"
  obtains s where "string_at cg p = Some (Interned (p + sizeof_Bucket) s)" "fld bkey (cells (interned_strings cg)) p = Some (StrKey s)"
proof -
  obtain kvs where k: "stored (interned_strings cg) L kvs" "placed (cells (interned_strings cg)) (interned_strings_start cg) L (interned_strings_top cg)"
    using intern_okE [OF i] by blast
  obtain s where s: "fld arKey (cells (interned_strings cg)) p = Some (Interned (p + sizeof_Bucket) s)" using placed_between(3) [OF k(2) p] by blast
  then obtain b where b: "cells (interned_strings cg) p = Some b" "arKey b = Interned (p + sizeof_Bucket) s" by (auto simp: fld_def)
  have "bucket_ok p b" using storedD(4) [OF k(1)] b(1) by blast
  then have "bkey b = StrKey s" using b(2) by (auto simp: bkey_def bucket_ok_def split: if_splits)
  then show thesis using that s b by (simp add: string_at_def)
qed

text \<open>The limits of the area.\<close>

definition frame :: "interned_globals \<Rightarrow> nat \<times> nat" where
  "frame cg = (interned_strings_start cg, interned_strings_end cg)"

definition intern_find :: "interned_globals \<Rightarrow> ptr list \<Rightarrow> byte list \<Rightarrow> ptr option" where
  "intern_find cg L s = find (\<lambda>p. map_option chars (string_at cg p) = Some s) L"

lemma intern_search:
  assumes i: "intern_ok cg L" and a: "str_arg key len"
  shows "chain_search (interned_strings cg) (slot_index (nTableMask (interned_strings cg)) (zend_inline_hash_func (chars key)))
      (interned_match key len (zend_inline_hash_func (chars key))) = Some (intern_find cg L (chars key))"
    "stored (interned_strings cg) L kvs \<Longrightarrow> intern_find cg L s = ptr_of (interned_strings cg) L (StrKey s)"
proof -
  have f: "intern_find cg L s = ptr_of (interned_strings cg) L (StrKey s)" for s
    unfolding intern_find_def ptr_of_def
  proof (rule find_cong)
    fix p assume "p \<in> set L"
    then obtain s' where "string_at cg p = Some (Interned (p + sizeof_Bucket) s')" "fld bkey (cells (interned_strings cg)) p = Some (StrKey s')"
      using string_key [OF i] by blast
    then show "(map_option chars (string_at cg p) = Some s) = (fld bkey (cells (interned_strings cg)) p = Some (StrKey s))" by simp
  qed simp
  obtain kvs where k: "stored (interned_strings cg) L kvs" using intern_okE [OF i] by blast
  have "chain_search (interned_strings cg) (slot_index (nTableMask (interned_strings cg)) (key_hash (StrKey (chars key))))
      (interned_match key len (zend_inline_hash_func (chars key))) = Some (ptr_of (interned_strings cg) L (StrKey (chars key)))"
    by (rule lookup_ok [OF k]) (rule interned_match_iff [OF _ a])
  then show "chain_search (interned_strings cg) (slot_index (nTableMask (interned_strings cg)) (zend_inline_hash_func (chars key)))
      (interned_match key len (zend_inline_hash_func (chars key))) = Some (intern_find cg L (chars key))" by (simp add: key_hash_def f)
  show "intern_find cg L s = ptr_of (interned_strings cg) L (StrKey s)" by (rule f)
qed

lemma intern_new:
  assumes i: "intern_ok cg L" and a: "str_arg key len" "\<not> IS_INTERNED key" and new: "intern_find cg L (chars key) = None"
    and room: "interned_strings_top cg + ZEND_MM_ALIGNED_SIZE (sizeof_Bucket + len) < interned_strings_end cg"
  obtains cg' where "zend_new_interned_string_int key len fs cg = Some (Interned (interned_strings_top cg + sizeof_Bucket) (chars key), fs, cg')"
    "intern_ok cg' (L @ [interned_strings_top cg])" "\<forall>p\<in>set L. string_at cg' p = string_at cg p"
    "string_at cg' (interned_strings_top cg) = Some (Interned (interned_strings_top cg + sizeof_Bucket) (chars key))"
    "interned_strings_snapshot_top cg' = interned_strings_snapshot_top cg" "frame cg' = frame cg"
    "interned_strings_top cg' = interned_strings_top cg + ZEND_MM_ALIGNED_SIZE (sizeof_Bucket + len)"
proof -
  let ?p = "interned_strings_top cg" and ?ht = "interned_strings cg" and ?s = "chars key"
  let ?h = "zend_inline_hash_func ?s" and ?key = "Interned (?p + sizeof_Bucket) ?s" and ?t = "?p + ZEND_MM_ALIGNED_SIZE (sizeof_Bucket + len)"
  let ?b = "new_bucket ?h ?key len (InPtr ?p)"
  obtain kvs where k: "stored ?ht L kvs" "nTableMask ?ht \<noteq> 0" "pInternalPointer ?ht = None" "aged (nTableMask ?ht) (arBuckets ?ht) (cells ?ht) L"
      "placed (cells ?ht) (interned_strings_start cg) L ?p" "interned_strings_end cg \<le> interned_strings_start cg + 2 ^ 20" "Suc (length L) < 2 ^ 32" "?p \<notin> dom (cells ?ht)"
    by (rule intern_okE [OF i]) blast
  have l: "take len ?s = ?s" "length ?s = len" "?s \<noteq> []" using a(1) by (auto simp: str_arg_def)
  have ok: "bucket_ok ?p ?b" "\<not> out_of_line (pData ?b)" "bkt_h ?b = ?h" "bkey ?b = StrKey ?s" using l a(1) by (simp_all add: bucket_ok_def new_bucket_def bkey_def str_arg_def)
  have nk: "bkey ?b \<notin> fst ` set kvs" using ptr_of_None [OF k(1)] intern_search(2) [OF i a(1) k(1)] new ok(4) by simp
  obtain h1 where h1: "intern_link ?p (slot_index (nTableMask ?ht) (bkt_h ?b)) (?ht\<lparr>cells := (cells ?ht)(?p \<mapsto> ?b)\<rparr>) = Some h1"
      "stored (h1\<lparr>nNumOfElements := nNumOfElements h1 + 1\<rparr>) (L @ [?p]) (kvs @ [bentry ?b])"
      "aged (nTableMask h1) (arBuckets h1) (cells h1) (L @ [?p])" "pInternalPointer h1 = None" "nTableMask h1 = nTableMask ?ht"
      "same_info ((cells ?ht)(?p \<mapsto> ?b)) (cells h1)"
    by (rule intern_link_ok [OF k(1,2,4,3,8) ok(1,2) nk k(7)])
  let ?h2 = "h1\<lparr>nNumOfElements := nNumOfElements h1 + 1\<rparr>"
  obtain h3 where h3: "ZEND_HASH_IF_FULL_DO_RESIZE ?h2 = Some h3" "stored h3 (L @ [?p]) (kvs @ [bentry ?b])" "nTableMask h3 \<noteq> 0" "outer h3 = outer ?h2"
      "same_list (cells ?h2) (cells h3)" "h3 = ?h2 \<or> aged (nTableMask h3) (arBuckets h3) (cells h3) (L @ [?p])"
    by (rule resize_aged [OF h1(2)]) (use h1(5) k(2) in simp)
  have info: "same_info ((cells ?ht)(?p \<mapsto> ?b)) (cells h3)" using h1(6) same_list_info [OF h3(5)] by (simp add: same_info_def)
  have ag: "aged (nTableMask h3) (arBuckets h3) (cells h3) (L @ [?p])" using h3(6) h1(3) by auto
  have "placed ((cells ?ht)(?p \<mapsto> ?b)) (interned_strings_start cg) L ?p"
    using k(5) k(8) wf_listD(2) [OF storedD(1) [OF k(1)]] by (subst placed_cong [of L _ "cells ?ht"]) auto
  then have "placed ((cells ?ht)(?p \<mapsto> ?b)) (interned_strings_start cg) (L @ [?p]) ?t" using placed_snoc [of _ _ L ?p ?h ?s len] l by simp
  then have pl: "placed (cells h3) (interned_strings_start cg) (L @ [?p]) ?t"
    by (subst placed_cong [of _ _ "(cells ?ht)(?p \<mapsto> ?b)"]) (simp_all add: same_infoD(7,8) [OF info])
  let ?cg = "cg\<lparr>interned_strings := h3, interned_strings_top := ?t\<rparr>"
  have "pInternalPointer h3 = None" using h3(4) h1(4) by (simp add: outer_def)
  then have "intern_ok ?cg (L @ [?p])" using h3(2,3) ag pl room k(6) by (auto simp: intern_ok_def)
  moreover have "zend_new_interned_string_int key len fs cg = Some (?key, fs, ?cg)"
    using a(2) intern_search(1) [OF i a(1)] new room l h1(1) h3(1) ok(3) by (simp add: zend_new_interned_string_int_def Let_def)
  moreover have "string_at ?cg p = string_at cg p" if "p \<in> set L" for p
    using that same_infoD(7) [OF info] k(8) wf_listD(2) [OF storedD(1) [OF k(1)]] by (auto simp: string_at_def)
  moreover have "string_at ?cg ?p = Some ?key" using same_infoD(7) [OF info] by (simp add: string_at_def new_bucket_def)
  ultimately show thesis using that by (simp add: frame_def)
qed

lemma intern_old:
  assumes i: "intern_ok cg L" and a: "str_arg key len" "\<not> IS_INTERNED key" and p: "intern_find cg L (chars key) = Some p"
  shows "zend_new_interned_string_int key len fs cg = Some (Interned (p + sizeof_Bucket) (chars key), fs, cg)" "p \<in> set L"
proof -
  show pL: "p \<in> set L" using p by (auto simp: intern_find_def find_Some_iff)
  obtain s where s: "string_at cg p = Some (Interned (p + sizeof_Bucket) s)" using string_key [OF i pL] by blast
  have "map_option chars (string_at cg p) = Some (chars key)" using p by (auto simp: intern_find_def find_Some_iff)
  then have sk: "s = chars key" using s by simp
  obtain b where b: "cells (interned_strings cg) p = Some b" "arKey b = Interned (p + sizeof_Bucket) s" using s by (auto simp: string_at_def fld_def)
  have "take len (chars key) = chars key" using a(1) by (simp add: str_arg_def)
  then show "zend_new_interned_string_int key len fs cg = Some (Interned (p + sizeof_Bucket) (chars key), fs, cg)"
    using a(2) intern_search(1) [OF i a(1)] p b sk by (simp add: zend_new_interned_string_int_def Let_def)
qed

lemma intern_full:
  assumes i: "intern_ok cg L" and a: "str_arg key len" "\<not> IS_INTERNED key" and new: "intern_find cg L (chars key) = None"
    and room: "interned_strings_end cg \<le> interned_strings_top cg + ZEND_MM_ALIGNED_SIZE (sizeof_Bucket + len)"
  shows "zend_new_interned_string_int key len fs cg = Some (key, False, cg)"
proof -
  have "take len (chars key) = chars key" using a(1) by (simp add: str_arg_def)
  then show ?thesis using a(2) intern_search(1) [OF i a(1)] new room by (simp add: zend_new_interned_string_int_def Let_def)
qed

section \<open>Restoration\<close>

text \<open>
  While the chains are cut, the buckets \<open>X\<close> have left the table \<open>h0\<close>, whose buckets were \<open>L\<close>; the buckets \<open>H\<close> have become the first of their chains.
\<close>

definition restoring :: "'v HashTable \<Rightarrow> ptr list \<Rightarrow> ptr set \<Rightarrow> ptr set \<Rightarrow> 'v HashTable \<Rightarrow> bool" where
  "restoring h0 L X H ht \<longleftrightarrow> dom (cells ht) = set L - X \<and> distinct L \<and>
     (\<forall>p\<in>set L - X. fld binfo (cells ht) p = fld binfo (cells h0) p \<and> fld pNext (cells ht) p = fld pNext (cells h0) p \<and>
        fld pLast (cells ht) p = (if p \<in> H then Some None else fld pLast (cells h0) p)) \<and>
     glist ht (filter (\<lambda>p. p \<notin> X) L) \<and> nNumOfElements ht = of_nat (length (filter (\<lambda>p. p \<notin> X) L)) \<and>
     nTableMask ht = nTableMask h0 \<and> nTableSize ht = nTableSize h0 \<and> pInternalPointer ht = None \<and> dataBlocks ht = dataBlocks h0"

lemma restoringD:
  assumes "restoring h0 L X H ht"
  shows "dom (cells ht) = set L - X" "distinct L" "\<And>p. p \<in> set L \<Longrightarrow> p \<notin> X \<Longrightarrow> fld binfo (cells ht) p = fld binfo (cells h0) p"
    "\<And>p. p \<in> set L \<Longrightarrow> p \<notin> X \<Longrightarrow> fld pNext (cells ht) p = fld pNext (cells h0) p"
    "\<And>p. p \<in> set L \<Longrightarrow> p \<notin> X \<Longrightarrow> fld pLast (cells ht) p = (if p \<in> H then Some None else fld pLast (cells h0) p)"
    "glist ht (filter (\<lambda>p. p \<notin> X) L)" "nNumOfElements ht = of_nat (length (filter (\<lambda>p. p \<notin> X) L))"
    "nTableMask ht = nTableMask h0" "nTableSize ht = nTableSize h0" "pInternalPointer ht = None" "dataBlocks ht = dataBlocks h0"
  using assms by (auto simp: restoring_def)

lemma restore_bucket_eq:
  assumes "cells ht p = Some b" "pInternalPointer ht = None"
  shows "restore_bucket p b ht = do { ht \<leftarrow> glist_unlink p (ht\<lparr>nNumOfElements := nNumOfElements ht - 1\<rparr>); Some (ht\<lparr>cells := (cells ht)(p := None)\<rparr>) }"
  using assms by (auto simp: restore_bucket_def glist_unlink_def hpoke_def poke_def Let_def split: option.splits bind_splits)

lemma restore_bucket_ok:
  assumes r: "restoring h0 L X H ht" and p: "p \<in> set L" "p \<notin> X" and b: "cells ht p = Some b"
  shows "\<exists>ht'. restore_bucket p b ht = Some ht' \<and> restoring h0 L (insert p X) H ht' \<and> arBuckets ht' = arBuckets ht"
proof -
  note R = restoringD [OF r]
  let ?F = "filter (\<lambda>q. q \<notin> X) L" and ?h = "ht\<lparr>nNumOfElements := nNumOfElements ht - 1\<rparr>"
  obtain xs ys where s: "?F = xs @ p # ys" using p split_list [of p ?F] by auto
  have d: "distinct (xs @ p # ys)" using R(2) s by (metis distinct_filter)
  have fe: "filter (\<lambda>q. q \<notin> insert p X) L = filter (\<lambda>q. q \<noteq> p) ?F" by (auto intro: filter_cong)
  have "\<forall>q\<in>set xs. q \<noteq> p" "\<forall>q\<in>set ys. q \<noteq> p" using d by auto
  then have f': "filter (\<lambda>q. q \<notin> insert p X) L = xs @ ys" unfolding fe s by simp
  have sub: "set (xs @ p # ys) = dom (cells ht)" using R(1) by (auto simp flip: s)
  have "glist ?h (xs @ p # ys)" using R(6) by (simp add: glist_def s)
  then obtain c' where u: "glist_unlink p ?h = Some (?h\<lparr>cells := c', pListHead := first_of (xs @ ys), pListTail := last_of (xs @ ys),
        pInternalPointer := (if pInternalPointer ?h = Some p then first_of ys else pInternalPointer ?h)\<rparr>)"
      "linked (fld pListNext c') (fld pListLast c') (xs @ ys)" "same_chain (cells ?h) c'"
    by (rule glist_unlink_ok) (use sub in auto)
  let ?g = "?h\<lparr>cells := c'(p := None), pListHead := first_of (xs @ ys), pListTail := last_of (xs @ ys)\<rparr>"
  have e: "restore_bucket p b ht = Some ?g"
    using restore_bucket_eq [OF b R(10)] u(1) R(10) by (simp add: ht_unchanged)
  have i: "fld binfo c' = fld binfo (cells ht)" "fld pNext c' = fld pNext (cells ht)" "fld pLast c' = fld pLast (cells ht)" "dom c' = dom (cells ht)"
    using u(3) same_infoD(5) [OF same_chain_info [OF u(3)]] by (simp_all add: same_chain_def same_info_def)
  have "linked (fld pListNext (c'(p := None))) (fld pListLast (c'(p := None))) (xs @ ys)"
    using u(2) d by (subst linked_cong [where nx = "fld pListNext c'" and pv = "fld pListLast c'"]) auto
  then have "glist ?g (filter (\<lambda>q. q \<notin> insert p X) L)" unfolding f' by (simp add: glist_def)
  moreover have "dom (cells ?g) = set L - insert p X" using i(4) R(1) by auto
  moreover have "nNumOfElements ?g = of_nat (length (filter (\<lambda>q. q \<notin> insert p X) L))" unfolding f' using R(7) by (simp add: s)
  ultimately have "restoring h0 L (insert p X) H ?g" using R i(1-3) by (simp add: restoring_def)
  then show ?thesis using e by auto
qed

lemma restore_chain_ok:
  assumes "restoring h0 L X H ht" "linked (fld pNext (cells h0)) pv (zs @ ys @ us)" "set (ys @ us) \<subseteq> set L - X"
    "\<And>p. p \<in> set ys \<Longrightarrow> \<exists>a s. fld arKey (cells h0) p = Some (Interned a s) \<and> limit < a"
    "\<And>p. p \<in> set us \<Longrightarrow> \<exists>a s. fld arKey (cells h0) p = Some (Interned a s) \<and> a \<le> limit"
  shows "\<exists>ht'. restore_chain limit (first_of (ys @ us)) ht = Some (first_of us, ht') \<and> restoring h0 L (X \<union> set ys) H ht' \<and> arBuckets ht' = arBuckets ht"
  using assms
proof (induction ys arbitrary: X zs ht)
  case Nil
  show ?case
  proof (cases us)
    case Nil
    then show ?thesis using Nil.prems(1) by (simp add: restore_chain.simps)
  next
    case (Cons p us')
    have p: "p \<in> set L" "p \<notin> X" using Nil.prems(3) Cons by auto
    obtain a s where a: "fld arKey (cells h0) p = Some (Interned a s)" "a \<le> limit" using Nil.prems(5) [of p] Cons by auto
    obtain b where b: "cells ht p = Some b" using restoringD(1) [OF Nil.prems(1)] p by blast
    have "arKey b = Interned a s" using restoringD(3) [OF Nil.prems(1) p] b a(1) by (cases "cells h0 p") (auto simp: fld_def binfo_def)
    then show ?thesis using b a(2) Nil.prems(1) Cons by (simp add: restore_chain.simps)
  qed
next
  case (Cons p ys)
  have p: "p \<in> set L" "p \<notin> X" using Cons.prems(3) by auto
  obtain a s where a: "fld arKey (cells h0) p = Some (Interned a s)" "limit < a" using Cons.prems(4) [of p] by auto
  obtain b where b: "cells ht p = Some b" using restoringD(1) [OF Cons.prems(1)] p by blast
  have k: "arKey b = Interned a s" using restoringD(3) [OF Cons.prems(1) p] b a(1) by (cases "cells h0 p") (auto simp: fld_def binfo_def)
  have "linked (fld pNext (cells h0)) pv (zs @ p # (ys @ us))" using Cons.prems(2) by simp
  then have n: "pNext b = first_of (ys @ us)" using linked_split(1) [of "fld pNext (cells h0)" pv zs p "ys @ us"] restoringD(4) [OF Cons.prems(1) p] b
    by (auto simp: fld_def)
  obtain h1 where h1: "restore_bucket p b ht = Some h1" "restoring h0 L (insert p X) H h1" "arBuckets h1 = arBuckets ht"
    using restore_bucket_ok [OF Cons.prems(1) p b] by blast
  have "p \<notin> set (ys @ us)" using linked_distinct [OF Cons.prems(2)] by auto
  then have sub: "set ys \<subseteq> set L - insert p X" "set us \<subseteq> set L - insert p X" using Cons.prems(3) by auto
  obtain h2 where "restore_chain limit (first_of (ys @ us)) h1 = Some (first_of us, h2)" "restoring h0 L (insert p X \<union> set ys) H h2" "arBuckets h2 = arBuckets h1"
    using Cons.IH [OF h1(2), of "zs @ [p]"] Cons.prems(2,4,5) sub by auto
  then show ?case using b k a(2) h1 n by (simp add: restore_chain.simps)
qed

text \<open>The table before restoration: the buckets \<open>L0\<close> are older than the snapshot, \<open>L1\<close> newer.\<close>

definition splits_at :: "nat \<Rightarrow> 'v HashTable \<Rightarrow> ptr list \<Rightarrow> ptr list \<Rightarrow> bool" where
  "splits_at limit h0 L0 L1 \<longleftrightarrow> aged (nTableMask h0) (arBuckets h0) (cells h0) (L0 @ L1) \<and> distinct (L0 @ L1) \<and>
     (\<forall>p\<in>set L0. \<exists>a s. fld arKey (cells h0) p = Some (Interned a s) \<and> a \<le> limit) \<and>
     (\<forall>p\<in>set L1. \<exists>a s. fld arKey (cells h0) p = Some (Interned a s) \<and> limit < a)"

definition old_chain :: "'v HashTable \<Rightarrow> ptr list \<Rightarrow> nat \<Rightarrow> ptr list" where
  "old_chain h0 L0 i = rev (filter (\<lambda>p. slot_of (nTableMask h0) (cells h0) p = Some i) L0)"

definition gone :: "'v HashTable \<Rightarrow> ptr list \<Rightarrow> nat \<Rightarrow> ptr set" where
  "gone h0 L1 i = {p \<in> set L1. \<exists>j<i. slot_of (nTableMask h0) (cells h0) p = Some j}"

definition heads :: "'v HashTable \<Rightarrow> ptr list \<Rightarrow> nat \<Rightarrow> ptr set" where
  "heads h0 L0 i = {p. \<exists>j<i. first_of (old_chain h0 L0 j) = Some p}"

definition restored_to :: "'v HashTable \<Rightarrow> ptr list \<Rightarrow> ptr list \<Rightarrow> nat \<Rightarrow> 'v HashTable \<Rightarrow> bool" where
  "restored_to h0 L0 L1 i ht \<longleftrightarrow> restoring h0 (L0 @ L1) (gone h0 L1 i) (heads h0 L0 i) ht \<and> length (arBuckets ht) = length (arBuckets h0) \<and>
     (\<forall>j < length (arBuckets h0). arBuckets ht ! j = (if j < i then Some (first_of (old_chain h0 L0 j)) else arBuckets h0 ! j))"

lemma gone_Suc: "gone h0 L1 (Suc i) = gone h0 L1 i \<union> set (filter (\<lambda>p. slot_of (nTableMask h0) (cells h0) p = Some i) L1)"
  by (auto simp: gone_def less_Suc_eq)

lemma heads_Suc: "heads h0 L0 (Suc i) = heads h0 L0 i \<union> set_option (first_of (old_chain h0 L0 i))"
  by (auto simp: heads_def less_Suc_eq)

lemma restoring_head:
  assumes r: "restoring h0 L X H ht" and q: "q \<in> set L" "q \<notin> X"
  shows "\<exists>ht'. hpoke q (\<lambda>b. b\<lparr>pLast := None\<rparr>) ht = Some ht' \<and> restoring h0 L X (insert q H) ht' \<and> arBuckets ht' = arBuckets ht"
proof -
  note R = restoringD [OF r]
  have d: "q \<in> dom (cells ht)" using R(1) q by blast
  let ?c = "modify q (\<lambda>b. b\<lparr>pLast := None\<rparr>) (cells ht)"
  have f: "fld pLast ?c = (fld pLast (cells ht))(q \<mapsto> None)" "fld binfo ?c = fld binfo (cells ht)" "fld pNext ?c = fld pNext (cells ht)"
      "fld pListNext ?c = fld pListNext (cells ht)" "fld pListLast ?c = fld pListLast (cells ht)"
    using d by (simp_all add: binfo_def del: domIff)
  have "restoring h0 L X (insert q H) (ht\<lparr>cells := ?c\<rparr>)"
    using R f unfolding restoring_def by (auto simp: glist_def simp del: domIff)
  then show ?thesis using d by (auto simp del: domIff)
qed

lemma restore_slot_ok:
  assumes sp: "splits_at limit h0 L0 L1" and r: "restored_to h0 L0 L1 i ht" and i: "i < length (arBuckets h0)"
  shows "\<exists>ht'. restore_slot limit i ht = Some ht' \<and> restored_to h0 L0 L1 (Suc i) ht'"
proof -
  let ?m = "nTableMask h0" and ?L = "L0 @ L1" and ?old = "old_chain h0 L0 i"
  let ?new = "rev (filter (\<lambda>p. slot_of ?m (cells h0) p = Some i) L1)"
  have R: "restoring h0 ?L (gone h0 L1 i) (heads h0 L0 i) ht" using r by (simp add: restored_to_def)
  have cl: "chain_lists ?m (arBuckets h0) (cells h0) (set ?L) (\<lambda>i. rev (filter (\<lambda>p. slot_of ?m (cells h0) p = Some i) ?L))"
    using sp by (simp add: splits_at_def aged_def)
  have im: "i \<le> unat ?m" using i chain_listsD(1) [OF cl] by simp
  have C: "rev (filter (\<lambda>p. slot_of ?m (cells h0) p = Some i) ?L) = ?new @ ?old" by (simp add: old_chain_def)
  have g: "slot_get ht i = Some (first_of (?new @ ?old))"
    using chain_listsD(3) [OF cl im] r i by (simp add: restored_to_def slot_get_def C del: filter_append)
  have li: "linked (fld pNext (cells h0)) (fld pLast (cells h0)) ([] @ ?new @ ?old)" using chain_listsD(4) [OF cl im] unfolding C by simp
  have dj: "set L0 \<inter> set L1 = {}" using sp by (simp add: splits_at_def)
  have sub: "set (?new @ ?old) \<subseteq> set ?L - gone h0 L1 i" using dj by (auto simp: gone_def old_chain_def)
  have ad: "\<exists>a s. fld arKey (cells h0) p = Some (Interned a s) \<and> limit < a" if "p \<in> set ?new" for p
    using sp that by (auto simp: splits_at_def)
  have ao: "\<exists>a s. fld arKey (cells h0) p = Some (Interned a s) \<and> a \<le> limit" if "p \<in> set ?old" for p
    using sp that by (auto simp: splits_at_def old_chain_def)
  obtain h1 where h1: "restore_chain limit (first_of (?new @ ?old)) ht = Some (first_of ?old, h1)"
      "restoring h0 ?L (gone h0 L1 i \<union> set ?new) (heads h0 L0 i) h1" "arBuckets h1 = arBuckets ht"
    using restore_chain_ok [OF R li sub ad ao] by blast
  have gs: "gone h0 L1 i \<union> set ?new = gone h0 L1 (Suc i)" by (simp add: gone_Suc)
  have "\<exists>h2. (case first_of ?old of None \<Rightarrow> Some h1 | Some q \<Rightarrow> hpoke q (\<lambda>b. b\<lparr>pLast := None\<rparr>) h1) = Some h2 \<and>
      restoring h0 ?L (gone h0 L1 (Suc i)) (heads h0 L0 (Suc i)) h2 \<and> arBuckets h2 = arBuckets ht"
  proof (cases "first_of ?old")
    case None
    then show ?thesis using h1(2) [unfolded gs] h1(3) by (simp add: heads_Suc)
  next
    case (Some q)
    have "q \<in> set ?old" using first_of_in [OF Some] .
    then have q: "q \<in> set ?L" "q \<notin> gone h0 L1 (Suc i)" using dj by (auto simp: old_chain_def gone_def)
    then show ?thesis using restoring_head [OF h1(2) [unfolded gs] q] h1(3) Some by (simp add: heads_Suc)
  qed
  then obtain h2 where h2: "(case first_of ?old of None \<Rightarrow> Some h1 | Some q \<Rightarrow> hpoke q (\<lambda>b. b\<lparr>pLast := None\<rparr>) h1) = Some h2"
      "restoring h0 ?L (gone h0 L1 (Suc i)) (heads h0 L0 (Suc i)) h2" "arBuckets h2 = arBuckets ht" by blast
  let ?h = "h2\<lparr>arBuckets := (arBuckets h2)[i := Some (first_of ?old)]\<rparr>"
  have len: "i < length (arBuckets h2)" using r i h2(3) by (simp add: restored_to_def)
  have "restore_slot limit i ht = Some ?h" using g h1(1) h2(1) len by (simp add: restore_slot_def)
  moreover have "restoring h0 ?L (gone h0 L1 (Suc i)) (heads h0 L0 (Suc i)) ?h" using h2(2) by (simp add: restoring_def glist_def)
  then have "restored_to h0 L0 L1 (Suc i) ?h" using r h2(3) len by (auto simp: restored_to_def nth_list_update less_Suc_eq)
  ultimately show ?thesis by blast
qed

lemma restore_slots_ok:
  assumes sp: "splits_at limit h0 L0 L1"
  shows "restored_to h0 L0 L1 i ht \<Longrightarrow> i + n = length (arBuckets h0) \<Longrightarrow>
    \<exists>ht'. restore_slots limit [i..<i + n] ht = Some ht' \<and> restored_to h0 L0 L1 (i + n) ht'"
proof (induction n arbitrary: i ht)
  case (Suc n)
  obtain h1 where h1: "restore_slot limit i ht = Some h1" "restored_to h0 L0 L1 (Suc i) h1"
    using restore_slot_ok [OF sp Suc.prems(1)] Suc.prems(2) by auto
  obtain h2 where "restore_slots limit [Suc i..<Suc i + n] h1 = Some h2" "restored_to h0 L0 L1 (Suc i + n) h2"
    using Suc.IH [OF h1(2)] Suc.prems(2) by auto
  then show ?case using h1(1) by (simp add: upt_conv_Cons del: upt_Suc)
qed simp

lemma linked_suffix:
  assumes "linked nx pv (xs @ ys)"
  shows "linked nx (upd_opt (first_of ys) None pv) ys"
proof -
  have d: "distinct (xs @ ys)" using assms by blast
  have "nx p = Some (nxt_of ys p)" "upd_opt (first_of ys) None pv p = Some (prv_of ys p)" if "p \<in> set ys" for p
  proof -
    have p: "nx p = Some (nxt_of (xs @ ys) p)" "pv p = Some (prv_of (xs @ ys) p)" using assms that by (auto simp: linked_def)
    show "nx p = Some (nxt_of ys p)" using p(1) that by (simp add: nxt_of_append [OF d])
    have "p \<notin> set xs" using d that by auto
    moreover have "prv_of ys p = None" if "first_of ys = Some p" using that d by (cases ys) (auto simp: prv_of_Cons)
    ultimately show "upd_opt (first_of ys) None pv p = Some (prv_of ys p)"
      using p(2) that by (auto simp: upd_opt_apply prv_of_append [OF d])
  qed
  then show ?thesis using d by (simp add: linked_def)
qed

text \<open>A table that has been cut back holds exactly the older buckets.\<close>

lemma restored_chains:
  assumes sp: "splits_at limit h0 L0 L1" and r: "restored_to h0 L0 L1 (length (arBuckets h0)) ht"
  shows "gone h0 L1 (length (arBuckets h0)) = set L1" "aged (nTableMask ht) (arBuckets ht) (cells ht) L0"
proof -
  let ?m = "nTableMask h0" and ?L = "L0 @ L1" and ?n = "length (arBuckets h0)"
  have cl: "chain_lists ?m (arBuckets h0) (cells h0) (set ?L) (\<lambda>i. rev (filter (\<lambda>p. slot_of ?m (cells h0) p = Some i) ?L))"
    using sp by (simp add: splits_at_def aged_def)
  have n: "?n = Suc (unat ?m)" by (rule chain_listsD(1) [OF cl])
  have sl: "\<exists>j<?n. slot_of ?m (cells h0) p = Some j" if p: "p \<in> set ?L" for p
  proof -
    obtain b where "cells h0 p = Some b" using chain_listsD(2) [OF cl] p by blast
    then show ?thesis by (simp add: n less_Suc_eq_le)
  qed
  then show gone: "gone h0 L1 ?n = set L1" by (auto simp: gone_def)
  note R = restoringD [OF r [unfolded restored_to_def, THEN conjunct1], unfolded gone]
  have dj: "set L0 \<inter> set L1 = {}" using sp by (simp add: splits_at_def)
  have old: "p \<in> set ?L" "p \<notin> set L1" if "p \<in> set L0" for p using that dj by auto
  have h: "fld bkt_h (cells ht) p = fld bkt_h (cells h0) p" if "p \<in> set L0" for p
    using R(3) [OF old [OF that]] by (cases "cells ht p"; cases "cells h0 p") (auto simp: fld_def binfo_def)
  have F: "filter (\<lambda>p. slot_of ?m (cells ht) p = Some i) L0 = filter (\<lambda>p. slot_of ?m (cells h0) p = Some i) L0" for i
    using h by (auto simp: slot_of_h intro: filter_cong)
  show "aged (nTableMask ht) (arBuckets ht) (cells ht) L0"
    unfolding aged_def R(8) F
  proof (rule chain_listsI)
    show "length (arBuckets ht) = Suc (unat ?m)" using r n by (simp add: restored_to_def)
    show "set L0 \<subseteq> dom (cells ht)" using R(1) dj by auto
    fix i assume i: "i \<le> unat ?m"
    have oc: "rev (filter (\<lambda>p. slot_of ?m (cells h0) p = Some i) L0) = old_chain h0 L0 i" by (simp add: old_chain_def)
    show "arBuckets ht ! i = Some (first_of (rev (filter (\<lambda>p. slot_of ?m (cells h0) p = Some i) L0)))"
      unfolding oc using r i n by (simp add: restored_to_def)
    show "set (rev (filter (\<lambda>p. slot_of ?m (cells h0) p = Some i) L0)) = {p \<in> set L0. slot_of ?m (cells ht) p = Some i}"
      using h by (auto simp: slot_of_h)
    show "linked (fld pNext (cells ht)) (fld pLast (cells ht)) (rev (filter (\<lambda>p. slot_of ?m (cells h0) p = Some i) L0))"
    proof -
      have "rev (filter (\<lambda>p. slot_of ?m (cells h0) p = Some i) ?L) = rev (filter (\<lambda>p. slot_of ?m (cells h0) p = Some i) L1) @ old_chain h0 L0 i"
        by (simp add: old_chain_def)
      then have "linked (fld pNext (cells h0)) (fld pLast (cells h0)) (rev (filter (\<lambda>p. slot_of ?m (cells h0) p = Some i) L1) @ old_chain h0 L0 i)"
        using chain_listsD(4) [OF cl i] by simp
      then have li: "linked (fld pNext (cells h0)) (upd_opt (first_of (old_chain h0 L0 i)) None (fld pLast (cells h0))) (old_chain h0 L0 i)"
        by (rule linked_suffix)
      have hd: "p \<in> heads h0 L0 ?n \<longleftrightarrow> first_of (old_chain h0 L0 i) = Some p" if p: "p \<in> set (old_chain h0 L0 i)" for p
      proof
        assume "p \<in> heads h0 L0 ?n"
        then obtain j where j: "first_of (old_chain h0 L0 j) = Some p" by (auto simp: heads_def)
        then have "slot_of ?m (cells h0) p = Some j" "slot_of ?m (cells h0) p = Some i" using first_of_in [OF j] p by (auto simp: old_chain_def)
        then show "first_of (old_chain h0 L0 i) = Some p" using j by simp
      qed (use i n in \<open>auto simp: heads_def less_Suc_eq_le\<close>)
      have "fld pNext (cells ht) p = fld pNext (cells h0) p \<and> fld pLast (cells ht) p = upd_opt (first_of (old_chain h0 L0 i)) None (fld pLast (cells h0)) p"
        if p: "p \<in> set (old_chain h0 L0 i)" for p
      proof -
        have "p \<in> set L0" using p by (auto simp: old_chain_def)
        then show ?thesis using R(4,5) [OF old] hd [OF p] by (simp add: upd_opt_apply)
      qed
      then show ?thesis unfolding oc using linked_cong li by blast
    qed
  qed
qed

lemma placed_prefix:
  assumes "placed c a (L0 @ L1) t" "placed c a L0 m"
  shows "placed c m L1 t"
proof -
  have "placed c a ps m1 \<Longrightarrow> placed c a ps m2 \<Longrightarrow> m1 = m2" for ps m1 m2 by (induction ps arbitrary: a) auto
  then show ?thesis using assms by (auto simp: placed_append)
qed

lemma splits_at_snapshot:
  assumes i: "intern_ok cg (L0 @ L1)" and pl: "placed (cells (interned_strings cg)) (interned_strings_start cg) L0 m"
  shows "splits_at m (interned_strings cg) L0 L1"
proof -
  obtain kvs where k: "stored (interned_strings cg) (L0 @ L1) kvs"
      "aged (nTableMask (interned_strings cg)) (arBuckets (interned_strings cg)) (cells (interned_strings cg)) (L0 @ L1)"
      "placed (cells (interned_strings cg)) (interned_strings_start cg) (L0 @ L1) (interned_strings_top cg)"
    by (rule intern_okE [OF i]) blast
  have p1: "placed (cells (interned_strings cg)) m L1 (interned_strings_top cg)" by (rule placed_prefix [OF k(3) pl])
  have "\<exists>a s. fld arKey (cells (interned_strings cg)) p = Some (Interned a s) \<and> a \<le> m" if "p \<in> set L0" for p
    using placed_between(2,3) [OF pl that] by (metis less_imp_le)
  moreover have "\<exists>a s. fld arKey (cells (interned_strings cg)) p = Some (Interned a s) \<and> m < a" if "p \<in> set L1" for p
  proof -
    have "m < p + sizeof_Bucket" using placed_between(1) [OF p1 that] by (simp add: sizeof_Bucket_def)
    then show ?thesis using placed_between(3) [OF p1 that] by blast
  qed
  ultimately show ?thesis using k(2) wf_listD(7) [OF storedD(1) [OF k(1)]] by (simp add: splits_at_def)
qed

lemma binfo_fields:
  assumes "fld binfo c p = fld binfo d p"
  shows "fld arKey c p = fld arKey d p" "fld pData c p = fld pData d p" "fld bentry c p = fld bentry d p"
    "c p = Some b \<Longrightarrow> \<exists>b'. d p = Some b' \<and> bucket_ok p b = bucket_ok p b'"
  using assms by (cases "c p"; cases "d p"; auto simp: fld_def binfo_def bentry_def bkey_def bucket_ok_def)+

lemma restored_stored:
  assumes st: "stored h0 (L0 @ L1) kvs" and m: "nTableMask h0 \<noteq> 0"
    and inl: "\<And>p. p \<in> set (L0 @ L1) \<Longrightarrow> fld pData (cells h0) p = Some (InPtr p)"
    and sp: "splits_at limit h0 L0 L1" and r: "restored_to h0 L0 L1 (length (arBuckets h0)) ht"
  shows "stored ht L0 (take (length L0) kvs)"
proof -
  note R = restoringD [OF r [unfolded restored_to_def, THEN conjunct1], unfolded restored_chains(1) [OF sp r]]
  have dj: "set L0 \<inter> set L1 = {}" using sp by (simp add: splits_at_def)
  have f: "filter (\<lambda>p. p \<notin> set L1) (L0 @ L1) = L0" using dj by (auto simp: filter_id_conv)
  have b: "fld binfo (cells ht) p = fld binfo (cells h0) p" if "p \<in> set L0" for p using R(3) that dj by auto
  have d: "dom (cells ht) = set L0" using R(1) dj by auto
  have in0: "fld pData (cells ht) p = Some (InPtr p)" if "p \<in> set L0" for p using binfo_fields(2) [OF b [OF that]] inl that by simp
  have bl: "blocks c L = 0" if "\<And>p. p \<in> set L \<Longrightarrow> fld pData c p = Some (InPtr p)" for c :: "ptr \<rightharpoonup> ptr bucket" and L
    using that by (fastforce simp: blocks_def filter_empty_conv fld_def)
  have "dataBlocks ht = blocks (cells ht) L0"
    using R(11) wf_listD(6) [OF storedD(1) [OF st]] bl [of "L0 @ L1" "cells h0", OF inl] bl [of L0 "cells ht", OF in0] by simp
  then have wf: "wf_list ht L0"
    using R(6,7,10) d wf_listD(4) [OF storedD(1) [OF st]] unfolding f by (simp add: wf_list_def)
  have "sized ht" using storedD(2) [OF st] m R(8,9) by (simp add: sized_def)
  moreover have "slot_chains (nTableMask ht) (arBuckets ht) (cells ht) (set L0)" by (rule aged_chains [OF restored_chains(2) [OF sp r]])
  moreover have "bucket_ok p c" if "cells ht p = Some c" for p c
    using binfo_fields(4) [OF b that] storedD(4) [OF st] that d by blast
  moreover have "map (fld bentry (cells ht)) L0 = map Some (take (length L0) kvs)"
  proof -
    have "map (fld bentry (cells ht)) L0 = map (fld bentry (cells h0)) L0" using binfo_fields(3) [OF b] by simp
    also have "\<dots> = take (length L0) (map (fld bentry (cells h0)) (L0 @ L1))" by simp
    finally show ?thesis unfolding storedD(5) [OF st] take_map .
  qed
  moreover have "distinct (map fst (take (length L0) kvs))" using storedD(6) [OF st] by (simp flip: take_map)
  ultimately show ?thesis using wf by (simp add: stored_def)
qed

lemma restore_ok:
  assumes i: "intern_ok cg (L0 @ L1)"
    and pl: "placed (cells (interned_strings cg)) (interned_strings_start cg) L0 (interned_strings_snapshot_top cg)"
  obtains cg' where "zend_interned_strings_restore_int cg = Some cg'" "intern_ok cg' L0" "\<forall>p\<in>set L0. string_at cg' p = string_at cg p"
    "interned_strings_top cg' = interned_strings_snapshot_top cg" "interned_strings_snapshot_top cg' = interned_strings_snapshot_top cg" "frame cg' = frame cg"
proof -
  let ?h0 = "interned_strings cg" and ?snap = "interned_strings_snapshot_top cg"
  obtain kvs where k: "stored ?h0 (L0 @ L1) kvs" "nTableMask ?h0 \<noteq> 0" "pInternalPointer ?h0 = None"
      "placed (cells ?h0) (interned_strings_start cg) (L0 @ L1) (interned_strings_top cg)"
      "interned_strings_top cg \<le> interned_strings_end cg" "interned_strings_end cg \<le> interned_strings_start cg + 2 ^ 20"
    by (rule intern_okE [OF i]) blast
  have sp: "splits_at ?snap ?h0 L0 L1" by (rule splits_at_snapshot [OF i pl])
  note w = wf_listD [OF storedD(1) [OF k(1)]]
  have e: "gone ?h0 L1 0 = {}" "heads ?h0 L0 0 = {}" by (simp_all add: gone_def heads_def)
  have "filter (\<lambda>p. p \<notin> {}) (L0 @ L1) = L0 @ L1" by simp
  then have "restored_to ?h0 L0 L1 0 ?h0" using w k(3) by (simp add: restored_to_def restoring_def e)
  then obtain ht where ht: "restore_slots ?snap [0..<length (arBuckets ?h0)] ?h0 = Some ht" "restored_to ?h0 L0 L1 (length (arBuckets ?h0)) ht"
    using restore_slots_ok [OF sp, of 0 ?h0 "length (arBuckets ?h0)"] by auto
  have "nTableMask ?h0 = nTableSize ?h0 - 1" using storedD(2) [OF k(1)] k(2) by (simp add: sized_def)
  then have len: "length (arBuckets ?h0) = unat (nTableSize ?h0)"
    using sp sizedD(2) [OF storedD(2) [OF k(1)]] chain_listsD(1) by (fastforce simp: splits_at_def aged_def)
  let ?cg = "cg\<lparr>interned_strings_top := ?snap, interned_strings := ht\<rparr>"
  have "zend_interned_strings_restore_int cg = Some ?cg" using ht(1) by (simp add: zend_interned_strings_restore_int_def Let_def len)
  moreover note R = restoringD [OF ht(2) [unfolded restored_to_def, THEN conjunct1], unfolded restored_chains(1) [OF sp ht(2)]]
  have dj: "set L0 \<inter> set L1 = {}" using sp by (simp add: splits_at_def)
  have b: "fld binfo (cells ht) p = fld binfo (cells ?h0) p" if "p \<in> set L0" for p using R(3) that dj by auto
  have st: "stored ht L0 (take (length L0) kvs)"
    by (rule restored_stored [OF k(1,2) _ sp ht(2)]) (rule placed_between(4) [OF k(4)])
  have "placed (cells ht) (interned_strings_start cg) L0 ?snap" using pl binfo_fields(1,2) [OF b] by (subst placed_cong [of L0 _ "cells ?h0"]) auto
  moreover have "?snap \<le> interned_strings_top cg" using placed_size [OF placed_prefix [OF k(4) pl]] by simp
  ultimately have "intern_ok ?cg L0" using st R(8,10) k(2,5,6) restored_chains(2) [OF sp ht(2)] by (auto simp: intern_ok_def)
  moreover have "\<forall>p\<in>set L0. string_at ?cg p = string_at cg p" using binfo_fields(1) [OF b] by (simp add: string_at_def)
  ultimately show thesis using that [of ?cg] \<open>zend_interned_strings_restore_int cg = Some ?cg\<close> by (simp add: frame_def)
qed

section \<open>Programs that intern strings\<close>

text \<open>
  One call: the table grows at its end at most, and the result is either the one pointer to these characters
  or, with the area full, the argument.
\<close>

definition pointer_to :: "interned_globals \<Rightarrow> ptr list \<Rightarrow> key_ptr \<Rightarrow> key_ptr \<Rightarrow> bool" where
  "pointer_to cg L key r \<longleftrightarrow> chars r = chars key \<and> (if IS_INTERNED r then \<exists>p\<in>set L. string_at cg p = Some r else r = key)"

definition extends :: "interned_globals \<Rightarrow> interned_globals \<Rightarrow> ptr list \<Rightarrow> bool" where
  "extends cg cg' L \<longleftrightarrow> (\<forall>p\<in>set L. string_at cg' p = string_at cg p) \<and> frame cg' = frame cg \<and>
     interned_strings_snapshot_top cg' = interned_strings_snapshot_top cg"

lemma extends_refl [simp]: "extends cg cg L"
  by (simp add: extends_def)

lemma extends_trans: "extends a b L \<Longrightarrow> extends b c (L @ L') \<Longrightarrow> extends a c L"
  by (simp add: extends_def)

lemma pointer_to_extends: "pointer_to cg L key r \<Longrightarrow> extends cg cg' L \<Longrightarrow> pointer_to cg' (L @ L') key r"
  by (auto simp: pointer_to_def extends_def split: if_splits) (metis UnI1)

definition string_size :: "nat \<Rightarrow> nat" where
  "string_size len = ZEND_MM_ALIGNED_SIZE (sizeof_Bucket + len)"

lemma intern_step:
  assumes i: "intern_ok cg L" and a: "str_arg key len" "\<not> IS_INTERNED key"
  obtains r d cg' L' where "zend_new_interned_string_int key len fs cg = Some (r, d, cg')" "intern_ok cg' (L @ L')" "extends cg cg' L"
    "pointer_to cg' (L @ L') key r" "interned_strings_top cg' \<le> interned_strings_top cg + string_size len"
    "interned_strings_top cg + string_size len < interned_strings_end cg \<Longrightarrow> IS_INTERNED r"
proof (cases "intern_find cg L (chars key)")
  case (Some p)
  note o = intern_old [OF i a Some]
  obtain s where s: "string_at cg p = Some (Interned (p + sizeof_Bucket) s)" using string_key [OF i o(2)] by blast
  have "s = chars key" using Some s by (auto simp: intern_find_def find_Some_iff)
  then have "pointer_to cg (L @ []) key (Interned (p + sizeof_Bucket) (chars key))" using s o(2) by (auto simp: pointer_to_def)
  then show thesis using that [of _ _ cg "[]"] o(1) [of fs] i by simp
next
  case None
  show thesis
  proof (cases "interned_strings_top cg + ZEND_MM_ALIGNED_SIZE (sizeof_Bucket + len) < interned_strings_end cg")
    case True
    obtain cg' where n: "zend_new_interned_string_int key len fs cg = Some (Interned (interned_strings_top cg + sizeof_Bucket) (chars key), fs, cg')"
        "intern_ok cg' (L @ [interned_strings_top cg])" "\<forall>p\<in>set L. string_at cg' p = string_at cg p"
        "string_at cg' (interned_strings_top cg) = Some (Interned (interned_strings_top cg + sizeof_Bucket) (chars key))"
        "interned_strings_snapshot_top cg' = interned_strings_snapshot_top cg" "frame cg' = frame cg"
        "interned_strings_top cg' = interned_strings_top cg + ZEND_MM_ALIGNED_SIZE (sizeof_Bucket + len)"
      by (rule intern_new [OF i a None True])
    show thesis by (rule that [OF n(1,2)]) (use n(3-7) in \<open>simp_all add: extends_def pointer_to_def string_size_def\<close>)
  next
    case False
    then have "zend_new_interned_string_int key len fs cg = Some (key, False, cg)" by (intro intern_full [OF i a None]) simp
    moreover have "pointer_to cg (L @ []) key key" using a(2) by (simp add: pointer_to_def)
    ultimately show thesis using that [of key False cg "[]"] i False by (simp add: string_size_def)
  qed
qed

primrec intern_all :: "(key_ptr \<times> nat \<times> bool) list \<Rightarrow> interned_globals \<Rightarrow> (key_ptr list \<times> interned_globals) option" where
  "intern_all [] cg = Some ([], cg)"
| "intern_all (a # as) cg =
     (case a of (key, len, fs) \<Rightarrow> do { (r, _, cg) \<leftarrow> zend_new_interned_string_int key len fs cg;
                                     (rs, cg) \<leftarrow> intern_all as cg;
                                     Some (r # rs, cg) })"

definition fresh_arg :: "key_ptr \<times> nat \<times> bool \<Rightarrow> bool" where
  "fresh_arg a \<longleftrightarrow> (case a of (key, len, fs) \<Rightarrow> str_arg key len \<and> \<not> IS_INTERNED key)"

lemma intern_all_ok:
  "intern_ok cg L \<Longrightarrow> list_all fresh_arg as \<Longrightarrow>
     \<exists>rs cg' L'. intern_all as cg = Some (rs, cg') \<and> intern_ok cg' (L @ L') \<and> extends cg cg' L \<and>
       list_all2 (\<lambda>a r. pointer_to cg' (L @ L') (fst a) r) as rs \<and>
       (interned_strings_top cg + (\<Sum>a\<leftarrow>as. string_size (fst (snd a))) < interned_strings_end cg \<longrightarrow> list_all IS_INTERNED rs)"
proof (induction as arbitrary: cg L)
  case Nil
  then show ?case by (auto intro: exI [of _ "[]"])
next
  case (Cons a as)
  obtain key len fs where a: "a = (key, len, fs)" by (cases a)
  have k: "str_arg key len" "\<not> IS_INTERNED key" using Cons.prems(2) a by (simp_all add: fresh_arg_def)
  obtain r d c1 L1 where s: "zend_new_interned_string_int key len fs cg = Some (r, d, c1)" "intern_ok c1 (L @ L1)" "extends cg c1 L"
      "pointer_to c1 (L @ L1) key r" "interned_strings_top c1 \<le> interned_strings_top cg + string_size len"
      "interned_strings_top cg + string_size len < interned_strings_end cg \<Longrightarrow> IS_INTERNED r"
    by (rule intern_step [OF Cons.prems(1) k, of fs]) blast
  obtain rs c2 L2 where t: "intern_all as c1 = Some (rs, c2)" "intern_ok c2 ((L @ L1) @ L2)" "extends c1 c2 (L @ L1)"
      "list_all2 (\<lambda>a r. pointer_to c2 ((L @ L1) @ L2) (fst a) r) as rs"
      "interned_strings_top c1 + (\<Sum>a\<leftarrow>as. string_size (fst (snd a))) < interned_strings_end c1 \<longrightarrow> list_all IS_INTERNED rs"
    using Cons.IH [OF s(2)] Cons.prems(2) by auto
  have "intern_all (a # as) cg = Some (r # rs, c2)" using s(1) t(1) a by simp
  moreover have "pointer_to c2 (L @ L1 @ L2) (fst a) r" using pointer_to_extends [OF s(4) t(3)] a by simp
  moreover have "list_all IS_INTERNED (r # rs)"
    if "interned_strings_top cg + (\<Sum>a\<leftarrow>a # as. string_size (fst (snd a))) < interned_strings_end cg"
  proof -
    have "interned_strings_end c1 = interned_strings_end cg" using s(3) by (simp add: extends_def frame_def)
    then show ?thesis using that s(5,6) t(5) a by simp
  qed
  ultimately show ?case using extends_trans [OF s(3) t(3)] t(2,4) by fastforce
qed

lemma strings_distinct:
  assumes i: "intern_ok cg L" and p: "p \<in> set L" "string_at cg p = Some r" and q: "q \<in> set L" "string_at cg q = Some r'"
  shows "key_addr r = key_addr r' \<longleftrightarrow> chars r = chars r'"
proof -
  obtain kvs where k: "stored (interned_strings cg) L kvs" by (rule intern_okE [OF i])
  obtain s where s: "string_at cg p = Some (Interned (p + sizeof_Bucket) s)" "fld bkey (cells (interned_strings cg)) p = Some (StrKey s)"
    by (rule string_key [OF i p(1)])
  obtain s' where s': "string_at cg q = Some (Interned (q + sizeof_Bucket) s')" "fld bkey (cells (interned_strings cg)) q = Some (StrKey s')"
    by (rule string_key [OF i q(1)])
  have "inj_on (fld bkey (cells (interned_strings cg))) (set L)"
  proof -
    have "map (fld bkey (cells (interned_strings cg))) L = map Some (map fst kvs)" using fld_bkey_entries [OF storedD(5) [OF k]] by simp
    moreover have "distinct (map Some (map fst kvs))" using storedD(6) [OF k] by (simp add: distinct_map inj_on_def)
    ultimately show ?thesis by (metis distinct_map)
  qed
  then have "p = q \<longleftrightarrow> s = s'" using s(2) s'(2) p(1) q(1) by (metis hkey.inject(2) inj_onD option.inject)
  then show ?thesis using s(1) s'(1) p(2) q(2) by auto
qed

lemma pointers_distinct:
  assumes i: "intern_ok cg L" and p: "pointer_to cg L k r" "pointer_to cg L k' r'" "IS_INTERNED r" "IS_INTERNED r'"
  shows "key_addr r = key_addr r' \<longleftrightarrow> chars k = chars k'"
proof -
  obtain p q where "p \<in> set L" "string_at cg p = Some r" "q \<in> set L" "string_at cg q = Some r'" using p by (auto simp: pointer_to_def)
  from strings_distinct [OF i this] show ?thesis using p(1,2) by (simp add: pointer_to_def)
qed

section \<open>Start\<close>

lemma intern_init:
  obtains cg' where "zend_interned_strings_init start cg = Some cg'" "intern_ok cg' [start]"
    "string_at cg' start = Some (Interned (start + sizeof_Bucket) [0])" "interned_empty_string cg' = Interned (start + sizeof_Bucket) [0]"
    "frame cg' = (start, start + 2 ^ 20)" "interned_strings_snapshot_top cg' = start"
proof -
  define h where "h = (interned_strings cg)\<lparr>nTableSize := 8, pDestructor := False, pListHead := None, pListTail := None, nNumOfElements := 0, nNextFreeElement := 0,
            pInternalPointer := None, persistent := True, nApplyCount := 0,
            bApplyProtection := True, cells := Map.empty, destroyed := [], dataBlocks := 0, nTableMask := 7, arBuckets := replicate 8 (Some None)\<rparr>"
  let ?c = "cg\<lparr>interned_strings_start := start, interned_strings_top := start, interned_strings_snapshot_top := start,
                      interned_strings_end := start + 1048576, interned_strings := h\<rparr>"
  have sz: "sized h" by (auto simp: sized_def h_def intro: exI [of _ 3])
  have ag: "aged (nTableMask h) (arBuckets h) (cells h) []" using aged_Nil [of 7 "cells h"] by (simp add: h_def)
  have "wf_list h []" by (simp add: wf_list_def glist_def h_def blocks_def)
  then have "stored h [] []" using sz aged_chains [OF ag] by (simp add: stored_def h_def)
  then have i: "intern_ok ?c []" using ag by (auto simp: intern_ok_def h_def)
  have t: "interned_strings_top ?c + ZEND_MM_ALIGNED_SIZE (sizeof_Bucket + 1) < interned_strings_end ?c" by (simp add: ZEND_MM_ALIGNED_SIZE_def sizeof_Bucket_def)
  obtain c' where c: "zend_new_interned_string_int (Foreign 0 [0]) 1 False ?c = Some (Interned (start + sizeof_Bucket) [0], False, c')"
      "intern_ok c' [start]" "string_at c' start = Some (Interned (start + sizeof_Bucket) [0])"
      "interned_strings_snapshot_top c' = start" "frame c' = (start, start + 1048576)"
    using intern_new [OF i _ _ _ t, of "Foreign 0 [0]" False] by (auto simp: str_arg_def intern_find_def frame_def)
  have "table_shift 0 3 = Some 3" by code_simp
  then have "zend_interned_strings_init start cg = Some (c'\<lparr>interned_empty_string := Interned (start + sizeof_Bucket) [0]\<rparr>)"
    using c(1) by (simp add: zend_interned_strings_init_def zend_hash_init_def Let_def h_def)
  moreover have "intern_ok (c'\<lparr>interned_empty_string := e\<rparr>) [start]" for e using c(2) by (simp add: intern_ok_def)
  ultimately show thesis using that c(3-5) by (simp add: string_at_def frame_def)
qed

section \<open>Tables that hold the same strings\<close>

definition same_strings :: "interned_globals \<Rightarrow> interned_globals \<Rightarrow> ptr list \<Rightarrow> bool" where
  "same_strings cg cg' L \<longleftrightarrow> intern_ok cg L \<and> intern_ok cg' L \<and> (\<forall>p\<in>set L. string_at cg' p = string_at cg p) \<and> frame cg' = frame cg \<and>
     interned_strings_top cg' = interned_strings_top cg"

lemma same_strings_find: "same_strings cg cg' L \<Longrightarrow> intern_find cg' L s = intern_find cg L s"
  unfolding intern_find_def by (rule find_cong) (simp_all add: same_strings_def)

lemma intern_same:
  assumes s: "same_strings cg cg' L" and a: "str_arg key len" "\<not> IS_INTERNED key"
  obtains r d c c' L' where "zend_new_interned_string_int key len fs cg = Some (r, d, c)" "zend_new_interned_string_int key len fs cg' = Some (r, d, c')"
    "same_strings c c' (L @ L')"
proof (cases "intern_find cg L (chars key)")
  case (Some p)
  have i: "intern_ok cg L" "intern_ok cg' L" using s by (simp_all add: same_strings_def)
  have "intern_find cg' L (chars key) = Some p" using same_strings_find [OF s] Some by simp
  then show thesis using that [of _ _ cg cg' "[]"] intern_old(1) [OF i(1) a Some] intern_old(1) [OF i(2) a] s by simp
next
  case None
  have i: "intern_ok cg L" "intern_ok cg' L" using s by (simp_all add: same_strings_def)
  have n: "intern_find cg' L (chars key) = None" using same_strings_find [OF s] None by simp
  have e: "interned_strings_top cg' = interned_strings_top cg" "interned_strings_end cg' = interned_strings_end cg"
    using s by (simp_all add: same_strings_def frame_def)
  show thesis
  proof (cases "interned_strings_top cg + ZEND_MM_ALIGNED_SIZE (sizeof_Bucket + len) < interned_strings_end cg")
    case True
    have True': "interned_strings_top cg' + ZEND_MM_ALIGNED_SIZE (sizeof_Bucket + len) < interned_strings_end cg'" using True e by simp
    obtain c where c: "zend_new_interned_string_int key len fs cg = Some (Interned (interned_strings_top cg + sizeof_Bucket) (chars key), fs, c)"
        "intern_ok c (L @ [interned_strings_top cg])" "\<forall>p\<in>set L. string_at c p = string_at cg p"
        "string_at c (interned_strings_top cg) = Some (Interned (interned_strings_top cg + sizeof_Bucket) (chars key))"
        "frame c = frame cg" "interned_strings_top c = interned_strings_top cg + ZEND_MM_ALIGNED_SIZE (sizeof_Bucket + len)"
      by (rule intern_new [OF i(1) a None True])
    obtain c' where c': "zend_new_interned_string_int key len fs cg' = Some (Interned (interned_strings_top cg' + sizeof_Bucket) (chars key), fs, c')"
        "intern_ok c' (L @ [interned_strings_top cg'])" "\<forall>p\<in>set L. string_at c' p = string_at cg' p"
        "string_at c' (interned_strings_top cg') = Some (Interned (interned_strings_top cg' + sizeof_Bucket) (chars key))"
        "frame c' = frame cg'" "interned_strings_top c' = interned_strings_top cg' + ZEND_MM_ALIGNED_SIZE (sizeof_Bucket + len)"
      by (rule intern_new [OF i(2) a n True'])
    show thesis by (rule that [OF c(1) c'(1) [unfolded e], of "[interned_strings_top cg]"]) (use c(2-6) c'(2-6) s e in \<open>simp add: same_strings_def\<close>)
  next
    case False
    then have "zend_new_interned_string_int key len fs cg = Some (key, False, cg)" by (intro intern_full [OF i(1) a None]) simp
    moreover have "zend_new_interned_string_int key len fs cg' = Some (key, False, cg')" using False e by (intro intern_full [OF i(2) a n]) simp
    ultimately show thesis using that [of key False cg cg' "[]"] s by simp
  qed
qed

lemma intern_all_same:
  "same_strings cg cg' L \<Longrightarrow> list_all fresh_arg as \<Longrightarrow> \<exists>rs c c'. intern_all as cg = Some (rs, c) \<and> intern_all as cg' = Some (rs, c')"
proof (induction as arbitrary: cg cg' L)
  case (Cons a as)
  obtain key len fs where a: "a = (key, len, fs)" by (cases a)
  have k: "str_arg key len" "\<not> IS_INTERNED key" using Cons.prems(2) a by (simp_all add: fresh_arg_def)
  obtain r d c c' L' where s: "zend_new_interned_string_int key len fs cg = Some (r, d, c)" "zend_new_interned_string_int key len fs cg' = Some (r, d, c')"
      "same_strings c c' (L @ L')"
    by (rule intern_same [OF Cons.prems(1) k])
  then show ?case using Cons.IH [OF s(3)] Cons.prems(2) a by auto
qed simp

lemma same_strings_count:
  assumes "same_strings cg cg' L"
  shows "nNumOfElements (interned_strings cg') = nNumOfElements (interned_strings cg)"
proof -
  have i: "intern_ok cg L" "intern_ok cg' L" using assms by (simp_all add: same_strings_def)
  obtain k k' where "stored (interned_strings cg) L k" "stored (interned_strings cg') L k'" using intern_okE [OF i(1)] intern_okE [OF i(2)] by metis
  then show ?thesis using storedD(1) wf_listD(3) by metis
qed

lemma snapshot_ok:
  "intern_ok cg L \<Longrightarrow> intern_ok (zend_interned_strings_snapshot_int cg) L"
  "string_at (zend_interned_strings_snapshot_int cg) p = string_at cg p" "frame (zend_interned_strings_snapshot_int cg) = frame cg"
  "interned_strings_snapshot_top (zend_interned_strings_snapshot_int cg) = interned_strings_top cg"
  by (simp_all add: zend_interned_strings_snapshot_int_def intern_ok_def string_at_def frame_def)

lemma restore_snapshot:
  assumes i: "intern_ok cg L" and i2: "intern_ok cg2 (L @ L2)" and x: "extends (zend_interned_strings_snapshot_int cg) cg2 L"
  obtains cg3 where "zend_interned_strings_restore_int cg2 = Some cg3" "same_strings cg cg3 L"
proof -
  have x': "\<forall>p\<in>set L. string_at cg2 p = string_at cg p" "frame cg2 = frame cg" "interned_strings_snapshot_top cg2 = interned_strings_top cg"
    using x by (simp_all add: extends_def snapshot_ok(2-4))
  have pl: "placed (cells (interned_strings cg)) (interned_strings_start cg) L (interned_strings_top cg)" by (rule intern_okE [OF i])
  have pl2: "placed (cells (interned_strings cg2)) (interned_strings_start cg2) (L @ L2) (interned_strings_top cg2)" by (rule intern_okE [OF i2])
  have "fld arKey (cells (interned_strings cg2)) p = fld arKey (cells (interned_strings cg)) p \<and>
      fld pData (cells (interned_strings cg2)) p = fld pData (cells (interned_strings cg)) p" if "p \<in> set L" for p
    using placed_between(4) [OF pl that] placed_between(4) [OF pl2, of p] x'(1) that by (simp add: string_at_def)
  then have "placed (cells (interned_strings cg2)) (interned_strings_start cg2) L (interned_strings_snapshot_top cg2)"
    using pl x'(2,3) by (subst placed_cong [of L _ "cells (interned_strings cg)"]) (simp_all add: frame_def)
  from restore_ok [OF i2 this] obtain cg3 where r3: "zend_interned_strings_restore_int cg2 = Some cg3" "intern_ok cg3 L"
      "\<forall>p\<in>set L. string_at cg3 p = string_at cg2 p" "interned_strings_top cg3 = interned_strings_snapshot_top cg2" "frame cg3 = frame cg2" by blast
  then show thesis using that [OF r3(1)] i x' by (simp add: same_strings_def)
qed

section \<open>Properties\<close>

text \<open>
  C36: From the start of the engine, interning any sequence of strings succeeds. Every result has the characters of its argument; two
  results in the area are the same address exactly when the arguments have the same characters, so that pointers can be compared instead
  of strings; a result outside the area is the argument itself, and this happens only when the strings no longer fit into the area.
\<close>

theorem intern_canonical:
  assumes "list_all fresh_arg as"
  shows "\<exists>cg rs cg'. zend_interned_strings_init start g = Some cg \<and> intern_all as cg = Some (rs, cg') \<and> length rs = length as \<and>
     (\<forall>i<length as. chars (rs ! i) = chars (fst (as ! i)) \<and> (IS_INTERNED (rs ! i) \<or> rs ! i = fst (as ! i))) \<and>
     (\<forall>i<length as. \<forall>j<length as. IS_INTERNED (rs ! i) \<and> IS_INTERNED (rs ! j) \<longrightarrow>
        (key_addr (rs ! i) = key_addr (rs ! j) \<longleftrightarrow> chars (fst (as ! i)) = chars (fst (as ! j)))) \<and>
     (80 + (\<Sum>a\<leftarrow>as. ZEND_MM_ALIGNED_SIZE (sizeof_Bucket + fst (snd a))) < 2 ^ 20 \<longrightarrow> list_all IS_INTERNED rs)"
proof -
  obtain cg where c: "zend_interned_strings_init start g = Some cg" "intern_ok cg [start]"
      "string_at cg start = Some (Interned (start + sizeof_Bucket) [0])" "frame cg = (start, start + 2 ^ 20)"
    by (rule intern_init)
  have "placed (cells (interned_strings cg)) (interned_strings_start cg) [start] (interned_strings_top cg)" by (rule intern_okE [OF c(2)])
  then have top: "interned_strings_top cg = start + 80" using c(3) by (auto simp: string_at_def ZEND_MM_ALIGNED_SIZE_def sizeof_Bucket_def)
  obtain rs cg' L' where r: "intern_all as cg = Some (rs, cg')" "intern_ok cg' ([start] @ L')"
      "list_all2 (\<lambda>a r. pointer_to cg' ([start] @ L') (fst a) r) as rs"
      "interned_strings_top cg + (\<Sum>a\<leftarrow>as. string_size (fst (snd a))) < interned_strings_end cg \<longrightarrow> list_all IS_INTERNED rs"
    using intern_all_ok [OF c(2) assms] by blast
  have p: "pointer_to cg' ([start] @ L') (fst (as ! i)) (rs ! i)" if "i < length as" for i using list_all2_nthD [OF r(3) that] .
  have "key_addr (rs ! i) = key_addr (rs ! j) \<longleftrightarrow> chars (fst (as ! i)) = chars (fst (as ! j))"
    if "i < length as" "j < length as" "IS_INTERNED (rs ! i)" "IS_INTERNED (rs ! j)" for i j
    by (rule pointers_distinct [OF r(2) p [OF that(1)] p [OF that(2)] that(3,4)])
  moreover have "chars (rs ! i) = chars (fst (as ! i)) \<and> (IS_INTERNED (rs ! i) \<or> rs ! i = fst (as ! i))" if "i < length as" for i
    using p [OF that] by (auto simp: pointer_to_def split: if_splits)
  moreover have "list_all IS_INTERNED rs" if "80 + (\<Sum>a\<leftarrow>as. ZEND_MM_ALIGNED_SIZE (sizeof_Bucket + fst (snd a))) < 2 ^ 20"
    using r(4) that c(4) top by (simp add: frame_def string_size_def)
  moreover have "length rs = length as" using list_all2_lengthD [OF r(3)] by simp
  ultimately show ?thesis using c(1) r(1) by blast
qed

definition sample_globals :: interned_globals where
  "sample_globals = \<lparr>interned_strings = empty_ht, interned_strings_start = 0, interned_strings_end = 0, interned_strings_top = 0,
     interned_strings_snapshot_top = 0, interned_empty_string = NULLKEY\<rparr>"

definition sample_strings :: "(key_ptr \<times> nat \<times> bool) list" where
  "sample_strings = [(Foreign 1 [97, 0], 2, True), (Foreign 2 [98, 0], 2, False), (Foreign 3 [97, 0], 2, False)]"

lemma sample_strings_fresh: "list_all fresh_arg sample_strings"
  by (simp add: sample_strings_def fresh_arg_def str_arg_def)

theorem intern_canonical_witness:
  "list_all fresh_arg sample_strings \<and>
   (\<exists>cg rs cg'. zend_interned_strings_init 4096 sample_globals = Some cg \<and> intern_all sample_strings cg = Some (rs, cg') \<and>
      list_all IS_INTERNED rs \<and> key_addr (rs ! 0) = key_addr (rs ! 2) \<and> key_addr (rs ! 0) \<noteq> key_addr (rs ! 1))"
proof -
  obtain cg rs cg' where r: "zend_interned_strings_init 4096 sample_globals = Some cg" "intern_all sample_strings cg = Some (rs, cg')"
      "length rs = length sample_strings"
      "\<forall>i<length sample_strings. \<forall>j<length sample_strings. IS_INTERNED (rs ! i) \<and> IS_INTERNED (rs ! j) \<longrightarrow>
        (key_addr (rs ! i) = key_addr (rs ! j) \<longleftrightarrow> chars (fst (sample_strings ! i)) = chars (fst (sample_strings ! j)))"
      "80 + (\<Sum>a\<leftarrow>sample_strings. ZEND_MM_ALIGNED_SIZE (sizeof_Bucket + fst (snd a))) < 2 ^ 20 \<longrightarrow> list_all IS_INTERNED rs"
    using intern_canonical [OF sample_strings_fresh, of 4096 sample_globals] by blast
  have a: "list_all IS_INTERNED rs" using r(5) by (simp add: sample_strings_def ZEND_MM_ALIGNED_SIZE_def sizeof_Bucket_def)
  have l: "length rs = 3" using r(3) by (simp add: sample_strings_def)
  then have "IS_INTERNED (rs ! i)" if "i < 3" for i using a that by (simp add: list_all_length)
  then have "key_addr (rs ! i) = key_addr (rs ! j) \<longleftrightarrow> chars (fst (sample_strings ! i)) = chars (fst (sample_strings ! j))"
    if "i < 3" "j < 3" for i j using r(3,4) l that by simp
  from this [of 0 2] this [of 0 1] show ?thesis using sample_strings_fresh r(1,2) a by (auto simp: sample_strings_def)
qed

text \<open>
  C37: The strings of a request are forgotten at its end: after a snapshot, any sequence of calls that intern strings and a restoration, the
  area is as full as at the snapshot, and every later sequence of calls gets the same pointers as it would have got right after the
  snapshot, although the array of slots may have grown in between.
\<close>

theorem intern_snapshot_roundtrip:
  assumes "list_all fresh_arg as" "list_all fresh_arg bs" "list_all fresh_arg cs"
  shows "\<exists>cg0 cg1 cg2 cg3 rs1 rs2 rs. zend_interned_strings_init start g = Some cg0 \<and> intern_all as cg0 = Some (rs1, cg1) \<and>
     intern_all bs (zend_interned_strings_snapshot_int cg1) = Some (rs2, cg2) \<and> zend_interned_strings_restore_int cg2 = Some cg3 \<and>
     interned_strings_top cg3 = interned_strings_top cg1 \<and> nNumOfElements (interned_strings cg3) = nNumOfElements (interned_strings cg1) \<and>
     map_option fst (intern_all cs cg1) = Some rs \<and> map_option fst (intern_all cs cg3) = Some rs"
proof -
  obtain cg0 where c: "zend_interned_strings_init start g = Some cg0" "intern_ok cg0 [start]" by (rule intern_init)
  obtain rs1 cg1 L where r1: "intern_all as cg0 = Some (rs1, cg1)" "intern_ok cg1 L" using intern_all_ok [OF c(2) assms(1)] by blast
  obtain rs2 cg2 L2 where r2: "intern_all bs (zend_interned_strings_snapshot_int cg1) = Some (rs2, cg2)" "intern_ok cg2 (L @ L2)"
      "extends (zend_interned_strings_snapshot_int cg1) cg2 L"
    using intern_all_ok [OF snapshot_ok(1) [OF r1(2)] assms(2)] by blast
  obtain cg3 where r3: "zend_interned_strings_restore_int cg2 = Some cg3" "same_strings cg1 cg3 L"
    by (rule restore_snapshot [OF r1(2) r2(2,3)])
  obtain rs c c' where "intern_all cs cg1 = Some (rs, c)" "intern_all cs cg3 = Some (rs, c')" using intern_all_same [OF r3(2) assms(3)] by blast
  moreover have "interned_strings_top cg3 = interned_strings_top cg1" using r3(2) by (simp add: same_strings_def)
  ultimately show ?thesis using c(1) r1(1) r2(1) r3(1) same_strings_count [OF r3(2)] by auto
qed

theorem intern_snapshot_roundtrip_witness:
  "list_all fresh_arg sample_strings \<and> list_all fresh_arg [(Foreign 4 [99, 0], 2, True)] \<and>
   (\<exists>cg0 cg1 cg2 cg3 rs1 rs2. zend_interned_strings_init 4096 sample_globals = Some cg0 \<and> intern_all sample_strings cg0 = Some (rs1, cg1) \<and>
     intern_all [(Foreign 4 [99, 0], 2, True)] (zend_interned_strings_snapshot_int cg1) = Some (rs2, cg2) \<and>
     zend_interned_strings_restore_int cg2 = Some cg3 \<and> interned_strings_top cg3 = interned_strings_top cg1 \<and>
     map_option fst (intern_all sample_strings cg3) = map_option fst (intern_all sample_strings cg1))"
proof -
  have f: "list_all fresh_arg [(Foreign 4 [99, 0], 2, True)]" by (simp add: fresh_arg_def str_arg_def)
  show ?thesis
    using intern_snapshot_roundtrip [OF sample_strings_fresh f sample_strings_fresh, of 4096 sample_globals] sample_strings_fresh f by fastforce
qed

end
