(* ===== verification/Zend_Mm.thy ===== *)
theory Zend_Mm
  imports Zend_Prelude
begin

unbundle bit_operations_syntax

text \<open>
  The memory manager (\<^verbatim>\<open>zend_alloc.c\<close>, in a release build: no debug information, no cookies, unlinking checked).

  Memory is flat: a partial map from addresses to 64-bit values, with 0 for \<^verbatim>\<open>NULL\<close>; the addresses with an entry are the multiples of 8
  inside the segments that the manager holds and inside its heap structure. A load or store elsewhere is a fault (\<open>None\<close>), and so is
  \<^verbatim>\<open>zend_mm_panic\<close>. Blocks are not records of the model: a field of a block is the cell at its offset, so that headers, free-list links and the data
  of the program share one memory, as in C.

  Of the heap structure, the arrays and \<^verbatim>\<open>segments_list\<close>, whose addresses the code takes, are cells of this memory at their offsets;
  the other fields are fields of the record. Sizes and addresses are natural numbers, with wrap-around to 64 bits written out where the code may
  exceed them.
\<close>

section \<open>Memory\<close>

record mm_heap =
  mem :: "nat \<rightharpoonup> nat"
  haddr :: nat
  free_bitmap :: nat
  large_free_bitmap :: nat
  block_size :: nat
  real_size :: nat
  real_peak :: nat
  limit :: nat
  heap_size :: nat
  peak :: nat
  reserve_size :: nat
  reserve :: nat
  overflow :: nat
  cached :: nat
  rest_count :: int

definition ld :: "mm_heap \<Rightarrow> nat \<Rightarrow> nat option" where
  "ld h a = mem h a"

definition st :: "nat \<Rightarrow> nat \<Rightarrow> mm_heap \<Rightarrow> mm_heap option" where
  "st a v h = (if a \<in> dom (mem h) then Some (h\<lparr>mem := (mem h)(a \<mapsto> v)\<rparr>) else None)"

definition size_t :: "nat \<Rightarrow> nat" where
  "size_t n = n mod 2 ^ 64"

text \<open>The fields of a block, as addresses.\<close>

abbreviation (input) info_size :: "nat \<Rightarrow> nat" where "info_size b \<equiv> b"
abbreviation (input) info_prev :: "nat \<Rightarrow> nat" where "info_prev b \<equiv> b + 8"
abbreviation (input) prev_free_block :: "nat \<Rightarrow> nat" where "prev_free_block b \<equiv> b + 16"
abbreviation (input) next_free_block :: "nat \<Rightarrow> nat" where "next_free_block b \<equiv> b + 24"
abbreviation (input) parent :: "nat \<Rightarrow> nat" where "parent b \<equiv> b + 32"

definition child :: "nat \<Rightarrow> bool \<Rightarrow> nat" where
  "child b i = (if i then b + 48 else b + 40)"

text \<open>The parts of the heap structure, as addresses.\<close>

definition segments_list :: "nat \<Rightarrow> nat" where
  "segments_list hp = hp + 64"

definition cache :: "nat \<Rightarrow> nat \<Rightarrow> nat" where
  "cache hp i = hp + 152 + 8 * i"

definition free_buckets :: "nat \<Rightarrow> nat \<Rightarrow> nat" where
  "free_buckets hp i = hp + 664 + 8 * i"

definition large_free_buckets :: "nat \<Rightarrow> nat \<Rightarrow> nat" where
  "large_free_buckets hp i = hp + 1688 + 8 * i"

definition rest_buckets :: "nat \<Rightarrow> nat \<Rightarrow> nat" where
  "rest_buckets hp i = hp + 2200 + 8 * i"

definition sizeof_heap :: nat where
  "sizeof_heap = 2224"

definition ZEND_MM_SMALL_FREE_BUCKET :: "nat \<Rightarrow> nat \<Rightarrow> nat" where
  "ZEND_MM_SMALL_FREE_BUCKET hp i = free_buckets hp (i * 2) + 8 * 2 - 32"

definition ZEND_MM_REST_BUCKET :: "nat \<Rightarrow> nat" where
  "ZEND_MM_REST_BUCKET hp = rest_buckets hp 0 + 8 * 2 - 32"

definition ZEND_MM_REST_BLOCK :: nat where
  "ZEND_MM_REST_BLOCK = 1"

definition ZEND_MM_MAX_REST_BLOCKS :: int where
  "ZEND_MM_MAX_REST_BLOCKS = 16"

definition ZEND_MM_NUM_BUCKETS :: nat where
  "ZEND_MM_NUM_BUCKETS = 64"

definition ZEND_MM_CACHE_SIZE :: nat where
  "ZEND_MM_CACHE_SIZE = ZEND_MM_NUM_BUCKETS * 4 * 1024"

section \<open>Blocks and sizes\<close>

definition ZEND_MM_FREE_BLOCK :: nat where "ZEND_MM_FREE_BLOCK = 0"
definition ZEND_MM_USED_BLOCK :: nat where "ZEND_MM_USED_BLOCK = 1"
definition ZEND_MM_GUARD_BLOCK :: nat where "ZEND_MM_GUARD_BLOCK = 3"

text \<open>On the value of a size field.\<close>

definition ZEND_MM_BLOCK_SIZE :: "nat \<Rightarrow> nat" where
  "ZEND_MM_BLOCK_SIZE w = w - (w AND 3)"

definition ZEND_MM_IS_FREE_BLOCK :: "nat \<Rightarrow> bool" where
  "ZEND_MM_IS_FREE_BLOCK w \<longleftrightarrow> w AND ZEND_MM_USED_BLOCK = 0"

definition ZEND_MM_IS_GUARD_BLOCK :: "nat \<Rightarrow> bool" where
  "ZEND_MM_IS_GUARD_BLOCK w \<longleftrightarrow> w AND 3 = ZEND_MM_GUARD_BLOCK"

definition ZEND_MM_ALIGNED_HEADER_SIZE :: nat where "ZEND_MM_ALIGNED_HEADER_SIZE = 16"
definition ZEND_MM_ALIGNED_MIN_HEADER_SIZE :: nat where "ZEND_MM_ALIGNED_MIN_HEADER_SIZE = 32"
definition ZEND_MM_ALIGNED_SEGMENT_SIZE :: nat where "ZEND_MM_ALIGNED_SEGMENT_SIZE = 16"
definition ZEND_MM_MIN_SIZE :: nat where "ZEND_MM_MIN_SIZE = 16"
definition ZEND_MM_MAX_SMALL_SIZE :: nat where "ZEND_MM_MAX_SMALL_SIZE = 544"

definition ZEND_MM_TRUE_SIZE :: "nat \<Rightarrow> nat" where
  "ZEND_MM_TRUE_SIZE n = (if n < ZEND_MM_MIN_SIZE then ZEND_MM_ALIGNED_MIN_HEADER_SIZE
     else size_t (n + ZEND_MM_ALIGNED_HEADER_SIZE + 7) div 8 * 8)"

definition ZEND_MM_SMALL_SIZE :: "nat \<Rightarrow> bool" where
  "ZEND_MM_SMALL_SIZE n \<longleftrightarrow> n < ZEND_MM_MAX_SMALL_SIZE"

definition ZEND_MM_BUCKET_INDEX :: "nat \<Rightarrow> nat" where
  "ZEND_MM_BUCKET_INDEX n = drop_bit 3 n - drop_bit 3 ZEND_MM_ALIGNED_MIN_HEADER_SIZE"

definition ZEND_MM_BLOCK :: "nat \<Rightarrow> nat \<Rightarrow> nat \<Rightarrow> mm_heap \<Rightarrow> mm_heap option" where
  "ZEND_MM_BLOCK b type n h = do { h \<leftarrow> st (info_size b) (type OR n) h; st (info_prev (b + n)) (type OR n) h }"

definition ZEND_MM_LAST_BLOCK :: "nat \<Rightarrow> mm_heap \<Rightarrow> mm_heap option" where
  "ZEND_MM_LAST_BLOCK b = st (info_size b) (ZEND_MM_GUARD_BLOCK OR ZEND_MM_ALIGNED_HEADER_SIZE)"

definition ZEND_MM_MARK_FIRST_BLOCK :: "nat \<Rightarrow> mm_heap \<Rightarrow> mm_heap option" where
  "ZEND_MM_MARK_FIRST_BLOCK b = st (info_prev b) ZEND_MM_GUARD_BLOCK"

text \<open>The bit scans, as in the portable code; the second does not return on 0.\<close>

function high_bit_loop :: "nat \<Rightarrow> nat \<Rightarrow> nat" where
  "high_bit_loop n k = (if n = 0 then k else high_bit_loop (n div 2) (k + 1))"
  by pat_completeness auto
termination by (relation "measure fst") auto

declare high_bit_loop.simps [simp del]

definition zend_mm_high_bit :: "nat \<Rightarrow> nat" where
  "zend_mm_high_bit n = high_bit_loop n 0 - 1"

definition low_bit_offset :: "nat list" where
  "low_bit_offset = [4, 0, 1, 0, 2, 0, 1, 0, 3, 0, 1, 0, 2, 0, 1, 0]"

partial_function (option) low_bit_loop :: "nat \<Rightarrow> nat \<Rightarrow> nat option" where
  "low_bit_loop size' index =
     (let n = low_bit_offset ! (size' mod 16) in
      if n = 4 then low_bit_loop (size' div 16) (index + n) else Some (index + n))"

declare low_bit_loop.simps [code]

definition zend_mm_low_bit :: "nat \<Rightarrow> nat option" where
  "zend_mm_low_bit n = low_bit_loop n 0"

definition ZEND_MM_LARGE_BUCKET_INDEX :: "nat \<Rightarrow> nat" where
  "ZEND_MM_LARGE_BUCKET_INDEX = zend_mm_high_bit"

section \<open>Free lists\<close>

text \<open>A block enters a ring of free blocks between two neighbours, and leaves it.\<close>

definition link_between :: "nat \<Rightarrow> nat \<Rightarrow> nat \<Rightarrow> mm_heap \<Rightarrow> mm_heap option" where
  "link_between mm_block prev next' h =
     do { h \<leftarrow> st (prev_free_block mm_block) prev h;
          h \<leftarrow> st (next_free_block mm_block) next' h;
          h \<leftarrow> st (next_free_block prev) mm_block h;
          st (prev_free_block next') mm_block h }"

definition unlink_between :: "nat \<Rightarrow> nat \<Rightarrow> mm_heap \<Rightarrow> mm_heap option" where
  "unlink_between prev next' h = do { h \<leftarrow> st (next_free_block prev) next' h; st (prev_free_block next') prev h }"

text \<open>A large block becomes a node of a tree at the slot \<open>p\<close>.\<close>

definition hang_at :: "nat \<Rightarrow> nat \<Rightarrow> mm_heap \<Rightarrow> mm_heap option" where
  "hang_at p mm_block h =
     do { h \<leftarrow> st p mm_block h;
          h \<leftarrow> st (parent mm_block) p h;
          h \<leftarrow> st (prev_free_block mm_block) mm_block h;
          st (next_free_block mm_block) mm_block h }"

definition shl1 :: "nat \<Rightarrow> nat" where
  "shl1 m = take_bit 64 (push_bit 1 m)"

partial_function (option) add_large_loop :: "nat \<Rightarrow> nat \<Rightarrow> nat \<Rightarrow> nat \<Rightarrow> mm_heap \<Rightarrow> mm_heap option" where
  "add_large_loop p m size' mm_block h =
     Option.bind (ld h p) (\<lambda>prev.
     Option.bind (ld h (info_size prev)) (\<lambda>psize.
       if psize \<noteq> size'
       then let p = child prev (bit m 63) in
            Option.bind (ld h p) (\<lambda>v.
              if v = 0 then hang_at p mm_block h else add_large_loop p (shl1 m) size' mm_block h)
       else Option.bind (ld h (next_free_block prev)) (\<lambda>next'.
            Option.bind (link_between mm_block prev next' h) (\<lambda>h.
            st (parent mm_block) 0 h))))"

declare add_large_loop.simps [code]

definition zend_mm_add_to_free_list :: "nat \<Rightarrow> mm_heap \<Rightarrow> mm_heap option" where
  "zend_mm_add_to_free_list mm_block h =
     do { size' \<leftarrow> ld h (info_size mm_block);
          if \<not> ZEND_MM_SMALL_SIZE size'
          then do { let index = ZEND_MM_LARGE_BUCKET_INDEX size';
                    let p = large_free_buckets (haddr h) index;
                    h \<leftarrow> st (child mm_block True) 0 h;
                    h \<leftarrow> st (child mm_block False) 0 h;
                    v \<leftarrow> ld h p;
                    if v = 0
                    then do { h \<leftarrow> hang_at p mm_block h;
                              Some (h\<lparr>large_free_bitmap := large_free_bitmap h OR push_bit index 1\<rparr>) }
                    else add_large_loop p (take_bit 64 (push_bit (ZEND_MM_NUM_BUCKETS - index) size')) size' mm_block h }
          else do { let index = ZEND_MM_BUCKET_INDEX size';
                    let prev = ZEND_MM_SMALL_FREE_BUCKET (haddr h) index;
                    pp \<leftarrow> ld h (prev_free_block prev);
                    let h = (if pp = prev then h\<lparr>free_bitmap := free_bitmap h OR push_bit index 1\<rparr> else h);
                    next' \<leftarrow> ld h (next_free_block prev);
                    link_between mm_block prev next' h } }"

text \<open>The leaf that replaces a node: the last one that is reached by preferring the right child, and its slot.\<close>

partial_function (option) last_leaf :: "nat \<Rightarrow> nat \<Rightarrow> mm_heap \<Rightarrow> (nat \<times> nat) option" where
  "last_leaf prev rp h =
     Option.bind (ld h (child prev True)) (\<lambda>c1.
     let cp = child prev (c1 \<noteq> 0) in
     Option.bind (ld h cp) (\<lambda>v. if v \<noteq> 0 then last_leaf v cp h else Some (prev, rp)))"

declare last_leaf.simps [code]

definition ZEND_MM_CHECK_TREE :: "nat \<Rightarrow> mm_heap \<Rightarrow> unit option" where
  "ZEND_MM_CHECK_TREE b h = do { p \<leftarrow> ld h (parent b); v \<leftarrow> ld h p; if v \<noteq> b then None else Some () }"

definition subst_child :: "nat \<Rightarrow> nat \<Rightarrow> bool \<Rightarrow> mm_heap \<Rightarrow> mm_heap option" where
  "subst_child prev mm_block i h =
     do { c \<leftarrow> ld h (child mm_block i);
          h \<leftarrow> st (child prev i) c h;
          if c \<noteq> 0 then do { ZEND_MM_CHECK_TREE c h; st (parent c) (child prev i) h } else Some h }"

definition subst_block :: "nat \<Rightarrow> nat \<Rightarrow> mm_heap \<Rightarrow> mm_heap option" where
  "subst_block prev mm_block h =
     do { ZEND_MM_CHECK_TREE mm_block h;
          pa \<leftarrow> ld h (parent mm_block);
          h \<leftarrow> st pa prev h;
          h \<leftarrow> st (parent prev) pa h;
          h \<leftarrow> subst_child prev mm_block False h;
          subst_child prev mm_block True h }"

definition remove_node :: "nat \<Rightarrow> mm_heap \<Rightarrow> mm_heap option" where
  "remove_node mm_block h =
     do { c1 \<leftarrow> ld h (child mm_block True);
          let rp = child mm_block (c1 \<noteq> 0);
          prev \<leftarrow> ld h rp;
          if prev = 0
          then do { size' \<leftarrow> ld h (info_size mm_block);
                    let index = ZEND_MM_LARGE_BUCKET_INDEX size';
                    ZEND_MM_CHECK_TREE mm_block h;
                    pa \<leftarrow> ld h (parent mm_block);
                    h \<leftarrow> st pa 0 h;
                    if pa = large_free_buckets (haddr h) index
                    then Some (h\<lparr>large_free_bitmap := unset_bit index (large_free_bitmap h)\<rparr>)
                    else Some h }
          else do { (prev, rp) \<leftarrow> last_leaf prev rp h;
                    h \<leftarrow> st rp 0 h;
                    subst_block prev mm_block h } }"

definition zend_mm_remove_from_free_list :: "nat \<Rightarrow> mm_heap \<Rightarrow> mm_heap option" where
  "zend_mm_remove_from_free_list mm_block h =
     do { prev \<leftarrow> ld h (prev_free_block mm_block);
          next' \<leftarrow> ld h (next_free_block mm_block);
          if prev = mm_block
          then (if next' \<noteq> mm_block then None else remove_node mm_block h)
          else do { pn \<leftarrow> ld h (next_free_block prev);
                    np \<leftarrow> ld h (prev_free_block next');
                    if pn \<noteq> mm_block \<or> np \<noteq> mm_block then None
                    else do { h \<leftarrow> unlink_between prev next' h;
                              size' \<leftarrow> ld h (info_size mm_block);
                              if ZEND_MM_SMALL_SIZE size'
                              then (if prev = next'
                                    then do { let index = ZEND_MM_BUCKET_INDEX size';
                                              x \<leftarrow> ld h (free_buckets (haddr h) (index * 2));
                                              y \<leftarrow> ld h (free_buckets (haddr h) (index * 2 + 1));
                                              Some (if x = y then h\<lparr>free_bitmap := unset_bit index (free_bitmap h)\<rparr> else h) }
                                    else Some h)
                              else do { pa \<leftarrow> ld h (parent mm_block);
                                        if pa = ZEND_MM_REST_BLOCK then Some (h\<lparr>rest_count := rest_count h - 1\<rparr>)
                                        else if pa \<noteq> 0 then subst_block prev mm_block h
                                        else Some h } } } }"

partial_function (option) rest_overflow_loop :: "mm_heap \<Rightarrow> mm_heap option" where
  "rest_overflow_loop h =
     (if rest_count h \<ge> ZEND_MM_MAX_REST_BLOCKS
      then Option.bind (ld h (rest_buckets (haddr h) 1)) (\<lambda>p.
           Option.bind (ld h (info_size p)) (\<lambda>psize.
           Option.bind (ld h (prev_free_block p)) (\<lambda>prev.
           Option.bind (ld h (next_free_block p)) (\<lambda>next'.
           Option.bind (unlink_between prev next' (if \<not> ZEND_MM_SMALL_SIZE psize then h\<lparr>rest_count := rest_count h - 1\<rparr> else h)) (\<lambda>h.
           Option.bind (zend_mm_add_to_free_list p h) rest_overflow_loop)))))
      else Some h)"

declare rest_overflow_loop.simps [code]

definition zend_mm_add_to_rest_list :: "nat \<Rightarrow> mm_heap \<Rightarrow> mm_heap option" where
  "zend_mm_add_to_rest_list mm_block h =
     do { h \<leftarrow> rest_overflow_loop h;
          size' \<leftarrow> ld h (info_size mm_block);
          h \<leftarrow> (if \<not> ZEND_MM_SMALL_SIZE size'
                then do { h \<leftarrow> st (parent mm_block) ZEND_MM_REST_BLOCK h; Some (h\<lparr>rest_count := rest_count h + 1\<rparr>) }
                else Some h);
          prev \<leftarrow> ld h (rest_buckets (haddr h) 0);
          next' \<leftarrow> ld h (next_free_block prev);
          link_between mm_block prev next' h }"

text \<open>The search in a tree: along the path of the size, remembering the last tree to the right of the path.\<close>

partial_function (option) search_path :: "mm_heap \<Rightarrow> nat \<Rightarrow> nat \<Rightarrow> nat \<Rightarrow> nat \<Rightarrow> nat \<Rightarrow> nat \<Rightarrow> (nat + nat \<times> nat \<times> nat) option" where
  "search_path h true_size p m best_size best_fit rst =
     Option.bind (ld h (info_size p)) (\<lambda>psize.
       if psize = true_size then map_option Inl (ld h (next_free_block p))
       else let (best_size, best_fit) = (if psize \<ge> true_size \<and> psize < best_size then (psize, p) else (best_size, best_fit)) in
         Option.bind (ld h (child p False)) (\<lambda>c0.
         Option.bind (ld h (child p True)) (\<lambda>c1.
           if \<not> bit m 63
           then let rst = (if c1 \<noteq> 0 then c1 else rst) in
                (if c0 \<noteq> 0 then search_path h true_size c0 (shl1 m) best_size best_fit rst
                 else Some (Inr (best_size, best_fit, rst)))
           else if c1 \<noteq> 0 then search_path h true_size c1 (shl1 m) best_size best_fit rst
           else Some (Inr (best_size, best_fit, rst)))))"

partial_function (option) search_rest :: "mm_heap \<Rightarrow> nat \<Rightarrow> nat \<Rightarrow> nat \<Rightarrow> nat \<Rightarrow> (nat + nat) option" where
  "search_rest h true_size p best_size best_fit =
     (if p = 0 then Some (Inr best_fit)
      else Option.bind (ld h (info_size p)) (\<lambda>psize.
        if psize = true_size then map_option Inl (ld h (next_free_block p))
        else let (best_size, best_fit) = (if psize > true_size \<and> psize < best_size then (psize, p) else (best_size, best_fit)) in
          Option.bind (ld h (child p False)) (\<lambda>c0.
          Option.bind (ld h (child p (c0 \<noteq> 0))) (\<lambda>q. search_rest h true_size q best_size best_fit))))"

partial_function (option) search_smallest :: "mm_heap \<Rightarrow> nat \<Rightarrow> nat \<Rightarrow> nat option" where
  "search_smallest h p best_fit =
     Option.bind (ld h (child p False)) (\<lambda>c0.
     Option.bind (ld h (child p (c0 \<noteq> 0))) (\<lambda>q.
       if q = 0 then Some best_fit
       else Option.bind (ld h (info_size q)) (\<lambda>qsize.
            Option.bind (ld h (info_size best_fit)) (\<lambda>bsize.
              search_smallest h q (if qsize < bsize then q else best_fit)))))"

declare search_path.simps [code] search_rest.simps [code] search_smallest.simps [code]

definition search_buckets_above :: "nat \<Rightarrow> nat \<Rightarrow> mm_heap \<Rightarrow> nat option" where
  "search_buckets_above index bitmap h =
     do { k \<leftarrow> zend_mm_low_bit bitmap;
          p \<leftarrow> ld h (large_free_buckets (haddr h) (index + k));
          best_fit \<leftarrow> search_smallest h p p;
          ld h (next_free_block best_fit) }"

definition zend_mm_search_large_block :: "nat \<Rightarrow> mm_heap \<Rightarrow> nat option" where
  "zend_mm_search_large_block true_size h =
     (let index = ZEND_MM_LARGE_BUCKET_INDEX true_size;
          bitmap = drop_bit index (large_free_bitmap h) in
      if bitmap = 0 then Some 0
      else if bitmap AND 1 \<noteq> 0
      then do { p \<leftarrow> ld h (large_free_buckets (haddr h) index);
                r \<leftarrow> search_path h true_size p (take_bit 64 (push_bit (ZEND_MM_NUM_BUCKETS - index) true_size)) (2 ^ 64 - 1) 0 0;
                (case r of
                   Inl q \<Rightarrow> Some q
                 | Inr (best_size, best_fit, rst) \<Rightarrow>
                     do { r \<leftarrow> search_rest h true_size rst best_size best_fit;
                          (case r of
                             Inl q \<Rightarrow> Some q
                           | Inr best_fit \<Rightarrow>
                               if best_fit \<noteq> 0 then ld h (next_free_block best_fit)
                               else let bitmap = drop_bit 1 bitmap in
                                    if bitmap = 0 then Some 0 else search_buckets_above (index + 1) bitmap h) }) }
      else search_buckets_above index bitmap h)"

end
