(* ===== verification/Zend_Mm_Trees.thy ===== *)
theory Zend_Mm_Trees
  imports Zend_Mm
begin

unbundle bit_operations_syntax

text \<open>
  The trees of large free blocks. One tree per power of two; a node is a ring of blocks of one size, and the bits of the size below the
  leading one lead to it from the root, though not necessarily to the end of the path. \<open>ltree\<close> is such a tree, \<open>tree_at\<close> its presence in memory.
\<close>

section \<open>Bits\<close>

lemma high_bit_loop: "0 < n \<Longrightarrow> \<exists>j. high_bit_loop n k = k + Suc j \<and> n div 2 ^ j = 1"
proof (induction n k rule: high_bit_loop.induct)
  case (1 n k)
  show ?case
  proof (cases "n div 2 = 0")
    case True
    then have "n = 1" using "1.prems" by simp
    then show ?thesis using high_bit_loop.simps [of n k] high_bit_loop.simps [of 0 "k + 1"] by (intro exI [of _ 0]) simp
  next
    case False
    then obtain j where "high_bit_loop (n div 2) (k + 1) = k + 1 + Suc j" "n div 2 div 2 ^ j = 1" using "1.IH" "1.prems" by auto
    then show ?thesis using "1.prems" high_bit_loop.simps [of n k] by (intro exI [of _ "Suc j"]) (simp add: div_mult2_eq)
  qed
qed

lemma high_bit_div: "0 < n \<Longrightarrow> n div 2 ^ zend_mm_high_bit n = 1"
  using high_bit_loop [of n 0] by (auto simp: zend_mm_high_bit_def)

lemma div_pow_1: "n div 2 ^ i = 1 \<longleftrightarrow> 2 ^ i \<le> n \<and> n < 2 ^ Suc i" for n :: nat
proof -
  have "n div 2 ^ i = 1 \<longleftrightarrow> 0 < n div 2 ^ i \<and> n div 2 ^ i < 2" by linarith
  then show ?thesis by (simp add: div_greater_zero_iff div_less_iff_less_mult)
qed

lemma high_bit_unique: "n div 2 ^ i = 1 \<longleftrightarrow> 0 < n \<and> i = zend_mm_high_bit n"
proof -
  have "i = j" if "n div 2 ^ i = 1" "n div 2 ^ j = 1" for i j
  proof -
    have "(2 :: nat) ^ i < 2 ^ Suc j" "(2 :: nat) ^ j < 2 ^ Suc i" using that unfolding div_pow_1 by linarith+
    then show ?thesis by (metis less_Suc_eq_le nle_le power_strict_increasing_iff one_less_numeral_iff semiring_norm(76))
  qed
  then show ?thesis using high_bit_div by (metis div_0 gr0I zero_neq_one)
qed

lemma high_bit_less: "0 < n \<Longrightarrow> n < 2 ^ 64 \<Longrightarrow> zend_mm_high_bit n < 64"
proof -
  assume "0 < n" "n < 2 ^ 64"
  then have "2 ^ zend_mm_high_bit n < (2 :: nat) ^ 64" using high_bit_div [of n] unfolding div_pow_1 by linarith
  then show ?thesis by (rule power_less_imp_less_exp [rotated]) simp
qed

lemma low_bits: "j < 4 \<Longrightarrow> bit (n :: nat) j \<longleftrightarrow> bit (n mod 16) j"
  using bit_take_bit_iff [of 4 n j] by (simp add: take_bit_eq_mod)

lemma low_bit_loop: "0 < n \<Longrightarrow> \<exists>k. low_bit_loop n i = Some (i + k) \<and> bit n k \<and> (\<forall>j<k. \<not> bit n j)"
proof (induction n arbitrary: i rule: less_induct)
  case (less n)
  show ?case
  proof (cases "n mod 16 = 0")
    case True
    then have d: "0 < n div 16" "n div 16 < n" using less.prems by auto
    obtain k where k: "low_bit_loop (n div 16) (i + 4) = Some (i + 4 + k)" "bit (n div 16) k" "\<forall>j<k. \<not> bit (n div 16) j"
      using less.IH [OF d(2,1), of "i + 4"] by blast
    have b: "bit (n div 16) j = bit n (4 + j)" for j using bit_drop_bit_eq [of 4 n] by (simp add: drop_bit_eq_div fun_eq_iff comp_def)
    have "\<not> bit n j" if "j < 4 + k" for j
    proof (cases "j < 4")
      case True
      then show ?thesis using low_bits [OF True, of n] \<open>n mod 16 = 0\<close> by simp
    next
      case False
      then obtain j' where "j = 4 + j'" using le_Suc_ex not_less by blast
      then show ?thesis using k(3) that b by auto
    qed
    moreover have "low_bit_loop n i = Some (i + (4 + k))" using k(1) True by (subst low_bit_loop.simps) (simp add: low_bit_offset_def)
    ultimately show ?thesis using k(2) b by blast
  next
    case False
    define r where "r = n mod 16"
    define k where "k = low_bit_offset ! r"
    have "list_all (\<lambda>r. let k = low_bit_offset ! r in k < 4 \<and> bit r k \<and> list_all (\<lambda>j. \<not> bit r j) [0..<k]) [1..<16]" by code_simp
    moreover have "r \<in> set [1..<16]" using False by (simp add: r_def)
    ultimately have k: "k < 4 \<and> bit r k \<and> (\<forall>j<k. \<not> bit r j)" by (auto simp: list_all_iff k_def Let_def)
    then have "low_bit_loop n i = Some (i + k)" by (subst low_bit_loop.simps) (simp add: Let_def k_def r_def)
    moreover have "bit n k" "\<forall>j<k. \<not> bit n j" using k low_bits [of _ n] by (auto simp: r_def)
    ultimately show ?thesis by blast
  qed
qed

text \<open>The bits of a size that are still to be used on a path, at the top of a word.\<close>

definition mshift :: "nat \<Rightarrow> nat \<Rightarrow> nat" where
  "mshift s k = take_bit 64 (push_bit (64 - k) s)"

lemma mshift_bit: "k \<le> 64 \<Longrightarrow> bit (mshift s k) 63 \<longleftrightarrow> 0 < k \<and> bit s (k - 1)"
proof -
  assume k: "k \<le> 64"
  have "63 - (64 - k) = k - 1" if "0 < k" using that k by simp
  then show ?thesis using k by (cases "k = 0") (auto simp: mshift_def bit_take_bit_iff bit_push_bit_iff)
qed

lemma mshift_shl1: "Suc k \<le> 64 \<Longrightarrow> shl1 (mshift s (Suc k)) = mshift s k"
proof -
  assume "Suc k \<le> 64"
  then have "64 - k = Suc (64 - Suc k)" by simp
  then have "push_bit (64 - k) s = push_bit 1 (push_bit (64 - Suc k) s)" by (simp only: push_bit_push_bit plus_1_eq_Suc)
  moreover have "take_bit 64 (push_bit 1 (take_bit 64 x)) = take_bit 64 (push_bit 1 x)" for x :: nat
    by (rule bit_eqI) (unfold bit_take_bit_iff bit_push_bit_iff, auto)
  ultimately show ?thesis unfolding shl1_def mshift_def by (simp only:)
qed

lemma div_pow_Suc: "s div 2 ^ k = 2 * (s div 2 ^ Suc k) + of_bool (bit s k)" for s :: nat
proof -
  have "s div 2 ^ k = 2 * (s div 2 ^ k div 2) + s div 2 ^ k mod 2" by simp
  moreover have "s div 2 ^ k div 2 = s div 2 ^ Suc k" by (simp only: power_Suc2 div_mult2_eq)
  ultimately show ?thesis by (simp add: bit_iff_odd mod_2_eq_odd)
qed

lemma div_less_less: "a div 2 ^ k < b div 2 ^ k \<Longrightarrow> a < b" for a b :: nat
  by (metis div_le_mono leD leI)

section \<open>Trees\<close>

datatype ltree = Lf | Nd nat "nat list" ltree ltree

fun tblocks :: "ltree \<Rightarrow> nat list" where
  "tblocks Lf = []"
| "tblocks (Nd s ps l r) = ps @ tblocks l @ tblocks r"

fun tnodes :: "ltree \<Rightarrow> (nat \<times> nat list) set" where
  "tnodes Lf = {}"
| "tnodes (Nd s ps l r) = insert (s, ps) (tnodes l \<union> tnodes r)"

definition tsizes :: "ltree \<Rightarrow> nat set" where
  "tsizes t = fst ` tnodes t"

lemma tsizes_simps [simp]: "tsizes Lf = {}" "tsizes (Nd s ps l r) = insert s (tsizes l \<union> tsizes r)"
  by (auto simp: tsizes_def)

lemma tnodes_blocks: "(s, ps) \<in> tnodes t \<Longrightarrow> set ps \<subseteq> set (tblocks t)"
  by (induction t) auto

fun twf :: "nat \<Rightarrow> nat \<Rightarrow> ltree \<Rightarrow> bool" where
  "twf k pre Lf \<longleftrightarrow> True"
| "twf k pre (Nd s ps l r) \<longleftrightarrow> s div 2 ^ k = pre \<and> ps \<noteq> [] \<and>
     (case k of 0 \<Rightarrow> l = Lf \<and> r = Lf | Suc j \<Rightarrow> twf j (2 * pre) l \<and> twf j (2 * pre + 1) r)"

lemma twf_sizes: "twf k pre t \<Longrightarrow> x \<in> tsizes t \<Longrightarrow> x div 2 ^ k = pre"
proof (induction k pre t rule: twf.induct)
  case (2 k pre s ps l r)
  show ?case
  proof (cases k)
    case (Suc j)
    have "x div 2 ^ j div 2 = x div 2 ^ k" by (simp only: Suc power_Suc2 div_mult2_eq)
    moreover have "x div 2 ^ j = 2 * pre \<or> x div 2 ^ j = 2 * pre + 1 \<or> x = s" using 2 Suc by auto
    ultimately show ?thesis using "2.prems"(1) by auto
  qed (use 2 in auto)
qed simp

text \<open>Consecutive members of a ring.\<close>

fun chain :: "(nat \<rightharpoonup> nat) \<Rightarrow> nat list \<Rightarrow> bool" where
  "chain m (x # y # zs) \<longleftrightarrow> m (x + 24) = Some y \<and> m (y + 16) = Some x \<and> chain m (y # zs)"
| "chain m _ \<longleftrightarrow> True"

fun tree_at :: "(nat \<rightharpoonup> nat) \<Rightarrow> nat \<Rightarrow> ltree \<Rightarrow> bool" where
  "tree_at m a Lf \<longleftrightarrow> m a = Some 0"
| "tree_at m a (Nd s ps l r) \<longleftrightarrow> ps \<noteq> [] \<and> m a = Some (hd ps) \<and> 0 \<notin> set ps \<and> m (hd ps + 32) = Some a \<and>
     (\<forall>q\<in>set (tl ps). m (q + 32) = Some 0) \<and> (\<forall>q\<in>set ps. m q = Some s) \<and> chain m (ps @ [hd ps]) \<and>
     tree_at m (hd ps + 40) l \<and> tree_at m (hd ps + 48) r"

lemma child_simps [simp]: "child p False = p + 40" "child p True = p + 48"
  by (simp_all add: child_def)

lemma tree_at_root: "tree_at m a t \<Longrightarrow> \<exists>v. m a = Some v \<and> (v = 0 \<longleftrightarrow> t = Lf)"
  by (cases t) (auto simp: neq_Nil_conv)

lemma tree_at_root_node: "tree_at m a t \<Longrightarrow> m a = Some p \<Longrightarrow> p \<noteq> 0 \<Longrightarrow> \<exists>n ps. (n, p # ps) \<in> tnodes t"
  by (cases t) (auto simp: neq_Nil_conv, blast)

text \<open>The successor of a node in its ring is a block of the same node.\<close>

lemma ring_next: "chain m (ps @ [hd ps]) \<Longrightarrow> ps \<noteq> [] \<Longrightarrow> \<exists>q\<in>set ps. m (hd ps + 24) = Some q"
  by (cases ps; cases "tl ps") auto

lemma tree_at_nodes: "tree_at m a t \<Longrightarrow> (s, ps) \<in> tnodes t \<Longrightarrow> ps \<noteq> [] \<and> 0 \<notin> set ps \<and> (\<forall>q\<in>set ps. m q = Some s) \<and> chain m (ps @ [hd ps])"
  by (induction m a t rule: tree_at.induct) auto

section \<open>Searching\<close>

text \<open>The best candidate so far, and the tree that is left to search, while looking for \<open>s\<close> among the nodes \<open>N\<close>.\<close>

definition cand :: "(nat \<times> nat list) set \<Rightarrow> nat \<Rightarrow> nat \<Rightarrow> nat \<Rightarrow> bool" where
  "cand N s bs bf \<longleftrightarrow> bf = 0 \<and> bs = 2 ^ 64 - 1 \<or> bf \<noteq> 0 \<and> (\<exists>ps. (bs, bf # ps) \<in> N) \<and> s \<le> bs"

definition right_of :: "(nat \<rightharpoonup> nat) \<Rightarrow> (nat \<times> nat list) set \<Rightarrow> nat \<Rightarrow> nat \<Rightarrow> bool" where
  "right_of m N s p \<longleftrightarrow> p = 0 \<or> (\<exists>a u. tree_at m a u \<and> m a = Some p \<and> p \<noteq> 0 \<and> tnodes u \<subseteq> N \<and> (\<forall>x\<in>tsizes u. s < x))"

lemma cand_step:
  assumes "cand N s bs bf" "(n, ps) \<in> N" "ps \<noteq> []" "hd ps \<noteq> 0" "n < 2 ^ 64 - 1" "s \<le> n"
  shows "(if n < bs then cand N s n (hd ps) else cand N s bs bf \<and> bf \<noteq> 0)"
  using assms by (cases ps) (auto simp: cand_def)

definition path_result :: "(nat \<rightharpoonup> nat) \<Rightarrow> (nat \<times> nat list) set \<Rightarrow> ltree \<Rightarrow> nat \<Rightarrow> nat \<Rightarrow> nat \<Rightarrow> nat + nat \<times> nat \<times> nat \<Rightarrow> bool" where
  "path_result m N t s bf rst res \<longleftrightarrow>
    (case res of Inl q \<Rightarrow> \<exists>ps. (s, ps) \<in> tnodes t \<and> q \<in> set ps
     | Inr (bs', bf', rst') \<Rightarrow> s \<notin> tsizes t \<and> cand N s bs' bf' \<and> right_of m N s rst' \<and>
         (bf \<noteq> 0 \<or> rst \<noteq> 0 \<or> (\<exists>x\<in>tsizes t. s \<le> x) \<longrightarrow> bf' \<noteq> 0 \<or> rst' \<noteq> 0))"

lemma path_result_up:
  assumes "path_result m N u s bf1 rst1 res" "tnodes u \<subseteq> tnodes t" "s \<in> tsizes t \<Longrightarrow> s \<in> tsizes u"
    "bf \<noteq> 0 \<or> rst \<noteq> 0 \<or> (\<exists>x\<in>tsizes t. s \<le> x) \<Longrightarrow> bf1 \<noteq> 0 \<or> rst1 \<noteq> 0 \<or> (\<exists>x\<in>tsizes u. s \<le> x)"
  shows "path_result m N t s bf rst res"
proof (cases res)
  case (Inl q)
  then show ?thesis using assms(1,2) by (auto simp: path_result_def)
next
  case (Inr x)
  then show ?thesis using assms(1,3,4) unfolding path_result_def by (cases x) auto
qed

lemma path_result_stop:
  assumes "cand N s bs bf'" "right_of m N s rst'" "s \<notin> tsizes t"
    "bf \<noteq> 0 \<or> rst \<noteq> 0 \<or> (\<exists>x\<in>tsizes t. s \<le> x) \<Longrightarrow> bf' \<noteq> 0 \<or> rst' \<noteq> 0"
  shows "path_result m N t s bf rst (Inr (bs, bf', rst'))"
  using assms by (simp add: path_result_def)

lemma search_path_ok:
  assumes "tree_at (mem h) a t" "mem h a = Some p" "p \<noteq> 0" "twf k pre t" "s div 2 ^ k = pre" "k \<le> 64" "tnodes t \<subseteq> N" "\<forall>(n, ps)\<in>N. n < 2 ^ 64 - 1"
    "cand N s bs bf" "right_of (mem h) N s rst"
  shows "\<exists>res. search_path h s p (mshift s k) bs bf rst = Some res \<and> path_result (mem h) N t s bf rst res"
  using assms
proof (induction t arbitrary: a p k pre bs bf rst)
  case Lf
  then show ?case by simp
next
  case (Nd n ps l r)
  let ?t = "Nd n ps l r"
  have p: "ps \<noteq> []" "hd ps = p" "mem h p = Some n" "chain (mem h) (ps @ [hd ps])" "tree_at (mem h) (p + 40) l" "tree_at (mem h) (p + 48) r"
    using Nd.prems(1,2) by auto
  obtain q where q: "q \<in> set ps" "mem h (p + 24) = Some q" using ring_next [OF p(4,1)] p(2) by auto
  obtain c0 where c0: "mem h (p + 40) = Some c0" "c0 = 0 \<longleftrightarrow> l = Lf" using tree_at_root [OF p(5)] by blast
  obtain c1 where c1: "mem h (p + 48) = Some c1" "c1 = 0 \<longleftrightarrow> r = Lf" using tree_at_root [OF p(6)] by blast
  show ?case
  proof (cases "n = s")
    case True
    then have "search_path h s p (mshift s k) bs bf rst = Some (Inl q)" using p(3) q(2) by (simp add: search_path.simps ld_def)
    then show ?thesis using True q(1) by (auto simp: path_result_def)
  next
    case False
    have nN: "(n, ps) \<in> N" "n < 2 ^ 64 - 1" using Nd.prems(7,8) by auto
    obtain bs1 bf1 where b: "(if n \<ge> s \<and> n < bs then (n, p) else (bs, bf)) = (bs1, bf1)" "cand N s bs1 bf1" "bf \<noteq> 0 \<or> s \<le> n \<longrightarrow> bf1 \<noteq> 0"
    proof (cases "s \<le> n")
      case True
      have "if n < bs then cand N s n (hd ps) else cand N s bs bf \<and> bf \<noteq> 0"
        by (rule cand_step [OF Nd.prems(9) nN(1) p(1) _ nN(2) True]) (use p(2) Nd.prems(3) in simp)
      then show thesis using that p(2) Nd.prems(3) True by (cases "n < bs") auto
    qed (use that Nd.prems(9) in auto)
    obtain j where j: "k = Suc j"
    proof (cases k)
      case 0
      then have "n = pre" using Nd.prems(4) by simp
      then show thesis using Nd.prems(5) 0 False by simp
    qed (use that in blast)
    have w: "twf j (2 * pre) l" "twf j (2 * pre + 1) r" "j \<le> 64" using Nd.prems(4,6) j by simp_all
    have bk: "bit (mshift s k) 63 \<longleftrightarrow> bit s j" using mshift_bit [of k s] Nd.prems(6) j by simp
    have sh: "shl1 (mshift s k) = mshift s j" using mshift_shl1 [of j s] Nd.prems(6) j by simp
    have sj: "s div 2 ^ j = 2 * pre + of_bool (bit s j)" using div_pow_Suc [of s j] Nd.prems(5) j by simp
    have sub: "tnodes l \<subseteq> N" "tnodes r \<subseteq> N" "tnodes l \<subseteq> tnodes ?t" "tnodes r \<subseteq> tnodes ?t" using Nd.prems(7) by auto
    have st: "search_path h s p (mshift s k) bs bf rst =
       (if \<not> bit s j then let rst = (if c1 \<noteq> 0 then c1 else rst) in
                (if c0 \<noteq> 0 then search_path h s c0 (mshift s j) bs1 bf1 rst else Some (Inr (bs1, bf1, rst)))
        else if c1 \<noteq> 0 then search_path h s c1 (mshift s j) bs1 bf1 rst else Some (Inr (bs1, bf1, rst)))"
      using p(3) False c0(1) c1(1) b(1) by (simp add: search_path.simps [of h s p "mshift s k" bs bf rst] bk sh ld_def Let_def)
    show ?thesis
    proof (cases "bit s j")
      case False
      then have sjl: "s div 2 ^ j = 2 * pre" using sj by simp
      let ?rst = "if c1 \<noteq> 0 then c1 else rst"
      have gr: "s < x" if "x \<in> tsizes r" for x by (rule div_less_less [of _ j]) (use twf_sizes [OF w(2) that] sjl in simp)
      have ri: "right_of (mem h) N s ?rst" using Nd.prems(10) p(6) c1(1) sub(2) gr unfolding right_of_def by auto
      have nt: "s \<in> tsizes ?t \<Longrightarrow> s \<in> tsizes l" using gr \<open>n \<noteq> s\<close> by auto
      have up: "bf \<noteq> 0 \<or> rst \<noteq> 0 \<or> (\<exists>x\<in>tsizes ?t. s \<le> x) \<Longrightarrow> bf1 \<noteq> 0 \<or> ?rst \<noteq> 0 \<or> (\<exists>x\<in>tsizes l. s \<le> x)"
        using b(3) c1(2) by auto
      show ?thesis
      proof (cases "c0 = 0")
        case True
        then have "l = Lf" using c0(2) by simp
        then have "path_result (mem h) N ?t s bf rst (Inr (bs1, bf1, ?rst))" using nt up by (intro path_result_stop [OF b(2) ri]) auto
        then show ?thesis using st True False by (simp add: Let_def)
      next
        case c: False
        obtain res where res: "search_path h s c0 (mshift s j) bs1 bf1 ?rst = Some res" "path_result (mem h) N l s bf1 ?rst res"
          using Nd.IH(1) [OF p(5) c0(1) c w(1) sjl w(3) sub(1) Nd.prems(8) b(2) ri] by blast
        then show ?thesis using st c False path_result_up [OF res(2) sub(3) nt up] by (simp add: Let_def)
      qed
    next
      case True
      then have sjl: "s div 2 ^ j = 2 * pre + 1" using sj by simp
      have le: "x < s" if "x \<in> tsizes l" for x by (rule div_less_less [of _ j]) (use twf_sizes [OF w(1) that] sjl in simp)
      have nt: "s \<in> tsizes ?t \<Longrightarrow> s \<in> tsizes r" using le \<open>n \<noteq> s\<close> by auto
      have up: "bf \<noteq> 0 \<or> rst \<noteq> 0 \<or> (\<exists>x\<in>tsizes ?t. s \<le> x) \<Longrightarrow> bf1 \<noteq> 0 \<or> rst \<noteq> 0 \<or> (\<exists>x\<in>tsizes r. s \<le> x)"
        using b(3) le leD by fastforce
      show ?thesis
      proof (cases "c1 = 0")
        case c: True
        then have "r = Lf" using c1(2) by simp
        then have "path_result (mem h) N ?t s bf rst (Inr (bs1, bf1, rst))" using nt up by (intro path_result_stop [OF b(2) Nd.prems(10)]) auto
        then show ?thesis using st c True by simp
      next
        case c: False
        obtain res where res: "search_path h s c1 (mshift s j) bs1 bf1 rst = Some res" "path_result (mem h) N r s bf1 rst res"
          using Nd.IH(2) [OF p(6) c1(1) c w(2) sjl w(3) sub(2) Nd.prems(8) b(2) Nd.prems(10)] by blast
        then show ?thesis using st c True path_result_up [OF res(2) sub(4) nt up] by simp
      qed
    qed
  qed
qed

lemma search_rest_ok:
  assumes "tree_at (mem h) a t" "mem h a = Some p" "tnodes t \<subseteq> N" "\<forall>(n, ps)\<in>N. n < 2 ^ 64 - 1" "\<forall>x\<in>tsizes t. s < x" "cand N s bs bf"
  shows "\<exists>bs' bf'. search_rest h s p bs bf = Some (Inr bf') \<and> cand N s bs' bf' \<and> (bf \<noteq> 0 \<or> p \<noteq> 0 \<longrightarrow> bf' \<noteq> 0)"
  using assms
proof (induction t arbitrary: a p bs bf)
  case Lf
  then show ?case by (auto simp: search_rest.simps)
next
  case (Nd n ps l r)
  have "hd ps \<noteq> 0" using Nd.prems(1) by (metis hd_in_set tree_at.simps(2))
  then have p: "ps \<noteq> []" "hd ps = p" "p \<noteq> 0" "mem h p = Some n" "tree_at (mem h) (p + 40) l" "tree_at (mem h) (p + 48) r" "s < n"
    using Nd.prems(1,2,5) by auto
  obtain c0 where c0: "mem h (p + 40) = Some c0" "c0 = 0 \<longleftrightarrow> l = Lf" using tree_at_root [OF p(5)] by blast
  obtain c1 where c1: "mem h (p + 48) = Some c1" "c1 = 0 \<longleftrightarrow> r = Lf" using tree_at_root [OF p(6)] by blast
  have nN: "(n, ps) \<in> N" "n < 2 ^ 64 - 1" using Nd.prems(3,4) by auto
  obtain bs1 bf1 where b: "(if n > s \<and> n < bs then (n, p) else (bs, bf)) = (bs1, bf1)" "cand N s bs1 bf1" "bf1 \<noteq> 0"
  proof -
    have "if n < bs then cand N s n (hd ps) else cand N s bs bf \<and> bf \<noteq> 0"
      by (rule cand_step [OF Nd.prems(6) nN(1) p(1) _ nN(2)]) (use p in simp_all)
    then show thesis using that p by (cases "n < bs") auto
  qed
  have sub: "tnodes l \<subseteq> N" "tnodes r \<subseteq> N" "\<forall>x\<in>tsizes l. s < x" "\<forall>x\<in>tsizes r. s < x" using Nd.prems(3,5) by auto
  have e: "search_rest h s p bs bf = search_rest h s (if c0 \<noteq> 0 then c1 else c0) bs1 bf1"
    using p b(1) c0(1) c1(1) by (simp add: search_rest.simps [of h s p bs bf] ld_def Let_def)
  show ?case
  proof (cases "c0 = 0")
    case True
    obtain bs' bf' where "search_rest h s c0 bs1 bf1 = Some (Inr bf')" "cand N s bs' bf'" "bf' \<noteq> 0"
      using Nd.IH(1) [OF p(5) c0(1) sub(1) Nd.prems(4) sub(3) b(2)] b(3) by blast
    then show ?thesis using e True by auto
  next
    case False
    obtain bs' bf' where "search_rest h s c1 bs1 bf1 = Some (Inr bf')" "cand N s bs' bf'" "bf' \<noteq> 0"
      using Nd.IH(2) [OF p(6) c1(1) sub(2) Nd.prems(4) sub(4) b(2)] b(3) by blast
    then show ?thesis using e False by auto
  qed
qed

lemma search_smallest_ok:
  assumes "tree_at (mem h) a t" "mem h a = Some p" "p \<noteq> 0" "tnodes t \<subseteq> N" "(n0, b # bs) \<in> N" "\<forall>(n, ps)\<in>N. mem h (hd ps) = Some n"
  shows "\<exists>b' n ps. search_smallest h p b = Some b' \<and> (n, b' # ps) \<in> N"
  using assms
proof (induction t arbitrary: a p b bs n0)
  case Lf
  then show ?case by simp
next
  case (Nd n ps l r)
  have p: "ps \<noteq> []" "hd ps = p" "mem h p = Some n" "tree_at (mem h) (p + 40) l" "tree_at (mem h) (p + 48) r"
    using Nd.prems(1,2) by auto
  obtain c0 where c0: "mem h (p + 40) = Some c0" using tree_at_root [OF p(4)] by blast
  obtain c1 where c1: "mem h (p + 48) = Some c1" using tree_at_root [OF p(5)] by blast
  have sub: "tnodes l \<subseteq> N" "tnodes r \<subseteq> N" using Nd.prems(4) by auto
  have bm: "mem h b = Some n0" using Nd.prems(5,6) by fastforce
  have step: "\<exists>b' n ps. (if q = 0 then Some b else Option.bind (ld h q) (\<lambda>x. Option.bind (ld h b) (\<lambda>y. search_smallest h q (if x < y then q else b)))) = Some b' \<and> (n, b' # ps) \<in> N"
    if u: "tree_at (mem h) a' u" "mem h a' = Some q" "tnodes u \<subseteq> N"
      and IH: "\<And>b bs n0. q \<noteq> 0 \<Longrightarrow> (n0, b # bs) \<in> N \<Longrightarrow> \<exists>b' n ps. search_smallest h q b = Some b' \<and> (n, b' # ps) \<in> N" for a' u q
  proof (cases "q = 0")
    case True
    then show ?thesis using Nd.prems(5) by auto
  next
    case False
    then obtain nu us where "(nu, q # us) \<in> N" "mem h q = Some nu" using u by (cases u) (auto simp: neq_Nil_conv)
    then show ?thesis using IH [OF False, of nu q us] IH [OF False Nd.prems(5)] False bm by (auto simp: ld_def)
  qed
  have e: "search_smallest h p b = (let q = (if c0 \<noteq> 0 then c1 else c0) in
      if q = 0 then Some b else Option.bind (ld h q) (\<lambda>x. Option.bind (ld h b) (\<lambda>y. search_smallest h q (if x < y then q else b))))"
    using c0 c1 by (simp add: search_smallest.simps [of h p b] ld_def Let_def)
  show ?case
  proof (cases "c0 = 0")
    case True
    then show ?thesis using e step [OF p(4) c0 sub(1)] Nd.IH(1) [OF p(4) c0 _ sub(1) _ Nd.prems(6)] by (simp add: Let_def)
  next
    case False
    then show ?thesis unfolding e using step [OF p(5) c1 sub(2)] Nd.IH(2) [OF p(5) c1 _ sub(2) _ Nd.prems(6)] by (simp add: Let_def)
  qed
qed

text \<open>The trees of all sizes, with the bitmap of the trees that are not empty.\<close>

definition large_ok :: "mm_heap \<Rightarrow> (nat \<Rightarrow> ltree) \<Rightarrow> bool" where
  "large_ok h Tr \<longleftrightarrow>
     (\<forall>i<64. tree_at (mem h) (large_free_buckets (haddr h) i) (Tr i) \<and> twf i 1 (Tr i) \<and> (\<forall>x\<in>tsizes (Tr i). 544 \<le> x \<and> 8 dvd x)) \<and>
     (\<forall>i. bit (large_free_bitmap h) i \<longleftrightarrow> i < 64 \<and> Tr i \<noteq> Lf)"

lemma large_okD:
  assumes "large_ok h Tr" "i < 64"
  shows "tree_at (mem h) (large_free_buckets (haddr h) i) (Tr i)" "twf i 1 (Tr i)" "\<And>x. x \<in> tsizes (Tr i) \<Longrightarrow> 544 \<le> x \<and> 8 dvd x"
    "bit (large_free_bitmap h) i \<longleftrightarrow> Tr i \<noteq> Lf"
  using assms by (auto simp: large_ok_def)

lemma large_sizes:
  assumes "large_ok h Tr" "i < 64" "x \<in> tsizes (Tr i)"
  shows "i = zend_mm_high_bit x" "2 ^ i \<le> x" "x < 2 ^ 64 - 1"
proof -
  have d: "x div 2 ^ i = 1" by (rule twf_sizes [OF large_okD(2) [OF assms(1,2)] assms(3)])
  show "i = zend_mm_high_bit x" using d high_bit_unique by blast
  have "2 ^ i \<le> x" "x < 2 ^ Suc i" using d unfolding div_pow_1 by simp_all
  moreover have "(2 :: nat) ^ Suc i \<le> 2 ^ 64" using assms(2) by (intro power_increasing) auto
  moreover have "8 dvd x" using large_okD(3) [OF assms] by simp
  then have "x \<noteq> 2 ^ 64 - 1" by auto
  ultimately show "2 ^ i \<le> x" "x < 2 ^ 64 - 1" by linarith+
qed

text \<open>What a search for \<open>s\<close> returns: 0 when no large free block is big enough, a block that is big enough otherwise, of the exact size if there is one.\<close>

definition fits :: "(nat \<Rightarrow> ltree) \<Rightarrow> nat \<Rightarrow> nat \<Rightarrow> bool" where
  "fits Tr s q \<longleftrightarrow>
     (if q = 0 then \<forall>i<64. \<forall>x\<in>tsizes (Tr i). x < s
      else \<exists>i<64. \<exists>n ps. (n, ps) \<in> tnodes (Tr i) \<and> q \<in> set ps \<and> s \<le> n \<and> (s \<in> tsizes (Tr (zend_mm_high_bit s)) \<longrightarrow> n = s))"

lemma fitsI:
  assumes "(n, ps) \<in> tnodes (Tr i)" "i < 64" "q \<in> set ps" "q \<noteq> 0" "s \<le> n" "s \<in> tsizes (Tr (zend_mm_high_bit s)) \<Longrightarrow> n = s"
  shows "fits Tr s q"
  unfolding fits_def using assms by (simp only: if_False) blast

lemma search_buckets_above_ok:
  assumes ok: "large_ok h Tr" and bm: "drop_bit i (large_free_bitmap h) \<noteq> 0" and s: "\<And>j. i \<le> j \<Longrightarrow> bit (large_free_bitmap h) j \<Longrightarrow> s < 2 ^ j" and no: "s \<notin> tsizes (Tr (zend_mm_high_bit s))"
  shows "\<exists>q. search_buckets_above i (drop_bit i (large_free_bitmap h)) h = Some q \<and> q \<noteq> 0 \<and> fits Tr s q"
proof -
  obtain k where k: "zend_mm_low_bit (drop_bit i (large_free_bitmap h)) = Some k" "bit (drop_bit i (large_free_bitmap h)) k"
    using low_bit_loop [of _ 0] bm by (auto simp: zend_mm_low_bit_def)
  let ?j = "i + k" and ?t = "Tr (i + k)"
  have bj: "bit (large_free_bitmap h) ?j" using k(2) by (simp add: bit_drop_bit_eq comp_def)
  then have j: "?j < 64" "?t \<noteq> Lf" using ok by (auto simp: large_ok_def)
  note t = large_okD [OF ok j(1)]
  obtain p where p: "mem h (large_free_buckets (haddr h) ?j) = Some p" "p \<noteq> 0" using tree_at_root [OF t(1)] j(2) by auto
  obtain n0 ps0 where r: "(n0, p # ps0) \<in> tnodes ?t" using tree_at_root_node [OF t(1) p] by blast
  have N: "\<forall>(n, ps)\<in>tnodes ?t. mem h (hd ps) = Some n" using tree_at_nodes [OF t(1)] by auto
  obtain b n ps where b: "search_smallest h p p = Some b" "(n, b # ps) \<in> tnodes ?t" using search_smallest_ok [OF t(1) p subset_refl r N] by blast
  have nb: "0 \<notin> set (b # ps)" "chain (mem h) ((b # ps) @ [b])" "\<forall>q\<in>set (b # ps). mem h q = Some n" using tree_at_nodes [OF t(1) b(2)] by auto
  obtain q where q: "q \<in> set (b # ps)" "mem h (b + 24) = Some q" using ring_next [of "mem h" "b # ps"] nb(2) by auto
  have "n \<in> tsizes ?t" using b(2) by (force simp: tsizes_def)
  then have "2 ^ ?j \<le> n" using large_sizes(2) [OF ok j(1)] by blast
  then have "s \<le> n" using s [OF _ bj] by simp
  have "q \<noteq> 0" using q(1) nb(1) by metis
  with \<open>s \<le> n\<close> have "fits Tr s q" using fitsI [where Tr = Tr, OF b(2) j(1) q(1)] no by blast
  then show ?thesis using k(1) p(1) b(1) q(2) \<open>q \<noteq> 0\<close> by (simp add: search_buckets_above_def ld_def)
qed

lemma search_large_ok:
  assumes ok: "large_ok h Tr" and s: "0 < s" "s < 2 ^ 64"
  shows "\<exists>q. zend_mm_search_large_block s h = Some q \<and> fits Tr s q"
proof -
  let ?i = "zend_mm_high_bit s" and ?bm = "drop_bit (zend_mm_high_bit s) (large_free_bitmap h)"
  have i: "?i < 64" using high_bit_less s by blast
  have d: "s div 2 ^ ?i = 1" using high_bit_div s(1) by blast
  then have s2: "s < 2 ^ Suc ?i" unfolding div_pow_1 by simp
  have lower: "x < s" if "j < ?i" "x \<in> tsizes (Tr j)" for j x
  proof -
    have "j < 64" using that(1) i by simp
    then have "x < 2 ^ Suc j" using twf_sizes [OF large_okD(2) [OF ok] that(2)] unfolding div_pow_1 by simp
    moreover have "(2 :: nat) ^ Suc j \<le> 2 ^ ?i" using that(1) by (intro power_increasing) auto
    moreover have "2 ^ ?i \<le> s" using d unfolding div_pow_1 by simp
    ultimately show ?thesis by linarith
  qed
  have above: "s < 2 ^ j" if "Suc ?i \<le> j" for j
    using s2 power_increasing [OF that, of "2 :: nat"] by simp
  have none: "fits Tr s 0" if "\<forall>j. j < 64 \<longrightarrow> ?i \<le> j \<longrightarrow> (\<forall>x\<in>tsizes (Tr j). x < s)"
    using that lower unfolding fits_def by (metis not_le)
  have empty: "Tr j = Lf" if "drop_bit n (large_free_bitmap h) = 0" "n \<le> j" "j < 64" for n j
  proof -
    have "\<not> bit (drop_bit n (large_free_bitmap h)) (j - n)" using that(1) by simp
    then show ?thesis using that(2,3) large_okD(4) [OF ok that(3)] by (simp add: bit_drop_bit_eq comp_def)
  qed
  have unf: "zend_mm_search_large_block s h = (if ?bm = 0 then Some 0
      else if bit (large_free_bitmap h) ?i
      then do { p \<leftarrow> ld h (large_free_buckets (haddr h) ?i);
                r \<leftarrow> search_path h s p (mshift s ?i) (2 ^ 64 - 1) 0 0;
                (case r of
                   Inl q \<Rightarrow> Some q
                 | Inr (best_size, best_fit, rst) \<Rightarrow>
                     do { r \<leftarrow> search_rest h s rst best_size best_fit;
                          (case r of
                             Inl q \<Rightarrow> Some q
                           | Inr best_fit \<Rightarrow>
                               if best_fit \<noteq> 0 then ld h (next_free_block best_fit)
                               else if drop_bit (Suc ?i) (large_free_bitmap h) = 0 then Some 0
                               else search_buckets_above (Suc ?i) (drop_bit (Suc ?i) (large_free_bitmap h)) h) }) }
      else search_buckets_above ?i ?bm h)"
  proof -
    have o: "(?bm AND 1 \<noteq> 0) = bit (large_free_bitmap h) ?i" by (simp add: and_one_eq bit_iff_odd drop_bit_eq_div odd_iff_mod_2_eq_one)
    have d1: "drop_bit 1 ?bm = drop_bit (Suc ?i) (large_free_bitmap h)" by (simp only: drop_bit_drop_bit plus_1_eq_Suc)
    show ?thesis unfolding zend_mm_search_large_block_def ZEND_MM_LARGE_BUCKET_INDEX_def Let_def o d1
      by (simp only: ZEND_MM_NUM_BUCKETS_def mshift_def Suc_eq_plus1)
  qed
  show ?thesis
  proof (cases "?bm = 0")
    case True
    then show ?thesis using unf none empty by auto
  next
    case bm: False
    show ?thesis
    proof (cases "bit (large_free_bitmap h) ?i")
      case False
      then have e: "Tr ?i = Lf" using large_okD(4) [OF ok i] by simp
      have "s < 2 ^ j" if "?i \<le> j" "bit (large_free_bitmap h) j" for j
      proof -
        have "j \<noteq> ?i" using that(2) False by blast
        then show ?thesis using above that(1) by simp
      qed
      then show ?thesis using search_buckets_above_ok [OF ok bm, of s] e False bm unf by auto
    next
      case True
      note t = large_okD [OF ok i]
      let ?t = "Tr ?i" and ?N = "tnodes (Tr ?i)"
      have "?t \<noteq> Lf" using True t(4) by simp
      then obtain p where p: "mem h (large_free_buckets (haddr h) ?i) = Some p" "p \<noteq> 0" using tree_at_root [OF t(1)] by auto
      have N: "\<forall>(n, ps)\<in>?N. n < 2 ^ 64 - 1" using large_sizes(3) [OF ok i] by (force simp: tsizes_def)
      have "cand ?N s (2 ^ 64 - 1) 0" "right_of (mem h) ?N s 0" by (simp_all add: cand_def right_of_def)
      then obtain res where res: "search_path h s p (mshift s ?i) (2 ^ 64 - 1) 0 0 = Some res" "path_result (mem h) ?N ?t s 0 0 res"
        using search_path_ok [OF t(1) p t(2) d _ subset_refl N] i by fastforce
      show ?thesis
      proof (cases res)
        case (Inl q)
        then obtain ps where ps: "(s, ps) \<in> ?N" "q \<in> set ps" using res(2) by (auto simp: path_result_def)
        then have "q \<noteq> 0" using tree_at_nodes [OF t(1) ps(1)] by metis
        then have "fits Tr s q" using fitsI [where Tr = Tr, OF ps(1) i ps(2)] by blast
        then show ?thesis using unf bm True p(1) res(1) Inl by (simp add: ld_def)
      next
        case (Inr x)
        obtain bs bf rst where x: "x = (bs, bf, rst)" by (cases x)
        have r: "s \<notin> tsizes ?t" "cand ?N s bs bf" "right_of (mem h) ?N s rst" "(\<exists>x\<in>tsizes ?t. s \<le> x) \<longrightarrow> bf \<noteq> 0 \<or> rst \<noteq> 0"
          using res(2) Inr x by (simp_all add: path_result_def)
        obtain bs' bf' where b: "search_rest h s rst bs bf = Some (Inr bf')" "cand ?N s bs' bf'" "bf \<noteq> 0 \<or> rst \<noteq> 0 \<longrightarrow> bf' \<noteq> 0"
        proof (cases "rst = 0")
          case True
          then show thesis using that r(2) by (simp add: search_rest.simps)
        next
          case False
          then obtain a u where u: "tree_at (mem h) a u" "mem h a = Some rst" "tnodes u \<subseteq> ?N" "\<forall>x\<in>tsizes u. s < x" using r(3) by (auto simp: right_of_def)
          show thesis using search_rest_ok [OF u(1-3) N u(4) r(2)] that by blast
        qed
        show ?thesis
        proof (cases "bf' = 0")
          case z: True
          have le: "\<forall>x\<in>tsizes ?t. x < s" using z b(3) r(4) by (meson not_le)
          show ?thesis
          proof (cases "drop_bit (Suc ?i) (large_free_bitmap h) = 0")
            case z': True
            have "fits Tr s 0" using none le empty [OF z'] by (metis Suc_leI empty_iff le_neq_implies_less tsizes_simps(1))
            then show ?thesis using unf bm True p(1) res(1) Inr x b(1) z z' by (simp add: ld_def)
          next
            case z': False
            obtain q where "search_buckets_above (Suc ?i) (drop_bit (Suc ?i) (large_free_bitmap h)) h = Some q" "fits Tr s q"
              using search_buckets_above_ok [OF ok z' above r(1)] by auto
            then show ?thesis using unf bm True p(1) res(1) Inr x b(1) z z' by (simp add: ld_def)
          qed
        next
          case z: False
          then obtain ps where ps: "(bs', bf' # ps) \<in> ?N" "s \<le> bs'" using b(2) by (auto simp: cand_def)
          obtain q where q: "q \<in> set (bf' # ps)" "mem h (bf' + 24) = Some q" using ring_next [of "mem h" "bf' # ps"] tree_at_nodes [OF t(1) ps(1)] by auto
          have "q \<noteq> 0" using q(1) tree_at_nodes [OF t(1) ps(1)] by metis
          then have "fits Tr s q" using fitsI [where Tr = Tr, OF ps(1) i q(1) _ ps(2)] r(1) by blast
          then show ?thesis using unf bm True p(1) res(1) Inr x b(1) z q(2) by (simp add: ld_def)
        qed
      qed
    qed
  qed
qed

end
