(* ===== verification/Zend_Mm_Rings.thy ===== *)
theory Zend_Mm_Rings
  imports Zend_Mm_Trees
begin

text \<open>
  Rings of free blocks in memory, and the operations of the code on them. A ring is a list that starts with one of its members, a
  block or the sentinel of a bucket.
\<close>

section \<open>Stores\<close>

lemma st_ok [simp]: "a \<in> dom (mem h) \<Longrightarrow> st a v h = Some (h\<lparr>mem := (mem h)(a \<mapsto> v)\<rparr>)"
  by (simp add: st_def)

lemma st_cell [simp]: "mem h a = Some w \<Longrightarrow> st a v h = Some (h\<lparr>mem := (mem h)(a \<mapsto> v)\<rparr>)"
  by (rule st_ok) blast

lemma mem_id [simp]: "h\<lparr>mem := mem h\<rparr> = h"
  by simp

lemma dom_keep: "a \<in> dom m \<Longrightarrow> dom (m(a \<mapsto> v)) = dom m"
  by auto

section \<open>Rings\<close>

lemma ring_chain_append: "chain m (xs @ y # zs) \<longleftrightarrow> chain m (xs @ [y]) \<and> chain m (y # zs)"
  by (induction m xs rule: chain.induct) (auto simp: neq_Nil_conv)

lemma chain_frame:
  "(\<And>x. x \<in> set (butlast xs) \<Longrightarrow> m' (x + 24) = m (x + 24)) \<Longrightarrow> (\<And>x. x \<in> set (tl xs) \<Longrightarrow> m' (x + 16) = m (x + 16)) \<Longrightarrow>
     chain m' xs = chain m xs"
proof (induction m xs rule: chain.induct)
  case (1 m x y zs)
  have "chain m' (y # zs) = chain m (y # zs)"
  proof (rule "1.IH")
    fix z assume "z \<in> set (butlast (y # zs))"
    then show "m' (z + 24) = m (z + 24)" using "1.prems"(1) [of z] by simp
  next
    fix z assume "z \<in> set (tl (y # zs))"
    then show "m' (z + 16) = m (z + 16)" using "1.prems"(2) [of z] by simp
  qed
  then show ?case using "1.prems"(1) [of x] "1.prems"(2) [of y] by simp
qed auto

text \<open>No two members share a cell.\<close>

definition noclash :: "nat set \<Rightarrow> bool" where
  "noclash N \<longleftrightarrow> (\<forall>u\<in>N. \<forall>v\<in>N. u \<noteq> v + 8)"

lemma noclashD: "noclash N \<Longrightarrow> u \<in> N \<Longrightarrow> v \<in> N \<Longrightarrow> u + 16 \<noteq> v + 24"
proof
  assume n: "noclash N" "u \<in> N" "v \<in> N" and "u + 16 = v + 24"
  then have "u = v + 8" by simp
  then show False using n unfolding noclash_def by blast
qed

lemma noclash_mono: "noclash N \<Longrightarrow> M \<subseteq> N \<Longrightarrow> noclash M"
  by (auto simp: noclash_def)

definition ring :: "(nat \<rightharpoonup> nat) \<Rightarrow> nat \<Rightarrow> nat list \<Rightarrow> bool" where
  "ring m x xs \<longleftrightarrow> distinct (x # xs) \<and> chain m (x # xs @ [x])"

definition link_mem :: "nat \<Rightarrow> nat \<Rightarrow> nat \<Rightarrow> (nat \<rightharpoonup> nat) \<Rightarrow> nat \<rightharpoonup> nat" where
  "link_mem b y z m = m(b + 16 \<mapsto> y, b + 24 \<mapsto> z, y + 24 \<mapsto> b, z + 16 \<mapsto> b)"

definition unlink_mem :: "nat \<Rightarrow> nat \<Rightarrow> (nat \<rightharpoonup> nat) \<Rightarrow> nat \<rightharpoonup> nat" where
  "unlink_mem y z m = m(y + 24 \<mapsto> z, z + 16 \<mapsto> y)"

lemma butlast_not_last: "distinct xs \<Longrightarrow> xs \<noteq> [] \<Longrightarrow> u \<in> set (butlast xs) \<Longrightarrow> u \<noteq> last xs"
  by (metis append_butlast_last_id disjoint_insert(2) distinct_append list.set(2))

lemma ring_split:
  "chain m (x # (as @ bs) @ [x]) \<longleftrightarrow> chain m (x # as) \<and> m (last (x # as) + 24) = Some (hd (bs @ [x])) \<and>
     m (hd (bs @ [x]) + 16) = Some (last (x # as)) \<and> chain m (bs @ [x])"
proof -
  obtain w ws where W: "bs @ [x] = w # ws" by (cases "bs @ [x]") auto
  have l: "butlast (x # as) @ [last (x # as)] = x # as" by (rule append_butlast_last_id) simp
  then have "x # (as @ bs) @ [x] = butlast (x # as) @ last (x # as) # w # ws"
    unfolding W [symmetric] by (metis append.assoc append_Cons append_Nil)
  then have "chain m (x # (as @ bs) @ [x]) \<longleftrightarrow> chain m (x # as) \<and> chain m (last (x # as) # w # ws)"
    using ring_chain_append [of m "butlast (x # as)"] l by metis
  then show ?thesis by (simp only: W chain.simps list.sel)
qed

lemma ring_insert:
  assumes r: "ring m x (as @ bs)" and n: "noclash (insert b (set (x # as @ bs)))" and b: "b \<notin> set (x # as @ bs)"
  shows "ring (link_mem b (last (x # as)) (hd (bs @ [x])) m) x (as @ b # bs)"
proof -
  let ?y = "last (x # as)" and ?z = "hd (bs @ [x])" and ?N = "insert b (set (x # as @ bs))"
  let ?m = "link_mem b ?y ?z m"
  have d: "distinct (x # as @ bs)" and c: "chain m (x # as)" "chain m (bs @ [x])"
    using r unfolding ring_def ring_split by auto
  have y: "?y \<in> set (x # as)" by (rule last_in_set) simp
  have z: "?z \<in> set (bs @ [x])" by (rule hd_in_set) simp
  have N: "u + 16 \<noteq> v + 24" if "u \<in> ?N" "v \<in> ?N" for u v using noclashD [OF n that] .
  have yz: "?y \<in> ?N" "?z \<in> ?N" "b \<noteq> ?y" "b \<noteq> ?z" using y z b by auto
  have m16: "?m (u + 16) = m (u + 16)" if "u \<in> ?N" "u \<noteq> b" "u \<noteq> ?z" for u
    using that N [OF that(1) yz(1)] N [OF that(1)] by (simp add: link_mem_def)
  have m24: "?m (u + 24) = m (u + 24)" if "u \<in> ?N" "u \<noteq> b" "u \<noteq> ?y" for u
    using that N [OF yz(2) that(1)] N [OF _ that(1), of b] by (simp add: link_mem_def)
  have zt: "u \<noteq> ?z" if "u \<in> set (tl (bs @ [x]))" for u using d that by (cases bs) auto
  have z1: "?z \<notin> set as" using d z by (cases bs) auto
  have bl: "u \<noteq> ?y" if "u \<in> set (butlast (x # as))" for u
    by (rule butlast_not_last [OF _ _ that]) (use d in auto)
  have "chain ?m (x # as) = chain m (x # as)"
  proof (rule chain_frame)
    fix u assume u: "u \<in> set (butlast (x # as))"
    then have "u \<in> set (x # as)" by (rule in_set_butlastD)
    then have "u \<in> ?N" "u \<noteq> b" using b by auto
    then show "?m (u + 24) = m (u + 24)" using m24 bl [OF u] by blast
  next
    fix u assume "u \<in> set (tl (x # as))"
    then have "u \<in> ?N" "u \<noteq> b" "u \<noteq> ?z" using b z1 by auto
    then show "?m (u + 16) = m (u + 16)" using m16 by blast
  qed
  moreover have "chain ?m (bs @ [x]) = chain m (bs @ [x])"
  proof (rule chain_frame)
    fix u assume "u \<in> set (butlast (bs @ [x]))"
    then have "u \<in> set bs" by simp
    then have "u \<in> ?N" "u \<noteq> b" "u \<noteq> ?y" using b y d by auto
    then show "?m (u + 24) = m (u + 24)" using m24 by blast
  next
    fix u assume u: "u \<in> set (tl (bs @ [x]))"
    then have "u \<in> set (bs @ [x])" by (rule list.set_sel(2) [rotated]) simp
    then have "u \<in> ?N" "u \<noteq> b" using b by auto
    then show "?m (u + 16) = m (u + 16)" using m16 zt [OF u] by blast
  qed
  moreover have "?m (?y + 24) = Some b" "?m (b + 16) = Some ?y" "?m (b + 24) = Some ?z" "?m (?z + 16) = Some b"
    using yz N [of ?z ?y] N [of b ?y] N [of ?z b] N [of b b] by (simp_all add: link_mem_def)
  moreover have "chain ?m (x # (as @ b # bs) @ [x]) \<longleftrightarrow> chain ?m (x # as) \<and> ?m (?y + 24) = Some b \<and> ?m (b + 16) = Some ?y \<and> chain ?m (b # bs @ [x])"
    using ring_split [of ?m x as "b # bs"] by simp
  moreover have "chain ?m (b # bs @ [x]) \<longleftrightarrow> ?m (b + 24) = Some ?z \<and> ?m (?z + 16) = Some b \<and> chain ?m (bs @ [x])"
    by (cases bs) simp_all
  ultimately have "chain ?m (x # (as @ b # bs) @ [x])" using c by simp
  moreover have "distinct (x # as @ b # bs)" using d b by auto
  ultimately show ?thesis by (simp add: ring_def)
qed

lemma ring_delete:
  assumes r: "ring m x (as @ b # bs)" and n: "noclash (set (x # as @ b # bs))"
  shows "ring (unlink_mem (last (x # as)) (hd (bs @ [x])) m) x (as @ bs)" "m (b + 16) = Some (last (x # as))" "m (b + 24) = Some (hd (bs @ [x]))"
    "m (last (x # as) + 24) = Some b" "m (hd (bs @ [x]) + 16) = Some b"
proof -
  let ?y = "last (x # as)" and ?z = "hd (bs @ [x])" and ?N = "set (x # as @ b # bs)"
  let ?m = "unlink_mem ?y ?z m"
  have d: "distinct (x # as @ b # bs)" and c: "chain m (x # as)" "m (?y + 24) = Some b" "m (b + 16) = Some ?y" "chain m (b # bs @ [x])"
    using r ring_split [of m x as "b # bs"] unfolding ring_def by auto
  have "chain m (b # bs @ [x]) \<longleftrightarrow> m (b + 24) = Some ?z \<and> m (?z + 16) = Some b \<and> chain m (bs @ [x])" by (cases bs) simp_all
  then have c': "m (b + 24) = Some ?z" "m (?z + 16) = Some b" "chain m (bs @ [x])" using c(4) by simp_all
  show "m (b + 16) = Some ?y" "m (b + 24) = Some ?z" "m (?y + 24) = Some b" "m (?z + 16) = Some b" using c c' by simp_all
  have y: "?y \<in> set (x # as)" by (rule last_in_set) simp
  have z: "?z \<in> set (bs @ [x])" by (rule hd_in_set) simp
  have N: "u + 16 \<noteq> v + 24" if "u \<in> ?N" "v \<in> ?N" for u v using noclashD [OF n that] .
  have yz: "?y \<in> ?N" "?z \<in> ?N" using y z by auto
  have m16: "?m (u + 16) = m (u + 16)" if "u \<in> ?N" "u \<noteq> ?z" for u using that N [OF that(1) yz(1)] by (simp add: unlink_mem_def)
  have m24: "?m (u + 24) = m (u + 24)" if "u \<in> ?N" "u \<noteq> ?y" for u using that N [OF yz(2) that(1)] by (simp add: unlink_mem_def)
  have zt: "u \<noteq> ?z" if "u \<in> set (tl (bs @ [x]))" for u using d that by (cases bs) auto
  have z1: "?z \<notin> set as" using d z by (cases bs) auto
  have bl: "u \<noteq> ?y" if "u \<in> set (butlast (x # as))" for u
    by (rule butlast_not_last [OF _ _ that]) (use d in auto)
  have "chain ?m (x # as) = chain m (x # as)"
  proof (rule chain_frame)
    fix u assume u: "u \<in> set (butlast (x # as))"
    then have "u \<in> set (x # as)" by (rule in_set_butlastD)
    then have "u \<in> ?N" by auto
    then show "?m (u + 24) = m (u + 24)" using m24 bl [OF u] by blast
  next
    fix u assume "u \<in> set (tl (x # as))"
    then have "u \<in> ?N" "u \<noteq> ?z" using z1 by auto
    then show "?m (u + 16) = m (u + 16)" using m16 by blast
  qed
  moreover have "chain ?m (bs @ [x]) = chain m (bs @ [x])"
  proof (rule chain_frame)
    fix u assume "u \<in> set (butlast (bs @ [x]))"
    then have "u \<in> set bs" by simp
    then have "u \<in> ?N" "u \<noteq> ?y" using y d by auto
    then show "?m (u + 24) = m (u + 24)" using m24 by blast
  next
    fix u assume u: "u \<in> set (tl (bs @ [x]))"
    then have "u \<in> set (bs @ [x])" by (rule list.set_sel(2) [rotated]) simp
    then have "u \<in> ?N" by auto
    then show "?m (u + 16) = m (u + 16)" using m16 zt [OF u] by blast
  qed
  moreover have "?m (?y + 24) = Some ?z" "?m (?z + 16) = Some ?y" using N [OF yz(2,1)] by (simp_all add: unlink_mem_def)
  ultimately have "chain ?m (x # (as @ bs) @ [x])" unfolding ring_split using c(1) c'(3) by simp
  moreover have "distinct (x # as @ bs)" using d by auto
  ultimately show "ring ?m x (as @ bs)" by (simp add: ring_def)
qed

lemma ring_rotate: "ring m x (as @ [y]) \<longleftrightarrow> ring m y (x # as)"
proof -
  have "chain m (x # as @ [y, x]) \<longleftrightarrow> chain m (x # as @ [y]) \<and> chain m [y, x]" using ring_chain_append [of m "x # as" y "[x]"] by simp
  then show ?thesis unfolding ring_def by (auto simp: neq_Nil_conv)
qed

lemma ring_frame: "ring m x xs \<Longrightarrow> (\<And>u. u \<in> set (x # xs) \<Longrightarrow> m' (u + 16) = m (u + 16) \<and> m' (u + 24) = m (u + 24)) \<Longrightarrow> ring m' x xs"
  unfolding ring_def by (subst chain_frame [of "x # xs @ [x]" m' m]) (auto dest: in_set_butlastD)

lemma ring_single: "m (x + 24) = Some x \<Longrightarrow> m (x + 16) = Some x \<Longrightarrow> ring m x []"
  by (simp add: ring_def)

lemma ring_dom: "ring m x xs \<Longrightarrow> u \<in> set (x # xs) \<Longrightarrow> u + 16 \<in> dom m \<and> u + 24 \<in> dom m"
proof -
  have "chain m ys \<Longrightarrow> (\<forall>u\<in>set (butlast ys). u + 24 \<in> dom m) \<and> (\<forall>u\<in>set (tl ys). u + 16 \<in> dom m)" for ys
    by (induction m ys rule: chain.induct) auto
  moreover assume "ring m x xs" "u \<in> set (x # xs)"
  ultimately show ?thesis unfolding ring_def by (fastforce simp: butlast_append)
qed

lemma link_between_ok:
  assumes "{b + 16, b + 24, y + 24, z + 16} \<subseteq> dom (mem h)"
  shows "link_between b y z h = Some (h\<lparr>mem := link_mem b y z (mem h)\<rparr>)"
  using assms by (simp add: link_between_def link_mem_def)

lemma unlink_between_ok:
  assumes "{y + 24, z + 16} \<subseteq> dom (mem h)"
  shows "unlink_between y z h = Some (h\<lparr>mem := unlink_mem y z (mem h)\<rparr>)"
  using assms by (simp add: unlink_between_def unlink_mem_def)

end
