(* ===== verification/Zend_Mm_Nodes.thy ===== *)
theory Zend_Mm_Nodes
  imports Zend_Mm_Rings "HOL-Library.Multiset"
begin

text \<open>Adding a block to a tree of large free blocks, and taking one out.\<close>

section \<open>Separation\<close>

text \<open>The cells of a large free block that the code uses are within its first 56 bytes; its links are those from offset 16 on.\<close>

definition spaced :: "nat set \<Rightarrow> bool" where
  "spaced B \<longleftrightarrow> (\<forall>p\<in>B. \<forall>q\<in>B. p \<noteq> q \<longrightarrow> p + 56 \<le> q \<or> q + 56 \<le> p)"

definition area :: "nat set \<Rightarrow> nat set" where
  "area B = (\<Union>p\<in>B. {p..<p + 56})"

definition links :: "nat set \<Rightarrow> nat set" where
  "links B = (\<Union>p\<in>B. {p + 16..<p + 56})"

definition upd_in :: "(nat \<rightharpoonup> nat) \<Rightarrow> (nat \<rightharpoonup> nat) \<Rightarrow> nat set \<Rightarrow> bool" where
  "upd_in m m' X \<longleftrightarrow> dom m' = dom m \<and> (\<forall>x. x \<notin> X \<longrightarrow> m' x = m x)"

lemma spacedD: "spaced B \<Longrightarrow> p \<in> B \<Longrightarrow> q \<in> B \<Longrightarrow> p \<noteq> q \<Longrightarrow> i < 56 \<Longrightarrow> j < 56 \<Longrightarrow> p + i \<noteq> q + j"
  unfolding spaced_def by (metis add_less_mono1 leD le_trans less_imp_add_positive nat_add_left_cancel_less nat_less_le not_add_less1 order_less_le_trans)

lemma cell_neq: "spaced B \<Longrightarrow> p \<in> B \<Longrightarrow> q \<in> B \<Longrightarrow> i < 56 \<Longrightarrow> j < 56 \<Longrightarrow> (p = q \<Longrightarrow> i \<noteq> j) \<Longrightarrow> p + i \<noteq> q + j"
  using spacedD [of B p q i j] by (cases "p = q") auto

lemma spaced_mono: "spaced B \<Longrightarrow> A \<subseteq> B \<Longrightarrow> spaced A"
  by (auto simp: spaced_def)

lemma spaced_noclash: "spaced B \<Longrightarrow> noclash B"
  unfolding noclash_def spaced_def by fastforce

lemma upd_in_refl [simp]: "upd_in m m X"
  by (simp add: upd_in_def)

lemma upd_in_trans: "upd_in m m1 X \<Longrightarrow> upd_in m1 m2 Y \<Longrightarrow> upd_in m m2 (X \<union> Y)"
  by (auto simp: upd_in_def)

lemma upd_in_mono: "upd_in m m' X \<Longrightarrow> X \<subseteq> Y \<Longrightarrow> upd_in m m' Y"
  by (auto simp: upd_in_def)

lemma upd_in_step: "upd_in m m' X \<Longrightarrow> a \<in> dom m \<Longrightarrow> upd_in m (m'(a \<mapsto> v)) (insert a X)"
  by (auto simp: upd_in_def)

lemma links_mono: "A \<subseteq> B \<Longrightarrow> links A \<subseteq> links B"
  by (auto simp: links_def)

lemma linksI: "p \<in> B \<Longrightarrow> 16 \<le> i \<Longrightarrow> i < 56 \<Longrightarrow> p + i \<in> links B"
  unfolding links_def by (rule UN_I [of p]) auto

lemma areaI: "p \<in> B \<Longrightarrow> i < 56 \<Longrightarrow> p + i \<in> area B"
  unfolding area_def by (rule UN_I [of p]) auto

lemma links_area: "links B \<subseteq> area B"
  unfolding links_def area_def by (rule UN_mono) auto

text \<open>A cell of a block outside of a set is not one of its links.\<close>

lemma not_area: "spaced B \<Longrightarrow> A \<subseteq> B \<Longrightarrow> p \<in> B \<Longrightarrow> p \<notin> A \<Longrightarrow> i < 56 \<Longrightarrow> p + i \<notin> area A"
proof
  assume s: "spaced B" "A \<subseteq> B" "p \<in> B" "p \<notin> A" "i < 56" and "p + i \<in> area A"
  then obtain q where q: "q \<in> A" "q \<le> p + i" "p + i < q + 56" by (auto simp: area_def)
  then obtain j where "p + i = q + j" "j < 56" by (metis add_less_cancel_left le_Suc_ex)
  then show False using spacedD [OF s(1), of p q i j] s q(1) by auto
qed

lemma not_links: "spaced B \<Longrightarrow> A \<subseteq> B \<Longrightarrow> p \<in> B \<Longrightarrow> p \<notin> A \<Longrightarrow> i < 56 \<Longrightarrow> p + i \<notin> links A"
  using not_area links_area by blast

lemma size_not_links: "spaced B \<Longrightarrow> p \<in> B \<Longrightarrow> i < 16 \<Longrightarrow> p + i \<notin> links B"
proof
  assume s: "spaced B" "p \<in> B" "i < 16" and "p + i \<in> links B"
  then obtain q where q: "q \<in> B" "q + 16 \<le> p + i" "p + i < q + 56" by (auto simp: links_def)
  then have "p \<noteq> q" using s(3) by auto
  then show False using s q unfolding spaced_def by fastforce
qed

section \<open>Frames\<close>

lemma tree_frame:
  "(\<And>q i. q \<in> set (tblocks t) \<Longrightarrow> i < 56 \<Longrightarrow> i \<noteq> 8 \<Longrightarrow> m' (q + i) = m (q + i)) \<Longrightarrow> m' a = m a \<Longrightarrow> tree_at m' a t = tree_at m a t"
proof (induction t arbitrary: a)
  case (Nd s ps l r)
  show ?case
  proof (cases "ps = []")
    case False
    have f: "m' (q + i) = m (q + i)" if "q \<in> set ps" "i < 56" "i \<noteq> 8" for q i using Nd.prems(1) [of q i] that by simp
    have c: "chain m' (ps @ [hd ps]) = chain m (ps @ [hd ps])"
      by (rule chain_frame) (use f False in \<open>auto dest: in_set_butlastD list.set_sel(2) [rotated]\<close>)
    have l: "tree_at m' (hd ps + 40) l = tree_at m (hd ps + 40) l" by (rule Nd.IH(1)) (use Nd.prems f False in auto)
    have r: "tree_at m' (hd ps + 48) r = tree_at m (hd ps + 48) r" by (rule Nd.IH(2)) (use Nd.prems f False in auto)
    have z: "m' q = m q" if "q \<in> set ps" for q using f [OF that, of 0] by simp
    have t: "\<And>q. q \<in> set (tl ps) \<Longrightarrow> q \<in> set ps" using False by (rule list.set_sel(2))
    show ?thesis using Nd.prems(2) f z c l r t False by auto
  qed simp
qed simp

lemma tree_upd:
  assumes "tree_at m a t" "upd_in m m' X" "a \<notin> X" "\<And>q i. q \<in> set (tblocks t) \<Longrightarrow> i < 56 \<Longrightarrow> q + i \<notin> X"
  shows "tree_at m' a t"
  using tree_frame [of t m' m a] assms by (simp add: upd_in_def)

lemma tree_at_dom: "tree_at m a t \<Longrightarrow> a \<in> dom m \<and> (\<forall>q\<in>set (tblocks t). {q, q + 16, q + 24, q + 32} \<subseteq> dom m)"
proof (induction m a t rule: tree_at.induct)
  case (2 m a s ps l r)
  obtain p qs where ps: "ps = p # qs" using "2.prems" by (cases ps) auto
  have "chain m ys \<Longrightarrow> (\<forall>u\<in>set (butlast ys). u + 24 \<in> dom m) \<and> (\<forall>u\<in>set (tl ys). u + 16 \<in> dom m)" for ys
    by (induction m ys rule: chain.induct) auto
  from this [of "p # qs @ [p]"] have "\<forall>u\<in>set ps. u + 24 \<in> dom m \<and> u + 16 \<in> dom m" using "2.prems" ps by (auto simp: butlast_append)
  then show ?case using 2 ps by auto
qed auto

text \<open>A node after a change below one of its children.\<close>

lemma node_upd:
  assumes t: "tree_at m a (Nd n ps l r)" and d: "distinct (tblocks (Nd n ps l r))" and sp: "spaced B" "set (tblocks (Nd n ps l r)) \<subseteq> B" "a \<notin> area B"
    and u: "upd_in m m' (insert (child (hd ps) x) (links C))" "C \<subseteq> B" "C \<inter> set ps = {}" "C \<inter> set (tblocks (if x then l else r)) = {}"
    and t': "tree_at m' (child (hd ps) x) u"
  shows "tree_at m' a (if x then Nd n ps l u else Nd n ps u r)"
proof -
  obtain p qs where ps: "ps = p # qs" using t by (cases ps) auto
  let ?X = "insert (child p x) (links C)"
  have out: "q + i \<notin> ?X" if "q \<in> B" "q \<notin> C" "i < 56" "q = p \<Longrightarrow> p + i \<noteq> child p x" for q i
  proof -
    have "q + i \<noteq> p + (if x then 48 else 40)" by (rule cell_neq [OF sp(1)]) (use that sp(2) ps in auto)
    then have "q + i \<noteq> child p x" by (simp add: child_def split: if_splits)
    then show ?thesis using not_links [OF sp(1) u(2) that(1,2,3)] by simp
  qed
  have mx: "m' y = m y" if "y \<notin> ?X" for y using u(1) that ps unfolding upd_in_def by simp
  have "child p x \<in> area B" using areaI [of p B 40] areaI [of p B 48] sp(2) ps by (cases x) auto
  moreover have "links C \<subseteq> area B" using links_mono [OF u(2)] links_area [of B] by blast
  ultimately have "a \<notin> ?X" using sp(3) by blast
  then have a: "m' a = m a" by (rule mx)
  have pB: "q \<in> B" "q \<notin> C" if "q \<in> set ps" for q using that sp(2) u(3) by auto
  have ag: "m' (q + i) = m (q + i)" if "q \<in> set ps" "i < 40" for q i
    by (rule mx, rule out [OF pB [OF that(1)]]) (use that(2) in \<open>auto simp: child_def\<close>)
  have c: "chain m' (ps @ [hd ps]) = chain m (ps @ [hd ps])"
    by (rule chain_frame) (use ag ps in \<open>auto dest: in_set_butlastD\<close>)
  have z: "m' q = m q" if "q \<in> set ps" for q using ag [OF that, of 0] by simp
  have w: "tree_at m' (child p (\<not> x)) (if x then l else r)"
  proof (rule tree_upd [OF _ u(1) [unfolded ps list.sel]])
    show "tree_at m (child p (\<not> x)) (if x then l else r)" using t ps by simp
    show "child p (\<not> x) \<notin> ?X" using out [OF pB, of p 40] out [OF pB, of p 48] ps by (cases x) auto
  next
    fix q i assume q: "q \<in> set (tblocks (if x then l else r))" "i < (56 :: nat)"
    then have "q \<in> B" "q \<notin> C" "q \<noteq> p" using sp(2) u(4) d ps by (auto split: if_splits)
    then show "q + i \<notin> ?X" using out q(2) by blast
  qed
  have tl: "\<And>q. q \<in> set qs \<Longrightarrow> q \<in> set ps" using ps by simp
  show ?thesis using t a z c w t' ag [of p 32] ag [OF tl, of _ 32] ps by (cases x) auto
qed

section \<open>Adding\<close>

fun tins :: "nat \<Rightarrow> nat \<Rightarrow> nat \<Rightarrow> ltree \<Rightarrow> ltree" where
  "tins k s b Lf = Nd s [b] Lf Lf"
| "tins k s b (Nd n ps l r) =
     (if n = s then Nd n (hd ps # b # tl ps) l r
      else if bit s (k - 1) then Nd n ps l (tins (k - 1) s b r)
      else Nd n ps (tins (k - 1) s b l) r)"

lemma tins_blocks: "twf k pre t \<Longrightarrow> mset (tblocks (tins k s b t)) = add_mset b (mset (tblocks t))"
proof (induction k pre t rule: twf.induct)
  case (2 k pre n ps l r)
  then show ?case by (cases ps) (auto split: nat.splits simp: ac_simps)
qed simp


lemma tins_twf: "twf k pre t \<Longrightarrow> s div 2 ^ k = pre \<Longrightarrow> twf k pre (tins k s b t)"
proof (induction k pre t rule: twf.induct)
  case (2 k pre n ps l r)
  show ?case
  proof (cases k)
    case (Suc j)
    have "s div 2 ^ j = 2 * pre + of_bool (bit s j)" using div_pow_Suc [of s j] "2.prems"(2) Suc by simp
    then show ?thesis using 2 Suc by auto
  qed (use 2 in auto)
qed (auto split: nat.splits)

lemma tins_sizes: "tsizes (tins k s b t) \<subseteq> insert s (tsizes t)" "tins k s b t \<noteq> Lf"
  by (induction t arbitrary: k) (auto, blast+)

lemma link_agree:
  assumes "spaced B" "{b, y, z, q} \<subseteq> B" "i < 56" "q = b \<Longrightarrow> i \<noteq> 16 \<and> i \<noteq> 24" "q = y \<Longrightarrow> i \<noteq> 24" "q = z \<Longrightarrow> i \<noteq> 16"
  shows "link_mem b y z m (q + i) = m (q + i)"
proof -
  have "q + i \<noteq> b + 16" by (rule cell_neq [OF assms(1)]) (use assms in auto)
  moreover have "q + i \<noteq> b + 24" by (rule cell_neq [OF assms(1)]) (use assms in auto)
  moreover have "q + i \<noteq> y + 24" by (rule cell_neq [OF assms(1)]) (use assms in auto)
  moreover have "q + i \<noteq> z + 16" by (rule cell_neq [OF assms(1)]) (use assms in auto)
  ultimately show ?thesis by (simp add: link_mem_def)
qed

lemma upd_in_link: "{b + 16, b + 24, y + 24, z + 16} \<subseteq> dom m \<Longrightarrow> {b, y, z} \<subseteq> B \<Longrightarrow> upd_in m (link_mem b y z m) (links B)"
  unfolding link_mem_def upd_in_def using linksI [of _ B 16] linksI [of _ B 24] by (auto simp: domIff)

lemma hang_at_ok:
  assumes "{a, b + 16, b + 24, b + 32} \<subseteq> dom (mem h)"
  shows "hang_at a b h = Some (h\<lparr>mem := (mem h)(a \<mapsto> b, b + 32 \<mapsto> a, b + 16 \<mapsto> b, b + 24 \<mapsto> b)\<rparr>)"
  using assms by (simp add: hang_at_def)

text \<open>A new block is hung into an empty slot, or finds its place in the tree there.\<close>

definition ins_at :: "nat \<Rightarrow> nat \<Rightarrow> nat \<Rightarrow> nat \<Rightarrow> ltree \<Rightarrow> mm_heap \<Rightarrow> mm_heap option" where
  "ins_at a k s b t h = (if t = Lf then hang_at a b h else add_large_loop a (mshift s k) s b h)"

lemma ins_at_ok:
  assumes "tree_at (mem h) a t" "twf k pre t" "s div 2 ^ k = pre" "k \<le> 64" "distinct (tblocks t)" "b \<notin> set (tblocks t)" "b \<noteq> 0"
    "spaced (insert b (set (tblocks t)))" "a \<notin> area (insert b (set (tblocks t)))"
    "mem h b = Some s" "mem h (b + 40) = Some 0" "mem h (b + 48) = Some 0" "{b + 16, b + 24, b + 32} \<subseteq> dom (mem h)"
  shows "\<exists>m'. ins_at a k s b t h = Some (h\<lparr>mem := m'\<rparr>) \<and> tree_at m' a (tins k s b t) \<and>
    upd_in (mem h) m' (insert a (links (insert b (set (tblocks t)))))"
  using assms
proof (induction t arbitrary: a k pre)
  case Lf
  let ?m = "(mem h)(a \<mapsto> b, b + 32 \<mapsto> a, b + 16 \<mapsto> b, b + 24 \<mapsto> b)"
  have a: "a \<noteq> b + i" if "i < 56" for i using Lf.prems(9) that areaI [of b "{b}" i] by auto
  have d: "a \<in> dom (mem h)" using Lf.prems(1) by auto
  have "tree_at ?m a (Nd s [b] Lf Lf)" using a [of 32] a [of 16] a [of 24] a [of 0] a [of 40] a [of 48] Lf.prems(7,10-12) by simp
  moreover have "upd_in (mem h) ?m (insert a (links {b}))"
    using Lf.prems(13) d linksI [of b "{b}"] by (auto simp: upd_in_def domIff)
  ultimately show ?case using hang_at_ok [of a b h] d Lf.prems(13) by (auto simp: ins_at_def)
next
  case (Nd n ps l r)
  let ?m = "mem h" and ?B = "insert b (set (tblocks (Nd n ps l r)))"
  obtain p qs where ps: "ps = p # qs" using Nd.prems(1) by (cases ps) auto
  have t: "?m a = Some p" "?m (p + 32) = Some a" "\<forall>q\<in>set qs. ?m (q + 32) = Some 0" "\<forall>q\<in>set ps. ?m q = Some n" "0 \<notin> set ps"
      "tree_at ?m (p + 40) l" "tree_at ?m (p + 48) r" "chain ?m (p # qs @ [p])"
    using Nd.prems(1) ps by auto
  have sp: "spaced ?B" by (rule Nd.prems(8))
  have bB: "b \<in> ?B" "p \<in> ?B" "set ps \<subseteq> ?B" "set (tblocks l) \<subseteq> ?B" "set (tblocks r) \<subseteq> ?B" using ps by auto
  have aB: "a \<noteq> q + i" if "q \<in> ?B" "i < 56" for q i using Nd.prems(9) areaI [OF that] by auto
  have dl: "distinct ps" "distinct (tblocks l)" "distinct (tblocks r)" "b \<notin> set ps" "b \<notin> set (tblocks l)" "b \<notin> set (tblocks r)"
      "set ps \<inter> set (tblocks l) = {}" "set ps \<inter> set (tblocks r) = {}" "set (tblocks l) \<inter> set (tblocks r) = {}"
    using Nd.prems(5,6) by auto
  have "(0 :: nat) < 56" by simp
  show ?case
  proof (cases "n = s")
    case True
    let ?z = "hd (qs @ [p])"
    have rg: "ring ?m p qs" using t(8) dl(1) ps by (simp add: ring_def)
    have z: "?z \<in> set ps" using ps hd_in_set [of "qs @ [p]"] by auto
    have zm: "?m (p + 24) = Some ?z" using rg ring_split [of ?m p "[]" qs] by (simp add: ring_def)
    let ?m1 = "link_mem b p ?z ?m"
    let ?m2 = "?m1(b + 32 \<mapsto> 0)"
    have dz: "{b + 16, b + 24, p + 24, ?z + 16} \<subseteq> dom ?m" using Nd.prems(13) ring_dom [OF rg] z ps by auto
    have "link_between b p ?z h = Some (h\<lparr>mem := ?m1\<rparr>)" by (rule link_between_ok [OF dz])
    moreover have d1: "dom ?m1 = dom ?m" using upd_in_link [OF dz, of UNIV] by (simp add: upd_in_def)
    ultimately have e: "ins_at a k s b (Nd n ps l r) h = Some (h\<lparr>mem := ?m2\<rparr>)"
      using t(1,4) True zm Nd.prems(13) ps by (simp add: ins_at_def add_large_loop.simps [of a] ld_def)
    have u: "upd_in ?m ?m2 (links ?B)"
    proof -
      have "upd_in ?m ?m1 (links ?B)" by (rule upd_in_link [OF dz]) (use bB z in auto)
      moreover have "b + 32 \<in> links ?B" "b + 32 \<in> dom ?m" using linksI [OF bB(1)] Nd.prems(13) by auto
      ultimately show ?thesis using upd_in_step [of ?m ?m1 "links ?B" "b + 32" 0] by (simp add: insert_absorb)
    qed
    have ag: "?m2 (q + i) = ?m (q + i)" if "q \<in> ?B" "i < 56" "q = b \<Longrightarrow> i \<notin> {16, 24, 32}" "q = p \<Longrightarrow> i \<noteq> 24" "q = ?z \<Longrightarrow> i \<noteq> 16" for q i
    proof -
      have "?m1 (q + i) = ?m (q + i)" by (rule link_agree [OF sp]) (use that bB z in auto)
      moreover have "q + i \<noteq> b + 32" by (rule cell_neq [OF sp that(1) bB(1)]) (use that in auto)
      ultimately show ?thesis by simp
    qed
    have "noclash (insert b (set (p # [] @ qs)))" by (rule noclash_mono [OF spaced_noclash [OF sp]]) (use ps in auto)
    moreover have "b \<notin> set (p # [] @ qs)" using dl(4) ps by simp
    ultimately have "ring ?m1 p (b # qs)" using ring_insert [of ?m p "[]" qs b] rg by simp
    then have "ring ?m2 p (b # qs)"
    proof (rule ring_frame)
      fix q assume "q \<in> set (p # b # qs)"
      then have "q \<in> ?B" using ps by auto
      then have "q + 16 \<noteq> b + 32" "q + 24 \<noteq> b + 32" using cell_neq [OF sp _ bB(1)] by simp_all
      then show "?m2 (q + 16) = ?m1 (q + 16) \<and> ?m2 (q + 24) = ?m1 (q + 24)" by simp
    qed
    moreover have "a \<notin> links ?B" using links_area Nd.prems(9) by blast
    then have "?m2 a = Some p" using u t(1) unfolding upd_in_def by metis
    moreover have "?m2 (p + 32) = Some a" using ag [OF bB(2), of 32] t(2) dl(4) ps by auto
    moreover have "\<forall>q\<in>set qs. ?m2 (q + 32) = Some 0"
    proof
      fix q assume q: "q \<in> set qs"
      have "?m2 (q + 32) = ?m (q + 32)" by (rule ag) (use q dl(4) ps in auto)
      then show "?m2 (q + 32) = Some 0" using t(3) q by simp
    qed
    moreover have "\<forall>q\<in>set (p # b # qs). ?m2 q = Some s"
    proof
      fix q assume q: "q \<in> set (p # b # qs)"
      have "?m2 (q + 0) = ?m (q + 0)" by (rule ag) (use q ps in auto)
      then show "?m2 q = Some s" using q t(4) Nd.prems(10) True ps by (cases "q = b") (auto simp del: fun_upd_apply)
    qed
    moreover have tu: "tree_at ?m2 (p + i) u" if "tree_at ?m (p + i) u" "i = 40 \<or> i = 48" "set (tblocks u) \<subseteq> ?B - insert b (set ps)" for i u
    proof (rule tree_frame [THEN iffD2, OF _ _ that(1)])
      fix q j assume "q \<in> set (tblocks u)" "j < (56 :: nat)"
      then show "?m2 (q + j) = ?m (q + j)" using that(3) z ps by (intro ag) auto
    next
      show "?m2 (p + i) = ?m (p + i)" by (rule ag [OF bB(2)]) (use that(2) dl(4) ps in auto)
    qed
    have "tree_at ?m2 (p + 40) l" "tree_at ?m2 (p + 48) r" by (rule tu [OF t(6)] tu [OF t(7)]; use dl bB in auto)+
    ultimately have "tree_at ?m2 a (Nd s (p # b # qs) l r)" using t(5) Nd.prems(7) ps by (simp add: ring_def)
    then show ?thesis using e u ps True by (auto intro: upd_in_mono)
  next
    case False
    obtain j where j: "k = Suc j"
    proof (cases k)
      case 0
      then have "n = pre" using Nd.prems(2) by simp
      then show thesis using Nd.prems(3) 0 False by simp
    qed (use that in blast)
    let ?x = "bit s j"
    let ?c = "child p ?x" and ?u = "if ?x then r else l"
    have w: "twf j (2 * pre + of_bool ?x) ?u" using Nd.prems(2) j by auto
    have sj: "s div 2 ^ j = 2 * pre + of_bool ?x" using div_pow_Suc [of s j] Nd.prems(3) j by simp
    have bk: "bit (mshift s k) 63 \<longleftrightarrow> ?x" using mshift_bit [of k s] Nd.prems(4) j by simp
    have sh: "shl1 (mshift s k) = mshift s j" using mshift_shl1 [of j s] Nd.prems(4) j by simp
    have tu: "tree_at ?m ?c ?u" using t(6,7) by simp
    obtain v where v: "?m ?c = Some v" "v = 0 \<longleftrightarrow> ?u = Lf" using tree_at_root [OF tu] by blast
    have e: "ins_at a k s b (Nd n ps l r) h = ins_at ?c j s b ?u h"
      using t(1,4) v False ps by (simp add: ins_at_def add_large_loop.simps [of a] ld_def bk sh Let_def)
    have sub: "insert b (set (tblocks ?u)) \<subseteq> ?B" by auto
    have pn: "p \<notin> insert b (set (tblocks ?u))" using dl ps by auto
    have ca: "?c \<notin> area (insert b (set (tblocks ?u)))"
      using not_area [OF sp sub bB(2) pn, of 40] not_area [OF sp sub bB(2) pn, of 48] by (auto simp: child_def)
    have du: "j \<le> 64" "distinct (tblocks ?u)" "b \<notin> set (tblocks ?u)" using Nd.prems(4) j dl by auto
    have "\<exists>m'. ins_at ?c j s b ?u h = Some (h\<lparr>mem := m'\<rparr>) \<and> tree_at m' ?c (tins j s b ?u) \<and>
        upd_in ?m m' (insert ?c (links (insert b (set (tblocks ?u)))))"
    proof (cases ?x)
      case True
      have u: "?u = r" "2 * pre + of_bool ?x = 2 * pre + 1" using True by simp_all
      show ?thesis unfolding u
        by (rule Nd.IH(2) [OF tu [unfolded u] w [unfolded u] sj [unfolded u] du(1) du(2) [unfolded u] du(3) [unfolded u] Nd.prems(7)
              spaced_mono [OF sp sub, unfolded u] ca [unfolded u] Nd.prems(10-13)])
    next
      case False
      have u: "?u = l" "2 * pre + of_bool ?x = 2 * pre" using False by simp_all
      show ?thesis unfolding u
        by (rule Nd.IH(1) [OF tu [unfolded u] w [unfolded u] sj [unfolded u] du(1) du(2) [unfolded u] du(3) [unfolded u] Nd.prems(7)
              spaced_mono [OF sp sub, unfolded u] ca [unfolded u] Nd.prems(10-13)])
    qed
    then obtain m' where m': "ins_at ?c j s b ?u h = Some (h\<lparr>mem := m'\<rparr>)" "tree_at m' ?c (tins j s b ?u)"
        "upd_in ?m m' (insert ?c (links (insert b (set (tblocks ?u)))))" by blast
    have "tree_at m' a (if ?x then Nd n ps l (tins j s b ?u) else Nd n ps (tins j s b ?u) r)"
      by (rule node_upd [OF Nd.prems(1,5) sp _ Nd.prems(9) _ sub]) (use m' dl ps in auto)
    moreover have "(if ?x then Nd n ps l (tins j s b ?u) else Nd n ps (tins j s b ?u) r) = tins k s b (Nd n ps l r)" using False j by simp
    moreover have "upd_in ?m m' (insert a (links ?B))"
      by (rule upd_in_mono [OF m'(3)]) (use linksI [OF bB(2)] links_mono [OF sub] in \<open>auto simp: child_def\<close>)
    ultimately show ?thesis using e m'(1) by auto
  qed
qed

section \<open>Replacing a node\<close>

lemma tree_move:
  assumes t: "tree_at m a (Nd s ps l r)" and d: "distinct (tblocks (Nd s ps l r))" and sp: "spaced (set (tblocks (Nd s ps l r)))"
    and a': "a' \<notin> area (set (tblocks (Nd s ps l r)))"
  shows "tree_at (m(a' \<mapsto> hd ps, hd ps + 32 \<mapsto> a')) a' (Nd s ps l r)"
proof -
  obtain p qs where ps: "ps = p # qs" using t by (cases ps) auto
  let ?B = "set (tblocks (Nd s ps l r))" and ?m = "m(a' \<mapsto> p, p + 32 \<mapsto> a')"
  have p: "p \<in> ?B" using ps by simp
  have ag: "?m (q + i) = m (q + i)" if "q \<in> ?B" "i < 56" "q = p \<Longrightarrow> i \<noteq> 32" for q i
  proof -
    have "q + i \<noteq> a'" using areaI [OF that(1,2)] a' by auto
    moreover have "q + i \<noteq> p + 32" by (rule cell_neq [OF sp that(1) p]) (use that in auto)
    ultimately show ?thesis by simp
  qed
  have tu: "tree_at ?m (p + i) u" if "tree_at m (p + i) u" "i = 40 \<or> i = 48" "set (tblocks u) \<subseteq> ?B" "p \<notin> set (tblocks u)" for i u
  proof (rule tree_frame [THEN iffD2, OF _ _ that(1)])
    fix q j assume "q \<in> set (tblocks u)" "j < (56 :: nat)"
    then show "?m (q + j) = m (q + j)" using that(3,4) by (intro ag) auto
  next
    show "?m (p + i) = m (p + i)" by (rule ag [OF p]) (use that(2) in auto)
  qed
  have "tree_at ?m (p + 40) l" by (rule tu) (use t d ps in auto)
  moreover have "tree_at ?m (p + 48) r" by (rule tu) (use t d ps in auto)
  moreover have z: "?m q = m q" if "q \<in> set ps" for q using ag [of q 0] that by simp
  moreover have "chain ?m (ps @ [hd ps]) = chain m (ps @ [hd ps])"
    by (rule chain_frame) (use ag ps in \<open>auto dest: in_set_butlastD simp del: fun_upd_apply\<close>)
  moreover have "?m (q + 32) = m (q + 32)" if "q \<in> set qs" for q by (rule ag) (use that d ps in auto)
  moreover have "?m a' = Some p" using areaI [OF p, of 32] a' by auto
  ultimately show ?thesis using t ps by (simp del: fun_upd_apply) simp
qed

lemma subst_child_ok:
  assumes t: "tree_at (mem h) (child b i) u" and q: "child q i \<in> dom (mem h)" "q \<noteq> b"
    and sp: "spaced B" "insert q (insert b (set (tblocks u))) \<subseteq> B" "q \<notin> set (tblocks u)" "b \<notin> set (tblocks u)" "distinct (tblocks u)"
  shows "\<exists>m'. subst_child q b i h = Some (h\<lparr>mem := m'\<rparr>) \<and> tree_at m' (child q i) u \<and>
    upd_in (mem h) m' (insert (child q i) ((\<lambda>p. p + 32) ` set (tblocks u)))"
proof (cases u)
  case Lf
  then show ?thesis using t q(1) by (intro exI [of _ "(mem h)(child q i \<mapsto> 0)"]) (auto simp: subst_child_def ld_def upd_in_def)
next
  case (Nd s ps l r)
  obtain p qs where ps: "ps = p # qs" using t Nd by (cases ps) auto
  have pB: "p \<in> B" "q \<in> B" "b \<in> B" using sp(2) Nd ps by auto
  have p: "mem h (child b i) = Some p" "p \<noteq> 0" "mem h (p + 32) = Some (child b i)" using t Nd ps by auto
  have ne: "p \<noteq> q" "p \<noteq> b" using sp(3,4) Nd ps by auto
  have c: "child x i = x + (if i then 48 else 40)" for x by (simp add: child_def)
  have n1: "p + 32 \<noteq> child q i" unfolding c by (rule cell_neq [OF sp(1)]) (use pB in auto)
  have n2: "child b i \<noteq> child q i" unfolding c using q(2) by simp
  let ?m = "(mem h)(child q i \<mapsto> p, p + 32 \<mapsto> child q i)"
  have "subst_child q b i h = Some (h\<lparr>mem := ?m\<rparr>)"
    using p n1 n2 q(1) by (simp add: subst_child_def ld_def ZEND_MM_CHECK_TREE_def domIff)
  moreover have "child q i \<notin> area (set (tblocks u))"
    unfolding c by (rule not_area [OF sp(1) _ pB(2) sp(3)]) (use sp(2) in auto)
  then have "tree_at ?m (child q i) u"
    using tree_move [of "mem h" "child b i" s ps l r "child q i"] t sp(5) spaced_mono [OF sp(1), of "set (tblocks u)"] sp(2) Nd ps by simp
  moreover have "upd_in (mem h) ?m (insert (child q i) ((\<lambda>p. p + 32) ` set (tblocks u)))"
    using q(1) p(3) Nd ps by (auto simp: upd_in_def domIff)
  ultimately show ?thesis by blast
qed

lemma subst_block_ok:
  assumes b: "mem h (b + 32) = Some a" "mem h a = Some b" "tree_at (mem h) (b + 40) l" "tree_at (mem h) (b + 48) r"
    and q: "ring (mem h) q qs" "\<forall>x\<in>set (q # qs). mem h x = Some s" "\<forall>x\<in>set qs. mem h (x + 32) = Some 0" "0 \<notin> set (q # qs)"
    and sp: "spaced (set (b # q # qs @ tblocks l @ tblocks r))" "distinct (b # q # qs @ tblocks l @ tblocks r)"
      "a \<notin> area (set (b # q # qs @ tblocks l @ tblocks r))"
    and d: "{q + 32, q + 40, q + 48} \<subseteq> dom (mem h)"
  shows "\<exists>m'. subst_block q b h = Some (h\<lparr>mem := m'\<rparr>) \<and> tree_at m' a (Nd s (q # qs) l r) \<and>
    upd_in (mem h) m' (insert a (links (set (q # qs @ tblocks l @ tblocks r))))"
proof -
  let ?B = "set (b # q # qs @ tblocks l @ tblocks r)" and ?m = "mem h"
  have aB: "a \<noteq> x + i" if "x \<in> ?B" "i < 56" for x i using sp(3) areaI [OF that] by auto
  have qB: "q \<in> ?B" "b \<in> ?B" by auto
  let ?m1 = "?m(a \<mapsto> q, q + 32 \<mapsto> a)"
  let ?h1 = "h\<lparr>mem := ?m1\<rparr>"
  have ag1: "?m1 (x + i) = ?m (x + i)" if "x \<in> ?B" "i < 56" "x = q \<Longrightarrow> i \<noteq> 32" for x i
    using aB [OF that(1,2)] cell_neq [OF sp(1) that(1) qB(1) that(2), of 32] that(3) by simp
  have t1: "tree_at ?m1 (b + i) u" if "tree_at ?m (b + i) u" "i < 56" "set (tblocks u) \<subseteq> ?B" "q \<notin> set (tblocks u)" for i u
  proof (rule tree_frame [THEN iffD2, OF _ _ that(1)])
    fix x j assume "x \<in> set (tblocks u)" "j < (56 :: nat)"
    then show "?m1 (x + j) = ?m (x + j)" using that(3,4) by (intro ag1) auto
  next
    show "?m1 (b + i) = ?m (b + i)" by (rule ag1 [OF qB(2) that(2)]) (use sp(2) in auto)
  qed
  have l1: "tree_at (mem ?h1) (child b False) l" "tree_at (mem ?h1) (b + 48) r" using t1 [OF b(3)] t1 [OF b(4)] sp(2) by auto
  obtain m2 where m2: "subst_child q b False ?h1 = Some (?h1\<lparr>mem := m2\<rparr>)" "tree_at m2 (child q False) l"
      "upd_in ?m1 m2 (insert (child q False) ((\<lambda>p. p + 32) ` set (tblocks l)))"
    using subst_child_ok [OF l1(1), of q ?B] sp(1,2) d by auto
  let ?X2 = "insert (child q False) ((\<lambda>p. p + 32) ` set (tblocks l))"
  let ?h2 = "?h1\<lparr>mem := m2\<rparr>"
  have n2: "x + i \<notin> ?X2" if "x \<in> ?B" "x \<notin> set (tblocks l)" "i < 56" "x = q \<Longrightarrow> i \<noteq> 40" for x i
  proof -
    have "x + i \<noteq> q + 40" by (rule cell_neq [OF sp(1) that(1) qB(1)]) (use that in auto)
    moreover have "x + i \<noteq> y + 32" if "y \<in> set (tblocks l)" for y by (rule cell_neq [OF sp(1) \<open>x \<in> ?B\<close>]) (use that \<open>x \<notin> set (tblocks l)\<close> \<open>i < 56\<close> in auto)
    ultimately show ?thesis by auto
  qed
  have r2: "tree_at (mem ?h2) (child b True) r"
  proof -
    have "tree_at m2 (b + 48) r"
      by (rule tree_upd [OF l1(2) _ n2]) (use m2(3) n2 sp(2) in auto)
    then show ?thesis by simp
  qed
  obtain m3 where m3: "subst_child q b True ?h2 = Some (?h2\<lparr>mem := m3\<rparr>)" "tree_at m3 (child q True) r"
      "upd_in m2 m3 (insert (child q True) ((\<lambda>p. p + 32) ` set (tblocks r)))"
    using subst_child_ok [OF r2, of q ?B] sp(1,2) d m2(3) by (auto simp: upd_in_def)
  let ?X3 = "insert (child q True) ((\<lambda>p. p + 32) ` set (tblocks r))"
  have n3: "x + i \<notin> ?X3" if "x \<in> ?B" "x \<notin> set (tblocks r)" "i < 56" "x = q \<Longrightarrow> i \<noteq> 48" for x i
  proof -
    have "x + i \<noteq> q + 48" by (rule cell_neq [OF sp(1) that(1) qB(1)]) (use that in auto)
    moreover have "x + i \<noteq> y + 32" if "y \<in> set (tblocks r)" for y by (rule cell_neq [OF sp(1) \<open>x \<in> ?B\<close>]) (use that \<open>x \<notin> set (tblocks r)\<close> \<open>i < 56\<close> in auto)
    ultimately show ?thesis by auto
  qed
  have l3: "tree_at m3 (q + 40) l" by (rule tree_upd [OF _ m3(3)]) (use m2(2) n3 sp(2) in auto)
  have e: "subst_block q b h = Some (h\<lparr>mem := m3\<rparr>)"
    using b(1,2) d aB [OF qB(1), of 32] m2(1) m3(1) by (simp add: subst_block_def ZEND_MM_CHECK_TREE_def ld_def domIff)
  have ag: "m3 y = ?m1 y" if "y \<notin> ?X2" "y \<notin> ?X3" for y using m2(3) m3(3) that unfolding upd_in_def by simp
  have nl: "x \<in> ?B" "x \<notin> set (tblocks l)" "x \<notin> set (tblocks r)" if "x \<in> set (q # qs)" for x using that sp(2) by auto
  have ag': "m3 (x + i) = ?m1 (x + i)" if "x \<in> set (q # qs)" "i < 40" for x i
    by (rule ag; rule n2 n3) (use nl [OF that(1)] that(2) in auto)
  have ag0: "m3 (x + i) = ?m (x + i)" if "x \<in> set (q # qs)" "i < 32" for x i
    using ag' [OF that(1)] ag1 [OF nl(1) [OF that(1)], of i] that(2) by simp
  have "m3 a = Some q"
  proof -
    have "a \<notin> ?X2" "a \<notin> ?X3" using aB [of q 40] aB [of q 48] aB [of _ 32] by auto
    then show ?thesis using ag [of a] aB [OF qB(1), of 32] by simp
  qed
  moreover have "m3 (q + 32) = Some a" using ag' [of q 32] by simp
  moreover have "m3 (x + 32) = Some 0" if "x \<in> set qs" for x
    using ag' [of x 32] ag1 [OF nl(1), of x 32] that q(3) sp(2) by auto
  moreover have "m3 x = Some s" if "x \<in> set (q # qs)" for x using ag0 [OF that, of 0] q(2) that by auto
  moreover have "ring m3 q qs" by (rule ring_frame [OF q(1)]) (use ag0 in simp)
  ultimately have "tree_at m3 a (Nd s (q # qs) l r)" using m3(2) l3 q(4) by (simp add: ring_def)
  moreover have "upd_in ?m m3 (insert a (links (set (q # qs @ tblocks l @ tblocks r))))" (is "upd_in _ _ ?Y")
  proof -
    have qY: "q + i \<in> ?Y" if "16 \<le> i" "i < 56" for i using linksI [OF _ that, of q] by simp
    have "?X2 \<subseteq> ?Y" "?X3 \<subseteq> ?Y" using qY [of 40] qY [of 48] linksI [of _ "set (q # qs @ tblocks l @ tblocks r)" 32] by auto
    then have "m3 y = ?m1 y" if "y \<notin> ?Y" for y using ag [of y] that by blast
    then have "m3 y = ?m y" if "y \<notin> ?Y" for y using that qY [of 32] by (auto simp del: insert_iff simp: insertI1)
    then show ?thesis using m2(3) m3(3) b(2) d by (simp add: upd_in_def domIff insert_absorb)
  qed
  ultimately show ?thesis using e by blast
qed

section \<open>Taking out a leaf\<close>

fun tcut :: "ltree \<Rightarrow> (nat \<times> nat list) \<times> ltree" where
  "tcut Lf = ((0, []), Lf)"
| "tcut (Nd s ps l r) =
     (if r \<noteq> Lf then (fst (tcut r), Nd s ps l (snd (tcut r)))
      else if l \<noteq> Lf then (fst (tcut l), Nd s ps (snd (tcut l)) r)
      else ((s, ps), Lf))"

lemma tcut_node: "t \<noteq> Lf \<Longrightarrow> fst (tcut t) \<in> tnodes t"
  by (induction t) auto

lemma tcut_blocks: "t \<noteq> Lf \<Longrightarrow> mset (tblocks t) = mset (snd (fst (tcut t))) + mset (tblocks (snd (tcut t)))"
  by (induction t) auto

lemma tcut_twf: "twf k pre t \<Longrightarrow> twf k pre (snd (tcut t))"
  by (induction k pre t rule: twf.induct) (auto split: nat.splits)

lemma tcut_sizes: "tsizes (snd (tcut t)) \<subseteq> tsizes t"
  by (induction t) auto

lemma last_leaf_ok:
  assumes "tree_at (mem h) a t" "mem h a = Some p" "p \<noteq> 0" "distinct (tblocks t)" "spaced (set (tblocks t))" "a \<notin> area (set (tblocks t))"
  shows "\<exists>rp qs s. last_leaf p a h = Some (hd qs, rp) \<and> fst (tcut t) = (s, qs) \<and> tree_at ((mem h)(rp \<mapsto> 0)) a (snd (tcut t)) \<and>
    rp \<in> dom (mem h) \<and> (rp = a \<or> rp \<in> links (set (tblocks (snd (tcut t)))))"
  using assms
proof (induction t arbitrary: a p)
  case Lf
  then show ?case by simp
next
  case (Nd s ps l r)
  let ?t = "Nd s ps l r" and ?m = "mem h"
  obtain qs where ps: "ps = p # qs" using Nd.prems(1,2) by (cases ps) auto
  have t: "tree_at ?m (p + 40) l" "tree_at ?m (p + 48) r" using Nd.prems(1) ps by auto
  have pB: "p \<in> set (tblocks ?t)" using ps by simp
  obtain c0 where c0: "?m (p + 40) = Some c0" "c0 = 0 \<longleftrightarrow> l = Lf" using tree_at_root [OF t(1)] by blast
  obtain c1 where c1: "?m (p + 48) = Some c1" "c1 = 0 \<longleftrightarrow> r = Lf" using tree_at_root [OF t(2)] by blast
  have step: "last_leaf p a h = (if c1 \<noteq> 0 then last_leaf c1 (child p True) h else if c0 \<noteq> 0 then last_leaf c0 (child p False) h else Some (p, a))"
    using c0(1) c1(1) by (simp add: last_leaf.simps [of p] ld_def Let_def)
  have dis: "p \<notin> set (tblocks l)" "p \<notin> set (tblocks r)" "distinct (tblocks l)" "distinct (tblocks r)" using Nd.prems(4) ps by auto
  show ?case
  proof (cases "c1 = 0 \<and> c0 = 0")
    case True
    then have "l = Lf" "r = Lf" using c0(2) c1(2) by simp_all
    then show ?thesis using step True ps Nd.prems(2) by (auto simp: domIff)
  next
    case False
    define x where "x = (c1 \<noteq> 0)"
    define u where "u = (if x then r else l)"
    define c where "c = (if x then c1 else c0)"
    have u: "tree_at ?m (child p x) u" "?m (child p x) = Some c" "c \<noteq> 0" "distinct (tblocks u)" "u \<noteq> Lf"
      using t c0 c1 dis False by (auto simp: x_def u_def c_def)
    have sub: "set (tblocks u) \<subseteq> set (tblocks ?t)" by (auto simp: u_def)
    have spu: "spaced (set (tblocks u))" by (rule spaced_mono [OF Nd.prems(5) sub])
    have pu: "p \<notin> set (tblocks u)" using dis by (simp add: u_def)
    have ca: "child p x \<notin> area (set (tblocks u))"
      using not_area [OF Nd.prems(5) sub pB pu, of 40] not_area [OF Nd.prems(5) sub pB pu, of 48] by (cases x) auto
    have e: "last_leaf p a h = last_leaf c (child p x) h" using step False by (auto simp: x_def c_def)
    have "\<exists>rp qs s. last_leaf c (child p x) h = Some (hd qs, rp) \<and> fst (tcut u) = (s, qs) \<and> tree_at (?m(rp \<mapsto> 0)) (child p x) (snd (tcut u)) \<and>
        rp \<in> dom ?m \<and> (rp = child p x \<or> rp \<in> links (set (tblocks (snd (tcut u)))))"
    proof (cases x)
      case True
      then have ur: "u = r" by (simp add: u_def)
      show ?thesis unfolding ur by (rule Nd.IH(2) [OF u(1) [unfolded ur] u(2,3) u(4) [unfolded ur] spu [unfolded ur] ca [unfolded ur]])
    next
      case False
      then have ur: "u = l" by (simp add: u_def)
      show ?thesis unfolding ur by (rule Nd.IH(1) [OF u(1) [unfolded ur] u(2,3) u(4) [unfolded ur] spu [unfolded ur] ca [unfolded ur]])
    qed
    then obtain rp us n where r: "last_leaf c (child p x) h = Some (hd us, rp)" "fst (tcut u) = (n, us)"
        "tree_at (?m(rp \<mapsto> 0)) (child p x) (snd (tcut u))" "rp \<in> dom ?m" "rp = child p x \<or> rp \<in> links (set (tblocks (snd (tcut u))))" by blast
    have cs: "set (tblocks (snd (tcut u))) \<subseteq> set (tblocks u)" using tcut_blocks [OF u(5)] by (metis UnCI mset_eq_setD set_append mset_append subsetI)
    have tc: "tcut ?t = (fst (tcut u), if x then Nd s ps l (snd (tcut u)) else Nd s ps (snd (tcut u)) r)"
      using c0(2) c1(2) False by (auto simp: x_def u_def)
    have tn: "tree_at (?m(rp \<mapsto> 0)) a (if x then Nd s ps l (snd (tcut u)) else Nd s ps (snd (tcut u)) r)"
    proof (rule node_upd [OF Nd.prems(1,4,5) subset_refl Nd.prems(6), where C = "set (tblocks (snd (tcut u)))"])
      show "upd_in ?m (?m(rp \<mapsto> 0)) (insert (child (hd ps) x) (links (set (tblocks (snd (tcut u))))))"
        using r(4,5) ps by (auto simp: upd_in_def domIff)
      show "set (tblocks (snd (tcut u))) \<subseteq> set (tblocks ?t)" using cs sub by blast
      show "set (tblocks (snd (tcut u))) \<inter> set ps = {}" using cs Nd.prems(4) by (auto simp: u_def split: if_splits)
      show "set (tblocks (snd (tcut u))) \<inter> set (tblocks (if x then l else r)) = {}" using cs Nd.prems(4) by (auto simp: u_def split: if_splits)
      show "tree_at (?m(rp \<mapsto> 0)) (child (hd ps) x) (snd (tcut u))" using r(3) ps by simp
    qed
    have rl: "rp \<in> links (set (tblocks (snd (tcut ?t))))"
      using r(5) linksI [of p "set (tblocks (snd (tcut ?t)))" 40] linksI [of p "set (tblocks (snd (tcut ?t)))" 48] ps
        links_mono [of "set (tblocks (snd (tcut u)))" "set (tblocks (snd (tcut ?t)))"] unfolding tc by (cases x) auto
    have t2: "fst (tcut ?t) = (n, us)" "snd (tcut ?t) = (if x then Nd s ps l (snd (tcut u)) else Nd s ps (snd (tcut u)) r)"
      unfolding tc using r(2) by simp_all
    show ?thesis by (intro exI conjI disjI2) (rule e [unfolded r(1)], rule t2(1), unfold t2(2), rule tn, rule r(4), rule rl [unfolded t2(2)])
  qed
qed

end
