(* ===== verification/Zend_Mm_Remove.thy ===== *)
theory Zend_Mm_Remove
  imports Zend_Mm_Nodes
begin

text \<open>Taking a block out of a tree of large free blocks.\<close>

section \<open>Places in a tree\<close>

fun tsub :: "ltree \<Rightarrow> bool list \<Rightarrow> ltree" where
  "tsub t [] = t"
| "tsub Lf (x # xs) = Lf"
| "tsub (Nd s ps l r) (x # xs) = tsub (if x then r else l) xs"

fun tput :: "ltree \<Rightarrow> bool list \<Rightarrow> ltree \<Rightarrow> ltree" where
  "tput t [] u = u"
| "tput Lf (x # xs) u = Lf"
| "tput (Nd s ps l r) (x # xs) u = (if x then Nd s ps l (tput r xs u) else Nd s ps (tput l xs u) r)"

fun tslot :: "nat \<Rightarrow> ltree \<Rightarrow> bool list \<Rightarrow> nat" where
  "tslot a t [] = a"
| "tslot a Lf (x # xs) = a"
| "tslot a (Nd s ps l r) (x # xs) = tslot (child (hd ps) x) (if x then r else l) xs"

lemma tsub_node: "(s, ps) \<in> tnodes t \<Longrightarrow> \<exists>xs l r. tsub t xs = Nd s ps l r"
proof (induction t)
  case (Nd n qs l r)
  then consider "n = s" "qs = ps" | "(s, ps) \<in> tnodes l" | "(s, ps) \<in> tnodes r" by auto
  then show ?case
  proof cases
    case 1
    then have "tsub (Nd n qs l r) [] = Nd s ps l r" by simp
    then show ?thesis by blast
  next
    case 2
    then obtain xs l' r' where "tsub l xs = Nd s ps l' r'" using Nd.IH(1) by blast
    then have "tsub (Nd n qs l r) (False # xs) = Nd s ps l' r'" by simp
    then show ?thesis by blast
  next
    case 3
    then obtain xs l' r' where "tsub r xs = Nd s ps l' r'" using Nd.IH(2) by blast
    then have "tsub (Nd n qs l r) (True # xs) = Nd s ps l' r'" by simp
    then show ?thesis by blast
  qed
qed simp

lemma tsub_at: "tree_at m a t \<Longrightarrow> tsub t xs \<noteq> Lf \<Longrightarrow> tree_at m (tslot a t xs) (tsub t xs)"
  by (induction a t xs rule: tslot.induct) auto

lemma tsub_blocks: "set (tblocks (tsub t xs)) \<subseteq> set (tblocks t)" "distinct (tblocks t) \<Longrightarrow> distinct (tblocks (tsub t xs))"
  by (induction t xs rule: tsub.induct) auto

lemma tsub_sizes: "tsizes (tsub t xs) \<subseteq> tsizes t"
  by (induction t xs rule: tsub.induct) auto

lemma head_not_below: "distinct (tblocks (Nd s ps l r)) \<Longrightarrow> ps \<noteq> [] \<Longrightarrow> hd ps \<notin> set (tblocks (if x then r else l))"
  by (cases ps) auto

lemma tslot_in: "tree_at m a t \<Longrightarrow> tsub t xs \<noteq> Lf \<Longrightarrow> xs \<noteq> [] \<Longrightarrow> tslot a t xs \<in> links (set (tblocks t) - set (tblocks (tsub t xs))) \<or> \<not> distinct (tblocks t)"
proof (induction a t xs rule: tslot.induct)
  case (3 a s ps l r x xs)
  let ?u = "if x then r else l"
  have t: "tree_at m (child (hd ps) x) ?u" "ps \<noteq> []" using "3.prems"(1) by auto
  show ?case
  proof (cases "xs = []")
    case True
    have "hd ps \<notin> set (tblocks ?u)" if "distinct (tblocks (Nd s ps l r))" by (rule head_not_below [OF that t(2)])
    then show ?thesis
      using True t(2) hd_in_set [of ps] linksI [of "hd ps" "set (tblocks (Nd s ps l r)) - set (tblocks ?u)" "if x then 48 else 40"]
      by (cases x) auto
  next
    case False
    then have "tslot (child (hd ps) x) ?u xs \<in> links (set (tblocks ?u) - set (tblocks (tsub ?u xs))) \<or> \<not> distinct (tblocks ?u)"
      using 3 t by auto
    moreover have "links (set (tblocks ?u) - set (tblocks (tsub ?u xs))) \<subseteq> links (set (tblocks (Nd s ps l r)) - set (tblocks (tsub ?u xs)))"
      by (rule links_mono) auto
    ultimately show ?thesis by (auto split: if_splits)
  qed
qed auto

lemma tput_at:
  assumes "tree_at m a t" "distinct (tblocks t)" "spaced B" "set (tblocks t) \<subseteq> B" "a \<notin> area B" "tsub t xs \<noteq> Lf"
    "upd_in m m' (insert (tslot a t xs) (links (set (tblocks (tsub t xs)))))" "tree_at m' (tslot a t xs) u"
  shows "tree_at m' a (tput t xs u)"
  using assms
proof (induction a t xs arbitrary: B rule: tslot.induct)
  case (3 a s ps l r x xs)
  let ?u = "if x then r else l"
  have t: "tree_at m (child (hd ps) x) ?u" "ps \<noteq> []" using "3.prems"(1) by auto
  have sub: "set (tblocks ?u) \<subseteq> B" "hd ps \<in> B" "hd ps \<notin> set (tblocks ?u)"
    using "3.prems"(4) t(2) hd_in_set [of ps] head_not_below [OF "3.prems"(2) t(2)] by auto
  have du: "distinct (tblocks ?u)" using "3.prems"(2) by auto
  have ca: "child (hd ps) x \<notin> area (set (tblocks ?u))"
    using not_area [OF "3.prems"(3) sub, of 40] not_area [OF "3.prems"(3) sub, of 48] by (cases x) auto
  have "tree_at m' (child (hd ps) x) (tput ?u xs u)"
    by (rule "3.IH" [OF t(1) du spaced_mono [OF "3.prems"(3) sub(1)] subset_refl ca]) (use "3.prems" in auto)
  moreover have "upd_in m m' (insert (child (hd ps) x) (links (set (tblocks ?u))))"
  proof (rule upd_in_mono [OF "3.prems"(7)])
    have "tslot a (Nd s ps l r) (x # xs) \<in> insert (child (hd ps) x) (links (set (tblocks ?u)))"
    proof (cases "xs = []")
      case False
      then show ?thesis using tslot_in [OF t(1), of xs] "3.prems"(6) du links_mono [of "set (tblocks ?u) - set (tblocks (tsub ?u xs))" "set (tblocks ?u)"] by auto
    qed simp
    then show "insert (tslot a (Nd s ps l r) (x # xs)) (links (set (tblocks (tsub (Nd s ps l r) (x # xs))))) \<subseteq> insert (child (hd ps) x) (links (set (tblocks ?u)))"
      using links_mono [OF tsub_blocks(1) [of ?u xs]] by auto
  qed
  ultimately have "tree_at m' a (if x then Nd s ps l (tput ?u xs u) else Nd s ps (tput ?u xs u) r)"
    by (intro node_upd [OF "3.prems"(1-5), where C = "set (tblocks ?u)"] sub(1)) (use "3.prems"(2) in \<open>auto split: if_splits\<close>)
  then show ?case by (cases x) auto
qed auto

lemma tput_blocks: "tsub t xs \<noteq> Lf \<Longrightarrow> mset (tblocks (tput t xs u)) + mset (tblocks (tsub t xs)) = mset (tblocks t) + mset (tblocks u)"
  by (induction t xs rule: tsub.induct) (auto simp: ac_simps)

lemma tput_sizes: "tsizes (tput t xs u) \<subseteq> tsizes t \<union> tsizes u"
  by (induction t xs rule: tsub.induct) auto

lemma tput_Lf: "tsub t xs \<noteq> Lf \<Longrightarrow> tput t xs u = Lf \<longleftrightarrow> xs = [] \<and> u = Lf"
  by (induction t xs rule: tsub.induct) auto

lemma tput_twf: "twf k pre t \<Longrightarrow> tsub t xs \<noteq> Lf \<Longrightarrow> \<exists>k' pre'. twf k' pre' (tsub t xs) \<and> (\<forall>u. twf k' pre' u \<longrightarrow> twf k pre (tput t xs u))"
proof (induction t xs arbitrary: k pre rule: tsub.induct)
  case (3 s ps l r x xs)
  then obtain j where "k = Suc j" by (cases k; cases xs) (auto split: if_splits)
  then have j: "twf j (2 * pre + of_bool x) (if x then r else l)" using "3.prems"(1) by auto
  obtain k' pre' where "twf k' pre' (tsub (if x then r else l) xs)" "\<forall>u. twf k' pre' u \<longrightarrow> twf j (2 * pre + of_bool x) (tput (if x then r else l) xs u)"
    using "3.IH" [OF j] "3.prems"(2) by auto
  then show ?case using "3.prems"(1) \<open>k = Suc j\<close> by (intro exI [of _ k'] exI [of _ pre']) (cases x; simp)
qed auto

section \<open>Removing from a node\<close>

text \<open>
  What is left of a node without the block \<open>b\<close>: nothing; a leaf from below in its place; or the rest of its ring, with the predecessor of \<open>b\<close> in
  front when \<open>b\<close> was the node of the tree.
\<close>

fun ndel :: "nat \<Rightarrow> ltree \<Rightarrow> ltree" where
  "ndel b Lf = Lf"
| "ndel b (Nd s ps l r) =
     (if ps = [b] then
        if r \<noteq> Lf then Nd (fst (fst (tcut r))) (snd (fst (tcut r))) l (snd (tcut r))
        else if l \<noteq> Lf then Nd (fst (fst (tcut l))) (snd (fst (tcut l))) (snd (tcut l)) r
        else Lf
      else if hd ps = b then Nd s (last ps # butlast (tl ps)) l r
      else Nd s (remove1 b ps) l r)"

lemma ndel_blocks: "b \<in> set ps \<Longrightarrow> add_mset b (mset (tblocks (ndel b (Nd s ps l r)))) = mset (tblocks (Nd s ps l r))"
proof -
  assume b: "b \<in> set ps"
  have "mset (last ps # butlast (tl ps)) = mset (tl ps)" if "tl ps \<noteq> []"
    using arg_cong [OF append_butlast_last_id [OF that], of mset] that by (cases ps) auto
  moreover have "mset ps = add_mset (hd ps) (mset (tl ps))" using b by (cases ps) auto
  ultimately show ?thesis using b tcut_blocks [of r] tcut_blocks [of l] by (cases ps) (auto simp: ac_simps)
qed

lemma ndel_sizes: "tsizes (ndel b (Nd s ps l r)) \<subseteq> tsizes (Nd s ps l r)"
proof -
  have "fst (fst (tcut u)) \<in> tsizes u" if "u \<noteq> Lf" for u using tcut_node [OF that] by (auto simp: tsizes_def)
  then show ?thesis using tcut_sizes [of l] tcut_sizes [of r] by auto
qed

lemma ndel_twf: "twf k pre (Nd s ps l r) \<Longrightarrow> b \<in> set ps \<Longrightarrow> twf k pre (ndel b (Nd s ps l r))"
proof -
  assume w: "twf k pre (Nd s ps l r)" and b: "b \<in> set ps"
  have f: "snd (fst (tcut u)) \<noteq> [] \<and> fst (fst (tcut u)) div 2 ^ k = pre" if u: "u \<noteq> Lf" "u = l \<or> u = r" for u
  proof
    have t: "fst (tcut u) \<in> tnodes u" by (rule tcut_node [OF u(1)])
    have "twf j p u \<Longrightarrow> (n, qs) \<in> tnodes u \<Longrightarrow> qs \<noteq> []" for j p n qs by (induction j p u rule: twf.induct) (auto split: nat.splits)
    moreover obtain j p where "twf j p u" using w u(2) by (cases k) auto
    ultimately show "snd (fst (tcut u)) \<noteq> []" using t by (metis prod.collapse)
    have "fst (fst (tcut u)) \<in> tsizes (Nd s ps l r)" using t u(2) by (force simp: tsizes_def)
    then show "fst (fst (tcut u)) div 2 ^ k = pre" by (rule twf_sizes [OF w])
  qed
  show ?thesis
  proof (cases k)
    case 0
    then show ?thesis using w b by (auto simp: remove1_split dest: arg_cong [where f = length])
  next
    case (Suc j)
    have "remove1 b ps \<noteq> []" if "ps \<noteq> [b]" using b that by (cases ps; cases "tl ps") auto
    then show ?thesis using w b f [of l] f [of r] Suc tcut_twf [of j "2 * pre" l] tcut_twf [of j "2 * pre + 1" r] by auto
  qed
qed

lemma node_tails: "tree_at m a t \<Longrightarrow> (s, ps) \<in> tnodes t \<Longrightarrow> \<forall>q\<in>set (tl ps). m (q + 32) = Some 0"
  by (induction m a t rule: tree_at.induct) auto

text \<open>The heap after a removal: the bit of a tree that has become empty is cleared.\<close>

definition after_remove :: "nat \<Rightarrow> nat \<Rightarrow> ltree \<Rightarrow> (nat \<rightharpoonup> nat) \<Rightarrow> mm_heap \<Rightarrow> mm_heap" where
  "after_remove c s u m' h =
     (if u = Lf \<and> c = large_free_buckets (haddr h) (zend_mm_high_bit s)
      then h\<lparr>mem := m', large_free_bitmap := unset_bit (zend_mm_high_bit s) (large_free_bitmap h)\<rparr> else h\<lparr>mem := m'\<rparr>)"

lemma remove_leaf:
  assumes t: "tree_at (mem h) c (Nd s [b] Lf Lf)" and ca: "c \<notin> area {b}"
  shows "zend_mm_remove_from_free_list b h = Some (after_remove c s Lf ((mem h)(c \<mapsto> 0)) h)"
proof -
  have "c \<noteq> b + 32" using ca areaI [of b "{b}" 32] by auto
  then show ?thesis using t
    by (auto simp: zend_mm_remove_from_free_list_def remove_node_def ld_def ZEND_MM_CHECK_TREE_def after_remove_def ZEND_MM_LARGE_BUCKET_INDEX_def Let_def)
qed

lemma remove_single:
  assumes t: "tree_at (mem h) c (Nd s [b] l r)" and ne: "l \<noteq> Lf \<or> r \<noteq> Lf" and d: "distinct (tblocks (Nd s [b] l r))"
    and sp: "spaced (set (tblocks (Nd s [b] l r)))" "c \<notin> area (set (tblocks (Nd s [b] l r)))"
    and dm: "\<forall>x\<in>set (tblocks (Nd s [b] l r)). {x + 40, x + 48} \<subseteq> dom (mem h)"
  shows "\<exists>m'. zend_mm_remove_from_free_list b h = Some (h\<lparr>mem := m'\<rparr>) \<and> tree_at m' c (ndel b (Nd s [b] l r)) \<and>
    upd_in (mem h) m' (insert c (links (set (tblocks (Nd s [b] l r)))))"
proof -
  let ?m = "mem h" and ?B = "set (tblocks (Nd s [b] l r))"
  define x where "x = (r \<noteq> Lf)"
  define u where "u = (if x then r else l)"
  have b: "?m (b + 16) = Some b" "?m (b + 24) = Some b" "?m (b + 32) = Some c" "?m c = Some b" "b \<in> ?B" using t by auto
  have u: "tree_at ?m (child b x) u" "u \<noteq> Lf" "distinct (tblocks u)" "set (tblocks u) \<subseteq> ?B" "b \<notin> set (tblocks u)"
    using t ne d by (auto simp: x_def u_def)
  obtain v where v: "?m (child b x) = Some v" "v \<noteq> 0" using tree_at_root [OF u(1)] u(2) by auto
  have ca: "child b x \<notin> area (set (tblocks u))"
    using not_area [OF sp(1) u(4) b(5) u(5), of 40] not_area [OF sp(1) u(4) b(5) u(5), of 48] by (cases x) auto
  obtain rp qs n where r: "last_leaf v (child b x) h = Some (hd qs, rp)" "fst (tcut u) = (n, qs)" "tree_at (?m(rp \<mapsto> 0)) (child b x) (snd (tcut u))"
      "rp \<in> dom ?m" "rp = child b x \<or> rp \<in> links (set (tblocks (snd (tcut u))))"
    using last_leaf_ok [OF u(1) v u(3) spaced_mono [OF sp(1) u(4)] ca] by blast
  let ?w = "snd (tcut u)" and ?m1 = "?m(rp \<mapsto> 0)"
  let ?h1 = "h\<lparr>mem := ?m1\<rparr>"
  have node: "(n, qs) \<in> tnodes u" using tcut_node [OF u(2)] r(2) by simp
  have ms: "mset (tblocks u) = mset qs + mset (tblocks ?w)" using tcut_blocks [OF u(2)] r(2) by simp
  then have su: "set (tblocks u) = set qs \<union> set (tblocks ?w)" and du: "distinct (qs @ tblocks ?w)"
    using mset_eq_setD [of "tblocks u" "qs @ tblocks ?w"] mset_eq_imp_distinct_iff [of "tblocks u" "qs @ tblocks ?w"] u(3) by auto
  have N: "qs \<noteq> []" "0 \<notin> set qs" "\<forall>q\<in>set qs. ?m q = Some n" "chain ?m (qs @ [hd qs])" "\<forall>q\<in>set (tl qs). ?m (q + 32) = Some 0"
    using tree_at_nodes [OF u(1) node] node_tails [OF u(1) node] by auto
  have rpn: "y + i \<noteq> rp" if "y \<in> ?B" "y \<notin> set (tblocks ?w)" "i < 56" "y = b \<Longrightarrow> i \<noteq> 40 \<and> i \<noteq> 48" for y i
  proof -
    have "y + i \<noteq> b + (if x then 48 else 40)" by (rule cell_neq [OF sp(1) that(1) b(5)]) (use that in auto)
    then have "y + i \<noteq> child b x" by (cases x) auto
    moreover have "y + i \<notin> links (set (tblocks ?w))" by (rule not_links [OF sp(1) _ that(1-3)]) (use su u(4) in auto)
    ultimately show ?thesis using r(5) by auto
  qed
  have bw: "b \<notin> set (tblocks ?w)" using u(5) su by simp
  have m1b: "?m1 (b + 32) = Some c" using rpn [OF b(5) bw, of 32] b(3) by auto
  have "rp \<noteq> c"
  proof
    assume "rp = c"
    moreover have "links (set (tblocks ?w)) \<subseteq> area ?B" "child b x \<in> area ?B"
      using links_mono [of "set (tblocks ?w)" ?B] links_area [of ?B] su u(4) areaI [OF b(5), of 40] areaI [OF b(5), of 48] by (blast, cases x, auto)
    ultimately show False using r(5) sp(2) by blast
  qed
  then have m1c: "?m1 c = Some b" using b(4) by simp
  let ?l = "if x then l else ?w" and ?r = "if x then ?w else r"
  have other: "tree_at ?m1 (child b (\<not> x)) (if x then l else r)"
  proof (rule tree_upd [where X = "{rp}"])
    show "tree_at ?m (child b (\<not> x)) (if x then l else r)" using t by simp
    show "upd_in ?m ?m1 {rp}" using r(4) by (auto simp: upd_in_def)
    have "child b (\<not> x) \<noteq> rp"
    proof -
      have "b + (if x then 40 else 48) \<notin> links (set (tblocks ?w))" by (rule not_links [OF sp(1) _ b(5) bw]) (use su u(4) in auto)
      then show ?thesis using r(5) by (cases x) auto
    qed
    then show "child b (\<not> x) \<notin> {rp}" by simp
  next
    fix q i assume q: "q \<in> set (tblocks (if x then l else r))" "i < (56 :: nat)"
    then have "q \<in> ?B" "q \<notin> set (tblocks u)" "q \<noteq> b" using d by (auto simp: u_def split: if_splits)
    then show "q + i \<notin> {rp}" using rpn [of q i] q(2) su by auto
  qed
  have lr: "tree_at ?m1 (b + 40) ?l" "tree_at ?m1 (b + 48) ?r" using other r(3) by (cases x; simp)+
  have qB: "set qs \<subseteq> ?B" "\<forall>q\<in>set qs. q \<notin> set (tblocks ?w) \<and> q \<noteq> b" using su u(4,5) du by auto
  have q1: "?m1 (q + i) = ?m (q + i)" if "q \<in> set qs" "i < 56" for q i using rpn [of q i] qB that by auto
  obtain q0 qt where q0: "qs = q0 # qt" using N(1) by (cases qs) auto
  have rg: "ring ?m1 q0 qt"
  proof (rule ring_frame)
    show "ring ?m q0 qt" using N(4) du q0 by (simp add: ring_def)
    show "?m1 (y + 16) = ?m (y + 16) \<and> ?m1 (y + 24) = ?m (y + 24)" if "y \<in> set (q0 # qt)" for y
      using q1 [of y 16] q1 [of y 24] that q0 by simp
  qed
  have z1: "\<forall>y\<in>set (q0 # qt). ?m1 y = Some n" "\<forall>y\<in>set qt. ?m1 (y + 32) = Some 0"
    using q1 [of _ 0] q1 [of _ 32] N(3,5) q0 by (auto simp del: fun_upd_apply)
  have eqB: "set (b # q0 # qt @ tblocks ?l @ tblocks ?r) = ?B" using su q0 by (auto simp: u_def split: if_splits)
  have dB: "distinct (b # q0 # qt @ tblocks ?l @ tblocks ?r)" using d du su q0 bw qB(2) by (auto simp: u_def split: if_splits)
  have dq: "{q0 + 32, q0 + 40, q0 + 48} \<subseteq> dom ?m1" using tree_at_dom [OF u(1)] dm qB(1) su q0 by auto
  have "\<exists>m'. subst_block q0 b ?h1 = Some (?h1\<lparr>mem := m'\<rparr>) \<and> tree_at m' c (Nd n (q0 # qt) ?l ?r) \<and>
      upd_in (mem ?h1) m' (insert c (links (set (q0 # qt @ tblocks ?l @ tblocks ?r))))"
    by (rule subst_block_ok) (use m1b m1c lr rg z1 N(2) q0 eqB dB dq sp in \<open>simp_all del: fun_upd_apply\<close>)
  then obtain m' where m': "subst_block q0 b ?h1 = Some (?h1\<lparr>mem := m'\<rparr>)" "tree_at m' c (Nd n (q0 # qt) ?l ?r)"
      "upd_in ?m1 m' (insert c (links (set (q0 # qt @ tblocks ?l @ tblocks ?r))))" by auto
  obtain c1 where c1: "?m (b + 48) = Some c1" "c1 \<noteq> 0 \<longleftrightarrow> x" using tree_at_root [of ?m "b + 48" r] t by (auto simp: x_def)
  have "zend_mm_remove_from_free_list b h = Some (h\<lparr>mem := m'\<rparr>)"
    using b(1,2) c1 v r(1,4) m'(1) q0 by (simp add: zend_mm_remove_from_free_list_def remove_node_def ld_def Let_def)
  moreover have "ndel b (Nd s [b] l r) = Nd n (q0 # qt) ?l ?r" using ne r(2) q0 by (auto simp: x_def u_def)
  moreover have "upd_in ?m m' (insert c (links ?B))"
  proof -
    have "rp \<in> links ?B" using r(5) links_mono [of "set (tblocks ?w)" ?B] su u(4) linksI [OF b(5), of 40] linksI [OF b(5), of 48] by (cases x) auto
    then have "upd_in ?m ?m1 (insert c (links ?B))" using r(4) by (auto simp: upd_in_def)
    moreover have "upd_in ?m1 m' (insert c (links ?B))" unfolding eqB [symmetric]
      by (rule upd_in_mono [OF m'(3)]) (intro insert_mono links_mono, auto)
    ultimately show ?thesis using upd_in_trans by fastforce
  qed
  ultimately show ?thesis using m'(2) by auto
qed

lemma remove_other:
  assumes t: "tree_at (mem h) c (Nd s (p # qs) l r)" and b: "b \<in> set qs" and d: "distinct (tblocks (Nd s (p # qs) l r))"
    and sp: "spaced (set (tblocks (Nd s (p # qs) l r)))" "c \<notin> area (set (tblocks (Nd s (p # qs) l r)))" and s: "544 \<le> s"
  shows "\<exists>m'. zend_mm_remove_from_free_list b h = Some (h\<lparr>mem := m'\<rparr>) \<and> tree_at m' c (Nd s (p # remove1 b qs) l r) \<and>
    upd_in (mem h) m' (links (set (tblocks (Nd s (p # qs) l r))))"
proof -
  let ?m = "mem h" and ?B = "set (tblocks (Nd s (p # qs) l r))"
  obtain as bs where q: "qs = as @ b # bs" "b \<notin> set as" using b by (meson split_list_first)
  have rg: "ring ?m p (as @ b # bs)" using t d q by (auto simp: ring_def)
  have nc: "noclash (set (p # as @ b # bs))" by (rule noclash_mono [OF spaced_noclash [OF sp(1)]]) (use q in auto)
  let ?y = "last (p # as)" and ?z = "hd (bs @ [p])"
  note R = ring_delete [OF rg nc]
  have y: "?y \<in> set (p # as)" by (rule last_in_set) simp
  have z: "?z \<in> set (bs @ [p])" by (rule hd_in_set) simp
  have yb: "?y \<noteq> b" "?z \<noteq> b" "?y \<in> ?B" "?z \<in> ?B" using y z d q by auto
  let ?m1 = "unlink_mem ?y ?z ?m"
  have ag: "?m1 (x + i) = ?m (x + i)" if "x \<in> ?B" "i < 56" "x = ?y \<Longrightarrow> i \<noteq> 24" "x = ?z \<Longrightarrow> i \<noteq> 16" for x i
  proof -
    have "x + i \<noteq> ?y + 24" by (rule cell_neq [OF sp(1) that(1) yb(3)]) (use that in auto)
    moreover have "x + i \<noteq> ?z + 16" by (rule cell_neq [OF sp(1) that(1) yb(4)]) (use that in auto)
    ultimately show ?thesis by (simp add: unlink_mem_def)
  qed
  have dz: "{?y + 24, ?z + 16} \<subseteq> dom ?m" using R(4,5) by blast
  have bB: "b \<in> ?B" using q by simp
  have "?m1 b = Some s" using ag [OF bB, of 0] t q by auto
  moreover have "?m1 (b + 32) = Some 0" using ag [OF bB, of 32] t q by auto
  ultimately have "zend_mm_remove_from_free_list b h = Some (h\<lparr>mem := ?m1\<rparr>)"
    using R(2-5) yb unlink_between_ok [OF dz] s
    by (simp add: zend_mm_remove_from_free_list_def ld_def ZEND_MM_SMALL_SIZE_def ZEND_MM_MAX_SMALL_SIZE_def ZEND_MM_REST_BLOCK_def)
  moreover have u: "upd_in ?m ?m1 (links ?B)"
    using dz linksI [OF yb(3), of 24] linksI [OF yb(4), of 16] by (auto simp: upd_in_def unlink_mem_def)
  moreover have "tree_at ?m1 c (Nd s (p # as @ bs) l r)"
  proof -
    have "c \<notin> links ?B" using sp(2) links_area by blast
    then have "?m1 c = Some p" using u t unfolding upd_in_def by auto
    moreover have k32: "?m1 (x + 32) = ?m (x + 32)" if "x \<in> ?B" for x by (rule ag [OF that]) auto
    have "?m1 (p + 32) = Some c" "\<forall>x\<in>set (as @ bs). ?m1 (x + 32) = Some 0"
      using k32 [of p] t q by (simp, metis (no_types) Un_iff k32 list.set_intros(2) set_append tblocks.simps(2) tree_at.simps(2) list.sel(3))
    moreover have "\<forall>x\<in>set (p # as @ bs). ?m1 x = Some s"
    proof
      fix x assume x: "x \<in> set (p # as @ bs)"
      have "?m1 (x + 0) = ?m (x + 0)" by (rule ag) (use x q in auto)
      then show "?m1 x = Some s" using t x q by auto
    qed
    moreover have tu: "tree_at ?m1 (p + i) w" if "tree_at ?m (p + i) w" "i = 40 \<or> i = 48" "set (tblocks w) \<subseteq> ?B - set (p # qs)" for i w
    proof (rule tree_frame [THEN iffD2, OF _ _ that(1)])
      fix x j assume "x \<in> set (tblocks w)" "j < (56 :: nat)"
      then show "?m1 (x + j) = ?m (x + j)" using that(3) y z q by (intro ag) auto
    next
      show "?m1 (p + i) = ?m (p + i)" by (rule ag) (use that(2) in auto)
    qed
    have "tree_at ?m1 (p + 40) l" by (rule tu) (use t d in auto)
    moreover have "tree_at ?m1 (p + 48) r" by (rule tu) (use t d in auto)
    moreover have "0 \<notin> set (p # as @ bs)" using t q by auto
    ultimately show ?thesis using R(1) unfolding ring_def tree_at.simps list.sel append_Cons append.assoc by blast
  qed
  moreover have "remove1 b qs = as @ bs" using q by simp
  ultimately show ?thesis by auto
qed

lemma remove_first:
  assumes t: "tree_at (mem h) c (Nd s (b # qs) l r)" and ne: "qs \<noteq> []" and d: "distinct (tblocks (Nd s (b # qs) l r))"
    and sp: "spaced (set (tblocks (Nd s (b # qs) l r)))" "c \<notin> area (set (tblocks (Nd s (b # qs) l r)))" and s: "544 \<le> s"
    and dm: "\<forall>x\<in>set (tblocks (Nd s (b # qs) l r)). {x + 40, x + 48} \<subseteq> dom (mem h)" and c: "c \<noteq> 0" "c \<noteq> 1"
  shows "\<exists>m'. zend_mm_remove_from_free_list b h = Some (h\<lparr>mem := m'\<rparr>) \<and> tree_at m' c (Nd s (last qs # butlast qs) l r) \<and>
    upd_in (mem h) m' (insert c (links (set (tblocks (Nd s (b # qs) l r)))))"
proof -
  let ?m = "mem h" and ?B = "set (tblocks (Nd s (b # qs) l r))"
  define y where "y = last qs"
  define as where "as = butlast qs"
  have q: "qs = as @ [y]" using ne by (simp add: y_def as_def)
  have "ring ?m b (as @ [y])" using t d q by (simp add: ring_def)
  then have rg: "ring ?m y ([] @ b # as)" unfolding ring_rotate by simp
  have nc: "noclash (set (y # [] @ b # as))" by (rule noclash_mono [OF spaced_noclash [OF sp(1)]]) (use q in auto)
  let ?z = "hd (as @ [y])"
  note R = ring_delete [OF rg nc, simplified]
  have z: "?z \<in> set qs" using q hd_in_set [of "as @ [y]"] by simp
  have yb: "y \<noteq> b" "?z \<noteq> b" "y \<in> ?B" "?z \<in> ?B" "b \<in> ?B" using z d q by auto
  let ?m1 = "unlink_mem y ?z ?m"
  let ?h1 = "h\<lparr>mem := ?m1\<rparr>"
  have ag: "?m1 (x + i) = ?m (x + i)" if "x \<in> ?B" "i < 56" "x = y \<Longrightarrow> i \<noteq> 24" "x = ?z \<Longrightarrow> i \<noteq> 16" for x i
  proof -
    have "x + i \<noteq> y + 24" by (rule cell_neq [OF sp(1) that(1) yb(3)]) (use that in auto)
    moreover have "x + i \<noteq> ?z + 16" by (rule cell_neq [OF sp(1) that(1) yb(4)]) (use that in auto)
    ultimately show ?thesis by (simp add: unlink_mem_def)
  qed
  have dz: "{y + 24, ?z + 16} \<subseteq> dom ?m" using R(4,5) by blast
  have u1: "upd_in ?m ?m1 (links ?B)" using dz linksI [OF yb(3), of 24] linksI [OF yb(4), of 16] by (auto simp: upd_in_def unlink_mem_def)
  have "c \<notin> links ?B" using sp(2) links_area by blast
  then have m1c: "?m1 c = Some b" using u1 t unfolding upd_in_def by auto
  have m1b: "?m1 b = Some s" "?m1 (b + 32) = Some c" using ag [OF yb(5), of 0] ag [OF yb(5), of 32] t by auto
  have tu: "tree_at ?m1 (b + i) w" if "tree_at ?m (b + i) w" "i = 40 \<or> i = 48" "set (tblocks w) \<subseteq> ?B - set (b # qs)" for i w
  proof (rule tree_frame [THEN iffD2, OF _ _ that(1)])
    fix x j assume "x \<in> set (tblocks w)" "j < (56 :: nat)"
    then show "?m1 (x + j) = ?m (x + j)" using that(3) z q by (intro ag) auto
  next
    show "?m1 (b + i) = ?m (b + i)" by (rule ag) (use that(2) in auto)
  qed
  have lr: "tree_at ?m1 (b + 40) l" "tree_at ?m1 (b + 48) r" by (rule tu; use t d in auto)+
  have sz: "\<forall>x\<in>set (y # as). ?m1 x = Some s"
  proof
    fix x assume x: "x \<in> set (y # as)"
    have "?m1 (x + 0) = ?m (x + 0)" by (rule ag) (use x q in auto)
    then show "?m1 x = Some s" using t x q by auto
  qed
  have pz: "\<forall>x\<in>set as. ?m1 (x + 32) = Some 0"
  proof
    fix x assume x: "x \<in> set as"
    have "?m1 (x + 32) = ?m (x + 32)" by (rule ag) (use x q in auto)
    then show "?m1 (x + 32) = Some 0" using t x q by auto
  qed
  have eqB: "set (b # y # as @ tblocks l @ tblocks r) = ?B" using q by auto
  have dq: "{y + 32, y + 40, y + 48} \<subseteq> dom ?m1" using u1 dm yb(3) tree_at_dom [OF t] by (auto simp: upd_in_def)
  have "\<exists>m'. subst_block y b ?h1 = Some (?h1\<lparr>mem := m'\<rparr>) \<and> tree_at m' c (Nd s (y # as) l r) \<and>
      upd_in (mem ?h1) m' (insert c (links (set (y # as @ tblocks l @ tblocks r))))"
    by (rule subst_block_ok) (use m1b m1c lr R(1) sz pz t q eqB d dq sp in \<open>auto simp del: fun_upd_apply\<close>)
  then obtain m' where m': "subst_block y b ?h1 = Some (?h1\<lparr>mem := m'\<rparr>)" "tree_at m' c (Nd s (y # as) l r)"
      "upd_in ?m1 m' (insert c (links (set (y # as @ tblocks l @ tblocks r))))" by auto
  have "zend_mm_remove_from_free_list b h = Some (h\<lparr>mem := m'\<rparr>)"
    using R(2-5) yb unlink_between_ok [OF dz] s m1b c m'(1)
    by (simp add: zend_mm_remove_from_free_list_def ld_def ZEND_MM_SMALL_SIZE_def ZEND_MM_MAX_SMALL_SIZE_def ZEND_MM_REST_BLOCK_def)
  moreover have "upd_in ?m m' (insert c (links ?B))"
  proof -
    have "upd_in ?m1 m' (insert c (links ?B))" unfolding eqB [symmetric] by (rule upd_in_mono [OF m'(3)]) (intro insert_mono links_mono, auto)
    moreover have "upd_in ?m ?m1 (insert c (links ?B))" by (rule upd_in_mono [OF u1]) auto
    ultimately show ?thesis using upd_in_trans by fastforce
  qed
  ultimately show ?thesis using m'(2) by (auto simp: y_def as_def)
qed

section \<open>Removing from a tree\<close>

lemma linksE:
  assumes "x \<in> links A"
  obtains p i where "p \<in> A" "16 \<le> i" "i < 56" "x = p + i"
proof -
  obtain p where p: "p \<in> A" "p + 16 \<le> x" "x < p + 56" using assms by (auto simp: links_def)
  show thesis by (rule that [OF p(1), of "x - p"]) (use p(2,3) in auto)
qed

lemma remove_node_ok:
  assumes t: "tree_at (mem h) c (Nd s ps l r)" and b: "b \<in> set ps" and d: "distinct (tblocks (Nd s ps l r))"
    and sp: "spaced (set (tblocks (Nd s ps l r)))" "c \<notin> area (set (tblocks (Nd s ps l r)))" and s: "544 \<le> s"
    and dm: "\<forall>x\<in>set (tblocks (Nd s ps l r)). {x + 40, x + 48} \<subseteq> dom (mem h)" and c: "c \<noteq> 0" "c \<noteq> 1"
  shows "\<exists>m'. zend_mm_remove_from_free_list b h = Some (after_remove c s (ndel b (Nd s ps l r)) m' h) \<and> tree_at m' c (ndel b (Nd s ps l r)) \<and>
    upd_in (mem h) m' (insert c (links (set (tblocks (Nd s ps l r)))))"
proof -
  obtain p qs where ps: "ps = p # qs" using b by (cases ps) auto
  consider (leaf) "ps = [b]" "l = Lf" "r = Lf" | (single) "ps = [b]" "l \<noteq> Lf \<or> r \<noteq> Lf" | (first) "p = b" "qs \<noteq> []" | (other) "p \<noteq> b" "b \<in> set qs"
    using b ps by auto
  then show ?thesis
  proof cases
    case leaf
    have "c \<notin> area {b}" using sp(2) leaf by simp
    moreover have "upd_in (mem h) ((mem h)(c \<mapsto> 0)) (insert c (links {b}))" using t by (auto simp: upd_in_def)
    ultimately show ?thesis using remove_leaf [of h c s b] t leaf by auto
  next
    case single
    have "ndel b (Nd s ps l r) \<noteq> Lf" using single by auto
    then show ?thesis using remove_single [of h c s b l r] t d sp dm single by (simp add: after_remove_def del: ndel.simps)
  next
    case first
    have "ndel b (Nd s ps l r) = Nd s (last qs # butlast qs) l r" using first ps by auto
    then show ?thesis using remove_first [of h c s b qs l r] t d sp s dm c first ps by (simp add: after_remove_def)
  next
    case other
    have nd: "ndel b (Nd s ps l r) = Nd s (p # remove1 b qs) l r" using other ps by auto
    obtain m' where m': "zend_mm_remove_from_free_list b h = Some (h\<lparr>mem := m'\<rparr>)" "tree_at m' c (Nd s (p # remove1 b qs) l r)"
        "upd_in (mem h) m' (links (set (tblocks (Nd s (p # qs) l r))))"
      using remove_other [OF t [unfolded ps] other(2) d [unfolded ps] sp [unfolded ps] s] by blast
    show ?thesis unfolding nd
      by (rule exI [of _ m']) (use m'(1,2) upd_in_mono [OF m'(3) subset_insertI] ps in \<open>simp add: after_remove_def del: tree_at.simps\<close>)
  qed
qed

lemma remove_tree_ok:
  assumes t: "tree_at (mem h) a t" "twf k pre t" and b: "(s, ps) \<in> tnodes t" "b \<in> set ps" and d: "distinct (tblocks t)"
    and sp: "spaced (set (tblocks t))" "a \<notin> area (set (tblocks t))" and s: "544 \<le> s" "a = large_free_buckets (haddr h) (zend_mm_high_bit s)"
    and dm: "\<forall>x\<in>set (tblocks t). {x + 40, x + 48} \<subseteq> dom (mem h)" and nul: "0 \<notin> dom (mem h)" "1 \<notin> dom (mem h)"
  shows "\<exists>m' t'. zend_mm_remove_from_free_list b h = Some (after_remove a s t' m' h) \<and> tree_at m' a t' \<and> twf k pre t' \<and>
    add_mset b (mset (tblocks t')) = mset (tblocks t) \<and> tsizes t' \<subseteq> tsizes t \<and> upd_in (mem h) m' (insert a (links (set (tblocks t))))"
proof -
  obtain xs l r where u: "tsub t xs = Nd s ps l r" using tsub_node [OF b(1)] by blast
  let ?u = "Nd s ps l r" and ?c = "tslot a t xs"
  have ne: "tsub t xs \<noteq> Lf" using u by simp
  have tu: "tree_at (mem h) ?c ?u" using tsub_at [OF t(1) ne] u by simp
  have ub: "set (tblocks ?u) \<subseteq> set (tblocks t)" "distinct (tblocks ?u)" using tsub_blocks [of t xs] d u by auto
  have cl: "xs \<noteq> [] \<Longrightarrow> ?c \<in> links (set (tblocks t) - set (tblocks ?u))" using tslot_in [OF t(1) ne] d u by auto
  have ca: "?c \<notin> area (set (tblocks ?u))"
  proof (cases "xs = []")
    case True
    then show ?thesis using sp(2) u by simp
  next
    case False
    then obtain p i where "?c = p + i" "p \<in> set (tblocks t)" "p \<notin> set (tblocks ?u)" "i < 56" using linksE [OF cl [OF False]] by (metis Diff_iff)
    then show ?thesis using not_area [OF sp(1) ub(1)] by simp
  qed
  have "?c \<in> dom (mem h)" using tree_at_dom [OF tu] by simp
  then have c0: "?c \<noteq> 0" "?c \<noteq> 1" using nul by metis+
  obtain m' where m': "zend_mm_remove_from_free_list b h = Some (after_remove ?c s (ndel b ?u) m' h)" "tree_at m' ?c (ndel b ?u)"
      "upd_in (mem h) m' (insert ?c (links (set (tblocks ?u))))"
    using remove_node_ok [OF tu b(2) ub(2) spaced_mono [OF sp(1) ub(1)] ca s(1) _ c0] dm ub(1) by blast
  let ?t = "tput t xs (ndel b ?u)"
  have "tree_at m' a ?t" by (rule tput_at [OF t(1) d sp(1) subset_refl sp(2) ne]) (use m' u in simp_all)
  moreover obtain k' pre' where k: "twf k' pre' ?u" "\<forall>v. twf k' pre' v \<longrightarrow> twf k pre (tput t xs v)" using tput_twf [OF t(2) ne] u by auto
  then have "twf k pre ?t" using ndel_twf [OF k(1) b(2)] by blast
  moreover have "add_mset b (mset (tblocks ?t)) = mset (tblocks t)"
  proof -
    have "add_mset b (mset (tblocks ?t)) + mset (tblocks (ndel b ?u)) = mset (tblocks t) + mset (tblocks (ndel b ?u))"
      using tput_blocks [OF ne, of "ndel b ?u"] unfolding u ndel_blocks [OF b(2), of s l r, symmetric] by (simp del: ndel.simps)
    then show ?thesis by (rule add_right_imp_eq)
  qed
  moreover have "tsizes ?t \<subseteq> tsizes t" using tput_sizes [of t xs "ndel b ?u"] ndel_sizes [of b s ps l r] tsub_sizes [of t xs] unfolding u by blast
  moreover have "after_remove ?c s (ndel b ?u) m' h = after_remove a s ?t m' h"
  proof (cases "xs = []")
    case False
    have "links (set (tblocks t) - set (tblocks ?u)) \<subseteq> area (set (tblocks t))"
      using links_mono [OF Diff_subset, of "set (tblocks t)" "set (tblocks ?u)"] links_area [of "set (tblocks t)"] by (rule subset_trans)
    then have "?c \<in> area (set (tblocks t))" using cl [OF False] by (rule subsetD)
    then have "?c \<noteq> large_free_buckets (haddr h) (zend_mm_high_bit s)" using sp(2) s(2) by metis
    moreover have "?t \<noteq> Lf" using tput_Lf [OF ne] False by blast
    ultimately show ?thesis unfolding after_remove_def by (simp only: simp_thms if_False)
  qed simp
  moreover have "upd_in (mem h) m' (insert a (links (set (tblocks t))))"
  proof (rule upd_in_mono [OF m'(3)])
    have "?c \<in> insert a (links (set (tblocks t)))" using cl links_mono [of "set (tblocks t) - set (tblocks ?u)" "set (tblocks t)"] by (cases "xs = []") auto
    then show "insert ?c (links (set (tblocks ?u))) \<subseteq> insert a (links (set (tblocks t)))" using links_mono [OF ub(1)] by auto
  qed
  ultimately show ?thesis using m'(1) by metis
qed

end
