(* ===== verification/Zend_Mm_Free.thy ===== *)
theory Zend_Mm_Free
  imports Zend_Mm_Remove
begin

text \<open>
  The free lists together: a ring per small size, a tree per power of two for large blocks, and the ring of blocks that are kept aside (the rest list).
  Adding a block and removing one keep them well formed and touch nothing but the links of free blocks and the arrays of the heap.
\<close>

section \<open>Memory regions\<close>

definition bsize :: "(nat \<rightharpoonup> nat) \<Rightarrow> nat \<Rightarrow> nat" where
  "bsize m p = the (m p)"

definition span :: "(nat \<rightharpoonup> nat) \<Rightarrow> nat set \<Rightarrow> nat set" where
  "span m P = (\<Union>p\<in>P. {p..<p + bsize m p})"

definition body :: "(nat \<rightharpoonup> nat) \<Rightarrow> nat set \<Rightarrow> nat set" where
  "body m P = (\<Union>p\<in>P. {p + 16..<p + bsize m p})"

definition heap_arrays :: "nat \<Rightarrow> nat set" where
  "heap_arrays hp = {hp + 664..<hp + 2216}"

text \<open>The blocks \<open>P\<close> lie in memory side by side, outside of the heap structure, and their cells exist.\<close>

definition block_at :: "(nat \<rightharpoonup> nat) \<Rightarrow> nat \<Rightarrow> bool" where
  "block_at m p \<longleftrightarrow> (\<exists>n. m p = Some n \<and> 32 \<le> n \<and> 8 dvd n \<and> n < 2 ^ 64 \<and> (\<forall>i<n. 8 dvd i \<longrightarrow> p + i \<in> dom m))"

definition geo :: "mm_heap \<Rightarrow> nat set \<Rightarrow> bool" where
  "geo h P \<longleftrightarrow> (\<forall>p\<in>P. block_at (mem h) p \<and> span (mem h) {p} \<inter> heap_arrays (haddr h) = {}) \<and>
     (\<forall>p\<in>P. \<forall>q\<in>P. p \<noteq> q \<longrightarrow> p + bsize (mem h) p \<le> q \<or> q + bsize (mem h) q \<le> p) \<and> {0, 1} \<inter> dom (mem h) = {} \<and>
     (\<forall>i<1552. 8 dvd i \<longrightarrow> haddr h + 664 + i \<in> dom (mem h))"

lemma geoD:
  assumes "geo h P"
  shows "\<And>p. p \<in> P \<Longrightarrow> block_at (mem h) p" "\<And>p x. p \<in> P \<Longrightarrow> p \<le> x \<Longrightarrow> x < p + bsize (mem h) p \<Longrightarrow> x \<notin> heap_arrays (haddr h)"
    "\<And>p q. p \<in> P \<Longrightarrow> q \<in> P \<Longrightarrow> p \<noteq> q \<Longrightarrow> p + bsize (mem h) p \<le> q \<or> q + bsize (mem h) q \<le> p" "0 \<notin> dom (mem h)" "1 \<notin> dom (mem h)"
    "\<And>i. i < 1552 \<Longrightarrow> 8 dvd i \<Longrightarrow> haddr h + 664 + i \<in> dom (mem h)"
proof -
  note g = assms [unfolded geo_def]
  note g1 = g [THEN conjunct1, rule_format] and g2 = g [THEN conjunct2, THEN conjunct1, rule_format]
    and g3 = g [THEN conjunct2, THEN conjunct2, THEN conjunct1] and g4 = g [THEN conjunct2, THEN conjunct2, THEN conjunct2, rule_format]
  show "block_at (mem h) p" if "p \<in> P" for p using g1 [OF that] by (rule conjunct1)
  show "x \<notin> heap_arrays (haddr h)" if "p \<in> P" "p \<le> x" "x < p + bsize (mem h) p" for p x
  proof -
    have "x \<in> span (mem h) {p}" using that by (simp add: span_def)
    then show ?thesis using g1 [OF that(1), THEN conjunct2] by (simp add: disjoint_iff)
  qed
  show "p + bsize (mem h) p \<le> q \<or> q + bsize (mem h) q \<le> p" if "p \<in> P" "q \<in> P" "p \<noteq> q" for p q by (rule g2 [OF that])
  show "0 \<notin> dom (mem h)" "1 \<notin> dom (mem h)" using g3 by blast+
  show "haddr h + 664 + i \<in> dom (mem h)" if "i < 1552" "8 dvd i" for i by (rule g4 [OF that])
qed

lemma geo_mono: "geo h P \<Longrightarrow> Q \<subseteq> P \<Longrightarrow> geo h Q"
  unfolding geo_def by (intro conjI) (meson subsetD conjunct1 conjunct2)+

lemma block_atD:
  assumes "block_at m p"
  shows "m p = Some (bsize m p)" "32 \<le> bsize m p" "8 dvd bsize m p" "bsize m p < 2 ^ 64" "\<And>i. i < bsize m p \<Longrightarrow> 8 dvd i \<Longrightarrow> p + i \<in> dom m"
  using assms by (auto simp: block_at_def bsize_def)

lemma span_disjoint: "geo h P \<Longrightarrow> A \<subseteq> P \<Longrightarrow> B \<subseteq> P \<Longrightarrow> A \<inter> B = {} \<Longrightarrow> span (mem h) A \<inter> span (mem h) B = {}"
proof (rule ccontr)
  assume g: "geo h P" "A \<subseteq> P" "B \<subseteq> P" "A \<inter> B = {}" and "span (mem h) A \<inter> span (mem h) B \<noteq> {}"
  then obtain x p q where "p \<in> A" "q \<in> B" "p \<le> x" "x < p + bsize (mem h) p" "q \<le> x" "x < q + bsize (mem h) q" by (auto simp: span_def)
  then show False using geoD(3) [OF g(1), of p q] g(2-4) by fastforce
qed

lemma span_heap: "geo h P \<Longrightarrow> A \<subseteq> P \<Longrightarrow> span (mem h) A \<inter> heap_arrays (haddr h) = {}"
  using geoD(2) [of h P] by (fastforce simp: span_def)

lemma body_span: "body m P \<subseteq> span m P"
  unfolding body_def span_def by (rule UN_mono) auto

text \<open>The sentinels and slots in the arrays of the heap.\<close>

abbreviation (input) sm_head :: "mm_heap \<Rightarrow> nat \<Rightarrow> nat" where "sm_head h i \<equiv> ZEND_MM_SMALL_FREE_BUCKET (haddr h) i"
abbreviation (input) rs_head :: "mm_heap \<Rightarrow> nat" where "rs_head h \<equiv> ZEND_MM_REST_BUCKET (haddr h)"
abbreviation (input) tr_slot :: "mm_heap \<Rightarrow> nat \<Rightarrow> nat" where "tr_slot h i \<equiv> large_free_buckets (haddr h) i"

lemma heads:
  "ZEND_MM_SMALL_FREE_BUCKET hp i = hp + 648 + 16 * i" "ZEND_MM_REST_BUCKET hp = hp + 2184" "large_free_buckets hp i = hp + 1688 + 8 * i"
  by (simp_all add: ZEND_MM_SMALL_FREE_BUCKET_def ZEND_MM_REST_BUCKET_def free_buckets_def rest_buckets_def large_free_buckets_def)

section \<open>The invariant\<close>

definition small_at :: "(nat \<rightharpoonup> nat) \<Rightarrow> nat \<Rightarrow> nat \<Rightarrow> nat list \<Rightarrow> bool" where
  "small_at m hp i L \<longleftrightarrow> ring m (ZEND_MM_SMALL_FREE_BUCKET hp i) L \<and> (\<forall>b\<in>set L. m b = Some (32 + 8 * i))"

definition rest_at :: "(nat \<rightharpoonup> nat) \<Rightarrow> nat \<Rightarrow> nat list \<Rightarrow> bool" where
  "rest_at m hp L \<longleftrightarrow> ring m (ZEND_MM_REST_BUCKET hp) L \<and> (\<forall>b\<in>set L. 544 \<le> bsize m b \<longrightarrow> m (b + 32) = Some ZEND_MM_REST_BLOCK)"

definition rest_large :: "(nat \<rightharpoonup> nat) \<Rightarrow> nat list \<Rightarrow> int" where
  "rest_large m L = int (length (filter (\<lambda>b. 544 \<le> bsize m b) L))"

definition fset :: "(nat \<Rightarrow> nat list) \<Rightarrow> nat list \<Rightarrow> (nat \<Rightarrow> ltree) \<Rightarrow> nat set" where
  "fset Sm Rs Tr = (\<Union>i<64. set (Sm i)) \<union> set Rs \<union> (\<Union>i<64. set (tblocks (Tr i)))"

definition flists :: "mm_heap \<Rightarrow> (nat \<Rightarrow> nat list) \<Rightarrow> nat list \<Rightarrow> (nat \<Rightarrow> ltree) \<Rightarrow> bool" where
  "flists h Sm Rs Tr \<longleftrightarrow> geo h (fset Sm Rs Tr) \<and>
     (\<forall>i<64. small_at (mem h) (haddr h) i (Sm i) \<and> set (Sm i) \<inter> set Rs = {} \<and> distinct (tblocks (Tr i)) \<and> set (tblocks (Tr i)) \<inter> set Rs = {}) \<and>
     (\<forall>i. bit (free_bitmap h) i \<longrightarrow> i < 64 \<and> Sm i \<noteq> []) \<and>
     rest_at (mem h) (haddr h) Rs \<and> rest_count h = rest_large (mem h) Rs \<and> large_ok h Tr"

text \<open>What the operations on free lists leave alone.\<close>

definition fupd :: "mm_heap \<Rightarrow> mm_heap \<Rightarrow> nat set \<Rightarrow> bool" where
  "fupd h h' P \<longleftrightarrow> (\<exists>m fb lb rc. h' = h\<lparr>mem := m, free_bitmap := fb, large_free_bitmap := lb, rest_count := rc\<rparr>) \<and>
     upd_in (mem h) (mem h') (heap_arrays (haddr h) \<union> body (mem h) P)"

lemma flistsD:
  assumes "flists h Sm Rs Tr"
  shows "geo h (fset Sm Rs Tr)" "\<And>i. i < 64 \<Longrightarrow> small_at (mem h) (haddr h) i (Sm i)" "\<And>i. i < 64 \<Longrightarrow> set (Sm i) \<inter> set Rs = {}"
    "\<And>i. i < 64 \<Longrightarrow> distinct (tblocks (Tr i))" "\<And>i. i < 64 \<Longrightarrow> set (tblocks (Tr i)) \<inter> set Rs = {}"
    "\<And>i. bit (free_bitmap h) i \<Longrightarrow> i < 64 \<and> Sm i \<noteq> []" "rest_at (mem h) (haddr h) Rs" "rest_count h = rest_large (mem h) Rs" "large_ok h Tr"
  using assms by (auto simp: flists_def)

lemma tblocks_node: "q \<in> set (tblocks t) \<Longrightarrow> \<exists>s ps. (s, ps) \<in> tnodes t \<and> q \<in> set ps"
  by (induction t) auto

lemma tree_block:
  assumes "large_ok h Tr" "i < 64" "q \<in> set (tblocks (Tr i))"
  shows "bsize (mem h) q \<in> tsizes (Tr i)" "544 \<le> bsize (mem h) q" "i = zend_mm_high_bit (bsize (mem h) q)" "mem h q = Some (bsize (mem h) q)"
proof -
  obtain s ps where n: "(s, ps) \<in> tnodes (Tr i)" "q \<in> set ps" using tblocks_node [OF assms(3)] by blast
  then have m: "mem h q = Some s" using tree_at_nodes [OF large_okD(1) [OF assms(1,2)] n(1)] by blast
  then show s: "bsize (mem h) q \<in> tsizes (Tr i)" using n(1) by (force simp: bsize_def tsizes_def)
  show "544 \<le> bsize (mem h) q" "i = zend_mm_high_bit (bsize (mem h) q)" using large_okD(3) [OF assms(1,2) s] large_sizes(1) [OF assms(1,2) s] by simp_all
  show "mem h q = Some (bsize (mem h) q)" using m by (simp add: bsize_def)
qed

text \<open>The size of a block tells where it is.\<close>

lemma flists_disjoint:
  assumes f: "flists h Sm Rs Tr"
  shows "i < 64 \<Longrightarrow> j < 64 \<Longrightarrow> i \<noteq> j \<Longrightarrow> set (Sm i) \<inter> set (Sm j) = {}" "i < 64 \<Longrightarrow> j < 64 \<Longrightarrow> set (Sm i) \<inter> set (tblocks (Tr j)) = {}"
    "i < 64 \<Longrightarrow> j < 64 \<Longrightarrow> i \<noteq> j \<Longrightarrow> set (tblocks (Tr i)) \<inter> set (tblocks (Tr j)) = {}"
proof -
  have s: "bsize (mem h) b = 32 + 8 * i" if "i < 64" "b \<in> set (Sm i)" for i b using flistsD(2) [OF f that(1)] that(2) by (auto simp: small_at_def bsize_def)
  note t = tree_block [OF flistsD(9) [OF f]]
  show "i < 64 \<Longrightarrow> j < 64 \<Longrightarrow> i \<noteq> j \<Longrightarrow> set (Sm i) \<inter> set (Sm j) = {}" using s [of i] s [of j] by (fastforce simp: disjoint_iff)
  show "i < 64 \<Longrightarrow> j < 64 \<Longrightarrow> set (Sm i) \<inter> set (tblocks (Tr j)) = {}" using s [of i] t(2) [of j] by (fastforce simp: disjoint_iff)
  show "i < 64 \<Longrightarrow> j < 64 \<Longrightarrow> i \<noteq> j \<Longrightarrow> set (tblocks (Tr i)) \<inter> set (tblocks (Tr j)) = {}" using t(3) [of i] t(3) [of j] by (metis disjoint_iff)
qed

section \<open>Frames\<close>

lemma bodyI: "p \<in> P \<Longrightarrow> 16 \<le> i \<Longrightarrow> i < bsize m p \<Longrightarrow> p + i \<in> body m P"
  unfolding body_def by (rule UN_I) auto

lemma spanI: "p \<in> P \<Longrightarrow> i < bsize m p \<Longrightarrow> p + i \<in> span m P"
  unfolding span_def by (rule UN_I) auto

text \<open>A header is not part of what an update of links changes.\<close>

lemma header_kept:
  assumes g: "geo h G" and u: "upd_in (mem h) m' (C \<union> body (mem h) P)" "C \<subseteq> heap_arrays (haddr h)" "P \<subseteq> G" and p: "p \<in> G" "i < 16"
  shows "m' (p + i) = mem h (p + i)"
proof -
  note b = block_atD [OF geoD(1) [OF g p(1)]]
  have "p + i \<notin> heap_arrays (haddr h)" using geoD(2) [OF g p(1), of "p + i"] b(2) p(2) by simp
  moreover have "p + i \<notin> body (mem h) P"
  proof
    assume "p + i \<in> body (mem h) P"
    then obtain q where q: "q \<in> P" "q + 16 \<le> p + i" "p + i < q + bsize (mem h) q" by (auto simp: body_def)
    then have "p \<noteq> q" using p(2) by auto
    then show False using geoD(3) [OF g p(1), of q] q u(3) b(2) p(2) by auto
  qed
  ultimately show ?thesis using u(1,2) by (auto simp: upd_in_def)
qed

lemma geo_upd:
  assumes g: "geo h G" and u: "upd_in (mem h) (mem h') (C \<union> body (mem h) P)" "C \<subseteq> heap_arrays (haddr h)" "P \<subseteq> G" and a: "haddr h' = haddr h"
  shows "geo h' G" "\<And>p. p \<in> G \<Longrightarrow> mem h' p = mem h p" "\<And>p. p \<in> G \<Longrightarrow> bsize (mem h') p = bsize (mem h) p"
proof -
  show m: "mem h' p = mem h p" if "p \<in> G" for p using header_kept [OF g u that, of 0] by simp
  then show b: "bsize (mem h') p = bsize (mem h) p" if "p \<in> G" for p using that by (simp add: bsize_def)
  have d: "dom (mem h') = dom (mem h)" using u(1) by (simp add: upd_in_def)
  have "block_at (mem h') p" if "p \<in> G" for p using geoD(1) [OF g that] m [OF that] d by (simp add: block_at_def)
  moreover have "span (mem h') {p} \<inter> heap_arrays (haddr h) = {}" if "p \<in> G" for p
    using span_heap [OF g, of "{p}"] b [OF that] that by (simp add: span_def)
  moreover have "p + bsize (mem h') p \<le> q \<or> q + bsize (mem h') q \<le> p" if "p \<in> G" "q \<in> G" "p \<noteq> q" for p q
    using geoD(3) [OF g that] b that by simp
  ultimately show "geo h' G" unfolding geo_def a d using geoD(4-6) [OF g] by simp
qed

lemma array_kept:
  assumes g: "geo h G" and u: "upd_in (mem h) m' (C \<union> body (mem h) P)" "P \<subseteq> G" and x: "x \<in> heap_arrays (haddr h)" "x \<notin> C"
  shows "m' x = mem h x"
proof -
  have "x \<notin> body (mem h) P" using span_heap [OF g u(2)] body_span x(1) by blast
  then show ?thesis using u(1) x(2) by (simp add: upd_in_def)
qed

lemma block_kept:
  assumes g: "geo h G" and u: "upd_in (mem h) m' (C \<union> body (mem h) P)" "C \<subseteq> heap_arrays (haddr h)" "P \<subseteq> G"
    and p: "p \<in> G" "p \<notin> P" "i < bsize (mem h) p"
  shows "m' (p + i) = mem h (p + i)"
proof -
  have x: "p + i \<in> span (mem h) {p}" using p by (simp add: span_def)
  then have "p + i \<notin> heap_arrays (haddr h)" using span_heap [OF g, of "{p}"] p(1) by auto
  moreover have "p + i \<notin> span (mem h) P" using span_disjoint [OF g, of "{p}" P] u(3) p(1,2) x by auto
  then have "p + i \<notin> body (mem h) P" using body_span by blast
  ultimately show ?thesis using u(1,2) by (auto simp: upd_in_def)
qed

lemma ring_kept:
  assumes g: "geo h G" and u: "upd_in (mem h) m' (C \<union> body (mem h) P)" "C \<subseteq> heap_arrays (haddr h)" "P \<subseteq> G"
    and r: "ring (mem h) x L" "set L \<subseteq> G" "set L \<inter> P = {}" "{x + 16, x + 24} \<subseteq> heap_arrays (haddr h) - C"
  shows "ring m' x L"
proof (rule ring_frame [OF r(1)])
  fix v assume "v \<in> set (x # L)"
  then consider "v = x" | "v \<in> set L" by auto
  then show "m' (v + 16) = mem h (v + 16) \<and> m' (v + 24) = mem h (v + 24)"
  proof cases
    case 1 then show ?thesis using array_kept [OF g u(1,3)] r(4) by auto
  next
    case 2
    then have v: "v \<in> G" "v \<notin> P" using r(2,3) by auto
    then have "32 \<le> bsize (mem h) v" using block_atD(2) [OF geoD(1) [OF g]] by blast
    then show ?thesis using block_kept [OF g u v] by simp
  qed
qed

lemma tree_kept:
  assumes g: "geo h G" and u: "upd_in (mem h) m' (C \<union> body (mem h) P)" "C \<subseteq> heap_arrays (haddr h)" "P \<subseteq> G"
    and t: "tree_at (mem h) a t" "set (tblocks t) \<subseteq> G" "set (tblocks t) \<inter> P = {}" "a \<in> heap_arrays (haddr h) - C" "\<And>q. q \<in> set (tblocks t) \<Longrightarrow> 544 \<le> bsize (mem h) q"
  shows "tree_at m' a t"
proof (subst tree_frame [of t m' "mem h"])
  fix q i :: nat assume q: "q \<in> set (tblocks t)" "i < 56"
  then have "q \<in> G" "q \<notin> P" "i < bsize (mem h) q" using t(2,3) t(5) [OF q(1)] by auto
  then show "m' (q + i) = mem h (q + i)" using block_kept [OF g u] by blast
next
  show "m' a = mem h a" using array_kept [OF g u(1,3)] t(4) by blast
qed (rule t(1))

lemma noclash_bucket:
  assumes g: "geo h G" and B: "B \<subseteq> G" and x: "{x + 16, x + 24} \<subseteq> heap_arrays (haddr h)"
  shows "noclash (insert x B)" "x \<notin> B"
proof -
  have i: "p + i \<notin> heap_arrays (haddr h)" if "p \<in> B" "i < 32" for p i
  proof -
    have "p \<in> G" using that(1) B by blast
    then show ?thesis using geoD(2) [OF g, of p "p + i"] block_atD(2) [OF geoD(1) [OF g, of p]] that(2) by simp
  qed
  show "x \<notin> B" using i [of x 16] x by auto
  have "u \<noteq> v + 8" if uv: "u \<in> insert x B" "v \<in> insert x B" for u v
  proof
    assume e: "u = v + 8"
    consider "u = x" "v \<in> B" | "v = x" "u \<in> B" | "u \<in> B" "v \<in> B" using uv e by (cases "u = x"; cases "v = x") auto
    then show False
    proof cases
      case 1 then show False using i [of v 24] x e by (auto simp: add.commute)
    next
      case 2 then show False using i [of u 16] x e by (auto simp: add.commute)
    next
      case 3
      then have "u \<in> G" "v \<in> G" "u \<noteq> v" using B e by auto
      then show False using geoD(3) [OF g, of u v] block_atD(2) [OF geoD(1) [OF g]] e by fastforce
    qed
  qed
  then show "noclash (insert x B)" by (simp add: noclash_def)
qed

section \<open>Adding a block\<close>

lemma bucket_index: "n = 32 + 8 * i \<Longrightarrow> ZEND_MM_BUCKET_INDEX n = i"
  by (simp add: ZEND_MM_BUCKET_INDEX_def ZEND_MM_ALIGNED_MIN_HEADER_SIZE_def drop_bit_eq_div)

lemma small_size:
  assumes "block_at m p" "ZEND_MM_SMALL_SIZE (bsize m p)"
  obtains i where "i < 64" "bsize m p = 32 + 8 * i" "ZEND_MM_BUCKET_INDEX (bsize m p) = i"
proof -
  obtain k where k: "bsize m p = 8 * k" using block_atD(3) [OF assms(1)] by (auto simp: dvd_def)
  then have "4 \<le> k" "k < 68" using block_atD(2) [OF assms(1)] assms(2) by (simp_all add: ZEND_MM_SMALL_SIZE_def ZEND_MM_MAX_SMALL_SIZE_def)
  then have "k - 4 < 64" "bsize m p = 32 + 8 * (k - 4)" using k by simp_all
  then show ?thesis using that bucket_index by blast
qed

lemma fset_mem:
  "i < 64 \<Longrightarrow> set (Sm i) \<subseteq> fset Sm Rs Tr" "set Rs \<subseteq> fset Sm Rs Tr" "i < 64 \<Longrightarrow> set (tblocks (Tr i)) \<subseteq> fset Sm Rs Tr"
  by (auto simp: fset_def)

lemma small_cells: "i < 64 \<Longrightarrow> {ZEND_MM_SMALL_FREE_BUCKET hp i + 16, ZEND_MM_SMALL_FREE_BUCKET hp i + 24} \<subseteq> heap_arrays hp"
  by (simp add: heads heap_arrays_def)

lemma rest_cells: "{ZEND_MM_REST_BUCKET hp + 16, ZEND_MM_REST_BUCKET hp + 24} \<subseteq> heap_arrays hp"
  by (simp add: heads heap_arrays_def)

lemma tree_cell: "i < 64 \<Longrightarrow> large_free_buckets hp i \<in> heap_arrays hp"
  by (simp add: heads heap_arrays_def)

text \<open>The parts that an update does not reach stay as they are.\<close>

lemma small_kept:
  assumes g: "geo h G" and u: "upd_in (mem h) m' (C \<union> body (mem h) P)" "C \<subseteq> heap_arrays (haddr h)" "P \<subseteq> G"
    and s: "small_at (mem h) (haddr h) i L" "i < 64" "set L \<subseteq> G" "set L \<inter> P = {}" "{ZEND_MM_SMALL_FREE_BUCKET (haddr h) i + 16, ZEND_MM_SMALL_FREE_BUCKET (haddr h) i + 24} \<inter> C = {}"
  shows "small_at m' (haddr h) i L"
proof -
  have "ring m' (ZEND_MM_SMALL_FREE_BUCKET (haddr h) i) L"
    by (rule ring_kept [OF g u _ s(3,4)]) (use s(1) small_cells [OF s(2), of "haddr h"] s(5) in \<open>auto simp: small_at_def\<close>)
  moreover have "m' b = Some (32 + 8 * i)" if "b \<in> set L" for b
    using header_kept [OF g u, of b 0] s(1,3) that by (auto simp: small_at_def)
  ultimately show ?thesis by (simp add: small_at_def)
qed

lemma rest_kept:
  assumes g: "geo h G" and u: "upd_in (mem h) m' (C \<union> body (mem h) P)" "C \<subseteq> heap_arrays (haddr h)" "P \<subseteq> G"
    and s: "rest_at (mem h) (haddr h) L" "set L \<subseteq> G" "set L \<inter> P = {}" "{ZEND_MM_REST_BUCKET (haddr h) + 16, ZEND_MM_REST_BUCKET (haddr h) + 24} \<inter> C = {}"
  shows "rest_at m' (haddr h) L" "rest_large m' L = rest_large (mem h) L"
proof -
  have e: "bsize m' b = bsize (mem h) b" if "b \<in> set L" for b
    using header_kept [OF g u, of b 0] s(2) that by (auto simp: bsize_def)
  then show "rest_large m' L = rest_large (mem h) L" by (simp add: rest_large_def cong: filter_cong)
  have "ring m' (ZEND_MM_REST_BUCKET (haddr h)) L"
    by (rule ring_kept [OF g u _ s(2,3)]) (use s(1) rest_cells [of "haddr h"] s(4) in \<open>auto simp: rest_at_def\<close>)
  moreover have "m' (b + 32) = Some ZEND_MM_REST_BLOCK" if "b \<in> set L" "544 \<le> bsize m' b" for b
  proof -
    have b: "b \<in> G" "b \<notin> P" "544 \<le> bsize (mem h) b" using that s(2,3) e by auto
    then show ?thesis using block_kept [OF g u b(1,2), of 32] s(1) that(1) by (simp add: rest_at_def)
  qed
  ultimately show "rest_at m' (haddr h) L" by (simp add: rest_at_def)
qed

lemma ring_ends: "ring m x L \<Longrightarrow> m (x + 24) = Some (hd (L @ [x])) \<and> m (x + 16) = Some (last (x # L))"
  using ring_split [of m x "[]" L] ring_split [of m x L "[]"] by (simp add: ring_def)

lemma trees_kept:
  assumes f: "flists h Sm Rs Tr" and g: "geo h G" "fset Sm Rs Tr \<subseteq> G" and u: "upd_in (mem h) m' (C \<union> body (mem h) P)" "C \<subseteq> heap_arrays (haddr h)" "P \<subseteq> G"
    and i: "i < 64" "set (tblocks (Tr i)) \<inter> P = {}" "large_free_buckets (haddr h) i \<notin> C"
  shows "tree_at m' (large_free_buckets (haddr h) i) (Tr i)"
proof (rule tree_kept [OF g(1) u])
  show "tree_at (mem h) (large_free_buckets (haddr h) i) (Tr i)" by (rule large_okD(1) [OF flistsD(9) [OF f] i(1)])
  show "set (tblocks (Tr i)) \<subseteq> G" using fset_mem(3) [OF i(1)] g(2) by blast
  show "set (tblocks (Tr i)) \<inter> P = {}" by (rule i(2))
  show "large_free_buckets (haddr h) i \<in> heap_arrays (haddr h) - C" using tree_cell [OF i(1)] i(3) by blast
  show "\<And>q. q \<in> set (tblocks (Tr i)) \<Longrightarrow> 544 \<le> bsize (mem h) q" by (rule tree_block(2) [OF flistsD(9) [OF f] i(1)])
qed

lemma ring_upd_in:
  assumes g: "geo h G" and r: "ring (mem h) x L" "set L \<subseteq> G" "b \<in> G"
  shows "upd_in (mem h) (link_mem b x (hd (L @ [x])) (mem h)) ({x + 16, x + 24} \<union> body (mem h) (insert b (set L)))"
    "{b + 16, b + 24, x + 24, hd (L @ [x]) + 16} \<subseteq> dom (mem h)"
proof -
  have s: "32 \<le> bsize (mem h) p" if "p \<in> insert b (set L)" for p using that r(2,3) block_atD(2) [OF geoD(1) [OF g]] by blast
  have bd: "p + 16 \<in> body (mem h) (insert b (set L)) \<and> p + 24 \<in> body (mem h) (insert b (set L))" if "p \<in> insert b (set L)" for p
    using bodyI [OF that] s [OF that] by simp
  have d: "p + i \<in> dom (mem h)" if "p \<in> insert b (set L)" "i \<in> {16, 24}" for p i
  proof -
    have "p \<in> G" "i < 32" "8 dvd i" using that r(2,3) by auto
    then show ?thesis using block_atD(2,5) [OF geoD(1) [OF g, of p]] by simp
  qed
  have z: "hd (L @ [x]) \<in> set (x # L)" by (cases L) auto
  then show dm: "{b + 16, b + 24, x + 24, hd (L @ [x]) + 16} \<subseteq> dom (mem h)" using d [of b] ring_dom [OF r(1)] by auto
  have "{b + 16, b + 24, x + 24, hd (L @ [x]) + 16} \<subseteq> {x + 16, x + 24} \<union> body (mem h) (insert b (set L))"
    using z bd by auto
  then show "upd_in (mem h) (link_mem b x (hd (L @ [x])) (mem h)) ({x + 16, x + 24} \<union> body (mem h) (insert b (set L)))"
    using dm by (auto simp: upd_in_def link_mem_def)
qed

lemma fupdI: "upd_in (mem h) (mem h') (C \<union> body (mem h) P) \<Longrightarrow> C \<subseteq> heap_arrays (haddr h) \<Longrightarrow> P \<subseteq> Q \<Longrightarrow>
    h' = h\<lparr>mem := mem h', free_bitmap := free_bitmap h', large_free_bitmap := large_free_bitmap h', rest_count := rest_count h'\<rparr> \<Longrightarrow> fupd h h' Q"
  unfolding fupd_def by (intro conjI exI) (auto elim!: upd_in_mono simp: body_def)

text \<open>An update of the lists: each of them is either out of reach of the update or shown to be right after it.\<close>

lemma flists_upd:
  assumes f: "flists h Sm Rs Tr" and g: "geo h G" "fset Sm Rs Tr \<subseteq> G" and u: "upd_in (mem h) (mem h') (C \<union> body (mem h) P)" "C \<subseteq> heap_arrays (haddr h)" "P \<subseteq> G"
    and e: "haddr h' = haddr h" and F: "fset Sm' Rs' Tr' \<subseteq> G"
    and s: "\<And>i. i < 64 \<Longrightarrow> small_at (mem h') (haddr h) i (Sm' i) \<or> Sm' i = Sm i \<and> set (Sm i) \<inter> P = {} \<and>
      {ZEND_MM_SMALL_FREE_BUCKET (haddr h) i + 16, ZEND_MM_SMALL_FREE_BUCKET (haddr h) i + 24} \<inter> C = {}"
    and r: "rest_at (mem h') (haddr h) Rs' \<and> rest_count h' = rest_large (mem h') Rs' \<or> Rs' = Rs \<and> rest_count h' = rest_count h \<and> set Rs \<inter> P = {} \<and>
      {ZEND_MM_REST_BUCKET (haddr h) + 16, ZEND_MM_REST_BUCKET (haddr h) + 24} \<inter> C = {}"
    and t: "\<And>i. i < 64 \<Longrightarrow> tree_at (mem h') (large_free_buckets (haddr h) i) (Tr' i) \<and> twf i 1 (Tr' i) \<and> (\<forall>x\<in>tsizes (Tr' i). 544 \<le> x \<and> 8 dvd x) \<and> distinct (tblocks (Tr' i)) \<or>
      Tr' i = Tr i \<and> set (tblocks (Tr i)) \<inter> P = {} \<and> large_free_buckets (haddr h) i \<notin> C"
    and d: "\<And>i. i < 64 \<Longrightarrow> set (Sm' i) \<inter> set Rs' = {}" "\<And>i. i < 64 \<Longrightarrow> set (tblocks (Tr' i)) \<inter> set Rs' = {}"
    and b: "\<And>i. bit (free_bitmap h') i \<Longrightarrow> i < 64 \<and> Sm' i \<noteq> []" "\<And>i. bit (large_free_bitmap h') i \<longleftrightarrow> i < 64 \<and> Tr' i \<noteq> Lf"
  shows "flists h' Sm' Rs' Tr'"
proof -
  have S: "small_at (mem h') (haddr h) i (Sm' i)" if i: "i < 64" for i
    using s [OF i]
  proof
    assume k: "Sm' i = Sm i \<and> set (Sm i) \<inter> P = {} \<and> {ZEND_MM_SMALL_FREE_BUCKET (haddr h) i + 16, ZEND_MM_SMALL_FREE_BUCKET (haddr h) i + 24} \<inter> C = {}"
    have "set (Sm i) \<subseteq> G" using fset_mem(1) [OF i, of Sm Rs Tr] g(2) by blast
    then show ?thesis using small_kept [OF g(1) u flistsD(2) [OF f i] i] k by simp
  qed
  have R: "rest_at (mem h') (haddr h) Rs' \<and> rest_count h' = rest_large (mem h') Rs'"
    using r
  proof
    assume k: "Rs' = Rs \<and> rest_count h' = rest_count h \<and> set Rs \<inter> P = {} \<and> {ZEND_MM_REST_BUCKET (haddr h) + 16, ZEND_MM_REST_BUCKET (haddr h) + 24} \<inter> C = {}"
    have "set Rs \<subseteq> G" using fset_mem(2) [of Rs Sm Tr] g(2) by blast
    then show ?thesis using rest_kept [OF g(1) u flistsD(7) [OF f]] k flistsD(8) [OF f] by simp
  qed
  have T: "tree_at (mem h') (large_free_buckets (haddr h) i) (Tr' i) \<and> twf i 1 (Tr' i) \<and> (\<forall>x\<in>tsizes (Tr' i). 544 \<le> x \<and> 8 dvd x) \<and> distinct (tblocks (Tr' i))" if i: "i < 64" for i
    using t [OF i]
  proof
    assume k: "Tr' i = Tr i \<and> set (tblocks (Tr i)) \<inter> P = {} \<and> large_free_buckets (haddr h) i \<notin> C"
    then have "tree_at (mem h') (large_free_buckets (haddr h) i) (Tr i)" using trees_kept [OF f g u i] by blast
    then show ?thesis using k large_okD(2,3) [OF flistsD(9) [OF f] i] flistsD(4) [OF f i] by simp
  qed
  have "geo h' (fset Sm' Rs' Tr')" by (rule geo_mono [OF geo_upd(1) [OF g(1) u e] F])
  moreover have "large_ok h' Tr'" using T b(2) by (simp add: large_ok_def e)
  ultimately show ?thesis using S R T d b(1) by (simp add: flists_def e)
qed

lemma other_buckets:
  "j \<noteq> i \<Longrightarrow> {ZEND_MM_SMALL_FREE_BUCKET hp j + 16, ZEND_MM_SMALL_FREE_BUCKET hp j + 24} \<inter> {ZEND_MM_SMALL_FREE_BUCKET hp i + 16, ZEND_MM_SMALL_FREE_BUCKET hp i + 24} = {}"
  "i < 64 \<Longrightarrow> {ZEND_MM_REST_BUCKET hp + 16, ZEND_MM_REST_BUCKET hp + 24} \<inter> {ZEND_MM_SMALL_FREE_BUCKET hp i + 16, ZEND_MM_SMALL_FREE_BUCKET hp i + 24} = {}"
  "i < 64 \<Longrightarrow> large_free_buckets hp j \<notin> {ZEND_MM_SMALL_FREE_BUCKET hp i + 16, ZEND_MM_SMALL_FREE_BUCKET hp i + 24}"
  "j < 64 \<Longrightarrow> large_free_buckets hp j \<notin> {ZEND_MM_REST_BUCKET hp + 16, ZEND_MM_REST_BUCKET hp + 24}"
  "j \<noteq> i \<Longrightarrow> large_free_buckets hp j \<noteq> large_free_buckets hp i"
  by (auto simp: heads)

lemma add_small_ok:
  assumes f: "flists h Sm Rs Tr" and b: "b \<notin> fset Sm Rs Tr" and g: "geo h (insert b (fset Sm Rs Tr))" and sm: "ZEND_MM_SMALL_SIZE (bsize (mem h) b)"
  shows "\<exists>h' i. zend_mm_add_to_free_list b h = Some h' \<and> i < 64 \<and> flists h' (Sm(i := b # Sm i)) Rs Tr \<and> fupd h h' (insert b (fset Sm Rs Tr))"
proof -
  let ?G = "insert b (fset Sm Rs Tr)"
  note bb = block_atD [OF geoD(1) [OF g insertI1]]
  obtain i where i: "i < 64" "bsize (mem h) b = 32 + 8 * i" "ZEND_MM_BUCKET_INDEX (bsize (mem h) b) = i" by (rule small_size [OF geoD(1) [OF g insertI1] sm])
  let ?x = "ZEND_MM_SMALL_FREE_BUCKET (haddr h) i" and ?L = "Sm i"
  let ?m = "link_mem b ?x (hd (?L @ [?x])) (mem h)" and ?P = "insert b (set ?L)" and ?C = "{?x + 16, ?x + 24}"
  let ?fb = "if ?L = [] then free_bitmap h OR push_bit i 1 else free_bitmap h"
  define h' where "h' = h\<lparr>mem := ?m, free_bitmap := ?fb\<rparr>"
  have sa: "small_at (mem h) (haddr h) i ?L" by (rule flistsD(2) [OF f i(1)])
  then have r: "ring (mem h) ?x ?L" by (simp add: small_at_def)
  have LG: "set ?L \<subseteq> ?G" "?P \<subseteq> ?G" "fset Sm Rs Tr \<subseteq> ?G" using fset_mem(1) [OF i(1)] by blast+
  note C = small_cells [OF i(1), of "haddr h"]
  note u = ring_upd_in [OF g r LG(1) insertI1]
  have bL: "b \<notin> set ?L" using b fset_mem(1) [OF i(1)] by blast
  have ends: "mem h (?x + 24) = Some (hd (?L @ [?x]))" "mem h (?x + 16) = Some (last (?x # ?L))" using ring_ends [OF r] by simp_all
  have xL: "?x \<notin> ?P" "noclash (insert ?x ?P)" by (rule noclash_bucket [OF g LG(2) C])+
  have pp: "last (?x # ?L) = ?x \<longleftrightarrow> ?L = []" using xL(1) last_in_set [of ?L] by (metis insertI2 last.simps)
  have lb: "link_between b ?x (hd (?L @ [?x])) (h\<lparr>free_bitmap := fb\<rparr>) = Some (h\<lparr>mem := ?m, free_bitmap := fb\<rparr>)" for fb
    using link_between_ok [of b ?x "hd (?L @ [?x])" "h\<lparr>free_bitmap := fb\<rparr>"] u(2) by simp
  have run: "zend_mm_add_to_free_list b h = Some h'"
  proof (cases "?L = []")
    case True then show ?thesis using sm bb(1) i(3) ends lb [of ?fb] by (simp add: zend_mm_add_to_free_list_def ld_def Let_def h'_def)
  next
    case False
    then have "last ?L \<noteq> ?x" using pp by simp
    then show ?thesis using False sm bb(1) i(3) ends lb [of "free_bitmap h"] by (simp add: zend_mm_add_to_free_list_def ld_def Let_def h'_def)
  qed
  have "ring ?m ?x (b # ?L)" using ring_insert [of "mem h" ?x "[]" ?L b] r xL bL by (simp add: insert_commute)
  moreover have "?m p = mem h p" if "p \<in> ?P" for p using header_kept [OF g u(1) C LG(2), of p 0] that LG(2) by auto
  ultimately have si: "small_at ?m (haddr h) i (b # ?L)" using sa bb(1) i(2) by (simp add: small_at_def)
  have Fs: "fset (Sm(i := b # Sm i)) Rs Tr = ?G" using i(1) by (auto simp: fset_def split: if_splits)
  have "flists h' (Sm(i := b # Sm i)) Rs Tr"
  proof (rule flists_upd [OF f g LG(3), of h' ?C ?P])
    fix j :: nat assume j: "j < 64"
    have "set (Sm j) \<inter> ?P = {}" if "j \<noteq> i" using fset_mem(1) [OF j, of Sm Rs Tr] b flists_disjoint(1) [OF f j i(1) that] by auto
    then show "small_at (mem h') (haddr h) j ((Sm(i := b # Sm i)) j) \<or> (Sm(i := b # Sm i)) j = Sm j \<and> set (Sm j) \<inter> ?P = {} \<and>
        {ZEND_MM_SMALL_FREE_BUCKET (haddr h) j + 16, ZEND_MM_SMALL_FREE_BUCKET (haddr h) j + 24} \<inter> ?C = {}"
      using si other_buckets(1) [of j i "haddr h"] by (cases "j = i") (simp_all add: h'_def)
    have "set (tblocks (Tr j)) \<inter> ?P = {}" using flists_disjoint(2) [OF f i(1) j] b fset_mem(3) [OF j, of Tr Sm Rs] by auto
    then show "tree_at (mem h') (large_free_buckets (haddr h) j) (Tr j) \<and> twf j 1 (Tr j) \<and> (\<forall>x\<in>tsizes (Tr j). 544 \<le> x \<and> 8 dvd x) \<and> distinct (tblocks (Tr j)) \<or>
      Tr j = Tr j \<and> set (tblocks (Tr j)) \<inter> ?P = {} \<and> large_free_buckets (haddr h) j \<notin> ?C" using other_buckets(3) [OF i(1)] by blast
    show "set ((Sm(i := b # Sm i)) j) \<inter> set Rs = {}" using flistsD(3) [OF f j] b fset_mem(2) [of Rs Sm Tr] by auto
    show "set (tblocks (Tr j)) \<inter> set Rs = {}" by (rule flistsD(5) [OF f j])
  next
    have "set Rs \<inter> ?P = {}" using fset_mem(2) [of Rs Sm Tr] b flistsD(3) [OF f i(1)] by auto
    then show "rest_at (mem h') (haddr h) Rs \<and> rest_count h' = rest_large (mem h') Rs \<or> Rs = Rs \<and> rest_count h' = rest_count h \<and> set Rs \<inter> ?P = {} \<and>
      {ZEND_MM_REST_BUCKET (haddr h) + 16, ZEND_MM_REST_BUCKET (haddr h) + 24} \<inter> ?C = {}" using other_buckets(2) [OF i(1), of "haddr h"] by (simp add: h'_def)
  next
    fix j assume "bit (free_bitmap h') j"
    then have "bit (free_bitmap h) j \<or> j = i" by (auto simp: h'_def bit_or_iff bit_exp_iff split: if_splits)
    then show "j < 64 \<and> (Sm(i := b # Sm i)) j \<noteq> []" using flistsD(6) [OF f, of j] i(1) by auto
  next
    fix j show "bit (large_free_bitmap h') j \<longleftrightarrow> j < 64 \<and> Tr j \<noteq> Lf" using flistsD(9) [OF f] by (simp add: large_ok_def h'_def)
  qed (use u(1) C LG(2) Fs in \<open>simp_all add: h'_def\<close>)
  moreover have "fupd h h' ?G" by (rule fupdI [of _ _ ?C ?P]) (use u(1) C LG(2) in \<open>simp_all add: h'_def\<close>)
  ultimately show ?thesis using run i(1) by blast
qed

lemma large_region:
  assumes g: "geo h G" and P: "P \<subseteq> G" "\<And>p. p \<in> P \<Longrightarrow> 544 \<le> bsize (mem h) p"
  shows "spaced P" "links P \<subseteq> body (mem h) P" "area P \<subseteq> span (mem h) P" "area P \<inter> heap_arrays (haddr h) = {}" "\<And>p i. p \<in> P \<Longrightarrow> i < 56 \<Longrightarrow> 8 dvd i \<Longrightarrow> p + i \<in> dom (mem h)"
proof -
  show "spaced P" unfolding spaced_def
  proof (intro ballI impI)
    fix p q assume pq: "p \<in> P" "q \<in> P" "p \<noteq> q"
    then have "p + bsize (mem h) p \<le> q \<or> q + bsize (mem h) q \<le> p" using geoD(3) [OF g] P(1) by blast
    then show "p + 56 \<le> q \<or> q + 56 \<le> p" using P(2) [OF pq(1)] P(2) [OF pq(2)] by linarith
  qed
  show "links P \<subseteq> body (mem h) P" unfolding links_def body_def by (rule UN_mono) (use P(2) in fastforce)+
  show a: "area P \<subseteq> span (mem h) P" unfolding area_def span_def by (rule UN_mono) (use P(2) in fastforce)+
  then show "area P \<inter> heap_arrays (haddr h) = {}" using span_heap [OF g P(1)] by blast
  show "p + i \<in> dom (mem h)" if "p \<in> P" "i < 56" "8 dvd i" for p i
  proof -
    have "p \<in> G" using that(1) P(1) by blast
    then show ?thesis using block_atD(5) [OF geoD(1) [OF g]] that P(2) [OF that(1)] by simp
  qed
qed

lemma tree_region:
  assumes f: "flists h Sm Rs Tr" and i: "i < 64" and g: "geo h G" "fset Sm Rs Tr \<subseteq> G" "b \<in> G" "544 \<le> bsize (mem h) b"
  shows "insert b (set (tblocks (Tr i))) \<subseteq> G" "\<And>p. p \<in> insert b (set (tblocks (Tr i))) \<Longrightarrow> 544 \<le> bsize (mem h) p"
  using fset_mem(3) [OF i, of Tr Sm Rs] g tree_block(2) [OF flistsD(9) [OF f] i] by auto

text \<open>The lists after the tree of one size has changed.\<close>

lemma flists_tree:
  assumes f: "flists h Sm Rs Tr" and g: "geo h G" "fset Sm Rs Tr \<subseteq> G" and i: "i < 64" and b: "b \<in> G" "544 \<le> bsize (mem h) b" "zend_mm_high_bit (bsize (mem h) b) = i" "b \<notin> set Rs"
    and u: "upd_in (mem h) m' (insert (large_free_buckets (haddr h) i) (body (mem h) (insert b (set (tblocks (Tr i))))))"
    and t: "tree_at m' (large_free_buckets (haddr h) i) t'" "twf i 1 t'" "\<forall>x\<in>tsizes t'. 544 \<le> x \<and> 8 dvd x" "distinct (tblocks t')" "set (tblocks t') \<subseteq> insert b (set (tblocks (Tr i)))"
    and lb: "\<And>j. bit lb j \<longleftrightarrow> j < 64 \<and> (Tr(i := t')) j \<noteq> Lf"
  shows "flists (h\<lparr>mem := m', large_free_bitmap := lb\<rparr>) Sm Rs (Tr(i := t'))"
proof -
  let ?h = "h\<lparr>mem := m', large_free_bitmap := lb\<rparr>" and ?P = "insert b (set (tblocks (Tr i)))" and ?C = "{large_free_buckets (haddr h) i}"
  note P = tree_region [OF f i g b(1,2)]
  have s: "bsize (mem h) p = 32 + 8 * j" if "j < 64" "p \<in> set (Sm j)" for p j using flistsD(2) [OF f that(1)] that(2) by (auto simp: small_at_def bsize_def)
  have hb: "zend_mm_high_bit (bsize (mem h) p) = i" if "p \<in> ?P" for p using that b(3) tree_block(3) [OF flistsD(9) [OF f] i] by auto
  have PR: "?P \<inter> set Rs = {}" using b(4) flistsD(5) [OF f i] by auto
  show ?thesis
  proof (rule flists_upd [OF f g, of ?h ?C ?P])
    fix j :: nat assume j: "j < 64"
    have "set (Sm j) \<inter> ?P = {}"
    proof (rule ccontr)
      assume "set (Sm j) \<inter> ?P \<noteq> {}"
      then obtain p where "p \<in> set (Sm j)" "p \<in> ?P" by blast
      then show False using s [OF j, of p] P(2) [of p] j by simp
    qed
    moreover have "{ZEND_MM_SMALL_FREE_BUCKET (haddr h) j + 16, ZEND_MM_SMALL_FREE_BUCKET (haddr h) j + 24} \<inter> ?C = {}" using other_buckets(3) [OF j, of "haddr h" i] by simp
    ultimately show "small_at (mem ?h) (haddr h) j (Sm j) \<or> Sm j = Sm j \<and> set (Sm j) \<inter> ?P = {} \<and>
        {ZEND_MM_SMALL_FREE_BUCKET (haddr h) j + 16, ZEND_MM_SMALL_FREE_BUCKET (haddr h) j + 24} \<inter> ?C = {}" by blast
    have dj: "set (tblocks (Tr j)) \<inter> ?P = {}" if "j \<noteq> i" using tree_block(3) [OF flistsD(9) [OF f] j] hb that by (metis disjoint_iff)
    show "tree_at (mem ?h) (large_free_buckets (haddr h) j) ((Tr(i := t')) j) \<and> twf j 1 ((Tr(i := t')) j) \<and> (\<forall>x\<in>tsizes ((Tr(i := t')) j). 544 \<le> x \<and> 8 dvd x) \<and>
          distinct (tblocks ((Tr(i := t')) j)) \<or>
      (Tr(i := t')) j = Tr j \<and> set (tblocks (Tr j)) \<inter> ?P = {} \<and> large_free_buckets (haddr h) j \<notin> ?C"
    proof (cases "j = i")
      case True
      then show ?thesis using t by simp
    next
      case False
      then show ?thesis using dj other_buckets(5) [of j i "haddr h"] by simp
    qed
    show "set (Sm j) \<inter> set Rs = {}" by (rule flistsD(3) [OF f j])
    show "set (tblocks ((Tr(i := t')) j)) \<inter> set Rs = {}" using flistsD(5) [OF f j] t(5) PR by auto
  next
    have "{ZEND_MM_REST_BUCKET (haddr h) + 16, ZEND_MM_REST_BUCKET (haddr h) + 24} \<inter> ?C = {}" using other_buckets(4) [OF i, of "haddr h"] by simp
    then show "rest_at (mem ?h) (haddr h) Rs \<and> rest_count ?h = rest_large (mem ?h) Rs \<or> Rs = Rs \<and> rest_count ?h = rest_count h \<and> set Rs \<inter> ?P = {} \<and>
      {ZEND_MM_REST_BUCKET (haddr h) + 16, ZEND_MM_REST_BUCKET (haddr h) + 24} \<inter> ?C = {}" using PR by (simp add: Int_commute)
  next
    show "fset Sm Rs (Tr(i := t')) \<subseteq> G" 
    proof -
      have "fset Sm Rs (Tr(i := t')) \<subseteq> fset Sm Rs Tr \<union> ?P" using t(5) by (auto simp: fset_def split: if_splits)
      then show ?thesis using g(2) P(1) by blast
    qed
  qed (use u P(1) tree_cell [OF i, of "haddr h"] flistsD(6) [OF f] lb in simp_all)
qed

lemma add_large_ok:
  assumes f: "flists h Sm Rs Tr" and b: "b \<notin> fset Sm Rs Tr" and g: "geo h (insert b (fset Sm Rs Tr))" and lg: "\<not> ZEND_MM_SMALL_SIZE (bsize (mem h) b)"
  shows "\<exists>h' i. zend_mm_add_to_free_list b h = Some h' \<and> i < 64 \<and> flists h' Sm Rs (Tr(i := tins i (bsize (mem h) b) b (Tr i))) \<and> fupd h h' (insert b (fset Sm Rs Tr))"
proof -
  let ?G = "insert b (fset Sm Rs Tr)" and ?s = "bsize (mem h) b"
  note bb = block_atD [OF geoD(1) [OF g insertI1]]
  have s: "544 \<le> ?s" using lg by (simp add: ZEND_MM_SMALL_SIZE_def ZEND_MM_MAX_SMALL_SIZE_def)
  define i where "i = zend_mm_high_bit ?s"
  have i: "i < 64" "?s div 2 ^ i = 1" unfolding i_def using high_bit_less [of ?s] high_bit_div [of ?s] s bb(4) by simp_all
  let ?a = "large_free_buckets (haddr h) i" and ?t = "Tr i" and ?P = "insert b (set (tblocks (Tr i)))"
  let ?m1 = "(mem h)(b + 48 \<mapsto> 0, b + 40 \<mapsto> 0)" and ?t' = "tins i ?s b (Tr i)"
  have FG: "fset Sm Rs Tr \<subseteq> ?G" by blast
  note P = tree_region [OF f i(1) g FG insertI1 s]
  note R = large_region [OF g P]
  have bt: "b \<notin> set (tblocks ?t)" using b fset_mem(3) [OF i(1)] by blast
  have d: "b + 48 \<in> dom (mem h)" "b + 40 \<in> dom (mem h)" "b + 32 \<in> dom (mem h)" "b + 24 \<in> dom (mem h)" "b + 16 \<in> dom (mem h)" using R(5) [of b] by simp_all
  have u1: "upd_in (mem h) ?m1 ({} \<union> body (mem h) {b})" using d s by (auto simp: upd_in_def body_def)
  have t1: "tree_at ?m1 ?a ?t" by (rule trees_kept [OF f g FG u1 _ _ i(1)]) (use bt in auto)
  have "b \<noteq> 0" using geoD(4) [OF g] bb(1) by (metis domI)
  note wf = large_okD [OF flistsD(9) [OF f] i(1)]
  have aP: "?a \<notin> area ?P" using R(4) tree_cell [OF i(1)] by blast
  obtain m' where m': "ins_at ?a i ?s b ?t (h\<lparr>mem := ?m1\<rparr>) = Some (h\<lparr>mem := m'\<rparr>)" "tree_at m' ?a ?t'" "upd_in ?m1 m' (insert ?a (links ?P))"
    using ins_at_ok [of "h\<lparr>mem := ?m1\<rparr>" ?a ?t i 1 ?s b] t1 wf(2) i flistsD(4) [OF f i(1)] bt \<open>b \<noteq> 0\<close> R(1) aP bb(1) d by auto
  define lb where "lb = (if ?t = Lf then large_free_bitmap h OR push_bit i 1 else large_free_bitmap h)"
  define h' where "h' = h\<lparr>mem := m', large_free_bitmap := lb\<rparr>"
  obtain v where v: "?m1 ?a = Some v" "v = 0 \<longleftrightarrow> ?t = Lf" using tree_at_root [OF t1] by blast
  have run: "zend_mm_add_to_free_list b h = Some h'"
    using lg bb(1) d v m'(1) i_def [symmetric]
    by (cases "?t = Lf") (simp_all add: zend_mm_add_to_free_list_def ld_def Let_def ZEND_MM_LARGE_BUCKET_INDEX_def ins_at_def mshift_def ZEND_MM_NUM_BUCKETS_def h'_def lb_def split del: if_split)
  have u2: "upd_in (mem h) m' (insert ?a (body (mem h) ?P))"
    by (rule upd_in_mono [OF upd_in_trans [OF u1 m'(3)]]) (use R(2) in \<open>auto simp: body_def\<close>)
  have ms: "mset (tblocks ?t') = add_mset b (mset (tblocks ?t))" by (rule tins_blocks [OF wf(2)])
  then have st: "set (tblocks ?t') = ?P" by (metis set_mset_add_mset_insert set_mset_mset)
  have bd: "bit lb j \<longleftrightarrow> j < 64 \<and> (Tr(i := ?t')) j \<noteq> Lf" for j
    using flistsD(9) [OF f] i(1) tins_sizes(2) [of i ?s b ?t] by (auto simp: lb_def large_ok_def bit_or_iff bit_exp_iff)
  have "flists h' Sm Rs (Tr(i := ?t'))" unfolding h'_def
  proof (rule flists_tree [OF f g FG i(1) insertI1 s i_def [symmetric] _ u2 m'(2)])
    show "b \<notin> set Rs" using b fset_mem(2) by blast
    show "twf i 1 ?t'" by (rule tins_twf [OF wf(2) i(2)])
    show "\<forall>x\<in>tsizes ?t'. 544 \<le> x \<and> 8 dvd x" using tins_sizes(1) [of i ?s b ?t] wf(3) s bb(3) by blast
    show "distinct (tblocks ?t')" using ms bt flistsD(4) [OF f i(1)] by (metis distinct.simps(2) mset.simps(2) mset_eq_imp_distinct_iff)
    show "set (tblocks ?t') \<subseteq> ?P" using st by blast
  qed (rule bd)
  moreover have "fupd h h' ?G" by (rule fupdI [of _ _ "{?a}" ?P]) (use u2 P(1) tree_cell [OF i(1)] in \<open>simp_all add: h'_def\<close>)
  ultimately show ?thesis using run i(1) by blast
qed

end
