(* ===== verification/Zend_Mm_Lists.thy ===== *)
theory Zend_Mm_Lists
  imports Zend_Mm_Free
begin

text \<open>
  Removing a block from the free lists, and the list of blocks that are kept aside: whichever list a free block is in, it is taken out and the
  lists stay well formed.
\<close>

section \<open>Removing a block\<close>

lemma ring_remove:
  assumes g: "geo h G" and r: "ring (mem h) x L" "set L \<subseteq> G" "{x + 16, x + 24} \<subseteq> heap_arrays (haddr h)" and b: "b \<in> set L"
  obtains y z m1 where "mem h (b + 16) = Some y" "mem h (b + 24) = Some z" "mem h (y + 24) = Some b" "mem h (z + 16) = Some b" "y \<noteq> b"
    "y = z \<longleftrightarrow> L = [b]" "unlink_between y z h = Some (h\<lparr>mem := m1\<rparr>)" "ring m1 x (remove1 b L)" "upd_in (mem h) m1 ({x + 16, x + 24} \<union> body (mem h) (set L))"
    "\<And>p. p \<in> G \<Longrightarrow> m1 p = mem h p" "\<And>p. p \<in> G \<Longrightarrow> 544 \<le> bsize (mem h) p \<Longrightarrow> m1 (p + 32) = mem h (p + 32)"
proof -
  obtain as bs where L: "L = as @ b # bs" "b \<notin> set as" using split_list_first [OF b] by blast
  note n = noclash_bucket [OF g r(2,3)]
  have d: "distinct (x # as @ b # bs)" using r(1) L(1) by (simp add: ring_def)
  let ?y = "last (x # as)" and ?z = "hd (bs @ [x])"
  let ?m = "unlink_mem ?y ?z (mem h)"
  have "noclash (set (x # as @ b # bs))" using n(1) L(1) by simp
  note D = ring_delete [OF r(1) [unfolded L(1)] this]
  have y: "?y \<in> set (x # as)" by (rule last_in_set) simp
  have z: "?z \<in> set (bs @ [x])" by (rule hd_in_set) simp
  have yz: "?y = ?z \<longleftrightarrow> L = [b]"
  proof
    assume e: "?y = ?z"
    then have "?y = x" using y z d by auto
    then have "as = []" using d last_in_set [of as] by (cases "as = []") auto
    moreover have "bs = []" using \<open>?y = x\<close> e d by (cases bs) auto
    ultimately show "L = [b]" using L(1) by simp
  qed (use L in \<open>auto simp: append_eq_Cons_conv\<close>)
  have "?y \<noteq> b" using y d by auto
  have dm: "{?y + 24, ?z + 16} \<subseteq> dom (mem h)" using D(4,5) by auto
  have cell: "?y + 24 \<in> {x + 16, x + 24} \<union> body (mem h) (set L)" "?z + 16 \<in> {x + 16, x + 24} \<union> body (mem h) (set L)"
  proof -
    have "p + 16 \<in> body (mem h) (set L) \<and> p + 24 \<in> body (mem h) (set L)" if "p \<in> set L" for p
    proof -
      have "32 \<le> bsize (mem h) p" using that r(2) block_atD(2) [OF geoD(1) [OF g]] by blast
      then show ?thesis using bodyI [OF that] by simp
    qed
    then show "?y + 24 \<in> {x + 16, x + 24} \<union> body (mem h) (set L)" "?z + 16 \<in> {x + 16, x + 24} \<union> body (mem h) (set L)" using y z L by auto
  qed
  have u: "upd_in (mem h) ?m ({x + 16, x + 24} \<union> body (mem h) (set L))" using dm cell by (auto simp: upd_in_def unlink_mem_def)
  have "?m (p + 32) = mem h (p + 32)" if p: "p \<in> G" "544 \<le> bsize (mem h) p" for p
  proof -
    have "p + 32 \<noteq> q" if q: "q = ?y + 24 \<or> q = ?z + 16" for q
    proof (cases "q \<in> {x + 16, x + 24}")
      case True
      then show ?thesis using geoD(2) [OF g p(1), of "p + 32"] p(2) r(3) by auto
    next
      case False
      then have "\<exists>w\<in>set L. q = w + 16 \<or> q = w + 24" using q y z L by auto
      then obtain w where w: "w \<in> set L" "q = w + 16 \<or> q = w + 24" by blast
      then have "w \<in> G" using r(2) by auto
      then show ?thesis using geoD(3) [OF g p(1), of w] block_atD(2) [OF geoD(1) [OF g, of w]] p w by auto
    qed
    then show ?thesis by (simp add: unlink_mem_def)
  qed
  moreover have "remove1 b L = as @ bs" using L by (simp add: remove1_append)
  ultimately show ?thesis
    using that [OF D(2-5) \<open>?y \<noteq> b\<close> yz unlink_between_ok [OF dm] _ u] D(1) header_kept [OF g u r(3,2), of _ 0] by force
qed

lemma fset_small: "i < 64 \<Longrightarrow> fset (Sm(i := L)) Rs Tr = set L \<union> set Rs \<union> (\<Union>j\<in>{..<64} - {i}. set (Sm j)) \<union> (\<Union>i<64. set (tblocks (Tr i)))"
  by (auto simp: fset_def split: if_splits)

lemma fset_tree: "i < 64 \<Longrightarrow> fset Sm Rs (Tr(i := t)) = set (tblocks t) \<union> set Rs \<union> (\<Union>j\<in>{..<64} - {i}. set (tblocks (Tr j))) \<union> (\<Union>i<64. set (Sm i))"
  by (auto simp: fset_def split: if_splits)

lemma fset_diff:
  "i < 64 \<Longrightarrow> set L = set (Sm i) - {b} \<Longrightarrow> (\<And>j. j < 64 \<Longrightarrow> j \<noteq> i \<Longrightarrow> b \<notin> set (Sm j)) \<Longrightarrow> b \<notin> set Rs \<Longrightarrow> (\<And>j. j < 64 \<Longrightarrow> b \<notin> set (tblocks (Tr j))) \<Longrightarrow>
     fset (Sm(i := L)) Rs Tr = fset Sm Rs Tr - {b}"
  "set L = set Rs - {b} \<Longrightarrow> (\<And>j. j < 64 \<Longrightarrow> b \<notin> set (Sm j)) \<Longrightarrow> (\<And>j. j < 64 \<Longrightarrow> b \<notin> set (tblocks (Tr j))) \<Longrightarrow> fset Sm L Tr = fset Sm Rs Tr - {b}"
  "i < 64 \<Longrightarrow> set (tblocks t) = set (tblocks (Tr i)) - {b} \<Longrightarrow> (\<And>j. j < 64 \<Longrightarrow> j \<noteq> i \<Longrightarrow> b \<notin> set (tblocks (Tr j))) \<Longrightarrow> b \<notin> set Rs \<Longrightarrow> (\<And>j. j < 64 \<Longrightarrow> b \<notin> set (Sm j)) \<Longrightarrow>
     fset Sm Rs (Tr(i := t)) = fset Sm Rs Tr - {b}"
  subgoal using fset_small [of i Sm L Rs Tr] fset_small [of i Sm "Sm i" Rs Tr] by (simp only: fun_upd_triv) blast
  subgoal unfolding fset_def by blast
  subgoal using fset_tree [of i Sm Rs Tr t] fset_tree [of i Sm Rs Tr "Tr i"] by (simp only: fun_upd_triv) blast
  done

lemma remove_small_ok:
  assumes f: "flists h Sm Rs Tr" and i: "i < 64" and b: "b \<in> set (Sm i)"
  shows "\<exists>h'. zend_mm_remove_from_free_list b h = Some h' \<and> flists h' (Sm(i := remove1 b (Sm i))) Rs Tr \<and> fupd h h' (fset Sm Rs Tr)"
proof -
  let ?G = "fset Sm Rs Tr" and ?x = "ZEND_MM_SMALL_FREE_BUCKET (haddr h) i" and ?L = "Sm i" and ?L' = "remove1 b (Sm i)"
  note g = flistsD(1) [OF f]
  have sa: "small_at (mem h) (haddr h) i ?L" by (rule flistsD(2) [OF f i])
  then have r: "ring (mem h) ?x ?L" by (simp add: small_at_def)
  note LG = fset_mem(1) [OF i, of Sm Rs Tr] and C = small_cells [OF i, of "haddr h"]
  have dL: "distinct ?L" using r by (simp add: ring_def)
  obtain y z m1 where y: "mem h (b + 16) = Some y" "mem h (b + 24) = Some z" "mem h (y + 24) = Some b" "mem h (z + 16) = Some b" "y \<noteq> b"
      "y = z \<longleftrightarrow> ?L = [b]" "unlink_between y z h = Some (h\<lparr>mem := m1\<rparr>)" "ring m1 ?x ?L'" "upd_in (mem h) m1 ({?x + 16, ?x + 24} \<union> body (mem h) (set ?L))"
      "\<And>p. p \<in> ?G \<Longrightarrow> m1 p = mem h p"
    by (rule ring_remove [OF g r LG C b]) blast
  have s: "mem h p = Some (32 + 8 * i)" if "p \<in> set ?L" for p using sa that by (simp add: small_at_def)
  have m1b: "m1 b = Some (32 + 8 * i)" using y(10) s [OF b] b LG by auto
  have ix: "ZEND_MM_BUCKET_INDEX (32 + 8 * i) = i" "ZEND_MM_SMALL_SIZE (32 + 8 * i)"
    using bucket_index [of _ i] i by (simp_all add: ZEND_MM_SMALL_SIZE_def ZEND_MM_MAX_SMALL_SIZE_def)
  have fr: "free_buckets (haddr h) (i * 2) = ?x + 16" "free_buckets (haddr h) (Suc (i * 2)) = ?x + 24" by (simp_all add: free_buckets_def heads)
  define fb where "fb = (if ?L = [b] then unset_bit i (free_bitmap h) else free_bitmap h)"
  define h' where "h' = h\<lparr>mem := m1, free_bitmap := fb\<rparr>"
  have run: "zend_mm_remove_from_free_list b h = Some h'"
  proof (cases "?L = [b]")
    case True
    then have "m1 (?x + 16) = Some ?x" "m1 (?x + 24) = Some ?x" using ring_ends [OF y(8)] by simp_all
    then show ?thesis using True y(1-7) m1b ix fr by (simp add: zend_mm_remove_from_free_list_def ld_def Let_def h'_def fb_def)
  next
    case False
    then show ?thesis using y(1-7) m1b ix by (simp add: zend_mm_remove_from_free_list_def ld_def Let_def h'_def fb_def)
  qed
  have L': "set ?L' \<subseteq> set ?L" by (rule set_remove1_subset)
  moreover have "m1 p = Some (32 + 8 * i)" if "p \<in> set ?L" for p using y(10) [of p] s [OF that] LG that by auto
  ultimately have si: "small_at m1 (haddr h) i ?L'" using y(8) unfolding small_at_def by blast
  have "flists h' (Sm(i := ?L')) Rs Tr"
  proof (rule flists_upd [OF f g subset_refl, of h' "{?x + 16, ?x + 24}" "set ?L"])
    fix j :: nat assume j: "j < 64"
    have "set (Sm j) \<inter> set ?L = {}" if "j \<noteq> i" by (rule flists_disjoint(1) [OF f j i that])
    then show "small_at (mem h') (haddr h) j ((Sm(i := ?L')) j) \<or> (Sm(i := ?L')) j = Sm j \<and> set (Sm j) \<inter> set ?L = {} \<and>
        {ZEND_MM_SMALL_FREE_BUCKET (haddr h) j + 16, ZEND_MM_SMALL_FREE_BUCKET (haddr h) j + 24} \<inter> {?x + 16, ?x + 24} = {}"
      using si other_buckets(1) [of j i "haddr h"] by (cases "j = i") (simp_all add: h'_def)
    have "set (tblocks (Tr j)) \<inter> set ?L = {}" using flists_disjoint(2) [OF f i j] by blast
    then show "tree_at (mem h') (large_free_buckets (haddr h) j) (Tr j) \<and> twf j 1 (Tr j) \<and> (\<forall>x\<in>tsizes (Tr j). 544 \<le> x \<and> 8 dvd x) \<and> distinct (tblocks (Tr j)) \<or>
      Tr j = Tr j \<and> set (tblocks (Tr j)) \<inter> set ?L = {} \<and> large_free_buckets (haddr h) j \<notin> {?x + 16, ?x + 24}" using other_buckets(3) [OF i] by blast
    show "set ((Sm(i := ?L')) j) \<inter> set Rs = {}" using flistsD(3) [OF f j] L' by auto
    show "set (tblocks (Tr j)) \<inter> set Rs = {}" by (rule flistsD(5) [OF f j])
  next
    show "rest_at (mem h') (haddr h) Rs \<and> rest_count h' = rest_large (mem h') Rs \<or> Rs = Rs \<and> rest_count h' = rest_count h \<and> set Rs \<inter> set ?L = {} \<and>
      {ZEND_MM_REST_BUCKET (haddr h) + 16, ZEND_MM_REST_BUCKET (haddr h) + 24} \<inter> {?x + 16, ?x + 24} = {}"
      using other_buckets(2) [OF i, of "haddr h"] flistsD(3) [OF f i] by (simp add: h'_def Int_commute)
  next
    fix j assume "bit (free_bitmap h') j"
    then have "bit (free_bitmap h) j" "?L = [b] \<Longrightarrow> j \<noteq> i" by (auto simp: h'_def fb_def bit_unset_bit_iff split: if_splits)
    moreover have "?L' \<noteq> []" if "?L \<noteq> [b]" using that b by (cases ?L) auto
    ultimately show "j < 64 \<and> (Sm(i := ?L')) j \<noteq> []" using flistsD(6) [OF f, of j] by auto
  next
    fix j show "bit (large_free_bitmap h') j \<longleftrightarrow> j < 64 \<and> Tr j \<noteq> Lf" using flistsD(9) [OF f] by (simp add: large_ok_def h'_def)
  next
    show "fset (Sm(i := ?L')) Rs Tr \<subseteq> ?G" using L' i by (auto simp: fset_def split: if_splits)
  qed (use y(9) C LG in \<open>simp_all add: h'_def\<close>)
  moreover have "fupd h h' ?G" by (rule fupdI [of _ _ "{?x + 16, ?x + 24}" "set ?L"]) (use y(9) C LG in \<open>simp_all add: h'_def\<close>)
  ultimately show ?thesis using run by blast
qed

lemma rest_large_remove:
  assumes "b \<in> set L" "\<And>p. p \<in> set L \<Longrightarrow> bsize m' p = bsize m p"
  shows "rest_large m' (remove1 b L) = rest_large m L - of_bool (544 \<le> bsize m b)"
proof -
  have "rest_large m' (remove1 b L) = rest_large m (remove1 b L)" unfolding rest_large_def
    by (rule arg_cong [of _ _ "\<lambda>xs. int (length xs)"], rule filter_cong) (use assms(2) set_remove1_subset in fastforce)+
  also have "\<dots> = rest_large m L - of_bool (544 \<le> bsize m b)" using assms(1) unfolding rest_large_def by (induction L) auto
  finally show ?thesis .
qed

text \<open>A block that has been taken out of the rest list.\<close>

lemma rest_unlinked:
  assumes f: "flists h Sm Rs Tr" and b: "b \<in> set Rs"
  obtains y z m1 where "mem h (b + 16) = Some y" "mem h (b + 24) = Some z" "mem h (y + 24) = Some b" "mem h (z + 16) = Some b" "y \<noteq> b"
    "unlink_between y z h = Some (h\<lparr>mem := m1\<rparr>)" "{y + 24, z + 16} \<subseteq> dom (mem h)" "m1 = unlink_mem y z (mem h)" "dom m1 = dom (mem h)"
    "m1 b = Some (bsize (mem h) b)" "544 \<le> bsize (mem h) b \<Longrightarrow> m1 (b + 32) = Some ZEND_MM_REST_BLOCK"
    "\<And>fb. (\<And>j. bit fb j \<Longrightarrow> bit (free_bitmap h) j) \<Longrightarrow> flists (h\<lparr>mem := m1, free_bitmap := fb, rest_count := rest_count h - of_bool (544 \<le> bsize (mem h) b)\<rparr>) Sm (remove1 b Rs) Tr"
    "\<And>fb rc. fupd h (h\<lparr>mem := m1, free_bitmap := fb, rest_count := rc\<rparr>) (fset Sm Rs Tr)"
proof -
  let ?G = "fset Sm Rs Tr" and ?x = "ZEND_MM_REST_BUCKET (haddr h)" and ?L' = "remove1 b Rs" and ?s = "bsize (mem h) b"
  note g = flistsD(1) [OF f]
  have ra: "rest_at (mem h) (haddr h) Rs" by (rule flistsD(7) [OF f])
  then have r: "ring (mem h) ?x Rs" by (simp add: rest_at_def)
  note LG = fset_mem(2) [of Rs Sm Tr] and C = rest_cells [of "haddr h"]
  obtain y z m1 where y: "mem h (b + 16) = Some y" "mem h (b + 24) = Some z" "mem h (y + 24) = Some b" "mem h (z + 16) = Some b" "y \<noteq> b"
      "y = z \<longleftrightarrow> Rs = [b]" "unlink_between y z h = Some (h\<lparr>mem := m1\<rparr>)" "ring m1 ?x ?L'" "upd_in (mem h) m1 ({?x + 16, ?x + 24} \<union> body (mem h) (set Rs))"
      "\<And>p. p \<in> ?G \<Longrightarrow> m1 p = mem h p" "\<And>p. p \<in> ?G \<Longrightarrow> 544 \<le> bsize (mem h) p \<Longrightarrow> m1 (p + 32) = mem h (p + 32)"
    by (rule ring_remove [OF g r LG C b]) blast
  note u = y(9)
  have dm: "{y + 24, z + 16} \<subseteq> dom (mem h)" using y(3,4) by auto
  then have "h\<lparr>mem := m1\<rparr> = h\<lparr>mem := unlink_mem y z (mem h)\<rparr>" using y(7) unlink_between_ok [OF dm] by simp
  then have m1: "m1 = unlink_mem y z (mem h)" using arg_cong [of _ _ mem] by fastforce
  have bG: "b \<in> ?G" using b LG by blast
  have m1b: "m1 b = Some ?s" using y(10) [OF bG] block_atD(1) [OF geoD(1) [OF g bG]] by simp
  have sz: "bsize m1 p = bsize (mem h) p" if "p \<in> ?G" for p using y(10) [OF that] by (simp add: bsize_def)
  have rb: "544 \<le> ?s \<Longrightarrow> m1 (b + 32) = Some ZEND_MM_REST_BLOCK" using y(11) [OF bG] ra b by (simp add: rest_at_def)
  have L': "set ?L' \<subseteq> set Rs" by (rule set_remove1_subset)
  have rl: "rest_large m1 ?L' = rest_large (mem h) Rs - of_bool (544 \<le> ?s)" by (rule rest_large_remove [OF b]) (use sz LG in blast)
  have "m1 (p + 32) = Some ZEND_MM_REST_BLOCK" if p: "p \<in> set Rs" "544 \<le> bsize m1 p" for p
  proof -
    have pG: "p \<in> ?G" using p(1) LG by blast
    then have s: "544 \<le> bsize (mem h) p" using p(2) sz by simp
    then show ?thesis using y(11) [OF pG] ra p(1) by (simp add: rest_at_def)
  qed
  then have rn: "rest_at m1 (haddr h) ?L'" using y(8) L' by (auto simp: rest_at_def)
  have fl: "flists (h\<lparr>mem := m1, free_bitmap := fb, rest_count := rest_count h - of_bool (544 \<le> ?s)\<rparr>) Sm ?L' Tr" (is "flists ?h' _ _ _")
    if fb: "\<And>j. bit fb j \<Longrightarrow> bit (free_bitmap h) j" for fb
  proof (rule flists_upd [OF f g subset_refl, of ?h' "{?x + 16, ?x + 24}" "set Rs"])
    fix j :: nat assume j: "j < 64"
    show "small_at (mem ?h') (haddr h) j (Sm j) \<or> Sm j = Sm j \<and> set (Sm j) \<inter> set Rs = {} \<and>
        {ZEND_MM_SMALL_FREE_BUCKET (haddr h) j + 16, ZEND_MM_SMALL_FREE_BUCKET (haddr h) j + 24} \<inter> {?x + 16, ?x + 24} = {}"
      using other_buckets(2) [OF j, of "haddr h"] flistsD(3) [OF f j] by (simp add: Int_commute)
    show "tree_at (mem ?h') (large_free_buckets (haddr h) j) (Tr j) \<and> twf j 1 (Tr j) \<and> (\<forall>x\<in>tsizes (Tr j). 544 \<le> x \<and> 8 dvd x) \<and> distinct (tblocks (Tr j)) \<or>
      Tr j = Tr j \<and> set (tblocks (Tr j)) \<inter> set Rs = {} \<and> large_free_buckets (haddr h) j \<notin> {?x + 16, ?x + 24}" using other_buckets(4) [OF j] flistsD(5) [OF f j] by blast
    show "set (Sm j) \<inter> set ?L' = {}" using flistsD(3) [OF f j] L' by blast
    show "set (tblocks (Tr j)) \<inter> set ?L' = {}" using flistsD(5) [OF f j] L' by blast
  next
    show "rest_at (mem ?h') (haddr h) ?L' \<and> rest_count ?h' = rest_large (mem ?h') ?L' \<or> ?L' = Rs \<and> rest_count ?h' = rest_count h \<and> set Rs \<inter> set Rs = {} \<and>
      {ZEND_MM_REST_BUCKET (haddr h) + 16, ZEND_MM_REST_BUCKET (haddr h) + 24} \<inter> {?x + 16, ?x + 24} = {}"
      using rn rl flistsD(8) [OF f] by simp
  next
    fix j show "bit (large_free_bitmap ?h') j \<longleftrightarrow> j < 64 \<and> Tr j \<noteq> Lf" using flistsD(9) [OF f] by (simp add: large_ok_def)
  next
    fix j assume "bit (free_bitmap ?h') j"
    then show "j < 64 \<and> Sm j \<noteq> []" using fb [of j] flistsD(6) [OF f, of j] by simp
  next
    show "fset Sm ?L' Tr \<subseteq> ?G" using L' by (auto simp: fset_def)
  qed (use u C LG in simp_all)
  have fu: "fupd h (h\<lparr>mem := m1, free_bitmap := fb, rest_count := rc\<rparr>) ?G" for fb rc
    by (rule fupdI [of _ _ "{?x + 16, ?x + 24}" "set Rs"]) (use u C LG in simp_all)
  have "dom m1 = dom (mem h)" using u by (simp add: upd_in_def)
  then show ?thesis using that [OF y(1-5,7) dm m1 _ m1b rb fl fu] by blast
qed

lemma remove_rest_ok:
  assumes f: "flists h Sm Rs Tr" and b: "b \<in> set Rs"
  shows "\<exists>h'. zend_mm_remove_from_free_list b h = Some h' \<and> flists h' Sm (remove1 b Rs) Tr \<and> fupd h h' (fset Sm Rs Tr)"
proof -
  let ?G = "fset Sm Rs Tr" and ?s = "bsize (mem h) b"
  obtain y z m1 where y: "mem h (b + 16) = Some y" "mem h (b + 24) = Some z" "mem h (y + 24) = Some b" "mem h (z + 16) = Some b" "y \<noteq> b"
      "unlink_between y z h = Some (h\<lparr>mem := m1\<rparr>)" "dom m1 = dom (mem h)" "m1 b = Some ?s" "544 \<le> ?s \<Longrightarrow> m1 (b + 32) = Some ZEND_MM_REST_BLOCK"
      "\<And>fb. (\<And>j. bit fb j \<Longrightarrow> bit (free_bitmap h) j) \<Longrightarrow> flists (h\<lparr>mem := m1, free_bitmap := fb, rest_count := rest_count h - of_bool (544 \<le> ?s)\<rparr>) Sm (remove1 b Rs) Tr"
      "\<And>fb rc. fupd h (h\<lparr>mem := m1, free_bitmap := fb, rest_count := rc\<rparr>) ?G"
    by (rule rest_unlinked [OF f b]) blast
  have bb: "block_at (mem h) b" by (rule geoD(1) [OF flistsD(1) [OF f]]) (use b in \<open>auto simp: fset_def\<close>)
  have "\<exists>fb. zend_mm_remove_from_free_list b h = Some (h\<lparr>mem := m1, free_bitmap := fb, rest_count := rest_count h - of_bool (544 \<le> ?s)\<rparr>) \<and>
    (\<forall>j. bit fb j \<longrightarrow> bit (free_bitmap h) j)"
  proof (cases "ZEND_MM_SMALL_SIZE ?s")
    case True
    obtain i where i: "i < 64" "ZEND_MM_BUCKET_INDEX ?s = i" by (rule small_size [OF bb True])
    have s: "\<not> 544 \<le> ?s" using True by (simp add: ZEND_MM_SMALL_SIZE_def ZEND_MM_MAX_SMALL_SIZE_def)
    have "free_buckets (haddr h) (i * 2) \<in> dom m1" "free_buckets (haddr h) (Suc (i * 2)) \<in> dom m1" unfolding y(7)
      using ring_dom [OF flistsD(2) [OF f i(1), unfolded small_at_def, THEN conjunct1], of "ZEND_MM_SMALL_FREE_BUCKET (haddr h) i"] by (simp_all add: free_buckets_def heads ac_simps)
    then obtain v w where vw: "m1 (free_buckets (haddr h) (i * 2)) = Some v" "m1 (free_buckets (haddr h) (Suc (i * 2))) = Some w" by blast
    show ?thesis
      by (rule exI [of _ "if y = z \<and> v = w then unset_bit i (free_bitmap h) else free_bitmap h"])
        (use y(1-6,8) True i(2) s vw in \<open>auto simp: zend_mm_remove_from_free_list_def ld_def Let_def bit_unset_bit_iff\<close>)
  next
    case False
    then have s: "544 \<le> ?s" by (simp add: ZEND_MM_SMALL_SIZE_def ZEND_MM_MAX_SMALL_SIZE_def)
    then show ?thesis using y(1-6,8) y(9) False by (intro exI [of _ "free_bitmap h"]) (simp add: zend_mm_remove_from_free_list_def ld_def)
  qed
  then show ?thesis using y(10,11) by blast
qed

lemma remove_large_ok:
  assumes f: "flists h Sm Rs Tr" and i: "i < 64" and b: "b \<in> set (tblocks (Tr i))"
  shows "\<exists>h' t'. zend_mm_remove_from_free_list b h = Some h' \<and> flists h' Sm Rs (Tr(i := t')) \<and> fupd h h' (fset Sm Rs Tr) \<and> set (tblocks t') = set (tblocks (Tr i)) - {b}"
proof -
  let ?G = "fset Sm Rs Tr" and ?a = "large_free_buckets (haddr h) i" and ?t = "Tr i" and ?s = "bsize (mem h) b"
  note g = flistsD(1) [OF f] and lg = flistsD(9) [OF f]
  note B = tree_block [OF lg i b]
  have bG: "b \<in> ?G" using b fset_mem(3) [OF i] by blast
  have P: "set (tblocks ?t) \<subseteq> ?G" "\<And>p. p \<in> set (tblocks ?t) \<Longrightarrow> 544 \<le> bsize (mem h) p" using fset_mem(3) [OF i] tree_block(2) [OF lg i] by blast+
  note R = large_region [OF g P]
  note wf = large_okD [OF lg i]
  obtain s ps where n: "(s, ps) \<in> tnodes ?t" "b \<in> set ps" using tblocks_node [OF b] by blast
  have s: "s = ?s" using tree_at_nodes [OF wf(1) n(1)] n(2) by (simp add: bsize_def)
  have aP: "?a \<notin> area (set (tblocks ?t))" using R(4) tree_cell [OF i] by blast
  have ib: "insert b (set (tblocks ?t)) = set (tblocks ?t)" using b by blast
  obtain m' t' where t': "zend_mm_remove_from_free_list b h = Some (after_remove ?a ?s t' m' h)" "tree_at m' ?a t'" "twf i 1 t'"
      "add_mset b (mset (tblocks t')) = mset (tblocks ?t)" "tsizes t' \<subseteq> tsizes ?t" "upd_in (mem h) m' (insert ?a (links (set (tblocks ?t))))"
    using remove_tree_ok [OF wf(1,2) n flistsD(4) [OF f i] R(1) aP] B(2,3) R(5) geoD(4,5) [OF g] unfolding s by auto
  define lb where "lb = (if t' = Lf then unset_bit i (large_free_bitmap h) else large_free_bitmap h)"
  have h': "after_remove ?a ?s t' m' h = h\<lparr>mem := m', large_free_bitmap := lb\<rparr>" using B(3) by (simp add: after_remove_def lb_def)
  have u: "upd_in (mem h) m' (insert ?a (body (mem h) (set (tblocks ?t))))" by (rule upd_in_mono [OF t'(6)]) (use R(2) in blast)
  have st: "set (tblocks t') = set (tblocks ?t) - {b}" "distinct (tblocks t')"
  proof -
    have "mset (b # tblocks t') = mset (tblocks ?t)" using t'(4) by simp
    then have "distinct (b # tblocks t')" "set (b # tblocks t') = set (tblocks ?t)" using flistsD(4) [OF f i] by (metis mset_eq_imp_distinct_iff, metis mset_eq_setD)
    then show "set (tblocks t') = set (tblocks ?t) - {b}" "distinct (tblocks t')" by auto
  qed
  have "flists (h\<lparr>mem := m', large_free_bitmap := lb\<rparr>) Sm Rs (Tr(i := t'))"
  proof (rule flists_tree [OF f g subset_refl i bG B(2)])
    show "zend_mm_high_bit ?s = i" using B(3) by simp
    show "b \<notin> set Rs" using flistsD(5) [OF f i] b by blast
    show "upd_in (mem h) m' (insert ?a (body (mem h) (insert b (set (tblocks ?t)))))" using u by (simp only: ib)
    show "\<forall>x\<in>tsizes t'. 544 \<le> x \<and> 8 dvd x" using t'(5) wf(3) by blast
    show "bit lb j \<longleftrightarrow> j < 64 \<and> (Tr(i := t')) j \<noteq> Lf" for j
      using lg i wf(4) b by (cases "?t = Lf") (auto simp: lb_def large_ok_def bit_unset_bit_iff)
  qed (use t' st in auto)
  moreover have "fupd h (h\<lparr>mem := m', large_free_bitmap := lb\<rparr>) ?G"
    by (rule fupdI [of _ _ "{?a}" "set (tblocks ?t)"]) (use u P(1) tree_cell [OF i] in simp_all)
  ultimately show ?thesis using t'(1) st(1) unfolding h' by blast
qed

text \<open>The two operations, whatever the size and the list.\<close>

lemma add_ok:
  assumes f: "flists h Sm Rs Tr" and b: "b \<notin> fset Sm Rs Tr" and g: "geo h (insert b (fset Sm Rs Tr))"
  shows "\<exists>h' Sm' Tr'. zend_mm_add_to_free_list b h = Some h' \<and> flists h' Sm' Rs Tr' \<and> fset Sm' Rs Tr' = insert b (fset Sm Rs Tr) \<and> fupd h h' (insert b (fset Sm Rs Tr))"
proof (cases "ZEND_MM_SMALL_SIZE (bsize (mem h) b)")
  case True
  obtain h' i where "zend_mm_add_to_free_list b h = Some h'" "i < 64" "flists h' (Sm(i := b # Sm i)) Rs Tr" "fupd h h' (insert b (fset Sm Rs Tr))"
    using add_small_ok [OF f b g True] by blast
  moreover have "fset (Sm(i := b # Sm i)) Rs Tr = insert b (fset Sm Rs Tr)" if "i < 64" for i
    using that by (auto simp: fset_def split: if_splits)
  ultimately show ?thesis by blast
next
  case False
  obtain h' i where h': "zend_mm_add_to_free_list b h = Some h'" "i < 64" "flists h' Sm Rs (Tr(i := tins i (bsize (mem h) b) b (Tr i)))" "fupd h h' (insert b (fset Sm Rs Tr))"
    using add_large_ok [OF f b g False] by blast
  have "mset (tblocks (tins i (bsize (mem h) b) b (Tr i))) = add_mset b (mset (tblocks (Tr i)))" by (rule tins_blocks [OF large_okD(2) [OF flistsD(9) [OF f] h'(2)]])
  then have "set (tblocks (tins i (bsize (mem h) b) b (Tr i))) = insert b (set (tblocks (Tr i)))" by (metis set_mset_add_mset_insert set_mset_mset)
  then have "fset Sm Rs (Tr(i := tins i (bsize (mem h) b) b (Tr i))) = insert b (fset Sm Rs Tr)" using h'(2) by (auto simp: fset_def split: if_splits)
  then show ?thesis using h' by blast
qed

lemma remove_ok:
  assumes f: "flists h Sm Rs Tr" and b: "b \<in> fset Sm Rs Tr"
  shows "\<exists>h' Sm' Rs' Tr'. zend_mm_remove_from_free_list b h = Some h' \<and> flists h' Sm' Rs' Tr' \<and> fset Sm' Rs' Tr' = fset Sm Rs Tr - {b} \<and> fupd h h' (fset Sm Rs Tr)"
proof -
  consider (small) i where "i < 64" "b \<in> set (Sm i)" | (rest) "b \<in> set Rs" | (tree) i where "i < 64" "b \<in> set (tblocks (Tr i))"
    using b unfolding fset_def by blast
  then show ?thesis
  proof cases
    case small
    note h' = remove_small_ok [OF f small]
    have "distinct (Sm i)" using flistsD(2) [OF f small(1)] by (simp add: small_at_def ring_def)
    then have "set (remove1 b (Sm i)) = set (Sm i) - {b}" by (rule set_remove1_eq)
    then have "fset (Sm(i := remove1 b (Sm i))) Rs Tr = fset Sm Rs Tr - {b}"
      by (rule fset_diff(1) [OF small(1)]) (use flists_disjoint(1,2) [OF f small(1)] flistsD(3) [OF f small(1)] small(2) in blast)+
    then show ?thesis using h' by metis
  next
    case rest
    note h' = remove_rest_ok [OF f rest]
    have "distinct Rs" using flistsD(7) [OF f] by (simp add: rest_at_def ring_def)
    then have "set (remove1 b Rs) = set Rs - {b}" by (rule set_remove1_eq)
    then have "fset Sm (remove1 b Rs) Tr = fset Sm Rs Tr - {b}" by (rule fset_diff(2)) (use flistsD(3,5) [OF f] rest in blast)+
    then show ?thesis using h' by metis
  next
    case tree
    obtain h' t' where h': "zend_mm_remove_from_free_list b h = Some h'" "flists h' Sm Rs (Tr(i := t'))" "fupd h h' (fset Sm Rs Tr)" "set (tblocks t') = set (tblocks (Tr i)) - {b}"
      using remove_large_ok [OF f tree] by blast
    have "fset Sm Rs (Tr(i := t')) = fset Sm Rs Tr - {b}"
      by (rule fset_diff(3) [where Tr = Tr, OF tree(1) h'(4)]) (use flists_disjoint(3) [OF f _ tree(1)] flistsD(5) [OF f tree(1)] flists_disjoint(2) [OF f _ tree(1)] tree(2) in blast)+
    then show ?thesis using h' by metis
  qed
qed

section \<open>The rest list\<close>

lemma fupd_fields: "fupd h h' P \<Longrightarrow> haddr h' = haddr h \<and> upd_in (mem h) (mem h') (heap_arrays (haddr h) \<union> body (mem h) P)"
  unfolding fupd_def by auto

lemma fupd_geo:
  assumes "geo h G" "fupd h h' P" "P \<subseteq> G"
  shows "geo h' G" "\<And>p. p \<in> G \<Longrightarrow> mem h' p = mem h p" "\<And>p. p \<in> G \<Longrightarrow> bsize (mem h') p = bsize (mem h) p" "\<And>Q. Q \<subseteq> G \<Longrightarrow> body (mem h') Q = body (mem h) Q"
proof -
  note u = fupd_fields [OF assms(2), THEN conjunct2] and a = fupd_fields [OF assms(2), THEN conjunct1]
  note k = geo_upd [OF assms(1) u subset_refl assms(3) a]
  show "geo h' G" "\<And>p. p \<in> G \<Longrightarrow> mem h' p = mem h p" "\<And>p. p \<in> G \<Longrightarrow> bsize (mem h') p = bsize (mem h) p" using k by blast+
  show "body (mem h') Q = body (mem h) Q" if "Q \<subseteq> G" for Q unfolding body_def by (rule SUP_cong) (use k(3) that in auto)
qed

lemma fupd_refl: "fupd h h P"
  by (rule fupdI [of _ _ "{}" "{}"]) simp_all

lemma fupd_trans:
  assumes "geo h G" "fupd h h1 P" "P \<subseteq> G" "fupd h1 h2 Q" "Q \<subseteq> G"
  shows "fupd h h2 (P \<union> Q)"
proof -
  note u1 = fupd_fields [OF assms(2)] and u2 = fupd_fields [OF assms(4)]
  have "upd_in (mem h1) (mem h2) (heap_arrays (haddr h) \<union> body (mem h) Q)" using u1 u2 fupd_geo(4) [OF assms(1-3,5)] by simp
  then have "upd_in (mem h) (mem h2) (heap_arrays (haddr h) \<union> body (mem h) (P \<union> Q))"
    by (rule upd_in_mono [OF upd_in_trans [OF u1 [THEN conjunct2]]]) (auto simp: body_def)
  moreover have "\<exists>m fb lb rc. h2 = h\<lparr>mem := m, free_bitmap := fb, large_free_bitmap := lb, rest_count := rc\<rparr>"
    using assms(2,4) unfolding fupd_def by (elim exE conjE) (simp, intro exI, rule refl)
  ultimately show ?thesis unfolding fupd_def by blast
qed

lemma rest_large_Cons: "rest_large m (b # L) = of_bool (544 \<le> bsize m b) + rest_large m L"
  by (simp add: rest_large_def)

text \<open>The loop that makes room in the rest list ends, and moves blocks to the other lists.\<close>

lemma rest_overflow_ok:
  assumes "flists h Sm Rs Tr"
  shows "\<exists>h' Sm' Rs' Tr'. rest_overflow_loop h = Some h' \<and> flists h' Sm' Rs' Tr' \<and> fset Sm' Rs' Tr' = fset Sm Rs Tr \<and> fupd h h' (fset Sm Rs Tr) \<and> rest_count h' < ZEND_MM_MAX_REST_BLOCKS"
  using assms
proof (induction "length Rs" arbitrary: h Sm Rs Tr)
  case 0
  then have "rest_count h = 0" using flistsD(8) [OF "0.prems"] by (simp add: rest_large_def)
  then show ?case using 0 fupd_refl by (subst rest_overflow_loop.simps) (auto simp: ZEND_MM_MAX_REST_BLOCKS_def)
next
  case (Suc n)
  then obtain b L where Rs: "Rs = b # L" by (cases Rs) auto
  note f = Suc.prems
  let ?G = "fset Sm Rs Tr" and ?s = "bsize (mem h) b"
  show ?case
  proof (cases "rest_count h \<ge> ZEND_MM_MAX_REST_BLOCKS")
    case False
    then show ?thesis using f fupd_refl by (subst rest_overflow_loop.simps) auto
  next
    case True
    have b: "b \<in> set Rs" using Rs by simp
    obtain y z m1 where y: "mem h (b + 16) = Some y" "mem h (b + 24) = Some z" "{y + 24, z + 16} \<subseteq> dom (mem h)" "m1 = unlink_mem y z (mem h)"
        "\<And>fb. (\<And>j. bit fb j \<Longrightarrow> bit (free_bitmap h) j) \<Longrightarrow> flists (h\<lparr>mem := m1, free_bitmap := fb, rest_count := rest_count h - of_bool (544 \<le> ?s)\<rparr>) Sm (remove1 b Rs) Tr"
        "\<And>fb rc. fupd h (h\<lparr>mem := m1, free_bitmap := fb, rest_count := rc\<rparr>) ?G"
      by (rule rest_unlinked [OF f b]) blast
    let ?h1 = "h\<lparr>mem := m1, rest_count := rest_count h - of_bool (544 \<le> ?s)\<rparr>"
    have f1: "flists ?h1 Sm L Tr" using y(5) [of "free_bitmap h"] Rs by simp
    have u1: "fupd h ?h1 ?G" using y(6) [of _ "free_bitmap h"] by simp
    have d: "distinct Rs" using flistsD(7) [OF f] by (simp add: rest_at_def ring_def)
    have G: "?G = insert b (fset Sm L Tr)" unfolding Rs fset_def by auto
    have bn: "b \<notin> fset Sm L Tr"
    proof -
      have "set L = set Rs - {b}" using d Rs by auto
      then have "fset Sm L Tr = ?G - {b}" by (rule fset_diff(2)) (use flistsD(3,5) [OF f] b in blast)+
      then show ?thesis by blast
    qed
    note g = flistsD(1) [OF f]
    have g1: "geo ?h1 (insert b (fset Sm L Tr))" using fupd_geo(1) [OF g u1 subset_refl] unfolding G .
    obtain h2 Sm2 Tr2 where h2: "zend_mm_add_to_free_list b ?h1 = Some h2" "flists h2 Sm2 L Tr2" "fset Sm2 L Tr2 = ?G" "fupd ?h1 h2 ?G"
      using add_ok [OF f1 bn g1] unfolding G [symmetric] by blast
    obtain h' Sm' Rs' Tr' where h': "rest_overflow_loop h2 = Some h'" "flists h' Sm' Rs' Tr'" "fset Sm' Rs' Tr' = ?G" "fupd h2 h' ?G" "rest_count h' < ZEND_MM_MAX_REST_BLOCKS"
      using Suc.hyps(1) [OF _ h2(2)] Suc.hyps(2) Rs unfolding h2(3) by auto
    have ends: "mem h (rest_buckets (haddr h) 1) = Some b"
      using ring_ends [of "mem h" "ZEND_MM_REST_BUCKET (haddr h)" Rs] flistsD(7) [OF f] Rs by (simp add: rest_at_def rest_buckets_def heads ac_simps)
    have mb: "mem h b = Some ?s" using block_atD(1) [OF geoD(1) [OF g]] unfolding G by blast
    have "unlink_between y z (if \<not> ZEND_MM_SMALL_SIZE ?s then h\<lparr>rest_count := rest_count h - 1\<rparr> else h) = Some ?h1"
      using unlink_between_ok [of y z h] unlink_between_ok [of y z "h\<lparr>rest_count := rest_count h - 1\<rparr>"] y(3,4)
      by (auto simp: ZEND_MM_SMALL_SIZE_def ZEND_MM_MAX_SMALL_SIZE_def)
    then have "rest_overflow_loop h = Some h'" using True ends mb y(1,2) h2(1) h'(1) by (subst rest_overflow_loop.simps) (simp add: ld_def)
    moreover have "fupd h h2 ?G" using fupd_trans [OF g u1 subset_refl h2(4) subset_refl] by simp
    then have "fupd h h' ?G" using fupd_trans [OF g _ subset_refl h'(4) subset_refl] by simp
    ultimately show ?thesis using h' by blast
  qed
qed

lemma add_rest_ok:
  assumes f: "flists h Sm Rs Tr" and b: "b \<notin> fset Sm Rs Tr" and g: "geo h (insert b (fset Sm Rs Tr))"
  shows "\<exists>h' Sm' Rs' Tr'. zend_mm_add_to_rest_list b h = Some h' \<and> flists h' Sm' Rs' Tr' \<and> fset Sm' Rs' Tr' = insert b (fset Sm Rs Tr) \<and>
    fupd h h' (insert b (fset Sm Rs Tr))"
proof -
  let ?G = "insert b (fset Sm Rs Tr)"
  obtain h1 Sm1 Rs1 Tr1 where h1: "rest_overflow_loop h = Some h1" "flists h1 Sm1 Rs1 Tr1" "fset Sm1 Rs1 Tr1 = fset Sm Rs Tr" "fupd h h1 (fset Sm Rs Tr)"
    using rest_overflow_ok [OF f] by blast
  have FG: "fset Sm Rs Tr \<subseteq> ?G" by blast
  note k = fupd_geo [OF g h1(4) FG]
  have b1: "b \<notin> fset Sm1 Rs1 Tr1" "fset Sm1 Rs1 Tr1 \<subseteq> ?G" using b h1(3) by auto
  note g1 = k(1)
  note f1 = h1(2)
  note bb = block_atD [OF geoD(1) [OF g1 insertI1]]
  let ?s = "bsize (mem h1) b" and ?x = "ZEND_MM_REST_BUCKET (haddr h1)"
  let ?P = "insert b (set Rs1)" and ?C = "{?x + 16, ?x + 24}"
  define h2 where "h2 = (if 544 \<le> ?s then h1\<lparr>mem := (mem h1)(b + 32 \<mapsto> ZEND_MM_REST_BLOCK), rest_count := rest_count h1 + 1\<rparr> else h1)"
  have LG: "set Rs1 \<subseteq> ?G" "?P \<subseteq> ?G" using fset_mem(2) b1(2) by blast+
  note C = rest_cells [of "haddr h1"]
  have u1: "upd_in (mem h1) (mem h2) ({} \<union> body (mem h1) {b})" using bb(5) [of 32] by (auto simp: h2_def upd_in_def body_def)
  have a2: "haddr h2 = haddr h1" by (simp add: h2_def)
  note k2 = geo_upd [OF g1 u1 empty_subsetI _ a2]
  have g2: "geo h2 ?G" "\<And>p. p \<in> ?G \<Longrightarrow> mem h2 p = mem h1 p" "\<And>p. p \<in> ?G \<Longrightarrow> bsize (mem h2) p = bsize (mem h1) p" using k2 by blast+
  have ra: "rest_at (mem h1) (haddr h1) Rs1" by (rule flistsD(7) [OF f1])
  then have "ring (mem h1) ?x Rs1" by (simp add: rest_at_def)
  have bR: "b \<notin> set Rs1" using b1(1) fset_mem(2) by blast
  then have r: "ring (mem h2) ?x Rs1" using ring_kept [OF g1 u1 empty_subsetI _ _ LG(1)] \<open>ring (mem h1) ?x Rs1\<close> C by auto
  define m' where "m' = link_mem b (last (?x # Rs1)) ?x (mem h2)"
  define h' where "h' = h2\<lparr>mem := m'\<rparr>"
  have xL: "noclash (insert ?x ?P)" "?x \<notin> ?P" using noclash_bucket [OF g1 LG(2) C] by blast+
  have r': "ring m' ?x (Rs1 @ [b])" using ring_insert [of "mem h2" ?x Rs1 "[]" b] r xL bR by (simp add: m'_def insert_commute)
  have la: "last (?x # Rs1) \<in> set (?x # Rs1)" by (rule last_in_set) simp
  have d2: "dom (mem h2) = dom (mem h1)" using u1 by (simp add: upd_in_def)
  have bd: "p + 16 \<in> body (mem h1) ?P \<and> p + 24 \<in> body (mem h1) ?P" if "p \<in> ?P" for p
  proof -
    have "p \<in> ?G" using that LG(2) by blast
    then have "32 \<le> bsize (mem h1) p" by (rule block_atD(2) [OF geoD(1) [OF g1]])
    then show ?thesis using bodyI [OF that] by simp
  qed
  have dm: "{b + 16, b + 24, last (?x # Rs1) + 24, ?x + 16} \<subseteq> dom (mem h2)"
    using bb(2) bb(5) [of 16] bb(5) [of 24] ring_dom [OF r la] ring_dom [OF r, of ?x] unfolding d2 by simp
  have cells: "{b + 16, b + 24, last (?x # Rs1) + 24, ?x + 16} \<subseteq> ?C \<union> body (mem h1) ?P" using la bd by auto
  have "upd_in (mem h2) m' (?C \<union> body (mem h1) ?P)" using dm cells by (auto simp: upd_in_def m'_def link_mem_def)
  then have u: "upd_in (mem h1) (mem h') (?C \<union> body (mem h1) ?P)" 
  proof -
    assume v: "upd_in (mem h2) m' (?C \<union> body (mem h1) ?P)"
    show ?thesis using upd_in_mono [OF upd_in_trans [OF u1 v], of "?C \<union> body (mem h1) ?P"] by (auto simp: h'_def body_def)
  qed
  have mp: "m' (p + 32) = mem h2 (p + 32)" if p: "p \<in> ?P" "544 \<le> bsize (mem h1) p" for p
  proof -
    have pG: "p \<in> ?G" using p(1) LG(2) by blast
    have "p + 32 \<noteq> q" if q: "q \<in> {b + 16, b + 24, last (?x # Rs1) + 24, ?x + 16}" for q
    proof (cases "q \<in> ?C")
      case True then show ?thesis using geoD(2) [OF g1 pG, of "p + 32"] p(2) C by auto
    next
      case False
      then obtain w where w: "w \<in> ?P" "q = w + 16 \<or> q = w + 24" using q la by auto
      then have "w \<in> ?G" using LG(2) by blast
      then show ?thesis using geoD(3) [OF g1 pG, of w] block_atD(2) [OF geoD(1) [OF g1, of w]] p w by auto
    qed
    then show ?thesis by (simp add: m'_def link_mem_def)
  qed
  note k' = geo_upd [OF g1 u C LG(2)]
  have sz: "bsize m' p = bsize (mem h1) p" if "p \<in> ?G" for p using k'(3) [OF _ that] by (simp add: h'_def a2)
  have rn: "rest_at m' (haddr h1) (Rs1 @ [b])" unfolding rest_at_def
  proof (intro conjI ballI impI)
    fix p assume p: "p \<in> set (Rs1 @ [b])" "544 \<le> bsize m' p"
    then have p1: "p \<in> ?P" "544 \<le> bsize (mem h1) p" using sz [of p] LG(2) by auto
    show "m' (p + 32) = Some ZEND_MM_REST_BLOCK"
    proof (cases "p = b")
      case True then show ?thesis using mp [OF p1] p1(2) by (simp add: h2_def)
    next
      case False
      then have "p \<in> set Rs1" "p \<in> ?G" using p(1) LG(1) by auto
      then show ?thesis using mp [OF p1] block_kept [OF g1 u1 empty_subsetI _ \<open>p \<in> ?G\<close>, of 32] False ra p1(2) by (simp add: rest_at_def)
    qed
  qed (rule r')
  have rl: "rest_count h' = rest_large m' (Rs1 @ [b])"
  proof -
    have "filter (\<lambda>p. 544 \<le> bsize m' p) Rs1 = filter (\<lambda>p. 544 \<le> bsize (mem h1) p) Rs1" by (rule filter_cong) (use sz LG(1) in auto)
    then show ?thesis using flistsD(8) [OF f1] sz [of b] by (simp add: rest_large_def h'_def h2_def)
  qed
  have "mem h1 (rest_buckets (haddr h1) 0) = Some (last (?x # Rs1))" using ring_ends [of "mem h1" ?x Rs1] ra by (simp add: rest_at_def rest_buckets_def heads ac_simps)
  then have e1: "mem h2 (rest_buckets (haddr h1) 0) = Some (last (?x # Rs1))"
    using array_kept [OF g1 u1 _ , of "?x + 16"] C by (simp add: rest_buckets_def heads ac_simps)
  have e2: "mem h2 (last (?x # Rs1) + 24) = Some ?x" using r ring_split [of "mem h2" ?x Rs1 "[]"] by (simp add: ring_def)
  have run: "zend_mm_add_to_rest_list b h = Some h'"
    using h1(1) bb(1) bb(5) [of 32] e1 e2 link_between_ok [OF dm]
    by (cases "544 \<le> ?s") (simp_all add: zend_mm_add_to_rest_list_def ld_def ZEND_MM_SMALL_SIZE_def ZEND_MM_MAX_SMALL_SIZE_def h2_def h'_def m'_def del: last.simps)
  have F: "fset Sm1 (Rs1 @ [b]) Tr1 = ?G" using h1(3) by (auto simp: fset_def)
  have "flists h' Sm1 (Rs1 @ [b]) Tr1"
  proof (rule flists_upd [OF f1 g1 b1(2) u C LG(2)])
    fix j :: nat assume j: "j < 64"
    have sj: "set (Sm1 j) \<inter> ?P = {}" using flistsD(3) [OF f1 j] b1(1) fset_mem(1) [OF j, of Sm1 Rs1 Tr1] by auto
    then show "small_at (mem h') (haddr h1) j (Sm1 j) \<or> Sm1 j = Sm1 j \<and> set (Sm1 j) \<inter> ?P = {} \<and>
        {ZEND_MM_SMALL_FREE_BUCKET (haddr h1) j + 16, ZEND_MM_SMALL_FREE_BUCKET (haddr h1) j + 24} \<inter> ?C = {}"
      using other_buckets(2) [OF j, of "haddr h1"] by (simp add: Int_commute)
    have tj: "set (tblocks (Tr1 j)) \<inter> ?P = {}" using flistsD(5) [OF f1 j] b1(1) fset_mem(3) [OF j, of Tr1 Sm1 Rs1] by auto
    then show "tree_at (mem h') (large_free_buckets (haddr h1) j) (Tr1 j) \<and> twf j 1 (Tr1 j) \<and> (\<forall>x\<in>tsizes (Tr1 j). 544 \<le> x \<and> 8 dvd x) \<and> distinct (tblocks (Tr1 j)) \<or>
      Tr1 j = Tr1 j \<and> set (tblocks (Tr1 j)) \<inter> ?P = {} \<and> large_free_buckets (haddr h1) j \<notin> ?C" using other_buckets(4) [OF j] by blast
    show "set (Sm1 j) \<inter> set (Rs1 @ [b]) = {}" using sj by auto
    show "set (tblocks (Tr1 j)) \<inter> set (Rs1 @ [b]) = {}" using tj by auto
  next
    show "rest_at (mem h') (haddr h1) (Rs1 @ [b]) \<and> rest_count h' = rest_large (mem h') (Rs1 @ [b]) \<or> Rs1 @ [b] = Rs1 \<and> rest_count h' = rest_count h1 \<and> set Rs1 \<inter> ?P = {} \<and>
      {ZEND_MM_REST_BUCKET (haddr h1) + 16, ZEND_MM_REST_BUCKET (haddr h1) + 24} \<inter> ?C = {}" using rn rl by (simp add: h'_def)
  next
    fix j show "bit (large_free_bitmap h') j \<longleftrightarrow> j < 64 \<and> Tr1 j \<noteq> Lf" using flistsD(9) [OF f1] by (simp add: large_ok_def h'_def h2_def)
  next
    fix j assume "bit (free_bitmap h') j"
    then show "j < 64 \<and> Sm1 j \<noteq> []" using flistsD(6) [OF f1, of j] by (simp add: h'_def h2_def split: if_splits)
  next
    show "fset Sm1 (Rs1 @ [b]) Tr1 \<subseteq> ?G" using F by blast
  qed (simp add: h'_def h2_def)
  moreover have "fupd h1 h' ?G" by (rule fupdI [OF u C LG(2)]) (simp add: h'_def h2_def)
  then have "fupd h h' ?G" using fupd_trans [OF g h1(4) FG _ subset_refl] FG by (simp add: sup.absorb2)
  ultimately show ?thesis using run F by blast
qed

end
