(* ===== verification/Zend_Mm_Ops.thy ===== *)
theory Zend_Mm_Ops
  imports Zend_Mm
begin

unbundle bit_operations_syntax

text \<open>
  The operations of the memory manager: allocation, release, resizing, the cache of small blocks, segments, start and end of a request.

  The storage behind the segments (\<^verbatim>\<open>malloc\<close>, \<^verbatim>\<open>mmap\<close> and the like) is a parameter: asked for a number of bytes, with the memory in use, it refuses or gives an address
  and what the new memory holds. A resizing of a segment by the storage is a parameter of the same kind.

  The heap structure lies outside of the segments (\<^verbatim>\<open>internal\<close> is 0), \<^verbatim>\<open>use_zend_alloc\<close> is 1, and signals are not part of the model.

  An operation that ends in \<^verbatim>\<open>zend_bailout\<close> returns \<open>Inl\<close> with the message of the error; the report of the error to the user is not part of the model.
\<close>

datatype mm_error = Memory_limit nat nat | Out_of_memory nat nat

type_synonym storage = "nat \<Rightarrow> (nat \<rightharpoonup> nat) \<Rightarrow> (nat \<times> (nat \<Rightarrow> nat)) option"

type_synonym 'a mm_res = "((mm_error + 'a) \<times> mm_heap) option"

section \<open>Segments\<close>

definition cells :: "nat \<Rightarrow> nat \<Rightarrow> nat \<Rightarrow> bool" where
  "cells a n x \<longleftrightarrow> a \<le> x \<and> x < a + n \<and> (x - a) mod 8 = 0"

definition ZEND_MM_STORAGE_ALLOC :: "storage \<Rightarrow> nat \<Rightarrow> mm_heap \<Rightarrow> nat \<times> mm_heap" where
  "ZEND_MM_STORAGE_ALLOC sg n h =
     (case sg n (mem h) of
        None \<Rightarrow> (0, h)
      | Some (a, c) \<Rightarrow> (a, h\<lparr>mem := (\<lambda>x. if cells a n x then Some (c x) else mem h x)\<rparr>))"

definition ZEND_MM_STORAGE_FREE :: "nat \<Rightarrow> nat \<Rightarrow> mm_heap \<Rightarrow> mm_heap" where
  "ZEND_MM_STORAGE_FREE a n h = h\<lparr>mem := (\<lambda>x. if cells a n x then None else mem h x)\<rparr>"

text \<open>The storage moves a segment: the cells that the old and the new size share keep their value.\<close>

definition ZEND_MM_STORAGE_REALLOC :: "storage \<Rightarrow> nat \<Rightarrow> nat \<Rightarrow> nat \<Rightarrow> mm_heap \<Rightarrow> nat \<times> mm_heap" where
  "ZEND_MM_STORAGE_REALLOC sg a old n h =
     (let m = (\<lambda>x. if cells a old x then None else mem h x) in
      case sg n m of
        None \<Rightarrow> (0, h)
      | Some (a', c) \<Rightarrow> (a', h\<lparr>mem := (\<lambda>x. if cells a' n x then Some (if x - a' < old then the (mem h (a + (x - a'))) else c x) else m x)\<rparr>))"

partial_function (option) find_segment :: "nat \<Rightarrow> nat \<Rightarrow> mm_heap \<Rightarrow> nat option" where
  "find_segment p segment h = Option.bind (ld h p) (\<lambda>v. if v \<noteq> segment then find_segment (v + 8) segment h else Some p)"

declare find_segment.simps [code]

definition size_sub :: "nat \<Rightarrow> nat \<Rightarrow> nat" where
  "size_sub a b = size_t (a + 2 ^ 64 - b)"

text \<open>The field \<^verbatim>\<open>cached\<close> is an unsigned int of 32 bits; sizes are subtracted from it in 64 bits.\<close>

definition uint_t :: "nat \<Rightarrow> nat" where
  "uint_t n = n mod 2 ^ 32"

definition uint_sub :: "nat \<Rightarrow> nat \<Rightarrow> nat" where
  "uint_sub a b = uint_t (size_sub a b)"

definition zend_mm_del_segment :: "nat \<Rightarrow> mm_heap \<Rightarrow> mm_heap option" where
  "zend_mm_del_segment segment h =
     do { p \<leftarrow> find_segment (segments_list (haddr h)) segment h;
          nxt \<leftarrow> ld h (segment + 8);
          h \<leftarrow> st p nxt h;
          sz \<leftarrow> ld h segment;
          let h = h\<lparr>real_size := size_sub (real_size h) sz\<rparr>;
          Some (ZEND_MM_STORAGE_FREE segment sz h) }"

section \<open>Blocks\<close>

definition ZEND_MM_PREV_BLOCK_IS_FREE :: "nat \<Rightarrow> bool" where
  "ZEND_MM_PREV_BLOCK_IS_FREE w \<longleftrightarrow> w AND ZEND_MM_USED_BLOCK = 0"

definition ZEND_MM_IS_FIRST_BLOCK :: "nat \<Rightarrow> bool" where
  "ZEND_MM_IS_FIRST_BLOCK w \<longleftrightarrow> w = ZEND_MM_GUARD_BLOCK"

text \<open>A block that spans its segment.\<close>

definition whole_segment :: "nat \<Rightarrow> nat \<Rightarrow> mm_heap \<Rightarrow> bool option" where
  "whole_segment b n h =
     do { w \<leftarrow> ld h (info_prev b);
          if ZEND_MM_IS_FIRST_BLOCK w then do { g \<leftarrow> ld h (info_size (b + n)); Some (ZEND_MM_IS_GUARD_BLOCK g) } else Some False }"

definition ZEND_MM_CHECK_BLOCK_LINKAGE :: "nat \<Rightarrow> mm_heap \<Rightarrow> unit option" where
  "ZEND_MM_CHECK_BLOCK_LINKAGE b h =
     do { n \<leftarrow> ld h (info_size b);
          q \<leftarrow> ld h (info_prev (b + n));
          if n \<noteq> q then None
          else do { w \<leftarrow> ld h (info_prev b);
                    if ZEND_MM_IS_FIRST_BLOCK w then Some ()
                    else do { v \<leftarrow> ld h (info_size (b - ZEND_MM_BLOCK_SIZE w)); if v \<noteq> w then None else Some () } } }"

text \<open>A free neighbour leaves its list and joins the block: the next one, and the one before.\<close>

definition join_next :: "nat \<Rightarrow> nat \<Rightarrow> mm_heap \<Rightarrow> (nat \<times> mm_heap) option" where
  "join_next next_block n h =
     do { w \<leftarrow> ld h (info_size next_block);
          if ZEND_MM_IS_FREE_BLOCK w
          then do { h \<leftarrow> zend_mm_remove_from_free_list next_block h; m \<leftarrow> ld h (info_size next_block); Some (n + m, h) }
          else Some (n, h) }"

definition join_prev :: "nat \<Rightarrow> nat \<Rightarrow> mm_heap \<Rightarrow> (nat \<times> nat \<times> mm_heap) option" where
  "join_prev b n h =
     do { w \<leftarrow> ld h (info_prev b);
          if ZEND_MM_PREV_BLOCK_IS_FREE w
          then do { let p = b - ZEND_MM_BLOCK_SIZE w;
                    h \<leftarrow> zend_mm_remove_from_free_list p h; m \<leftarrow> ld h (info_size p); Some (p, n + m, h) }
          else Some (b, n, h) }"

section \<open>Release\<close>

definition zend_mm_free_int :: "nat \<Rightarrow> mm_heap \<Rightarrow> mm_heap option" where
  "zend_mm_free_int p h =
     (if p = 0 then Some h
      else do {
        let mm_block = p - ZEND_MM_ALIGNED_HEADER_SIZE;
        w \<leftarrow> ld h (info_size mm_block);
        let size' = ZEND_MM_BLOCK_SIZE w;
        if ZEND_MM_SMALL_SIZE size' \<and> cached h < ZEND_MM_CACHE_SIZE
        then do { let index = ZEND_MM_BUCKET_INDEX size';
                  c \<leftarrow> ld h (cache (haddr h) index);
                  h \<leftarrow> st (prev_free_block mm_block) c h;
                  h \<leftarrow> st (cache (haddr h) index) mm_block h;
                  Some (h\<lparr>cached := uint_t (cached h + size')\<rparr>) }
        else do { let h = h\<lparr>heap_size := size_sub (heap_size h) size'\<rparr>;
                  (size', h) \<leftarrow> join_next (mm_block + size') size' h;
                  (mm_block, size', h) \<leftarrow> join_prev mm_block size' h;
                  whole \<leftarrow> whole_segment mm_block size' h;
                  if whole then zend_mm_del_segment (mm_block - ZEND_MM_ALIGNED_SEGMENT_SIZE) h
                  else do { h \<leftarrow> ZEND_MM_BLOCK mm_block ZEND_MM_FREE_BLOCK size' h;
                            zend_mm_add_to_free_list mm_block h } } })"

text \<open>
  The cache of small blocks is given back; here the block before is looked at first. (The size of a neighbour is the same before and after its removal from its list, so
  that both functions share \<open>join_prev\<close> and \<open>join_next\<close>.)
\<close>

definition free_cached :: "nat \<Rightarrow> mm_heap \<Rightarrow> mm_heap option" where
  "free_cached mm_block h =
     do { w \<leftarrow> ld h (info_size mm_block);
          let size' = ZEND_MM_BLOCK_SIZE w;
          let next_block = mm_block + size';
          let h = h\<lparr>cached := uint_sub (cached h) size'\<rparr>;
          (mm_block, size', h) \<leftarrow> join_prev mm_block size' h;
          (size', h) \<leftarrow> join_next next_block size' h;
          h \<leftarrow> ZEND_MM_BLOCK mm_block ZEND_MM_FREE_BLOCK size' h;
          whole \<leftarrow> whole_segment mm_block size' h;
          if whole then zend_mm_del_segment (mm_block - ZEND_MM_ALIGNED_SEGMENT_SIZE) h
          else zend_mm_add_to_free_list mm_block h }"

partial_function (option) free_cache_loop :: "nat \<Rightarrow> mm_heap \<Rightarrow> mm_heap option" where
  "free_cache_loop mm_block h =
     (if mm_block = 0 then Some h
      else Option.bind (ld h (prev_free_block mm_block)) (\<lambda>q.
           Option.bind (free_cached mm_block h) (\<lambda>h. free_cache_loop q h)))"

declare free_cache_loop.simps [code]

fun free_cache_from :: "nat \<Rightarrow> nat \<Rightarrow> mm_heap \<Rightarrow> mm_heap option" where
  "free_cache_from i 0 h = Some h"
| "free_cache_from i (Suc k) h =
     do { c \<leftarrow> ld h (cache (haddr h) i);
          h \<leftarrow> (if c \<noteq> 0 then do { h \<leftarrow> free_cache_loop c h; st (cache (haddr h) i) 0 h } else Some h);
          free_cache_from (Suc i) k h }"

definition zend_mm_free_cache :: "mm_heap \<Rightarrow> mm_heap option" where
  "zend_mm_free_cache h = free_cache_from 0 ZEND_MM_NUM_BUCKETS h"

section \<open>Errors\<close>

definition zend_mm_safe_error :: "mm_error \<Rightarrow> mm_heap \<Rightarrow> 'a mm_res" where
  "zend_mm_safe_error e h =
     do { h \<leftarrow> (if reserve h \<noteq> 0 then do { h \<leftarrow> zend_mm_free_int (reserve h) h; Some (h\<lparr>reserve := 0\<rparr>) } else Some h);
          let h = (if overflow h = 0 then h\<lparr>overflow := 1\<rparr> else h\<lparr>overflow := 2\<rparr>);
          Some (Inl e, h) }"

section \<open>Allocation\<close>

text \<open>Free space that is left over becomes a block of its own if it is big enough; the result is the size that is used.\<close>

definition split_block :: "nat \<Rightarrow> nat \<Rightarrow> nat \<Rightarrow> (nat \<Rightarrow> mm_heap \<Rightarrow> mm_heap option) \<Rightarrow> mm_heap \<Rightarrow> (nat \<times> mm_heap) option" where
  "split_block b block_size' true_size add h =
     (let remaining_size = block_size' - true_size in
      if remaining_size < ZEND_MM_ALIGNED_MIN_HEADER_SIZE
      then do { h \<leftarrow> ZEND_MM_BLOCK b ZEND_MM_USED_BLOCK block_size' h; Some (block_size', h) }
      else do { h \<leftarrow> ZEND_MM_BLOCK b ZEND_MM_USED_BLOCK true_size h;
                h \<leftarrow> ZEND_MM_BLOCK (b + true_size) ZEND_MM_FREE_BLOCK remaining_size h;
                h \<leftarrow> add (b + true_size) h;
                Some (true_size, h) })"

partial_function (option) search_rest_list :: "nat \<Rightarrow> nat \<Rightarrow> nat \<Rightarrow> nat \<Rightarrow> mm_heap \<Rightarrow> nat option" where
  "search_rest_list true_size p best_size best_fit h =
     (if p = ZEND_MM_REST_BUCKET (haddr h) then Some best_fit
      else Option.bind (ld h (info_size p)) (\<lambda>n.
        if n = true_size then Some p
        else let (best_size, best_fit) = (if n > true_size \<and> n < best_size then (n, p) else (best_size, best_fit)) in
          Option.bind (ld h (prev_free_block p)) (\<lambda>q. search_rest_list true_size q best_size best_fit h)))"

declare search_rest_list.simps [code]

text \<open>The free block to be used for a request, 0 if there is none.\<close>

definition find_block :: "nat \<Rightarrow> mm_heap \<Rightarrow> nat option" where
  "find_block true_size h =
     (let index = ZEND_MM_BUCKET_INDEX true_size; bitmap = drop_bit index (free_bitmap h) in
      if ZEND_MM_SMALL_SIZE true_size \<and> bitmap \<noteq> 0
      then do { k \<leftarrow> zend_mm_low_bit bitmap; ld h (free_buckets (haddr h) ((index + k) * 2)) }
      else do { best_fit \<leftarrow> zend_mm_search_large_block true_size h;
                if best_fit = 0 \<and> real_size h \<ge> size_sub (limit h) (block_size h)
                then do { p \<leftarrow> ld h (rest_buckets (haddr h) 0); search_rest_list true_size p (2 ^ 64 - 1) 0 h }
                else Some best_fit })"

text \<open>The size of a new segment.\<close>

definition segment_size :: "nat \<Rightarrow> mm_heap \<Rightarrow> nat" where
  "segment_size true_size h =
     (if true_size > size_sub (block_size h) (ZEND_MM_ALIGNED_SEGMENT_SIZE + ZEND_MM_ALIGNED_HEADER_SIZE)
      then size_t (size_t (true_size + ZEND_MM_ALIGNED_SEGMENT_SIZE + ZEND_MM_ALIGNED_HEADER_SIZE) + size_sub (block_size h) 1) AND (2 ^ 64 - block_size h)
      else block_size h)"

definition keeps_rest :: "nat \<Rightarrow> mm_heap \<Rightarrow> bool" where
  "keeps_rest true_size h \<longleftrightarrow> true_size > size_sub (block_size h) (ZEND_MM_ALIGNED_SEGMENT_SIZE + ZEND_MM_ALIGNED_HEADER_SIZE)"

definition grow_real_size :: "nat \<Rightarrow> mm_heap \<Rightarrow> mm_heap" where
  "grow_real_size n h = (let h = h\<lparr>real_size := size_t (real_size h + n)\<rparr> in if real_size h > real_peak h then h\<lparr>real_peak := real_size h\<rparr> else h)"

definition grow_size :: "nat \<Rightarrow> mm_heap \<Rightarrow> mm_heap" where
  "grow_size n h = (let h = h\<lparr>heap_size := size_t (heap_size h + n)\<rparr> in if peak h < heap_size h then h\<lparr>peak := heap_size h\<rparr> else h)"

text \<open>A new segment, with its first block and its guard.\<close>

definition open_segment :: "nat \<Rightarrow> nat \<Rightarrow> mm_heap \<Rightarrow> mm_heap option" where
  "open_segment segment n h =
     do { let h = grow_real_size n h;
          h \<leftarrow> st segment n h;
          s \<leftarrow> ld h (segments_list (haddr h));
          h \<leftarrow> st (segment + 8) s h;
          h \<leftarrow> st (segments_list (haddr h)) segment h;
          h \<leftarrow> ZEND_MM_MARK_FIRST_BLOCK (segment + ZEND_MM_ALIGNED_SEGMENT_SIZE) h;
          ZEND_MM_LAST_BLOCK (segment + ZEND_MM_ALIGNED_SEGMENT_SIZE + (n - ZEND_MM_ALIGNED_SEGMENT_SIZE - ZEND_MM_ALIGNED_HEADER_SIZE)) h }"

text \<open>The part after the search: the block leaves its list or comes from a new segment, and is split.\<close>

definition take_block :: "nat \<Rightarrow> nat \<Rightarrow> nat \<Rightarrow> (nat \<Rightarrow> mm_heap \<Rightarrow> mm_heap option) \<Rightarrow> mm_heap \<Rightarrow> nat mm_res" where
  "take_block best_fit block_size' true_size add h =
     do { (true_size, h) \<leftarrow> split_block best_fit block_size' true_size add h;
          Some (Inr (best_fit + ZEND_MM_ALIGNED_HEADER_SIZE), grow_size true_size h) }"

definition alloc_segment :: "storage \<Rightarrow> nat \<Rightarrow> nat \<Rightarrow> mm_heap \<Rightarrow> nat mm_res" where
  "alloc_segment sg size' true_size h =
     (let n = segment_size true_size h in
      if n < true_size \<or> size_t (real_size h + n) > limit h
      then do { h \<leftarrow> zend_mm_free_cache h; zend_mm_safe_error (Memory_limit (limit h) size') h }
      else let (segment, h) = ZEND_MM_STORAGE_ALLOC sg n h in
           if segment = 0
           then do { h \<leftarrow> zend_mm_free_cache h; zend_mm_safe_error (Out_of_memory (real_size h) size') h }
           else do { h \<leftarrow> open_segment segment n h;
                     take_block (segment + ZEND_MM_ALIGNED_SEGMENT_SIZE) (n - ZEND_MM_ALIGNED_SEGMENT_SIZE - ZEND_MM_ALIGNED_HEADER_SIZE) true_size
                       (if keeps_rest true_size h then zend_mm_add_to_rest_list else zend_mm_add_to_free_list) h })"

definition zend_mm_alloc_int :: "storage \<Rightarrow> nat \<Rightarrow> mm_heap \<Rightarrow> nat mm_res" where
  "zend_mm_alloc_int sg size' h =
     (let true_size = ZEND_MM_TRUE_SIZE size' in
      if ZEND_MM_SMALL_SIZE true_size \<and> true_size < size' then zend_mm_safe_error (Out_of_memory (real_size h) size') h
      else do {
        c \<leftarrow> (if ZEND_MM_SMALL_SIZE true_size then ld h (cache (haddr h) (ZEND_MM_BUCKET_INDEX true_size)) else Some 0);
        if c \<noteq> 0
        then do { q \<leftarrow> ld h (prev_free_block c);
                  h \<leftarrow> st (cache (haddr h) (ZEND_MM_BUCKET_INDEX true_size)) q h;
                  Some (Inr (c + ZEND_MM_ALIGNED_HEADER_SIZE), h\<lparr>cached := uint_sub (cached h) true_size\<rparr>) }
        else do { best_fit \<leftarrow> find_block true_size h;
                  if best_fit = 0 then alloc_segment sg size' true_size h
                  else do { ZEND_MM_CHECK_BLOCK_LINKAGE best_fit h;
                            h \<leftarrow> zend_mm_remove_from_free_list best_fit h;
                            block_size' \<leftarrow> ld h (info_size best_fit);
                            take_block best_fit block_size' true_size zend_mm_add_to_free_list h } } })"

section \<open>Resizing\<close>

fun copy_cells :: "nat \<Rightarrow> nat \<Rightarrow> nat \<Rightarrow> mm_heap \<Rightarrow> mm_heap option" where
  "copy_cells dst src 0 h = Some h"
| "copy_cells dst src (Suc k) h = do { v \<leftarrow> ld h src; h \<leftarrow> st dst v h; copy_cells (dst + 8) (src + 8) k h }"

definition copy_memory :: "nat \<Rightarrow> nat \<Rightarrow> nat \<Rightarrow> mm_heap \<Rightarrow> mm_heap option" where
  "copy_memory dst src n = copy_cells dst src (n div 8)"

text \<open>A block that is made smaller gives the rest back, with a free neighbour.\<close>

definition realloc_shrink :: "nat \<Rightarrow> nat \<Rightarrow> nat \<Rightarrow> mm_heap \<Rightarrow> mm_heap option" where
  "realloc_shrink mm_block orig_size true_size h =
     (let remaining_size = orig_size - true_size in
      if remaining_size \<ge> ZEND_MM_ALIGNED_MIN_HEADER_SIZE
      then do { let next_block = mm_block + orig_size;
                w \<leftarrow> ld h (info_size next_block);
                (remaining_size, h) \<leftarrow> (if ZEND_MM_IS_FREE_BLOCK w
                   then do { h \<leftarrow> zend_mm_remove_from_free_list next_block h; Some (remaining_size + w, h) }
                   else Some (remaining_size, h));
                h \<leftarrow> ZEND_MM_BLOCK mm_block ZEND_MM_USED_BLOCK true_size h;
                h \<leftarrow> ZEND_MM_BLOCK (mm_block + true_size) ZEND_MM_FREE_BLOCK remaining_size h;
                h \<leftarrow> zend_mm_add_to_free_list (mm_block + true_size) h;
                Some (h\<lparr>heap_size := size_t (heap_size h + size_sub true_size orig_size)\<rparr>) }
      else Some h)"

text \<open>A small block that grows is exchanged for one of the cache.\<close>

definition realloc_cached :: "nat \<Rightarrow> nat \<Rightarrow> nat \<Rightarrow> nat \<Rightarrow> mm_heap \<Rightarrow> (nat \<times> mm_heap) option" where
  "realloc_cached best_fit mm_block orig_size true_size h =
     do { q \<leftarrow> ld h (prev_free_block best_fit);
          h \<leftarrow> st (cache (haddr h) (ZEND_MM_BUCKET_INDEX true_size)) q h;
          let ptr = best_fit + ZEND_MM_ALIGNED_HEADER_SIZE;
          h \<leftarrow> copy_memory ptr (mm_block + ZEND_MM_ALIGNED_HEADER_SIZE) (orig_size - ZEND_MM_ALIGNED_HEADER_SIZE) h;
          let h = h\<lparr>cached := uint_sub (cached h) (size_sub true_size orig_size)\<rparr>;
          let index = ZEND_MM_BUCKET_INDEX orig_size;
          c \<leftarrow> ld h (cache (haddr h) index);
          h \<leftarrow> st (prev_free_block mm_block) c h;
          h \<leftarrow> st (cache (haddr h) index) mm_block h;
          Some (ptr, h) }"

text \<open>A block that grows into its free neighbour.\<close>

definition realloc_join :: "nat \<Rightarrow> nat \<Rightarrow> nat \<Rightarrow> nat \<Rightarrow> mm_heap \<Rightarrow> mm_heap option" where
  "realloc_join mm_block orig_size next_size true_size h =
     do { let block_size' = orig_size + next_size;
          h \<leftarrow> zend_mm_remove_from_free_list (mm_block + orig_size) h;
          (true_size, h) \<leftarrow> split_block mm_block block_size' true_size
             (\<lambda>b h. do { whole \<leftarrow> whole_segment mm_block block_size' h;
                         if whole then zend_mm_add_to_rest_list b h else zend_mm_add_to_free_list b h }) h;
          let h = h\<lparr>heap_size := size_sub (size_t (heap_size h + true_size)) orig_size\<rparr>;
          Some (if peak h < heap_size h then h\<lparr>peak := heap_size h\<rparr> else h) }"

text \<open>A block that is alone in its segment grows with the segment.\<close>

definition realloc_segment :: "storage \<Rightarrow> nat \<Rightarrow> nat \<Rightarrow> nat \<Rightarrow> nat \<Rightarrow> mm_heap \<Rightarrow> nat mm_res" where
  "realloc_segment sg mm_block orig_size true_size size' h =
     do { let n = segment_size true_size h;
          let segment_copy = mm_block - ZEND_MM_ALIGNED_SEGMENT_SIZE;
          old \<leftarrow> ld h segment_copy;
          if n < true_size \<or> size_sub (size_t (real_size h + n)) old > limit h
          then do { w \<leftarrow> ld h (info_size (mm_block + orig_size));
                    h \<leftarrow> (if ZEND_MM_IS_FREE_BLOCK w then zend_mm_add_to_free_list (mm_block + orig_size) h else Some h);
                    h \<leftarrow> zend_mm_free_cache h;
                    zend_mm_safe_error (Memory_limit (limit h) size') h }
          else let (segment, h) = ZEND_MM_STORAGE_REALLOC sg segment_copy old n h in
            if segment = 0
            then do { h \<leftarrow> zend_mm_free_cache h; zend_mm_safe_error (Out_of_memory (real_size h) size') h }
            else do { s \<leftarrow> ld h segment;
                      let h = grow_real_size (size_sub n s) h;
                      h \<leftarrow> st segment n h;
                      (mm_block, h) \<leftarrow> (if segment \<noteq> segment_copy
                         then do { p \<leftarrow> find_segment (segments_list (haddr h)) segment_copy h;
                                   h \<leftarrow> st p segment h;
                                   h \<leftarrow> ZEND_MM_MARK_FIRST_BLOCK (segment + ZEND_MM_ALIGNED_SEGMENT_SIZE) h;
                                   Some (segment + ZEND_MM_ALIGNED_SEGMENT_SIZE, h) }
                         else Some (mm_block, h));
                      let block_size' = n - ZEND_MM_ALIGNED_SEGMENT_SIZE - ZEND_MM_ALIGNED_HEADER_SIZE;
                      h \<leftarrow> ZEND_MM_LAST_BLOCK (mm_block + block_size') h;
                      (true_size, h) \<leftarrow> split_block mm_block block_size' true_size zend_mm_add_to_rest_list h;
                      let h = h\<lparr>heap_size := size_sub (size_t (heap_size h + true_size)) orig_size\<rparr>;
                      Some (Inr (mm_block + ZEND_MM_ALIGNED_HEADER_SIZE), if peak h < heap_size h then h\<lparr>peak := heap_size h\<rparr> else h) } }"

definition realloc_move :: "storage \<Rightarrow> nat \<Rightarrow> nat \<Rightarrow> nat \<Rightarrow> mm_heap \<Rightarrow> nat mm_res" where
  "realloc_move sg p orig_size size' h =
     do { (r, h) \<leftarrow> zend_mm_alloc_int sg size' h;
          (case r of
             Inl e \<Rightarrow> Some (Inl e, h)
           | Inr ptr \<Rightarrow> do { h \<leftarrow> copy_memory ptr p (orig_size - ZEND_MM_ALIGNED_HEADER_SIZE) h;
                            h \<leftarrow> zend_mm_free_int p h;
                            Some (Inr ptr, h) }) }"

definition realloc_grow :: "storage \<Rightarrow> nat \<Rightarrow> nat \<Rightarrow> nat \<Rightarrow> nat \<Rightarrow> mm_heap \<Rightarrow> nat mm_res" where
  "realloc_grow sg mm_block orig_size true_size size' h =
     do { let next_block = mm_block + orig_size;
          let p = mm_block + ZEND_MM_ALIGNED_HEADER_SIZE;
          w \<leftarrow> ld h (info_size next_block);
          if ZEND_MM_IS_FREE_BLOCK w
          then do { ZEND_MM_CHECK_BLOCK_LINKAGE next_block h;
                    if orig_size + w \<ge> true_size
                    then do { h \<leftarrow> realloc_join mm_block orig_size w true_size h; Some (Inr p, h) }
                    else do { whole \<leftarrow> whole_segment mm_block (orig_size + w) h;
                              if whole
                              then do { h \<leftarrow> zend_mm_remove_from_free_list next_block h;
                                        realloc_segment sg mm_block orig_size true_size size' h }
                              else realloc_move sg p orig_size size' h } }
          else do { whole \<leftarrow> whole_segment mm_block orig_size h;
                    if whole then realloc_segment sg mm_block orig_size true_size size' h else realloc_move sg p orig_size size' h } }"

definition zend_mm_realloc_int :: "storage \<Rightarrow> nat \<Rightarrow> nat \<Rightarrow> mm_heap \<Rightarrow> nat mm_res" where
  "zend_mm_realloc_int sg p size' h =
     (if p = 0 then zend_mm_alloc_int sg size' h
      else do {
        let mm_block = p - ZEND_MM_ALIGNED_HEADER_SIZE;
        let true_size = ZEND_MM_TRUE_SIZE size';
        w \<leftarrow> ld h (info_size mm_block);
        let orig_size = ZEND_MM_BLOCK_SIZE w;
        if true_size < size' then zend_mm_safe_error (Out_of_memory (real_size h) size') h
        else if true_size \<le> orig_size
        then do { h \<leftarrow> realloc_shrink mm_block orig_size true_size h; Some (Inr p, h) }
        else do { c \<leftarrow> (if ZEND_MM_SMALL_SIZE true_size then ld h (cache (haddr h) (ZEND_MM_BUCKET_INDEX true_size)) else Some 0);
                  if c \<noteq> 0
                  then do { (ptr, h) \<leftarrow> realloc_cached c mm_block orig_size true_size h; Some (Inr ptr, h) }
                  else realloc_grow sg mm_block orig_size true_size size' h } })"

definition zend_mm_block_size :: "nat \<Rightarrow> mm_heap \<Rightarrow> nat option" where
  "zend_mm_block_size p h =
     (if p = 0 then Some 0 else do { w \<leftarrow> ld h (info_size (p - ZEND_MM_ALIGNED_HEADER_SIZE)); Some (ZEND_MM_BLOCK_SIZE w) })"

section \<open>Start and end of a request\<close>

fun clear_cells :: "nat \<Rightarrow> nat \<Rightarrow> mm_heap \<Rightarrow> mm_heap option" where
  "clear_cells a 0 h = Some h"
| "clear_cells a (Suc k) h = do { h \<leftarrow> st a 0 h; clear_cells (a + 8) k h }"

fun init_buckets :: "nat \<Rightarrow> nat \<Rightarrow> mm_heap \<Rightarrow> mm_heap option" where
  "init_buckets i 0 h = Some h"
| "init_buckets i (Suc k) h =
     do { let p = ZEND_MM_SMALL_FREE_BUCKET (haddr h) 0 + 8 * 2 * i;
          h \<leftarrow> st (next_free_block p) p h;
          h \<leftarrow> st (prev_free_block p) p h;
          h \<leftarrow> st (large_free_buckets (haddr h) i) 0 h;
          init_buckets (Suc i) k h }"

definition zend_mm_init :: "mm_heap \<Rightarrow> mm_heap option" where
  "zend_mm_init h =
     do { let h = h\<lparr>free_bitmap := 0, large_free_bitmap := 0, cached := 0\<rparr>;
          h \<leftarrow> clear_cells (cache (haddr h) 0) ZEND_MM_NUM_BUCKETS h;
          h \<leftarrow> init_buckets 0 ZEND_MM_NUM_BUCKETS h;
          h \<leftarrow> st (rest_buckets (haddr h) 1) (ZEND_MM_REST_BUCKET (haddr h)) h;
          h \<leftarrow> st (rest_buckets (haddr h) 0) (ZEND_MM_REST_BUCKET (haddr h)) h;
          Some (h\<lparr>rest_count := 0\<rparr>) }"

text \<open>The start, for a heap that lies outside of its segments; the heap structure is at \<open>hp\<close> in \<open>m\<close>.\<close>

definition reserve_block :: "storage \<Rightarrow> mm_heap \<Rightarrow> unit mm_res" where
  "reserve_block sg h =
     (if reserve_size h > 0
      then do { (r, h) \<leftarrow> zend_mm_alloc_int sg (reserve_size h) h;
                (case r of Inl e \<Rightarrow> Some (Inl e, h) | Inr p \<Rightarrow> Some (Inr (), h\<lparr>reserve := p\<rparr>)) }
      else Some (Inr (), h))"

definition zend_mm_startup_ex :: "storage \<Rightarrow> nat \<Rightarrow> (nat \<rightharpoonup> nat) \<Rightarrow> nat \<Rightarrow> nat \<Rightarrow> unit mm_res" where
  "zend_mm_startup_ex sg hp m block_size' reserve_size' =
     do { k \<leftarrow> zend_mm_low_bit block_size';
          if k \<noteq> zend_mm_high_bit block_size' then None
          else do {
            let h = \<lparr>mem = m, haddr = hp, free_bitmap = 0, large_free_bitmap = 0, block_size = block_size', real_size = 0, real_peak = 0, limit = 2 ^ 62,
              heap_size = 0, peak = 0, reserve_size = reserve_size', reserve = 0, overflow = 0, cached = 0, rest_count = 0\<rparr>;
            h \<leftarrow> st (segments_list hp) 0 h;
            h \<leftarrow> zend_mm_init h;
            reserve_block sg h } }"

text \<open>The end of a request, and of the process (where \<^verbatim>\<open>free\<close> also takes the heap structure, which is not part of the model). All segments go, but for the last of the list when there is a reserve; of that one, a single free block is made.\<close>

partial_function (option) free_segments :: "bool \<Rightarrow> nat \<Rightarrow> mm_heap \<Rightarrow> (nat \<times> mm_heap) option" where
  "free_segments keep segment h =
     (if segment = 0 then Some (0, h)
      else Option.bind (ld h (segment + 8)) (\<lambda>nxt.
        if keep \<and> nxt = 0 then Some (segment, h)
        else Option.bind (ld h segment) (\<lambda>n. free_segments keep nxt (ZEND_MM_STORAGE_FREE segment n h))))"

declare free_segments.simps [code]

definition reuse_segment :: "nat \<Rightarrow> mm_heap \<Rightarrow> mm_heap option" where
  "reuse_segment segment h =
     do { n \<leftarrow> ld h segment;
          let b = segment + ZEND_MM_ALIGNED_SEGMENT_SIZE;
          let block_size' = n - ZEND_MM_ALIGNED_SEGMENT_SIZE - ZEND_MM_ALIGNED_HEADER_SIZE;
          h \<leftarrow> ZEND_MM_MARK_FIRST_BLOCK b h;
          h \<leftarrow> ZEND_MM_LAST_BLOCK (b + block_size') h;
          h \<leftarrow> ZEND_MM_BLOCK b ZEND_MM_FREE_BLOCK block_size' h;
          zend_mm_add_to_free_list b h }"

definition zend_mm_shutdown :: "storage \<Rightarrow> mm_heap \<Rightarrow> unit mm_res" where
  "zend_mm_shutdown sg h =
     do { let h = h\<lparr>reserve := 0\<rparr>;
          segment \<leftarrow> ld h (segments_list (haddr h));
          (segment, h) \<leftarrow> free_segments (reserve_size h \<noteq> 0) segment h;
          h \<leftarrow> st (segments_list (haddr h)) segment h;
          h \<leftarrow> zend_mm_init h;
          n \<leftarrow> (if segment \<noteq> 0 then ld h segment else Some 0);
          let h = h\<lparr>real_size := n, real_peak := n, heap_size := 0, peak := 0\<rparr>;
          h \<leftarrow> (if segment \<noteq> 0 then reuse_segment segment h else Some h);
          (r, h) \<leftarrow> reserve_block sg h;
          (case r of Inl e \<Rightarrow> Some (Inl e, h) | Inr u \<Rightarrow> Some (Inr u, h\<lparr>overflow := 0\<rparr>)) }"

definition zend_mm_shutdown_full :: "mm_heap \<Rightarrow> mm_heap option" where
  "zend_mm_shutdown_full h =
     do { let h = h\<lparr>reserve := 0\<rparr>;
          segment \<leftarrow> ld h (segments_list (haddr h));
          (segment, h) \<leftarrow> free_segments False segment h;
          st (segments_list (haddr h)) 0 h }"

section \<open>Limits and statistics\<close>

definition zend_set_memory_limit :: "nat \<Rightarrow> mm_heap \<Rightarrow> mm_heap" where
  "zend_set_memory_limit memory_limit h = h\<lparr>limit := if memory_limit \<ge> block_size h then memory_limit else block_size h\<rparr>"

definition zend_memory_usage :: "bool \<Rightarrow> mm_heap \<Rightarrow> nat" where
  "zend_memory_usage real_usage h = (if real_usage then real_size h else size_sub (heap_size h) (cached h))"

definition zend_memory_peak_usage :: "bool \<Rightarrow> mm_heap \<Rightarrow> nat" where
  "zend_memory_peak_usage real_usage h = (if real_usage then real_peak h else peak h)"

text \<open>The product of two sizes plus an offset, in two 64-bit registers with carry; an overflow is a fatal error (\<open>None\<close>).\<close>

definition safe_address :: "nat \<Rightarrow> nat \<Rightarrow> nat \<Rightarrow> nat option" where
  "safe_address nmemb size' offset =
     (let rax = (nmemb * size') mod 2 ^ 64;
          rdx = (nmemb * size') div 2 ^ 64;
          res = (rax + offset) mod 2 ^ 64;
          carry = (rax + offset) div 2 ^ 64;
          overflow = (rdx + carry) mod 2 ^ 64 in
      if overflow \<noteq> 0 then None else Some res)"

end
