(* ===== verification/Zend_Mm_Layout.thy ===== *)
theory Zend_Mm_Layout
  imports Zend_Mm_Lists Zend_Mm_Ops
begin

text \<open>
  The layout of memory: segments that are linked in a list, each of them tiled with blocks up to a guard. What an update inside of blocks leaves alone,
  how a part of a segment is tiled anew, and what a layout means for the free lists.
\<close>

section \<open>Tiles\<close>

text \<open>A tile is a block: its size, and whether it is in use. The word before a tile repeats the header of the tile before it.\<close>

definition word :: "nat \<times> bool \<Rightarrow> nat" where
  "word t = fst t + of_bool (snd t)"

definition tsum :: "(nat \<times> bool) list \<Rightarrow> nat" where
  "tsum L = sum_list (map fst L)"

definition lastw :: "nat \<Rightarrow> (nat \<times> bool) list \<Rightarrow> nat" where
  "lastw w L = (if L = [] then w else word (last L))"

lemma tsum_simps [simp]: "tsum [] = 0" "tsum (t # L) = fst t + tsum L" "tsum (X @ Y) = tsum X + tsum Y"
  by (simp_all add: tsum_def)

fun tpart :: "(nat \<rightharpoonup> nat) \<Rightarrow> nat \<Rightarrow> nat \<Rightarrow> (nat \<times> bool) list \<Rightarrow> bool" where
  "tpart m a w [] \<longleftrightarrow> True"
| "tpart m a w (t # L) \<longleftrightarrow> m (a + 8) = Some w \<and> m a = Some (word t) \<and> 32 \<le> fst t \<and> 8 dvd fst t \<and> tpart m (a + fst t) (word t) L"

definition tiles :: "(nat \<rightharpoonup> nat) \<Rightarrow> nat \<Rightarrow> (nat \<times> bool) list \<Rightarrow> bool" where
  "tiles m a L \<longleftrightarrow> tpart m a 3 L \<and> m (a + tsum L + 8) = Some (lastw 3 L) \<and> m (a + tsum L) = Some 19"

fun tset :: "nat \<Rightarrow> (nat \<times> bool) list \<Rightarrow> (nat \<times> nat \<times> bool) set" where
  "tset a [] = {}"
| "tset a (t # L) = insert (a, t) (tset (a + fst t) L)"

lemma lastw_simps [simp]: "lastw w [] = w" "lastw w (t # L) = lastw (word t) L" "lastw w (X @ Y) = lastw (lastw w X) Y"
  by (simp_all add: lastw_def)

lemma tpart_append: "tpart m a w (X @ Y) \<longleftrightarrow> tpart m a w X \<and> tpart m (a + tsum X) (lastw w X) Y"
  by (induction X arbitrary: a w) (auto simp: add.assoc)

lemma tset_append: "tset a (X @ Y) = tset a X \<union> tset (a + tsum X) Y"
  by (induction X arbitrary: a) (auto simp: add.assoc)

lemma tset_bounds: "(b, n, u) \<in> tset a L \<Longrightarrow> a \<le> b \<and> b + n \<le> a + tsum L"
  by (induction L arbitrary: a) fastforce+

lemma tset_split: "(b, n, u) \<in> tset a L \<Longrightarrow> \<exists>X Y. L = X @ (n, u) # Y \<and> b = a + tsum X"
proof (induction L arbitrary: a)
  case (Cons t L)
  then consider "b = a" "t = (n, u)" | "(b, n, u) \<in> tset (a + fst t) L" by auto
  then show ?case
  proof cases
    case 1 then show ?thesis by (intro exI [of _ "[]"] exI [of _ L]) auto
  next
    case 2
    then obtain X Y where "L = X @ (n, u) # Y" "b = a + fst t + tsum X" using Cons.IH by blast
    then show ?thesis by (intro exI [of _ "t # X"] exI [of _ Y]) auto
  qed
qed simp

lemma tpart_tile: "tpart m a w L \<Longrightarrow> (b, n, u) \<in> tset a L \<Longrightarrow> m b = Some (n + of_bool u) \<and> 32 \<le> n \<and> 8 dvd n"
  by (induction L arbitrary: a w) (auto simp: word_def)

lemma tpart_mult: "tpart m a w L \<Longrightarrow> 8 dvd tsum L"
  by (induction L arbitrary: a w) auto

lemma tset_apart:
  assumes "tpart m a w L" "(b, n, u) \<in> tset a L" "(c, k, v) \<in> tset a L"
  shows "b + n \<le> c \<or> c + k \<le> b \<or> (b, n, u) = (c, k, v)"
  using assms
proof (induction L arbitrary: a w)
  case (Cons t L)
  have r: "a + fst t \<le> x \<and> x + y \<le> a + fst t + tsum L" if "(x, y, z) \<in> tset (a + fst t) L" for x y z using tset_bounds [OF that] .
  consider "(b, n, u) = (a, t)" "(c, k, v) = (a, t)" | "(b, n, u) = (a, t)" "(c, k, v) \<in> tset (a + fst t) L"
    | "(b, n, u) \<in> tset (a + fst t) L" "(c, k, v) = (a, t)" | "(b, n, u) \<in> tset (a + fst t) L" "(c, k, v) \<in> tset (a + fst t) L" using Cons.prems by auto
  then show ?case
  proof cases
    case 4 then show ?thesis using Cons.IH [of "a + fst t" "word t"] Cons.prems(1) by auto
  qed (use r in fastforce)+
qed simp

text \<open>The cells of headers, the guard included.\<close>

definition heads_of :: "nat \<Rightarrow> (nat \<times> bool) list \<Rightarrow> nat set" where
  "heads_of a L = insert (a + tsum L) (fst ` tset a L)"

lemma tpart_frame: "tpart m a w L \<Longrightarrow> (\<And>b t. (b, t) \<in> tset a L \<Longrightarrow> m' b = m b \<and> m' (b + 8) = m (b + 8)) \<Longrightarrow> tpart m' a w L"
proof (induction L arbitrary: a w)
  case (Cons t L)
  have "m' a = m a \<and> m' (a + 8) = m (a + 8)" using Cons.prems(2) [of a t] by simp
  moreover have "tpart m' (a + fst t) (word t) L" by (rule Cons.IH) (use Cons.prems in auto)
  ultimately show ?case using Cons.prems(1) by simp
qed simp

lemma tiles_frame:
  assumes "tiles m a L" "\<And>b. b \<in> heads_of a L \<Longrightarrow> m' b = m b \<and> m' (b + 8) = m (b + 8)"
  shows "tiles m' a L"
proof -
  have "tpart m' a 3 L"
  proof (rule tpart_frame)
    show "tpart m a 3 L" using assms(1) by (simp add: tiles_def)
    show "m' b = m b \<and> m' (b + 8) = m (b + 8)" if "(b, t) \<in> tset a L" for b t by (rule assms(2)) (use that in \<open>force simp: heads_of_def\<close>)
  qed
  then show ?thesis using assms(1) assms(2) [of "a + tsum L"] by (simp add: tiles_def heads_of_def)
qed

text \<open>A header is not inside of a block.\<close>

lemma head_outside:
  assumes "tpart m a w L" "c \<in> heads_of a L" "(b, n, u) \<in> tset a L" "i < 16"
  shows "c + i \<notin> {b + 16..<b + n}"
proof -
  consider "c = a + tsum L" | k v where "(c, k, v) \<in> tset a L" using assms(2) by (auto simp: heads_of_def)
  then show ?thesis
  proof cases
    case 1 then show ?thesis using tset_bounds [OF assms(3)] by auto
  next
    case 2
    then have "32 \<le> k" using tpart_tile [OF assms(1)] by blast
    then show ?thesis using tset_apart [OF assms(1,3) 2] assms(4) by auto
  qed
qed

section \<open>Segments\<close>

fun lnk :: "nat \<Rightarrow> (nat \<rightharpoonup> nat) \<Rightarrow> nat \<Rightarrow> nat list \<Rightarrow> bool" where
  "lnk d m p [] \<longleftrightarrow> m p = Some 0"
| "lnk d m p (s # ss) \<longleftrightarrow> m p = Some s \<and> s \<noteq> 0 \<and> lnk d m (s + d) ss"

lemma lnk_frame: "lnk d m p L \<Longrightarrow> m' p = m p \<Longrightarrow> (\<And>s. s \<in> set L \<Longrightarrow> m' (s + d) = m (s + d)) \<Longrightarrow> lnk d m' p L"
  by (induction L arbitrary: p) auto

type_synonym segm = "nat \<times> (nat \<times> bool) list"

definition seg_len :: "segm \<Rightarrow> nat" where
  "seg_len s = 32 + tsum (snd s)"

definition region :: "segm \<Rightarrow> nat set" where
  "region s = {fst s..<fst s + seg_len s}"

definition seg_at :: "(nat \<rightharpoonup> nat) \<Rightarrow> segm \<Rightarrow> bool" where
  "seg_at m s \<longleftrightarrow> m (fst s) = Some (seg_len s) \<and> tiles m (fst s + 16) (snd s) \<and> snd s \<noteq> [] \<and> 8 dvd fst s \<and> 16 \<le> fst s \<and> fst s + seg_len s \<le> 2 ^ 64"

fun apart :: "segm list \<Rightarrow> bool" where
  "apart [] \<longleftrightarrow> True"
| "apart (s # S) \<longleftrightarrow> (\<forall>t\<in>set S. region s \<inter> region t = {}) \<and> apart S"

definition heap_region :: "nat \<Rightarrow> nat set" where
  "heap_region hp = {hp..<hp + sizeof_heap}"

definition layout :: "mm_heap \<Rightarrow> segm list \<Rightarrow> bool" where
  "layout h S \<longleftrightarrow> lnk 8 (mem h) (segments_list (haddr h)) (map fst S) \<and> (\<forall>s\<in>set S. seg_at (mem h) s \<and> region s \<inter> heap_region (haddr h) = {}) \<and> apart S \<and>
     8 dvd haddr h \<and> 16 \<le> haddr h \<and> dom (mem h) = Collect (cells (haddr h) sizeof_heap) \<union> (\<Union>s\<in>set S. Collect (cells (fst s) (seg_len s)))"

lemma apart_append: "apart (X @ s # Y) \<longleftrightarrow> apart (X @ Y) \<and> (\<forall>t\<in>set (X @ Y). region s \<inter> region t = {})"
  by (induction X) (auto simp: Int_commute)

lemma layoutD:
  assumes "layout h S"
  shows "lnk 8 (mem h) (segments_list (haddr h)) (map fst S)" "\<And>s. s \<in> set S \<Longrightarrow> seg_at (mem h) s" "\<And>s. s \<in> set S \<Longrightarrow> region s \<inter> heap_region (haddr h) = {}" "apart S"
    "8 dvd haddr h" "16 \<le> haddr h" "dom (mem h) = Collect (cells (haddr h) sizeof_heap) \<union> (\<Union>s\<in>set S. Collect (cells (fst s) (seg_len s)))"
  using assms by (simp_all add: layout_def)

lemma apart_regions: "apart S \<Longrightarrow> s \<in> set S \<Longrightarrow> t \<in> set S \<Longrightarrow> s \<noteq> t \<Longrightarrow> region s \<inter> region t = {}"
  by (induction S) (auto simp: Int_commute)

definition bset :: "segm list \<Rightarrow> (nat \<times> nat \<times> bool) set" where
  "bset S = (\<Union>s\<in>set S. tset (fst s + 16) (snd s))"

definition frees :: "segm list \<Rightarrow> nat set" where
  "frees S = {b. \<exists>n. (b, n, False) \<in> bset S}"

definition inner :: "segm list \<Rightarrow> nat set" where
  "inner S = (\<Union>(b, n, u)\<in>bset S. {b + 16..<b + n})"

lemma tile_at:
  assumes l: "layout h S" and b: "(b, n, u) \<in> bset S"
  obtains s where "s \<in> set S" "(b, n, u) \<in> tset (fst s + 16) (snd s)" "mem h b = Some (n + of_bool u)" "32 \<le> n" "8 dvd n" "{b..<b + n} \<subseteq> region s" "fst s + 16 \<le> b" "b + n + 16 \<le> fst s + seg_len s"
    "8 dvd b" "n < 2 ^ 64"
proof -
  obtain s where s: "s \<in> set S" "(b, n, u) \<in> tset (fst s + 16) (snd s)" using b by (auto simp: bset_def)
  have at: "seg_at (mem h) s" by (rule layoutD(2) [OF l s(1)])
  then have t: "tpart (mem h) (fst s + 16) 3 (snd s)" by (simp add: seg_at_def tiles_def)
  note T = tpart_tile [OF t s(2)] and B = tset_bounds [OF s(2)]
  obtain X Y where X: "snd s = X @ (n, u) # Y" "b = fst s + 16 + tsum X" using tset_split [OF s(2)] by blast
  have "8 dvd tsum X" using t unfolding X(1) tpart_append by (blast dest: tpart_mult)
  then have "8 dvd b" using at X(2) by (simp add: seg_at_def)
  then show ?thesis using that [OF s] T B at by (auto simp: region_def seg_len_def seg_at_def)
qed

lemma bset_apart:
  assumes l: "layout h S" and b: "(b, n, u) \<in> bset S" "(c, k, v) \<in> bset S"
  shows "b + n \<le> c \<or> c + k \<le> b \<or> (b, n, u) = (c, k, v)"
proof -
  obtain s where s: "s \<in> set S" "(b, n, u) \<in> tset (fst s + 16) (snd s)" "{b..<b + n} \<subseteq> region s" "32 \<le> n" by (rule tile_at [OF l b(1)]) blast
  obtain t where t: "t \<in> set S" "(c, k, v) \<in> tset (fst t + 16) (snd t)" "{c..<c + k} \<subseteq> region t" "32 \<le> k" by (rule tile_at [OF l b(2)]) blast
  show ?thesis
  proof (cases "s = t")
    case True
    have "tpart (mem h) (fst s + 16) 3 (snd s)" using layoutD(2) [OF l s(1)] by (simp add: seg_at_def tiles_def)
    then show ?thesis using tset_apart s(2) t(2) True by blast
  next
    case False
    then have "region s \<inter> region t = {}" using apart_regions [OF layoutD(4) [OF l] s(1) t(1)] by blast
    then have "{b..<b + n} \<inter> {c..<c + k} = {}" using s(3) t(3) by blast
    moreover have "max b c \<in> {b..<b + n} \<inter> {c..<c + k}" if "c < b + n" "b < c + k" using that s(4) t(4) by auto
    ultimately show ?thesis using not_less by blast
  qed
qed

lemma cells_dom: "layout h S \<Longrightarrow> s \<in> set S \<Longrightarrow> fst s \<le> x \<Longrightarrow> x < fst s + seg_len s \<Longrightarrow> 8 dvd x \<Longrightarrow> x \<in> dom (mem h)"
proof -
  assume l: "layout h S" "s \<in> set S" "fst s \<le> x" "x < fst s + seg_len s" "8 dvd x"
  then have "8 dvd fst s" using layoutD(2) by (simp add: seg_at_def)
  then have "8 dvd x - fst s" using l(5) by (simp add: dvd_diff_nat)
  then have "cells (fst s) (seg_len s) x" using l by (simp add: cells_def dvd_eq_mod_eq_0)
  then show ?thesis using layoutD(7) [OF l(1)] l(2) by blast
qed

lemma heap_dom: "layout h S \<Longrightarrow> i < sizeof_heap \<Longrightarrow> 8 dvd i \<Longrightarrow> haddr h + i \<in> dom (mem h)"
  by (simp add: layoutD(7) cells_def dvd_eq_mod_eq_0)

lemma dom_ge: "layout h S \<Longrightarrow> x \<in> dom (mem h) \<Longrightarrow> 16 \<le> x"

proof -
  assume l: "layout h S" and "x \<in> dom (mem h)"
  then consider "cells (haddr h) sizeof_heap x" | s where "s \<in> set S" "cells (fst s) (seg_len s) x" using layoutD(7) [OF l] by blast
  then show ?thesis
  proof cases
    case 1 then show ?thesis using layoutD(6) [OF l] by (simp add: cells_def)
  next
    case 2 then show ?thesis using layoutD(2) [OF l 2(1)] by (simp add: cells_def seg_at_def)
  qed
qed

text \<open>The free blocks of a layout can be in free lists.\<close>

lemma layout_geo:
  assumes l: "layout h S"
  shows "geo h (frees S)"
proof -
  have f: "block_at (mem h) p \<and> span (mem h) {p} \<inter> heap_arrays (haddr h) = {} \<and> bsize (mem h) p = n" if p: "(p, n, False) \<in> bset S" for p n
  proof -
    obtain s where s: "s \<in> set S" "mem h p = Some (n + of_bool False)" "32 \<le> n" "8 dvd n" "{p..<p + n} \<subseteq> region s" "8 dvd p" "n < 2 ^ 64" "fst s + 16 \<le> p" "p + n + 16 \<le> fst s + seg_len s"
      by (rule tile_at [OF l p]) blast
    have bs: "bsize (mem h) p = n" using s(2) by (simp add: bsize_def)
    have "p + i \<in> dom (mem h)" if "i < n" "8 dvd i" for i by (rule cells_dom [OF l s(1)]) (use that s(6,8,9) in auto)
    then have "block_at (mem h) p" unfolding block_at_def using s(2-4,7) by auto
    moreover have "heap_arrays (haddr h) \<subseteq> heap_region (haddr h)" by (auto simp: heap_arrays_def heap_region_def sizeof_heap_def)
    then have "span (mem h) {p} \<inter> heap_arrays (haddr h) = {}" using layoutD(3) [OF l s(1)] s(5) by (auto simp: span_def bs)
    ultimately show ?thesis using bs by blast
  qed
  have "p + bsize (mem h) p \<le> q \<or> q + bsize (mem h) q \<le> p" if pq: "p \<in> frees S" "q \<in> frees S" "p \<noteq> q" for p q
  proof -
    obtain n k where "(p, n, False) \<in> bset S" "(q, k, False) \<in> bset S" using pq by (auto simp: frees_def)
    then show ?thesis using bset_apart [OF l, of p n False q k False] f [of p n] f [of q k] pq(3) by simp
  qed
  moreover have "block_at (mem h) p \<and> span (mem h) {p} \<inter> heap_arrays (haddr h) = {}" if "p \<in> frees S" for p using f that by (auto simp: frees_def)
  moreover have "haddr h + 664 + i \<in> dom (mem h)" if "i < 1552" "8 dvd i" for i
    using heap_dom [OF l, of "664 + i"] that by (simp add: sizeof_heap_def add.assoc)
  ultimately show ?thesis unfolding geo_def using dom_ge [OF l, of 0] dom_ge [OF l, of 1] by auto
qed

section \<open>Updates\<close>

lemma inner_region:
  assumes l: "layout h S" and s: "s \<in> set S" "c \<in> region s" "c \<in> inner S"
  shows "\<exists>b n u. (b, n, u) \<in> tset (fst s + 16) (snd s) \<and> c \<in> {b + 16..<b + n}"
proof -
  obtain b n u where b: "(b, n, u) \<in> bset S" "c \<in> {b + 16..<b + n}" using s(3) by (auto simp: inner_def)
  obtain t where t: "t \<in> set S" "(b, n, u) \<in> tset (fst t + 16) (snd t)" "{b..<b + n} \<subseteq> region t" by (rule tile_at [OF l b(1)]) blast
  have "c \<in> region t" using b(2) t(3) by auto
  then have "s = t" using apart_regions [OF layoutD(4) [OF l] s(1) t(1)] s(2) by blast
  then show ?thesis using t(2) b(2) by blast
qed

lemma inner_heap: "layout h S \<Longrightarrow> inner S \<inter> heap_region (haddr h) = {}"
proof (rule ccontr)
  assume l: "layout h S" and "inner S \<inter> heap_region (haddr h) \<noteq> {}"
  then obtain c where c: "c \<in> inner S" "c \<in> heap_region (haddr h)" by blast
  then obtain b n u where b: "(b, n, u) \<in> bset S" "c \<in> {b + 16..<b + n}" by (auto simp: inner_def)
  obtain t where "t \<in> set S" "{b..<b + n} \<subseteq> region t" by (rule tile_at [OF l b(1)]) blast
  moreover have "c \<in> {b..<b + n}" using b(2) by simp
  ultimately show False using layoutD(3) [OF l, of t] c(2) by blast
qed

lemma seg_tpart: "layout h S \<Longrightarrow> s \<in> set S \<Longrightarrow> tpart (mem h) (fst s + 16) 3 (snd s)"
  using layoutD(2) by (simp add: seg_at_def tiles_def)

lemma heads_region:
  assumes "tpart m a w L" "c \<in> heads_of a L" "i < 16"
  shows "a \<le> c \<and> c + i < a + tsum L + 16"
proof -
  consider "c = a + tsum L" | k v where "(c, k, v) \<in> tset a L" using assms(2) by (auto simp: heads_of_def)
  then show ?thesis
  proof cases
    case 2 then show ?thesis using tset_bounds [OF 2] assms(3) by auto
  qed (use assms(3) in auto)
qed

text \<open>Headers of blocks and segments are out of reach of updates inside of blocks.\<close>

lemma header_not_inner:
  assumes l: "layout h S" and s: "s \<in> set S"
  shows "c \<in> heads_of (fst s + 16) (snd s) \<Longrightarrow> i < 16 \<Longrightarrow> c + i \<notin> inner S" "i < 16 \<Longrightarrow> fst s + i \<notin> inner S"
    "c \<in> heads_of (fst s + 16) (snd s) \<Longrightarrow> i < 16 \<Longrightarrow> c + i \<in> region s" "i < 16 \<Longrightarrow> fst s + i \<in> region s"
proof -
  note t = seg_tpart [OF l s]
  show r: "c + i \<in> region s" if "c \<in> heads_of (fst s + 16) (snd s)" "i < 16" for c i using heads_region [OF t that] by (simp add: region_def seg_len_def)
  show r2: "fst s + i \<in> region s" if "i < 16" for i using that by (simp add: region_def seg_len_def)
  show "c + i \<notin> inner S" if "c \<in> heads_of (fst s + 16) (snd s)" "i < 16" for c i
    using inner_region [OF l s r [OF that]] head_outside [OF t that(1) _ that(2)] by blast
  show "fst s + i \<notin> inner S" if i: "i < 16" for i
  proof
    assume "fst s + i \<in> inner S"
    then obtain b n u where b: "(b, n, u) \<in> tset (fst s + 16) (snd s)" "fst s + i \<in> {b + 16..<b + n}" using inner_region [OF l s r2 [OF i]] by blast
    then show False using tset_bounds [OF b(1)] i by auto
  qed
qed

lemma layout_inner:
  assumes l: "layout h S" and u: "upd_in (mem h) (mem h') X" "X \<subseteq> (heap_region (haddr h) - {segments_list (haddr h)}) \<union> inner S" and e: "haddr h' = haddr h"
  shows "layout h' S"
proof -
  have k: "mem h' x = mem h x" if "x \<notin> inner S" "x \<notin> heap_region (haddr h) \<or> x = segments_list (haddr h)" for x using u that unfolding upd_in_def by blast
  have hr: "segments_list (haddr h) \<in> heap_region (haddr h)" by (simp add: segments_list_def heap_region_def sizeof_heap_def)
  have k1: "mem h' (fst s + i) = mem h (fst s + i)" if "s \<in> set S" "i < 16" for s i
    using k [OF header_not_inner(2) [OF l that]] header_not_inner(4) [OF l that] layoutD(3) [OF l that(1)] by blast
  have k2: "mem h' (c + i) = mem h (c + i)" if "s \<in> set S" "c \<in> heads_of (fst s + 16) (snd s)" "i < 16" for s c i
    using k [OF header_not_inner(1) [OF l that]] header_not_inner(3) [OF l that] layoutD(3) [OF l that(1)] by blast
  have "lnk 8 (mem h') (segments_list (haddr h)) (map fst S)"
  proof (rule lnk_frame [OF layoutD(1) [OF l]])
    show "mem h' (segments_list (haddr h)) = mem h (segments_list (haddr h))" using k inner_heap [OF l] hr by blast
  qed (use k1 [of _ 8] in auto)
  moreover have "seg_at (mem h') s" if s: "s \<in> set S" for s
  proof -
    have "tiles (mem h') (fst s + 16) (snd s)"
    proof (rule tiles_frame)
      show "tiles (mem h) (fst s + 16) (snd s)" using layoutD(2) [OF l s] by (simp add: seg_at_def)
      show "mem h' b = mem h b \<and> mem h' (b + 8) = mem h (b + 8)" if "b \<in> heads_of (fst s + 16) (snd s)" for b using k2 [OF s that, of 0] k2 [OF s that, of 8] by simp
    qed
    then show ?thesis using layoutD(2) [OF l s] k1 [OF s, of 0] by (simp add: seg_at_def)
  qed
  ultimately show ?thesis using layoutD [OF l] u(1) by (simp add: layout_def e upd_in_def)
qed

lemma tpart_first:
  assumes "tpart m e w Y" "\<And>b t. (b, t) \<in> tset e Y \<Longrightarrow> m' b = m b \<and> (b \<noteq> e \<longrightarrow> m' (b + 8) = m (b + 8))" "m' (e + 8) = Some w'"
  shows "tpart m' e w' Y"
proof (cases Y)
  case (Cons t L)
  have "tpart m' (e + fst t) (word t) L"
  proof (rule tpart_frame)
    show "tpart m (e + fst t) (word t) L" using assms(1) Cons by simp
    fix b y assume y: "(b, y) \<in> tset (e + fst t) L"
    then have "e < b" using tset_bounds [of b "fst y" "snd y" "e + fst t" L] assms(1) Cons by auto
    then show "m' b = m b \<and> m' (b + 8) = m (b + 8)" using assms(2) [of b y] y Cons by auto
  qed
  moreover have "m' e = m e" using assms(2) [of e t] Cons by simp
  ultimately show ?thesis using assms(1,3) Cons by simp
qed simp

text \<open>A part of a segment is tiled anew: only the new headers and the word after the part change.\<close>

lemma retile:
  assumes l: "layout h S" and S: "S = S1 @ (sg, X @ Z @ Y) # S2" and Z: "tsum Z' = tsum Z" "Z' \<noteq> []"
    and u: "upd_in (mem h) (mem h') W" "W \<subseteq> insert (sg + 16 + tsum X + tsum Z + 8) {sg + 16 + tsum X..<sg + 16 + tsum X + tsum Z}" "haddr h' = haddr h"
    and t: "tpart (mem h') (sg + 16 + tsum X) (lastw 3 X) Z'" "mem h' (sg + 16 + tsum X + tsum Z + 8) = Some (lastw 3 (X @ Z'))"
  shows "layout h' (S1 @ (sg, X @ Z' @ Y) # S2)"
proof -
  let ?s = "(sg, X @ Z @ Y)" and ?s' = "(sg, X @ Z' @ Y)" and ?a = "sg + 16 + tsum X" and ?e = "sg + 16 + tsum X + tsum Z"
  have sS: "?s \<in> set S" using S by simp
  have len: "seg_len ?s' = seg_len ?s" "region ?s' = region ?s" using Z(1) by (simp_all add: seg_len_def region_def)
  have W: "W \<subseteq> region ?s" using u(2) by (auto simp: region_def seg_len_def)
  have out: "mem h' x = mem h x" if "x \<notin> region ?s" for x using u(1) that W unfolding upd_in_def by blast
  have kx: "mem h' x = mem h x" if "x < ?a \<or> ?e \<le> x" "x \<noteq> ?e + 8" for x using u(1,2) that unfolding upd_in_def by fastforce
  note P = seg_tpart [OF l sS, simplified, unfolded tpart_append]
  have at: "seg_at (mem h) ?s" by (rule layoutD(2) [OF l sS])
  have pX: "tpart (mem h') (sg + 16) 3 X"
  proof (rule tpart_frame)
    show "tpart (mem h) (sg + 16) 3 X" using P by blast
    then show "mem h' b = mem h b \<and> mem h' (b + 8) = mem h (b + 8)" if "(b, t) \<in> tset (sg + 16) X" for b t
      using kx [of b] kx [of "b + 8"] tset_bounds [of b "fst t" "snd t"] tpart_tile [of "mem h" _ _ X b "fst t" "snd t"] that by fastforce
  qed
  have pY: "tpart (mem h') ?e (lastw 3 (X @ Z')) Y"
  proof (rule tpart_first)
    show py: "tpart (mem h) ?e (lastw 3 (X @ Z)) Y" using P by simp
    fix b t assume b: "(b, t) \<in> tset ?e Y"
    then have "?e \<le> b" using tset_bounds [of b "fst t" "snd t"] by simp
    moreover have "b \<noteq> ?e + 8"
    proof
      assume "b = ?e + 8"
      obtain t0 Y0 where Y: "Y = t0 # Y0" using b by (cases Y) auto
      then have "32 \<le> fst t0" using py by simp
      moreover have "b = ?e \<or> ?e + fst t0 \<le> b" using b Y tset_bounds [of b "fst t" "snd t" "?e + fst t0" Y0] by auto
      ultimately show False using \<open>b = ?e + 8\<close> by simp
    qed
    ultimately show "mem h' b = mem h b \<and> (b \<noteq> ?e \<longrightarrow> mem h' (b + 8) = mem h (b + 8))" using kx [of b] kx [of "b + 8"] by simp
  qed (use t(2) in simp)
  have g: "mem h' (?e + tsum Y) = Some 19" "mem h' (?e + tsum Y + 8) = Some (lastw 3 (X @ Z' @ Y))"
  proof -
    have m: "mem h (?e + tsum Y) = Some 19" "mem h (?e + tsum Y + 8) = Some (lastw 3 (X @ Z @ Y))" using at by (simp_all add: seg_at_def tiles_def add.assoc)
    have "8 dvd tsum Y" "Y \<noteq> [] \<Longrightarrow> 32 \<le> tsum Y" using P tpart_mult by (blast, cases Y) auto
    then have y: "Y = [] \<or> 32 \<le> tsum Y" by blast
    then show "mem h' (?e + tsum Y) = Some 19" using kx [of "?e + tsum Y"] m by auto
    show "mem h' (?e + tsum Y + 8) = Some (lastw 3 (X @ Z' @ Y))"
    proof (cases "Y = []")
      case True then show ?thesis using t(2) by simp
    next
      case False
      then show ?thesis using kx [of "?e + tsum Y + 8"] m y by (auto simp: lastw_def)
    qed
  qed
  have "tiles (mem h') (sg + 16) (X @ Z' @ Y)" unfolding tiles_def tpart_append
    using pX t(1) pY g Z(1) by (simp add: add.assoc)
  moreover have "mem h' sg = mem h sg" "mem h' (sg + 8) = mem h (sg + 8)" using kx [of sg] kx [of "sg + 8"] by simp_all
  ultimately have at': "seg_at (mem h') ?s'" using at len Z(2) by (simp add: seg_at_def)
  have other: "seg_at (mem h') r \<and> region r \<inter> heap_region (haddr h) = {}" if r: "r \<in> set (S1 @ S2)" for r
  proof -
    have rS: "r \<in> set S" using r S by auto
    have "region ?s \<inter> region r = {}" using layoutD(4) [OF l] r unfolding S apart_append by blast
    then have o: "mem h' x = mem h x" if "x \<in> region r" for x using out that by blast
    have "tiles (mem h') (fst r + 16) (snd r)"
    proof (rule tiles_frame)
      show "tiles (mem h) (fst r + 16) (snd r)" using layoutD(2) [OF l rS] by (simp add: seg_at_def)
      show "mem h' b = mem h b \<and> mem h' (b + 8) = mem h (b + 8)" if "b \<in> heads_of (fst r + 16) (snd r)" for b
        using o header_not_inner(3) [OF l rS that, of 0] header_not_inner(3) [OF l rS that, of 8] by simp
    qed
    then show ?thesis using layoutD(2,3) [OF l rS] o header_not_inner(4) [OF l rS, of 0] by (simp add: seg_at_def)
  qed
  have hd': "mem h' x = mem h x" if "x \<in> heap_region (haddr h)" for x using out layoutD(3) [OF l sS] that by blast
  have "lnk 8 (mem h') (segments_list (haddr h)) (map fst S)"
  proof (rule lnk_frame [OF layoutD(1) [OF l]])
    show "mem h' (segments_list (haddr h)) = mem h (segments_list (haddr h))" by (rule hd') (simp add: segments_list_def heap_region_def sizeof_heap_def)
    fix r assume "r \<in> set (map fst S)"
    then consider "r = sg" | q where "q \<in> set (S1 @ S2)" "r = fst q" using S by auto
    then show "mem h' (r + 8) = mem h (r + 8)"
    proof cases
      case 1 then show ?thesis using kx [of "sg + 8"] by simp
    next
      case 2
      then have "q \<in> set S" "region ?s \<inter> region q = {}" using layoutD(4) [OF l] unfolding S apart_append by auto
      then show ?thesis using out header_not_inner(4) [OF l, of q 8] 2(2) by fastforce
    qed
  qed
  moreover have "map fst S = map fst (S1 @ ?s' # S2)" using S by simp
  moreover have "apart (S1 @ ?s' # S2)" using layoutD(4) [OF l] unfolding S apart_append len(2) .
  moreover have "dom (mem h') = dom (mem h)" using u(1) by (simp add: upd_in_def)
  moreover have "region ?s' \<inter> heap_region (haddr h) = {}" using layoutD(3) [OF l sS] len(2) by simp
  ultimately show ?thesis unfolding layout_def u(3) using at' other layoutD(5-7) [OF l] len(1) unfolding S by auto
qed

end
