(* ===== verification/Zend_Mm_Heap.thy ===== *)
theory Zend_Mm_Heap
  imports Zend_Mm_Layout
begin

text \<open>
  The invariant of the memory manager: a layout of segments, whose free blocks are exactly those of the free lists and whose cached blocks are in use,
  and the steps of allocation and release on it.
\<close>

section \<open>The free lists as a set\<close>

definition fl :: "mm_heap \<Rightarrow> nat set \<Rightarrow> bool" where
  "fl h F \<longleftrightarrow> (\<exists>Sm Rs Tr. flists h Sm Rs Tr \<and> fset Sm Rs Tr = F)"

lemma fl_geo: "fl h F \<Longrightarrow> geo h F"
  by (auto simp: fl_def dest: flistsD(1))

lemma fl_remove: "fl h F \<Longrightarrow> b \<in> F \<Longrightarrow> \<exists>h'. zend_mm_remove_from_free_list b h = Some h' \<and> fl h' (F - {b}) \<and> fupd h h' F"
  unfolding fl_def using remove_ok by blast

lemma fl_add: "fl h F \<Longrightarrow> b \<notin> F \<Longrightarrow> geo h (insert b F) \<Longrightarrow> \<exists>h'. zend_mm_add_to_free_list b h = Some h' \<and> fl h' (insert b F) \<and> fupd h h' (insert b F)"
  unfolding fl_def using add_ok by blast

lemma fl_add_rest: "fl h F \<Longrightarrow> b \<notin> F \<Longrightarrow> geo h (insert b F) \<Longrightarrow> \<exists>h'. zend_mm_add_to_rest_list b h = Some h' \<and> fl h' (insert b F) \<and> fupd h h' (insert b F)"
  unfolding fl_def using add_rest_ok by blast

text \<open>The lists depend on the arrays of the heap and on their blocks, but for the word before each block.\<close>

lemma fl_agree:
  assumes f: "fl h F" and e: "haddr h' = haddr h" "free_bitmap h' = free_bitmap h" "large_free_bitmap h' = large_free_bitmap h" "rest_count h' = rest_count h"
    and a: "\<And>x. x \<in> heap_arrays (haddr h) \<Longrightarrow> mem h' x = mem h x"
    and b: "\<And>p i. p \<in> F \<Longrightarrow> i < bsize (mem h) p \<Longrightarrow> i \<noteq> 8 \<Longrightarrow> mem h' (p + i) = mem h (p + i)" "\<And>p. p \<in> F \<Longrightarrow> p + 8 \<in> dom (mem h')"
    and d: "0 \<notin> dom (mem h')" "1 \<notin> dom (mem h')"
  shows "fl h' F"
proof -
  obtain Sm Rs Tr where fs: "flists h Sm Rs Tr" "fset Sm Rs Tr = F" using f by (auto simp: fl_def)
  note g = flistsD(1) [OF fs(1), unfolded fs(2)]
  note B = block_atD [OF geoD(1) [OF g]]
  have k: "mem h' (p + i) = mem h (p + i)" if "p \<in> F" "i < 32" "i \<noteq> 8" for p i using b(1) [OF that(1) _ that(3)] B(2) [OF that(1)] that(2) by simp
  have k0: "mem h' p = mem h p" "bsize (mem h') p = bsize (mem h) p" if "p \<in> F" for p using k [OF that, of 0] by (simp_all add: bsize_def)
  have "block_at (mem h') p" if p: "p \<in> F" for p
  proof -
    have "p + i \<in> dom (mem h')" if "i < bsize (mem h) p" "8 dvd i" for i
    proof (cases "i = 8")
      case False
      have "p + i \<in> dom (mem h)" by (rule B(5) [OF p that])
      then show ?thesis using b(1) [OF p that(1) False] by (simp add: dom_def)
    qed (use b(2) [OF p] in simp)
    then show ?thesis using k0(1) [OF p] B(1-4) [OF p] by (auto simp: block_at_def)
  qed
  moreover have "span (mem h') {p} \<inter> heap_arrays (haddr h) = {}" if "p \<in> F" for p using span_heap [OF g, of "{p}"] k0(2) [OF that] that by (simp add: span_def)
  moreover have "p + bsize (mem h') p \<le> q \<or> q + bsize (mem h') q \<le> p" if "p \<in> F" "q \<in> F" "p \<noteq> q" for p q using geoD(3) [OF g that] k0 that by simp
  moreover have "haddr h + 664 + i \<in> dom (mem h')" if "i < 1552" "8 dvd i" for i
    using geoD(6) [OF g that] a [of "haddr h + 664 + i"] that by (simp add: heap_arrays_def dom_def)
  ultimately have G: "geo h' F" unfolding geo_def e(1) using d by simp
  have rg: "ring (mem h') x L" if r: "ring (mem h) x L" "set L \<subseteq> F" "{x + 16, x + 24} \<subseteq> heap_arrays (haddr h)" for x L
  proof (rule ring_frame [OF r(1)])
    fix v assume "v \<in> set (x # L)"
    then consider "v = x" | "v \<in> F" using r(2) by auto
    then show "mem h' (v + 16) = mem h (v + 16) \<and> mem h' (v + 24) = mem h (v + 24)" by cases (use a r(3) k in auto)
  qed
  have sm: "small_at (mem h') (haddr h) i (Sm i)" if i: "i < 64" for i
  proof -
    have s: "set (Sm i) \<subseteq> F" using fset_mem(1) [OF i, of Sm Rs Tr] fs(2) by simp
    note o = flistsD(2) [OF fs(1) i, unfolded small_at_def]
    show ?thesis unfolding small_at_def using rg [OF o [THEN conjunct1] s small_cells [OF i]] o k0(1) s by auto
  qed
  have Rs: "set Rs \<subseteq> F" using fset_mem(2) [of Rs Sm Tr] fs(2) by simp
  note o = flistsD(7) [OF fs(1), unfolded rest_at_def]
  have rs: "rest_at (mem h') (haddr h) Rs" unfolding rest_at_def
  proof (intro conjI ballI impI)
    fix p assume p: "p \<in> set Rs" "544 \<le> bsize (mem h') p"
    then have "p \<in> F" "544 \<le> bsize (mem h) p" using Rs k0 by auto
    then show "mem h' (p + 32) = Some ZEND_MM_REST_BLOCK" using b(1) [of p 32] o p(1) by simp
  qed (rule rg [OF o [THEN conjunct1] Rs rest_cells])
  have rl: "rest_large (mem h') Rs = rest_large (mem h) Rs" unfolding rest_large_def
    by (rule arg_cong [of _ _ "\<lambda>xs. int (length xs)"], rule filter_cong) (use k0(2) Rs in auto)
  have tr: "tree_at (mem h') (large_free_buckets (haddr h) i) (Tr i)" if i: "i < 64" for i
  proof (rule tree_frame [THEN iffD2])
    note lg = flistsD(9) [OF fs(1)]
    show "tree_at (mem h) (large_free_buckets (haddr h) i) (Tr i)" by (rule large_okD(1) [OF lg i])
    fix q j :: nat assume q: "q \<in> set (tblocks (Tr i))" "j < 56" "j \<noteq> 8"
    then have "q \<in> F" using fset_mem(3) [OF i, of Tr Sm Rs] fs(2) by blast
    then show "mem h' (q + j) = mem h (q + j)" using b(1) [of q j] tree_block(2) [OF lg i q(1)] q by simp
  qed (rule a [OF tree_cell [OF i]])
  have "large_ok h' Tr" using flistsD(9) [OF fs(1)] tr by (simp add: large_ok_def e)
  then have "flists h' Sm Rs Tr" unfolding flists_def e fs(2) using G sm rs rl flistsD(3-6,8) [OF fs(1)] by simp
  then show ?thesis using fs(2) by (auto simp: fl_def)
qed

section \<open>The cache\<close>

text \<open>A list of cached blocks, each with the address of the next one; the cell of the heap that starts the list is up to date for the indices in \<open>I\<close>.\<close>

definition start :: "nat list \<Rightarrow> nat" where
  "start L = (if L = [] then 0 else hd L)"

fun vlist :: "(nat \<rightharpoonup> nat) \<Rightarrow> nat list \<Rightarrow> bool" where
  "vlist m [] \<longleftrightarrow> True"
| "vlist m (b # L) \<longleftrightarrow> b \<noteq> 0 \<and> m (b + 16) = Some (start L) \<and> vlist m L"

lemma start_simps [simp]: "start [] = 0" "start (b # L) = b"
  by (simp_all add: start_def)

lemma vlist_frame: "vlist m L \<Longrightarrow> (\<And>b. b \<in> set L \<Longrightarrow> m' (b + 16) = m (b + 16)) \<Longrightarrow> vlist m' L"
  by (induction L) auto

definition caches :: "mm_heap \<Rightarrow> segm list \<Rightarrow> (nat \<Rightarrow> nat list) \<Rightarrow> nat set \<Rightarrow> bool" where
  "caches h S Ca I \<longleftrightarrow> (\<forall>i<64. vlist (mem h) (Ca i) \<and> distinct (Ca i) \<and> (\<forall>b\<in>set (Ca i). (b, 32 + 8 * i, True) \<in> bset S) \<and>
     (i \<in> I \<longrightarrow> mem h (cache (haddr h) i) = Some (start (Ca i))))"

definition cset :: "(nat \<Rightarrow> nat list) \<Rightarrow> nat set" where
  "cset Ca = (\<Union>i<64. set (Ca i))"

lemma cachesD:
  assumes "caches h S Ca I" "i < 64"
  shows "vlist (mem h) (Ca i)" "distinct (Ca i)" "\<And>b. b \<in> set (Ca i) \<Longrightarrow> (b, 32 + 8 * i, True) \<in> bset S" "i \<in> I \<Longrightarrow> mem h (cache (haddr h) i) = Some (start (Ca i))"
  using assms by (auto simp: caches_def)

lemma caches_frame:
  assumes c: "caches h S Ca I" and e: "haddr h' = haddr h"
    and a: "\<And>i. i < 64 \<Longrightarrow> mem h' (cache (haddr h) i) = mem h (cache (haddr h) i)" "\<And>b. b \<in> cset Ca \<Longrightarrow> mem h' (b + 16) = mem h (b + 16)"
    and s: "\<And>b n. b \<in> cset Ca \<Longrightarrow> (b, n, True) \<in> bset S \<Longrightarrow> (b, n, True) \<in> bset S'"
  shows "caches h' S' Ca I"
  unfolding caches_def
proof (intro allI impI conjI ballI)
  fix i :: nat assume i: "i < 64"
  have C: "b \<in> cset Ca" if "b \<in> set (Ca i)" for b using that i by (auto simp: cset_def)
  show "vlist (mem h') (Ca i)" by (rule vlist_frame [OF cachesD(1) [OF c i] a(2) [OF C]])
  show "distinct (Ca i)" by (rule cachesD(2) [OF c i])
  show "(b, 32 + 8 * i, True) \<in> bset S'" if "b \<in> set (Ca i)" for b by (rule s [OF C [OF that] cachesD(3) [OF c i that]])
  show "mem h' (cache (haddr h') i) = Some (start (Ca i))" if "i \<in> I" using cachesD(4) [OF c i that] a(1) [OF i] e by simp
qed

section \<open>The invariant\<close>

text \<open>Some free blocks may be out of the lists, in the hands of the operation that runs.\<close>

definition heap_at :: "mm_heap \<Rightarrow> segm list \<Rightarrow> (nat \<Rightarrow> nat list) \<Rightarrow> nat set \<Rightarrow> nat set \<Rightarrow> bool" where
  "heap_at h S Ca I F \<longleftrightarrow> layout h S \<and> caches h S Ca I \<and> fl h F \<and> F \<subseteq> frees S"

definition live :: "segm list \<Rightarrow> (nat \<Rightarrow> nat list) \<Rightarrow> (nat \<times> nat) set" where
  "live S Ca = {(b, n). (b, n, True) \<in> bset S \<and> b \<notin> cset Ca}"

definition usd :: "segm list \<Rightarrow> (nat \<times> nat) set" where
  "usd S = {(b, n). (b, n, True) \<in> bset S}"

definition keeps :: "mm_heap \<Rightarrow> mm_heap \<Rightarrow> (nat \<times> nat) set \<Rightarrow> bool" where
  "keeps h h' A \<longleftrightarrow> (\<forall>(b, n)\<in>A. \<forall>i. 16 \<le> i \<and> i < n \<longrightarrow> mem h' (b + i) = mem h (b + i))"

definition conf :: "mm_heap \<Rightarrow> nat \<times> nat \<times> nat \<times> nat \<times> nat \<times> nat" where
  "conf h = (haddr h, block_size h, limit h, reserve h, reserve_size h, overflow h)"

lemma keeps_trans: "keeps h h1 A \<Longrightarrow> keeps h1 h2 A \<Longrightarrow> keeps h h2 A"
  unfolding keeps_def by fastforce

lemma keeps_mono: "keeps h h' A \<Longrightarrow> B \<subseteq> A \<Longrightarrow> keeps h h' B"
  unfolding keeps_def by blast

lemma keeps_mem: "mem h' = mem h \<Longrightarrow> keeps h h' A"
  by (simp add: keeps_def)

lemma heap_atD:
  assumes "heap_at h S Ca I F"
  shows "layout h S" "caches h S Ca I" "fl h F" "F \<subseteq> frees S"
  using assms by (simp_all add: heap_at_def)

lemma tile_word: "layout h S \<Longrightarrow> (b, n, u) \<in> bset S \<Longrightarrow> mem h b = Some (n + of_bool u) \<and> 32 \<le> n"
  by (rule tile_at) blast+

lemma free_tile: "b \<in> frees S \<Longrightarrow> layout h S \<Longrightarrow> (b, bsize (mem h) b, False) \<in> bset S"
proof -
  assume "b \<in> frees S" and l: "layout h S"
  then obtain n where n: "(b, n, False) \<in> bset S" by (auto simp: frees_def)
  then show ?thesis using tile_word [OF l n] by (simp add: bsize_def)
qed

lemma body_inner: "layout h S \<Longrightarrow> P \<subseteq> frees S \<Longrightarrow> body (mem h) P \<subseteq> inner S"
  using free_tile unfolding body_def inner_def by fastforce

lemma not_both: "layout h S \<Longrightarrow> (b, n, u) \<in> bset S \<Longrightarrow> (b, k, v) \<in> bset S \<Longrightarrow> n = k \<and> u = v"
  using bset_apart [of h S b n u b k v] tile_word [of h S b n u] tile_word [of h S b k v] by simp

text \<open>The inside of a block in use is not reached by what happens to the free blocks.\<close>

lemma used_not_body:
  assumes l: "layout h S" and P: "P \<subseteq> frees S" and b: "(b, n, True) \<in> bset S" "i < n"
  shows "b + i \<notin> body (mem h) P"
proof
  assume "b + i \<in> body (mem h) P"
  then obtain p where p: "p \<in> P" "p + 16 \<le> b + i" "b + i < p + bsize (mem h) p" by (auto simp: body_def)
  then have "(p, bsize (mem h) p, False) \<in> bset S" using free_tile [OF _ l] P by blast
  then show False using bset_apart [OF l b(1)] p b(2) by fastforce
qed

lemma used_not_heap:
  assumes l: "layout h S" and b: "(b, n, u) \<in> bset S" "i < n"
  shows "b + i \<notin> heap_region (haddr h)"
proof -
  obtain s where s: "s \<in> set S" "{b..<b + n} \<subseteq> region s" by (rule tile_at [OF l b(1)]) blast
  have "b + i \<in> {b..<b + n}" using b(2) by simp
  then show ?thesis using layoutD(3) [OF l s(1)] s(2) by blast
qed

lemma arrays_heap: "heap_arrays hp \<subseteq> heap_region hp - {segments_list hp}" "cache hp i \<notin> heap_arrays hp \<or> 64 \<le> i" "i < 64 \<Longrightarrow> cache hp i \<in> heap_region hp - {segments_list hp}"
  by (auto simp: heap_arrays_def heap_region_def sizeof_heap_def segments_list_def cache_def)

text \<open>An operation on the free lists, inside of the invariant.\<close>

lemma heap_fupd:
  assumes h: "heap_at h S Ca I F" and u: "fupd h h' P" "P \<subseteq> frees S" and f: "fl h' F'" "F' \<subseteq> frees S"
  shows "heap_at h' S Ca I F'" "keeps h h' (usd S)" "conf h' = conf h" "real_size h' = real_size h"
proof -
  note l = heap_atD(1) [OF h] and c = heap_atD(2) [OF h]
  note U = fupd_fields [OF u(1)]
  have X: "heap_arrays (haddr h) \<union> body (mem h) P \<subseteq> (heap_region (haddr h) - {segments_list (haddr h)}) \<union> inner S"
    using arrays_heap(1) body_inner [OF l u(2)] by blast
  have l': "layout h' S" by (rule layout_inner [OF l U [THEN conjunct2] X]) (use U in blast)
  have k: "mem h' x = mem h x" if "x \<notin> heap_arrays (haddr h)" "x \<notin> body (mem h) P" for x using U that by (simp add: upd_in_def)
  have used: "mem h' (b + i) = mem h (b + i)" if "(b, n, True) \<in> bset S" "i < n" for b n i
    by (rule k) (use used_not_heap [OF l that] used_not_body [OF l u(2) that] arrays_heap(1) in blast)+
  have "caches h' S Ca I"
  proof (rule caches_frame [OF c])
    fix i :: nat assume i: "i < 64"
    have "cache (haddr h) i \<notin> body (mem h) P" using body_inner [OF l u(2)] inner_heap [OF l] arrays_heap(3) [OF i] by blast
    then show "mem h' (cache (haddr h) i) = mem h (cache (haddr h) i)" using k arrays_heap(2) [of "haddr h" i] i by simp
  next
    fix b assume "b \<in> cset Ca"
    then obtain i where "i < 64" "b \<in> set (Ca i)" by (auto simp: cset_def)
    then show "mem h' (b + 16) = mem h (b + 16)" using used [OF cachesD(3) [OF c], of i b 16] by simp
  qed (use U in auto)
  then show "heap_at h' S Ca I F'" using l' f by (simp add: heap_at_def)
  show "keeps h h' (usd S)" unfolding keeps_def usd_def using used by auto
  show "conf h' = conf h" "real_size h' = real_size h" using u(1) by (auto simp: fupd_def conf_def)
qed

section \<open>Tiling anew\<close>

definition others :: "segm list \<Rightarrow> nat \<Rightarrow> (nat \<times> bool) list \<Rightarrow> nat \<Rightarrow> (nat \<times> bool) list \<Rightarrow> segm list \<Rightarrow> (nat \<times> nat \<times> bool) set" where
  "others S1 sg X k Y S2 = bset S1 \<union> bset S2 \<union> tset (sg + 16) X \<union> tset (sg + 16 + tsum X + k) Y"

lemma bset_others: "tsum Z = k \<Longrightarrow> bset (S1 @ (sg, X @ Z @ Y) # S2) = others S1 sg X k Y S2 \<union> tset (sg + 16 + tsum X) Z"
  by (auto simp: bset_def others_def tset_append add.assoc)

lemma others_outside:
  assumes l: "layout h (S1 @ (sg, X @ Z @ Y) # S2)" and p: "(p, n, u) \<in> others S1 sg X (tsum Z) Y S2" "i < n" "i \<noteq> 8"
  shows "p + i \<notin> insert (sg + 16 + tsum X + tsum Z + 8) {sg + 16 + tsum X..<sg + 16 + tsum X + tsum Z}"
proof -
  let ?s = "(sg, X @ Z @ Y)" and ?e = "sg + 16 + tsum X + tsum Z"
  have pb: "(p, n, u) \<in> bset (S1 @ ?s # S2)" using p(1) bset_others [of Z "tsum Z"] by blast
  note tp = seg_tpart [OF l, of ?s, simplified, unfolded tpart_append]
  consider "(p, n, u) \<in> bset (S1 @ S2)" | "(p, n, u) \<in> tset (sg + 16) X" | "(p, n, u) \<in> tset ?e Y"
    using p(1) by (auto simp: others_def bset_def)
  then show ?thesis
  proof cases
    case 1
    obtain r where r: "r \<in> set (S1 @ S2)" "(p, n, u) \<in> tset (fst r + 16) (snd r)" using 1 by (auto simp: bset_def)
    have "p + i \<in> region r" using tset_bounds [OF r(2)] p(2) by (simp add: region_def seg_len_def)
    moreover have "region ?s \<inter> region r = {}" using layoutD(4) [OF l] r(1) unfolding apart_append by blast
    moreover have "insert (?e + 8) {sg + 16 + tsum X..<?e} \<subseteq> region ?s" by (auto simp: region_def seg_len_def)
    ultimately show ?thesis by blast
  next
    case 2 then show ?thesis using tset_bounds [OF 2] p(2) by auto
  next
    case 3
    obtain X' Y' where Y: "Y = X' @ (n, u) # Y'" "p = ?e + tsum X'" using tset_split [OF 3] by blast
    have "32 \<le> tsum X'" if "X' \<noteq> []" using tp that unfolding Y(1) by (cases X') auto
    then show ?thesis using p(3) Y(2) by (cases "X' = []") auto
  qed
qed

lemma heap_retile:
  assumes h: "heap_at h S Ca I F" and S: "S = S1 @ (sg, X @ Z @ Y) # S2" and Z: "tsum Z' = tsum Z" "Z' \<noteq> []"
    and u: "upd_in (mem h) (mem h') W" "W \<subseteq> insert (sg + 16 + tsum X + tsum Z + 8) {sg + 16 + tsum X..<sg + 16 + tsum X + tsum Z}"
    and e: "haddr h' = haddr h" "free_bitmap h' = free_bitmap h" "large_free_bitmap h' = large_free_bitmap h" "rest_count h' = rest_count h"
    and t: "tpart (mem h') (sg + 16 + tsum X) (lastw 3 X) Z'" "mem h' (sg + 16 + tsum X + tsum Z + 8) = Some (lastw 3 (X @ Z'))"
    and i: "\<And>b t. (b, t) \<in> tset (sg + 16 + tsum X) Z \<Longrightarrow> b \<notin> F \<and> b \<notin> cset Ca"
  shows "heap_at h' (S1 @ (sg, X @ Z' @ Y) # S2) Ca I F" "keeps h h' {(b, n). (b, n, True) \<in> others S1 sg X (tsum Z) Y S2}"
proof -
  let ?S' = "S1 @ (sg, X @ Z' @ Y) # S2" and ?R = "others S1 sg X (tsum Z) Y S2" and ?e = "sg + 16 + tsum X + tsum Z"
  note l = heap_atD(1) [OF h] and c = heap_atD(2) [OF h]
  have l': "layout h' ?S'" by (rule retile [OF l S Z u e(1) t])
  have B: "bset S = ?R \<union> tset (sg + 16 + tsum X) Z" unfolding S by (rule bset_others) simp
  have B': "bset ?S' = ?R \<union> tset (sg + 16 + tsum X) Z'" by (rule bset_others) (use Z(1) in simp)
  have k: "mem h' (p + j) = mem h (p + j)" if "(p, n, v) \<in> ?R" "j < n" "j \<noteq> 8" for p n v j
    using others_outside [OF l [unfolded S] that] u unfolding upd_in_def by blast
  have W: "W \<inter> heap_region (haddr h) = {}"
  proof -
    have "W \<subseteq> region (sg, X @ Z @ Y)" using u(2) by (auto simp: region_def seg_len_def)
    then show ?thesis using layoutD(3) [OF l, of "(sg, X @ Z @ Y)"] S by auto
  qed
  have kh: "mem h' x = mem h x" if "x \<in> heap_region (haddr h)" for x using u(1) W that unfolding upd_in_def by blast
  have FR: "(p, bsize (mem h) p, False) \<in> ?R" if "p \<in> F" for p
  proof -
    have "(p, bsize (mem h) p, False) \<in> bset S" using free_tile [OF _ l] heap_atD(4) [OF h] that by blast
    then show ?thesis using B i that by blast
  qed
  have CR: "(b, n, True) \<in> ?R" if "b \<in> cset Ca" "(b, n, True) \<in> bset S" for b n using that B i by blast
  have "fl h' F"
  proof (rule fl_agree [OF heap_atD(3) [OF h] e])
    show "mem h' x = mem h x" if "x \<in> heap_arrays (haddr h)" for x using kh arrays_heap(1) that by blast
    show "mem h' (p + j) = mem h (p + j)" if "p \<in> F" "j < bsize (mem h) p" "j \<noteq> 8" for p j by (rule k [OF FR [OF that(1)] that(2,3)])
    show "p + 8 \<in> dom (mem h')" if "p \<in> F" for p
    proof -
      have p: "p \<in> F" "32 \<le> bsize (mem h) p" using that tile_word [OF l] FR [OF that] B by blast+
      then have "p + 8 \<in> dom (mem h)" using block_atD(5) [OF geoD(1) [OF fl_geo [OF heap_atD(3) [OF h]]], of p 8] by simp
      then show ?thesis using u(1) by (simp add: upd_in_def)
    qed
    show "0 \<notin> dom (mem h')" "1 \<notin> dom (mem h')" using dom_ge [OF l', of 0] dom_ge [OF l', of 1] by auto
  qed
  moreover have "F \<subseteq> frees ?S'" using FR B' by (auto simp: frees_def)
  moreover have "caches h' ?S' Ca I"
  proof (rule caches_frame [OF c e(1)])
    show "mem h' (cache (haddr h) j) = mem h (cache (haddr h) j)" if "j < 64" for j using kh arrays_heap(3) [OF that] by blast
    show "mem h' (b + 16) = mem h (b + 16)" if b: "b \<in> cset Ca" for b
    proof -
      obtain j where j: "j < 64" "b \<in> set (Ca j)" using b by (auto simp: cset_def)
      then have "(b, 32 + 8 * j, True) \<in> bset S" using cachesD(3) [OF c] by blast
      then show ?thesis using k [OF CR [OF b], of "32 + 8 * j" 16] by simp
    qed
    show "(b, n, True) \<in> bset ?S'" if "b \<in> cset Ca" "(b, n, True) \<in> bset S" for b n using CR [OF that] B' by blast
  qed
  ultimately show "heap_at h' ?S' Ca I F" using l' by (simp add: heap_at_def)
  show "keeps h h' {(b, n). (b, n, True) \<in> ?R}" unfolding keeps_def using k by auto
qed

definition ffree :: "(nat \<times> nat \<times> bool) set \<Rightarrow> nat set" where
  "ffree B = {b. \<exists>n. (b, n, False) \<in> B}"

lemma ffree_simps: "frees S = ffree (bset S)" "ffree (A \<union> B) = ffree A \<union> ffree B" "ffree {} = {}" "ffree (insert (b, n, u) B) = (if u then ffree B else insert b (ffree B))"
  by (auto simp: ffree_def frees_def)

lemma others_disjoint:
  assumes l: "layout h (S1 @ (sg, X @ Z @ Y) # S2)" and p: "(p, n, u) \<in> others S1 sg X (tsum Z) Y S2" and q: "(q, k, v) \<in> tset (sg + 16 + tsum X) Z"
  shows "p \<noteq> q"
proof -
  have pb: "(p, n, u) \<in> bset (S1 @ (sg, X @ Z @ Y) # S2)" "(q, k, v) \<in> bset (S1 @ (sg, X @ Z @ Y) # S2)" using p q bset_others [of Z "tsum Z"] by blast+
  then have "0 < n" "0 < k" using tile_word [OF l] by fastforce+
  then have "p \<notin> {sg + 16 + tsum X..<sg + 16 + tsum X + tsum Z}" using others_outside [OF l p, of 0] by simp
  moreover have "q \<in> {sg + 16 + tsum X..<sg + 16 + tsum X + tsum Z}" using tset_bounds [OF q] \<open>0 < k\<close> by auto
  ultimately show ?thesis by auto
qed

section \<open>Deleting a segment\<close>

lemma find_segment_ok:
  assumes "lnk d (mem h) p (as @ s # bs)" "d = 8" "s \<notin> set as"
  shows "find_segment p s h = Some (if as = [] then p else last as + 8)"
  using assms
proof (induction as arbitrary: p)
  case Nil
  then show ?case by (subst find_segment.simps) (simp add: ld_def)
next
  case (Cons a as)
  have "find_segment (a + 8) s h = Some (if as = [] then a + 8 else last as + 8)" by (rule Cons.IH) (use Cons.prems in auto)
  then show ?case using Cons.prems by (subst find_segment.simps) (simp add: ld_def)
qed

lemma lnk_next: "lnk d m p (as @ s # bs) \<Longrightarrow> \<exists>v. m (s + d) = Some v \<and> lnk d m (s + d) bs"
  by (induction as arbitrary: p) (auto, cases bs, auto)

lemma lnk_unlink:
  assumes "lnk d m p (as @ s # bs)" "m (s + d) = Some v" "distinct (as @ s # bs)" "\<And>x. x \<in> set (as @ bs) \<Longrightarrow> p \<noteq> x + d"
  shows "lnk d (m((if as = [] then p else last as + d) \<mapsto> v)) p (as @ bs)"
  using assms
proof (induction as arbitrary: p)
  case Nil
  have l: "lnk d m (s + d) bs" using Nil.prems(1) by simp
  show ?case
  proof (cases bs)
    case bs: (Cons c cs)
    have "lnk d (m(p \<mapsto> v)) (c + d) cs" by (rule lnk_frame [of d m]) (use l bs Nil.prems(4) in auto)
    then show ?thesis using l bs Nil.prems(2) by (simp add: fun_upd_same del: fun_upd_apply)
  qed (use l Nil.prems(2) in simp)
next
  case (Cons a as)
  have "lnk d (m((if as = [] then a + d else last as + d) \<mapsto> v)) (a + d) (as @ bs)" by (rule Cons.IH) (use Cons.prems in auto)
  moreover have "p \<noteq> last (a # as) + d" using Cons.prems(4) last_in_set [of "a # as"] by (metis append_Cons in_set_conv_decomp_first append.assoc list.distinct(1) append_is_Nil_conv Un_iff set_append)
  ultimately show ?case using Cons.prems(1) by (cases "as = []") (simp_all del: fun_upd_apply add: fun_upd_other)
qed

lemma cut_out: "D' = D - C \<Longrightarrow> C \<subseteq> R \<Longrightarrow> U \<inter> R = {} \<Longrightarrow> H \<inter> R = {} \<Longrightarrow> D = H \<union> (U \<union> C) \<Longrightarrow> D' = H \<union> U"
  by blast

text \<open>A segment that is given back, with all of its blocks in the hands of the operation.\<close>

lemma heap_del:
  assumes h: "heap_at h S Ca I F" and S: "S = S1 @ (sg, Z) # S2" and i: "\<And>b t. (b, t) \<in> tset (sg + 16) Z \<Longrightarrow> b \<notin> F \<and> b \<notin> cset Ca"
  shows "\<exists>h'. zend_mm_del_segment sg h = Some h' \<and> heap_at h' (S1 @ S2) Ca I F \<and> keeps h h' {(b, n). (b, n, True) \<in> bset (S1 @ S2)} \<and> conf h' = conf h \<and>
    real_size h' = size_sub (real_size h) (seg_len (sg, Z))"
proof -
  let ?s = "(sg, Z)" and ?p = "segments_list (haddr h)"
  note l = heap_atD(1) [OF h] and c = heap_atD(2) [OF h]
  have sS: "?s \<in> set S" using S by simp
  have at: "seg_at (mem h) ?s" by (rule layoutD(2) [OF l sS])
  have ap: "region ?s \<inter> region r = {}" if "r \<in> set (S1 @ S2)" for r using layoutD(4) [OF l] that unfolding S apart_append by blast
  have neq: "fst r \<noteq> fst t" if "r \<in> set S" "t \<in> set S" "r \<noteq> t" for r t
    using apart_regions [OF layoutD(4) [OF l] that] header_not_inner(4) [OF l that(1), of 0] header_not_inner(4) [OF l that(2), of 0] by auto
  have "distinct S" using layoutD(4) [OF l] header_not_inner(4) [OF l, of _ 0] 
  proof (induction S)
    case (Cons a S) then show ?case by (auto simp: region_def seg_len_def)
  qed simp
  then have dS: "distinct (map fst S)" using neq by (auto simp: distinct_map inj_on_def)
  let ?as = "map fst S1" and ?bs = "map fst S2"
  have lk: "lnk 8 (mem h) ?p (?as @ sg # ?bs)" using layoutD(1) [OF l] S by simp
  obtain v where v: "mem h (sg + 8) = Some v" using lnk_next [OF lk] by blast
  define q where "q = (if ?as = [] then ?p else last ?as + 8)"
  have fnd: "find_segment ?p sg h = Some q" unfolding q_def by (rule find_segment_ok [OF lk]) (use dS S in auto)
  have ph: "?p \<in> heap_region (haddr h)" by (simp add: segments_list_def heap_region_def sizeof_heap_def)
  have sh: "fst r + 8 \<in> region r" "fst r + 8 \<notin> heap_region (haddr h)" if "r \<in> set S" for r
    using header_not_inner(4) [OF l that, of 8] layoutD(3) [OF l that] by auto
  have q: "q \<in> heap_region (haddr h) \<and> q = ?p \<or> (\<exists>r\<in>set S1. q = fst r + 8)"
  proof (cases "S1 = []")
    case True then show ?thesis using ph by (simp add: q_def)
  next
    case False then show ?thesis by (intro disjI2 bexI [of _ "last S1"]) (simp_all add: q_def last_map)
  qed
  have qd: "q \<in> dom (mem h)"
  proof (cases "S1 = []")
    case True then show ?thesis using lk by (cases "?as @ sg # ?bs") (auto simp: q_def)
  next
    case False
    have lastS: "S1 = butlast S1 @ [last S1]" using False by simp
    have "lnk 8 (mem h) ?p (map fst (butlast S1) @ fst (last S1) # sg # ?bs)" using lk by (subst (asm) lastS) simp
    then show ?thesis using lnk_next [of 8 "mem h" ?p "map fst (butlast S1)" "fst (last S1)"] False by (auto simp: q_def last_map)
  qed
  let ?m1 = "(mem h)(q \<mapsto> v)"
  have msg: "?m1 sg = Some (seg_len ?s)"
  proof -
    have "sg \<noteq> q"
    proof
      assume "sg = q"
      then consider "q \<in> heap_region (haddr h)" | r where "r \<in> set S1" "q = fst r + 8" using q by blast
      then show False
      proof cases
        case 1 then show False using header_not_inner(4) [OF l sS, of 0] layoutD(3) [OF l sS] \<open>sg = q\<close> by auto
      next
        case 2 then show False using sh(1) [of r] ap [of r] header_not_inner(4) [OF l sS, of 0] S \<open>sg = q\<close> by auto
      qed
    qed
    then show ?thesis using at by (simp add: seg_at_def)
  qed
  define h' where "h' = ZEND_MM_STORAGE_FREE sg (seg_len ?s) (h\<lparr>mem := ?m1, real_size := size_sub (real_size h) (seg_len ?s)\<rparr>)"
  have run: "zend_mm_del_segment sg h = Some h'"
    using fnd v qd msg by (simp add: zend_mm_del_segment_def ld_def h'_def del: fun_upd_apply)
  have m': "mem h' x = (if cells sg (seg_len ?s) x then None else ?m1 x)" for x by (simp add: h'_def ZEND_MM_STORAGE_FREE_def)
  have k: "mem h' x = mem h x" if "x \<notin> region ?s" "x \<noteq> q" for x using that by (auto simp: m' region_def cells_def)
  have e: "haddr h' = haddr h" "free_bitmap h' = free_bitmap h" "large_free_bitmap h' = large_free_bitmap h" "rest_count h' = rest_count h" "conf h' = conf h"
    "real_size h' = size_sub (real_size h) (seg_len ?s)"
    by (simp_all add: h'_def ZEND_MM_STORAGE_FREE_def conf_def)
  have r12: "r \<in> set S" if "r \<in> set (S1 @ S2)" for r using that S by auto
  have qr: "q \<noteq> x" if "r \<in> set (S1 @ S2)" "x \<in> region r" "x \<noteq> fst r + 8" for x r
  proof
    assume "q = x"
    then consider "x \<in> heap_region (haddr h)" | t where "t \<in> set S1" "x = fst t + 8" using q by blast
    then show False
    proof cases
      case 1 then show False using layoutD(3) [OF l r12 [OF that(1)]] that(2) by blast
    next
      case 2
      then have "t \<in> set S" "x \<in> region t" using sh(1) [of t] S by auto
      then have "t = r" using apart_regions [OF layoutD(4) [OF l] _ r12 [OF that(1)], of t] that(2) by blast
      then show False using 2(2) that(3) by simp
    qed
  qed
  have kr: "mem h' x = mem h x" if "r \<in> set (S1 @ S2)" "x \<in> region r" "x \<noteq> fst r + 8" for x r
    by (rule k) (use ap [OF that(1)] that(2) qr [OF that] in auto)
  have kb: "mem h' (p + j) = mem h (p + j)" if p: "(p, n, u) \<in> bset (S1 @ S2)" "j < n" for p n u j
  proof -
    obtain r where r: "r \<in> set (S1 @ S2)" "(p, n, u) \<in> tset (fst r + 16) (snd r)" using p(1) by (auto simp: bset_def)
    show ?thesis by (rule kr [OF r(1)]) (use tset_bounds [OF r(2)] p(2) in \<open>auto simp: region_def seg_len_def\<close>)
  qed
  have ks: "mem h' x = mem h x" if "x \<in> heap_region (haddr h)" "x \<noteq> ?p" for x
    by (rule k) (use layoutD(3) [OF l sS] q that sh(2) S in auto)
  have B: "bset S = bset (S1 @ S2) \<union> tset (sg + 16) Z" unfolding S by (auto simp: bset_def)
  have L1: "lnk 8 (mem h') ?p (?as @ ?bs)"
  proof -
    have "lnk 8 ?m1 ?p (?as @ ?bs)" unfolding q_def
    proof (rule lnk_unlink [OF lk v])
      show "distinct (?as @ sg # ?bs)" using dS S by simp
      fix x assume "x \<in> set (?as @ ?bs)"
      then obtain r where "r \<in> set (S1 @ S2)" "x = fst r" by auto
      then show "?p \<noteq> x + 8" using ph sh(2) [OF r12] by metis
    qed
    then show ?thesis
    proof (rule lnk_frame)
      show "mem h' ?p = ?m1 ?p" using ph layoutD(3) [OF l sS] by (auto simp: m' cells_def region_def)
      fix r assume "r \<in> set (?as @ ?bs)"
      then obtain t where "t \<in> set (S1 @ S2)" "r = fst t" by auto
      then have "r + 8 \<notin> region ?s" using sh(1) [OF r12] ap by blast
      then have "\<not> cells sg (seg_len ?s) (r + 8)" by (auto simp: cells_def region_def)
      then show "mem h' (r + 8) = ?m1 (r + 8)" unfolding m' by simp
    qed
  qed
  have L2: "seg_at (mem h') r" if r: "r \<in> set (S1 @ S2)" for r
  proof -
    have "tiles (mem h') (fst r + 16) (snd r)"
    proof (rule tiles_frame)
      show "tiles (mem h) (fst r + 16) (snd r)" using layoutD(2) [OF l r12 [OF r]] by (simp add: seg_at_def)
      fix b assume b: "b \<in> heads_of (fst r + 16) (snd r)"
      have "fst r + 16 \<le> b" using heads_region [OF seg_tpart [OF l r12 [OF r]] b, of 0] by simp
      then show "mem h' b = mem h b \<and> mem h' (b + 8) = mem h (b + 8)"
        using kr [OF r, of b] kr [OF r, of "b + 8"] header_not_inner(3) [OF l r12 [OF r] b, of 0] header_not_inner(3) [OF l r12 [OF r] b, of 8] by simp
    qed
    then show ?thesis using layoutD(2) [OF l r12 [OF r]] kr [OF r, of "fst r"] header_not_inner(4) [OF l r12 [OF r], of 0] by (simp add: seg_at_def)
  qed
  have dm: "dom (mem h') = Collect (cells (haddr h) sizeof_heap) \<union> (\<Union>s\<in>set (S1 @ S2). Collect (cells (fst s) (seg_len s)))"
  proof -
    have "dom (mem h') = dom (mem h) - Collect (cells sg (seg_len ?s))" using qd by (auto simp: m' dom_def split: if_splits)
    moreover have "Collect (cells sg (seg_len ?s)) \<subseteq> region ?s" by (auto simp: cells_def region_def)
    moreover have "(\<Union>r\<in>set (S1 @ S2). Collect (cells (fst r) (seg_len r))) \<inter> region ?s = {}"
    proof -
      have "Collect (cells (fst r) (seg_len r)) \<inter> region ?s = {}" if "r \<in> set (S1 @ S2)" for r
        using ap [OF that] by (auto simp: cells_def region_def)
      then show ?thesis by blast
    qed
    moreover have "Collect (cells (haddr h) sizeof_heap) \<inter> region ?s = {}" using layoutD(3) [OF l sS] by (auto simp: cells_def heap_region_def)
    moreover have "dom (mem h) = Collect (cells (haddr h) sizeof_heap) \<union> ((\<Union>r\<in>set (S1 @ S2). Collect (cells (fst r) (seg_len r))) \<union> Collect (cells sg (seg_len ?s)))"
      using layoutD(7) [OF l] unfolding S by auto
    ultimately show ?thesis by (rule cut_out)
  qed
  have "apart (S1 @ S2)" using layoutD(4) [OF l] unfolding S apart_append by blast
  then have l': "layout h' (S1 @ S2)" unfolding layout_def e(1) using L1 L2 dm layoutD(3) [OF l r12] layoutD(5,6) [OF l] by simp
  have FB: "(p, bsize (mem h) p, False) \<in> bset (S1 @ S2)" if "p \<in> F" for p
    using free_tile [OF _ l, of p] heap_atD(4) [OF h] that B i by blast
  have "fl h' F"
  proof (rule fl_agree [OF heap_atD(3) [OF h] e(1-4)])
    show "mem h' x = mem h x" if "x \<in> heap_arrays (haddr h)" for x by (rule ks) (use arrays_heap(1) that in blast)+
    show "mem h' (p + j) = mem h (p + j)" if "p \<in> F" "j < bsize (mem h) p" "j \<noteq> 8" for p j by (rule kb [OF FB [OF that(1)] that(2)])
    show "p + 8 \<in> dom (mem h')" if "p \<in> F" for p
    proof -
      have p: "32 \<le> bsize (mem h) p" using tile_word [OF l] FB [OF that] B by blast
      then have "p + 8 \<in> dom (mem h)" using block_atD(5) [OF geoD(1) [OF fl_geo [OF heap_atD(3) [OF h]] that], of 8] by simp
      then show ?thesis using kb [OF FB [OF that], of 8] p by (simp add: dom_def)
    qed
    show "0 \<notin> dom (mem h')" "1 \<notin> dom (mem h')" using dom_ge [OF l', of 0] dom_ge [OF l', of 1] by auto
  qed
  moreover have "F \<subseteq> frees (S1 @ S2)" using FB by (auto simp: frees_def)
  moreover have "caches h' (S1 @ S2) Ca I"
  proof (rule caches_frame [OF c e(1)])
    show "mem h' (cache (haddr h) j) = mem h (cache (haddr h) j)" if "j < 64" for j by (rule ks) (use arrays_heap(3) [OF that] in blast)+
    show "mem h' (b + 16) = mem h (b + 16)" if b: "b \<in> cset Ca" for b
    proof -
      obtain j where j: "j < 64" "b \<in> set (Ca j)" using b by (auto simp: cset_def)
      then have "(b, 32 + 8 * j, True) \<in> bset (S1 @ S2)" using cachesD(3) [OF c j] B i b by blast
      then show ?thesis using kb [of b _ True 16] by simp
    qed
    show "(b, n, True) \<in> bset (S1 @ S2)" if "b \<in> cset Ca" "(b, n, True) \<in> bset S" for b n using that B i by blast
  qed
  moreover have "keeps h h' {(b, n). (b, n, True) \<in> bset (S1 @ S2)}" unfolding keeps_def using kb by auto
  ultimately show ?thesis using run l' e(5,6) by (auto simp: heap_at_def)
qed

end
