(* ===== verification/Zend_Mm_Release.thy ===== *)
theory Zend_Mm_Release
  imports Zend_Mm_Heap
begin

unbundle bit_operations_syntax

text \<open>
  Release: a block in use joins its free neighbours and becomes a free block, or its segment is given back; small blocks go to the cache first.
\<close>

section \<open>Headers\<close>

lemma and_3: "(x :: nat) AND 3 = x mod 4"
  using take_bit_eq_mask [of 2 x] by (simp add: take_bit_eq_mod mask_eq_exp_minus_1)

lemma word_bits:
  assumes "8 dvd n"
  shows "ZEND_MM_BLOCK_SIZE (n + of_bool u) = n" "ZEND_MM_IS_FREE_BLOCK (n + of_bool u) \<longleftrightarrow> \<not> u" "\<not> ZEND_MM_IS_GUARD_BLOCK (n + of_bool u)"
    "ZEND_MM_PREV_BLOCK_IS_FREE (n + of_bool u) \<longleftrightarrow> \<not> u" "of_bool u OR n = n + of_bool u"
proof -
  obtain k where k: "n = 8 * k" using assms by (auto simp: dvd_def)
  have m: "(n + of_bool u) mod 4 = of_bool u" "(n + of_bool u) mod 2 = of_bool u" unfolding k by (cases u, simp_all) presburger+
  show "ZEND_MM_BLOCK_SIZE (n + of_bool u) = n" "\<not> ZEND_MM_IS_GUARD_BLOCK (n + of_bool u)"
    using m(1) by (simp_all add: ZEND_MM_BLOCK_SIZE_def ZEND_MM_IS_GUARD_BLOCK_def ZEND_MM_GUARD_BLOCK_def and_3)
  show "ZEND_MM_IS_FREE_BLOCK (n + of_bool u) \<longleftrightarrow> \<not> u" "ZEND_MM_PREV_BLOCK_IS_FREE (n + of_bool u) \<longleftrightarrow> \<not> u"
    using m(2) by (simp_all add: ZEND_MM_IS_FREE_BLOCK_def ZEND_MM_PREV_BLOCK_IS_FREE_def ZEND_MM_USED_BLOCK_def and_one_eq)
  have "even n" using k by simp
  then have "n + 1 = 1 OR n" using one_or_eq [of n] by simp
  then show "of_bool u OR n = n + of_bool u" by (cases u) simp_all
qed

lemma guard_bits:
  "\<not> ZEND_MM_IS_FREE_BLOCK 19" "ZEND_MM_IS_GUARD_BLOCK 19" "\<not> ZEND_MM_PREV_BLOCK_IS_FREE 3" "ZEND_MM_IS_FIRST_BLOCK 3"
  by (simp_all add: ZEND_MM_IS_FREE_BLOCK_def ZEND_MM_IS_GUARD_BLOCK_def ZEND_MM_PREV_BLOCK_IS_FREE_def ZEND_MM_IS_FIRST_BLOCK_def ZEND_MM_USED_BLOCK_def ZEND_MM_GUARD_BLOCK_def and_3 and_one_eq)

lemma block_write:
  assumes "{b, b + n + 8} \<subseteq> dom (mem h)" "8 dvd n"
  shows "ZEND_MM_BLOCK b (of_bool u) n h = Some (h\<lparr>mem := (mem h)(b \<mapsto> n + of_bool u, b + n + 8 \<mapsto> n + of_bool u)\<rparr>)"
  using assms word_bits(5) [OF assms(2), of u] by (simp add: ZEND_MM_BLOCK_def)

section \<open>Seams\<close>

text \<open>What the memory holds between two tiles.\<close>

lemma seam:
  assumes l: "layout h (S1 @ (sg, X @ Y) # S2)"
  shows "mem h (sg + 16 + tsum X + 8) = Some (lastw 3 X)" "mem h (sg + 16 + tsum X) = Some (if Y = [] then 19 else word (hd Y))"
    "\<And>t. t \<in> set (X @ Y) \<Longrightarrow> 8 dvd fst t \<and> 32 \<le> fst t"
proof -
  have "seg_at (mem h) (sg, X @ Y)" by (rule layoutD(2) [OF l]) simp
  then have t: "tiles (mem h) (sg + 16) (X @ Y)" by (simp add: seg_at_def)
  show "mem h (sg + 16 + tsum X + 8) = Some (lastw 3 X)" "mem h (sg + 16 + tsum X) = Some (if Y = [] then 19 else word (hd Y))"
    using t by (cases Y; simp add: tiles_def tpart_append add.assoc)+
  have "tpart m a w L \<Longrightarrow> t \<in> set L \<Longrightarrow> 8 dvd fst t \<and> 32 \<le> fst t" for t m a w L by (induction L arbitrary: a w) auto
  then show "8 dvd fst t \<and> 32 \<le> fst t" if "t \<in> set (X @ Y)" for t using t that unfolding tiles_def by blast
qed

lemma tile_in: "(sg + 16 + tsum X, t) \<in> bset (S1 @ (sg, X @ t # Y) # S2)"
  by (auto simp: bset_def tset_append)

lemma whole_segment_ok:
  assumes l: "layout h (S1 @ (sg, X @ Z @ Y) # S2)" and "Z \<noteq> []"
  shows "whole_segment (sg + 16 + tsum X) (tsum Z) h = Some (X = [] \<and> Y = [])"
proof -
  have p: "mem h (sg + 16 + tsum X + 8) = Some (lastw 3 X)" by (rule seam(1) [OF l])
  have e: "mem h (sg + 16 + tsum X + tsum Z) = Some (if Y = [] then 19 else word (hd Y))" using seam(2) [of h S1 sg "X @ Z" Y S2] l by (simp add: add.assoc)
  note T = seam(3) [OF l]
  have f: "ZEND_MM_IS_FIRST_BLOCK (lastw 3 X) \<longleftrightarrow> X = []"
  proof (cases "X = []")
    case False
    then have "32 \<le> fst (last X)" using T [of "last X"] by simp
    then show ?thesis using False by (simp add: ZEND_MM_IS_FIRST_BLOCK_def ZEND_MM_GUARD_BLOCK_def lastw_def word_def)
  qed (simp add: guard_bits)
  have "ZEND_MM_IS_GUARD_BLOCK (if Y = [] then 19 else word (hd Y)) \<longleftrightarrow> Y = []"
  proof (cases Y)
    case (Cons t Y')
    then have "8 dvd fst t" using T [of t] by simp
    then show ?thesis using Cons word_bits(3) by (simp add: word_def)
  qed (simp add: guard_bits)
  then show ?thesis using p e f by (cases "X = []") (simp_all add: whole_segment_def ld_def)
qed

section \<open>Free neighbours\<close>

definition unused_part :: "(nat \<times> bool) list \<Rightarrow> bool" where
  "unused_part Z \<longleftrightarrow> Z = [] \<or> (\<exists>k. Z = [(k, False)])"

text \<open>What the steps leave as it was.\<close>

definition steps_to :: "mm_heap \<Rightarrow> mm_heap \<Rightarrow> (nat \<times> nat) set \<Rightarrow> bool" where
  "steps_to h h' A \<longleftrightarrow> keeps h h' A \<and> conf h' = conf h \<and> real_size h' = real_size h"

lemma steps_trans: "steps_to h h1 A \<Longrightarrow> steps_to h1 h2 A \<Longrightarrow> steps_to h h2 A"
  unfolding steps_to_def using keeps_trans by metis

lemma steps_refl: "steps_to h h A"
  by (simp add: steps_to_def keeps_def)

lemma steps_mono: "steps_to h h' A \<Longrightarrow> B \<subseteq> A \<Longrightarrow> steps_to h h' B"
  unfolding steps_to_def using keeps_mono by blast

lemma heap_remove:
  assumes h: "heap_at h S Ca I F" and b: "b \<in> F"
  shows "\<exists>h'. zend_mm_remove_from_free_list b h = Some h' \<and> heap_at h' S Ca I (F - {b}) \<and> steps_to h h' (usd S)"
proof -
  obtain h' where h': "zend_mm_remove_from_free_list b h = Some h'" "fl h' (F - {b})" "fupd h h' F" using fl_remove [OF heap_atD(3) [OF h] b] by blast
  then show ?thesis using heap_fupd [OF h h'(3) heap_atD(4) [OF h] h'(2)] heap_atD(4) [OF h] by (auto simp: steps_to_def)
qed

lemma heap_add:
  assumes h: "heap_at h S Ca I F" and b: "b \<notin> F" "b \<in> frees S"
  shows "\<exists>h'. zend_mm_add_to_free_list b h = Some h' \<and> heap_at h' S Ca I (insert b F) \<and> steps_to h h' (usd S)"
    "\<exists>h'. zend_mm_add_to_rest_list b h = Some h' \<and> heap_at h' S Ca I (insert b F) \<and> steps_to h h' (usd S)"
proof -
  have F: "insert b F \<subseteq> frees S" using heap_atD(4) [OF h] b(2) by blast
  have g: "geo h (insert b F)" by (rule geo_mono [OF layout_geo [OF heap_atD(1) [OF h]] F])
  obtain h' where h': "zend_mm_add_to_free_list b h = Some h'" "fl h' (insert b F)" "fupd h h' (insert b F)" using fl_add [OF heap_atD(3) [OF h] b(1) g] by blast
  then show "\<exists>h'. zend_mm_add_to_free_list b h = Some h' \<and> heap_at h' S Ca I (insert b F) \<and> steps_to h h' (usd S)"
    using heap_fupd [OF h h'(3) F h'(2) F] by (auto simp: steps_to_def)
  obtain h'' where h'': "zend_mm_add_to_rest_list b h = Some h''" "fl h'' (insert b F)" "fupd h h'' (insert b F)" using fl_add_rest [OF heap_atD(3) [OF h] b(1) g] by blast
  then show "\<exists>h'. zend_mm_add_to_rest_list b h = Some h' \<and> heap_at h' S Ca I (insert b F) \<and> steps_to h h' (usd S)"
    using heap_fupd [OF h h''(3) F h''(2) F] by (auto simp: steps_to_def)
qed

lemma join_next_ok:
  assumes h: "heap_at h S Ca I F" and S: "S = S1 @ (sg, X @ Y) # S2" and F: "\<And>k Y'. Y = (k, False) # Y' \<Longrightarrow> sg + 16 + tsum X \<in> F"
  shows "\<exists>h' Z Y'. join_next (sg + 16 + tsum X) n h = Some (n + tsum Z, h') \<and> Y = Z @ Y' \<and> unused_part Z \<and>
    heap_at h' S Ca I (F - fst ` tset (sg + 16 + tsum X) Z) \<and> steps_to h h' (usd S)"
proof -
  let ?c = "sg + 16 + tsum X"
  note l = heap_atD(1) [OF h, unfolded S]
  note w = seam(2) [OF l]
  show ?thesis
  proof (cases "\<exists>k Y'. Y = (k, False) # Y'")
    case True
    then obtain k Y' where Y: "Y = (k, False) # Y'" by blast
    have k: "8 dvd k" using seam(3) [OF l, of "(k, False)"] Y by simp
    obtain h' where h': "zend_mm_remove_from_free_list ?c h = Some h'" "heap_at h' S Ca I (F - {?c})" "steps_to h h' (usd S)" using heap_remove [OF h F [OF Y]] by blast
    have "mem h' ?c = Some k" using seam(2) [OF heap_atD(1) [OF h'(2), unfolded S]] Y by (simp add: word_def)
    then have "join_next ?c n h = Some (n + tsum [(k, False)], h')" using w Y h'(1) word_bits(2) [OF k, of False] by (simp add: join_next_def ld_def word_def)
    moreover have "F - fst ` tset ?c [(k, False)] = F - {?c}" by simp
    ultimately show ?thesis using h'(2,3) Y unfolding unused_part_def by (metis append_Cons append_Nil)
  next
    case False
    have "\<not> ZEND_MM_IS_FREE_BLOCK (if Y = [] then 19 else word (hd Y))"
    proof (cases Y)
      case (Cons t Y')
      then have "8 dvd fst t" "snd t" using seam(3) [OF l, of t] False by (simp, metis (full_types) prod.collapse)
      then show ?thesis using Cons word_bits(2) [of "fst t" True] by (simp add: word_def)
    qed (simp add: guard_bits)
    then have "join_next ?c n h = Some (n + tsum [], h)" using w by (simp add: join_next_def ld_def)
    then show ?thesis using h steps_refl by (intro exI [of _ h] exI [of _ "[]"] exI [of _ Y]) (simp add: unused_part_def)
  qed
qed

lemma join_prev_ok:
  assumes h: "heap_at h S Ca I F" and S: "S = S1 @ (sg, X @ Y) # S2" and F: "\<And>k X'. X = X' @ [(k, False)] \<Longrightarrow> sg + 16 + tsum X' \<in> F"
  shows "\<exists>h' Z X'. join_prev (sg + 16 + tsum X) n h = Some (sg + 16 + tsum X', n + tsum Z, h') \<and> X = X' @ Z \<and> unused_part Z \<and>
    heap_at h' S Ca I (F - fst ` tset (sg + 16 + tsum X') Z) \<and> steps_to h h' (usd S)"
proof -
  let ?c = "sg + 16 + tsum X"
  note l = heap_atD(1) [OF h, unfolded S]
  note w = seam(1) [OF l]
  show ?thesis
  proof (cases "\<exists>k X'. X = X' @ [(k, False)]")
    case True
    then obtain k X' where X: "X = X' @ [(k, False)]" by blast
    have k: "8 dvd k" using seam(3) [OF l, of "(k, False)"] X by simp
    obtain h' where h': "zend_mm_remove_from_free_list (sg + 16 + tsum X') h = Some h'" "heap_at h' S Ca I (F - {sg + 16 + tsum X'})" "steps_to h h' (usd S)"
      using heap_remove [OF h F [OF X]] by blast
    have "mem h' (sg + 16 + tsum X') = Some k" using seam(2) [of h' S1 sg X' "(k, False) # Y" S2] heap_atD(1) [OF h'(2)] S X by (simp add: word_def)
    then have "join_prev ?c n h = Some (sg + 16 + tsum X', n + tsum [(k, False)], h')"
      using w X h'(1) word_bits(1,4) [OF k, of False] by (simp add: join_prev_def ld_def word_def Let_def add.assoc)
    moreover have "F - fst ` tset (sg + 16 + tsum X') [(k, False)] = F - {sg + 16 + tsum X'}" by simp
    ultimately show ?thesis using h'(2,3) X unfolding unused_part_def by metis
  next
    case False
    have "\<not> ZEND_MM_PREV_BLOCK_IS_FREE (lastw 3 X)"
    proof (cases "X = []")
      case X: False
      then obtain t where t: "t = last X" "t \<in> set X" by simp
      then have "X = butlast X @ [(fst t, snd t)]" using X by simp
      then have "8 dvd fst t" "snd t" using seam(3) [OF l, of t] t(2) False by (simp, metis (full_types))
      then show ?thesis using X t(1) word_bits(4) [of "fst t" True] by (simp add: word_def lastw_def)
    qed (simp add: guard_bits)
    then have "join_prev ?c n h = Some (sg + 16 + tsum X, n + tsum [], h)" using w by (simp add: join_prev_def ld_def)
    then show ?thesis using h steps_refl by (intro exI [of _ h] exI [of _ "[]"] exI [of _ X]) (simp add: unused_part_def)
  qed
qed

section \<open>The end of a release\<close>

definition seg_total :: "segm list \<Rightarrow> nat" where
  "seg_total S = sum_list (map seg_len S)"

lemma live_usd: "live S Ca = {(b, n)\<in>usd S. b \<notin> cset Ca}"
  by (auto simp: live_def usd_def)

lemma seg_total_simps [simp]: "seg_total [] = 0" "seg_total (s # S) = seg_len s + seg_total S" "seg_total (S1 @ S2) = seg_total S1 + seg_total S2"
  by (simp_all add: seg_total_def)

text \<open>Disjoint segments fit in the address space.\<close>

lemma total_less:
  assumes l: "layout h S"
  shows "seg_total S < 2 ^ 64"
proof -
  have "apart T \<Longrightarrow> (\<And>s. s \<in> set T \<Longrightarrow> region s \<subseteq> {16..<2 ^ 64}) \<Longrightarrow> seg_total T = card (\<Union>s\<in>set T. region s)" for T
  proof (induction T)
    case (Cons s T)
    have "region s \<inter> (\<Union>t\<in>set T. region t) = {}" using Cons.prems(1) by auto
    then have "card (region s \<union> (\<Union>t\<in>set T. region t)) = card (region s) + card (\<Union>t\<in>set T. region t)"
      by (intro card_Un_disjoint) (auto simp: region_def)
    then show ?case using Cons by (simp add: region_def)
  qed simp
  moreover have R: "region s \<subseteq> {16..<2 ^ 64}" if "s \<in> set S" for s using layoutD(2) [OF l that] by (auto simp: region_def seg_at_def)
  ultimately have "seg_total S = card (\<Union>s\<in>set S. region s)" using layoutD(4) [OF l] by blast
  also have "\<dots> \<le> card {16..<2 ^ 64 :: nat}" by (rule card_mono) (use R in auto)
  finally show ?thesis by simp
qed

lemma size_sub_exact: "b \<le> a \<Longrightarrow> a < 2 ^ 64 \<Longrightarrow> size_sub a b = a - b"

proof -
  assume "b \<le> a" "a < 2 ^ 64"
  then have "a + 2 ^ 64 - b = (a - b) + 2 ^ 64" by simp
  then show ?thesis using \<open>a < 2 ^ 64\<close> unfolding size_sub_def size_t_def by (simp only: mod_add_self2) simp
qed

lemma merge_block:
  assumes h: "heap_at h S Ca I F" and S: "S = S1 @ (sg, X @ Z @ Y) # S2" and Z: "Z \<noteq> []" and i: "\<And>b t. (b, t) \<in> tset (sg + 16 + tsum X) Z \<Longrightarrow> b \<notin> F \<and> b \<notin> cset Ca"
  shows "\<exists>h'. ZEND_MM_BLOCK (sg + 16 + tsum X) (of_bool u) (tsum Z) h = Some h' \<and> heap_at h' (S1 @ (sg, X @ [(tsum Z, u)] @ Y) # S2) Ca I F \<and>
    steps_to h h' {(b, n). (b, n, True) \<in> others S1 sg X (tsum Z) Y S2}"
proof -
  let ?a = "sg + 16 + tsum X" and ?e = "sg + 16 + tsum X + tsum Z"
  note l = heap_atD(1) [OF h]
  have l2: "layout h (S1 @ (sg, (X @ Z) @ Y) # S2)" "layout h (S1 @ (sg, X @ Z @ Y) # S2)" using l S by simp_all
  have d: "?a \<in> dom (mem h)" "?e + 8 \<in> dom (mem h)" using seam(2) [OF l2(2)] seam(1) [OF l2(1)] by (auto simp: add.assoc)
  have z: "8 dvd tsum Z" "32 \<le> tsum Z"
  proof -
    have tp: "tpart (mem h) ?a (lastw 3 X) Z" using seg_tpart [OF l2(2), of "(sg, X @ Z @ Y)"] by (simp add: tpart_append)
    show "8 dvd tsum Z" by (rule tpart_mult [OF tp])
    show "32 \<le> tsum Z" using tp Z by (cases Z) auto
  qed
  let ?m = "(mem h)(?a \<mapsto> tsum Z + of_bool u, ?e + 8 \<mapsto> tsum Z + of_bool u)"
  define h' where "h' = h\<lparr>mem := ?m\<rparr>"
  have run: "ZEND_MM_BLOCK ?a (of_bool u) (tsum Z) h = Some h'" unfolding h'_def by (rule block_write) (use d z in auto)
  have u: "upd_in (mem h) (mem h') {?a, ?e + 8}" using d by (auto simp: upd_in_def h'_def)
  have W: "{?a, ?e + 8} \<subseteq> insert (?e + 8) {?a..<?e}" using z(2) by auto
  have t1: "tpart (mem h') ?a (lastw 3 X) [(tsum Z, u)]" using seam(1) [OF l2(2)] z by (simp add: h'_def word_def)
  have t2: "mem h' (?e + 8) = Some (lastw 3 (X @ [(tsum Z, u)]))" by (simp add: h'_def lastw_def word_def)
  have "heap_at h' (S1 @ (sg, X @ [(tsum Z, u)] @ Y) # S2) Ca I F" "keeps h h' {(b, n). (b, n, True) \<in> others S1 sg X (tsum Z) Y S2}"
    using heap_retile [OF h S _ _ u W _ _ _ _ t1 t2 i] by (simp_all add: h'_def)
  then show ?thesis using run by (auto simp: steps_to_def h'_def conf_def)
qed

text \<open>A part of a segment that is in the hands of the operation, and nothing of it in the lists or the cache, becomes free.\<close>

lemma hand_over:
  assumes l: "layout h (S1 @ (sg, X @ Z @ Y) # S2)"
  shows "usd (S1 @ (sg, X @ [(tsum Z, False)] @ Y) # S2) = {(b, n). (b, n, True) \<in> others S1 sg X (tsum Z) Y S2}"
    "frees (S1 @ (sg, X @ [(tsum Z, False)] @ Y) # S2) = insert (sg + 16 + tsum X) (ffree (others S1 sg X (tsum Z) Y S2))"
    "X = [] \<Longrightarrow> Y = [] \<Longrightarrow> others S1 sg X (tsum Z) Y S2 = bset (S1 @ S2)"
    "{(b, n). (b, n, True) \<in> others S1 sg X (tsum Z) Y S2} = usd (S1 @ (sg, X @ Z @ Y) # S2) - {(b, n). (b, n, True) \<in> tset (sg + 16 + tsum X) Z}"
proof -
  note B = bset_others [of "[(tsum Z, False)]" "tsum Z" S1 sg X Y S2] and B0 = bset_others [of Z "tsum Z" S1 sg X Y S2]
  show "usd (S1 @ (sg, X @ [(tsum Z, False)] @ Y) # S2) = {(b, n). (b, n, True) \<in> others S1 sg X (tsum Z) Y S2}" using B by (auto simp: usd_def)
  show "frees (S1 @ (sg, X @ [(tsum Z, False)] @ Y) # S2) = insert (sg + 16 + tsum X) (ffree (others S1 sg X (tsum Z) Y S2))" using B by (auto simp: ffree_simps)
  show "X = [] \<Longrightarrow> Y = [] \<Longrightarrow> others S1 sg X (tsum Z) Y S2 = bset (S1 @ S2)" by (auto simp: others_def bset_def)
  show "{(b, n). (b, n, True) \<in> others S1 sg X (tsum Z) Y S2} = usd (S1 @ (sg, X @ Z @ Y) # S2) - {(b, n). (b, n, True) \<in> tset (sg + 16 + tsum X) Z}"
    using B0 others_disjoint [OF l] unfolding usd_def by fastforce
qed

definition released :: "mm_heap \<Rightarrow> segm list \<Rightarrow> mm_heap \<Rightarrow> segm list \<Rightarrow> (nat \<Rightarrow> nat list) \<Rightarrow> nat set \<Rightarrow> (nat \<times> nat) set \<Rightarrow> bool" where
  "released h S h' S' Ca I U \<longleftrightarrow> heap_at h' S' Ca I (frees S') \<and> usd S' = usd S - U \<and> keeps h h' (usd S - U) \<and> conf h' = conf h \<and>
     (real_size h = seg_total S \<longrightarrow> real_size h' = seg_total S')"

lemma release_add:
  assumes h: "heap_at h S Ca I (ffree (others S1 sg X (tsum Z) Y S2))" and S: "S = S1 @ (sg, X @ Z @ Y) # S2" and Z: "Z \<noteq> []"
    and i: "\<And>b t. (b, t) \<in> tset (sg + 16 + tsum X) Z \<Longrightarrow> b \<notin> cset Ca"
  shows "\<exists>h1 h'. ZEND_MM_BLOCK (sg + 16 + tsum X) ZEND_MM_FREE_BLOCK (tsum Z) h = Some h1 \<and> zend_mm_add_to_free_list (sg + 16 + tsum X) h1 = Some h' \<and>
    released h S h' (S1 @ (sg, X @ [(tsum Z, False)] @ Y) # S2) Ca I {(b, n). (b, n, True) \<in> tset (sg + 16 + tsum X) Z}"
proof -
  let ?a = "sg + 16 + tsum X" and ?R = "others S1 sg X (tsum Z) Y S2" and ?S' = "S1 @ (sg, X @ [(tsum Z, False)] @ Y) # S2"
  note l = heap_atD(1) [OF h, unfolded S]
  have i2: "b \<notin> ffree ?R \<and> b \<notin> cset Ca" if "(b, t) \<in> tset ?a Z" for b t 
    using others_disjoint [OF l, of _ _ _ b "fst t" "snd t"] i [OF that] that by (auto simp: ffree_def)
  obtain h1 where h1: "ZEND_MM_BLOCK ?a (of_bool False) (tsum Z) h = Some h1" "heap_at h1 ?S' Ca I (ffree ?R)" "steps_to h h1 {(b, n). (b, n, True) \<in> ?R}"
    using merge_block [OF h S Z, of False] i2 by blast
  note H = hand_over [OF l]
  have "(?a, hd Z) \<in> tset ?a Z" using Z by (cases Z) auto
  then have a: "?a \<notin> ffree ?R" "?a \<in> frees ?S'" using i2 H(2) by blast+
  obtain h' where h': "zend_mm_add_to_free_list ?a h1 = Some h'" "heap_at h' ?S' Ca I (insert ?a (ffree ?R))" "steps_to h1 h' (usd ?S')"
    using heap_add(1) [OF h1(2) a] by blast
  have k: "steps_to h h' {(b, n). (b, n, True) \<in> ?R}" using steps_trans [OF h1(3)] h'(3) H(1) by simp
  have "seg_total ?S' = seg_total S" using S by (simp add: seg_len_def)
  then have "released h S h' ?S' Ca I {(b, n). (b, n, True) \<in> tset ?a Z}"
    using h'(2) H(1,2) H(4) [folded S] k unfolding released_def steps_to_def by simp
  then show ?thesis using h1(1) h'(1) by (simp add: ZEND_MM_FREE_BLOCK_def)
qed

lemma release_del:
  assumes h: "heap_at h S Ca I (ffree (bset (S1 @ S2)))" and S: "S = S1 @ (sg, Z) # S2"
    and i: "\<And>b t. (b, t) \<in> tset (sg + 16) Z \<Longrightarrow> b \<notin> cset Ca"
  shows "\<exists>h'. zend_mm_del_segment sg h = Some h' \<and> released h S h' (S1 @ S2) Ca I {(b, n). (b, n, True) \<in> tset (sg + 16) Z}"
proof -
  have S': "S = S1 @ (sg, [] @ Z @ []) # S2" using S by simp
  note l = heap_atD(1) [OF h, unfolded S']
  note H = hand_over(3,4) [OF l, simplified]
  have i2: "b \<notin> ffree (bset (S1 @ S2)) \<and> b \<notin> cset Ca" if "(b, t) \<in> tset (sg + 16) Z" for b t
    using others_disjoint [OF l, of _ _ _ b "fst t" "snd t"] i [OF that] that H(1) by (auto simp: ffree_def)
  obtain h' where h': "zend_mm_del_segment sg h = Some h'" "heap_at h' (S1 @ S2) Ca I (ffree (bset (S1 @ S2)))" "keeps h h' (usd (S1 @ S2))" "conf h' = conf h"
      "real_size h' = size_sub (real_size h) (seg_len (sg, Z))"
    using heap_del [OF h S] i2 unfolding usd_def by blast
  have u: "usd (S1 @ S2) = usd S - {(b, n). (b, n, True) \<in> tset (sg + 16) Z}" using H(2) unfolding H(1) S usd_def by simp
  have "real_size h' = seg_total (S1 @ S2)" if "real_size h = seg_total S"
    using size_sub_exact [OF _ total_less [OF heap_atD(1) [OF h]], of "seg_len (sg, Z)"] h'(5) that S by simp
  then show ?thesis using h' u unfolding released_def by (simp add: ffree_simps(1))
qed

lemma bset_split: "(b, n, u) \<in> bset S \<Longrightarrow> \<exists>S1 sg X Y S2. S = S1 @ (sg, X @ (n, u) # Y) # S2 \<and> b = sg + 16 + tsum X"
proof -
  assume "(b, n, u) \<in> bset S"
  then obtain s where s: "s \<in> set S" "(b, n, u) \<in> tset (fst s + 16) (snd s)" by (auto simp: bset_def)
  obtain X Y where X: "snd s = X @ (n, u) # Y" "b = fst s + 16 + tsum X" using tset_split [OF s(2)] by blast
  obtain S1 S2 where "S = S1 @ s # S2" using split_list [OF s(1)] by blast
  moreover have "s = (fst s, X @ (n, u) # Y)" using X(1) by (metis prod.collapse)
  ultimately show ?thesis using X(2) by metis
qed

lemma unused_free: "unused_part Z \<Longrightarrow> ffree (tset a Z) = fst ` tset a Z \<and> {(b, n). (b, n, True) \<in> tset a Z} = {}"
  by (auto simp: unused_part_def ffree_def)

text \<open>A block in use together with the free blocks around it.\<close>

lemma hand_parts:
  assumes l: "layout h S" and S: "S = S1 @ (sg, X @ (P @ (n, True) # N) @ Y) # S2" and un: "unused_part P" "unused_part N"
  shows "frees S - fst ` tset (sg + 16 + tsum X) P - fst ` tset (sg + 16 + tsum X + tsum P + n) N = ffree (others S1 sg X (tsum (P @ (n, True) # N)) Y S2)"
    "{(b, k). (b, k, True) \<in> tset (sg + 16 + tsum X) (P @ (n, True) # N)} = {(sg + 16 + tsum X + tsum P, n)}"
proof -
  let ?Z = "P @ (n, True) # N" and ?a = "sg + 16 + tsum X"
  let ?R = "others S1 sg X (tsum ?Z) Y S2"
  have T: "tset ?a ?Z = tset ?a P \<union> insert (?a + tsum P, n, True) (tset (?a + tsum P + n) N)" by (simp add: tset_append)
  note U = unused_free [OF un(1), of ?a] unused_free [OF un(2), of "?a + tsum P + n"]
  show "{(b, k). (b, k, True) \<in> tset ?a ?Z} = {(?a + tsum P, n)}" unfolding T using U by auto
  have "bset S = ?R \<union> tset ?a ?Z" unfolding S by (rule bset_others) simp
  then have F: "frees S = ffree ?R \<union> fst ` tset ?a P \<union> fst ` tset (?a + tsum P + n) N" unfolding T using U by (auto simp: ffree_simps)
  have D: "p \<noteq> fst q" if "p \<in> ffree ?R" "q \<in> tset ?a ?Z" for p q
    using others_disjoint [OF l [unfolded S], of p _ False "fst q" "fst (snd q)" "snd (snd q)"] that by (auto simp: ffree_def)
  have "p \<notin> fst ` tset ?a P \<and> p \<notin> fst ` tset (?a + tsum P + n) N" if "p \<in> ffree ?R" for p using D [OF that] unfolding T by blast
  then show "frees S - fst ` tset ?a P - fst ` tset (?a + tsum P + n) N = ffree ?R" unfolding F by blast
qed

lemma released_steps:
  assumes "steps_to h h1 (usd S)" "released h1 S h' S' Ca I U"
  shows "released h S h' S' Ca I U"
proof -
  have "keeps h h1 (usd S - U)" using assms(1) unfolding steps_to_def by (blast intro: keeps_mono)
  then have "keeps h h' (usd S - U)" using assms(2) keeps_trans unfolding released_def by blast
  then show ?thesis using assms unfolding released_def steps_to_def by simp
qed

text \<open>A block leaves the blocks in use: with the block after it looked at first, as in a release, or with the one before it, as for the cache.\<close>

lemma joins_ok:
  assumes h: "heap_at h S Ca I (frees S)" and b: "(b, n, True) \<in> bset S"
  shows "\<exists>S1 sg X P N Y S2 h1 h2. S = S1 @ (sg, X @ (P @ (n, True) # N) @ Y) # S2 \<and> b = sg + 16 + tsum X + tsum P \<and> unused_part P \<and> unused_part N \<and>
      join_next (b + n) n h = Some (n + tsum N, h1) \<and> join_prev b (n + tsum N) h1 = Some (sg + 16 + tsum X, tsum (P @ (n, True) # N), h2) \<and>
      heap_at h2 S Ca I (ffree (others S1 sg X (tsum (P @ (n, True) # N)) Y S2)) \<and> steps_to h h2 (usd S)" (is ?A)
    "\<exists>S1 sg X P N Y S2 h1 h2. S = S1 @ (sg, X @ (P @ (n, True) # N) @ Y) # S2 \<and> b = sg + 16 + tsum X + tsum P \<and> unused_part P \<and> unused_part N \<and>
      join_prev b n h = Some (sg + 16 + tsum X, n + tsum P, h1) \<and> join_next (b + n) (n + tsum P) h1 = Some (tsum (P @ (n, True) # N), h2) \<and>
      heap_at h2 S Ca I (ffree (others S1 sg X (tsum (P @ (n, True) # N)) Y S2)) \<and> steps_to h h2 (usd S)" (is ?B)
proof -
  obtain S1 sg X0 Y0 S2 where S: "S = S1 @ (sg, X0 @ (n, True) # Y0) # S2" "b = sg + 16 + tsum X0" using bset_split [OF b] by blast
  have Sn: "S = S1 @ (sg, (X0 @ [(n, True)]) @ Y0) # S2" using S(1) by simp
  note l = heap_atD(1) [OF h]
  have n0: "0 < n" using tile_word [OF l b] by simp
  have bn: "sg + 16 + tsum (X0 @ [(n, True)]) = b + n" using S(2) by simp
  have fn: "sg + 16 + tsum (X0 @ [(n, True)]) \<in> frees S" if "Y0 = (k, False) # Y'" for k Y'
  proof -
    have "(sg + 16 + tsum (X0 @ [(n, True)]), k, False) \<in> bset S" unfolding Sn that by (rule tile_in)
    then show ?thesis by (auto simp: frees_def)
  qed
  have fp: "sg + 16 + tsum X' \<in> frees S \<and> sg + 16 + tsum X' \<noteq> b + n" if "X0 = X' @ [(k, False)]" for k X'
  proof -
    have "(sg + 16 + tsum X', k, False) \<in> bset S" unfolding S(1) that using tile_in [of sg X' "(k, False)" S1 "(n, True) # Y0" S2] by simp
    then show ?thesis using S(2) that n0 by (auto simp: frees_def)
  qed
  have un1: "fst ` tset x Z \<subseteq> {x}" if "unused_part Z" for x Z using that by (auto simp: unused_part_def)
  note W = hand_parts [OF l]
  have fin: "frees S - fst ` tset (b + n) N - fst ` tset (sg + 16 + tsum X) P = ffree (others S1 sg X (tsum (P @ (n, True) # N)) Y S2)"
    if "X0 = X @ P" "Y0 = N @ Y" "unused_part P" "unused_part N" for X P N Y
  proof -
    have e: "b + n = sg + 16 + tsum X + tsum P + n" using S(2) that(1) by simp
    have "S = S1 @ (sg, X @ (P @ (n, True) # N) @ Y) # S2" using S(1) that by simp
    from W(1) [OF this that(3,4)] show ?thesis unfolding e by blast
  qed
  show ?A
  proof -
    obtain h1 N Y where n1: "join_next (b + n) n h = Some (n + tsum N, h1)" "Y0 = N @ Y" "unused_part N" "heap_at h1 S Ca I (frees S - fst ` tset (b + n) N)" "steps_to h h1 (usd S)"
      using join_next_ok [OF h Sn, where n = n] fn unfolding bn by blast
    have fp1: "sg + 16 + tsum X' \<in> frees S - fst ` tset (b + n) N" if "X0 = X' @ [(k, False)]" for k X' using fp [OF that] un1 [OF n1(3), of "b + n"] by blast
    obtain h2 P X where p1: "join_prev b (n + tsum N) h1 = Some (sg + 16 + tsum X, n + tsum N + tsum P, h2)" "X0 = X @ P" "unused_part P"
        "heap_at h2 S Ca I (frees S - fst ` tset (b + n) N - fst ` tset (sg + 16 + tsum X) P)" "steps_to h1 h2 (usd S)"
      using join_prev_ok [OF n1(4) S(1), where n = "n + tsum N"] fp1 unfolding S(2) [symmetric] by blast
    have "n + tsum N + tsum P = tsum (P @ (n, True) # N)" by simp
    moreover have "S = S1 @ (sg, X @ (P @ (n, True) # N) @ Y) # S2" "b = sg + 16 + tsum X + tsum P" using S p1(2) n1(2) by simp_all
    ultimately show ?thesis using n1(1,3) p1(1,3,4) fin [OF p1(2) n1(2) p1(3) n1(3)] steps_trans [OF n1(5) p1(5)] by metis
  qed
  show ?B
  proof -
    obtain h1 P X where p1: "join_prev b n h = Some (sg + 16 + tsum X, n + tsum P, h1)" "X0 = X @ P" "unused_part P"
        "heap_at h1 S Ca I (frees S - fst ` tset (sg + 16 + tsum X) P)" "steps_to h h1 (usd S)"
      using join_prev_ok [OF h S(1), where n = n] fp unfolding S(2) [symmetric] by blast
    have "sg + 16 + tsum X < b + n" using S(2) p1(2) n0 by simp
    then have fn1: "sg + 16 + tsum (X0 @ [(n, True)]) \<in> frees S - fst ` tset (sg + 16 + tsum X) P" if "Y0 = (k, False) # Y'" for k Y'
      using fn [OF that] un1 [OF p1(3), of "sg + 16 + tsum X"] bn by auto
    obtain h2 N Y where n1: "join_next (b + n) (n + tsum P) h1 = Some (n + tsum P + tsum N, h2)" "Y0 = N @ Y" "unused_part N"
        "heap_at h2 S Ca I (frees S - fst ` tset (sg + 16 + tsum X) P - fst ` tset (b + n) N)" "steps_to h1 h2 (usd S)"
      using join_next_ok [OF p1(4) Sn, where n = "n + tsum P"] fn1 unfolding bn by blast
    have "frees S - fst ` tset (sg + 16 + tsum X) P - fst ` tset (b + n) N = frees S - fst ` tset (b + n) N - fst ` tset (sg + 16 + tsum X) P" by blast
    moreover have "n + tsum P + tsum N = tsum (P @ (n, True) # N)" by simp
    moreover have "S = S1 @ (sg, X @ (P @ (n, True) # N) @ Y) # S2" "b = sg + 16 + tsum X + tsum P" using S p1(2) n1(2) by simp_all
    ultimately show ?thesis using p1(1,3) n1(1,3,4) fin [OF p1(2) n1(2) p1(3) n1(3)] steps_trans [OF p1(5) n1(5)] by metis
  qed
qed

section \<open>Release\<close>

text \<open>The statistics of the heap are not part of its invariant.\<close>

lemma heap_at_cong:
  assumes "mem h' = mem h" "haddr h' = haddr h" "free_bitmap h' = free_bitmap h" "large_free_bitmap h' = large_free_bitmap h" "rest_count h' = rest_count h"
  shows "heap_at h' S Ca I F \<longleftrightarrow> heap_at h S Ca I F"
  by (simp add: heap_at_def layout_def caches_def fl_def flists_def geo_def large_ok_def assms)

lemma released_cong:
  assumes "mem h1 = mem h" "conf h1 = conf h" "real_size h1 = real_size h" "released h1 S h' S' Ca I U"
  shows "released h S h' S' Ca I U"
  using assms unfolding released_def keeps_def by simp

lemma part_not_cached:
  assumes h: "heap_at h S Ca I F" and S: "S = S1 @ (sg, X @ Z @ Y) # S2" and u: "{(x, k). (x, k, True) \<in> tset (sg + 16 + tsum X) Z} = {(b, n)}" and b: "b \<notin> cset Ca"
    and x: "(x, t) \<in> tset (sg + 16 + tsum X) Z"
  shows "x \<notin> cset Ca"
proof
  assume c: "x \<in> cset Ca"
  then obtain j where "(x, 32 + 8 * j, True) \<in> bset S" using cachesD(3) [OF heap_atD(2) [OF h]] by (auto simp: cset_def)
  moreover have "(x, fst t, snd t) \<in> bset S" using x bset_others [of Z "tsum Z" S1 sg X Y S2] unfolding S by auto
  ultimately have "snd t" using not_both [OF heap_atD(1) [OF h]] by blast
  then have "(x, fst t) \<in> {(x, k). (x, k, True) \<in> tset (sg + 16 + tsum X) Z}" using x by (cases t) simp
  then have "x = b" using u by blast
  then show False using c b by blast
qed

lemma block_free:
  assumes h: "heap_at h S Ca I (frees S)" and b: "(b, n, True) \<in> bset S" "b \<notin> cset Ca"
  shows "\<exists>h' S'. do { (size', h) \<leftarrow> join_next (b + n) n h; (mm_block, size', h) \<leftarrow> join_prev b size' h; whole \<leftarrow> whole_segment mm_block size' h;
      if whole then zend_mm_del_segment (mm_block - ZEND_MM_ALIGNED_SEGMENT_SIZE) h
      else do { h \<leftarrow> ZEND_MM_BLOCK mm_block ZEND_MM_FREE_BLOCK size' h; zend_mm_add_to_free_list mm_block h } } = Some h' \<and> released h S h' S' Ca I {(b, n)}"
    (is "\<exists>h' S'. ?run h = Some h' \<and> _")
proof -
  obtain S1 sg X P N Y S2 h1 h2 where J: "S = S1 @ (sg, X @ (P @ (n, True) # N) @ Y) # S2" "b = sg + 16 + tsum X + tsum P" "unused_part P" "unused_part N"
      "join_next (b + n) n h = Some (n + tsum N, h1)" "join_prev b (n + tsum N) h1 = Some (sg + 16 + tsum X, tsum (P @ (n, True) # N), h2)"
      "heap_at h2 S Ca I (ffree (others S1 sg X (tsum (P @ (n, True) # N)) Y S2))" "steps_to h h2 (usd S)"
    using joins_ok(1) [OF h b(1)] by blast
  define Z where "Z = P @ (n, True) # N"
  note J' = J(1,6,7) [folded Z_def]
  have Z: "Z \<noteq> []" by (simp add: Z_def)
  note l = heap_atD(1) [OF J'(3), unfolded J'(1)]
  have u: "{(x, k). (x, k, True) \<in> tset (sg + 16 + tsum X) Z} = {(b, n)}" using hand_parts(2) [OF heap_atD(1) [OF J(7)] J(1,3,4)] J(2) by (simp add: Z_def)
  have i: "x \<notin> cset Ca" if "(x, t) \<in> tset (sg + 16 + tsum X) Z" for x t by (rule part_not_cached [OF h J'(1) u b(2) that])
  show ?thesis
  proof (cases "X = [] \<and> Y = []")
    case True
    have S: "S = S1 @ (sg, Z) # S2" using J'(1) True by simp
    have hh: "heap_at h2 S Ca I (ffree (bset (S1 @ S2)))" using J'(3) hand_over(3) [OF l] True by simp
    have i': "x \<notin> cset Ca" if "(x, t) \<in> tset (sg + 16) Z" for x t using i [of x t] that True by simp
    have u': "{(x, k). (x, k, True) \<in> tset (sg + 16) Z} = {(b, n)}" using u True by simp
    obtain h' where h': "zend_mm_del_segment sg h2 = Some h'" "released h2 S h' (S1 @ S2) Ca I {(b, n)}"
      using release_del [OF hh S] i' unfolding u' by blast
    have "?run h = Some h'" using J(5) J'(2) whole_segment_ok [OF l Z] h'(1) True by (simp add: ZEND_MM_ALIGNED_SEGMENT_SIZE_def)
    then show ?thesis using released_steps [OF J(8) h'(2)] by blast
  next
    case False
    obtain h3 h' where h': "ZEND_MM_BLOCK (sg + 16 + tsum X) ZEND_MM_FREE_BLOCK (tsum Z) h2 = Some h3" "zend_mm_add_to_free_list (sg + 16 + tsum X) h3 = Some h'"
        "released h2 S h' (S1 @ (sg, X @ [(tsum Z, False)] @ Y) # S2) Ca I {(b, n)}"
      using release_add [OF J'(3,1) Z] i unfolding u by blast
    have "?run h = Some h'" using J(5) J'(2) whole_segment_ok [OF l Z] h'(1,2) False by simp
    then show ?thesis using released_steps [OF J(8) h'(3)] by blast
  qed
qed

lemma small_word:
  assumes "32 \<le> n" "8 dvd n" "ZEND_MM_SMALL_SIZE n"
  obtains i where "i < 64" "n = 32 + 8 * i" "ZEND_MM_BUCKET_INDEX n = i"
proof -
  obtain k where k: "n = 8 * k" using assms(2) by (auto simp: dvd_def)
  then have "k - 4 < 64" "n = 32 + 8 * (k - 4)" using assms(1,3) by (simp_all add: ZEND_MM_SMALL_SIZE_def ZEND_MM_MAX_SMALL_SIZE_def)
  then show ?thesis using that bucket_index by blast
qed

lemma cache_index: "cache hp i = cache hp j \<longleftrightarrow> i = j"
  by (simp add: cache_def)

lemma cache_put:
  assumes h: "heap_at h S Ca I (frees S)" and b: "(b, 32 + 8 * i, True) \<in> bset S" "b \<notin> cset Ca" and i: "i < 64" "i \<in> I"
  shows "\<exists>h'. do { c \<leftarrow> ld h (cache (haddr h) i); h \<leftarrow> st (b + 16) c h; st (cache (haddr h) i) b h } = Some h' \<and> heap_at h' S (Ca(i := b # Ca i)) I (frees S) \<and>
    keeps h h' (usd S - {(b, 32 + 8 * i)}) \<and> conf h' = conf h \<and> real_size h' = real_size h \<and> cached h' = cached h"
proof -
  note l = heap_atD(1) [OF h] and c = heap_atD(2) [OF h]
  have ci: "mem h (cache (haddr h) i) = Some (start (Ca i))" by (rule cachesD(4) [OF c i])
  have cd: "cache (haddr h) i \<in> heap_region (haddr h)" using arrays_heap(3) [OF i(1)] by blast
  have tl: "32 \<le> 32 + 8 * i" by simp
  obtain s where s: "s \<in> set S" "fst s + 16 \<le> b" "b + (32 + 8 * i) + 16 \<le> fst s + seg_len s" "8 dvd b" by (rule tile_at [OF l b(1)]) blast
  have b0: "b \<noteq> 0" "16 \<le> b" using s(2) by simp_all
  have bd: "b + 16 \<in> dom (mem h)" by (rule cells_dom [OF l s(1)]) (use s in auto)
  have bh: "b + 16 \<notin> heap_region (haddr h)" by (rule used_not_heap [OF l b(1)]) simp
  let ?m = "(mem h)(b + 16 \<mapsto> start (Ca i), cache (haddr h) i \<mapsto> b)"
  define h' where "h' = h\<lparr>mem := ?m\<rparr>"
  have neq: "cache (haddr h) i \<noteq> b + 16" using bh cd by metis
  have run: "do { c \<leftarrow> ld h (cache (haddr h) i); h \<leftarrow> st (b + 16) c h; st (cache (haddr h) i) b h } = Some h'"
    using ci bd neq by (simp add: ld_def h'_def)
  have u: "upd_in (mem h) (mem h') {b + 16, cache (haddr h) i}" using bd ci by (auto simp: h'_def upd_in_def)
  have "b + 16 \<in> inner S" unfolding inner_def by (rule UN_I [OF b(1)]) simp
  then have X: "{b + 16, cache (haddr h) i} \<subseteq> (heap_region (haddr h) - {segments_list (haddr h)}) \<union> inner S" using arrays_heap(3) [OF i(1), of "haddr h"] by simp
  have l': "layout h' S" by (rule layout_inner [OF l u X]) (simp add: h'_def)
  have kb: "mem h' (p + j) = mem h (p + j)" if "(p, k, v) \<in> bset S" "p \<noteq> b" "j < k" for p k v j
  proof -
    have "p + j \<noteq> b + 16" using bset_apart [OF l that(1) b(1)] that(2,3) by auto
    moreover have "p + j \<noteq> cache (haddr h) i" using used_not_heap [OF l that(1,3)] cd by metis
    ultimately show ?thesis by (simp add: h'_def)
  qed
  have f: "fl h' (frees S)"
  proof (rule fl_agree [OF heap_atD(3) [OF h]])
    show "mem h' x = mem h x" if "x \<in> heap_arrays (haddr h)" for x
    proof -
      have "x \<noteq> cache (haddr h) i" "x \<noteq> b + 16" using that bh arrays_heap(1) [of "haddr h"] arrays_heap(2) [of "haddr h" i] i(1) by auto
      then show ?thesis by (simp add: h'_def)
    qed
    fix p assume p: "p \<in> frees S"
    have pt: "(p, bsize (mem h) p, False) \<in> bset S" by (rule free_tile [OF p l])
    have "p \<noteq> b" using not_both [OF l pt] b(1) by blast
    then show "mem h' (p + j) = mem h (p + j)" if "j < bsize (mem h) p" "j \<noteq> 8" for j using kb [OF pt] that by blast
    show "p + 8 \<in> dom (mem h')" using block_atD(2,5) [OF geoD(1) [OF layout_geo [OF l'] p]] geo_upd by (simp add: u [unfolded upd_in_def])
  next
    show "0 \<notin> dom (mem h')" "1 \<notin> dom (mem h')" using dom_ge [OF l', of 0] dom_ge [OF l', of 1] by auto
  qed (simp_all add: h'_def)
  have cs: "b \<notin> set (Ca j)" if "j < 64" for j using b(2) that by (auto simp: cset_def)
  have vl: "vlist (mem h') (Ca j)" if j: "j < 64" for j
  proof (rule vlist_frame [OF cachesD(1) [OF c j]])
    fix p assume p: "p \<in> set (Ca j)"
    then show "mem h' (p + 16) = mem h (p + 16)" using kb [OF cachesD(3) [OF c j p], of 16] cs [OF j] by auto
  qed
  have ck: "mem h' (cache (haddr h) j) = mem h (cache (haddr h) j)" if "j < 64" "j \<noteq> i" for j
  proof -
    have "cache (haddr h) j \<noteq> b + 16" using bh arrays_heap(3) [OF that(1), of "haddr h"] by (metis DiffD1)
    then show ?thesis using that(2) cache_index by (simp add: h'_def)
  qed
  have mb: "mem h' (b + 16) = Some (start (Ca i))" "mem h' (cache (haddr h) i) = Some b" using neq by (simp_all add: h'_def)
  have "caches h' S (Ca(i := b # Ca i)) I" unfolding caches_def
  proof (intro allI impI conjI ballI)
    fix j :: nat assume j: "j < 64"
    show "vlist (mem h') ((Ca(i := b # Ca i)) j)" using vl [OF j] mb(1) b0(1) by (cases "j = i") simp_all
    show "distinct ((Ca(i := b # Ca i)) j)" using cachesD(2) [OF c j] cs [OF j] by (cases "j = i") simp_all
    show "(p, 32 + 8 * j, True) \<in> bset S" if "p \<in> set ((Ca(i := b # Ca i)) j)" for p using that b(1) cachesD(3) [OF c j] by (auto split: if_splits)
    show "mem h' (cache (haddr h') j) = Some (start ((Ca(i := b # Ca i)) j))" if "j \<in> I"
      using that mb(2) ck [OF j] cachesD(4) [OF c j that] by (cases "j = i") (simp_all add: h'_def)
  qed
  then have "heap_at h' S (Ca(i := b # Ca i)) I (frees S)" using l' f by (simp add: heap_at_def)
  moreover have "keeps h h' (usd S - {(b, 32 + 8 * i)})" unfolding keeps_def
  proof (intro ballI, clarsimp simp: usd_def)
    fix p k j assume "(p, k, True) \<in> bset S" "p = b \<longrightarrow> k \<noteq> 32 + 8 * i" "16 \<le> j" "j < k"
    then show "mem h' (p + j) = mem h (p + j)" using kb [of p k True j] not_both [OF l _ b(1), of k True] by blast
  qed
  ultimately show ?thesis using run by (auto simp: h'_def conf_def)
qed

lemma released_live:
  assumes "released h S h' S' Ca I {(b, n)}"
  shows "live S' Ca = live S Ca - {(b, n)}" "keeps h h' (live S' Ca)"
proof -
  have r: "usd S' = usd S - {(b, n)}" "keeps h h' (usd S - {(b, n)})" using assms by (simp_all add: released_def)
  show "live S' Ca = live S Ca - {(b, n)}" unfolding live_usd r(1) by blast
  show "keeps h h' (live S' Ca)" by (rule keeps_mono [OF r(2)]) (unfold live_usd r(1), blast)
qed

text \<open>A release never fails: the block leaves the live ones, and the others keep their contents.\<close>

lemma free_ok:
  assumes h: "heap_at h S Ca UNIV (frees S)" and b: "(b, n) \<in> live S Ca"
  shows "\<exists>h' S' Ca'. zend_mm_free_int (b + 16) h = Some h' \<and> heap_at h' S' Ca' UNIV (frees S') \<and> live S' Ca' = live S Ca - {(b, n)} \<and> keeps h h' (live S' Ca') \<and>
    conf h' = conf h \<and> (real_size h = seg_total S \<longrightarrow> real_size h' = seg_total S')"
proof -
  have bt: "(b, n, True) \<in> bset S" "b \<notin> cset Ca" using b by (auto simp: live_def)
  note l = heap_atD(1) [OF h]
  obtain s where t: "32 \<le> n" "8 dvd n" "mem h b = Some (n + of_bool True)" by (rule tile_at [OF l bt(1)]) blast
  have w: "ZEND_MM_BLOCK_SIZE (n + of_bool True) = n" by (rule word_bits(1) [OF t(2)])
  show ?thesis
  proof (cases "ZEND_MM_SMALL_SIZE n \<and> cached h < ZEND_MM_CACHE_SIZE")
    case True
    obtain i where i: "i < 64" "n = 32 + 8 * i" "ZEND_MM_BUCKET_INDEX n = i" by (rule small_word [OF t(1,2)]) (use True in auto)
    obtain h1 where h1: "do { c \<leftarrow> ld h (cache (haddr h) i); h \<leftarrow> st (b + 16) c h; st (cache (haddr h) i) b h } = Some h1"
        "heap_at h1 S (Ca(i := b # Ca i)) UNIV (frees S)" "keeps h h1 (usd S - {(b, n)})" "conf h1 = conf h" "real_size h1 = real_size h" "cached h1 = cached h"
      using cache_put [OF h bt(1) [unfolded i(2)] bt(2) i(1) UNIV_I] i(2) by blast
    let ?h' = "h1\<lparr>cached := uint_t (cached h1 + n)\<rparr>"
    have "zend_mm_free_int (b + 16) h = Some ?h'"
      using True t(3) w i(3) h1(1) by (auto simp: zend_mm_free_int_def ld_def Let_def ZEND_MM_ALIGNED_HEADER_SIZE_def split: Option.bind_splits)
    moreover have "heap_at ?h' S (Ca(i := b # Ca i)) UNIV (frees S)" using h1(2) heap_at_cong [of ?h' h1] by simp
    moreover have L: "live S (Ca(i := b # Ca i)) = live S Ca - {(b, n)}"
    proof -
      have "cset (Ca(i := b # Ca i)) = insert b (cset Ca)" using i(1) by (auto simp: cset_def split: if_splits)
      then show ?thesis using not_both [OF l bt(1)] by (auto simp: live_def)
    qed
    moreover have "keeps h ?h' (live S (Ca(i := b # Ca i)))" unfolding L using h1(3) by (auto simp: keeps_def live_usd)
    moreover have "conf ?h' = conf h" "real_size ?h' = real_size h" using h1(4,5) by (simp_all add: conf_def)
    ultimately show ?thesis by metis
  next
    case False
    let ?h1 = "h\<lparr>heap_size := size_sub (heap_size h) n\<rparr>"
    have "heap_at ?h1 S Ca UNIV (frees S)" using h heap_at_cong [of ?h1 h] by simp
    from block_free [OF this bt] obtain h' S' where h': "do { (size', h) \<leftarrow> join_next (b + n) n ?h1; (mm_block, size', h) \<leftarrow> join_prev b size' h; whole \<leftarrow> whole_segment mm_block size' h;
        if whole then zend_mm_del_segment (mm_block - ZEND_MM_ALIGNED_SEGMENT_SIZE) h
        else do { h \<leftarrow> ZEND_MM_BLOCK mm_block ZEND_MM_FREE_BLOCK size' h; zend_mm_add_to_free_list mm_block h } } = Some h'" "released ?h1 S h' S' Ca UNIV {(b, n)}"
      by blast
    have "zend_mm_free_int (b + 16) h = Some h'" 
      using False t(3) w h'(1) by (cases "ZEND_MM_SMALL_SIZE n") (simp_all add: zend_mm_free_int_def ld_def Let_def ZEND_MM_ALIGNED_HEADER_SIZE_def)
    moreover have r: "released h S h' S' Ca UNIV {(b, n)}" by (rule released_cong [OF _ _ _ h'(2)]) (simp_all add: conf_def)
    ultimately show ?thesis using released_live [OF r] unfolding released_def by metis
  qed
qed

section \<open>The cache is given back\<close>

lemma free_cached_ok:
  assumes h: "heap_at h S Ca I (frees S)" and b: "(b, n, True) \<in> bset S" "b \<notin> cset Ca"
  shows "\<exists>h' S'. free_cached b h = Some h' \<and> released h S h' S' Ca I {(b, n)}"
proof -
  let ?h = "h\<lparr>cached := uint_sub (cached h) n\<rparr>"
  note l0 = heap_atD(1) [OF h]
  obtain s where t: "32 \<le> n" "8 dvd n" "mem h b = Some (n + of_bool True)" by (rule tile_at [OF l0 b(1)]) blast
  have w: "ZEND_MM_BLOCK_SIZE (n + of_bool True) = n" by (rule word_bits(1) [OF t(2)])
  have h1: "heap_at ?h S Ca I (frees S)" using h heap_at_cong [of ?h h] by simp
  obtain S1 sg X P N Y S2 h1 h2 where J: "S = S1 @ (sg, X @ (P @ (n, True) # N) @ Y) # S2" "b = sg + 16 + tsum X + tsum P" "unused_part P" "unused_part N"
      "join_prev b n ?h = Some (sg + 16 + tsum X, n + tsum P, h1)" "join_next (b + n) (n + tsum P) h1 = Some (tsum (P @ (n, True) # N), h2)"
      "heap_at h2 S Ca I (ffree (others S1 sg X (tsum (P @ (n, True) # N)) Y S2))" "steps_to ?h h2 (usd S)"
    using joins_ok(2) [OF h1 b(1)] by blast
  define Z where "Z = P @ (n, True) # N"
  note J' = J(1,6,7) [folded Z_def]
  have Z: "Z \<noteq> []" by (simp add: Z_def)
  note l = heap_atD(1) [OF J'(3), unfolded J'(1)]
  let ?a = "sg + 16 + tsum X" and ?S' = "S1 @ (sg, X @ [(tsum Z, False)] @ Y) # S2" and ?R = "others S1 sg X (tsum Z) Y S2"
  have u: "{(x, k). (x, k, True) \<in> tset ?a Z} = {(b, n)}" using hand_parts(2) [OF heap_atD(1) [OF J(7)] J(1,3,4)] J(2) by (simp add: Z_def)
  note i = part_not_cached [OF J'(3,1) u b(2)]
  have i2: "x \<notin> ffree ?R \<and> x \<notin> cset Ca" if "(x, t) \<in> tset ?a Z" for x t
    using others_disjoint [OF l, of _ _ _ x "fst t" "snd t"] i [OF that] that by (auto simp: ffree_def)
  obtain h3 where h3: "ZEND_MM_BLOCK ?a (of_bool False) (tsum Z) h2 = Some h3" "heap_at h3 ?S' Ca I (ffree ?R)" "steps_to h2 h3 {(b, n). (b, n, True) \<in> ?R}"
    using merge_block [OF J'(3,1) Z, of False] i2 by blast
  note H = hand_over [OF l]
  have us: "usd ?S' = usd S - {(b, n)}" using H(1,4) u unfolding J'(1) by simp
  have "(?a, hd Z) \<in> tset ?a Z" using Z by (cases Z) auto
  then have a: "?a \<notin> ffree ?R" "?a \<in> frees ?S'" "?a \<notin> cset Ca" using i2 H(2) by blast+
  have wh: "whole_segment ?a (tsum Z) h3 = Some (X = [] \<and> Y = [])" using whole_segment_ok [OF heap_atD(1) [OF h3(2)]] by simp
  have st: "steps_to h h3 (usd ?S')"
  proof -
    have "steps_to ?h h3 (usd ?S')" using steps_trans [OF steps_mono [OF J(8), of "usd ?S'"]] h3(3) us H(1) by auto
    then show ?thesis by (simp add: steps_to_def keeps_def conf_def)
  qed
  have tot: "seg_total ?S' = seg_total S" using J'(1) by (simp add: seg_len_def)
  have fin: "released h S h' S' Ca I {(b, n)}" if r: "released h3 ?S' h' S' Ca I {}" for h' S'
  proof -
    have "keeps h h' (usd ?S')" using keeps_trans [of h h3] st r by (auto simp: released_def steps_to_def)
    then show ?thesis using r st us tot by (auto simp: released_def steps_to_def)
  qed
  have run: "free_cached b h = (if X = [] \<and> Y = [] then zend_mm_del_segment (?a - 16) h3 else zend_mm_add_to_free_list ?a h3)"
    using t(3) w J(5) J'(2) h3(1) wh by (simp add: free_cached_def ld_def Let_def ZEND_MM_FREE_BLOCK_def ZEND_MM_ALIGNED_SEGMENT_SIZE_def)
  show ?thesis
  proof (cases "X = [] \<and> Y = []")
    case True
    have hh: "heap_at h3 ?S' Ca I (ffree (bset (S1 @ S2)))" using h3(2) H(3) True by simp
    have S': "?S' = S1 @ (sg, [(tsum Z, False)]) # S2" using True by simp
    have i': "x \<notin> cset Ca" if "(x, t) \<in> tset (sg + 16) [(tsum Z, False)]" for x t using that a(3) True by simp
    have u': "{(x, k). (x, k, True) \<in> tset (sg + 16) [(tsum Z, False)]} = {}" by simp
    obtain h' where "zend_mm_del_segment sg h3 = Some h'" "released h3 ?S' h' (S1 @ S2) Ca I {}" using release_del [OF hh S'] i' unfolding u' by blast
    then show ?thesis using run fin True by auto
  next
    case False
    obtain h' where h': "zend_mm_add_to_free_list ?a h3 = Some h'" "heap_at h' ?S' Ca I (insert ?a (ffree ?R))" "steps_to h3 h' (usd ?S')"
      using heap_add(1) [OF h3(2) a(1,2)] by blast
    have "released h3 ?S' h' ?S' Ca I {}" using h'(2,3) H(2) by (simp add: released_def steps_to_def)
    then show ?thesis using run fin False h'(1) by (simp del: append_Cons append.simps) blast
  qed
qed

text \<open>A heap with the live blocks \<open>A\<close>.\<close>

definition mm_live :: "mm_heap \<Rightarrow> (nat \<times> nat) set \<Rightarrow> bool" where
  "mm_live h A \<longleftrightarrow> (\<exists>S Ca. heap_at h S Ca UNIV (frees S) \<and> live S Ca = A \<and> real_size h = seg_total S) \<and> (\<exists>k. block_size h = 2 ^ k \<and> 5 \<le> k \<and> k < 64)"

lemma mm_liveE:
  assumes "mm_live h A"
  obtains S Ca k where "heap_at h S Ca UNIV (frees S)" "live S Ca = A" "real_size h = seg_total S" "block_size h = 2 ^ k" "5 \<le> k" "k < 64"
  using assms unfolding mm_live_def by blast

lemma mm_liveI:
  "heap_at h' S Ca UNIV (frees S) \<Longrightarrow> live S Ca = A \<Longrightarrow> real_size h' = seg_total S \<Longrightarrow> mm_live h B \<Longrightarrow> block_size h' = block_size h \<Longrightarrow> mm_live h' A"
  unfolding mm_live_def by auto

lemma free_live:
  assumes "mm_live h A" "(b, n) \<in> A"
  shows "\<exists>h'. zend_mm_free_int (b + 16) h = Some h' \<and> mm_live h' (A - {(b, n)}) \<and> keeps h h' (A - {(b, n)}) \<and> conf h' = conf h"
proof -
  obtain S Ca where S: "heap_at h S Ca UNIV (frees S)" "live S Ca = A" "real_size h = seg_total S" by (rule mm_liveE [OF assms(1)])
  obtain h' S' Ca' where h': "zend_mm_free_int (b + 16) h = Some h'" "heap_at h' S' Ca' UNIV (frees S')" "live S' Ca' = A - {(b, n)}" "keeps h h' (live S' Ca')"
      "conf h' = conf h" "real_size h' = seg_total S'"
    using free_ok [OF S(1)] assms(2) S(2,3) by blast
  then have "mm_live h' (A - {(b, n)})" by (intro mm_liveI [OF h'(2,3,6) assms(1)]) (simp add: conf_def)
  then show ?thesis using h' by auto
qed

definition moved :: "mm_heap \<Rightarrow> segm list \<Rightarrow> (nat \<Rightarrow> nat list) \<Rightarrow> mm_heap \<Rightarrow> segm list \<Rightarrow> (nat \<Rightarrow> nat list) \<Rightarrow> nat set \<Rightarrow> bool" where
  "moved h S Ca h' S' Ca' I \<longleftrightarrow> heap_at h' S' Ca' I (frees S') \<and> live S' Ca' = live S Ca \<and> keeps h h' (live S Ca) \<and> conf h' = conf h \<and> (real_size h = seg_total S \<longrightarrow> real_size h' = seg_total S')"

lemma moved_trans: "moved h S Ca h1 S1 Ca1 I1 \<Longrightarrow> moved h1 S1 Ca1 h2 S2 Ca2 I2 \<Longrightarrow> moved h S Ca h2 S2 Ca2 I2"
  unfolding moved_def using keeps_trans by metis

lemma cset_upd: "i < 64 \<Longrightarrow> cset (Ca(i := L)) = set L \<union> (\<Union>j\<in>{..<64} - {i}. set (Ca j))"
  by (auto simp: cset_def split: if_splits)

lemma caches_drop:
  assumes "caches h S Ca I" "Ca i = b # L" "i \<notin> I" "i < 64"
  shows "caches h S (Ca(i := L)) I"
  unfolding caches_def
proof (intro allI impI conjI ballI)
  fix j :: nat assume j: "j < 64"
  note C = cachesD [OF assms(1) j]
  show "vlist (mem h) ((Ca(i := L)) j)" "distinct ((Ca(i := L)) j)" using C(1,2) assms(2) by auto
  show "(p, 32 + 8 * j, True) \<in> bset S" if "p \<in> set ((Ca(i := L)) j)" for p using C(3) that assms(2) by (cases "j = i") auto
  show "mem h (cache (haddr h) j) = Some (start ((Ca(i := L)) j))" if "j \<in> I" using C(4) [OF that] that assms(3) by auto
qed

lemma free_cache_loop_ok:
  assumes "heap_at h S Ca I (frees S)" "i < 64" "i \<notin> I" "Ca i = L"
  shows "\<exists>h' S'. free_cache_loop (start L) h = Some h' \<and> moved h S Ca h' S' (Ca(i := [])) I"
  using assms
proof (induction L arbitrary: h S Ca)
  case Nil
  then have "Ca(i := []) = Ca" by (metis fun_upd_triv)
  then have "moved h S Ca h S (Ca(i := [])) I" using Nil by (simp add: moved_def keeps_def)
  then show ?case by (subst free_cache_loop.simps) auto
next
  case (Cons b L)
  note h = Cons.prems(1) and i = Cons.prems(2,3) and L = Cons.prems(4)
  note l = heap_atD(1) [OF h] and c = heap_atD(2) [OF h]
  let ?Ca = "Ca(i := L)" and ?n = "32 + 8 * i"
  have b: "(b, ?n, True) \<in> bset S" "b \<noteq> 0" "mem h (b + 16) = Some (start L)" "b \<notin> set L" using cachesD [OF c i(1)] L by auto
  have h1: "heap_at h S ?Ca I (frees S)" using h caches_drop [OF c L i(2,1)] by (simp add: heap_at_def)
  have bc: "b \<notin> cset ?Ca"
  proof
    assume "b \<in> cset ?Ca"
    then obtain j where j: "j < 64" "b \<in> set (?Ca j)" by (auto simp: cset_def)
    then have "j \<noteq> i" using b(4) by auto
    then have "(b, 32 + 8 * j, True) \<in> bset S" using cachesD(3) [OF c j(1)] j(2) by simp
    then show False using not_both [OF l b(1)] \<open>j \<noteq> i\<close> by fastforce
  qed
  obtain h1 S1 where r: "free_cached b h = Some h1" "released h S h1 S1 ?Ca I {(b, ?n)}" using free_cached_ok [OF h1 b(1) bc] by blast
  have "cset Ca = insert b (cset ?Ca)" using cset_upd [OF i(1), of Ca L] cset_upd [OF i(1), of Ca "b # L"] fun_upd_idem [of Ca i "b # L", OF L] by simp
  then have lv: "live S ?Ca - {(b, ?n)} = live S Ca" using not_both [OF l b(1)] by (auto simp: live_def)
  have m1: "moved h S Ca h1 S1 ?Ca I" using r(2) released_live [OF r(2)] unfolding lv by (simp add: moved_def released_def)
  have h2: "heap_at h1 S1 ?Ca I (frees S1)" using m1 by (simp add: moved_def)
  obtain h' S' where m2: "free_cache_loop (start L) h1 = Some h'" "moved h1 S1 ?Ca h' S' (?Ca(i := [])) I" using Cons.IH [OF h2 i] by (auto simp: fun_upd_same simp del: fun_upd_apply)
  have "free_cache_loop b h = Some h'" using b(2,3) r(1) m2(1) by (subst free_cache_loop.simps) (simp add: ld_def)
  then show ?case using moved_trans [OF m1 m2(2)] by (auto simp del: fun_upd_apply)
qed

lemma cache_set:
  assumes h: "heap_at h S Ca (UNIV - {i}) F" and i: "i < 64"
  shows "\<exists>h'. st (cache (haddr h) i) (start (Ca i)) h = Some h' \<and> heap_at h' S Ca UNIV F \<and> keeps h h' (usd S) \<and> conf h' = conf h \<and> real_size h' = real_size h"
proof -
  note l = heap_atD(1) [OF h] and c = heap_atD(2) [OF h]
  have cd: "cache (haddr h) i \<in> heap_region (haddr h) - {segments_list (haddr h)}" by (rule arrays_heap(3) [OF i])
  have d: "cache (haddr h) i \<in> dom (mem h)" using heap_dom [OF l, of "152 + 8 * i"] i by (simp add: cache_def sizeof_heap_def add.assoc)
  define h' where "h' = h\<lparr>mem := (mem h)(cache (haddr h) i \<mapsto> start (Ca i))\<rparr>"
  have k: "mem h' x = mem h x" if "x \<noteq> cache (haddr h) i" for x using that by (simp add: h'_def)
  have u: "upd_in (mem h) (mem h') {cache (haddr h) i}" using d by (auto simp: upd_in_def h'_def)
  have l': "layout h' S" by (rule layout_inner [OF l u]) (use cd in \<open>auto simp: h'_def\<close>)
  have kb: "mem h' (p + j) = mem h (p + j)" if "(p, n, v) \<in> bset S" "j < n" for p n v j
    by (rule k) (use used_not_heap [OF l that] cd in auto)
  have "fl h' F"
  proof (rule fl_agree [OF heap_atD(3) [OF h]])
    show "mem h' x = mem h x" if "x \<in> heap_arrays (haddr h)" for x by (rule k) (use that arrays_heap(2) [of "haddr h" i] i in auto)
    fix p assume "p \<in> F"
    then have pt: "(p, bsize (mem h) p, False) \<in> bset S" using free_tile [OF _ l] heap_atD(4) [OF h] by blast
    show "mem h' (p + j) = mem h (p + j)" if "j < bsize (mem h) p" "j \<noteq> 8" for j by (rule kb [OF pt that(1)])
    show "p + 8 \<in> dom (mem h')" using block_atD(2,5) [OF geoD(1) [OF fl_geo [OF heap_atD(3) [OF h]] \<open>p \<in> F\<close>]] u by (simp add: upd_in_def)
  next
    show "0 \<notin> dom (mem h')" "1 \<notin> dom (mem h')" using dom_ge [OF l', of 0] dom_ge [OF l', of 1] by auto
  qed (simp_all add: h'_def)
  moreover have "caches h' S Ca UNIV" unfolding caches_def
  proof (intro allI impI conjI ballI)
    fix j :: nat assume j: "j < 64"
    show "vlist (mem h') (Ca j)" by (rule vlist_frame [OF cachesD(1) [OF c j]]) (use kb [OF cachesD(3) [OF c j], of _ 16] in simp)
    show "distinct (Ca j)" by (rule cachesD(2) [OF c j])
    show "(p, 32 + 8 * j, True) \<in> bset S" if "p \<in> set (Ca j)" for p by (rule cachesD(3) [OF c j that])
    show "mem h' (cache (haddr h') j) = Some (start (Ca j))" using cachesD(4) [OF c j] k [of "cache (haddr h) j"] by (cases "j = i") (simp_all add: h'_def cache_index)
  qed
  ultimately have "heap_at h' S Ca UNIV F" using l' heap_atD(4) [OF h] by (simp add: heap_at_def)
  moreover have "keeps h h' (usd S)" unfolding keeps_def usd_def using kb by auto
  moreover have "st (cache (haddr h) i) (start (Ca i)) h = Some h'" using d by (simp add: h'_def)
  ultimately show ?thesis by (auto simp: h'_def conf_def)
qed

lemma free_cache_from_ok:
  assumes "heap_at h S Ca UNIV (frees S)" "i + k \<le> 64"
  shows "\<exists>h' S' Ca'. free_cache_from i k h = Some h' \<and> moved h S Ca h' S' Ca' UNIV"
  using assms
proof (induction k arbitrary: i h S Ca)
  case 0
  then have "moved h S Ca h S Ca UNIV" by (simp add: moved_def keeps_def)
  then show ?case by auto
next
  case (Suc k)
  note h = Suc.prems(1)
  have i: "i < 64" using Suc.prems(2) by simp
  note c = cachesD [OF heap_atD(2) [OF h] i]
  have ci: "mem h (cache (haddr h) i) = Some (start (Ca i))" by (rule c(4)) simp
  show ?case
  proof (cases "start (Ca i) = 0")
    case True
    obtain h' S' Ca' where "free_cache_from (Suc i) k h = Some h'" "moved h S Ca h' S' Ca' UNIV" using Suc.IH [OF h, of "Suc i"] Suc.prems(2) by auto
    then show ?thesis using True ci by (auto simp: ld_def)
  next
    case False
    have h0: "heap_at h S Ca (UNIV - {i}) (frees S)" using h by (auto simp: heap_at_def caches_def)
    obtain h1 S1 where m1: "free_cache_loop (start (Ca i)) h = Some h1" "moved h S Ca h1 S1 (Ca(i := [])) (UNIV - {i})" using free_cache_loop_ok [OF h0 i _ refl] by auto
    have h1: "heap_at h1 S1 (Ca(i := [])) (UNIV - {i}) (frees S1)" using m1(2) by (simp add: moved_def)
    obtain h2 where h2: "st (cache (haddr h1) i) 0 h1 = Some h2" "heap_at h2 S1 (Ca(i := [])) UNIV (frees S1)" "keeps h1 h2 (usd S1)" "conf h2 = conf h1" "real_size h2 = real_size h1"
      using cache_set [OF h1 i] by auto
    have "keeps h1 h2 (live S1 (Ca(i := [])))" by (rule keeps_mono [OF h2(3)]) (auto simp: live_usd)
    then have m2: "moved h1 S1 (Ca(i := [])) h2 S1 (Ca(i := [])) UNIV" using h2 by (simp add: moved_def)
    obtain h' S' Ca' where m3: "free_cache_from (Suc i) k h2 = Some h'" "moved h2 S1 (Ca(i := [])) h' S' Ca' UNIV" using Suc.IH [OF h2(2), of "Suc i"] Suc.prems(2) by (auto simp del: fun_upd_apply)
    have "free_cache_from i (Suc k) h = Some h'" using False ci m1(1) h2(1) m3(1) by (simp add: ld_def)
    then show ?thesis using moved_trans [OF moved_trans [OF m1(2) m2] m3(2)] by blast
  qed
qed

lemma free_cache_live:
  assumes "mm_live h A"
  shows "\<exists>h'. zend_mm_free_cache h = Some h' \<and> mm_live h' A \<and> keeps h h' A \<and> conf h' = conf h"
proof -
  obtain S Ca where S: "heap_at h S Ca UNIV (frees S)" "live S Ca = A" "real_size h = seg_total S" by (rule mm_liveE [OF assms])
  obtain h' S' Ca' where h': "zend_mm_free_cache h = Some h'" "moved h S Ca h' S' Ca' UNIV"
    using free_cache_from_ok [OF S(1), of 0 64] by (auto simp: zend_mm_free_cache_def ZEND_MM_NUM_BUCKETS_def)
  then have m: "heap_at h' S' Ca' UNIV (frees S')" "live S' Ca' = A" "real_size h' = seg_total S'" "keeps h h' A" "conf h' = conf h" using S(2,3) by (simp_all add: moved_def)
  have "mm_live h' A" by (rule mm_liveI [OF m(1-3) assms]) (use m(5) in \<open>simp add: conf_def\<close>)
  then show ?thesis using h'(1) m by blast
qed

section \<open>Errors\<close>

text \<open>The live blocks of the program: the reserve of the heap is not among them.\<close>

definition mm_ok :: "mm_heap \<Rightarrow> (nat \<times> nat) set \<Rightarrow> bool" where
  "mm_ok h A \<longleftrightarrow> reserve h = 0 \<and> mm_live h A \<or> (\<exists>b n. reserve h = b + 16 \<and> (b, n) \<notin> A \<and> mm_live h (insert (b, n) A))"

lemma mm_live_cong:
  assumes "mem h' = mem h" "haddr h' = haddr h" "free_bitmap h' = free_bitmap h" "large_free_bitmap h' = large_free_bitmap h" "rest_count h' = rest_count h"
    "real_size h' = real_size h" "block_size h' = block_size h"
  shows "mm_live h' A \<longleftrightarrow> mm_live h A"
  using heap_at_cong [OF assms(1-5)] assms(6,7) by (simp add: mm_live_def)

lemma safe_error_ok:
  assumes "mm_ok h A"
  shows "\<exists>h'. zend_mm_safe_error e h = Some (Inl e, h') \<and> mm_ok h' A \<and> keeps h h' A \<and> reserve h' = 0 \<and> overflow h' = (if overflow h = 0 then 1 else 2)"
proof -
  have "\<exists>h1. (if reserve h \<noteq> 0 then do { h \<leftarrow> zend_mm_free_int (reserve h) h; Some (h\<lparr>reserve := 0\<rparr>) } else Some h) = Some h1 \<and> mm_live h1 A \<and> keeps h h1 A \<and> reserve h1 = 0 \<and>
      overflow h1 = overflow h"
  proof (cases "reserve h = 0")
    case True
    then show ?thesis using assms by (auto simp: mm_ok_def keeps_def)
  next
    case False
    then obtain b n where b: "reserve h = b + 16" "(b, n) \<notin> A" "mm_live h (insert (b, n) A)" using assms by (auto simp: mm_ok_def)
    obtain h1 where h1: "zend_mm_free_int (b + 16) h = Some h1" "mm_live h1 (insert (b, n) A - {(b, n)})" "keeps h h1 (insert (b, n) A - {(b, n)})" "conf h1 = conf h"
      using free_live [OF b(3)] by blast
    have e: "insert (b, n) A - {(b, n)} = A" using b(2) by blast
    let ?h2 = "h1\<lparr>reserve := 0\<rparr>"
    have "mm_live ?h2 A" using h1(2) mm_live_cong [of ?h2 h1] unfolding e by simp
    moreover have "keeps h ?h2 A" using h1(3) unfolding e by (simp add: keeps_def)
    ultimately show ?thesis using False b(1) h1(1,4) by (intro exI [of _ ?h2]) (simp add: conf_def)
  qed
  then obtain h1 where h1: "(if reserve h \<noteq> 0 then do { h \<leftarrow> zend_mm_free_int (reserve h) h; Some (h\<lparr>reserve := 0\<rparr>) } else Some h) = Some h1" "mm_live h1 A" "keeps h h1 A" "reserve h1 = 0"
      "overflow h1 = overflow h" by blast
  let ?h' = "if overflow h1 = 0 then h1\<lparr>overflow := 1\<rparr> else h1\<lparr>overflow := 2\<rparr>"
  have "zend_mm_safe_error e h = Some (Inl e, ?h')" unfolding zend_mm_safe_error_def h1(1) by simp
  moreover have "mm_live ?h' A" using h1(2) mm_live_cong [of ?h' h1] by simp
  then have "mm_ok ?h' A" using h1(4) by (simp add: mm_ok_def)
  moreover have "keeps h ?h' A" using h1(3) by (simp add: keeps_def)
  ultimately show ?thesis using h1(4,5) by auto
qed

end
