(* ===== verification/Zend_Mm_Allocate.thy ===== *)
theory Zend_Mm_Allocate
  imports Zend_Mm_Release
begin

unbundle bit_operations_syntax

text \<open>
  Allocation: the block that is found is big enough and free, a new segment extends the layout, and what is left over of a block is free again.
\<close>

section \<open>Sizes\<close>

lemma true_size:
  assumes "n < 2 ^ 64" "\<not> (ZEND_MM_SMALL_SIZE (ZEND_MM_TRUE_SIZE n) \<and> ZEND_MM_TRUE_SIZE n < n)"
  shows "32 \<le> ZEND_MM_TRUE_SIZE n" "8 dvd ZEND_MM_TRUE_SIZE n" "n + 16 \<le> ZEND_MM_TRUE_SIZE n" "ZEND_MM_TRUE_SIZE n < 2 ^ 64"
proof -
  note D = ZEND_MM_TRUE_SIZE_def ZEND_MM_MIN_SIZE_def ZEND_MM_ALIGNED_MIN_HEADER_SIZE_def ZEND_MM_ALIGNED_HEADER_SIZE_def size_t_def
  have "32 \<le> ZEND_MM_TRUE_SIZE n \<and> 8 dvd ZEND_MM_TRUE_SIZE n \<and> n + 16 \<le> ZEND_MM_TRUE_SIZE n \<and> ZEND_MM_TRUE_SIZE n < 2 ^ 64"
  proof (cases "n < 16")
    case True then show ?thesis by (simp add: D)
  next
    case False
    show ?thesis
    proof (cases "n + 23 < 2 ^ 64")
      case True
      define q where "q = (n + 23) div 8"
      have e: "ZEND_MM_TRUE_SIZE n = q * 8" using False True by (simp add: D q_def)
      have "q * 8 + (n + 23) mod 8 = n + 23" unfolding q_def by (rule div_mult_mod_eq)
      moreover have "(n + 23) mod 8 < 8" by simp
      ultimately have "n + 16 \<le> q * 8" "q * 8 \<le> n + 23" by linarith+
      then show ?thesis unfolding e using False True by (intro conjI) (linarith, simp, linarith, linarith)
    next
      case wrap: False
      have "(n + 23) mod 2 ^ 64 = n + 23 - 2 ^ 64" using assms(1) wrap by (subst mod_if) simp
      then have "(n + 23) mod 2 ^ 64 \<le> 22" using assms(1) by linarith
      moreover have "ZEND_MM_TRUE_SIZE n = (n + 23) mod 2 ^ 64 div 8 * 8" using False by (simp add: D add.commute)
      moreover have "(n + 23) mod 2 ^ 64 div 8 * 8 \<le> (n + 23) mod 2 ^ 64" by (rule div_times_less_eq_dividend)
      ultimately have "ZEND_MM_TRUE_SIZE n \<le> 22" by linarith
      then show ?thesis using assms(2) False wrap by (simp add: ZEND_MM_SMALL_SIZE_def ZEND_MM_MAX_SMALL_SIZE_def)
    qed
  qed
  then show "32 \<le> ZEND_MM_TRUE_SIZE n" "8 dvd ZEND_MM_TRUE_SIZE n" "n + 16 \<le> ZEND_MM_TRUE_SIZE n" "ZEND_MM_TRUE_SIZE n < 2 ^ 64" by blast+
qed

lemma and_high: "x < 2 ^ 64 \<Longrightarrow> k \<le> 64 \<Longrightarrow> x AND (2 ^ 64 - 2 ^ k) = x div 2 ^ k * 2 ^ k" for x :: nat
proof -
  assume x: "x < 2 ^ 64" and k: "k \<le> 64"
  have m: "2 ^ 64 - 2 ^ k = push_bit k (mask (64 - k) :: nat)"
  proof -
    have "(2 :: nat) ^ (64 - k) * 2 ^ k = 2 ^ 64" using k by (simp flip: power_add)
    then show ?thesis by (simp add: push_bit_eq_mult mask_eq_exp_minus_1 diff_mult_distrib)
  qed
  have "bit (x AND push_bit k (mask (64 - k))) j = bit (push_bit k (drop_bit k x)) j" for j
  proof -
    have "bit x j \<Longrightarrow> j < 64"
    proof -
      assume "bit x j"
      then have "2 ^ j \<le> x" by (auto simp: bit_iff_odd dest: odd_pos div_greater_zero_iff [THEN iffD1])
      then have "(2 :: nat) ^ j < 2 ^ 64" using x by linarith
      then show "j < 64" by (rule power_less_imp_less_exp [rotated]) simp
    qed
    then show ?thesis using k by (auto simp: bit_simps)
  qed
  then have "x AND push_bit k (mask (64 - k)) = push_bit k (drop_bit k x)" by (rule bit_eqI)
  then show ?thesis using m by (simp add: push_bit_eq_mult drop_bit_eq_div)
qed

lemma segment_size_ok:
  assumes bs: "block_size h = 2 ^ k" "5 \<le> k" "k < 64" and t: "t < 2 ^ 64" and s: "\<not> segment_size t h < t"
  shows "t + 32 \<le> segment_size t h" "8 dvd segment_size t h" "segment_size t h < 2 ^ 64"
proof -
  have p: "(32 :: nat) \<le> 2 ^ k" using power_increasing [OF bs(2), of "2 :: nat"] by simp
  have p64: "(2 :: nat) ^ k \<le> 2 ^ 63" using bs(3) by (intro power_increasing) auto
  have d8: "(8 :: nat) dvd 2 ^ k" using bs(2) le_imp_power_dvd [of 3 k "2 :: nat"] by simp
  have sub: "size_sub (2 ^ k) 32 = 2 ^ k - 32" "size_sub (2 ^ k) 1 = 2 ^ k - 1" using p p64 by (simp_all add: size_sub_exact)
  note D = segment_size_def ZEND_MM_ALIGNED_SEGMENT_SIZE_def ZEND_MM_ALIGNED_HEADER_SIZE_def bs(1)
  have "t + 32 \<le> segment_size t h \<and> 8 dvd segment_size t h \<and> segment_size t h < 2 ^ 64"
  proof (cases "t > 2 ^ k - 32")
    case False
    then have "segment_size t h = 2 ^ k" using sub by (simp add: D)
    then show ?thesis using False p p64 d8 by simp
  next
    case True
    let ?x = "size_t (size_t (t + 32) + (2 ^ k - 1))"
    have x: "?x < 2 ^ 64" by (simp add: size_t_def)
    have n: "segment_size t h = ?x div 2 ^ k * 2 ^ k" using True sub and_high [OF x, of k] bs(3) by (simp add: D add.commute)
    have le: "?x div 2 ^ k * 2 ^ k \<le> ?x" by (metis div_times_less_eq_dividend)
    show ?thesis
    proof (cases "t + 32 + (2 ^ k - 1) < 2 ^ 64")
      case w: True
      then have "size_t (t + 32) = t + 32" unfolding size_t_def by (intro mod_less) linarith
      then have e: "?x = t + 32 + (2 ^ k - 1)" using w unfolding size_t_def by (simp only: mod_less)
      have "?x div 2 ^ k * 2 ^ k + ?x mod 2 ^ k = ?x" by (rule div_mult_mod_eq)
      moreover have "?x mod 2 ^ k < 2 ^ k" by simp
      ultimately have "t + 32 \<le> ?x div 2 ^ k * 2 ^ k" using e by linarith
      then show ?thesis unfolding n using le x d8 by (intro conjI) (assumption, simp, linarith)
    next
      case w: False
      have False
      proof (cases "t + 32 < 2 ^ 64")
        case lt: True
        then have "size_t (t + 32) = t + 32" unfolding size_t_def by (intro mod_less) linarith
        then have "?x = (t + 32 + (2 ^ k - 1)) mod 2 ^ 64" unfolding size_t_def by (simp only:)
        also have "\<dots> = t + 32 + (2 ^ k - 1) - 2 ^ 64" using lt w p64 by (subst mod_if) simp
        finally have "?x < 2 ^ k" using lt p by linarith
        then show False using n s True by simp
      next
        case False
        have "(t + 32) mod 2 ^ 64 = t + 32 - 2 ^ 64" using t False by (subst mod_if) simp
        then have "size_t (t + 32) < 32" using t False unfolding size_t_def by linarith
        moreover have "?x \<le> size_t (t + 32) + (2 ^ k - 1)" unfolding size_t_def by (rule mod_less_eq_dividend)
        ultimately have "segment_size t h < 2 ^ k + 32" using n le p by linarith
        moreover have "(2 :: nat) ^ 63 + 64 < 2 ^ 64" by simp
        ultimately show False using s False p64 by linarith
      qed
      then show ?thesis ..
    qed
  qed
  then show "t + 32 \<le> segment_size t h" "8 dvd segment_size t h" "segment_size t h < 2 ^ 64" by blast+
qed

section \<open>The search\<close>

definition fitting :: "mm_heap \<Rightarrow> nat set \<Rightarrow> nat \<Rightarrow> nat \<Rightarrow> bool" where
  "fitting h F t q \<longleftrightarrow> q = 0 \<or> q \<in> F \<and> t \<le> bsize (mem h) q"

text \<open>The rest list, from its end to its start.\<close>

lemma search_rest_list_ok:
  assumes "ring (mem h) (ZEND_MM_REST_BUCKET (haddr h)) (as @ bs)" "set (as @ bs) \<subseteq> F" "\<And>p. p \<in> F \<Longrightarrow> mem h p = Some (bsize (mem h) p)" "fitting h F t bf"
  shows "\<exists>q. search_rest_list t (last (ZEND_MM_REST_BUCKET (haddr h) # as)) sz bf h = Some q \<and> fitting h F t q"
  using assms
proof (induction as arbitrary: bs sz bf rule: rev_induct)
  case Nil
  then show ?case by (subst search_rest_list.simps) simp
next
  case (snoc p as)
  let ?x = "ZEND_MM_REST_BUCKET (haddr h)"
  have r: "ring (mem h) ?x (as @ p # bs)" using snoc.prems(1) by simp
  have px: "p \<noteq> ?x" using r by (auto simp: ring_def)
  have pF: "p \<in> F" using snoc.prems(2) by simp
  have "chain (mem h) (?x # (as @ (p # bs)) @ [?x])" using r by (simp add: ring_def)
  then have prev: "mem h (p + 16) = Some (last (?x # as))" unfolding ring_split by simp
  let ?n = "bsize (mem h) p"
  have m: "mem h p = Some ?n" by (rule snoc.prems(3) [OF pF])
  show ?case
  proof (cases "?n = t")
    case True
    then show ?thesis using px m pF by (subst search_rest_list.simps) (simp add: ld_def fitting_def)
  next
    case False
    define bf' where "bf' = (if ?n > t \<and> ?n < sz then p else bf)"
    define sz' where "sz' = (if ?n > t \<and> ?n < sz then ?n else sz)"
    have "fitting h F t bf'" using snoc.prems(4) pF by (auto simp: bf'_def fitting_def)
    then obtain q where q: "search_rest_list t (last (?x # as)) sz' bf' h = Some q" "fitting h F t q"
      using snoc.IH [of "p # bs" bf' sz'] r snoc.prems(2,3) by auto
    have "search_rest_list t p sz bf h = search_rest_list t (last (?x # as)) sz' bf' h"
      using px m prev False by (subst search_rest_list.simps) (simp add: ld_def bf'_def sz'_def del: last.simps)
    then show ?thesis using q by simp
  qed
qed

lemma find_block_ok:
  assumes f: "flists h Sm Rs Tr" and t: "32 \<le> t" "8 dvd t" "t < 2 ^ 64"
  shows "\<exists>q. find_block t h = Some q \<and> fitting h (fset Sm Rs Tr) t q"
proof -
  let ?F = "fset Sm Rs Tr"
  note g = flistsD(1) [OF f]
  have mF: "mem h p = Some (bsize (mem h) p)" if "p \<in> ?F" for p by (rule block_atD(1) [OF geoD(1) [OF g that]])
  show ?thesis
  proof (cases "ZEND_MM_SMALL_SIZE t \<and> drop_bit (ZEND_MM_BUCKET_INDEX t) (free_bitmap h) \<noteq> 0")
    case True
    obtain i where i: "i < 64" "t = 32 + 8 * i" "ZEND_MM_BUCKET_INDEX t = i" by (rule small_word [OF t(1,2)]) (use True in auto)
    obtain k where k: "zend_mm_low_bit (drop_bit i (free_bitmap h)) = Some k" "bit (drop_bit i (free_bitmap h)) k"
      using low_bit_loop [of _ 0] True i(3) by (auto simp: zend_mm_low_bit_def)
    then have bk: "bit (free_bitmap h) (i + k)" by (simp add: bit_drop_bit_eq comp_def)
    have ik: "i + k < 64" "Sm (i + k) \<noteq> []" using flistsD(6) [OF f bk] by blast+
    note s = flistsD(2) [OF f ik(1), unfolded small_at_def]
    have "mem h (ZEND_MM_SMALL_FREE_BUCKET (haddr h) (i + k) + 16) = Some (last (Sm (i + k)))" using ring_ends [OF s [THEN conjunct1]] ik(2) by simp
    then have "mem h (free_buckets (haddr h) ((i + k) * 2)) = Some (last (Sm (i + k)))" by (simp add: heads free_buckets_def ac_simps)
    moreover have "last (Sm (i + k)) \<in> set (Sm (i + k))" using ik(2) by simp
    then have "last (Sm (i + k)) \<in> ?F" "bsize (mem h) (last (Sm (i + k))) = 32 + 8 * (i + k)" using fset_mem(1) [OF ik(1), of Sm Rs Tr] s by (auto simp: bsize_def)
    ultimately show ?thesis using True k(1) i by (auto simp: find_block_def ld_def Let_def fitting_def)
  next
    case False
    obtain q where q: "zend_mm_search_large_block t h = Some q" "fits Tr t q" using search_large_ok [OF flistsD(9) [OF f], of t] t(1,3) by auto
    have run: "find_block t h = (if q = 0 \<and> real_size h \<ge> size_sub (limit h) (block_size h)
        then do { p \<leftarrow> ld h (rest_buckets (haddr h) 0); search_rest_list t p (2 ^ 64 - 1) 0 h } else Some q)"
      using False q(1) by (auto simp: find_block_def Let_def)
    have fq: "fitting h ?F t q"
    proof (cases "q = 0")
      case nz: False
      then obtain i n ps where i: "i < 64" "(n, ps) \<in> tnodes (Tr i)" "q \<in> set ps" "t \<le> n" using q(2) by (auto simp: fits_def)
      have "mem h q = Some n" using tree_at_nodes [OF large_okD(1) [OF flistsD(9) [OF f] i(1)] i(2)] i(3) by blast
      moreover have "q \<in> ?F" using tnodes_blocks [OF i(2)] fset_mem(3) [OF i(1), of Tr Sm Rs] i(3) by blast
      ultimately show ?thesis using i(4) by (simp add: fitting_def bsize_def)
    qed (simp add: fitting_def)
    note ra = flistsD(7) [OF f, unfolded rest_at_def]
    have rl: "mem h (rest_buckets (haddr h) 0) = Some (last (ZEND_MM_REST_BUCKET (haddr h) # Rs))"
      using ring_ends [OF ra [THEN conjunct1]] by (simp add: rest_buckets_def heads ac_simps)
    obtain q' where "search_rest_list t (last (ZEND_MM_REST_BUCKET (haddr h) # Rs)) (2 ^ 64 - 1) 0 h = Some q'" "fitting h ?F t q'"
      using search_rest_list_ok [of h Rs "[]" ?F t 0 "2 ^ 64 - 1"] ra fset_mem(2) [of Rs Sm Tr] mF by (auto simp: fitting_def)
    then show ?thesis using fq run rl by (simp add: ld_def del: last.simps)
  qed
qed

section \<open>Splitting a block\<close>

lemma split_ok:
  assumes h: "heap_at h S Ca I (ffree (others S1 sg X n Y S2))" and S: "S = S1 @ (sg, X @ [(n, u)] @ Y) # S2"
    and c: "sg + 16 + tsum X \<notin> cset Ca" and t: "32 \<le> t" "8 dvd t" "t \<le> n" and add: "add = zend_mm_add_to_free_list \<or> add = zend_mm_add_to_rest_list"
  shows "\<exists>h' k S'. split_block (sg + 16 + tsum X) n t add h = Some (k, h') \<and> t \<le> k \<and> heap_at h' S' Ca I (frees S') \<and>
    usd S' = insert (sg + 16 + tsum X, k) {(p, j). (p, j, True) \<in> others S1 sg X n Y S2} \<and> (sg + 16 + tsum X, k) \<notin> {(p, j). (p, j, True) \<in> others S1 sg X n Y S2} \<and>
    steps_to h h' {(p, j). (p, j, True) \<in> others S1 sg X n Y S2} \<and> seg_total S' = seg_total S"
proof -
  let ?a = "sg + 16 + tsum X" and ?R = "others S1 sg X n Y S2" and ?Z = "[(n, u)]"
  let ?e = "sg + 16 + tsum X + n"
  note l = heap_atD(1) [OF h]
  have l1: "layout h (S1 @ (sg, X @ [(n, u)] @ Y) # S2)" "layout h (S1 @ (sg, (X @ [(n, u)]) @ Y) # S2)" using l S by simp_all
  have tZ: "tsum ?Z = n" "tset ?a ?Z = {(?a, n, u)}" by simp_all
  have i: "b \<notin> ffree ?R \<and> b \<notin> cset Ca" if "(b, y) \<in> tset ?a ?Z" for b y
    using that c others_disjoint [OF l1(1), of b _ False ?a n u] by (auto simp: ffree_def)
  have na: "(?a, k) \<notin> {(p, j). (p, j, True) \<in> ?R}" for k using others_disjoint [OF l1(1), of ?a k True ?a n u] by auto
  have n: "8 dvd n" "32 \<le> n" using seam(3) [OF l1(1), of "(n, u)"] by simp_all
  show ?thesis
  proof (cases "n - t < 32")
    case True
    let ?S' = "S1 @ (sg, X @ [(n, True)] @ Y) # S2"
    obtain h' where h': "ZEND_MM_BLOCK ?a (of_bool True) (tsum ?Z) h = Some h'" "heap_at h' (S1 @ (sg, X @ [(tsum ?Z, True)] @ Y) # S2) Ca I (ffree ?R)"
        "steps_to h h' {(p, j). (p, j, True) \<in> others S1 sg X (tsum ?Z) Y S2}"
      using merge_block [OF h S, of True] i by blast
    have B: "bset ?S' = ?R \<union> {(?a, n, True)}" using bset_others [of "[(n, True)]" n S1 sg X Y S2] by simp
    have "split_block ?a n t add h = Some (n, h')" using True h'(1) by (simp add: split_block_def Let_def ZEND_MM_ALIGNED_MIN_HEADER_SIZE_def ZEND_MM_USED_BLOCK_def)
    moreover have "frees ?S' = ffree ?R" unfolding ffree_simps(1) B by (simp add: ffree_simps)
    moreover have "usd ?S' = insert (?a, n) {(p, j). (p, j, True) \<in> ?R}" unfolding usd_def B by auto
    moreover have "seg_total ?S' = seg_total S" using S by (simp add: seg_len_def)
    moreover note h'(2,3) [unfolded tZ(1)] na [of n] t(3)
    ultimately show ?thesis by (intro exI [of _ h'] exI [of _ n] exI [of _ ?S']) simp
  next
    case False
    let ?S' = "S1 @ (sg, X @ [(t, True), (n - t, False)] @ Y) # S2" and ?r = "n - t"
    have r: "8 dvd ?r" "32 \<le> ?r" "t + ?r = n" using False t n by (simp_all add: dvd_diff_nat)
    have s: "(sg, X @ [(n, u)] @ Y) \<in> set S" using S by simp
    have reg: "x \<in> dom (mem h)" if "?a \<le> x" "x \<le> ?e + 8" "8 dvd x" for x
      by (rule cells_dom [OF l s]) (use that in \<open>auto simp: seg_len_def\<close>)
    have a8: "8 dvd ?a"
    proof -
      have "8 dvd sg" "8 dvd tsum X" using layoutD(2) [OF l s] seg_tpart [OF l s] by (auto simp: seg_at_def tpart_append dest: tpart_mult)
      then show ?thesis by (simp add: dvd_add)
    qed
    let ?m1 = "(mem h)(?a \<mapsto> t + of_bool True, ?a + t + 8 \<mapsto> t + of_bool True)"
    let ?m2 = "?m1(?a + t \<mapsto> ?r + of_bool False, ?a + t + ?r + 8 \<mapsto> ?r + of_bool False)"
    let ?h1 = "h\<lparr>mem := ?m1\<rparr>" and ?h2 = "h\<lparr>mem := ?m2\<rparr>"
    have dm: "?a \<in> dom (mem h)" "?a + t \<in> dom (mem h)" "?a + t + 8 \<in> dom (mem h)" "?e + 8 \<in> dom (mem h)"
      using reg [of ?a] reg [of "?a + t"] reg [of "?a + t + 8"] reg [of "?e + 8"] dvd_add [OF a8 t(2)] dvd_add [OF a8 n(1)] t r a8 by (simp_all only: dvd_add_times_triv_right_iff dvd_add le_add1 trans_le_add1 dvd_refl)
    have w1: "ZEND_MM_BLOCK ?a (of_bool True) t h = Some ?h1" by (rule block_write [OF _ t(2)]) (use dm in auto)
    have w2: "ZEND_MM_BLOCK (?a + t) (of_bool False) ?r ?h1 = Some ?h2" using block_write [of "?a + t" ?r ?h1 False, OF _ r(1)] dm r(3) by (simp add: add.assoc)
    have u: "upd_in (mem h) (mem ?h2) {?a, ?a + t + 8, ?a + t, ?e + 8}" using dm r(3) by (auto simp: upd_in_def)
    have W: "{?a, ?a + t + 8, ?a + t, ?e + 8} \<subseteq> insert (?a + tsum ?Z + 8) {?a..<?a + tsum ?Z}" using r t by auto
    have t1: "tpart (mem ?h2) ?a (lastw 3 X) [(t, True), (?r, False)]"
      using seam(1) [OF l1(1)] t r n by (auto simp: word_def)
    have t2: "mem ?h2 (?a + tsum ?Z + 8) = Some (lastw 3 (X @ [(t, True), (?r, False)]))" using r(3) by (simp add: word_def lastw_def)
    have R: "heap_at ?h2 ?S' Ca I (ffree ?R)" "keeps h ?h2 {(p, j). (p, j, True) \<in> ?R}"
      using heap_retile [OF h S _ _ u W _ _ _ _ t1 t2] i r(3) unfolding tZ(1) by simp_all
    have B: "bset ?S' = ?R \<union> {(?a, t, True), (?a + t, ?r, False)}" using bset_others [of "[(t, True), (?r, False)]" n S1 sg X Y S2] r(3) by simp
    have F: "frees ?S' = insert (?a + t) (ffree ?R)" unfolding ffree_simps(1) B by (auto simp: ffree_simps)
    have U: "usd ?S' = insert (?a, t) {(p, j). (p, j, True) \<in> ?R}" unfolding usd_def B by auto
    have at: "?a + t \<notin> ffree ?R" "?a + t \<in> frees ?S'"
    proof -
      have "?a + t \<noteq> p" if "(p, k, v) \<in> ?R" for p k v
        using others_disjoint [OF heap_atD(1) [OF R(1)], of p k v "?a + t" ?r False] that r(3) by simp
      then show "?a + t \<notin> ffree ?R" by (auto simp: ffree_def)
      show "?a + t \<in> frees ?S'" unfolding F by blast
    qed
    obtain h' where h': "add (?a + t) ?h2 = Some h'" "heap_at h' ?S' Ca I (insert (?a + t) (ffree ?R))" "steps_to ?h2 h' (usd ?S')"
      using heap_add [OF R(1) at] add by blast
    have "split_block ?a n t add h = Some (t, h')" using False w1 w2 h'(1)
      by (simp add: split_block_def Let_def ZEND_MM_ALIGNED_MIN_HEADER_SIZE_def ZEND_MM_USED_BLOCK_def ZEND_MM_FREE_BLOCK_def del: fun_upd_apply)
    moreover have "steps_to h ?h2 {(p, j). (p, j, True) \<in> ?R}" using R(2) by (simp add: steps_to_def conf_def)
    then have "steps_to h h' {(p, j). (p, j, True) \<in> ?R}" by (rule steps_trans) (rule steps_mono [OF h'(3)], unfold U, blast)
    moreover have "seg_total ?S' = seg_total S" using S r(3) by (simp add: seg_len_def)
    moreover note h'(2) [folded F] U na [of t]
    ultimately show ?thesis by (intro exI [of _ h'] exI [of _ t] exI [of _ ?S']) simp
  qed
qed

text \<open>The headers that a block has before it is split do not matter.\<close>

lemma split_junk:
  assumes "{b, b + n + 8} \<subseteq> dom (mem h)" "b + t \<in> dom (mem h)" "b + t + 8 \<in> dom (mem h)" "8 dvd n" "8 dvd t" "t \<le> n" "32 \<le> t"
  shows "split_block b n t add (h\<lparr>mem := (mem h)(b \<mapsto> v, b + n + 8 \<mapsto> w)\<rparr>) = split_block b n t add h"
proof (cases "n - t < 32")
  case True
  let ?h = "h\<lparr>mem := (mem h)(b \<mapsto> v, b + n + 8 \<mapsto> w)\<rparr>"
  have "ZEND_MM_BLOCK b (of_bool True) n ?h = ZEND_MM_BLOCK b (of_bool True) n h"
    using block_write [of b n h True] block_write [of b n ?h True] assms(1,4) by (simp add: fun_upd_twist)
  then show ?thesis using True by (simp add: split_block_def Let_def ZEND_MM_ALIGNED_MIN_HEADER_SIZE_def ZEND_MM_USED_BLOCK_def)
next
  case False
  let ?h = "h\<lparr>mem := (mem h)(b \<mapsto> v, b + n + 8 \<mapsto> w)\<rparr>" and ?r = "n - t"
  have r: "8 dvd ?r" "b + t + ?r + 8 = b + n + 8" "32 \<le> ?r" using assms(4-6) False by (simp_all add: dvd_diff_nat)
  have w1: "ZEND_MM_BLOCK b (of_bool True) t h = Some (h\<lparr>mem := (mem h)(b \<mapsto> t + of_bool True, b + t + 8 \<mapsto> t + of_bool True)\<rparr>)" (is "_ = Some ?h1") 
    by (rule block_write [OF _ assms(5)]) (use assms(1,3) in auto)
  have w2: "ZEND_MM_BLOCK b (of_bool True) t ?h = Some (?h\<lparr>mem := (mem ?h)(b \<mapsto> t + of_bool True, b + t + 8 \<mapsto> t + of_bool True)\<rparr>)" (is "_ = Some ?h2")
    by (rule block_write [OF _ assms(5)]) (use assms(1,3) in auto)
  have w3: "ZEND_MM_BLOCK (b + t) (of_bool False) ?r ?h1 = Some (?h1\<lparr>mem := (mem ?h1)(b + t \<mapsto> ?r + of_bool False, b + t + ?r + 8 \<mapsto> ?r + of_bool False)\<rparr>)" (is "_ = Some ?h3")
    by (rule block_write [OF _ r(1)]) (use assms(1,2) r(2) in auto)
  have w4: "ZEND_MM_BLOCK (b + t) (of_bool False) ?r ?h2 = Some (?h2\<lparr>mem := (mem ?h2)(b + t \<mapsto> ?r + of_bool False, b + t + ?r + 8 \<mapsto> ?r + of_bool False)\<rparr>)" (is "_ = Some ?h4")
    by (rule block_write [OF _ r(1)]) (use assms(1,2) r(2) in auto)
  have "mem ?h3 = mem ?h4" unfolding r(2) using assms(7) r(3) by (intro ext) simp
  then have "?h3 = ?h4" by simp
  then have A: "do { h \<leftarrow> ZEND_MM_BLOCK b (of_bool True) t h; ZEND_MM_BLOCK (b + t) (of_bool False) ?r h } =
      do { h \<leftarrow> ZEND_MM_BLOCK b (of_bool True) t ?h; ZEND_MM_BLOCK (b + t) (of_bool False) ?r h }" unfolding w1 w2 using w3 w4 by (simp del: fun_upd_apply)
  have B: "split_block b n t add g = do { g \<leftarrow> do { h \<leftarrow> ZEND_MM_BLOCK b (of_bool True) t g; ZEND_MM_BLOCK (b + t) (of_bool False) ?r h }; g \<leftarrow> add (b + t) g; Some (t, g) }" for g
    using False by (simp add: split_block_def Let_def ZEND_MM_ALIGNED_MIN_HEADER_SIZE_def ZEND_MM_USED_BLOCK_def ZEND_MM_FREE_BLOCK_def)
  show ?thesis unfolding B A by (rule refl)
qed

section \<open>A new segment\<close>

text \<open>The storage gives memory that nobody uses, aligned and inside of the address space.\<close>

definition storage_ok :: "storage \<Rightarrow> bool" where
  "storage_ok sg \<longleftrightarrow> (\<forall>n m a c. sg n m = Some (a, c) \<longrightarrow> 8 dvd a \<and> 16 \<le> a \<and> a + n \<le> 2 ^ 64 \<and> (\<forall>x. a \<le> x \<and> x < a + n \<longrightarrow> m x = None))"

lemma lnk_move: "lnk d m p L \<Longrightarrow> m' p' = m p \<Longrightarrow> (\<And>s. s \<in> set L \<Longrightarrow> m' (s + d) = m (s + d)) \<Longrightarrow> lnk d m' p' L"
  by (cases L) (auto intro: lnk_frame)

lemma fresh_apart:
  assumes l: "layout h S" and a: "8 dvd a" "\<And>x. a \<le> x \<Longrightarrow> x < a + n \<Longrightarrow> mem h x = None"
  shows "s \<in> set S \<Longrightarrow> {a..<a + n} \<inter> region s = {}" "{a..<a + n} \<inter> heap_region (haddr h) = {}"
proof -
  show "{a..<a + n} \<inter> region s = {}" if s: "s \<in> set S"
  proof (rule ccontr)
    assume "{a..<a + n} \<inter> region s \<noteq> {}"
    then obtain y where "y \<in> {a..<a + n}" "y \<in> region s" by blast
    then have y: "a \<le> y" "y < a + n" "fst s \<le> y" "y < fst s + seg_len s" by (simp_all add: region_def)
    have "8 dvd fst s" using layoutD(2) [OF l s] by (simp add: seg_at_def)
    then have "8 dvd max a (fst s)" using a(1) by (simp add: max_def)
    then have "max a (fst s) \<in> dom (mem h)" by (intro cells_dom [OF l s]) (use y in auto)
    moreover have "mem h (max a (fst s)) = None" by (rule a(2)) (use y in auto)
    ultimately show False by blast
  qed
  show "{a..<a + n} \<inter> heap_region (haddr h) = {}"
  proof (rule ccontr)
    assume "{a..<a + n} \<inter> heap_region (haddr h) \<noteq> {}"
    then obtain y where "y \<in> {a..<a + n}" "y \<in> heap_region (haddr h)" by blast
    then have y: "a \<le> y" "y < a + n" "haddr h \<le> y" "y < haddr h + sizeof_heap" by (simp_all add: heap_region_def)
    have "8 dvd max a (haddr h) - haddr h" using a(1) layoutD(5) [OF l] by (simp add: max_def dvd_diff_nat)
    then have "haddr h + (max a (haddr h) - haddr h) \<in> dom (mem h)" by (intro heap_dom [OF l]) (use y in auto)
    moreover have "mem h (max a (haddr h)) = None" by (rule a(2)) (use y in auto)
    ultimately show False by auto
  qed
qed

lemma heap_grow:
  assumes h: "heap_at h S Ca UNIV F" and a: "8 dvd a" "16 \<le> a" "a + n \<le> 2 ^ 64" "\<And>x. a \<le> x \<Longrightarrow> x < a + n \<Longrightarrow> mem h x = None" and n: "64 \<le> n" "8 dvd n"
    and h1: "h1 = h\<lparr>mem := (\<lambda>x. if cells a n x then Some (c x) else mem h x)\<rparr>"
  shows "\<exists>h2. open_segment a n h1 = Some h2 \<and> heap_at (h2\<lparr>mem := (mem h2)(a + 16 \<mapsto> n - 32, a + 16 + (n - 32) + 8 \<mapsto> n - 32)\<rparr>) ((a, [(n - 32, False)]) # S) Ca UNIV F \<and>
    keeps h (h2\<lparr>mem := (mem h2)(a + 16 \<mapsto> n - 32, a + 16 + (n - 32) + 8 \<mapsto> n - 32)\<rparr>) (usd S) \<and> conf h2 = conf h \<and> real_size h2 = size_t (real_size h + n) \<and>
    {a + 16, a + 16 + (n - 32) + 8} \<subseteq> dom (mem h2)"
proof -
  note l = heap_atD(1) [OF h] and c = heap_atD(2) [OF h]
  let ?p = "segments_list (haddr h)" and ?s = "(a, [(n - 32, False)])"
  have fr: "{a..<a + n} \<inter> region s = {}" if "s \<in> set S" for s using fresh_apart(1) [OF l a(1), of n s] a(4) that by blast
  have fr2: "{a..<a + n} \<inter> heap_region (haddr h) = {}" using fresh_apart(2) [OF l a(1), of n] a(4) by blast
  have ph: "?p \<in> heap_region (haddr h)" by (simp add: segments_list_def heap_region_def sizeof_heap_def)
  then have pa: "?p \<notin> {a..<a + n}" using fr2 by blast
  obtain v where v: "mem h ?p = Some v" using layoutD(1) [OF l] by (cases "map fst S") auto
  have n32: "8 dvd n - 32" "32 \<le> n - 32" "a + 16 + (n - 32) = a + n - 16" using n by (simp_all add: dvd_diff_nat)
  have cl: "cells a n (a + i)" if "i < n" "8 dvd i" for i using that by (simp add: cells_def dvd_eq_mod_eq_0)
  have c1: "cells a n a" "cells a n (a + 8)" "cells a n (a + 24)" "cells a n (a + 16)" using cl [of 0] cl [of 8] cl [of 24] cl [of 16] n(1) by simp_all
  have c2: "cells a n (a + 16 + (n - 32))" "cells a n (a + 16 + (n - 32) + 8)"
    using cl [of "16 + (n - 32)"] cl [of "16 + (n - 32) + 8"] n n32 dvd_add [of 8 16 "n - 32"] dvd_add [of 8 24 "n - 32"] by (simp_all add: add.assoc)
  let ?m1 = "mem h1"
  let ?m2 = "?m1(a \<mapsto> n, a + 8 \<mapsto> v, ?p \<mapsto> a, a + 24 \<mapsto> 3, a + 16 + (n - 32) \<mapsto> 19)"
  define h2 where "h2 = (grow_real_size n h1)\<lparr>mem := ?m2\<rparr>"
  have gm: "mem (grow_real_size n h1) = ?m1" "haddr (grow_real_size n h1) = haddr h" by (simp_all add: grow_real_size_def Let_def h1)
  have d1: "x \<in> dom ?m1" if "cells a n x" for x using that by (auto simp: h1)
  have p1: "?m1 ?p = Some v" using v pa by (auto simp: h1 cells_def)
  have pn: "?p \<noteq> a" "?p \<noteq> a + 8" using pa n(1) by auto
  have run: "open_segment a n h1 = Some h2"
    using d1 [OF c1(1)] d1 [OF c1(2)] d1 [OF c1(3)] d1 [OF c2(1)] p1 gm pn
    by (simp add: open_segment_def ld_def h2_def ZEND_MM_MARK_FIRST_BLOCK_def ZEND_MM_LAST_BLOCK_def ZEND_MM_ALIGNED_SEGMENT_SIZE_def ZEND_MM_ALIGNED_HEADER_SIZE_def
        ZEND_MM_GUARD_BLOCK_def Let_def add.assoc)
  define h3 where "h3 = h2\<lparr>mem := (mem h2)(a + 16 \<mapsto> n - 32, a + 16 + (n - 32) + 8 \<mapsto> n - 32)\<rparr>"
  have k: "mem h3 x = mem h x" if "x \<notin> {a..<a + n}" "x \<noteq> ?p" for x
  proof -
    have "\<not> cells a n x" using that(1) by (auto simp: cells_def)
    moreover have "x \<noteq> a" "x \<noteq> a + 8" "x \<noteq> a + 24" "x \<noteq> a + 16" "x \<noteq> a + 16 + (n - 32)" "x \<noteq> a + 16 + (n - 32) + 8" using that(1) n by auto
    ultimately show ?thesis using that(2) by (simp add: h3_def h2_def h1)
  qed
  have v3: "mem h3 a = Some n" "mem h3 (a + 8) = Some v" "mem h3 ?p = Some a" "mem h3 (a + 16 + 8) = Some 3" "mem h3 (a + 16) = Some (n - 32)"
      "mem h3 (a + 16 + (n - 32)) = Some 19" "mem h3 (a + 16 + (n - 32) + 8) = Some (n - 32)"
    using pa n by (auto simp: h3_def h2_def)
  have e: "haddr h3 = haddr h" "free_bitmap h3 = free_bitmap h" "large_free_bitmap h3 = large_free_bitmap h" "rest_count h3 = rest_count h" "conf h2 = conf h" "real_size h2 = size_t (real_size h + n)"
    by (simp_all add: h3_def h2_def h1 grow_real_size_def Let_def conf_def)
  have reg: "region ?s = {a..<a + n}" using n(1) by (simp add: region_def seg_len_def)
  have kr: "mem h3 x = mem h x" if "s \<in> set S" "x \<in> region s" for s x by (rule k) (use fr [OF that(1)] that layoutD(3) [OF l that(1)] ph in auto)
  have kb: "mem h3 (p + j) = mem h (p + j)" if p: "(p, q, u) \<in> bset S" "j < q" for p q u j
  proof -
    obtain s where s: "s \<in> set S" "{p..<p + q} \<subseteq> region s" by (rule tile_at [OF l p(1)]) blast
    have "p + j \<in> {p..<p + q}" using p(2) by simp
    then show ?thesis using kr [OF s(1)] s(2) by blast
  qed
  have kh: "mem h3 x = mem h x" if "x \<in> heap_region (haddr h)" "x \<noteq> ?p" for x by (rule k) (use fr2 that in auto)
  have "lnk 8 (mem h3) (a + 8) (map fst S)"
  proof (rule lnk_move [OF layoutD(1) [OF l]])
    show "mem h3 (a + 8) = mem h ?p" using v3(2) v by simp
    fix s assume "s \<in> set (map fst S)"
    then obtain r where r: "r \<in> set S" "s = fst r" by auto
    then show "mem h3 (s + 8) = mem h (s + 8)" using kr [OF r(1)] header_not_inner(4) [OF l r(1), of 8] by simp
  qed
  then have L1: "lnk 8 (mem h3) ?p (map fst (?s # S))" using v3(3) a(2) by simp
  have "seg_at (mem h3) ?s" unfolding seg_at_def tiles_def using v3 a n n32 by (simp add: seg_len_def word_def lastw_def)
  moreover have "seg_at (mem h3) r" if r: "r \<in> set S" for r
  proof -
    have "tiles (mem h3) (fst r + 16) (snd r)"
    proof (rule tiles_frame)
      show "tiles (mem h) (fst r + 16) (snd r)" using layoutD(2) [OF l r] by (simp add: seg_at_def)
      show "mem h3 b = mem h b \<and> mem h3 (b + 8) = mem h (b + 8)" if "b \<in> heads_of (fst r + 16) (snd r)" for b
        using kr [OF r] header_not_inner(3) [OF l r that, of 0] header_not_inner(3) [OF l r that, of 8] by simp
    qed
    then show ?thesis using layoutD(2) [OF l r] kr [OF r] header_not_inner(4) [OF l r, of 0] by (simp add: seg_at_def)
  qed
  ultimately have L2: "seg_at (mem h3) r \<and> region r \<inter> heap_region (haddr h) = {}" if "r \<in> set (?s # S)" for r
    using that fr2 layoutD(3) [OF l, of r] reg by (cases "r = ?s") simp_all
  have ap: "apart (?s # S)" using fr layoutD(4) [OF l] reg by simp
  have dm: "dom (mem h3) = Collect (cells (haddr h) sizeof_heap) \<union> (\<Union>s\<in>set (?s # S). Collect (cells (fst s) (seg_len s)))"
  proof -
    have "dom (mem h3) = dom (mem h) \<union> Collect (cells a n)" using c1 c2 v by (auto simp: h3_def h2_def h1 dom_def split: if_splits)
    moreover have "seg_len ?s = n" using n(1) by (simp add: seg_len_def)
    ultimately show ?thesis using layoutD(7) [OF l] by auto
  qed
  have l3: "layout h3 (?s # S)" unfolding layout_def e(1) using L1 L2 ap dm layoutD(5,6) [OF l] by blast
  have B: "bset (?s # S) = insert (a + 16, n - 32, False) (bset S)" by (simp add: bset_def)
  have FB: "(p, bsize (mem h) p, False) \<in> bset S" if "p \<in> F" for p using free_tile [OF _ l] heap_atD(4) [OF h] that by blast
  have "fl h3 F"
  proof (rule fl_agree [OF heap_atD(3) [OF h] e(1-4)])
    show "mem h3 x = mem h x" if "x \<in> heap_arrays (haddr h)" for x by (rule kh) (use arrays_heap(1) that in blast)+
    fix p assume p: "p \<in> F"
    show "mem h3 (p + j) = mem h (p + j)" if "j < bsize (mem h) p" "j \<noteq> 8" for j by (rule kb [OF FB [OF p] that(1)])
    note bp = block_atD [OF geoD(1) [OF fl_geo [OF heap_atD(3) [OF h]] p]]
    show "p + 8 \<in> dom (mem h3)" using kb [OF FB [OF p], of 8] bp(2) bp(5) [of 8] by (simp add: dom_def)
  next
    show "0 \<notin> dom (mem h3)" "1 \<notin> dom (mem h3)" using dom_ge [OF l3, of 0] dom_ge [OF l3, of 1] by auto
  qed
  moreover have "caches h3 (?s # S) Ca UNIV"
  proof (rule caches_frame [OF c e(1)])
    show "mem h3 (cache (haddr h) j) = mem h (cache (haddr h) j)" if "j < 64" for j by (rule kh) (use arrays_heap(3) [OF that] in blast)+
    show "mem h3 (b + 16) = mem h (b + 16)" if b: "b \<in> cset Ca" for b
    proof -
      obtain j where j: "j < 64" "b \<in> set (Ca j)" using b by (auto simp: cset_def)
      show ?thesis by (rule kb [OF cachesD(3) [OF c j]]) simp
    qed
  qed (use B in blast)
  moreover have "F \<subseteq> frees (?s # S)" using heap_atD(4) [OF h] B by (auto simp: frees_def)
  ultimately have "heap_at h3 (?s # S) Ca UNIV F" using l3 by (simp add: heap_at_def)
  moreover have "keeps h h3 (usd S)" unfolding keeps_def usd_def using kb by auto
  moreover have "{a + 16, a + 16 + (n - 32) + 8} \<subseteq> dom (mem h2)" using d1 [OF c1(4)] d1 [OF c2(2)] by (auto simp: h2_def)
  ultimately show ?thesis using run e(5,6) unfolding h3_def by blast
qed

end
