(* ===== verification/Zend_Mm_Serve.thy ===== *)
theory Zend_Mm_Serve
  imports Zend_Mm_Allocate
begin

text \<open>
  Allocation as a whole: a request is served from the cache, from a free block or from a new segment, or it ends with an error; the blocks in use keep their content.
\<close>

section \<open>Allocation\<close>

text \<open>A successful allocation: a new live block of at least the size asked for.\<close>

definition served :: "mm_heap \<Rightarrow> (nat \<times> nat) set \<Rightarrow> nat \<Rightarrow> nat mm_res \<Rightarrow> bool" where
  "served h B t r \<longleftrightarrow> (\<exists>h' b n. r = Some (Inr (b + 16), h') \<and> t \<le> n \<and> (b, n) \<notin> B \<and> mm_live h' (insert (b, n) B) \<and> keeps h h' B \<and> conf h' = conf h \<and>
     real_size h' \<le> max (real_size h) (limit h))"

lemma heap_at_grow_size: "heap_at (grow_size n h) S Ca I F \<longleftrightarrow> heap_at h S Ca I F"
  by (rule heap_at_cong) (simp_all add: grow_size_def Let_def)

lemma grow_size_simps: "conf (grow_size n h) = conf h" "real_size (grow_size n h) = real_size h" "mem (grow_size n h) = mem h" "block_size (grow_size n h) = block_size h"
  by (simp_all add: grow_size_def Let_def conf_def)

lemma take_cached:
  assumes m: "mm_live h B" and i: "i < 64" and c: "mem h (cache (haddr h) i) = Some c" "c \<noteq> 0"
  shows "served h B (32 + 8 * i) (do { q \<leftarrow> ld h (prev_free_block c); h \<leftarrow> st (cache (haddr h) i) q h;
    Some (Inr (c + ZEND_MM_ALIGNED_HEADER_SIZE), h\<lparr>cached := uint_sub (cached h) t\<rparr>) })"
proof -
  obtain S Ca where S: "heap_at h S Ca UNIV (frees S)" "live S Ca = B" "real_size h = seg_total S" by (rule mm_liveE [OF m])
  note l = heap_atD(1) [OF S(1)] and C = cachesD [OF heap_atD(2) [OF S(1)] i]
  have "start (Ca i) = c" using C(4) c(1) by simp
  then obtain L where L: "Ca i = c # L" using c(2) by (cases "Ca i") auto
  let ?n = "32 + 8 * i" and ?Ca = "Ca(i := L)"
  have q: "mem h (c + 16) = Some (start L)" and ct: "(c, ?n, True) \<in> bset S" and cL: "c \<notin> set L" using C L by auto
  have "caches h S Ca (UNIV - {i})" using heap_atD(2) [OF S(1)] by (auto simp: caches_def)
  then have "heap_at h S ?Ca (UNIV - {i}) (frees S)" using S(1) caches_drop [of h S Ca "UNIV - {i}" i c L] L i by (simp add: heap_at_def)
  from cache_set [OF this i] obtain h' where h': "st (cache (haddr h) i) (start L) h = Some h'" "heap_at h' S ?Ca UNIV (frees S)" "keeps h h' (usd S)" "conf h' = conf h" "real_size h' = real_size h" by auto
  let ?h = "h'\<lparr>cached := uint_sub (cached h') t\<rparr>"
  have cs: "cset Ca = insert c (cset ?Ca)" using cset_upd [OF i, of Ca L] cset_upd [OF i, of Ca "c # L"] fun_upd_idem [of Ca i "c # L", OF L] by simp
  have "c \<notin> cset ?Ca"
  proof
    assume "c \<in> cset ?Ca"
    then obtain j where j: "j < 64" "c \<in> set (?Ca j)" by (auto simp: cset_def)
    then have "j \<noteq> i" using cL by auto
    then have "(c, 32 + 8 * j, True) \<in> bset S" using cachesD(3) [OF heap_atD(2) [OF S(1)] j(1)] j(2) by simp
    then show False using not_both [OF l ct] \<open>j \<noteq> i\<close> by fastforce
  qed
  note cn = this
  have mB: "(p, k) \<in> B \<longleftrightarrow> (p, k, True) \<in> bset S \<and> p \<noteq> c \<and> p \<notin> cset ?Ca" for p k unfolding S(2) [symmetric] live_def cs by simp
  have "(c, ?n) \<notin> B" unfolding mB by simp
  moreover have "live S ?Ca = insert (c, ?n) B"
  proof (rule set_eqI)
    fix x :: "nat \<times> nat"
    obtain p k where x: "x = (p, k)" by fastforce
    have "(c, k, True) \<in> bset S \<longleftrightarrow> k = ?n" using ct not_both [OF l ct, of k True] by blast
    then show "x \<in> live S ?Ca \<longleftrightarrow> x \<in> insert (c, ?n) B" using cn unfolding x insert_iff mB by (cases "p = c") (simp_all add: live_def)
  qed
  ultimately have lv: "live S ?Ca = insert (c, ?n) B" "(c, ?n) \<notin> B" by blast+
  have "heap_at ?h S ?Ca UNIV (frees S)" using h'(2) heap_at_cong [of ?h h'] by simp
  then have "mm_live ?h (insert (c, ?n) B)" by (rule mm_liveI [OF _ lv(1) _ m]) (use h'(4,5) S(3) in \<open>simp_all add: conf_def\<close>)
  moreover have "B \<subseteq> usd S" using S(2) by (auto simp: live_usd)
  then have "keeps h h' B" by (rule keeps_mono [OF h'(3)])
  then have "keeps h ?h B" by (simp add: keeps_def)
  moreover have "conf ?h = conf h" "real_size ?h = real_size h" using h'(4,5) by (simp_all add: conf_def)
  ultimately show ?thesis unfolding served_def using q h'(1) lv(2) by (intro exI [of _ ?h] exI [of _ c] exI [of _ ?n]) (simp add: ld_def ZEND_MM_ALIGNED_HEADER_SIZE_def)
qed

text \<open>The end of an allocation, for a block in the hands of the operation.\<close>

lemma take_ok:
  assumes h: "heap_at h S Ca UNIV (ffree (others S1 sg X n Y S2))" and S: "S = S1 @ (sg, X @ [(n, u)] @ Y) # S2"
    and c: "sg + 16 + tsum X \<notin> cset Ca" and t: "32 \<le> t" "8 dvd t" "t \<le> n" and add: "add = zend_mm_add_to_free_list \<or> add = zend_mm_add_to_rest_list"
    and B: "{(p, j)\<in>{(p, j). (p, j, True) \<in> others S1 sg X n Y S2}. p \<notin> cset Ca} = B" and r: "real_size h = seg_total S" and m: "mm_live h0 B0" "block_size h = block_size h0"
  shows "\<exists>h' k. take_block (sg + 16 + tsum X) n t add h = Some (Inr (sg + 16 + tsum X + 16), h') \<and> t \<le> k \<and> (sg + 16 + tsum X, k) \<notin> B \<and> mm_live h' (insert (sg + 16 + tsum X, k) B) \<and>
    keeps h h' B \<and> conf h' = conf h \<and> real_size h' = real_size h"
proof -
  let ?a = "sg + 16 + tsum X" and ?R = "{(p, j). (p, j, True) \<in> others S1 sg X n Y S2}"
  obtain h1 k S' where s: "split_block ?a n t add h = Some (k, h1)" "t \<le> k" "heap_at h1 S' Ca UNIV (frees S')" "usd S' = insert (?a, k) ?R" "(?a, k) \<notin> ?R" "steps_to h h1 ?R" "seg_total S' = seg_total S"
    using split_ok [OF h S c t add] by blast
  let ?h = "grow_size k h1"
  have lv: "live S' Ca = insert (?a, k) B" unfolding live_usd s(4) B [symmetric] using c by blast
  have "mm_live ?h (insert (?a, k) B)"
    by (rule mm_liveI [OF _ lv _ m(1)]) (use s(3,6,7) r m(2) in \<open>simp_all add: heap_at_grow_size grow_size_simps steps_to_def conf_def\<close>)
  moreover have "take_block ?a n t add h = Some (Inr (?a + 16), ?h)" using s(1) by (simp add: take_block_def ZEND_MM_ALIGNED_HEADER_SIZE_def)
  moreover have "keeps h h1 B" using s(6) B by (auto simp: steps_to_def intro: keeps_mono)
  then have "keeps h ?h B" by (simp add: keeps_def grow_size_simps)
  moreover have "(?a, k) \<notin> B" using s(5) B by blast
  moreover have "conf ?h = conf h" "real_size ?h = real_size h" using s(6) by (simp_all add: grow_size_simps steps_to_def)
  ultimately show ?thesis using s(2) by blast
qed

lemma linkage_ok:
  assumes l: "layout h (S1 @ (sg, X @ [(n, False)] @ Y) # S2)"
  shows "ZEND_MM_CHECK_BLOCK_LINKAGE (sg + 16 + tsum X) h = Some ()"
proof -
  have l2: "layout h (S1 @ (sg, (X @ [(n, False)]) @ Y) # S2)" using l by simp
  have m1: "mem h (sg + 16 + tsum X) = Some n" "mem h (sg + 16 + tsum X + 8) = Some (lastw 3 X)" using seam(1,2) [OF l] by (simp_all add: word_def)
  have m2: "mem h (sg + 16 + tsum X + n + 8) = Some n" using seam(1) [OF l2] by (simp add: word_def add.assoc)
  show ?thesis
  proof (cases X rule: rev_cases)
    case Nil
    then show ?thesis using m1 m2 by (simp add: ZEND_MM_CHECK_BLOCK_LINKAGE_def ld_def guard_bits)
  next
    case (snoc X' y)
    have l3: "layout h (S1 @ (sg, X' @ (y # [(n, False)] @ Y)) # S2)" using l snoc by simp
    have y: "8 dvd fst y" using seam(3) [OF l3, of y] by simp
    have "mem h (sg + 16 + tsum X') = Some (word y)" using seam(2) [OF l3] by simp
    moreover have "lastw 3 X = word y" using snoc by (simp add: lastw_def)
    moreover have "ZEND_MM_BLOCK_SIZE (word y) = fst y" using word_bits(1) [OF y, of "snd y"] by (simp add: word_def)
    ultimately show ?thesis using m1 m2 snoc by (simp add: ZEND_MM_CHECK_BLOCK_LINKAGE_def ld_def add.assoc)
  qed
qed

lemma take_free:
  assumes m: "mm_live h B" and q: "q \<noteq> 0" "find_block t h = Some q" and t: "32 \<le> t" "8 dvd t" "t < 2 ^ 64"
  shows "served h B t (do { ZEND_MM_CHECK_BLOCK_LINKAGE q h; h \<leftarrow> zend_mm_remove_from_free_list q h; block_size' \<leftarrow> ld h (info_size q); take_block q block_size' t zend_mm_add_to_free_list h })"
proof -
  obtain S Ca where S: "heap_at h S Ca UNIV (frees S)" "live S Ca = B" "real_size h = seg_total S" by (rule mm_liveE [OF m])
  note l = heap_atD(1) [OF S(1)]
  obtain Sm Rs Tr where f: "flists h Sm Rs Tr" "fset Sm Rs Tr = frees S" using heap_atD(3) [OF S(1)] by (auto simp: fl_def)
  have qF: "q \<in> frees S" "t \<le> bsize (mem h) q" using find_block_ok [OF f(1) t] q f(2) by (auto simp: fitting_def)
  let ?n = "bsize (mem h) q"
  have qt: "(q, ?n, False) \<in> bset S" by (rule free_tile [OF qF(1) l])
  obtain S1 sg X Y S2 where d: "S = S1 @ (sg, X @ (?n, False) # Y) # S2" "q = sg + 16 + tsum X" using bset_split [OF qt] by blast
  have d': "S = S1 @ (sg, X @ [(?n, False)] @ Y) # S2" using d(1) by simp
  obtain h1 where h1: "zend_mm_remove_from_free_list q h = Some h1" "heap_at h1 S Ca UNIV (frees S - {q})" "steps_to h h1 (usd S)" using heap_remove [OF S(1) qF(1)] by blast
  note l1 = heap_atD(1) [OF h1(2)]
  let ?R = "others S1 sg X ?n Y S2"
  have Bs: "bset S = ?R \<union> {(q, ?n, False)}" using bset_others [of "[(?n, False)]" ?n S1 sg X Y S2] d' d(2) by simp
  have dj: "p \<noteq> q" if "(p, k, v) \<in> ?R" for p k v using others_disjoint [OF l [unfolded d'], of p k v q ?n False] that d(2) by simp
  have F: "frees S - {q} = ffree ?R" unfolding ffree_simps(1) Bs using dj by (auto simp: ffree_simps ffree_def)
  have c: "sg + 16 + tsum X \<notin> cset Ca"
  proof
    assume "sg + 16 + tsum X \<in> cset Ca"
    then obtain j where "j < 64" "q \<in> set (Ca j)" using d(2) by (auto simp: cset_def)
    then show False using cachesD(3) [OF heap_atD(2) [OF S(1)]] not_both [OF l qt] by blast
  qed
  have BB: "{(p, j)\<in>{(p, j). (p, j, True) \<in> ?R}. p \<notin> cset Ca} = B" unfolding S(2) [symmetric] live_def Bs by auto
  have e: "real_size h1 = real_size h" "conf h1 = conf h" "keeps h h1 B" using h1(3) S(2) by (auto simp: steps_to_def live_usd intro: keeps_mono)
  have bs: "block_size h1 = block_size h" using e(2) by (simp add: conf_def)
  obtain h' k where h': "take_block q ?n t zend_mm_add_to_free_list h1 = Some (Inr (q + 16), h')" "t \<le> k" "(q, k) \<notin> B" "mm_live h' (insert (q, k) B)" "keeps h1 h' B" "conf h' = conf h1" "real_size h' = real_size h1"
    using take_ok [OF h1(2) [unfolded F] d' c t(1,2) qF(2) disjI1 [OF refl] BB _ m] e(1) S(3) bs unfolding d(2) [symmetric] by auto
  have "mem h1 q = Some ?n" using tile_word [OF l1 qt] by simp
  moreover have "ZEND_MM_CHECK_BLOCK_LINKAGE q h = Some ()" using linkage_ok [of h S1 sg X ?n Y S2] l d' d(2) by simp
  ultimately show ?thesis unfolding served_def using h1(1) h' e keeps_trans [OF e(3) h'(5)] by (intro exI [of _ h'] exI [of _ q] exI [of _ k]) (simp add: ld_def)
qed

lemma take_segment:
  assumes m: "mm_live h B" and sg: "storage_ok sg" and t: "32 \<le> t" "8 dvd t" "t < 2 ^ 64" and n: "n = segment_size t h" "\<not> n < t" "\<not> size_t (real_size h + n) > limit h"
    and a: "sg n (mem h) = Some (a, c)"
  shows "served h B t (alloc_segment sg sz t h)"
proof -
  obtain S Ca k where S: "heap_at h S Ca UNIV (frees S)" "live S Ca = B" "real_size h = seg_total S" and bs: "block_size h = 2 ^ k" "5 \<le> k" "k < 64" by (rule mm_liveE [OF m])
  have N: "t + 32 \<le> n" "8 dvd n" using segment_size_ok [OF bs t(3)] n by simp_all
  have A: "8 dvd a" "16 \<le> a" "a + n \<le> 2 ^ 64" "\<And>x. a \<le> x \<Longrightarrow> x < a + n \<Longrightarrow> mem h x = None" using sg a unfolding storage_ok_def by blast+
  have N64: "64 \<le> n" using N(1) t(1) by linarith
  let ?h1 = "h\<lparr>mem := (\<lambda>x. if cells a n x then Some (c x) else mem h x)\<rparr>" and ?S = "(a, [(n - 32, False)]) # S"
  obtain h2 where h2: "open_segment a n ?h1 = Some h2" "heap_at (h2\<lparr>mem := (mem h2)(a + 16 \<mapsto> n - 32, a + 16 + (n - 32) + 8 \<mapsto> n - 32)\<rparr>) ?S Ca UNIV (frees S)"
      "keeps h (h2\<lparr>mem := (mem h2)(a + 16 \<mapsto> n - 32, a + 16 + (n - 32) + 8 \<mapsto> n - 32)\<rparr>) (usd S)" "conf h2 = conf h" "real_size h2 = size_t (real_size h + n)"
      "{a + 16, a + 16 + (n - 32) + 8} \<subseteq> dom (mem h2)"
    using heap_grow [OF S(1) A N64 N(2) refl, of c] by blast
  let ?h3 = "h2\<lparr>mem := (mem h2)(a + 16 \<mapsto> n - 32, a + 16 + (n - 32) + 8 \<mapsto> n - 32)\<rparr>"
  let ?add = "if keeps_rest t h2 then zend_mm_add_to_rest_list else zend_mm_add_to_free_list"
  note l3 = heap_atD(1) [OF h2(2)]
  have len: "seg_len (a, [(n - 32, False)]) = n" using N(1) t(1) by (simp add: seg_len_def)
  have tot: "real_size ?h3 = seg_total ?S" using total_less [OF l3] h2(5) S(3) len by (simp add: size_t_def add.commute)
  have tn: "t \<le> n - 32" using N(1) by simp
  have R: "others [] a [] (n - 32) [] S = bset S" by (simp add: others_def bset_def)
  have F: "frees S = ffree (others [] a [] (n - 32) [] S)" unfolding R by (rule ffree_simps(1))
  have nc: "a + 16 + tsum [] \<notin> cset Ca"
  proof
    assume "a + 16 + tsum [] \<in> cset Ca"
    then obtain j where "j < 64" "a + 16 \<in> set (Ca j)" by (auto simp: cset_def)
    then have "(a + 16, 32 + 8 * j, True) \<in> bset ?S" by (rule cachesD(3) [OF heap_atD(2) [OF h2(2)]])
    moreover have "(a + 16, n - 32, False) \<in> bset ?S" by (simp add: bset_def)
    ultimately show False using not_both [OF l3] by blast
  qed
  have BB: "{(p, j)\<in>{(p, j). (p, j, True) \<in> others [] a [] (n - 32) [] S}. p \<notin> cset Ca} = B" unfolding R S(2) [symmetric] live_def by blast
  have dt: "a + 16 + t + i \<in> dom (mem h2)" if i: "i = 0 \<or> i = 8" for i
  proof -
    have "a + 16 + t + i \<in> dom (mem ?h3)" by (rule cells_dom [OF l3, of "(a, [(n - 32, False)])"]) (use i len N A(1) t(2) in auto)
    moreover have "dom (mem ?h3) = dom (mem h2)" using h2(6) by auto
    ultimately show ?thesis by (simp only:)
  qed
  have sp: "split_block (a + 16) (n - 32) t ?add ?h3 = split_block (a + 16) (n - 32) t ?add h2"
    by (rule split_junk) (use h2(6) dt [of 0] dt [of 8] N(2) t tn in \<open>simp_all add: dvd_diff_nat\<close>)
  have ad: "?add = zend_mm_add_to_free_list \<or> ?add = zend_mm_add_to_rest_list" by simp
  have bs3: "block_size ?h3 = block_size h" using h2(4) by (simp add: conf_def)
  have a0: "a + 16 + tsum [] = a + 16" by simp
  obtain h' q where h': "take_block (a + 16) (n - 32) t ?add ?h3 = Some (Inr (a + 16 + 16), h')" "t \<le> q" "(a + 16, q) \<notin> B" "mm_live h' (insert (a + 16, q) B)" "keeps ?h3 h' B"
      "conf h' = conf ?h3" "real_size h' = real_size ?h3"
    using take_ok [where X = "[]" and Y = "[]" and ?S1.0 = "[]" and ?S2.0 = S and S = ?S and u = False, OF h2(2) [unfolded F] _ nc t(1,2) tn ad BB tot m bs3]
    unfolding a0 by (simp del: fun_upd_apply split_paired_Ex) blast
  have nz: "a \<noteq> 0" using A(2) by simp
  have "alloc_segment sg sz t h = take_block (a + 16) (n - 32) t ?add h2"
    using n a h2(1) nz unfolding alloc_segment_def ZEND_MM_STORAGE_ALLOC_def
    by (simp add: ZEND_MM_ALIGNED_SEGMENT_SIZE_def ZEND_MM_ALIGNED_HEADER_SIZE_def Let_def del: fun_upd_apply)
  also have "\<dots> = take_block (a + 16) (n - 32) t ?add ?h3" unfolding take_block_def sp ..
  finally have run: "alloc_segment sg sz t h = Some (Inr (a + 16 + 16), h')" using h'(1) by simp
  have "B \<subseteq> usd S" using S(2) by (auto simp: live_usd)
  then have "keeps h h' B" using keeps_trans [OF keeps_mono [OF h2(3)] h'(5)] by blast
  moreover have "conf h' = conf h" using h'(6) h2(4) by (simp add: conf_def)
  moreover have "real_size h' \<le> limit h" using h'(7) h2(5) n(3) by simp
  ultimately show ?thesis unfolding served_def using run h' by (intro exI [of _ h'] exI [of _ "a + 16"] exI [of _ q]) simp
qed

text \<open>The reserve of the heap is set apart from the blocks of the program.\<close>

lemma mm_okE:
  assumes "mm_ok h A"
  obtains R where "mm_live h (A \<union> R)" "A \<inter> R = {}" "\<forall>h' A'. mm_live h' (A' \<union> R) \<longrightarrow> A' \<inter> R = {} \<longrightarrow> reserve h' = reserve h \<longrightarrow> mm_ok h' A'"
proof (cases "reserve h = 0")
  case True
  then have "mm_live h A" using assms by (auto simp: mm_ok_def)
  then show ?thesis using that [of "{}"] True by (simp add: mm_ok_def)
next
  case False
  then obtain b n where b: "reserve h = b + 16" "(b, n) \<notin> A" "mm_live h (insert (b, n) A)" using assms by (auto simp: mm_ok_def)
  show ?thesis
  proof (rule that [of "{(b, n)}"])
    show "\<forall>h' A'. mm_live h' (A' \<union> {(b, n)}) \<longrightarrow> A' \<inter> {(b, n)} = {} \<longrightarrow> reserve h' = reserve h \<longrightarrow> mm_ok h' A'"
      using b(1) unfolding mm_ok_def by (intro allI impI disjI2 exI [of _ b] exI [of _ n]) simp
  qed (use b in simp_all)
qed

lemma free_cache_ok:
  assumes "mm_ok h A"
  shows "\<exists>h'. zend_mm_free_cache h = Some h' \<and> mm_ok h' A \<and> keeps h h' A \<and> conf h' = conf h"
proof -
  obtain R where R: "mm_live h (A \<union> R)" "A \<inter> R = {}" "\<forall>h' A'. mm_live h' (A' \<union> R) \<longrightarrow> A' \<inter> R = {} \<longrightarrow> reserve h' = reserve h \<longrightarrow> mm_ok h' A'" by (rule mm_okE [OF assms])
  obtain h' where h': "zend_mm_free_cache h = Some h'" "mm_live h' (A \<union> R)" "keeps h h' (A \<union> R)" "conf h' = conf h" using free_cache_live [OF R(1)] by blast
  have "mm_ok h' A" by (rule R(3) [rule_format, OF h'(2) R(2)]) (use h'(4) in \<open>simp add: conf_def\<close>)
  then show ?thesis using h' keeps_mono [OF h'(3), of A] by blast
qed

lemma free_mm_ok:
  assumes "mm_ok h A" "(b, n) \<in> A"
  shows "\<exists>h'. zend_mm_free_int (b + 16) h = Some h' \<and> mm_ok h' (A - {(b, n)}) \<and> keeps h h' (A - {(b, n)}) \<and> conf h' = conf h"
proof -
  obtain R where R: "mm_live h (A \<union> R)" "A \<inter> R = {}" "\<forall>h' A'. mm_live h' (A' \<union> R) \<longrightarrow> A' \<inter> R = {} \<longrightarrow> reserve h' = reserve h \<longrightarrow> mm_ok h' A'" by (rule mm_okE [OF assms(1)])
  have e: "A \<union> R - {(b, n)} = (A - {(b, n)}) \<union> R" using assms(2) R(2) by blast
  have "(b, n) \<in> A \<union> R" using assms(2) by blast
  then obtain h' where h': "zend_mm_free_int (b + 16) h = Some h'" "mm_live h' ((A - {(b, n)}) \<union> R)" "keeps h h' ((A - {(b, n)}) \<union> R)" "conf h' = conf h"
    using free_live [OF R(1)] unfolding e [symmetric] by blast
  have "mm_ok h' (A - {(b, n)})" by (rule R(3) [rule_format, OF h'(2)]) (use h'(4) R(2) in \<open>auto simp: conf_def\<close>)
  then show ?thesis using h' keeps_mono [OF h'(3), of "A - {(b, n)}"] by blast
qed

lemma served_ok:
  assumes ok: "mm_ok h A" and s: "\<And>B. mm_live h B \<Longrightarrow> served h B t r"
  shows "\<exists>h' b n. r = Some (Inr (b + 16), h') \<and> t \<le> n \<and> (b, n) \<notin> A \<and> mm_ok h' (insert (b, n) A) \<and> keeps h h' A \<and> conf h' = conf h \<and> real_size h' \<le> max (real_size h) (limit h)"
proof -
  obtain R where R: "mm_live h (A \<union> R)" "A \<inter> R = {}" "\<forall>h' A'. mm_live h' (A' \<union> R) \<longrightarrow> A' \<inter> R = {} \<longrightarrow> reserve h' = reserve h \<longrightarrow> mm_ok h' A'" by (rule mm_okE [OF ok])
  obtain h' b n where h': "r = Some (Inr (b + 16), h')" "t \<le> n" "(b, n) \<notin> A \<union> R" "mm_live h' (insert (b, n) (A \<union> R))" "keeps h h' (A \<union> R)" "conf h' = conf h"
      "real_size h' \<le> max (real_size h) (limit h)"
    using s [OF R(1)] unfolding served_def by blast
  have "mm_ok h' (insert (b, n) A)" by (rule R(3) [rule_format]) (use h'(3,4,6) R(2) in \<open>auto simp: conf_def\<close>)
  then show ?thesis using h' keeps_mono [OF h'(5), of A] by blast
qed

text \<open>What an allocation may end with: a block of the size asked for, apart from the blocks in use, or an error, after which all blocks are as before.\<close>

definition alloc_post :: "mm_heap \<Rightarrow> (nat \<times> nat) set \<Rightarrow> nat \<Rightarrow> nat mm_res \<Rightarrow> bool" where
  "alloc_post h A n res \<longleftrightarrow> (\<exists>r h'. res = Some (r, h') \<and> keeps h h' A \<and>
     (case r of
        Inl e \<Rightarrow> mm_ok h' A \<and> reserve h' = 0 \<and> overflow h' = (if overflow h = 0 then 1 else 2)
      | Inr p \<Rightarrow> \<exists>b k. p = b + 16 \<and> n + 16 \<le> k \<and> (b, k) \<notin> A \<and> mm_ok h' (insert (b, k) A) \<and> conf h' = conf h \<and> real_size h' \<le> max (real_size h) (limit h)))"

lemma alloc_postI:
  assumes "mm_ok h A" "\<And>B. mm_live h B \<Longrightarrow> served h B t r" "n + 16 \<le> t"
  shows "alloc_post h A n r"
proof -
  obtain h' b k where h': "r = Some (Inr (b + 16), h')" "t \<le> k" "(b, k) \<notin> A" "mm_ok h' (insert (b, k) A)" "keeps h h' A" "conf h' = conf h" "real_size h' \<le> max (real_size h) (limit h)"
    using served_ok [OF assms(1,2)] by blast
  have "n + 16 \<le> k" using h'(2) assms(3) by linarith
  then have "\<exists>c q. b + 16 = c + 16 \<and> n + 16 \<le> q \<and> (c, q) \<notin> A \<and> mm_ok h' (insert (c, q) A) \<and> conf h' = conf h \<and> real_size h' \<le> max (real_size h) (limit h)"
    using h' by (intro exI [of _ b] exI [of _ k]) blast
  then show ?thesis unfolding alloc_post_def h'(1) using h'(5) by (intro exI [of _ "Inr (b + 16)"] exI [of _ h']) simp
qed

lemma error_post:
  assumes "mm_ok h A"
  shows "alloc_post h A n (zend_mm_safe_error e h)"
  using safe_error_ok [OF assms, of e] unfolding alloc_post_def by fastforce

lemma cache_error_post:
  assumes "mm_ok h A"
  shows "alloc_post h A n (do { h \<leftarrow> zend_mm_free_cache h; zend_mm_safe_error (e h) h })"
proof -
  obtain h1 where h1: "zend_mm_free_cache h = Some h1" "mm_ok h1 A" "keeps h h1 A" "conf h1 = conf h" using free_cache_ok [OF assms] by blast
  obtain h2 where h2: "(zend_mm_safe_error (e h1) h1 :: nat mm_res) = Some (Inl (e h1), h2)" "mm_ok h2 A" "keeps h1 h2 A" "reserve h2 = 0" "overflow h2 = (if overflow h1 = 0 then 1 else 2)"
    using safe_error_ok [OF h1(2), of "e h1"] by blast
  moreover have "keeps h h2 A" by (rule keeps_trans [OF h1(3) h2(3)])
  moreover have "overflow h1 = overflow h" using h1(4) by (simp add: conf_def)
  ultimately show ?thesis unfolding alloc_post_def using h1(1) by (intro exI [of _ "Inl (e h1)"] exI [of _ h2]) simp
qed

lemma alloc_segment_post:
  assumes ok: "mm_ok h A" and sg: "storage_ok sg" and t: "32 \<le> t" "8 dvd t" "t < 2 ^ 64" "n + 16 \<le> t"
  shows "alloc_post h A n (alloc_segment sg sz t h)"
proof (cases "segment_size t h < t \<or> size_t (real_size h + segment_size t h) > limit h")
  case True
  then show ?thesis using cache_error_post [OF ok, of n "\<lambda>h. Memory_limit (limit h) sz"] by (simp add: alloc_segment_def Let_def)
next
  case False
  show ?thesis
  proof (cases "sg (segment_size t h) (mem h)")
    case None
    then have "alloc_segment sg sz t h = do { h \<leftarrow> zend_mm_free_cache h; zend_mm_safe_error (Out_of_memory (real_size h) sz) h }"
      using False by (simp add: alloc_segment_def ZEND_MM_STORAGE_ALLOC_def Let_def)
    then show ?thesis using cache_error_post [OF ok, of n "\<lambda>h. Out_of_memory (real_size h) sz"] by simp
  next
    case (Some ac)
    show ?thesis by (rule alloc_postI [OF ok _ t(4)], rule take_segment [OF _ sg t(1-3) refl]) (use False Some in \<open>auto simp: prod_eq_iff\<close>)
  qed
qed

lemma alloc_int_post:
  assumes ok: "mm_ok h A" and sg: "storage_ok sg" and n: "n < 2 ^ 64"
  shows "alloc_post h A n (zend_mm_alloc_int sg n h)"
proof (cases "ZEND_MM_SMALL_SIZE (ZEND_MM_TRUE_SIZE n) \<and> ZEND_MM_TRUE_SIZE n < n")
  case True
  then show ?thesis using error_post [OF ok] by (simp add: zend_mm_alloc_int_def Let_def)
next
  case big: False
  let ?t = "ZEND_MM_TRUE_SIZE n" and ?i = "ZEND_MM_BUCKET_INDEX (ZEND_MM_TRUE_SIZE n)"
  note t = true_size [OF n big]
  obtain R where m: "mm_live h (A \<union> R)" by (rule mm_okE [OF ok])
  obtain S Ca where S: "heap_at h S Ca UNIV (frees S)" by (rule mm_liveE [OF m])
  have sm: "?i < 64 \<and> ?t = 32 + 8 * ?i" if "ZEND_MM_SMALL_SIZE ?t" by (rule small_word [OF t(1,2) that]) simp
  obtain c where c: "(if ZEND_MM_SMALL_SIZE ?t then ld h (cache (haddr h) ?i) else Some 0) = Some c"
  proof (cases "ZEND_MM_SMALL_SIZE ?t")
    case True
    then show ?thesis using that [of "start (Ca ?i)"] cachesD(4) [OF heap_atD(2) [OF S], of ?i] sm by (simp add: ld_def)
  qed (use that [of 0] in simp)
  show ?thesis
  proof (cases "c = 0")
    case False
    then have s: "ZEND_MM_SMALL_SIZE ?t" "mem h (cache (haddr h) ?i) = Some c" using c by (auto simp: ld_def split: if_splits)
    have run: "zend_mm_alloc_int sg n h = do { q \<leftarrow> ld h (prev_free_block c); h \<leftarrow> st (cache (haddr h) ?i) q h; Some (Inr (c + ZEND_MM_ALIGNED_HEADER_SIZE), h\<lparr>cached := uint_sub (cached h) ?t\<rparr>) }"
      unfolding zend_mm_alloc_int_def Let_def c if_not_P [OF big] using False by simp
    have tt: "?t = 32 + 8 * ?i" using sm [OF s(1)] by blast
    show ?thesis unfolding run by (rule alloc_postI [OF ok _ t(3)], subst tt, rule take_cached) (use sm [OF s(1)] s(2) False in auto)
  next
    case c0: True
    obtain Sm Rs Tr where f: "flists h Sm Rs Tr" using heap_atD(3) [OF S] by (auto simp: fl_def)
    obtain q where q: "find_block ?t h = Some q" using find_block_ok [OF f t(1,2,4)] by blast
    show ?thesis
    proof (cases "q = 0")
      case True
      then have "zend_mm_alloc_int sg n h = alloc_segment sg n ?t h" unfolding zend_mm_alloc_int_def Let_def c if_not_P [OF big] using c0 q by simp
      then show ?thesis using alloc_segment_post [OF ok sg t(1,2,4,3)] by simp
    next
      case False
      have run: "zend_mm_alloc_int sg n h = do { ZEND_MM_CHECK_BLOCK_LINKAGE q h; h \<leftarrow> zend_mm_remove_from_free_list q h; block_size' \<leftarrow> ld h (info_size q); take_block q block_size' ?t zend_mm_add_to_free_list h }"
        unfolding zend_mm_alloc_int_def Let_def c if_not_P [OF big] using c0 q False by simp
      show ?thesis unfolding run by (rule alloc_postI [OF ok _ t(3)], rule take_free) (use q False t in auto)
    qed
  qed
qed

end
