(* ===== verification/Zend_Mm_Client.thy ===== *)
theory Zend_Mm_Client
  imports Zend_Mm_Serve
begin

text \<open>
  The program that uses the memory manager: it starts the manager, asks for blocks, writes into its blocks, and gives them back. Nothing it
  does so makes the manager fault, and blocks that it holds are apart and keep what it wrote.
\<close>

section \<open>The blocks of the program\<close>

lemma live_apart:
  assumes "mm_live h A" "(b, n) \<in> A" "(c, k) \<in> A"
  shows "b + n \<le> c \<or> c + k \<le> b \<or> (b, n) = (c, k)"
proof -
  obtain S Ca where S: "heap_at h S Ca UNIV (frees S)" "live S Ca = A" by (rule mm_liveE [OF assms(1)])
  have "(b, n, True) \<in> bset S" "(c, k, True) \<in> bset S" using assms(2,3) S(2) by (auto simp: live_def)
  then show ?thesis using bset_apart [OF heap_atD(1) [OF S(1)]] by fastforce
qed

lemma live_cells:
  assumes "mm_live h A" "(b, n) \<in> A" "i < n" "8 dvd i"
  shows "b + i \<in> dom (mem h)" "8 dvd b" "b + n \<le> 2 ^ 64"
proof -
  obtain S Ca where S: "heap_at h S Ca UNIV (frees S)" "live S Ca = A" by (rule mm_liveE [OF assms(1)])
  note l = heap_atD(1) [OF S(1)]
  have t: "(b, n, True) \<in> bset S" using assms(2) S(2) by (auto simp: live_def)
  obtain s where s: "s \<in> set S" "{b..<b + n} \<subseteq> region s" "8 dvd b" by (rule tile_at [OF l t]) blast
  show "8 dvd b" by (rule s(3))
  have x: "b + i \<in> region s" using s(2) assms(3) by force
  show "b + i \<in> dom (mem h)" by (rule cells_dom [OF l s(1)]) (use x s(3) assms(4) in \<open>auto simp: region_def\<close>)
  have "seg_at (mem h) s" by (rule layoutD(2) [OF l s(1)])
  then have e: "fst s + seg_len s \<le> 2 ^ 64" by (simp add: seg_at_def)
  have "b + n - 1 \<in> region s" using s(2) assms(3) by force
  then show "b + n \<le> 2 ^ 64" using e by (auto simp: region_def)
qed

text \<open>A write into the data of a block of the program.\<close>

lemma write_live:
  assumes m: "mm_live h A" and b: "(b, n) \<in> A" "16 \<le> i" "i < n" "8 dvd i"
  shows "\<exists>h'. st (b + i) v h = Some h' \<and> mm_live h' A \<and> mem h' (b + i) = Some v \<and> keeps h h' (A - {(b, n)}) \<and> conf h' = conf h"
proof -
  obtain S Ca where S: "heap_at h S Ca UNIV (frees S)" "live S Ca = A" "real_size h = seg_total S" by (rule mm_liveE [OF m])
  note l = heap_atD(1) [OF S(1)]
  have t: "(b, n, True) \<in> bset S" "b \<notin> cset Ca" using b(1) S(2) by (auto simp: live_def)
  let ?x = "b + i" let ?h = "h\<lparr>mem := (mem h)(?x \<mapsto> v)\<rparr>"
  have d: "?x \<in> dom (mem h)" by (rule live_cells(1) [OF m b(1,3,4)])
  have inn: "?x \<in> inner S" using t(1) b(2,3) by (force simp: inner_def)
  have nh: "?x \<notin> heap_region (haddr h)" by (rule used_not_heap [OF l t(1) b(3)])
  have same: "mem ?h y = mem h y" if "y \<noteq> ?x" for y using that by simp
  have other: "c + j \<noteq> ?x" if c: "(c, k, u) \<in> bset S" "j < k" "(c, k, u) \<noteq> (b, n, True)" for c k u j
    using bset_apart [OF l c(1) t(1)] c(2,3) b(3) by auto
  have l': "layout ?h S" by (rule layout_inner [OF l, of _ "{?x}"]) (use d inn in \<open>auto simp: upd_in_def\<close>)
  have c': "caches ?h S Ca UNIV"
  proof (rule caches_frame [OF heap_atD(2) [OF S(1)]])
    fix j :: nat assume "j < 64"
    then have "cache (haddr h) j \<in> heap_region (haddr h)" using arrays_heap(3) by blast
    then have "cache (haddr h) j \<noteq> ?x" using nh by metis
    then show "mem ?h (cache (haddr h) j) = mem h (cache (haddr h) j)" by (rule same)
  next
    fix c assume c: "c \<in> cset Ca"
    then obtain j where j: "j < 64" "c \<in> set (Ca j)" by (auto simp: cset_def)
    have "(c, 32 + 8 * j, True) \<in> bset S" by (rule cachesD(3) [OF heap_atD(2) [OF S(1)] j])
    then have "c + 16 \<noteq> ?x" by (rule other) (use c t(2) in auto)
    then show "mem ?h (c + 16) = mem h (c + 16)" by (rule same)
  qed simp_all
  have f': "fl ?h (frees S)"
  proof (rule fl_agree [OF heap_atD(3) [OF S(1)]])
    fix y assume "y \<in> heap_arrays (haddr h)"
    then have "y \<in> heap_region (haddr h)" using arrays_heap(1) by blast
    then have "y \<noteq> ?x" using nh by metis
    then show "mem ?h y = mem h y" by (rule same)
  next
    fix p j assume p: "p \<in> frees S" "j < bsize (mem h) p"
    have "(p, bsize (mem h) p, False) \<in> bset S" by (rule free_tile [OF p(1) l])
    then have "p + j \<noteq> ?x" by (rule other) (use p(2) in auto)
    then show "mem ?h (p + j) = mem h (p + j)" by (rule same)
  next
    fix p assume "p \<in> frees S"
    then have p: "(p, bsize (mem h) p, False) \<in> bset S" by (rule free_tile [OF _ l])
    obtain s where s: "s \<in> set S" "{p..<p + bsize (mem h) p} \<subseteq> region s" "8 dvd p" "32 \<le> bsize (mem h) p" by (rule tile_at [OF l p]) blast
    have "p + 8 \<in> region s" using s(2,4) by force
    then have "p + 8 \<in> dom (mem h)" by (intro cells_dom [OF l s(1)]) (use s(3) in \<open>auto simp: region_def\<close>)
    then show "p + 8 \<in> dom (mem ?h)" by simp
  next
    have "16 \<le> ?x" using b(2) by simp
    then show "0 \<notin> dom (mem ?h)" "1 \<notin> dom (mem ?h)" using dom_ge [OF l, of 0] dom_ge [OF l, of 1] by auto
  qed simp_all
  have "heap_at ?h S Ca UNIV (frees S)" using l' c' f' by (simp add: heap_at_def)
  then have "mm_live ?h A" by (rule mm_liveI [OF _ S(2) _ m]) (simp_all add: S(3))
  moreover have k: "mem ?h (c + j) = mem h (c + j)" if c: "(c, k) \<in> A - {(b, n)}" "j < k" for c k j
  proof (rule same, rule other)
    show "(c, k, True) \<in> bset S" using c(1) S(2) by (auto simp: live_def)
  qed (use c in auto)
  then have "keeps h ?h (A - {(b, n)})" unfolding keeps_def by blast
  moreover have "st ?x v h = Some ?h" using d by (simp add: st_def)
  ultimately show ?thesis by (intro exI [of _ ?h]) (simp add: conf_def)
qed

section \<open>The start\<close>

definition setup_of :: "mm_heap \<Rightarrow> mm_heap \<Rightarrow> nat set \<Rightarrow> bool" where
  "setup_of h h' X \<longleftrightarrow> (\<exists>m. h' = h\<lparr>mem := m\<rparr>) \<and> upd_in (mem h) (mem h') X"

lemma setup_trans: "setup_of h h1 X \<Longrightarrow> setup_of h1 h2 Y \<Longrightarrow> X \<subseteq> Z \<Longrightarrow> Y \<subseteq> Z \<Longrightarrow> setup_of h h2 Z"
  by (fastforce simp: setup_of_def upd_in_def)

lemma setup_st: "a \<in> dom (mem h) \<Longrightarrow> \<exists>h'. st a v h = Some h' \<and> setup_of h h' {a} \<and> mem h' a = Some v"
  by (auto simp: st_def setup_of_def upd_in_def)

lemma setup_dom: "setup_of h h' X \<Longrightarrow> dom (mem h') = dom (mem h) \<and> haddr h' = haddr h"
  by (auto simp: setup_of_def upd_in_def)

lemma setup_keep: "setup_of h h' X \<Longrightarrow> x \<notin> X \<Longrightarrow> mem h' x = mem h x"
  by (simp add: setup_of_def upd_in_def)

lemma clear_cells_ok:
  assumes "\<And>j. j < k \<Longrightarrow> a + 8 * j \<in> dom (mem h)"
  shows "\<exists>h'. clear_cells a k h = Some h' \<and> setup_of h h' {a..<a + 8 * k} \<and> (\<forall>j<k. mem h' (a + 8 * j) = Some 0)"
  using assms
proof (induction k arbitrary: a h)
  case 0
  then show ?case by (auto simp: setup_of_def upd_in_def intro: exI [of _ "mem h"])
next
  case (Suc k)
  obtain h1 where h1: "st a 0 h = Some h1" "setup_of h h1 {a}" "mem h1 a = Some 0" using setup_st [of a h 0] Suc.prems [of 0] by auto
  have "a + 8 + 8 * j \<in> dom (mem h1)" if "j < k" for j using Suc.prems [of "Suc j"] that setup_dom [OF h1(2)] by (simp add: add.assoc)
  from Suc.IH [OF this] obtain h2 where h2: "clear_cells (a + 8) k h1 = Some h2" "setup_of h1 h2 {a + 8..<a + 8 + 8 * k}" "\<forall>j<k. mem h2 (a + 8 + 8 * j) = Some 0" by blast
  have "setup_of h h2 {a..<a + 8 * Suc k}" by (rule setup_trans [OF h1(2) h2(2)]) auto
  moreover have "mem h2 (a + 8 * j) = Some 0" if "j < Suc k" for j
  proof (cases j)
    case 0
    then show ?thesis using setup_keep [OF h2(2), of a] h1(3) by simp
  next
    case (Suc i)
    then show ?thesis using h2(3) that by (simp add: add.assoc)
  qed
  ultimately show ?case using h1(1) h2(1) by auto
qed

definition bucket_set :: "nat \<Rightarrow> nat \<Rightarrow> (nat \<rightharpoonup> nat) \<Rightarrow> bool" where
  "bucket_set hp i m \<longleftrightarrow> m (hp + 664 + 16 * i) = Some (hp + 648 + 16 * i) \<and> m (hp + 672 + 16 * i) = Some (hp + 648 + 16 * i) \<and> m (hp + 1688 + 8 * i) = Some 0"

lemma init_buckets_ok:
  assumes "\<And>j. j < 1536 \<Longrightarrow> 8 dvd j \<Longrightarrow> haddr h + 664 + j \<in> dom (mem h)" "i + k \<le> 64" "\<forall>j<i. bucket_set (haddr h) j (mem h)"
  shows "\<exists>h'. init_buckets i k h = Some h' \<and> setup_of h h' {haddr h + 664..<haddr h + 2200} \<and> (\<forall>j<i + k. bucket_set (haddr h) j (mem h'))"
  using assms
proof (induction k arbitrary: i h)
  case 0
  then show ?case by (auto simp: setup_of_def upd_in_def intro: exI [of _ "mem h"])
next
  case (Suc k)
  let ?hp = "haddr h" let ?p = "?hp + 648 + 16 * i"
  have p: "ZEND_MM_SMALL_FREE_BUCKET ?hp 0 + 8 * 2 * i = ?p" by (simp add: ZEND_MM_SMALL_FREE_BUCKET_def free_buckets_def)
  have i: "i < 64" using Suc.prems(2) by simp
  have d: "?hp + 664 + 16 * i \<in> dom (mem h)" "?hp + 672 + 16 * i \<in> dom (mem h)" "?hp + 1688 + 8 * i \<in> dom (mem h)"
    using Suc.prems(1) [of "16 * i"] Suc.prems(1) [of "16 * i + 8"] Suc.prems(1) [of "1024 + 8 * i"] i by (simp_all add: algebra_simps)
  let ?h = "h\<lparr>mem := (mem h)(?hp + 672 + 16 * i \<mapsto> ?p, ?hp + 664 + 16 * i \<mapsto> ?p, ?hp + 1688 + 8 * i \<mapsto> 0)\<rparr>"
  have run: "init_buckets i (Suc k) h = init_buckets (Suc i) k ?h"
    using d unfolding init_buckets.simps Let_def p by (simp add: st_def large_free_buckets_def algebra_simps)
  have su: "setup_of h ?h {?hp + 664..<?hp + 2200}" using d i by (auto simp: setup_of_def upd_in_def)
  have b: "bucket_set (haddr ?h) j (mem ?h)" if "j < Suc i" for j
  proof (cases "j = i")
    case False
    then have "bucket_set ?hp j (mem h)" using Suc.prems(3) that by simp
    moreover have "?hp + 664 + 16 * j \<notin> {?hp + 672 + 16 * i, ?hp + 664 + 16 * i, ?hp + 1688 + 8 * i}" "?hp + 672 + 16 * j \<notin> {?hp + 672 + 16 * i, ?hp + 664 + 16 * i, ?hp + 1688 + 8 * i}"
      "?hp + 1688 + 8 * j \<notin> {?hp + 672 + 16 * i, ?hp + 664 + 16 * i, ?hp + 1688 + 8 * i}" using False that i by (simp_all; presburger)+
    ultimately show ?thesis by (simp add: bucket_set_def)
  qed (use i in \<open>simp add: bucket_set_def\<close>)
  define g where "g = ?h"
  have g: "haddr g = ?hp" "dom (mem g) = dom (mem h)" "\<forall>j<Suc i. bucket_set ?hp j (mem g)" using setup_dom [OF su] b by (simp_all add: g_def)
  obtain h' where h': "init_buckets (Suc i) k g = Some h'" "setup_of g h' {?hp + 664..<?hp + 2200}" "\<forall>j<Suc i + k. bucket_set ?hp j (mem h')"
    using Suc.IH [of g "Suc i"] Suc.prems(1,2) g(3) unfolding g(1,2) by auto
  have "setup_of h h' {?hp + 664..<?hp + 2200}" by (rule setup_trans [OF su h'(2) [unfolded g_def]]) simp_all
  then show ?case using run h'(1,3) by (simp add: g_def)
qed

lemma bucket_set_small:
  assumes "bucket_set hp i m"
  shows "small_at m hp i []"
proof -
  have p: "ZEND_MM_SMALL_FREE_BUCKET hp i = hp + 648 + 16 * i" by (simp add: ZEND_MM_SMALL_FREE_BUCKET_def free_buckets_def)
  show ?thesis using assms unfolding small_at_def ring_def p bucket_set_def by (simp add: ac_simps)
qed

lemma init_live:
  assumes hp: "8 dvd haddr h" "16 \<le> haddr h" and d: "dom (mem h) = Collect (cells (haddr h) sizeof_heap)"
    and s: "mem h (segments_list (haddr h)) = Some 0" "real_size h = 0" and b: "block_size h = 2 ^ k" "5 \<le> k" "k < 64"
  shows "\<exists>h'. zend_mm_init h = Some h' \<and> mm_live h' {} \<and> conf h' = conf h \<and> real_size h' = 0 \<and> dom (mem h') = dom (mem h)"
proof -
  let ?hp = "haddr h" let ?g = "h\<lparr>free_bitmap := 0, large_free_bitmap := 0, cached := 0\<rparr>"
  have dm: "?hp + i \<in> dom (mem h)" if "i < 2224" "8 dvd i" for i using that by (simp add: d cells_def sizeof_heap_def)
  have "cache ?hp 0 + 8 * j \<in> dom (mem ?g)" if "j < 64" for j using dm [of "152 + 8 * j"] that by (simp add: cache_def add.assoc)
  from clear_cells_ok [OF this] obtain h1 where h1: "clear_cells (cache ?hp 0) 64 ?g = Some h1" "setup_of ?g h1 {cache ?hp 0..<cache ?hp 0 + 8 * 64}" "\<forall>j<64. mem h1 (cache ?hp 0 + 8 * j) = Some 0" by blast
  have h1a: "haddr h1 = ?hp" "dom (mem h1) = dom (mem h)" using setup_dom [OF h1(2)] by simp_all
  have "haddr h1 + 664 + j \<in> dom (mem h1)" if "j < 1536" "8 dvd j" for j using dm [of "664 + j"] that h1a by (simp add: add.assoc)
  from init_buckets_ok [OF this, of 0 64] obtain h2 where h2: "init_buckets 0 64 h1 = Some h2" "setup_of h1 h2 {?hp + 664..<?hp + 2200}" "\<forall>j<64. bucket_set ?hp j (mem h2)" using h1a by auto
  have h2a: "haddr h2 = ?hp" "dom (mem h2) = dom (mem h)" using setup_dom [OF h2(2)] h1a by simp_all
  have r: "?hp + 2200 \<in> dom (mem h2)" "?hp + 2208 \<in> dom (mem h2)" using dm [of 2200] dm [of 2208] h2a by simp_all
  let ?h3 = "h2\<lparr>mem := (mem h2)(?hp + 2208 \<mapsto> ?hp + 2184, ?hp + 2200 \<mapsto> ?hp + 2184)\<rparr>" let ?h = "?h3\<lparr>rest_count := 0\<rparr>"
  have rb: "rest_buckets ?hp 1 = ?hp + 2208" "rest_buckets ?hp 0 = ?hp + 2200" "ZEND_MM_REST_BUCKET ?hp = ?hp + 2184"
    by (simp_all add: rest_buckets_def ZEND_MM_REST_BUCKET_def)
  have run: "zend_mm_init h = Some ?h" using h1(1) h2(1) h2a r unfolding zend_mm_init_def Let_def
    by (simp add: ZEND_MM_NUM_BUCKETS_def st_def rb [simplified])
  have rec: "\<exists>m. h2 = ?g\<lparr>mem := m\<rparr>" using h1(2) h2(2) by (auto simp: setup_of_def)
  have bits: "free_bitmap h2 = 0" "large_free_bitmap h2 = 0" "real_size h2 = 0" "conf h2 = conf h" using rec s(2) by (auto simp: conf_def)
  have D: "dom (mem ?h) = dom (mem h)" using r h2a by auto
  have k2: "mem ?h x = mem h2 x" if "x \<noteq> ?hp + 2208" "x \<noteq> ?hp + 2200" for x using that by simp
  have B: "bucket_set ?hp j (mem ?h)" if "j < 64" for j using h2(3) that by (simp add: bucket_set_def)
  have "mem ?h (cache ?hp j) = Some 0" if j: "j < 64" for j
  proof -
    have "mem h1 (cache ?hp j) = Some 0" using h1(3) j by (simp add: cache_def)
    moreover have "mem h2 (cache ?hp j) = mem h1 (cache ?hp j)" by (rule setup_keep [OF h2(2)]) (use j in \<open>simp add: cache_def\<close>)
    ultimately show ?thesis using k2 [of "cache ?hp j"] j by (simp add: cache_def)
  qed
  then have ca: "caches ?h [] (\<lambda>_. []) UNIV" using h2a by (simp add: caches_def)
  have sl: "mem ?h (segments_list ?hp) = Some 0"
  proof -
    have "mem h1 (segments_list ?hp) = Some 0" using setup_keep [OF h1(2), of "segments_list ?hp"] s(1) by (simp add: segments_list_def cache_def)
    moreover have "mem h2 (segments_list ?hp) = mem h1 (segments_list ?hp)" by (rule setup_keep [OF h2(2)]) (simp add: segments_list_def)
    ultimately show ?thesis using k2 [of "segments_list ?hp"] by (simp add: segments_list_def)
  qed
  have la: "layout ?h []" using sl hp D d h2a by (simp add: layout_def)
  have z: "0 \<notin> dom (mem h)" "1 \<notin> dom (mem h)" using hp(2) by (simp_all add: d cells_def)
  have ge: "geo ?h {}" using z dm D h2a unfolding geo_def by (simp add: add.assoc)
  have sm: "small_at (mem ?h) ?hp i []" if "i < 64" for i
    by (rule bucket_set_small [OF B [OF that]])
  have "flists ?h (\<lambda>_. []) [] (\<lambda>_. Lf)" unfolding flists_def
    using ge sm B h2a bits by (simp add: fset_def rest_at_def ring_def ZEND_MM_REST_BUCKET_def rest_buckets_def rest_large_def large_ok_def large_free_buckets_def bucket_set_def)
  then have "fl ?h {}" unfolding fl_def by (intro exI [of _ "\<lambda>_. []"] exI [of _ "[]"] exI [of _ "\<lambda>_. Lf"]) (simp add: fset_def)
  then have "heap_at ?h [] (\<lambda>_. []) UNIV (frees [])" using la ca by (simp add: heap_at_def frees_def bset_def)
  moreover have "live [] (\<lambda>_. []) = {}" by (simp add: live_def bset_def)
  ultimately have "mm_live ?h {}" unfolding mm_live_def using bits b rec
    by (intro conjI exI [of _ "[]"] exI [of _ "\<lambda>_. []"] exI [of _ k]) (auto simp: conf_def)
  then show ?thesis using run bits(3,4) D by (intro exI [of _ ?h]) (simp add: conf_def)
qed

lemma power_bits: "zend_mm_low_bit (2 ^ k) = Some k" "zend_mm_high_bit (2 ^ k) = k"
proof -
  obtain j where "low_bit_loop (2 ^ k) 0 = Some j" "bit (2 ^ k :: nat) j" using low_bit_loop [of "2 ^ k" 0] by auto
  then show "zend_mm_low_bit (2 ^ k) = Some k" by (simp add: zend_mm_low_bit_def bit_exp_iff)
  show "zend_mm_high_bit (2 ^ k) = k" using high_bit_unique [of "2 ^ k" k] by simp
qed

lemma mm_ok_fresh: "mm_live h A \<Longrightarrow> reserve h = 0 \<Longrightarrow> mm_ok h A"
  by (simp add: mm_ok_def)

lemma reserve_ok:
  assumes m: "mm_live h {}" "reserve h = 0" and sg: "storage_ok sg" and n: "reserve_size h < 2 ^ 64"
  shows "\<exists>r h'. reserve_block sg h = Some (r, h') \<and> mm_ok h' {} \<and> (case r of Inl e \<Rightarrow> reserve h' = 0 | Inr _ \<Rightarrow> reserve h' = 0 \<longleftrightarrow> reserve_size h = 0)"
proof (cases "reserve_size h = 0")
  case True
  then show ?thesis using mm_ok_fresh [OF m] m(2) by (simp add: reserve_block_def)
next
  case False
  obtain r h1 where h1: "zend_mm_alloc_int sg (reserve_size h) h = Some (r, h1)" "case r of
        Inl e \<Rightarrow> mm_ok h1 {} \<and> reserve h1 = 0 \<and> overflow h1 = (if overflow h = 0 then 1 else 2)
      | Inr p \<Rightarrow> \<exists>b k. p = b + 16 \<and> reserve_size h + 16 \<le> k \<and> (b, k) \<notin> {} \<and> mm_ok h1 (insert (b, k) {}) \<and> conf h1 = conf h \<and> real_size h1 \<le> max (real_size h) (limit h)"
    using alloc_int_post [OF mm_ok_fresh [OF m] sg n] unfolding alloc_post_def by blast
  show ?thesis
  proof (cases r)
    case (Inl e)
    then show ?thesis using h1 False by (simp add: reserve_block_def)
  next
    case (Inr p)
    then obtain b k where b: "p = b + 16" "mm_ok h1 {(b, k)}" "conf h1 = conf h" using h1(2) by auto
    have "reserve h1 = 0" using b(3) m(2) by (simp add: conf_def)
    then have "mm_live h1 {(b, k)}" using b(2) by (simp add: mm_ok_def)
    then have "mm_live (h1\<lparr>reserve := p\<rparr>) {(b, k)}" using mm_live_cong [of "h1\<lparr>reserve := p\<rparr>" h1] by simp
    then have "mm_ok (h1\<lparr>reserve := p\<rparr>) {}" unfolding mm_ok_def using b(1) by auto
    then show ?thesis using h1(1) Inr False b(1,3) by (simp add: reserve_block_def conf_def)
  qed
qed

lemma startup_ok:
  assumes hp: "8 dvd hp" "16 \<le> hp" and d: "dom m = Collect (cells hp sizeof_heap)" and b: "5 \<le> k" "k < 64" and sg: "storage_ok sg" and n: "n < 2 ^ 64"
  shows "\<exists>r h. zend_mm_startup_ex sg hp m (2 ^ k) n = Some (r, h) \<and> mm_ok h {} \<and> (case r of Inl e \<Rightarrow> reserve h = 0 | Inr _ \<Rightarrow> reserve h = 0 \<longleftrightarrow> n = 0)"
proof -
  let ?g = "\<lparr>mem = m(segments_list hp \<mapsto> 0), haddr = hp, free_bitmap = 0, large_free_bitmap = 0, block_size = 2 ^ k, real_size = 0, real_peak = 0, limit = 2 ^ 62,
              heap_size = 0, peak = 0, reserve_size = n, reserve = 0, overflow = 0, cached = 0, rest_count = 0\<rparr> :: mm_heap"
  have sd: "segments_list hp \<in> dom m" by (simp add: d cells_def segments_list_def sizeof_heap_def)
  have dg: "dom (mem ?g) = Collect (cells (haddr ?g) sizeof_heap)" using sd d by auto
  obtain h where h: "zend_mm_init ?g = Some h" "mm_live h {}" "conf h = conf ?g"
    using init_live [of ?g k, OF _ _ dg] hp b by auto
  have r: "reserve h = 0" "reserve_size h = n" using h(3) by (simp_all add: conf_def)
  have "zend_mm_startup_ex sg hp m (2 ^ k) n = reserve_block sg h"
    using h(1) sd unfolding zend_mm_startup_ex_def by (simp add: power_bits st_def)
  then show ?thesis using reserve_ok [OF h(2) r(1) sg] r(2) n by auto
qed

section \<open>When a request is refused\<close>

lemma alloc_refused:
  assumes ok: "mm_ok h A" and sg: "storage_ok sg" and n: "n < 2 ^ 64" and e: "zend_mm_alloc_int sg n h = Some (Inl e, h')"
  defines "t \<equiv> ZEND_MM_TRUE_SIZE n"
  shows "t < n \<or> segment_size t h < t \<or> limit h < size_t (real_size h + segment_size t h) \<or> sg (segment_size t h) (mem h) = None"
proof (rule ccontr)
  assume "\<not> ?thesis"
  then have no: "\<not> t < n" "\<not> segment_size t h < t" "\<not> size_t (real_size h + segment_size t h) > limit h" "sg (segment_size t h) (mem h) \<noteq> None" by auto
  obtain a c where ac: "sg (segment_size t h) (mem h) = Some (a, c)" using no(4) by auto
  have big: "\<not> (ZEND_MM_SMALL_SIZE t \<and> t < n)" using no(1) by blast
  note ts = true_size [OF n, folded t_def, OF big]
  obtain R where m: "mm_live h (A \<union> R)" by (rule mm_okE [OF ok])
  have sv: "served h (A \<union> R) t (alloc_segment sg n t h)" by (rule take_segment [OF m sg ts(1,2,4) refl no(2,3) ac])
  obtain S Ca where S: "heap_at h S Ca UNIV (frees S)" by (rule mm_liveE [OF m])
  obtain Sm Rs Tr where f: "flists h Sm Rs Tr" using heap_atD(3) [OF S] by (auto simp: fl_def)
  obtain q where q: "find_block t h = Some q" using find_block_ok [OF f ts(1,2,4)] by blast
  have sf: "served h (A \<union> R) t (do { ZEND_MM_CHECK_BLOCK_LINKAGE q h; h \<leftarrow> zend_mm_remove_from_free_list q h; block_size' \<leftarrow> ld h (info_size q); take_block q block_size' t zend_mm_add_to_free_list h })" if "q \<noteq> 0"
    by (rule take_free [OF m that q ts(1,2,4)])
  show False using e sv sf q big unfolding served_def zend_mm_alloc_int_def Let_def t_def [symmetric]
    by (auto split: bind_splits if_splits)
qed

section \<open>A program that uses the manager\<close>

text \<open>
  What a program does: it asks for a block, gives one back, writes a value into one of its blocks, or sets the limit. The state is the heap with the blocks that
  the program holds, each as its address and its size, both with the header of 16 bytes; the pointer that the program has is 16 bytes further.
\<close>

datatype mm_call = Alloc nat | Free nat | Write nat nat | Limit nat

inductive mm_step :: "storage \<Rightarrow> mm_heap \<Rightarrow> (nat \<times> nat) set \<Rightarrow> mm_call \<Rightarrow> mm_heap \<Rightarrow> (nat \<times> nat) set \<Rightarrow> bool" for sg where
  alloc_given: "n < 2 ^ 64 \<Longrightarrow> zend_mm_alloc_int sg n h = Some (Inr p, h') \<Longrightarrow> zend_mm_block_size p h' = Some k \<Longrightarrow> mm_step sg h A (Alloc n) h' (insert (p - 16, k) A)"
| alloc_refuse: "n < 2 ^ 64 \<Longrightarrow> zend_mm_alloc_int sg n h = Some (Inl e, h') \<Longrightarrow> mm_step sg h A (Alloc n) h' A"
| release: "(b, n) \<in> A \<Longrightarrow> zend_mm_free_int (b + 16) h = Some h' \<Longrightarrow> mm_step sg h A (Free (b + 16)) h' (A - {(b, n)})"
| write_cell: "(b, n) \<in> A \<Longrightarrow> 16 \<le> i \<Longrightarrow> i < n \<Longrightarrow> 8 dvd i \<Longrightarrow> st (b + i) v h = Some h' \<Longrightarrow> mm_step sg h A (Write (b + i) v) h' A"
| set_limit: "mm_step sg h A (Limit n) (zend_set_memory_limit n h) A"

inductive mm_reach :: "storage \<Rightarrow> mm_heap \<Rightarrow> (nat \<times> nat) set \<Rightarrow> bool" for sg where
  begins: "8 dvd hp \<Longrightarrow> 16 \<le> hp \<Longrightarrow> dom m = Collect (cells hp sizeof_heap) \<Longrightarrow> 5 \<le> k \<Longrightarrow> k < 64 \<Longrightarrow> n < 2 ^ 64 \<Longrightarrow>
    zend_mm_startup_ex sg hp m (2 ^ k) n = Some (r, h) \<Longrightarrow> mm_reach sg h {}"
| goes: "mm_reach sg h A \<Longrightarrow> mm_step sg h A c h' A' \<Longrightarrow> mm_reach sg h' A'"

text \<open>A call leaves a block alone: it neither gives it back nor writes into it.\<close>

fun spares :: "nat \<times> nat \<Rightarrow> mm_call \<Rightarrow> bool" where
  "spares (b, n) (Free p) \<longleftrightarrow> p \<noteq> b + 16"
| "spares (b, n) (Write a v) \<longleftrightarrow> a < b \<or> b + n \<le> a"
| "spares _ _ \<longleftrightarrow> True"

lemma ok_live:
  assumes "mm_ok h A"
  obtains B where "mm_live h B" "A \<subseteq> B"
  by (rule mm_okE [OF assms]) blast

lemma ok_write:
  assumes ok: "mm_ok h A" and b: "(b, n) \<in> A" "16 \<le> i" "i < n" "8 dvd i"
  shows "\<exists>h'. st (b + i) v h = Some h' \<and> mm_ok h' A \<and> mem h' (b + i) = Some v \<and> keeps h h' (A - {(b, n)})"
proof -
  obtain R where R: "mm_live h (A \<union> R)" "A \<inter> R = {}" "\<forall>h' A'. mm_live h' (A' \<union> R) \<longrightarrow> A' \<inter> R = {} \<longrightarrow> reserve h' = reserve h \<longrightarrow> mm_ok h' A'" by (rule mm_okE [OF ok])
  have "(b, n) \<in> A \<union> R" using b(1) by blast
  from write_live [OF R(1) this b(2-4)] obtain h' where h': "st (b + i) v h = Some h'" "mm_live h' (A \<union> R)" "mem h' (b + i) = Some v" "keeps h h' (A \<union> R - {(b, n)})" "conf h' = conf h" by blast
  have "mm_ok h' A" using R(2,3) h'(2,5) by (simp add: conf_def)
  moreover have "keeps h h' (A - {(b, n)})" by (rule keeps_mono [OF h'(4)]) blast
  ultimately show ?thesis using h'(1,3) by blast
qed

lemma ok_block_size:
  assumes "mm_ok h A" "(b, n) \<in> A"
  shows "zend_mm_block_size (b + 16) h = Some n"
proof -
  obtain B where B: "mm_live h B" "A \<subseteq> B" by (rule ok_live [OF assms(1)])
  obtain S Ca where S: "heap_at h S Ca UNIV (frees S)" "live S Ca = B" by (rule mm_liveE [OF B(1)])
  have t: "(b, n, True) \<in> bset S" using assms(2) B(2) S(2) by (auto simp: live_def)
  have "8 dvd n" by (rule tile_at [OF heap_atD(1) [OF S(1)] t])
  moreover have "mem h b = Some (n + 1)" using tile_word [OF heap_atD(1) [OF S(1)] t] by simp
  ultimately show ?thesis using word_bits(1) [of n True] by (simp add: zend_mm_block_size_def ld_def ZEND_MM_ALIGNED_HEADER_SIZE_def)
qed

lemma ok_limit: "mm_ok h A \<Longrightarrow> mm_ok (zend_set_memory_limit n h) A"
  using mm_live_cong [of "zend_set_memory_limit n h" h] by (simp add: mm_ok_def zend_set_memory_limit_def)

lemma ok_apart:
  assumes "mm_ok h A" "(b, n) \<in> A" "(c, k) \<in> A"
  shows "(b, n) = (c, k) \<or> b + n \<le> c \<or> c + k \<le> b"
proof -
  obtain B where B: "mm_live h B" "A \<subseteq> B" by (rule ok_live [OF assms(1)])
  have "(b, n) \<in> B" "(c, k) \<in> B" using assms(2,3) B(2) by blast+
  then show ?thesis using live_apart [OF B(1)] by blast
qed

text \<open>One call: it keeps the invariant, and the blocks that it leaves alone with what they hold.\<close>

lemma mm_step_ok:
  assumes st: "mm_step sg h A c h' A'" and ok: "mm_ok h A" and sg: "storage_ok sg"
  shows "mm_ok h' A'" "x \<in> A \<Longrightarrow> spares x c \<Longrightarrow> x \<in> A' \<and> keeps h h' {x}"
proof -
  have "mm_ok h' A' \<and> (\<forall>x\<in>A. spares x c \<longrightarrow> x \<in> A' \<and> keeps h h' {x})" using st
  proof cases
    case (alloc_given n p k)
    obtain b j where b: "keeps h h' A" "p = b + 16" "mm_ok h' (insert (b, j) A)"
      using alloc_int_post [OF ok sg alloc_given(3)] alloc_given(4) by (auto simp: alloc_post_def)
    have "k = j" using ok_block_size [OF b(3), of b j] alloc_given(5) b(2) by simp
    then show ?thesis using alloc_given(2) b keeps_mono [OF b(1)] by auto
  next
    case (alloc_refuse n e)
    then have "mm_ok h' A" "keeps h h' A" using alloc_int_post [OF ok sg alloc_refuse(3)] by (auto simp: alloc_post_def)
    then show ?thesis using alloc_refuse(2) keeps_mono [of h h' A] by blast
  next
    case (release b n)
    obtain g where g: "zend_mm_free_int (b + 16) h = Some g" "mm_ok g (A - {(b, n)})" "keeps h g (A - {(b, n)})" using free_mm_ok [OF ok release(3)] by blast
    have e: "h' = g" using g(1) release(4) by simp
    have "x \<in> A' \<and> keeps h h' {x}" if x: "x \<in> A" "spares x c" for x
    proof -
      have "x \<in> A - {(b, n)}" using x release(1) by (cases x) auto
      then show ?thesis unfolding e release(2) using keeps_mono [OF g(3), of "{x}"] by blast
    qed
    then show ?thesis using g(2) release(2) e by blast
  next
    case (write_cell b n i v)
    obtain g where g: "st (b + i) v h = Some g" "mm_ok g A" "keeps h g (A - {(b, n)})" using ok_write [OF ok write_cell(3-6)] by blast
    have e: "h' = g" using g(1) write_cell(7) by simp
    have "x \<in> A' \<and> keeps h h' {x}" if x: "x \<in> A" "spares x c" for x
    proof -
      have "x \<in> A - {(b, n)}" using x write_cell(1,5) by (cases x) auto
      then show ?thesis unfolding e write_cell(2) using keeps_mono [OF g(3), of "{x}"] by blast
    qed
    then show ?thesis using g(2) write_cell(2) e by blast
  next
    case (set_limit n)
    then show ?thesis using ok_limit [OF ok] by (auto simp: keeps_def zend_set_memory_limit_def)
  qed
  then show "mm_ok h' A'" "x \<in> A \<Longrightarrow> spares x c \<Longrightarrow> x \<in> A' \<and> keeps h h' {x}" by blast+
qed

lemma alloc_steps:
  assumes ok: "mm_ok h A" and sg: "storage_ok sg" and n: "n < 2 ^ 64"
  shows "\<exists>h' A'. mm_step sg h A (Alloc n) h' A'"
proof -
  obtain r h' where r: "zend_mm_alloc_int sg n h = Some (r, h')" "case r of Inl e \<Rightarrow> True | Inr p \<Rightarrow> \<exists>b k. p = b + 16 \<and> mm_ok h' (insert (b, k) A)"
    using alloc_int_post [OF ok sg n] unfolding alloc_post_def by (fastforce split: sum.splits)
  show ?thesis
  proof (cases r)
    case (Inl e)
    then show ?thesis using alloc_refuse [OF n r(1) [unfolded Inl]] by blast
  next
    case (Inr p)
    then obtain b k where "p = b + 16" "mm_ok h' (insert (b, k) A)" using r(2) by auto
    then have "zend_mm_block_size p h' = Some k" using ok_block_size by simp
    then show ?thesis using alloc_given [OF n r(1) [unfolded Inr]] by blast
  qed
qed

lemma mm_reach_ok:
  assumes "mm_reach sg h A" "storage_ok sg"
  shows "mm_ok h A"
  using assms(1)
proof induction
  case (begins hp m k n r h)
  then show ?case using startup_ok [OF begins(1-5) assms(2) begins(6)] by auto
next
  case (goes h A c h' A')
  then show ?case using mm_step_ok(1) assms(2) by blast
qed

section \<open>An example\<close>

text \<open>A heap structure at 4096, and a storage that has memory from 8192 on, which it gives once.\<close>

definition demo_mem :: "nat \<rightharpoonup> nat" where
  "demo_mem x = (if cells 4096 sizeof_heap x then Some 0 else None)"

definition demo_storage :: storage where
  "demo_storage n m = (if 8192 + n \<le> 2 ^ 64 \<and> (\<forall>x\<in>{8192..<8192 + n}. m x = None) then Some (8192, \<lambda>_. 0) else None)"

lemma demo_storage_ok: "storage_ok demo_storage"
  by (auto simp: storage_ok_def demo_storage_def split: if_splits)

lemma demo_mem_dom: "dom demo_mem = Collect (cells 4096 sizeof_heap)"
  by (auto simp: demo_mem_def dom_def)

lemma demo_started:
  obtains h where "mm_reach demo_storage h {}" "real_size h = 0" "limit h = 2 ^ 62" "block_size h = 2 ^ 18" "dom (mem h) = Collect (cells 4096 sizeof_heap)"
proof -
  let ?g = "\<lparr>mem = demo_mem(segments_list 4096 \<mapsto> 0), haddr = 4096, free_bitmap = 0, large_free_bitmap = 0, block_size = 2 ^ 18, real_size = 0, real_peak = 0, limit = 2 ^ 62,
              heap_size = 0, peak = 0, reserve_size = 0, reserve = 0, overflow = 0, cached = 0, rest_count = 0\<rparr> :: mm_heap"
  have sd: "segments_list 4096 \<in> dom demo_mem" by (simp add: demo_mem_dom cells_def segments_list_def sizeof_heap_def)
  have dg: "dom (mem ?g) = Collect (cells (haddr ?g) sizeof_heap)" using sd demo_mem_dom by auto
  obtain h where h: "zend_mm_init ?g = Some h" "conf h = conf ?g" "real_size h = 0" "dom (mem h) = dom (mem ?g)"
    using init_live [of ?g 18, OF _ _ dg] by auto
  have "zend_mm_startup_ex demo_storage 4096 demo_mem (2 ^ 18) 0 = Some (Inr (), h)"
    using h(1,2) sd unfolding zend_mm_startup_ex_def power_bits by (simp add: st_def reserve_block_def conf_def)
  from begins [OF _ _ demo_mem_dom _ _ _ this] have "mm_reach demo_storage h {}" by simp
  then show ?thesis using that h(2-4) dg by (simp add: conf_def)
qed

lemma demo_block:
  obtains h b k where "mm_reach demo_storage h {(b, k)}" "116 \<le> k"
proof -
  obtain h where h: "mm_reach demo_storage h {}" "real_size h = 0" "limit h = 2 ^ 62" "block_size h = 2 ^ 18" "dom (mem h) = Collect (cells 4096 sizeof_heap)" by (rule demo_started)
  note ok = mm_reach_ok [OF h(1) demo_storage_ok]
  have t: "ZEND_MM_TRUE_SIZE 100 = 120" by (simp add: ZEND_MM_TRUE_SIZE_def ZEND_MM_MIN_SIZE_def ZEND_MM_ALIGNED_HEADER_SIZE_def size_t_def)
  have sz: "segment_size 120 h = 2 ^ 18" using h(4) by (simp add: segment_size_def size_sub_def size_t_def ZEND_MM_ALIGNED_SEGMENT_SIZE_def ZEND_MM_ALIGNED_HEADER_SIZE_def)
  have "mem h x = None" if "8192 \<le> x" for x
  proof -
    have "x \<notin> dom (mem h)" using that by (simp add: h(5) cells_def sizeof_heap_def)
    then show ?thesis by blast
  qed
  then have given: "demo_storage (2 ^ 18) (mem h) \<noteq> None" by (simp add: demo_storage_def)
  obtain r h' where r: "zend_mm_alloc_int demo_storage 100 h = Some (r, h')" "case r of Inl e \<Rightarrow> True | Inr p \<Rightarrow> \<exists>b k. p = b + 16 \<and> 100 + 16 \<le> k \<and> mm_ok h' {(b, k)}"
    using alloc_int_post [OF ok demo_storage_ok, of 100] unfolding alloc_post_def by (fastforce split: sum.splits)
  have "\<exists>p. r = Inr p"
  proof (cases r)
    case (Inl e)
    then show ?thesis using alloc_refused [OF ok demo_storage_ok _ r(1) [unfolded Inl]] given h(2,3) unfolding t sz by (simp add: size_t_def)
  qed simp
  then obtain b k where b: "r = Inr (b + 16)" "116 \<le> k" "mm_ok h' {(b, k)}" using r(2) by auto
  have "zend_mm_block_size (b + 16) h' = Some k" using ok_block_size [OF b(3)] by simp
  from alloc_given [OF _ r(1) [unfolded b(1)] this] have "mm_step demo_storage h {} (Alloc 100) h' (insert (b, k) {})" by simp
  from goes [OF h(1) this] that b(2) show ?thesis by blast
qed

section \<open>Properties\<close>

text \<open>
  C6: A program that keeps to the rules never makes the memory manager fault. From the start of the manager, after any sequence of allocations, releases, writes into
  blocks and changes of the limit, with any storage that gives unused, aligned memory below \<open>2 ^ 64\<close>: every request returns, a block or an error; every block
  can be released; every cell of a block can be written, and the recorded size of a block is right; and no two blocks overlap.
\<close>

theorem mm_safety:
  assumes "mm_reach sg h A" and "storage_ok sg"
  shows "(\<forall>n<2 ^ 64. zend_mm_alloc_int sg n h \<noteq> None) \<and>
    (\<forall>(b, n)\<in>A. zend_mm_free_int (b + 16) h \<noteq> None \<and> zend_mm_block_size (b + 16) h = Some n \<and>
       (\<forall>i v. 16 \<le> i \<and> i < n \<and> 8 dvd i \<longrightarrow> st (b + i) v h \<noteq> None)) \<and>
    (\<forall>(b, n)\<in>A. \<forall>(c, k)\<in>A. (b, n) = (c, k) \<or> b + n \<le> c \<or> c + k \<le> b)"
proof -
  note ok = mm_reach_ok [OF assms]
  have "zend_mm_alloc_int sg n h \<noteq> None" if "n < 2 ^ 64" for n using alloc_int_post [OF ok assms(2) that] by (auto simp: alloc_post_def)
  moreover have "zend_mm_free_int (b + 16) h \<noteq> None" if "(b, n) \<in> A" for b n using free_mm_ok [OF ok that] by auto
  moreover have "st (b + i) v h \<noteq> None" if "(b, n) \<in> A" "16 \<le> i" "i < n" "8 dvd i" for b n i v using ok_write [OF ok that] by auto
  ultimately show ?thesis using ok_block_size [OF ok] ok_apart [OF ok] by blast
qed

theorem mm_safety_witness:
  "\<exists>h b k. mm_reach demo_storage h {(b, k)} \<and> zend_mm_alloc_int demo_storage 1000 h \<noteq> None \<and> zend_mm_free_int (b + 16) h \<noteq> None"
proof -
  obtain h b k where h: "mm_reach demo_storage h {(b, k)}" by (rule demo_block)
  show ?thesis using mm_safety [OF h demo_storage_ok] h by (intro exI [of _ h] exI [of _ b] exI [of _ k]) simp
qed

text \<open>
  C7: What a program has written into a block stays there. Through any sequence of further calls, none of which releases the block or writes into it, the program still
  holds the block, with the same size, and all of its data are what they were.
\<close>

theorem mm_contents_kept:
  assumes "mm_reach sg h A" and "storage_ok sg" and "(b, n) \<in> A"
    and "(\<lambda>(h, A) (h', A'). \<exists>c. mm_step sg h A c h' A' \<and> spares (b, n) c)\<^sup>*\<^sup>* (h, A) (h', A')"
  shows "(b, n) \<in> A' \<and> (\<forall>i. 16 \<le> i \<and> i < n \<longrightarrow> mem h' (b + i) = mem h (b + i))"
proof -
  have "mm_ok h' A' \<and> (b, n) \<in> A' \<and> keeps h h' {(b, n)}" using assms(4)
  proof (induction rule: rtranclp_induct2)
    case refl
    then show ?case using mm_reach_ok [OF assms(1,2)] assms(3) by (simp add: keeps_def)
  next
    case (step h1 A1 h2 A2)
    then obtain c where c: "mm_step sg h1 A1 c h2 A2" "spares (b, n) c" by auto
    have "mm_ok h1 A1" "(b, n) \<in> A1" "keeps h h1 {(b, n)}" using step.IH by blast+
    then show ?case using mm_step_ok(1) [OF c(1) _ assms(2)] mm_step_ok(2) [OF c(1) _ assms(2) _ c(2)] keeps_trans by blast
  qed
  then show ?thesis by (simp add: keeps_def)
qed

theorem mm_contents_kept_witness:
  "\<exists>h b k h' A'. mm_reach demo_storage h {(b, k)} \<and> mm_step demo_storage h {(b, k)} (Alloc 40) h' A' \<and> (b, k) \<in> A' \<and> 116 \<le> k \<and> mem h' (b + 24) = mem h (b + 24)"
proof -
  obtain h b k where h: "mm_reach demo_storage h {(b, k)}" "116 \<le> k" by (rule demo_block)
  obtain h' A' where s: "mm_step demo_storage h {(b, k)} (Alloc 40) h' A'"
    using alloc_steps [OF mm_reach_ok [OF h(1) demo_storage_ok] demo_storage_ok, of 40] by auto
  then have "(\<lambda>(h, A) (h', A'). \<exists>c. mm_step demo_storage h A c h' A' \<and> spares (b, k) c)\<^sup>*\<^sup>* (h, {(b, k)}) (h', A')"
    by (intro r_into_rtranclp) auto
  from mm_contents_kept [OF h(1) demo_storage_ok _ this] have "(b, k) \<in> A' \<and> mem h' (b + 24) = mem h (b + 24)" using h(2) by simp
  then show ?thesis using h s by blast
qed

text \<open>
  C8: Allocation. In every state that a program reaches, a request for \<open>n\<close> bytes returns. If it returns a pointer \<open>p\<close>, that is a multiple of 8, a new block begins 16 bytes before it that has
  room for \<open>n\<close> bytes and overlaps no other, its recorded size is right, and the memory taken from the storage is still within the limit (or not more than
  before). If it is refused, then the size overflows, or a new segment would exceed the limit, or the storage refused; the reserve has been given up and the overflow flag is set.
  In both cases the other blocks keep their data.
\<close>

theorem mm_alloc_spec:
  assumes "mm_reach sg h A" and "storage_ok sg" and "n < 2 ^ 64"
  shows "\<exists>r h'. zend_mm_alloc_int sg n h = Some (r, h') \<and> (\<forall>(b, k)\<in>A. \<forall>i. 16 \<le> i \<and> i < k \<longrightarrow> mem h' (b + i) = mem h (b + i)) \<and>
    (case r of
       Inr p \<Rightarrow> \<exists>b k. p = b + 16 \<and> 8 dvd p \<and> n + 16 \<le> k \<and> b + k \<le> 2 ^ 64 \<and> zend_mm_block_size p h' = Some k \<and> mm_reach sg h' (insert (b, k) A) \<and>
         (\<forall>(c, j)\<in>A. b + k \<le> c \<or> c + j \<le> b) \<and> real_size h' \<le> max (real_size h) (limit h)
     | Inl e \<Rightarrow> mm_reach sg h' A \<and> reserve h' = 0 \<and> overflow h' \<noteq> 0 \<and>
         (let t = ZEND_MM_TRUE_SIZE n; s = segment_size t h in t < n \<or> s < t \<or> limit h < size_t (real_size h + s) \<or> sg s (mem h) = None))"
proof -
  note ok = mm_reach_ok [OF assms(1,2)]
  obtain r h' where r: "zend_mm_alloc_int sg n h = Some (r, h')" "keeps h h' A" "case r of
        Inl e \<Rightarrow> mm_ok h' A \<and> reserve h' = 0 \<and> overflow h' = (if overflow h = 0 then 1 else 2)
      | Inr p \<Rightarrow> \<exists>b k. p = b + 16 \<and> n + 16 \<le> k \<and> (b, k) \<notin> A \<and> mm_ok h' (insert (b, k) A) \<and> conf h' = conf h \<and> real_size h' \<le> max (real_size h) (limit h)"
    using alloc_int_post [OF ok assms(2,3)] unfolding alloc_post_def by blast
  have k: "\<forall>(b, k)\<in>A. \<forall>i. 16 \<le> i \<and> i < k \<longrightarrow> mem h' (b + i) = mem h (b + i)" using r(2) by (simp add: keeps_def)
  show ?thesis
  proof (cases r)
    case (Inl e)
    note e = r(1) [unfolded Inl]
    show ?thesis using r(3) k e Inl alloc_refused [OF ok assms(2,3) e] goes [OF assms(1) alloc_refuse [OF assms(3) e]]
      by (intro exI [of _ r] exI [of _ h']) (simp add: Let_def)
  next
    case (Inr p)
    then obtain b j where b: "p = b + 16" "n + 16 \<le> j" "(b, j) \<notin> A" "mm_ok h' (insert (b, j) A)" "real_size h' \<le> max (real_size h) (limit h)" using r(3) by auto
    have bs: "zend_mm_block_size p h' = Some j" using ok_block_size [OF b(4)] b(1) by simp
    obtain B where B: "mm_live h' B" "insert (b, j) A \<subseteq> B" by (rule ok_live [OF b(4)])
    have al: "8 dvd b" "b + j \<le> 2 ^ 64" using live_cells(2,3) [OF B(1), of b j 0] B(2) b(2) by auto
    have ap: "\<forall>(c, i)\<in>A. b + j \<le> c \<or> c + i \<le> b" using ok_apart [OF b(4), of b j] b(3) by blast
    have "mm_reach sg h' (insert (b, j) A)" using goes [OF assms(1) alloc_given [OF assms(3) r(1) [unfolded Inr] bs]] b(1) by simp
    then have "\<exists>b k. p = b + 16 \<and> 8 dvd p \<and> n + 16 \<le> k \<and> b + k \<le> 2 ^ 64 \<and> zend_mm_block_size p h' = Some k \<and> mm_reach sg h' (insert (b, k) A) \<and>
         (\<forall>(c, j)\<in>A. b + k \<le> c \<or> c + j \<le> b) \<and> real_size h' \<le> max (real_size h) (limit h)"
      using b bs al ap by (intro exI [of _ b] exI [of _ j]) simp
    then show ?thesis using r(1) k Inr by (intro exI [of _ r] exI [of _ h']) simp
  qed
qed

theorem mm_alloc_spec_witness: "\<exists>h r h'. mm_reach demo_storage h {} \<and> zend_mm_alloc_int demo_storage 5000 h = Some (r, h') \<and> (\<forall>p. r = Inr p \<longrightarrow> 8 dvd p)"
proof -
  obtain h where h: "mm_reach demo_storage h {}" by (rule demo_started)
  obtain r h' where "zend_mm_alloc_int demo_storage 5000 h = Some (r, h')" "\<forall>p. r = Inr p \<longrightarrow> 8 dvd p"
    using mm_alloc_spec [OF h demo_storage_ok, of 5000] by fastforce
  then show ?thesis using h by blast
qed



text \<open>
  C38: \<^verbatim>\<open>safe_address\<close>, in the version for 64 bits, computes the number of members times the size plus the offset exactly when that fits into 64 bits; otherwise it ends in
  a fatal error. The product in two registers and the carry miss no overflow.
\<close>

theorem safe_address_exact:
  assumes "nmemb < 2 ^ 64" "size' < 2 ^ 64" "offset < 2 ^ 64"
  shows "safe_address nmemb size' offset = (if nmemb * size' + offset < 2 ^ 64 then Some (nmemb * size' + offset) else None)"
proof -
  define P where "P = nmemb * size'"
  define q r where "q = P div 2 ^ 64" and "r = P mod 2 ^ 64"
  have P: "P = q * 2 ^ 64 + r" "r < 2 ^ 64" by (simp_all add: q_def r_def)
  have "P \<le> (2 ^ 64 - 1) * (2 ^ 64 - 1)" unfolding P_def by (rule mult_le_mono) (use assms in auto)
  then have "P < (2 ^ 64 - 1) * 2 ^ 64" by (rule le_less_trans) simp
  then have q: "q < 2 ^ 64 - 1" unfolding q_def by (rule less_mult_imp_div_less)
  have e: "safe_address nmemb size' offset = (if (q + (r + offset) div 2 ^ 64) mod 2 ^ 64 \<noteq> 0 then None else Some ((r + offset) mod 2 ^ 64))"
    by (simp add: safe_address_def Let_def q_def r_def P_def)
  show ?thesis
  proof (cases "r + offset < 2 ^ 64")
    case True
    then show ?thesis using q P(1) unfolding e P_def [symmetric] by (cases "q = 0") simp_all
  next
    case False
    then have "(r + offset) div 2 ^ 64 = 1" using P(2) assms(3) by (intro div_nat_eqI) simp_all
    then show ?thesis using q P(1) False unfolding e P_def [symmetric] by simp
  qed
qed

theorem safe_address_exact_witness: "safe_address 3 5 7 = Some 22 \<and> safe_address (2 ^ 63) 2 1 = None"
  using safe_address_exact [of 3 5 7] safe_address_exact [of "2 ^ 63" 2 1] by simp

end
