(* ===== verification/Spec2Isabelle.thy ===== *)
theory Spec2Isabelle
  imports Zend_Hash_Splice Zend_Hash_Rekey Zend_Stacks Zend_Objects_Store Zend_List Zend_TsHash Zend_Gc_Buffer Zend_String Zend_Mm_Client
begin

text \<open>
  The run-time core of the JONJ engine: the data structures of \<^verbatim>\<open>src/Zend\<close> on which the compiler, the executor and all the extensions
  are built, modelled function by function on an explicit memory.

  \<^bold>\<open>The program.\<close> JONJ is an interpreter of a scripting language, written in C. Its engine compiles scripts to opcodes and executes
  them; extensions add functions, servers embed the engine. Arrays, symbol tables, tables of functions, classes and settings, and
  the lists of resources are all one structure, the ordered hash table of \<^verbatim>\<open>zend_hash.c\<close>. Objects live in the
  object store of \<^verbatim>\<open>zend_objects_API.c\<close> and are counted; what is left of cycles of references is found by the
  collector of \<^verbatim>\<open>zend_gc.c\<close>. Linked lists, stacks and growable arrays serve the compiler and the executor. Sorting of tables and of lists
  goes through \<^verbatim>\<open>zend_qsort.c\<close>. All memory comes from the manager of \<^verbatim>\<open>zend_alloc.c\<close>. In a build for threads, \<^verbatim>\<open>zend_ts_hash.c\<close> wraps tables in a lock.

  \<^bold>\<open>Conventions.\<close> The machine is LP64: \<^verbatim>\<open>ulong\<close> is a 64-bit word, \<^verbatim>\<open>uint\<close> a 32-bit word, with the wrap-around of C. A structure is a record, a
  structure in memory an entry of a partial map from addresses, so that a dangling pointer is an address
  without an entry. A function that reads memory returns an option, with \<open>None\<close> for a fault (a dangling or null
  pointer, an index out of bounds); a status that the C code returns is part of the result. The theorems on a function
  therefore first say that it returns. Addresses of new blocks come from a function that is assumed to give unused ones. Loops along links are
  \<open>partial_function\<close>s, whose theorems say that they end; recursive functions on cyclic data have a bound on
  the depth of the recursion, and their theorems say which bound suffices. Callbacks are arguments.
  The build is a release build, without \<^verbatim>\<open>ZEND_DEBUG\<close>.

  \<^bold>\<open>Shared theories.\<close>
  \<^item> \<open>Zend_Prelude\<close>: the types of the machine, memory as a partial map, list lemmas on neighbours (first, last, next).
  \<^item> \<open>Zend_Dll\<close>: lists threaded through memory by two link fields (\<open>linked\<close>), insertion and removal, and the loops along such a list
    with their rules for total correctness.
  \<^item> \<open>Zend_Store\<close>: the locale \<open>map_store\<close>, the contract of an insertion-ordered map, with what follows for any sequence of operations.

  \<^bold>\<open>Components\<close>, with the files under \<^verbatim>\<open>src/Zend\<close> they model.
  \<^item> \<open>Zend_Qsort\<close> (\<^verbatim>\<open>zend_qsort.c\<close>): the iterative quicksort with its stack of 64 segments. It ends for every comparison
    function, never leaves the array nor overflows the stack, permutes, and sorts by a total preorder.
  \<^item> \<open>Zend_Llist\<close> (\<^verbatim>\<open>zend_llist.c\<close>): all operations refine operations on lists; \<^verbatim>\<open>zend_llist_remove_tail\<close> returns a pointer into memory it has freed.
  \<^item> \<open>Zend_HashFunc\<close> (\<^verbatim>\<open>zend_hash.h\<close>): the unrolled string hash is the plain fold; \<^verbatim>\<open>ZEND_HANDLE_NUMERIC_EX\<close> takes a string for an
    integer exactly when it is the canonical notation of one.
  \<^item> \<open>Zend_Hash\<close>, \<open>Zend_Hash_Inv\<close>, \<open>Zend_Hash_Steps\<close>, \<open>Zend_Hash_Map\<close> (\<^verbatim>\<open>zend_hash.c\<close>): initialising, adding, updating, deleting, finding. The
    invariant \<open>stored\<close> relates the memory (collision chains, global list, counts, mask) to a list of entries; each
    operation implements one on such lists, for string keys and for integer keys, including when the table grows. The locale \<open>map_store\<close> is
    interpreted for string keys, integer keys and symbol tables.
  \<^item> \<open>Zend_Hash_Iter\<close>: destroying, applying a callback (which may delete), copying, merging, internal and external cursors.
    \<open>Zend_Hash_Order\<close>: sorting with \<^verbatim>\<open>zend_qsort\<close> (an interpretation of the locale \<open>sort_routine\<close>), comparing, minimum and maximum. \<open>Zend_Hash_Splice\<close>:
    \<^verbatim>\<open>zend_hash_splice\<close>. \<open>Zend_Hash_Rekey\<close>: changing the key of the current element, and the \<^verbatim>\<open>zend_symtable\<close> functions.
  \<^item> \<open>Zend_Stacks\<close> (\<^verbatim>\<open>zend_stack.c\<close>, \<^verbatim>\<open>zend_ptr_stack.c\<close>, \<^verbatim>\<open>zend_dynamic_array.c\<close>): both stacks are last-in first-out through every
    reallocation (locale \<open>stack_ops\<close>); exactly when a dynamic array stays inside of its block.
  \<^item> \<open>Zend_Objects_Store\<close> (\<^verbatim>\<open>zend_objects_API.c\<close>): handles, the free list threaded through the table, reference counts and destructors. A machine with a stack of unfinished calls
    lets destructors and \<^verbatim>\<open>free_storage\<close> functions do anything that the store allows; its invariant, and the effect of dropping a reference for any such function.
  \<^item> \<open>Zend_List\<close> (\<^verbatim>\<open>zend_list.c\<close>): resources in hash tables: life cycle and types, while identifiers stay below \<open>2 ^ 31\<close>.
  \<^item> \<open>Zend_String\<close> (\<^verbatim>\<open>zend_string.c\<close>): interned strings, a hash table whose buckets fill an area of memory. Pointers to interned strings are equal
    exactly when the strings are; restoring a snapshot forgets exactly the newer strings, because every collision chain has its newest bucket first
    (\<open>aged\<close>), also after the table has grown.
  \<^item> \<open>Zend_TsHash\<close> (\<^verbatim>\<open>zend_ts_hash.c\<close>): the lock for many readers or one writer, as a step relation on the positions of any number
    of threads, with the reset in \<^verbatim>\<open>zend_ts_hash_clean\<close> that takes no lock, the counter that \<^verbatim>\<open>zend_ts_hash_compare\<close> writes as a reader, and fatal errors that keep the lock: exclusion
    always, absence of deadlock without resets and fatal errors, and that a reset with a reader inside jams the lock for ever.
  \<^item> \<open>Zend_Gc_Graph\<close>, \<open>Zend_Gc\<close>, \<open>Zend_Gc_Phases\<close>, \<open>Zend_Gc_Roots\<close>, \<open>Zend_Gc_Collect\<close>, \<open>Zend_Gc_Cycles\<close>, \<open>Zend_Gc_Buffer\<close> (\<^verbatim>\<open>zend_gc.c\<close>, \<^verbatim>\<open>zend_gc.h\<close>): the
    cycle collector. \<open>Zend_Gc_Graph\<close> states the algorithm on a graph with counted references; \<open>Zend_Gc\<close> is the code; \<open>Zend_Gc_Phases\<close> shows
    that its traversals refine the algorithm, with a depth of recursion of at most twice the number of zvals; the
    others treat the list of roots and the phases. A collection finds exactly the values that the roots lead to and nothing alive refers to.
  \<^item> \<open>Zend_Mm\<close>, \<open>Zend_Mm_Ops\<close> (\<^verbatim>\<open>zend_alloc.c\<close>): the memory manager, on a flat memory in which headers of blocks, links of free lists, the arrays of the heap structure and the data of the program
    share one address space. \<open>Zend_Mm_Trees\<close>, \<open>Zend_Mm_Rings\<close>, \<open>Zend_Mm_Nodes\<close>, \<open>Zend_Mm_Remove\<close>, \<open>Zend_Mm_Free\<close> and \<open>Zend_Mm_Lists\<close> show that the free lists (64 rings of small
    blocks, 64 bitwise tries of large ones, the ring of rests) are sets of blocks; \<open>Zend_Mm_Layout\<close> and \<open>Zend_Mm_Heap\<close> state how blocks tile the segments; \<open>Zend_Mm_Release\<close>, \<open>Zend_Mm_Allocate\<close> and \<open>Zend_Mm_Serve\<close>
    show that releasing (with joining of neighbours and the cache) and allocating keep the invariant \<open>mm_ok\<close>, on every path, errors included; \<open>Zend_Mm_Client\<close> is a program that uses the
    manager from its start on, with the theorems. Resizing and the end of a request are modelled, without theorems.

  \<^bold>\<open>How they meet.\<close> \<open>Zend_List\<close>, \<open>Zend_String\<close> and \<open>Zend_TsHash\<close> use the hash table through its model; \<open>Zend_Hash_Order\<close> uses the sort through a locale that
    \<open>Zend_Qsort\<close> interprets; the lists of \<open>Zend_Llist\<close>, the buckets of \<open>Zend_Hash\<close> and the roots of \<open>Zend_Gc\<close> share \<open>Zend_Dll\<close>. The collector
    sees an array as the list of its elements in the order of the hash table, and an object through what its \<^verbatim>\<open>get_gc\<close> handler returns, which
    is taken not to change during a phase. The other components do not run on the memory of \<open>Zend_Mm\<close>: each has its own
    memory of structures, whose new addresses are what \<open>Zend_Mm_Client\<close> shows of the blocks of the manager, unused and apart.

  \<^bold>\<open>Not modelled.\<close> The scanner, the parser and the virtual machine, which are generated or need the whole model of classes and functions first;
  double arithmetic and the conversions that use it; vendored
  libraries, bindings, servers and platform code. The destructors of objects and the functions that release values are arguments of the collector.
  The manifest lists every part with the reason.
\<close>

end
